(* ===== verification/Prelude.thy ===== *)
theory Prelude
  imports Main "HOL-Library.Word" "HOL-Library.Monad_Syntax" "HOL-Library.Product_Lexorder"
begin

text \<open>
  Shared vocabulary of the development: the machine types of the C sources, addresses, the
  outcome of an allocation, and the generic facts on options and lists that the component
  theories rely on.

  A C function is modelled as an Isabelle function whose result has type \<^typ>\<open>'a option\<close>
  whenever the C code can crash, abort or fail to return: \<^const>\<open>None\<close> stands for a
  dereference of a dangling or null pointer, a failed \<open>assert\<close>, a call of \<open>abort\<close>, a lock that
  is never granted or a loop that never ends.  A theorem that ends in \<open>= Some r\<close> therefore says
  that the code returns and what it returns.
\<close>

text \<open>Heap addresses: \<open>NULL\<close> or the location of an object.\<close>

datatype addr = NULL | Loc nat

type_synonym u16 = "16 word"     \<comment> \<open>\<open>uint16_t\<close>\<close>
type_synonym u32 = "32 word"     \<comment> \<open>\<open>uint32_t\<close>, \<open>unsigned int\<close>\<close>
type_synonym u64 = "64 word"     \<comment> \<open>\<open>uint64_t\<close>, \<open>size_t\<close> on a 64-bit host\<close>

text \<open>
  Facts collected for automation: \<open>heap_simps\<close> holds the frame rules of the pointer structures,
  \<open>model_defs\<close> the definitions that symbolic execution of a straight-line C body unfolds.
\<close>

named_theorems heap_simps
named_theorems model_defs

subsection \<open>Options\<close>

lemma bind_eq_SomeI: "x = Some a \<Longrightarrow> f a = Some b \<Longrightarrow> Option.bind x f = Some b"
  by simp

text \<open>
  Symbolic execution evaluates the first step of a sequence before it looks at the rest: the
  congruence rule keeps the simplifier out of the continuation.
\<close>

lemma bind_weak_cong [cong]: "x = x' \<Longrightarrow> Option.bind x f = Option.bind x' f"
  by simp

lemma bind_Some_iff: "(Option.bind x f = Some b) \<longleftrightarrow> (\<exists>a. x = Some a \<and> f a = Some b)"
  by (cases x) auto

subsection \<open>Signed reading of unsigned differences\<close>

text \<open>
  The comparison callbacks return \<open>(int64_t)(a - b)\<close> for unsigned 64-bit \<open>a\<close> and \<open>b\<close>.
  The difference wraps, so its sign orders \<open>a\<close> and \<open>b\<close> only when both lie below \<open>2^63\<close>.
\<close>

definition half64 :: u64 where
  "half64 = 0x8000000000000000"

lemma half64_uint: "uint half64 = 2 ^ 63"
  by (simp add: half64_def)

lemma uint_less_half: "a < half64 \<Longrightarrow> uint a < 2 ^ 63"
  by (simp add: word_less_def half64_uint)

lemma sint_diff_half:
  fixes a b :: u64
  assumes "a < half64" and "b < half64"
  shows "sint (a - b) = uint a - uint b"
proof -
  have bounds: "uint a < 2 ^ 63" "uint b < 2 ^ 63" "0 \<le> uint a" "0 \<le> uint b"
    using assms by (auto dest: uint_less_half)
  have w: "a - b = word_of_int (uint a - uint b)"
    by (rule word_sub_wi)
  have "sint (a - b) = signed_take_bit 63 (uint a - uint b)"
    unfolding w by (subst sint_sbintrunc') simp
  also have "\<dots> = uint a - uint b"
    by (rule signed_take_bit_int_eq_self) (use bounds in linarith)+
  finally show ?thesis .
qed

lemma sint_half: "a < half64 \<Longrightarrow> 0 \<le> sint (a :: u64)"
  using sint_diff_half[of a 0] half64_uint by (simp add: word_less_def)

lemma sint_diff_less: "a < half64 \<Longrightarrow> b < half64 \<Longrightarrow> (sint (a - b :: u64) < 0) = (a < b)"
  by (simp add: sint_diff_half word_less_def)

lemma sint_diff_zero: "(sint (a - b :: u64) = 0) = (a = b)"
  by (metis eq_iff_diff_eq_0 sint_0 signed_word_eqI)

subsection \<open>Lists\<close>

lemma distinct_append_iff:
  "distinct (xs @ ys) \<longleftrightarrow> distinct xs \<and> distinct ys \<and> (\<forall>x \<in> set xs. x \<notin> set ys)"
  by auto

lemma find_append_hit:
  "P d \<Longrightarrow> \<forall>x \<in> set xs. \<not> P x \<Longrightarrow> find P (xs @ d # zs) = Some d"
  by (induction xs) auto

lemma find_key_Some:
  "inj_on key (set xs) \<Longrightarrow> find (\<lambda>x. key x = k) xs = Some x \<longleftrightarrow> x \<in> set xs \<and> key x = k"
  by (induction xs) (auto dest: inj_onD)

lemma find_key_None: "find (\<lambda>x. key x = k) xs = None \<longleftrightarrow> k \<notin> key ` set xs"
  by (auto simp: find_None_iff)

text \<open>Lookup by key in two lists that hold the same elements up to one.\<close>

lemma find_key_insert:
  assumes "inj_on key (set ys)" and "set ys = insert d (set xs)"
  shows "(\<lambda>k. find (\<lambda>x. key x = k) ys) = (\<lambda>k. find (\<lambda>x. key x = k) xs)(key d \<mapsto> d)"
proof
  fix k
  have "inj_on key (set xs)" using assms by (auto intro: inj_on_subset)
  show "find (\<lambda>x. key x = k) ys = ((\<lambda>k. find (\<lambda>x. key x = k) xs)(key d \<mapsto> d)) k"
  proof (cases "key d = k")
    case True
    then show ?thesis using assms by (simp add: find_key_Some)
  next
    case False
    show ?thesis
    proof (cases "find (\<lambda>x. key x = k) xs")
      case None
      then have "k \<notin> key ` set ys" using False assms(2) by (auto simp: find_None_iff)
      then have "find (\<lambda>x. key x = k) ys = None" by (simp only: find_key_None not_False_eq_True)
      then show ?thesis using None False by simp
    next
      case (Some x)
      then have "x \<in> set xs" "key x = k" by (auto simp: find_Some_iff)
      then have "find (\<lambda>x. key x = k) ys = Some x" using assms by (simp add: find_key_Some)
      then show ?thesis using False Some by simp
    qed
  qed
qed

lemma find_key_delete:
  assumes "inj_on key (set xs)" and "set xs = insert d (set ys)" and "d \<notin> set ys"
  shows "(\<lambda>k. find (\<lambda>x. key x = k) ys) = (\<lambda>k. find (\<lambda>x. key x = k) xs)(key d := None)"
proof -
  have "key d \<notin> key ` set ys" using assms by (auto dest: inj_onD)
  then have "find (\<lambda>x. key x = key d) ys = None" by (simp add: find_key_None)
  then show ?thesis using find_key_insert[OF assms(1,2)] by (metis fun_upd_triv fun_upd_upd)
qed

text \<open>One bucket of a list of buckets.\<close>

lemma concat_map_nth:
  "i < length ts \<Longrightarrow> concat (map f ts) =
     concat (map f (take i ts)) @ f (ts ! i) @ concat (map f (drop (Suc i) ts))"
  by (subst id_take_nth_drop[of i ts]) auto

lemma concat_map_update:
  "i < length ts \<Longrightarrow> concat (map f (ts[i := t])) =
     concat (map f (take i ts)) @ f t @ concat (map f (drop (Suc i) ts))"
  by (simp add: upd_conv_take_nth_drop)

lemma length_bucket: "t \<in> set ts \<Longrightarrow> length (f t) \<le> length (concat (map f ts))"
  by (induction ts) auto

lemma distinct_buckets:
  "(\<And>i. i < length ts \<Longrightarrow> distinct (f (ts ! i)) \<and> (\<forall>x \<in> set (f (ts ! i)). slot x = n + i)) \<Longrightarrow>
   distinct (concat (map f ts))"
proof (induction ts arbitrary: n)
  case (Cons t ts)
  have tl: "distinct (f (ts ! i)) \<and> (\<forall>x \<in> set (f (ts ! i)). slot x = Suc n + i)"
    if "i < length ts" for i using Cons.prems[of "Suc i"] that by simp
  have "x \<notin> set (f t)" if mem: "x \<in> set (concat (map f ts))" for x
  proof
    assume "x \<in> set (f t)"
    then have "slot x = n" using Cons.prems[of 0] by simp
    moreover obtain i where "i < length ts" "x \<in> set (f (ts ! i))"
      using mem by (fastforce simp: in_set_conv_nth[of _ ts])
    then have "slot x = Suc n + i" using tl[of i] by blast
    ultimately show False by simp
  qed
  moreover have "distinct (concat (map f ts))" by (rule Cons.IH[of "Suc n"]) (rule tl)
  moreover have "distinct (f t)" using Cons.prems[of 0] by simp
  ultimately show ?case unfolding list.map concat.simps distinct_append by blast
qed simp

subsection \<open>Allocation\<close>

text \<open>
  The outcomes of the coming allocations, in order; when the list is used up every allocation
  succeeds.
\<close>

type_synonym allocs = "bool list"

fun alloc_take :: "allocs \<Rightarrow> bool \<times> allocs" where
  "alloc_take [] = (True, [])"
| "alloc_take (a # al) = (a, al)"

end
