(* ===== verification/Rb_Tree.thy ===== *)
theory Rb_Tree
  imports Prelude
begin

text \<open>
  The model of \<open>src/clang/lib/core/rb_tree.c\<close>: red-black trees with parent pointers and a
  sentinel, on an explicit node heap.  Every tree owns the heap its nodes live in (the C code
  allocates nodes through the tree's own allocator and never shares them).  Reading or writing
  an address with no node is \<^const>\<open>None\<close>, so is a failed \<open>rbt_assert\<close>; the loops are
  \<^theory_text>\<open>partial_function (option)\<close>, so that a loop that does not end is \<^const>\<open>None\<close>
  as well.
\<close>

subsection \<open>Data (\<open>rb_tree.h\<close>)\<close>

datatype rbt_color = RBT_COLOR_BLACK | RBT_COLOR_RED

datatype rbt_ret = RBT_OK | RBT_ERR | RBT_NODE_EXIST

text \<open>\<open>data\<close> is \<^const>\<open>None\<close> where the C field is not set (the sentinel, a node just made).\<close>

record 'a rbt_node =
  color :: rbt_color
  parent :: addr
  lchild :: addr
  rchild :: addr
  data :: "'a option"

text \<open>
  \<open>rb_mem\<close> is the node heap and \<open>rb_brk\<close> the location the tree's allocator hands out next: the
  allocator returns memory that no live object uses.
\<close>

record 'a rbt_tree =
  rb_num :: u64
  root :: addr
  sentinel :: addr
  cmp_cb :: "'a \<Rightarrow> 'a \<Rightarrow> int"
  rb_mem :: "addr \<rightharpoonup> 'a rbt_node"
  rb_brk :: nat

definition rb_upd :: "'a rbt_tree \<Rightarrow> addr \<Rightarrow> ('a rbt_node \<Rightarrow> 'a rbt_node) \<Rightarrow> 'a rbt_tree option" where
  "rb_upd tree p f = (case rb_mem tree p of
      None \<Rightarrow> None
    | Some n \<Rightarrow> Some (tree\<lparr>rb_mem := (rb_mem tree)(p \<mapsto> f n)\<rparr>))"

definition rbt_is_red :: "'a rbt_tree \<Rightarrow> addr \<Rightarrow> bool option" where
  "rbt_is_red tree p = map_option (\<lambda>n. color n = RBT_COLOR_RED) (rb_mem tree p)"

definition rbt_is_black :: "'a rbt_tree \<Rightarrow> addr \<Rightarrow> bool option" where
  "rbt_is_black tree p = map_option (\<lambda>n. color n = RBT_COLOR_BLACK) (rb_mem tree p)"

definition rbt_set_color :: "'a rbt_tree \<Rightarrow> addr \<Rightarrow> rbt_color \<Rightarrow> 'a rbt_tree option" where
  "rbt_set_color tree p c = rb_upd tree p (\<lambda>n. n\<lparr>color := c\<rparr>)"

definition rbt_set_red :: "'a rbt_tree \<Rightarrow> addr \<Rightarrow> 'a rbt_tree option" where
  "rbt_set_red tree p = rbt_set_color tree p RBT_COLOR_RED"

definition rbt_set_black :: "'a rbt_tree \<Rightarrow> addr \<Rightarrow> 'a rbt_tree option" where
  "rbt_set_black tree p = rbt_set_color tree p RBT_COLOR_BLACK"

definition rbt_copy_color :: "'a rbt_tree \<Rightarrow> addr \<Rightarrow> addr \<Rightarrow> 'a rbt_tree option" where
  "rbt_copy_color tree p src = do {
     s \<leftarrow> rb_mem tree src;
     rbt_set_color tree p (color s) }"

definition rbt_set_lchild :: "'a rbt_tree \<Rightarrow> addr \<Rightarrow> addr \<Rightarrow> 'a rbt_tree option" where
  "rbt_set_lchild tree node left = do {
     tree \<leftarrow> rb_upd tree node (\<lambda>n. n\<lparr>lchild := left\<rparr>);
     if sentinel tree \<noteq> left then rb_upd tree left (\<lambda>n. n\<lparr>parent := node\<rparr>) else Some tree }"

definition rbt_set_rchild :: "'a rbt_tree \<Rightarrow> addr \<Rightarrow> addr \<Rightarrow> 'a rbt_tree option" where
  "rbt_set_rchild tree node right = do {
     tree \<leftarrow> rb_upd tree node (\<lambda>n. n\<lparr>rchild := right\<rparr>);
     if sentinel tree \<noteq> right then rb_upd tree right (\<lambda>n. n\<lparr>parent := node\<rparr>) else Some tree }"

text \<open>\<open>type\<close> is \<open>RBT_LCHILD\<close> (0) or \<open>RBT_RCHILD\<close> (1).\<close>

definition RBT_LCHILD :: nat where "RBT_LCHILD = 0"
definition RBT_RCHILD :: nat where "RBT_RCHILD = 1"

definition rbt_set_child :: "'a rbt_tree \<Rightarrow> addr \<Rightarrow> nat \<Rightarrow> addr \<Rightarrow> 'a rbt_tree option" where
  "rbt_set_child tree node type child =
     (if RBT_LCHILD = type then rbt_set_lchild tree node child
      else rbt_set_rchild tree node child)"

text \<open>\<open>tree->dealloc(tree->pool, node)\<close>: the node leaves the heap; freeing it twice is an error.\<close>

definition rb_dealloc :: "'a rbt_tree \<Rightarrow> addr \<Rightarrow> 'a rbt_tree option" where
  "rb_dealloc tree p = (case rb_mem tree p of
      None \<Rightarrow> None
    | Some _ \<Rightarrow> Some (tree\<lparr>rb_mem := (rb_mem tree)(p := None)\<rparr>))"

subsection \<open>Structure checks and rotations\<close>

definition rbt_assert :: "'a rbt_tree \<Rightarrow> addr \<Rightarrow> unit option" where
  "rbt_assert tree node =
     (if node = NULL \<or> sentinel tree = node then Some ()
      else do {
        n \<leftarrow> rb_mem tree node;
        if sentinel tree = parent n then Some ()
        else if parent n = lchild n \<or> parent n = rchild n then None
        else do {
          p \<leftarrow> rb_mem tree (parent n);
          if lchild p \<noteq> node \<and> rchild p \<noteq> node \<and> sentinel tree \<noteq> node then None
          else Some () } })"

text \<open>
  Each rotation is its pointer updates (\<open>_links\<close>) followed by the three \<open>rbt_assert\<close> calls.
\<close>

definition rbt_right_rotate_links :: "'a rbt_tree \<Rightarrow> addr \<Rightarrow> 'a rbt_tree option" where
  "rbt_right_rotate_links tree node = do {
     n \<leftarrow> rb_mem tree node;
     let par = parent n;
     let lch = lchild n;
     tree \<leftarrow> (if sentinel tree = par
              then rb_upd (tree\<lparr>root := lch\<rparr>) lch (\<lambda>n. n\<lparr>parent := sentinel tree\<rparr>)
              else do {
                p \<leftarrow> rb_mem tree par;
                if node = lchild p then rbt_set_lchild tree par lch
                else rbt_set_rchild tree par lch });
     l \<leftarrow> rb_mem tree lch;
     tree \<leftarrow> rbt_set_lchild tree node (rchild l);
     tree \<leftarrow> rbt_set_rchild tree lch node;
     Some tree }"

definition rbt_right_rotate :: "'a rbt_tree \<Rightarrow> addr \<Rightarrow> 'a rbt_tree option" where
  "rbt_right_rotate tree node = do {
     n \<leftarrow> rb_mem tree node;
     tree \<leftarrow> rbt_right_rotate_links tree node;
     _ \<leftarrow> rbt_assert tree node;
     _ \<leftarrow> rbt_assert tree (lchild n);
     _ \<leftarrow> rbt_assert tree (parent n);
     Some tree }"

definition rbt_left_rotate_links :: "'a rbt_tree \<Rightarrow> addr \<Rightarrow> 'a rbt_tree option" where
  "rbt_left_rotate_links tree node = do {
     n \<leftarrow> rb_mem tree node;
     let par = parent n;
     let rch = rchild n;
     tree \<leftarrow> (if sentinel tree = par
              then rb_upd (tree\<lparr>root := rch\<rparr>) rch (\<lambda>n. n\<lparr>parent := sentinel tree\<rparr>)
              else do {
                p \<leftarrow> rb_mem tree par;
                if node = lchild p then rbt_set_lchild tree par rch
                else rbt_set_rchild tree par rch });
     r \<leftarrow> rb_mem tree rch;
     tree \<leftarrow> rbt_set_rchild tree node (lchild r);
     tree \<leftarrow> rbt_set_lchild tree rch node;
     Some tree }"

definition rbt_left_rotate :: "'a rbt_tree \<Rightarrow> addr \<Rightarrow> 'a rbt_tree option" where
  "rbt_left_rotate tree node = do {
     n \<leftarrow> rb_mem tree node;
     tree \<leftarrow> rbt_left_rotate_links tree node;
     _ \<leftarrow> rbt_assert tree node;
     _ \<leftarrow> rbt_assert tree (rchild n);
     _ \<leftarrow> rbt_assert tree (parent n);
     Some tree }"

subsection \<open>Creation\<close>

text \<open>
  The outcome of \<open>rbt_creat\<close>.  Where the allocation of the sentinel fails the C code calls
  \<open>tree->dealloc\<close>, a field it has not set yet: the model has no value for that call.
\<close>

definition rbt_creat :: "bool \<Rightarrow> bool \<Rightarrow> ('a \<Rightarrow> 'a \<Rightarrow> int) \<Rightarrow> 'a rbt_tree option option" where
  "rbt_creat alloc_tree alloc_sentinel cmp =
     (if \<not> alloc_tree then Some None
      else if \<not> alloc_sentinel then None
      else Some (Some \<lparr>rb_num = 0, root = Loc 0, sentinel = Loc 0, cmp_cb = cmp,
             rb_mem = [Loc 0 \<mapsto> \<lparr>color = RBT_COLOR_BLACK, parent = NULL, lchild = NULL,
                                rchild = NULL, data = None\<rparr>],
             rb_brk = 1\<rparr>))"

text \<open>\<open>alloc\<close> tells whether the tree's allocator returns memory; \<open>NULL\<close> is returned if not.\<close>

definition rbt_creat_node ::
  "'a rbt_tree \<Rightarrow> bool \<Rightarrow> rbt_color \<Rightarrow> nat \<Rightarrow> addr \<Rightarrow> (addr \<times> 'a rbt_tree) option" where
  "rbt_creat_node tree alloc c type par =
     (if \<not> alloc then Some (NULL, tree)
      else do {
        let node = Loc (rb_brk tree);
        let tree = tree\<lparr>rb_mem := (rb_mem tree)(node \<mapsto>
              \<lparr>color = c, parent = NULL, lchild = sentinel tree, rchild = sentinel tree,
                 data = None\<rparr>), rb_brk := Suc (rb_brk tree)\<rparr>;
        tree \<leftarrow> (if par \<noteq> NULL then rbt_set_child tree par type node
                 else rb_upd tree node (\<lambda>n. n\<lparr>parent := sentinel tree\<rparr>));
        Some (node, tree) })"

subsection \<open>Insertion\<close>

partial_function (option) rbt_insert_fixup ::
  "'a rbt_tree \<Rightarrow> addr \<Rightarrow> (rbt_ret \<times> 'a rbt_tree) option" where
  "rbt_insert_fixup tree node = do {
     red \<leftarrow> rbt_is_red tree node;
     if \<not> red then Some (RBT_OK, tree)
     else do {
       n \<leftarrow> rb_mem tree node;
       let par = parent n;
       pblack \<leftarrow> rbt_is_black tree par;
       if pblack then Some (RBT_OK, tree)
       else do {
         p \<leftarrow> rb_mem tree par;
         let grandpa = parent p;
         g \<leftarrow> rb_mem tree grandpa;
         if par = lchild g then do {
           let uncle = rchild g;
           ured \<leftarrow> rbt_is_red tree uncle;
           if ured then do {
             tree \<leftarrow> rbt_set_black tree par;
             tree \<leftarrow> rbt_set_black tree uncle;
             tree \<leftarrow> (if grandpa \<noteq> root tree then rbt_set_red tree grandpa else Some tree);
             rbt_insert_fixup tree grandpa }
           else if node = lchild p then do {
             let gparent = parent g;
             tree \<leftarrow> rbt_set_red tree grandpa;
             tree \<leftarrow> rbt_set_black tree par;
             tree \<leftarrow> rbt_right_rotate tree grandpa;
             rbt_insert_fixup tree gparent }
           else do {
             tree \<leftarrow> rbt_left_rotate tree par;
             rbt_insert_fixup tree par } }
         else do {
           let uncle = lchild g;
           ured \<leftarrow> rbt_is_red tree uncle;
           if ured then do {
             tree \<leftarrow> rbt_set_black tree par;
             tree \<leftarrow> rbt_set_black tree uncle;
             tree \<leftarrow> (if grandpa \<noteq> root tree then rbt_set_red tree grandpa else Some tree);
             rbt_insert_fixup tree grandpa }
           else if node = lchild p then do {
             tree \<leftarrow> rbt_right_rotate tree par;
             rbt_insert_fixup tree par }
           else do {
             let gparent = parent g;
             tree \<leftarrow> rbt_set_black tree par;
             tree \<leftarrow> rbt_set_red tree grandpa;
             tree \<leftarrow> rbt_left_rotate tree grandpa;
             rbt_insert_fixup tree gparent } } } } }"

text \<open>Linking a new red node below \<open>node\<close>: the two symmetric branches of \<open>rbt_insert\<close>.\<close>

definition rbt_add_leaf ::
  "'a rbt_tree \<Rightarrow> bool \<Rightarrow> addr \<Rightarrow> nat \<Rightarrow> 'a \<Rightarrow> (addr \<times> 'a rbt_tree) option" where
  "rbt_add_leaf tree alloc node type d = do {
     (add, tree) \<leftarrow> rbt_creat_node tree alloc RBT_COLOR_RED type node;
     if add = NULL then Some (NULL, tree)
     else do {
       tree \<leftarrow> rb_upd (tree\<lparr>rb_num := rb_num tree + 1\<rparr>) add (\<lambda>n. n\<lparr>data := Some d\<rparr>);
       Some (add, tree) } }"

definition rbt_insert_at ::
  "'a rbt_tree \<Rightarrow> bool \<Rightarrow> addr \<Rightarrow> nat \<Rightarrow> 'a \<Rightarrow> (rbt_ret \<times> 'a rbt_tree) option" where
  "rbt_insert_at tree alloc node type d = do {
     (add, tree) \<leftarrow> rbt_add_leaf tree alloc node type d;
     if add = NULL then Some (RBT_ERR, tree) else rbt_insert_fixup tree add }"

partial_function (option) rbt_insert_loop ::
  "'a rbt_tree \<Rightarrow> bool \<Rightarrow> 'a \<Rightarrow> addr \<Rightarrow> (rbt_ret \<times> 'a rbt_tree) option" where
  "rbt_insert_loop tree alloc d node =
     (if sentinel tree = node then Some (RBT_OK, tree)
      else do {
        n \<leftarrow> rb_mem tree node;
        e \<leftarrow> data n;
        let ret = cmp_cb tree d e;
        if 0 = ret then Some (RBT_NODE_EXIST, tree)
        else if ret < 0 then
          (if sentinel tree = lchild n then rbt_insert_at tree alloc node RBT_LCHILD d
           else rbt_insert_loop tree alloc d (lchild n))
        else
          (if sentinel tree = rchild n then rbt_insert_at tree alloc node RBT_RCHILD d
           else rbt_insert_loop tree alloc d (rchild n)) })"

definition rbt_insert :: "'a rbt_tree \<Rightarrow> bool \<Rightarrow> 'a \<Rightarrow> (rbt_ret \<times> 'a rbt_tree) option" where
  "rbt_insert tree alloc d =
     (if sentinel tree = root tree then do {
        (r, tree) \<leftarrow> rbt_creat_node tree alloc RBT_COLOR_BLACK 0 NULL;
        let tree = tree\<lparr>root := r\<rparr>;
        if NULL = root tree then Some (RBT_ERR, tree\<lparr>root := sentinel tree\<rparr>)
        else do {
          tree \<leftarrow> rb_upd (tree\<lparr>rb_num := rb_num tree + 1\<rparr>) (root tree) (\<lambda>n. n\<lparr>data := Some d\<rparr>);
          Some (RBT_OK, tree) } }
      else rbt_insert_loop tree alloc d (root tree))"

subsection \<open>Lookup\<close>

partial_function (option) rbt_query_loop :: "'a rbt_tree \<Rightarrow> 'a \<Rightarrow> addr \<Rightarrow> addr option" where
  "rbt_query_loop tree key node =
     (if sentinel tree = node then Some NULL
      else do {
        n \<leftarrow> rb_mem tree node;
        e \<leftarrow> data n;
        let ret = cmp_cb tree key e;
        if 0 = ret then Some node
        else if ret < 0 then rbt_query_loop tree key (lchild n)
        else rbt_query_loop tree key (rchild n) })"

text \<open>
  The result is \<^const>\<open>None\<close> inside \<^const>\<open>Some\<close> where the C function returns \<open>NULL\<close>.
\<close>

definition rbt_query :: "'a rbt_tree \<Rightarrow> 'a \<Rightarrow> 'a option option" where
  "rbt_query tree key = do {
     node \<leftarrow> rbt_query_loop tree key (root tree);
     if node = NULL then Some None
     else do { n \<leftarrow> rb_mem tree node; Some (data n) } }"

text \<open>
  A store through the pointer that \<open>rbt_query\<close> returned: the object the node refers to gets a
  new value.  The C clients update the fields of a stored object this way.
\<close>

definition rbt_store :: "'a rbt_tree \<Rightarrow> 'a \<Rightarrow> 'a \<Rightarrow> 'a rbt_tree option" where
  "rbt_store tree key d = do {
     node \<leftarrow> rbt_query_loop tree key (root tree);
     if node = NULL then None else rb_upd tree node (\<lambda>n. n\<lparr>data := Some d\<rparr>) }"

subsection \<open>Deletion\<close>

text \<open>
  The body of the loop of \<open>rbt_delete_fixup\<close>, for a \<open>node\<close> that is a left child (cases 1 to 4 of
  the source) or a right child (cases 5 to 8): first a red brother is rotated away, then the
  black brother decides.  The results are the next node and the brother the body ends with.
\<close>

definition rbt_delete_brother_l :: "'a rbt_tree \<Rightarrow> addr \<Rightarrow> (addr \<times> 'a rbt_tree) option" where
  "rbt_delete_brother_l tree par = do {
     p \<leftarrow> rb_mem tree par;
     let brother = rchild p;
     bred \<leftarrow> rbt_is_red tree brother;
     if bred then do {
       tree \<leftarrow> rbt_set_red tree par;
       tree \<leftarrow> rbt_set_black tree brother;
       tree \<leftarrow> rbt_left_rotate tree par;
       p \<leftarrow> rb_mem tree par;
       Some (rchild p, tree) }
     else Some (brother, tree) }"

definition rbt_delete_cases_l ::
  "'a rbt_tree \<Rightarrow> addr \<Rightarrow> addr \<Rightarrow> (addr \<times> addr \<times> 'a rbt_tree) option" where
  "rbt_delete_cases_l tree par brother = do {
     b \<leftarrow> rb_mem tree brother;
     lblack \<leftarrow> rbt_is_black tree (lchild b);
     rblack \<leftarrow> rbt_is_black tree (rchild b);
     if lblack \<and> rblack then do {
       tree \<leftarrow> rbt_set_red tree brother;
       Some (par, brother, tree) }
     else do {
       (brother, tree) \<leftarrow> (if rblack then do {
         tree \<leftarrow> rbt_set_black tree (lchild b);
         tree \<leftarrow> rbt_set_red tree brother;
         tree \<leftarrow> rbt_right_rotate tree brother;
         p \<leftarrow> rb_mem tree par;
         Some (rchild p, tree) }
       else Some (brother, tree));
       tree \<leftarrow> rbt_copy_color tree brother par;
       b \<leftarrow> rb_mem tree brother;
       tree \<leftarrow> rbt_set_black tree (rchild b);
       tree \<leftarrow> rbt_set_black tree par;
       tree \<leftarrow> rbt_left_rotate tree par;
       Some (root tree, brother, tree) } }"

definition rbt_delete_brother_r :: "'a rbt_tree \<Rightarrow> addr \<Rightarrow> (addr \<times> 'a rbt_tree) option" where
  "rbt_delete_brother_r tree par = do {
     p \<leftarrow> rb_mem tree par;
     let brother = lchild p;
     bred \<leftarrow> rbt_is_red tree brother;
     if bred then do {
       tree \<leftarrow> rbt_set_red tree par;
       tree \<leftarrow> rbt_set_black tree brother;
       tree \<leftarrow> rbt_right_rotate tree par;
       p \<leftarrow> rb_mem tree par;
       Some (lchild p, tree) }
     else Some (brother, tree) }"

definition rbt_delete_cases_r ::
  "'a rbt_tree \<Rightarrow> addr \<Rightarrow> addr \<Rightarrow> (addr \<times> addr \<times> 'a rbt_tree) option" where
  "rbt_delete_cases_r tree par brother = do {
     b \<leftarrow> rb_mem tree brother;
     lblack \<leftarrow> rbt_is_black tree (lchild b);
     rblack \<leftarrow> rbt_is_black tree (rchild b);
     if lblack \<and> rblack then do {
       tree \<leftarrow> rbt_set_red tree brother;
       Some (par, brother, tree) }
     else do {
       (brother, tree) \<leftarrow> (if lblack then do {
         tree \<leftarrow> rbt_set_red tree brother;
         tree \<leftarrow> rbt_set_black tree (rchild b);
         tree \<leftarrow> rbt_left_rotate tree brother;
         p \<leftarrow> rb_mem tree par;
         Some (lchild p, tree) }
       else Some (brother, tree));
       tree \<leftarrow> rbt_copy_color tree brother par;
       b \<leftarrow> rb_mem tree brother;
       tree \<leftarrow> rbt_set_black tree (lchild b);
       tree \<leftarrow> rbt_set_black tree par;
       tree \<leftarrow> rbt_right_rotate tree par;
       Some (root tree, brother, tree) } }"

definition rbt_delete_step ::
  "'a rbt_tree \<Rightarrow> addr \<Rightarrow> addr \<Rightarrow> (addr \<times> addr \<times> 'a rbt_tree) option" where
  "rbt_delete_step tree node par = do {
     p \<leftarrow> rb_mem tree par;
     if node = lchild p then do {
       (brother, tree) \<leftarrow> rbt_delete_brother_l tree par;
       rbt_delete_cases_l tree par brother }
     else do {
       (brother, tree) \<leftarrow> rbt_delete_brother_r tree par;
       rbt_delete_cases_r tree par brother } }"

text \<open>\<open>par0\<close> and \<open>bro0\<close> are the values of the C variables \<open>parent\<close> and \<open>brother\<close>.\<close>

partial_function (option) rbt_delete_fixup ::
  "'a rbt_tree \<Rightarrow> addr \<Rightarrow> addr \<Rightarrow> addr \<Rightarrow> (rbt_ret \<times> 'a rbt_tree) option" where
  "rbt_delete_fixup tree node par0 bro0 = do {
     black \<leftarrow> rbt_is_black tree node;
     if \<not> (black \<and> root tree \<noteq> node) then do {
       tree \<leftarrow> rbt_set_black tree node;
       _ \<leftarrow> rbt_assert tree node;
       _ \<leftarrow> rbt_assert tree bro0;
       _ \<leftarrow> rbt_assert tree par0;
       Some (RBT_OK, tree) }
     else do {
       n \<leftarrow> rb_mem tree node;
       (node', brother, tree) \<leftarrow> rbt_delete_step tree node (parent n);
       rbt_delete_fixup tree node' (parent n) brother } }"

text \<open>\<open>while (tree->sentinel != next->lchild) next = next->lchild;\<close>\<close>

partial_function (option) rbt_leftmost :: "'a rbt_tree \<Rightarrow> addr \<Rightarrow> addr option" where
  "rbt_leftmost tree next = do {
     n \<leftarrow> rb_mem tree next;
     if sentinel tree \<noteq> lchild n then rbt_leftmost tree (lchild n) else Some next }"

text \<open>The pointer of \<open>par\<close> that led to \<open>node\<close> is set to \<open>refer\<close>.\<close>

definition rbt_replace_child ::
  "'a rbt_tree \<Rightarrow> addr \<Rightarrow> addr \<Rightarrow> addr \<Rightarrow> 'a rbt_tree option" where
  "rbt_replace_child tree par node refer = do {
     p \<leftarrow> rb_mem tree par;
     if node = lchild p then rb_upd tree par (\<lambda>n. n\<lparr>lchild := refer\<rparr>)
     else rb_upd tree par (\<lambda>n. n\<lparr>rchild := refer\<rparr>) }"

text \<open>The common end of the three cases of \<open>_rbt_delete\<close>.\<close>

definition rbt_delete_finish ::
  "'a rbt_tree \<Rightarrow> addr \<Rightarrow> addr \<Rightarrow> (rbt_ret \<times> 'a rbt_tree) option" where
  "rbt_delete_finish tree node refer = do {
     red \<leftarrow> rbt_is_red tree node;
     tree \<leftarrow> rb_dealloc tree node;
     if red then Some (RBT_OK, tree) else rbt_delete_fixup tree refer NULL NULL }"

text \<open>
  Cases 1 and 2 of \<open>_rbt_delete\<close> are the same code up to the child \<open>refer\<close> that takes the place
  of \<open>dnode\<close>.
\<close>

definition rbt_delete_splice ::
  "'a rbt_tree \<Rightarrow> addr \<Rightarrow> addr \<Rightarrow> (rbt_ret \<times> 'a rbt_tree) option" where
  "rbt_delete_splice tree dnode refer = do {
     dn \<leftarrow> rb_mem tree dnode;
     let par = parent dn;
     tree \<leftarrow> rb_upd tree refer (\<lambda>n. n\<lparr>parent := par\<rparr>);
     tree \<leftarrow> (if sentinel tree = par then Some (tree\<lparr>root := refer\<rparr>)
              else rbt_replace_child tree par dnode refer);
     rbt_delete_finish tree dnode refer }"

definition rbt_delete_node :: "'a rbt_tree \<Rightarrow> addr \<Rightarrow> (rbt_ret \<times> 'a rbt_tree) option" where
  "rbt_delete_node tree dnode = do {
     dn \<leftarrow> rb_mem tree dnode;
     if sentinel tree = lchild dn then rbt_delete_splice tree dnode (rchild dn)
     else if sentinel tree = rchild dn then rbt_delete_splice tree dnode (lchild dn)
     else do {
       next \<leftarrow> rbt_leftmost tree (rchild dn);
       nn \<leftarrow> rb_mem tree next;
       let par = parent nn;
       let refer = rchild nn;
       tree \<leftarrow> rb_upd tree refer (\<lambda>n. n\<lparr>parent := par\<rparr>);
       tree \<leftarrow> rbt_replace_child tree par next refer;
       tree \<leftarrow> rb_upd tree dnode (\<lambda>n. n\<lparr>data := data nn\<rparr>);
       rbt_delete_finish tree next refer } }"

text \<open>
  The result is the return code, the value written to \<open>*data\<close> and the tree.  The search loop of
  \<open>rbt_delete\<close> is the loop of \<open>rbt_query\<close>.
\<close>

definition rbt_delete :: "'a rbt_tree \<Rightarrow> 'a \<Rightarrow> (rbt_ret \<times> 'a option \<times> 'a rbt_tree) option" where
  "rbt_delete tree key = do {
     node \<leftarrow> rbt_query_loop tree key (root tree);
     if node = NULL then Some (RBT_OK, None, tree)
     else do {
       n \<leftarrow> rb_mem tree node;
       (ret, tree) \<leftarrow> rbt_delete_node (tree\<lparr>rb_num := rb_num tree - 1\<rparr>) node;
       Some (ret, data n, tree) } }"

subsection \<open>Execution rules\<close>

text \<open>One rewrite rule per primitive, for an address that holds a node.\<close>

declare rbt_insert_fixup.simps [code]
  and rbt_insert_loop.simps [code]
  and rbt_query_loop.simps [code]
  and rbt_delete_fixup.simps [code]
  and rbt_leftmost.simps [code]

lemma rb_upd_Some [model_defs]:
  "rb_mem T p = Some n \<Longrightarrow> rb_upd T p f = Some (T\<lparr>rb_mem := (rb_mem T)(p \<mapsto> f n)\<rparr>)"
  by (simp add: rb_upd_def)

lemma rbt_is_red_Some [model_defs]:
  "rb_mem T p = Some n \<Longrightarrow> rbt_is_red T p = Some (color n = RBT_COLOR_RED)"
  by (simp add: rbt_is_red_def)

lemma rbt_is_black_Some [model_defs]:
  "rb_mem T p = Some n \<Longrightarrow> rbt_is_black T p = Some (color n = RBT_COLOR_BLACK)"
  by (simp add: rbt_is_black_def)

lemma rb_dealloc_Some [model_defs]:
  "rb_mem T p = Some n \<Longrightarrow> rb_dealloc T p = Some (T\<lparr>rb_mem := (rb_mem T)(p := None)\<rparr>)"
  by (simp add: rb_dealloc_def)

lemmas rbt_step_defs [model_defs] =
  rbt_set_color_def rbt_set_red_def rbt_set_black_def rbt_copy_color_def rbt_set_lchild_def
  rbt_set_rchild_def rbt_set_child_def Let_def

end
