(* ===== verification/Rb_Zip.thy ===== *)
theory Rb_Zip
  imports Rb_Tree
begin

text \<open>
  The shape of a tree on the node heap.  A tree is a term whose nodes carry their addresses; a
  position in it is a pair of a context (the path up to the root, innermost frame first, with the
  sibling trees) and the subtree below.  \<open>rb_at\<close> says that a heap holds such a position.  The
  rotations become rewrites of the subtree in any context.
\<close>

subsection \<open>Addressed trees and contexts\<close>

datatype 'a rtree = Lf | Nd "'a rtree" addr rbt_color 'a "'a rtree"

datatype 'a frame = FL addr rbt_color 'a "'a rtree" | FR "'a rtree" addr rbt_color 'a

fun ptr :: "addr \<Rightarrow> 'a rtree \<Rightarrow> addr" where
  "ptr s Lf = s"
| "ptr s (Nd l p c d r) = p"

fun taddrs :: "'a rtree \<Rightarrow> addr list" where
  "taddrs Lf = []"
| "taddrs (Nd l p c d r) = p # taddrs l @ taddrs r"

fun inorder :: "'a rtree \<Rightarrow> 'a list" where
  "inorder Lf = []"
| "inorder (Nd l p c d r) = inorder l @ d # inorder r"

fun tcolor :: "'a rtree \<Rightarrow> rbt_color" where
  "tcolor Lf = RBT_COLOR_BLACK"
| "tcolor (Nd l p c d r) = c"

fun caddrs :: "'a frame list \<Rightarrow> addr list" where
  "caddrs [] = []"
| "caddrs (FL p c d r # k) = p # taddrs r @ caddrs k"
| "caddrs (FR l p c d # k) = p # taddrs l @ caddrs k"

fun cptr :: "addr \<Rightarrow> 'a frame list \<Rightarrow> addr" where
  "cptr s [] = s"
| "cptr s (FL p c d r # k) = p"
| "cptr s (FR l p c d # k) = p"

fun ccolor :: "'a frame list \<Rightarrow> rbt_color" where
  "ccolor [] = RBT_COLOR_BLACK"
| "ccolor (FL p c d r # k) = c"
| "ccolor (FR l p c d # k) = c"

fun plug :: "'a frame list \<Rightarrow> 'a rtree \<Rightarrow> 'a rtree" where
  "plug [] t = t"
| "plug (FL p c d r # k) t = plug k (Nd t p c d r)"
| "plug (FR l p c d # k) t = plug k (Nd l p c d t)"

fun cleft :: "'a frame list \<Rightarrow> 'a list" where
  "cleft [] = []"
| "cleft (FL p c d r # k) = cleft k"
| "cleft (FR l p c d # k) = cleft k @ inorder l @ [d]"

fun cright :: "'a frame list \<Rightarrow> 'a list" where
  "cright [] = []"
| "cright (FL p c d r # k) = d # inorder r @ cright k"
| "cright (FR l p c d # k) = cright k"

lemma inorder_plug: "inorder (plug k t) = cleft k @ inorder t @ cright k"
  by (induction k t rule: plug.induct) auto

subsection \<open>Trees on the heap\<close>

abbreviation mk_node :: "rbt_color \<Rightarrow> addr \<Rightarrow> addr \<Rightarrow> addr \<Rightarrow> 'a \<Rightarrow> 'a rbt_node" where
  "mk_node c pa l r d \<equiv> \<lparr>color = c, parent = pa, lchild = l, rchild = r, data = Some d\<rparr>"

fun tree_at :: "(addr \<rightharpoonup> 'a rbt_node) \<Rightarrow> addr \<Rightarrow> addr \<Rightarrow> 'a rtree \<Rightarrow> bool" where
  "tree_at m s pa Lf = True"
| "tree_at m s pa (Nd l p c d r) =
     (m p = Some (mk_node c pa (ptr s l) (ptr s r) d) \<and> tree_at m s p l \<and> tree_at m s p r)"

fun ctx_at :: "(addr \<rightharpoonup> 'a rbt_node) \<Rightarrow> addr \<Rightarrow> addr \<Rightarrow> addr \<Rightarrow> 'a frame list \<Rightarrow> bool" where
  "ctx_at m s rt x [] = (rt = x)"
| "ctx_at m s rt x (FL p c d r # k) =
     (m p = Some (mk_node c (cptr s k) x (ptr s r) d) \<and> tree_at m s p r \<and> ctx_at m s rt p k)"
| "ctx_at m s rt x (FR l p c d # k) =
     (m p = Some (mk_node c (cptr s k) (ptr s l) x d) \<and> tree_at m s p l \<and> ctx_at m s rt p k)"

lemma tree_at_upd [simp, heap_simps]:
  "p \<notin> set (taddrs t) \<Longrightarrow> tree_at (m(p := v)) s pa t = tree_at m s pa t"
  by (induction t arbitrary: pa) auto

lemma ctx_at_upd [simp, heap_simps]:
  "p \<notin> set (caddrs k) \<Longrightarrow> ctx_at (m(p := v)) s rt x k = ctx_at m s rt x k"
  by (induction m s rt x k rule: ctx_at.induct) auto

lemma ptr_neq [simp, heap_simps]:
  "p \<noteq> s \<Longrightarrow> p \<notin> set (taddrs t) \<Longrightarrow> ptr s t \<noteq> p"
  "p \<noteq> s \<Longrightarrow> p \<notin> set (taddrs t) \<Longrightarrow> p \<noteq> ptr s t"
  by (cases t; auto)+

lemma cptr_neq [simp, heap_simps]:
  "p \<noteq> s \<Longrightarrow> p \<notin> set (caddrs k) \<Longrightarrow> cptr s k \<noteq> p"
  "p \<noteq> s \<Longrightarrow> p \<notin> set (caddrs k) \<Longrightarrow> p \<noteq> cptr s k"
  by (cases "(s, k)" rule: cptr.cases; auto)+

lemma cptr_in: "cptr s k = s \<or> cptr s k \<in> set (caddrs k)"
  by (cases "(s, k)" rule: cptr.cases) auto

lemma tree_at_plug:
  "tree_at m s s (plug k t) \<and> ptr s (plug k t) = rt \<longleftrightarrow>
   ctx_at m s rt (ptr s t) k \<and> tree_at m s (cptr s k) t"
  by (induction k t rule: plug.induct) auto

lemma set_taddrs_plug: "set (taddrs (plug k t)) = set (taddrs t) \<union> set (caddrs k)"
  by (induction k t rule: plug.induct) auto

lemma distinct_taddrs_plug: "distinct (taddrs (plug k t)) = distinct (taddrs t @ caddrs k)"
  by (induction k t rule: plug.induct) (auto simp: set_taddrs_plug)

definition rb_at :: "'a rbt_tree \<Rightarrow> 'a frame list \<Rightarrow> 'a rtree \<Rightarrow> bool" where
  "rb_at T k t \<longleftrightarrow>
     ctx_at (rb_mem T) (sentinel T) (root T) (ptr (sentinel T) t) k \<and>
     tree_at (rb_mem T) (sentinel T) (cptr (sentinel T) k) t \<and>
     distinct (NULL # sentinel T # taddrs t @ caddrs k) \<and>
     (\<exists>sn. rb_mem T (sentinel T) = Some sn \<and> color sn = RBT_COLOR_BLACK)"

lemma rb_at_plug: "rb_at T [] (plug k t) = rb_at T k t"
  unfolding rb_at_def
  using tree_at_plug[of "rb_mem T" "sentinel T" k t "root T"]
  by (auto simp: distinct_taddrs_plug set_taddrs_plug)

lemma rb_at_move_L: "rb_at T k (Nd l p c d r) = rb_at T (FL p c d r # k) l"
  using rb_at_plug[of T "FL p c d r # k" l] rb_at_plug[of T k "Nd l p c d r"] by simp

lemma rb_at_move_R: "rb_at T k (Nd l p c d r) = rb_at T (FR l p c d # k) r"
  using rb_at_plug[of T "FR l p c d # k" r] rb_at_plug[of T k "Nd l p c d r"] by simp

lemma plug_append: "plug (k1 @ k2) t = plug k2 (plug k1 t)"
  by (induction k1 t rule: plug.induct) auto

lemma cleft_append: "cleft (k1 @ k2) = cleft k2 @ cleft k1"
  by (induction k1 rule: cleft.induct) auto

lemma cright_append: "cright (k1 @ k2) = cright k1 @ cright k2"
  by (induction k1 rule: cright.induct) auto

lemma caddrs_append: "caddrs (k1 @ k2) = caddrs k1 @ caddrs k2"
  by (induction k1 rule: caddrs.induct) auto

text \<open>A context can be split at a frame, and the upper part taken as the context of a larger focus.\<close>

lemma rb_at_append: "rb_at T (k1 @ k2) t = rb_at T k2 (plug k1 t)"
  by (metis plug_append rb_at_plug)

lemma rb_at_split: "rb_at T (k1 @ FR l p c d # k) t = rb_at T k (Nd l p c d (plug k1 t))"
  using rb_at_append[of T "k1 @ [FR l p c d]" k t] by (simp add: plug_append)

text \<open>Closing frames over the focus: every position of a tree reduces to the same statement.\<close>

lemmas rb_at_fold = rb_at_move_L[symmetric] rb_at_move_R[symmetric]

text \<open>The parts of the state that no operation short of allocation and release changes.\<close>

definition rb_same :: "'a rbt_tree \<Rightarrow> 'a rbt_tree \<Rightarrow> bool" where
  "rb_same T T' \<longleftrightarrow> sentinel T' = sentinel T \<and> cmp_cb T' = cmp_cb T \<and> rb_num T' = rb_num T \<and>
     rb_brk T' = rb_brk T \<and> dom (rb_mem T') = dom (rb_mem T) \<and>
     map_option parent (rb_mem T' (sentinel T)) = map_option parent (rb_mem T (sentinel T))"

lemma rb_same_refl [simp, intro]: "rb_same T T"
  by (simp add: rb_same_def)

lemma rb_same_trans [trans]: "rb_same T T' \<Longrightarrow> rb_same T' T'' \<Longrightarrow> rb_same T T''"
  by (simp add: rb_same_def)

lemma rb_at_color: "rb_at T k t \<Longrightarrow> map_option color (rb_mem T (ptr (sentinel T) t)) = Some (tcolor t)"
  by (cases t) (auto simp: rb_at_def)

lemma rb_at_red: "rb_at T k t \<Longrightarrow> rbt_is_red T (ptr (sentinel T) t) = Some (tcolor t = RBT_COLOR_RED)"
  by (cases t) (auto simp: rb_at_def rbt_is_red_def)

lemma rb_at_black: "rb_at T k t \<Longrightarrow> rbt_is_black T (ptr (sentinel T) t) = Some (tcolor t = RBT_COLOR_BLACK)"
  by (cases t) (auto simp: rb_at_def rbt_is_black_def)

subsection \<open>Rotations\<close>

lemma tree_at_parent_of:
  "tree_at m s pa t \<Longrightarrow> x \<in> set (taddrs t) \<Longrightarrow> distinct (s # pa # taddrs t) \<Longrightarrow> \<exists>n. m x = Some n \<and>
     parent n \<noteq> lchild n \<and> parent n \<noteq> rchild n \<and>
     (if x = ptr s t then parent n = pa
      else \<exists>p. m (parent n) = Some p \<and> (lchild p = x \<or> rchild p = x))"
proof (induction t arbitrary: pa)
  case Lf
  then show ?case by simp
next
  case (Nd l p c d r)
  consider "x = p" | "x \<in> set (taddrs l)" | "x \<in> set (taddrs r)"
    using Nd.prems by auto
  then show ?case
  proof cases
    case 1
    then show ?thesis using Nd.prems by (cases l; cases r) auto
  next
    case 2
    then have "x \<noteq> p" using Nd.prems by auto
    then show ?thesis using Nd.IH(1)[of p] Nd.prems 2 by (cases "x = ptr s l") auto
  next
    case 3
    then have "x \<noteq> p" using Nd.prems by auto
    then show ?thesis using Nd.IH(2)[of p] Nd.prems 3 by (cases "x = ptr s r") auto
  qed
qed

text \<open>The consistency check succeeds on every node of a well-shaped tree.\<close>

lemma rbt_assert_at:
  assumes "rb_at T k t" and "x \<in> set (NULL # sentinel T # taddrs t @ caddrs k)"
  shows "rbt_assert T x = Some ()"
proof (cases "x = NULL \<or> x = sentinel T")
  case True
  then show ?thesis by (auto simp: rbt_assert_def)
next
  case False
  let ?t = "plug k t"
  have at: "rb_at T [] ?t" using assms by (simp add: rb_at_plug)
  have x: "x \<in> set (taddrs ?t)" using assms False by (auto simp: set_taddrs_plug)
  show ?thesis
  proof (cases ?t)
    case Lf
    with x show ?thesis by simp
  next
    case (Nd l p c d r)
    consider "x = p" | "x \<in> set (taddrs l)" | "x \<in> set (taddrs r)"
      using x Nd by auto
    then show ?thesis
    proof cases
      case 1
      then show ?thesis using at Nd by (simp add: rb_at_def rbt_assert_def)
    next
      case 2
      then show ?thesis
        using at Nd tree_at_parent_of[of "rb_mem T" "sentinel T" p l x]
        by (auto simp: rb_at_def rbt_assert_def split: if_splits)
    next
      case 3
      then show ?thesis
        using at Nd tree_at_parent_of[of "rb_mem T" "sentinel T" p r x]
        by (auto simp: rb_at_def rbt_assert_def split: if_splits)
    qed
  qed
qed

lemma rbt_right_rotate_links_at:
  assumes "rb_at T k (Nd (Nd a q c1 d1 b) p c2 d2 e)"
  shows "\<exists>T'. rbt_right_rotate_links T p = Some T' \<and> rb_at T' k (Nd a q c1 d1 (Nd b p c2 d2 e)) \<and> rb_same T T'"
proof (cases k)
  case Nil
  with assms show ?thesis
    by (cases b) (clarsimp simp: rb_at_def rbt_right_rotate_links_def rb_same_def model_defs
        insert_absorb domIff)+
next
  case (Cons f k')
  with assms show ?thesis
    by (cases f; cases b) (clarsimp simp: rb_at_def rbt_right_rotate_links_def rb_same_def
        model_defs insert_absorb domIff)+
qed

lemma rbt_right_rotate_at:
  assumes "rb_at T k (Nd (Nd a q c1 d1 b) p c2 d2 e)"
  shows "\<exists>T'. rbt_right_rotate T p = Some T' \<and> rb_at T' k (Nd a q c1 d1 (Nd b p c2 d2 e)) \<and> rb_same T T'"
proof -
  obtain T' where T': "rbt_right_rotate_links T p = Some T'" "rb_at T' k (Nd a q c1 d1 (Nd b p c2 d2 e))" "rb_same T T'"
    using rbt_right_rotate_links_at[OF assms] by blast
  have n: "rb_mem T p = Some (mk_node c2 (cptr (sentinel T) k) q (ptr (sentinel T) e) d2)"
    using assms by (simp add: rb_at_def)
  have "rbt_assert T' p = Some ()" "rbt_assert T' q = Some ()"
    "rbt_assert T' (cptr (sentinel T) k) = Some ()"
    using T'(2,3) cptr_in[of "sentinel T" k]
    by (auto intro!: rbt_assert_at[OF T'(2)] simp: rb_same_def)
  then show ?thesis
    using T' n by (simp add: rbt_right_rotate_def)
qed

lemma rbt_left_rotate_links_at:
  assumes "rb_at T k (Nd a p c1 d1 (Nd b q c2 d2 e))"
  shows "\<exists>T'. rbt_left_rotate_links T p = Some T' \<and> rb_at T' k (Nd (Nd a p c1 d1 b) q c2 d2 e) \<and> rb_same T T'"
proof (cases k)
  case Nil
  with assms show ?thesis
    by (cases b) (clarsimp simp: rb_at_def rbt_left_rotate_links_def rb_same_def model_defs
        insert_absorb domIff)+
next
  case (Cons f k')
  with assms show ?thesis
    by (cases f; cases b) (clarsimp simp: rb_at_def rbt_left_rotate_links_def rb_same_def
        model_defs insert_absorb domIff)+
qed

lemma rbt_left_rotate_at:
  assumes "rb_at T k (Nd a p c1 d1 (Nd b q c2 d2 e))"
  shows "\<exists>T'. rbt_left_rotate T p = Some T' \<and> rb_at T' k (Nd (Nd a p c1 d1 b) q c2 d2 e) \<and> rb_same T T'"
proof -
  obtain T' where T': "rbt_left_rotate_links T p = Some T'" "rb_at T' k (Nd (Nd a p c1 d1 b) q c2 d2 e)" "rb_same T T'"
    using rbt_left_rotate_links_at[OF assms] by blast
  have n: "rb_mem T p = Some (mk_node c1 (cptr (sentinel T) k) (ptr (sentinel T) a) q d1)"
    using assms by (simp add: rb_at_def)
  have "rbt_assert T' p = Some ()" "rbt_assert T' q = Some ()"
    "rbt_assert T' (cptr (sentinel T) k) = Some ()"
    using T'(2,3) cptr_in[of "sentinel T" k]
    by (auto intro!: rbt_assert_at[OF T'(2)] simp: rb_same_def)
  then show ?thesis
    using T' n by (simp add: rbt_left_rotate_def)
qed

subsection \<open>The red-black invariants in a context\<close>

fun bheight :: "'a rtree \<Rightarrow> nat" where
  "bheight Lf = 0"
| "bheight (Nd l p c d r) = bheight l + (if c = RBT_COLOR_BLACK then 1 else 0)"

fun rb :: "'a rtree \<Rightarrow> bool" where
  "rb Lf = True"
| "rb (Nd l p c d r) =
     (rb l \<and> rb r \<and> bheight l = bheight r \<and>
      (c = RBT_COLOR_RED \<longrightarrow> tcolor l = RBT_COLOR_BLACK \<and> tcolor r = RBT_COLOR_BLACK))"

text \<open>
  \<open>ctx_ok k c h\<close>: a red-black subtree with root colour \<open>c\<close> and black height \<open>h\<close> completes the
  context to a red-black tree with a black root.
\<close>

fun ctx_ok :: "'a frame list \<Rightarrow> rbt_color \<Rightarrow> nat \<Rightarrow> bool" where
  "ctx_ok [] col h = (col = RBT_COLOR_BLACK)"
| "ctx_ok (FL p c d r # k) col h =
     (rb r \<and> bheight r = h \<and>
      (c = RBT_COLOR_RED \<longrightarrow> col = RBT_COLOR_BLACK \<and> tcolor r = RBT_COLOR_BLACK) \<and>
      ctx_ok k c (h + (if c = RBT_COLOR_BLACK then 1 else 0)))"
| "ctx_ok (FR l p c d # k) col h =
     (rb l \<and> bheight l = h \<and>
      (c = RBT_COLOR_RED \<longrightarrow> col = RBT_COLOR_BLACK \<and> tcolor l = RBT_COLOR_BLACK) \<and>
      ctx_ok k c (h + (if c = RBT_COLOR_BLACK then 1 else 0)))"

lemma rb_plug:
  "(rb t \<and> ctx_ok k (tcolor t) (bheight t)) \<longleftrightarrow>
   rb (plug k t) \<and> tcolor (plug k t) = RBT_COLOR_BLACK"
  by (induction k t rule: plug.induct) auto

lemma not_red_iff [simp]:
  "(c \<noteq> RBT_COLOR_RED) = (c = RBT_COLOR_BLACK)" "(c \<noteq> RBT_COLOR_BLACK) = (c = RBT_COLOR_RED)"
  by (cases c; simp)+

lemma ctx_ok_black: "ctx_ok k col h \<Longrightarrow> ctx_ok k RBT_COLOR_BLACK h"
  by (cases "(k, col, h)" rule: ctx_ok.cases) auto

subsection \<open>Reading and painting the node in focus\<close>

lemma node_at:
  "rb_at T k (Nd l p c d r) \<Longrightarrow>
   rb_mem T p = Some (mk_node c (cptr (sentinel T) k) (ptr (sentinel T) l) (ptr (sentinel T) r) d)"
  by (simp add: rb_at_def)

lemma ctx_root: "ctx_at m s rt x k \<Longrightarrow> k \<noteq> [] \<Longrightarrow> rt \<in> set (caddrs k)"
proof (induction m s rt x k rule: ctx_at.induct)
  case (2 m s rt x p c d r k)
  then show ?case by (cases "k = []") auto
next
  case (3 m s rt x l p c d k)
  then show ?case by (cases "k = []") auto
qed simp

lemma root_focus: "rb_at T k t \<Longrightarrow> (root T = ptr (sentinel T) t) = (k = [])"
  by (cases t; cases "k = []") (auto simp: rb_at_def dest!: ctx_root)

lemma set_color_focus:
  assumes "rb_at T k (Nd l p c d r)"
  shows "\<exists>T'. rbt_set_color T p col = Some T' \<and> rb_at T' k (Nd l p col d r) \<and> rb_same T T' \<and>
     root T' = root T"
  using assms
  by (clarsimp simp: rb_at_def model_defs rb_same_def insert_absorb domIff)

lemma set_color_left:
  assumes "rb_at T k (Nd (Nd a p c1 d1 b) g c2 d2 u)"
  shows "\<exists>T'. rbt_set_color T p col = Some T' \<and> rb_at T' k (Nd (Nd a p col d1 b) g c2 d2 u) \<and>
     rb_same T T' \<and> root T' = root T"
  using set_color_focus[of T "FL g c2 d2 u # k" a p c1 d1 b] assms
  by (simp only: rb_at_move_L[of _ k _ g c2 d2 u])

lemma set_color_right:
  assumes "rb_at T k (Nd u g c2 d2 (Nd a p c1 d1 b))"
  shows "\<exists>T'. rbt_set_color T p col = Some T' \<and> rb_at T' k (Nd u g c2 d2 (Nd a p col d1 b)) \<and>
     rb_same T T' \<and> root T' = root T"
  using set_color_focus[of T "FR u g c2 d2 # k" a p c1 d1 b] assms
  by (simp only: rb_at_move_R[of _ k u g c2 d2])

lemma rb_at_cblack:
  "rb_at T k t \<Longrightarrow> rbt_is_black T (cptr (sentinel T) k) = Some (ccolor k = RBT_COLOR_BLACK)"
  by (cases k rule: ccolor.cases) (auto simp: rb_at_def rbt_is_black_def)

lemma ctx_ok_recolor:
  "ctx_ok k c h \<Longrightarrow> k \<noteq> [] \<Longrightarrow> ccolor k = RBT_COLOR_BLACK \<Longrightarrow> ctx_ok k c' h"
  by (cases k rule: ccolor.cases) auto

text \<open>The node above the hole, as a focus of its own.\<close>

lemma rb_at_up:
  assumes "rb_at T k t" and "k \<noteq> []"
  obtains u where "rb_at T (tl k) u" "ptr (sentinel T) u = cptr (sentinel T) k" "tcolor u = ccolor k"
proof (cases k rule: ccolor.cases)
  case (2 p c d r k')
  then show thesis using assms that[of "Nd t p c d r"] by (simp add: rb_at_move_L)
next
  case (3 l p c d k')
  then show thesis using assms that[of "Nd l p c d t"] by (simp add: rb_at_move_R)
qed (use assms in simp)

text \<open>A heap that holds a red-black tree with a black root and the elements \<open>xs\<close> in order.\<close>

definition rb_whole :: "'a rbt_tree \<Rightarrow> 'a list \<Rightarrow> bool" where
  "rb_whole T xs \<longleftrightarrow>
     (\<exists>t. rb_at T [] t \<and> rb t \<and> tcolor t = RBT_COLOR_BLACK \<and> inorder t = xs)"

lemma rb_wholeI:
  assumes "rb_at T k t" and "rb t" and "ctx_ok k (tcolor t) (bheight t)"
    and "cleft k @ inorder t @ cright k = xs"
  shows "rb_whole T xs"
  unfolding rb_whole_def
  using assms rb_plug[of t k] by (intro exI[of _ "plug k t"]) (simp add: rb_at_plug inorder_plug)

end
