(* ===== verification/Rb_Insert.thy ===== *)
theory Rb_Insert
  imports Rb_Zip
begin

text \<open>
  \<open>rbt_insert_fixup\<close> repairs the colours: started at a new red leaf it returns, and the tree it
  leaves is a red-black tree with the same elements in the same order.
\<close>

subsection \<open>Recolouring\<close>

text \<open>
  The step at a grandparent with a red uncle, on either side: parent and uncle black,
  grandparent red unless it is the root.
\<close>

lemma fixup_recolor:
  assumes "rb_at T k (Nd (Nd a p c1 d1 b) g c2 d2 (Nd u q c3 d3 v))"
    and xy: "(x = p \<and> y = q) \<or> (x = q \<and> y = p)"
  shows "\<exists>T1 T2 T'. rbt_set_black T x = Some T1 \<and> rbt_set_black T1 y = Some T2 \<and>
    (if g \<noteq> root T2 then rbt_set_red T2 g else Some T2) = Some T' \<and>
    rb_at T' k (Nd (Nd a p RBT_COLOR_BLACK d1 b) g (if k = [] then c2 else RBT_COLOR_RED) d2
                  (Nd u q RBT_COLOR_BLACK d3 v)) \<and> rb_same T T'"
proof -
  obtain T1 T2 where T12: "rbt_set_black T x = Some T1" "rbt_set_black T1 y = Some T2"
      "rb_same T T1" "rb_same T1 T2"
      "rb_at T2 k (Nd (Nd a p RBT_COLOR_BLACK d1 b) g c2 d2 (Nd u q RBT_COLOR_BLACK d3 v))"
    using xy
    by (elim disjE conjE)
       (metis assms(1) rbt_set_black_def set_color_left set_color_right)+
  show ?thesis
  proof (cases "k = []")
    case True
    with root_focus[OF T12(5)] have "g = root T2" by simp
    with True T12 show ?thesis by (auto dest: rb_same_trans)
  next
    case False
    with root_focus[OF T12(5)] have "g \<noteq> root T2" by simp
    with False T12 set_color_focus[OF T12(5), of RBT_COLOR_RED] show ?thesis
      unfolding rbt_set_red_def by (auto dest: rb_same_trans)
  qed
qed

text \<open>Painting and rotating at the grandparent, the step that ends the repair.\<close>

lemma fixup_rotate_right:
  assumes "rb_at T k (Nd (Nd a p c1 d1 b) g c2 d2 u)"
  shows "\<exists>T1 T2 T'. rbt_set_red T g = Some T1 \<and> rbt_set_black T1 p = Some T2 \<and>
    rbt_right_rotate T2 g = Some T' \<and>
    rb_at T' k (Nd a p RBT_COLOR_BLACK d1 (Nd b g RBT_COLOR_RED d2 u)) \<and> rb_same T T'"
proof -
  obtain T1 where T1: "rbt_set_red T g = Some T1"
      "rb_at T1 k (Nd (Nd a p c1 d1 b) g RBT_COLOR_RED d2 u)" "rb_same T T1"
    using set_color_focus[OF assms] unfolding rbt_set_red_def by blast
  obtain T2 where T2: "rbt_set_black T1 p = Some T2"
      "rb_at T2 k (Nd (Nd a p RBT_COLOR_BLACK d1 b) g RBT_COLOR_RED d2 u)" "rb_same T1 T2"
    using set_color_left[OF T1(2)] unfolding rbt_set_black_def by blast
  show ?thesis
    using T1 T2 rbt_right_rotate_at[OF T2(2)] by (metis rb_same_trans)
qed

lemma fixup_rotate_left:
  assumes "rb_at T k (Nd u g c2 d2 (Nd a p c1 d1 b))"
  shows "\<exists>T1 T2 T'. rbt_set_black T p = Some T1 \<and> rbt_set_red T1 g = Some T2 \<and>
    rbt_left_rotate T2 g = Some T' \<and>
    rb_at T' k (Nd (Nd u g RBT_COLOR_RED d2 a) p RBT_COLOR_BLACK d1 b) \<and> rb_same T T'"
proof -
  obtain T1 where T1: "rbt_set_black T p = Some T1"
      "rb_at T1 k (Nd u g c2 d2 (Nd a p RBT_COLOR_BLACK d1 b))" "rb_same T T1"
    using set_color_right[OF assms] unfolding rbt_set_black_def by blast
  obtain T2 where T2: "rbt_set_red T1 g = Some T2"
      "rb_at T2 k (Nd u g RBT_COLOR_RED d2 (Nd a p RBT_COLOR_BLACK d1 b))" "rb_same T1 T2"
    using set_color_focus[OF T1(2)] unfolding rbt_set_red_def by blast
  show ?thesis
    using T1 T2 rbt_left_rotate_at[OF T2(2)] by (metis rb_same_trans)
qed

subsection \<open>Where the loop stops\<close>

lemma fixup_black:
  assumes "rb_at T k t" and "tcolor t = RBT_COLOR_BLACK"
  shows "rbt_insert_fixup T (ptr (sentinel T) t) = Some (RBT_OK, T)"
  using assms by (subst rbt_insert_fixup.simps) (simp add: rb_at_red)

lemma fixup_black_parent:
  assumes "rb_at T k t" and "tcolor t = RBT_COLOR_RED" and "ccolor k = RBT_COLOR_BLACK"
  shows "rbt_insert_fixup T (ptr (sentinel T) t) = Some (RBT_OK, T)"
proof (cases t)
  case (Nd l p c d r)
  then show ?thesis
    using assms node_at[of T k l p c d r] rb_at_red[OF assms(1)] rb_at_cblack[OF assms(1)]
    by (subst rbt_insert_fixup.simps) (simp add: Let_def)
qed (use assms in simp)

text \<open>After a rotation the loop looks at the node above, which needs no repair.\<close>

lemma fixup_above:
  assumes "rb_at T k t" and "ctx_ok k col h"
  shows "rbt_insert_fixup T (cptr (sentinel T) k) = Some (RBT_OK, T)"
proof (cases "k = []")
  case True
  then have "rbt_is_red T (cptr (sentinel T) k) = Some False"
    using assms(1) by (auto simp: rb_at_def rbt_is_red_def)
  then show ?thesis by (subst rbt_insert_fixup.simps) simp
next
  case False
  obtain u where u: "rb_at T (tl k) u" "ptr (sentinel T) u = cptr (sentinel T) k"
      "tcolor u = ccolor k"
    using rb_at_up[OF assms(1) False] by blast
  show ?thesis
  proof (cases "ccolor k = RBT_COLOR_BLACK")
    case True
    with u fixup_black[OF u(1)] show ?thesis by simp
  next
    case red: False
    then have "ccolor (tl k) = RBT_COLOR_BLACK"
      using assms(2) False
      by (cases "(k, col, h)" rule: ctx_ok.cases; cases "tl k" rule: ccolor.cases) auto
    with u red fixup_black_parent[OF u(1)] show ?thesis by simp
  qed
qed

subsection \<open>One step of the loop\<close>

lemma node_at_L: "rb_at T k (Nd (Nd a p c1 d1 b) g c2 d2 u) \<Longrightarrow>
   rb_mem T p = Some (mk_node c1 g (ptr (sentinel T) a) (ptr (sentinel T) b) d1)"
  by (simp add: rb_at_def)

lemma node_at_R: "rb_at T k (Nd u g c2 d2 (Nd a p c1 d1 b)) \<Longrightarrow>
   rb_mem T p = Some (mk_node c1 g (ptr (sentinel T) a) (ptr (sentinel T) b) d1)"
  by (simp add: rb_at_def)

lemma focus_neq:
  "rb_at T k (Nd l g c d r) \<Longrightarrow> l \<noteq> Lf \<Longrightarrow> ptr (sentinel T) l \<noteq> ptr (sentinel T) r"
  "rb_at T k (Nd l g c d r) \<Longrightarrow> l \<noteq> Lf \<Longrightarrow> ptr (sentinel T) r \<noteq> ptr (sentinel T) l"
  by (cases l; cases r; auto simp: rb_at_def)+

lemma focus_neq2:
  "rb_at T k (Nd l g c d r) \<Longrightarrow> r \<noteq> Lf \<Longrightarrow> ptr (sentinel T) l \<noteq> ptr (sentinel T) r"
  "rb_at T k (Nd l g c d r) \<Longrightarrow> r \<noteq> Lf \<Longrightarrow> ptr (sentinel T) r \<noteq> ptr (sentinel T) l"
  by (cases l; cases r; auto simp: rb_at_def)+

lemma fixup_LL:
  assumes "rb_at T k (Nd (Nd t p RBT_COLOR_RED d1 b) g RBT_COLOR_BLACK d2 u)"
    and "tcolor t = RBT_COLOR_RED" and "tcolor u = RBT_COLOR_BLACK" and "ctx_ok k col h"
  shows "\<exists>T'. rbt_insert_fixup T (ptr (sentinel T) t) = Some (RBT_OK, T') \<and>
     rb_at T' k (Nd t p RBT_COLOR_BLACK d1 (Nd b g RBT_COLOR_RED d2 u)) \<and> rb_same T T'"
proof -
  let ?s = "sentinel T"
  obtain ta tp td tr where t: "t = Nd ta tp RBT_COLOR_RED td tr"
    using assms(2) by (cases t) auto
  have at: "rb_at T (FL p RBT_COLOR_RED d1 b # FL g RBT_COLOR_BLACK d2 u # k) t"
    using assms(1) by (simp add: rb_at_fold)
  have au: "rb_at T (FR (Nd t p RBT_COLOR_RED d1 b) g RBT_COLOR_BLACK d2 # k) u"
    using assms(1) by (simp add: rb_at_fold)
  obtain T1 T2 T' where S: "rbt_set_red T g = Some T1" "rbt_set_black T1 p = Some T2"
      "rbt_right_rotate T2 g = Some T'"
      "rb_at T' k (Nd t p RBT_COLOR_BLACK d1 (Nd b g RBT_COLOR_RED d2 u))" "rb_same T T'"
    using fixup_rotate_right[OF assms(1)] by blast
  have "rbt_insert_fixup T (ptr ?s t) = rbt_insert_fixup T' (cptr ?s k)"
    using node_at[OF at[unfolded t]] node_at_L[OF assms(1)] node_at[OF assms(1)] rb_at_red[OF at]
      rb_at_cblack[OF at] rb_at_red[OF au] assms(3) S(1-3)
    by (subst rbt_insert_fixup.simps) (simp add: t Let_def)
  also have "\<dots> = Some (RBT_OK, T')"
    using fixup_above[OF S(4) assms(4)] S(5) by (simp add: rb_same_def)
  finally show ?thesis using S by blast
qed

lemma fixup_RR:
  assumes "rb_at T k (Nd u g RBT_COLOR_BLACK d2 (Nd a p RBT_COLOR_RED d1 t))"
    and "tcolor t = RBT_COLOR_RED" and "tcolor u = RBT_COLOR_BLACK" and "ctx_ok k col h"
  shows "\<exists>T'. rbt_insert_fixup T (ptr (sentinel T) t) = Some (RBT_OK, T') \<and>
     rb_at T' k (Nd (Nd u g RBT_COLOR_RED d2 a) p RBT_COLOR_BLACK d1 t) \<and> rb_same T T'"
proof -
  let ?s = "sentinel T"
  obtain ta tp td tr where t: "t = Nd ta tp RBT_COLOR_RED td tr"
    using assms(2) by (cases t) auto
  have at: "rb_at T (FR a p RBT_COLOR_RED d1 # FR u g RBT_COLOR_BLACK d2 # k) t"
    using assms(1) by (simp add: rb_at_fold)
  have au: "rb_at T (FL g RBT_COLOR_BLACK d2 (Nd a p RBT_COLOR_RED d1 t) # k) u"
    using assms(1) by (simp add: rb_at_fold)
  have ap: "rb_at T (FR u g RBT_COLOR_BLACK d2 # k) (Nd a p RBT_COLOR_RED d1 t)"
    using assms(1) by (simp add: rb_at_fold)
  have neq: "ptr ?s u \<noteq> p" "p \<noteq> ptr ?s u" "ptr ?s a \<noteq> tp" "tp \<noteq> ptr ?s a"
    using focus_neq2[OF assms(1)] focus_neq2[OF ap] by (simp_all add: t)
  obtain T1 T2 T' where S: "rbt_set_black T p = Some T1" "rbt_set_red T1 g = Some T2"
      "rbt_left_rotate T2 g = Some T'"
      "rb_at T' k (Nd (Nd u g RBT_COLOR_RED d2 a) p RBT_COLOR_BLACK d1 t)" "rb_same T T'"
    using fixup_rotate_left[OF assms(1)] by blast
  have "rbt_insert_fixup T (ptr ?s t) = rbt_insert_fixup T' (cptr ?s k)"
    using node_at[OF at[unfolded t]] node_at_R[OF assms(1)] node_at[OF assms(1)] rb_at_red[OF at]
      rb_at_cblack[OF at] rb_at_red[OF au] assms(3) S(1-3) neq
    by (subst rbt_insert_fixup.simps) (simp add: t Let_def)
  also have "\<dots> = Some (RBT_OK, T')"
    using fixup_above[OF S(4) assms(4)] S(5) by (simp add: rb_same_def)
  finally show ?thesis using S by blast
qed

text \<open>The inner cases rotate at the parent first and continue as the outer ones.\<close>

lemma fixup_LR:
  assumes "rb_at T k (Nd (Nd a p RBT_COLOR_RED d1 t) g RBT_COLOR_BLACK d2 u)"
    and t: "t = Nd ta tp RBT_COLOR_RED td tr" and "tcolor u = RBT_COLOR_BLACK" and "ctx_ok k col h"
  shows "\<exists>T'. rbt_insert_fixup T tp = Some (RBT_OK, T') \<and>
     rb_at T' k (Nd (Nd a p RBT_COLOR_RED d1 ta) tp RBT_COLOR_BLACK td
                    (Nd tr g RBT_COLOR_RED d2 u)) \<and> rb_same T T'"
proof -
  let ?s = "sentinel T"
  have at: "rb_at T (FR a p RBT_COLOR_RED d1 # FL g RBT_COLOR_BLACK d2 u # k) t"
    using assms(1) by (simp add: rb_at_fold)
  have au: "rb_at T (FR (Nd a p RBT_COLOR_RED d1 t) g RBT_COLOR_BLACK d2 # k) u"
    using assms(1) by (simp add: rb_at_fold)
  have ap: "rb_at T (FL g RBT_COLOR_BLACK d2 u # k) (Nd a p RBT_COLOR_RED d1 t)"
    using assms(1) by (simp add: rb_at_fold)
  have neq: "ptr ?s a \<noteq> tp" "tp \<noteq> ptr ?s a"
    using focus_neq2[OF ap] by (simp_all add: t)
  obtain T1 where T1: "rbt_left_rotate T p = Some T1" "rb_same T T1"
      "rb_at T1 (FL g RBT_COLOR_BLACK d2 u # k)
         (Nd (Nd a p RBT_COLOR_RED d1 ta) tp RBT_COLOR_RED td tr)"
    using rbt_left_rotate_at[OF ap[unfolded t]] by blast
  have "rbt_insert_fixup T tp = rbt_insert_fixup T1 p"
    using node_at[OF at[unfolded t]] node_at_L[OF assms(1)] node_at[OF assms(1)] rb_at_red[OF at]
      rb_at_cblack[OF at] rb_at_red[OF au] assms(3) T1(1) neq
    by (subst rbt_insert_fixup.simps) (simp add: t Let_def)
  moreover have "\<exists>T'. rbt_insert_fixup T1 p = Some (RBT_OK, T') \<and>
     rb_at T' k (Nd (Nd a p RBT_COLOR_RED d1 ta) tp RBT_COLOR_BLACK td
                    (Nd tr g RBT_COLOR_RED d2 u)) \<and> rb_same T1 T'"
    using fixup_LL[OF T1(3)[folded rb_at_move_L] _ assms(3,4)] by simp
  ultimately show ?thesis using T1(2) rb_same_trans by metis
qed

lemma fixup_RL:
  assumes "rb_at T k (Nd u g RBT_COLOR_BLACK d2 (Nd t p RBT_COLOR_RED d1 b))"
    and t: "t = Nd ta tp RBT_COLOR_RED td tr" and "tcolor u = RBT_COLOR_BLACK" and "ctx_ok k col h"
  shows "\<exists>T'. rbt_insert_fixup T tp = Some (RBT_OK, T') \<and>
     rb_at T' k (Nd (Nd u g RBT_COLOR_RED d2 ta) tp RBT_COLOR_BLACK td
                    (Nd tr p RBT_COLOR_RED d1 b)) \<and> rb_same T T'"
proof -
  let ?s = "sentinel T"
  have at: "rb_at T (FL p RBT_COLOR_RED d1 b # FR u g RBT_COLOR_BLACK d2 # k) t"
    using assms(1) by (simp add: rb_at_fold)
  have au: "rb_at T (FL g RBT_COLOR_BLACK d2 (Nd t p RBT_COLOR_RED d1 b) # k) u"
    using assms(1) by (simp add: rb_at_fold)
  have ap: "rb_at T (FR u g RBT_COLOR_BLACK d2 # k) (Nd t p RBT_COLOR_RED d1 b)"
    using assms(1) by (simp add: rb_at_fold)
  have neq: "ptr ?s u \<noteq> p" "p \<noteq> ptr ?s u"
    using focus_neq2[OF assms(1)] by simp_all
  obtain T1 where T1: "rbt_right_rotate T p = Some T1" "rb_same T T1"
      "rb_at T1 (FR u g RBT_COLOR_BLACK d2 # k)
         (Nd ta tp RBT_COLOR_RED td (Nd tr p RBT_COLOR_RED d1 b))"
    using rbt_right_rotate_at[OF ap[unfolded t]] by blast
  have "rbt_insert_fixup T tp = rbt_insert_fixup T1 p"
    using node_at[OF at[unfolded t]] node_at_R[OF assms(1)] node_at[OF assms(1)] rb_at_red[OF at]
      rb_at_cblack[OF at] rb_at_red[OF au] assms(3) T1(1) neq
    by (subst rbt_insert_fixup.simps) (simp add: t Let_def)
  moreover have "\<exists>T'. rbt_insert_fixup T1 p = Some (RBT_OK, T') \<and>
     rb_at T' k (Nd (Nd u g RBT_COLOR_RED d2 ta) tp RBT_COLOR_BLACK td
                    (Nd tr p RBT_COLOR_RED d1 b)) \<and> rb_same T1 T'"
    using fixup_RR[OF T1(3)[folded rb_at_move_R] _ assms(3,4)] by simp
  ultimately show ?thesis using T1(2) rb_same_trans by metis
qed

text \<open>With a red uncle the loop continues at the grandparent.\<close>

lemma fixup_uncle_L:
  assumes "rb_at T k (Nd (Nd a p RBT_COLOR_RED d1 b) g RBT_COLOR_BLACK d2 (Nd u q RBT_COLOR_RED d3 v))"
    and "t = a \<or> t = b" and "tcolor t = RBT_COLOR_RED"
  shows "\<exists>T'. rbt_insert_fixup T (ptr (sentinel T) t) = rbt_insert_fixup T' g \<and> rb_same T T' \<and>
     rb_at T' k (Nd (Nd a p RBT_COLOR_BLACK d1 b) g
        (if k = [] then RBT_COLOR_BLACK else RBT_COLOR_RED) d2 (Nd u q RBT_COLOR_BLACK d3 v))"
proof -
  let ?s = "sentinel T"
  obtain ta tp td tr where t: "t = Nd ta tp RBT_COLOR_RED td tr"
    using assms(3) by (cases t) auto
  have aa: "rb_at T (FL p RBT_COLOR_RED d1 b # FL g RBT_COLOR_BLACK d2 (Nd u q RBT_COLOR_RED d3 v) # k) a"
    and ab: "rb_at T (FR a p RBT_COLOR_RED d1 # FL g RBT_COLOR_BLACK d2 (Nd u q RBT_COLOR_RED d3 v) # k) b"
    and au: "rb_at T (FR (Nd a p RBT_COLOR_RED d1 b) g RBT_COLOR_BLACK d2 # k) (Nd u q RBT_COLOR_RED d3 v)"
    using assms(1) by (simp_all add: rb_at_fold)
  have n: "rb_mem T (ptr ?s t) = Some (mk_node RBT_COLOR_RED p (ptr ?s ta) (ptr ?s tr) td)"
    using assms(2) node_at[of T _ ta tp RBT_COLOR_RED td tr] aa ab t by auto
  obtain T1 T2 T' where S: "rbt_set_black T p = Some T1" "rbt_set_black T1 q = Some T2"
      "(if g \<noteq> root T2 then rbt_set_red T2 g else Some T2) = Some T'" "rb_same T T'"
      "rb_at T' k (Nd (Nd a p RBT_COLOR_BLACK d1 b) g
        (if k = [] then RBT_COLOR_BLACK else RBT_COLOR_RED) d2 (Nd u q RBT_COLOR_BLACK d3 v))"
    using fixup_recolor[OF assms(1), of p q] by blast
  have "rbt_insert_fixup T (ptr ?s t) = rbt_insert_fixup T' g"
    using n rbt_is_red_Some[OF n] node_at_L[OF assms(1)] node_at[OF assms(1)] rb_at_cblack[OF aa] rb_at_red[OF au] S(1,2)
      S(3)
    by (subst rbt_insert_fixup.simps) (simp add: Let_def)
  with S show ?thesis by blast
qed

lemma fixup_uncle_R:
  assumes "rb_at T k (Nd (Nd u q RBT_COLOR_RED d3 v) g RBT_COLOR_BLACK d2 (Nd a p RBT_COLOR_RED d1 b))"
    and "t = a \<or> t = b" and "tcolor t = RBT_COLOR_RED"
  shows "\<exists>T'. rbt_insert_fixup T (ptr (sentinel T) t) = rbt_insert_fixup T' g \<and> rb_same T T' \<and>
     rb_at T' k (Nd (Nd u q RBT_COLOR_BLACK d3 v) g
        (if k = [] then RBT_COLOR_BLACK else RBT_COLOR_RED) d2 (Nd a p RBT_COLOR_BLACK d1 b))"
proof -
  let ?s = "sentinel T"
  obtain ta tp td tr where t: "t = Nd ta tp RBT_COLOR_RED td tr"
    using assms(3) by (cases t) auto
  have aa: "rb_at T (FL p RBT_COLOR_RED d1 b # FR (Nd u q RBT_COLOR_RED d3 v) g RBT_COLOR_BLACK d2 # k) a"
    and ab: "rb_at T (FR a p RBT_COLOR_RED d1 # FR (Nd u q RBT_COLOR_RED d3 v) g RBT_COLOR_BLACK d2 # k) b"
    and au: "rb_at T (FL g RBT_COLOR_BLACK d2 (Nd a p RBT_COLOR_RED d1 b) # k) (Nd u q RBT_COLOR_RED d3 v)"
    using assms(1) by (simp_all add: rb_at_fold)
  have neq: "p \<noteq> q" "q \<noteq> p"
    using focus_neq2[OF assms(1)] by simp_all
  have n: "rb_mem T (ptr ?s t) = Some (mk_node RBT_COLOR_RED p (ptr ?s ta) (ptr ?s tr) td)"
    using assms(2) node_at[of T _ ta tp RBT_COLOR_RED td tr] aa ab t by auto
  obtain T1 T2 T' where S: "rbt_set_black T p = Some T1" "rbt_set_black T1 q = Some T2"
      "(if g \<noteq> root T2 then rbt_set_red T2 g else Some T2) = Some T'" "rb_same T T'"
      "rb_at T' k (Nd (Nd u q RBT_COLOR_BLACK d3 v) g
        (if k = [] then RBT_COLOR_BLACK else RBT_COLOR_RED) d2 (Nd a p RBT_COLOR_BLACK d1 b))"
    using fixup_recolor[OF assms(1), of p q] by blast
  have "rbt_insert_fixup T (ptr ?s t) = rbt_insert_fixup T' g"
    using n rbt_is_red_Some[OF n] node_at_R[OF assms(1)] node_at[OF assms(1)] rb_at_cblack[OF aa] rb_at_red[OF au] S(1,2)
      S(3) neq
    by (subst rbt_insert_fixup.simps) (simp add: Let_def)
  with S show ?thesis by blast
qed

subsection \<open>The loop\<close>

definition fixed :: "'a rbt_tree \<Rightarrow> addr \<Rightarrow> 'a list \<Rightarrow> bool" where
  "fixed T node xs \<longleftrightarrow> (\<exists>T'. rbt_insert_fixup T node = Some (RBT_OK, T') \<and>
     rb_whole T' xs \<and> rb_same T T')"

lemma fixed_stop:
  assumes "\<exists>T'. rbt_insert_fixup T node = Some (RBT_OK, T') \<and> rb_at T' k u \<and> rb_same T T'"
    and "rb u" and "ctx_ok k (tcolor u) (bheight u)" and "cleft k @ inorder u @ cright k = xs"
  shows "fixed T node xs"
  using assms rb_wholeI unfolding fixed_def by metis

text \<open>\<open>fixup_inv\<close>: the focus is a red node below which all is well, and black would fit its place.\<close>

definition fixup_inv :: "'a rbt_tree \<Rightarrow> 'a frame list \<Rightarrow> 'a rtree \<Rightarrow> bool" where
  "fixup_inv T k t \<longleftrightarrow> rb_at T k t \<and> rb t \<and> tcolor t = RBT_COLOR_RED \<and> k \<noteq> [] \<and>
     ctx_ok k RBT_COLOR_BLACK (bheight t)"

lemma fixed_again:
  assumes "\<exists>T'. rbt_insert_fixup T node = rbt_insert_fixup T' g \<and> rb_same T T' \<and>
      rb_at T' k (Nd l g (if k = [] then RBT_COLOR_BLACK else RBT_COLOR_RED) d r)"
    and IH: "\<And>T'. fixup_inv T' k (Nd l g RBT_COLOR_RED d r) \<Longrightarrow>
      fixed T' g (cleft k @ inorder (Nd l g RBT_COLOR_RED d r) @ cright k)"
    and "rb (Nd l g RBT_COLOR_RED d r)" and "ctx_ok k RBT_COLOR_BLACK (bheight l)"
    and "cleft k @ inorder (Nd l g RBT_COLOR_RED d r) @ cright k = xs"
  shows "fixed T node xs"
proof -
  obtain T1 where T1: "rbt_insert_fixup T node = rbt_insert_fixup T1 g" "rb_same T T1"
      "rb_at T1 k (Nd l g (if k = [] then RBT_COLOR_BLACK else RBT_COLOR_RED) d r)"
    using assms(1) by blast
  show ?thesis
  proof (cases "k = []")
    case True
    then have "rb_at T1 [] (Nd l g RBT_COLOR_BLACK d r)" using T1 by simp
    then show ?thesis
      using T1 True assms(3-5) fixup_black[of T1 "[]" "Nd l g RBT_COLOR_BLACK d r"]
      by (intro fixed_stop[of T node "[]" "Nd l g RBT_COLOR_BLACK d r"]) auto
  next
    case False
    then have "fixed T1 g xs"
      using IH[of T1] T1 assms(3-5) by (simp add: fixup_inv_def)
    then show ?thesis using T1 rb_same_trans unfolding fixed_def by metis
  qed
qed

lemma tcolor_redE:
  assumes "tcolor u \<noteq> RBT_COLOR_BLACK"
  obtains a q d v where "u = Nd a q RBT_COLOR_RED d v"
  using assms by (cases u) auto

text \<open>The four places a red node below a red parent can have.\<close>

lemma fixed_under_left:
  assumes inv: "fixup_inv T (f # FL g c2 d2 u # k) t"
    and f: "f = FL p RBT_COLOR_RED d1 b \<or> f = FR b p RBT_COLOR_RED d1"
    and IH: "\<And>T' l' g' d' r'. fixup_inv T' k (Nd l' g' RBT_COLOR_RED d' r') \<Longrightarrow>
      fixed T' g' (cleft k @ inorder (Nd l' g' RBT_COLOR_RED d' r') @ cright k)"
  shows "fixed T (ptr (sentinel T) t) (cleft (f # FL g c2 d2 u # k) @ inorder t @
           cright (f # FL g c2 d2 u # k))"
proof -
  have red: "tcolor t = RBT_COLOR_RED" using inv by (simp add: fixup_inv_def)
  obtain ta tp td tr where t: "t = Nd ta tp RBT_COLOR_RED td tr"
    using red by (metis tcolor_redE rbt_color.distinct(1))
  have c2: "c2 = RBT_COLOR_BLACK" using inv f by (cases c2) (auto simp: fixup_inv_def)
  define P where "P = (if f = FL p RBT_COLOR_RED d1 b then Nd t p RBT_COLOR_RED d1 b
     else Nd b p RBT_COLOR_RED d1 t)"
  have full: "rb_at T k (Nd P g RBT_COLOR_BLACK d2 u)"
    using inv f c2 by (auto simp: fixup_inv_def rb_at_fold P_def)
  have ok: "ctx_ok k RBT_COLOR_BLACK (bheight t + 1)" "rb t" "rb b" "bheight b = bheight t" "rb u"
      "bheight u = bheight t" "tcolor b = RBT_COLOR_BLACK"
    using inv f c2 by (auto simp: fixup_inv_def)
  show ?thesis
  proof (cases "tcolor u = RBT_COLOR_BLACK")
    case True
    show ?thesis
    proof (cases "f = FL p RBT_COLOR_RED d1 b")
      case L: True
      show ?thesis
        by (rule fixed_stop[OF fixup_LL[OF full[unfolded P_def if_P[OF L]] red True ok(1)]])
           (use ok red True L in auto)
    next
      case R: False
      then have f': "f = FR b p RBT_COLOR_RED d1" using f by simp
      have p: "ptr (sentinel T) t = tp" by (simp add: t)
      show ?thesis
        unfolding p
        by (rule fixed_stop[OF fixup_LR[OF full[unfolded P_def if_not_P[OF R]] t True ok(1)]])
           (use ok t True f' in auto)
    qed
  next
    case False
    then obtain ua q d3 v where u: "u = Nd ua q RBT_COLOR_RED d3 v" by (rule tcolor_redE)
    show ?thesis
    proof (cases "f = FL p RBT_COLOR_RED d1 b")
      case L: True
      show ?thesis
        by (rule fixed_again[OF fixup_uncle_L[OF full[unfolded P_def if_P[OF L] u] _ red] IH])
           (use ok red u L in auto)
    next
      case R: False
      then have f': "f = FR b p RBT_COLOR_RED d1" using f by simp
      show ?thesis
        by (rule fixed_again[OF fixup_uncle_L[OF full[unfolded P_def if_not_P[OF R] u] _ red] IH])
           (use ok red u f' in auto)
    qed
  qed
qed

lemma fixed_under_right:
  assumes inv: "fixup_inv T (f # FR u g c2 d2 # k) t"
    and f: "f = FL p RBT_COLOR_RED d1 b \<or> f = FR b p RBT_COLOR_RED d1"
    and IH: "\<And>T' l' g' d' r'. fixup_inv T' k (Nd l' g' RBT_COLOR_RED d' r') \<Longrightarrow>
      fixed T' g' (cleft k @ inorder (Nd l' g' RBT_COLOR_RED d' r') @ cright k)"
  shows "fixed T (ptr (sentinel T) t) (cleft (f # FR u g c2 d2 # k) @ inorder t @
           cright (f # FR u g c2 d2 # k))"
proof -
  have red: "tcolor t = RBT_COLOR_RED" using inv by (simp add: fixup_inv_def)
  obtain ta tp td tr where t: "t = Nd ta tp RBT_COLOR_RED td tr"
    using red by (metis tcolor_redE rbt_color.distinct(1))
  have c2: "c2 = RBT_COLOR_BLACK" using inv f by (cases c2) (auto simp: fixup_inv_def)
  define P where "P = (if f = FL p RBT_COLOR_RED d1 b then Nd t p RBT_COLOR_RED d1 b
     else Nd b p RBT_COLOR_RED d1 t)"
  have full: "rb_at T k (Nd u g RBT_COLOR_BLACK d2 P)"
    using inv f c2 by (auto simp: fixup_inv_def rb_at_fold P_def)
  have ok: "ctx_ok k RBT_COLOR_BLACK (bheight t + 1)" "rb t" "rb b" "bheight b = bheight t" "rb u"
      "bheight u = bheight t" "tcolor b = RBT_COLOR_BLACK"
    using inv f c2 by (auto simp: fixup_inv_def)
  show ?thesis
  proof (cases "tcolor u = RBT_COLOR_BLACK")
    case True
    show ?thesis
    proof (cases "f = FL p RBT_COLOR_RED d1 b")
      case L: True
      have p: "ptr (sentinel T) t = tp" by (simp add: t)
      show ?thesis
        unfolding p
        by (rule fixed_stop[OF fixup_RL[OF full[unfolded P_def if_P[OF L]] t True ok(1)]])
           (use ok t True L in auto)
    next
      case R: False
      then have f': "f = FR b p RBT_COLOR_RED d1" using f by simp
      show ?thesis
        by (rule fixed_stop[OF fixup_RR[OF full[unfolded P_def if_not_P[OF R]] red True ok(1)]])
           (use ok red True f' in auto)
    qed
  next
    case False
    then obtain ua q d3 v where u: "u = Nd ua q RBT_COLOR_RED d3 v" by (rule tcolor_redE)
    show ?thesis
    proof (cases "f = FL p RBT_COLOR_RED d1 b")
      case L: True
      show ?thesis
        by (rule fixed_again[OF fixup_uncle_R[OF full[unfolded P_def if_P[OF L] u] _ red] IH])
           (use ok red u L in auto)
    next
      case R: False
      then have f': "f = FR b p RBT_COLOR_RED d1" using f by simp
      show ?thesis
        by (rule fixed_again[OF fixup_uncle_R[OF full[unfolded P_def if_not_P[OF R] u] _ red] IH])
           (use ok red u f' in auto)
    qed
  qed
qed

theorem rbt_insert_fixup_inv:
  assumes "fixup_inv T k t"
  shows "fixed T (ptr (sentinel T) t) (cleft k @ inorder t @ cright k)"
  using assms
proof (induction "length k" arbitrary: T k t rule: less_induct)
  case less
  note inv = less.prems[unfolded fixup_inv_def]
  show ?case
  proof (cases "ccolor k = RBT_COLOR_BLACK")
    case True
    then have "ctx_ok k (tcolor t) (bheight t)" using inv ctx_ok_recolor by blast
    then show ?thesis
      using fixup_black_parent[of T k t] inv True
      by (intro fixed_stop[of T _ k t]) auto
  next
    case False
    then obtain f g k1 p d1 b where k: "k = f # g # k1"
      and f: "f = FL p RBT_COLOR_RED d1 b \<or> f = FR b p RBT_COLOR_RED d1"
      using inv by (cases k rule: ccolor.cases; cases "tl k") auto
    have IH: "\<And>T' l' g' d' r'. fixup_inv T' k1 (Nd l' g' RBT_COLOR_RED d' r') \<Longrightarrow>
        fixed T' g' (cleft k1 @ inorder (Nd l' g' RBT_COLOR_RED d' r') @ cright k1)"
      using less.hyps[of k1] k ptr.simps(2) by fastforce
    show ?thesis
    proof (cases g)
      case (FL q c2 d2 u)
      with fixed_under_left[OF less.prems[unfolded k FL] f IH] k show ?thesis by simp
    next
      case (FR u q c2 d2)
      with fixed_under_right[OF less.prems[unfolded k FR] f IH] k show ?thesis by simp
    qed
  qed
qed

end
