(* ===== verification/Rb_Ops.thy ===== *)
theory Rb_Ops
  imports Rb_Insert
begin

text \<open>
  \<open>rbt_insert\<close> and \<open>rbt_query\<close> on whole trees.  The locale \<open>cmp_callback\<close> is the contract the
  tree has with its client: on the objects the client stores, the callback \<open>cmp_cb\<close> orders by a
  key.  Everything proved here holds for each callback that is shown to keep the contract.
\<close>

subsection \<open>The abstract contents\<close>

text \<open>The elements in order, read off the heap; no path is longer than the number of nodes made.\<close>

fun rb_walk :: "nat \<Rightarrow> (addr \<rightharpoonup> 'a rbt_node) \<Rightarrow> addr \<Rightarrow> addr \<Rightarrow> 'a list" where
  "rb_walk 0 m s p = []"
| "rb_walk (Suc n) m s p =
     (if p = s then []
      else case m p of None \<Rightarrow> []
        | Some nd \<Rightarrow> rb_walk n m s (lchild nd) @
            (case data nd of None \<Rightarrow> [] | Some d \<Rightarrow> [d]) @ rb_walk n m s (rchild nd))"

definition rbt_items :: "'a rbt_tree \<Rightarrow> 'a list" where
  "rbt_items T = rb_walk (rb_brk T) (rb_mem T) (sentinel T) (root T)"

text \<open>
  \<open>rbt_ok key valid T xs\<close>: \<open>T\<close> is a red-black tree with the valid elements \<open>xs\<close> in increasing
  key order; \<open>rb_num\<close> counts them; the heap holds their nodes, the sentinel and nothing else
  (nothing leaked, nothing freed early), all below the next fresh location.
\<close>

definition rbt_ok :: "('a \<Rightarrow> 'k::linorder) \<Rightarrow> ('a \<Rightarrow> bool) \<Rightarrow> 'a rbt_tree \<Rightarrow> 'a list \<Rightarrow> bool" where
  "rbt_ok key valid T xs \<longleftrightarrow>
     rb_whole T xs \<and> sorted_wrt (<) (map key xs) \<and> (\<forall>x \<in> set xs. valid x) \<and>
     rb_num T = of_nat (length xs) \<and> finite (dom (rb_mem T)) \<and>
     card (dom (rb_mem T)) = Suc (length xs) \<and> (\<forall>n. Loc n \<in> dom (rb_mem T) \<longrightarrow> n < rb_brk T)"

lemma length_inorder: "length (inorder t) = length (taddrs t)"
  by (induction t) auto

lemma rb_walk_tree:
  "tree_at m s pa t \<Longrightarrow> s \<notin> set (taddrs t) \<Longrightarrow> length (taddrs t) < n \<Longrightarrow>
   rb_walk n m s (ptr s t) = inorder t"
proof (induction t arbitrary: pa n)
  case Lf
  then show ?case by (cases n) auto
next
  case (Nd l p c d r)
  obtain n' where n: "n = Suc n'" using Nd.prems(3) by (cases n) auto
  have "rb_walk n' m s (ptr s l) = inorder l" "rb_walk n' m s (ptr s r) = inorder r"
    using Nd.prems n by (intro Nd.IH[where pa = p]; simp)+
  then show ?case using Nd.prems n by auto
qed

lemma tree_at_dom: "tree_at m s pa t \<Longrightarrow> x \<in> set (taddrs t) \<Longrightarrow> x \<in> dom m"
  by (induction t arbitrary: pa) auto

lemma rbt_items_eq:
  assumes "rbt_ok key valid T xs" shows "rbt_items T = xs"
proof -
  obtain t where t: "rb_at T [] t" "inorder t = xs"
    and brk: "\<forall>n. Loc n \<in> dom (rb_mem T) \<longrightarrow> n < rb_brk T"
    using assms unfolding rbt_ok_def rb_whole_def by blast
  have at: "tree_at (rb_mem T) (sentinel T) (sentinel T) t" "root T = ptr (sentinel T) t"
    and dist: "distinct (sentinel T # taddrs t)" and null: "NULL \<notin> set (sentinel T # taddrs t)"
    and s: "sentinel T \<in> dom (rb_mem T)"
    using t(1) by (auto simp: rb_at_def)
  have "x \<in> Loc ` {..<rb_brk T}" if "x \<in> set (sentinel T # taddrs t)" for x
  proof -
    have "x \<in> dom (rb_mem T)" using that s tree_at_dom[OF at(1)] by auto
    then show ?thesis using brk null that by (cases x) auto
  qed
  then have "card (set (sentinel T # taddrs t)) \<le> card (Loc ` {..<rb_brk T})"
    by (intro card_mono) auto
  also have "\<dots> \<le> rb_brk T" using card_image_le[of "{..<rb_brk T}" Loc] by simp
  finally have "length (taddrs t) < rb_brk T" unfolding distinct_card[OF dist] by simp
  then show ?thesis
    using rb_walk_tree[OF at(1)] dist at(2) t(2) by (simp add: rbt_items_def)
qed

lemma rbt_ok_whole:
  assumes "rbt_ok key valid T xs"
  obtains t where "rb_at T [] t" "rb t" "tcolor t = RBT_COLOR_BLACK" "inorder t = xs"
  using assms unfolding rbt_ok_def rb_whole_def by blast

lemma rbt_ok_same:
  "rbt_ok key valid T xs \<Longrightarrow> rb_same T T' \<Longrightarrow> rb_whole T' xs \<Longrightarrow> rbt_ok key valid T' xs"
  unfolding rbt_ok_def rb_same_def by auto

lemma rbt_creat_ok:
  "rbt_creat True True cmp = Some (Some T) \<Longrightarrow> rbt_ok key valid T [] \<and> cmp_cb T = cmp"
  unfolding rbt_ok_def rb_whole_def
  by (auto simp: rbt_creat_def rb_at_def intro!: exI[of _ Lf] split: if_splits)

subsection \<open>Linking a new leaf\<close>

fun frame_side :: "'a frame \<Rightarrow> nat" where
  "frame_side (FL p c d r) = RBT_LCHILD"
| "frame_side (FR l p c d) = RBT_RCHILD"

lemma rbt_add_leaf_at:
  assumes "rb_at T (f # k) Lf" and "rb_mem T (Loc (rb_brk T)) = None"
  shows "\<exists>T1. rbt_add_leaf T True (cptr (sentinel T) (f # k)) (frame_side f) d =
        Some (Loc (rb_brk T), T1) \<and>
     rb_at T1 (f # k) (Nd Lf (Loc (rb_brk T)) RBT_COLOR_RED d Lf) \<and>
     sentinel T1 = sentinel T \<and> cmp_cb T1 = cmp_cb T \<and> rb_num T1 = rb_num T + 1 \<and>
     rb_brk T1 = Suc (rb_brk T) \<and> dom (rb_mem T1) = insert (Loc (rb_brk T)) (dom (rb_mem T))"
proof -
  let ?a = "Loc (rb_brk T)" and ?s = "sentinel T"
  have fresh: "?a \<notin> set (caddrs (f # k))" "?a \<noteq> ?s"
  proof -
    have "x \<in> dom (rb_mem T)" if "x \<in> set (caddrs (f # k))" for x
    proof -
      have "x \<in> set (taddrs (plug (f # k) Lf))"
        using that by (simp only: set_taddrs_plug) simp
      moreover have "rb_at T [] (plug (f # k) Lf)" using assms(1) by (simp only: rb_at_plug)
      ultimately show ?thesis
        using tree_at_dom[of "rb_mem T" ?s ?s] by (auto simp: rb_at_def)
    qed
    then show "?a \<notin> set (caddrs (f # k))" using assms(2) by blast
    show "?a \<noteq> ?s" using assms by (auto simp: rb_at_def)
  qed
  show ?thesis
    using assms fresh
    by (cases f) (clarsimp simp: rbt_add_leaf_def rbt_creat_node_def rb_at_def model_defs
        RBT_LCHILD_def RBT_RCHILD_def insert_absorb insert_commute domIff)+
qed

lemma rbt_insert_at_ok:
  assumes "rb_at T (f # k) Lf" and "rb_mem T (Loc (rb_brk T)) = None"
    and "ctx_ok (f # k) RBT_COLOR_BLACK 0"
  shows "\<exists>T'. rbt_insert_at T True (cptr (sentinel T) (f # k)) (frame_side f) d = Some (RBT_OK, T') \<and>
     rb_whole T' (cleft (f # k) @ d # cright (f # k)) \<and>
     sentinel T' = sentinel T \<and> cmp_cb T' = cmp_cb T \<and> rb_num T' = rb_num T + 1 \<and>
     rb_brk T' = Suc (rb_brk T) \<and> dom (rb_mem T') = insert (Loc (rb_brk T)) (dom (rb_mem T))"
proof -
  obtain T1 where T1: "rbt_add_leaf T True (cptr (sentinel T) (f # k)) (frame_side f) d =
        Some (Loc (rb_brk T), T1)"
      "rb_at T1 (f # k) (Nd Lf (Loc (rb_brk T)) RBT_COLOR_RED d Lf)"
      "sentinel T1 = sentinel T" "cmp_cb T1 = cmp_cb T" "rb_num T1 = rb_num T + 1"
      "rb_brk T1 = Suc (rb_brk T)" "dom (rb_mem T1) = insert (Loc (rb_brk T)) (dom (rb_mem T))"
    using rbt_add_leaf_at[OF assms(1,2)] by blast
  have "fixup_inv T1 (f # k) (Nd Lf (Loc (rb_brk T)) RBT_COLOR_RED d Lf)"
    using T1(2) assms(3) by (simp add: fixup_inv_def)
  from rbt_insert_fixup_inv[OF this] T1 show ?thesis
    by (auto simp: fixed_def rb_same_def rbt_insert_at_def)
qed

subsection \<open>The callback contract\<close>

locale cmp_callback =
  fixes cmp :: "'a \<Rightarrow> 'a \<Rightarrow> int" and key :: "'a \<Rightarrow> 'k::linorder" and valid :: "'a \<Rightarrow> bool"
  assumes cmp_zero: "valid x \<Longrightarrow> valid y \<Longrightarrow> (cmp x y = 0) = (key x = key y)"
    and cmp_neg: "valid x \<Longrightarrow> valid y \<Longrightarrow> (cmp x y < 0) = (key x < key y)"
begin

lemma sorted_append_keys:
  "sorted_wrt (<) (map key (xs @ y # zs)) \<longleftrightarrow> sorted_wrt (<) (map key (xs @ zs)) \<and>
   (\<forall>x \<in> set xs. key x < key y) \<and> (\<forall>z \<in> set zs. key y < key z)"
  by (auto simp: sorted_wrt_append)

text \<open>The search of \<open>rbt_query\<close> and \<open>rbt_delete\<close> ends at the node with the key, or at no node.\<close>

definition found_at :: "'a rbt_tree \<Rightarrow> 'a rtree \<Rightarrow> 'a \<Rightarrow> addr \<Rightarrow> bool" where
  "found_at T t0 q p \<longleftrightarrow> (\<exists>k l c d r. rb_at T k (Nd l p c d r) \<and> key d = key q \<and>
     plug k (Nd l p c d r) = t0)"

lemma rbt_query_loop_step:
  assumes "rb_at T k (Nd l p c d r)" and "cmp_cb T = cmp" and "valid q" and "valid d"
  shows "rbt_query_loop T q p =
     (if key q = key d then Some p
      else if key q < key d then rbt_query_loop T q (ptr (sentinel T) l)
      else rbt_query_loop T q (ptr (sentinel T) r))"
proof -
  have "sentinel T \<noteq> p" using assms(1) by (auto simp: rb_at_def)
  then show ?thesis
    using node_at[OF assms(1)] cmp_zero[OF assms(3,4)] cmp_neg[OF assms(3,4)] assms(2)
    by (simp add: rbt_query_loop.simps[of T q p] Let_def)
qed

lemma rbt_query_loop_at:
  assumes "rb_at T k t" and "cmp_cb T = cmp" and "valid q" and "\<forall>x \<in> set (inorder t). valid x"
    and "sorted_wrt (<) (map key (inorder t))"
  shows "(\<exists>p. rbt_query_loop T q (ptr (sentinel T) t) = Some p \<and> found_at T (plug k t) q p) \<or>
     (rbt_query_loop T q (ptr (sentinel T) t) = Some NULL \<and> (\<forall>x \<in> set (inorder t). key x \<noteq> key q))"
  using assms
proof (induction t arbitrary: k)
  case Lf
  have "rbt_query_loop T q (sentinel T) = Some NULL"
    by (subst rbt_query_loop.simps) simp
  then show ?case by simp
next
  case (Nd l p c d r)
  have v: "valid d" using Nd.prems(4) by simp
  note step = rbt_query_loop_step[OF Nd.prems(1-3) v]
  have below: "\<forall>x \<in> set (inorder l). key x < key d" "\<forall>x \<in> set (inorder r). key d < key x"
    using Nd.prems(5) by (auto simp: sorted_wrt_append)
  consider "key q = key d" | "key q < key d" | "key d < key q" by (rule linorder_cases) auto
  then show ?case
  proof cases
    case 1
    then have "found_at T (plug k (Nd l p c d r)) q p"
      unfolding found_at_def using Nd.prems(1) by metis
    then show ?thesis using step 1 by simp
  next
    case 2
    have "rb_at T (FL p c d r # k) l" using Nd.prems(1) by (simp add: rb_at_fold)
    from Nd.IH(1)[OF this Nd.prems(2,3)] Nd.prems(4,5) step 2 below(2) show ?thesis
      by (auto simp: sorted_wrt_append)
  next
    case 3
    have "rb_at T (FR l p c d # k) r" using Nd.prems(1) by (simp add: rb_at_fold)
    from Nd.IH(2)[OF this Nd.prems(2,3)] Nd.prems(4,5) step 3 below(1) show ?thesis
      by (auto simp: sorted_wrt_append)
  qed
qed

lemma found_split:
  assumes "rb_at T [] t" and "found_at T t q p" and "sorted_wrt (<) (map key (inorder t))"
  obtains k l c d r where "rb_at T k (Nd l p c d r)" "key d = key q" "plug k (Nd l p c d r) = t"
    "find (\<lambda>x. key x = key q) (inorder t) = Some d" "p \<noteq> NULL"
    "inorder t = (cleft k @ inorder l) @ d # (inorder r @ cright k)"
proof -
  obtain k l c d r where h: "rb_at T k (Nd l p c d r)" "key d = key q" "plug k (Nd l p c d r) = t"
    using assms(2) unfolding found_at_def by blast
  have xs: "inorder t = (cleft k @ inorder l) @ d # (inorder r @ cright k)"
    unfolding h(3)[symmetric] inorder_plug by simp
  have "\<forall>x \<in> set (cleft k @ inorder l). key x \<noteq> key q"
    using assms(3) unfolding xs sorted_append_keys h(2) by (metis less_irrefl)
  then have "find (\<lambda>x. key x = key q) (inorder t) = Some d"
    unfolding xs by (intro find_append_hit) (auto simp: h(2))
  moreover have "p \<noteq> NULL" using h(1) by (auto simp: rb_at_def)
  ultimately show thesis using that h xs by blast
qed

lemma rbt_query_ok:
  assumes "rbt_ok key valid T xs" and "cmp_cb T = cmp" and "valid q"
  shows "rbt_query T q = Some (find (\<lambda>x. key x = key q) xs)"
proof -
  obtain t where t: "rb_at T [] t" "inorder t = xs"
    using assms(1) by (rule rbt_ok_whole)
  have r: "root T = ptr (sentinel T) t" using t by (simp add: rb_at_def)
  have s: "\<forall>x \<in> set (inorder t). valid x" "sorted_wrt (<) (map key (inorder t))"
    using assms(1) t by (auto simp: rbt_ok_def)
  from rbt_query_loop_at[OF t(1) assms(2,3) s] consider
      (hit) p where "rbt_query_loop T q (root T) = Some p" "found_at T t q p"
    | (miss) "rbt_query_loop T q (root T) = Some NULL" "\<forall>x \<in> set xs. key x \<noteq> key q"
    using t r by auto
  then show ?thesis
  proof cases
    case hit
    obtain k l c d r where h: "rb_at T k (Nd l p c d r)" "p \<noteq> NULL"
        "find (\<lambda>x. key x = key q) (inorder t) = Some d"
      using found_split[OF t(1) hit(2) s(2)] by metis
    with hit(1) node_at[OF h(1)] t(2) show ?thesis by (simp add: rbt_query_def)
  next
    case miss
    then have "find (\<lambda>x. key x = key q) xs = None" by (auto simp: find_None_iff)
    with miss(1) show ?thesis by (simp add: rbt_query_def)
  qed
qed

text \<open>The descent of \<open>rbt_insert\<close> finds the key, or the leaf where it belongs.\<close>

lemma rbt_insert_loop_at:
  assumes "rb_at T k (Nd l p c d r)" and "cmp_cb T = cmp" and "valid q"
    and "\<forall>x \<in> set (inorder (Nd l p c d r)). valid x"
    and "sorted_wrt (<) (map key (inorder (Nd l p c d r)))"
    and "\<forall>x \<in> set (cleft k). key x < key q" and "\<forall>x \<in> set (cright k). key q < key x"
  shows "((\<exists>x \<in> set (inorder (Nd l p c d r)). key x = key q) \<and>
        rbt_insert_loop T alloc q p = Some (RBT_NODE_EXIST, T)) \<or>
     (\<exists>f k'. rbt_insert_loop T alloc q p =
          rbt_insert_at T alloc (cptr (sentinel T) (f # k')) (frame_side f) q \<and>
        rb_at T (f # k') Lf \<and> plug (f # k') Lf = plug k (Nd l p c d r) \<and>
        (\<forall>x \<in> set (cleft (f # k')). key x < key q) \<and> (\<forall>x \<in> set (cright (f # k')). key q < key x))"
  using assms
proof (induction "Nd l p c d r" arbitrary: l p c d r k)
  case (Nd l p c d r)
  have v: "valid d" using Nd.prems(4) by simp
  have sp: "sentinel T \<noteq> p" using Nd.prems(1) by (auto simp: rb_at_def)
  have atl: "rb_at T (FL p c d r # k) l" and atr: "rb_at T (FR l p c d # k) r"
    using Nd.prems(1) by (simp_all add: rb_at_fold)
  have srt: "sorted_wrt (<) (map key (inorder l))" "sorted_wrt (<) (map key (inorder r))"
    "\<forall>x \<in> set (inorder l). key x < key d" "\<forall>x \<in> set (inorder r). key d < key x"
    using Nd.prems(5) by (auto simp: sorted_wrt_append)
  note step = rbt_insert_loop.simps[of T alloc q p]
  consider (eq) "key q = key d" | (lt) "key q < key d" | (gt) "key d < key q"
    by (rule linorder_cases) auto
  then show ?case
  proof cases
    case eq
    then have "rbt_insert_loop T alloc q p = Some (RBT_NODE_EXIST, T)"
      using step node_at[OF Nd.prems(1)] sp cmp_zero[OF Nd.prems(3) v] Nd.prems(2)
      by (simp add: Let_def)
    then show ?thesis using eq by simp
  next
    case lt
    have cr: "\<forall>x \<in> set (cright (FL p c d r # k)). key q < key x"
      using lt srt(4) Nd.prems(7) by auto
    have go: "rbt_insert_loop T alloc q p =
        (if l = Lf then rbt_insert_at T alloc p RBT_LCHILD q
         else rbt_insert_loop T alloc q (ptr (sentinel T) l))"
      using step node_at[OF Nd.prems(1)] sp cmp_zero[OF Nd.prems(3) v] cmp_neg[OF Nd.prems(3) v]
        Nd.prems(1,2) lt
      by (cases l) (auto simp: Let_def rb_at_def)
    show ?thesis
    proof (cases l)
      case Lf
      then show ?thesis using go atl cr Nd.prems(6)
        by (intro disjI2 exI[of _ "FL p c d r"] exI[of _ k]) simp
    next
      case (Nd ll lp lc ld lr)
      have "\<forall>x \<in> set (inorder l). valid x" using Nd.prems(4) by simp
      moreover have "\<forall>x \<in> set (cleft (FL p c d r # k)). key x < key q" using Nd.prems(6) by simp
      ultimately have
        "((\<exists>x \<in> set (inorder l). key x = key q) \<and>
           rbt_insert_loop T alloc q lp = Some (RBT_NODE_EXIST, T)) \<or>
         (\<exists>f k'. rbt_insert_loop T alloc q lp =
            rbt_insert_at T alloc (cptr (sentinel T) (f # k')) (frame_side f) q \<and>
          rb_at T (f # k') Lf \<and> plug (f # k') Lf = plug (FL p c d r # k) l \<and>
          (\<forall>x \<in> set (cleft (f # k')). key x < key q) \<and>
          (\<forall>x \<in> set (cright (f # k')). key q < key x))"
        using Nd.hyps(1)[OF Nd atl[unfolded Nd] Nd.prems(2,3)] srt(1) cr unfolding Nd by blast
      then show ?thesis using go Nd by auto
    qed
  next
    case gt
    have cl: "\<forall>x \<in> set (cleft (FR l p c d # k)). key x < key q"
      using gt srt(3) Nd.prems(6) by auto
    have go: "rbt_insert_loop T alloc q p =
        (if r = Lf then rbt_insert_at T alloc p RBT_RCHILD q
         else rbt_insert_loop T alloc q (ptr (sentinel T) r))"
      using step node_at[OF Nd.prems(1)] sp cmp_zero[OF Nd.prems(3) v] cmp_neg[OF Nd.prems(3) v]
        Nd.prems(1,2) gt
      by (cases r) (auto simp: Let_def rb_at_def)
    show ?thesis
    proof (cases r)
      case Lf
      then show ?thesis using go atr cl Nd.prems(7)
        by (intro disjI2 exI[of _ "FR l p c d"] exI[of _ k]) simp
    next
      case (Nd rl rp rc rd rr)
      have "\<forall>x \<in> set (inorder r). valid x" using Nd.prems(4) by simp
      moreover have "\<forall>x \<in> set (cright (FR l p c d # k)). key q < key x" using Nd.prems(7) by simp
      ultimately have
        "((\<exists>x \<in> set (inorder r). key x = key q) \<and>
           rbt_insert_loop T alloc q rp = Some (RBT_NODE_EXIST, T)) \<or>
         (\<exists>f k'. rbt_insert_loop T alloc q rp =
            rbt_insert_at T alloc (cptr (sentinel T) (f # k')) (frame_side f) q \<and>
          rb_at T (f # k') Lf \<and> plug (f # k') Lf = plug (FR l p c d # k) r \<and>
          (\<forall>x \<in> set (cleft (f # k')). key x < key q) \<and>
          (\<forall>x \<in> set (cright (f # k')). key q < key x))"
        using Nd.hyps(2)[OF Nd atr[unfolded Nd] Nd.prems(2,3)] srt(2) cl unfolding Nd by blast
      then show ?thesis using go Nd by auto
    qed
  qed
qed

lemma fresh_brk: "rbt_ok key valid T xs \<Longrightarrow> rb_mem T (Loc (rb_brk T)) = None"
  unfolding rbt_ok_def by (metis domIff less_irrefl)

lemma rbt_insert_root:
  assumes "rbt_ok key valid T []" and "valid q"
  shows "\<exists>T'. rbt_insert T True q = Some (RBT_OK, T') \<and> rbt_ok key valid T' [q] \<and>
     cmp_cb T' = cmp_cb T"
proof -
  have at: "rb_at T [] (Lf :: 'a rtree)"
    using assms(1) by (rule rbt_ok_whole) (metis Nil_is_append_conv inorder.elims list.discI)
  have fresh: "rb_mem T (Loc (rb_brk T)) = None" using assms(1) by (rule fresh_brk)
  have s: "sentinel T \<noteq> Loc (rb_brk T)" using at fresh by (auto simp: rb_at_def)
  define T' where "T' = T\<lparr>root := Loc (rb_brk T), rb_num := rb_num T + 1, rb_brk := Suc (rb_brk T),
      rb_mem := (rb_mem T)(Loc (rb_brk T) \<mapsto>
        mk_node RBT_COLOR_BLACK (sentinel T) (sentinel T) (sentinel T) q)\<rparr>"
  have run: "rbt_insert T True q = Some (RBT_OK, T')"
    using at s by (simp add: rbt_insert_def rbt_creat_node_def rb_at_def model_defs T'_def)
  have "rb_at T' [] (Nd Lf (Loc (rb_brk T)) RBT_COLOR_BLACK q Lf)"
    using at s by (auto simp: rb_at_def T'_def)
  then have "rb_whole T' [q]" by (rule rb_wholeI) auto
  moreover have "dom (rb_mem T') = insert (Loc (rb_brk T)) (dom (rb_mem T))" by (simp add: T'_def)
  ultimately have "rbt_ok key valid T' [q]"
    using assms fresh by (auto simp: rbt_ok_def T'_def domIff less_Suc_eq)
  then show ?thesis using run by (simp add: T'_def)
qed

text \<open>Insertion of a new key: the element is added at its place in the order.\<close>

lemma rbt_insert_new:
  assumes ok: "rbt_ok key valid T xs" and cmp: "cmp_cb T = cmp" and "valid q"
    and new: "\<forall>x \<in> set xs. key x \<noteq> key q"
  shows "\<exists>T' ys zs. rbt_insert T True q = Some (RBT_OK, T') \<and> xs = ys @ zs \<and>
     rbt_ok key valid T' (ys @ q # zs) \<and> cmp_cb T' = cmp"
proof -
  obtain t where t: "rb_at T [] t" "rb t" "tcolor t = RBT_COLOR_BLACK" "inorder t = xs"
    using ok by (rule rbt_ok_whole)
  show ?thesis
  proof (cases t)
    case Lf
    then have "xs = []" using t(4) by simp
    with rbt_insert_root[of T q] ok assms(3) cmp show ?thesis by fastforce
  next
    case (Nd l p c d r)
    have fresh: "rb_mem T (Loc (rb_brk T)) = None" using ok by (rule fresh_brk)
    have run: "rbt_insert T True q = rbt_insert_loop T True q p"
      using t(1) Nd by (auto simp: rbt_insert_def rb_at_def)
    obtain f k where leaf: "rbt_insert T True q =
          rbt_insert_at T True (cptr (sentinel T) (f # k)) (frame_side f) q"
        "rb_at T (f # k) Lf" "plug (f # k) Lf = t"
        "\<forall>x \<in> set (cleft (f # k)). key x < key q" "\<forall>x \<in> set (cright (f # k)). key q < key x"
      using rbt_insert_loop_at[OF t(1)[unfolded Nd] cmp assms(3), of True] new ok t(4) Nd run
      by (auto simp: rbt_ok_def)
    have "ctx_ok (f # k) RBT_COLOR_BLACK 0"
      using rb_plug[of Lf "f # k"] t(2,3) leaf(3) by simp
    then obtain T' where T': "rbt_insert T True q = Some (RBT_OK, T')"
        "rb_whole T' (cleft (f # k) @ q # cright (f # k))" "cmp_cb T' = cmp"
        "rb_num T' = rb_num T + 1" "rb_brk T' = Suc (rb_brk T)"
        "dom (rb_mem T') = insert (Loc (rb_brk T)) (dom (rb_mem T))"
      using rbt_insert_at_ok[OF leaf(2) fresh, of q] leaf(1) cmp by metis
    have xs: "xs = cleft (f # k) @ cright (f # k)"
      using t(4) leaf(3) inorder_plug[of "f # k" Lf] by simp
    have "rbt_ok key valid T' (cleft (f # k) @ q # cright (f # k))"
      using ok T' leaf(4,5) assms(3) fresh unfolding rbt_ok_def sorted_append_keys xs
      by (auto simp: domIff less_Suc_eq)
    then show ?thesis using T'(1,3) xs by blast
  qed
qed

text \<open>A key that is present is refused and nothing changes.\<close>

lemma rbt_insert_exists:
  assumes ok: "rbt_ok key valid T xs" and cmp: "cmp_cb T = cmp" and "valid q"
    and old: "\<exists>x \<in> set xs. key x = key q"
  shows "rbt_insert T alloc q = Some (RBT_NODE_EXIST, T)"
proof -
  obtain t where t: "rb_at T [] t" "rb t" "tcolor t = RBT_COLOR_BLACK" "inorder t = xs"
    using ok by (rule rbt_ok_whole)
  then obtain l p c d r where Nd: "t = Nd l p c d r" using old by (cases t) auto
  have run: "rbt_insert T alloc q = rbt_insert_loop T alloc q p"
    using t(1) Nd by (auto simp: rbt_insert_def rb_at_def)
  have v: "\<forall>x \<in> set (inorder (Nd l p c d r)). valid x"
    "sorted_wrt (<) (map key (inorder (Nd l p c d r)))"
    using ok t(4) Nd unfolding rbt_ok_def by metis+
  have no: "\<not> ((\<forall>x \<in> set (cleft k). key x < key q) \<and> (\<forall>x \<in> set (cright k). key q < key x))"
    if "plug k Lf = t" for k
  proof -
    have "set xs = set (cleft k) \<union> set (cright k)"
      using t(4) inorder_plug[of k Lf] that by simp
    then show ?thesis using old by (metis UnE less_irrefl)
  qed
  have "rbt_insert_loop T alloc q p = Some (RBT_NODE_EXIST, T)"
    using rbt_insert_loop_at[OF t(1)[unfolded Nd] cmp assms(3) v, of alloc] no
    unfolding Nd plug.simps(1) cleft.simps(1) cright.simps(1) by fastforce
  then show ?thesis using run by simp
qed

text \<open>When the node cannot be allocated, a new key is refused and nothing changes.\<close>

lemma rbt_insert_nomem:
  assumes ok: "rbt_ok key valid T xs" and cmp: "cmp_cb T = cmp" and "valid q"
    and new: "\<forall>x \<in> set xs. key x \<noteq> key q"
  shows "rbt_insert T False q = Some (RBT_ERR, T)"
proof -
  obtain t where t: "rb_at T [] t" "rb t" "tcolor t = RBT_COLOR_BLACK" "inorder t = xs"
    using ok by (rule rbt_ok_whole)
  show ?thesis
  proof (cases t)
    case Lf
    then have "root T = sentinel T" using t(1) by (simp add: rb_at_def)
    then show ?thesis by (simp add: rbt_insert_def rbt_creat_node_def)
  next
    case (Nd l p c d r)
    have run: "rbt_insert T False q = rbt_insert_loop T False q p"
      using t(1) Nd by (auto simp: rbt_insert_def rb_at_def)
    obtain f k where "rbt_insert T False q =
          rbt_insert_at T False (cptr (sentinel T) (f # k)) (frame_side f) q"
        "rb_at T (f # k) Lf" "plug (f # k) Lf = t"
      using rbt_insert_loop_at[OF t(1)[unfolded Nd] cmp assms(3), of False] new ok t(4) Nd run
      by (auto simp: rbt_ok_def)
    then show ?thesis
      by (simp add: rbt_insert_at_def rbt_add_leaf_def rbt_creat_node_def)
  qed
qed

end

end
