(* ===== verification/Rb_Delete.thy ===== *)
theory Rb_Delete
  imports Rb_Ops
begin

text \<open>
  \<open>rbt_delete\<close>: removal of a node and the repair loop \<open>rbt_delete_fixup\<close>, which is started at the
  place of a removed black node and restores the black heights.
\<close>

subsection \<open>The position with a missing black node\<close>

text \<open>
  \<open>hole_at\<close>: the focus may be the sentinel, whose \<open>parent\<close> field the removal has set so that the
  loop can climb from it.
\<close>

definition hole_at :: "'a rbt_tree \<Rightarrow> 'a frame list \<Rightarrow> 'a rtree \<Rightarrow> bool" where
  "hole_at T k t \<longleftrightarrow> rb_at T k t \<and>
     map_option parent (rb_mem T (ptr (sentinel T) t)) = Some (cptr (sentinel T) k)"

lemma hole_atI: "rb_at T k t \<Longrightarrow> t \<noteq> Lf \<Longrightarrow> hole_at T k t"
  by (cases t) (auto simp: hole_at_def rb_at_def)

lemma hole_at_same:
  assumes "hole_at T k t" and "rb_same T T'" and "rb_at T' k' t" and "cptr (sentinel T) k' = cptr (sentinel T) k"
  shows "hole_at T' k' t"
  using assms by (cases t) (auto simp: hole_at_def rb_at_def rb_same_def)

definition del_inv :: "'a rbt_tree \<Rightarrow> 'a frame list \<Rightarrow> 'a rtree \<Rightarrow> bool" where
  "del_inv T k t \<longleftrightarrow> hole_at T k t \<and> rb t \<and> ctx_ok k RBT_COLOR_BLACK (bheight t + 1)"

fun blacken :: "'a rtree \<Rightarrow> 'a rtree" where
  "blacken Lf = Lf"
| "blacken (Nd l p c d r) = Nd l p RBT_COLOR_BLACK d r"

lemma blacken_simps [simp]:
  "tcolor (blacken t) = RBT_COLOR_BLACK" "inorder (blacken t) = inorder t"
  "rb t \<Longrightarrow> rb (blacken t)" "taddrs (blacken t) = taddrs t"
  "bheight (blacken t) = bheight t + (if tcolor t = RBT_COLOR_RED then 1 else 0)"
  "ptr s (blacken t) = ptr s t" "tcolor t = RBT_COLOR_BLACK \<Longrightarrow> blacken t = t"
  by (cases t; auto)+

lemma set_black_at:
  assumes "rb_at T k t"
  shows "\<exists>T'. rbt_set_black T (ptr (sentinel T) t) = Some T' \<and> rb_at T' k (blacken t) \<and>
     rb_same T T' \<and> root T' = root T"
proof (cases t)
  case Lf
  then show ?thesis using assms
    by (clarsimp simp: rb_at_def rbt_set_black_def rbt_set_color_def rb_upd_def rb_same_def
        insert_absorb domIff)
next
  case (Nd l p c d r)
  then show ?thesis using set_color_focus[of T k l p c d r RBT_COLOR_BLACK] assms
    by (simp add: rbt_set_black_def)
qed

subsection \<open>Where the loop stops\<close>

definition in_tree :: "'a rbt_tree \<Rightarrow> 'a frame list \<Rightarrow> 'a rtree \<Rightarrow> addr \<Rightarrow> bool" where
  "in_tree T k t x \<longleftrightarrow> x \<in> set (NULL # sentinel T # taddrs t @ caddrs k)"

lemma in_tree_ptr: "in_tree T k t (ptr (sentinel T) t)"
  by (cases t) (auto simp: in_tree_def)

lemma delete_fixup_stop:
  assumes "rb_at T k t" and "tcolor t = RBT_COLOR_RED \<or> k = []"
    and "in_tree T k t pa" and "in_tree T k t br"
  shows "\<exists>T'. rbt_delete_fixup T (ptr (sentinel T) t) pa br = Some (RBT_OK, T') \<and>
     rb_at T' k (blacken t) \<and> rb_same T T'"
proof -
  obtain T' where T': "rbt_set_black T (ptr (sentinel T) t) = Some T'" "rb_at T' k (blacken t)"
      "rb_same T T'"
    using set_black_at[OF assms(1)] by blast
  have "ptr (sentinel T) t \<in> set (NULL # sentinel T # taddrs t @ caddrs k)"
    by (cases t) auto
  then have "rbt_assert T' (ptr (sentinel T) t) = Some ()" "rbt_assert T' pa = Some ()"
    "rbt_assert T' br = Some ()"
    using assms(3,4) T'(3) rbt_assert_at[OF T'(2)] by (simp_all add: in_tree_def rb_same_def)
  moreover have "\<not> (tcolor t = RBT_COLOR_BLACK \<and> root T \<noteq> ptr (sentinel T) t)"
    using assms(2) root_focus[OF assms(1)] by auto
  ultimately have "rbt_delete_fixup T (ptr (sentinel T) t) pa br = Some (RBT_OK, T')"
    using rb_at_black[OF assms(1)] T'(1)
    by (subst rbt_delete_fixup.simps) (simp del: not_red_iff)
  with T' show ?thesis by blast
qed

subsection \<open>A black brother\<close>

text \<open>Case 2: both nephews black.  The missing black moves up to the parent.\<close>

lemma delete_cases_l_push:
  assumes "rb_at T k (Nd t p c d (Nd wl q RBT_COLOR_BLACK wd wr))"
    and "tcolor wl = RBT_COLOR_BLACK" and "tcolor wr = RBT_COLOR_BLACK"
  shows "\<exists>T'. rbt_delete_cases_l T p q = Some (p, q, T') \<and>
     rb_at T' k (Nd t p c d (Nd wl q RBT_COLOR_RED wd wr)) \<and> rb_same T T'"
proof -
  have al: "rb_at T (FL q RBT_COLOR_BLACK wd wr # FR t p c d # k) wl"
    and ar: "rb_at T (FR wl q RBT_COLOR_BLACK wd # FR t p c d # k) wr"
    using assms(1) by (simp_all add: rb_at_fold)
  obtain T' where "rbt_set_red T q = Some T'" "rb_same T T'"
      "rb_at T' k (Nd t p c d (Nd wl q RBT_COLOR_RED wd wr))"
    using set_color_right[OF assms(1)] unfolding rbt_set_red_def by blast
  then show ?thesis
    using node_at_R[OF assms(1)] rb_at_black[OF al] rb_at_black[OF ar] assms(2,3)
    by (simp add: rbt_delete_cases_l_def)
qed

text \<open>Case 4: the outer nephew is red.\<close>

lemma copy_color_right:
  assumes "rb_at T k (Nd t p c d (Nd wl q wc wd wr))"
  shows "\<exists>T'. rbt_copy_color T q p = Some T' \<and> rb_at T' k (Nd t p c d (Nd wl q c wd wr)) \<and>
     rb_same T T'"
  using set_color_right[OF assms, of c] node_at[OF assms] by (auto simp: rbt_copy_color_def)

lemma delete_rotate_l:
  assumes "rb_at T k (Nd t p c d (Nd wl q wc wd wr))" and "tcolor wr = RBT_COLOR_RED"
  shows "\<exists>T'. (do {
        tree \<leftarrow> rbt_copy_color T q p;
        b \<leftarrow> rb_mem tree q;
        tree \<leftarrow> rbt_set_black tree (rchild b);
        tree \<leftarrow> rbt_set_black tree p;
        tree \<leftarrow> rbt_left_rotate tree p;
        Some (root tree, q, tree) }) = Some (root T', q, T') \<and>
     rb_at T' k (Nd (Nd t p RBT_COLOR_BLACK d wl) q c wd (blacken wr)) \<and> rb_same T T'"
proof -
  obtain T1 where T1: "rbt_copy_color T q p = Some T1" "rb_same T T1"
      "rb_at T1 k (Nd t p c d (Nd wl q c wd wr))"
    using copy_color_right[OF assms(1)] by blast
  have "rb_at T1 (FR wl q c wd # FR t p c d # k) wr" using T1(3) by (simp add: rb_at_fold)
  then obtain T2 where T2: "rbt_set_black T1 (ptr (sentinel T1) wr) = Some T2" "rb_same T1 T2"
      "rb_at T2 k (Nd t p c d (Nd wl q c wd (blacken wr)))"
    using set_black_at by (fastforce simp: rb_at_fold)
  obtain T3 where T3: "rbt_set_black T2 p = Some T3" "rb_same T2 T3"
      "rb_at T3 k (Nd t p RBT_COLOR_BLACK d (Nd wl q c wd (blacken wr)))"
    using set_color_focus[OF T2(3)] unfolding rbt_set_black_def by blast
  obtain T4 where T4: "rbt_left_rotate T3 p = Some T4" "rb_same T3 T4"
      "rb_at T4 k (Nd (Nd t p RBT_COLOR_BLACK d wl) q c wd (blacken wr))"
    using rbt_left_rotate_at[OF T3(3)] by blast
  have "rb_same T T4" using T1(2) T2(2) T3(2) T4(2) rb_same_trans by metis
  then show ?thesis using T1(1) T2(1) T3(1) T4(1,3) node_at_R[OF T1(3)] by auto
qed

text \<open>Cases 3 and 4 together: the subtree is repaired, with its colour and black height restored.\<close>

lemma delete_cases_l_done:
  assumes "rb_at T k (Nd t p c d (Nd wl q RBT_COLOR_BLACK wd wr))"
    and "rb t" and "rb (Nd wl q RBT_COLOR_BLACK wd wr)" and "bheight wl = bheight t"
    and "\<not> (tcolor wl = RBT_COLOR_BLACK \<and> tcolor wr = RBT_COLOR_BLACK)"
  shows "\<exists>T' u br. rbt_delete_cases_l T p q = Some (root T', br, T') \<and> rb_at T' k u \<and>
     rb_same T T' \<and> rb u \<and> tcolor u = c \<and> p \<in> set (taddrs u) \<and> br \<in> set (taddrs u) \<and>
     bheight u = bheight t + 1 + (if c = RBT_COLOR_BLACK then 1 else 0) \<and>
     inorder u = inorder (Nd t p c d (Nd wl q RBT_COLOR_BLACK wd wr))"
proof -
  let ?s = "sentinel T"
  have al: "rb_at T (FL q RBT_COLOR_BLACK wd wr # FR t p c d # k) wl"
    and ar: "rb_at T (FR wl q RBT_COLOR_BLACK wd # FR t p c d # k) wr"
    and aw: "rb_at T (FR t p c d # k) (Nd wl q RBT_COLOR_BLACK wd wr)"
    using assms(1) by (simp_all add: rb_at_fold)
  note read = node_at_R[OF assms(1)] rb_at_black[OF al] rb_at_black[OF ar]
  show ?thesis
  proof (cases "tcolor wr = RBT_COLOR_RED")
    case True
    obtain T' where T': "rbt_delete_cases_l T p q = Some (root T', q, T')" "rb_same T T'"
        "rb_at T' k (Nd (Nd t p RBT_COLOR_BLACK d wl) q c wd (blacken wr))"
      using delete_rotate_l[OF assms(1) True] read True by (auto simp: rbt_delete_cases_l_def)
    show ?thesis
      by (intro exI[of _ T'] exI[of _ q]
          exI[of _ "Nd (Nd t p RBT_COLOR_BLACK d wl) q c wd (blacken wr)"])
         (use T' True assms(2-4) in auto)
  next
    case False
    then obtain a x xd b where wl: "wl = Nd a x RBT_COLOR_RED xd b"
      using assms(5) by (cases wl) auto
    obtain T1 where T1: "rbt_set_black T x = Some T1" "rb_same T T1"
        "rb_at T1 (FR t p c d # k) (Nd (Nd a x RBT_COLOR_BLACK xd b) q RBT_COLOR_BLACK wd wr)"
      using set_color_left[OF aw[unfolded wl]] unfolding rbt_set_black_def by blast
    obtain T2 where T2: "rbt_set_red T1 q = Some T2" "rb_same T1 T2"
        "rb_at T2 (FR t p c d # k) (Nd (Nd a x RBT_COLOR_BLACK xd b) q RBT_COLOR_RED wd wr)"
      using set_color_focus[OF T1(3)] unfolding rbt_set_red_def by blast
    obtain T3 where T3: "rbt_right_rotate T2 q = Some T3" "rb_same T2 T3"
        "rb_at T3 (FR t p c d # k) (Nd a x RBT_COLOR_BLACK xd (Nd b q RBT_COLOR_RED wd wr))"
      using rbt_right_rotate_at[OF T2(3)] by blast
    have at3: "rb_at T3 k (Nd t p c d (Nd a x RBT_COLOR_BLACK xd (Nd b q RBT_COLOR_RED wd wr)))"
      using T3(3) by (simp add: rb_at_fold)
    obtain T' where T': "rbt_delete_cases_l T p q = Some (root T', x, T')" "rb_same T3 T'"
        "rb_at T' k (Nd (Nd t p RBT_COLOR_BLACK d a) x c xd (Nd b q RBT_COLOR_BLACK wd wr))"
      using delete_rotate_l[OF at3] read False wl T1(1) T2(1) T3(1) node_at[OF at3]
      by (auto simp: rbt_delete_cases_l_def)
    have "rb_same T T'" using T1(2) T2(2) T3(2) T'(2) rb_same_trans by metis
    then show ?thesis
      by (intro exI[of _ T'] exI[of _ x]
          exI[of _ "Nd (Nd t p RBT_COLOR_BLACK d a) x c xd (Nd b q RBT_COLOR_BLACK wd wr)"])
         (use T' False wl assms(2-4) in auto)
  qed
qed

text \<open>The same with the brother on the left (cases 6 to 8 of the source).\<close>

lemma delete_cases_r_push:
  assumes "rb_at T k (Nd (Nd wr q RBT_COLOR_BLACK wd wl) p c d t)"
    and "tcolor wl = RBT_COLOR_BLACK" and "tcolor wr = RBT_COLOR_BLACK"
  shows "\<exists>T'. rbt_delete_cases_r T p q = Some (p, q, T') \<and>
     rb_at T' k (Nd (Nd wr q RBT_COLOR_RED wd wl) p c d t) \<and> rb_same T T'"
proof -
  have al: "rb_at T (FR wr q RBT_COLOR_BLACK wd # FL p c d t # k) wl"
    and ar: "rb_at T (FL q RBT_COLOR_BLACK wd wl # FL p c d t # k) wr"
    using assms(1) by (simp_all add: rb_at_fold)
  obtain T' where "rbt_set_red T q = Some T'" "rb_same T T'"
      "rb_at T' k (Nd (Nd wr q RBT_COLOR_RED wd wl) p c d t)"
    using set_color_left[OF assms(1)] unfolding rbt_set_red_def by blast
  then show ?thesis
    using node_at_L[OF assms(1)] rb_at_black[OF al] rb_at_black[OF ar] assms(2,3)
    by (simp add: rbt_delete_cases_r_def)
qed

lemma copy_color_left:
  assumes "rb_at T k (Nd (Nd wr q wc wd wl) p c d t)"
  shows "\<exists>T'. rbt_copy_color T q p = Some T' \<and> rb_at T' k (Nd (Nd wr q c wd wl) p c d t) \<and>
     rb_same T T'"
  using set_color_left[OF assms, of c] node_at[OF assms] by (auto simp: rbt_copy_color_def)

lemma delete_rotate_r:
  assumes "rb_at T k (Nd (Nd wr q wc wd wl) p c d t)" and "tcolor wr = RBT_COLOR_RED"
  shows "\<exists>T'. (do {
        tree \<leftarrow> rbt_copy_color T q p;
        b \<leftarrow> rb_mem tree q;
        tree \<leftarrow> rbt_set_black tree (lchild b);
        tree \<leftarrow> rbt_set_black tree p;
        tree \<leftarrow> rbt_right_rotate tree p;
        Some (root tree, q, tree) }) = Some (root T', q, T') \<and>
     rb_at T' k (Nd (blacken wr) q c wd (Nd wl p RBT_COLOR_BLACK d t)) \<and> rb_same T T'"
proof -
  obtain T1 where T1: "rbt_copy_color T q p = Some T1" "rb_same T T1"
      "rb_at T1 k (Nd (Nd wr q c wd wl) p c d t)"
    using copy_color_left[OF assms(1)] by blast
  have "rb_at T1 (FL q c wd wl # FL p c d t # k) wr" using T1(3) by (simp add: rb_at_fold)
  then obtain T2 where T2: "rbt_set_black T1 (ptr (sentinel T1) wr) = Some T2" "rb_same T1 T2"
      "rb_at T2 k (Nd (Nd (blacken wr) q c wd wl) p c d t)"
    using set_black_at by (fastforce simp: rb_at_fold)
  obtain T3 where T3: "rbt_set_black T2 p = Some T3" "rb_same T2 T3"
      "rb_at T3 k (Nd (Nd (blacken wr) q c wd wl) p RBT_COLOR_BLACK d t)"
    using set_color_focus[OF T2(3)] unfolding rbt_set_black_def by blast
  obtain T4 where T4: "rbt_right_rotate T3 p = Some T4" "rb_same T3 T4"
      "rb_at T4 k (Nd (blacken wr) q c wd (Nd wl p RBT_COLOR_BLACK d t))"
    using rbt_right_rotate_at[OF T3(3)] by blast
  have "rb_same T T4" using T1(2) T2(2) T3(2) T4(2) rb_same_trans by metis
  then show ?thesis using T1(1) T2(1) T3(1) T4(1,3) node_at_L[OF T1(3)] by auto
qed

lemma delete_cases_r_done:
  assumes "rb_at T k (Nd (Nd wr q RBT_COLOR_BLACK wd wl) p c d t)"
    and "rb t" and "rb (Nd wr q RBT_COLOR_BLACK wd wl)" and "bheight wl = bheight t"
    and "\<not> (tcolor wl = RBT_COLOR_BLACK \<and> tcolor wr = RBT_COLOR_BLACK)"
  shows "\<exists>T' u br. rbt_delete_cases_r T p q = Some (root T', br, T') \<and> rb_at T' k u \<and>
     rb_same T T' \<and> rb u \<and> tcolor u = c \<and> p \<in> set (taddrs u) \<and> br \<in> set (taddrs u) \<and>
     bheight u = bheight t + 1 + (if c = RBT_COLOR_BLACK then 1 else 0) \<and>
     inorder u = inorder (Nd (Nd wr q RBT_COLOR_BLACK wd wl) p c d t)"
proof -
  let ?s = "sentinel T"
  have al: "rb_at T (FR wr q RBT_COLOR_BLACK wd # FL p c d t # k) wl"
    and ar: "rb_at T (FL q RBT_COLOR_BLACK wd wl # FL p c d t # k) wr"
    and aw: "rb_at T (FL p c d t # k) (Nd wr q RBT_COLOR_BLACK wd wl)"
    using assms(1) by (simp_all add: rb_at_fold)
  note read = node_at_L[OF assms(1)] rb_at_black[OF al] rb_at_black[OF ar]
  show ?thesis
  proof (cases "tcolor wr = RBT_COLOR_RED")
    case True
    obtain T' where T': "rbt_delete_cases_r T p q = Some (root T', q, T')" "rb_same T T'"
        "rb_at T' k (Nd (blacken wr) q c wd (Nd wl p RBT_COLOR_BLACK d t))"
      using delete_rotate_r[OF assms(1) True] read True by (auto simp: rbt_delete_cases_r_def)
    show ?thesis
      by (intro exI[of _ T'] exI[of _ q]
          exI[of _ "Nd (blacken wr) q c wd (Nd wl p RBT_COLOR_BLACK d t)"])
         (use T' True assms(2-4) in auto)
  next
    case False
    then obtain a x xd b where wl: "wl = Nd b x RBT_COLOR_RED xd a"
      using assms(5) by (cases wl) auto
    obtain T1 where T1: "rbt_set_red T q = Some T1" "rb_same T T1"
        "rb_at T1 (FL p c d t # k) (Nd wr q RBT_COLOR_RED wd (Nd b x RBT_COLOR_RED xd a))"
      using set_color_focus[OF aw[unfolded wl]] unfolding rbt_set_red_def by blast
    obtain T2 where T2: "rbt_set_black T1 x = Some T2" "rb_same T1 T2"
        "rb_at T2 (FL p c d t # k) (Nd wr q RBT_COLOR_RED wd (Nd b x RBT_COLOR_BLACK xd a))"
      using set_color_right[OF T1(3)] unfolding rbt_set_black_def by blast
    obtain T3 where T3: "rbt_left_rotate T2 q = Some T3" "rb_same T2 T3"
        "rb_at T3 (FL p c d t # k) (Nd (Nd wr q RBT_COLOR_RED wd b) x RBT_COLOR_BLACK xd a)"
      using rbt_left_rotate_at[OF T2(3)] by blast
    have at3: "rb_at T3 k (Nd (Nd (Nd wr q RBT_COLOR_RED wd b) x RBT_COLOR_BLACK xd a) p c d t)"
      using T3(3) by (simp add: rb_at_fold)
    obtain T' where T': "rbt_delete_cases_r T p q = Some (root T', x, T')" "rb_same T3 T'"
        "rb_at T' k (Nd (Nd wr q RBT_COLOR_BLACK wd b) x c xd (Nd a p RBT_COLOR_BLACK d t))"
      using delete_rotate_r[OF at3] read False wl T1(1) T2(1) T3(1) node_at[OF at3]
      by (auto simp: rbt_delete_cases_r_def)
    have "rb_same T T'" using T1(2) T2(2) T3(2) T'(2) rb_same_trans by metis
    then show ?thesis
      by (intro exI[of _ T'] exI[of _ x]
          exI[of _ "Nd (Nd wr q RBT_COLOR_BLACK wd b) x c xd (Nd a p RBT_COLOR_BLACK d t)"])
         (use T' False wl assms(2-4) in auto)
  qed
qed

subsection \<open>The loop\<close>

definition deleted :: "'a rbt_tree \<Rightarrow> addr \<Rightarrow> addr \<Rightarrow> addr \<Rightarrow> 'a list \<Rightarrow> bool" where
  "deleted T node pa br xs \<longleftrightarrow> (\<exists>T'. rbt_delete_fixup T node pa br = Some (RBT_OK, T') \<and>
     rb_whole T' xs \<and> rb_same T T')"

lemma deleted_root:
  assumes "rb_at T k u" and "rb u" and "ctx_ok k (tcolor u) (bheight u)"
    and "pa \<in> set (taddrs u)" and "br \<in> set (taddrs u)"
  shows "deleted T (root T) pa br (cleft k @ inorder u @ cright k)"
proof -
  let ?t = "plug k u"
  have at: "rb_at T [] ?t" and whole: "rb ?t" "tcolor ?t = RBT_COLOR_BLACK"
    using assms(1-3) rb_plug[of u k] by (auto simp: rb_at_plug)
  have "root T = ptr (sentinel T) ?t" using at by (simp add: rb_at_def)
  then obtain T' where "rbt_delete_fixup T (root T) pa br = Some (RBT_OK, T')" "rb_same T T'"
      "rb_at T' [] ?t"
    using delete_fixup_stop[OF at, of pa br] assms(4,5) whole(2)
    by (auto simp: in_tree_def set_taddrs_plug)
  then show ?thesis
    using whole unfolding deleted_def rb_whole_def by (metis inorder_plug)
qed

text \<open>A black brother: either the subtree is repaired, or the loop goes on at the parent.\<close>

lemma del_black_l:
  assumes at: "rb_at T k (Nd t p c d (Nd wl q RBT_COLOR_BLACK wd wr))"
    and ok: "rb t" "rb (Nd wl q RBT_COLOR_BLACK wd wr)" "bheight wl = bheight t" "tcolor t = RBT_COLOR_BLACK"
      "ctx_ok k c (bheight t + 1 + (if c = RBT_COLOR_BLACK then 1 else 0))"
    and IH: "\<And>T' u. c = RBT_COLOR_BLACK \<Longrightarrow> del_inv T' k u \<Longrightarrow> ptr (sentinel T') u = p \<Longrightarrow>
      in_tree T' k u q \<Longrightarrow> deleted T' p p q (cleft k @ inorder u @ cright k)"
  shows "\<exists>node br T'. rbt_delete_cases_l T p q = Some (node, br, T') \<and> rb_same T T' \<and>
     deleted T' node p br (cleft k @ inorder (Nd t p c d (Nd wl q RBT_COLOR_BLACK wd wr)) @ cright k)"
proof (cases "tcolor wl = RBT_COLOR_BLACK \<and> tcolor wr = RBT_COLOR_BLACK")
  case True
  let ?u = "Nd t p c d (Nd wl q RBT_COLOR_RED wd wr)"
  obtain T' where T': "rbt_delete_cases_l T p q = Some (p, q, T')" "rb_same T T'" "rb_at T' k ?u"
    using delete_cases_l_push[OF at] True by blast
  have xs: "inorder ?u = inorder (Nd t p c d (Nd wl q RBT_COLOR_BLACK wd wr))" by simp
  have "deleted T' p p q (cleft k @ inorder ?u @ cright k)"
  proof (cases c)
    case RBT_COLOR_BLACK
    then have "del_inv T' k ?u"
      using ok True hole_atI[OF T'(3)] by (auto simp: del_inv_def)
    then show ?thesis using IH[OF RBT_COLOR_BLACK, of T' ?u] by (simp add: in_tree_def)
  next
    case RBT_COLOR_RED
    then obtain T'' where "rbt_delete_fixup T' p p q = Some (RBT_OK, T'')" "rb_same T' T''"
        "rb_at T'' k (blacken ?u)"
      using delete_fixup_stop[OF T'(3), of p q] by (auto simp: in_tree_def)
    moreover have "rb_whole T'' (cleft k @ inorder ?u @ cright k)"
      by (rule rb_wholeI[OF calculation(3)])
         (use ok True RBT_COLOR_RED ctx_ok_black in auto)
    ultimately show ?thesis unfolding deleted_def by blast
  qed
  then show ?thesis using T' xs by metis
next
  case False
  obtain T' u br where T': "rbt_delete_cases_l T p q = Some (root T', br, T')" "rb_at T' k u"
      "rb_same T T'" "rb u" "tcolor u = c" "p \<in> set (taddrs u)" "br \<in> set (taddrs u)"
      "bheight u = bheight t + 1 + (if c = RBT_COLOR_BLACK then 1 else 0)"
      "inorder u = inorder (Nd t p c d (Nd wl q RBT_COLOR_BLACK wd wr))"
    using delete_cases_l_done[OF at ok(1-3) False] by blast
  have "deleted T' (root T') p br (cleft k @ inorder u @ cright k)"
    using deleted_root[OF T'(2,4) _ T'(6,7)] T'(5,8) ok(5) by simp
  then show ?thesis using T' by metis
qed

lemma del_black_r:
  assumes at: "rb_at T k (Nd (Nd wr q RBT_COLOR_BLACK wd wl) p c d t)"
    and ok: "rb t" "rb (Nd wr q RBT_COLOR_BLACK wd wl)" "bheight wl = bheight t" "tcolor t = RBT_COLOR_BLACK"
      "ctx_ok k c (bheight t + 1 + (if c = RBT_COLOR_BLACK then 1 else 0))"
    and IH: "\<And>T' u. c = RBT_COLOR_BLACK \<Longrightarrow> del_inv T' k u \<Longrightarrow> ptr (sentinel T') u = p \<Longrightarrow>
      in_tree T' k u q \<Longrightarrow> deleted T' p p q (cleft k @ inorder u @ cright k)"
  shows "\<exists>node br T'. rbt_delete_cases_r T p q = Some (node, br, T') \<and> rb_same T T' \<and>
     deleted T' node p br (cleft k @ inorder (Nd (Nd wr q RBT_COLOR_BLACK wd wl) p c d t) @ cright k)"
proof (cases "tcolor wl = RBT_COLOR_BLACK \<and> tcolor wr = RBT_COLOR_BLACK")
  case True
  let ?u = "Nd (Nd wr q RBT_COLOR_RED wd wl) p c d t"
  obtain T' where T': "rbt_delete_cases_r T p q = Some (p, q, T')" "rb_same T T'" "rb_at T' k ?u"
    using delete_cases_r_push[OF at] True by blast
  have xs: "inorder ?u = inorder (Nd (Nd wr q RBT_COLOR_BLACK wd wl) p c d t)" by simp
  have "deleted T' p p q (cleft k @ inorder ?u @ cright k)"
  proof (cases c)
    case RBT_COLOR_BLACK
    then have "del_inv T' k ?u"
      using ok True hole_atI[OF T'(3)] by (auto simp: del_inv_def)
    then show ?thesis using IH[OF RBT_COLOR_BLACK, of T' ?u] by (simp add: in_tree_def)
  next
    case RBT_COLOR_RED
    then obtain T'' where "rbt_delete_fixup T' p p q = Some (RBT_OK, T'')" "rb_same T' T''"
        "rb_at T'' k (blacken ?u)"
      using delete_fixup_stop[OF T'(3), of p q] by (auto simp: in_tree_def)
    moreover have "rb_whole T'' (cleft k @ inorder ?u @ cright k)"
      by (rule rb_wholeI[OF calculation(3)])
         (use ok True RBT_COLOR_RED ctx_ok_black in auto)
    ultimately show ?thesis unfolding deleted_def by blast
  qed
  then show ?thesis using T' xs by metis
next
  case False
  obtain T' u br where T': "rbt_delete_cases_r T p q = Some (root T', br, T')" "rb_at T' k u"
      "rb_same T T'" "rb u" "tcolor u = c" "p \<in> set (taddrs u)" "br \<in> set (taddrs u)"
      "bheight u = bheight t + 1 + (if c = RBT_COLOR_BLACK then 1 else 0)"
      "inorder u = inorder (Nd (Nd wr q RBT_COLOR_BLACK wd wl) p c d t)"
    using delete_cases_r_done[OF at ok(1-3) False] by blast
  have "deleted T' (root T') p br (cleft k @ inorder u @ cright k)"
    using deleted_root[OF T'(2,4) _ T'(6,7)] T'(5,8) ok(5) by simp
  then show ?thesis using T' by metis
qed

text \<open>A red brother is rotated away; the parent is red afterwards and the new brother black.\<close>

lemma del_brother_l:
  assumes at: "rb_at T k (Nd t p c d w)" and "tcolor w = RBT_COLOR_BLACK"
  shows "rbt_delete_brother_l T p = Some (ptr (sentinel T) w, T)"
proof -
  have "rb_at T (FR t p c d # k) w" using at by (simp add: rb_at_fold)
  from rb_at_red[OF this] show ?thesis
    using node_at[OF at] assms(2) by (simp add: rbt_delete_brother_l_def Let_def)
qed

lemma del_brother_red_l:
  assumes at: "rb_at T k (Nd t p c d (Nd wl q RBT_COLOR_RED wd wr))"
  shows "\<exists>T'. rbt_delete_brother_l T p = Some (ptr (sentinel T') wl, T') \<and> rb_same T T' \<and>
     rb_at T' (FL q RBT_COLOR_BLACK wd wr # k) (Nd t p RBT_COLOR_RED d wl)"
proof -
  have "rb_at T (FR t p c d # k) (Nd wl q RBT_COLOR_RED wd wr)" using at by (simp add: rb_at_fold)
  note red = rb_at_red[OF this]
  obtain T1 where T1: "rbt_set_red T p = Some T1" "rb_same T T1"
      "rb_at T1 k (Nd t p RBT_COLOR_RED d (Nd wl q RBT_COLOR_RED wd wr))"
    using set_color_focus[OF at] unfolding rbt_set_red_def by blast
  obtain T2 where T2: "rbt_set_black T1 q = Some T2" "rb_same T1 T2"
      "rb_at T2 k (Nd t p RBT_COLOR_RED d (Nd wl q RBT_COLOR_BLACK wd wr))"
    using set_color_right[OF T1(3)] unfolding rbt_set_black_def by blast
  obtain T3 where T3: "rbt_left_rotate T2 p = Some T3" "rb_same T2 T3"
      "rb_at T3 k (Nd (Nd t p RBT_COLOR_RED d wl) q RBT_COLOR_BLACK wd wr)"
    using rbt_left_rotate_at[OF T2(3)] by blast
  have at3: "rb_at T3 (FL q RBT_COLOR_BLACK wd wr # k) (Nd t p RBT_COLOR_RED d wl)" using T3(3) by (simp add: rb_at_fold)
  have "rb_same T T3" using T1(2) T2(2) T3(2) rb_same_trans by metis
  moreover have "rbt_delete_brother_l T p = Some (ptr (sentinel T3) wl, T3)"
    using node_at[OF at] red T1(1) T2(1) T3(1) node_at[OF at3]
    by (simp add: rbt_delete_brother_l_def Let_def)
  ultimately show ?thesis using at3 by blast
qed

lemma del_brother_r:
  assumes at: "rb_at T k (Nd w p c d t)" and "tcolor w = RBT_COLOR_BLACK"
  shows "rbt_delete_brother_r T p = Some (ptr (sentinel T) w, T)"
proof -
  have "rb_at T (FL p c d t # k) w" using at by (simp add: rb_at_fold)
  from rb_at_red[OF this] show ?thesis
    using node_at[OF at] assms(2) by (simp add: rbt_delete_brother_r_def Let_def)
qed

lemma del_brother_red_r:
  assumes at: "rb_at T k (Nd (Nd wr q RBT_COLOR_RED wd wl) p c d t)"
  shows "\<exists>T'. rbt_delete_brother_r T p = Some (ptr (sentinel T') wl, T') \<and> rb_same T T' \<and>
     rb_at T' (FR wr q RBT_COLOR_BLACK wd # k) (Nd wl p RBT_COLOR_RED d t)"
proof -
  have "rb_at T (FL p c d t # k) (Nd wr q RBT_COLOR_RED wd wl)" using at by (simp add: rb_at_fold)
  note red = rb_at_red[OF this]
  obtain T1 where T1: "rbt_set_red T p = Some T1" "rb_same T T1"
      "rb_at T1 k (Nd (Nd wr q RBT_COLOR_RED wd wl) p RBT_COLOR_RED d t)"
    using set_color_focus[OF at] unfolding rbt_set_red_def by blast
  obtain T2 where T2: "rbt_set_black T1 q = Some T2" "rb_same T1 T2"
      "rb_at T2 k (Nd (Nd wr q RBT_COLOR_BLACK wd wl) p RBT_COLOR_RED d t)"
    using set_color_left[OF T1(3)] unfolding rbt_set_black_def by blast
  obtain T3 where T3: "rbt_right_rotate T2 p = Some T3" "rb_same T2 T3"
      "rb_at T3 k (Nd wr q RBT_COLOR_BLACK wd (Nd wl p RBT_COLOR_RED d t))"
    using rbt_right_rotate_at[OF T2(3)] by blast
  have at3: "rb_at T3 (FR wr q RBT_COLOR_BLACK wd # k) (Nd wl p RBT_COLOR_RED d t)" using T3(3) by (simp add: rb_at_fold)
  have "rb_same T T3" using T1(2) T2(2) T3(2) rb_same_trans by metis
  moreover have "rbt_delete_brother_r T p = Some (ptr (sentinel T3) wl, T3)"
    using node_at[OF at] red T1(1) T2(1) T3(1) node_at[OF at3]
    by (simp add: rbt_delete_brother_r_def Let_def)
  ultimately show ?thesis using at3 by blast
qed

lemma deleted_step:
  assumes "hole_at T k t" and "tcolor t = RBT_COLOR_BLACK" and "k \<noteq> []"
    and "\<exists>node br T'. rbt_delete_step T (ptr (sentinel T) t) (cptr (sentinel T) k) =
       Some (node, br, T') \<and> rb_same T T' \<and> deleted T' node (cptr (sentinel T) k) br xs"
  shows "deleted T (ptr (sentinel T) t) pa br0 xs"
proof -
  let ?n = "ptr (sentinel T) t"
  have at: "rb_at T k t" using assms(1) by (simp add: hole_at_def)
  obtain nd where nd: "rb_mem T ?n = Some nd" "parent nd = cptr (sentinel T) k"
    using assms(1) by (auto simp: hole_at_def)
  obtain node br T' where step: "rbt_delete_step T ?n (cptr (sentinel T) k) = Some (node, br, T')"
      "rb_same T T'" "deleted T' node (cptr (sentinel T) k) br xs"
    using assms(4) by blast
  have "rbt_delete_fixup T ?n pa br0 = rbt_delete_fixup T' node (cptr (sentinel T) k) br"
    using nd step(1) rb_at_black[OF at] root_focus[OF at] assms(2,3)
    by (subst rbt_delete_fixup.simps) simp
  with step(2,3) show ?thesis unfolding deleted_def using rb_same_trans by metis
qed

lemma del_inv_left:
  assumes inv: "del_inv T (FL p c d w # k) t" and black: "tcolor t = RBT_COLOR_BLACK"
    and IH: "\<And>T' u br. c = RBT_COLOR_BLACK \<Longrightarrow> del_inv T' k u \<Longrightarrow> ptr (sentinel T') u = p \<Longrightarrow>
      in_tree T' k u br \<Longrightarrow> deleted T' p p br (cleft k @ inorder u @ cright k)"
  shows "deleted T (ptr (sentinel T) t) pa br0 (cleft (FL p c d w # k) @ inorder t @
           cright (FL p c d w # k))"
proof -
  have hole: "hole_at T (FL p c d w # k) t" and rbt: "rb t" "rb w" "bheight w = bheight t + 1"
    and ctx: "ctx_ok k c (bheight t + 1 + (if c = RBT_COLOR_BLACK then 1 else 0))"
    and cw: "c = RBT_COLOR_RED \<Longrightarrow> tcolor w = RBT_COLOR_BLACK"
    using inv by (auto simp: del_inv_def)
  obtain wl q wc wd wr where w: "w = Nd wl q wc wd wr" using rbt(3) by (cases w) auto
  have at: "rb_at T k (Nd t p c d w)" using hole by (simp add: hole_at_def rb_at_fold)
  have node: "rbt_delete_step T (ptr (sentinel T) t) p = do {
      (brother, tree) \<leftarrow> rbt_delete_brother_l T p; rbt_delete_cases_l tree p brother }"
    using node_at[OF at] by (simp add: rbt_delete_step_def)
  have "\<exists>node br T'. rbt_delete_step T (ptr (sentinel T) t) p = Some (node, br, T') \<and> rb_same T T' \<and>
      deleted T' node p br (cleft k @ inorder (Nd t p c d w) @ cright k)"
  proof (cases wc)
    case RBT_COLOR_BLACK
    have "\<exists>node br T'. rbt_delete_cases_l T p q = Some (node, br, T') \<and> rb_same T T' \<and>
        deleted T' node p br (cleft k @ inorder (Nd t p c d w) @ cright k)"
      unfolding w RBT_COLOR_BLACK
    proof (rule del_black_l[OF at[unfolded w RBT_COLOR_BLACK] rbt(1) _ _ black ctx])
      show "rb (Nd wl q RBT_COLOR_BLACK wd wr)" "bheight wl = bheight t" using rbt w RBT_COLOR_BLACK by auto
      show "deleted T' p p q (cleft k @ inorder u @ cright k)"
        if "c = RBT_COLOR_BLACK" "del_inv T' k u" "ptr (sentinel T') u = p" "in_tree T' k u q"
        for T' u using that by (rule IH)
    qed
    then show ?thesis
      using node del_brother_l[OF at] w RBT_COLOR_BLACK by simp
  next
    case RBT_COLOR_RED
    have c: "c = RBT_COLOR_BLACK" using cw w RBT_COLOR_RED by (cases c) auto
    obtain T1 where T1: "rbt_delete_brother_l T p = Some (ptr (sentinel T1) wl, T1)" "rb_same T T1"
        "rb_at T1 (FL q RBT_COLOR_BLACK wd wr # k) (Nd t p RBT_COLOR_RED d wl)"
      using del_brother_red_l[OF at[unfolded w RBT_COLOR_RED]] by blast
    obtain vl v vd vr where wl: "wl = Nd vl v RBT_COLOR_BLACK vd vr"
      using rbt w RBT_COLOR_RED by (cases wl) auto
    have "\<exists>node br T'. rbt_delete_cases_l T1 p v = Some (node, br, T') \<and> rb_same T1 T' \<and>
        deleted T' node p br (cleft (FL q RBT_COLOR_BLACK wd wr # k) @
          inorder (Nd t p RBT_COLOR_RED d wl) @ cright (FL q RBT_COLOR_BLACK wd wr # k))"
      unfolding wl
      by (rule del_black_l[OF T1(3)[unfolded wl] rbt(1) _ _ black])
         (use rbt w wl RBT_COLOR_RED ctx c in auto)
    moreover have "cleft (FL q RBT_COLOR_BLACK wd wr # k) @ inorder (Nd t p RBT_COLOR_RED d wl) @
        cright (FL q RBT_COLOR_BLACK wd wr # k) = cleft k @ inorder (Nd t p c d w) @ cright k"
      by (simp add: w)
    ultimately obtain nd br T' where "rbt_delete_cases_l T1 p v = Some (nd, br, T')"
        "rb_same T1 T'" "deleted T' nd p br (cleft k @ inorder (Nd t p c d w) @ cright k)"
      by metis
    then show ?thesis
      using node T1(1) rb_same_trans[OF T1(2)] wl by (intro exI[of _ nd] exI[of _ br] exI[of _ T']) simp
  qed
  then show ?thesis
    using deleted_step[OF hole black] by simp
qed

lemma del_inv_right:
  assumes inv: "del_inv T (FR w p c d # k) t" and black: "tcolor t = RBT_COLOR_BLACK"
    and IH: "\<And>T' u br. c = RBT_COLOR_BLACK \<Longrightarrow> del_inv T' k u \<Longrightarrow> ptr (sentinel T') u = p \<Longrightarrow>
      in_tree T' k u br \<Longrightarrow> deleted T' p p br (cleft k @ inorder u @ cright k)"
  shows "deleted T (ptr (sentinel T) t) pa br0 (cleft (FR w p c d # k) @ inorder t @
           cright (FR w p c d # k))"
proof -
  have hole: "hole_at T (FR w p c d # k) t" and rbt: "rb t" "rb w" "bheight w = bheight t + 1"
    and ctx: "ctx_ok k c (bheight t + 1 + (if c = RBT_COLOR_BLACK then 1 else 0))"
    and cw: "c = RBT_COLOR_RED \<Longrightarrow> tcolor w = RBT_COLOR_BLACK"
    using inv by (auto simp: del_inv_def)
  obtain wl q wc wd wr where w: "w = Nd wr q wc wd wl" using rbt(3) by (cases w) auto
  have at: "rb_at T k (Nd w p c d t)" using hole by (simp add: hole_at_def rb_at_fold)
  have "w \<noteq> Lf" using w by simp
  then have node: "rbt_delete_step T (ptr (sentinel T) t) p = do {
      (brother, tree) \<leftarrow> rbt_delete_brother_r T p; rbt_delete_cases_r tree p brother }"
    using node_at[OF at] focus_neq[OF at] by (simp add: rbt_delete_step_def)
  have "\<exists>node br T'. rbt_delete_step T (ptr (sentinel T) t) p = Some (node, br, T') \<and> rb_same T T' \<and>
      deleted T' node p br (cleft k @ inorder (Nd w p c d t) @ cright k)"
  proof (cases wc)
    case RBT_COLOR_BLACK
    have "\<exists>node br T'. rbt_delete_cases_r T p q = Some (node, br, T') \<and> rb_same T T' \<and>
        deleted T' node p br (cleft k @ inorder (Nd w p c d t) @ cright k)"
      unfolding w RBT_COLOR_BLACK
    proof (rule del_black_r[OF at[unfolded w RBT_COLOR_BLACK] rbt(1) _ _ black ctx])
      show "rb (Nd wr q RBT_COLOR_BLACK wd wl)" "bheight wl = bheight t" using rbt w RBT_COLOR_BLACK by auto
      show "deleted T' p p q (cleft k @ inorder u @ cright k)"
        if "c = RBT_COLOR_BLACK" "del_inv T' k u" "ptr (sentinel T') u = p" "in_tree T' k u q"
        for T' u using that by (rule IH)
    qed
    then show ?thesis
      using node del_brother_r[OF at] w RBT_COLOR_BLACK by simp
  next
    case RBT_COLOR_RED
    have c: "c = RBT_COLOR_BLACK" using cw w RBT_COLOR_RED by (cases c) auto
    obtain T1 where T1: "rbt_delete_brother_r T p = Some (ptr (sentinel T1) wl, T1)" "rb_same T T1"
        "rb_at T1 (FR wr q RBT_COLOR_BLACK wd # k) (Nd wl p RBT_COLOR_RED d t)"
      using del_brother_red_r[OF at[unfolded w RBT_COLOR_RED]] by blast
    obtain vl v vd vr where wl: "wl = Nd vl v RBT_COLOR_BLACK vd vr"
      using rbt w RBT_COLOR_RED by (cases wl) auto
    have "\<exists>node br T'. rbt_delete_cases_r T1 p v = Some (node, br, T') \<and> rb_same T1 T' \<and>
        deleted T' node p br (cleft (FR wr q RBT_COLOR_BLACK wd # k) @
          inorder (Nd wl p RBT_COLOR_RED d t) @ cright (FR wr q RBT_COLOR_BLACK wd # k))"
      unfolding wl
      by (rule del_black_r[OF T1(3)[unfolded wl] rbt(1) _ _ black])
         (use rbt w wl RBT_COLOR_RED ctx c in auto)
    moreover have "cleft (FR wr q RBT_COLOR_BLACK wd # k) @ inorder (Nd wl p RBT_COLOR_RED d t) @
        cright (FR wr q RBT_COLOR_BLACK wd # k) = cleft k @ inorder (Nd w p c d t) @ cright k"
      by (simp add: w)
    ultimately obtain nd br T' where "rbt_delete_cases_r T1 p v = Some (nd, br, T')"
        "rb_same T1 T'" "deleted T' nd p br (cleft k @ inorder (Nd w p c d t) @ cright k)"
      by metis
    then show ?thesis
      using node T1(1) rb_same_trans[OF T1(2)] wl by (intro exI[of _ nd] exI[of _ br] exI[of _ T']) simp
  qed
  then show ?thesis
    using deleted_step[OF hole black] by simp
qed

theorem rbt_delete_fixup_inv:
  assumes "del_inv T k t" and "in_tree T k t pa" and "in_tree T k t br"
  shows "deleted T (ptr (sentinel T) t) pa br (cleft k @ inorder t @ cright k)"
  using assms
proof (induction "length k" arbitrary: T k t pa br rule: less_induct)
  case less
  note inv = less.prems(1)[unfolded del_inv_def]
  show ?case
  proof (cases "tcolor t = RBT_COLOR_RED \<or> k = []")
    case True
    then obtain T' where T': "rbt_delete_fixup T (ptr (sentinel T) t) pa br = Some (RBT_OK, T')"
        "rb_at T' k (blacken t)" "rb_same T T'"
      using delete_fixup_stop[of T k t pa br] inv less.prems(2,3) by (auto simp: hole_at_def)
    have "rb_whole T' (cleft k @ inorder t @ cright k)"
      by (rule rb_wholeI[OF T'(2)]) (use inv True in \<open>auto simp: ctx_ok_black\<close>)
    with T' show ?thesis unfolding deleted_def by blast
  next
    case False
    then have black: "tcolor t = RBT_COLOR_BLACK" by simp
    have IH: "deleted T' p p br' (cleft k' @ inorder u @ cright k')"
      if "length k' < length k" "del_inv T' k' u" "ptr (sentinel T') u = p" "in_tree T' k' u br'"
      for k' :: "'a frame list" and T' u br' p
      using less.hyps[OF that(1,2) in_tree_ptr that(4)] that(3) by simp
    show ?thesis
    proof (cases k rule: ccolor.cases)
      case (2 p c d r k')
      show ?thesis unfolding 2
        by (rule del_inv_left[OF less.prems(1)[unfolded 2] black]) (use IH 2 in simp)
    next
      case (3 l p c d k')
      show ?thesis unfolding 3
        by (rule del_inv_right[OF less.prems(1)[unfolded 3] black]) (use IH 3 in simp)
    qed (use False in simp)
  qed
qed

subsection \<open>Removing the node\<close>

definition rb_frame :: "'a rbt_tree \<Rightarrow> 'a rbt_tree \<Rightarrow> bool" where
  "rb_frame T T' \<longleftrightarrow> sentinel T' = sentinel T \<and> cmp_cb T' = cmp_cb T \<and> rb_num T' = rb_num T \<and>
     rb_brk T' = rb_brk T \<and> dom (rb_mem T') = dom (rb_mem T)"

text \<open>
  The two writes that take a node with at most one child \<open>x\<close> out of the tree.  The node itself
  stays on the heap until \<open>rbt_delete_finish\<close> frees it.
\<close>

definition unlinked :: "'a rbt_tree \<Rightarrow> 'a rbt_tree \<Rightarrow> 'a frame list \<Rightarrow> 'a rtree \<Rightarrow> addr \<Rightarrow> rbt_color \<Rightarrow> bool" where
  "unlinked T T' k x p c \<longleftrightarrow> hole_at T' k x \<and> rb_frame T T' \<and>
     map_option color (rb_mem T' p) = Some c \<and> p \<notin> set (sentinel T # taddrs x @ caddrs k)"

lemma unlink_root:
  assumes "rb_at T [] (Nd l p c d r)" and "(l = Lf \<and> x = r) \<or> (r = Lf \<and> x = l)"
  shows "\<exists>T1. rb_upd T (ptr (sentinel T) x) (\<lambda>n. n\<lparr>parent := sentinel T\<rparr>) = Some T1 \<and>
     unlinked T (T1\<lparr>root := ptr (sentinel T) x\<rparr>) [] x p c"
  using assms
  by (cases x)
     (auto simp: rb_at_def hole_at_def unlinked_def rb_frame_def model_defs insert_absorb domIff)

lemma unlink_child:
  assumes "rb_at T (f # k) (Nd l p c d r)" and "(l = Lf \<and> x = r) \<or> (r = Lf \<and> x = l)"
  shows "\<exists>T1 T2. rb_upd T (ptr (sentinel T) x) (\<lambda>n. n\<lparr>parent := cptr (sentinel T) (f # k)\<rparr>) = Some T1 \<and>
     rbt_replace_child T1 (cptr (sentinel T) (f # k)) p (ptr (sentinel T) x) = Some T2 \<and>
     unlinked T T2 (f # k) x p c"
proof (cases f)
  case FL
  then show ?thesis using assms
    by (cases x) (auto simp: rb_at_def hole_at_def unlinked_def rb_frame_def rbt_replace_child_def
        model_defs insert_absorb domIff)
next
  case FR
  then show ?thesis using assms
    by (cases x) (auto simp: rb_at_def hole_at_def unlinked_def rb_frame_def rbt_replace_child_def
        model_defs insert_absorb domIff)
qed

definition removed :: "'a rbt_tree \<Rightarrow> 'a rbt_tree \<Rightarrow> addr \<Rightarrow> bool" where
  "removed T T' p \<longleftrightarrow> sentinel T' = sentinel T \<and> cmp_cb T' = cmp_cb T \<and> rb_num T' = rb_num T \<and>
     rb_brk T' = rb_brk T \<and> dom (rb_mem T') = dom (rb_mem T) - {p}"

lemma delete_finish_at:
  assumes "unlinked T T1 k x p c" and "rb x"
    and "ctx_ok k (if c = RBT_COLOR_BLACK then RBT_COLOR_BLACK else tcolor x)
           (bheight x + (if c = RBT_COLOR_BLACK then 1 else 0))"
  shows "\<exists>T'. rbt_delete_finish T1 p (ptr (sentinel T) x) = Some (RBT_OK, T') \<and>
     rb_whole T' (cleft k @ inorder x @ cright k) \<and> removed T T' p"
proof -
  obtain n where n: "rb_mem T1 p = Some n" "color n = c"
    using assms(1) by (auto simp: unlinked_def)
  define T2 where "T2 = T1\<lparr>rb_mem := (rb_mem T1)(p := None)\<rparr>"
  have fr: "rb_frame T T1" using assms(1) by (simp add: unlinked_def)
  have hole: "hole_at T2 k x"
    using assms(1) by (cases x) (auto simp: unlinked_def hole_at_def rb_at_def rb_frame_def T2_def)
  have rem: "removed T T2 p" using fr by (auto simp: removed_def rb_frame_def T2_def)
  have run: "rbt_delete_finish T1 p (ptr (sentinel T) x) =
      (if c = RBT_COLOR_RED then Some (RBT_OK, T2)
       else rbt_delete_fixup T2 (ptr (sentinel T2) x) NULL NULL)"
    using n fr by (simp add: rbt_delete_finish_def model_defs T2_def rb_frame_def)
  show ?thesis
  proof (cases c)
    case RBT_COLOR_BLACK
    then have "del_inv T2 k x" using hole assms(2,3) by (simp add: del_inv_def)
    then have "deleted T2 (ptr (sentinel T2) x) NULL NULL (cleft k @ inorder x @ cright k)"
      by (rule rbt_delete_fixup_inv) (simp_all add: in_tree_def)
    then show ?thesis using run rem RBT_COLOR_BLACK
      by (auto simp: deleted_def removed_def rb_same_def)
  next
    case RBT_COLOR_RED
    then have "rb_whole T2 (cleft k @ inorder x @ cright k)"
      using hole assms(2,3) rb_wholeI by (auto simp: hole_at_def)
    then show ?thesis using run rem RBT_COLOR_RED by simp
  qed
qed

text \<open>Cases 1 and 2: the removed node has at most one child.\<close>

lemma delete_splice_at:
  assumes at: "rb_at T k (Nd l p c d r)" and x: "(l = Lf \<and> x = r) \<or> (r = Lf \<and> x = l)"
    and rb: "rb (Nd l p c d r)" "ctx_ok k c (bheight (Nd l p c d r))"
  shows "\<exists>T'. rbt_delete_splice T p (ptr (sentinel T) x) = Some (RBT_OK, T') \<and>
     rb_whole T' (cleft k @ inorder x @ cright k) \<and> removed T T' p"
proof -
  have ctx: "ctx_ok k (if c = RBT_COLOR_BLACK then RBT_COLOR_BLACK else tcolor x)
           (bheight x + (if c = RBT_COLOR_BLACK then 1 else 0))" "rb x"
    using rb x ctx_ok_black by (cases c; fastforce)+
  show ?thesis
  proof (cases k)
    case Nil
    obtain T1 where T1: "rb_upd T (ptr (sentinel T) x) (\<lambda>n. n\<lparr>parent := sentinel T\<rparr>) = Some T1"
        "unlinked T (T1\<lparr>root := ptr (sentinel T) x\<rparr>) [] x p c"
      using unlink_root[OF at[unfolded Nil] x] by blast
    have "sentinel T1 = sentinel T" using T1(2) by (simp add: unlinked_def rb_frame_def)
    then show ?thesis
      using delete_finish_at[OF T1(2)] ctx node_at[OF at] T1(1) Nil
      by (simp add: rbt_delete_splice_def Let_def)
  next
    case (Cons f k')
    obtain T1 T2 where T1: "rb_upd T (ptr (sentinel T) x)
          (\<lambda>n. n\<lparr>parent := cptr (sentinel T) (f # k')\<rparr>) = Some T1"
        "rbt_replace_child T1 (cptr (sentinel T) (f # k')) p (ptr (sentinel T) x) = Some T2"
        "unlinked T T2 (f # k') x p c"
      using unlink_child[OF at[unfolded Cons] x] by blast
    have "sentinel T \<noteq> cptr (sentinel T) (f # k')" using at Cons by (cases f) (auto simp: rb_at_def)
    moreover have "sentinel T1 = sentinel T"
      using T1(1) by (auto simp: rb_upd_def split: option.splits)
    ultimately show ?thesis
      using delete_finish_at[OF T1(3)] ctx node_at[OF at] T1(1,2) Cons
      by (simp add: rbt_delete_splice_def Let_def)
  qed
qed

text \<open>Case 3: the successor, the leftmost node on the right, gives its data and is removed.\<close>

lemma leftmost_at:
  assumes "rb_at T k (Nd l p c d r)"
  shows "\<exists>k1 n nc nd nr. rbt_leftmost T p = Some n \<and> rb_at T (k1 @ k) (Nd Lf n nc nd nr) \<and>
     plug k1 (Nd Lf n nc nd nr) = Nd l p c d r \<and> cleft k1 = []"
  using assms
proof (induction l arbitrary: k p c d r)
  case Lf
  then have "rbt_leftmost T p = Some p"
    using node_at[OF Lf] by (simp add: rbt_leftmost.simps[of T p])
  then show ?case using Lf by (intro exI[of _ "[]"]) simp
next
  case (Nd ll lp lc ld lr)
  have "rb_at T (FL p c d r # k) (Nd ll lp lc ld lr)" using Nd.prems by (simp add: rb_at_fold)
  from Nd.IH(1)[OF this] obtain k1 n nc nd nr where IH: "rbt_leftmost T lp = Some n"
      "rb_at T (k1 @ FL p c d r # k) (Nd Lf n nc nd nr)"
      "plug k1 (Nd Lf n nc nd nr) = Nd ll lp lc ld lr" "cleft k1 = []" by blast
  have "sentinel T \<noteq> lp" using Nd.prems by (auto simp: rb_at_def)
  then have "rbt_leftmost T p = rbt_leftmost T lp"
    using node_at[OF Nd.prems] by (simp add: rbt_leftmost.simps[of T p])
  moreover have "plug (k1 @ [FL p c d r]) (Nd Lf n nc nd nr) = Nd (Nd ll lp lc ld lr) p c d r"
    using IH(3) by (simp add: plug_append)
  moreover have "cleft (k1 @ [FL p c d r]) = []" using IH(4) by (simp add: cleft_append)
  ultimately show ?case using IH(1,2)
    by (intro exI[of _ "k1 @ [FL p c d r]"] exI[of _ n] exI[of _ nc] exI[of _ nd] exI[of _ nr]) simp
qed

lemma set_data_focus:
  assumes "rb_at T k (Nd l p c d r)"
  shows "\<exists>T'. rb_upd T p (\<lambda>n. n\<lparr>data := Some v\<rparr>) = Some T' \<and> rb_at T' k (Nd l p c v r) \<and>
     rb_same T T' \<and> (\<forall>x. map_option color (rb_mem T' x) = map_option color (rb_mem T x))"
  using assms
  by (auto simp: rb_at_def model_defs rb_same_def insert_absorb domIff)

lemma set_data_ctx:
  assumes "unlinked T T1 (k1 @ FR l p c d # k) x n nc"
  shows "\<exists>T2. rb_upd T1 p (\<lambda>n. n\<lparr>data := Some v\<rparr>) = Some T2 \<and>
     unlinked T T2 (k1 @ FR l p c v # k) x n nc"
proof -
  have "rb_at T1 k (Nd l p c d (plug k1 x))"
    using assms by (simp add: unlinked_def hole_at_def rb_at_split)
  from set_data_focus[OF this, of v] obtain T2 where
    T2: "rb_upd T1 p (\<lambda>n. n\<lparr>data := Some v\<rparr>) = Some T2" "rb_at T2 (k1 @ FR l p c v # k) x"
      "rb_same T1 T2" "\<forall>x. map_option color (rb_mem T2 x) = map_option color (rb_mem T1 x)"
    by (auto simp: rb_at_split)
  have "cptr s (k1 @ FR l p c v # k) = cptr s (k1 @ FR l p c d # k)"
    "set (caddrs (k1 @ FR l p c v # k)) = set (caddrs (k1 @ FR l p c d # k))" for s
    by (cases "(s, k1)" rule: cptr.cases; simp add: caddrs_append)+
  then have "unlinked T T2 (k1 @ FR l p c v # k) x n nc"
    using assms T2 hole_at_same[of T1 "k1 @ FR l p c d # k" x T2 "k1 @ FR l p c v # k"]
    by (auto simp: unlinked_def rb_frame_def rb_same_def)
  with T2(1) show ?thesis by blast
qed

lemma ctx_ok_data:
  "ctx_ok (k1 @ FR l p c d # k) col h = ctx_ok (k1 @ FR l p c v # k) col h"
  by (induction k1 col h rule: ctx_ok.induct) auto

theorem delete_node_at:
  assumes at: "rb_at T k (Nd l p c d r)"
    and whole: "rb (plug k (Nd l p c d r))" "tcolor (plug k (Nd l p c d r)) = RBT_COLOR_BLACK"
  shows "\<exists>T' n. rbt_delete_node T p = Some (RBT_OK, T') \<and> n \<in> set (taddrs (plug k (Nd l p c d r))) \<and>
     rb_whole T' (cleft k @ inorder l @ inorder r @ cright k) \<and> removed T T' n"
proof -
  have rb: "rb (Nd l p c d r)" "ctx_ok k c (bheight (Nd l p c d r))"
    using whole rb_plug[of "Nd l p c d r" k] by auto
  have p: "p \<in> set (taddrs (plug k (Nd l p c d r)))" by (simp add: set_taddrs_plug)
  have sl: "(sentinel T = ptr (sentinel T) l) = (l = Lf)" "(sentinel T = ptr (sentinel T) r) = (r = Lf)"
    using at by (cases l; cases r; auto simp: rb_at_def)+
  consider (one) "l = Lf" | (two) "l \<noteq> Lf" "r = Lf" | (both) "l \<noteq> Lf" "r \<noteq> Lf" by blast
  then show ?thesis
  proof cases
    case one
    then have "rbt_delete_node T p = rbt_delete_splice T p (ptr (sentinel T) r)"
      using node_at[OF at] by (simp add: rbt_delete_node_def)
    with delete_splice_at[OF at, of r] rb one p show ?thesis by auto
  next
    case two
    then have "rbt_delete_node T p = rbt_delete_splice T p (ptr (sentinel T) l)"
      using node_at[OF at] sl by (simp add: rbt_delete_node_def)
    with delete_splice_at[OF at, of l] rb two p show ?thesis by auto
  next
    case both
    let ?f = "FR l p c d"
    have "rb_at T (?f # k) r" using at by (simp add: rb_at_fold)
    moreover obtain rl rp rc rd rr where "r = Nd rl rp rc rd rr" using both(2) by (cases r) blast+
    ultimately obtain k1 n nc nd nr where next_: "rbt_leftmost T (ptr (sentinel T) r) = Some n"
        "rb_at T (k1 @ ?f # k) (Nd Lf n nc nd nr)" "plug k1 (Nd Lf n nc nd nr) = r" "cleft k1 = []"
      using leftmost_at[of T "?f # k" rl rp rc rd rr] by (simp only: ptr.simps) blast
    have full: "plug (k1 @ ?f # k) (Nd Lf n nc nd nr) = plug k (Nd l p c d r)"
      using next_(3) by (simp add: plug_append)
    have rbn: "rb (Nd Lf n nc nd nr)" "ctx_ok (k1 @ ?f # k) nc (bheight (Nd Lf n nc nd nr))"
      using rb_plug[of "Nd Lf n nc nd nr" "k1 @ ?f # k"] whole full by auto
    have ne: "k1 @ ?f # k = hd (k1 @ ?f # k) # tl (k1 @ ?f # k)" by (cases k1) auto
    obtain T1 T2 where T12: "rb_upd T (ptr (sentinel T) nr)
          (\<lambda>m. m\<lparr>parent := cptr (sentinel T) (k1 @ ?f # k)\<rparr>) = Some T1"
        "rbt_replace_child T1 (cptr (sentinel T) (k1 @ ?f # k)) n (ptr (sentinel T) nr) = Some T2"
        "unlinked T T2 (k1 @ ?f # k) nr n nc"
      using unlink_child[of T "hd (k1 @ ?f # k)" "tl (k1 @ ?f # k)" Lf n nc nd nr nr] next_(2) ne
      by auto
    obtain T3 where T3: "rb_upd T2 p (\<lambda>m. m\<lparr>data := Some nd\<rparr>) = Some T3"
        "unlinked T T3 (k1 @ FR l p c nd # k) nr n nc"
      using set_data_ctx[OF T12(3)] by blast
    have "ctx_ok (k1 @ FR l p c nd # k) (if nc = RBT_COLOR_BLACK then RBT_COLOR_BLACK else tcolor nr)
        (bheight nr + (if nc = RBT_COLOR_BLACK then 1 else 0))"
      using rbn ctx_ok_black ctx_ok_data[of k1 l p c nd k _ _ d] by (cases nc) fastforce+
    then obtain T' where T': "rbt_delete_finish T3 n (ptr (sentinel T) nr) = Some (RBT_OK, T')"
        "rb_whole T' (cleft (k1 @ FR l p c nd # k) @ inorder nr @ cright (k1 @ FR l p c nd # k))"
        "removed T T' n"
      using delete_finish_at[OF T3(2)] rbn(1) by auto
    have "inorder r = nd # inorder nr @ cright k1"
      using next_(3,4) inorder_plug[of k1 "Nd Lf n nc nd nr"] by simp
    then have xs: "cleft (k1 @ FR l p c nd # k) @ inorder nr @ cright (k1 @ FR l p c nd # k) =
        cleft k @ inorder l @ inorder r @ cright k"
      using next_(4) by (simp add: cleft_append cright_append)
    have "rbt_delete_node T p = Some (RBT_OK, T')"
      using node_at[OF at] sl both next_(1) node_at[OF next_(2)] T12(1,2) T3(1) T'(1)
      by (simp add: rbt_delete_node_def Let_def)
    moreover have "n \<in> set (taddrs (plug k (Nd l p c d r)))"
      unfolding full[symmetric] by (simp add: set_taddrs_plug)
    ultimately show ?thesis using T'(2,3) unfolding xs by blast
  qed
qed

subsection \<open>Deletion by key, and a store through a found pointer\<close>

context cmp_callback
begin

text \<open>A key that is present: its element is returned and removed, and one node is freed.\<close>

lemma rbt_delete_hit:
  assumes ok: "rbt_ok key valid T xs" and cmp: "cmp_cb T = cmp" and "valid q"
    and hit: "find (\<lambda>x. key x = key q) xs = Some d"
  shows "\<exists>T' ys zs. rbt_delete T q = Some (RBT_OK, Some d, T') \<and> xs = ys @ d # zs \<and>
     rbt_ok key valid T' (ys @ zs) \<and> cmp_cb T' = cmp"
proof -
  obtain t where t: "rb_at T [] t" "rb t" "tcolor t = RBT_COLOR_BLACK" "inorder t = xs"
    using ok by (rule rbt_ok_whole)
  have v: "\<forall>x \<in> set (inorder t). valid x" "sorted_wrt (<) (map key (inorder t))"
    using ok t(4) by (simp_all add: rbt_ok_def)
  have r: "root T = ptr (sentinel T) t" using t(1) by (simp add: rb_at_def)
  have "\<exists>x \<in> set xs. key x = key q" using hit by (auto simp: find_Some_iff)
  then obtain p where p: "rbt_query_loop T q (root T) = Some p" "found_at T t q p"
    using rbt_query_loop_at[OF t(1) cmp assms(3) v] r t(4) by auto
  obtain k l c d' r' where f: "rb_at T k (Nd l p c d' r')" "plug k (Nd l p c d' r') = t"
      "find (\<lambda>x. key x = key q) (inorder t) = Some d'" "p \<noteq> NULL"
      "inorder t = (cleft k @ inorder l) @ d' # (inorder r' @ cright k)"
    using found_split[OF t(1) p(2) v(2)] by metis
  have d: "d' = d" using f(3) hit t(4) by simp
  let ?T = "T\<lparr>rb_num := rb_num T - 1\<rparr>"
  have "rb_at ?T k (Nd l p c d r')" using f(1) d by (simp add: rb_at_def)
  then obtain T' n where T': "rbt_delete_node ?T p = Some (RBT_OK, T')" "n \<in> set (taddrs t)"
      "rb_whole T' (cleft k @ inorder l @ inorder r' @ cright k)" "removed ?T T' n"
    using delete_node_at[of ?T k l p c d r'] t(2,3) f(2) d by auto
  have n: "n \<in> dom (rb_mem T)"
    using T'(2) t(1) tree_at_dom[of "rb_mem T" "sentinel T" "sentinel T" t n] by (simp add: rb_at_def)
  have xs: "xs = (cleft k @ inorder l) @ d # (inorder r' @ cright k)" using f(5) t(4) d by simp
  have "rbt_ok key valid T' ((cleft k @ inorder l) @ (inorder r' @ cright k))"
    using ok T'(3,4) n unfolding rbt_ok_def xs sorted_append_keys removed_def
    by (auto simp: card_Diff_singleton)
  moreover have "rbt_delete T q = Some (RBT_OK, Some d, T')"
    using p(1) f(4) node_at[OF f(1)] T'(1) d by (simp add: rbt_delete_def)
  moreover have "cmp_cb T' = cmp" using T'(4) cmp by (simp add: removed_def)
  ultimately show ?thesis using xs by blast
qed

lemma rbt_delete_miss:
  assumes ok: "rbt_ok key valid T xs" and cmp: "cmp_cb T = cmp" and "valid q"
    and miss: "find (\<lambda>x. key x = key q) xs = None"
  shows "rbt_delete T q = Some (RBT_OK, None, T)"
proof -
  obtain t where t: "rb_at T [] t" "inorder t = xs"
    using ok by (rule rbt_ok_whole)
  have v: "\<forall>x \<in> set (inorder t). valid x" "sorted_wrt (<) (map key (inorder t))"
    using ok t(2) by (simp_all add: rbt_ok_def)
  have r: "root T = ptr (sentinel T) t" using t(1) by (simp add: rb_at_def)
  have "rbt_query_loop T q (root T) = Some NULL"
    using rbt_query_loop_at[OF t(1) cmp assms(3) v] r t(2) miss found_split[OF t(1) _ v(2)]
    by (metis option.distinct(1) plug.simps(1))
  then show ?thesis by (simp add: rbt_delete_def)
qed

lemma rbt_store_ok:
  assumes ok: "rbt_ok key valid T xs" and cmp: "cmp_cb T = cmp" and "valid q"
    and hit: "find (\<lambda>x. key x = key q) xs = Some d" and "valid v" and "key v = key q"
  shows "\<exists>T' ys zs. rbt_store T q v = Some T' \<and> xs = ys @ d # zs \<and>
     rbt_ok key valid T' (ys @ v # zs) \<and> cmp_cb T' = cmp"
proof -
  obtain t where t: "rb_at T [] t" "rb t" "tcolor t = RBT_COLOR_BLACK" "inorder t = xs"
    using ok by (rule rbt_ok_whole)
  have s: "\<forall>x \<in> set (inorder t). valid x" "sorted_wrt (<) (map key (inorder t))"
    using ok t(4) by (simp_all add: rbt_ok_def)
  have r: "root T = ptr (sentinel T) t" using t(1) by (simp add: rb_at_def)
  have "\<exists>x \<in> set xs. key x = key q" using hit by (auto simp: find_Some_iff)
  then obtain p where p: "rbt_query_loop T q (root T) = Some p" "found_at T t q p"
    using rbt_query_loop_at[OF t(1) cmp assms(3) s] r t(4) by auto
  obtain k l c d' r' where f: "rb_at T k (Nd l p c d' r')" "key d' = key q"
      "plug k (Nd l p c d' r') = t" "find (\<lambda>x. key x = key q) (inorder t) = Some d'" "p \<noteq> NULL"
      "inorder t = (cleft k @ inorder l) @ d' # (inorder r' @ cright k)"
    using found_split[OF t(1) p(2) s(2)] by metis
  have d: "d' = d" using f(4) hit t(4) by simp
  have xs: "xs = (cleft k @ inorder l) @ d # (inorder r' @ cright k)" using f(6) t(4) d by simp
  obtain T' where T': "rb_upd T p (\<lambda>n. n\<lparr>data := Some v\<rparr>) = Some T'"
      "rb_at T' k (Nd l p c v r')" "rb_same T T'"
    using set_data_focus[OF f(1)] by blast
  have "rb_whole T' (cleft k @ inorder (Nd l p c v r') @ cright k)"
    by (rule rb_wholeI[OF T'(2)])
       (use rb_plug[of "Nd l p c d' r'" k] t(2,3) f(3) in auto)
  then have "rb_whole T' ((cleft k @ inorder l) @ v # (inorder r' @ cright k))" by simp
  then have "rbt_ok key valid T' ((cleft k @ inorder l) @ v # (inorder r' @ cright k))"
    using ok T'(3) assms(5,6) f(2) d unfolding rbt_ok_def xs sorted_append_keys rb_same_def
    by auto
  moreover have "rbt_store T q v = Some T'" using p(1) f(5) T'(1) by (simp add: rbt_store_def)
  moreover have "cmp_cb T' = cmp" using T'(3) cmp by (simp add: rb_same_def)
  ultimately show ?thesis using xs by blast
qed

end

end
