(* ===== verification/Rb_Trav.thy ===== *)
theory Rb_Trav
  imports Rb_Delete
begin

text \<open>
  \<open>rbt_trav\<close> and \<open>rbt_find\<close>: the traversal of a tree with an explicit stack of at most
  \<open>RBT_MAX_DEPTH\<close> nodes.  A push on a full stack is silently dropped by \<open>stack_push\<close>, and the
  way up skips a parent without a right child: the traversal is in order, complete and free of
  repetition only because the tree is red-black.
\<close>

subsection \<open>The stack (\<open>stack.h\<close>)\<close>

definition RBT_MAX_DEPTH :: nat where "RBT_MAX_DEPTH = 512"

text \<open>The stack holds the nodes, top first; \<open>max\<close> is fixed at \<open>RBT_MAX_DEPTH\<close>.\<close>

definition stack_push :: "addr list \<Rightarrow> addr \<Rightarrow> addr list" where
  "stack_push stack node = (if RBT_MAX_DEPTH \<le> length stack then stack else node # stack)"

fun stack_pop :: "addr list \<Rightarrow> addr list" where
  "stack_pop [] = []"
| "stack_pop (x # stack) = stack"

fun stack_gettop :: "addr list \<Rightarrow> addr" where
  "stack_gettop [] = NULL"
| "stack_gettop (x # stack) = x"

subsection \<open>The traversal loop\<close>

text \<open>
  \<open>rbt_trav\<close> and \<open>rbt_find\<close> share their loop: \<open>visit\<close> is the call of \<open>proc\<close> or \<open>find\<close> on a
  node's data; it yields the new \<open>args\<close>, and \<^const>\<open>Inl\<close> stops the traversal there.
\<close>

type_synonym ('a, 's) visit = "'a \<Rightarrow> 's \<Rightarrow> ('s + 's) option"

text \<open>The inner loop to the left: \<open>while (tree->sentinel != node->lchild)\<close>.\<close>

partial_function (option) rbt_descend ::
    "'a rbt_tree \<Rightarrow> addr \<Rightarrow> addr list \<Rightarrow> (addr \<times> addr list) option" where
  "rbt_descend tree node stack = do {
     n \<leftarrow> rb_mem tree node;
     if sentinel tree \<noteq> lchild n then do {
       _ \<leftarrow> rbt_assert tree node;
       rbt_descend tree (lchild n) (stack_push stack node) }
     else Some (node, stack) }"

text \<open>
  The way up: the \<open>while\<close> loop that pops the parents whose right side is done.  The parent is read
  after every pop and a \<open>NULL\<close> one ends the traversal (result address \<open>NULL\<close>).
\<close>

partial_function (option) rbt_climb ::
    "'a rbt_tree \<Rightarrow> addr \<Rightarrow> addr list \<Rightarrow> (addr \<times> addr list) option" where
  "rbt_climb tree node stack =
     (let par = stack_gettop stack in
      if par = NULL then Some (NULL, stack)
      else do {
        p \<leftarrow> rb_mem tree par;
        if node = rchild p \<or> sentinel tree = rchild p then rbt_climb tree par (stack_pop stack)
        else Some (par, stack) })"

text \<open>
  What follows the visit of a node without a right child: either the traversal ends (\<open>NULL\<close>), or
  the next node to start from, with the parent's data visited on the way.
\<close>

definition rbt_visit :: "'a rbt_tree \<Rightarrow> ('a, 's) visit \<Rightarrow> addr \<Rightarrow> 's \<Rightarrow> ('s + 's) option" where
  "rbt_visit tree visit node args = do {
     n \<leftarrow> rb_mem tree node;
     d \<leftarrow> data n;
     visit d args }"

definition rbt_trav_up ::
    "'a rbt_tree \<Rightarrow> ('a, 's) visit \<Rightarrow> addr \<Rightarrow> addr list \<Rightarrow> 's \<Rightarrow> ('s + addr \<times> addr list \<times> 's) option" where
  "rbt_trav_up tree visit node stack args = do {
     (par, stack) \<leftarrow> rbt_climb tree node stack;
     if par = NULL then Some (Inl args)
     else do {
       res \<leftarrow> rbt_visit tree visit par args;
       case res of
         Inl args \<Rightarrow> Some (Inl args)
       | Inr args \<Rightarrow> do {
           p \<leftarrow> rb_mem tree par;
           Some (Inr (rchild p, stack, args)) } } }"

definition rbt_trav_back ::
    "'a rbt_tree \<Rightarrow> ('a, 's) visit \<Rightarrow> addr \<Rightarrow> addr list \<Rightarrow> 's \<Rightarrow> ('s + addr \<times> addr list \<times> 's) option" where
  "rbt_trav_back tree visit node stack args =
     (let par = stack_gettop stack in
      if par = NULL then Some (Inl args)
      else do {
        p \<leftarrow> rb_mem tree par;
        if lchild p = node then do {
          res \<leftarrow> rbt_visit tree visit par args;
          case res of
            Inl args \<Rightarrow> Some (Inl args)
          | Inr args \<Rightarrow>
              if sentinel tree \<noteq> rchild p then Some (Inr (rchild p, stack, args))
              else rbt_trav_up tree visit par (stack_pop stack) args }
        else rbt_trav_up tree visit node stack args })"

partial_function (option) rbt_trav_loop ::
    "'a rbt_tree \<Rightarrow> ('a, 's) visit \<Rightarrow> addr \<Rightarrow> addr list \<Rightarrow> 's \<Rightarrow> 's option" where
  "rbt_trav_loop tree visit node stack args =
     (if sentinel tree = node then Some args
      else do {
        (node, stack) \<leftarrow> rbt_descend tree node stack;
        res \<leftarrow> rbt_visit tree visit node args;
        case res of
          Inl args \<Rightarrow> Some args
        | Inr args \<Rightarrow> do {
            n \<leftarrow> rb_mem tree node;
            if sentinel tree \<noteq> rchild n
            then rbt_trav_loop tree visit (rchild n) (stack_push stack node) args
            else do {
              next \<leftarrow> rbt_trav_back tree visit node stack args;
              case next of
                Inl args \<Rightarrow> Some args
              | Inr (node, stack, args) \<Rightarrow> rbt_trav_loop tree visit node stack args } } })"

text \<open>
  \<open>alloc\<close> is the outcome of the \<open>calloc\<close> in \<open>stack_init\<close>; the code goes on with an uninitialised
  stack when it fails.  \<open>proc\<close> may not stop the traversal: its result is ignored.
\<close>

definition rbt_trav :: "'a rbt_tree \<Rightarrow> bool \<Rightarrow> ('a \<Rightarrow> 's \<Rightarrow> 's option) \<Rightarrow> 's \<Rightarrow> 's option" where
  "rbt_trav tree alloc proc args =
     (if sentinel tree = root tree then Some args
      else if \<not> alloc then None
      else rbt_trav_loop tree (\<lambda>d s. map_option Inr (proc d s)) (root tree) [] args)"

definition rbt_find :: "'a rbt_tree \<Rightarrow> bool \<Rightarrow> ('a \<Rightarrow> bool) \<Rightarrow> 'a option option" where
  "rbt_find tree alloc match =
     (if sentinel tree = root tree then Some None
      else if \<not> alloc then None
      else rbt_trav_loop tree
             (\<lambda>d s. Some (if match d then Inl (Some d) else Inr None)) (root tree) [] None)"

declare rbt_descend.simps [code]
  and rbt_climb.simps [code]
  and rbt_trav_loop.simps [code]

subsection \<open>The traversal of a list\<close>

fun visit_list :: "('a, 's) visit \<Rightarrow> 'a list \<Rightarrow> 's \<Rightarrow> 's option" where
  "visit_list f [] s = Some s"
| "visit_list f (x # xs) s = (case f x s of
      None \<Rightarrow> None
    | Some (Inl s') \<Rightarrow> Some s'
    | Some (Inr s') \<Rightarrow> visit_list f xs s')"

fun trav_list :: "('a \<Rightarrow> 's \<Rightarrow> 's option) \<Rightarrow> 'a list \<Rightarrow> 's \<Rightarrow> 's option" where
  "trav_list f [] s = Some s"
| "trav_list f (x # xs) s = Option.bind (f x s) (trav_list f xs)"

lemma visit_list_trav: "visit_list (\<lambda>d s. map_option Inr (f d s)) xs s = trav_list f xs s"
  by (induction xs arbitrary: s) (auto split: option.splits)

lemma visit_list_find:
  "visit_list (\<lambda>d s. Some (if P d then Inl (Some d) else Inr None)) xs None = Some (find P xs)"
  by (induction xs) auto

lemma trav_list_append:
  "trav_list f (xs @ ys) s = Option.bind (trav_list f xs s) (trav_list f ys)"
  by (induction xs arbitrary: s) (auto split: bind_split)

subsection \<open>Depth\<close>

fun cpath :: "'a frame list \<Rightarrow> addr list" where
  "cpath [] = []"
| "cpath (FL p c d r # k) = p # cpath k"
| "cpath (FR l p c d # k) = p # cpath k"

lemma length_cpath [simp]: "length (cpath k) = length k"
  by (induction k rule: cpath.induct) auto

lemma cpath_append: "cpath (k1 @ k2) = cpath k1 @ cpath k2"
  by (induction k1 rule: cpath.induct) auto

lemma bheight_size: "rb t \<Longrightarrow> 2 ^ bheight t \<le> Suc (length (inorder t))"
proof (induction t)
  case (Nd l p c d r)
  then have "2 ^ bheight l \<le> Suc (length (inorder l))" "2 ^ bheight l \<le> Suc (length (inorder r))"
    by auto
  then show ?case by (cases c) auto
qed simp

lemma ctx_depth:
  "ctx_ok k col (bheight t) \<Longrightarrow>
   length k + 2 * bheight t + (if col = RBT_COLOR_RED then 1 else 0) \<le> 2 * bheight (plug k t)"
proof (induction k t arbitrary: col rule: plug.induct)
  case (2 p c d r k t)
  then show ?case using "2.IH"[of c] by (cases c; cases col; auto)
next
  case (3 l p c d k t)
  then show ?case using "3.IH"[of c] by (cases c; cases col; auto)
qed simp

text \<open>A position of a whole red-black tree with fewer than \<open>2^64\<close> elements.\<close>

definition trav_at :: "'a rbt_tree \<Rightarrow> 'a frame list \<Rightarrow> 'a rtree \<Rightarrow> bool" where
  "trav_at T k t \<longleftrightarrow> rb_at T k t \<and> rb (plug k t) \<and> tcolor (plug k t) = RBT_COLOR_BLACK \<and>
     length (inorder (plug k t)) < 2 ^ 64"

lemma trav_at_L: "trav_at T k (Nd l p c d r) = trav_at T (FL p c d r # k) l"
  by (simp add: trav_at_def rb_at_move_L)

lemma trav_at_R: "trav_at T k (Nd l p c d r) = trav_at T (FR l p c d # k) r"
  by (simp add: trav_at_def rb_at_move_R)

lemma trav_at_rb: "trav_at T k t \<Longrightarrow> rb t \<and> ctx_ok k (tcolor t) (bheight t)"
  unfolding trav_at_def using rb_plug[of t k] by blast

lemma trav_at_push:
  assumes "trav_at T k t"
  shows "stack_push (cpath k) x = x # cpath k"
proof -
  let ?n = "bheight (plug k t)"
  have rb: "rb (plug k t)" and bound: "length (inorder (plug k t)) < 2 ^ 64"
    using assms by (simp_all add: trav_at_def)
  have "(2::nat) ^ ?n \<le> 2 ^ 64" using bheight_size[OF rb] bound by linarith
  then have "?n \<le> 64" by (rule power_le_imp_le_exp[rotated]) simp
  moreover have "length k \<le> 2 * ?n"
    using ctx_depth[of k "tcolor t" t] trav_at_rb[OF assms] by (auto split: if_splits)
  ultimately show ?thesis by (simp add: stack_push_def RBT_MAX_DEPTH_def)
qed

lemma trav_at_node:
  assumes "trav_at T k (Nd l p c d r)"
  shows "rb_mem T p = Some (mk_node c (cptr (sentinel T) k) (ptr (sentinel T) l) (ptr (sentinel T) r) d)"
    and "rbt_assert T p = Some ()" and "p \<noteq> NULL" and "p \<noteq> sentinel T"
  using assms node_at rbt_assert_at[of T k "Nd l p c d r" p] by (auto simp: trav_at_def rb_at_def)

lemma ptr_sentinel: "trav_at T k t \<Longrightarrow> (sentinel T = ptr (sentinel T) t) = (t = Lf)"
  by (cases t) (auto simp: trav_at_def rb_at_def)

subsection \<open>Descending and climbing\<close>

lemma descend_at:
  assumes "trav_at T k (Nd l p c d r)"
  shows "\<exists>k1 n nc nd nr. rbt_descend T p (cpath k) = Some (n, cpath (k1 @ k)) \<and>
     trav_at T (k1 @ k) (Nd Lf n nc nd nr) \<and>
     inorder (Nd l p c d r) @ cright k = nd # inorder nr @ cright (k1 @ k)"
  using assms
proof (induction l arbitrary: k p c d r)
  case Lf
  then have "rbt_descend T p (cpath k) = Some (p, cpath k)"
    using trav_at_node[OF Lf] by (simp add: rbt_descend.simps[of T p])
  then show ?case using Lf by (intro exI[of _ "[]"]) auto
next
  case (Nd ll lp lc ld lr)
  have L: "trav_at T (FL p c d r # k) (Nd ll lp lc ld lr)" using Nd.prems by (simp add: trav_at_L)
  have "rbt_descend T p (cpath k) = rbt_descend T lp (cpath (FL p c d r # k))"
    using trav_at_node[OF Nd.prems] trav_at_node(4)[OF L] trav_at_push[OF Nd.prems]
    by (simp add: rbt_descend.simps[of T p])
  moreover obtain k1 n nc nd nr where
      "rbt_descend T lp (cpath (FL p c d r # k)) = Some (n, cpath (k1 @ FL p c d r # k))"
      "trav_at T (k1 @ FL p c d r # k) (Nd Lf n nc nd nr)"
      "inorder (Nd ll lp lc ld lr) @ cright (FL p c d r # k) =
         nd # inorder nr @ cright (k1 @ FL p c d r # k)"
    using Nd.IH(1)[OF L] by blast
  ultimately show ?case
    by (intro exI[of _ "k1 @ [FL p c d r]"] exI[of _ n] exI[of _ nc] exI[of _ nd] exI[of _ nr])
       (simp add: cright_append)
qed

lemma thin_tree: "rb (Nd l p c d r) \<Longrightarrow> bheight (Nd l p c d r) = 0 \<Longrightarrow> l = Lf \<and> r = Lf"
  by (cases l; cases r; cases c; auto split: if_splits)

lemma fat_not_thin:
  assumes "trav_at T k (Nd l p c d r)" and "l \<noteq> Lf \<or> r \<noteq> Lf"
  shows "k \<noteq> FL q c' d' Lf # k'"
  using trav_at_rb[OF assms(1)] thin_tree[of l p c d r] assms(2) by auto

definition climbs_to :: "'a rbt_tree \<Rightarrow> addr \<Rightarrow> 'a frame list \<Rightarrow> bool" where
  "climbs_to T x k \<longleftrightarrow>
     (rbt_climb T x (cpath k) = Some (NULL, []) \<and> cright k = []) \<or>
     (\<exists>p c d r k2 u. rbt_climb T x (cpath k) = Some (p, cpath (FL p c d r # k2)) \<and>
        trav_at T (FL p c d r # k2) u \<and> r \<noteq> Lf \<and> cright k = d # inorder r @ cright k2)"

lemma climb_at:
  assumes "trav_at T k t" and "t \<noteq> Lf" and "\<forall>q c d k'. k \<noteq> FL q c d Lf # k'"
  shows "climbs_to T (ptr (sentinel T) t) k"
  using assms
proof (induction k arbitrary: t)
  case Nil
  then show ?case by (simp add: climbs_to_def rbt_climb.simps[of T "ptr (sentinel T) t"])
next
  case (Cons f k)
  show ?case
  proof (cases f)
    case (FL p c d r)
    have N: "trav_at T k (Nd t p c d r)" using Cons.prems(1) FL by (simp add: trav_at_L)
    have r: "r \<noteq> Lf" using Cons.prems(3) FL by auto
    have R: "trav_at T (FR t p c d # k) r" using N by (simp add: trav_at_R)
    have "ptr (sentinel T) t \<noteq> ptr (sentinel T) r" "sentinel T \<noteq> ptr (sentinel T) r"
      using N r Cons.prems(2) by (cases t; cases r; auto simp: trav_at_def rb_at_def)+
    then have "rbt_climb T (ptr (sentinel T) t) (cpath (f # k)) = Some (p, cpath (f # k))"
      using trav_at_node[OF N] FL by (simp add: rbt_climb.simps[of T "ptr (sentinel T) t"])
    then show ?thesis using Cons.prems(1) FL r unfolding climbs_to_def
      by (intro disjI2 exI[of _ p] exI[of _ c] exI[of _ d] exI[of _ r] exI[of _ k] exI[of _ t]) simp
  next
    case (FR l p c d)
    have N: "trav_at T k (Nd l p c d t)" using Cons.prems(1) FR by (simp add: trav_at_R)
    have "rbt_climb T (ptr (sentinel T) t) (cpath (f # k)) = rbt_climb T p (cpath k)"
      using trav_at_node[OF N] FR by (simp add: rbt_climb.simps[of T "ptr (sentinel T) t"])
    moreover have "climbs_to T p k"
      using Cons.IH[OF N] fat_not_thin[OF N] Cons.prems(2) by simp
    ultimately show ?thesis using FR by (simp add: climbs_to_def)
  qed
qed

subsection \<open>The whole traversal\<close>

lemma rbt_visit_at: "trav_at T k (Nd l p c d r) \<Longrightarrow> rbt_visit T visit p args = visit d args"
  using trav_at_node(1)[of T k l p c d r] by (simp add: rbt_visit_def)

text \<open>The continuation of the loop after the way up.\<close>

definition follow ::
    "'a rbt_tree \<Rightarrow> ('a, 's) visit \<Rightarrow> ('s + addr \<times> addr list \<times> 's) option \<Rightarrow> 's option" where
  "follow T visit res = (case res of
      None \<Rightarrow> None
    | Some (Inl a) \<Rightarrow> Some a
    | Some (Inr (node, stack, a)) \<Rightarrow> rbt_trav_loop T visit node stack a)"

lemma follow_simps [simp]:
  "follow T visit None = None"
  "follow T visit (Some (Inl a)) = Some a"
  "follow T visit (Some (Inr (node, stack, a))) = rbt_trav_loop T visit node stack a"
  by (simp_all add: follow_def)

lemma follow_bind:
  "Option.bind res (\<lambda>next. case next of
      Inl args \<Rightarrow> Some args
    | Inr (node, stack, args) \<Rightarrow> rbt_trav_loop T visit node stack args) = follow T visit res"
  by (auto simp: follow_def split: option.split sum.split)

definition loop_ok :: "'a rbt_tree \<Rightarrow> ('a, 's) visit \<Rightarrow> nat \<Rightarrow> bool" where
  "loop_ok T visit n \<longleftrightarrow> (\<forall>k t args. trav_at T k t \<longrightarrow> t \<noteq> Lf \<longrightarrow>
     length (inorder t @ cright k) < n \<longrightarrow>
     rbt_trav_loop T visit (ptr (sentinel T) t) (cpath k) args =
     visit_list visit (inorder t @ cright k) args)"

lemma loop_okD:
  "loop_ok T visit n \<Longrightarrow> trav_at T k t \<Longrightarrow> t \<noteq> Lf \<Longrightarrow> length (inorder t @ cright k) < n \<Longrightarrow>
   rbt_trav_loop T visit (ptr (sentinel T) t) (cpath k) args =
   visit_list visit (inorder t @ cright k) args"
  unfolding loop_ok_def by blast

lemma trav_up_at:
  assumes "climbs_to T x k" and ok: "loop_ok T visit n" and n: "length (cright k) \<le> n"
  shows "follow T visit (rbt_trav_up T visit x (cpath k) args) = visit_list visit (cright k) args"
  using assms(1) unfolding climbs_to_def
proof (elim disjE exE conjE)
  assume "rbt_climb T x (cpath k) = Some (NULL, [])" "cright k = []"
  then show ?thesis by (simp add: rbt_trav_up_def)
next
  fix p c d r k2 u
  assume a: "rbt_climb T x (cpath k) = Some (p, cpath (FL p c d r # k2))"
     "trav_at T (FL p c d r # k2) u" "r \<noteq> Lf" "cright k = d # inorder r @ cright k2"
  have N: "trav_at T k2 (Nd u p c d r)" using a(2) by (simp add: trav_at_L)
  have "trav_at T (FR u p c d # k2) r" using N by (simp add: trav_at_R)
  from loop_okD[OF ok this a(3)]
  have "rbt_trav_loop T visit (ptr (sentinel T) r) (p # cpath k2) s =
      visit_list visit (inorder r @ cright k2) s" for s
    using a(4) n by simp
  then show ?thesis
    using a(1,4) trav_at_node[OF N]
    by (simp add: rbt_trav_up_def rbt_visit_at[OF N] split: option.split sum.split)
qed

lemma trav_back_at:
  assumes t: "trav_at T k (Nd Lf n c d Lf)" and ok: "loop_ok T visit m" and m: "length (cright k) \<le> m"
  shows "follow T visit (rbt_trav_back T visit n (cpath k) args) = visit_list visit (cright k) args"
proof (cases k rule: cpath.cases)
  case 1
  then show ?thesis by (simp add: rbt_trav_back_def)
next
  case (2 p c' d' r k')
  have N: "trav_at T k' (Nd (Nd Lf n c d Lf) p c' d' r)" using t 2 by (simp add: trav_at_L)
  have R: "trav_at T (FR (Nd Lf n c d Lf) p c' d' # k') r" using N by (simp add: trav_at_R)
  have "climbs_to T p k'" using climb_at[OF N] fat_not_thin[OF N] by auto
  then have up: "follow T visit (rbt_trav_up T visit p (cpath k') a) =
      visit_list visit (cright k') a" for a
    using trav_up_at[OF _ ok] m 2 by simp
  have "rbt_trav_loop T visit (ptr (sentinel T) r) (p # cpath k') s =
      visit_list visit (inorder r @ cright k') s" if "r \<noteq> Lf" for s
    using loop_okD[OF ok R that] m 2 by simp
  then show ?thesis
    using trav_at_node[OF N] 2 ptr_sentinel[OF R] up
    by (simp add: rbt_trav_back_def rbt_visit_at[OF N] split: option.split sum.split)
next
  case (3 l p c' d' k')
  have N: "trav_at T k' (Nd l p c' d' (Nd Lf n c d Lf))" using t 3 by (simp add: trav_at_R)
  have "ptr (sentinel T) l \<noteq> n"
    using N by (cases l) (auto simp: trav_at_def rb_at_def)
  then have "rbt_trav_back T visit n (cpath k) args = rbt_trav_up T visit n (cpath k) args"
    using trav_at_node[OF N] 3 by (simp add: rbt_trav_back_def)
  moreover have "climbs_to T n k" using climb_at[OF t] 3 by simp
  ultimately show ?thesis using trav_up_at ok m by simp
qed

lemma trav_loop_step:
  assumes "trav_at T k (Nd l p c d r)" and ok: "loop_ok T visit m"
    and m: "length (inorder (Nd l p c d r) @ cright k) \<le> m"
  shows "rbt_trav_loop T visit p (cpath k) args =
     visit_list visit (inorder (Nd l p c d r) @ cright k) args"
proof -
  obtain k1 n nc nd nr where D: "rbt_descend T p (cpath k) = Some (n, cpath (k1 @ k))"
      "trav_at T (k1 @ k) (Nd Lf n nc nd nr)"
      "inorder (Nd l p c d r) @ cright k = nd # inorder nr @ cright (k1 @ k)"
    using descend_at[OF assms(1)] by blast
  have R: "trav_at T (FR Lf n nc nd # k1 @ k) nr" using D(2) by (simp add: trav_at_R)
  have len: "length (inorder nr @ cright (k1 @ k)) < m" using m unfolding D(3) by simp
  have go: "rbt_trav_loop T visit (ptr (sentinel T) nr) (n # cpath (k1 @ k)) s =
      visit_list visit (inorder nr @ cright (k1 @ k)) s" if "nr \<noteq> Lf" for s
    using loop_okD[OF ok R that] len by simp
  have ret: "follow T visit (rbt_trav_back T visit n (cpath (k1 @ k)) s) =
      visit_list visit (cright (k1 @ k)) s" if "nr = Lf" for s
    using trav_back_at[OF D(2)[unfolded that] ok] len that by simp
  show ?thesis
    unfolding D(3)
    using D(1) trav_at_node[OF D(2)] trav_at_node(4)[OF assms(1)] trav_at_push[OF D(2)]
      ptr_sentinel[OF R] go ret
    by (simp add: rbt_trav_loop.simps[of T visit p] rbt_visit_at[OF D(2)] follow_bind
        split: option.split sum.split)
qed

lemma loop_ok_all: "loop_ok T visit n"
proof (induction n)
  case 0
  then show ?case by (simp add: loop_ok_def)
next
  case (Suc n)
  show ?case unfolding loop_ok_def
  proof (intro allI impI)
    fix k args and t :: "'a rtree"
    assume a: "trav_at T k t" "t \<noteq> Lf" "length (inorder t @ cright k) < Suc n"
    obtain l p c d r where t: "t = Nd l p c d r" using a(2) by (cases t) auto
    show "rbt_trav_loop T visit (ptr (sentinel T) t) (cpath k) args =
        visit_list visit (inorder t @ cright k) args"
      using trav_loop_step[OF a(1)[unfolded t] Suc] a(3) unfolding t by simp
  qed
qed

theorem rbt_trav_loop_ok:
  assumes "rbt_ok key valid T xs" and "length xs < 2 ^ 64" and "sentinel T \<noteq> root T"
  shows "rbt_trav_loop T visit (root T) [] args = visit_list visit xs args"
proof -
  obtain t where t: "rb_at T [] t" "rb t" "tcolor t = RBT_COLOR_BLACK" "inorder t = xs"
    using assms(1) by (rule rbt_ok_whole)
  have r: "root T = ptr (sentinel T) t" using t(1) by (simp add: rb_at_def)
  have "trav_at T [] t" using t assms(2) by (simp add: trav_at_def)
  moreover have "t \<noteq> Lf" using r assms(3) by auto
  ultimately show ?thesis
    using loop_okD[OF loop_ok_all[of T visit "Suc (length xs)"], of "[]" t args] r t(4) by simp
qed

lemma rbt_ok_empty:
  assumes "rbt_ok key valid T xs" shows "(sentinel T = root T) = (xs = [])"
proof -
  obtain t where t: "rb_at T [] t" "inorder t = xs"
    using assms by (rule rbt_ok_whole)
  show ?thesis using t by (cases t) (auto simp: rb_at_def)
qed

lemma rbt_trav_ok:
  "rbt_ok key valid T xs \<Longrightarrow> length xs < 2 ^ 64 \<Longrightarrow> rbt_trav T True proc args = trav_list proc xs args"
  by (cases "xs = []") (auto simp: rbt_trav_def rbt_ok_empty rbt_trav_loop_ok visit_list_trav)

lemma rbt_find_ok:
  "rbt_ok key valid T xs \<Longrightarrow> length xs < 2 ^ 64 \<Longrightarrow> rbt_find T True P = Some (find P xs)"
  by (cases "xs = []") (auto simp: rbt_find_def rbt_ok_empty rbt_trav_loop_ok visit_list_find)

end
