(* ===== verification/Rb_Destroy.thy ===== *)
theory Rb_Destroy
  imports Rb_Trav "HOL-Library.Multiset"
begin

text \<open>
  \<open>rbt_destroy\<close>: the tree is freed bottom-up with the stack of the traversal.  The client's
  \<open>dealloc\<close> gets the data of every node; the model collects it in call order.
\<close>

subsection \<open>The code\<close>

text \<open>\<open>dealloc(args, node->data)\<close> and then \<open>tree->dealloc(tree->pool, node)\<close>.\<close>

definition rbt_free_node :: "'a rbt_tree \<Rightarrow> addr \<Rightarrow> 'a list \<Rightarrow> ('a rbt_tree \<times> 'a list) option" where
  "rbt_free_node tree node freed = do {
     n \<leftarrow> rb_mem tree node;
     d \<leftarrow> data n;
     tree \<leftarrow> rb_dealloc tree node;
     Some (tree, freed @ [d]) }"

partial_function (option) rbt_destroy_descend ::
    "'a rbt_tree \<Rightarrow> addr \<Rightarrow> addr list \<Rightarrow> (addr \<times> addr list) option" where
  "rbt_destroy_descend tree node stack = do {
     n \<leftarrow> rb_mem tree node;
     if sentinel tree \<noteq> lchild n
     then rbt_destroy_descend tree (lchild n) (stack_push stack node)
     else Some (node, stack) }"

text \<open>
  The way up: each finished node is freed.  The results are the tree, the node that is left to
  free, its parent (\<open>NULL\<close> when the root itself has been freed), the stack and the freed data.
\<close>

partial_function (option) rbt_destroy_up ::
    "'a rbt_tree \<Rightarrow> addr \<Rightarrow> addr \<Rightarrow> addr list \<Rightarrow> 'a list \<Rightarrow>
     ('a rbt_tree \<times> addr \<times> addr \<times> addr list \<times> 'a list) option" where
  "rbt_destroy_up tree node par stack freed = do {
     p \<leftarrow> rb_mem tree par;
     if node = rchild p \<or> sentinel tree = rchild p then do {
       let stack = stack_pop stack;
       (tree, freed) \<leftarrow> rbt_free_node tree node freed;
       let node = par;
       let par = stack_gettop stack;
       if par = NULL then do {
         (tree, freed) \<leftarrow> rbt_free_node tree node freed;
         Some (tree, node, NULL, stack, freed) }
       else rbt_destroy_up tree node par stack freed }
     else Some (tree, node, par, stack, freed) }"

partial_function (option) rbt_destroy_loop ::
    "'a rbt_tree \<Rightarrow> addr \<Rightarrow> addr list \<Rightarrow> 'a list \<Rightarrow> ('a rbt_tree \<times> 'a list) option" where
  "rbt_destroy_loop tree node stack freed =
     (if sentinel tree = node then Some (tree, freed)
      else do {
        (node, stack) \<leftarrow> rbt_destroy_descend tree node stack;
        n \<leftarrow> rb_mem tree node;
        if sentinel tree \<noteq> rchild n
        then rbt_destroy_loop tree (rchild n) (stack_push stack node) freed
        else
          (let par = stack_gettop stack in
           if par = NULL then rbt_free_node tree node freed
           else do {
             p \<leftarrow> rb_mem tree par;
             if lchild p = node \<and> sentinel tree \<noteq> rchild p then do {
               (tree, freed) \<leftarrow> rbt_free_node tree node freed;
               rbt_destroy_loop tree (rchild p) stack freed }
             else do {
               (tree, node, par, stack, freed) \<leftarrow> rbt_destroy_up tree node par stack freed;
               if par = NULL then Some (tree, freed)
               else do {
                 (tree, freed) \<leftarrow>
                    (if node \<noteq> NULL then rbt_free_node tree node freed else Some (tree, freed));
                 p \<leftarrow> rb_mem tree par;
                 rbt_destroy_loop tree (rchild p) stack freed } } }) })"

declare rbt_destroy_descend.simps [code]
  and rbt_destroy_up.simps [code]
  and rbt_destroy_loop.simps [code]

text \<open>The sentinel goes last; \<open>alloc\<close> is the outcome of \<open>stack_init\<close>.\<close>

definition rbt_destroy :: "'a rbt_tree \<Rightarrow> bool \<Rightarrow> ('a list \<times> 'a rbt_tree) option" where
  "rbt_destroy tree alloc = do {
     (tree, freed) \<leftarrow>
        (if sentinel tree = root tree then Some (tree, [])
         else if \<not> alloc then None
         else rbt_destroy_loop tree (root tree) [] []);
     tree \<leftarrow> rb_dealloc tree (sentinel tree);
     Some (freed, tree) }"

subsection \<open>Positions in a half-freed tree\<close>

text \<open>
  In a context, the sibling trees on the left are freed already: only their root pointers are
  left, in the \<open>lchild\<close> fields.  \<open>live\<close> are the nodes of the context that still exist, \<open>litems\<close>
  their data.
\<close>

fun dctx_at :: "(addr \<rightharpoonup> 'a rbt_node) \<Rightarrow> addr \<Rightarrow> addr \<Rightarrow> 'a frame list \<Rightarrow> bool" where
  "dctx_at m s x [] = True"
| "dctx_at m s x (FL p c d r # k) =
     ((\<exists>pa. m p = Some (mk_node c pa x (ptr s r) d)) \<and> tree_at m s p r \<and> dctx_at m s p k)"
| "dctx_at m s x (FR l p c d # k) =
     ((\<exists>pa. m p = Some (mk_node c pa (ptr s l) x d)) \<and> dctx_at m s p k)"

fun live :: "'a frame list \<Rightarrow> addr set" where
  "live [] = {}"
| "live (FL p c d r # k) = insert p (set (taddrs r) \<union> live k)"
| "live (FR l p c d # k) = insert p (live k)"

fun litems :: "'a frame list \<Rightarrow> 'a list" where
  "litems [] = []"
| "litems (FL p c d r # k) = d # inorder r @ litems k"
| "litems (FR l p c d # k) = d # litems k"

lemma live_sub: "live k \<subseteq> set (caddrs k)"
  by (induction k rule: live.induct) auto

lemma dctx_at_upd [simp]:
  "p \<notin> live k \<Longrightarrow> dctx_at (m(p := v)) s x k = dctx_at m s x k"
  by (induction m s x k rule: dctx_at.induct) auto

definition whole_ok :: "'a frame list \<Rightarrow> 'a rtree \<Rightarrow> bool" where
  "whole_ok k t \<longleftrightarrow> rb (plug k t) \<and> tcolor (plug k t) = RBT_COLOR_BLACK \<and>
     length (inorder (plug k t)) < 2 ^ 64"

text \<open>Nothing of \<open>t\<close> is freed.\<close>

definition dst_at :: "'a rbt_tree \<Rightarrow> 'a frame list \<Rightarrow> 'a rtree \<Rightarrow> bool" where
  "dst_at T k t \<longleftrightarrow> whole_ok k t \<and>
     dctx_at (rb_mem T) (sentinel T) (ptr (sentinel T) t) k \<and>
     (\<exists>pa. tree_at (rb_mem T) (sentinel T) pa t) \<and>
     distinct (NULL # sentinel T # taddrs t @ caddrs k) \<and>
     dom (rb_mem T) = insert (sentinel T) (set (taddrs t) \<union> live k)"

text \<open>All of \<open>t\<close> is freed but its root.\<close>

definition pend_at :: "'a rbt_tree \<Rightarrow> 'a frame list \<Rightarrow> 'a rtree \<Rightarrow> 'a \<Rightarrow> bool" where
  "pend_at T k t d \<longleftrightarrow> whole_ok k t \<and> t \<noteq> Lf \<and>
     (\<exists>n. rb_mem T (ptr (sentinel T) t) = Some n \<and> data n = Some d) \<and>
     dctx_at (rb_mem T) (sentinel T) (ptr (sentinel T) t) k \<and>
     distinct (NULL # sentinel T # taddrs t @ caddrs k) \<and>
     dom (rb_mem T) = insert (sentinel T) (insert (ptr (sentinel T) t) (live k))"

lemma whole_ok_L: "whole_ok k (Nd l p c d r) = whole_ok (FL p c d r # k) l"
  by (simp add: whole_ok_def)

lemma whole_ok_R: "whole_ok k (Nd l p c d r) = whole_ok (FR l p c d # k) r"
  by (simp add: whole_ok_def)

lemma whole_ok_push:
  assumes "whole_ok k t"
  shows "stack_push (cpath k) x = x # cpath k"
proof -
  let ?n = "bheight (plug k t)"
  have rb: "rb (plug k t)" and bound: "length (inorder (plug k t)) < 2 ^ 64"
    using assms by (simp_all add: whole_ok_def)
  have "(2::nat) ^ ?n \<le> 2 ^ 64" using bheight_size[OF rb] bound by linarith
  then have "?n \<le> 64" by (rule power_le_imp_le_exp[rotated]) simp
  moreover have "length k \<le> 2 * ?n"
    using ctx_depth[of k "tcolor t" t] rb_plug[of t k] assms
    by (auto simp: whole_ok_def split: if_splits)
  ultimately show ?thesis by (simp add: stack_push_def RBT_MAX_DEPTH_def)
qed

lemma dst_L: "dst_at T k (Nd l p c d r) \<Longrightarrow> dst_at T (FL p c d r # k) l"
  unfolding dst_at_def by (auto simp: whole_ok_L)

lemma dst_R: "dst_at T k (Nd Lf p c d r) \<Longrightarrow> dst_at T (FR Lf p c d # k) r"
  unfolding dst_at_def by (auto simp: whole_ok_R)

lemma dst_pend: "dst_at T k (Nd Lf p c d Lf) \<Longrightarrow> pend_at T k (Nd Lf p c d Lf) d"
  unfolding dst_at_def pend_at_def by auto

text \<open>Freeing the pending node, and what is pending next.\<close>

definition freed_of :: "'a rbt_tree \<Rightarrow> addr \<Rightarrow> 'a rbt_tree" where
  "freed_of T p = T\<lparr>rb_mem := (rb_mem T)(p := None)\<rparr>"

lemma freed_of_simps [simp]:
  "rb_mem (freed_of T p) = (rb_mem T)(p := None)" "sentinel (freed_of T p) = sentinel T"
  by (simp_all add: freed_of_def)

lemma free_pend:
  "pend_at T k t d \<Longrightarrow> rbt_free_node T (ptr (sentinel T) t) freed =
     Some (freed_of T (ptr (sentinel T) t), freed @ [d])"
  by (auto simp: pend_at_def rbt_free_node_def rb_dealloc_def freed_of_def)

lemma pend_addr:
  assumes "pend_at T k t d"
  shows "ptr (sentinel T) t \<noteq> NULL" "ptr (sentinel T) t \<noteq> sentinel T"
    "ptr (sentinel T) t \<notin> set (caddrs k)" "ptr (sentinel T) t \<notin> live k"
  using assms live_sub[of k] unfolding pend_at_def by (cases t; auto)+

lemma pend_parent_R:
  assumes "pend_at T (FR l p c d # k) t e"
  shows "\<exists>pa. rb_mem T p = Some (mk_node c pa (ptr (sentinel T) l) (ptr (sentinel T) t) d)"
  using assms by (simp add: pend_at_def)

lemma pend_parent_L:
  assumes "pend_at T (FL p c d r # k) t e"
  shows "\<exists>pa. rb_mem T p = Some (mk_node c pa (ptr (sentinel T) t) (ptr (sentinel T) r) d)"
  using assms by (simp add: pend_at_def)

lemma pend_up_R:
  assumes "pend_at T (FR l p c d # k) t e"
  shows "pend_at (freed_of T (ptr (sentinel T) t)) k (Nd l p c d t) d"
  using assms pend_addr[OF assms] live_sub[of k] unfolding pend_at_def
  by (auto simp: whole_ok_R)

lemma pend_up_L:
  assumes "pend_at T (FL p c d Lf # k) t e"
  shows "pend_at (freed_of T (ptr (sentinel T) t)) k (Nd t p c d Lf) d"
  using assms pend_addr[OF assms] live_sub[of k] unfolding pend_at_def
  by (auto simp: whole_ok_L)

lemma pend_next:
  assumes "pend_at T (FL p c d r # k) t e"
  shows "dst_at (freed_of T (ptr (sentinel T) t)) (FR t p c d # k) r"
proof -
  have "ptr (sentinel T) t \<notin> set (taddrs r)" using pend_addr(3)[OF assms] by simp
  moreover have "tree_at (rb_mem T) (sentinel T) p r" using assms by (simp add: pend_at_def)
  ultimately have "\<exists>pa. tree_at ((rb_mem T)(ptr (sentinel T) t := None)) (sentinel T) pa r" by auto
  moreover have "whole_ok (FR t p c d # k) r"
    using assms by (simp add: pend_at_def whole_ok_def)
  ultimately show ?thesis
    using assms pend_addr[OF assms] live_sub[of k] unfolding pend_at_def dst_at_def by auto
qed

definition up_done :: "'a rbt_tree \<Rightarrow> addr \<Rightarrow> 'a frame list \<Rightarrow> 'a list \<Rightarrow> 'a \<Rightarrow> bool" where
  "up_done T x k freed e \<longleftrightarrow> (\<exists>T' y st freed'.
     rbt_destroy_up T x (cptr (sentinel T) k) (cpath k) freed = Some (T', y, NULL, st, freed') \<and>
     mset freed' = mset freed + {#e#} + mset (litems k) \<and>
     dom (rb_mem T') = {sentinel T} \<and> sentinel T' = sentinel T)"

definition up_stop :: "'a rbt_tree \<Rightarrow> addr \<Rightarrow> 'a frame list \<Rightarrow> 'a list \<Rightarrow> 'a \<Rightarrow> bool" where
  "up_stop T x k freed e \<longleftrightarrow> (\<exists>T' t' e' p c d r k' freed'.
     rbt_destroy_up T x (cptr (sentinel T) k) (cpath k) freed =
       Some (T', ptr (sentinel T) t', p, cpath (FL p c d r # k'), freed') \<and>
     pend_at T' (FL p c d r # k') t' e' \<and> r \<noteq> Lf \<and> sentinel T' = sentinel T \<and>
     mset freed' + {#e'#} + mset (litems (FL p c d r # k')) = mset freed + {#e#} + mset (litems k) \<and>
     length (litems (FL p c d r # k')) \<le> length (litems k))"

lemma up_done_step:
  assumes "rbt_destroy_up T x (cptr (sentinel T) (f # k)) (cpath (f # k)) freed =
      rbt_destroy_up U y (cptr (sentinel U) k) (cpath k) (freed @ [e])"
    and "up_done U y k (freed @ [e]) d" and "litems (f # k) = d # litems k" and "sentinel U = sentinel T"
  shows "up_done T x (f # k) freed e"
  using assms(2) unfolding up_done_def assms(1) assms(3) assms(4) by simp

lemma up_stop_step:
  assumes "rbt_destroy_up T x (cptr (sentinel T) (f # k)) (cpath (f # k)) freed =
      rbt_destroy_up U y (cptr (sentinel U) k) (cpath k) (freed @ [e])"
    and "up_stop U y k (freed @ [e]) d" and "litems (f # k) = d # litems k" and "sentinel U = sentinel T"
  shows "up_stop T x (f # k) freed e"
proof -
  obtain T' t' e' p c da r k' freed' where a:
      "rbt_destroy_up U y (cptr (sentinel U) k) (cpath k) (freed @ [e]) =
       Some (T', ptr (sentinel T) t', p, cpath (FL p c da r # k'), freed')"
      "pend_at T' (FL p c da r # k') t' e'" "r \<noteq> Lf" "sentinel T' = sentinel T"
      "mset freed' + {#e'#} + mset (litems (FL p c da r # k')) =
         mset (freed @ [e]) + {#d#} + mset (litems k)"
      "length (litems (FL p c da r # k')) \<le> length (litems k)"
    using assms(2) unfolding up_stop_def assms(4) by blast
  then show ?thesis
    unfolding up_stop_def assms(1) assms(3)
    by (intro exI[of _ T'] exI[of _ t'] exI[of _ e'] exI[of _ p] exI[of _ c] exI[of _ da]
        exI[of _ r] exI[of _ k'] exI[of _ freed']) simp
qed

lemma destroy_up_at:
  assumes "pend_at T k t e" and "k \<noteq> []"
  shows "up_done T (ptr (sentinel T) t) k freed e \<or> up_stop T (ptr (sentinel T) t) k freed e"
  using assms
proof (induction k arbitrary: T t e freed)
  case Nil
  then show ?case by simp
next
  case (Cons f k)
  let ?x = "ptr (sentinel T) t" and ?T = "freed_of T (ptr (sentinel T) t)"
  have up: "up_done T ?x (f # k) freed e \<or> up_stop T ?x (f # k) freed e"
    if u: "pend_at ?T k u d" "ptr (sentinel T) u = cptr (sentinel T) (f # k)"
      "litems (f # k) = d # litems k"
      and run: "rbt_destroy_up T ?x (cptr (sentinel T) (f # k)) (cpath (f # k)) freed =
        (let par = stack_gettop (cpath k) in
         if par = NULL then do {
           (tree, freed) \<leftarrow> rbt_free_node ?T (cptr (sentinel T) (f # k)) (freed @ [e]);
           Some (tree, cptr (sentinel T) (f # k), NULL, cpath k, freed) }
         else rbt_destroy_up ?T (cptr (sentinel T) (f # k)) par (cpath k) (freed @ [e]))" for u d
  proof (cases "k = []")
    case True
    have "dom (rb_mem (freed_of ?T (ptr (sentinel T) u))) = {sentinel T}"
      using u(1) pend_addr[OF u(1)] True unfolding pend_at_def by auto
    then show ?thesis
      using run free_pend[OF u(1), of "freed @ [e]"] u(2,3) True
      unfolding up_done_def by (intro disjI1) simp
  next
    case False
    have top: "stack_gettop (cpath k) = cptr (sentinel T) k" "cptr (sentinel T) k \<noteq> NULL"
      using False u(1) by (cases k rule: cpath.cases; auto simp: pend_at_def)+
    have "rbt_destroy_up T ?x (cptr (sentinel T) (f # k)) (cpath (f # k)) freed =
        rbt_destroy_up ?T (ptr (sentinel ?T) u) (cptr (sentinel ?T) k) (cpath k) (freed @ [e])"
      using run u(2) top by simp
    with Cons.IH[OF u(1) False, of "freed @ [e]"] u(3) show ?thesis
      using up_done_step up_stop_step by (metis freed_of_simps(2))
  qed
  show ?case
  proof (cases f)
    case (FR l p c d)
    note P = Cons.prems(1)[unfolded FR]
    show ?thesis
    proof (rule up[OF pend_up_R[OF P]])
      obtain pa where "rb_mem T p = Some (mk_node c pa (ptr (sentinel T) l) ?x d)"
        using pend_parent_R[OF P] by blast
      then show "rbt_destroy_up T ?x (cptr (sentinel T) (f # k)) (cpath (f # k)) freed =
        (let par = stack_gettop (cpath k) in
         if par = NULL then do {
           (tree, freed) \<leftarrow> rbt_free_node ?T (cptr (sentinel T) (f # k)) (freed @ [e]);
           Some (tree, cptr (sentinel T) (f # k), NULL, cpath k, freed) }
         else rbt_destroy_up ?T (cptr (sentinel T) (f # k)) par (cpath k) (freed @ [e]))"
        using free_pend[OF P, of freed] unfolding FR cptr.simps
        by (simp add: rbt_destroy_up.simps[of T ?x p] Let_def)
    qed (simp_all add: FR)
  next
    case (FL p c d r)
    note P = Cons.prems(1)[unfolded FL]
    show ?thesis
    proof (cases "r = Lf")
      case True
      note P' = P[unfolded True]
      show ?thesis
      proof (rule up[OF pend_up_L[OF P']])
        obtain pa where "rb_mem T p = Some (mk_node c pa ?x (sentinel T) d)"
          using pend_parent_L[OF P'] by auto
        then show "rbt_destroy_up T ?x (cptr (sentinel T) (f # k)) (cpath (f # k)) freed =
          (let par = stack_gettop (cpath k) in
           if par = NULL then do {
             (tree, freed) \<leftarrow> rbt_free_node ?T (cptr (sentinel T) (f # k)) (freed @ [e]);
             Some (tree, cptr (sentinel T) (f # k), NULL, cpath k, freed) }
           else rbt_destroy_up ?T (cptr (sentinel T) (f # k)) par (cpath k) (freed @ [e]))"
          using free_pend[OF P, of freed] unfolding FL True cptr.simps
          by (simp add: rbt_destroy_up.simps[of T ?x p] Let_def)
      qed (simp_all add: FL True)
    next
      case False
      have "ptr (sentinel T) t \<noteq> ptr (sentinel T) r" "sentinel T \<noteq> ptr (sentinel T) r"
        using P False pend_addr[OF P] by (cases r; auto simp: pend_at_def)+
      then have "rbt_destroy_up T ?x (cptr (sentinel T) (f # k)) (cpath (f # k)) freed =
          Some (T, ?x, p, cpath (FL p c d r # k), freed)"
        using pend_parent_L[OF P] FL by (auto simp: rbt_destroy_up.simps[of T ?x p])
      then show ?thesis
        using P False FL unfolding up_stop_def
        by (intro disjI2 exI[of _ T] exI[of _ t] exI[of _ e] exI[of _ p] exI[of _ c] exI[of _ d]
            exI[of _ r] exI[of _ k] exI[of _ freed]) simp
    qed
  qed
qed

subsection \<open>The whole loop\<close>

definition destroys :: "'a rbt_tree \<Rightarrow> ('a rbt_tree \<times> 'a list) option \<Rightarrow> 'a multiset \<Rightarrow> bool" where
  "destroys T res M \<longleftrightarrow> (\<exists>T' freed. res = Some (T', freed) \<and> mset freed = M \<and>
     dom (rb_mem T') = {sentinel T} \<and> sentinel T' = sentinel T)"

definition destroy_ok :: "addr \<Rightarrow> nat \<Rightarrow> 'a itself \<Rightarrow> bool" where
  "destroy_ok s n ty \<longleftrightarrow> (\<forall>(T :: 'a rbt_tree) k t freed. dst_at T k t \<longrightarrow> sentinel T = s \<longrightarrow> t \<noteq> Lf \<longrightarrow>
     length (inorder t @ litems k) < n \<longrightarrow>
     destroys T (rbt_destroy_loop T (ptr s t) (cpath k) freed)
       (mset freed + mset (inorder t) + mset (litems k)))"

lemma destroy_descend_at:
  assumes "dst_at T k (Nd l p c d r)"
  shows "\<exists>k1 n nc nd nr. rbt_destroy_descend T p (cpath k) = Some (n, cpath (k1 @ k)) \<and>
     dst_at T (k1 @ k) (Nd Lf n nc nd nr) \<and> length (taddrs nr) < length (taddrs (Nd l p c d r)) \<and>
     mset (inorder (Nd l p c d r)) + mset (litems k) = {#nd#} + mset (inorder nr) + mset (litems (k1 @ k))"
  using assms
proof (induction l arbitrary: k p c d r)
  case Lf
  have "rb_mem T p \<noteq> None" "\<forall>n. rb_mem T p = Some n \<longrightarrow> lchild n = sentinel T"
    using Lf by (auto simp: dst_at_def)
  then have "rbt_destroy_descend T p (cpath k) = Some (p, cpath k)"
    by (auto simp: rbt_destroy_descend.simps[of T p])
  then show ?case using Lf by (intro exI[of _ "[]"]) (auto simp: ac_simps)
next
  case (Nd ll lp lc ld lr)
  note L = dst_L[OF Nd.prems]
  have "rb_mem T p \<noteq> None" "\<forall>n. rb_mem T p = Some n \<longrightarrow> lchild n = lp" "sentinel T \<noteq> lp"
    using Nd.prems by (auto simp: dst_at_def)
  then have "rbt_destroy_descend T p (cpath k) = rbt_destroy_descend T lp (cpath (FL p c d r # k))"
    using whole_ok_push[of k "Nd (Nd ll lp lc ld lr) p c d r" p] Nd.prems
    by (auto simp: rbt_destroy_descend.simps[of T p] dst_at_def)
  moreover obtain k1 n nc nd nr where
      "rbt_destroy_descend T lp (cpath (FL p c d r # k)) = Some (n, cpath (k1 @ FL p c d r # k))"
      "dst_at T (k1 @ FL p c d r # k) (Nd Lf n nc nd nr)"
      "length (taddrs nr) < length (taddrs (Nd ll lp lc ld lr))"
      "mset (inorder (Nd ll lp lc ld lr)) + mset (litems (FL p c d r # k)) =
         {#nd#} + mset (inorder nr) + mset (litems (k1 @ FL p c d r # k))"
    using Nd.IH(1)[OF L] by blast
  ultimately show ?case
    by (intro exI[of _ "k1 @ [FL p c d r]"] exI[of _ n] exI[of _ nc] exI[of _ nd] exI[of _ nr])
       (auto simp: ac_simps)
qed

lemma destroy_okD:
  "destroy_ok s n TYPE('a) \<Longrightarrow> dst_at (T :: 'a rbt_tree) k t \<Longrightarrow> sentinel T = s \<Longrightarrow> t \<noteq> Lf \<Longrightarrow>
   length (inorder t @ litems k) < n \<Longrightarrow>
   destroys T (rbt_destroy_loop T (ptr s t) (cpath k) freed)
     (mset freed + mset (inorder t) + mset (litems k))"
  unfolding destroy_ok_def by blast

text \<open>The pending node of a right sibling that is still there: free it and go on to the right.\<close>

lemma destroy_next:
  assumes P: "pend_at (T :: 'a rbt_tree) (FL p c d r # k) t e" and "r \<noteq> Lf"
    and ok: "destroy_ok (sentinel T) n TYPE('a)" and n: "length (litems (FL p c d r # k)) < n"
  shows "\<exists>T'. rbt_free_node T (ptr (sentinel T) t) freed = Some (T', freed @ [e]) \<and>
     map_option rchild (rb_mem T' p) = Some (ptr (sentinel T) r) \<and>
     destroys T (rbt_destroy_loop T' (ptr (sentinel T) r) (cpath (FL p c d r # k)) (freed @ [e]))
       (mset freed + {#e#} + mset (litems (FL p c d r # k)))"
proof -
  let ?T = "freed_of T (ptr (sentinel T) t)"
  have "destroys ?T (rbt_destroy_loop ?T (ptr (sentinel T) r) (cpath (FR t p c d # k)) (freed @ [e]))
       (mset (freed @ [e]) + mset (inorder r) + mset (litems (FR t p c d # k)))"
    using n by (intro destroy_okD[OF ok pend_next[OF P]]) (auto simp: assms(2))
  moreover have "ptr (sentinel T) t \<noteq> p" using pend_addr(3)[OF P] by auto
  moreover obtain pa where "rb_mem T p = Some (mk_node c pa (ptr (sentinel T) t) (ptr (sentinel T) r) d)"
    using pend_parent_L[OF P] by blast
  ultimately show ?thesis using free_pend[OF P, of freed]
    by (intro exI[of _ ?T]) (auto simp: destroys_def ac_simps)
qed

lemma destroy_leaf:
  assumes D: "dst_at (T :: 'a rbt_tree) k (Nd Lf n nc nd Lf)"
    and ok: "destroy_ok (sentinel T) m TYPE('a)" and m: "length (litems k) < m"
    and run: "rbt_destroy_loop T x st0 freed =
       (let par = stack_gettop (cpath k) in
        if par = NULL then rbt_free_node T n freed
        else do {
          p \<leftarrow> rb_mem T par;
          if lchild p = n \<and> sentinel T \<noteq> rchild p then do {
            (tree, freed) \<leftarrow> rbt_free_node T n freed;
            rbt_destroy_loop tree (rchild p) (cpath k) freed }
          else do {
            (tree, node, par, stack, freed) \<leftarrow> rbt_destroy_up T n par (cpath k) freed;
            if par = NULL then Some (tree, freed)
            else do {
              (tree, freed) \<leftarrow>
                 (if node \<noteq> NULL then rbt_free_node tree node freed else Some (tree, freed));
              p \<leftarrow> rb_mem tree par;
              rbt_destroy_loop tree (rchild p) stack freed } } })"
  shows "destroys T (rbt_destroy_loop T x st0 freed) (mset freed + {#nd#} + mset (litems k))"
proof -
  note P = dst_pend[OF D]
  have up: "destroys T
      (do { (tree, node, par, stack, freed) \<leftarrow> rbt_destroy_up T n (cptr (sentinel T) k) (cpath k) freed;
            if par = NULL then Some (tree, freed)
            else do {
              (tree, freed) \<leftarrow>
                 (if node \<noteq> NULL then rbt_free_node tree node freed else Some (tree, freed));
              p \<leftarrow> rb_mem tree par;
              rbt_destroy_loop tree (rchild p) stack freed } })
      (mset freed + {#nd#} + mset (litems k))" if "k \<noteq> []"
    using destroy_up_at[OF P that, of freed]
  proof
    assume "up_done T (ptr (sentinel T) (Nd Lf n nc nd Lf)) k freed nd"
    then show ?thesis unfolding up_done_def destroys_def by auto
  next
    assume "up_stop T (ptr (sentinel T) (Nd Lf n nc nd Lf)) k freed nd"
    then obtain T' t' e' p c d r k' freed' where a:
        "rbt_destroy_up T n (cptr (sentinel T) k) (cpath k) freed =
           Some (T', ptr (sentinel T) t', p, cpath (FL p c d r # k'), freed')"
        "pend_at T' (FL p c d r # k') t' e'" "r \<noteq> Lf" "sentinel T' = sentinel T"
        "mset freed' + {#e'#} + mset (litems (FL p c d r # k')) = mset freed + {#nd#} + mset (litems k)"
        "length (litems (FL p c d r # k')) \<le> length (litems k)"
      unfolding up_stop_def ptr.simps by blast
    have "p \<noteq> NULL" "ptr (sentinel T) t' \<noteq> NULL"
      using a(2,4) pend_addr(1)[OF a(2)] by (auto simp: pend_at_def)
    moreover obtain T'' where "rbt_free_node T' (ptr (sentinel T) t') freed' = Some (T'', freed' @ [e'])"
        "map_option rchild (rb_mem T'' p) = Some (ptr (sentinel T) r)"
        "destroys T' (rbt_destroy_loop T'' (ptr (sentinel T) r) (cpath (FL p c d r # k')) (freed' @ [e']))
           (mset freed + {#nd#} + mset (litems k))"
      using destroy_next[OF a(2,3), of m freed'] ok a(4,5,6) m by auto
    ultimately show ?thesis using a(1,4) by (auto simp: destroys_def)
  qed
  show ?thesis
  proof (cases k rule: cpath.cases)
    case 1
    then show ?thesis
      using run free_pend[OF P, of freed] P pend_addr[OF P] by (auto simp: destroys_def pend_at_def)
  next
    case (2 p c d r k')
    have pn: "p \<noteq> NULL" using P 2 by (auto simp: pend_at_def)
    obtain pa where par: "rb_mem T p = Some (mk_node c pa n (ptr (sentinel T) r) d)"
      using pend_parent_L[OF P[unfolded 2]] by auto
    show ?thesis
    proof (cases "r = Lf")
      case True
      then show ?thesis using up run par pn 2 by simp
    next
      case False
      have "sentinel T \<noteq> ptr (sentinel T) r" using P 2 False by (cases r) (auto simp: pend_at_def)
      moreover obtain T' where "rbt_free_node T n freed = Some (T', freed @ [nd])"
          "destroys T (rbt_destroy_loop T' (ptr (sentinel T) r) (cpath k) (freed @ [nd]))
             (mset freed + {#nd#} + mset (litems k))"
        using destroy_next[OF P[unfolded 2] False ok, of freed] m unfolding 2 by auto
      ultimately show ?thesis using run par pn 2 by simp
    qed
  next
    case (3 l p c d k')
    have pn: "p \<noteq> NULL" using P 3 by (auto simp: pend_at_def)
    obtain pa where par: "rb_mem T p = Some (mk_node c pa (ptr (sentinel T) l) n d)"
      using pend_parent_R[OF P[unfolded 3]] by auto
    have "ptr (sentinel T) l \<noteq> n" using P 3 by (cases l) (auto simp: pend_at_def)
    then show ?thesis using up run par pn 3 by simp
  qed
qed

lemma destroy_loop_at:
  assumes ok: "destroy_ok s m TYPE('a)"
  shows "dst_at (T :: 'a rbt_tree) k t \<Longrightarrow> sentinel T = s \<Longrightarrow> t \<noteq> Lf \<Longrightarrow>
    length (inorder t @ litems k) \<le> m \<Longrightarrow>
    destroys T (rbt_destroy_loop T (ptr s t) (cpath k) freed)
      (mset freed + mset (inorder t) + mset (litems k))"
proof (induction "length (taddrs t)" arbitrary: k t rule: less_induct)
  case less
  obtain l p c d r where t: "t = Nd l p c d r" using less.prems(3) by (cases t) auto
  obtain k1 n nc nd nr where D: "rbt_destroy_descend T p (cpath k) = Some (n, cpath (k1 @ k))"
      "dst_at T (k1 @ k) (Nd Lf n nc nd nr)" "length (taddrs nr) < length (taddrs t)"
      "mset (inorder t) + mset (litems k) = {#nd#} + mset (inorder nr) + mset (litems (k1 @ k))"
    using destroy_descend_at[of T k l p c d r] less.prems(1) t by auto
  have sz: "length (inorder nr) + length (litems (k1 @ k)) < m"
    using arg_cong[OF D(4), of size] less.prems(4) by simp
  have M: "mset freed + mset (inorder t) + mset (litems k) =
      mset freed + {#nd#} + mset (inorder nr) + mset (litems (k1 @ k))"
    using arg_cong[OF D(4), of "\<lambda>x. mset freed + x"] by (simp only: add.assoc)
  have node: "\<exists>pa. rb_mem T n = Some (mk_node nc pa s (ptr s nr) nd)" "s \<noteq> p"
    using D(2) less.prems(1,2) t by (auto simp: dst_at_def)
  show ?case
  proof (cases "nr = Lf")
    case True
    have run: "rbt_destroy_loop T p (cpath k) freed =
       (let par = stack_gettop (cpath (k1 @ k)) in
        if par = NULL then rbt_free_node T n freed
        else do {
          p \<leftarrow> rb_mem T par;
          if lchild p = n \<and> sentinel T \<noteq> rchild p then do {
            (tree, freed) \<leftarrow> rbt_free_node T n freed;
            rbt_destroy_loop tree (rchild p) (cpath (k1 @ k)) freed }
          else do {
            (tree, node, par, stack, freed) \<leftarrow> rbt_destroy_up T n par (cpath (k1 @ k)) freed;
            if par = NULL then Some (tree, freed)
            else do {
              (tree, freed) \<leftarrow>
                 (if node \<noteq> NULL then rbt_free_node tree node freed else Some (tree, freed));
              p \<leftarrow> rb_mem tree par;
              rbt_destroy_loop tree (rchild p) stack freed } } })"
      using node D(1) less.prems(2) True by (auto simp: rbt_destroy_loop.simps[of T p])
    have "destroys T (rbt_destroy_loop T p (cpath k) freed) (mset freed + {#nd#} + mset (litems (k1 @ k)))"
      by (rule destroy_leaf[OF _ _ _ run]) (use D(2) ok less.prems(2) sz True in auto)
    then show ?thesis unfolding M using True t by simp
  next
    case False
    have "s \<noteq> ptr s nr" using D(2) less.prems(2) False by (cases nr) (auto simp: dst_at_def)
    then have "rbt_destroy_loop T p (cpath k) freed =
        rbt_destroy_loop T (ptr s nr) (cpath (FR Lf n nc nd # k1 @ k)) freed"
      using node D(1) less.prems(2) whole_ok_push[of "k1 @ k" "Nd Lf n nc nd nr" n] D(2)
      by (auto simp: rbt_destroy_loop.simps[of T p] dst_at_def)
    moreover have "destroys T (rbt_destroy_loop T (ptr s nr) (cpath (FR Lf n nc nd # k1 @ k)) freed)
        (mset freed + mset (inorder nr) + mset (litems (FR Lf n nc nd # k1 @ k)))"
      by (rule less.hyps[OF D(3) dst_R[OF D(2)] less.prems(2) False]) (use sz in simp)
    ultimately show ?thesis unfolding M using t by (simp add: ac_simps)
  qed
qed

lemma destroy_ok_all: "destroy_ok s n TYPE('a)"
proof (induction n)
  case 0
  then show ?case by (simp add: destroy_ok_def)
next
  case (Suc n)
  show ?case unfolding destroy_ok_def using destroy_loop_at[OF Suc] by (simp add: less_Suc_eq_le)
qed

lemma rbt_destroy_ok:
  assumes ok: "rbt_ok key valid T xs" and small: "length xs < 2 ^ 64"
  shows "\<exists>ds T'. rbt_destroy T True = Some (ds, T') \<and> mset ds = mset xs \<and> rb_mem T' = Map.empty"
proof -
  obtain t where t: "rb_at T [] t" "rb t" "tcolor t = RBT_COLOR_BLACK" "inorder t = xs"
    using ok by (rule rbt_ok_whole)
  have at: "tree_at (rb_mem T) (sentinel T) (sentinel T) t" "root T = ptr (sentinel T) t"
    and dist: "distinct (NULL # sentinel T # taddrs t)" and s: "sentinel T \<in> dom (rb_mem T)"
    using t(1) by (auto simp: rb_at_def)
  have sub: "set (sentinel T # taddrs t) \<subseteq> dom (rb_mem T)" using s tree_at_dom[OF at(1)] by auto
  have "card (dom (rb_mem T)) = Suc (length xs)" "finite (dom (rb_mem T))"
    using ok by (simp_all add: rbt_ok_def)
  moreover have "card (set (sentinel T # taddrs t)) = Suc (length xs)"
    using distinct_card[of "sentinel T # taddrs t"] dist t(4) length_inorder[of t] by simp
  ultimately have dom: "dom (rb_mem T) = set (sentinel T # taddrs t)"
    using card_subset_eq[OF _ sub] by simp
  have fin: "\<exists>ds T'. do { (tree, freed) \<leftarrow> res; tree \<leftarrow> rb_dealloc tree (sentinel tree); Some (freed, tree) }
       = Some (ds, T') \<and> mset ds = mset xs \<and> rb_mem T' = Map.empty"
    if d: "destroys T res (mset xs)" for res
  proof -
    obtain T' freed where r: "res = Some (T', freed)" "mset freed = mset xs"
        "dom (rb_mem T') = {sentinel T'}" using d by (auto simp: destroys_def)
    then have "(rb_mem T')(sentinel T' := None) = Map.empty"
      by (auto simp flip: dom_eq_empty_conv)
    moreover obtain n where "rb_mem T' (sentinel T') = Some n" using r(3) by blast
    ultimately show ?thesis using r by (auto simp: rb_dealloc_def)
  qed
  show ?thesis
  proof (cases t)
    case Lf
    then have "destroys T (Some (T, [])) (mset xs)" using dom t(4) by (simp add: destroys_def)
    from fin[OF this] show ?thesis using at(2) Lf by (simp add: rbt_destroy_def)
  next
    case (Nd l p c d r)
    have "dst_at T [] t" using t small dom at(1) dist by (auto simp: dst_at_def whole_ok_def)
    then have "destroys T (rbt_destroy_loop T (root T) [] []) (mset xs)"
      using destroy_okD[OF destroy_ok_all[of "sentinel T" "Suc (length xs)"], of T "[]" t "[]"] at(2) Nd
        arg_cong[OF t(4), of mset] arg_cong[OF t(4), of length] by simp
    from fin[OF this] show ?thesis using at(2) Nd dist by (simp add: rbt_destroy_def)
  qed
qed

end
