(* ===== verification/Hash_Tab.thy ===== *)
theory Hash_Tab
  imports Rb_Destroy "HOL-Library.Signed_Division"
begin

text \<open>
  The model of \<open>src/clang/lib/core/hash_tab.c\<close>: an array of red-black trees, each with a
  read-write lock, indexed by a hash of the stored object.  The locks are part of the state: the
  code runs in one thread here, so a lock that the thread itself holds in a conflicting mode is
  never granted and the operation has no result.
\<close>

subsection \<open>Locks (\<open>lock.h\<close>, \<open>pthread_rwlock_t\<close>)\<close>

datatype lock_e = NONLOCK | RDLOCK | WRLOCK

record rwlock =
  lk_readers :: nat
  lk_writer :: bool

definition rwlock_init :: rwlock where
  "rwlock_init = \<lparr>lk_readers = 0, lk_writer = False\<rparr>"

definition rwlock_rdlock :: "rwlock \<Rightarrow> rwlock option" where
  "rwlock_rdlock lk = (if lk_writer lk then None else Some (lk\<lparr>lk_readers := Suc (lk_readers lk)\<rparr>))"

definition rwlock_wrlock :: "rwlock \<Rightarrow> rwlock option" where
  "rwlock_wrlock lk =
     (if lk_writer lk \<or> 0 < lk_readers lk then None else Some (lk\<lparr>lk_writer := True\<rparr>))"

text \<open>Releasing a lock that nobody holds is undefined behaviour.\<close>

definition rwlock_unlock :: "rwlock \<Rightarrow> rwlock option" where
  "rwlock_unlock lk =
     (if lk_writer lk then Some (lk\<lparr>lk_writer := False\<rparr>)
      else if 0 < lk_readers lk then Some (lk\<lparr>lk_readers := lk_readers lk - 1\<rparr>) else None)"

subsection \<open>The table (\<open>hash_tab.h\<close>)\<close>

record 'a hash_tab =
  ht_len :: int
  ht_total :: u64
  ht_tree :: "'a rbt_tree list"
  ht_lock :: "rwlock list"
  ht_cmp :: "'a \<Rightarrow> 'a \<Rightarrow> int"
  ht_hash :: "'a \<Rightarrow> int"

text \<open>
  \<open>idx = htab->hash(key) % htab->len\<close>: the callback returns \<open>int64_t\<close>, so the remainder is the
  truncated one, and \<open>idx\<close> is an \<open>unsigned int\<close>.  A negative remainder becomes an index far
  beyond the array.
\<close>

definition ht_idx :: "'a hash_tab \<Rightarrow> 'a \<Rightarrow> nat option" where
  "ht_idx htab key =
     (if ht_len htab = 0 then None
      else let idx = unat (word_of_int (ht_hash htab key smod ht_len htab) :: u32) in
        if idx < length (ht_tree htab) \<and> idx < length (ht_lock htab) then Some idx else None)"

definition hash_tab_lock :: "'a hash_tab \<Rightarrow> nat \<Rightarrow> lock_e \<Rightarrow> 'a hash_tab option" where
  "hash_tab_lock htab idx lock = (case lock of
      NONLOCK \<Rightarrow> Some htab
    | WRLOCK \<Rightarrow> do {
        lk \<leftarrow> rwlock_wrlock (ht_lock htab ! idx);
        Some (htab\<lparr>ht_lock := (ht_lock htab)[idx := lk]\<rparr>) }
    | RDLOCK \<Rightarrow> do {
        lk \<leftarrow> rwlock_rdlock (ht_lock htab ! idx);
        Some (htab\<lparr>ht_lock := (ht_lock htab)[idx := lk]\<rparr>) })"

definition hash_tab_unlock_idx :: "'a hash_tab \<Rightarrow> nat \<Rightarrow> lock_e \<Rightarrow> 'a hash_tab option" where
  "hash_tab_unlock_idx htab idx lock =
     (if lock = WRLOCK \<or> lock = RDLOCK then do {
        lk \<leftarrow> rwlock_unlock (ht_lock htab ! idx);
        Some (htab\<lparr>ht_lock := (ht_lock htab)[idx := lk]\<rparr>) }
      else Some htab)"

definition hash_tab_unlock :: "'a hash_tab \<Rightarrow> 'a \<Rightarrow> lock_e \<Rightarrow> 'a hash_tab option" where
  "hash_tab_unlock htab key lock = do {
     idx \<leftarrow> ht_idx htab key;
     hash_tab_unlock_idx htab idx lock }"

definition ht_set_tree :: "'a hash_tab \<Rightarrow> nat \<Rightarrow> 'a rbt_tree \<Rightarrow> 'a hash_tab" where
  "ht_set_tree htab idx tree = htab\<lparr>ht_tree := (ht_tree htab)[idx := tree]\<rparr>"

subsection \<open>Creation\<close>

text \<open>
  The loop that creates the trees.  \<^const>\<open>None\<close> inside \<^const>\<open>Some\<close> is the result \<open>NULL\<close>: when
  \<open>rbt_creat\<close> fails, \<open>hash_tab_destroy\<close> walks the whole array, and the slots after the failing one
  were never initialised; only a failure at the last slot is harmless.
\<close>

fun hash_tab_trees ::
    "nat \<Rightarrow> ('a \<Rightarrow> 'a \<Rightarrow> int) \<Rightarrow> allocs \<Rightarrow> ('a rbt_tree list option \<times> allocs) option" where
  "hash_tab_trees 0 cmp al = Some (Some [], al)"
| "hash_tab_trees (Suc n) cmp al =
     (let (a1, al) = alloc_take al;
          (a2, al) = (if a1 then alloc_take al else (False, al))
      in do {
        t \<leftarrow> rbt_creat a1 a2 cmp;
        case t of
          None \<Rightarrow> if n = 0 then Some (None, al) else None
        | Some tree \<Rightarrow> do {
            (ts, al) \<leftarrow> hash_tab_trees n cmp al;
            Some (map_option (Cons tree) ts, al) } })"

definition hash_tab_creat ::
    "int \<Rightarrow> ('a \<Rightarrow> int) \<Rightarrow> ('a \<Rightarrow> 'a \<Rightarrow> int) \<Rightarrow> allocs \<Rightarrow> ('a hash_tab option \<times> allocs) option" where
  "hash_tab_creat len hash cmp al =
     (let (a1, al) = alloc_take al in
      if \<not> a1 then Some (None, al)
      else let (a2, al) = alloc_take al in
      if \<not> a2 then Some (None, al)
      else let (a3, al) = alloc_take al in
      if \<not> a3 then Some (None, al)
      else do {
        (ts, al) \<leftarrow> hash_tab_trees (nat len) cmp al;
        Some (map_option (\<lambda>ts. \<lparr>ht_len = len, ht_total = 0, ht_tree = ts,
                 ht_lock = replicate (nat len) rwlock_init, ht_cmp = cmp, ht_hash = hash\<rparr>) ts, al) })"

subsection \<open>Operations\<close>

definition hash_tab_insert ::
    "'a hash_tab \<Rightarrow> bool \<Rightarrow> 'a \<Rightarrow> lock_e \<Rightarrow> (rbt_ret \<times> 'a hash_tab) option" where
  "hash_tab_insert htab alloc d lock = do {
     idx \<leftarrow> ht_idx htab d;
     htab \<leftarrow> hash_tab_lock htab idx lock;
     (ret, tree) \<leftarrow> rbt_insert (ht_tree htab ! idx) alloc d;
     let htab = ht_set_tree htab idx tree;
     let htab = (if ret = RBT_OK then htab\<lparr>ht_total := ht_total htab + 1\<rparr> else htab);
     htab \<leftarrow> hash_tab_unlock_idx htab idx lock;
     Some (ret, htab) }"

text \<open>On success the lock stays held: the caller releases it with \<open>hash_tab_unlock\<close>.\<close>

definition hash_tab_query ::
    "'a hash_tab \<Rightarrow> 'a \<Rightarrow> lock_e \<Rightarrow> ('a option \<times> 'a hash_tab) option" where
  "hash_tab_query htab key lock = do {
     idx \<leftarrow> ht_idx htab key;
     htab \<leftarrow> hash_tab_lock htab idx lock;
     d \<leftarrow> rbt_query (ht_tree htab ! idx) key;
     case d of
       None \<Rightarrow> do {
         htab \<leftarrow> hash_tab_unlock_idx htab idx lock;
         Some (None, htab) }
     | Some _ \<Rightarrow> Some (d, htab) }"

definition hash_tab_delete ::
    "'a hash_tab \<Rightarrow> 'a \<Rightarrow> lock_e \<Rightarrow> ('a option \<times> 'a hash_tab) option" where
  "hash_tab_delete htab key lock = do {
     idx \<leftarrow> ht_idx htab key;
     htab \<leftarrow> hash_tab_lock htab idx lock;
     (_, d, tree) \<leftarrow> rbt_delete (ht_tree htab ! idx) key;
     let htab = ht_set_tree htab idx tree;
     let htab = (if d \<noteq> None then htab\<lparr>ht_total := ht_total htab - 1\<rparr> else htab);
     htab \<leftarrow> hash_tab_unlock_idx htab idx lock;
     Some (d, htab) }"

text \<open>A store through the pointer that \<open>hash_tab_query\<close> returned for \<open>key\<close>.\<close>

definition hash_tab_store :: "'a hash_tab \<Rightarrow> 'a \<Rightarrow> 'a \<Rightarrow> 'a hash_tab option" where
  "hash_tab_store htab key d = do {
     idx \<leftarrow> ht_idx htab key;
     tree \<leftarrow> rbt_store (ht_tree htab ! idx) key d;
     Some (ht_set_tree htab idx tree) }"

text \<open>The traversal of all slots; \<open>alloc\<close> is the outcome of the stack's \<open>calloc\<close> in each slot.\<close>

fun hash_tab_trav_from ::
    "nat \<Rightarrow> nat \<Rightarrow> 'a hash_tab \<Rightarrow> (nat \<Rightarrow> bool) \<Rightarrow> ('a \<Rightarrow> 's \<Rightarrow> 's option) \<Rightarrow> 's \<Rightarrow> lock_e \<Rightarrow>
     ('s \<times> 'a hash_tab) option" where
  "hash_tab_trav_from 0 idx htab alloc proc args lock = Some (args, htab)"
| "hash_tab_trav_from (Suc n) idx htab alloc proc args lock = do {
     htab \<leftarrow> hash_tab_lock htab idx lock;
     args \<leftarrow> rbt_trav (ht_tree htab ! idx) (alloc idx) proc args;
     htab \<leftarrow> hash_tab_unlock_idx htab idx lock;
     hash_tab_trav_from n (Suc idx) htab alloc proc args lock }"

definition hash_tab_trav ::
    "'a hash_tab \<Rightarrow> (nat \<Rightarrow> bool) \<Rightarrow> ('a \<Rightarrow> 's \<Rightarrow> 's option) \<Rightarrow> 's \<Rightarrow> lock_e \<Rightarrow> ('s \<times> 'a hash_tab) option" where
  "hash_tab_trav htab alloc proc args lock =
     hash_tab_trav_from (nat (ht_len htab)) 0 htab alloc proc args lock"

definition hash_tab_trav_slot ::
    "'a hash_tab \<Rightarrow> 'a \<Rightarrow> bool \<Rightarrow> ('a \<Rightarrow> 's \<Rightarrow> 's option) \<Rightarrow> 's \<Rightarrow> lock_e \<Rightarrow> ('s \<times> 'a hash_tab) option" where
  "hash_tab_trav_slot htab key alloc proc args lock = do {
     idx \<leftarrow> ht_idx htab key;
     htab \<leftarrow> hash_tab_lock htab idx lock;
     args \<leftarrow> rbt_trav (ht_tree htab ! idx) alloc proc args;
     htab \<leftarrow> hash_tab_unlock_idx htab idx lock;
     Some (args, htab) }"

text \<open>
  \<open>hash_tab_destroy\<close>: the result lists the data passed to the client's \<open>dealloc\<close>, in call order;
  \<open>alloc\<close> as above.  The table itself is freed at the end.
\<close>

fun hash_tab_destroy_from :: "nat \<Rightarrow> nat \<Rightarrow> 'a hash_tab \<Rightarrow> (nat \<Rightarrow> bool) \<Rightarrow> 'a list option" where
  "hash_tab_destroy_from 0 idx htab alloc = Some []"
| "hash_tab_destroy_from (Suc n) idx htab alloc = do {
     htab \<leftarrow> hash_tab_lock htab idx WRLOCK;
     (freed, tree) \<leftarrow> rbt_destroy (ht_tree htab ! idx) (alloc idx);
     let htab = ht_set_tree htab idx tree;
     htab \<leftarrow> hash_tab_unlock_idx htab idx WRLOCK;
     rest \<leftarrow> hash_tab_destroy_from n (Suc idx) htab alloc;
     Some (freed @ rest) }"

definition hash_tab_destroy :: "'a hash_tab \<Rightarrow> (nat \<Rightarrow> bool) \<Rightarrow> 'a list option" where
  "hash_tab_destroy htab alloc = hash_tab_destroy_from (nat (ht_len htab)) 0 htab alloc"

subsection \<open>Lock lemmas\<close>

definition lock_free :: "rwlock \<Rightarrow> lock_e \<Rightarrow> bool" where
  "lock_free lk m = (case m of
      NONLOCK \<Rightarrow> True
    | RDLOCK \<Rightarrow> \<not> lk_writer lk
    | WRLOCK \<Rightarrow> \<not> lk_writer lk \<and> lk_readers lk = 0)"

definition lock_held :: "rwlock \<Rightarrow> lock_e \<Rightarrow> rwlock" where
  "lock_held lk m = (case m of
      NONLOCK \<Rightarrow> lk
    | RDLOCK \<Rightarrow> lk\<lparr>lk_readers := Suc (lk_readers lk)\<rparr>
    | WRLOCK \<Rightarrow> lk\<lparr>lk_writer := True\<rparr>)"

lemma lock_free_init [simp]: "lock_free rwlock_init m"
  by (simp add: lock_free_def rwlock_init_def split: lock_e.split)

lemma hash_tab_lock_free:
  "lock_free (ht_lock H ! i) m \<Longrightarrow>
   hash_tab_lock H i m = Some (H\<lparr>ht_lock := (ht_lock H)[i := lock_held (ht_lock H ! i) m]\<rparr>)"
  by (cases m) (auto simp: hash_tab_lock_def lock_free_def lock_held_def rwlock_rdlock_def rwlock_wrlock_def)

lemma hash_tab_lock_busy: "\<not> lock_free (ht_lock H ! i) m \<Longrightarrow> hash_tab_lock H i m = None"
  by (cases m) (auto simp: hash_tab_lock_def lock_free_def rwlock_rdlock_def rwlock_wrlock_def)

lemma rwlock_no_writer: "\<not> lk_writer lk \<Longrightarrow> lk\<lparr>lk_writer := False\<rparr> = lk" for lk :: rwlock
  by (cases lk) simp

lemma hash_tab_unlock_held:
  assumes "i < length L" and "lock_free (L ! i) m"
  shows "hash_tab_unlock_idx (H\<lparr>ht_lock := L[i := lock_held (L ! i) m]\<rparr>) i m = Some (H\<lparr>ht_lock := L\<rparr>)"
proof -
  have w: "L[i := (L ! i)\<lparr>lk_writer := False\<rparr>] = L" if "\<not> lk_writer (L ! i)"
  proof -
    have "(L ! i)\<lparr>lk_writer := False\<rparr> = L ! i" using that by (rule rwlock_no_writer)
    then show ?thesis by (simp only: list_update_id)
  qed
  show ?thesis using assms
    by (cases m) (auto simp: hash_tab_unlock_idx_def rwlock_unlock_def lock_free_def lock_held_def w)
qed

lemma ht_lock_swap:
  "H\<lparr>ht_lock := L, ht_total := n\<rparr> = H\<lparr>ht_total := n, ht_lock := L\<rparr>"
  "H\<lparr>ht_lock := L, ht_tree := T\<rparr> = H\<lparr>ht_tree := T, ht_lock := L\<rparr>"
  by simp_all

subsection \<open>The contents of a table\<close>

definition ht_items :: "'a hash_tab \<Rightarrow> 'a list" where
  "ht_items H = concat (map rbt_items (ht_tree H))"

definition ht_map :: "('a \<Rightarrow> 'k) \<Rightarrow> 'a hash_tab \<Rightarrow> 'k \<Rightarrow> 'a option" where
  "ht_map key H = (\<lambda>k. find (\<lambda>x. key x = k) (ht_items H))"

definition ht_slot :: "'a hash_tab \<Rightarrow> 'a \<Rightarrow> nat" where
  "ht_slot H x = nat (ht_hash H x mod ht_len H)"

text \<open>
  \<open>ht_ok\<close>: as many trees and locks as \<open>ht_len\<close> says, every tree a red-black tree of valid
  objects that hash to its slot, and \<open>ht_total\<close> their number.
\<close>

definition ht_ok :: "('a \<Rightarrow> 'k::linorder) \<Rightarrow> ('a \<Rightarrow> bool) \<Rightarrow> ('a \<Rightarrow> int) \<Rightarrow> ('a \<Rightarrow> 'a \<Rightarrow> int) \<Rightarrow>
    'a hash_tab \<Rightarrow> bool" where
  "ht_ok key valid hash cmp H \<longleftrightarrow>
     0 < ht_len H \<and> ht_len H < 2 ^ 31 \<and> length (ht_tree H) = nat (ht_len H) \<and>
     length (ht_lock H) = nat (ht_len H) \<and> ht_hash H = hash \<and>
     (\<forall>i < length (ht_tree H). rbt_ok key valid (ht_tree H ! i) (rbt_items (ht_tree H ! i)) \<and>
        cmp_cb (ht_tree H ! i) = cmp \<and> (\<forall>x \<in> set (rbt_items (ht_tree H ! i)). ht_slot H x = i)) \<and>
     ht_total H = of_nat (length (ht_items H))"

text \<open>No slot is locked.\<close>

definition ht_quiet :: "'a hash_tab \<Rightarrow> bool" where
  "ht_quiet H \<longleftrightarrow> (\<forall>lk \<in> set (ht_lock H). lk = rwlock_init)"

text \<open>The table while the slot of \<open>q\<close> is held in mode \<open>m\<close>.\<close>

definition ht_locked :: "'a hash_tab \<Rightarrow> 'a \<Rightarrow> lock_e \<Rightarrow> 'a hash_tab" where
  "ht_locked H q m =
     H\<lparr>ht_lock := (ht_lock H)[ht_slot H q := lock_held (ht_lock H ! ht_slot H q) m]\<rparr>"

lemma ht_ok_lock [simp]:
  "length L = length (ht_lock H) \<Longrightarrow>
   ht_ok key valid hash cmp (H\<lparr>ht_lock := L\<rparr>) = ht_ok key valid hash cmp H"
  by (simp add: ht_ok_def ht_items_def ht_slot_def)

lemma ht_map_lock [simp]: "ht_map key (H\<lparr>ht_lock := L\<rparr>) = ht_map key H"
  by (simp add: ht_map_def ht_items_def)

lemma ht_locked_simps [simp]:
  "ht_ok key valid hash cmp (ht_locked H q m) = ht_ok key valid hash cmp H"
  "ht_map key (ht_locked H q m) = ht_map key H"
  "ht_items (ht_locked H q m) = ht_items H"
  "ht_slot (ht_locked H q m) x = ht_slot H x"
  "ht_len (ht_locked H q m) = ht_len H"
  "ht_total (ht_locked H q m) = ht_total H"
  by (simp_all add: ht_locked_def ht_items_def ht_slot_def)

lemma ht_slot_lock [simp]: "ht_slot (H\<lparr>ht_lock := L\<rparr>) x = ht_slot H x"
  by (simp add: ht_slot_def)

lemma ht_quiet_free: "ht_quiet H \<Longrightarrow> i < length (ht_lock H) \<Longrightarrow> lock_free (ht_lock H ! i) m"
  by (metis ht_quiet_def lock_free_init nth_mem)

subsection \<open>The contract of the callbacks\<close>

text \<open>
  Objects with the same key hash alike, and the hash of an object is not negative as an
  \<open>int64_t\<close>.
\<close>

locale hash_callbacks = cmp_callback cmp key valid
  for cmp :: "'a \<Rightarrow> 'a \<Rightarrow> int" and key :: "'a \<Rightarrow> 'k::linorder" and valid :: "'a \<Rightarrow> bool" +
  fixes hash :: "'a \<Rightarrow> int"
  assumes hash_key: "valid x \<Longrightarrow> valid y \<Longrightarrow> key x = key y \<Longrightarrow> hash x = hash y"
    and hash_nonneg: "valid x \<Longrightarrow> 0 \<le> hash x"
begin

lemma idx_ok:
  assumes ok: "ht_ok key valid hash cmp H" and "valid q"
  shows "ht_idx H q = Some (ht_slot H q)" "ht_slot H q < length (ht_tree H)"
    "ht_slot H q < length (ht_lock H)"
proof -
  have len: "0 < ht_len H" "ht_len H < 2 ^ 31" "length (ht_tree H) = nat (ht_len H)"
      "length (ht_lock H) = nat (ht_len H)" "ht_hash H = hash"
    using ok by (auto simp: ht_ok_def)
  have h: "0 \<le> hash q" using hash_nonneg assms(2) .
  have m: "0 \<le> hash q mod ht_len H" "hash q mod ht_len H < ht_len H" using len by auto
  have "hash q smod ht_len H = hash q mod ht_len H"
    using h len by (simp add: signed_modulo_int_def sgn_if)
  moreover have "hash q mod ht_len H mod 4294967296 = hash q mod ht_len H"
  proof (rule mod_pos_pos_trivial)
    have "ht_len H < 4294967296" using len(2) by simp
    with m(2) show "hash q mod ht_len H < 4294967296" by (rule less_trans)
  qed (rule m(1))
  ultimately have "unat (word_of_int (hash q smod ht_len H) :: u32) = nat (hash q mod ht_len H)"
    by (simp add: unat_eq_nat_uint uint_word_of_int)
  then show "ht_idx H q = Some (ht_slot H q)" "ht_slot H q < length (ht_tree H)"
    "ht_slot H q < length (ht_lock H)"
    using m len by (auto simp: ht_idx_def ht_slot_def)
qed

lemma slot_tree:
  assumes "ht_ok key valid hash cmp H" and "i < length (ht_tree H)"
  shows "rbt_ok key valid (ht_tree H ! i) (rbt_items (ht_tree H ! i))" "cmp_cb (ht_tree H ! i) = cmp"
    "\<forall>x \<in> set (rbt_items (ht_tree H ! i)). valid x \<and> ht_slot H x = i"
    "inj_on key (set (rbt_items (ht_tree H ! i)))"
proof -
  show ok: "rbt_ok key valid (ht_tree H ! i) (rbt_items (ht_tree H ! i))" "cmp_cb (ht_tree H ! i) = cmp"
    using assms by (auto simp: ht_ok_def)
  show "\<forall>x \<in> set (rbt_items (ht_tree H ! i)). valid x \<and> ht_slot H x = i"
    using assms ok(1) by (auto simp: ht_ok_def rbt_ok_def)
  show "inj_on key (set (rbt_items (ht_tree H ! i)))"
    using ok(1) unfolding rbt_ok_def by (metis distinct_map strict_sorted_iff)
qed

lemma items_slot:
  assumes ok: "ht_ok key valid hash cmp H"
  shows "x \<in> set (ht_items H) \<longleftrightarrow> (\<exists>i < length (ht_tree H). x \<in> set (rbt_items (ht_tree H ! i)))"
  by (auto simp: ht_items_def in_set_conv_nth[of _ "ht_tree H"] intro: nth_mem)

lemma items_inj:
  assumes ok: "ht_ok key valid hash cmp H"
  shows "inj_on key (set (ht_items H))"
proof (rule inj_onI)
  fix x y assume a: "x \<in> set (ht_items H)" "y \<in> set (ht_items H)" "key x = key y"
  obtain i j where ij: "i < length (ht_tree H)" "x \<in> set (rbt_items (ht_tree H ! i))"
      "j < length (ht_tree H)" "y \<in> set (rbt_items (ht_tree H ! j))"
    using a items_slot[OF ok] by auto
  have v: "valid x" "valid y" "ht_slot H x = i" "ht_slot H y = j"
    using slot_tree(3)[OF ok ij(1)] slot_tree(3)[OF ok ij(3)] ij by auto
  then have "i = j" using hash_key[OF v(1,2) a(3)] ok by (simp add: ht_slot_def ht_ok_def)
  then show "x = y" using slot_tree(4)[OF ok ij(1)] ij a(3) by (auto dest: inj_onD)
qed

lemma items_distinct:
  assumes ok: "ht_ok key valid hash cmp H" shows "distinct (ht_items H)"
  unfolding ht_items_def
proof (rule distinct_buckets[where slot = "ht_slot H" and n = 0])
  fix i assume i: "i < length (ht_tree H)"
  have "distinct (map key (rbt_items (ht_tree H ! i)))"
    using slot_tree(1)[OF ok i] unfolding rbt_ok_def by (metis strict_sorted_iff)
  then show "distinct (rbt_items (ht_tree H ! i)) \<and>
      (\<forall>x \<in> set (rbt_items (ht_tree H ! i)). ht_slot H x = 0 + i)"
    using slot_tree(3)[OF ok i] by (simp add: distinct_map)
qed

lemma slot_same_key:
  "ht_ok key valid hash cmp H \<Longrightarrow> valid x \<Longrightarrow> valid q \<Longrightarrow> key x = key q \<Longrightarrow> ht_slot H x = ht_slot H q"
  using hash_key[of x q] by (simp add: ht_slot_def ht_ok_def)

lemma slot_find:
  assumes ok: "ht_ok key valid hash cmp H" and q: "valid q"
  shows "find (\<lambda>x. key x = key q) (rbt_items (ht_tree H ! ht_slot H q)) = ht_map key H (key q)"
proof (cases "find (\<lambda>x. key x = key q) (rbt_items (ht_tree H ! ht_slot H q))")
  case None
  have "key x \<noteq> key q" if "x \<in> set (ht_items H)" for x
  proof
    assume k: "key x = key q"
    obtain i where i: "i < length (ht_tree H)" "x \<in> set (rbt_items (ht_tree H ! i))"
      using \<open>x \<in> _\<close> items_slot[OF ok] by auto
    then have "ht_slot H q = i"
      using slot_tree(3)[OF ok i(1)] slot_same_key[OF ok _ q k] by auto
    then show False using None i(2) k by (auto simp: find_None_iff)
  qed
  then have "ht_map key H (key q) = None" by (auto simp: ht_map_def find_None_iff)
  then show ?thesis using None by simp
next
  case (Some x)
  then have x: "x \<in> set (rbt_items (ht_tree H ! ht_slot H q))" "key x = key q"
    by (auto simp: find_Some_iff)
  then have "x \<in> set (ht_items H)" using items_slot[OF ok] idx_ok(2)[OF ok q] by auto
  then have "ht_map key H (key q) = Some x"
    unfolding ht_map_def using x(2) items_inj[OF ok] by (simp add: find_key_Some)
  then show ?thesis using Some by simp
qed

text \<open>Replacing the tree of one slot.\<close>

lemma set_tree_ok:
  assumes ok: "ht_ok key valid hash cmp H" and i: "i < length (ht_tree H)"
    and T: "rbt_ok key valid T ys" "cmp_cb T = cmp" "\<forall>x \<in> set ys. ht_slot H x = i"
    and n: "n + of_nat (length (rbt_items (ht_tree H ! i))) = ht_total H + of_nat (length ys)"
  shows "ht_ok key valid hash cmp (H\<lparr>ht_tree := (ht_tree H)[i := T], ht_total := n\<rparr>)"
    "\<exists>as bs. ht_items H = as @ rbt_items (ht_tree H ! i) @ bs \<and>
       ht_items (H\<lparr>ht_tree := (ht_tree H)[i := T], ht_total := n\<rparr>) = as @ ys @ bs"
proof -
  let ?H = "H\<lparr>ht_tree := (ht_tree H)[i := T], ht_total := n\<rparr>"
  have y: "rbt_items T = ys" using T(1) by (rule rbt_items_eq)
  let ?as = "concat (map rbt_items (take i (ht_tree H)))"
  let ?bs = "concat (map rbt_items (drop (Suc i) (ht_tree H)))"
  have t: "ht_tree ?H = (ht_tree H)[i := T]" by simp
  have it: "ht_items H = ?as @ rbt_items (ht_tree H ! i) @ ?bs"
    unfolding ht_items_def by (rule concat_map_nth[OF i])
  have it': "ht_items ?H = ?as @ ys @ ?bs"
    unfolding ht_items_def t concat_map_update[OF i] y by (rule refl)
  show "\<exists>as bs. ht_items H = as @ rbt_items (ht_tree H ! i) @ bs \<and> ht_items ?H = as @ ys @ bs"
    using it it' by blast
  have tot: "ht_total H = of_nat (length (ht_items H))" using ok by (simp add: ht_ok_def)
  have "n + of_nat (length (rbt_items (ht_tree H ! i))) =
      of_nat (length (ht_items ?H)) + of_nat (length (rbt_items (ht_tree H ! i)))"
    unfolding n tot it it' by simp
  then have "n = of_nat (length (ht_items ?H))" by simp
  moreover have "rbt_ok key valid (ht_tree ?H ! j) (rbt_items (ht_tree ?H ! j)) \<and>
      cmp_cb (ht_tree ?H ! j) = cmp \<and> (\<forall>x \<in> set (rbt_items (ht_tree ?H ! j)). ht_slot ?H x = j)"
    if "j < length (ht_tree ?H)" for j
  proof (cases "j = i")
    case True
    then show ?thesis using i T y by (simp add: ht_slot_def)
  next
    case False
    have "j < length (ht_tree H)" using that by simp
    with slot_tree[OF ok this] False show ?thesis by (simp add: ht_slot_def)
  qed
  ultimately show "ht_ok key valid hash cmp ?H"
    using ok unfolding ht_ok_def by simp
qed

subsubsection \<open>Insertion\<close>

lemma insert_new:
  assumes ok: "ht_ok key valid hash cmp H" and q: "valid d"
    and free: "lock_free (ht_lock H ! ht_slot H d) m" and new: "ht_map key H (key d) = None"
  shows "\<exists>H'. hash_tab_insert H True d m = Some (RBT_OK, H') \<and> ht_ok key valid hash cmp H' \<and>
     ht_map key H' = (ht_map key H)(key d \<mapsto> d) \<and> ht_lock H' = ht_lock H \<and>
     ht_len H' = ht_len H \<and> ht_total H' = ht_total H + 1"
proof -
  let ?i = "ht_slot H d"
  note idx = idx_ok[OF ok q]
  note T = slot_tree[OF ok idx(2)]
  have new': "\<forall>x \<in> set (rbt_items (ht_tree H ! ?i)). key x \<noteq> key d"
    using slot_find[OF ok q] new by (auto simp: find_None_iff)
  obtain T' ys zs where T': "rbt_insert (ht_tree H ! ?i) True d = Some (RBT_OK, T')"
      "rbt_items (ht_tree H ! ?i) = ys @ zs" "rbt_ok key valid T' (ys @ d # zs)" "cmp_cb T' = cmp"
    using rbt_insert_new[OF T(1,2) q new'] by blast
  let ?H = "H\<lparr>ht_tree := (ht_tree H)[?i := T'], ht_total := ht_total H + 1\<rparr>"
  have s: "\<forall>x \<in> set (ys @ d # zs). ht_slot H x = ?i" using T(3) T'(2) by auto
  have n: "ht_total H + 1 + of_nat (length (rbt_items (ht_tree H ! ?i))) =
      ht_total H + of_nat (length (ys @ d # zs))" using T'(2) by simp
  note ok' = set_tree_ok[OF ok idx(2) T'(3,4) s n]
  have "set (ht_items ?H) = insert d (set (ht_items H))" using ok'(2) T'(2) by auto
  then have "ht_map key ?H = (ht_map key H)(key d \<mapsto> d)"
    unfolding ht_map_def using items_inj[OF ok'(1)] by (rule find_key_insert[rotated])
  moreover have "hash_tab_insert H True d m = Some (RBT_OK, ?H)"
    using idx T'(1) hash_tab_unlock_held[of ?i "ht_lock H" m "?H", OF _ free]
    by (simp add: hash_tab_insert_def hash_tab_lock_free[OF free] ht_set_tree_def ht_lock_swap)
  ultimately show ?thesis using ok'(1) by (intro exI[of _ ?H]) simp
qed

lemma insert_exists:
  assumes ok: "ht_ok key valid hash cmp H" and q: "valid d"
    and free: "lock_free (ht_lock H ! ht_slot H d) m" and old: "ht_map key H (key d) = Some e"
  shows "hash_tab_insert H alloc d m = Some (RBT_NODE_EXIST, H)"
proof -
  let ?i = "ht_slot H d"
  note idx = idx_ok[OF ok q]
  note T = slot_tree[OF ok idx(2)]
  have "\<exists>x \<in> set (rbt_items (ht_tree H ! ?i)). key x = key d"
    using slot_find[OF ok q] old by (auto simp: find_Some_iff)
  from rbt_insert_exists[OF T(1,2) q this] show ?thesis
    using idx hash_tab_unlock_held[of ?i "ht_lock H" m H, OF _ free]
    by (simp add: hash_tab_insert_def hash_tab_lock_free[OF free] ht_set_tree_def ht_lock_swap)
qed

lemma insert_nomem:
  assumes ok: "ht_ok key valid hash cmp H" and q: "valid d"
    and free: "lock_free (ht_lock H ! ht_slot H d) m" and new: "ht_map key H (key d) = None"
  shows "hash_tab_insert H False d m = Some (RBT_ERR, H)"
proof -
  let ?i = "ht_slot H d"
  note idx = idx_ok[OF ok q]
  note T = slot_tree[OF ok idx(2)]
  have "\<forall>x \<in> set (rbt_items (ht_tree H ! ?i)). key x \<noteq> key d"
    using slot_find[OF ok q] new by (auto simp: find_None_iff)
  from rbt_insert_nomem[OF T(1,2) q this] show ?thesis
    using idx hash_tab_unlock_held[of ?i "ht_lock H" m H, OF _ free]
    by (simp add: hash_tab_insert_def hash_tab_lock_free[OF free] ht_set_tree_def ht_lock_swap)
qed

subsubsection \<open>Lookup\<close>

lemma query_hit:
  assumes ok: "ht_ok key valid hash cmp H" and q: "valid q"
    and free: "lock_free (ht_lock H ! ht_slot H q) m" and hit: "ht_map key H (key q) = Some d"
  shows "hash_tab_query H q m = Some (Some d, ht_locked H q m)"
proof -
  note idx = idx_ok[OF ok q]
  note T = slot_tree[OF ok idx(2)]
  show ?thesis
    using idx rbt_query_ok[OF T(1,2) q] slot_find[OF ok q] hit
    by (simp add: hash_tab_query_def hash_tab_lock_free[OF free] ht_locked_def)
qed

lemma query_miss:
  assumes ok: "ht_ok key valid hash cmp H" and q: "valid q"
    and free: "lock_free (ht_lock H ! ht_slot H q) m" and miss: "ht_map key H (key q) = None"
  shows "hash_tab_query H q m = Some (None, H)"
proof -
  note idx = idx_ok[OF ok q]
  note T = slot_tree[OF ok idx(2)]
  show ?thesis
    using idx rbt_query_ok[OF T(1,2) q] slot_find[OF ok q] miss
      hash_tab_unlock_held[of "ht_slot H q" "ht_lock H" m H, OF _ free]
    by (simp add: hash_tab_query_def hash_tab_lock_free[OF free])
qed

lemma query_blocked:
  assumes ok: "ht_ok key valid hash cmp H" and q: "valid q"
    and busy: "\<not> lock_free (ht_lock H ! ht_slot H q) m"
  shows "hash_tab_query H q m = None" "hash_tab_delete H q m = None" "hash_tab_insert H alloc q m = None"
  using idx_ok[OF ok q] hash_tab_lock_busy[OF busy]
  by (simp_all add: hash_tab_query_def hash_tab_delete_def hash_tab_insert_def)

text \<open>A query and the unlock that ends it leave the table as it was.\<close>

lemma unlock_locked:
  assumes ok: "ht_ok key valid hash cmp H" and q: "valid q" "valid q'" "key q' = key q"
    and free: "lock_free (ht_lock H ! ht_slot H q) m"
  shows "hash_tab_unlock (ht_locked H q m) q' m = Some H"
proof -
  have "ht_ok key valid hash cmp (ht_locked H q m)" using ok by simp
  from idx_ok[OF this q(2)] have "ht_idx (ht_locked H q m) q' = Some (ht_slot H q)"
    using slot_same_key[OF ok q(2,1,3)] by (simp add: ht_slot_def ht_locked_def)
  then show ?thesis
    using hash_tab_unlock_held[of "ht_slot H q" "ht_lock H" m H, OF _ free] idx_ok[OF ok q(1)]
    by (simp add: hash_tab_unlock_def ht_locked_def)
qed

subsubsection \<open>Deletion and update\<close>

lemma delete_hit:
  assumes ok: "ht_ok key valid hash cmp H" and q: "valid q"
    and free: "lock_free (ht_lock H ! ht_slot H q) m" and hit: "ht_map key H (key q) = Some d"
  shows "\<exists>H'. hash_tab_delete H q m = Some (Some d, H') \<and> ht_ok key valid hash cmp H' \<and>
     ht_map key H' = (ht_map key H)(key q := None) \<and> ht_lock H' = ht_lock H \<and>
     ht_len H' = ht_len H \<and> ht_total H' = ht_total H - 1"
proof -
  let ?i = "ht_slot H q"
  note idx = idx_ok[OF ok q]
  note T = slot_tree[OF ok idx(2)]
  have hit': "find (\<lambda>x. key x = key q) (rbt_items (ht_tree H ! ?i)) = Some d"
    using slot_find[OF ok q] hit by simp
  then have k: "key d = key q" by (auto simp: find_Some_iff)
  obtain T' ys zs where T': "rbt_delete (ht_tree H ! ?i) q = Some (RBT_OK, Some d, T')"
      "rbt_items (ht_tree H ! ?i) = ys @ d # zs" "rbt_ok key valid T' (ys @ zs)" "cmp_cb T' = cmp"
    using rbt_delete_hit[OF T(1,2) q hit'] by blast
  let ?H = "H\<lparr>ht_tree := (ht_tree H)[?i := T'], ht_total := ht_total H - 1\<rparr>"
  have s: "\<forall>x \<in> set (ys @ zs). ht_slot H x = ?i" using T(3) T'(2) by auto
  have n: "ht_total H - 1 + of_nat (length (rbt_items (ht_tree H ! ?i))) =
      ht_total H + of_nat (length (ys @ zs))" using T'(2) by simp
  note ok' = set_tree_ok[OF ok idx(2) T'(3,4) s n]
  obtain as bs where it: "ht_items H = as @ (ys @ d # zs) @ bs" "ht_items ?H = as @ (ys @ zs) @ bs"
    using ok'(2) T'(2) by auto
  have "distinct (ht_items H)" using ok by (rule items_distinct)
  then have "set (ht_items H) = insert d (set (ht_items ?H))" "d \<notin> set (ht_items ?H)"
    unfolding it by auto
  then have "ht_map key ?H = (ht_map key H)(key d := None)"
    unfolding ht_map_def using items_inj[OF ok] by (intro find_key_delete)
  moreover have "hash_tab_delete H q m = Some (Some d, ?H)"
    using idx T'(1) hash_tab_unlock_held[of ?i "ht_lock H" m "?H", OF _ free]
    by (simp add: hash_tab_delete_def hash_tab_lock_free[OF free] ht_set_tree_def ht_lock_swap)
  ultimately show ?thesis using ok'(1) k by (intro exI[of _ ?H]) simp
qed

lemma delete_miss:
  assumes ok: "ht_ok key valid hash cmp H" and q: "valid q"
    and free: "lock_free (ht_lock H ! ht_slot H q) m" and miss: "ht_map key H (key q) = None"
  shows "hash_tab_delete H q m = Some (None, H)"
proof -
  note idx = idx_ok[OF ok q]
  note T = slot_tree[OF ok idx(2)]
  have "find (\<lambda>x. key x = key q) (rbt_items (ht_tree H ! ht_slot H q)) = None"
    using slot_find[OF ok q] miss by simp
  from rbt_delete_miss[OF T(1,2) q this] show ?thesis
    using idx hash_tab_unlock_held[of "ht_slot H q" "ht_lock H" m H, OF _ free]
    by (simp add: hash_tab_delete_def hash_tab_lock_free[OF free] ht_set_tree_def ht_lock_swap)
qed

lemma store_hit:
  assumes ok: "ht_ok key valid hash cmp H" and q: "valid q" and v: "valid v" "key v = key q"
    and hit: "ht_map key H (key q) = Some d"
  shows "\<exists>H'. hash_tab_store H q v = Some H' \<and> ht_ok key valid hash cmp H' \<and>
     ht_map key H' = (ht_map key H)(key q \<mapsto> v) \<and> ht_lock H' = ht_lock H \<and> ht_len H' = ht_len H \<and>
     ht_total H' = ht_total H"
proof -
  let ?i = "ht_slot H q"
  note idx = idx_ok[OF ok q]
  note T = slot_tree[OF ok idx(2)]
  have hit': "find (\<lambda>x. key x = key q) (rbt_items (ht_tree H ! ?i)) = Some d"
    using slot_find[OF ok q] hit by simp
  obtain T' ys zs where T': "rbt_store (ht_tree H ! ?i) q v = Some T'"
      "rbt_items (ht_tree H ! ?i) = ys @ d # zs" "rbt_ok key valid T' (ys @ v # zs)" "cmp_cb T' = cmp"
    using rbt_store_ok[OF T(1,2) q hit' v] by blast
  let ?H = "H\<lparr>ht_tree := (ht_tree H)[?i := T'], ht_total := ht_total H\<rparr>"
  have s: "\<forall>x \<in> set (ys @ v # zs). ht_slot H x = ?i"
    using T(3) T'(2) slot_same_key[OF ok v(1) q v(2)] by auto
  have n: "ht_total H + of_nat (length (rbt_items (ht_tree H ! ?i))) =
      ht_total H + of_nat (length (ys @ v # zs))" using T'(2) by simp
  note ok' = set_tree_ok[OF ok idx(2) T'(3,4) s n]
  obtain as bs where it: "ht_items H = as @ (ys @ d # zs) @ bs" "ht_items ?H = as @ (ys @ v # zs) @ bs"
    using ok'(2) T'(2) by auto
  have set: "set (ht_items H) = insert d (set (as @ ys @ zs @ bs))"
    "set (ht_items ?H) = insert v (set (as @ ys @ zs @ bs))" unfolding it by auto
  have "key d = key q" using hit' by (auto simp: find_Some_iff)
  then have "ht_map key ?H = (ht_map key H)(key q \<mapsto> v)"
    using find_key_insert[OF items_inj[OF ok] set(1)] find_key_insert[OF items_inj[OF ok'(1)] set(2)] v(2)
    by (simp add: ht_map_def)
  moreover have "hash_tab_store H q v = Some ?H"
    using idx T'(1) by (simp add: hash_tab_store_def ht_set_tree_def)
  ultimately show ?thesis using ok'(1) by (intro exI[of _ ?H]) simp
qed

text \<open>The unlock after the held table changed.\<close>

lemma unlock_after:
  assumes ok: "ht_ok key valid hash cmp H" and ok': "ht_ok key valid hash cmp H'"
    and q: "valid q" "valid q'" "key q' = key q"
    and free: "lock_free (ht_lock H ! ht_slot H q) m"
    and same: "ht_lock H' = ht_lock (ht_locked H q m)" "ht_len H' = ht_len H"
  shows "hash_tab_unlock H' q' m = Some (H'\<lparr>ht_lock := ht_lock H\<rparr>)"
proof -
  have "ht_slot H' q' = ht_slot H q"
    using hash_key[OF q(2,1,3)] ok ok' same(2) by (simp add: ht_slot_def ht_ok_def)
  with idx_ok(1)[OF ok' q(2)] have idx: "ht_idx H' q' = Some (ht_slot H q)" by simp
  have "H' = H'\<lparr>ht_lock := (ht_lock H)[ht_slot H q := lock_held (ht_lock H ! ht_slot H q) m]\<rparr>"
    using same(1) by (simp add: ht_locked_def)
  then have "hash_tab_unlock_idx H' (ht_slot H q) m = Some (H'\<lparr>ht_lock := ht_lock H\<rparr>)"
    using hash_tab_unlock_held[of "ht_slot H q" "ht_lock H" m H', OF _ free] idx_ok(3)[OF ok q(1)]
    by metis
  then show ?thesis using idx by (simp add: hash_tab_unlock_def)
qed

subsubsection \<open>Traversal\<close>

lemma trav_from:
  assumes ok: "ht_ok key valid hash cmp H" and n: "i + n = length (ht_tree H)"
    and small: "\<forall>t \<in> set (ht_tree H). length (rbt_items t) < 2 ^ 64"
    and free: "\<forall>lk \<in> set (ht_lock H). lock_free lk m"
  shows "hash_tab_trav_from n i H (\<lambda>_. True) proc args m =
     map_option (\<lambda>a. (a, H)) (trav_list proc (concat (map rbt_items (drop i (ht_tree H)))) args)"
  using n
proof (induction n arbitrary: i args)
  case 0
  then show ?case by simp
next
  case (Suc n)
  then have i: "i < length (ht_tree H)" by simp
  then have i': "i < length (ht_lock H)" using ok by (simp add: ht_ok_def)
  have fr: "lock_free (ht_lock H ! i) m" using free i' by simp
  have "rbt_trav (ht_tree H ! i) True proc args = trav_list proc (rbt_items (ht_tree H ! i)) args"
    using rbt_trav_ok[OF slot_tree(1)[OF ok i]] small i by simp
  then show ?case
    using Suc.IH[of "Suc i"] Suc.prems i hash_tab_unlock_held[OF i' fr, of H]
    by (simp add: hash_tab_lock_free[OF fr] Cons_nth_drop_Suc[symmetric] trav_list_append
        split: bind_split)
qed

lemma trav_ok:
  assumes ok: "ht_ok key valid hash cmp H" and small: "length (ht_items H) < 2 ^ 64"
    and free: "\<forall>lk \<in> set (ht_lock H). lock_free lk m"
  shows "hash_tab_trav H (\<lambda>_. True) proc args m =
     map_option (\<lambda>a. (a, H)) (trav_list proc (ht_items H) args)"
proof -
  have "length (rbt_items t) \<le> length (ht_items H)" if "t \<in> set (ht_tree H)" for t
    using that unfolding ht_items_def by (rule length_bucket)
  then have "\<forall>t \<in> set (ht_tree H). length (rbt_items t) < 2 ^ 64" using small by fastforce
  then show ?thesis
    using trav_from[OF ok, of 0 "length (ht_tree H)"] free ok
    by (simp add: hash_tab_trav_def ht_items_def ht_ok_def)
qed

subsubsection \<open>Destruction\<close>

lemma destroy_from:
  assumes ok: "ht_ok key valid hash cmp H" and n: "i + n = length (ht_tree H)"
    and small: "\<forall>t \<in> set (ht_tree H). length (rbt_items t) < 2 ^ 64"
    and free: "\<forall>lk \<in> set (ht_lock H). lock_free lk WRLOCK"
  shows "length ts = length (ht_tree H) \<Longrightarrow> drop i ts = drop i (ht_tree H) \<Longrightarrow>
     \<exists>ds. hash_tab_destroy_from n i (H\<lparr>ht_tree := ts\<rparr>) (\<lambda>_. True) = Some ds \<and>
       mset ds = mset (concat (map rbt_items (drop i (ht_tree H))))"
  using n
proof (induction n arbitrary: i ts)
  case 0
  then show ?case by simp
next
  case (Suc n)
  then have i: "i < length (ht_tree H)" by simp
  then have i': "i < length (ht_lock H)" using ok by (simp add: ht_ok_def)
  have fr: "lock_free (ht_lock H ! i) WRLOCK" using free i' by simp
  have ti: "ts ! i = ht_tree H ! i"
    using Suc.prems(1,2) i by (metis hd_drop_conv_nth)
  obtain ds T' where d: "rbt_destroy (ht_tree H ! i) True = Some (ds, T')"
      "mset ds = mset (rbt_items (ht_tree H ! i))"
    using rbt_destroy_ok[OF slot_tree(1)[OF ok i]] small i by (meson nth_mem)
  have "drop (Suc i) (ts[i := T']) = drop (Suc i) (ht_tree H)"
    using Suc.prems(1,2) i by (metis drop_Suc drop_update_cancel tl_drop lessI)
  then obtain rest where r: "hash_tab_destroy_from n (Suc i) (H\<lparr>ht_tree := ts[i := T']\<rparr>) (\<lambda>_. True) = Some rest"
      "mset rest = mset (concat (map rbt_items (drop (Suc i) (ht_tree H))))"
    using Suc.IH[of "ts[i := T']" "Suc i"] Suc.prems by auto
  have "hash_tab_destroy_from (Suc n) i (H\<lparr>ht_tree := ts\<rparr>) (\<lambda>_. True) = Some (ds @ rest)"
    using fr d(1) r(1) ti hash_tab_unlock_held[OF i' fr, of "H\<lparr>ht_tree := ts[i := T']\<rparr>"]
    by (simp add: hash_tab_lock_free ht_set_tree_def ht_lock_swap)
  then show ?case using d(2) r(2) i by (simp add: Cons_nth_drop_Suc[symmetric])
qed

lemma destroy_ok:
  assumes ok: "ht_ok key valid hash cmp H" and small: "length (ht_items H) < 2 ^ 64"
    and free: "ht_quiet H"
  shows "\<exists>ds. hash_tab_destroy H (\<lambda>_. True) = Some ds \<and> mset ds = mset (ht_items H)"
proof -
  have "length (rbt_items t) \<le> length (ht_items H)" if "t \<in> set (ht_tree H)" for t
    using that unfolding ht_items_def by (rule length_bucket)
  then have small': "\<forall>t \<in> set (ht_tree H). length (rbt_items t) < 2 ^ 64" using small by fastforce
  have fr: "\<forall>lk \<in> set (ht_lock H). lock_free lk WRLOCK" using free by (auto simp: ht_quiet_def)
  have "length (ht_tree H) = nat (ht_len H)" using ok by (simp add: ht_ok_def)
  then show ?thesis
    using destroy_from[OF ok _ small' fr, of 0 "length (ht_tree H)" "ht_tree H"]
    by (simp add: hash_tab_destroy_def ht_items_def)
qed

subsubsection \<open>Creation\<close>

lemma trees_ok:
  "hash_tab_trees n cmp al = Some (Some ts, al') \<Longrightarrow>
   length ts = n \<and> (\<forall>t \<in> set ts. rbt_ok key valid t [] \<and> cmp_cb t = cmp)"
proof (induction n arbitrary: al ts)
  case (Suc n)
  obtain t ts' al1 where "rbt_creat True True cmp = Some (Some t)"
      "hash_tab_trees n cmp al1 = Some (Some ts', al')" "ts = t # ts'"
    using Suc.prems
    by (auto simp: Let_def bind_Some_iff rbt_creat_def split: prod.splits option.splits if_splits)
  with Suc.IH[of al1 ts'] rbt_creat_ok[of cmp t key valid] show ?case by simp
qed simp

lemma creat_ok:
  assumes "hash_tab_creat len hash cmp al = Some (Some H, al')" and "0 < len" "len < 2 ^ 31"
  shows "ht_ok key valid hash cmp H" "ht_items H = []" "ht_quiet H" "ht_len H = len"
proof -
  obtain ts al1 where ts: "hash_tab_trees (nat len) cmp al1 = Some (Some ts, al')"
      "H = \<lparr>ht_len = len, ht_total = 0, ht_tree = ts,
         ht_lock = replicate (nat len) rwlock_init, ht_cmp = cmp, ht_hash = hash\<rparr>"
    using assms(1) by (auto simp: hash_tab_creat_def Let_def bind_Some_iff split: prod.splits if_splits)
  note t = trees_ok[OF ts(1)]
  then have it: "\<forall>t \<in> set ts. rbt_items t = []" using rbt_items_eq by blast
  then show items: "ht_items H = []" using ts(2) by (simp add: ht_items_def)
  show "ht_quiet H" "ht_len H = len" using ts(2) by (simp_all add: ht_quiet_def)
  show "ht_ok key valid hash cmp H"
    unfolding ht_ok_def items using t it ts(2) assms(2,3) by simp
qed

end

lemma trees_success: "\<exists>ts. hash_tab_trees n cmp [] = Some (Some ts, [])"
  by (induction n) (auto simp: rbt_creat_def Let_def)

lemma creat_success: "\<exists>H. hash_tab_creat len hash cmp [] = Some (Some H, [])"
  using trees_success[of "nat len" cmp] by (auto simp: hash_tab_creat_def Let_def)

end
