(* ===== verification/Hash_Quiet.thy ===== *)
theory Hash_Quiet
  imports Hash_Tab
begin

text \<open>
  Rules to run straight-line client code on tables.  Between two calls of a client no slot is locked
  (\<open>ht_quiet\<close>); \<open>ht_put\<close>, \<open>ht_del\<close> and \<open>ht_upd\<close> name the tables that an insertion, a deletion and a
  store leave, so that each operation of the client is a rewrite.
\<close>

definition tab_ok :: "('a \<Rightarrow> 'k::linorder) \<Rightarrow> ('a \<Rightarrow> bool) \<Rightarrow> ('a \<Rightarrow> int) \<Rightarrow> ('a \<Rightarrow> 'a \<Rightarrow> int) \<Rightarrow>
    'a hash_tab \<Rightarrow> bool" where
  "tab_ok key valid hash cmp H \<longleftrightarrow> ht_ok key valid hash cmp H \<and> ht_quiet H"

definition ht_put :: "'a hash_tab \<Rightarrow> 'a \<Rightarrow> 'a hash_tab" where
  "ht_put H d = snd (the (hash_tab_insert H True d NONLOCK))"

definition ht_del :: "'a hash_tab \<Rightarrow> 'a \<Rightarrow> 'a hash_tab" where
  "ht_del H q = snd (the (hash_tab_delete H q NONLOCK))"

definition ht_upd :: "'a hash_tab \<Rightarrow> 'a \<Rightarrow> 'a \<Rightarrow> 'a hash_tab" where
  "ht_upd H q v = the (hash_tab_store H q v)"

text \<open>Insertion with the outcome of the node's allocation, which is made for a new key only.\<close>

definition hash_tab_insert_al ::
    "'a hash_tab \<Rightarrow> allocs \<Rightarrow> 'a \<Rightarrow> lock_e \<Rightarrow> (rbt_ret \<times> 'a hash_tab \<times> allocs) option" where
  "hash_tab_insert_al htab al d lock =
     (let (a, al') = alloc_take al in do {
        (ret, htab) \<leftarrow> hash_tab_insert htab a d lock;
        Some (ret, htab, if ret = RBT_NODE_EXIST then al else al') })"

text \<open>Without locking, the operations do not see the locks.\<close>

lemma ht_idx_lock: "length L = length (ht_lock H) \<Longrightarrow> ht_idx (H\<lparr>ht_lock := L\<rparr>) q = ht_idx H q"
  by (simp add: ht_idx_def)

lemma insert_relock:
  "length L = length (ht_lock H) \<Longrightarrow> hash_tab_insert (H\<lparr>ht_lock := L\<rparr>) a d NONLOCK =
     map_option (\<lambda>(r, H'). (r, H'\<lparr>ht_lock := L\<rparr>)) (hash_tab_insert H a d NONLOCK)"
  by (auto simp: hash_tab_insert_def ht_idx_lock hash_tab_lock_def hash_tab_unlock_idx_def
      ht_set_tree_def ht_lock_swap Let_def split: bind_split)

lemma delete_relock:
  "length L = length (ht_lock H) \<Longrightarrow> hash_tab_delete (H\<lparr>ht_lock := L\<rparr>) q NONLOCK =
     map_option (\<lambda>(r, H'). (r, H'\<lparr>ht_lock := L\<rparr>)) (hash_tab_delete H q NONLOCK)"
  by (auto simp: hash_tab_delete_def ht_idx_lock hash_tab_lock_def hash_tab_unlock_idx_def
      ht_set_tree_def ht_lock_swap Let_def split: bind_split)

lemma store_relock:
  "length L = length (ht_lock H) \<Longrightarrow> hash_tab_store (H\<lparr>ht_lock := L\<rparr>) q v =
     map_option (\<lambda>H'. H'\<lparr>ht_lock := L\<rparr>) (hash_tab_store H q v)"
  by (auto simp: hash_tab_store_def ht_idx_lock ht_set_tree_def ht_lock_swap split: bind_split)

context hash_callbacks
begin

abbreviation ok :: "'a hash_tab \<Rightarrow> bool" where
  "ok H \<equiv> tab_ok key valid hash cmp H"

lemma tab_free: "ok H \<Longrightarrow> valid q \<Longrightarrow> lock_free (ht_lock H ! ht_slot H q) m"
  unfolding tab_ok_def using ht_quiet_free idx_ok(3) by blast

lemma insert_mode:
  assumes "ht_ok key valid hash cmp H" and "valid d" and fr: "lock_free (ht_lock H ! ht_slot H d) m"
  shows "hash_tab_insert H a d m = hash_tab_insert H a d NONLOCK"
proof -
  note idx = idx_ok[OF assms(1,2)]
  show ?thesis
  proof (cases "rbt_insert (ht_tree H ! ht_slot H d) a d")
    case None
    then show ?thesis using idx
      by (simp add: hash_tab_insert_def hash_tab_lock_free[OF fr] hash_tab_lock_def[of _ _ NONLOCK])
  next
    case (Some rt)
    obtain r t where rt: "rt = (r, t)" by (cases rt)
    show ?thesis
      using idx Some rt
      by (simp add: hash_tab_insert_def hash_tab_lock_free[OF fr] hash_tab_lock_def[of _ _ NONLOCK]
          hash_tab_unlock_idx_def[of _ _ NONLOCK] ht_set_tree_def ht_lock_swap Let_def
          hash_tab_unlock_held[OF idx(3) fr])
  qed
qed

lemma delete_mode:
  assumes "ht_ok key valid hash cmp H" and "valid d" and fr: "lock_free (ht_lock H ! ht_slot H d) m"
  shows "hash_tab_delete H d m = hash_tab_delete H d NONLOCK"
proof -
  note idx = idx_ok[OF assms(1,2)]
  show ?thesis
  proof (cases "rbt_delete (ht_tree H ! ht_slot H d) d")
    case None
    then show ?thesis using idx
      by (simp add: hash_tab_delete_def hash_tab_lock_free[OF fr] hash_tab_lock_def[of _ _ NONLOCK])
  next
    case (Some rt)
    obtain r e t where rt: "rt = (r, e, t)" by (cases rt)
    show ?thesis
      using idx Some rt
      by (simp add: hash_tab_delete_def hash_tab_lock_free[OF fr] hash_tab_lock_def[of _ _ NONLOCK]
          hash_tab_unlock_idx_def[of _ _ NONLOCK] ht_set_tree_def ht_lock_swap Let_def
          hash_tab_unlock_held[OF idx(3) fr])
  qed
qed

subsection \<open>Lookup\<close>

lemma query_some:
  "ok H \<Longrightarrow> valid q \<Longrightarrow> ht_map key H (key q) = Some d \<Longrightarrow>
   hash_tab_query H q m = Some (Some d, ht_locked H q m)"
  using query_hit tab_free by (simp add: tab_ok_def)

lemma query_none:
  "ok H \<Longrightarrow> valid q \<Longrightarrow> ht_map key H (key q) = None \<Longrightarrow> hash_tab_query H q m = Some (None, H)"
  using query_miss tab_free by (simp add: tab_ok_def)

lemma unlock_ok:
  "ok H \<Longrightarrow> valid q \<Longrightarrow> valid q' \<Longrightarrow> key q' = key q \<Longrightarrow>
   hash_tab_unlock (ht_locked H q m) q' m = Some H"
  using unlock_locked tab_free by (simp add: tab_ok_def)

text \<open>Releasing a lock that is not held.\<close>

lemma unlock_quiet:
  assumes "ok H" and "valid q" and "m \<noteq> NONLOCK" shows "hash_tab_unlock H q m = None"
proof -
  have ht: "ht_ok key valid hash cmp H" "ht_quiet H" using assms(1) by (auto simp: tab_ok_def)
  have "ht_lock H ! ht_slot H q = rwlock_init"
    using ht(2) idx_ok(3)[OF ht(1) assms(2)] by (auto simp: ht_quiet_def)
  then show ?thesis
    using assms(3) idx_ok(1)[OF ht(1) assms(2)]
    by (cases m) (simp_all add: hash_tab_unlock_def hash_tab_unlock_idx_def rwlock_unlock_def rwlock_init_def)
qed

text \<open>Writing to a slot that is held blocks.\<close>

lemma held_blocks:
  assumes "ok H" and q: "valid q" and m: "m \<noteq> NONLOCK"
  shows "hash_tab_delete (ht_locked H q m) q WRLOCK = None"
proof (rule query_blocked(2)[OF _ q])
  have ht: "ht_ok key valid hash cmp H" "ht_quiet H" using assms(1) by (auto simp: tab_ok_def)
  show "ht_ok key valid hash cmp (ht_locked H q m)" using ht(1) by simp
  have "ht_lock H ! ht_slot H q = rwlock_init"
    using ht(2) idx_ok(3)[OF ht(1) q] by (auto simp: ht_quiet_def)
  then show "\<not> lock_free (ht_lock (ht_locked H q m) ! ht_slot (ht_locked H q m) q) WRLOCK"
    using m idx_ok(3)[OF ht(1) q]
    by (cases m) (simp_all add: ht_locked_def ht_slot_def lock_free_def lock_held_def rwlock_init_def)
qed

subsection \<open>Insertion\<close>

lemma put:
  assumes "ok H" and "valid d" and "ht_map key H (key d) = None"
  shows "hash_tab_insert H True d m = Some (RBT_OK, ht_put H d)" "ok (ht_put H d)"
    "ht_map key (ht_put H d) = (ht_map key H)(key d \<mapsto> d)" "ht_len (ht_put H d) = ht_len H"
    "ht_total (ht_put H d) = ht_total H + 1" "ht_lock (ht_put H d) = ht_lock H"
proof -
  have ht: "ht_ok key valid hash cmp H" "ht_quiet H" using assms(1) by (auto simp: tab_ok_def)
  obtain H' where H': "hash_tab_insert H True d NONLOCK = Some (RBT_OK, H')"
      "ht_ok key valid hash cmp H'" "ht_map key H' = (ht_map key H)(key d \<mapsto> d)"
      "ht_lock H' = ht_lock H" "ht_len H' = ht_len H" "ht_total H' = ht_total H + 1"
    using insert_new[OF ht(1) assms(2) tab_free[OF assms(1,2)] assms(3)] by blast
  then have [simp]: "ht_put H d = H'" by (simp add: ht_put_def)
  show "hash_tab_insert H True d m = Some (RBT_OK, ht_put H d)"
    by (subst insert_mode[OF ht(1) assms(2) tab_free[OF assms(1,2)]]) (simp add: H'(1))
  show "ok (ht_put H d)" using H'(2,4) ht(2) by (simp add: tab_ok_def ht_quiet_def)
  show "ht_map key (ht_put H d) = (ht_map key H)(key d \<mapsto> d)"
    "ht_len (ht_put H d) = ht_len H"
    "ht_total (ht_put H d) = ht_total H + 1"
    "ht_lock (ht_put H d) = ht_lock H"
    using H' by simp_all
qed

lemma put_old:
  "ok H \<Longrightarrow> valid d \<Longrightarrow> ht_map key H (key d) = Some e \<Longrightarrow>
   hash_tab_insert H a d m = Some (RBT_NODE_EXIST, H)"
  using insert_exists tab_free by (simp add: tab_ok_def)

lemma put_nomem:
  "ok H \<Longrightarrow> valid d \<Longrightarrow> ht_map key H (key d) = None \<Longrightarrow>
   hash_tab_insert H False d m = Some (RBT_ERR, H)"
  using insert_nomem tab_free by (simp add: tab_ok_def)

subsection \<open>Deletion\<close>

lemma del:
  assumes "ok H" and "valid q" and "ht_map key H (key q) = Some d"
  shows "hash_tab_delete H q m = Some (Some d, ht_del H q)" "ok (ht_del H q)"
    "ht_map key (ht_del H q) = (ht_map key H)(key q := None)" "ht_len (ht_del H q) = ht_len H"
    "ht_total (ht_del H q) = ht_total H - 1" "ht_lock (ht_del H q) = ht_lock H"
proof -
  have ht: "ht_ok key valid hash cmp H" "ht_quiet H" using assms(1) by (auto simp: tab_ok_def)
  obtain H' where H': "hash_tab_delete H q NONLOCK = Some (Some d, H')"
      "ht_ok key valid hash cmp H'" "ht_map key H' = (ht_map key H)(key q := None)"
      "ht_lock H' = ht_lock H" "ht_len H' = ht_len H" "ht_total H' = ht_total H - 1"
    using delete_hit[OF ht(1) assms(2) tab_free[OF assms(1,2)] assms(3)] by blast
  then have [simp]: "ht_del H q = H'" by (simp add: ht_del_def)
  show "hash_tab_delete H q m = Some (Some d, ht_del H q)"
    by (subst delete_mode[OF ht(1) assms(2) tab_free[OF assms(1,2)]]) (simp add: H'(1))
  show "ok (ht_del H q)" using H'(2,4) ht(2) by (simp add: tab_ok_def ht_quiet_def)
  show "ht_map key (ht_del H q) = (ht_map key H)(key q := None)"
    "ht_len (ht_del H q) = ht_len H"
    "ht_total (ht_del H q) = ht_total H - 1"
    "ht_lock (ht_del H q) = ht_lock H"
    using H' by simp_all
qed

lemma del_none:
  "ok H \<Longrightarrow> valid q \<Longrightarrow> ht_map key H (key q) = None \<Longrightarrow> hash_tab_delete H q m = Some (None, H)"
  using delete_miss tab_free by (simp add: tab_ok_def)

subsection \<open>Update\<close>

lemma upd:
  assumes "ok H" and "valid q" and "ht_map key H (key q) = Some d" and "valid v" and "key v = key q"
  shows "hash_tab_store H q v = Some (ht_upd H q v)" "ok (ht_upd H q v)"
    "ht_map key (ht_upd H q v) = (ht_map key H)(key q \<mapsto> v)" "ht_len (ht_upd H q v) = ht_len H"
    "ht_total (ht_upd H q v) = ht_total H" "ht_lock (ht_upd H q v) = ht_lock H"
proof -
  have ht: "ht_ok key valid hash cmp H" "ht_quiet H" using assms(1) by (auto simp: tab_ok_def)
  obtain H' where H': "hash_tab_store H q v = Some H'"
      "ht_ok key valid hash cmp H'" "ht_map key H' = (ht_map key H)(key q \<mapsto> v)"
      "ht_lock H' = ht_lock H" "ht_len H' = ht_len H" "ht_total H' = ht_total H"
    using store_hit[OF ht(1) assms(2,4,5,3)] by blast
  then have [simp]: "ht_upd H q v = H'" by (simp add: ht_upd_def)
  show "hash_tab_store H q v = Some (ht_upd H q v)" using H'(1) by simp
  show "ok (ht_upd H q v)" using H'(2,4) ht(2) by (simp add: tab_ok_def ht_quiet_def)
  show "ht_map key (ht_upd H q v) = (ht_map key H)(key q \<mapsto> v)"
    "ht_len (ht_upd H q v) = ht_len H"
    "ht_total (ht_upd H q v) = ht_total H"
    "ht_lock (ht_upd H q v) = ht_lock H"
    using H' by simp_all
qed

text \<open>The same while the slot is held.\<close>

lemma locked_as:
  assumes "ht_lock H' = ht_lock H" "ht_len H' = ht_len H" "ht_hash H' = ht_hash H"
  shows "H'\<lparr>ht_lock := (ht_lock H)[ht_slot H q := lock_held (ht_lock H ! ht_slot H q) m]\<rparr> =
     ht_locked H' q m"
  using assms by (simp add: ht_locked_def ht_slot_def)

lemma same_hash: "ok H \<Longrightarrow> ok H' \<Longrightarrow> ht_hash H' = ht_hash H"
  by (simp add: tab_ok_def ht_ok_def)

lemma upd_locked:
  assumes "ok H" and "valid q" and "ht_map key H (key q) = Some d" and "valid v" and "key v = key q"
  shows "hash_tab_store (ht_locked H q m) q v = Some (ht_locked (ht_upd H q v) q m)"
proof -
  have "hash_tab_store (ht_locked H q m) q v = map_option
      (\<lambda>H'. H'\<lparr>ht_lock := (ht_lock H)[ht_slot H q := lock_held (ht_lock H ! ht_slot H q) m]\<rparr>)
      (hash_tab_store H q v)"
    unfolding ht_locked_def by (rule store_relock) simp
  then show ?thesis
    unfolding upd(1)[OF assms] option.map
    by (simp only: locked_as[OF upd(6,4)[OF assms] same_hash[OF assms(1) upd(2)[OF assms]]])
qed

lemma del_locked:
  assumes "ok H" and "valid q" and "ht_map key H (key q) = Some d"
  shows "hash_tab_delete (ht_locked H q m) q NONLOCK = Some (Some d, ht_locked (ht_del H q) q m)"
proof -
  have "hash_tab_delete (ht_locked H q m) q NONLOCK = map_option
      (\<lambda>(d, H'). (d, H'\<lparr>ht_lock := (ht_lock H)[ht_slot H q := lock_held (ht_lock H ! ht_slot H q) m]\<rparr>))
      (hash_tab_delete H q NONLOCK)"
    unfolding ht_locked_def by (rule delete_relock) simp
  then show ?thesis
    unfolding del(1)[OF assms] option.map prod.case
    by (simp only: locked_as[OF del(6,4)[OF assms] same_hash[OF assms(1) del(2)[OF assms]]])
qed

lemma put_locked:
  assumes "ok H" and "valid q" and "ht_map key H (key q) = None" and "valid d" and "key d = key q"
  shows "hash_tab_insert (ht_locked H q m) True d NONLOCK = Some (RBT_OK, ht_locked (ht_put H d) q m)"
    "hash_tab_insert (ht_locked H q m) False d NONLOCK = Some (RBT_ERR, ht_locked H q m)"
proof -
  note P = put[OF assms(1,4) assms(3)[folded assms(5)]]
  have ins: "hash_tab_insert (ht_locked H q m) a d NONLOCK = map_option
      (\<lambda>(r, H'). (r, H'\<lparr>ht_lock := (ht_lock H)[ht_slot H q := lock_held (ht_lock H ! ht_slot H q) m]\<rparr>))
      (hash_tab_insert H a d NONLOCK)" for a
    unfolding ht_locked_def by (rule insert_relock) simp
  show "hash_tab_insert (ht_locked H q m) True d NONLOCK = Some (RBT_OK, ht_locked (ht_put H d) q m)"
    unfolding ins P(1) option.map prod.case
    by (simp only: locked_as[OF P(6,4) same_hash[OF assms(1) P(2)]])
  show "hash_tab_insert (ht_locked H q m) False d NONLOCK = Some (RBT_ERR, ht_locked H q m)"
    unfolding ins put_nomem[OF assms(1,4) assms(3)[folded assms(5)]] option.map prod.case
    by (simp add: ht_locked_def)
qed

subsection \<open>Insertion with an outcome of the allocation\<close>

lemma put_al:
  "ok H \<Longrightarrow> valid d \<Longrightarrow> ht_map key H (key d) = None \<Longrightarrow>
   hash_tab_insert_al H al d m =
     (if fst (alloc_take al) then Some (RBT_OK, ht_put H d, snd (alloc_take al))
      else Some (RBT_ERR, H, snd (alloc_take al)))"
  by (cases "alloc_take al"; cases "fst (alloc_take al)")
    (simp_all add: hash_tab_insert_al_def put(1) put_nomem)

lemma put_al_old:
  "ok H \<Longrightarrow> valid d \<Longrightarrow> ht_map key H (key d) = Some e \<Longrightarrow>
   hash_tab_insert_al H al d m = Some (RBT_NODE_EXIST, H, al)"
  by (cases "alloc_take al") (simp add: hash_tab_insert_al_def put_old)

subsection \<open>Creation and destruction\<close>

lemma creat_tab:
  assumes "hash_tab_creat len hash cmp al = Some (Some H, al')" and "0 < len" "len < 2 ^ 31"
  shows "ok H" "ht_map key H = Map.empty" "ht_len H = len" "ht_total H = 0"
  using creat_ok[OF assms] by (auto simp: tab_ok_def ht_map_def ht_ok_def)

lemma creat_tab_success:
  assumes "0 < len" "len < 2 ^ 31"
  shows "\<exists>H. hash_tab_creat len hash cmp [] = Some (Some H, []) \<and> ok H \<and>
     ht_map key H = Map.empty \<and> ht_len H = len \<and> ht_total H = 0"
  using creat_success[of len hash cmp] creat_tab[OF _ assms] by blast

lemma items_bound:
  assumes "ok H" and "finite (key ` Collect valid)"
  shows "length (ht_items H) \<le> card (key ` Collect valid)"
proof -
  have ht: "ht_ok key valid hash cmp H" using assms(1) by (simp add: tab_ok_def)
  have v: "set (ht_items H) \<subseteq> Collect valid"
    using items_slot[OF ht] slot_tree(3)[OF ht] by auto
  have "length (ht_items H) = card (key ` set (ht_items H))"
    using items_distinct[OF ht] items_inj[OF ht] by (simp add: card_image distinct_card)
  also have "\<dots> \<le> card (key ` Collect valid)" using assms(2) v by (intro card_mono) auto
  finally show ?thesis .
qed

lemma destroy_tab:
  assumes "ok H" and "length (ht_items H) < 2 ^ 64"
  shows "\<exists>ds. hash_tab_destroy H (\<lambda>_. True) = Some ds \<and> mset ds = mset (ht_items H)"
  using destroy_ok[of H] assms by (simp add: tab_ok_def)

lemma trav_tab:
  assumes "ok H" and "length (ht_items H) < 2 ^ 64"
  shows "hash_tab_trav H (\<lambda>_. True) proc args m = map_option (\<lambda>a. (a, H)) (trav_list proc (ht_items H) args)"
proof (rule trav_ok)
  show "ht_ok key valid hash cmp H" using assms(1) by (simp add: tab_ok_def)
  show "\<forall>lk \<in> set (ht_lock H). lock_free lk m" using assms(1) by (auto simp: tab_ok_def ht_quiet_def)
qed (rule assms(2))

lemma items_map:
  assumes "ok H" shows "x \<in> set (ht_items H) \<longleftrightarrow> ht_map key H (key x) = Some x"
  using items_inj[of H] assms by (simp add: tab_ok_def ht_map_def find_key_Some)

lemma map_key: "ht_map key H k = Some x \<Longrightarrow> key x = k"
  by (auto simp: ht_map_def find_Some_iff)

lemma map_valid: "ok H \<Longrightarrow> ht_map key H k = Some x \<Longrightarrow> valid x"
proof -
  assume H: "ok H" and m: "ht_map key H k = Some x"
  have ht: "ht_ok key valid hash cmp H" using H by (simp add: tab_ok_def)
  have "x \<in> set (ht_items H)" using m by (auto simp: ht_map_def find_Some_iff)
  then show "valid x" using items_slot[OF ht] slot_tree(3)[OF ht] by auto
qed

end

end
