(* ===== verification/Chat_Data.thy ===== *)
theory Chat_Data
  imports Hash_Quiet
begin

text \<open>
  The data of the chat module (\<open>src/clang/incl/chat/chat.h\<close>) and the callbacks its hash tables
  are created with (\<open>chat.c\<close>, \<open>chat_tab.c\<close>).  Each pair of callbacks is shown to keep the
  contract \<open>hash_callbacks\<close> of the tables.  An object is a value in the one table that owns it; a
  table inside an object is a field of it.
\<close>

subsection \<open>Objects\<close>

record chat_sub_item =
  sub_cmd :: u16

record chat_room_item =
  ri_rid :: u64
  ri_gid :: u32

record chat_session =
  se_sid :: u64
  se_cid :: u64
  se_room :: "chat_room_item hash_tab"
  se_sub :: "chat_sub_item hash_tab"

record chat_sid2cid_item =
  sc_sid :: u64
  sc_cid :: u64

record chat_group =
  gr_gid :: u16
  gr_sid_num :: u64
  gr_sid_set :: "chat_sid2cid_item hash_tab"

record chat_room =
  rm_rid :: u64
  rm_sid_num :: u64
  rm_grp_num :: u32
  rm_create_tm :: u64
  rm_groups :: "chat_group hash_tab"

text \<open>
  \<open>chat_tab_t\<close>; \<open>ct_allocs\<close> holds the outcomes of the coming \<open>calloc\<close> calls and \<open>ct_now\<close> is the
  clock that \<open>time(NULL)\<close> reads.
\<close>

record chat_tab =
  ct_rooms :: "chat_room hash_tab"
  ct_sessions :: "chat_session hash_tab"
  ct_sid2cids :: "chat_sid2cid_item hash_tab"
  ct_allocs :: allocs
  ct_now :: u64

text \<open>
  A key object lives on the stack with only its key fields set.  The table field of such an object
  is never read: it is a table without slots.
\<close>

definition no_tab :: "'a hash_tab" where
  "no_tab = \<lparr>ht_len = 0, ht_total = 0, ht_tree = [], ht_lock = [], ht_cmp = (\<lambda>_ _. 0),
     ht_hash = (\<lambda>_. 0)\<rparr>"

definition room_key :: "u64 \<Rightarrow> chat_room" where
  "room_key rid = \<lparr>rm_rid = rid, rm_sid_num = 0, rm_grp_num = 0, rm_create_tm = 0, rm_groups = no_tab\<rparr>"

definition session_key :: "u64 \<Rightarrow> u64 \<Rightarrow> chat_session" where
  "session_key sid cid = \<lparr>se_sid = sid, se_cid = cid, se_room = no_tab, se_sub = no_tab\<rparr>"

definition sid_key :: "u64 \<Rightarrow> chat_sid2cid_item" where
  "sid_key sid = \<lparr>sc_sid = sid, sc_cid = 0\<rparr>"

text \<open>\<open>key.gid = gid\<close> assigns a \<open>uint32_t\<close> to a \<open>uint16_t\<close>.\<close>

definition group_key :: "u32 \<Rightarrow> chat_group" where
  "group_key gid = \<lparr>gr_gid = ucast gid, gr_sid_num = 0, gr_sid_set = no_tab\<rparr>"

definition room_item_key :: "u64 \<Rightarrow> chat_room_item" where
  "room_item_key rid = \<lparr>ri_rid = rid, ri_gid = 0\<rparr>"

subsection \<open>Hash and comparison callbacks\<close>

text \<open>
  The hash callbacks return \<open>uint64_t\<close> and are called through a pointer to a function that returns
  \<open>int64_t\<close>; the differences of the comparison callbacks wrap and are then read as signed.
\<close>

definition chat_room_hash_cb :: "chat_room \<Rightarrow> int" where
  "chat_room_hash_cb r = sint (rm_rid r)"

definition chat_room_cmp_cb :: "chat_room \<Rightarrow> chat_room \<Rightarrow> int" where
  "chat_room_cmp_cb r1 r2 = sint (rm_rid r1 - rm_rid r2)"

definition chat_session_hash_cb :: "chat_session \<Rightarrow> int" where
  "chat_session_hash_cb s = sint (se_sid s)"

definition chat_session_cmp_cb :: "chat_session \<Rightarrow> chat_session \<Rightarrow> int" where
  "chat_session_cmp_cb s1 s2 =
     (let diff = sint (se_sid s1 - se_sid s2) in
      if 0 = diff then sint (se_cid s1 - se_cid s2) else diff)"

definition chat_sid2cid_hash_cb :: "chat_sid2cid_item \<Rightarrow> int" where
  "chat_sid2cid_hash_cb item = sint (sc_sid item)"

definition chat_sid2cid_cmp_cb :: "chat_sid2cid_item \<Rightarrow> chat_sid2cid_item \<Rightarrow> int" where
  "chat_sid2cid_cmp_cb item1 item2 = sint (sc_sid item1 - sc_sid item2)"

text \<open>The set of a group is keyed by sid and cid together.\<close>

definition chat_sid_hash_cb :: "chat_sid2cid_item \<Rightarrow> int" where
  "chat_sid_hash_cb item = sint (sc_sid item)"

definition chat_sid_cmp_cb :: "chat_sid2cid_item \<Rightarrow> chat_sid2cid_item \<Rightarrow> int" where
  "chat_sid_cmp_cb item1 item2 =
     (let diff = sint (sc_sid item1 - sc_sid item2) in
      if 0 \<noteq> diff then diff else sint (sc_cid item1 - sc_cid item2))"

text \<open>\<open>uint16_t\<close> operands are promoted to \<open>int\<close>: this difference does not wrap.\<close>

definition chat_group_hash_cb :: "chat_group \<Rightarrow> int" where
  "chat_group_hash_cb g = uint (gr_gid g)"

definition chat_group_cmp_cb :: "chat_group \<Rightarrow> chat_group \<Rightarrow> int" where
  "chat_group_cmp_cb g1 g2 = uint (gr_gid g1) - uint (gr_gid g2)"

definition chat_sub_hash_cb :: "chat_sub_item \<Rightarrow> int" where
  "chat_sub_hash_cb item = uint (sub_cmd item)"

definition chat_sub_cmp_cb :: "chat_sub_item \<Rightarrow> chat_sub_item \<Rightarrow> int" where
  "chat_sub_cmp_cb item1 item2 = uint (sub_cmd item1) - uint (sub_cmd item2)"

text \<open>
  \<open>chat_tab.c\<close> hashes a \<open>chat_room_item_t\<close> through a parameter of type \<open>chat_sub_item_t *\<close>: it reads
  the first two bytes of \<open>rid\<close>, its low half-word on a little-endian host.
\<close>

definition chat_room_item_hash_cb :: "chat_room_item \<Rightarrow> int" where
  "chat_room_item_hash_cb item = uint (ucast (ri_rid item) :: u16)"

definition chat_room_item_cmp_cb :: "chat_room_item \<Rightarrow> chat_room_item \<Rightarrow> int" where
  "chat_room_item_cmp_cb item1 item2 = sint (ri_rid item1 - ri_rid item2)"

subsection \<open>The callbacks keep the contract\<close>

interpretation room_tab: hash_callbacks chat_room_cmp_cb rm_rid "\<lambda>r. rm_rid r < half64" chat_room_hash_cb
  by unfold_locales
    (auto simp: chat_room_cmp_cb_def chat_room_hash_cb_def sint_diff_zero sint_diff_less sint_half)

interpretation session_tab: hash_callbacks chat_session_cmp_cb "\<lambda>s. (se_sid s, se_cid s)"
  "\<lambda>s. se_sid s < half64 \<and> se_cid s < half64" chat_session_hash_cb
  by unfold_locales
    (auto simp: chat_session_cmp_cb_def chat_session_hash_cb_def sint_diff_zero sint_diff_less
       sint_half less_prod_def' Let_def)

interpretation sid2cid_tab: hash_callbacks chat_sid2cid_cmp_cb sc_sid "\<lambda>i. sc_sid i < half64"
  chat_sid2cid_hash_cb
  by unfold_locales
    (auto simp: chat_sid2cid_cmp_cb_def chat_sid2cid_hash_cb_def sint_diff_zero sint_diff_less sint_half)

interpretation sid_tab: hash_callbacks chat_sid_cmp_cb "\<lambda>i. (sc_sid i, sc_cid i)"
  "\<lambda>i. sc_sid i < half64 \<and> sc_cid i < half64" chat_sid_hash_cb
  by unfold_locales
    (auto simp: chat_sid_cmp_cb_def chat_sid_hash_cb_def sint_diff_zero sint_diff_less
       sint_half less_prod_def' Let_def)

interpretation group_tab: hash_callbacks chat_group_cmp_cb gr_gid "\<lambda>g. True" chat_group_hash_cb
  by unfold_locales (auto simp: chat_group_cmp_cb_def chat_group_hash_cb_def word_less_def word_uint_eq_iff)

interpretation sub_tab: hash_callbacks chat_sub_cmp_cb sub_cmd "\<lambda>i. True" chat_sub_hash_cb
  by unfold_locales (auto simp: chat_sub_cmp_cb_def chat_sub_hash_cb_def word_less_def word_uint_eq_iff)

interpretation room_item_tab: hash_callbacks chat_room_item_cmp_cb ri_rid "\<lambda>i. ri_rid i < half64"
  chat_room_item_hash_cb
  by unfold_locales
    (auto simp: chat_room_item_cmp_cb_def chat_room_item_hash_cb_def sint_diff_zero sint_diff_less)

end
