(* ===== verification/Rb_Spec.thy ===== *)
theory Rb_Spec
  imports Chat_Data Rb_Destroy
begin

text \<open>
  What the red-black trees promise to every client whose comparison callback keeps the contract
  \<open>cmp_callback\<close>: the operations refine those of a sorted list without repetition, on every branch.
  The witnesses run the code on trees of \<open>chat_sid2cid_item\<close>.
\<close>

subsection \<open>Trees to run the code on\<close>

fun rbt_build :: "'a rbt_tree \<Rightarrow> 'a list \<Rightarrow> 'a rbt_tree option" where
  "rbt_build T [] = Some T"
| "rbt_build T (x # xs) = do { (_, T) \<leftarrow> rbt_insert T True x; rbt_build T xs }"

definition sid_item :: "u64 \<Rightarrow> chat_sid2cid_item" where
  "sid_item s = \<lparr>sc_sid = s, sc_cid = 7\<rparr>"

definition sid_tree :: "u64 list \<Rightarrow> chat_sid2cid_item rbt_tree option" where
  "sid_tree sids = do {
     t \<leftarrow> rbt_creat True True chat_sid2cid_cmp_cb;
     T \<leftarrow> t;
     rbt_build T (map sid_item sids) }"

abbreviation sid_valid :: "chat_sid2cid_item \<Rightarrow> bool" where
  "sid_valid \<equiv> \<lambda>i. sc_sid i < half64"

lemma rbt_build_ok:
  assumes "cmp_callback cmp key valid"
  shows "rbt_ok key valid T ys \<Longrightarrow> cmp_cb T = cmp \<Longrightarrow> \<forall>x \<in> set xs. valid x \<Longrightarrow>
    \<exists>T' ys'. rbt_build T xs = Some T' \<and> rbt_ok key valid T' ys' \<and> cmp_cb T' = cmp"
proof (induction xs arbitrary: T ys)
  case (Cons x xs)
  show ?case
  proof (cases "\<exists>y \<in> set ys. key y = key x")
    case True
    with cmp_callback.rbt_insert_exists[OF assms Cons.prems(1,2), of x True] Cons show ?thesis by simp
  next
    case False
    then obtain T' ys' where "rbt_insert T True x = Some (RBT_OK, T')" "rbt_ok key valid T' ys'"
        "cmp_cb T' = cmp"
      using cmp_callback.rbt_insert_new[OF assms Cons.prems(1,2), of x] Cons.prems(3) by auto
    with Cons.IH[of T' ys'] Cons.prems(3) show ?thesis by simp
  qed
qed auto

lemma sid_tree_ok:
  assumes "\<forall>s \<in> set sids. s < half64" and "map_option rbt_items (sid_tree sids) = Some xs"
  obtains T where "sid_tree sids = Some T" "rbt_ok sc_sid sid_valid T xs" "cmp_cb T = chat_sid2cid_cmp_cb"
proof -
  obtain T0 where T0: "rbt_creat True True chat_sid2cid_cmp_cb = Some (Some T0)"
    by (simp add: rbt_creat_def)
  then have "rbt_ok sc_sid sid_valid T0 []" "cmp_cb T0 = chat_sid2cid_cmp_cb"
    using rbt_creat_ok by auto
  then obtain T ys where T: "sid_tree sids = Some T" "rbt_ok sc_sid sid_valid T ys"
      "cmp_cb T = chat_sid2cid_cmp_cb"
    using rbt_build_ok[OF sid2cid_tab.cmp_callback_axioms, of T0 "[]"
        "map sid_item sids"] assms(1) T0
    by (auto simp: sid_tree_def sid_item_def)
  then have "ys = xs" using assms(2) rbt_items_eq[OF T(2)] by simp
  with T that show thesis by blast
qed

lemma sid_tree_demo:
  obtains T where "sid_tree [10, 20, 30] = Some T" "cmp_cb T = chat_sid2cid_cmp_cb"
    "rbt_ok sc_sid sid_valid T [sid_item 10, sid_item 20, sid_item 30]"
proof -
  have run: "map_option rbt_items (sid_tree [10, 20, 30]) = Some [sid_item 10, sid_item 20, sid_item 30]"
    by code_simp
  show thesis by (rule sid_tree_ok[OF _ run]) (auto simp: half64_def intro: that)
qed

subsection \<open>Properties\<close>

text \<open>C1: \<open>rbt_insert\<close> on every branch.  A key that is present is refused with \<open>RBT_NODE_EXIST\<close>;
  a failed node allocation is reported with \<open>RBT_ERR\<close>; both leave the tree untouched.  Otherwise
  the call returns \<open>RBT_OK\<close> and the new tree is again a red-black tree with the same contents plus
  the new element at its place in the order, its parent pointers, sentinel and count right.\<close>

theorem rbt_insert_correct:
  assumes "cmp_callback cmp key valid" and "rbt_ok key valid T xs" and "cmp_cb T = cmp" and "valid q"
  shows "case find (\<lambda>x. key x = key q) xs of
      Some _ \<Rightarrow> rbt_insert T alloc q = Some (RBT_NODE_EXIST, T)
    | None \<Rightarrow>
        (if alloc
         then \<exists>T' ys zs. rbt_insert T alloc q = Some (RBT_OK, T') \<and> xs = ys @ zs \<and>
                rbt_ok key valid T' (ys @ q # zs) \<and> cmp_cb T' = cmp
         else rbt_insert T alloc q = Some (RBT_ERR, T))"
proof (cases "find (\<lambda>x. key x = key q) xs")
  case None
  then have new: "\<forall>x \<in> set xs. key x \<noteq> key q" by (auto simp: find_None_iff)
  show ?thesis
    using cmp_callback.rbt_insert_new[OF assms new] cmp_callback.rbt_insert_nomem[OF assms new] None
    by simp
next
  case (Some d)
  then have "\<exists>x \<in> set xs. key x = key q" by (auto simp: find_Some_iff)
  from cmp_callback.rbt_insert_exists[OF assms this] Some show ?thesis by simp
qed

theorem rbt_insert_correct_witness:
  "\<exists>T T' ys zs. sid_tree [10, 20, 30] = Some T \<and>
     rbt_insert T True (sid_item 25) = Some (RBT_OK, T') \<and>
     [sid_item 10, sid_item 20, sid_item 30] = ys @ zs \<and>
     rbt_ok sc_sid sid_valid T' (ys @ sid_item 25 # zs)"
proof -
  obtain T where T: "sid_tree [10, 20, 30] = Some T" "cmp_cb T = chat_sid2cid_cmp_cb"
      "rbt_ok sc_sid sid_valid T [sid_item 10, sid_item 20, sid_item 30]"
    by (rule sid_tree_demo)
  have "sid_valid (sid_item 25)" by (simp add: sid_item_def half64_def)
  from rbt_insert_correct[OF sid2cid_tab.cmp_callback_axioms T(3,2) this, of True] T(1)
  show ?thesis by (auto simp: sid_item_def)
qed

text \<open>\<open>rbt_query\<close> always returns, and returns the element with the key if there is one and
  \<open>NULL\<close> otherwise.\<close>

theorem rbt_query_correct:
  assumes "cmp_callback cmp key valid" and "rbt_ok key valid T xs" and "cmp_cb T = cmp" and "valid q"
  shows "rbt_query T q = Some (find (\<lambda>x. key x = key q) xs)"
  by (rule cmp_callback.rbt_query_ok[OF assms])

theorem rbt_query_correct_witness:
  "\<exists>T. sid_tree [10, 20, 30] = Some T \<and> rbt_query T (sid_key 20) = Some (Some (sid_item 20)) \<and>
     rbt_query T (sid_key 21) = Some None"
proof -
  obtain T where T: "sid_tree [10, 20, 30] = Some T" "cmp_cb T = chat_sid2cid_cmp_cb"
      "rbt_ok sc_sid sid_valid T [sid_item 10, sid_item 20, sid_item 30]"
    by (rule sid_tree_demo)
  have v: "sid_valid (sid_key 20)" "sid_valid (sid_key 21)" by (simp_all add: sid_key_def half64_def)
  from rbt_query_correct[OF sid2cid_tab.cmp_callback_axioms T(3,2) v(1)]
    rbt_query_correct[OF sid2cid_tab.cmp_callback_axioms T(3,2) v(2)] T(1)
  show ?thesis by (simp add: sid_item_def sid_key_def)
qed

text \<open>C2: \<open>rbt_delete\<close> on every branch.  An absent key leaves the tree as it was and yields \<open>NULL\<close>.
  A present key is removed: its element is returned, the rebalanced tree is a red-black tree with
  the remaining elements in order, and exactly one node is freed.\<close>

theorem rbt_delete_correct:
  assumes "cmp_callback cmp key valid" and "rbt_ok key valid T xs" and "cmp_cb T = cmp" and "valid q"
  shows "case find (\<lambda>x. key x = key q) xs of
      None \<Rightarrow> rbt_delete T q = Some (RBT_OK, None, T)
    | Some d \<Rightarrow> \<exists>T' ys zs. rbt_delete T q = Some (RBT_OK, Some d, T') \<and> xs = ys @ d # zs \<and>
        rbt_ok key valid T' (ys @ zs) \<and> cmp_cb T' = cmp"
proof (cases "find (\<lambda>x. key x = key q) xs")
  case None
  then show ?thesis using cmp_callback.rbt_delete_miss[OF assms] by simp
next
  case (Some d)
  then show ?thesis using cmp_callback.rbt_delete_hit[OF assms] by simp
qed

theorem rbt_delete_correct_witness:
  "\<exists>T T' ys zs. sid_tree [10, 20, 30] = Some T \<and>
     rbt_delete T (sid_key 20) = Some (RBT_OK, Some (sid_item 20), T') \<and>
     [sid_item 10, sid_item 20, sid_item 30] = ys @ sid_item 20 # zs \<and>
     rbt_ok sc_sid sid_valid T' (ys @ zs) \<and> rbt_delete T (sid_key 21) = Some (RBT_OK, None, T)"
proof -
  obtain T where T: "sid_tree [10, 20, 30] = Some T" "cmp_cb T = chat_sid2cid_cmp_cb"
      "rbt_ok sc_sid sid_valid T [sid_item 10, sid_item 20, sid_item 30]"
    by (rule sid_tree_demo)
  have v: "sid_valid (sid_key 20)" "sid_valid (sid_key 21)" by (simp_all add: sid_key_def half64_def)
  from rbt_delete_correct[OF sid2cid_tab.cmp_callback_axioms T(3,2) v(1)]
    rbt_delete_correct[OF sid2cid_tab.cmp_callback_axioms T(3,2) v(2)] T(1)
  show ?thesis by (auto simp: sid_item_def sid_key_def)
qed

text \<open>\<open>rbt_trav\<close> visits every element exactly once, in key order, and \<open>rbt_find\<close> returns the
  first match in key order; the stack of \<open>RBT_MAX_DEPTH\<close> nodes never overflows.\<close>

theorem rbt_trav_find_correct:
  assumes "rbt_ok key valid T xs" and "length xs < 2 ^ 64"
  shows "rbt_trav T True proc args = trav_list proc xs args \<and> rbt_find T True P = Some (find P xs)"
  by (intro conjI rbt_trav_ok[OF assms] rbt_find_ok[OF assms])

theorem rbt_trav_find_correct_witness:
  "\<exists>T. sid_tree [10, 20, 30] = Some T \<and>
     rbt_trav T True (\<lambda>i s. Some (s @ [sc_sid i])) [] = Some [10, 20, 30] \<and>
     rbt_find T True (\<lambda>i. 15 < sc_sid i) = Some (Some (sid_item 20))"
proof -
  obtain T where T: "sid_tree [10, 20, 30] = Some T" "cmp_cb T = chat_sid2cid_cmp_cb"
      "rbt_ok sc_sid sid_valid T [sid_item 10, sid_item 20, sid_item 30]"
    by (rule sid_tree_demo)
  have l: "length [sid_item 10, sid_item 20, sid_item 30] < 2 ^ 64" by simp
  from rbt_trav_find_correct[OF T(3) l, where proc = "\<lambda>i s. Some (s @ [sc_sid i])" and args = "[]"
      and P = "\<lambda>i. 15 < sc_sid i"] T(1)
  show ?thesis by (simp add: sid_item_def)
qed

text \<open>C3: \<open>rbt_destroy\<close> returns, hands the data of every element to \<open>dealloc\<close> exactly once, and
  frees every node and the sentinel: nothing is leaked and nothing is freed twice.\<close>

theorem rbt_destroy_correct:
  assumes "rbt_ok key valid T xs" and "length xs < 2 ^ 64"
  shows "\<exists>ds T'. rbt_destroy T True = Some (ds, T') \<and> mset ds = mset xs \<and> rb_mem T' = Map.empty"
  by (rule rbt_destroy_ok[OF assms])

theorem rbt_destroy_correct_witness:
  "\<exists>T ds T'. sid_tree [10, 20, 30] = Some T \<and> rbt_destroy T True = Some (ds, T') \<and>
     mset ds = {#sid_item 10, sid_item 20, sid_item 30#} \<and> rb_mem T' = Map.empty"
proof -
  obtain T where T: "sid_tree [10, 20, 30] = Some T" "cmp_cb T = chat_sid2cid_cmp_cb"
      "rbt_ok sc_sid sid_valid T [sid_item 10, sid_item 20, sid_item 30]"
    by (rule sid_tree_demo)
  from rbt_destroy_correct[OF T(3)] T(1) show ?thesis by (auto simp: add_mset_commute)
qed

end
