(* ===== verification/Hash_Spec.thy ===== *)
theory Hash_Spec
  imports Rb_Spec
begin

text \<open>
  What the hash tables promise to every client whose callbacks keep the contract
  \<open>hash_callbacks\<close>: the operations are those of a finite map from keys to objects, with the slot
  locks as the code takes and leaves them.  The witnesses run the code on small tables.
\<close>

subsection \<open>Tables to run the code on\<close>

fun tab_build :: "'a hash_tab \<Rightarrow> 'a list \<Rightarrow> 'a hash_tab option" where
  "tab_build H [] = Some H"
| "tab_build H (x # xs) = do { (_, H) \<leftarrow> hash_tab_insert H True x WRLOCK; tab_build H xs }"

definition sid_table :: "int \<Rightarrow> u64 list \<Rightarrow> chat_sid2cid_item hash_tab option" where
  "sid_table len sids = do {
     (h, _) \<leftarrow> hash_tab_creat len chat_sid2cid_hash_cb chat_sid2cid_cmp_cb [];
     H \<leftarrow> h;
     tab_build H (map sid_item sids) }"

lemma tab_build_ok:
  assumes "hash_callbacks cmp key valid hash"
  shows "ht_ok key valid hash cmp H \<Longrightarrow> ht_quiet H \<Longrightarrow> \<forall>x \<in> set xs. valid x \<Longrightarrow>
    \<exists>H'. tab_build H xs = Some H' \<and> ht_ok key valid hash cmp H' \<and> ht_quiet H'"
proof (induction xs arbitrary: H)
  case (Cons x xs)
  have x: "valid x" using Cons.prems(3) by simp
  have fr: "lock_free (ht_lock H ! ht_slot H x) WRLOCK"
    using ht_quiet_free[OF Cons.prems(2)] hash_callbacks.idx_ok(3)[OF assms Cons.prems(1) x] by blast
  show ?case
  proof (cases "ht_map key H (key x)")
    case None
    then obtain H' where "hash_tab_insert H True x WRLOCK = Some (RBT_OK, H')"
        "ht_ok key valid hash cmp H'" "ht_lock H' = ht_lock H"
      using hash_callbacks.insert_new[OF assms Cons.prems(1) x fr] by blast
    with Cons.IH[of H'] Cons.prems show ?thesis by (simp add: ht_quiet_def)
  next
    case (Some e)
    with hash_callbacks.insert_exists[OF assms Cons.prems(1) x fr] Cons show ?thesis by simp
  qed
qed simp

lemma sid_table_demo:
  obtains H where "sid_table 3 [10, 20, 30, 40] = Some H"
    "ht_ok sc_sid sid_valid chat_sid2cid_hash_cb chat_sid2cid_cmp_cb H" "ht_quiet H"
    "ht_items H = [sid_item 30, sid_item 10, sid_item 40, sid_item 20]"
proof -
  obtain H0 where H0: "hash_tab_creat 3 chat_sid2cid_hash_cb chat_sid2cid_cmp_cb [] = Some (Some H0, [])"
    using creat_success by blast
  have "ht_ok sc_sid sid_valid chat_sid2cid_hash_cb chat_sid2cid_cmp_cb H0" "ht_quiet H0"
    using sid2cid_tab.creat_ok[OF H0] by simp_all
  then obtain H where H: "sid_table 3 [10, 20, 30, 40] = Some H"
      "ht_ok sc_sid sid_valid chat_sid2cid_hash_cb chat_sid2cid_cmp_cb H" "ht_quiet H"
    using tab_build_ok[OF sid2cid_tab.hash_callbacks_axioms, of H0 "map sid_item [10, 20, 30, 40]"] H0
    by (auto simp: sid_table_def sid_item_def half64_def)
  have "map_option ht_items (sid_table 3 [10, 20, 30, 40]) =
      Some [sid_item 30, sid_item 10, sid_item 40, sid_item 20]" by code_simp
  with H that show thesis by simp
qed

subsection \<open>Properties\<close>

text \<open>C4: \<open>hash_tab_insert\<close> on every branch.  It blocks exactly when the lock of the slot is not free
  in the requested mode.  Otherwise a present key is refused, a failed allocation reported, both
  without any change; and a new key is added to the map, counted, and the lock released again.\<close>

theorem hash_tab_insert_correct:
  assumes "hash_callbacks cmp key valid hash" and "ht_ok key valid hash cmp H" and "valid d"
  shows "if \<not> lock_free (ht_lock H ! ht_slot H d) m then hash_tab_insert H alloc d m = None
    else case ht_map key H (key d) of
      Some _ \<Rightarrow> hash_tab_insert H alloc d m = Some (RBT_NODE_EXIST, H)
    | None \<Rightarrow>
        (if alloc
         then \<exists>H'. hash_tab_insert H alloc d m = Some (RBT_OK, H') \<and> ht_ok key valid hash cmp H' \<and>
           ht_map key H' = (ht_map key H)(key d \<mapsto> d) \<and> ht_lock H' = ht_lock H \<and>
           ht_len H' = ht_len H \<and> ht_total H' = ht_total H + 1
         else hash_tab_insert H alloc d m = Some (RBT_ERR, H))"
proof (cases "lock_free (ht_lock H ! ht_slot H d) m")
  case free: True
  then show ?thesis
    using hash_callbacks.insert_exists[OF assms free] hash_callbacks.insert_new[OF assms free]
      hash_callbacks.insert_nomem[OF assms free]
    by (cases "ht_map key H (key d)") auto
next
  case False
  then show ?thesis using hash_callbacks.query_blocked(3)[OF assms] by simp
qed

theorem hash_tab_insert_correct_witness:
  "\<exists>H H'. sid_table 3 [10, 20, 30, 40] = Some H \<and>
     hash_tab_insert H True (sid_item 50) WRLOCK = Some (RBT_OK, H') \<and>
     ht_map sc_sid H' = (ht_map sc_sid H)(50 \<mapsto> sid_item 50) \<and> ht_total H' = ht_total H + 1"
proof -
  obtain H where H: "sid_table 3 [10, 20, 30, 40] = Some H"
    "ht_ok sc_sid sid_valid chat_sid2cid_hash_cb chat_sid2cid_cmp_cb H" "ht_quiet H"
    "ht_items H = [sid_item 30, sid_item 10, sid_item 40, sid_item 20]" by (rule sid_table_demo)
  have v: "sid_valid (sid_item 50)" by (simp add: sid_item_def half64_def)
  have "lock_free (ht_lock H ! ht_slot H (sid_item 50)) WRLOCK"
    using ht_quiet_free[OF H(3) sid2cid_tab.idx_ok(3)[OF H(2) v]] .
  with hash_tab_insert_correct[OF sid2cid_tab.hash_callbacks_axioms H(2) v, of WRLOCK True] H(1,4)
  show ?thesis by (auto simp: ht_map_def sid_item_def)
qed

text \<open>\<open>hash_tab_query\<close> returns the object with the key and keeps the lock of its slot, or
  \<open>NULL\<close> and keeps no lock; the \<open>hash_tab_unlock\<close> that ends a successful query restores the table.\<close>

theorem hash_tab_query_correct:
  assumes "hash_callbacks cmp key valid hash" and "ht_ok key valid hash cmp H" and "valid q"
    and "lock_free (ht_lock H ! ht_slot H q) m"
  shows "case ht_map key H (key q) of
      None \<Rightarrow> hash_tab_query H q m = Some (None, H)
    | Some d \<Rightarrow> \<exists>H'. hash_tab_query H q m = Some (Some d, H') \<and>
        ht_lock H' = (ht_lock H)[ht_slot H q := lock_held (ht_lock H ! ht_slot H q) m] \<and>
        hash_tab_unlock H' q m = Some H"
proof (cases "ht_map key H (key q)")
  case None
  then show ?thesis using hash_callbacks.query_miss[OF assms] by simp
next
  case (Some d)
  then show ?thesis
    using hash_callbacks.query_hit[OF assms Some]
      hash_callbacks.unlock_locked[OF assms(1,2,3,3) refl assms(4)]
    by (simp add: ht_locked_def)
qed

theorem hash_tab_query_correct_witness:
  "\<exists>H H'. sid_table 3 [10, 20, 30, 40] = Some H \<and>
     hash_tab_query H (sid_key 40) RDLOCK = Some (Some (sid_item 40), H') \<and>
     hash_tab_unlock H' (sid_key 40) RDLOCK = Some H"
proof -
  obtain H where H: "sid_table 3 [10, 20, 30, 40] = Some H"
    "ht_ok sc_sid sid_valid chat_sid2cid_hash_cb chat_sid2cid_cmp_cb H" "ht_quiet H"
    "ht_items H = [sid_item 30, sid_item 10, sid_item 40, sid_item 20]" by (rule sid_table_demo)
  have v: "sid_valid (sid_key 40)" by (simp add: sid_key_def half64_def)
  have "lock_free (ht_lock H ! ht_slot H (sid_key 40)) RDLOCK"
    using ht_quiet_free[OF H(3) sid2cid_tab.idx_ok(3)[OF H(2) v]] .
  from hash_tab_query_correct[OF sid2cid_tab.hash_callbacks_axioms H(2) v this] H(1,4)
  show ?thesis by (auto simp: ht_map_def sid_item_def sid_key_def)
qed

text \<open>C5: \<open>hash_tab_delete\<close> on every branch: it blocks as the insertion does, leaves the table alone
  when the key is absent, and otherwise removes the key from the map, returns the object, counts it
  off and releases the lock.\<close>

theorem hash_tab_delete_correct:
  assumes "hash_callbacks cmp key valid hash" and "ht_ok key valid hash cmp H" and "valid q"
  shows "if \<not> lock_free (ht_lock H ! ht_slot H q) m then hash_tab_delete H q m = None
    else case ht_map key H (key q) of
      None \<Rightarrow> hash_tab_delete H q m = Some (None, H)
    | Some d \<Rightarrow> \<exists>H'. hash_tab_delete H q m = Some (Some d, H') \<and> ht_ok key valid hash cmp H' \<and>
        ht_map key H' = (ht_map key H)(key q := None) \<and> ht_lock H' = ht_lock H \<and>
        ht_len H' = ht_len H \<and> ht_total H' = ht_total H - 1"
proof (cases "lock_free (ht_lock H ! ht_slot H q) m")
  case free: True
  then show ?thesis
    using hash_callbacks.delete_hit[OF assms free] hash_callbacks.delete_miss[OF assms free]
    by (cases "ht_map key H (key q)") auto
next
  case False
  then show ?thesis using hash_callbacks.query_blocked(2)[OF assms] by simp
qed

theorem hash_tab_delete_correct_witness:
  "\<exists>H H'. sid_table 3 [10, 20, 30, 40] = Some H \<and>
     hash_tab_delete H (sid_key 30) WRLOCK = Some (Some (sid_item 30), H') \<and>
     ht_map sc_sid H' = (ht_map sc_sid H)(30 := None)"
proof -
  obtain H where H: "sid_table 3 [10, 20, 30, 40] = Some H"
    "ht_ok sc_sid sid_valid chat_sid2cid_hash_cb chat_sid2cid_cmp_cb H" "ht_quiet H"
    "ht_items H = [sid_item 30, sid_item 10, sid_item 40, sid_item 20]" by (rule sid_table_demo)
  have v: "sid_valid (sid_key 30)" by (simp add: sid_key_def half64_def)
  have "lock_free (ht_lock H ! ht_slot H (sid_key 30)) WRLOCK"
    using ht_quiet_free[OF H(3) sid2cid_tab.idx_ok(3)[OF H(2) v]] .
  with hash_tab_delete_correct[OF sid2cid_tab.hash_callbacks_axioms H(2) v, of WRLOCK] H(1,4)
  show ?thesis by (auto simp: ht_map_def sid_item_def sid_key_def)
qed

text \<open>C6: \<open>hash_tab_trav\<close> applies the callback to every object exactly once and leaves the table and
  its locks as they were; \<open>hash_tab_destroy\<close> passes every object to \<open>dealloc\<close> exactly once.\<close>

theorem hash_tab_trav_destroy_correct:
  assumes "hash_callbacks cmp key valid hash" and "ht_ok key valid hash cmp H" and "ht_quiet H"
    and "length (ht_items H) < 2 ^ 64"
  shows "hash_tab_trav H (\<lambda>_. True) proc args m =
       map_option (\<lambda>a. (a, H)) (trav_list proc (ht_items H) args) \<and>
     (\<exists>ds. hash_tab_destroy H (\<lambda>_. True) = Some ds \<and> mset ds = mset (ht_items H)) \<and>
     distinct (map key (ht_items H))"
proof -
  have "\<forall>lk \<in> set (ht_lock H). lock_free lk m" using assms(3) by (auto simp: ht_quiet_def)
  moreover have "distinct (map key (ht_items H))"
    using hash_callbacks.items_distinct[OF assms(1,2)] hash_callbacks.items_inj[OF assms(1,2)]
    by (simp add: distinct_map)
  ultimately show ?thesis
    by (intro conjI hash_callbacks.trav_ok[OF assms(1,2,4)] hash_callbacks.destroy_ok[OF assms(1,2,4,3)])
qed

theorem hash_tab_trav_destroy_correct_witness:
  "\<exists>H ds. sid_table 3 [10, 20, 30, 40] = Some H \<and>
     hash_tab_trav H (\<lambda>_. True) (\<lambda>i s. Some (s + sc_sid i)) 0 RDLOCK = Some (100, H) \<and>
     hash_tab_destroy H (\<lambda>_. True) = Some ds \<and>
     mset ds = {#sid_item 30, sid_item 10, sid_item 40, sid_item 20#}"
proof -
  obtain H where H: "sid_table 3 [10, 20, 30, 40] = Some H"
    "ht_ok sc_sid sid_valid chat_sid2cid_hash_cb chat_sid2cid_cmp_cb H" "ht_quiet H"
    "ht_items H = [sid_item 30, sid_item 10, sid_item 40, sid_item 20]" by (rule sid_table_demo)
  have l: "length (ht_items H) < 2 ^ 64" using H(4) by simp
  from hash_tab_trav_destroy_correct[OF sid2cid_tab.hash_callbacks_axioms H(2,3) l,
      where proc = "\<lambda>i s. Some (s + sc_sid i)" and args = 0 and m = RDLOCK] H(1,4)
  show ?thesis by (auto simp: sid_item_def)
qed



end
