(* ===== verification/Chat.thy ===== *)
theory Chat
  imports Chat_Data
begin

text \<open>
  The chat module, \<open>src/clang/lib/chat/chat_tab.c\<close> and \<open>chat.c\<close>: chat rooms with groups of
  sessions, the sessions with their rooms and subscriptions, and the connection of each session.
  Functions whose name begins with an underscore in C begin with \<open>p_\<close> here.  An object that the C
  code reaches through a pointer is a value here; after a change it is stored back into its table
  while the lock is still held.  The calls of \<open>calloc\<close> take their outcomes from \<open>allocs\<close>; the
  stacks of the traversals are taken to be allocated.
\<close>

subsection \<open>Helpers\<close>

abbreviation all_ok :: "nat \<Rightarrow> bool" where "all_ok \<equiv> \<lambda>_. True"

definition CHAT_GROUP_SLOT_LEN :: int where "CHAT_GROUP_SLOT_LEN = 99"
definition CHAT_SID_SLOT_LEN :: int where "CHAT_SID_SLOT_LEN = 999"
definition CHAT_SUB_SLOT_LEN :: int where "CHAT_SUB_SLOT_LEN = 5"
definition CHAT_SESSION_SLOT_LEN :: int where "CHAT_SESSION_SLOT_LEN = 5"

subsection \<open>Rooms and groups (\<open>chat_tab.c\<close>)\<close>

definition chat_add_room :: "chat_tab \<Rightarrow> u64 \<Rightarrow> (int \<times> chat_tab) option" where
  "chat_add_room chat rid =
     (let (a, al) = alloc_take (ct_allocs chat) in
      if \<not> a then Some (- 1, chat\<lparr>ct_allocs := al\<rparr>)
      else do {
        (groups, al) \<leftarrow> hash_tab_creat CHAT_GROUP_SLOT_LEN chat_group_hash_cb chat_group_cmp_cb al;
        case groups of
          None \<Rightarrow> Some (- 1, chat\<lparr>ct_allocs := al\<rparr>)
        | Some groups \<Rightarrow> do {
            let room = \<lparr>rm_rid = rid, rm_sid_num = 0, rm_grp_num = 0, rm_create_tm = ct_now chat,
                        rm_groups = groups\<rparr>;
            (ret, rooms, al) \<leftarrow> hash_tab_insert_al (ct_rooms chat) al room WRLOCK;
            let chat = chat\<lparr>ct_rooms := rooms, ct_allocs := al\<rparr>;
            if ret \<noteq> RBT_OK then do {
              _ \<leftarrow> hash_tab_destroy groups all_ok;
              Some (- 1, chat) }
            else Some (0, chat) } })"

definition chat_group_destroy :: "chat_group \<Rightarrow> unit option" where
  "chat_group_destroy grp = do { _ \<leftarrow> hash_tab_destroy (gr_sid_set grp) all_ok; Some () }"

text \<open>\<open>dealloc\<close> is \<open>_chat_group_destroy\<close>, called for every group of the room.\<close>

fun chat_groups_destroy :: "chat_group list \<Rightarrow> unit option" where
  "chat_groups_destroy [] = Some ()"
| "chat_groups_destroy (g # gs) = do { _ \<leftarrow> chat_group_destroy g; chat_groups_destroy gs }"

definition chat_room_destroy :: "chat_room \<Rightarrow> int option" where
  "chat_room_destroy room = do {
     groups \<leftarrow> hash_tab_destroy (rm_groups room) all_ok;
     _ \<leftarrow> chat_groups_destroy groups;
     Some 0 }"

definition chat_del_room :: "chat_tab \<Rightarrow> u64 \<Rightarrow> (int \<times> chat_tab) option" where
  "chat_del_room chat rid = do {
     (room, rooms) \<leftarrow> hash_tab_query (ct_rooms chat) (room_key rid) WRLOCK;
     case room of
       None \<Rightarrow> Some (0, chat\<lparr>ct_rooms := rooms\<rparr>)
     | Some room \<Rightarrow>
         if rm_sid_num room \<noteq> 0 then do {
           rooms \<leftarrow> hash_tab_unlock rooms (room_key rid) WRLOCK;
           Some (0, chat\<lparr>ct_rooms := rooms\<rparr>) }
         else do {
           (_, rooms) \<leftarrow> hash_tab_delete rooms (room_key rid) NONLOCK;
           rooms \<leftarrow> hash_tab_unlock rooms (room_key rid) WRLOCK;
           ret \<leftarrow> chat_room_destroy room;
           Some (ret, chat\<lparr>ct_rooms := rooms\<rparr>) } }"

text \<open>\<open>assert(grp == item)\<close>: the group that \<open>grp\<close> points to is the one in the table.\<close>

definition chat_del_group :: "chat_room \<Rightarrow> chat_group \<Rightarrow> (int \<times> chat_room) option" where
  "chat_del_group room grp =
     (if gr_sid_num grp \<noteq> 0 then Some (0, room)
      else do {
        (item, groups) \<leftarrow> hash_tab_delete (rm_groups room) (group_key (ucast (gr_gid grp))) WRLOCK;
        case item of
          None \<Rightarrow> None
        | Some _ \<Rightarrow> do {
            _ \<leftarrow> chat_group_destroy grp;
            Some (0, room\<lparr>rm_groups := groups, rm_grp_num := rm_grp_num room - 1\<rparr>) } })"

definition chat_group_add_by_gid ::
    "chat_room \<Rightarrow> allocs \<Rightarrow> u32 \<Rightarrow> (int \<times> chat_room \<times> allocs) option" where
  "chat_group_add_by_gid room al gid =
     (let (a, al) = alloc_take al in
      if \<not> a then Some (- 1, room, al)
      else do {
        (sid_set, al) \<leftarrow> hash_tab_creat CHAT_SID_SLOT_LEN chat_sid_hash_cb chat_sid_cmp_cb al;
        case sid_set of
          None \<Rightarrow> Some (- 1, room, al)
        | Some sid_set \<Rightarrow> do {
            let grp = \<lparr>gr_gid = ucast gid, gr_sid_num = 0, gr_sid_set = sid_set\<rparr>;
            (ret, groups, al) \<leftarrow> hash_tab_insert_al (rm_groups room) al grp WRLOCK;
            let room = room\<lparr>rm_groups := groups\<rparr>;
            if ret \<noteq> RBT_OK then do {
              _ \<leftarrow> hash_tab_destroy sid_set all_ok;
              Some (- 1, room, al) }
            else Some (0, room\<lparr>rm_grp_num := rm_grp_num room + 1\<rparr>, al) } })"

text \<open>\<open>_chat_group_add_session\<close>: the results include the changed room and group.\<close>

definition p_chat_group_add_session ::
    "chat_room \<Rightarrow> chat_group \<Rightarrow> allocs \<Rightarrow> u64 \<Rightarrow> u64 \<Rightarrow>
     (int \<times> chat_room \<times> chat_group \<times> allocs) option" where
  "p_chat_group_add_session room grp al sid cid =
     (let (a, al) = alloc_take al in
      if \<not> a then Some (- 1, room, grp, al)
      else do {
        (ret, sid_set, al) \<leftarrow>
          hash_tab_insert_al (gr_sid_set grp) al \<lparr>sc_sid = sid, sc_cid = cid\<rparr> WRLOCK;
        let grp = grp\<lparr>gr_sid_set := sid_set\<rparr>;
        if ret \<noteq> RBT_OK
        then Some (if ret = RBT_NODE_EXIST then 0 else - 1, room, grp, al)
        else Some (0, room\<lparr>rm_sid_num := rm_sid_num room + 1\<rparr>,
                   grp\<lparr>gr_sid_num := gr_sid_num grp + 1\<rparr>, al) })"

definition p_chat_group_del_session ::
    "chat_room \<Rightarrow> chat_group \<Rightarrow> u64 \<Rightarrow> u64 \<Rightarrow> (chat_room \<times> chat_group) option" where
  "p_chat_group_del_session room grp sid cid = do {
     (item, sid_set) \<leftarrow> hash_tab_delete (gr_sid_set grp) \<lparr>sc_sid = sid, sc_cid = cid\<rparr> WRLOCK;
     let grp = grp\<lparr>gr_sid_set := sid_set\<rparr>;
     case item of
       None \<Rightarrow> Some (room, grp)
     | Some _ \<Rightarrow> Some (room\<lparr>rm_sid_num := rm_sid_num room - 1\<rparr>,
                       grp\<lparr>gr_sid_num := gr_sid_num grp - 1\<rparr>) }"

text \<open>\<open>chat_group_add_session\<close>: \<open>goto QUERY_GROUP\<close> repeats until the group is there.\<close>

partial_function (option) chat_group_add_session ::
    "chat_room \<Rightarrow> allocs \<Rightarrow> u32 \<Rightarrow> u64 \<Rightarrow> u64 \<Rightarrow> (int \<times> chat_room \<times> allocs) option" where
  "chat_group_add_session room al gid sid cid = do {
     (grp, groups) \<leftarrow> hash_tab_query (rm_groups room) (group_key gid) RDLOCK;
     let room = room\<lparr>rm_groups := groups\<rparr>;
     case grp of
       None \<Rightarrow> do {
         (_, room, al) \<leftarrow> chat_group_add_by_gid room al gid;
         chat_group_add_session room al gid sid cid }
     | Some grp \<Rightarrow> do {
         (ret, room, grp, al) \<leftarrow> p_chat_group_add_session room grp al sid cid;
         groups \<leftarrow> hash_tab_store (rm_groups room) (group_key gid) grp;
         groups \<leftarrow> hash_tab_unlock groups (group_key gid) RDLOCK;
         Some (ret, room\<lparr>rm_groups := groups\<rparr>, al) } }"

definition chat_group_del_session ::
    "chat_room \<Rightarrow> u32 \<Rightarrow> u64 \<Rightarrow> u64 \<Rightarrow> (int \<times> chat_room) option" where
  "chat_group_del_session room gid sid cid = do {
     (grp, groups) \<leftarrow> hash_tab_query (rm_groups room) (group_key gid) RDLOCK;
     let room = room\<lparr>rm_groups := groups\<rparr>;
     case grp of
       None \<Rightarrow> Some (- 1, room)
     | Some grp \<Rightarrow> do {
         (room, grp) \<leftarrow> p_chat_group_del_session room grp sid cid;
         groups \<leftarrow> hash_tab_store (rm_groups room) (group_key gid) grp;
         groups \<leftarrow> hash_tab_unlock groups (group_key gid) RDLOCK;
         Some (0, room\<lparr>rm_groups := groups\<rparr>) } }"

text \<open>\<open>_chat_room_add_session\<close>: \<open>goto QUERY_ROOM\<close> repeats until the room is there.\<close>

partial_function (option) p_chat_room_add_session ::
    "chat_tab \<Rightarrow> u64 \<Rightarrow> u32 \<Rightarrow> u64 \<Rightarrow> u64 \<Rightarrow> (int \<times> chat_tab) option" where
  "p_chat_room_add_session chat rid gid sid cid = do {
     (room, rooms) \<leftarrow> hash_tab_query (ct_rooms chat) (room_key rid) RDLOCK;
     case room of
       None \<Rightarrow> do {
         (_, chat) \<leftarrow> chat_add_room (chat\<lparr>ct_rooms := rooms\<rparr>) rid;
         p_chat_room_add_session chat rid gid sid cid }
     | Some room \<Rightarrow> do {
         (ret, room, al) \<leftarrow> chat_group_add_session room (ct_allocs chat) gid sid cid;
         rooms \<leftarrow> hash_tab_store rooms (room_key rid) room;
         rooms \<leftarrow> hash_tab_unlock rooms (room_key rid) RDLOCK;
         Some (ret, chat\<lparr>ct_rooms := rooms, ct_allocs := al\<rparr>) } }"

definition p_chat_room_del_session ::
    "chat_tab \<Rightarrow> u64 \<Rightarrow> u32 \<Rightarrow> u64 \<Rightarrow> u64 \<Rightarrow> (int \<times> chat_tab) option" where
  "p_chat_room_del_session chat rid gid sid cid = do {
     (room, rooms) \<leftarrow> hash_tab_query (ct_rooms chat) (room_key rid) RDLOCK;
     case room of
       None \<Rightarrow> Some (0, chat\<lparr>ct_rooms := rooms\<rparr>)
     | Some room \<Rightarrow> do {
         (_, room) \<leftarrow> chat_group_del_session room gid sid cid;
         rooms \<leftarrow> hash_tab_store rooms (room_key rid) room;
         rooms \<leftarrow> hash_tab_unlock rooms (room_key rid) RDLOCK;
         Some (0, chat\<lparr>ct_rooms := rooms\<rparr>) } }"

text \<open>\<open>_chat_room_trav_del_session\<close>, the callback on the rooms of a session.\<close>

definition p_chat_room_trav_del_session ::
    "chat_session \<Rightarrow> chat_room_item \<Rightarrow> chat_tab \<Rightarrow> chat_tab option" where
  "p_chat_room_trav_del_session session room chat = do {
     (_, chat) \<leftarrow>
       p_chat_room_del_session chat (ri_rid room) (ri_gid room) (se_sid session) (se_cid session);
     Some chat }"

text \<open>
  \<open>chat_session_tab_add\<close>: the second allocation is checked through the wrong pointer, so that a
  failure there is followed by a write through \<open>NULL\<close>.
\<close>

definition chat_session_tab_add ::
    "chat_tab \<Rightarrow> u64 \<Rightarrow> u32 \<Rightarrow> u64 \<Rightarrow> u64 \<Rightarrow> (int \<times> chat_tab) option" where
  "chat_session_tab_add chat rid gid sid cid =
     (let (a, al) = alloc_take (ct_allocs chat) in
      if \<not> a then Some (- 1, chat\<lparr>ct_allocs := al\<rparr>)
      else let (b, al) = alloc_take al in
      if \<not> b then None
      else do {
        let room = \<lparr>ri_rid = rid, ri_gid = gid\<rparr>;
        (rtab, al) \<leftarrow>
          hash_tab_creat CHAT_SESSION_SLOT_LEN chat_room_item_hash_cb chat_room_item_cmp_cb al;
        case rtab of
          None \<Rightarrow> Some (- 1, chat\<lparr>ct_allocs := al\<rparr>)
        | Some rtab \<Rightarrow> do {
            (_, rtab, al) \<leftarrow> hash_tab_insert_al rtab al room WRLOCK;
            (stab, al) \<leftarrow> hash_tab_creat CHAT_SUB_SLOT_LEN chat_sub_hash_cb chat_sub_cmp_cb al;
            case stab of
              None \<Rightarrow> do {
                _ \<leftarrow> hash_tab_destroy rtab all_ok;
                Some (- 1, chat\<lparr>ct_allocs := al\<rparr>) }
            | Some stab \<Rightarrow> do {
                let session = \<lparr>se_sid = sid, se_cid = cid, se_room = rtab, se_sub = stab\<rparr>;
                (ret, sessions, al) \<leftarrow> hash_tab_insert_al (ct_sessions chat) al session WRLOCK;
                let chat = chat\<lparr>ct_sessions := sessions, ct_allocs := al\<rparr>;
                if ret \<noteq> RBT_OK then do {
                  _ \<leftarrow> hash_tab_destroy rtab all_ok;
                  _ \<leftarrow> hash_tab_destroy stab all_ok;
                  Some (- 1, chat) }
                else Some (0, chat) } } })"

text \<open>The traversals call \<open>proc\<close> for every session of a group, or of all groups (\<open>gid = 0\<close>).\<close>

definition p_chat_room_trav_all_group ::
    "(chat_sid2cid_item \<Rightarrow> 's \<Rightarrow> 's option) \<Rightarrow> chat_group \<Rightarrow> 's \<Rightarrow> 's option" where
  "p_chat_room_trav_all_group proc grp args = do {
     (args, _) \<leftarrow> hash_tab_trav (gr_sid_set grp) all_ok proc args RDLOCK;
     Some args }"

definition chat_room_trav_all_group ::
    "chat_room \<Rightarrow> (chat_sid2cid_item \<Rightarrow> 's \<Rightarrow> 's option) \<Rightarrow> 's \<Rightarrow> lock_e \<Rightarrow> ('s \<times> chat_room) option" where
  "chat_room_trav_all_group room proc args lock = do {
     (args, groups) \<leftarrow>
       hash_tab_trav (rm_groups room) all_ok (p_chat_room_trav_all_group proc) args lock;
     Some (args, room\<lparr>rm_groups := groups\<rparr>) }"

definition chat_group_trav ::
    "chat_room \<Rightarrow> u16 \<Rightarrow> (chat_sid2cid_item \<Rightarrow> 's \<Rightarrow> 's option) \<Rightarrow> 's \<Rightarrow> ('s \<times> chat_room) option" where
  "chat_group_trav room gid proc args =
     (if 0 = gid then chat_room_trav_all_group room proc args RDLOCK
      else do {
        (grp, groups) \<leftarrow> hash_tab_query (rm_groups room) (group_key (ucast gid)) RDLOCK;
        case grp of
          None \<Rightarrow> Some (args, room\<lparr>rm_groups := groups\<rparr>)
        | Some grp \<Rightarrow> do {
            (args, sid_set) \<leftarrow> hash_tab_trav (gr_sid_set grp) all_ok proc args RDLOCK;
            groups \<leftarrow> hash_tab_store groups (group_key (ucast gid)) (grp\<lparr>gr_sid_set := sid_set\<rparr>);
            groups \<leftarrow> hash_tab_unlock groups (group_key (ucast gid)) RDLOCK;
            Some (args, room\<lparr>rm_groups := groups\<rparr>) } })"

declare chat_group_add_session.simps [code] p_chat_room_add_session.simps [code]

end
