(* ===== verification/Chat_Api.thy ===== *)
theory Chat_Api
  imports Chat
begin

text \<open>
  The interface of the chat module, \<open>src/clang/lib/chat/chat.c\<close>: the table, joining and leaving a
  room, the connection of a session, its subscriptions, and the cleaning of empty rooms.
\<close>

subsection \<open>The table\<close>

text \<open>
  \<open>chat_tab_init\<close>.  When a table cannot be made, \<open>hash_tab_destroy\<close> is called on all three, the
  ones that were never made included: the \<open>NULL\<close> pointers of the zeroed structure are
  dereferenced.
\<close>

definition chat_tab_init :: "int \<Rightarrow> u64 \<Rightarrow> allocs \<Rightarrow> chat_tab option option" where
  "chat_tab_init len now al =
     (let (a, al) = alloc_take al in
      if \<not> a then Some None
      else do {
        (rooms, al) \<leftarrow> hash_tab_creat len chat_room_hash_cb chat_room_cmp_cb al;
        rooms \<leftarrow> rooms;
        (sessions, al) \<leftarrow> hash_tab_creat len chat_session_hash_cb chat_session_cmp_cb al;
        sessions \<leftarrow> sessions;
        (sid2cids, al) \<leftarrow> hash_tab_creat len chat_sid2cid_hash_cb chat_sid2cid_cmp_cb al;
        sid2cids \<leftarrow> sid2cids;
        Some (Some \<lparr>ct_rooms = rooms, ct_sessions = sessions, ct_sid2cids = sid2cids,
               ct_allocs = al, ct_now = now\<rparr>) })"

subsection \<open>Joining and leaving a room\<close>

text \<open>Storing the changed session back and releasing the read lock of \<open>chat->sessions\<close>.\<close>

definition chat_session_release :: "chat_tab \<Rightarrow> chat_session \<Rightarrow> chat_tab option" where
  "chat_session_release chat s = do {
     let key = session_key (se_sid s) (se_cid s);
     sessions \<leftarrow> hash_tab_store (ct_sessions chat) key s;
     sessions \<leftarrow> hash_tab_unlock sessions key RDLOCK;
     Some (chat\<lparr>ct_sessions := sessions\<rparr>) }"

text \<open>The block from the label \<open>QUERY\<close> on, for a session that exists; \<open>-1\<close> is returned as \<open>uint32_t\<close>.\<close>

partial_function (option) chat_room_add_query ::
    "chat_tab \<Rightarrow> chat_session \<Rightarrow> u64 \<Rightarrow> u32 \<Rightarrow> (u32 \<times> chat_tab) option" where
  "chat_room_add_query chat s rid gid = do {
     (item, tab) \<leftarrow> hash_tab_query (se_room s) (room_item_key rid) RDLOCK;
     case item of
       Some item \<Rightarrow> do {
         tab \<leftarrow> hash_tab_unlock tab (room_item_key rid) RDLOCK;
         chat \<leftarrow> chat_session_release chat (s\<lparr>se_room := tab\<rparr>);
         Some (ri_gid item, chat) }
     | None \<Rightarrow>
         (let (a, al) = alloc_take (ct_allocs chat) in
          if \<not> a then do {
            chat \<leftarrow> chat_session_release (chat\<lparr>ct_allocs := al\<rparr>) (s\<lparr>se_room := tab\<rparr>);
            Some (- 1, chat) }
          else do {
            (ret, tab, al) \<leftarrow> hash_tab_insert_al tab al \<lparr>ri_rid = rid, ri_gid = gid\<rparr> WRLOCK;
            let s = s\<lparr>se_room := tab\<rparr>;
            chat \<leftarrow> chat_session_release (chat\<lparr>ct_allocs := al\<rparr>) s;
            if ret = RBT_NODE_EXIST then chat_room_add_query chat s rid gid
            else if ret \<noteq> RBT_OK then Some (- 1, chat)
            else Some (gid, chat) }) }"

definition chat_room_add_session ::
    "chat_tab \<Rightarrow> u64 \<Rightarrow> u32 \<Rightarrow> u64 \<Rightarrow> u64 \<Rightarrow> (u32 \<times> chat_tab) option" where
  "chat_room_add_session chat rid gid sid cid = do {
     (session, sessions) \<leftarrow> hash_tab_query (ct_sessions chat) (session_key sid cid) RDLOCK;
     let chat = chat\<lparr>ct_sessions := sessions\<rparr>;
     case session of
       Some session \<Rightarrow> chat_room_add_query chat session rid gid
     | None \<Rightarrow> do {
         (ret, chat) \<leftarrow> p_chat_room_add_session chat rid gid sid cid;
         if ret \<noteq> 0 then Some (- 1, chat)
         else do {
           (ret, chat) \<leftarrow> chat_session_tab_add chat rid gid sid cid;
           if ret \<noteq> 0 then do {
             (_, chat) \<leftarrow> p_chat_room_del_session chat rid gid sid cid;
             Some (- 1, chat) }
           else Some (0, chat) } } }"

text \<open>The read lock of \<open>chat->sessions\<close> is not released on any path that found the session.\<close>

definition chat_room_del_session ::
    "chat_tab \<Rightarrow> u64 \<Rightarrow> u64 \<Rightarrow> u64 \<Rightarrow> (u32 \<times> chat_tab) option" where
  "chat_room_del_session chat rid sid cid = do {
     (session, sessions) \<leftarrow> hash_tab_query (ct_sessions chat) (session_key sid cid) RDLOCK;
     case session of
       None \<Rightarrow> Some (0, chat\<lparr>ct_sessions := sessions\<rparr>)
     | Some session \<Rightarrow> do {
         (room, tab) \<leftarrow> hash_tab_delete (se_room session) (room_item_key rid) WRLOCK;
         sessions \<leftarrow> hash_tab_store sessions (session_key sid cid) (session\<lparr>se_room := tab\<rparr>);
         let chat = chat\<lparr>ct_sessions := sessions\<rparr>;
         case room of
           None \<Rightarrow> Some (0, chat)
         | Some room \<Rightarrow> do {
             (_, chat) \<leftarrow> p_chat_room_del_session chat (ri_rid room) (ri_gid room) sid cid;
             Some (0, chat) } } }"

subsection \<open>The connection of a session\<close>

definition chat_get_cid_by_sid :: "chat_tab \<Rightarrow> u64 \<Rightarrow> (u64 \<times> chat_tab) option" where
  "chat_get_cid_by_sid chat sid = do {
     (item, tab) \<leftarrow> hash_tab_query (ct_sid2cids chat) (sid_key sid) RDLOCK;
     case item of
       None \<Rightarrow> Some (0, chat\<lparr>ct_sid2cids := tab\<rparr>)
     | Some item \<Rightarrow> do {
         tab \<leftarrow> hash_tab_unlock tab (sid_key sid) RDLOCK;
         Some (sc_cid item, chat\<lparr>ct_sid2cids := tab\<rparr>) } }"

text \<open>
  \<open>chat_set_sid_to_cid\<close>: an entry with another \<open>cid\<close> is replaced under the write lock; a failed
  allocation there returns without releasing it.  When the insertion of a new entry fails the code
  starts again (\<open>goto AGAIN\<close>).
\<close>

partial_function (option) chat_set_sid_to_cid ::
    "chat_tab \<Rightarrow> u64 \<Rightarrow> u64 \<Rightarrow> (int \<times> chat_tab) option" where
  "chat_set_sid_to_cid chat sid cid = do {
     (item, tab) \<leftarrow> hash_tab_query (ct_sid2cids chat) (sid_key sid) WRLOCK;
     case item of
       Some item \<Rightarrow>
         if sc_cid item = cid then do {
           tab \<leftarrow> hash_tab_unlock tab (sid_key sid) WRLOCK;
           Some (0, chat\<lparr>ct_sid2cids := tab\<rparr>) }
         else do {
           (_, tab) \<leftarrow> hash_tab_delete tab (sid_key sid) NONLOCK;
           let (a, al) = alloc_take (ct_allocs chat);
           if \<not> a then Some (- 1, chat\<lparr>ct_sid2cids := tab, ct_allocs := al\<rparr>)
           else do {
             (ret, tab, al) \<leftarrow> hash_tab_insert_al tab al \<lparr>sc_sid = sid, sc_cid = cid\<rparr> NONLOCK;
             tab \<leftarrow> hash_tab_unlock tab (sid_key sid) WRLOCK;
             Some (if ret \<noteq> RBT_OK then - 1 else 0, chat\<lparr>ct_sid2cids := tab, ct_allocs := al\<rparr>) } }
     | None \<Rightarrow> do {
         let (a, al) = alloc_take (ct_allocs chat);
         if \<not> a then Some (- 1, chat\<lparr>ct_sid2cids := tab, ct_allocs := al\<rparr>)
         else do {
           (ret, tab, al) \<leftarrow> hash_tab_insert_al tab al \<lparr>sc_sid = sid, sc_cid = cid\<rparr> WRLOCK;
           let chat = chat\<lparr>ct_sid2cids := tab, ct_allocs := al\<rparr>;
           if ret \<noteq> RBT_OK then chat_set_sid_to_cid chat sid cid
           else Some (0, chat) } } }"

definition chat_del_sid_to_cid :: "chat_tab \<Rightarrow> u64 \<Rightarrow> u64 \<Rightarrow> (int \<times> chat_tab) option" where
  "chat_del_sid_to_cid chat sid cid = do {
     (item, tab) \<leftarrow> hash_tab_query (ct_sid2cids chat) (sid_key sid) WRLOCK;
     case item of
       None \<Rightarrow> Some (0, chat\<lparr>ct_sid2cids := tab\<rparr>)
     | Some item \<Rightarrow>
         if sc_cid item = cid then do {
           (_, tab) \<leftarrow> hash_tab_delete tab (sid_key sid) NONLOCK;
           tab \<leftarrow> hash_tab_unlock tab (sid_key sid) WRLOCK;
           Some (0, chat\<lparr>ct_sid2cids := tab\<rparr>) }
         else do {
           tab \<leftarrow> hash_tab_unlock tab (sid_key sid) WRLOCK;
           Some (0, chat\<lparr>ct_sid2cids := tab\<rparr>) } }"

text \<open>\<open>chat_del_session\<close>: the session leaves its table and every room it is in.\<close>

definition chat_del_session :: "chat_tab \<Rightarrow> u64 \<Rightarrow> u64 \<Rightarrow> (int \<times> chat_tab) option" where
  "chat_del_session chat sid cid = do {
     (_, chat) \<leftarrow> chat_del_sid_to_cid chat sid cid;
     (session, sessions) \<leftarrow> hash_tab_delete (ct_sessions chat) (session_key sid cid) WRLOCK;
     let chat = chat\<lparr>ct_sessions := sessions\<rparr>;
     case session of
       None \<Rightarrow> Some (0, chat)
     | Some session \<Rightarrow> do {
         (chat, tab) \<leftarrow>
           hash_tab_trav (se_room session) all_ok (p_chat_room_trav_del_session session) chat RDLOCK;
         _ \<leftarrow> hash_tab_destroy tab all_ok;
         _ \<leftarrow> hash_tab_destroy (se_sub session) all_ok;
         Some (0, chat) } }"

subsection \<open>Traversals\<close>

definition chat_room_trav_session ::
    "chat_tab \<Rightarrow> u64 \<Rightarrow> u16 \<Rightarrow> (chat_sid2cid_item \<Rightarrow> 's \<Rightarrow> 's option) \<Rightarrow> 's \<Rightarrow> ('s \<times> chat_tab) option" where
  "chat_room_trav_session chat rid gid proc args = do {
     (room, rooms) \<leftarrow> hash_tab_query (ct_rooms chat) (room_key rid) RDLOCK;
     case room of
       None \<Rightarrow> Some (args, chat\<lparr>ct_rooms := rooms\<rparr>)
     | Some room \<Rightarrow> do {
         (args, room) \<leftarrow> chat_group_trav room gid proc args;
         rooms \<leftarrow> hash_tab_store rooms (room_key rid) room;
         rooms \<leftarrow> hash_tab_unlock rooms (room_key rid) RDLOCK;
         Some (args, chat\<lparr>ct_rooms := rooms\<rparr>) } }"

definition chat_room_trav ::
    "chat_tab \<Rightarrow> (chat_room \<Rightarrow> 's \<Rightarrow> 's option) \<Rightarrow> 's \<Rightarrow> ('s \<times> chat_tab) option" where
  "chat_room_trav chat proc args = do {
     (args, rooms) \<leftarrow> hash_tab_trav (ct_rooms chat) all_ok proc args RDLOCK;
     Some (args, chat\<lparr>ct_rooms := rooms\<rparr>) }"

subsection \<open>Subscriptions\<close>

text \<open>The error codes of \<open>hash_tab_insert\<close> are those of \<open>rb_tree.h\<close>, which \<open>AVL_OK\<close> equals.\<close>

definition chat_add_sub :: "chat_tab \<Rightarrow> u64 \<Rightarrow> u16 \<Rightarrow> (int \<times> chat_tab) option" where
  "chat_add_sub chat sid cmd =
     (let (a, al) = alloc_take (ct_allocs chat); chat = chat\<lparr>ct_allocs := al\<rparr> in
      if \<not> a then Some (- 1, chat)
      else do {
        (cid, chat) \<leftarrow> chat_get_cid_by_sid chat sid;
        if cid = 0 then Some (- 1, chat)
        else do {
          (session, sessions) \<leftarrow> hash_tab_query (ct_sessions chat) (session_key sid cid) RDLOCK;
          let chat = chat\<lparr>ct_sessions := sessions\<rparr>;
          case session of
            None \<Rightarrow> Some (- 1, chat)
          | Some session \<Rightarrow> do {
              (ret, tab, al) \<leftarrow>
                hash_tab_insert_al (se_sub session) (ct_allocs chat) \<lparr>sub_cmd = cmd\<rparr> WRLOCK;
              chat \<leftarrow> chat_session_release (chat\<lparr>ct_allocs := al\<rparr>) (session\<lparr>se_sub := tab\<rparr>);
              Some (if ret = RBT_OK \<or> ret = RBT_NODE_EXIST then 0 else - 1, chat) } } })"

definition chat_del_sub :: "chat_tab \<Rightarrow> u64 \<Rightarrow> u16 \<Rightarrow> (int \<times> chat_tab) option" where
  "chat_del_sub chat sid cmd = do {
     (cid, chat) \<leftarrow> chat_get_cid_by_sid chat sid;
     if cid = 0 then Some (- 1, chat)
     else do {
       (session, sessions) \<leftarrow> hash_tab_query (ct_sessions chat) (session_key sid cid) RDLOCK;
       let chat = chat\<lparr>ct_sessions := sessions\<rparr>;
       case session of
         None \<Rightarrow> Some (- 1, chat)
       | Some session \<Rightarrow> do {
           (_, tab) \<leftarrow> hash_tab_delete (se_sub session) \<lparr>sub_cmd = cmd\<rparr> WRLOCK;
           chat \<leftarrow> chat_session_release chat (session\<lparr>se_sub := tab\<rparr>);
           Some (0, chat) } } }"

text \<open>\<open>_chat_has_sub\<close> releases the lock also when the query has found nothing and holds none.\<close>

definition p_chat_has_sub :: "chat_session \<Rightarrow> u16 \<Rightarrow> (bool \<times> chat_session) option" where
  "p_chat_has_sub session cmd = do {
     (item, tab) \<leftarrow> hash_tab_query (se_sub session) \<lparr>sub_cmd = cmd\<rparr> RDLOCK;
     tab \<leftarrow> hash_tab_unlock tab \<lparr>sub_cmd = cmd\<rparr> RDLOCK;
     Some (item \<noteq> None, session\<lparr>se_sub := tab\<rparr>) }"

text \<open>\<open>key.cid\<close> is never set: \<open>junk\<close> is what the stack holds there.\<close>

definition chat_has_sub :: "chat_tab \<Rightarrow> u64 \<Rightarrow> u16 \<Rightarrow> u64 \<Rightarrow> (bool \<times> chat_tab) option" where
  "chat_has_sub chat sid cmd junk = do {
     (session, sessions) \<leftarrow> hash_tab_query (ct_sessions chat) (session_key sid junk) RDLOCK;
     let chat = chat\<lparr>ct_sessions := sessions\<rparr>;
     case session of
       None \<Rightarrow> Some (False, chat)
     | Some session \<Rightarrow> do {
         (has_sub, session) \<leftarrow> p_chat_has_sub session cmd;
         chat \<leftarrow> chat_session_release chat session;
         Some (has_sub, chat) } }"

subsection \<open>Cleaning\<close>

text \<open>\<open>chat_room_clean_list_cb\<close>: the list of empty rooms; a failed \<open>list_rpush\<close> drops the entry.\<close>

definition chat_room_clean_list_cb :: "chat_room \<Rightarrow> u64 list \<times> allocs \<Rightarrow> (u64 list \<times> allocs) option" where
  "chat_room_clean_list_cb room = (\<lambda>(clean_list, al).
     if rm_sid_num room = 0
     then let (a, al) = alloc_take al in Some (if a then clean_list @ [rm_rid room] else clean_list, al)
     else Some (clean_list, al))"

text \<open>The loop ends at the first \<open>NULL\<close> that \<open>list_lpop\<close> returns: at the end, or at room 0.\<close>

fun chat_room_clean_loop :: "u64 list \<Rightarrow> chat_tab \<Rightarrow> chat_tab option" where
  "chat_room_clean_loop [] chat = Some chat"
| "chat_room_clean_loop (rid # clean_list) chat =
     (if rid = 0 then Some chat
      else do {
        (_, chat) \<leftarrow> chat_del_room chat rid;
        chat_room_clean_loop clean_list chat })"

definition chat_room_clean_hdl :: "chat_tab \<Rightarrow> (int \<times> chat_tab) option" where
  "chat_room_clean_hdl chat =
     (let (a, al) = alloc_take (ct_allocs chat) in
      if \<not> a then Some (0, chat\<lparr>ct_allocs := al\<rparr>)
      else do {
        ((clean_list, al), rooms) \<leftarrow>
          hash_tab_trav (ct_rooms chat) all_ok chat_room_clean_list_cb ([], al) RDLOCK;
        chat \<leftarrow> chat_room_clean_loop clean_list (chat\<lparr>ct_rooms := rooms, ct_allocs := al\<rparr>);
        Some (0, chat) })"

declare chat_room_add_query.simps [code] chat_set_sid_to_cid.simps [code]

end
