(* ===== verification/Chat_Inv.thy ===== *)
theory Chat_Inv
  imports Chat_Api
begin

text \<open>
  The state of the chat module that every operation starts from and leaves, \<open>chat_ok\<close>, and what it
  stands for: the sessions of each group of each room (\<open>chat_members\<close>), the rooms and subscriptions
  of a session, and the connection of a session id.
\<close>

subsection \<open>Well-formed objects\<close>

abbreviation sid_pair :: "chat_sid2cid_item \<Rightarrow> u64 \<times> u64" where
  "sid_pair \<equiv> \<lambda>i. (sc_sid i, sc_cid i)"

abbreviation se_pair :: "chat_session \<Rightarrow> u64 \<times> u64" where
  "se_pair \<equiv> \<lambda>s. (se_sid s, se_cid s)"

abbreviation sid_tab_ok :: "chat_sid2cid_item hash_tab \<Rightarrow> bool" where
  "sid_tab_ok \<equiv> tab_ok sid_pair (\<lambda>i. sc_sid i < half64 \<and> sc_cid i < half64) chat_sid_hash_cb chat_sid_cmp_cb"

abbreviation group_tab_ok :: "chat_group hash_tab \<Rightarrow> bool" where
  "group_tab_ok \<equiv> tab_ok gr_gid (\<lambda>g. True) chat_group_hash_cb chat_group_cmp_cb"

abbreviation room_tab_ok :: "chat_room hash_tab \<Rightarrow> bool" where
  "room_tab_ok \<equiv> tab_ok rm_rid (\<lambda>r. rm_rid r < half64) chat_room_hash_cb chat_room_cmp_cb"

abbreviation session_tab_ok :: "chat_session hash_tab \<Rightarrow> bool" where
  "session_tab_ok \<equiv> tab_ok se_pair (\<lambda>s. se_sid s < half64 \<and> se_cid s < half64)
     chat_session_hash_cb chat_session_cmp_cb"

abbreviation sid2cid_tab_ok :: "chat_sid2cid_item hash_tab \<Rightarrow> bool" where
  "sid2cid_tab_ok \<equiv> tab_ok sc_sid (\<lambda>i. sc_sid i < half64) chat_sid2cid_hash_cb chat_sid2cid_cmp_cb"

abbreviation sub_tab_ok :: "chat_sub_item hash_tab \<Rightarrow> bool" where
  "sub_tab_ok \<equiv> tab_ok sub_cmd (\<lambda>i. True) chat_sub_hash_cb chat_sub_cmp_cb"

abbreviation ritem_tab_ok :: "chat_room_item hash_tab \<Rightarrow> bool" where
  "ritem_tab_ok \<equiv> tab_ok ri_rid (\<lambda>i. ri_rid i < half64) chat_room_item_hash_cb chat_room_item_cmp_cb"

text \<open>\<open>sid_num\<close> of a group counts its set, \<open>sid_num\<close> of a room is the sum over its groups.\<close>

definition group_ok :: "chat_group \<Rightarrow> bool" where
  "group_ok g \<longleftrightarrow> sid_tab_ok (gr_sid_set g) \<and> gr_sid_num g = ht_total (gr_sid_set g)"

definition group_count :: "chat_group option \<Rightarrow> u64" where
  "group_count g = (case g of None \<Rightarrow> 0 | Some g \<Rightarrow> gr_sid_num g)"

definition room_ok :: "chat_room \<Rightarrow> bool" where
  "room_ok r \<longleftrightarrow> group_tab_ok (rm_groups r) \<and>
     (\<forall>k g. ht_map gr_gid (rm_groups r) k = Some g \<longrightarrow> group_ok g) \<and>
     rm_sid_num r = (\<Sum>k\<in>UNIV. group_count (ht_map gr_gid (rm_groups r) k)) \<and>
     rm_grp_num r = ucast (ht_total (rm_groups r))"

definition session_ok :: "chat_session \<Rightarrow> bool" where
  "session_ok s \<longleftrightarrow> ritem_tab_ok (se_room s) \<and> sub_tab_ok (se_sub s)"

definition chat_ok :: "chat_tab \<Rightarrow> bool" where
  "chat_ok chat \<longleftrightarrow> room_tab_ok (ct_rooms chat) \<and>
     (\<forall>rid r. ht_map rm_rid (ct_rooms chat) rid = Some r \<longrightarrow> room_ok r) \<and>
     session_tab_ok (ct_sessions chat) \<and>
     (\<forall>k s. ht_map se_pair (ct_sessions chat) k = Some s \<longrightarrow> session_ok s) \<and>
     sid2cid_tab_ok (ct_sid2cids chat)"

subsection \<open>What the state stands for\<close>

definition room_members :: "chat_room \<Rightarrow> (u16 \<times> u64 \<times> u64) set" where
  "room_members r = {(gid, sid, cid).
     \<exists>g. ht_map gr_gid (rm_groups r) gid = Some g \<and> ht_map sid_pair (gr_sid_set g) (sid, cid) \<noteq> None}"

definition chat_members :: "chat_tab \<Rightarrow> (u64 \<times> u16 \<times> u64 \<times> u64) set" where
  "chat_members chat = {(rid, m).
     \<exists>r. ht_map rm_rid (ct_rooms chat) rid = Some r \<and> m \<in> room_members r}"

definition chat_session_of :: "chat_tab \<Rightarrow> u64 \<Rightarrow> u64 \<Rightarrow> chat_session option" where
  "chat_session_of chat sid cid = ht_map se_pair (ct_sessions chat) (sid, cid)"

definition chat_cid_of :: "chat_tab \<Rightarrow> u64 \<Rightarrow> u64 option" where
  "chat_cid_of chat sid = map_option sc_cid (ht_map sc_sid (ct_sid2cids chat) sid)"

subsection \<open>Groups\<close>

lemma sum_upd:
  fixes f :: "'a :: finite \<Rightarrow> 'b :: ab_group_add"
  shows "(\<Sum>k\<in>UNIV. (f(i := v)) k) = (\<Sum>k\<in>UNIV. f k) - f i + v"
proof -
  have "(\<Sum>k\<in>UNIV. (f(i := v)) k) = v + (\<Sum>k\<in>UNIV - {i}. f k)"
    by (subst sum.remove[of _ i]) (auto intro!: sum.cong)
  also have "(\<Sum>k\<in>UNIV - {i}. f k) = (\<Sum>k\<in>UNIV. f k) - f i"
    by (simp add: sum_diff1)
  finally show ?thesis by simp
qed

lemma group_count_upd:
  "(\<Sum>k\<in>(UNIV :: u16 set). group_count ((m(i := v)) k)) =
   (\<Sum>k\<in>UNIV. group_count (m k)) - group_count (m i) + group_count v"
proof -
  have "(\<lambda>k. group_count ((m(i := v)) k)) = (\<lambda>k. group_count (m k))(i := group_count v)" by auto
  then show ?thesis by (simp only: sum_upd)
qed

lemma group_count_simps [simp]: "group_count None = 0" "group_count (Some g) = gr_sid_num g"
  by (simp_all add: group_count_def)

text \<open>The group's set gains a session.\<close>

definition group_joined :: "chat_group \<Rightarrow> u64 \<Rightarrow> u64 \<Rightarrow> chat_group" where
  "group_joined g sid cid =
     (if ht_map sid_pair (gr_sid_set g) (sid, cid) = None
      then g\<lparr>gr_sid_set := ht_put (gr_sid_set g) \<lparr>sc_sid = sid, sc_cid = cid\<rparr>,
             gr_sid_num := gr_sid_num g + 1\<rparr>
      else g)"

definition group_left :: "chat_group \<Rightarrow> u64 \<Rightarrow> u64 \<Rightarrow> chat_group" where
  "group_left g sid cid =
     (if ht_map sid_pair (gr_sid_set g) (sid, cid) = None then g
      else g\<lparr>gr_sid_set := ht_del (gr_sid_set g) \<lparr>sc_sid = sid, sc_cid = cid\<rparr>,
             gr_sid_num := gr_sid_num g - 1\<rparr>)"

lemma group_joined_ok:
  assumes g: "group_ok g" and v: "sid < half64" "cid < half64"
  shows "group_ok (group_joined g sid cid)" "gr_gid (group_joined g sid cid) = gr_gid g"
    "ht_map sid_pair (gr_sid_set (group_joined g sid cid)) k =
       (if k = (sid, cid) \<and> ht_map sid_pair (gr_sid_set g) k = None
        then Some \<lparr>sc_sid = sid, sc_cid = cid\<rparr> else ht_map sid_pair (gr_sid_set g) k)"
    "gr_sid_num (group_joined g sid cid) =
       gr_sid_num g + (if ht_map sid_pair (gr_sid_set g) (sid, cid) = None then 1 else 0)"
  using sid_tab.put[of "gr_sid_set g" "\<lparr>sc_sid = sid, sc_cid = cid\<rparr>"] g v
  by (auto simp: group_joined_def group_ok_def)

lemma group_left_ok:
  assumes g: "group_ok g" and v: "sid < half64" "cid < half64"
  shows "group_ok (group_left g sid cid)" "gr_gid (group_left g sid cid) = gr_gid g"
    "ht_map sid_pair (gr_sid_set (group_left g sid cid)) =
       (ht_map sid_pair (gr_sid_set g))((sid, cid) := None)"
    "gr_sid_num (group_left g sid cid) =
       gr_sid_num g - (if ht_map sid_pair (gr_sid_set g) (sid, cid) = None then 0 else 1)"
  using sid_tab.del[of "gr_sid_set g" "\<lparr>sc_sid = sid, sc_cid = cid\<rparr>"] g v
  by (auto simp: group_left_def group_ok_def)

lemma p_group_add:
  assumes g: "group_ok g" and v: "sid < half64" "cid < half64"
  shows "p_chat_group_add_session room g [] sid cid =
    Some (0, room\<lparr>rm_sid_num := rm_sid_num room +
               (if ht_map sid_pair (gr_sid_set g) (sid, cid) = None then 1 else 0)\<rparr>,
          group_joined g sid cid, [])"
  using sid_tab.put_al[of "gr_sid_set g" "\<lparr>sc_sid = sid, sc_cid = cid\<rparr>" "[]" WRLOCK]
    sid_tab.put_al_old[of "gr_sid_set g" "\<lparr>sc_sid = sid, sc_cid = cid\<rparr>" _ "[]" WRLOCK] g v
  by (auto simp: p_chat_group_add_session_def group_ok_def group_joined_def)

lemma p_group_del:
  assumes g: "group_ok g" and v: "sid < half64" "cid < half64"
  shows "p_chat_group_del_session room g sid cid =
    Some (room\<lparr>rm_sid_num := rm_sid_num room -
            (if ht_map sid_pair (gr_sid_set g) (sid, cid) = None then 0 else 1)\<rparr>,
          group_left g sid cid)"
  using sid_tab.del[of "gr_sid_set g" "\<lparr>sc_sid = sid, sc_cid = cid\<rparr>"]
    sid_tab.del_none[of "gr_sid_set g" "\<lparr>sc_sid = sid, sc_cid = cid\<rparr>"] g v
  by (auto simp: p_chat_group_del_session_def group_ok_def group_left_def)

lemma mod_plus_1:
  "((x mod 18446744073709551616) + 1) mod 4294967296 = (x + 1) mod (4294967296 :: int)"
proof -
  have "(x mod 18446744073709551616) mod 4294967296 = x mod (4294967296 :: int)"
    by (rule mod_mod_cancel) simp
  then show ?thesis by (metis mod_add_left_eq)
qed

lemma ucast_plus_1: "(ucast (x + 1 :: u64) :: u32) = ucast x + 1"
  by transfer (simp add: take_bit_eq_mod mod_plus_1 mod_mod_cancel)

subsection \<open>Rooms\<close>

lemma gid_key [simp]: "gr_gid (group_key gid) = ucast gid"
  by (simp add: group_key_def)

lemma room_okD:
  assumes "room_ok r"
  shows "group_tab_ok (rm_groups r)" "ht_map gr_gid (rm_groups r) k = Some g \<Longrightarrow> group_ok g"
    "rm_sid_num r = (\<Sum>k\<in>UNIV. group_count (ht_map gr_gid (rm_groups r) k))"
    "rm_grp_num r = ucast (ht_total (rm_groups r))"
  using assms by (auto simp: room_ok_def)

text \<open>A group of the room takes a new value.\<close>

lemma room_set_group:
  assumes r: "room_ok r" and g: "ht_map gr_gid (rm_groups r) (ucast gid) = Some g"
    and g': "group_ok g'" "gr_gid g' = ucast gid"
    and n: "n = rm_sid_num r - gr_sid_num g + gr_sid_num g'"
  defines "r' \<equiv> r\<lparr>rm_sid_num := n, rm_groups := ht_upd (rm_groups r) (group_key gid) g'\<rparr>"
  shows "room_ok r'" "ht_map gr_gid (rm_groups r') = (ht_map gr_gid (rm_groups r))(ucast gid \<mapsto> g')"
proof -
  have u: "group_tab_ok (ht_upd (rm_groups r) (group_key gid) g')"
      "ht_map gr_gid (ht_upd (rm_groups r) (group_key gid) g') =
         (ht_map gr_gid (rm_groups r))(ucast gid \<mapsto> g')"
      "ht_total (ht_upd (rm_groups r) (group_key gid) g') = ht_total (rm_groups r)"
    using group_tab.upd[of "rm_groups r" "group_key gid" g g'] room_okD(1)[OF r] g g' by simp_all
  then show "ht_map gr_gid (rm_groups r') = (ht_map gr_gid (rm_groups r))(ucast gid \<mapsto> g')"
    by (simp add: r'_def)
  have "(\<Sum>k\<in>UNIV. group_count (((ht_map gr_gid (rm_groups r))(ucast gid \<mapsto> g')) k)) = n"
    unfolding group_count_upd g n room_okD(3)[OF r] by simp
  then show "room_ok r'"
    using u room_okD[OF r] g'(1) unfolding room_ok_def r'_def by auto
qed

lemma room_members_upd:
  assumes "ht_map gr_gid (rm_groups r') = (ht_map gr_gid (rm_groups r))(gid \<mapsto> g')"
  shows "((a, sid, cid) \<in> room_members r') =
     (if a = gid then ht_map sid_pair (gr_sid_set g') (sid, cid) \<noteq> None
      else (a, sid, cid) \<in> room_members r)"
  unfolding room_members_def assms by simp

lemma members_eqI:
  "(\<And>a s c. ((a, s, c) \<in> A) = ((a, s, c) \<in> B)) \<Longrightarrow> A = B"
  by auto

lemma room_add_group:
  assumes r: "room_ok r" and g: "ht_map gr_gid (rm_groups r) (ucast gid) = None"
  shows "\<exists>r' g'. chat_group_add_by_gid r [] gid = Some (0, r', []) \<and> room_ok r' \<and>
     ht_map gr_gid (rm_groups r') = (ht_map gr_gid (rm_groups r))(ucast gid \<mapsto> g') \<and>
     ht_map sid_pair (gr_sid_set g') = Map.empty \<and> rm_rid r' = rm_rid r \<and>
     rm_sid_num r' = rm_sid_num r"
proof -
  obtain H where H: "hash_tab_creat CHAT_SID_SLOT_LEN chat_sid_hash_cb chat_sid_cmp_cb [] = Some (Some H, [])"
      "sid_tab_ok H" "ht_map sid_pair H = Map.empty" "ht_total H = 0"
    using sid_tab.creat_tab_success[of CHAT_SID_SLOT_LEN] by (auto simp: CHAT_SID_SLOT_LEN_def)
  let ?g = "\<lparr>gr_gid = ucast gid, gr_sid_num = 0, gr_sid_set = H\<rparr>"
  let ?G = "ht_put (rm_groups r) ?g"
  have P: "hash_tab_insert_al (rm_groups r) [] ?g WRLOCK = Some (RBT_OK, ?G, [])"
    using group_tab.put_al[of "rm_groups r" ?g "[]"] room_okD(1)[OF r] g by simp
  have u: "group_tab_ok ?G" "ht_map gr_gid ?G = (ht_map gr_gid (rm_groups r))(ucast gid \<mapsto> ?g)"
      "ht_total ?G = ht_total (rm_groups r) + 1"
    using group_tab.put[of "rm_groups r" ?g] room_okD(1)[OF r] g by simp_all
  let ?r = "r\<lparr>rm_groups := ?G, rm_grp_num := rm_grp_num r + 1\<rparr>"
  have run: "chat_group_add_by_gid r [] gid = Some (0, ?r, [])"
    using H(1) P by (simp add: chat_group_add_by_gid_def)
  have "(\<Sum>k\<in>UNIV. group_count (((ht_map gr_gid (rm_groups r))(ucast gid \<mapsto> ?g)) k)) = rm_sid_num r"
    unfolding group_count_upd g room_okD(3)[OF r] by simp
  moreover have "group_ok ?g" using H by (simp add: group_ok_def)
  ultimately have "room_ok ?r"
    using u room_okD[OF r] unfolding room_ok_def by (auto simp: ucast_plus_1)
  with run u(2) H(3) show ?thesis by (intro exI[of _ ?r] exI[of _ ?g]) simp
qed

lemma member_iff:
  "ht_map gr_gid (rm_groups r) gid = Some g \<Longrightarrow>
   ((gid, sid, cid) \<in> room_members r) = (ht_map sid_pair (gr_sid_set g) (sid, cid) \<noteq> None)"
  by (simp add: room_members_def)

text \<open>A session joins a group that is there.\<close>

lemma room_join_group:
  assumes r: "room_ok r" and g: "ht_map gr_gid (rm_groups r) (ucast gid) = Some g"
    and v: "sid < half64" "cid < half64"
  shows "\<exists>r'. chat_group_add_session r [] gid sid cid = Some (0, r', []) \<and> room_ok r' \<and>
     rm_rid r' = rm_rid r \<and> room_members r' = insert (ucast gid, sid, cid) (room_members r) \<and>
     rm_sid_num r' = rm_sid_num r + (if (ucast gid, sid, cid) \<in> room_members r then 0 else 1)"
proof -
  let ?G = "rm_groups r" and ?k = "group_key gid" and ?g = "group_joined g sid cid"
  let ?new = "ht_map sid_pair (gr_sid_set g) (sid, cid) = None"
  have G: "group_tab_ok ?G" and gok: "group_ok g" using room_okD(1,2)[OF r] g by auto
  have gid: "gr_gid g = ucast gid" using group_tab.map_key[OF g] .
  note J = group_joined_ok[OF gok v]
  let ?n = "rm_sid_num r + (if ?new then 1 else 0)"
  let ?r = "r\<lparr>rm_sid_num := ?n, rm_groups := ht_upd ?G ?k ?g\<rparr>"
  have kk: "ht_map gr_gid ?G (gr_gid ?k) = Some g" "gr_gid ?g = gr_gid ?k" using g gid J(2) by simp_all
  note U = group_tab.upd[OF G TrueI kk(1) TrueI kk(2)]
  note UL = group_tab.upd_locked[OF G TrueI kk(1) TrueI kk(2)]
  have run: "chat_group_add_session r [] gid sid cid = Some (0, ?r, [])"
    using group_tab.query_some[OF G TrueI kk(1)] group_tab.unlock_ok[OF U(2) TrueI TrueI refl]
    by (simp add: chat_group_add_session.simps[of r] p_group_add[OF gok v] UL)
  have n: "?n = rm_sid_num r - gr_sid_num g + gr_sid_num ?g" using J(4) by simp
  note S = room_set_group[OF r g J(1) J(2)[unfolded gid] n]
  have m: "room_members ?r = insert (ucast gid, sid, cid) (room_members r)"
    by (rule members_eqI) (auto simp: room_members_upd[OF S(2)] J(3) member_iff[OF g])
  show ?thesis
    using run S(1) m member_iff[OF g, of sid cid] by (intro exI[of _ ?r]) auto
qed

lemma room_join:
  assumes r: "room_ok r" and v: "sid < half64" "cid < half64"
  shows "\<exists>r'. chat_group_add_session r [] gid sid cid = Some (0, r', []) \<and> room_ok r' \<and>
     rm_rid r' = rm_rid r \<and> room_members r' = insert (ucast gid, sid, cid) (room_members r) \<and>
     rm_sid_num r' = rm_sid_num r + (if (ucast gid, sid, cid) \<in> room_members r then 0 else 1)"
proof (cases "ht_map gr_gid (rm_groups r) (ucast gid)")
  case (Some g)
  then show ?thesis by (rule room_join_group[OF r _ v])
next
  case None
  obtain r1 g1 where r1: "chat_group_add_by_gid r [] gid = Some (0, r1, [])" "room_ok r1"
      "ht_map gr_gid (rm_groups r1) = (ht_map gr_gid (rm_groups r))(ucast gid \<mapsto> g1)"
      "ht_map sid_pair (gr_sid_set g1) = Map.empty" "rm_rid r1 = rm_rid r" "rm_sid_num r1 = rm_sid_num r"
    using room_add_group[OF r None] by blast
  have m: "room_members r1 = room_members r"
  proof (rule members_eqI)
    fix a s c show "((a, s, c) \<in> room_members r1) = ((a, s, c) \<in> room_members r)"
      unfolding room_members_upd[OF r1(3)] r1(4) by (simp add: room_members_def None)
  qed
  have "chat_group_add_session r [] gid sid cid = chat_group_add_session r1 [] gid sid cid"
    using group_tab.query_none[of "rm_groups r" "group_key gid"] room_okD(1)[OF r] None r1(1)
    by (simp add: chat_group_add_session.simps[of r])
  moreover have "ht_map gr_gid (rm_groups r1) (ucast gid) = Some g1" using r1(3) by simp
  ultimately show ?thesis using room_join_group[OF r1(2) _ v, of gid g1] r1(5,6) m by simp
qed

text \<open>A session leaves a group.\<close>

lemma room_leave:
  assumes r: "room_ok r" and v: "sid < half64" "cid < half64"
  shows "\<exists>ret r'. chat_group_del_session r gid sid cid = Some (ret, r') \<and> room_ok r' \<and>
     rm_rid r' = rm_rid r \<and> room_members r' = room_members r - {(ucast gid, sid, cid)} \<and>
     rm_sid_num r' = rm_sid_num r - (if (ucast gid, sid, cid) \<in> room_members r then 1 else 0)"
proof (cases "ht_map gr_gid (rm_groups r) (ucast gid)")
  case None
  have "chat_group_del_session r gid sid cid = Some (- 1, r)"
    using group_tab.query_none[of "rm_groups r" "group_key gid"] room_okD(1)[OF r] None
    by (simp add: chat_group_del_session_def)
  then show ?thesis using r None by (auto simp: room_members_def)
next
  case g: (Some g)
  let ?G = "rm_groups r" and ?k = "group_key gid" and ?g = "group_left g sid cid"
  let ?no = "ht_map sid_pair (gr_sid_set g) (sid, cid) = None"
  have G: "group_tab_ok ?G" and gok: "group_ok g" using room_okD(1,2)[OF r] g by auto
  have gid: "gr_gid g = ucast gid" using group_tab.map_key[OF g] .
  note J = group_left_ok[OF gok v]
  let ?n = "rm_sid_num r - (if ?no then 0 else 1)"
  let ?r = "r\<lparr>rm_sid_num := ?n, rm_groups := ht_upd ?G ?k ?g\<rparr>"
  have kk: "ht_map gr_gid ?G (gr_gid ?k) = Some g" "gr_gid ?g = gr_gid ?k" using g gid J(2) by simp_all
  note U = group_tab.upd[OF G TrueI kk(1) TrueI kk(2)]
  note UL = group_tab.upd_locked[OF G TrueI kk(1) TrueI kk(2)]
  have run: "chat_group_del_session r gid sid cid = Some (0, ?r)"
    using group_tab.query_some[OF G TrueI kk(1)] group_tab.unlock_ok[OF U(2) TrueI TrueI refl]
    by (simp add: chat_group_del_session_def p_group_del[OF gok v] UL)
  have n: "?n = rm_sid_num r - gr_sid_num g + gr_sid_num ?g" using J(4) by simp
  note S = room_set_group[OF r g J(1) J(2)[unfolded gid] n]
  have m: "room_members ?r = room_members r - {(ucast gid, sid, cid)}"
    by (rule members_eqI) (auto simp: room_members_upd[OF S(2)] J(3) member_iff[OF g])
  show ?thesis
    using run S(1) m member_iff[OF g, of sid cid] by (intro exI[of _ 0] exI[of _ ?r]) auto
qed

subsection \<open>The table of rooms\<close>

lemma rid_key [simp]: "rm_rid (room_key rid) = rid"
  by (simp add: room_key_def)

lemma chat_okD:
  assumes "chat_ok chat"
  shows "room_tab_ok (ct_rooms chat)" "ht_map rm_rid (ct_rooms chat) rid = Some r \<Longrightarrow> room_ok r"
    "session_tab_ok (ct_sessions chat)"
    "ht_map se_pair (ct_sessions chat) k = Some s \<Longrightarrow> session_ok s"
    "sid2cid_tab_ok (ct_sid2cids chat)"
  using assms unfolding chat_ok_def by blast+

lemma chat_members_iff:
  "((rid, m) \<in> chat_members chat) =
     (\<exists>r. ht_map rm_rid (ct_rooms chat) rid = Some r \<and> m \<in> room_members r)"
  by (simp add: chat_members_def)

text \<open>A room takes a new value; the rest of the table stays.\<close>

lemma chat_set_room:
  fixes al :: "bool list"
  assumes c: "chat_ok chat" and rid: "rid < half64"
    and r: "ht_map rm_rid (ct_rooms chat) rid = Some r" and r': "room_ok r'" "rm_rid r' = rid"
  defines "chat' \<equiv> chat\<lparr>ct_rooms := ht_upd (ct_rooms chat) (room_key rid) r', ct_allocs := al\<rparr>"
  shows "hash_tab_store (ht_locked (ct_rooms chat) (room_key rid) m) (room_key rid) r' =
      Some (ht_locked (ct_rooms chat') (room_key rid) m)"
    "hash_tab_unlock (ht_locked (ct_rooms chat') (room_key rid) m) (room_key rid) m = Some (ct_rooms chat')"
    "chat_ok chat'" "ht_map rm_rid (ct_rooms chat') = (ht_map rm_rid (ct_rooms chat))(rid \<mapsto> r')"
proof -
  have k: "rm_rid (room_key rid) < half64" "ht_map rm_rid (ct_rooms chat) (rm_rid (room_key rid)) = Some r"
      "rm_rid r' < half64" "rm_rid r' = rm_rid (room_key rid)" using rid r r' by simp_all
  note U = room_tab.upd[OF chat_okD(1)[OF c] k]
  show "hash_tab_store (ht_locked (ct_rooms chat) (room_key rid) m) (room_key rid) r' =
      Some (ht_locked (ct_rooms chat') (room_key rid) m)"
    using room_tab.upd_locked[OF chat_okD(1)[OF c] k] by (simp add: chat'_def)
  show "hash_tab_unlock (ht_locked (ct_rooms chat') (room_key rid) m) (room_key rid) m = Some (ct_rooms chat')"
    using room_tab.unlock_ok[OF U(2) k(1) k(1) refl] by (simp add: chat'_def)
  show m: "ht_map rm_rid (ct_rooms chat') = (ht_map rm_rid (ct_rooms chat))(rid \<mapsto> r')"
    using U(3) by (simp add: chat'_def)
  show "chat_ok chat'"
    unfolding chat_ok_def m fun_upd_apply
    using chat_okD[OF c] U(2) r'(1) by (simp add: chat'_def)
qed

lemma chat_members_set_room:
  assumes "ht_map rm_rid (ct_rooms chat') = (ht_map rm_rid (ct_rooms chat))(rid \<mapsto> r')"
    and "ht_map rm_rid (ct_rooms chat) rid = Some r"
  shows "room_members r' = insert m (room_members r) \<Longrightarrow>
      chat_members chat' = insert (rid, m) (chat_members chat)"
    "room_members r' = room_members r - {m} \<Longrightarrow> chat_members chat' = chat_members chat - {(rid, m)}"
proof -
  have new: "(p \<in> chat_members chat') =
      (if fst p = rid then snd p \<in> room_members r' else p \<in> chat_members chat)" for p
    by (cases p) (simp add: chat_members_iff assms(1))
  have old: "(p \<in> chat_members chat) = (snd p \<in> room_members r)" if "fst p = rid" for p
    using that by (cases p) (simp add: chat_members_iff assms(2))
  show "chat_members chat' = insert (rid, m) (chat_members chat)"
    if "room_members r' = insert m (room_members r)"
    by (rule set_eqI) (auto simp: new old that prod_eq_iff)
  show "chat_members chat' = chat_members chat - {(rid, m)}" if "room_members r' = room_members r - {m}"
    by (rule set_eqI) (auto simp: new old that prod_eq_iff)
qed

text \<open>The parts of the state that the rooms do not touch.\<close>

definition rest_same :: "chat_tab \<Rightarrow> chat_tab \<Rightarrow> bool" where
  "rest_same chat chat' \<longleftrightarrow> ct_sessions chat' = ct_sessions chat \<and>
     ct_sid2cids chat' = ct_sid2cids chat \<and> ct_now chat' = ct_now chat"

lemma chat_new_room:
  assumes c: "chat_ok chat" and al: "ct_allocs chat = []" and rid: "rid < half64"
    and none: "ht_map rm_rid (ct_rooms chat) rid = None"
  shows "\<exists>chat' r. chat_add_room chat rid = Some (0, chat') \<and> chat_ok chat' \<and> ct_allocs chat' = [] \<and>
     ht_map rm_rid (ct_rooms chat') = (ht_map rm_rid (ct_rooms chat))(rid \<mapsto> r) \<and>
     room_members r = {} \<and> rm_sid_num r = 0 \<and> rest_same chat chat'"
proof -
  obtain H where H: "hash_tab_creat CHAT_GROUP_SLOT_LEN chat_group_hash_cb chat_group_cmp_cb [] = Some (Some H, [])"
      "group_tab_ok H" "ht_map gr_gid H = Map.empty" "ht_total H = 0"
    using group_tab.creat_tab_success[of CHAT_GROUP_SLOT_LEN] by (auto simp: CHAT_GROUP_SLOT_LEN_def)
  let ?r = "\<lparr>rm_rid = rid, rm_sid_num = 0, rm_grp_num = 0, rm_create_tm = ct_now chat, rm_groups = H\<rparr>"
  have k: "rm_rid ?r < half64" "ht_map rm_rid (ct_rooms chat) (rm_rid ?r) = None" using rid none by simp_all
  note P = room_tab.put[OF chat_okD(1)[OF c] k] room_tab.put_al[OF chat_okD(1)[OF c] k, of "[]"]
  let ?c = "chat\<lparr>ct_rooms := ht_put (ct_rooms chat) ?r, ct_allocs := []\<rparr>"
  have run: "chat_add_room chat rid = Some (0, ?c)"
    using H(1) P(7) al by (simp add: chat_add_room_def)
  have r: "room_ok ?r" using H by (simp add: room_ok_def)
  have "chat_ok ?c" using c P(2) r unfolding chat_ok_def by (auto simp: P(3))
  moreover have "room_members ?r = {}" using H(3) by (simp add: room_members_def)
  ultimately show ?thesis using run P(3)
    by (intro exI[of _ ?c] exI[of _ ?r]) (simp add: rest_same_def)
qed

lemma chat_join_room:
  assumes c: "chat_ok chat" and al: "ct_allocs chat = []" and v: "rid < half64" "sid < half64" "cid < half64"
    and r: "ht_map rm_rid (ct_rooms chat) rid = Some r"
  shows "\<exists>chat'. p_chat_room_add_session chat rid gid sid cid = Some (0, chat') \<and> chat_ok chat' \<and>
     ct_allocs chat' = [] \<and> rest_same chat chat' \<and>
     chat_members chat' = insert (rid, ucast gid, sid, cid) (chat_members chat)"
proof -
  have k: "rm_rid (room_key rid) < half64" "ht_map rm_rid (ct_rooms chat) (rm_rid (room_key rid)) = Some r"
    using v r by simp_all
  obtain r' where r': "chat_group_add_session r [] gid sid cid = Some (0, r', [])" "room_ok r'"
      "rm_rid r' = rm_rid r" "room_members r' = insert (ucast gid, sid, cid) (room_members r)"
    using room_join[OF chat_okD(2)[OF c r] v(2,3), of gid] by blast
  have rid: "rm_rid r' = rid" using r'(3) room_tab.map_key[OF r] by simp
  note S = chat_set_room[where al = "[]", OF c v(1) r r'(2) rid]
  let ?c = "chat\<lparr>ct_rooms := ht_upd (ct_rooms chat) (room_key rid) r', ct_allocs := []\<rparr>"
  have "p_chat_room_add_session chat rid gid sid cid = Some (0, ?c)"
    using room_tab.query_some[OF chat_okD(1)[OF c] k] r'(1) al S(1,2)
    by (simp add: p_chat_room_add_session.simps[of chat])
  then show ?thesis
    using S(3) chat_members_set_room(1)[OF S(4) r r'(4)] by (intro exI[of _ ?c]) (simp add: rest_same_def)
qed

lemma chat_join:
  assumes c: "chat_ok chat" and al: "ct_allocs chat = []" and v: "rid < half64" "sid < half64" "cid < half64"
  shows "\<exists>chat'. p_chat_room_add_session chat rid gid sid cid = Some (0, chat') \<and> chat_ok chat' \<and>
     ct_allocs chat' = [] \<and> rest_same chat chat' \<and>
     chat_members chat' = insert (rid, ucast gid, sid, cid) (chat_members chat)"
proof (cases "ht_map rm_rid (ct_rooms chat) rid")
  case (Some r)
  then show ?thesis by (rule chat_join_room[OF c al v])
next
  case None
  obtain chat1 r where c1: "chat_add_room chat rid = Some (0, chat1)" "chat_ok chat1" "ct_allocs chat1 = []"
      "ht_map rm_rid (ct_rooms chat1) = (ht_map rm_rid (ct_rooms chat))(rid \<mapsto> r)"
      "room_members r = {}" "rest_same chat chat1"
    using chat_new_room[OF c al v(1) None] by blast
  have m: "chat_members chat1 = chat_members chat"
    using c1(4,5) None by (auto simp: chat_members_def split: if_splits)
  have "p_chat_room_add_session chat rid gid sid cid = p_chat_room_add_session chat1 rid gid sid cid"
    using room_tab.query_none[of "ct_rooms chat" "room_key rid"] chat_okD(1)[OF c] v None c1(1)
    by (simp add: p_chat_room_add_session.simps[of chat])
  moreover have "ht_map rm_rid (ct_rooms chat1) rid = Some r" using c1(4) by simp
  ultimately show ?thesis using chat_join_room[OF c1(2,3) v, of r gid] m c1(6)
    by (auto simp: rest_same_def)
qed

lemma chat_leave:
  assumes c: "chat_ok chat" and v: "rid < half64" "sid < half64" "cid < half64"
  shows "\<exists>chat'. p_chat_room_del_session chat rid gid sid cid = Some (0, chat') \<and> chat_ok chat' \<and>
     ct_allocs chat' = ct_allocs chat \<and> rest_same chat chat' \<and>
     chat_members chat' = chat_members chat - {(rid, ucast gid, sid, cid)}"
proof (cases "ht_map rm_rid (ct_rooms chat) rid")
  case None
  have "p_chat_room_del_session chat rid gid sid cid = Some (0, chat)"
    using room_tab.query_none[of "ct_rooms chat" "room_key rid"] chat_okD(1)[OF c] v None
    by (simp add: p_chat_room_del_session_def)
  then show ?thesis using c None by (auto simp: rest_same_def chat_members_def)
next
  case r: (Some r)
  have k: "rm_rid (room_key rid) < half64" "ht_map rm_rid (ct_rooms chat) (rm_rid (room_key rid)) = Some r"
    using v r by simp_all
  obtain ret r' where r': "chat_group_del_session r gid sid cid = Some (ret, r')" "room_ok r'"
      "rm_rid r' = rm_rid r" "room_members r' = room_members r - {(ucast gid, sid, cid)}"
    using room_leave[OF chat_okD(2)[OF c r] v(2,3), of gid] by blast
  have rid: "rm_rid r' = rid" using r'(3) room_tab.map_key[OF r] by simp
  note S = chat_set_room[where al = "ct_allocs chat", OF c v(1) r r'(2) rid]
  let ?c = "chat\<lparr>ct_rooms := ht_upd (ct_rooms chat) (room_key rid) r'\<rparr>"
  have "p_chat_room_del_session chat rid gid sid cid = Some (0, ?c)"
    using room_tab.query_some[OF chat_okD(1)[OF c] k] r'(1) S(1,2)
    by (simp add: p_chat_room_del_session_def)
  then show ?thesis
    using S(3) chat_members_set_room(2)[OF S(4) r r'(4)] by (intro exI[of _ ?c]) (simp add: rest_same_def)
qed

end
