(* ===== verification/Chat_Session.thy ===== *)
theory Chat_Session
  imports Chat_Inv
begin

text \<open>
  The sessions of the chat module: what joining and leaving a room, the connection of a session and
  its subscriptions do to the state, through the rules of \<open>Hash_Quiet\<close>.
\<close>

subsection \<open>A new table of sessions\<close>

lemma sid_cid_key [simp]: "se_sid (session_key sid cid) = sid" "se_cid (session_key sid cid) = cid"
  by (simp_all add: session_key_def)

lemma ri_key [simp]: "ri_rid (room_item_key rid) = rid"
  by (simp add: room_item_key_def)

lemma chat_ok_sessions:
  assumes "chat_ok chat" and "session_tab_ok S"
    and "\<And>k s. ht_map se_pair S k = Some s \<Longrightarrow> session_ok s"
  shows "chat_ok (chat\<lparr>ct_sessions := S, ct_allocs := al\<rparr>)"
  using assms unfolding chat_ok_def by simp

lemma chat_members_sessions [simp]:
  "chat_members (chat\<lparr>ct_sessions := S\<rparr>) = chat_members chat"
  "chat_members (chat\<lparr>ct_sid2cids := T\<rparr>) = chat_members chat"
  "chat_members (chat\<lparr>ct_allocs := al\<rparr>) = chat_members chat"
  by (simp_all add: chat_members_def)

text \<open>Putting a session where there was none, and changing one.\<close>

lemma chat_put_session:
  assumes c: "chat_ok chat" and s: "session_ok s" "se_sid s < half64" "se_cid s < half64"
    and none: "ht_map se_pair (ct_sessions chat) (se_pair s) = None"
  shows "chat_ok (chat\<lparr>ct_sessions := ht_put (ct_sessions chat) s, ct_allocs := al\<rparr>)"
    "ht_map se_pair (ht_put (ct_sessions chat) s) = (ht_map se_pair (ct_sessions chat))(se_pair s \<mapsto> s)"
proof -
  note P = session_tab.put[OF chat_okD(3)[OF c] conjI[OF s(2,3)] none]
  show m: "ht_map se_pair (ht_put (ct_sessions chat) s) = (ht_map se_pair (ct_sessions chat))(se_pair s \<mapsto> s)"
    by (rule P(3))
  show "chat_ok (chat\<lparr>ct_sessions := ht_put (ct_sessions chat) s, ct_allocs := al\<rparr>)"
    by (rule chat_ok_sessions[OF c P(2)]) (use chat_okD(4)[OF c] s(1) in \<open>auto simp: m split: if_splits\<close>)
qed

lemma chat_set_session:
  assumes c: "chat_ok chat" and s: "ht_map se_pair (ct_sessions chat) (sid, cid) = Some s0"
    and s': "session_ok s" "se_sid s = sid" "se_cid s = cid"
  shows "chat_session_release (chat\<lparr>ct_sessions := ht_locked (ct_sessions chat) (session_key sid cid) RDLOCK\<rparr>) s =
      Some (chat\<lparr>ct_sessions := ht_upd (ct_sessions chat) (session_key sid cid) s\<rparr>)"
    "hash_tab_store (ht_locked (ct_sessions chat) (session_key sid cid) m) (session_key sid cid) s =
      Some (ht_locked (ht_upd (ct_sessions chat) (session_key sid cid) s) (session_key sid cid) m)"
    "chat_ok (chat\<lparr>ct_sessions := ht_upd (ct_sessions chat) (session_key sid cid) s, ct_allocs := al\<rparr>)"
    "ht_map se_pair (ht_upd (ct_sessions chat) (session_key sid cid) s) =
      (ht_map se_pair (ct_sessions chat))((sid, cid) \<mapsto> s)"
    "chat_session_release (chat\<lparr>ct_sessions := ht_locked (ct_sessions chat) (session_key sid cid) RDLOCK,
        ct_allocs := al\<rparr>) s =
      Some (chat\<lparr>ct_sessions := ht_upd (ct_sessions chat) (session_key sid cid) s, ct_allocs := al\<rparr>)"
proof -
  have S: "session_tab_ok (ct_sessions chat)" by (rule chat_okD(3)[OF c])
  have v0: "se_sid s0 < half64 \<and> se_cid s0 < half64" "se_sid s0 = sid" "se_cid s0 = cid"
    using session_tab.map_valid[OF S s] session_tab.map_key[OF s] by simp_all
  let ?k = "session_key sid cid"
  have k: "se_sid ?k < half64 \<and> se_cid ?k < half64" "ht_map se_pair (ct_sessions chat) (se_pair ?k) = Some s0"
      "se_sid s < half64 \<and> se_cid s < half64" "se_pair s = se_pair ?k"
    using v0 s s' by simp_all
  note U = session_tab.upd[OF S k]
  show m: "ht_map se_pair (ht_upd (ct_sessions chat) ?k s) = (ht_map se_pair (ct_sessions chat))((sid, cid) \<mapsto> s)"
    using U(3) by simp
  show L: "hash_tab_store (ht_locked (ct_sessions chat) ?k m) ?k s = Some (ht_locked (ht_upd (ct_sessions chat) ?k s) ?k m)" for m
    by (rule session_tab.upd_locked[OF S k])
  show "chat_session_release (chat\<lparr>ct_sessions := ht_locked (ct_sessions chat) ?k RDLOCK\<rparr>) s =
      Some (chat\<lparr>ct_sessions := ht_upd (ct_sessions chat) ?k s\<rparr>)"
    using L[of RDLOCK] session_tab.unlock_ok[OF U(2) k(1,1) refl]
    by (simp add: chat_session_release_def s')
  show "chat_session_release (chat\<lparr>ct_sessions := ht_locked (ct_sessions chat) ?k RDLOCK, ct_allocs := al\<rparr>) s =
      Some (chat\<lparr>ct_sessions := ht_upd (ct_sessions chat) ?k s, ct_allocs := al\<rparr>)"
    using L[of RDLOCK] session_tab.unlock_ok[OF U(2) k(1,1) refl]
    by (simp add: chat_session_release_def s')
  show "chat_ok (chat\<lparr>ct_sessions := ht_upd (ct_sessions chat) ?k s, ct_allocs := al\<rparr>)"
    by (rule chat_ok_sessions[OF c U(2)]) (use chat_okD(4)[OF c] s'(1) in \<open>auto simp: m split: if_splits\<close>)
qed

subsection \<open>Joining a room\<close>

lemma session_tab_add:
  assumes c: "chat_ok chat" and al: "ct_allocs chat = []" and v: "rid < half64" "sid < half64" "cid < half64"
    and none: "ht_map se_pair (ct_sessions chat) (sid, cid) = None"
  shows "\<exists>s. chat_session_tab_add chat rid gid sid cid =
        Some (0, chat\<lparr>ct_sessions := ht_put (ct_sessions chat) s, ct_allocs := []\<rparr>) \<and>
      session_ok s \<and> se_sid s = sid \<and> se_cid s = cid \<and>
      ht_map ri_rid (se_room s) = [rid \<mapsto> \<lparr>ri_rid = rid, ri_gid = gid\<rparr>] \<and>
      ht_map sub_cmd (se_sub s) = Map.empty"
proof -
  let ?i = "\<lparr>ri_rid = rid, ri_gid = gid\<rparr>"
  obtain R where R: "hash_tab_creat CHAT_SESSION_SLOT_LEN chat_room_item_hash_cb chat_room_item_cmp_cb [] =
        Some (Some R, [])" "ritem_tab_ok R" "ht_map ri_rid R = Map.empty"
    using room_item_tab.creat_tab_success[of CHAT_SESSION_SLOT_LEN] by (auto simp: CHAT_SESSION_SLOT_LEN_def)
  obtain B where B: "hash_tab_creat CHAT_SUB_SLOT_LEN chat_sub_hash_cb chat_sub_cmp_cb [] = Some (Some B, [])"
      "sub_tab_ok B" "ht_map sub_cmd B = Map.empty"
    using sub_tab.creat_tab_success[of CHAT_SUB_SLOT_LEN] by (auto simp: CHAT_SUB_SLOT_LEN_def)
  have i: "ri_rid ?i < half64" "ht_map ri_rid R (ri_rid ?i) = None" using v R(3) by simp_all
  note P = room_item_tab.put[OF R(2) i] room_item_tab.put_al[OF R(2) i, of "[]"]
  let ?s = "\<lparr>se_sid = sid, se_cid = cid, se_room = ht_put R ?i, se_sub = B\<rparr>"
  have s: "se_sid ?s < half64 \<and> se_cid ?s < half64" "ht_map se_pair (ct_sessions chat) (se_pair ?s) = None"
    using v none by simp_all
  have run: "chat_session_tab_add chat rid gid sid cid =
      Some (0, chat\<lparr>ct_sessions := ht_put (ct_sessions chat) ?s, ct_allocs := []\<rparr>)"
    using session_tab.put_al[OF chat_okD(3)[OF c] s, of "[]"]
    by (simp add: chat_session_tab_add_def al R(1) B(1) P(7))
  show ?thesis
    by (rule exI[of _ ?s]) (use run P(2,3) R(3) B(2,3) in \<open>simp add: session_ok_def\<close>)
qed

text \<open>A session that is not known yet joins the group and is registered with its room.\<close>

lemma add_session_new:
  assumes c: "chat_ok chat" and al: "ct_allocs chat = []" and v: "rid < half64" "sid < half64" "cid < half64"
    and none: "ht_map se_pair (ct_sessions chat) (sid, cid) = None"
  shows "\<exists>chat' s. chat_room_add_session chat rid gid sid cid = Some (0, chat') \<and> chat_ok chat' \<and>
     ct_allocs chat' = [] \<and> ct_sid2cids chat' = ct_sid2cids chat \<and> ct_now chat' = ct_now chat \<and>
     chat_members chat' = insert (rid, ucast gid, sid, cid) (chat_members chat) \<and>
     ht_map se_pair (ct_sessions chat') = (ht_map se_pair (ct_sessions chat))((sid, cid) \<mapsto> s) \<and>
     ht_map ri_rid (se_room s) = [rid \<mapsto> \<lparr>ri_rid = rid, ri_gid = gid\<rparr>] \<and>
     ht_map sub_cmd (se_sub s) = Map.empty"
proof -
  obtain c1 where c1: "p_chat_room_add_session chat rid gid sid cid = Some (0, c1)" "chat_ok c1"
      "ct_allocs c1 = []" "rest_same chat c1"
      "chat_members c1 = insert (rid, ucast gid, sid, cid) (chat_members chat)"
    using chat_join[OF c al v, of gid] by blast
  have S: "ct_sessions c1 = ct_sessions chat" "ct_sid2cids c1 = ct_sid2cids chat" "ct_now c1 = ct_now chat"
    using c1(4) by (simp_all add: rest_same_def)
  obtain s where s: "chat_session_tab_add c1 rid gid sid cid =
        Some (0, c1\<lparr>ct_sessions := ht_put (ct_sessions c1) s, ct_allocs := []\<rparr>)"
      "session_ok s" "se_sid s = sid" "se_cid s = cid"
      "ht_map ri_rid (se_room s) = [rid \<mapsto> \<lparr>ri_rid = rid, ri_gid = gid\<rparr>]"
      "ht_map sub_cmd (se_sub s) = Map.empty"
    using session_tab_add[OF c1(2,3) v, of gid] none S by auto
  have n1: "ht_map se_pair (ct_sessions c1) (se_pair s) = None" and vs: "se_sid s < half64" "se_cid s < half64"
    using none S v s by simp_all
  let ?c = "c1\<lparr>ct_sessions := ht_put (ct_sessions c1) s, ct_allocs := []\<rparr>"
  have k: "se_sid (session_key sid cid) < half64 \<and> se_cid (session_key sid cid) < half64"
      "ht_map se_pair (ct_sessions chat) (se_pair (session_key sid cid)) = None" using v none by simp_all
  have run: "chat_room_add_session chat rid gid sid cid = Some (0, ?c)"
    using session_tab.query_none[OF chat_okD(3)[OF c] k]
    by (simp add: chat_room_add_session_def c1(1) s(1))
  show ?thesis
    by (rule exI[of _ ?c], rule exI[of _ s])
      (use run chat_put_session[OF c1(2) s(2) vs n1] c1(5) S s in simp)
qed

text \<open>A session that is known: its own list of rooms may grow, the rooms stay as they are.\<close>

lemma add_session_known:
  assumes c: "chat_ok chat" and al: "ct_allocs chat = []" and v: "rid < half64"
    and s: "ht_map se_pair (ct_sessions chat) (sid, cid) = Some s"
  shows "\<exists>chat' s' g. chat_room_add_session chat rid gid sid cid = Some (g, chat') \<and> chat_ok chat' \<and>
     ct_allocs chat' = [] \<and> ct_rooms chat' = ct_rooms chat \<and> ct_sid2cids chat' = ct_sid2cids chat \<and>
     ct_now chat' = ct_now chat \<and> g = (case ht_map ri_rid (se_room s) rid of Some i \<Rightarrow> ri_gid i | None \<Rightarrow> gid) \<and>
     ht_map se_pair (ct_sessions chat') = (ht_map se_pair (ct_sessions chat))((sid, cid) \<mapsto> s') \<and>
     ht_map ri_rid (se_room s') = (case ht_map ri_rid (se_room s) rid of Some i \<Rightarrow> ht_map ri_rid (se_room s)
        | None \<Rightarrow> (ht_map ri_rid (se_room s))(rid \<mapsto> \<lparr>ri_rid = rid, ri_gid = gid\<rparr>)) \<and>
     se_sub s' = se_sub s"
proof -
  let ?k = "room_item_key rid" and ?i = "\<lparr>ri_rid = rid, ri_gid = gid\<rparr>"
  have S: "session_tab_ok (ct_sessions chat)" by (rule chat_okD(3)[OF c])
  have vs: "sid < half64 \<and> cid < half64" "se_sid s = sid" "se_cid s = cid"
    using session_tab.map_valid[OF S s] session_tab.map_key[OF s] by auto
  have sk: "se_sid (session_key sid cid) < half64 \<and> se_cid (session_key sid cid) < half64"
      "ht_map se_pair (ct_sessions chat) (se_pair (session_key sid cid)) = Some s"
    using vs(1) s by simp_all
  have sok: "session_ok s" and R: "ritem_tab_ok (se_room s)" and rk: "ri_rid ?k < half64"
    using chat_okD(4)[OF c s] v by (simp_all add: session_ok_def)
  have start: "chat_room_add_session chat rid gid sid cid = chat_room_add_query
      (chat\<lparr>ct_sessions := ht_locked (ct_sessions chat) (session_key sid cid) RDLOCK\<rparr>) s rid gid"
    using session_tab.query_some[OF S sk] by (simp add: chat_room_add_session_def)
  show ?thesis
  proof (cases "ht_map ri_rid (se_room s) rid")
    case (Some i)
    let ?c = "chat\<lparr>ct_sessions := ht_upd (ct_sessions chat) (session_key sid cid) s\<rparr>"
    have ca: "?c = chat\<lparr>ct_sessions := ht_upd (ct_sessions chat) (session_key sid cid) s, ct_allocs := []\<rparr>"
      by (cases chat) (use al in simp)
    have q: "ht_map ri_rid (se_room s) (ri_rid ?k) = Some i" using Some by simp
    have run: "chat_room_add_session chat rid gid sid cid = Some (ri_gid i, ?c)"
      using room_item_tab.query_some[OF R rk q] room_item_tab.unlock_ok[OF R rk rk refl]
        chat_set_session(1)[OF c s sok vs(2,3)]
      by (simp add: start chat_room_add_query.simps)
    show ?thesis
      by (rule exI[of _ ?c], rule exI[of _ s], rule exI[of _ "ri_gid i"])
        (use run Some al chat_set_session(3)[OF c s sok vs(2,3), of "[]"] chat_set_session(4)[OF c s sok vs(2,3)] in \<open>simp add: ca[symmetric]\<close>)
  next
    case None
    have q: "ht_map ri_rid (se_room s) (ri_rid ?k) = None" and qi: "ri_rid ?i < half64"
        "ht_map ri_rid (se_room s) (ri_rid ?i) = None" using None v by simp_all
    note P = room_item_tab.put[OF R qi] room_item_tab.put_al[OF R qi, of "[]"]
    let ?s = "s\<lparr>se_room := ht_put (se_room s) ?i\<rparr>"
    have s': "session_ok ?s" "se_sid ?s = sid" "se_cid ?s = cid"
      using sok P(2) vs by (simp_all add: session_ok_def)
    let ?c = "chat\<lparr>ct_sessions := ht_upd (ct_sessions chat) (session_key sid cid) ?s, ct_allocs := []\<rparr>"
    have run: "chat_room_add_session chat rid gid sid cid = Some (gid, ?c)"
      using room_item_tab.query_none[OF R rk q] P(7) chat_set_session(5)[OF c s s', of "[]"] al
      by (simp add: start chat_room_add_query.simps Let_def)
    show ?thesis
      by (rule exI[of _ ?c], rule exI[of _ ?s], rule exI[of _ gid])
        (use run None P(3) chat_set_session(3,4)[OF c s s'] in simp)
  qed
qed

subsection \<open>The connection of a session\<close>

lemma sid_key_sid [simp]: "sc_sid (sid_key sid) = sid"
  by (simp add: sid_key_def)

definition conn_same :: "chat_tab \<Rightarrow> chat_tab \<Rightarrow> bool" where
  "conn_same chat chat' \<longleftrightarrow> ct_rooms chat' = ct_rooms chat \<and> ct_sessions chat' = ct_sessions chat \<and>
     ct_allocs chat' = ct_allocs chat \<and> ct_now chat' = ct_now chat"

lemma chat_ok_conn: "chat_ok chat \<Longrightarrow> sid2cid_tab_ok T \<Longrightarrow> chat_ok (chat\<lparr>ct_sid2cids := T\<rparr>)"
  by (simp add: chat_ok_def)

lemma get_cid:
  assumes c: "chat_ok chat" and v: "sid < half64"
  shows "chat_get_cid_by_sid chat sid =
     Some (case chat_cid_of chat sid of None \<Rightarrow> 0 | Some cid \<Rightarrow> cid, chat)"
proof -
  note T = chat_okD(5)[OF c]
  have k: "sc_sid (sid_key sid) < half64" using v by simp
  show ?thesis
    using sid2cid_tab.query_none[OF T k] sid2cid_tab.query_some[OF T k] sid2cid_tab.unlock_ok[OF T k k refl]
    by (cases "ht_map sc_sid (ct_sid2cids chat) sid")
      (simp_all add: chat_get_cid_by_sid_def chat_cid_of_def)
qed

lemma set_cid:
  assumes c: "chat_ok chat" and al: "ct_allocs chat = []" and v: "sid < half64"
  shows "\<exists>chat'. chat_set_sid_to_cid chat sid cid = Some (0, chat') \<and> chat_ok chat' \<and>
     chat_cid_of chat' = (chat_cid_of chat)(sid \<mapsto> cid) \<and> conn_same chat chat'"
proof -
  note T = chat_okD(5)[OF c]
  let ?T = "ct_sid2cids chat" and ?k = "sid_key sid" and ?n = "\<lparr>sc_sid = sid, sc_cid = cid\<rparr>"
  have k: "sc_sid ?k < half64" and n: "sc_sid ?n < half64" "sc_sid ?n = sc_sid ?k" using v by simp_all
  show ?thesis
  proof (cases "ht_map sc_sid ?T sid")
    case None
    have nk: "ht_map sc_sid ?T (sc_sid ?k) = None" "ht_map sc_sid ?T (sc_sid ?n) = None" using None by simp_all
    note P = sid2cid_tab.put[OF T n(1) nk(2)] sid2cid_tab.put_al[OF T n(1) nk(2), of "[]"]
    let ?c = "chat\<lparr>ct_sid2cids := ht_put ?T ?n\<rparr>"
    have ca: "chat\<lparr>ct_sid2cids := ht_put ?T ?n, ct_allocs := []\<rparr> = ?c" by (cases chat) (use al in simp)
    have "chat_set_sid_to_cid chat sid cid = Some (0, ?c)"
      using sid2cid_tab.query_none[OF T k nk(1)] P(7) al
      by (simp add: chat_set_sid_to_cid.simps[of chat] ca)
    then show ?thesis
      using chat_ok_conn[OF c P(2)] P(3)
      by (intro exI[of _ ?c]) (auto simp: chat_cid_of_def conn_same_def)
  next
    case (Some i)
    have sk: "ht_map sc_sid ?T (sc_sid ?k) = Some i" using Some by simp
    note Q = sid2cid_tab.query_some[OF T k sk]
    show ?thesis
    proof (cases "sc_cid i = cid")
      case True
      have "chat_set_sid_to_cid chat sid cid = Some (0, chat)"
        using Q True sid2cid_tab.unlock_ok[OF T k k refl] by (simp add: chat_set_sid_to_cid.simps[of chat])
      moreover have "chat_cid_of chat = (chat_cid_of chat)(sid \<mapsto> cid)"
        using Some True by (auto simp: chat_cid_of_def)
      ultimately show ?thesis using c by (auto simp: conn_same_def)
    next
      case False
      note D = sid2cid_tab.del[OF T k sk] sid2cid_tab.del_locked[OF T k sk]
      let ?D = "ht_del ?T ?k"
      have nd: "ht_map sc_sid ?D (sc_sid ?n) = None" "ht_map sc_sid ?D (sc_sid ?k) = None"
        using D(3) by simp_all
      note P = sid2cid_tab.put[OF D(2) n(1) nd(1)] sid2cid_tab.put_locked(1)[OF D(2) k nd(2) n]
      have ins: "hash_tab_insert_al (ht_locked ?D ?k m) [] ?n NONLOCK =
          Some (RBT_OK, ht_locked (ht_put ?D ?n) ?k m, [])" for m
        using P(7) by (simp add: hash_tab_insert_al_def)
      let ?c = "chat\<lparr>ct_sid2cids := ht_put ?D ?n\<rparr>"
      have ca: "chat\<lparr>ct_sid2cids := ht_put ?D ?n, ct_allocs := []\<rparr> = ?c" by (cases chat) (use al in simp)
      have "chat_set_sid_to_cid chat sid cid = Some (0, ?c)"
        using Q D(7) ins sid2cid_tab.unlock_ok[OF P(2) k k refl] al False
        by (simp add: chat_set_sid_to_cid.simps[of chat] ca)
      then show ?thesis
        using chat_ok_conn[OF c P(2)] P(3) D(3)
        by (intro exI[of _ ?c]) (auto simp: chat_cid_of_def conn_same_def)
    qed
  qed
qed

lemma del_cid:
  assumes c: "chat_ok chat" and v: "sid < half64"
  shows "\<exists>chat'. chat_del_sid_to_cid chat sid cid = Some (0, chat') \<and> chat_ok chat' \<and>
     chat_cid_of chat' = (if chat_cid_of chat sid = Some cid then (chat_cid_of chat)(sid := None)
       else chat_cid_of chat) \<and> conn_same chat chat'"
proof -
  note T = chat_okD(5)[OF c]
  let ?T = "ct_sid2cids chat" and ?k = "sid_key sid"
  have k: "sc_sid ?k < half64" using v by simp
  show ?thesis
  proof (cases "ht_map sc_sid ?T sid")
    case None
    then have "chat_del_sid_to_cid chat sid cid = Some (0, chat)"
      using sid2cid_tab.query_none[OF T k] by (simp add: chat_del_sid_to_cid_def)
    then show ?thesis using c None by (auto simp: chat_cid_of_def conn_same_def)
  next
    case (Some i)
    have sk: "ht_map sc_sid ?T (sc_sid ?k) = Some i" using Some by simp
    note Q = sid2cid_tab.query_some[OF T k sk]
    note D = sid2cid_tab.del[OF T k sk] sid2cid_tab.del_locked[OF T k sk]
    show ?thesis
    proof (cases "sc_cid i = cid")
      case True
      let ?c = "chat\<lparr>ct_sid2cids := ht_del ?T ?k\<rparr>"
      have "chat_del_sid_to_cid chat sid cid = Some (0, ?c)"
        using Q True D(7) sid2cid_tab.unlock_ok[OF D(2) k k refl] by (simp add: chat_del_sid_to_cid_def)
      then show ?thesis
        using chat_ok_conn[OF c D(2)] D(3) Some True
        by (intro exI[of _ ?c]) (auto simp: chat_cid_of_def conn_same_def)
    next
      case False
      have "chat_del_sid_to_cid chat sid cid = Some (0, chat)"
        using Q False sid2cid_tab.unlock_ok[OF T k k refl] by (simp add: chat_del_sid_to_cid_def)
      then show ?thesis using c Some False by (auto simp: chat_cid_of_def conn_same_def)
    qed
  qed
qed

subsection \<open>Leaving a room\<close>

text \<open>Leaving does not look at the sessions.\<close>

lemma leave_sessions:
  "p_chat_room_del_session (chat\<lparr>ct_sessions := S\<rparr>) rid gid sid cid =
     map_option (\<lambda>(r, c). (r, c\<lparr>ct_sessions := S\<rparr>)) (p_chat_room_del_session chat rid gid sid cid)"
  by (auto simp: p_chat_room_del_session_def split: bind_split option.splits)

text \<open>
  \<open>chat_room_del_session\<close> of a known session: it leaves the room it has joined; the read lock on
  its slot of \<open>chat->sessions\<close> stays held.
\<close>

lemma room_del_known:
  assumes c: "chat_ok chat" and v: "rid < half64"
    and s: "ht_map se_pair (ct_sessions chat) (sid, cid) = Some s"
  shows "\<exists>chat' s'. chat_room_del_session chat rid sid cid =
       Some (0, chat'\<lparr>ct_sessions := ht_locked (ct_sessions chat') (session_key sid cid) RDLOCK\<rparr>) \<and>
     chat_ok chat' \<and> ct_sid2cids chat' = ct_sid2cids chat \<and> ct_allocs chat' = ct_allocs chat \<and>
     chat_members chat' = (case ht_map ri_rid (se_room s) rid of None \<Rightarrow> chat_members chat
        | Some i \<Rightarrow> chat_members chat - {(rid, ucast (ri_gid i), sid, cid)}) \<and>
     ht_map se_pair (ct_sessions chat') = (ht_map se_pair (ct_sessions chat))((sid, cid) \<mapsto> s') \<and>
     ht_map ri_rid (se_room s') = (ht_map ri_rid (se_room s))(rid := None) \<and> se_sub s' = se_sub s"
proof -
  let ?k = "room_item_key rid" and ?sk = "session_key sid cid"
  have S: "session_tab_ok (ct_sessions chat)" by (rule chat_okD(3)[OF c])
  have vs: "sid < half64 \<and> cid < half64" "se_sid s = sid" "se_cid s = cid"
    using session_tab.map_valid[OF S s] session_tab.map_key[OF s] by auto
  have sk: "se_sid ?sk < half64 \<and> se_cid ?sk < half64"
      "ht_map se_pair (ct_sessions chat) (se_pair ?sk) = Some s"
    using vs(1) s by simp_all
  note Q = session_tab.query_some[OF S sk]
  have sok: "session_ok s" and R: "ritem_tab_ok (se_room s)" and rk: "ri_rid ?k < half64"
    using chat_okD(4)[OF c s] v by (simp_all add: session_ok_def)
  show ?thesis
  proof (cases "ht_map ri_rid (se_room s) rid")
    case None
    have q: "ht_map ri_rid (se_room s) (ri_rid ?k) = None" using None by simp
    let ?c = "chat\<lparr>ct_sessions := ht_upd (ct_sessions chat) ?sk s\<rparr>"
    note U = chat_set_session[OF c s sok vs(2,3)]
    have al: "?c = chat\<lparr>ct_sessions := ht_upd (ct_sessions chat) ?sk s, ct_allocs := ct_allocs chat\<rparr>"
      by (cases chat) simp
    have "chat_room_del_session chat rid sid cid = Some (0, ?c\<lparr>ct_sessions := ht_locked (ct_sessions ?c) ?sk RDLOCK\<rparr>)"
      using Q room_item_tab.del_none[OF R rk q] U(2) by (simp add: chat_room_del_session_def)
    then show ?thesis
      using U(3)[of "ct_allocs chat", folded al] U(4) None by (intro exI[of _ ?c] exI[of _ s]) auto
  next
    case (Some i)
    have q: "ht_map ri_rid (se_room s) (ri_rid ?k) = Some i" using Some by simp
    have ri: "ri_rid i = rid" using room_item_tab.map_key[OF Some] by simp
    note D = room_item_tab.del[OF R rk q]
    let ?s = "s\<lparr>se_room := ht_del (se_room s) ?k\<rparr>"
    have s': "session_ok ?s" "se_sid ?s = sid" "se_cid ?s = cid"
      using sok D(2) vs by (simp_all add: session_ok_def)
    note U = chat_set_session[OF c s s']
    let ?S = "ht_upd (ct_sessions chat) ?sk ?s"
    let ?c = "chat\<lparr>ct_sessions := ?S\<rparr>"
    have "?c = chat\<lparr>ct_sessions := ?S, ct_allocs := ct_allocs chat\<rparr>" by (cases chat) simp
    then have cok: "chat_ok ?c" using U(3)[of "ct_allocs chat"] by simp
    obtain c1 where c1: "p_chat_room_del_session ?c rid (ri_gid i) sid cid = Some (0, c1)" "chat_ok c1"
        "ct_allocs c1 = ct_allocs chat" "rest_same ?c c1"
        "chat_members c1 = chat_members chat - {(rid, ucast (ri_gid i), sid, cid)}"
      using chat_leave[OF cok v, of sid cid "ri_gid i"] vs(1) by auto
    have cS: "ct_sessions c1 = ?S" using c1(4) by (simp add: rest_same_def)
    have "p_chat_room_del_session (?c\<lparr>ct_sessions := ht_locked ?S ?sk RDLOCK\<rparr>) rid (ri_gid i) sid cid =
        Some (0, c1\<lparr>ct_sessions := ht_locked ?S ?sk RDLOCK\<rparr>)"
      by (subst leave_sessions) (simp only: c1(1) option.map prod.case)
    then have "chat_room_del_session chat rid sid cid = Some (0, c1\<lparr>ct_sessions := ht_locked (ct_sessions c1) ?sk RDLOCK\<rparr>)"
      using Q D(1) U(2) ri by (simp add: chat_room_del_session_def cS)
    then show ?thesis
      using c1 cS U(4) D(3) Some by (intro exI[of _ c1] exI[of _ ?s]) (simp add: rest_same_def)
  qed
qed

text \<open>The next writer of that slot waits for a lock that nobody will release.\<close>

lemma del_session_blocked:
  assumes c: "chat_ok chat" and v: "sid < half64" "cid < half64"
  shows "chat_del_session (chat\<lparr>ct_sessions := ht_locked (ct_sessions chat) (session_key sid cid) RDLOCK\<rparr>) sid cid = None"
proof -
  let ?S = "ht_locked (ct_sessions chat) (session_key sid cid) RDLOCK"
  have "chat_del_sid_to_cid (chat\<lparr>ct_sessions := ?S\<rparr>) sid cid =
      map_option (\<lambda>(r, c). (r, c\<lparr>ct_sessions := ?S\<rparr>)) (chat_del_sid_to_cid chat sid cid)"
    by (auto simp: chat_del_sid_to_cid_def split: bind_split option.splits)
  moreover obtain c1 where "chat_del_sid_to_cid chat sid cid = Some (0, c1)"
    using del_cid[OF c v(1), of cid] by blast
  moreover have "hash_tab_delete ?S (session_key sid cid) WRLOCK = None"
    using session_tab.held_blocks[OF chat_okD(3)[OF c]] v by simp
  ultimately show ?thesis by (simp add: chat_del_session_def)
qed

subsection \<open>Removing a session\<close>

lemma trav_leave:
  assumes "chat_ok chat" and "\<forall>i \<in> set is. ri_rid i < half64" and "se_sid s < half64" "se_cid s < half64"
  shows "\<exists>chat'. trav_list (p_chat_room_trav_del_session s) is chat = Some chat' \<and> chat_ok chat' \<and>
     ct_allocs chat' = ct_allocs chat \<and> rest_same chat chat' \<and>
     chat_members chat' = chat_members chat -
       {(ri_rid i, ucast (ri_gid i), se_sid s, se_cid s) |i. i \<in> set is}"
  using assms(1,2)
proof (induction "is" arbitrary: chat)
  case Nil
  then show ?case by (simp add: rest_same_def)
next
  case (Cons i "is")
  obtain c1 where c1: "p_chat_room_del_session chat (ri_rid i) (ri_gid i) (se_sid s) (se_cid s) = Some (0, c1)"
      "chat_ok c1" "ct_allocs c1 = ct_allocs chat" "rest_same chat c1"
      "chat_members c1 = chat_members chat - {(ri_rid i, ucast (ri_gid i), se_sid s, se_cid s)}"
    using chat_leave[OF Cons.prems(1) _ assms(3,4)] Cons.prems(2) by (meson list.set_intros(1))
  obtain c2 where c2: "trav_list (p_chat_room_trav_del_session s) is c1 = Some c2" "chat_ok c2"
      "ct_allocs c2 = ct_allocs c1" "rest_same c1 c2"
      "chat_members c2 = chat_members c1 - {(ri_rid i, ucast (ri_gid i), se_sid s, se_cid s) |i. i \<in> set is}"
    using Cons.IH[OF c1(2)] Cons.prems(2) by auto
  have "trav_list (p_chat_room_trav_del_session s) (i # is) chat = Some c2"
    using c1(1) c2(1) by (simp add: p_chat_room_trav_del_session_def)
  then show ?case
    using c1(3-5) c2(2-5) by (intro exI[of _ c2]) (auto simp: rest_same_def)
qed

lemma ri_items_bound:
  assumes "ritem_tab_ok R" shows "length (ht_items R) < 2 ^ 64"
proof -
  have im: "ri_rid ` {i :: chat_room_item. ri_rid i < half64} = {..< half64}"
    by (auto simp: image_iff intro!: exI[of _ "\<lparr>ri_rid = _, ri_gid = 0\<rparr>"])
  have "length (ht_items R) \<le> card {..< half64}"
    using room_item_tab.items_bound[OF assms] unfolding im by simp
  also have "card {..< half64} < card (UNIV :: u64 set)"
    by (rule psubset_card_mono) (auto simp: half64_def psubset_eq)
  finally show ?thesis by (simp add: card_word)
qed

lemma sub_items_bound:
  assumes "sub_tab_ok B" shows "length (ht_items B) < 2 ^ 64"
proof -
  have "length (ht_items B) \<le> card (sub_cmd ` Collect (\<lambda>_ :: chat_sub_item. True))"
    by (rule sub_tab.items_bound[OF assms]) simp
  also have "\<dots> \<le> card (UNIV :: u16 set)" by (rule card_mono) auto
  finally show ?thesis by (simp add: card_word)
qed

lemma session_destroy:
  assumes "session_ok s"
  shows "\<exists>ds. hash_tab_destroy (se_room s) all_ok = Some ds" "\<exists>ds. hash_tab_destroy (se_sub s) all_ok = Some ds"
  using assms room_item_tab.destroy_tab[OF _ ri_items_bound] sub_tab.destroy_tab[OF _ sub_items_bound]
  unfolding session_ok_def by blast+

text \<open>The places in rooms that a session's own list names.\<close>

definition session_places :: "chat_session \<Rightarrow> (u64 \<times> u16 \<times> u64 \<times> u64) set" where
  "session_places s = {(rid, ucast (ri_gid i), se_sid s, se_cid s) |rid i. ht_map ri_rid (se_room s) rid = Some i}"

lemma places_items:
  assumes "ritem_tab_ok (se_room s)"
  shows "{(ri_rid i, ucast (ri_gid i), se_sid s, se_cid s) |i. i \<in> set (ht_items (se_room s))} = session_places s"
  using room_item_tab.items_map[OF assms] room_item_tab.map_key
  by (auto simp: session_places_def) metis

lemma chat_del_session_map:
  assumes c: "chat_ok chat" and s: "ht_map se_pair (ct_sessions chat) (sid, cid) = Some s"
  shows "hash_tab_delete (ct_sessions chat) (session_key sid cid) WRLOCK =
      Some (Some s, ht_del (ct_sessions chat) (session_key sid cid))"
    "chat_ok (chat\<lparr>ct_sessions := ht_del (ct_sessions chat) (session_key sid cid)\<rparr>)"
    "ht_map se_pair (ht_del (ct_sessions chat) (session_key sid cid)) =
      (ht_map se_pair (ct_sessions chat))((sid, cid) := None)"
proof -
  have S: "session_tab_ok (ct_sessions chat)" by (rule chat_okD(3)[OF c])
  let ?k = "session_key sid cid"
  have k: "se_sid ?k < half64 \<and> se_cid ?k < half64" "ht_map se_pair (ct_sessions chat) (se_pair ?k) = Some s"
    using session_tab.map_valid[OF S s] session_tab.map_key[OF s] s by auto
  note D = session_tab.del[OF S k]
  show "hash_tab_delete (ct_sessions chat) ?k WRLOCK = Some (Some s, ht_del (ct_sessions chat) ?k)"
    by (rule D(1))
  show m: "ht_map se_pair (ht_del (ct_sessions chat) ?k) = (ht_map se_pair (ct_sessions chat))((sid, cid) := None)"
    using D(3) by simp
  have "chat_ok (chat\<lparr>ct_sessions := ht_del (ct_sessions chat) ?k, ct_allocs := ct_allocs chat\<rparr>)"
    by (rule chat_ok_sessions[OF c D(2)]) (use chat_okD(4)[OF c] in \<open>auto simp: m split: if_splits\<close>)
  then show "chat_ok (chat\<lparr>ct_sessions := ht_del (ct_sessions chat) ?k\<rparr>)" by (cases chat) simp
qed

lemma del_session_known:
  assumes c: "chat_ok chat" and s: "ht_map se_pair (ct_sessions chat) (sid, cid) = Some s"
  shows "\<exists>chat'. chat_del_session chat sid cid = Some (0, chat') \<and> chat_ok chat' \<and>
     ct_allocs chat' = ct_allocs chat \<and> chat_members chat' = chat_members chat - session_places s \<and>
     ht_map se_pair (ct_sessions chat') = (ht_map se_pair (ct_sessions chat))((sid, cid) := None) \<and>
     chat_cid_of chat' = (if chat_cid_of chat sid = Some cid then (chat_cid_of chat)(sid := None)
       else chat_cid_of chat)"
proof -
  have S: "session_tab_ok (ct_sessions chat)" by (rule chat_okD(3)[OF c])
  have vs: "sid < half64" "cid < half64" "se_sid s = sid" "se_cid s = cid"
    using session_tab.map_valid[OF S s] session_tab.map_key[OF s] by auto
  obtain c1 where c1: "chat_del_sid_to_cid chat sid cid = Some (0, c1)" "chat_ok c1" "conn_same chat c1"
      "chat_cid_of c1 = (if chat_cid_of chat sid = Some cid then (chat_cid_of chat)(sid := None) else chat_cid_of chat)"
    using del_cid[OF c vs(1), of cid] by blast
  have same: "ct_sessions c1 = ct_sessions chat" "ct_rooms c1 = ct_rooms chat" "ct_allocs c1 = ct_allocs chat"
    using c1(3) by (simp_all add: conn_same_def)
  have s1: "ht_map se_pair (ct_sessions c1) (sid, cid) = Some s" using s same by simp
  note D = chat_del_session_map[OF c1(2) s1]
  let ?S = "ht_del (ct_sessions c1) (session_key sid cid)"
  let ?c = "c1\<lparr>ct_sessions := ?S\<rparr>"
  have sok: "session_ok s" and R: "ritem_tab_ok (se_room s)"
    using chat_okD(4)[OF c s] by (simp_all add: session_ok_def)
  have iv: "\<forall>i \<in> set (ht_items (se_room s)). ri_rid i < half64"
    using room_item_tab.items_map[OF R] room_item_tab.map_valid[OF R] by blast
  obtain c2 where c2: "trav_list (p_chat_room_trav_del_session s) (ht_items (se_room s)) ?c = Some c2"
      "chat_ok c2" "ct_allocs c2 = ct_allocs ?c" "rest_same ?c c2"
      "chat_members c2 = chat_members ?c - session_places s"
    using trav_leave[OF D(2) iv, of s] vs places_items[OF R] by auto
  obtain d1 d2 where d: "hash_tab_destroy (se_room s) all_ok = Some d1" "hash_tab_destroy (se_sub s) all_ok = Some d2"
    using session_destroy[OF sok] by blast
  have m: "chat_members ?c = chat_members chat" by (simp add: chat_members_def same)
  have cid_eq: "chat_cid_of c2 = chat_cid_of c1" using c2(4) by (auto simp: rest_same_def chat_cid_of_def)
  have "hash_tab_trav (se_room s) all_ok (p_chat_room_trav_del_session s) ?c RDLOCK = Some (c2, se_room s)"
    by (simp add: room_item_tab.trav_tab[OF R ri_items_bound[OF R]] c2(1))
  then have "chat_del_session chat sid cid = Some (0, c2)"
    using D(1) d by (simp add: chat_del_session_def c1(1))
  then show ?thesis
    using c2(2,3,5) c2(4) m D(3) c1(4) same cid_eq by (intro exI[of _ c2]) (simp add: rest_same_def)
qed

lemma del_session_unknown:
  assumes c: "chat_ok chat" and v: "sid < half64" "cid < half64"
    and none: "ht_map se_pair (ct_sessions chat) (sid, cid) = None"
  shows "\<exists>chat'. chat_del_session chat sid cid = Some (0, chat') \<and> chat_ok chat' \<and> conn_same chat chat' \<and>
     chat_cid_of chat' = (if chat_cid_of chat sid = Some cid then (chat_cid_of chat)(sid := None)
       else chat_cid_of chat)"
proof -
  obtain c1 where c1: "chat_del_sid_to_cid chat sid cid = Some (0, c1)" "chat_ok c1" "conn_same chat c1"
      "chat_cid_of c1 = (if chat_cid_of chat sid = Some cid then (chat_cid_of chat)(sid := None) else chat_cid_of chat)"
    using del_cid[OF c v(1), of cid] by blast
  have same: "ct_sessions c1 = ct_sessions chat" using c1(3) by (simp add: conn_same_def)
  have "hash_tab_delete (ct_sessions c1) (session_key sid cid) WRLOCK = Some (None, ct_sessions c1)"
    using session_tab.del_none[OF chat_okD(3)[OF c1(2)]] v none same by simp
  then have "chat_del_session chat sid cid = Some (0, c1)" by (simp add: chat_del_session_def c1(1))
  then show ?thesis using c1 by blast
qed

end
