(* ===== verification/Chat_Sub.thy ===== *)
theory Chat_Sub
  imports Chat_Session
begin

text \<open>
  The subscriptions of a session (\<open>chat_add_sub\<close>, \<open>chat_del_sub\<close>, \<open>chat_has_sub\<close> of
  \<open>src/clang/lib/chat/chat.c\<close>): the set of commands of the session that the connection of the
  session id names.
\<close>

definition session_subs :: "chat_session \<Rightarrow> u16 set" where
  "session_subs s = dom (ht_map sub_cmd (se_sub s))"

definition chat_subs :: "chat_tab \<Rightarrow> u64 \<Rightarrow> u64 \<Rightarrow> u16 set" where
  "chat_subs chat sid cid =
     (case chat_session_of chat sid cid of None \<Rightarrow> {} | Some s \<Rightarrow> session_subs s)"

text \<open>The operations only replace the subscriptions of one session.\<close>

definition subs_step :: "chat_tab \<Rightarrow> chat_tab \<Rightarrow> u64 \<Rightarrow> u64 \<Rightarrow> u16 set \<Rightarrow> bool" where
  "subs_step chat chat' sid cid A \<longleftrightarrow> chat_ok chat' \<and> ct_rooms chat' = ct_rooms chat \<and>
     ct_sid2cids chat' = ct_sid2cids chat \<and> ct_allocs chat' = ct_allocs chat \<and>
     chat_subs chat' sid cid = A \<and>
     (\<forall>s c. (s, c) \<noteq> (sid, cid) \<longrightarrow> chat_session_of chat' s c = chat_session_of chat s c) \<and>
     map_option se_room (chat_session_of chat' sid cid) = map_option se_room (chat_session_of chat sid cid)"

lemma session_found:
  assumes c: "chat_ok chat" and s: "chat_session_of chat sid cid = Some s"
  shows "hash_tab_query (ct_sessions chat) (session_key sid cid) m =
      Some (Some s, ht_locked (ct_sessions chat) (session_key sid cid) m)"
    "session_ok s" "se_sid s = sid" "se_cid s = cid" "sid < half64" "cid < half64" "sub_tab_ok (se_sub s)"
proof -
  have S: "session_tab_ok (ct_sessions chat)" by (rule chat_okD(3)[OF c])
  have s: "ht_map se_pair (ct_sessions chat) (sid, cid) = Some s" using s by (simp add: chat_session_of_def)
  show v: "se_sid s = sid" "se_cid s = cid" "sid < half64" "cid < half64"
    using session_tab.map_valid[OF S s] session_tab.map_key[OF s] by auto
  show ok: "session_ok s" by (rule chat_okD(4)[OF c s])
  show "sub_tab_ok (se_sub s)" using ok by (simp add: session_ok_def)
  show "hash_tab_query (ct_sessions chat) (session_key sid cid) m =
      Some (Some s, ht_locked (ct_sessions chat) (session_key sid cid) m)"
    by (rule session_tab.query_some[OF S]) (use v s in simp_all)
qed

lemma release_subs:
  assumes c: "chat_ok chat" and s: "chat_session_of chat sid cid = Some s" and B: "sub_tab_ok B"
  shows "\<exists>chat'. chat_session_release
      (chat\<lparr>ct_sessions := ht_locked (ct_sessions chat) (session_key sid cid) RDLOCK\<rparr>) (s\<lparr>se_sub := B\<rparr>) = Some chat' \<and>
     subs_step chat chat' sid cid (dom (ht_map sub_cmd B))"
proof -
  note F = session_found[OF c s]
  have s0: "ht_map se_pair (ct_sessions chat) (sid, cid) = Some s" using s by (simp add: chat_session_of_def)
  have s': "session_ok (s\<lparr>se_sub := B\<rparr>)" "se_sid (s\<lparr>se_sub := B\<rparr>) = sid" "se_cid (s\<lparr>se_sub := B\<rparr>) = cid"
    using F(2-4) B by (simp_all add: session_ok_def)
  note U = chat_set_session[OF c s0 s']
  let ?c = "chat\<lparr>ct_sessions := ht_upd (ct_sessions chat) (session_key sid cid) (s\<lparr>se_sub := B\<rparr>)\<rparr>"
  have "?c = ?c\<lparr>ct_allocs := ct_allocs chat\<rparr>" by (cases chat) simp
  then have "chat_ok ?c" using U(3)[of "ct_allocs chat"] by simp
  then have "subs_step chat ?c sid cid (dom (ht_map sub_cmd B))"
    using U(4) s0 by (simp add: subs_step_def chat_subs_def chat_session_of_def session_subs_def)
  then show ?thesis using U(1) by blast
qed

lemma add_sub_ok:
  assumes c: "chat_ok chat" and al: "ct_allocs chat = []" and cid: "chat_cid_of chat sid = Some cid" "cid \<noteq> 0"
    and s: "chat_session_of chat sid cid = Some s"
  shows "\<exists>chat'. chat_add_sub chat sid cmd = Some (0, chat') \<and>
     subs_step chat chat' sid cid (insert cmd (chat_subs chat sid cid))"
proof -
  note F = session_found[OF c s]
  have sub: "chat_subs chat sid cid = dom (ht_map sub_cmd (se_sub s))"
    using s by (simp add: chat_subs_def session_subs_def)
  have same: "chat\<lparr>ct_allocs := []\<rparr> = chat" by (cases chat) (use al in simp)
  have g: "chat_get_cid_by_sid chat sid = Some (cid, chat)" using get_cid[OF c F(5)] cid by simp
  let ?i = "\<lparr>sub_cmd = cmd\<rparr>"
  have start: "chat_add_sub chat sid cmd = (do {
      (ret, tab, al) \<leftarrow> hash_tab_insert_al (se_sub s) [] ?i WRLOCK;
      chat \<leftarrow> chat_session_release (chat\<lparr>ct_sessions := ht_locked (ct_sessions chat) (session_key sid cid) RDLOCK,
                ct_allocs := al\<rparr>) (s\<lparr>se_sub := tab\<rparr>);
      Some (if ret = RBT_OK \<or> ret = RBT_NODE_EXIST then 0 else - 1, chat) })"
    using al g F(1)[of RDLOCK] cid(2) by (simp add: chat_add_sub_def same)
  have la: "chat\<lparr>ct_sessions := X, ct_allocs := []\<rparr> = chat\<lparr>ct_sessions := X\<rparr>" for X
    by (cases chat) (use al in simp)
  show ?thesis
  proof (cases "ht_map sub_cmd (se_sub s) cmd")
    case None
    have n: "ht_map sub_cmd (se_sub s) (sub_cmd ?i) = None" using None by simp
    note P = sub_tab.put[OF F(7) TrueI n] sub_tab.put_al[OF F(7) TrueI n, of "[]"]
    obtain c' where c': "chat_session_release (chat\<lparr>ct_sessions := ht_locked (ct_sessions chat) (session_key sid cid) RDLOCK\<rparr>)
          (s\<lparr>se_sub := ht_put (se_sub s) ?i\<rparr>) = Some c'"
        "subs_step chat c' sid cid (dom (ht_map sub_cmd (ht_put (se_sub s) ?i)))"
      using release_subs[OF c s P(2)] by blast
    then show ?thesis using P(3,7) by (intro exI[of _ c']) (simp add: start la sub)
  next
    case (Some j)
    have n: "ht_map sub_cmd (se_sub s) (sub_cmd ?i) = Some j" using Some by simp
    obtain c' where c': "chat_session_release (chat\<lparr>ct_sessions := ht_locked (ct_sessions chat) (session_key sid cid) RDLOCK\<rparr>)
          (s\<lparr>se_sub := se_sub s\<rparr>) = Some c'" "subs_step chat c' sid cid (dom (ht_map sub_cmd (se_sub s)))"
      using release_subs[OF c s F(7)] by blast
    moreover have "insert cmd (dom (ht_map sub_cmd (se_sub s))) = dom (ht_map sub_cmd (se_sub s))"
      using Some by auto
    ultimately show ?thesis
      using sub_tab.put_al_old[OF F(7) TrueI n, of "[]"] by (intro exI[of _ c']) (simp add: start la sub)
  qed
qed

lemma del_sub_ok:
  assumes c: "chat_ok chat" and cid: "chat_cid_of chat sid = Some cid" "cid \<noteq> 0"
    and s: "chat_session_of chat sid cid = Some s"
  shows "\<exists>chat'. chat_del_sub chat sid cmd = Some (0, chat') \<and>
     subs_step chat chat' sid cid (chat_subs chat sid cid - {cmd})"
proof -
  note F = session_found[OF c s]
  have sub: "chat_subs chat sid cid = dom (ht_map sub_cmd (se_sub s))"
    using s by (simp add: chat_subs_def session_subs_def)
  have g: "chat_get_cid_by_sid chat sid = Some (cid, chat)" using get_cid[OF c F(5)] cid by simp
  let ?i = "\<lparr>sub_cmd = cmd\<rparr>"
  have start: "chat_del_sub chat sid cmd = (do {
      (_, tab) \<leftarrow> hash_tab_delete (se_sub s) ?i WRLOCK;
      chat \<leftarrow> chat_session_release (chat\<lparr>ct_sessions := ht_locked (ct_sessions chat) (session_key sid cid) RDLOCK\<rparr>)
        (s\<lparr>se_sub := tab\<rparr>);
      Some (0, chat) })"
    using g F(1)[of RDLOCK] cid(2) by (simp add: chat_del_sub_def)
  show ?thesis
  proof (cases "ht_map sub_cmd (se_sub s) cmd")
    case (Some j)
    have n: "ht_map sub_cmd (se_sub s) (sub_cmd ?i) = Some j" using Some by simp
    note D = sub_tab.del[OF F(7) TrueI n]
    obtain c' where "chat_session_release (chat\<lparr>ct_sessions := ht_locked (ct_sessions chat) (session_key sid cid) RDLOCK\<rparr>)
          (s\<lparr>se_sub := ht_del (se_sub s) ?i\<rparr>) = Some c'"
        "subs_step chat c' sid cid (dom (ht_map sub_cmd (ht_del (se_sub s) ?i)))"
      using release_subs[OF c s D(2)] by blast
    then show ?thesis using D(1,3) by (intro exI[of _ c']) (simp add: start sub)
  next
    case None
    have n: "ht_map sub_cmd (se_sub s) (sub_cmd ?i) = None" using None by simp
    obtain c' where "chat_session_release (chat\<lparr>ct_sessions := ht_locked (ct_sessions chat) (session_key sid cid) RDLOCK\<rparr>)
          (s\<lparr>se_sub := se_sub s\<rparr>) = Some c'" "subs_step chat c' sid cid (dom (ht_map sub_cmd (se_sub s)))"
      using release_subs[OF c s F(7)] by blast
    moreover have "dom (ht_map sub_cmd (se_sub s)) - {cmd} = dom (ht_map sub_cmd (se_sub s))"
      using None by auto
    ultimately show ?thesis
      using sub_tab.del_none[OF F(7) TrueI n] by (intro exI[of _ c']) (simp add: start sub)
  qed
qed

text \<open>
  \<open>chat_has_sub\<close>: when the uninitialised part of its key happens to be the connection of the session,
  a subscription is found; for a command without subscription the second unlock has no lock to release.
\<close>

lemma has_sub_ok:
  assumes c: "chat_ok chat" and s: "chat_session_of chat sid cid = Some s"
  shows "cmd \<in> chat_subs chat sid cid \<Longrightarrow> \<exists>chat'. chat_has_sub chat sid cmd cid = Some (True, chat') \<and>
      subs_step chat chat' sid cid (chat_subs chat sid cid)"
    "cmd \<notin> chat_subs chat sid cid \<Longrightarrow> chat_has_sub chat sid cmd cid = None"
proof -
  note F = session_found[OF c s]
  have sub: "chat_subs chat sid cid = dom (ht_map sub_cmd (se_sub s))"
    using s by (simp add: chat_subs_def session_subs_def)
  let ?i = "\<lparr>sub_cmd = cmd\<rparr>"
  show "\<exists>chat'. chat_has_sub chat sid cmd cid = Some (True, chat') \<and>
      subs_step chat chat' sid cid (chat_subs chat sid cid)" if yes: "cmd \<in> chat_subs chat sid cid"
  proof -
    obtain j where n: "ht_map sub_cmd (se_sub s) (sub_cmd ?i) = Some j"
      using yes sub by auto
    obtain c' where "chat_session_release (chat\<lparr>ct_sessions := ht_locked (ct_sessions chat) (session_key sid cid) RDLOCK\<rparr>)
          (s\<lparr>se_sub := se_sub s\<rparr>) = Some c'" "subs_step chat c' sid cid (dom (ht_map sub_cmd (se_sub s)))"
      using release_subs[OF c s F(7)] by blast
    then show ?thesis
      using F(1)[of RDLOCK] sub_tab.query_some[OF F(7) TrueI n, of RDLOCK]
        sub_tab.unlock_ok[OF F(7) TrueI TrueI refl, of ?i RDLOCK]
      by (simp add: chat_has_sub_def p_chat_has_sub_def sub)
  qed
  show "chat_has_sub chat sid cmd cid = None" if no: "cmd \<notin> chat_subs chat sid cid"
  proof -
    have n: "ht_map sub_cmd (se_sub s) (sub_cmd ?i) = None" using no sub by auto
    show ?thesis
      using F(1)[of RDLOCK] sub_tab.query_none[OF F(7) TrueI n, of RDLOCK] sub_tab.unlock_quiet[OF F(7) TrueI, of RDLOCK ?i]
      by (simp add: chat_has_sub_def p_chat_has_sub_def)
  qed
qed

end
