(* ===== verification/Chat_Clean.thy ===== *)
theory Chat_Clean
  imports Chat_Sub
begin

text \<open>
  Removing empty rooms: \<open>chat_del_room\<close> (\<open>chat_tab.c\<close>) and the timer's \<open>chat_room_clean_hdl\<close>
  (\<open>chat.c\<close>).  The counters are 64 bits wide: \<open>chat_small\<close> says that no room holds \<open>2 ^ 64\<close> sessions,
  which no memory can.
\<close>

definition room_size :: "chat_room \<Rightarrow> nat" where
  "room_size r = (\<Sum>k\<in>UNIV. case ht_map gr_gid (rm_groups r) k of None \<Rightarrow> 0
     | Some g \<Rightarrow> length (ht_items (gr_sid_set g)))"

definition chat_small :: "chat_tab \<Rightarrow> bool" where
  "chat_small chat \<longleftrightarrow> (\<forall>rid r. ht_map rm_rid (ct_rooms chat) rid = Some r \<longrightarrow> room_size r < 2 ^ 64)"

lemma sid_num_size: assumes "room_ok r" shows "rm_sid_num r = of_nat (room_size r)"
proof -
  have "group_count (ht_map gr_gid (rm_groups r) k) = of_nat (case ht_map gr_gid (rm_groups r) k of None \<Rightarrow> 0
      | Some g \<Rightarrow> length (ht_items (gr_sid_set g)))" for k
    using room_okD(2)[OF assms, of k]
    by (auto simp: group_count_def group_ok_def tab_ok_def ht_ok_def split: option.split)
  then show ?thesis using assms by (simp add: room_ok_def room_size_def)
qed

lemma room_empty:
  assumes r: "room_ok r" and small: "room_size r < 2 ^ 64" and z: "rm_sid_num r = 0"
  shows "room_members r = {}" "ht_map gr_gid (rm_groups r) k = Some g \<Longrightarrow> ht_items (gr_sid_set g) = []"
proof -
  have "(of_nat (room_size r) :: u64) = 0" using sid_num_size[OF r] z by simp
  then have "2 ^ 64 dvd room_size r" by (simp add: word_of_nat_eq_0_iff)
  then have "room_size r = 0" using small by (auto dest: dvd_imp_le)
  then show e: "ht_items (gr_sid_set g) = []" if "ht_map gr_gid (rm_groups r) k = Some g" for k g
    using that unfolding room_size_def by (auto split: option.splits dest: spec[of _ k])
  show "room_members r = {}"
    using e by (auto simp: room_members_def ht_map_def)
qed

lemma groups_destroy:
  assumes "\<forall>g \<in> set gs. group_ok g \<and> ht_items (gr_sid_set g) = []"
  shows "chat_groups_destroy gs = Some ()"
  using assms
proof (induction gs)
  case (Cons g gs)
  have "sid_tab_ok (gr_sid_set g)" using Cons.prems by (simp add: group_ok_def)
  from sid_tab.destroy_tab[OF this] obtain ds where "hash_tab_destroy (gr_sid_set g) all_ok = Some ds"
    using Cons.prems by auto
  then show ?case using Cons by (simp add: chat_group_destroy_def)
qed simp

lemma room_destroy:
  assumes r: "room_ok r" and small: "room_size r < 2 ^ 64" and z: "rm_sid_num r = 0"
  shows "chat_room_destroy r = Some 0"
proof -
  note G = room_okD(1)[OF r]
  have "length (ht_items (rm_groups r)) \<le> card (gr_gid ` Collect (\<lambda>_ :: chat_group. True))"
    by (rule group_tab.items_bound[OF G]) simp
  also have "\<dots> \<le> card (UNIV :: u16 set)" by (rule card_mono) auto
  finally have "length (ht_items (rm_groups r)) < 2 ^ 64" by (simp add: card_word)
  from group_tab.destroy_tab[OF G this] obtain gs where
    gs: "hash_tab_destroy (rm_groups r) all_ok = Some gs" "mset gs = mset (ht_items (rm_groups r))" by blast
  have "\<forall>g \<in> set gs. group_ok g \<and> ht_items (gr_sid_set g) = []"
  proof
    fix g assume "g \<in> set gs"
    then have "g \<in> set (ht_items (rm_groups r))" using mset_eq_setD[OF gs(2)] by simp
    then have "ht_map gr_gid (rm_groups r) (gr_gid g) = Some g" using group_tab.items_map[OF G] by simp
    then show "group_ok g \<and> ht_items (gr_sid_set g) = []"
      using room_okD(2)[OF r] room_empty(2)[OF r small z] by blast
  qed
  then show ?thesis using gs(1) groups_destroy by (simp add: chat_room_destroy_def)
qed

text \<open>A room with sessions stays, an empty one goes; nobody's membership changes.\<close>

lemma del_room:
  assumes c: "chat_ok chat" and small: "chat_small chat" and v: "rid < half64"
  shows "\<exists>chat'. chat_del_room chat rid = Some (0, chat') \<and> chat_ok chat' \<and> chat_small chat' \<and>
     chat_members chat' = chat_members chat \<and> rest_same chat chat' \<and> ct_allocs chat' = ct_allocs chat \<and>
     ht_map rm_rid (ct_rooms chat') = (\<lambda>k. case ht_map rm_rid (ct_rooms chat) k of None \<Rightarrow> None
       | Some r \<Rightarrow> if k = rid \<and> rm_sid_num r = 0 then None else Some r)"
proof -
  note T = chat_okD(1)[OF c]
  let ?T = "ct_rooms chat" and ?k = "room_key rid"
  have k: "rm_rid ?k < half64" using v by simp
  show ?thesis
  proof (cases "ht_map rm_rid ?T rid")
    case None
    then have "chat_del_room chat rid = Some (0, chat)"
      using room_tab.query_none[OF T k] by (simp add: chat_del_room_def)
    then show ?thesis using c small None by (auto simp: rest_same_def fun_eq_iff split: option.split)
  next
    case (Some r)
    have rk: "ht_map rm_rid ?T (rm_rid ?k) = Some r" using Some by simp
    note Q = room_tab.query_some[OF T k rk]
    show ?thesis
    proof (cases "rm_sid_num r = 0")
      case False
      then have "chat_del_room chat rid = Some (0, chat)"
        using Q room_tab.unlock_ok[OF T k k refl] by (simp add: chat_del_room_def)
      then show ?thesis using c small Some False by (auto simp: rest_same_def fun_eq_iff split: option.split)
    next
      case True
      note D = room_tab.del[OF T k rk] room_tab.del_locked[OF T k rk]
      have ok: "room_ok r" "room_size r < 2 ^ 64"
        using chat_okD(2)[OF c Some] small Some by (auto simp: chat_small_def)
      let ?c = "chat\<lparr>ct_rooms := ht_del ?T ?k\<rparr>"
      have run: "chat_del_room chat rid = Some (0, ?c)"
        using Q D(7) room_tab.unlock_ok[OF D(2) k k refl] room_destroy[OF ok True] True
        by (simp add: chat_del_room_def)
      have m: "ht_map rm_rid (ht_del ?T ?k) = (ht_map rm_rid ?T)(rid := None)" using D(3) by simp
      have "chat_ok ?c" using c D(2) by (simp add: chat_ok_def m)
      moreover have "chat_small ?c" using small by (simp add: chat_small_def m)
      moreover have "chat_members ?c = chat_members chat"
        using room_empty(1)[OF ok True] Some by (auto simp: chat_members_def m split: if_splits)
      ultimately show ?thesis
        using run Some True by (intro exI[of _ ?c]) (auto simp: rest_same_def m fun_eq_iff split: option.split)
    qed
  qed
qed

text \<open>The list of empty rooms, and the loop over it.\<close>

lemma clean_list:
  "trav_list chat_room_clean_list_cb rs (cl, []) =
     Some (cl @ map rm_rid (filter (\<lambda>r. rm_sid_num r = 0) rs), [])"
  by (induction rs arbitrary: cl) (simp_all add: chat_room_clean_list_cb_def)

lemma clean_loop:
  assumes "chat_ok chat" and "chat_small chat" and "\<forall>rid \<in> set cl. rid < half64"
  shows "\<exists>chat'. chat_room_clean_loop cl chat = Some chat' \<and> chat_ok chat' \<and> chat_small chat' \<and>
     chat_members chat' = chat_members chat \<and> rest_same chat chat' \<and> ct_allocs chat' = ct_allocs chat \<and>
     ht_map rm_rid (ct_rooms chat') = (\<lambda>k. case ht_map rm_rid (ct_rooms chat) k of None \<Rightarrow> None
       | Some r \<Rightarrow> if k \<in> set (takeWhile (\<lambda>rid. rid \<noteq> 0) cl) \<and> rm_sid_num r = 0 then None else Some r)"
  using assms
proof (induction cl arbitrary: chat)
  case Nil
  then show ?case by (auto simp: rest_same_def fun_eq_iff split: option.split)
next
  case (Cons rid cl)
  show ?case
  proof (cases "rid = 0")
    case True
    then show ?thesis using Cons.prems by (auto simp: rest_same_def fun_eq_iff split: option.split)
  next
    case False
    obtain c1 where c1: "chat_del_room chat rid = Some (0, c1)" "chat_ok c1" "chat_small c1"
        "chat_members c1 = chat_members chat" "rest_same chat c1" "ct_allocs c1 = ct_allocs chat"
        "ht_map rm_rid (ct_rooms c1) = (\<lambda>k. case ht_map rm_rid (ct_rooms chat) k of None \<Rightarrow> None
           | Some r \<Rightarrow> if k = rid \<and> rm_sid_num r = 0 then None else Some r)"
      using del_room[OF Cons.prems(1,2), of rid] Cons.prems(3) by auto
    obtain c2 where c2: "chat_room_clean_loop cl c1 = Some c2" "chat_ok c2" "chat_small c2"
        "chat_members c2 = chat_members c1" "rest_same c1 c2" "ct_allocs c2 = ct_allocs c1"
        "ht_map rm_rid (ct_rooms c2) = (\<lambda>k. case ht_map rm_rid (ct_rooms c1) k of None \<Rightarrow> None
           | Some r \<Rightarrow> if k \<in> set (takeWhile (\<lambda>rid. rid \<noteq> 0) cl) \<and> rm_sid_num r = 0 then None else Some r)"
      using Cons.IH[OF c1(2,3)] Cons.prems(3) by auto
    have "ht_map rm_rid (ct_rooms c2) = (\<lambda>k. case ht_map rm_rid (ct_rooms chat) k of None \<Rightarrow> None
        | Some r \<Rightarrow> if k \<in> set (takeWhile (\<lambda>rid. rid \<noteq> 0) (rid # cl)) \<and> rm_sid_num r = 0 then None else Some r)"
      using False by (auto simp: c2(7) c1(7) fun_eq_iff split: option.split)
    then show ?thesis
      using c1 c2 False by (intro exI[of _ c2]) (simp add: rest_same_def)
  qed
qed

lemma room_items_bound:
  assumes "room_tab_ok R" shows "length (ht_items R) < 2 ^ 64"
proof -
  have "length (ht_items R) \<le> card {..< half64}"
    using room_tab.items_bound[OF assms] card_mono[of "{..< half64}" "rm_rid ` {r :: chat_room. rm_rid r < half64}"]
    by (auto simp: image_subset_iff)
  also have "card {..< half64} < card (UNIV :: u64 set)"
    by (rule psubset_card_mono) (auto simp: half64_def psubset_eq)
  finally show ?thesis by (simp add: card_word)
qed

text \<open>The rooms the timer looks at, in the order of the traversal.\<close>

definition clean_rooms :: "chat_tab \<Rightarrow> u64 list" where
  "clean_rooms chat = takeWhile (\<lambda>rid. rid \<noteq> 0)
     (map rm_rid (filter (\<lambda>r. rm_sid_num r = 0) (ht_items (ct_rooms chat))))"

lemma clean_ok:
  assumes c: "chat_ok chat" and small: "chat_small chat" and al: "ct_allocs chat = []"
  shows "\<exists>chat'. chat_room_clean_hdl chat = Some (0, chat') \<and> chat_ok chat' \<and> ct_allocs chat' = [] \<and>
     chat_members chat' = chat_members chat \<and> rest_same chat chat' \<and>
     ht_map rm_rid (ct_rooms chat') = (\<lambda>k. case ht_map rm_rid (ct_rooms chat) k of None \<Rightarrow> None
       | Some r \<Rightarrow> if k \<in> set (clean_rooms chat) \<and> rm_sid_num r = 0 then None else Some r)"
proof -
  note T = chat_okD(1)[OF c]
  let ?cl = "map rm_rid (filter (\<lambda>r. rm_sid_num r = 0) (ht_items (ct_rooms chat)))"
  have v: "\<forall>rid \<in> set ?cl. rid < half64"
    using room_tab.items_map[OF T] room_tab.map_valid[OF T] by auto
  obtain c1 where c1: "chat_room_clean_loop ?cl chat = Some c1" "chat_ok c1"
      "chat_members c1 = chat_members chat" "rest_same chat c1" "ct_allocs c1 = ct_allocs chat"
      "ht_map rm_rid (ct_rooms c1) = (\<lambda>k. case ht_map rm_rid (ct_rooms chat) k of None \<Rightarrow> None
         | Some r \<Rightarrow> if k \<in> set (clean_rooms chat) \<and> rm_sid_num r = 0 then None else Some r)"
    using clean_loop[OF c small v] unfolding clean_rooms_def by blast
  have same: "chat\<lparr>ct_allocs := []\<rparr> = chat" by (cases chat) (use al in simp)
  have "chat_room_clean_hdl chat = Some (0, c1)"
    using c1(1) by (simp add: chat_room_clean_hdl_def al room_tab.trav_tab[OF T room_items_bound[OF T]] clean_list same)
  then show ?thesis using c1 al by (intro exI[of _ c1]) simp
qed

end
