(* ===== verification/Chat_Reach.thy ===== *)
theory Chat_Reach
  imports Chat_Clean
begin

text \<open>
  The chat module as a state machine: \<open>chat_step\<close> is one call of an operation of \<open>chat.h\<close> with keys
  below \<open>2 ^ 63\<close> and allocations that succeed.  Every operation returns from a reachable state
  and keeps \<open>chat_inv\<close>: whoever is a member of a group of a room has a session whose own list names
  that place.  (\<open>chat_room_del_session\<close> is no step: it leaves a lock held, see
  \<open>room_del_known\<close>.)
\<close>

definition chat_linked :: "chat_tab \<Rightarrow> bool" where
  "chat_linked chat \<longleftrightarrow> (\<forall>rid g sid cid. (rid, g, sid, cid) \<in> chat_members chat \<longrightarrow>
     (\<exists>s i. chat_session_of chat sid cid = Some s \<and> ht_map ri_rid (se_room s) rid = Some i \<and> ucast (ri_gid i) = g))"

definition chat_inv :: "chat_tab \<Rightarrow> bool" where
  "chat_inv chat \<longleftrightarrow> chat_ok chat \<and> ct_allocs chat = [] \<and> chat_linked chat \<and>
     (\<forall>sid cid. chat_cid_of chat sid = Some cid \<longrightarrow> cid < half64)"

inductive chat_step :: "chat_tab \<Rightarrow> chat_tab \<Rightarrow> bool" where
  step_join: "rid < half64 \<Longrightarrow> sid < half64 \<Longrightarrow> cid < half64 \<Longrightarrow>
    chat_room_add_session chat rid gid sid cid = Some (r32, chat') \<Longrightarrow> chat_step chat chat'"
| step_del_session: "sid < half64 \<Longrightarrow> cid < half64 \<Longrightarrow>
    chat_del_session chat sid cid = Some (r, chat') \<Longrightarrow> chat_step chat chat'"
| step_set_cid: "sid < half64 \<Longrightarrow> cid < half64 \<Longrightarrow>
    chat_set_sid_to_cid chat sid cid = Some (r, chat') \<Longrightarrow> chat_step chat chat'"
| step_del_cid: "sid < half64 \<Longrightarrow>
    chat_del_sid_to_cid chat sid cid = Some (r, chat') \<Longrightarrow> chat_step chat chat'"
| step_add_sub: "sid < half64 \<Longrightarrow> chat_add_sub chat sid cmd = Some (r, chat') \<Longrightarrow> chat_step chat chat'"
| step_del_sub: "sid < half64 \<Longrightarrow> chat_del_sub chat sid cmd = Some (r, chat') \<Longrightarrow> chat_step chat chat'"
| step_clean: "chat_small chat \<Longrightarrow> chat_room_clean_hdl chat = Some (r, chat') \<Longrightarrow> chat_step chat chat'"

inductive chat_reach :: "chat_tab \<Rightarrow> bool" where
  reach_init: "0 < len \<Longrightarrow> len < 2 ^ 31 \<Longrightarrow> chat_tab_init len now [] = Some (Some chat) \<Longrightarrow> chat_reach chat"
| reach_step: "chat_reach chat \<Longrightarrow> chat_step chat chat' \<Longrightarrow> chat_reach chat'"

inductive_cases chat_stepE: "chat_step chat chat'"

subsection \<open>The initial state\<close>

lemma init_ok:
  assumes "0 < len" "len < 2 ^ 31"
  shows "\<exists>chat. chat_tab_init len now [] = Some (Some chat) \<and> chat_inv chat \<and> chat_members chat = {} \<and>
    (\<forall>sid cid. chat_session_of chat sid cid = None) \<and> (\<forall>sid. chat_cid_of chat sid = None)"
proof -
  obtain R S T where R: "hash_tab_creat len chat_room_hash_cb chat_room_cmp_cb [] = Some (Some R, [])"
      "room_tab_ok R" "ht_map rm_rid R = Map.empty"
    and S: "hash_tab_creat len chat_session_hash_cb chat_session_cmp_cb [] = Some (Some S, [])"
      "session_tab_ok S" "ht_map se_pair S = Map.empty"
    and T: "hash_tab_creat len chat_sid2cid_hash_cb chat_sid2cid_cmp_cb [] = Some (Some T, [])"
      "sid2cid_tab_ok T" "ht_map sc_sid T = Map.empty"
    using room_tab.creat_tab_success[OF assms] session_tab.creat_tab_success[OF assms]
      sid2cid_tab.creat_tab_success[OF assms] by blast
  let ?c = "\<lparr>ct_rooms = R, ct_sessions = S, ct_sid2cids = T, ct_allocs = [], ct_now = now\<rparr>"
  have "chat_tab_init len now [] = Some (Some ?c)"
    by (simp add: chat_tab_init_def R(1) S(1) T(1))
  moreover have "chat_ok ?c" using R S T by (simp add: chat_ok_def)
  moreover have m: "chat_members ?c = {}" using R(3) by (simp add: chat_members_def)
  ultimately show ?thesis
    using S(3) T(3) by (intro exI[of _ ?c]) (simp add: chat_inv_def chat_linked_def chat_session_of_def chat_cid_of_def)
qed

subsection \<open>Each operation returns and keeps the invariant\<close>

lemma inv_frame:
  assumes "chat_inv chat" and "chat_ok chat'" and "ct_allocs chat' = []"
    and "chat_members chat' \<subseteq> chat_members chat"
    and "\<And>sid cid. map_option se_room (chat_session_of chat' sid cid) = map_option se_room (chat_session_of chat sid cid)"
    and "\<And>sid cid. chat_cid_of chat' sid = Some cid \<Longrightarrow> cid < half64"
  shows "chat_inv chat'"
proof -
  have "\<exists>s i. chat_session_of chat' sid cid = Some s \<and> ht_map ri_rid (se_room s) rid = Some i \<and> ucast (ri_gid i) = g"
    if m: "(rid, g, sid, cid) \<in> chat_members chat'" for rid g sid cid
  proof -
    obtain s i where s: "chat_session_of chat sid cid = Some s" "ht_map ri_rid (se_room s) rid = Some i"
        "ucast (ri_gid i) = g"
      using assms(1,4) m unfolding chat_inv_def chat_linked_def by blast
    obtain s' where "chat_session_of chat' sid cid = Some s'" "se_room s' = se_room s"
      using assms(5)[of sid cid] s(1) by auto
    then show ?thesis using s(2,3) by auto
  qed
  then show ?thesis using assms(2,3,6) unfolding chat_inv_def chat_linked_def by blast
qed

lemma join_inv:
  assumes i: "chat_inv chat" and v: "rid < half64" "sid < half64" "cid < half64"
  shows "\<exists>r chat'. chat_room_add_session chat rid gid sid cid = Some (r, chat') \<and> chat_inv chat'"
proof (cases "chat_session_of chat sid cid")
  case None
  have c: "chat_ok chat" "ct_allocs chat = []" "chat_linked chat" using i by (auto simp: chat_inv_def)
  obtain chat' s where n: "chat_room_add_session chat rid gid sid cid = Some (0, chat')" "chat_ok chat'"
      "ct_allocs chat' = []" "ct_sid2cids chat' = ct_sid2cids chat"
      "chat_members chat' = insert (rid, ucast gid, sid, cid) (chat_members chat)"
      "ht_map se_pair (ct_sessions chat') = (ht_map se_pair (ct_sessions chat))((sid, cid) \<mapsto> s)"
      "ht_map ri_rid (se_room s) = [rid \<mapsto> \<lparr>ri_rid = rid, ri_gid = gid\<rparr>]"
    using add_session_new[OF c(1,2) v, of gid] None unfolding chat_session_of_def by blast
  have "chat_linked chat'"
    unfolding chat_linked_def
  proof (intro allI impI)
    fix rid' g sid' cid' assume m: "(rid', g, sid', cid') \<in> chat_members chat'"
    show "\<exists>s i. chat_session_of chat' sid' cid' = Some s \<and> ht_map ri_rid (se_room s) rid' = Some i \<and> ucast (ri_gid i) = g"
    proof (cases "(rid', g, sid', cid') = (rid, ucast gid, sid, cid)")
      case True
      then show ?thesis using n(6,7) by (simp add: chat_session_of_def)
    next
      case False
      then obtain s' j where s': "chat_session_of chat sid' cid' = Some s'" "ht_map ri_rid (se_room s') rid' = Some j"
          "ucast (ri_gid j) = g"
        using m n(5) c(3) unfolding chat_linked_def by blast
      then have "(sid', cid') \<noteq> (sid, cid)" using None by auto
      then show ?thesis using s' n(6) by (auto simp: chat_session_of_def)
    qed
  qed
  then show ?thesis using n i by (auto simp: chat_inv_def chat_cid_of_def)
next
  case (Some s)
  have c: "chat_ok chat" "ct_allocs chat = []" "chat_linked chat" using i by (auto simp: chat_inv_def)
  obtain chat' s' g where n: "chat_room_add_session chat rid gid sid cid = Some (g, chat')" "chat_ok chat'"
      "ct_allocs chat' = []" "ct_rooms chat' = ct_rooms chat" "ct_sid2cids chat' = ct_sid2cids chat"
      "ht_map se_pair (ct_sessions chat') = (ht_map se_pair (ct_sessions chat))((sid, cid) \<mapsto> s')"
      "ht_map ri_rid (se_room s') = (case ht_map ri_rid (se_room s) rid of Some i \<Rightarrow> ht_map ri_rid (se_room s)
         | None \<Rightarrow> (ht_map ri_rid (se_room s))(rid \<mapsto> \<lparr>ri_rid = rid, ri_gid = gid\<rparr>))"
    using add_session_known[OF c(1,2) v(1) Some[unfolded chat_session_of_def], of gid] by blast
  have m: "chat_members chat' = chat_members chat" by (simp add: chat_members_def n(4))
  have "chat_linked chat'"
    unfolding chat_linked_def
  proof (intro allI impI)
    fix rid' g sid' cid' assume "(rid', g, sid', cid') \<in> chat_members chat'"
    then obtain s1 j where s1: "chat_session_of chat sid' cid' = Some s1" "ht_map ri_rid (se_room s1) rid' = Some j"
        "ucast (ri_gid j) = g"
      using m c(3) unfolding chat_linked_def by blast
    show "\<exists>s i. chat_session_of chat' sid' cid' = Some s \<and> ht_map ri_rid (se_room s) rid' = Some i \<and> ucast (ri_gid i) = g"
    proof (cases "(sid', cid') = (sid, cid)")
      case True
      then have "s1 = s" using s1(1) Some by simp
      then have "ht_map ri_rid (se_room s') rid' = Some j" using s1(2) n(7) by (auto split: option.splits)
      then show ?thesis using True n(6) s1(3) by (simp add: chat_session_of_def)
    next
      case False
      then show ?thesis using s1 n(6) by (auto simp: chat_session_of_def)
    qed
  qed
  then show ?thesis using n i by (auto simp: chat_inv_def chat_cid_of_def)
qed

lemma cid_bound_upd:
  "chat_inv chat \<Longrightarrow> chat_cid_of chat' = (if P then (chat_cid_of chat)(sid := None) else chat_cid_of chat) \<Longrightarrow>
   chat_cid_of chat' x = Some y \<Longrightarrow> y < half64"
  by (auto simp: chat_inv_def split: if_splits)

lemma conn_sessions: "conn_same chat chat' \<Longrightarrow> chat_session_of chat' sid cid = chat_session_of chat sid cid"
  "conn_same chat chat' \<Longrightarrow> chat_members chat' = chat_members chat"
  by (simp_all add: conn_same_def chat_session_of_def chat_members_def)

lemma inv_cid:
  "chat_inv chat \<Longrightarrow> chat_ok chat' \<Longrightarrow> conn_same chat chat' \<Longrightarrow>
   (\<And>x y. chat_cid_of chat' x = Some y \<Longrightarrow> y < half64) \<Longrightarrow> chat_inv chat'"
  by (rule inv_frame) (auto simp: conn_sessions, simp add: conn_same_def chat_inv_def)

lemma set_cid_inv:
  assumes i: "chat_inv chat" and v: "sid < half64" "cid < half64"
  shows "\<exists>r chat'. chat_set_sid_to_cid chat sid cid = Some (r, chat') \<and> chat_inv chat'"
proof -
  have c: "chat_ok chat" "ct_allocs chat = []" using i by (auto simp: chat_inv_def)
  obtain chat' where n: "chat_set_sid_to_cid chat sid cid = Some (0, chat')" "chat_ok chat'"
      "chat_cid_of chat' = (chat_cid_of chat)(sid \<mapsto> cid)" "conn_same chat chat'"
    using set_cid[OF c v(1)] by blast
  have "chat_inv chat'"
    by (rule inv_cid[OF i n(2,4)]) (use i v n(3) in \<open>auto simp: chat_inv_def split: if_splits\<close>)
  then show ?thesis using n(1) by blast
qed

lemma del_cid_inv:
  assumes i: "chat_inv chat" and v: "sid < half64"
  shows "\<exists>r chat'. chat_del_sid_to_cid chat sid cid = Some (r, chat') \<and> chat_inv chat'"
proof -
  have c: "chat_ok chat" using i by (auto simp: chat_inv_def)
  obtain chat' where n: "chat_del_sid_to_cid chat sid cid = Some (0, chat')" "chat_ok chat'"
      "chat_cid_of chat' = (if chat_cid_of chat sid = Some cid then (chat_cid_of chat)(sid := None)
         else chat_cid_of chat)" "conn_same chat chat'"
    using del_cid[OF c v] by blast
  have "chat_inv chat'" by (rule inv_cid[OF i n(2,4)]) (rule cid_bound_upd[OF i n(3)])
  then show ?thesis using n(1) by blast
qed

text \<open>Once a session is removed it is a member of nothing.\<close>

lemma linked_places:
  assumes "chat_linked chat" and "chat_session_of chat sid cid = Some s" "se_sid s = sid" "se_cid s = cid"
    and "(rid, g, sid, cid) \<in> chat_members chat"
  shows "(rid, g, sid, cid) \<in> session_places s"
  using assms unfolding chat_linked_def session_places_def by fastforce

lemma del_session_inv:
  assumes i: "chat_inv chat" and v: "sid < half64" "cid < half64"
  shows "\<exists>chat'. chat_del_session chat sid cid = Some (0, chat') \<and> chat_inv chat' \<and>
    chat_session_of chat' sid cid = None \<and> (\<forall>rid g. (rid, g, sid, cid) \<notin> chat_members chat') \<and>
    (\<forall>rid g s c. (s, c) \<noteq> (sid, cid) \<longrightarrow>
       ((rid, g, s, c) \<in> chat_members chat') = ((rid, g, s, c) \<in> chat_members chat)) \<and>
    chat_cid_of chat' sid \<noteq> Some cid"
proof (cases "chat_session_of chat sid cid")
  case None
  have c: "chat_ok chat" "chat_linked chat" using i by (auto simp: chat_inv_def)
  obtain chat' where n: "chat_del_session chat sid cid = Some (0, chat')" "chat_ok chat'" "conn_same chat chat'"
      "chat_cid_of chat' = (if chat_cid_of chat sid = Some cid then (chat_cid_of chat)(sid := None)
         else chat_cid_of chat)"
    using del_session_unknown[OF c(1) v] None unfolding chat_session_of_def by blast
  have "chat_inv chat'" by (rule inv_cid[OF i n(2,3)]) (rule cid_bound_upd[OF i n(4)])
  moreover have "(rid, g, sid, cid) \<notin> chat_members chat" for rid g
    using None c(2) unfolding chat_linked_def by fastforce
  ultimately show ?thesis using n None by (simp add: conn_sessions)
next
  case (Some s)
  have c: "chat_ok chat" "chat_linked chat" "ct_allocs chat = []" using i by (auto simp: chat_inv_def)
  note F = session_found[OF c(1) Some]
  obtain chat' where n: "chat_del_session chat sid cid = Some (0, chat')" "chat_ok chat'"
      "ct_allocs chat' = ct_allocs chat" "chat_members chat' = chat_members chat - session_places s"
      "ht_map se_pair (ct_sessions chat') = (ht_map se_pair (ct_sessions chat))((sid, cid) := None)"
      "chat_cid_of chat' = (if chat_cid_of chat sid = Some cid then (chat_cid_of chat)(sid := None)
         else chat_cid_of chat)"
    using del_session_known[OF c(1) Some[unfolded chat_session_of_def]] by blast
  have gone: "(rid, g, sid, cid) \<notin> chat_members chat'" for rid g
    using linked_places[OF c(2) Some F(3,4)] n(4) by blast
  have others: "(s, c) \<noteq> (sid, cid) \<Longrightarrow> chat_session_of chat' s c = chat_session_of chat s c" for s c
    using n(5) by (auto simp: chat_session_of_def)
  have keep: "((rid, g, s', c') \<in> chat_members chat') = ((rid, g, s', c') \<in> chat_members chat)"
    if "(s', c') \<noteq> (sid, cid)" for rid g s' c'
    using that n(4) F(3,4) by (auto simp: session_places_def)
  have "chat_linked chat'"
    unfolding chat_linked_def
  proof (intro allI impI)
    fix rid g s' c' assume m: "(rid, g, s', c') \<in> chat_members chat'"
    then have "(s', c') \<noteq> (sid, cid)" using gone by blast
    then show "\<exists>s i. chat_session_of chat' s' c' = Some s \<and> ht_map ri_rid (se_room s) rid = Some i \<and> ucast (ri_gid i) = g"
      using c(2) m keep others unfolding chat_linked_def by metis
  qed
  then have "chat_inv chat'"
    using n(2,3) c(3) cid_bound_upd[OF i n(6)] unfolding chat_inv_def by simp
  moreover have "chat_session_of chat' sid cid = None" using n(5) by (simp add: chat_session_of_def)
  ultimately show ?thesis using n(1,6) gone keep by simp
qed

lemma subs_inv:
  assumes i: "chat_inv chat" and "subs_step chat chat' sid cid A"
  shows "chat_inv chat'"
proof (rule inv_frame[OF i])
  show "chat_ok chat'" "ct_allocs chat' = []" "chat_members chat' \<subseteq> chat_members chat"
    using assms by (auto simp: subs_step_def chat_inv_def chat_members_def)
  show "map_option se_room (chat_session_of chat' s c) = map_option se_room (chat_session_of chat s c)" for s c
    using assms(2) by (cases "(s, c) = (sid, cid)") (auto simp: subs_step_def)
  show "chat_cid_of chat' s = Some c \<Longrightarrow> c < half64" for s c
    using assms by (simp add: subs_step_def chat_inv_def chat_cid_of_def)
qed

lemma add_sub_inv:
  assumes i: "chat_inv chat" and v: "sid < half64"
  shows "\<exists>r chat'. chat_add_sub chat sid cmd = Some (r, chat') \<and> chat_inv chat'"
proof -
  have c: "chat_ok chat" "ct_allocs chat = []" using i by (auto simp: chat_inv_def)
  have same: "chat\<lparr>ct_allocs := []\<rparr> = chat" "chat\<lparr>ct_sessions := ct_sessions chat\<rparr> = chat"
    by (cases chat, use c(2) in simp)+
  note g = get_cid[OF c(1) v]
  show ?thesis
  proof (cases "chat_cid_of chat sid = None \<or> chat_cid_of chat sid = Some 0")
    case True
    then have "chat_add_sub chat sid cmd = Some (- 1, chat)" using g c(2) by (auto simp: chat_add_sub_def same(1))
    then show ?thesis using i by blast
  next
    case False
    then obtain cid where cid: "chat_cid_of chat sid = Some cid" "cid \<noteq> 0" by auto
    show ?thesis
    proof (cases "chat_session_of chat sid cid")
      case None
      have "cid < half64" using i cid(1) by (simp add: chat_inv_def)
      then have "hash_tab_query (ct_sessions chat) (session_key sid cid) RDLOCK = Some (None, ct_sessions chat)"
        using session_tab.query_none[OF chat_okD(3)[OF c(1)]] None v by (simp add: chat_session_of_def)
      then have "chat_add_sub chat sid cmd = Some (- 1, chat)" using g c(2) cid by (simp add: chat_add_sub_def same)
      then show ?thesis using i by blast
    next
      case (Some s)
      show ?thesis using add_sub_ok[OF c cid Some] subs_inv[OF i] by blast
    qed
  qed
qed

lemma del_sub_inv:
  assumes i: "chat_inv chat" and v: "sid < half64"
  shows "\<exists>r chat'. chat_del_sub chat sid cmd = Some (r, chat') \<and> chat_inv chat'"
proof -
  have c: "chat_ok chat" using i by (auto simp: chat_inv_def)
  have same: "chat\<lparr>ct_sessions := ct_sessions chat\<rparr> = chat" by (cases chat) simp
  note g = get_cid[OF c v]
  show ?thesis
  proof (cases "chat_cid_of chat sid = None \<or> chat_cid_of chat sid = Some 0")
    case True
    then have "chat_del_sub chat sid cmd = Some (- 1, chat)" using g by (auto simp: chat_del_sub_def)
    then show ?thesis using i by blast
  next
    case False
    then obtain cid where cid: "chat_cid_of chat sid = Some cid" "cid \<noteq> 0" by auto
    show ?thesis
    proof (cases "chat_session_of chat sid cid")
      case None
      have "cid < half64" using i cid(1) by (simp add: chat_inv_def)
      then have "hash_tab_query (ct_sessions chat) (session_key sid cid) RDLOCK = Some (None, ct_sessions chat)"
        using session_tab.query_none[OF chat_okD(3)[OF c]] None v by (simp add: chat_session_of_def)
      then have "chat_del_sub chat sid cmd = Some (- 1, chat)" using g cid by (simp add: chat_del_sub_def same)
      then show ?thesis using i by blast
    next
      case (Some s)
      show ?thesis using del_sub_ok[OF c cid Some] subs_inv[OF i] by blast
    qed
  qed
qed

lemma clean_inv:
  assumes i: "chat_inv chat" and small: "chat_small chat"
  shows "\<exists>r chat'. chat_room_clean_hdl chat = Some (r, chat') \<and> chat_inv chat'"
proof -
  have c: "chat_ok chat" "ct_allocs chat = []" using i by (auto simp: chat_inv_def)
  obtain chat' where n: "chat_room_clean_hdl chat = Some (0, chat')" "chat_ok chat'" "ct_allocs chat' = []"
      "chat_members chat' = chat_members chat" "rest_same chat chat'"
    using clean_ok[OF c(1) small c(2)] by blast
  have "chat_inv chat'"
    by (rule inv_frame[OF i n(2,3)]) (use n(4,5) i in \<open>auto simp: rest_same_def chat_session_of_def chat_cid_of_def chat_inv_def\<close>)
  then show ?thesis using n(1) by blast
qed

lemma step_inv: "chat_step chat chat' \<Longrightarrow> chat_inv chat \<Longrightarrow> chat_inv chat'"
proof (induction rule: chat_step.induct)
  case (step_join rid sid cid chat gid r32 chat')
  then show ?case using join_inv[of chat rid sid cid gid] by auto
next
  case (step_del_session sid cid chat r chat')
  then show ?case using del_session_inv[of chat sid cid] by auto
next
  case (step_set_cid sid cid chat r chat')
  then show ?case using set_cid_inv[of chat sid cid] by auto
next
  case (step_del_cid sid chat cid r chat')
  then show ?case using del_cid_inv[of chat sid cid] by auto
next
  case (step_add_sub sid chat cmd r chat')
  then show ?case using add_sub_inv[of chat sid cmd] by auto
next
  case (step_del_sub sid chat cmd r chat')
  then show ?case using del_sub_inv[of chat sid cmd] by auto
next
  case (step_clean chat r chat')
  then show ?case using clean_inv[of chat] by auto
qed

lemma reach_inv: "chat_reach chat \<Longrightarrow> chat_inv chat"
proof (induction rule: chat_reach.induct)
  case (reach_init len now chat)
  then show ?case using init_ok[of len now] by auto
qed (rule step_inv)

end
