(* ===== verification/Chat_Spec.thy ===== *)
theory Chat_Spec
  imports Hash_Spec Chat_Reach
begin

text \<open>
  What the chat module promises, over the states its operations reach (\<open>chat_reach\<close>).  The witnesses
  start from a fresh table and run operations one after the other.
\<close>

subsection \<open>States to start from\<close>

text \<open>A fresh table of three slots, and the same after session 10/20 has joined group 1 of room 7.\<close>

lemma fresh:
  obtains chat where "chat_tab_init 3 0 [] = Some (Some chat)" "chat_reach chat" "chat_members chat = {}"
    "\<forall>sid cid. chat_session_of chat sid cid = None" "\<forall>sid. chat_cid_of chat sid = None"
proof -
  obtain chat where c: "chat_tab_init 3 0 [] = Some (Some chat)" "chat_members chat = {}"
      "\<forall>sid cid. chat_session_of chat sid cid = None" "\<forall>sid. chat_cid_of chat sid = None"
    using init_ok[of 3 0] by auto
  then have "chat_reach chat" using reach_init[of 3 0] by simp
  with c that show thesis by blast
qed

lemma small_keys [simp]: "(7 :: u64) < half64" "(8 :: u64) < half64" "(10 :: u64) < half64" "(20 :: u64) < half64"
  by (simp_all add: half64_def)

lemma joined:
  obtains c0 c1 s where "chat_tab_init 3 0 [] = Some (Some c0)"
    "chat_room_add_session c0 7 1 10 20 = Some (0, c1)" "chat_reach c1" "chat_members c1 = {(7, 1, 10, 20)}"
    "chat_session_of c1 10 20 = Some s" "ht_map ri_rid (se_room s) = [7 \<mapsto> \<lparr>ri_rid = 7, ri_gid = 1\<rparr>]"
    "chat_subs c1 10 20 = {}" "chat_cid_of c1 10 = None"
proof -
  obtain c0 where c0: "chat_tab_init 3 0 [] = Some (Some c0)" "chat_reach c0" "chat_members c0 = {}"
    "\<forall>sid cid. chat_session_of c0 sid cid = None" "\<forall>sid. chat_cid_of c0 sid = None" by (rule fresh)
  have i: "chat_ok c0" "ct_allocs c0 = []" using reach_inv[OF c0(2)] by (auto simp: chat_inv_def)
  obtain c1 s where c1: "chat_room_add_session c0 7 1 10 20 = Some (0, c1)"
      "chat_members c1 = {(7, 1, 10, 20)}" "ct_sid2cids c1 = ct_sid2cids c0"
      "ht_map se_pair (ct_sessions c1) = (ht_map se_pair (ct_sessions c0))((10, 20) \<mapsto> s)"
      "ht_map ri_rid (se_room s) = [7 \<mapsto> \<lparr>ri_rid = 7, ri_gid = 1\<rparr>]" "ht_map sub_cmd (se_sub s) = Map.empty"
    using add_session_new[OF i, of 7 10 20 1] c0(3,4) by (auto simp: chat_session_of_def)
  have "chat_reach c1" by (rule reach_step[OF c0(2) step_join[OF _ _ _ c1(1)]]) simp_all
  moreover have "chat_session_of c1 10 20 = Some s" using c1(4) by (simp add: chat_session_of_def)
  moreover have "chat_cid_of c1 10 = None" using c0(5) c1(3) by (simp add: chat_cid_of_def)
  ultimately show thesis
    using that c0(1) c1 by (simp add: chat_subs_def session_subs_def)
qed

subsection \<open>Properties\<close>

text \<open>C8: a session that is not known joins a room.  \<open>chat_room_add_session\<close> returns 0; exactly the one
  membership is added (the room and the group are made when they are missing; the group id is cut to
  16 bits), and the session is registered with this room and without subscriptions.\<close>

theorem chat_join_new:
  assumes "chat_reach chat" and "rid < half64" "sid < half64" "cid < half64"
    and "chat_session_of chat sid cid = None"
  shows "\<exists>chat' s. chat_room_add_session chat rid gid sid cid = Some (0, chat') \<and> chat_reach chat' \<and>
     chat_members chat' = insert (rid, ucast gid, sid, cid) (chat_members chat) \<and>
     chat_session_of chat' sid cid = Some s \<and>
     ht_map ri_rid (se_room s) = [rid \<mapsto> \<lparr>ri_rid = rid, ri_gid = gid\<rparr>] \<and> chat_subs chat' sid cid = {} \<and>
     chat_cid_of chat' = chat_cid_of chat"
proof -
  have i: "chat_ok chat" "ct_allocs chat = []" using reach_inv[OF assms(1)] by (auto simp: chat_inv_def)
  obtain chat' s where n: "chat_room_add_session chat rid gid sid cid = Some (0, chat')"
      "chat_members chat' = insert (rid, ucast gid, sid, cid) (chat_members chat)"
      "ct_sid2cids chat' = ct_sid2cids chat"
      "ht_map se_pair (ct_sessions chat') = (ht_map se_pair (ct_sessions chat))((sid, cid) \<mapsto> s)"
      "ht_map ri_rid (se_room s) = [rid \<mapsto> \<lparr>ri_rid = rid, ri_gid = gid\<rparr>]" "ht_map sub_cmd (se_sub s) = Map.empty"
    using add_session_new[OF i assms(2-4), of gid] assms(5) unfolding chat_session_of_def by blast
  have "chat_reach chat'" by (rule reach_step[OF assms(1) step_join[OF assms(2-4) n(1)]])
  with n show ?thesis
    by (intro exI[of _ chat'] exI[of _ s])
      (simp add: chat_session_of_def chat_subs_def session_subs_def chat_cid_of_def fun_eq_iff)
qed

theorem chat_join_new_witness:
  "\<exists>c0 c1. chat_tab_init 3 0 [] = Some (Some c0) \<and> chat_room_add_session c0 7 65537 10 20 = Some (0, c1) \<and>
     chat_members c1 = {(7, 1, 10, 20)}"
proof -
  obtain c0 where c0: "chat_tab_init 3 0 [] = Some (Some c0)" "chat_reach c0" "chat_members c0 = {}"
    "\<forall>sid cid. chat_session_of c0 sid cid = None" "\<forall>sid. chat_cid_of c0 sid = None" by (rule fresh)
  from chat_join_new[OF c0(2) small_keys(1,3,4) c0(4)[rule_format], of 65537] c0(1,3)
  show ?thesis by (auto simp: unsigned_ucast_eq)
qed

text \<open>C9: a session that is known does not enter another room: \<open>chat_room_add_session\<close> returns the group
  the session has recorded for this room, or records the given one, but no group of any room changes.\<close>

theorem chat_join_known:
  assumes "chat_reach chat" and "rid < half64" and "chat_session_of chat sid cid = Some s"
  shows "\<exists>chat'. chat_room_add_session chat rid gid sid cid =
       Some (case ht_map ri_rid (se_room s) rid of Some i \<Rightarrow> ri_gid i | None \<Rightarrow> gid, chat') \<and>
     chat_reach chat' \<and> chat_members chat' = chat_members chat"
proof -
  have i: "chat_ok chat" "ct_allocs chat = []" using reach_inv[OF assms(1)] by (auto simp: chat_inv_def)
  obtain chat' g where n: "chat_room_add_session chat rid gid sid cid = Some (g, chat')"
      "ct_rooms chat' = ct_rooms chat" "g = (case ht_map ri_rid (se_room s) rid of Some i \<Rightarrow> ri_gid i | None \<Rightarrow> gid)"
    using add_session_known[OF i assms(2) assms(3)[unfolded chat_session_of_def], of gid] by blast
  have "chat_reach chat'"
    by (rule reach_step[OF assms(1) step_join[OF assms(2) session_found(5,6)[OF i(1) assms(3)] n(1)]])
  moreover have "chat_members chat' = chat_members chat" by (simp add: chat_members_def n(2))
  ultimately show ?thesis using n(1,3) by blast
qed

theorem chat_join_known_witness:
  "\<exists>c0 c1 c2. chat_tab_init 3 0 [] = Some (Some c0) \<and> chat_room_add_session c0 7 1 10 20 = Some (0, c1) \<and>
     chat_room_add_session c1 8 2 10 20 = Some (2, c2) \<and> chat_members c2 = {(7, 1, 10, 20)}"
proof -
  obtain c0 c1 s where c: "chat_tab_init 3 0 [] = Some (Some c0)"
    "chat_room_add_session c0 7 1 10 20 = Some (0, c1)" "chat_reach c1" "chat_members c1 = {(7, 1, 10, 20)}"
    "chat_session_of c1 10 20 = Some s" "ht_map ri_rid (se_room s) = [7 \<mapsto> \<lparr>ri_rid = 7, ri_gid = 1\<rparr>]"
    "chat_subs c1 10 20 = {}" "chat_cid_of c1 10 = None" by (rule joined)
  from chat_join_known[OF c(3) small_keys(2) c(5), of 2] c show ?thesis by auto
qed

text \<open>C10: \<open>chat_room_del_session\<close> takes the session out of the room it names, but never releases the read
  lock it has taken: from then on \<open>chat_del_session\<close> of this session waits for ever.\<close>

theorem chat_leave_keeps_lock:
  assumes "chat_reach chat" and "rid < half64" and "chat_session_of chat sid cid = Some s"
    and "ht_map ri_rid (se_room s) rid = Some i"
  shows "\<exists>chat'. chat_room_del_session chat rid sid cid = Some (0, chat') \<and>
     chat_members chat' = chat_members chat - {(rid, ucast (ri_gid i), sid, cid)} \<and>
     chat_del_session chat' sid cid = None"
proof -
  have c: "chat_ok chat" using reach_inv[OF assms(1)] by (auto simp: chat_inv_def)
  obtain c1 where n: "chat_room_del_session chat rid sid cid =
       Some (0, c1\<lparr>ct_sessions := ht_locked (ct_sessions c1) (session_key sid cid) RDLOCK\<rparr>)" "chat_ok c1"
     "chat_members c1 = chat_members chat - {(rid, ucast (ri_gid i), sid, cid)}"
    using room_del_known[OF c assms(2) assms(3)[unfolded chat_session_of_def]] assms(4) by auto
  then show ?thesis using del_session_blocked[OF n(2) session_found(5,6)[OF c assms(3)]] by auto
qed

theorem chat_leave_keeps_lock_witness:
  "\<exists>c0 c1 c2. chat_tab_init 3 0 [] = Some (Some c0) \<and> chat_room_add_session c0 7 1 10 20 = Some (0, c1) \<and>
     chat_room_del_session c1 7 10 20 = Some (0, c2) \<and> chat_members c2 = {} \<and> chat_del_session c2 10 20 = None"
proof -
  obtain c0 c1 s where c: "chat_tab_init 3 0 [] = Some (Some c0)"
    "chat_room_add_session c0 7 1 10 20 = Some (0, c1)" "chat_reach c1" "chat_members c1 = {(7, 1, 10, 20)}"
    "chat_session_of c1 10 20 = Some s" "ht_map ri_rid (se_room s) = [7 \<mapsto> \<lparr>ri_rid = 7, ri_gid = 1\<rparr>]"
    "chat_subs c1 10 20 = {}" "chat_cid_of c1 10 = None" by (rule joined)
  from chat_leave_keeps_lock[OF c(3) small_keys(1) c(5), of "\<lparr>ri_rid = 7, ri_gid = 1\<rparr>"] c(1,2,4,6)
  show ?thesis by (auto simp: unsigned_ucast_eq)
qed

text \<open>C11: after \<open>chat_del_session\<close> the session is gone: it is registered nowhere, a member of no group of
  any room, and its id leads to its connection no more.  Nobody else's memberships change.\<close>

theorem chat_del_session_complete:
  assumes "chat_reach chat" and "sid < half64" "cid < half64"
  shows "\<exists>chat'. chat_del_session chat sid cid = Some (0, chat') \<and> chat_reach chat' \<and>
    chat_session_of chat' sid cid = None \<and> chat_cid_of chat' sid \<noteq> Some cid \<and>
    chat_members chat' = {m \<in> chat_members chat. snd (snd m) \<noteq> (sid, cid)}"
proof -
  obtain chat' where n: "chat_del_session chat sid cid = Some (0, chat')"
      "chat_session_of chat' sid cid = None" "\<forall>rid g. (rid, g, sid, cid) \<notin> chat_members chat'"
      "\<forall>rid g s c. (s, c) \<noteq> (sid, cid) \<longrightarrow>
         ((rid, g, s, c) \<in> chat_members chat') = ((rid, g, s, c) \<in> chat_members chat)"
      "chat_cid_of chat' sid \<noteq> Some cid"
    using del_session_inv[OF reach_inv[OF assms(1)] assms(2,3)] by blast
  have "m \<in> chat_members chat' \<longleftrightarrow> m \<in> chat_members chat \<and> snd (snd m) \<noteq> (sid, cid)" for m
    using n(3,4) by (cases m) fastforce
  then show ?thesis
    using n(1,2,5) reach_step[OF assms(1) step_del_session[OF assms(2,3) n(1)]] by blast
qed

theorem chat_del_session_complete_witness:
  "\<exists>c0 c1 c2. chat_tab_init 3 0 [] = Some (Some c0) \<and> chat_room_add_session c0 7 1 10 20 = Some (0, c1) \<and>
     chat_members c1 = {(7, 1, 10, 20)} \<and> chat_del_session c1 10 20 = Some (0, c2) \<and> chat_members c2 = {}"
proof -
  obtain c0 c1 s where c: "chat_tab_init 3 0 [] = Some (Some c0)"
    "chat_room_add_session c0 7 1 10 20 = Some (0, c1)" "chat_reach c1" "chat_members c1 = {(7, 1, 10, 20)}"
    "chat_session_of c1 10 20 = Some s" "ht_map ri_rid (se_room s) = [7 \<mapsto> \<lparr>ri_rid = 7, ri_gid = 1\<rparr>]"
    "chat_subs c1 10 20 = {}" "chat_cid_of c1 10 = None" by (rule joined)
  from chat_del_session_complete[OF c(3) small_keys(3,4)] c(1,2,4) show ?thesis by auto
qed











end
