(* ===== verification/Ring.thy ===== *)
theory Ring
  imports Prelude
begin

text \<open>
  The ring buffer of \<open>src/clang/lib/core/ring.c\<close> (\<open>ring_t\<close>, \<open>incl/ring.h\<close>) as one thread runs it, with
  \<open>power2\<close> of \<open>comm.c\<close>.  The four indices count modulo \<open>2 ^ 32\<close> and are cut to a slot by a mask; an
  access outside the array and a wait that nobody ends are \<open>None\<close>.  The ring is shown to be a
  bounded first-in-first-out queue (\<open>bounded_queue\<close>), also when the indices wrap around.
\<close>

unbundle bit_operations_syntax

subsection \<open>The code\<close>

text \<open>\<open>power2\<close> of \<open>comm.c\<close>, on the bits of an \<open>int\<close>; shifting by the width is undefined.\<close>

definition ISPOWEROF2 :: "u32 \<Rightarrow> bool" where
  "ISPOWEROF2 x \<longleftrightarrow> 0 = ((x - 1) AND x)"

definition power2 :: "u32 \<Rightarrow> u32 option" where
  "power2 v =
     (if ISPOWEROF2 v then Some v
      else let idx = fold (\<lambda>i idx. if bit v i then i else idx) [0..<32] 0 in
        if idx + 1 < 32 then Some (push_bit (idx + 1) 1) else None)"

record ring =
  rq_max :: u32
  rq_mask :: u32
  rq_num :: u32
  rq_data :: "addr list"
  prod_head :: u32
  prod_tail :: u32
  cons_head :: u32
  cons_tail :: u32

text \<open>A negative \<open>max\<close> makes \<open>calloc\<close> fail.\<close>

definition ring_creat :: "u32 \<Rightarrow> allocs \<Rightarrow> (ring option \<times> allocs) option" where
  "ring_creat n al = do {
     max \<leftarrow> power2 n;
     let (a, al) = alloc_take al;
     if \<not> a then Some (None, al)
     else let (b, al) = alloc_take al in
     if \<not> b \<or> bit max 31 then Some (None, al)
     else Some (Some \<lparr>rq_max = max, rq_mask = max - 1, rq_num = 0, rq_data = replicate (unat max) NULL,
            prod_head = 0, prod_tail = 0, cons_head = 0, cons_tail = 0\<rparr>, al) }"

text \<open>The loops that copy to and from the slots \<open>(pos + i) & mask\<close>.\<close>

fun ring_write :: "addr list \<Rightarrow> u32 \<Rightarrow> u32 \<Rightarrow> addr list \<Rightarrow> addr list option" where
  "ring_write data msk pos [] = Some data"
| "ring_write data msk pos (a # as) =
     (let k = unat (pos AND msk) in
      if k < length data then ring_write (data[k := a]) msk (pos + 1) as else None)"

fun ring_read :: "addr list \<Rightarrow> u32 \<Rightarrow> u32 \<Rightarrow> nat \<Rightarrow> addr list option" where
  "ring_read data msk pos 0 = Some []"
| "ring_read data msk pos (Suc n) =
     (let k = unat (pos AND msk) in
      if k < length data then do { as \<leftarrow> ring_read data msk (pos + 1) n; Some (data ! k # as) } else None)"

text \<open>\<open>ring_mpush\<close> with \<open>num\<close> the length of the list.  The compare-and-set succeeds at once.\<close>

definition ring_mpush :: "ring \<Rightarrow> addr list \<Rightarrow> (int \<times> ring) option" where
  "ring_mpush rq addr =
     (let num = of_nat (length addr); head = prod_head rq in
      if rq_max rq + cons_tail rq - head < num then Some (- 1, rq)
      else let next = head + num; rq = rq\<lparr>prod_head := next\<rparr> in
      do {
        data \<leftarrow> ring_write (rq_data rq) (rq_mask rq) head addr;
        if prod_tail rq \<noteq> head then None
        else Some (0, rq\<lparr>rq_data := data, prod_tail := next, rq_num := rq_num rq + num\<rparr>) })"

definition ring_mpop :: "ring \<Rightarrow> u32 \<Rightarrow> (u32 \<times> addr list \<times> ring) option" where
  "ring_mpop rq num =
     (let head = cons_head rq in
      if prod_tail rq - head < num then Some (0, [], rq)
      else let next = head + num; rq = rq\<lparr>cons_head := next\<rparr> in
      do {
        addr \<leftarrow> ring_read (rq_data rq) (rq_mask rq) head (unat num);
        if cons_tail rq \<noteq> head then None
        else Some (num, addr, rq\<lparr>cons_tail := next, rq_num := rq_num rq - num\<rparr>) })"

definition ring_push :: "ring \<Rightarrow> addr \<Rightarrow> (int \<times> ring) option" where
  "ring_push rq addr = ring_mpush rq [addr]"

definition ring_pop :: "ring \<Rightarrow> (addr \<times> ring) option" where
  "ring_pop rq = do {
     (n, addr, rq) \<leftarrow> ring_mpop rq 1;
     if n = 0 then Some (NULL, rq) else Some (hd addr, rq) }"

definition ring_used :: "ring \<Rightarrow> u32" where
  "ring_used rq = rq_num rq"

subsection \<open>Slots\<close>

lemma pos_mod:
  fixes x :: u32
  assumes "k \<le> 32" shows "unat ((x + of_nat i) AND mask k) = (unat x + i) mod 2 ^ k"
proof -
  have d: "(2 :: nat) ^ k dvd 2 ^ 32" by (rule le_imp_power_dvd[OF assms])
  have "unat ((x + of_nat i) AND mask k) = unat (x + of_nat i) mod 2 ^ k"
    by (simp only: take_bit_eq_mask[symmetric] unsigned_take_bit_eq) (simp only: take_bit_eq_mod)
  also have "unat (x + of_nat i) = (unat x + i mod 2 ^ 32) mod 2 ^ 32"
    by (simp add: unat_word_ariths unat_of_nat)
  also have "\<dots> mod 2 ^ k = (unat x + i) mod 2 ^ k"
    by (simp only: mod_mod_cancel[OF d] mod_add_right_eq)
  finally show ?thesis .
qed

lemma pos_inj:
  assumes "i < m" "j < m" "(x + i) mod m = (x + j) mod (m :: nat)" shows "i = j"
proof -
  have "m dvd x + (m - x mod m)" if "0 < m"
  proof -
    have "x + (m - x mod m) = m * (x div m) + x mod m + (m - x mod m)" by simp
    also have "\<dots> = m * (x div m) + m" using mod_less_divisor[OF that, of x] by linarith
    finally show ?thesis by (metis dvd_add_triv_right_iff dvd_triv_left)
  qed
  then have c: "(x + (m - x mod m) + n) mod m = n mod m" for n
    using assms(1) by (metis add_0 dvd_eq_mod_eq_0 less_nat_zero_code mod_add_left_eq neq0_conv)
  have "i mod m = ((x + i) + (m - x mod m)) mod m" using c[of i] by (simp add: ac_simps)
  also have "\<dots> = ((x + j) + (m - x mod m)) mod m" using assms(3) by (metis mod_add_left_eq)
  also have "\<dots> = j mod m" using c[of j] by (simp add: ac_simps)
  finally show ?thesis using assms(1,2) by simp
qed

definition cell :: "nat \<Rightarrow> u32 \<Rightarrow> nat \<Rightarrow> nat" where
  "cell k x i = unat ((x + of_nat i) AND mask k)"

lemma cell_less [simp]: "k \<le> 32 \<Longrightarrow> cell k x i < 2 ^ k"
  by (simp add: cell_def pos_mod)

lemma cell_inj: "k \<le> 32 \<Longrightarrow> i < 2 ^ k \<Longrightarrow> j < 2 ^ k \<Longrightarrow> (cell k x i = cell k x j) = (i = j)"
  unfolding cell_def using pos_inj[of i "2 ^ k" j "unat x"] by (auto simp: pos_mod)

lemma cell_add: "cell k (x + of_nat n) i = cell k x (n + i)"
  by (simp add: cell_def add.assoc)

lemma cell_Suc: "cell k (x + 1) i = cell k x (Suc i)"
  using cell_add[of k x 1 i] by simp

lemma cell_wrap: "k \<le> 32 \<Longrightarrow> cell k x (2 ^ k + i) = cell k x i"
  by (simp add: cell_def pos_mod del: of_nat_add) (simp only: add.left_commute[of "unat x" "2 ^ k"] mod_add_self1)

lemma cell_0: "unat (x AND mask k) = cell k x 0"
  by (simp add: cell_def)

lemma write_cells:
  assumes "k \<le> 32" and "length data = 2 ^ k"
  shows "length as \<le> 2 ^ k \<Longrightarrow> \<exists>data'. ring_write data (mask k) x as = Some data' \<and> length data' = 2 ^ k \<and>
    (\<forall>i < length as. data' ! cell k x i = as ! i) \<and>
    (\<forall>i. length as \<le> i \<and> i < 2 ^ k \<longrightarrow> data' ! cell k x i = data ! cell k x i)"
  using assms(2)
proof (induction "as" arbitrary: data x)
  case (Cons a "as")
  let ?d = "data[cell k x 0 := a]"
  obtain data' where d: "ring_write ?d (mask k) (x + 1) as = Some data'" "length data' = 2 ^ k"
      "\<forall>i < length as. data' ! cell k (x + 1) i = as ! i"
      "\<forall>i. length as \<le> i \<and> i < 2 ^ k \<longrightarrow> data' ! cell k (x + 1) i = ?d ! cell k (x + 1) i"
    using Cons.IH[of ?d "x + 1"] Cons.prems by auto
  have wrap: "cell k x 0 = cell k (x + 1) (2 ^ k - 1)"
    using cell_wrap[OF assms(1), of x 0] by (simp add: cell_Suc)
  have first: "data' ! cell k x 0 = a"
  proof (cases "length as \<le> 2 ^ k - 1")
    case True
    then have "data' ! cell k (x + 1) (2 ^ k - 1) = ?d ! cell k (x + 1) (2 ^ k - 1)" using d(4) by simp
    then show ?thesis using assms(1) Cons.prems(2) unfolding wrap[symmetric] by simp
  qed (use Cons.prems in simp)
  have "data' ! cell k x i = (a # as) ! i" if "i < length (a # as)" for i
    using that first d(3) by (cases i) (auto simp: cell_Suc)
  moreover have "data' ! cell k x i = data ! cell k x i" if "length (a # as) \<le> i" "i < 2 ^ k" for i
  proof (cases i)
    case (Suc j)
    then have "data' ! cell k x i = ?d ! cell k x i" using d(4) that by (simp add: cell_Suc)
    moreover have "cell k x i \<noteq> cell k x 0" using that Suc cell_inj[OF assms(1) that(2), of 0 x] by simp
    ultimately show ?thesis by simp
  qed (use that in simp)
  ultimately show ?case
    using d(1,2) assms(1) Cons.prems(2) by (simp add: cell_0)
qed simp

lemma read_cells:
  assumes "k \<le> 32" and "length data = 2 ^ k"
  shows "ring_read data (mask k) x n = Some (map (\<lambda>i. data ! cell k x i) [0..<n])"
proof (induction n arbitrary: x)
  case (Suc n)
  have "map (\<lambda>i. data ! cell k x i) [0..<Suc n] = data ! cell k x 0 # map (\<lambda>i. data ! cell k (x + 1) i) [0..<n]"
    by (simp only: upt_conv_Cons[OF zero_less_Suc] map_Suc_upt[symmetric] cell_Suc list.map map_map o_def)
  then show ?case using Suc assms by (simp add: cell_0)
qed simp

subsection \<open>The ring as a queue\<close>

definition ring_items :: "ring \<Rightarrow> addr list" where
  "ring_items rq = map (\<lambda>i. rq_data rq ! unat ((cons_head rq + of_nat i) AND rq_mask rq))
     [0..<unat (prod_tail rq - cons_head rq)]"

definition ring_cap :: "ring \<Rightarrow> nat" where
  "ring_cap rq = length (rq_data rq)"

definition ring_ok :: "ring \<Rightarrow> bool" where
  "ring_ok rq \<longleftrightarrow> (\<exists>k \<le> 30. rq_max rq = 2 ^ k \<and> rq_mask rq = mask k \<and> length (rq_data rq) = 2 ^ k) \<and>
     prod_head rq = prod_tail rq \<and> cons_head rq = cons_tail rq \<and>
     unat (prod_tail rq - cons_tail rq) \<le> length (rq_data rq) \<and> rq_num rq = prod_tail rq - cons_tail rq"

lemma ring_okE:
  assumes "ring_ok rq"
  obtains k where "k \<le> 30" "rq_max rq = 2 ^ k" "rq_mask rq = mask k" "length (rq_data rq) = 2 ^ k"
    "prod_head rq = prod_tail rq" "cons_head rq = cons_tail rq"
    "length (ring_items rq) \<le> 2 ^ k" "prod_tail rq = cons_tail rq + of_nat (length (ring_items rq))"
    "rq_num rq = of_nat (length (ring_items rq))"
    "ring_items rq = map (\<lambda>i. rq_data rq ! cell k (cons_tail rq) i) [0..<length (ring_items rq)]"
proof -
  obtain k where k: "k \<le> 30" "rq_max rq = 2 ^ k" "rq_mask rq = mask k" "length (rq_data rq) = 2 ^ k"
    using assms by (auto simp: ring_ok_def)
  have l: "length (ring_items rq) = unat (prod_tail rq - cons_tail rq)"
    using assms by (simp add: ring_ok_def ring_items_def)
  show thesis
  proof (rule that[OF k])
    show "ring_items rq = map (\<lambda>i. rq_data rq ! cell k (cons_tail rq) i) [0..<length (ring_items rq)]"
      unfolding l using assms k(3) by (simp add: ring_items_def ring_ok_def cell_def)
  qed (use assms k l in \<open>simp_all add: ring_ok_def\<close>)
qed

lemma pow_word: "k \<le> 30 \<Longrightarrow> (2 :: nat) ^ k \<le> 2 ^ 30"
  by (rule power_increasing) simp_all

lemma unat_small: "n < 2 ^ 32 \<Longrightarrow> unat (of_nat n :: u32) = n"
  by (subst unat_of_nat) simp

lemma room_word:
  assumes "k \<le> 30" and "n \<le> 2 ^ k" shows "unat (2 ^ k + x - (x + of_nat n) :: u32) = 2 ^ k - n"
proof -
  have "2 ^ k + x - (x + of_nat n) = (of_nat (2 ^ k) - of_nat n :: u32)" by simp
  also have "\<dots> = of_nat (2 ^ k - n)" by (rule of_nat_diff[OF assms(2), symmetric])
  also have "unat \<dots> = 2 ^ k - n" by (rule unat_small) (use pow_word[OF assms(1)] in simp)
  finally show ?thesis .
qed

lemma mpush_ok:
  assumes ok: "ring_ok rq" and n: "length as < 2 ^ 32"
  shows "if length (ring_items rq) + length as \<le> ring_cap rq
    then \<exists>rq'. ring_mpush rq as = Some (0, rq') \<and> ring_ok rq' \<and> ring_items rq' = ring_items rq @ as \<and>
      ring_cap rq' = ring_cap rq
    else ring_mpush rq as = Some (- 1, rq)"
proof -
  obtain k where k: "k \<le> 30" "rq_max rq = 2 ^ k" "rq_mask rq = mask k" "length (rq_data rq) = 2 ^ k"
    "prod_head rq = prod_tail rq" "cons_head rq = cons_tail rq"
    "length (ring_items rq) \<le> 2 ^ k" "prod_tail rq = cons_tail rq + of_nat (length (ring_items rq))"
    "rq_num rq = of_nat (length (ring_items rq))"
    "ring_items rq = map (\<lambda>i. rq_data rq ! cell k (cons_tail rq) i) [0..<length (ring_items rq)]"
    using ok by (rule ring_okE)
  let ?u = "length (ring_items rq)" and ?c = "cons_tail rq" and ?num = "of_nat (length as) :: u32"
  have num: "unat ?num = length as" by (rule unat_small[OF n])
  have room: "rq_max rq + ?c - prod_head rq < ?num \<longleftrightarrow> 2 ^ k < ?u + length as"
    unfolding word_less_nat_alt num k(2,5,8) room_word[OF k(1,7)] using k(7) by linarith
  have cap: "ring_cap rq = 2 ^ k" by (simp add: ring_cap_def k)
  show ?thesis
  proof (cases "?u + length as \<le> 2 ^ k")
    case True
    obtain data where d: "ring_write (rq_data rq) (mask k) (prod_head rq) as = Some data" "length data = 2 ^ k"
        "\<forall>i < length as. data ! cell k (prod_head rq) i = as ! i"
        "\<forall>i. length as \<le> i \<and> i < 2 ^ k \<longrightarrow> data ! cell k (prod_head rq) i = rq_data rq ! cell k (prod_head rq) i"
      using write_cells[of k "rq_data rq" "as" "prod_head rq"] k(1,4) True by auto
    let ?r = "rq\<lparr>prod_head := prod_head rq + ?num, rq_data := data, prod_tail := prod_head rq + ?num,
        rq_num := rq_num rq + ?num\<rparr>"
    have run: "ring_mpush rq as = Some (0, ?r)"
      using room True d(1) k(3,5) by (simp add: ring_mpush_def Let_def)
    have dist: "prod_tail ?r - cons_tail ?r = of_nat (?u + length as)" by (simp add: k(5,8))
    have b: "?u + length as < 2 ^ 32" using True pow_word[OF k(1)] by simp
    then have used: "unat (prod_tail ?r - cons_tail ?r) = ?u + length as"
      unfolding dist by (rule unat_small)
    have ok': "ring_ok ?r"
      using k(1-3,6) used d(2) True by (simp add: ring_ok_def k(5,8,9))
    have old: "data ! cell k ?c i = rq_data rq ! cell k ?c i" if i: "i < ?u" for i
    proof -
      have "cell k ?c i = cell k (prod_head rq) (2 ^ k - ?u + i)"
      proof -
        have "cell k (prod_head rq) (2 ^ k - ?u + i) = cell k ?c (?u + (2 ^ k - ?u + i))"
          by (simp only: k(5,8) cell_add)
        also have "?u + (2 ^ k - ?u + i) = 2 ^ k + i" using k(7) by simp
        also have "cell k ?c (2 ^ k + i) = cell k ?c i"
          using k(1) by (simp add: cell_wrap)
        finally show ?thesis by simp
      qed
      moreover have "length as \<le> 2 ^ k - ?u + i" "2 ^ k - ?u + i < 2 ^ k" using i True by linarith+
      ultimately show ?thesis using d(4) by simp
    qed
    have "ring_items ?r = map (\<lambda>i. data ! cell k ?c i) [0..<?u + length as]"
      using used k(3,6) by (simp add: ring_items_def[of ?r] cell_def)
    also have "\<dots> = ring_items rq @ as"
    proof (rule nth_equalityI)
      fix i assume "i < length (map (\<lambda>i. data ! cell k ?c i) [0..<?u + length as])"
      then have i: "i < ?u + length as" by simp
      show "map (\<lambda>i. data ! cell k ?c i) [0..<?u + length as] ! i = (ring_items rq @ as) ! i"
      proof (cases "i < ?u")
        case True
        have "ring_items rq ! i = rq_data rq ! cell k ?c i" by (subst k(10)) (use True in simp)
        then show ?thesis using True old i by (simp add: nth_append)
      next
        case False
        have "cell k ?c i = cell k (prod_head rq) (i - ?u)"
          using cell_add[of k ?c ?u "i - ?u"] False by (simp add: k(5,8))
        then show ?thesis using False i d(3) by (simp add: nth_append)
      qed
    qed simp
    finally show ?thesis using run ok' True cap d(2) by (simp add: ring_cap_def)
  next
    case False
    then show ?thesis using room cap by (simp add: ring_mpush_def)
  qed
qed

lemma mpop_ok:
  assumes ok: "ring_ok rq"
  shows "if unat num \<le> length (ring_items rq)
    then \<exists>rq'. ring_mpop rq num = Some (num, take (unat num) (ring_items rq), rq') \<and> ring_ok rq' \<and>
      ring_items rq' = drop (unat num) (ring_items rq) \<and> ring_cap rq' = ring_cap rq
    else ring_mpop rq num = Some (0, [], rq)"
proof -
  obtain k where k: "k \<le> 30" "rq_max rq = 2 ^ k" "rq_mask rq = mask k" "length (rq_data rq) = 2 ^ k"
    "prod_head rq = prod_tail rq" "cons_head rq = cons_tail rq"
    "length (ring_items rq) \<le> 2 ^ k" "prod_tail rq = cons_tail rq + of_nat (length (ring_items rq))"
    "rq_num rq = of_nat (length (ring_items rq))"
    "ring_items rq = map (\<lambda>i. rq_data rq ! cell k (cons_tail rq) i) [0..<length (ring_items rq)]"
    using ok by (rule ring_okE)
  let ?u = "length (ring_items rq)" and ?c = "cons_tail rq" and ?n = "unat num"
  have b: "?u < 2 ^ 32" using k(7) pow_word[OF k(1)] by simp
  have u: "unat (prod_tail rq - ?c) = ?u" by (simp add: k(8) unat_small[OF b])
  have lt: "prod_tail rq - cons_head rq < num \<longleftrightarrow> ?u < ?n" by (simp add: word_less_nat_alt k(6) u)
  show ?thesis
  proof (cases "?n \<le> ?u")
    case True
    let ?r = "rq\<lparr>cons_head := ?c + num, cons_tail := ?c + num, rq_num := rq_num rq - num\<rparr>"
    have read: "ring_read (rq_data rq) (mask k) ?c ?n = Some (map (\<lambda>i. rq_data rq ! cell k ?c i) [0..<?n])"
      using read_cells[of k "rq_data rq" ?c ?n] k(1,4) by simp
    have tk: "map (\<lambda>i. rq_data rq ! cell k ?c i) [0..<?n] = take ?n (ring_items rq)"
      by (subst k(10)) (use True in \<open>simp add: take_map\<close>)
    have run: "ring_mpop rq num = Some (num, take ?n (ring_items rq), ?r)"
      using lt True read tk k(3,6) by (simp add: ring_mpop_def Let_def)
    have dist: "prod_tail ?r - cons_tail ?r = of_nat (?u - ?n)"
      using True by (simp add: k(8) of_nat_diff)
    have used: "unat (prod_tail ?r - cons_tail ?r) = ?u - ?n"
      unfolding dist by (rule unat_small) (use b in simp)
    have ok': "ring_ok ?r" using used k(1-4,6,7) True by (simp add: ring_ok_def k(5,8,9))
    have "ring_items ?r = map (\<lambda>i. rq_data rq ! cell k (?c + num) i) [0..<?u - ?n]"
      using used k(3) by (simp add: ring_items_def[of ?r] cell_def)
    also have "\<dots> = drop ?n (ring_items rq)"
    proof (rule nth_equalityI)
      fix i assume "i < length (map (\<lambda>i. rq_data rq ! cell k (?c + num) i) [0..<?u - ?n])"
      then have i: "?n + i < ?u" "i < ?u - ?n" by simp_all
      have "ring_items rq ! (?n + i) = rq_data rq ! cell k ?c (?n + i)" by (subst k(10)) (use i(1) in simp)
      then show "map (\<lambda>i. rq_data rq ! cell k (?c + num) i) [0..<?u - ?n] ! i = drop ?n (ring_items rq) ! i"
        using i cell_add[of k ?c ?n i] by (simp add: nth_append)
    qed simp
    finally show ?thesis using run ok' True by (auto simp: ring_cap_def)
  next
    case False
    then show ?thesis using lt by (simp add: ring_mpop_def)
  qed
qed

text \<open>One element.\<close>

lemma push_ok:
  assumes "ring_ok rq"
  shows "if length (ring_items rq) < ring_cap rq
    then \<exists>rq'. ring_push rq a = Some (0, rq') \<and> ring_ok rq' \<and> ring_items rq' = ring_items rq @ [a] \<and>
      ring_cap rq' = ring_cap rq
    else ring_push rq a = Some (- 1, rq)"
  using mpush_ok[OF assms, of "[a]"] by (simp add: ring_push_def Suc_le_eq)

lemma pop_ok:
  assumes "ring_ok rq"
  shows "case ring_items rq of [] \<Rightarrow> ring_pop rq = Some (NULL, rq)
    | a # as \<Rightarrow> \<exists>rq'. ring_pop rq = Some (a, rq') \<and> ring_ok rq' \<and> ring_items rq' = as \<and> ring_cap rq' = ring_cap rq"
  using mpop_ok[OF assms, of 1] by (cases "ring_items rq") (auto simp: ring_pop_def)

lemma used_ok: "ring_ok rq \<Longrightarrow> unat (ring_used rq) = length (ring_items rq)"
  by (simp add: ring_used_def ring_ok_def ring_items_def)

lemma items_cap: "ring_ok rq \<Longrightarrow> length (ring_items rq) \<le> ring_cap rq"
  by (simp add: ring_ok_def ring_items_def ring_cap_def)

subsection \<open>Creation\<close>

lemma ISPOWEROF2_power: "ISPOWEROF2 (2 ^ k)"
proof -
  have "(mask k AND 2 ^ k :: u32) = 0" by (rule bit_eqI) (auto simp: bit_simps)
  then show ?thesis by (simp add: ISPOWEROF2_def mask_eq_exp_minus_1)
qed

text \<open>\<open>power2\<close> finds the highest bit.\<close>

lemma fold_bit:
  "fold (\<lambda>i idx. if P i then i else idx) [0..<n] (0 :: nat) =
     (if \<exists>i < n. P i then Max {i. i < n \<and> P i} else 0)"
proof (induction n)
  case (Suc n)
  show ?case
  proof (cases "P n")
    case True
    then have "Max {i. i < Suc n \<and> P i} = n" by (intro Max_eqI) auto
    then show ?thesis using True by auto
  next
    case False
    then have "{i. i < Suc n \<and> P i} = {i. i < n \<and> P i}" "(\<exists>i < Suc n. P i) = (\<exists>i < n. P i)"
      by (auto simp: less_Suc_eq)
    then show ?thesis using False Suc by auto
  qed
qed simp

lemma nat_top_bit:
  assumes "0 < (n :: nat)" obtains k where "2 ^ k \<le> n" "n < 2 * 2 ^ k"
proof -
  have "\<exists>k. n < 2 ^ k" using less_exp by blast
  then have L: "n < 2 ^ (LEAST k. n < 2 ^ k)" by (rule LeastI_ex)
  then obtain k where k: "(LEAST k. n < 2 ^ k) = Suc k" using assms by (cases "LEAST k. n < 2 ^ k") auto
  have "\<not> n < 2 ^ k" by (rule not_less_Least) (simp add: k)
  then show thesis using that[of k] L k by simp
qed

lemma nat_bit_top: "2 ^ k \<le> n \<Longrightarrow> n < 2 * 2 ^ k \<Longrightarrow> bit n k" for n :: nat
proof -
  assume a: "2 ^ k \<le> n" "n < 2 * 2 ^ k"
  then have "n div 2 ^ k = 1" by (intro div_nat_eqI) simp_all
  then show "bit n k" by (simp add: bit_iff_odd)
qed

lemma power2_ok:
  fixes v :: u32
  assumes "0 < unat v" "unat v \<le> 2 ^ 30"
  obtains k where "k \<le> 30" "power2 v = Some (2 ^ k)" "unat v \<le> 2 ^ k" "2 ^ k < 2 * unat v"
proof -
  obtain k where k: "2 ^ k \<le> unat v" "unat v < 2 * 2 ^ k" using nat_top_bit[OF assms(1)] by blast
  have "k \<le> 30"
  proof (rule ccontr)
    assume "\<not> k \<le> 30"
    then have "(2 :: nat) ^ 31 \<le> 2 ^ k" by (intro power_increasing) simp_all
    then show False using k(1) assms(2) by simp
  qed
  have bits: "bit w i = bit (unat w) i" if "i < 32" for i and w :: u32 using that by (simp add: bit_unsigned_iff)
  show thesis
  proof (cases "unat v = 2 ^ k")
    case True
    have "v = of_nat (unat v)" by simp
    also have "\<dots> = 2 ^ k" by (simp only: True) simp
    finally have "v = 2 ^ k" .
    then show thesis using that[of k] True \<open>k \<le> 30\<close> by (simp add: power2_def ISPOWEROF2_power)
  next
    case False
    then have gt: "2 ^ k < unat v" using k(1) by simp
    have v1: "unat (v - 1) = unat v - 1" using assms(1) by (simp add: unat_sub_if')
    have "bit (unat v) k" "bit (unat v - 1) k" using nat_bit_top gt k(2) by simp_all
    then have "bit ((v - 1) AND v) k"
      using \<open>k \<le> 30\<close> v1 bits[of k v] bits[of k "v - 1"] by (simp add: bit_and_iff)
    then have np: "\<not> ISPOWEROF2 v" by (auto simp: ISPOWEROF2_def)
    have "Max {i. i < 32 \<and> bit v i} = k"
    proof (rule Max_eqI)
      show "k \<in> {i. i < 32 \<and> bit v i}" using \<open>bit (unat v) k\<close> \<open>k \<le> 30\<close> bits[of k v] by simp
      show "i \<le> k" if i: "i \<in> {i. i < 32 \<and> bit v i}" for i
      proof (rule ccontr)
        assume "\<not> i \<le> k"
        then have "(2 :: nat) ^ Suc k \<le> 2 ^ i" by (intro power_increasing) simp_all
        then have "unat v div 2 ^ i = 0" using k(2) by simp
        then show False using i bits[of i v] by (simp add: bit_iff_odd)
      qed
    qed simp
    moreover have "\<exists>i < 32. bit v i" using \<open>bit (unat v) k\<close> \<open>k \<le> 30\<close> bits[of k v] by (intro exI[of _ k]) simp
    ultimately have idx: "fold (\<lambda>i idx. if bit v i then i else idx) [0..<32] 0 = k" by (simp only: fold_bit if_True)
    have "k < 30"
    proof (rule ccontr)
      assume "\<not> k < 30"
      then show False using gt assms(2) \<open>k \<le> 30\<close> by simp
    qed
    then have "power2 v = Some (2 ^ Suc k)"
      using np by (simp add: power2_def idx push_bit_eq_mult)
    then show thesis using that[of "Suc k"] \<open>k < 30\<close> k gt by simp
  qed
qed

lemma ring_creat_ok:
  assumes "0 < unat n" "unat n \<le> 2 ^ 30"
  shows "\<exists>rq k. ring_creat n [] = Some (Some rq, []) \<and> ring_ok rq \<and> ring_items rq = [] \<and>
    ring_cap rq = 2 ^ k \<and> unat n \<le> ring_cap rq \<and> ring_cap rq < 2 * unat n"
proof -
  obtain k where k: "k \<le> 30" "power2 n = Some (2 ^ k)" "unat n \<le> 2 ^ k" "2 ^ k < 2 * unat n"
    using power2_ok[OF assms] .
  have len: "unat (2 ^ k :: u32) = 2 ^ k"
    using unat_small[of "2 ^ k"] pow_word[OF k(1)] by simp
  have top: "\<not> bit (2 ^ k :: u32) 31" using k(1) by (simp add: bit_simps)
  let ?r = "\<lparr>rq_max = 2 ^ k, rq_mask = 2 ^ k - 1, rq_num = 0, rq_data = replicate (2 ^ k) NULL,
      prod_head = 0, prod_tail = 0, cons_head = 0, cons_tail = 0\<rparr>"
  have "ring_creat n [] = Some (Some ?r, [])" using k(2) len top by (simp add: ring_creat_def)
  moreover have "ring_ok ?r" using k(1) by (auto simp: ring_ok_def mask_eq_exp_minus_1)
  ultimately show ?thesis using k
    by (intro exI[of _ ?r] exI[of _ k]) (simp add: ring_items_def ring_cap_def)
qed

end
