(* ===== verification/Ring_Queue.thy ===== *)
theory Ring_Queue
  imports Ring "HOL-Library.Multiset"
begin

text \<open>
  The contract of a bounded first-in-first-out queue (\<open>bounded_queue\<close>), which the ring keeps, and its
  clients: the pool of memory blocks \<open>slot_t\<close> (\<open>src/clang/lib/core/slot.c\<close>) and \<open>queue_t\<close>
  (\<open>queue.c\<close>), a ring of messages together with the pool their memory comes from.
\<close>

subsection \<open>The contract\<close>

text \<open>\<open>nul\<close> is what \<open>deq\<close> returns when there is nothing.\<close>

locale bounded_queue =
  fixes ok :: "'q \<Rightarrow> bool" and items :: "'q \<Rightarrow> 'a list" and cap :: "'q \<Rightarrow> nat" and nul :: 'a
    and enq :: "'q \<Rightarrow> 'a \<Rightarrow> (int \<times> 'q) option" and deq :: "'q \<Rightarrow> ('a \<times> 'q) option"
  assumes enq_room: "ok q \<Longrightarrow> length (items q) < cap q \<Longrightarrow>
      \<exists>q'. enq q a = Some (0, q') \<and> ok q' \<and> items q' = items q @ [a] \<and> cap q' = cap q"
    and enq_full: "ok q \<Longrightarrow> \<not> length (items q) < cap q \<Longrightarrow> enq q a = Some (- 1, q)"
    and deq_some: "ok q \<Longrightarrow> items q = a # as \<Longrightarrow>
      \<exists>q'. deq q = Some (a, q') \<and> ok q' \<and> items q' = as \<and> cap q' = cap q"
    and deq_none: "ok q \<Longrightarrow> items q = [] \<Longrightarrow> deq q = Some (nul, q)"
    and fits: "ok q \<Longrightarrow> length (items q) \<le> cap q"

text \<open>Sequences of operations, on an implementation and on a list.\<close>

datatype 'a queue_op = Enq 'a | Deq
datatype 'a queue_out = Ret int | Got 'a

fun queue_run :: "('q \<Rightarrow> 'a \<Rightarrow> (int \<times> 'q) option) \<Rightarrow> ('q \<Rightarrow> ('a \<times> 'q) option) \<Rightarrow> 'q \<Rightarrow>
    'a queue_op list \<Rightarrow> 'a queue_out list option" where
  "queue_run enq deq q [] = Some []"
| "queue_run enq deq q (Enq a # ops) =
     do { (r, q) \<leftarrow> enq q a; outs \<leftarrow> queue_run enq deq q ops; Some (Ret r # outs) }"
| "queue_run enq deq q (Deq # ops) =
     do { (a, q) \<leftarrow> deq q; outs \<leftarrow> queue_run enq deq q ops; Some (Got a # outs) }"

fun list_run :: "nat \<Rightarrow> 'a \<Rightarrow> 'a list \<Rightarrow> 'a queue_op list \<Rightarrow> 'a queue_out list" where
  "list_run cap nul xs [] = []"
| "list_run cap nul xs (Enq a # ops) =
     (if length xs < cap then Ret 0 # list_run cap nul (xs @ [a]) ops
      else Ret (- 1) # list_run cap nul xs ops)"
| "list_run cap nul [] (Deq # ops) = Got nul # list_run cap nul [] ops"
| "list_run cap nul (x # xs) (Deq # ops) = Got x # list_run cap nul xs ops"

context bounded_queue
begin

lemma run_refines: "ok q \<Longrightarrow> queue_run enq deq q ops = Some (list_run (cap q) nul (items q) ops)"
proof (induction ops arbitrary: q)
  case (Cons op ops)
  show ?case
  proof (cases op)
    case (Enq a)
    show ?thesis
    proof (cases "length (items q) < cap q")
      case True
      from enq_room[OF Cons.prems True, of a] obtain q' where
        "enq q a = Some (0, q')" "ok q'" "items q' = items q @ [a]" "cap q' = cap q" by blast
      then show ?thesis using Cons.IH[of q'] Enq True by simp
    next
      case False
      then show ?thesis using enq_full[OF Cons.prems False] Cons.IH[OF Cons.prems] Enq by simp
    qed
  next
    case Deq
    show ?thesis
    proof (cases "items q")
      case Nil
      then show ?thesis using deq_none[OF Cons.prems Nil] Cons.IH[OF Cons.prems] Deq by simp
    next
      case items: (Cons a "as")
      from deq_some[OF Cons.prems items] obtain q' where
        "deq q = Some (a, q')" "ok q'" "items q' = as" "cap q' = cap q" by blast
      then show ?thesis using Cons.IH[of q'] Deq items by simp
    qed
  qed
qed simp

end

subsection \<open>The ring keeps the contract\<close>

interpretation ring_q: bounded_queue ring_ok ring_items ring_cap NULL ring_push ring_pop
proof
  show "\<exists>q'. ring_push q a = Some (0, q') \<and> ring_ok q' \<and> ring_items q' = ring_items q @ [a] \<and> ring_cap q' = ring_cap q"
    if "ring_ok q" "length (ring_items q) < ring_cap q" for q a
    using push_ok[OF that(1), of a] that(2) by simp
  show "ring_push q a = Some (- 1, q)" if "ring_ok q" "\<not> length (ring_items q) < ring_cap q" for q a
    using push_ok[OF that(1), of a] that(2) by simp
  show "\<exists>q'. ring_pop q = Some (a, q') \<and> ring_ok q' \<and> ring_items q' = as \<and> ring_cap q' = ring_cap q"
    if "ring_ok q" "ring_items q = a # as" for q a "as"
    using pop_ok[OF that(1)] that(2) by simp
  show "ring_pop q = Some (NULL, q)" if "ring_ok q" "ring_items q = []" for q
    using pop_ok[OF that(1)] that(2) by simp
qed (rule items_cap)

subsection \<open>The pool of blocks\<close>

text \<open>\<open>slot_t\<close>; \<open>slot->addr\<close> is never assigned.\<close>

record slot =
  sl_max :: u32
  sl_size :: nat
  sl_addr :: addr
  sl_ring :: ring

text \<open>The loop that pushes the blocks of one array at \<open>ptr\<close>, \<open>ptr + size\<close>, \<dots>\<close>

fun slot_fill :: "ring \<Rightarrow> nat \<Rightarrow> nat \<Rightarrow> nat \<Rightarrow> (int \<times> ring) option" where
  "slot_fill rq ptr sz 0 = Some (0, rq)"
| "slot_fill rq ptr sz (Suc n) = do {
     (ret, rq) \<leftarrow> ring_push rq (Loc ptr);
     if ret \<noteq> 0 then Some (- 1, rq) else slot_fill rq (ptr + sz) sz n }"

text \<open>\<open>base\<close> is the address that \<open>calloc(num, size)\<close> returns.\<close>

definition slot_creat :: "u32 \<Rightarrow> nat \<Rightarrow> nat \<Rightarrow> allocs \<Rightarrow> (slot option \<times> allocs) option" where
  "slot_creat num sz base al =
     (let (a, al) = alloc_take al in
      if \<not> a then Some (None, al)
      else do {
        (rq, al) \<leftarrow> ring_creat num al;
        case rq of
          None \<Rightarrow> Some (None, al)
        | Some rq \<Rightarrow>
            (let (b, al) = alloc_take al in
             if \<not> b then Some (None, al)
             else do {
               (ret, rq) \<leftarrow> slot_fill rq base sz (nat (sint num));
               if ret \<noteq> 0 then Some (None, al)
               else Some (Some \<lparr>sl_max = num, sl_size = sz, sl_addr = NULL, sl_ring = rq\<rparr>, al) }) })"

definition slot_alloc :: "slot \<Rightarrow> nat \<Rightarrow> (addr \<times> slot) option" where
  "slot_alloc slot sz =
     (if sl_size slot < sz then Some (NULL, slot)
      else do { (p, rq) \<leftarrow> ring_pop (sl_ring slot); Some (p, slot\<lparr>sl_ring := rq\<rparr>) })"

definition slot_dealloc :: "slot \<Rightarrow> addr \<Rightarrow> slot option" where
  "slot_dealloc slot p = do { (_, rq) \<leftarrow> ring_push (sl_ring slot) p; Some (slot\<lparr>sl_ring := rq\<rparr>) }"

text \<open>The queue: a ring of messages and the pool of their memory.\<close>

record queue =
  qu_slot :: slot
  qu_ring :: ring

definition queue_creat :: "u32 \<Rightarrow> nat \<Rightarrow> nat \<Rightarrow> allocs \<Rightarrow> (queue option \<times> allocs) option" where
  "queue_creat mx sz base al =
     (if mx = 0 \<or> sz = 0 then Some (None, al)
      else let (a, al) = alloc_take al in
      if \<not> a then Some (None, al)
      else do {
        (rq, al) \<leftarrow> ring_creat mx al;
        case rq of
          None \<Rightarrow> Some (None, al)
        | Some rq \<Rightarrow> do {
            (sl, al) \<leftarrow> slot_creat mx sz base al;
            case sl of
              None \<Rightarrow> Some (None, al)
            | Some sl \<Rightarrow> Some (Some \<lparr>qu_slot = sl, qu_ring = rq\<rparr>, al) } })"

definition queue_malloc :: "queue \<Rightarrow> nat \<Rightarrow> (addr \<times> queue) option" where
  "queue_malloc q sz = do { (p, sl) \<leftarrow> slot_alloc (qu_slot q) sz; Some (p, q\<lparr>qu_slot := sl\<rparr>) }"

definition queue_dealloc :: "queue \<Rightarrow> addr \<Rightarrow> queue option" where
  "queue_dealloc q p = do { sl \<leftarrow> slot_dealloc (qu_slot q) p; Some (q\<lparr>qu_slot := sl\<rparr>) }"

definition queue_push :: "queue \<Rightarrow> addr \<Rightarrow> (int \<times> queue) option" where
  "queue_push q p = do { (r, rq) \<leftarrow> ring_push (qu_ring q) p; Some (r, q\<lparr>qu_ring := rq\<rparr>) }"

definition queue_pop :: "queue \<Rightarrow> (addr \<times> queue) option" where
  "queue_pop q = do { (p, rq) \<leftarrow> ring_pop (qu_ring q); Some (p, q\<lparr>qu_ring := rq\<rparr>) }"

definition queue_used :: "queue \<Rightarrow> u32" where "queue_used q = ring_used (qu_ring q)"
definition queue_max :: "queue \<Rightarrow> u32" where "queue_max q = rq_max (qu_ring q)"
definition queue_space :: "queue \<Rightarrow> u32" where "queue_space q = queue_max q - queue_used q"
definition queue_empty :: "queue \<Rightarrow> bool" where "queue_empty q \<longleftrightarrow> queue_used q = 0"

subsection \<open>No block is handed out twice\<close>

definition slot_blocks :: "nat \<Rightarrow> nat \<Rightarrow> nat \<Rightarrow> addr list" where
  "slot_blocks base sz n = map (\<lambda>i. Loc (base + i * sz)) [0..<n]"

lemma slot_blocks_distinct: "0 < sz \<Longrightarrow> distinct (slot_blocks base sz n)"
  by (auto simp: slot_blocks_def distinct_map inj_on_def)

lemma slot_fill_ok:
  "ring_ok rq \<Longrightarrow> length (ring_items rq) + n \<le> ring_cap rq \<Longrightarrow>
   \<exists>rq'. slot_fill rq ptr sz n = Some (0, rq') \<and> ring_ok rq' \<and>
     ring_items rq' = ring_items rq @ slot_blocks ptr sz n \<and> ring_cap rq' = ring_cap rq"
proof (induction n arbitrary: rq ptr)
  case (Suc n)
  obtain r1 where r1: "ring_push rq (Loc ptr) = Some (0, r1)" "ring_ok r1"
      "ring_items r1 = ring_items rq @ [Loc ptr]" "ring_cap r1 = ring_cap rq"
    using ring_q.enq_room[OF Suc.prems(1), of "Loc ptr"] Suc.prems(2) by auto
  obtain r2 where r2: "slot_fill r1 (ptr + sz) sz n = Some (0, r2)" "ring_ok r2"
      "ring_items r2 = ring_items r1 @ slot_blocks (ptr + sz) sz n" "ring_cap r2 = ring_cap r1"
    using Suc.IH[OF r1(2), of "ptr + sz"] Suc.prems(2) r1 by auto
  have "slot_blocks ptr sz (Suc n) = Loc ptr # slot_blocks (ptr + sz) sz n"
    by (simp add: slot_blocks_def upt_conv_Cons map_Suc_upt[symmetric] o_def add.assoc del: upt_Suc)
  then show ?case using r1 r2 by (intro exI[of _ r2]) simp
qed (simp add: slot_blocks_def)

text \<open>The free blocks and those in use are together the blocks of the array, each once.\<close>

definition pool_ok :: "slot \<Rightarrow> addr multiset \<Rightarrow> addr list \<Rightarrow> bool" where
  "pool_ok sl used blocks \<longleftrightarrow> ring_ok (sl_ring sl) \<and> mset (ring_items (sl_ring sl)) + used = mset blocks \<and>
     length blocks \<le> ring_cap (sl_ring sl) \<and> distinct blocks \<and> NULL \<notin> set blocks"

lemma slot_creat_ok:
  assumes "0 < unat num" "unat num \<le> 2 ^ 30" and "0 < sz"
  shows "\<exists>sl. slot_creat num sz base [] = Some (Some sl, []) \<and> sl_size sl = sz \<and>
    pool_ok sl {#} (slot_blocks base sz (unat num))"
proof -
  obtain rq where rq: "ring_creat num [] = Some (Some rq, [])" "ring_ok rq" "ring_items rq = []"
      "unat num \<le> ring_cap rq"
    using ring_creat_ok[OF assms(1,2)] by blast
  have n: "nat (sint num) = unat num"
  proof -
    have u: "uint num = int (unat num)" by simp
    have "int (unat num) \<le> int (2 ^ 30)" by (rule zle_int[THEN iffD2, OF assms(2)])
    then have "uint num < 2 ^ 31" unfolding u by simp
    moreover have "- (2 ^ 31) \<le> uint num" by (rule order_trans[of _ 0]) simp_all
    ultimately have "sint num = uint num" by (simp add: sint_uint signed_take_bit_int_eq_self[of 31])
    then show ?thesis by simp
  qed
  obtain r2 where r2: "slot_fill rq base sz (unat num) = Some (0, r2)" "ring_ok r2"
      "ring_items r2 = slot_blocks base sz (unat num)" "ring_cap r2 = ring_cap rq"
    using slot_fill_ok[OF rq(2), of "unat num" base sz] rq(3,4) by auto
  show ?thesis
    using rq(1,4) r2 slot_blocks_distinct[OF assms(3)]
    by (simp add: slot_creat_def n pool_ok_def) (auto simp: slot_blocks_def)
qed

lemma slot_alloc_ok:
  assumes P: "pool_ok sl used blocks" and "n \<le> sl_size sl"
  shows "(\<exists>p sl'. slot_alloc sl n = Some (p, sl') \<and> p \<in> set blocks \<and> p \<notin># used \<and>
      pool_ok sl' (add_mset p used) blocks \<and> sl_size sl' = sl_size sl) \<or>
    (slot_alloc sl n = Some (NULL, sl) \<and> used = mset blocks)"
proof (cases "ring_items (sl_ring sl)")
  case Nil
  then show ?thesis using P assms(2) ring_q.deq_none[OF _ Nil] by (simp add: pool_ok_def slot_alloc_def)
next
  case (Cons p ps)
  have ok: "ring_ok (sl_ring sl)" and m: "add_mset p (mset ps) + used = mset blocks" and d: "distinct blocks"
    using P Cons by (simp_all add: pool_ok_def)
  obtain rq where rq: "ring_pop (sl_ring sl) = Some (p, rq)" "ring_ok rq" "ring_items rq = ps"
      "ring_cap rq = ring_cap (sl_ring sl)"
    using ring_q.deq_some[OF ok Cons] by blast
  have "p \<in> set blocks" using m by (metis mset_eq_setD set_mset_mset union_iff union_single_eq_member)
  moreover have "p \<notin># used"
  proof
    assume "p \<in># used"
    then have "2 \<le> count (mset blocks) p" by (simp add: m[symmetric] Suc_le_eq)
    then show False using d by (simp add: distinct_count_atmost_1 split: if_splits)
  qed
  moreover have "pool_ok (sl\<lparr>sl_ring := rq\<rparr>) (add_mset p used) blocks"
    using P rq m by (simp add: pool_ok_def)
  ultimately show ?thesis using rq(1) assms(2) by (auto simp: slot_alloc_def)
qed

lemma slot_dealloc_ok:
  assumes P: "pool_ok sl used blocks" and "p \<in># used"
  shows "\<exists>sl'. slot_dealloc sl p = Some sl' \<and> pool_ok sl' (used - {#p#}) blocks \<and> sl_size sl' = sl_size sl"
proof -
  have ok: "ring_ok (sl_ring sl)" using P by (simp add: pool_ok_def)
  obtain u where u: "used = add_mset p u" using assms(2) by (metis mset_add)
  have "length (ring_items (sl_ring sl)) + size used = length blocks"
    using P by (metis pool_ok_def size_mset size_union)
  then have "length (ring_items (sl_ring sl)) < ring_cap (sl_ring sl)"
    using P u by (simp add: pool_ok_def)
  from ring_q.enq_room[OF ok this, of p] obtain rq where rq: "ring_push (sl_ring sl) p = Some (0, rq)"
      "ring_ok rq" "ring_items rq = ring_items (sl_ring sl) @ [p]" "ring_cap rq = ring_cap (sl_ring sl)" by blast
  have "pool_ok (sl\<lparr>sl_ring := rq\<rparr>) u blocks" using P rq u by (simp add: pool_ok_def)
  then show ?thesis using rq(1) u by (simp add: slot_dealloc_def)
qed

end
