(* ===== verification/Ring_Conc.thy ===== *)
theory Ring_Conc
  imports Ring "HOL-Library.Sublist"
begin

text \<open>
  The ring of \<open>src/clang/lib/core/ring.c\<close> under concurrent use: any number of threads run \<open>ring_mpush\<close>
  and \<open>ring_mpop\<close>, one access to the shared memory per step (\<open>conc_step\<close>), in any interleaving of
  sequentially consistent accesses.  The four counters are kept as natural numbers, of which the code
  holds the low 32 bits; tests on them are made on those bits.  A compare-and-set succeeds only if fewer
  than \<open>2 ^ 32\<close> elements have passed since its thread read the counter.  \<open>c_in\<close> and \<open>c_out\<close> record what
  was handed to the ring, in the order of the compare-and-sets, and what the consumers have delivered.
\<close>

subsection \<open>Threads\<close>

text \<open>
  Where a thread is: before reading the head, before reading the other tail, before the compare-and-set,
  in the copy loop (with the number of elements done), before the update of \<open>num\<close>.
\<close>

datatype pc =
    Idle
  | PushStart "addr list" | PushHead nat "addr list" | PushCas nat nat "addr list"
  | PushWrite nat nat "addr list" | PushCount nat
  | PopStart nat | PopHead nat nat | PopCas nat nat nat
  | PopRead nat nat "addr list" | PopCount nat "addr list"

record conc =
  c_bits :: nat                \<comment> \<open>the ring has \<open>2 ^ c_bits\<close> slots\<close>
  c_data :: "addr list"
  c_num :: u32
  c_ph :: nat
  c_pt :: nat
  c_ch :: nat
  c_ct :: nat
  c_thr :: "nat \<Rightarrow> pc"
  c_in :: "addr list"
  c_out :: "addr list"

abbreviation low :: "nat \<Rightarrow> u32" where "low \<equiv> of_nat"

abbreviation go :: "conc \<Rightarrow> nat \<Rightarrow> pc \<Rightarrow> conc" where
  "go s t p \<equiv> s\<lparr>c_thr := (c_thr s)(t := p)\<rparr>"

inductive conc_step :: "conc \<Rightarrow> conc \<Rightarrow> bool" where
  push_call: "c_thr s t = Idle \<Longrightarrow> vs \<noteq> [] \<Longrightarrow> length vs < 2 ^ 32 \<Longrightarrow> conc_step s (go s t (PushStart vs))"
| push_head: "c_thr s t = PushStart vs \<Longrightarrow> conc_step s (go s t (PushHead (c_ph s) vs))"
| push_full: "c_thr s t = PushHead H vs \<Longrightarrow> 2 ^ c_bits s + low (c_ct s) - low H < low (length vs) \<Longrightarrow>
    conc_step s (go s t Idle)"
| push_room: "c_thr s t = PushHead H vs \<Longrightarrow> \<not> 2 ^ c_bits s + low (c_ct s) - low H < low (length vs) \<Longrightarrow>
    conc_step s (go s t (PushCas H (c_ct s) vs))"
| push_lost: "c_thr s t = PushCas H T vs \<Longrightarrow> low (c_ph s) \<noteq> low H \<Longrightarrow> conc_step s (go s t (PushStart vs))"
| push_won: "c_thr s t = PushCas H T vs \<Longrightarrow> low (c_ph s) = low H \<Longrightarrow> c_ph s < H + 2 ^ 32 \<Longrightarrow>
    conc_step s (go (s\<lparr>c_ph := c_ph s + length vs, c_in := c_in s @ vs\<rparr>) t (PushWrite H 0 vs))"
| push_write: "c_thr s t = PushWrite h i vs \<Longrightarrow> i < length vs \<Longrightarrow>
    conc_step s (go (s\<lparr>c_data := (c_data s)[cell (c_bits s) (low h) i := vs ! i]\<rparr>) t (PushWrite h (Suc i) vs))"
| push_done: "c_thr s t = PushWrite h (length vs) vs \<Longrightarrow> low (c_pt s) = low h \<Longrightarrow>
    conc_step s (go (s\<lparr>c_pt := h + length vs\<rparr>) t (PushCount (length vs)))"
| push_count: "c_thr s t = PushCount n \<Longrightarrow> conc_step s (go (s\<lparr>c_num := c_num s + low n\<rparr>) t Idle)"
| pop_call: "c_thr s t = Idle \<Longrightarrow> 0 < n \<Longrightarrow> n < 2 ^ 32 \<Longrightarrow> conc_step s (go s t (PopStart n))"
| pop_head: "c_thr s t = PopStart n \<Longrightarrow> conc_step s (go s t (PopHead (c_ch s) n))"
| pop_empty: "c_thr s t = PopHead H n \<Longrightarrow> low (c_pt s) - low H < low n \<Longrightarrow> conc_step s (go s t Idle)"
| pop_some: "c_thr s t = PopHead H n \<Longrightarrow> \<not> low (c_pt s) - low H < low n \<Longrightarrow>
    conc_step s (go s t (PopCas H (c_pt s) n))"
| pop_lost: "c_thr s t = PopCas H P n \<Longrightarrow> low (c_ch s) \<noteq> low H \<Longrightarrow> conc_step s (go s t (PopStart n))"
| pop_won: "c_thr s t = PopCas H P n \<Longrightarrow> low (c_ch s) = low H \<Longrightarrow> c_ch s < H + 2 ^ 32 \<Longrightarrow>
    conc_step s (go (s\<lparr>c_ch := c_ch s + n\<rparr>) t (PopRead H n []))"
| pop_read: "c_thr s t = PopRead h n as \<Longrightarrow> length as < n \<Longrightarrow>
    conc_step s (go s t (PopRead h n (as @ [c_data s ! cell (c_bits s) (low h) (length as)])))"
| pop_done: "c_thr s t = PopRead h n as \<Longrightarrow> length as = n \<Longrightarrow> low (c_ct s) = low h \<Longrightarrow>
    conc_step s (go (s\<lparr>c_ct := h + n, c_out := c_out s @ as\<rparr>) t (PopCount n as))"
| pop_count: "c_thr s t = PopCount n as \<Longrightarrow> conc_step s (go (s\<lparr>c_num := c_num s - low n\<rparr>) t Idle)"

definition conc_init :: "nat \<Rightarrow> conc" where
  "conc_init k = \<lparr>c_bits = k, c_data = replicate (2 ^ k) NULL, c_num = 0, c_ph = 0, c_pt = 0, c_ch = 0,
     c_ct = 0, c_thr = (\<lambda>_. Idle), c_in = [], c_out = []\<rparr>"

inductive conc_reach :: "nat \<Rightarrow> conc \<Rightarrow> bool" for k where
  conc_start: "conc_reach k (conc_init k)"
| conc_next: "conc_reach k s \<Longrightarrow> conc_step s s' \<Longrightarrow> conc_reach k s'"

subsection \<open>The invariant\<close>

text \<open>What holds of one thread; \<open>d\<close> gives the content of the slot of an index.\<close>

abbreviation slot_at :: "conc \<Rightarrow> nat \<Rightarrow> addr" where
  "slot_at s i \<equiv> c_data s ! (i mod 2 ^ c_bits s)"

fun thr_ok :: "conc \<Rightarrow> pc \<Rightarrow> bool" where
  "thr_ok s (PushStart vs) \<longleftrightarrow> vs \<noteq> [] \<and> length vs < 2 ^ 32"
| "thr_ok s (PushHead H vs) \<longleftrightarrow> vs \<noteq> [] \<and> length vs < 2 ^ 32 \<and> H \<le> c_ph s"
| "thr_ok s (PushCas H T vs) \<longleftrightarrow> vs \<noteq> [] \<and> length vs < 2 ^ 32 \<and> H \<le> c_ph s \<and> T \<le> c_ct s \<and>
     H \<le> T + 2 ^ c_bits s \<and> \<not> 2 ^ c_bits s + low T - low H < low (length vs)"
| "thr_ok s (PushWrite h i vs) \<longleftrightarrow> vs \<noteq> [] \<and> c_pt s \<le> h \<and> h + length vs \<le> c_ph s \<and> i \<le> length vs \<and>
     (\<forall>j < length vs. c_in s ! (h + j) = vs ! j) \<and> (\<forall>j < i. slot_at s (h + j) = vs ! j)"
| "thr_ok s (PopStart n) \<longleftrightarrow> 0 < n \<and> n < 2 ^ 32"
| "thr_ok s (PopHead H n) \<longleftrightarrow> 0 < n \<and> n < 2 ^ 32 \<and> H \<le> c_ch s"
| "thr_ok s (PopCas H P n) \<longleftrightarrow> 0 < n \<and> n < 2 ^ 32 \<and> H \<le> c_ch s \<and> P \<le> c_pt s \<and> H \<le> P \<and>
     \<not> low P - low H < low n"
| "thr_ok s (PopRead h n as) \<longleftrightarrow> 0 < n \<and> c_ct s \<le> h \<and> h + n \<le> c_ch s \<and> length as \<le> n \<and>
     (\<forall>j < length as. as ! j = c_in s ! (h + j))"
| "thr_ok s _ \<longleftrightarrow> True"

text \<open>The parts of the ring two threads own do not meet.\<close>

fun apart :: "pc \<Rightarrow> pc \<Rightarrow> bool" where
  "apart (PushWrite h i vs) (PushWrite h' i' vs') \<longleftrightarrow> h + length vs \<le> h' \<or> h' + length vs' \<le> h"
| "apart (PopRead h n as) (PopRead h' n' as') \<longleftrightarrow> h + n \<le> h' \<or> h' + n' \<le> h"
| "apart _ _ \<longleftrightarrow> True"

definition conc_inv :: "conc \<Rightarrow> bool" where
  "conc_inv s \<longleftrightarrow> c_bits s \<le> 30 \<and> length (c_data s) = 2 ^ c_bits s \<and>
     c_ct s \<le> c_ch s \<and> c_ch s \<le> c_pt s \<and> c_pt s \<le> c_ph s \<and> c_ph s \<le> c_ct s + 2 ^ c_bits s \<and>
     length (c_in s) = c_ph s \<and> c_out s = take (c_ct s) (c_in s) \<and>
     (\<forall>i. c_ct s \<le> i \<and> i < c_pt s \<longrightarrow> slot_at s i = c_in s ! i) \<and>
     (\<forall>t. thr_ok s (c_thr s t)) \<and> (\<forall>t t'. t \<noteq> t' \<longrightarrow> apart (c_thr s t) (c_thr s t'))"

lemma conc_invD:
  assumes "conc_inv s"
  shows "c_bits s \<le> 30" "length (c_data s) = 2 ^ c_bits s" "c_ct s \<le> c_ch s" "c_ch s \<le> c_pt s"
    "c_pt s \<le> c_ph s" "c_ph s \<le> c_ct s + 2 ^ c_bits s" "length (c_in s) = c_ph s"
    "c_out s = take (c_ct s) (c_in s)" "c_ct s \<le> i \<Longrightarrow> i < c_pt s \<Longrightarrow> slot_at s i = c_in s ! i"
    "thr_ok s (c_thr s t)" "t \<noteq> t' \<Longrightarrow> apart (c_thr s t) (c_thr s t')"
  using assms unfolding conc_inv_def by blast+

lemma apart_sym: "apart p q = apart q p"
  by (cases p; cases q) auto

text \<open>A thread moves on: what is left to show for the shared part and the thread itself.\<close>

lemma conc_invI:
  assumes "conc_inv s" and "c_bits s' = c_bits s" and "c_thr s' = (c_thr s)(t := p)"
    and "length (c_data s') = 2 ^ c_bits s"
    and "c_ct s' \<le> c_ch s' \<and> c_ch s' \<le> c_pt s' \<and> c_pt s' \<le> c_ph s' \<and> c_ph s' \<le> c_ct s' + 2 ^ c_bits s"
    and "length (c_in s') = c_ph s'" and "c_out s' = take (c_ct s') (c_in s')"
    and "\<And>i. c_ct s' \<le> i \<Longrightarrow> i < c_pt s' \<Longrightarrow> slot_at s' i = c_in s' ! i"
    and "thr_ok s' p" and "\<And>u. u \<noteq> t \<Longrightarrow> thr_ok s' (c_thr s u)"
    and "\<And>u. u \<noteq> t \<Longrightarrow> apart p (c_thr s u)"
  shows "conc_inv s'"
  unfolding conc_inv_def
proof (intro conjI allI impI)
  fix u u' :: nat
  show "thr_ok s' (c_thr s' u)" using assms(3,9,10) by simp
  show "apart (c_thr s' u) (c_thr s' u')" if "u \<noteq> u'"
    using assms(3,11) that conc_invD(11)[OF assms(1) that] apart_sym by auto
qed (use assms conc_invD(1)[OF assms(1)] in auto)

text \<open>Only the thread's own position changes.\<close>

lemma thr_ok_go [simp]: "thr_ok (go s t p) q = thr_ok s q"
  by (cases q) simp_all

lemma conc_inv_go:
  assumes "conc_inv s" and "thr_ok s p" and "\<And>u. u \<noteq> t \<Longrightarrow> apart p (c_thr s u)"
  shows "conc_inv (go s t p)"
  by (rule conc_invI[OF assms(1), where t = t and p = p]) (use assms conc_invD[OF assms(1)] in \<open>simp_all\<close>)

lemma thr_ok_num [simp]: "thr_ok (s\<lparr>c_num := x\<rparr>) q = thr_ok s q"
  by (cases q) simp_all

lemma conc_inv_num: "conc_inv s \<Longrightarrow> conc_inv (s\<lparr>c_num := x\<rparr>)"
  by (simp add: conc_inv_def)

subsection \<open>32-bit tests\<close>

lemma low_eq: "low a = low b \<Longrightarrow> b \<le> a \<Longrightarrow> a < b + 2 ^ 32 \<Longrightarrow> a = b"
proof -
  assume e: "low a = low b" and "b \<le> a" "a < b + 2 ^ 32"
  have "low (a - b) = 0" using e \<open>b \<le> a\<close> by (simp add: of_nat_diff)
  then have "unat (low (a - b)) = 0" by simp
  then have "a - b = 0" using \<open>a < b + 2 ^ 32\<close> by (subst (asm) unat_small) auto
  then show "a = b" using \<open>b \<le> a\<close> by simp
qed

lemma room_exact:
  assumes "k \<le> 30" and "T \<le> H" "H \<le> T + 2 ^ k" and "\<not> 2 ^ k + low T - low H < low n" and "n < 2 ^ 32"
  shows "H + n \<le> T + 2 ^ k"
proof -
  have "2 ^ k + low T - low H = low (T + 2 ^ k - H)" using assms(3) by (simp add: of_nat_diff)
  moreover have "T + 2 ^ k - H < 2 ^ 32" using pow_word[OF assms(1)] assms(2) by simp
  ultimately have "n \<le> T + 2 ^ k - H"
    using assms(4,5) by (simp add: word_less_nat_alt unat_small)
  then show ?thesis using assms(3) by simp
qed

lemma some_exact:
  assumes "H \<le> P" "P < H + 2 ^ 32" and "\<not> low P - low H < low n" and "n < 2 ^ 32"
  shows "H + n \<le> P"
proof -
  have "low P - low H = low (P - H)" using assms(1) by (simp add: of_nat_diff)
  moreover have "P - H < 2 ^ 32" using assms(1,2) by linarith
  ultimately have "n \<le> P - H" using assms(3,4) by (simp only: word_less_nat_alt unat_small not_less)
  then show ?thesis using assms(1) by simp
qed

lemma cell_low: "k \<le> 30 \<Longrightarrow> cell k (low h) i = (h + i) mod 2 ^ k"
proof -
  assume "k \<le> 30"
  have "cell k (low h) i = cell k 0 (h + i)" using cell_add[of k 0 h i] by simp
  also have "\<dots> = (h + i) mod 2 ^ k" using pos_mod[of k 0 "h + i"] \<open>k \<le> 30\<close> by (simp add: cell_def)
  finally show "cell k (low h) i = (h + i) mod 2 ^ k" .
qed

lemma cells_differ:
  fixes i j :: nat
  assumes "i mod m = j mod m" and "b \<le> i" "i < b + m" "b \<le> j" "j < b + m" shows "i = j"
proof -
  have "i - b < m" "j - b < m" "b + (i - b) = i" "b + (j - b) = j" using assms by linarith+
  then show ?thesis using pos_inj[of "i - b" m "j - b" b] assms(1) by metis
qed

subsection \<open>Every step keeps it\<close>

text \<open>A producer reserves; the recorded input grows.\<close>

lemma thr_ok_reserve:
  "thr_ok s p \<Longrightarrow> length (c_in s) = c_ph s \<Longrightarrow> c_ch s \<le> c_ph s \<Longrightarrow>
   thr_ok (go (s\<lparr>c_ph := c_ph s + n, c_in := c_in s @ vs\<rparr>) t q) p"
  by (cases p) (auto simp: nth_append)

lemma won_push:
  assumes i: "conc_inv s" and p: "c_thr s t = PushCas H T vs" and e: "low (c_ph s) = low H" "c_ph s < H + 2 ^ 32"
  shows "conc_inv (go (s\<lparr>c_ph := c_ph s + length vs, c_in := c_in s @ vs\<rparr>) t (PushWrite H 0 vs))"
proof -
  note I = conc_invD[OF i]
  have th: "vs \<noteq> []" "length vs < 2 ^ 32" "H \<le> c_ph s" "T \<le> c_ct s" "H \<le> T + 2 ^ c_bits s"
      "\<not> 2 ^ c_bits s + low T - low H < low (length vs)"
    using I(10)[of t] p by auto
  have H: "c_ph s = H" using low_eq[OF e(1) th(3) e(2)] .
  have "T \<le> H" using th(4) I(3-5) H by simp
  then have room: "H + length vs \<le> T + 2 ^ c_bits s" by (rule room_exact[OF I(1) _ th(5,6,2)])
  show ?thesis
  proof (rule conc_invI[OF i, where t = t and p = "PushWrite H 0 vs"])
    fix u assume u: "u \<noteq> t"
    show "thr_ok (go (s\<lparr>c_ph := c_ph s + length vs, c_in := c_in s @ vs\<rparr>) t (PushWrite H 0 vs)) (c_thr s u)"
      by (rule thr_ok_reserve[OF I(10) I(7)]) (use I(4,5) in simp)
    show "apart (PushWrite H 0 vs) (c_thr s u)"
      using I(10)[of u] H by (cases "c_thr s u") auto
  next
    show "thr_ok (go (s\<lparr>c_ph := c_ph s + length vs, c_in := c_in s @ vs\<rparr>) t (PushWrite H 0 vs)) (PushWrite H 0 vs)"
      using th(1) I(5,7) H by (simp add: nth_append)
  qed (use I H room th(4) in \<open>auto simp: nth_append\<close>)
qed

lemma thr_ok_write:
  assumes "thr_ok s p" and "apart (PushWrite h i vs) p" and "c_pt s \<le> h" "h + length vs \<le> c_ph s" "j < length vs"
    and "c_ph s \<le> c_ct s + 2 ^ c_bits s" "c_ct s \<le> c_pt s" "length (c_data s) = 2 ^ c_bits s"
  shows "thr_ok (s\<lparr>c_data := (c_data s)[(h + j) mod 2 ^ c_bits s := v]\<rparr>) p"
proof (cases p)
  case (PushWrite h' i' vs')
  have "(c_data s)[(h + j) mod 2 ^ c_bits s := v] ! ((h' + j') mod 2 ^ c_bits s) = slot_at s (h' + j')"
    if "j' < i'" for j'
  proof -
    have "h + j \<noteq> h' + j'" using assms(1,2,5) that PushWrite by auto
    then have "(h + j) mod 2 ^ c_bits s \<noteq> (h' + j') mod 2 ^ c_bits s"
      using cells_differ[of "h + j" "2 ^ c_bits s" "h' + j'" "c_ct s"] assms that PushWrite by auto
    then show ?thesis by simp
  qed
  then show ?thesis using assms(1) PushWrite by simp
qed (use assms(1) in simp_all)

lemma write_push:
  assumes i: "conc_inv s" and p: "c_thr s t = PushWrite h n vs" and n: "n < length vs"
  shows "conc_inv (go (s\<lparr>c_data := (c_data s)[cell (c_bits s) (low h) n := vs ! n]\<rparr>) t (PushWrite h (Suc n) vs))"
proof -
  note I = conc_invD[OF i]
  have th: "vs \<noteq> []" "c_pt s \<le> h" "h + length vs \<le> c_ph s" "\<forall>j < length vs. c_in s ! (h + j) = vs ! j"
      "\<forall>j < n. slot_at s (h + j) = vs ! j"
    using I(10)[of t] p by auto
  let ?m = "2 ^ c_bits s" and ?d = "(c_data s)[(h + n) mod 2 ^ c_bits s := vs ! n]"
  have other: "?d ! (j mod ?m) = slot_at s j" if "c_ct s \<le> j" "j < c_ct s + ?m" "j \<noteq> h + n" for j
  proof -
    have "(h + n) mod ?m \<noteq> j mod ?m"
      using cells_differ[of "h + n" ?m j "c_ct s"] that th(2,3) n I(3-6) by auto
    then show ?thesis by simp
  qed
  show ?thesis
    unfolding cell_low[OF I(1)]
  proof (rule conc_invI[OF i, where t = t and p = "PushWrite h (Suc n) vs"])
    fix u assume u: "u \<noteq> t"
    show "thr_ok (go (s\<lparr>c_data := ?d\<rparr>) t (PushWrite h (Suc n) vs)) (c_thr s u)"
      unfolding thr_ok_go
      by (rule thr_ok_write[OF I(10) _ th(2,3) n]) (use I(3-6) I(2) I(11)[of t u] u p in auto)
    show "apart (PushWrite h (Suc n) vs) (c_thr s u)"
      using I(11)[of t u] u p by (cases "c_thr s u") auto
  next
    have "?d ! ((h + j) mod ?m) = vs ! j" if "j < Suc n" for j
    proof (cases "j = n")
      case True
      then show ?thesis using I(2) by simp
    next
      case False
      then show ?thesis using other[of "h + j"] that th n I(3-6) by auto
    qed
    then show "thr_ok (go (s\<lparr>c_data := ?d\<rparr>) t (PushWrite h (Suc n) vs)) (PushWrite h (Suc n) vs)"
      using th n by simp
  next
    fix j assume "c_ct (go (s\<lparr>c_data := ?d\<rparr>) t (PushWrite h (Suc n) vs)) \<le> j"
      "j < c_pt (go (s\<lparr>c_data := ?d\<rparr>) t (PushWrite h (Suc n) vs))"
    then have j: "c_ct s \<le> j" "j < c_pt s" by simp_all
    then have "?d ! (j mod ?m) = slot_at s j" using other th(2) I(5,6) by auto
    then show "slot_at (go (s\<lparr>c_data := ?d\<rparr>) t (PushWrite h (Suc n) vs)) j =
        c_in (go (s\<lparr>c_data := ?d\<rparr>) t (PushWrite h (Suc n) vs)) ! j"
      using I(9)[OF j] by simp
  qed (use I in simp_all)
qed

lemma done_push:
  assumes i: "conc_inv s" and p: "c_thr s t = PushWrite h (length vs) vs" and e: "low (c_pt s) = low h"
  shows "conc_inv (go (s\<lparr>c_pt := h + length vs\<rparr>) t (PushCount (length vs)))"
proof -
  note I = conc_invD[OF i]
  have th: "vs \<noteq> []" "c_pt s \<le> h" "h + length vs \<le> c_ph s" "\<forall>j < length vs. c_in s ! (h + j) = vs ! j"
      "\<forall>j < length vs. slot_at s (h + j) = vs ! j"
    using I(10)[of t] p by auto
  have "h < c_pt s + 2 ^ 32" using th(3) I(3-6) pow_word[OF I(1)] by simp
  then have h: "h = c_pt s" using low_eq[OF e[symmetric] th(2)] by simp
  show ?thesis
  proof (rule conc_invI[OF i, where t = t and p = "PushCount (length vs)"])
    fix u assume u: "u \<noteq> t"
    have "apart (PushWrite h (length vs) vs) (c_thr s u)" using I(11)[of t u] u p by simp
    then show "thr_ok (go (s\<lparr>c_pt := h + length vs\<rparr>) t (PushCount (length vs))) (c_thr s u)"
      using I(10)[of u] h th(1) by (cases "c_thr s u") (auto simp: neq_Nil_conv)
  next
    fix j assume "c_ct (go (s\<lparr>c_pt := h + length vs\<rparr>) t (PushCount (length vs))) \<le> j"
      "j < c_pt (go (s\<lparr>c_pt := h + length vs\<rparr>) t (PushCount (length vs)))"
    then have j: "c_ct s \<le> j" "j < h + length vs" by simp_all
    have "slot_at s j = c_in s ! j"
    proof (cases "j < c_pt s")
      case True
      then show ?thesis using I(9)[OF j(1)] by simp
    next
      case False
      then show ?thesis using th(4,5) j h by (metis add_diff_inverse_nat nat_add_left_cancel_less)
    qed
    then show "slot_at (go (s\<lparr>c_pt := h + length vs\<rparr>) t (PushCount (length vs))) j =
        c_in (go (s\<lparr>c_pt := h + length vs\<rparr>) t (PushCount (length vs))) ! j" by simp
  qed (use I th h in simp_all)
qed

lemma won_pop:
  assumes i: "conc_inv s" and p: "c_thr s t = PopCas H P n" and e: "low (c_ch s) = low H" "c_ch s < H + 2 ^ 32"
  shows "conc_inv (go (s\<lparr>c_ch := c_ch s + n\<rparr>) t (PopRead H n []))"
proof -
  note I = conc_invD[OF i]
  have th: "0 < n" "n < 2 ^ 32" "H \<le> c_ch s" "P \<le> c_pt s" "H \<le> P" "\<not> low P - low H < low n"
    using I(10)[of t] p by auto
  have H: "c_ch s = H" using low_eq[OF e(1) th(3) e(2)] .
  have "P < H + 2 ^ 32" using th(4) I(3-6) H pow_word[OF I(1)] by simp
  then have room: "H + n \<le> P" by (rule some_exact[OF th(5) _ th(6,2)])
  show ?thesis
  proof (rule conc_invI[OF i, where t = t and p = "PopRead H n []"])
    fix u assume u: "u \<noteq> t"
    show "thr_ok (go (s\<lparr>c_ch := c_ch s + n\<rparr>) t (PopRead H n [])) (c_thr s u)"
      using I(10)[of u] by (cases "c_thr s u") auto
    show "apart (PopRead H n []) (c_thr s u)"
      using I(10)[of u] H by (cases "c_thr s u") auto
  qed (use I H room th in simp_all)
qed

lemma read_pop:
  assumes i: "conc_inv s" and p: "c_thr s t = PopRead h n as" and n: "length as < n"
  shows "conc_inv (go s t (PopRead h n (as @ [c_data s ! cell (c_bits s) (low h) (length as)])))"
proof -
  note I = conc_invD[OF i]
  have th: "0 < n" "c_ct s \<le> h" "h + n \<le> c_ch s" "\<forall>j < length as. as ! j = c_in s ! (h + j)"
    using I(10)[of t] p by auto
  have "slot_at s (h + length as) = c_in s ! (h + length as)"
    by (rule I(9)) (use th n I(4) in simp_all)
  then have ok: "thr_ok s (PopRead h n (as @ [slot_at s (h + length as)]))"
    using th n by (auto simp: nth_append less_Suc_eq)
  have "apart (PopRead h n (as @ [slot_at s (h + length as)])) (c_thr s u)" if "u \<noteq> t" for u
    using I(11)[of t u] that p by (cases "c_thr s u") auto
  then show ?thesis unfolding cell_low[OF I(1)] by (rule conc_inv_go[OF i ok])
qed

lemma done_pop:
  assumes i: "conc_inv s" and p: "c_thr s t = PopRead h n as" and l: "length as = n" and e: "low (c_ct s) = low h"
  shows "conc_inv (go (s\<lparr>c_ct := h + n, c_out := c_out s @ as\<rparr>) t (PopCount n as))"
proof -
  note I = conc_invD[OF i]
  have th: "0 < n" "c_ct s \<le> h" "h + n \<le> c_ch s" "\<forall>j < length as. as ! j = c_in s ! (h + j)"
    using I(10)[of t] p by auto
  have "h < c_ct s + 2 ^ 32" using th(3) I(3-6) pow_word[OF I(1)] by simp
  then have h: "h = c_ct s" using low_eq[OF e[symmetric] th(2)] by simp
  have "as = take n (drop h (c_in s))"
    using th(3,4) l I(4,5,7) by (intro nth_equalityI) auto
  then have out: "c_out s @ as = take (h + n) (c_in s)" using I(8) h by (simp add: take_add)
  show ?thesis
  proof (rule conc_invI[OF i, where t = t and p = "PopCount n as"])
    fix u assume u: "u \<noteq> t"
    have "apart (PopRead h n as) (c_thr s u)" using I(11)[of t u] u p by simp
    then show "thr_ok (go (s\<lparr>c_ct := h + n, c_out := c_out s @ as\<rparr>) t (PopCount n as)) (c_thr s u)"
      using I(10)[of u] h th(1) by (cases "c_thr s u") auto
  qed (use I th h out in simp_all)
qed

lemma step_conc_inv: "conc_step s s' \<Longrightarrow> conc_inv s \<Longrightarrow> conc_inv s'"
proof (induction rule: conc_step.induct)
  case (push_won s t H T vs)
  then show ?case using won_push by blast
next
  case (push_write s t h i vs)
  then show ?case using write_push by blast
next
  case (push_done s t h vs)
  then show ?case using done_push by blast
next
  case (pop_won s t H P n)
  then show ?case using won_pop by blast
next
  case (pop_read s t h n "as")
  then show ?case using read_pop by blast
next
  case (pop_done s t h n "as")
  then show ?case using done_pop by blast
next
  case (push_count s t n)
  then show ?case by (intro conc_inv_go conc_inv_num) auto
next
  case (pop_count s t n "as")
  then show ?case by (intro conc_inv_go conc_inv_num) auto
next
  case (push_call s t vs)
  then show ?case by (intro conc_inv_go) auto
next
  case (push_head s t vs)
  then show ?case using conc_invD(10)[OF push_head(2), of t] by (intro conc_inv_go) auto
next
  case (push_full s t H vs)
  then show ?case by (intro conc_inv_go) auto
next
  case (push_room s t H vs)
  then show ?case
    using conc_invD(10)[OF push_room(3), of t] conc_invD(6)[OF push_room(3)] by (intro conc_inv_go) auto
next
  case (push_lost s t H T vs)
  then show ?case using conc_invD(10)[OF push_lost(3), of t] by (intro conc_inv_go) auto
next
  case (pop_call s t n)
  then show ?case by (intro conc_inv_go) auto
next
  case (pop_head s t n)
  then show ?case using conc_invD(10)[OF pop_head(2), of t] by (intro conc_inv_go) auto
next
  case (pop_empty s t H n)
  then show ?case by (intro conc_inv_go) auto
next
  case (pop_some s t H n)
  then show ?case
    using conc_invD(10)[OF pop_some(3), of t] conc_invD(4)[OF pop_some(3)] by (intro conc_inv_go) auto
next
  case (pop_lost s t H P n)
  then show ?case using conc_invD(10)[OF pop_lost(3), of t] by (intro conc_inv_go) auto
qed

lemma reach_conc_inv:
  assumes "k \<le> 30" and "conc_reach k s" shows "conc_inv s"
  using assms(2)
proof (induction rule: conc_reach.induct)
  case conc_start
  then show ?case using assms(1) by (simp add: conc_inv_def conc_init_def)
next
  case (conc_next s s')
  then show ?case using step_conc_inv by blast
qed

end
