(* ===== verification/Ring_Spec.thy ===== *)
theory Ring_Spec
  imports Ring_Queue Ring_Conc
begin

text \<open>
  What the ring, the pool of blocks and the message queue promise, alone and under concurrent use.
\<close>

text \<open>C17: a new ring behaves, for every sequence of pushes and pops, like a list of at most \<open>ring_cap\<close>
  elements: what goes in comes out in the same order, a push into a full ring is refused and a pop
  from an empty one gives \<open>NULL\<close>.  The capacity is the number asked for, rounded up to a power of two.\<close>

theorem ring_refines_list:
  assumes "0 < unat n" "unat n \<le> 2 ^ 30"
  shows "\<exists>rq k. ring_creat n [] = Some (Some rq, []) \<and> ring_cap rq = 2 ^ k \<and> unat n \<le> ring_cap rq \<and>
    ring_cap rq < 2 * unat n \<and>
    (\<forall>ops. queue_run ring_push ring_pop rq ops = Some (list_run (ring_cap rq) NULL [] ops))"
proof -
  obtain rq k where rq: "ring_creat n [] = Some (Some rq, [])" "ring_ok rq" "ring_items rq = []"
      "ring_cap rq = 2 ^ k" "unat n \<le> ring_cap rq" "ring_cap rq < 2 * unat n"
    using ring_creat_ok[OF assms] by blast
  then show ?thesis using ring_q.run_refines[OF rq(2)] by auto
qed

theorem ring_refines_list_witness:
  "\<exists>rq. ring_creat 3 [] = Some (Some rq, []) \<and>
     queue_run ring_push ring_pop rq [Enq (Loc 1), Enq (Loc 2), Deq, Enq (Loc 3), Enq (Loc 4), Enq (Loc 5), Enq (Loc 6), Deq, Deq] =
       Some [Ret 0, Ret 0, Got (Loc 1), Ret 0, Ret 0, Ret 0, Ret (- 1), Got (Loc 2), Got (Loc 3)]"
proof -
  obtain rq k where rq: "ring_creat 3 [] = Some (Some rq, [])" "ring_cap rq = 2 ^ k" "3 \<le> ring_cap rq" "ring_cap rq < 6"
      "\<forall>ops. queue_run ring_push ring_pop rq ops = Some (list_run (ring_cap rq) NULL [] ops)"
    using ring_refines_list[of 3] by auto
  have "k < 3" using power_increasing[of 3 k "2 :: nat"] rq(2,4) by (cases "k < 3") auto
  then have "k = 2" using rq(2,3) by (auto simp: less_Suc_eq numeral_3_eq_3)
  then show ?thesis using rq by (simp del: queue_run.simps)
qed

text \<open>C18: batches, also when the 32-bit indices wrap around between the ends of the ring: \<open>ring_mpush\<close> adds
  all elements in order or, when they do not fit, none; \<open>ring_mpop\<close> takes the first \<open>num\<close> or, when
  there are fewer, none.  Every access stays inside the array.\<close>

theorem ring_batch_correct:
  assumes "ring_ok rq" and "length as < 2 ^ 32"
  shows "(if length (ring_items rq) + length as \<le> ring_cap rq
      then \<exists>rq'. ring_mpush rq as = Some (0, rq') \<and> ring_ok rq' \<and> ring_items rq' = ring_items rq @ as
      else ring_mpush rq as = Some (- 1, rq)) \<and>
    (if unat num \<le> length (ring_items rq)
      then \<exists>rq'. ring_mpop rq num = Some (num, take (unat num) (ring_items rq), rq') \<and> ring_ok rq' \<and>
        ring_items rq' = drop (unat num) (ring_items rq)
      else ring_mpop rq num = Some (0, [], rq))"
  using mpush_ok[OF assms] mpop_ok[OF assms(1), of num] by (auto split: if_splits)

text \<open>A ring of four slots whose indices are about to wrap, with one element.\<close>

definition wrap_demo :: ring where
  "wrap_demo = \<lparr>rq_max = 4, rq_mask = 3, rq_num = 1, rq_data = [NULL, NULL, NULL, Loc 9],
     prod_head = 0, prod_tail = 0, cons_head = - 1, cons_tail = - 1\<rparr>"

theorem ring_batch_correct_witness:
  "\<exists>rq'. ring_mpush wrap_demo [Loc 1, Loc 2, Loc 3] = Some (0, rq') \<and>
     ring_items rq' = [Loc 9, Loc 1, Loc 2, Loc 3]"
proof -
  have "ring_ok wrap_demo"
    unfolding ring_ok_def by (intro conjI exI[of _ 2]) (simp_all add: wrap_demo_def mask_eq_exp_minus_1)
  moreover have "ring_items wrap_demo = [Loc 9]" "ring_cap wrap_demo = 4"
    by (simp_all add: wrap_demo_def ring_items_def ring_cap_def)
  ultimately show ?thesis using ring_batch_correct[of wrap_demo "[Loc 1, Loc 2, Loc 3]" 0] by auto
qed








end
