(* ===== verification/Timer.thy ===== *)
theory Timer
  imports Prelude "HOL-Library.Multiset"
begin

text \<open>
  The timer of \<open>src/clang/lib/core/timer.c\<close>: tasks ordered by the time they are due, in an array that is a
  heap from index 1 on with the first task of all at index 0.  A task is known by the number of its object;
  the fields of all task objects are the map \<open>tm_task\<close>.  Times are mathematical integers (\<open>time_t\<close> does not
  overflow); the callbacks of a task are the list of the numbers of its items.
\<close>

subsection \<open>The code\<close>

definition TIMER_CAP :: nat where "TIMER_CAP = 128"

record timer_task =
  tk_idx :: nat
  tk_interval :: int
  tk_list :: "nat list"
  tk_times :: u64
  tk_ttl :: int

record timer_cntx =
  tm_len :: nat
  tm_cap :: nat
  tm_e :: "nat list"
  tm_task :: "nat \<Rightarrow> timer_task"

abbreviation ttl :: "timer_cntx \<Rightarrow> nat \<Rightarrow> int" where
  "ttl ctx t \<equiv> tk_ttl (tm_task ctx t)"

abbreviation set_task :: "timer_cntx \<Rightarrow> nat \<Rightarrow> (timer_task \<Rightarrow> timer_task) \<Rightarrow> timer_cntx" where
  "set_task ctx t f \<equiv> ctx\<lparr>tm_task := (tm_task ctx)(t := f (tm_task ctx t))\<rparr>"

definition timer_item_cmp_cb :: "timer_task \<Rightarrow> timer_task \<Rightarrow> int" where
  "timer_item_cmp_cb item1 item2 = tk_ttl item1 - tk_ttl item2"

abbreviation cmp :: "timer_cntx \<Rightarrow> nat \<Rightarrow> nat \<Rightarrow> int" where
  "cmp ctx a b \<equiv> timer_item_cmp_cb (tm_task ctx a) (tm_task ctx b)"

definition timer_cntx_init :: "allocs \<Rightarrow> timer_cntx option \<times> allocs" where
  "timer_cntx_init al =
     (let (a, al) = alloc_take al in
      if \<not> a then (None, al)
      else let (b, al) = alloc_take al in
      if \<not> b then (None, al)
      else (Some \<lparr>tm_len = 0, tm_cap = TIMER_CAP, tm_e = replicate TIMER_CAP 0,
              tm_task = (\<lambda>_. \<lparr>tk_idx = 0, tk_interval = 0, tk_list = [], tk_times = 0, tk_ttl = 0\<rparr>)\<rparr>, al))"

text \<open>\<open>timer_task_init\<close> and \<open>timer_task_add\<close>; the second is not told when \<open>list_rpush\<close> fails.\<close>

definition timer_task_init :: "int \<Rightarrow> int \<Rightarrow> int \<Rightarrow> allocs \<Rightarrow> timer_task option \<times> allocs" where
  "timer_task_init now start interval al =
     (let (a, al) = alloc_take al in
      if \<not> a then (None, al)
      else let (b, al) = alloc_take al in
      if \<not> b then (None, al)
      else (Some \<lparr>tk_idx = 0, tk_interval = (if interval \<noteq> 0 then interval else 1), tk_list = [],
              tk_times = 0, tk_ttl = now + start\<rparr>, al))"

definition timer_task_add :: "timer_task \<Rightarrow> nat \<Rightarrow> allocs \<Rightarrow> int \<times> timer_task \<times> allocs" where
  "timer_task_add task proc al =
     (let (a, al) = alloc_take al in
      if \<not> a then (- 1, task, al)
      else let (b, al) = alloc_take al in
      (0, if b then task\<lparr>tk_list := tk_list task @ [proc]\<rparr> else task, al))"

text \<open>The loop of \<open>timer_task_start\<close>: parents that are due later move down until the place is found.\<close>

fun timer_up :: "timer_cntx \<Rightarrow> nat list \<Rightarrow> nat \<Rightarrow> nat \<Rightarrow> nat list \<times> nat" where
  "timer_up ctx e task idx =
     (let parent = idx div 2 in
      if idx \<noteq> parent \<and> 0 < cmp ctx (e ! parent) task
      then timer_up ctx (e[idx := e ! parent]) task parent
      else (e[idx := task], idx))"

declare timer_up.simps [simp del]

definition timer_task_start :: "timer_cntx \<Rightarrow> nat \<Rightarrow> allocs \<Rightarrow> int \<times> timer_cntx \<times> allocs" where
  "timer_task_start ctx task al =
     (let (grown, al) = (if tm_cap ctx \<le> tm_len ctx then alloc_take al else (True, al)) in
      if \<not> grown then (- 1, ctx, al)
      else
        let ctx = (if tm_cap ctx \<le> tm_len ctx
                   then ctx\<lparr>tm_e := tm_e ctx @ replicate (tm_cap ctx) 0, tm_cap := 2 * tm_cap ctx\<rparr> else ctx);
            (e, idx) = (if tm_len ctx = 0 then ((tm_e ctx)[0 := task], 0)
                        else timer_up ctx (tm_e ctx) task (tm_len ctx))
        in (0, set_task (ctx\<lparr>tm_e := e, tm_len := Suc (tm_len ctx)\<rparr>) task (\<lambda>k. k\<lparr>tk_idx := idx\<rparr>), al))"

text \<open>
  The loops of \<open>timer_task_pop\<close> and \<open>timer_task_stop\<close>: at index 0 the two candidates are 1 and 2, further
  down \<open>2 * idx\<close> and \<open>2 * idx + 1\<close>.
\<close>

definition timer_left :: "nat \<Rightarrow> nat" where
  "timer_left idx = (if idx = 0 then 1 else 2 * idx)"

definition timer_min :: "timer_cntx \<Rightarrow> nat list \<Rightarrow> nat \<Rightarrow> nat \<Rightarrow> nat" where
  "timer_min ctx e len idx =
     (let left = timer_left idx; right = left + 1 in
      if right < len then (if cmp ctx (e ! left) (e ! right) \<le> 0 then left else right) else left)"

lemma timer_left_gt: "idx < timer_left idx"
  by (simp add: timer_left_def)

lemma timer_min_gt: "idx < timer_min ctx e len idx"
  using timer_left_gt[of idx] by (simp add: timer_min_def Let_def less_Suc_eq)

lemma timer_min_less: "timer_left idx < len \<Longrightarrow> timer_min ctx e len idx < len"
  by (simp add: timer_min_def Let_def)

lemma timer_dec: "\<not> len \<le> timer_left idx \<Longrightarrow> len - timer_min ctx e len idx < len - idx"
  using timer_left_gt[of idx] timer_min_gt[of idx ctx e len] by (intro diff_less_mono2) simp_all

function timer_down :: "timer_cntx \<Rightarrow> nat list \<Rightarrow> nat \<Rightarrow> nat \<Rightarrow> nat \<Rightarrow> nat list" where
  "timer_down ctx e len task idx =
     (if len \<le> timer_left idx then e[idx := task]
      else let m = timer_min ctx e len idx in
        if 0 \<le> cmp ctx (e ! m) task then e[idx := task]
        else timer_down ctx (e[idx := e ! m]) len task m)"
  by pat_completeness auto
termination
  by (relation "measure (\<lambda>(ctx, e, len, task, idx). len - idx)")
    (simp_all add: timer_dec)

declare timer_down.simps [simp del]

definition timer_task_pop :: "timer_cntx \<Rightarrow> nat option \<times> timer_cntx" where
  "timer_task_pop ctx =
     (if tm_len ctx = 0 then (None, ctx)
      else let len = tm_len ctx - 1; e = timer_down ctx (tm_e ctx) len (tm_e ctx ! len) 0
        in (Some (tm_e ctx ! 0), ctx\<lparr>tm_len := len, tm_e := e\<rparr>))"

text \<open>
  \<open>timer_task_stop\<close> also writes the \<open>idx\<close> of the tasks it moves, except that at a leaf it writes the
  index into the task that is removed.
\<close>

function timer_down_idx :: "timer_cntx \<Rightarrow> nat \<Rightarrow> nat \<Rightarrow> nat \<Rightarrow> nat \<Rightarrow> timer_cntx" where
  "timer_down_idx ctx len task item idx =
     (if len \<le> timer_left idx
      then set_task (ctx\<lparr>tm_e := (tm_e ctx)[idx := item]\<rparr>) task (\<lambda>k. k\<lparr>tk_idx := idx\<rparr>)
      else let m = timer_min ctx (tm_e ctx) len idx in
        if 0 \<le> cmp ctx (tm_e ctx ! m) item
        then set_task (ctx\<lparr>tm_e := (tm_e ctx)[idx := item]\<rparr>) item (\<lambda>k. k\<lparr>tk_idx := idx\<rparr>)
        else timer_down_idx
          (set_task (ctx\<lparr>tm_e := (tm_e ctx)[idx := tm_e ctx ! m]\<rparr>) (tm_e ctx ! m) (\<lambda>k. k\<lparr>tk_idx := idx\<rparr>))
          len task item m)"
  by pat_completeness auto
termination
  by (relation "measure (\<lambda>(ctx, len, task, item, idx). len - idx)")
    (simp_all add: timer_dec)

declare timer_down_idx.simps [simp del]

definition timer_task_stop :: "timer_cntx \<Rightarrow> nat \<Rightarrow> int \<times> timer_cntx" where
  "timer_task_stop ctx task =
     (let idx = tk_idx (tm_task ctx task) in
      if tm_len ctx \<le> idx then (- 1, ctx)
      else if task \<noteq> tm_e ctx ! idx then (- 1, ctx)
      else let len = tm_len ctx - 1
        in (0, timer_down_idx (ctx\<lparr>tm_len := len\<rparr>) len task (tm_e ctx ! len) idx))"

text \<open>The waiting time is an \<open>int\<close>: the difference of the times is cut to 32 bits.\<close>

definition timer_task_is_timeout :: "timer_cntx \<Rightarrow> int \<Rightarrow> bool" where
  "timer_task_is_timeout ctx ctm =
     (if tm_len ctx = 0 then False
      else let t = ttl ctx (tm_e ctx ! 0);
               timeout = (if ctm < t then signed_take_bit 31 (t - ctm) else 0)
        in \<not> 0 < timeout)"

text \<open>
  The inner loop of \<open>timer_task_routine\<close> at time \<open>now\<close>, with the numbers of the callbacks in the order
  they run.  The fuel bounds the number of tasks.
\<close>

fun timer_round :: "nat \<Rightarrow> timer_cntx \<Rightarrow> int \<Rightarrow> nat list \<Rightarrow> (timer_cntx \<times> nat list) option" where
  "timer_round fuel ctx now calls =
     (if \<not> timer_task_is_timeout ctx now then Some (ctx, calls)
      else case fuel of 0 \<Rightarrow> None
      | Suc fuel \<Rightarrow>
          (case timer_task_pop ctx of
             (None, ctx) \<Rightarrow> Some (ctx, calls)
           | (Some t, ctx) \<Rightarrow>
               let ctx = set_task ctx t (\<lambda>k. k\<lparr>tk_times := tk_times k + 1, tk_ttl := now + tk_interval k\<rparr>);
                   (_, ctx, _) = timer_task_start ctx t []
               in timer_round fuel ctx now (calls @ tk_list (tm_task ctx t))))"

declare timer_round.simps [simp del]

end
