(* ===== verification/Timer_Heap.thy ===== *)
theory Timer_Heap
  imports Timer
begin

text \<open>
  The array of the timer is a heap: each task is due no earlier than its parent (\<open>timer_ok\<close>).  The lemmas
  on the two loops speak of an array with a hole at \<open>idx\<close> into which \<open>task\<close> is to go (\<open>hole_down\<close>,
  \<open>hole_up\<close>).
\<close>

subsection \<open>The heap\<close>

definition heap_at :: "(nat \<Rightarrow> int) \<Rightarrow> nat list \<Rightarrow> nat \<Rightarrow> bool" where
  "heap_at key e len \<longleftrightarrow> (\<forall>i. 0 < i \<and> i < len \<longrightarrow> key (e ! (i div 2)) \<le> key (e ! i))"

definition timer_ok :: "timer_cntx \<Rightarrow> bool" where
  "timer_ok ctx \<longleftrightarrow> 0 < tm_cap ctx \<and> length (tm_e ctx) = tm_cap ctx \<and> tm_len ctx \<le> tm_cap ctx \<and>
     distinct (take (tm_len ctx) (tm_e ctx)) \<and> heap_at (ttl ctx) (tm_e ctx) (tm_len ctx)"

definition timer_tasks :: "timer_cntx \<Rightarrow> nat set" where
  "timer_tasks ctx = set (take (tm_len ctx) (tm_e ctx))"

lemma heap_root: "heap_at key e len \<Longrightarrow> i < len \<Longrightarrow> key (e ! 0) \<le> key (e ! i)"
proof (induction i rule: less_induct)
  case (less i)
  show ?case
  proof (cases "i = 0")
    case False
    then have "key (e ! 0) \<le> key (e ! (i div 2))" using less by simp
    also have "\<dots> \<le> key (e ! i)" using False less.prems by (simp add: heap_at_def)
    finally show ?thesis .
  qed simp
qed

definition hole_down :: "(nat \<Rightarrow> int) \<Rightarrow> nat list \<Rightarrow> nat \<Rightarrow> nat \<Rightarrow> nat \<Rightarrow> bool" where
  "hole_down key e len task idx \<longleftrightarrow> idx < len \<and>
     (\<forall>i. 0 < i \<and> i < len \<and> i \<noteq> idx \<and> i div 2 \<noteq> idx \<longrightarrow> key (e ! (i div 2)) \<le> key (e ! i)) \<and>
     (0 < idx \<longrightarrow> key (e ! (idx div 2)) \<le> key task) \<and>
     (0 < idx \<longrightarrow> (\<forall>c. c < len \<and> c \<noteq> idx \<and> c div 2 = idx \<longrightarrow> key (e ! (idx div 2)) \<le> key (e ! c)))"

definition hole_up :: "(nat \<Rightarrow> int) \<Rightarrow> nat list \<Rightarrow> nat \<Rightarrow> nat \<Rightarrow> nat \<Rightarrow> bool" where
  "hole_up key e len task idx \<longleftrightarrow> idx < len \<and>
     (\<forall>i. 0 < i \<and> i < len \<and> i \<noteq> idx \<and> i div 2 \<noteq> idx \<longrightarrow> key (e ! (i div 2)) \<le> key (e ! i)) \<and>
     (\<forall>c. 0 < c \<and> c < len \<and> c \<noteq> idx \<and> c div 2 = idx \<longrightarrow> key task \<le> key (e ! c)) \<and>
     (0 < idx \<longrightarrow> (\<forall>c. c < len \<and> c \<noteq> idx \<and> c div 2 = idx \<longrightarrow> key (e ! (idx div 2)) \<le> key (e ! c)))"

text \<open>Filling the hole.\<close>

lemma fill_hole:
  assumes "idx < len" "len \<le> length e"
    and "\<forall>i. 0 < i \<and> i < len \<and> i \<noteq> idx \<and> i div 2 \<noteq> idx \<longrightarrow> key (e ! (i div 2)) \<le> key (e ! i)"
    and "0 < idx \<Longrightarrow> key (e ! (idx div 2)) \<le> key task"
    and "\<And>c. 0 < c \<Longrightarrow> c < len \<Longrightarrow> c \<noteq> idx \<Longrightarrow> c div 2 = idx \<Longrightarrow> key task \<le> key (e ! c)"
  shows "heap_at key (e[idx := task]) len"
  unfolding heap_at_def
proof (intro allI impI)
  fix i assume i: "0 < i \<and> i < len"
  have "idx div 2 \<noteq> idx" if "0 < idx" using that by simp
  then show "key (e[idx := task] ! (i div 2)) \<le> key (e[idx := task] ! i)"
    using i assms by (auto simp: nth_list_update)
qed

lemma swap_mset:
  assumes "i < len" "j < len" "len \<le> length e" "i \<noteq> j"
  shows "mset (take len ((e[i := e ! j])[j := x])) = mset (take len (e[i := x]))"
proof -
  let ?t = "(take len e)[i := x]"
  have l: "i < length ?t" "j < length ?t" using assms by simp_all
  have "(take len e)[i := take len e ! j, j := x] = ?t[i := ?t ! j, j := ?t ! i]"
    using assms by (simp add: list_update_swap)
  then show ?thesis
    using mset_swap[OF l(2,1)] assms by (simp add: take_update_swap list_update_swap)
qed

subsection \<open>Moving down\<close>

lemma cmp_le: "0 \<le> cmp ctx a b \<longleftrightarrow> ttl ctx b \<le> ttl ctx a" "cmp ctx a b \<le> 0 \<longleftrightarrow> ttl ctx a \<le> ttl ctx b"
  "0 < cmp ctx a b \<longleftrightarrow> ttl ctx b < ttl ctx a"
  by (auto simp: timer_item_cmp_cb_def)

text \<open>The index chosen is a child, or 1 below the root, and no child in range has a smaller key.\<close>

lemma timer_min_least:
  assumes hole: "hole_down (ttl ctx) e len task idx" and l: "timer_left idx < len"
  defines "m \<equiv> timer_min ctx e len idx"
  shows "idx < m" "m < len" "m div 2 = idx" "m \<noteq> idx" "0 < m"
    "\<And>c. 0 < c \<Longrightarrow> c < len \<Longrightarrow> c \<noteq> idx \<Longrightarrow> c div 2 = idx \<Longrightarrow> ttl ctx (e ! m) \<le> ttl ctx (e ! c)"
proof -
  show m1: "idx < m" "m < len" using timer_min_gt timer_min_less[OF l] by (simp_all add: m_def)
  then show "m \<noteq> idx" "0 < m" by simp_all
  have root: "m = 1" if "idx = 0"
  proof -
    have "ttl ctx (e ! 1) \<le> ttl ctx (e ! 2)" if "2 < len"
    proof -
      have "ttl ctx (e ! (2 div 2)) \<le> ttl ctx (e ! 2)"
        using hole that \<open>idx = 0\<close> unfolding hole_down_def by (metis div_self zero_neq_numeral zero_neq_one zero_less_numeral)
      then show ?thesis by simp
    qed
    then show ?thesis
      using \<open>idx = 0\<close> by (simp add: m_def timer_min_def timer_left_def Let_def cmp_le numeral_2_eq_2)
  qed
  show "m div 2 = idx"
    using root by (cases "idx = 0") (auto simp: m_def timer_min_def timer_left_def Let_def)
  show "ttl ctx (e ! m) \<le> ttl ctx (e ! c)" if "0 < c" "c < len" "c \<noteq> idx" "c div 2 = idx" for c
  proof (cases "idx = 0")
    case True
    then have "c = 1" using that by (simp add: div_eq_0_iff less_2_cases_iff)
    then show ?thesis using root[OF True] by simp
  next
    case False
    then have "c = 2 * idx \<or> c = 2 * idx + 1" using that(4) by presburger
    then show ?thesis using that(2) False
      by (auto simp: m_def timer_min_def timer_left_def Let_def cmp_le)
  qed
qed

lemma hole_down_step:
  assumes hole: "hole_down (ttl ctx) e len task idx" and l: "timer_left idx < len" and le: "len \<le> length e"
  defines "m \<equiv> timer_min ctx e len idx"
  assumes less: "ttl ctx (e ! m) < ttl ctx task"
  shows "hole_down (ttl ctx) (e[idx := e ! m]) len task m"
proof -
  note M = timer_min_least[OF hole l, folded m_def]
  let ?k = "ttl ctx" and ?e = "e[idx := e ! m]"
  have H: "idx < len" "\<And>i. 0 < i \<Longrightarrow> i < len \<Longrightarrow> i \<noteq> idx \<Longrightarrow> i div 2 \<noteq> idx \<Longrightarrow> ?k (e ! (i div 2)) \<le> ?k (e ! i)"
      "\<And>c. 0 < idx \<Longrightarrow> c < len \<Longrightarrow> c \<noteq> idx \<Longrightarrow> c div 2 = idx \<Longrightarrow> ?k (e ! (idx div 2)) \<le> ?k (e ! c)"
    using hole by (auto simp: hole_down_def)
  have "?k (?e ! (i div 2)) \<le> ?k (?e ! i)" if i: "0 < i" "i < len" "i \<noteq> m" "i div 2 \<noteq> m" for i
  proof (cases "i = idx")
    case True
    then have "i div 2 \<noteq> idx" using i(1) by simp
    then show ?thesis using True H(1) H(3)[of m] i M le by (simp add: nth_list_update)
  next
    case False
    then show ?thesis using M(6)[of i] H(2)[of i] i H(1) le by (cases "i div 2 = idx") (auto simp: nth_list_update)
  qed
  moreover have "?k (?e ! (m div 2)) \<le> ?k (?e ! c)" if "c < len" "c \<noteq> m" "c div 2 = m" for c
  proof -
    have "c \<noteq> idx" using that(3) M(1) by auto
    moreover have "0 < c" using that(3) M(5) by (cases c) auto
    moreover have "c div 2 \<noteq> idx" using that(3) M(4) by simp
    ultimately have "?k (e ! m) \<le> ?k (e ! c)" using H(2)[of c] that by simp
    then show ?thesis using \<open>c \<noteq> idx\<close> H(1) le by (simp add: M(3))
  qed
  moreover have "?k (?e ! (m div 2)) \<le> ?k task" using less H(1) le by (simp add: M(3))
  ultimately show ?thesis using M(2) by (simp add: hole_down_def)
qed

lemma down_heap:
  "hole_down (ttl ctx) e len task idx \<Longrightarrow> len \<le> length e \<Longrightarrow> heap_at (ttl ctx) (timer_down ctx e len task idx) len"
proof (induction ctx e len task idx rule: timer_down.induct)
  case (1 ctx e len task idx)
  let ?m = "timer_min ctx e len idx"
  have H: "idx < len" "\<forall>i. 0 < i \<and> i < len \<and> i \<noteq> idx \<and> i div 2 \<noteq> idx \<longrightarrow> ttl ctx (e ! (i div 2)) \<le> ttl ctx (e ! i)"
      "0 < idx \<Longrightarrow> ttl ctx (e ! (idx div 2)) \<le> ttl ctx task"
    using "1.prems"(1) by (auto simp: hole_down_def)
  show ?case
  proof (cases "len \<le> timer_left idx")
    case True
    have "\<not> (0 < c \<and> c < len \<and> c \<noteq> idx \<and> c div 2 = idx)" for c
      using True by (auto simp: timer_left_def split: if_splits)
    then have "heap_at (ttl ctx) (e[idx := task]) len"
      by (intro fill_hole[OF H(1) "1.prems"(2) H(2,3)]) blast+
    then show ?thesis using True by (simp add: timer_down.simps)
  next
    case False
    then have l: "timer_left idx < len" by simp
    note M = timer_min_least[OF "1.prems"(1) l]
    show ?thesis
    proof (cases "0 \<le> cmp ctx (e ! ?m) task")
      case True
      have "heap_at (ttl ctx) (e[idx := task]) len"
        by (rule fill_hole[OF H(1) "1.prems"(2) H(2,3)]) (use M(6) True in \<open>auto simp: cmp_le intro: order_trans\<close>)
      then show ?thesis using False True by (simp add: timer_down.simps Let_def)
    next
      case down: False
      then have "ttl ctx (e ! ?m) < ttl ctx task" by (simp add: cmp_le)
      then have "hole_down (ttl ctx) (e[idx := e ! ?m]) len task ?m"
        by (rule hole_down_step[OF "1.prems"(1) l "1.prems"(2)])
      then show ?thesis using "1.IH"[OF False refl down] "1.prems"(2) False down
        by (simp add: timer_down.simps[of ctx e] Let_def)
    qed
  qed
qed

lemma down_mset:
  "idx < len \<Longrightarrow> len \<le> length e \<Longrightarrow>
   mset (take len (timer_down ctx e len task idx)) = mset (take len (e[idx := task])) \<and>
   length (timer_down ctx e len task idx) = length e"
proof (induction ctx e len task idx rule: timer_down.induct)
  case (1 ctx e len task idx)
  let ?m = "timer_min ctx e len idx"
  show ?case
  proof (cases "len \<le> timer_left idx \<or> 0 \<le> cmp ctx (e ! ?m) task")
    case True
    then show ?thesis by (auto simp: timer_down.simps[of ctx e] Let_def)
  next
    case False
    then have m: "?m < len" "idx \<noteq> ?m" using timer_min_less[of idx len ctx e] timer_min_gt[of idx ctx e len] by auto
    have "mset (take len (timer_down ctx (e[idx := e ! ?m]) len task ?m)) = mset (take len (e[idx := e ! ?m, ?m := task]))"
      "length (timer_down ctx (e[idx := e ! ?m]) len task ?m) = length e"
      using "1.IH"[OF _ refl] False m(1) "1.prems" by auto
    then show ?thesis
      using False swap_mset[OF "1.prems"(1) m(1) "1.prems"(2) m(2)] by (simp add: timer_down.simps[of ctx e] Let_def)
  qed
qed

subsection \<open>Moving up\<close>

lemma hole_up_step:
  assumes hole: "hole_up key e len task idx" and le: "len \<le> length e" and i0: "0 < idx"
    and less: "key task < key (e ! (idx div 2))"
  shows "hole_up key (e[idx := e ! (idx div 2)]) len task (idx div 2)"
proof -
  let ?p = "idx div 2" and ?e = "e[idx := e ! (idx div 2)]"
  have p: "?p < idx" using i0 by simp
  have H: "idx < len" "\<And>i. 0 < i \<Longrightarrow> i < len \<Longrightarrow> i \<noteq> idx \<Longrightarrow> i div 2 \<noteq> idx \<Longrightarrow> key (e ! (i div 2)) \<le> key (e ! i)"
      "\<And>c. c < len \<Longrightarrow> c \<noteq> idx \<Longrightarrow> c div 2 = idx \<Longrightarrow> key (e ! ?p) \<le> key (e ! c)"
    using hole i0 by (auto simp: hole_up_def)
  have "key (?e ! (i div 2)) \<le> key (?e ! i)" if i: "0 < i" "i < len" "i \<noteq> ?p" "i div 2 \<noteq> ?p" for i
    using H(2)[of i] H(3)[of i] i H(1) le by (cases "i div 2 = idx"; cases "i = idx") (auto simp: nth_list_update)
  moreover have "key task \<le> key (?e ! c)" if "0 < c" "c < len" "c \<noteq> ?p" "c div 2 = ?p" for c
  proof (cases "c = idx")
    case False
    then have "key (e ! ?p) \<le> key (e ! c)" using H(2)[of c] that p by auto
    then show ?thesis using less False by simp
  qed (use less H(1) le in simp)
  moreover have "key (?e ! (?p div 2)) \<le> key (?e ! c)" if "0 < ?p" "c < len" "c \<noteq> ?p" "c div 2 = ?p" for c
  proof -
    have "?p div 2 \<noteq> idx" using p by linarith
    moreover have pp: "key (e ! (?p div 2)) \<le> key (e ! ?p)" using H(2)[of ?p] that(1) p H(1) by simp
    moreover have "key (e ! ?p) \<le> key (e ! c)" if "c \<noteq> idx"
      using H(2)[of c] that \<open>c < len\<close> \<open>c div 2 = ?p\<close> \<open>0 < ?p\<close> p by (cases "c = 0") auto
    ultimately show ?thesis using H(1) le by (cases "c = idx") auto
  qed
  moreover have "?p < len" using H(1) p by simp
  ultimately show ?thesis unfolding hole_up_def by blast
qed

lemma up_ok:
  "hole_up (ttl ctx) e len task idx \<Longrightarrow> len \<le> length e \<Longrightarrow> timer_up ctx e task idx = (e', i') \<Longrightarrow>
   heap_at (ttl ctx) e' len \<and> mset (take len e') = mset (take len (e[idx := task])) \<and> length e' = length e \<and>
   i' < len \<and> e' ! i' = task"
proof (induction ctx e task idx rule: timer_up.induct)
  case (1 ctx e task idx)
  let ?p = "idx div 2"
  have H: "idx < len" "\<forall>i. 0 < i \<and> i < len \<and> i \<noteq> idx \<and> i div 2 \<noteq> idx \<longrightarrow> ttl ctx (e ! (i div 2)) \<le> ttl ctx (e ! i)"
      "\<And>c. 0 < c \<Longrightarrow> c < len \<Longrightarrow> c \<noteq> idx \<Longrightarrow> c div 2 = idx \<Longrightarrow> ttl ctx task \<le> ttl ctx (e ! c)"
    using "1.prems"(1) by (auto simp: hole_up_def)
  show ?case
  proof (cases "idx \<noteq> ?p \<and> 0 < cmp ctx (e ! ?p) task")
    case True
    then have i0: "0 < idx" by (cases idx) auto
    have hole: "hole_up (ttl ctx) (e[idx := e ! ?p]) len task ?p"
      by (rule hole_up_step[OF "1.prems"(1,2) i0]) (use True in \<open>simp add: cmp_le\<close>)
    have run: "timer_up ctx (e[idx := e ! ?p]) task ?p = (e', i')"
      using "1.prems"(3) True by (simp add: timer_up.simps[of ctx e] Let_def)
    have "?p < len" "idx \<noteq> ?p" using H(1) True by auto
    then show ?thesis
      using "1.IH"[OF refl True hole _ run] "1.prems"(2) swap_mset[OF H(1) _ "1.prems"(2), of ?p task] by auto
  next
    case False
    then have e': "e' = e[idx := task]" "i' = idx"
      using "1.prems"(3) by (auto simp: timer_up.simps[of ctx e] Let_def)
    have "0 < idx \<Longrightarrow> ttl ctx (e ! ?p) \<le> ttl ctx task" using False by (auto simp: cmp_le)
    then have "heap_at (ttl ctx) (e[idx := task]) len"
      by (rule fill_hole[OF H(1) "1.prems"(2) H(2) _ H(3)])
    then show ?thesis using e' H(1) "1.prems"(2) by simp
  qed
qed

subsection \<open>The operations\<close>

lemma timer_okD:
  assumes "timer_ok ctx"
  shows "0 < tm_cap ctx" "length (tm_e ctx) = tm_cap ctx" "tm_len ctx \<le> tm_cap ctx"
    "distinct (take (tm_len ctx) (tm_e ctx))" "heap_at (ttl ctx) (tm_e ctx) (tm_len ctx)"
    "card (timer_tasks ctx) = tm_len ctx" "finite (timer_tasks ctx)"
  using assms by (auto simp: timer_ok_def timer_tasks_def distinct_card)

lemma init_timer: "timer_cntx_init [] = (Some ctx, al) \<Longrightarrow> timer_ok ctx \<and> timer_tasks ctx = {} \<and> al = []"
  by (auto simp: timer_cntx_init_def timer_ok_def timer_tasks_def heap_at_def TIMER_CAP_def)

lemma task_ttl_idx [simp]: "ttl (ctx\<lparr>tm_task := (tm_task ctx)(t := (tm_task ctx t)\<lparr>tk_idx := i\<rparr>)\<rparr>) u = ttl ctx u"
  by simp

lemma take_heap_grow: "heap_at key (e @ xs) len = heap_at key e len" if "len \<le> length e"
  using that by (auto simp: heap_at_def nth_append)

text \<open>The array with room for one more.\<close>

definition timer_grow :: "timer_cntx \<Rightarrow> timer_cntx" where
  "timer_grow ctx = (if tm_cap ctx \<le> tm_len ctx
     then ctx\<lparr>tm_e := tm_e ctx @ replicate (tm_cap ctx) 0, tm_cap := 2 * tm_cap ctx\<rparr> else ctx)"

lemma grow_ok:
  assumes "timer_ok ctx"
  shows "timer_ok (timer_grow ctx)" "tm_len (timer_grow ctx) < tm_cap (timer_grow ctx)"
    "tm_len (timer_grow ctx) = tm_len ctx" "timer_tasks (timer_grow ctx) = timer_tasks ctx"
    "tm_task (timer_grow ctx) = tm_task ctx"
  using timer_okD[OF assms] by (auto simp: timer_grow_def timer_ok_def timer_tasks_def take_heap_grow)

lemma start_timer:
  assumes ok: "timer_ok ctx" and t: "t \<notin> timer_tasks ctx"
  shows "\<exists>ctx'. timer_task_start ctx t [] = (0, ctx', []) \<and> timer_ok ctx' \<and>
    timer_tasks ctx' = insert t (timer_tasks ctx) \<and>
    (\<exists>i. tm_task ctx' = (tm_task ctx)(t := (tm_task ctx t)\<lparr>tk_idx := i\<rparr>) \<and> i < tm_len ctx' \<and> tm_e ctx' ! i = t)"
proof -
  let ?g = "timer_grow ctx" and ?n = "tm_len ctx"
  note G = grow_ok[OF ok] and g = timer_okD[OF grow_ok(1)[OF ok]]
  have n: "?n < length (tm_e ?g)" using G(2,3) g(2) by simp
  obtain e i where up: "timer_up ?g (tm_e ?g) t ?n = (e, i)" by fastforce
  have "hole_up (ttl ?g) (tm_e ?g) (Suc ?n) t ?n"
  proof -
    have "c div 2 \<noteq> ?n" if "0 < c" "c < Suc ?n" "c \<noteq> ?n" for c using that by linarith
    then show ?thesis using g(5) G(3) by (auto simp: hole_up_def heap_at_def)
  qed
  from up_ok[OF this _ up] n have U: "heap_at (ttl ?g) e (Suc ?n)"
      "mset (take (Suc ?n) e) = mset (take (Suc ?n) ((tm_e ?g)[?n := t]))" "length e = length (tm_e ?g)"
      "i < Suc ?n" "e ! i = t" by auto
  have tk: "take (Suc ?n) ((tm_e ?g)[?n := t]) = take ?n (tm_e ?g) @ [t]"
    using n by (simp add: take_Suc_conv_app_nth)
  let ?r = "set_task (?g\<lparr>tm_e := e, tm_len := Suc ?n\<rparr>) t (\<lambda>k. k\<lparr>tk_idx := i\<rparr>)"
  have zero: "((tm_e ?g)[0 := t], 0) = (e, i)" if "?n = 0"
    using up that by (simp add: timer_up.simps[of ?g] Let_def)
  have run: "timer_task_start ctx t [] = (0, ?r, [])"
    using up zero G(3) unfolding timer_task_start_def timer_grow_def
    by (cases "?n = 0") (auto simp: Let_def split: if_splits)
  have d: "distinct (take (Suc ?n) e)"
  proof -
    have "distinct (take ?n (tm_e ?g) @ [t])" using g(4) G(3,4) t by (simp add: timer_tasks_def)
    then show ?thesis using U(2) tk mset_eq_imp_distinct_iff by metis
  qed
  have set: "set (take (Suc ?n) e) = insert t (timer_tasks ctx)"
    using mset_eq_setD[OF U(2)] G(3,4) by (simp add: tk timer_tasks_def)
  have same: "ttl ?r = ttl ?g" by auto
  have "timer_ok ?r"
    unfolding timer_ok_def same using d U(1,3) g(1,2) G(2,3) by simp
  moreover have "timer_tasks ?r = insert t (timer_tasks ctx)" using set by (simp add: timer_tasks_def)
  ultimately show ?thesis using run U(4,5) G(5) by auto
qed

lemma pop_timer:
  assumes ok: "timer_ok ctx" and n: "tm_len ctx \<noteq> 0"
  shows "\<exists>t ctx'. timer_task_pop ctx = (Some t, ctx') \<and> timer_ok ctx' \<and> t \<in> timer_tasks ctx \<and>
    (\<forall>u \<in> timer_tasks ctx. ttl ctx t \<le> ttl ctx u) \<and> timer_tasks ctx' = timer_tasks ctx - {t} \<and>
    tm_task ctx' = tm_task ctx \<and> t = tm_e ctx ! 0"
proof -
  note I = timer_okD[OF ok]
  let ?n = "tm_len ctx - 1" and ?e = "tm_e ctx" and ?t = "tm_e ctx ! 0"
  let ?d = "timer_down ctx ?e ?n (?e ! ?n) 0"
  let ?r = "ctx\<lparr>tm_len := ?n, tm_e := ?d\<rparr>"
  have n1: "?n < length ?e" "tm_len ctx = Suc ?n" using n I(2,3) by auto
  have run: "timer_task_pop ctx = (Some ?t, ?r)" using n by (simp add: timer_task_pop_def Let_def)
  have tk: "take (tm_len ctx) ?e = take ?n ?e @ [?e ! ?n]" using n1 by (metis take_Suc_conv_app_nth)
  have t: "?t \<in> timer_tasks ctx" using n I(2,3) by (auto simp: timer_tasks_def in_set_conv_nth intro!: exI[of _ 0])
  have least: "\<forall>u \<in> timer_tasks ctx. ttl ctx ?t \<le> ttl ctx u"
    using heap_root[OF I(5)] by (auto simp: timer_tasks_def in_set_conv_nth)
  have res: "heap_at (ttl ctx) ?d ?n \<and> mset (take ?n ?d) = mset (take (tm_len ctx) ?e) - {#?t#} \<and> length ?d = length ?e"
  proof (cases "?n = 0")
    case True
    have "length ?d = length ?e" using True by (simp add: timer_down.simps[of ctx ?e])
    then show ?thesis using True tk by (simp add: heap_at_def)
  next
    case False
    have "hole_down (ttl ctx) ?e ?n (?e ! ?n) 0"
      using I(5) False n1(2) by (auto simp: hole_down_def heap_at_def)
    then have "heap_at (ttl ctx) ?d ?n" using n1 by (intro down_heap) simp_all
    moreover have m: "mset (take ?n ?d) = mset (take ?n (?e[0 := ?e ! ?n]))" "length ?d = length ?e"
      using down_mset[of 0 ?n ?e ctx "?e ! ?n"] False n1 by simp_all
    moreover have "mset (take ?n (?e[0 := ?e ! ?n])) = mset (take (tm_len ctx) ?e) - {#?t#}"
    proof -
      obtain m where m: "?n = Suc m" using False by (cases ?n) auto
      obtain a xs where e: "?e = a # xs" using n1(1) by (cases ?e) auto
      have "take (Suc m) xs = take m xs @ [xs ! m]"
        using n1(1) m e by (intro take_Suc_conv_app_nth) simp
      moreover have "tm_len ctx = Suc (Suc m)" using m by simp
      ultimately show ?thesis by (simp add: e)
    qed
    ultimately show ?thesis by simp
  qed
  have "distinct (take ?n ?d)" "set (take ?n ?d) = timer_tasks ctx - {?t}"
  proof -
    have "mset (take ?n ?d) = mset (remove1 ?t (take (tm_len ctx) ?e))" using res by simp
    then show "distinct (take ?n ?d)" "set (take ?n ?d) = timer_tasks ctx - {?t}"
      using distinct_remove1[OF I(4), of ?t] set_remove1_eq[OF I(4), of ?t]
      unfolding timer_tasks_def by (metis mset_eq_imp_distinct_iff, metis mset_eq_setD)
  qed
  then have "timer_ok ?r" "timer_tasks ?r = timer_tasks ctx - {?t}"
    using res I(1-3) by (simp_all add: timer_ok_def timer_tasks_def)
  then show ?thesis using run t least by (intro exI[of _ ?t] exI[of _ ?r]) simp
qed

subsection \<open>A round of the timer thread\<close>

definition timer_due :: "timer_cntx \<Rightarrow> int \<Rightarrow> nat set" where
  "timer_due ctx now = {t \<in> timer_tasks ctx. ttl ctx t \<le> now}"

definition timer_near :: "timer_cntx \<Rightarrow> int \<Rightarrow> bool" where
  "timer_near ctx now \<longleftrightarrow> (\<forall>t \<in> timer_tasks ctx. ttl ctx t - now < 2 ^ 31 \<and>
     0 < tk_interval (tm_task ctx t) \<and> tk_interval (tm_task ctx t) < 2 ^ 31)"

lemma is_timeout:
  assumes ok: "timer_ok ctx" and near: "timer_near ctx now"
  shows "timer_task_is_timeout ctx now \<longleftrightarrow> timer_due ctx now \<noteq> {}"
proof (cases "tm_len ctx = 0")
  case True
  then show ?thesis by (simp add: timer_task_is_timeout_def timer_due_def timer_tasks_def)
next
  case False
  note I = timer_okD[OF ok]
  let ?t = "tm_e ctx ! 0"
  have t: "?t \<in> timer_tasks ctx" using False I(2,3) by (auto simp: timer_tasks_def in_set_conv_nth intro!: exI[of _ 0])
  have least: "\<forall>u \<in> timer_tasks ctx. ttl ctx ?t \<le> ttl ctx u"
    using heap_root[OF I(5)] by (auto simp: timer_tasks_def in_set_conv_nth)
  have "signed_take_bit 31 (ttl ctx ?t - now) = ttl ctx ?t - now" if "now < ttl ctx ?t"
    by (rule signed_take_bit_int_eq_self) (use near t that in \<open>auto simp: timer_near_def\<close>)
  then have "timer_task_is_timeout ctx now \<longleftrightarrow> ttl ctx ?t \<le> now"
    using False by (auto simp: timer_task_is_timeout_def Let_def)
  also have "\<dots> \<longleftrightarrow> timer_due ctx now \<noteq> {}"
    using t least unfolding timer_due_def by (blast intro: order_trans)
  finally show ?thesis .
qed

text \<open>The record of a task after it has run.\<close>

definition fired :: "int \<Rightarrow> timer_task \<Rightarrow> timer_task" where
  "fired now k = k\<lparr>tk_times := tk_times k + 1, tk_ttl := now + tk_interval k\<rparr>"

definition same_task :: "timer_task \<Rightarrow> timer_task \<Rightarrow> bool" where
  "same_task k k' \<longleftrightarrow> tk_interval k' = tk_interval k \<and> tk_list k' = tk_list k \<and> tk_times k' = tk_times k \<and> tk_ttl k' = tk_ttl k"

lemma same_task_simps [simp]: "same_task k k" "same_task k (k\<lparr>tk_idx := i\<rparr>)"
  by (simp_all add: same_task_def)

lemma heap_other_task:
  assumes "timer_ok ctx" "t \<notin> timer_tasks ctx"
  shows "timer_ok (ctx\<lparr>tm_task := (tm_task ctx)(t := k)\<rparr>)"
    "timer_tasks (ctx\<lparr>tm_task := (tm_task ctx)(t := k)\<rparr>) = timer_tasks ctx"
proof -
  note I = timer_okD[OF assms(1)]
  have ne: "tm_e ctx ! i \<noteq> t" if "i < tm_len ctx" for i
    using assms(2) that I(2,3) by (auto simp: timer_tasks_def in_set_conv_nth)
  have "tm_e ctx ! i \<noteq> t \<and> tm_e ctx ! (i div 2) \<noteq> t" if "i < tm_len ctx" for i
    using ne[OF that] ne[of "i div 2"] that by simp
  then show "timer_ok (ctx\<lparr>tm_task := (tm_task ctx)(t := k)\<rparr>)"
    using assms(1) by (auto simp: timer_ok_def heap_at_def)
  show "timer_tasks (ctx\<lparr>tm_task := (tm_task ctx)(t := k)\<rparr>) = timer_tasks ctx" by (simp add: timer_tasks_def)
qed

lemma round_ok:
  assumes "timer_ok ctx" and "timer_near ctx now" and "card (timer_due ctx now) \<le> fuel"
  shows "\<exists>ctx' ts. timer_round fuel ctx now calls = Some (ctx', calls @ concat (map (\<lambda>t. tk_list (tm_task ctx t)) ts)) \<and>
    timer_ok ctx' \<and> timer_tasks ctx' = timer_tasks ctx \<and> timer_due ctx' now = {} \<and>
    distinct ts \<and> set ts = timer_due ctx now \<and> sorted (map (ttl ctx) ts) \<and>
    (\<forall>t. same_task (if t \<in> set ts then fired now (tm_task ctx t) else tm_task ctx t) (tm_task ctx' t))"
  using assms
proof (induction fuel arbitrary: ctx calls)
  case 0
  have "finite (timer_due ctx now)" using timer_okD(7)[OF "0"(1)] by (simp add: timer_due_def)
  then have "timer_due ctx now = {}" using "0"(3) by simp
  then show ?case
    using 0 is_timeout[OF "0"(1,2)] by (intro exI[of _ ctx] exI[of _ "[]"]) (simp add: timer_round.simps)
next
  case (Suc fuel)
  show ?case
  proof (cases "timer_due ctx now = {}")
    case True
    then show ?thesis
      using Suc.prems is_timeout[OF Suc.prems(1,2)]
      by (intro exI[of _ ctx] exI[of _ "[]"]) (simp add: timer_round.simps)
  next
    case False
    then have n: "tm_len ctx \<noteq> 0" by (cases "tm_len ctx") (auto simp: timer_due_def timer_tasks_def)
    obtain t c1 where c1: "timer_task_pop ctx = (Some t, c1)" "timer_ok c1" "t \<in> timer_tasks ctx"
        "\<forall>u \<in> timer_tasks ctx. ttl ctx t \<le> ttl ctx u" "timer_tasks c1 = timer_tasks ctx - {t}"
        "tm_task c1 = tm_task ctx"
      using pop_timer[OF Suc.prems(1) n] by blast
    let ?c2 = "c1\<lparr>tm_task := (tm_task c1)(t := fired now (tm_task c1 t))\<rparr>"
    have c2: "timer_ok ?c2" "timer_tasks ?c2 = timer_tasks ctx - {t}"
      using heap_other_task[OF c1(2), of t "fired now (tm_task c1 t)"] c1(5) by auto
    obtain c3 i where c3: "timer_task_start ?c2 t [] = (0, c3, [])" "timer_ok c3"
        "timer_tasks c3 = insert t (timer_tasks ?c2)"
        "tm_task c3 = (tm_task ?c2)(t := (tm_task ?c2 t)\<lparr>tk_idx := i\<rparr>)"
      using start_timer[OF c2(1), of t] c2(2) by auto
    have tasks: "timer_tasks c3 = timer_tasks ctx" using c3(3) c2(2) c1(3) by auto
    have t3: "tm_task c3 = (tm_task ctx)(t := (fired now (tm_task ctx t))\<lparr>tk_idx := i\<rparr>)"
      using c3(4) c1(6) by simp
    have iv: "0 < tk_interval (tm_task ctx t)" "tk_interval (tm_task ctx t) < 2 ^ 31"
      using Suc.prems(2) c1(3) by (auto simp: timer_near_def)
    have due: "t \<in> timer_due ctx now"
      using False c1(3,4) unfolding timer_due_def by (blast intro: order_trans)
    have due3: "timer_due c3 now = timer_due ctx now - {t}"
      using iv by (auto simp: timer_due_def tasks t3 fired_def)
    have near3: "timer_near c3 now" using Suc.prems(2) iv by (auto simp: timer_near_def tasks t3 fired_def)
    have "finite (timer_due ctx now)" using timer_okD(7)[OF Suc.prems(1)] by (simp add: timer_due_def)
    then have "card (timer_due c3 now) \<le> fuel" using Suc.prems(3) due due3 by simp
    from Suc.IH[OF c3(2) near3 this, of "calls @ tk_list (tm_task ctx t)"] obtain c4 ts where c4:
      "timer_round fuel c3 now (calls @ tk_list (tm_task ctx t)) =
         Some (c4, (calls @ tk_list (tm_task ctx t)) @ concat (map (\<lambda>t. tk_list (tm_task c3 t)) ts))"
      "timer_ok c4" "timer_tasks c4 = timer_tasks c3" "timer_due c4 now = {}"
      "distinct ts" "set ts = timer_due c3 now" "sorted (map (ttl c3) ts)"
      "\<forall>t. same_task (if t \<in> set ts then fired now (tm_task c3 t) else tm_task c3 t) (tm_task c4 t)" by blast
    have nt: "t \<notin> set ts" using c4(6) due3 by simp
    then have times: "map (ttl c3) ts = map (ttl ctx) ts" by (auto simp: t3)
    have lst: "tk_list (tm_task c3 u) = tk_list (tm_task ctx u)" for u by (simp add: t3 fired_def)
    have c4': "timer_round fuel c3 now (calls @ tk_list (tm_task ctx t)) =
        Some (c4, calls @ concat (map (\<lambda>t. tk_list (tm_task ctx t)) (t # ts)))"
      using c4(1) by (simp add: lst)
    have run: "timer_round (Suc fuel) ctx now calls =
        Some (c4, calls @ concat (map (\<lambda>t. tk_list (tm_task ctx t)) (t # ts)))"
      using is_timeout[OF Suc.prems(1,2)] False c1(1) c3(1)[unfolded fired_def] c4'
      by (simp add: timer_round.simps[of "Suc fuel"] Let_def lst)
    have "sorted (map (ttl ctx) (t # ts))"
      using c4(7) times c1(4) c4(6) due3 by (auto simp: timer_due_def)
    moreover have "same_task (if u \<in> set (t # ts) then fired now (tm_task ctx u) else tm_task ctx u) (tm_task c4 u)" for u
      using c4(8)[rule_format, of u] nt by (auto simp: t3 same_task_def fired_def split: if_splits)
    ultimately show ?thesis
      using run c4(2-5) tasks nt c4(6) due due3 by (intro exI[of _ c4] exI[of _ "t # ts"]) auto
  qed
qed

subsection \<open>Stopping\<close>

text \<open>The array after \<open>timer_task_stop\<close> is that of \<open>timer_down\<close>; only indices of tasks change.\<close>

lemma min_ttl: "ttl c1 = ttl c2 \<Longrightarrow> timer_min c1 = timer_min c2"
  by (simp add: timer_min_def timer_item_cmp_cb_def fun_eq_iff Let_def)

lemma down_idx_e:
  "tm_e (timer_down_idx ctx len task item idx) = timer_down c0 (tm_e ctx) len item idx \<and>
   tm_len (timer_down_idx ctx len task item idx) = tm_len ctx \<and>
   tm_cap (timer_down_idx ctx len task item idx) = tm_cap ctx \<and>
   (\<forall>t. same_task (tm_task ctx t) (tm_task (timer_down_idx ctx len task item idx) t))"
  if "ttl c0 = ttl ctx"
  using that
proof (induction ctx len task item idx rule: timer_down_idx.induct)
  case (1 ctx len task item idx)
  let ?m = "timer_min ctx (tm_e ctx) len idx"
  have m: "timer_min c0 (tm_e ctx) len idx = ?m" using min_ttl[OF "1.prems"] by simp
  have k: "tk_ttl (tm_task c0 x) = tk_ttl (tm_task ctx x)" for x using "1.prems" by (rule fun_cong)
  have c: "cmp c0 a b = cmp ctx a b" for a b by (simp add: timer_item_cmp_cb_def k)
  note step = timer_down_idx.simps[of ctx len task item idx] timer_down.simps[of c0 "tm_e ctx" len item idx]
  consider "len \<le> timer_left idx" | "\<not> len \<le> timer_left idx" "0 \<le> cmp ctx (tm_e ctx ! ?m) item"
    | "\<not> (len \<le> timer_left idx \<or> 0 \<le> cmp ctx (tm_e ctx ! ?m) item)" by blast
  then show ?case
  proof cases
    assume "len \<le> timer_left idx"
    then show ?thesis by (simp add: step same_task_def)
  next
    assume "\<not> len \<le> timer_left idx" "0 \<le> cmp ctx (tm_e ctx ! ?m) item"
    then show ?thesis unfolding step m c by (simp add: Let_def same_task_def)
  next
    assume False: "\<not> (len \<le> timer_left idx \<or> 0 \<le> cmp ctx (tm_e ctx ! ?m) item)"
    let ?c = "set_task (ctx\<lparr>tm_e := (tm_e ctx)[idx := tm_e ctx ! ?m]\<rparr>) (tm_e ctx ! ?m) (\<lambda>k. k\<lparr>tk_idx := idx\<rparr>)"
    have "ttl c0 = ttl ?c" using k by auto
    with "1.IH"[OF _ refl] False have IH: "tm_e (timer_down_idx ?c len task item ?m) = timer_down c0 (tm_e ?c) len item ?m"
        "tm_len (timer_down_idx ?c len task item ?m) = tm_len ?c"
        "tm_cap (timer_down_idx ?c len task item ?m) = tm_cap ?c"
        "\<forall>t. same_task (tm_task ?c t) (tm_task (timer_down_idx ?c len task item ?m) t)" by auto
    have "\<forall>t. same_task (tm_task ctx t) (tm_task (timer_down_idx ?c len task item ?m) t)"
      using IH(4) by (auto simp: same_task_def)
    then show ?thesis
      unfolding step m c using False IH(1-3) by (simp add: Let_def)
  qed
qed

text \<open>A task whose recorded index is right leaves the set; every other call is refused without effect.\<close>

lemma stop_timer:
  fixes t
  assumes ok: "timer_ok ctx"
  defines "i \<equiv> tk_idx (tm_task ctx t)"
  shows "if i < tm_len ctx \<and> tm_e ctx ! i = t
    then \<exists>ctx'. timer_task_stop ctx t = (0, ctx') \<and> timer_tasks ctx' = timer_tasks ctx - {t} \<and>
      tm_len ctx' = tm_len ctx - 1 \<and> (\<forall>u. same_task (tm_task ctx u) (tm_task ctx' u))
    else timer_task_stop ctx t = (- 1, ctx)"
proof (cases "i < tm_len ctx \<and> tm_e ctx ! i = t")
  case False
  then show ?thesis by (auto simp: timer_task_stop_def Let_def i_def)
next
  case True
  note I = timer_okD[OF ok]
  let ?n = "tm_len ctx - 1" and ?e = "tm_e ctx"
  let ?r = "timer_down_idx (ctx\<lparr>tm_len := ?n\<rparr>) ?n t (?e ! ?n) i"
  have n: "?n < length ?e" "tm_len ctx = Suc ?n" using True I(2,3) by auto
  have run: "timer_task_stop ctx t = (0, ?r)" using True by (auto simp: timer_task_stop_def Let_def i_def)
  have R: "tm_e ?r = timer_down ctx ?e ?n (?e ! ?n) i" "tm_len ?r = ?n" "\<forall>u. same_task (tm_task ctx u) (tm_task ?r u)"
    using down_idx_e[of ctx "ctx\<lparr>tm_len := ?n\<rparr>" ?n t "?e ! ?n" i] by auto
  have tk: "take (tm_len ctx) ?e = take ?n ?e @ [?e ! ?n]" using n by (metis take_Suc_conv_app_nth)
  have "set (take ?n (tm_e ?r)) = timer_tasks ctx - {t}"
  proof (cases "i < ?n")
    case True
    then have "mset (take ?n (tm_e ?r)) = mset ((take ?n ?e)[i := ?e ! ?n])"
      unfolding R(1) using down_mset[of i ?n ?e ctx "?e ! ?n", THEN conjunct1] n by (simp add: take_update_swap)
    also have "\<dots> = mset (take (tm_len ctx) ?e) - {#t#}"
    proof -
      have "t \<in># mset (take ?n ?e)" using True n \<open>i < tm_len ctx \<and> ?e ! i = t\<close> by (auto simp: in_set_conv_nth)
      then obtain M where "mset (take ?n ?e) = add_mset t M" by (meson multi_member_split)
      then show ?thesis using True n \<open>i < tm_len ctx \<and> ?e ! i = t\<close> by (simp add: tk mset_update)
    qed
    finally have "mset (take ?n (tm_e ?r)) = mset (remove1 t (take (tm_len ctx) ?e))" by simp
    then have "set (take ?n (tm_e ?r)) = set (remove1 t (take (tm_len ctx) ?e))" by (rule mset_eq_setD)
    then show ?thesis by (simp add: timer_tasks_def set_remove1_eq[OF I(4)])
  next
    case False
    then have "i = ?n" using \<open>i < tm_len ctx \<and> ?e ! i = t\<close> n(2) by linarith
    then have "tm_e ?r = ?e[?n := ?e ! ?n]" unfolding R(1) using timer_left_gt[of ?n] by (simp add: timer_down.simps)
    then have "take ?n (tm_e ?r) = take ?n ?e" by simp
    moreover have "t = ?e ! ?n" using \<open>i = ?n\<close> True by simp
    moreover have "?e ! ?n \<notin> set (take ?n ?e)" using I(4) by (simp add: tk)
    ultimately show ?thesis by (auto simp: timer_tasks_def tk)
  qed
  then show ?thesis using True run R(2,3) by (auto simp: timer_tasks_def)
qed

end
