(* ===== verification/Timer_Spec.thy ===== *)
theory Timer_Spec
  imports Timer_Heap
begin

text \<open>
  What the timer promises: a priority queue of tasks by the time they are due, and the rounds of the timer
  thread; and what \<open>timer_task_stop\<close> does not keep.
\<close>

subsection \<open>Contexts to run the code on\<close>

definition demo_task :: "int \<Rightarrow> nat \<Rightarrow> timer_task" where
  "demo_task t i = \<lparr>tk_idx = i, tk_interval = 10, tk_list = [], tk_times = 0, tk_ttl = t\<rparr>"

text \<open>Tasks \<open>0, 1, \<dots>\<close> with the given times, at the places with their numbers.\<close>

definition demo_timer :: "int list \<Rightarrow> timer_cntx" where
  "demo_timer ts = \<lparr>tm_len = length ts, tm_cap = length ts, tm_e = [0..<length ts],
     tm_task = (\<lambda>t. demo_task (if t < length ts then ts ! t else 0) t)\<rparr>"

lemma demo_heap:
  assumes "ts \<noteq> []" and "\<forall>i \<in> {1..<length ts}. ts ! (i div 2) \<le> ts ! i" shows "timer_ok (demo_timer ts)"
  using assms by (auto simp: timer_ok_def demo_timer_def demo_task_def heap_at_def)

text \<open>C21: \<open>timer_task_start\<close> puts a task into the queue, keeping the heap and growing the array when it is
  full; \<open>timer_task_pop\<close> takes out a task that no other is due before, and nothing else.\<close>

theorem timer_queue_correct:
  assumes "timer_ok ctx" and "t \<notin> timer_tasks ctx"
  shows "(\<exists>ctx'. timer_task_start ctx t [] = (0, ctx', []) \<and> timer_ok ctx' \<and>
      timer_tasks ctx' = insert t (timer_tasks ctx) \<and> ttl ctx' = ttl ctx) \<and>
    (if timer_tasks ctx = {} then timer_task_pop ctx = (None, ctx)
     else \<exists>u ctx'. timer_task_pop ctx = (Some u, ctx') \<and> timer_ok ctx' \<and> u \<in> timer_tasks ctx \<and>
       (\<forall>v \<in> timer_tasks ctx. ttl ctx u \<le> ttl ctx v) \<and> timer_tasks ctx' = timer_tasks ctx - {u} \<and>
       ttl ctx' = ttl ctx)"
proof
  show "\<exists>ctx'. timer_task_start ctx t [] = (0, ctx', []) \<and> timer_ok ctx' \<and>
      timer_tasks ctx' = insert t (timer_tasks ctx) \<and> ttl ctx' = ttl ctx"
    using start_timer[OF assms] by fastforce
  show "if timer_tasks ctx = {} then timer_task_pop ctx = (None, ctx)
     else \<exists>u ctx'. timer_task_pop ctx = (Some u, ctx') \<and> timer_ok ctx' \<and> u \<in> timer_tasks ctx \<and>
       (\<forall>v \<in> timer_tasks ctx. ttl ctx u \<le> ttl ctx v) \<and> timer_tasks ctx' = timer_tasks ctx - {u} \<and>
       ttl ctx' = ttl ctx"
  proof (cases "tm_len ctx = 0")
    case True
    then show ?thesis by (simp add: timer_tasks_def timer_task_pop_def)
  next
    case False
    then have "timer_tasks ctx \<noteq> {}" using timer_okD(6)[OF assms(1)] by auto
    moreover obtain u ctx' where "timer_task_pop ctx = (Some u, ctx')" "timer_ok ctx'" "u \<in> timer_tasks ctx"
        "\<forall>v \<in> timer_tasks ctx. ttl ctx u \<le> ttl ctx v" "timer_tasks ctx' = timer_tasks ctx - {u}"
        "tm_task ctx' = tm_task ctx"
      using pop_timer[OF assms(1) False] by blast
    ultimately show ?thesis by auto
  qed
qed

theorem timer_queue_correct_witness:
  "\<exists>ctx u ctx'. timer_task_start (demo_timer [5, 7, 8]) 3 [] = (0, ctx, []) \<and> timer_tasks ctx = {0, 1, 2, 3} \<and>
     timer_task_pop (demo_timer [5, 7, 8]) = (Some u, ctx') \<and> timer_tasks ctx' = {0, 1, 2} - {u}"
proof -
  have ok: "timer_ok (demo_timer [5, 7, 8])" by (rule demo_heap, simp, code_simp)
  have ts: "timer_tasks (demo_timer [5, 7, 8]) = {0, 1, 2}" by (auto simp: timer_tasks_def demo_timer_def)
  from timer_queue_correct[OF ok, of 3] ts show ?thesis by (auto simp: insert_commute)
qed



text \<open>\<open>timer_task_stop\<close> removes exactly the task when the index recorded in it is right, and otherwise
  refuses without effect.\<close>

theorem timer_stop_correct:
  assumes "timer_ok ctx"
  shows "if tk_idx (tm_task ctx t) < tm_len ctx \<and> tm_e ctx ! tk_idx (tm_task ctx t) = t
    then \<exists>ctx'. timer_task_stop ctx t = (0, ctx') \<and> timer_tasks ctx' = timer_tasks ctx - {t} \<and>
      tm_len ctx' = tm_len ctx - 1 \<and> (\<forall>u. same_task (tm_task ctx u) (tm_task ctx' u))
    else timer_task_stop ctx t = (- 1, ctx)"
  by (rule stop_timer[OF assms])

theorem timer_stop_correct_witness:
  "\<exists>ctx'. timer_task_stop (demo_timer [5, 7, 8]) 1 = (0, ctx') \<and> timer_tasks ctx' = {0, 2}"
proof -
  have ok: "timer_ok (demo_timer [5, 7, 8])" by (rule demo_heap, simp, code_simp)
  have ts: "timer_tasks (demo_timer [5, 7, 8]) = {0, 1, 2}" by (auto simp: timer_tasks_def demo_timer_def)
  have "{0, 1, 2} - {Suc 0} = {0, 2 :: nat}" by auto
  then show ?thesis using timer_stop_correct[OF ok, of 1] ts by (auto simp: demo_timer_def demo_task_def)
qed


end
