(* ===== verification/Mref.thy ===== *)
theory Mref
  imports Hash_Quiet
begin

text \<open>
  The reference counts of shared memory blocks (\<open>src/clang/lib/core/mref.c\<close>): a hash table from the
  address of a block to its counter and to the function that releases it.  The address an allocator
  returns is an argument of \<open>mref_alloc\<close> (\<open>0\<close> for \<open>NULL\<close>); the calls of release functions are logged in
  \<open>mf_freed\<close>.  A failed \<open>assert\<close> is \<^const>\<open>None\<close>.
\<close>

subsection \<open>The code\<close>

definition MREF_SLOT_LEN :: int where "MREF_SLOT_LEN = 999"

text \<open>\<open>mref_item_t\<close>; a release function is known by a number.\<close>

record mref_item =
  mr_addr :: u64
  mr_count :: u32
  mr_pool :: u64
  mr_dealloc :: nat

record mref_cntx =
  mf_tab :: "mref_item hash_tab"
  mf_freed :: "(nat \<times> u64 \<times> u64) list"
  mf_allocs :: allocs

definition mref_key :: "u64 \<Rightarrow> mref_item" where
  "mref_key addr = \<lparr>mr_addr = addr, mr_count = 0, mr_pool = 0, mr_dealloc = 0\<rparr>"

definition mref_hash_cb :: "mref_item \<Rightarrow> int" where
  "mref_hash_cb item = sint (mr_addr item)"

definition mref_cmp_cb :: "mref_item \<Rightarrow> mref_item \<Rightarrow> int" where
  "mref_cmp_cb item1 item2 = sint (mr_addr item1 - mr_addr item2)"

text \<open>On failure the global table is \<open>NULL\<close>: there is no context to work with.\<close>

definition mref_init :: "allocs \<Rightarrow> (int \<times> mref_cntx option) option" where
  "mref_init al = do {
     (tab, al) \<leftarrow> hash_tab_creat MREF_SLOT_LEN mref_hash_cb mref_cmp_cb al;
     case tab of
       None \<Rightarrow> Some (- 1, None)
     | Some tab \<Rightarrow> Some (0, Some \<lparr>mf_tab = tab, mf_freed = [], mf_allocs = al\<rparr>) }"

text \<open>The counter of a block that was looked up under a read lock goes up or down; the new value is returned.\<close>

definition mref_count_add :: "mref_cntx \<Rightarrow> mref_item hash_tab \<Rightarrow> u64 \<Rightarrow> mref_item \<Rightarrow> u32 \<Rightarrow>
    (int \<times> mref_cntx) option" where
  "mref_count_add mf tab addr item d = do {
     let key = mref_key addr;
     let cnt = mr_count item + d;
     tab \<leftarrow> hash_tab_store tab key (item\<lparr>mr_count := cnt\<rparr>);
     tab \<leftarrow> hash_tab_unlock tab key RDLOCK;
     Some (sint cnt, mf\<lparr>mf_tab := tab\<rparr>) }"

partial_function (option) mref_add :: "mref_cntx \<Rightarrow> u64 \<Rightarrow> u64 \<Rightarrow> nat \<Rightarrow> (int \<times> mref_cntx) option" where
  "mref_add mf addr pool dealloc = do {
     (item, tab) \<leftarrow> hash_tab_query (mf_tab mf) (mref_key addr) RDLOCK;
     case item of
       Some item \<Rightarrow> mref_count_add mf tab addr item 1
     | None \<Rightarrow> do {
         let (a, al) = alloc_take (mf_allocs mf);
         if \<not> a then None
         else do {
           (ret, tab, al) \<leftarrow> hash_tab_insert_al tab al
             \<lparr>mr_addr = addr, mr_count = 1, mr_pool = pool, mr_dealloc = dealloc\<rparr> WRLOCK;
           let mf = mf\<lparr>mf_tab := tab, mf_allocs := al\<rparr>;
           if ret \<noteq> RBT_OK then mref_add mf addr pool dealloc
           else Some (1, mf) } } }"

text \<open>\<open>got\<close> is the block that the allocator of the pool returned.\<close>

definition mref_alloc :: "mref_cntx \<Rightarrow> nat \<Rightarrow> u64 \<Rightarrow> u64 \<Rightarrow> nat \<Rightarrow> (u64 \<times> mref_cntx) option" where
  "mref_alloc mf sz pool got dealloc =
     (if sz = 0 then Some (0, mf)
      else if got = 0 then Some (0, mf)
      else do {
        (_, mf) \<leftarrow> mref_add mf got pool dealloc;
        Some (got, mf) })"

definition mref_inc :: "mref_cntx \<Rightarrow> u64 \<Rightarrow> (int \<times> mref_cntx) option" where
  "mref_inc mf addr = do {
     (item, tab) \<leftarrow> hash_tab_query (mf_tab mf) (mref_key addr) RDLOCK;
     case item of
       Some item \<Rightarrow> mref_count_add mf tab addr item 1
     | None \<Rightarrow> None }"

definition mref_dec :: "mref_cntx \<Rightarrow> u64 \<Rightarrow> (int \<times> mref_cntx) option" where
  "mref_dec mf addr = do {
     (item, tab) \<leftarrow> hash_tab_query (mf_tab mf) (mref_key addr) RDLOCK;
     case item of
       None \<Rightarrow> None
     | Some item \<Rightarrow> do {
         (cnt, mf) \<leftarrow> mref_count_add mf tab addr item (- 1);
         if 0 = cnt then do {
           (item, tab) \<leftarrow> hash_tab_query (mf_tab mf) (mref_key addr) WRLOCK;
           case item of
             None \<Rightarrow> Some (0, mf\<lparr>mf_tab := tab\<rparr>)
           | Some item \<Rightarrow>
               if mr_count item = 0 then do {
                 (_, tab) \<leftarrow> hash_tab_delete tab (mref_key addr) NONLOCK;
                 tab \<leftarrow> hash_tab_unlock tab (mref_key addr) WRLOCK;
                 Some (0, mf\<lparr>mf_tab := tab,
                   mf_freed := mf_freed mf @ [(mr_dealloc item, mr_pool item, mr_addr item)]\<rparr>) }
               else do {
                 tab \<leftarrow> hash_tab_unlock tab (mref_key addr) WRLOCK;
                 Some (0, mf\<lparr>mf_tab := tab\<rparr>) } }
         else Some (cnt, mf) } }"

definition mref_dealloc :: "mref_cntx \<Rightarrow> u64 \<Rightarrow> mref_cntx option" where
  "mref_dealloc mf addr = do { (_, mf) \<leftarrow> mref_dec mf addr; Some mf }"

definition mref_check :: "mref_cntx \<Rightarrow> u64 \<Rightarrow> (int \<times> mref_cntx) option" where
  "mref_check mf addr = do {
     (item, tab) \<leftarrow> hash_tab_query (mf_tab mf) (mref_key addr) RDLOCK;
     case item of
       Some item \<Rightarrow> do {
         tab \<leftarrow> hash_tab_unlock tab (mref_key addr) RDLOCK;
         Some (sint (mr_count item), mf\<lparr>mf_tab := tab\<rparr>) }
     | None \<Rightarrow> Some (0, mf\<lparr>mf_tab := tab\<rparr>) }"

subsection \<open>The counters\<close>

lemma mref_key_simps [simp]: "mr_addr (mref_key a) = a"
  by (simp add: mref_key_def)

interpretation mref_tab: hash_callbacks mref_cmp_cb mr_addr "\<lambda>i. mr_addr i < half64" mref_hash_cb
  by unfold_locales
    (auto simp: mref_cmp_cb_def mref_hash_cb_def sint_diff_zero sint_diff_less sint_half)

definition mref_item_of :: "mref_cntx \<Rightarrow> u64 \<Rightarrow> mref_item option" where
  "mref_item_of mf = ht_map mr_addr (mf_tab mf)"

text \<open>How often a block is counted; \<open>0\<close> for a block that is not registered.\<close>

definition mref_count :: "mref_cntx \<Rightarrow> u64 \<Rightarrow> nat" where
  "mref_count mf a = (case mref_item_of mf a of None \<Rightarrow> 0 | Some i \<Rightarrow> unat (mr_count i))"

text \<open>
  A well-formed table without locks, in which no counter is \<open>0\<close> or too large for an \<open>int\<close>; no
  allocation is about to fail.
\<close>

definition MREF_LIM :: nat where "MREF_LIM = 2 ^ 31 - 1"

definition cnt_ok :: "u32 \<Rightarrow> bool" where
  "cnt_ok n \<longleftrightarrow> 0 < unat n \<and> unat n \<le> MREF_LIM"

definition mref_ok :: "mref_cntx \<Rightarrow> bool" where
  "mref_ok mf \<longleftrightarrow> tab_ok mr_addr (\<lambda>i. mr_addr i < half64) mref_hash_cb mref_cmp_cb (mf_tab mf) \<and>
     mf_allocs mf = [] \<and> (\<forall>a i. mref_item_of mf a = Some i \<longrightarrow> cnt_ok (mr_count i))"

lemma mref_okD:
  assumes "mref_ok mf"
  shows "tab_ok mr_addr (\<lambda>i. mr_addr i < half64) mref_hash_cb mref_cmp_cb (mf_tab mf)" "mf_allocs mf = []"
    "mref_item_of mf a = None \<longleftrightarrow> mref_count mf a = 0" "mref_count mf a \<le> MREF_LIM"
  using assms by (auto simp: mref_ok_def mref_count_def cnt_ok_def split: option.splits)

lemma mref_live:
  assumes "mref_ok mf" and "0 < mref_count mf a"
  obtains i where "ht_map mr_addr (mf_tab mf) a = Some i" "mr_addr i = a" "a < half64"
    "unat (mr_count i) = mref_count mf a" "cnt_ok (mr_count i)"
proof -
  obtain i where i: "mref_item_of mf a = Some i" using assms mref_okD(3)[OF assms(1), of a] by auto
  then have m: "ht_map mr_addr (mf_tab mf) a = Some i" by (simp add: mref_item_of_def)
  have k: "mr_addr i = a" using mref_tab.map_key[OF m] .
  have "mr_addr i < half64" using mref_tab.map_valid[OF mref_okD(1)[OF assms(1)] m] .
  then show thesis using that[OF m k] k i assms(1) by (auto simp: mref_ok_def mref_count_def)
qed

lemma mref_items_upd: "mref_item_of mf' = (mref_item_of mf)(a := x) \<Longrightarrow>
   mref_count mf' = (mref_count mf)(a := (case x of None \<Rightarrow> 0 | Some i \<Rightarrow> unat (mr_count i)))"
  by (auto simp: mref_count_def)

lemma mref_ok_upd:
  assumes "mref_ok mf" and "tab_ok mr_addr (\<lambda>i. mr_addr i < half64) mref_hash_cb mref_cmp_cb (mf_tab mf')"
    and "mf_allocs mf' = []" and "mref_item_of mf' = (mref_item_of mf)(a := x)"
    and "\<And>i. x = Some i \<Longrightarrow> cnt_ok (mr_count i)"
  shows "mref_ok mf'"
  using assms by (auto simp: mref_ok_def split: if_splits)

end
