(* ===== verification/Mref_Count.thy ===== *)
theory Mref_Count
  imports Mref
begin

text \<open>
  What a registry of counted blocks promises (\<open>ref_counts\<close>), the consequence for any sequence of
  operations, and the proof that the registry of \<open>mref.c\<close> keeps the promise.
\<close>

subsection \<open>The contract\<close>

datatype 'a ref_op = RefAlloc 'a | RefInc 'a | RefDec 'a

text \<open>The meaning of the operations on counters; the second component lists what is released.\<close>

fun ref_spec :: "nat \<Rightarrow> ('a \<Rightarrow> bool) \<Rightarrow> ('a \<Rightarrow> nat) \<Rightarrow> 'a ref_op list \<Rightarrow> (('a \<Rightarrow> nat) \<times> 'a list) option" where
  "ref_spec lim blk c [] = Some (c, [])"
| "ref_spec lim blk c (RefAlloc a # ops) =
     (if blk a \<and> c a = 0 then ref_spec lim blk (c(a := 1)) ops else None)"
| "ref_spec lim blk c (RefInc a # ops) =
     (if 0 < c a \<and> c a < lim then ref_spec lim blk (c(a := c a + 1)) ops else None)"
| "ref_spec lim blk c (RefDec a # ops) =
     (if 0 < c a then
        map_option (\<lambda>(c', fr). (c', (if c a = 1 then [a] else []) @ fr))
          (ref_spec lim blk (c(a := c a - 1)) ops)
      else None)"

fun ref_run :: "('s \<Rightarrow> 'a \<Rightarrow> 's option) \<Rightarrow> ('s \<Rightarrow> 'a \<Rightarrow> (int \<times> 's) option) \<Rightarrow> ('s \<Rightarrow> 'a \<Rightarrow> (int \<times> 's) option) \<Rightarrow>
    's \<Rightarrow> 'a ref_op list \<Rightarrow> 's option" where
  "ref_run alloc inc dec s [] = Some s"
| "ref_run alloc inc dec s (RefAlloc a # ops) = do { s \<leftarrow> alloc s a; ref_run alloc inc dec s ops }"
| "ref_run alloc inc dec s (RefInc a # ops) = do { (_, s) \<leftarrow> inc s a; ref_run alloc inc dec s ops }"
| "ref_run alloc inc dec s (RefDec a # ops) = do { (_, s) \<leftarrow> dec s a; ref_run alloc inc dec s ops }"

locale ref_counts =
  fixes ok :: "'s \<Rightarrow> bool" and blk :: "'a \<Rightarrow> bool" and lim :: nat
    and count :: "'s \<Rightarrow> 'a \<Rightarrow> nat" and freed :: "'s \<Rightarrow> 'a list"
    and alloc :: "'s \<Rightarrow> 'a \<Rightarrow> 's option" and inc dec :: "'s \<Rightarrow> 'a \<Rightarrow> (int \<times> 's) option"
  assumes alloc_new: "ok s \<Longrightarrow> blk a \<Longrightarrow> count s a = 0 \<Longrightarrow>
      \<exists>s'. alloc s a = Some s' \<and> ok s' \<and> count s' = (count s)(a := 1) \<and> freed s' = freed s"
    and inc_live: "ok s \<Longrightarrow> 0 < count s a \<Longrightarrow> count s a < lim \<Longrightarrow>
      \<exists>s'. inc s a = Some (int (count s a + 1), s') \<and> ok s' \<and> count s' = (count s)(a := count s a + 1) \<and>
        freed s' = freed s"
    and dec_live: "ok s \<Longrightarrow> 0 < count s a \<Longrightarrow>
      \<exists>s'. dec s a = Some (int (count s a - 1), s') \<and> ok s' \<and> count s' = (count s)(a := count s a - 1) \<and>
        freed s' = freed s @ (if count s a = 1 then [a] else [])"
    and dec_dead: "ok s \<Longrightarrow> count s a = 0 \<Longrightarrow> blk a \<Longrightarrow> dec s a = None"
begin

lemma run_refines:
  "ref_spec lim blk (count s) ops = Some (c', fr) \<Longrightarrow> ok s \<Longrightarrow>
   \<exists>s'. ref_run alloc inc dec s ops = Some s' \<and> ok s' \<and> count s' = c' \<and> freed s' = freed s @ fr"
proof (induction ops arbitrary: s fr)
  case (Cons op ops)
  show ?case
  proof (cases op)
    case (RefAlloc a)
    then have a: "blk a" "count s a = 0" and sp: "ref_spec lim blk ((count s)(a := 1)) ops = Some (c', fr)"
      using Cons.prems(1) by (simp_all split: if_splits)
    from alloc_new[OF Cons.prems(2) a] obtain s' where s': "alloc s a = Some s'" "ok s'"
        "count s' = (count s)(a := 1)" "freed s' = freed s" by blast
    from Cons.IH[of s' fr, unfolded s'(3), OF sp s'(2)] show ?thesis using RefAlloc s'(1,4) by simp
  next
    case (RefInc a)
    then have a: "0 < count s a" "count s a < lim"
      and sp: "ref_spec lim blk ((count s)(a := count s a + 1)) ops = Some (c', fr)"
      using Cons.prems(1) by (simp_all split: if_splits)
    from inc_live[OF Cons.prems(2) a] obtain s' where s': "inc s a = Some (int (count s a + 1), s')" "ok s'"
        "count s' = (count s)(a := count s a + 1)" "freed s' = freed s" by blast
    from Cons.IH[of s' fr, unfolded s'(3), OF sp s'(2)] show ?thesis using RefInc s'(1,4) by simp
  next
    case (RefDec a)
    then have a: "0 < count s a" using Cons.prems(1) by (auto split: if_splits)
    then obtain fr' where fr: "ref_spec lim blk ((count s)(a := count s a - 1)) ops = Some (c', fr')"
        "fr = (if count s a = 1 then [a] else []) @ fr'"
      using Cons.prems(1) RefDec by (auto split: if_splits)
    from dec_live[OF Cons.prems(2) a] obtain s' where s': "dec s a = Some (int (count s a - 1), s')" "ok s'"
        "count s' = (count s)(a := count s a - 1)" "freed s' = freed s @ (if count s a = 1 then [a] else [])"
      by blast
    from Cons.IH[of s' fr', unfolded s'(3), OF fr(1) s'(2)] show ?thesis using RefDec s'(1,4) fr(2) by simp
  qed
qed auto

end

text \<open>
  Every reference taken is given back or still counted, and a block is released exactly as often as
  its counter has gone down to zero.
\<close>

definition refs_taken :: "'a ref_op list \<Rightarrow> 'a \<Rightarrow> nat" where
  "refs_taken ops a = count_list ops (RefAlloc a) + count_list ops (RefInc a)"

lemma ref_spec_balance:
  "ref_spec lim blk c ops = Some (c', fr) \<Longrightarrow> c' a + count_list ops (RefDec a) = c a + refs_taken ops a"
  by (induction lim blk c ops arbitrary: c' fr rule: ref_spec.induct) (auto simp: refs_taken_def split: if_splits)

lemma ref_spec_freed:
  "ref_spec lim blk c ops = Some (c', fr) \<Longrightarrow>
   count_list fr a + (if c' a = 0 then 0 else 1) = count_list ops (RefAlloc a) + (if c a = 0 then 0 else 1)"
  by (induction lim blk c ops arbitrary: c' fr rule: ref_spec.induct) (auto split: if_splits)

subsection \<open>The registry keeps the contract\<close>

lemma count_add:
  assumes ok: "mref_ok mf" and a: "ht_map mr_addr (mf_tab mf) a = Some i" "mr_addr i = a" "a < half64"
  shows "mref_count_add mf (ht_locked (mf_tab mf) (mref_key a) RDLOCK) a i d =
      Some (sint (mr_count i + d), mf\<lparr>mf_tab := ht_upd (mf_tab mf) (mref_key a) (i\<lparr>mr_count := mr_count i + d\<rparr>)\<rparr>)"
proof -
  let ?v = "i\<lparr>mr_count := mr_count i + d\<rparr>"
  note T = mref_okD(1)[OF ok]
  have k: "mr_addr (mref_key a) < half64" "ht_map mr_addr (mf_tab mf) (mr_addr (mref_key a)) = Some i"
    "mr_addr ?v < half64" "mr_addr ?v = mr_addr (mref_key a)" using a by simp_all
  note U = mref_tab.upd_locked[OF T k] mref_tab.upd[OF T k]
  show ?thesis using U(1) mref_tab.unlock_ok[OF U(3) k(1) k(1) refl]
    by (simp add: mref_count_add_def Let_def)
qed

lemma count_add_upd:
  assumes ok: "mref_ok mf" and a: "ht_map mr_addr (mf_tab mf) a = Some i" "mr_addr i = a" "a < half64"
    and m: "mf' = mf\<lparr>mf_tab := ht_upd (mf_tab mf) (mref_key a) (i\<lparr>mr_count := n\<rparr>)\<rparr>"
  shows "tab_ok mr_addr (\<lambda>i. mr_addr i < half64) mref_hash_cb mref_cmp_cb (mf_tab mf')"
    "mref_item_of mf' = (mref_item_of mf)(a \<mapsto> i\<lparr>mr_count := n\<rparr>)"
    "cnt_ok n \<Longrightarrow> mref_ok mf'" "mref_count mf' = (mref_count mf)(a := unat n)"
    "mf_freed mf' = mf_freed mf" "mf_allocs mf' = []"
proof -
  let ?v = "i\<lparr>mr_count := n\<rparr>"
  note T = mref_okD(1)[OF ok]
  have k: "mr_addr (mref_key a) < half64" "ht_map mr_addr (mf_tab mf) (mr_addr (mref_key a)) = Some i"
    "mr_addr ?v < half64" "mr_addr ?v = mr_addr (mref_key a)" using a by simp_all
  note U = mref_tab.upd[OF T k]
  show t: "tab_ok mr_addr (\<lambda>i. mr_addr i < half64) mref_hash_cb mref_cmp_cb (mf_tab mf')" using U(2) m by simp
  show i: "mref_item_of mf' = (mref_item_of mf)(a \<mapsto> ?v)" using U(3) m by (simp add: mref_item_of_def)
  show al: "mf_allocs mf' = []" using mref_okD(2)[OF ok] m by simp
  show "mref_ok mf'" if "cnt_ok n" using that by (intro mref_ok_upd[OF ok t al i]) auto
  show "mref_count mf' = (mref_count mf)(a := unat n)" using mref_items_upd[OF i] by simp
  show "mf_freed mf' = mf_freed mf" using m by simp
qed

lemma sint_small: assumes "unat (n :: u32) < 2 ^ 31" shows "sint n = int (unat n)"
proof -
  have "int (unat n) < int (2 ^ 31)" using assms by (simp only: of_nat_less_iff)
  then have "uint n < 2 ^ 31" by (simp only: uint_nat of_nat_power of_nat_numeral)
  moreover have "- (2 ^ 31) \<le> uint n" by (rule order.trans[OF _ uint_ge_0]) simp
  ultimately have "signed_take_bit 31 (uint n) = uint n" by (intro signed_take_bit_int_eq_self)
  then show ?thesis by (simp add: sint_uint)
qed

lemma mref_query:
  assumes ok: "mref_ok mf" and a: "ht_map mr_addr (mf_tab mf) a = Some i" "a < half64"
  shows "hash_tab_query (mf_tab mf) (mref_key a) m = Some (Some i, ht_locked (mf_tab mf) (mref_key a) m)"
  using mref_tab.query_some[OF mref_okD(1)[OF ok], of "mref_key a"] a by simp

lemma mref_query_none:
  assumes ok: "mref_ok mf" and a: "mref_count mf a = 0" "a < half64"
  shows "hash_tab_query (mf_tab mf) (mref_key a) m = Some (None, mf_tab mf)"
    "ht_map mr_addr (mf_tab mf) a = None"
proof -
  show n: "ht_map mr_addr (mf_tab mf) a = None" using mref_okD(3)[OF ok, of a] a by (simp add: mref_item_of_def)
  show "hash_tab_query (mf_tab mf) (mref_key a) m = Some (None, mf_tab mf)"
    using mref_tab.query_none[OF mref_okD(1)[OF ok], of "mref_key a"] a n by simp
qed

lemma mref_inc_live:
  assumes ok: "mref_ok mf" and a: "0 < mref_count mf a" "mref_count mf a < MREF_LIM"
  shows "\<exists>mf'. mref_inc mf a = Some (int (mref_count mf a + 1), mf') \<and> mref_ok mf' \<and>
    mref_count mf' = (mref_count mf)(a := mref_count mf a + 1) \<and> mf_freed mf' = mf_freed mf"
proof -
  obtain i where i: "ht_map mr_addr (mf_tab mf) a = Some i" "mr_addr i = a" "a < half64"
    "unat (mr_count i) = mref_count mf a" "cnt_ok (mr_count i)" using mref_live[OF ok a(1)] .
  have u: "unat (mr_count i + 1) = mref_count mf a + 1"
    using i(4) a(2) by (subst unat_word_ariths) (simp add: MREF_LIM_def)
  then have c: "cnt_ok (mr_count i + 1)" using a(2) by (simp add: cnt_ok_def)
  have s: "sint (mr_count i + 1) = int (mref_count mf a + 1)"
    using sint_small[of "mr_count i + 1"] u a(2) by (simp add: MREF_LIM_def)
  note C = count_add_upd[OF ok i(1,2,3) refl, of "mr_count i + 1"]
  show ?thesis using mref_query[OF ok i(1,3)] count_add[OF ok i(1,2,3), of 1] C(3)[OF c] C(4,5) u s
    by (simp add: mref_inc_def)
qed

lemma mref_inc_dead: "mref_ok mf \<Longrightarrow> mref_count mf a = 0 \<Longrightarrow> a < half64 \<Longrightarrow> mref_inc mf a = None"
  using mref_query_none(1) by (simp add: mref_inc_def)

lemma mref_dec_dead: "mref_ok mf \<Longrightarrow> mref_count mf a = 0 \<Longrightarrow> a < half64 \<Longrightarrow> mref_dec mf a = None"
  using mref_query_none(1) by (simp add: mref_dec_def)

lemma mref_dec_live:
  assumes ok: "mref_ok mf" and a: "0 < mref_count mf a"
  shows "\<exists>mf'. mref_dec mf a = Some (int (mref_count mf a - 1), mf') \<and> mref_ok mf' \<and>
    mref_count mf' = (mref_count mf)(a := mref_count mf a - 1) \<and>
    map (snd \<circ> snd) (mf_freed mf') = map (snd \<circ> snd) (mf_freed mf) @ (if mref_count mf a = 1 then [a] else [])"
proof -
  obtain i where i: "ht_map mr_addr (mf_tab mf) a = Some i" "mr_addr i = a" "a < half64"
    "unat (mr_count i) = mref_count mf a" "cnt_ok (mr_count i)" using mref_live[OF ok a] .
  let ?n = "mr_count i - 1" let ?v = "i\<lparr>mr_count := ?n\<rparr>" let ?k = "mref_key a"
  let ?T = "ht_upd (mf_tab mf) ?k ?v" let ?mf = "mf\<lparr>mf_tab := ?T\<rparr>"
  have n0: "mr_count i \<noteq> 0" using i(4) a by auto
  have u: "unat ?n = mref_count mf a - 1" using i(4) n0 by (simp add: unat_minus_one)
  have lim: "mref_count mf a \<le> MREF_LIM" using i(4,5) by (simp add: cnt_ok_def)
  have s: "sint ?n = int (mref_count mf a - 1)" using sint_small[of ?n] u lim by (simp add: MREF_LIM_def)
  have add: "mref_count_add mf (ht_locked (mf_tab mf) ?k RDLOCK) a i (- 1) = Some (int (mref_count mf a - 1), ?mf)"
    using count_add[OF ok i(1,2,3), of "- 1"] s by simp
  note q = mref_query[OF ok i(1,3), of RDLOCK]
  note C = count_add_upd[OF ok i(1,2,3) refl, of ?n]
  show ?thesis
  proof (cases "mref_count mf a = 1")
    case False
    then have "cnt_ok ?n" using u lim a by (simp add: cnt_ok_def)
    then show ?thesis using q add False a C(3,4,5) u by (simp add: mref_dec_def)
  next
    case True
    have k: "mr_addr ?k < half64" "ht_map mr_addr ?T (mr_addr ?k) = Some ?v"
      using i(3) C(2) by (simp_all add: mref_item_of_def)
    have T: "tab_ok mr_addr (\<lambda>i. mr_addr i < half64) mref_hash_cb mref_cmp_cb ?T" using C(1) by simp
    have "?n = 0" using u True unat_eq_zero[of ?n] by simp
    note D = mref_tab.del[OF T k]
    let ?mf' = "?mf\<lparr>mf_tab := ht_del ?T ?k, mf_freed := mf_freed mf @ [(mr_dealloc i, mr_pool i, a)]\<rparr>"
    have run: "mref_dec mf a = Some (0, ?mf')"
      using q add True i(2) \<open>?n = 0\<close> mref_tab.query_some[OF T k] mref_tab.del_locked[OF T k]
        mref_tab.unlock_ok[OF D(2) k(1) k(1) refl]
      by (simp add: mref_dec_def)
    have it: "mref_item_of ?mf' = (mref_item_of mf)(a := None)"
      using D(3) C(2) by (simp add: mref_item_of_def)
    have "mref_ok ?mf'"
      using C(6) D(2) by (intro mref_ok_upd[OF ok _ _ it]) simp_all
    then show ?thesis using run mref_items_upd[OF it] True by simp
  qed
qed

lemma mref_alloc_new:
  assumes ok: "mref_ok mf" and a: "mref_count mf a = 0" "0 < a" "a < half64" and sz: "0 < sz"
  shows "\<exists>mf'. mref_alloc mf sz pool a dealloc = Some (a, mf') \<and> mref_ok mf' \<and>
    mref_count mf' = (mref_count mf)(a := 1) \<and> mf_freed mf' = mf_freed mf \<and>
    mref_item_of mf' = (mref_item_of mf)
      (a \<mapsto> \<lparr>mr_addr = a, mr_count = 1, mr_pool = pool, mr_dealloc = dealloc\<rparr>)"
proof -
  let ?v = "\<lparr>mr_addr = a, mr_count = 1, mr_pool = pool, mr_dealloc = dealloc\<rparr>"
  let ?mf = "mf\<lparr>mf_tab := ht_put (mf_tab mf) ?v\<rparr>"
  note T = mref_okD(1)[OF ok] and al = mref_okD(2)[OF ok]
  have v: "mr_addr ?v < half64" "ht_map mr_addr (mf_tab mf) (mr_addr ?v) = None"
    using a mref_query_none(2)[OF ok] by simp_all
  note P = mref_tab.put[OF T v] mref_tab.put_al[OF T v, of "[]"]
  have mf: "mf\<lparr>mf_tab := ht_put (mf_tab mf) ?v, mf_allocs := []\<rparr> = ?mf" by (cases mf) (use al in simp)
  have "mref_add mf a pool dealloc = Some (1, ?mf)"
    using mref_query_none(1)[OF ok a(1,3)] al P(7) mf by (simp add: mref_add.simps[of mf])
  then have run: "mref_alloc mf sz pool a dealloc = Some (a, ?mf)" using a sz by (simp add: mref_alloc_def)
  have it: "mref_item_of ?mf = (mref_item_of mf)(a \<mapsto> ?v)" using P(3) by (simp add: mref_item_of_def)
  have "mref_ok ?mf" using P(2) al by (intro mref_ok_upd[OF ok _ _ it]) (auto simp: cnt_ok_def MREF_LIM_def)
  then show ?thesis using run mref_items_upd[OF it] it by (intro exI[of _ ?mf]) simp
qed

text \<open>Blocks of \<open>Suc sz\<close> bytes from a pool.\<close>

definition mref_take :: "nat \<Rightarrow> u64 \<Rightarrow> nat \<Rightarrow> mref_cntx \<Rightarrow> u64 \<Rightarrow> mref_cntx option" where
  "mref_take sz pool dealloc mf a = map_option snd (mref_alloc mf (Suc sz) pool a dealloc)"

interpretation mref_refs: ref_counts mref_ok "\<lambda>a. 0 < a \<and> a < half64" MREF_LIM mref_count
  "\<lambda>mf. map (snd \<circ> snd) (mf_freed mf)" "mref_take sz pool dealloc" mref_inc mref_dec for sz pool dealloc
proof
  show "\<exists>s'. mref_take sz pool dealloc s a = Some s' \<and> mref_ok s' \<and> mref_count s' = (mref_count s)(a := 1) \<and>
      map (snd \<circ> snd) (mf_freed s') = map (snd \<circ> snd) (mf_freed s)"
    if "mref_ok s" "0 < a \<and> a < half64" "mref_count s a = 0" for s a
    using mref_alloc_new[OF that(1,3), of "Suc sz" pool dealloc] that(2) by (auto simp: mref_take_def)
  show "\<exists>s'. mref_inc s a = Some (int (mref_count s a + 1), s') \<and> mref_ok s' \<and>
      mref_count s' = (mref_count s)(a := mref_count s a + 1) \<and>
      map (snd \<circ> snd) (mf_freed s') = map (snd \<circ> snd) (mf_freed s)"
    if "mref_ok s" "0 < mref_count s a" "mref_count s a < MREF_LIM" for s a
    using mref_inc_live[OF that] by metis
  show "\<exists>s'. mref_dec s a = Some (int (mref_count s a - 1), s') \<and> mref_ok s' \<and>
      mref_count s' = (mref_count s)(a := mref_count s a - 1) \<and>
      map (snd \<circ> snd) (mf_freed s') = map (snd \<circ> snd) (mf_freed s) @ (if mref_count s a = 1 then [a] else [])"
    if "mref_ok s" "0 < mref_count s a" for s a by (rule mref_dec_live[OF that])
  show "mref_dec s a = None" if "mref_ok s" "mref_count s a = 0" "0 < a \<and> a < half64" for s a
    using mref_dec_dead[OF that(1,2)] that(3) by blast
qed

lemma mref_check_ok:
  assumes ok: "mref_ok mf" and a: "a < half64"
  shows "mref_check mf a = Some (int (mref_count mf a), mf)"
proof (cases "mref_count mf a = 0")
  case True
  then show ?thesis using mref_query_none[OF ok True a] by (simp add: mref_check_def)
next
  case False
  then obtain i where i: "ht_map mr_addr (mf_tab mf) a = Some i" "mr_addr i = a" "a < half64"
    "unat (mr_count i) = mref_count mf a" "cnt_ok (mr_count i)" using mref_live[OF ok, of a] by auto
  have k: "mr_addr (mref_key a) < half64" using a by simp
  have "sint (mr_count i) = int (mref_count mf a)"
    using sint_small[of "mr_count i"] i(4,5) by (simp add: cnt_ok_def MREF_LIM_def)
  then show ?thesis
    using mref_query[OF ok i(1) a] mref_tab.unlock_ok[OF mref_okD(1)[OF ok] k k refl]
    by (simp add: mref_check_def)
qed

lemma mref_init_ok:
  obtains mf where "mref_init [] = Some (0, Some mf)" "mref_ok mf" "mref_count mf = (\<lambda>_. 0)" "mf_freed mf = []"
proof -
  obtain H where H: "hash_tab_creat MREF_SLOT_LEN mref_hash_cb mref_cmp_cb [] = Some (Some H, [])"
      "tab_ok mr_addr (\<lambda>i. mr_addr i < half64) mref_hash_cb mref_cmp_cb H" "ht_map mr_addr H = Map.empty"
    using mref_tab.creat_tab_success[of MREF_SLOT_LEN] by (auto simp: MREF_SLOT_LEN_def)
  show thesis
    by (rule that[of "\<lparr>mf_tab = H, mf_freed = [], mf_allocs = []\<rparr>"])
      (use H in \<open>auto simp: mref_init_def mref_ok_def mref_count_def mref_item_of_def\<close>)
qed

end
