(* ===== verification/Mref_Spec.thy ===== *)
theory Mref_Spec
  imports Mref_Count
begin

text \<open>
  What the reference counts promise to their clients: a block lives exactly as long as it is counted
  and is released once, by the function it was registered with.
\<close>

text \<open>C24: the registry is a map of counters.  Whatever sequence of allocations, increments and decrements
  a client makes, as long as it allocates a block only while it is not counted and touches only counted
  blocks, the code performs it, leaves exactly the counters of the specification, and releases exactly
  the blocks whose counter goes to zero, in that order.  For every block, references taken equal
  references given back plus the counter, and it is released once for each time it was allocated,
  except that it is not released while it is counted.  Outside that protocol - an increment or
  a decrement of a block that is not counted - the call aborts.\<close>

theorem mref_refines_counts:
  assumes "mref_ok mf" and "ref_spec MREF_LIM (\<lambda>a. 0 < a \<and> a < half64) (mref_count mf) ops = Some (c, fr)"
  shows "(\<exists>mf'. ref_run (mref_take sz pool dealloc) mref_inc mref_dec mf ops = Some mf' \<and> mref_ok mf' \<and>
      mref_count mf' = c \<and> map (snd \<circ> snd) (mf_freed mf') = map (snd \<circ> snd) (mf_freed mf) @ fr \<and>
      (\<forall>a. a < half64 \<longrightarrow> mref_check mf' a = Some (int (c a), mf') \<and>
         (c a = 0 \<longrightarrow> mref_inc mf' a = None \<and> mref_dec mf' a = None))) \<and>
    (\<forall>a. c a + count_list ops (RefDec a) = mref_count mf a + refs_taken ops a \<and>
      count_list fr a + (if c a = 0 then 0 else 1) =
        count_list ops (RefAlloc a) + (if mref_count mf a = 0 then 0 else 1))"
proof -
  obtain mf' where "ref_run (mref_take sz pool dealloc) mref_inc mref_dec mf ops = Some mf'" "mref_ok mf'"
      "mref_count mf' = c" "map (snd \<circ> snd) (mf_freed mf') = map (snd \<circ> snd) (mf_freed mf) @ fr"
    using mref_refs.run_refines[OF assms(2,1)] by blast
  moreover from this have "\<forall>a. a < half64 \<longrightarrow> mref_check mf' a = Some (int (c a), mf') \<and>
      (c a = 0 \<longrightarrow> mref_inc mf' a = None \<and> mref_dec mf' a = None)"
    using mref_check_ok mref_inc_dead mref_dec_dead by blast
  ultimately show ?thesis using ref_spec_balance[OF assms(2)] ref_spec_freed[OF assms(2)] by blast
qed

theorem mref_refines_counts_witness:
  "\<exists>mf mf'. mref_init [] = Some (0, Some mf) \<and>
     ref_run (mref_take 15 0 1) mref_inc mref_dec mf
       [RefAlloc 4096, RefInc 4096, RefAlloc 8192, RefDec 4096, RefDec 8192, RefDec 4096] = Some mf' \<and>
     map (snd \<circ> snd) (mf_freed mf') = [8192, 4096] \<and> mref_count mf' 4096 = 0"
proof -
  obtain mf where mf: "mref_init [] = Some (0, Some mf)" "mref_ok mf" "mref_count mf = (\<lambda>_. 0)" "mf_freed mf = []"
    by (rule mref_init_ok)
  let ?ops = "[RefAlloc 4096, RefInc 4096, RefAlloc 8192, RefDec 4096, RefDec 8192, RefDec (4096 :: u64)]"
  have "ref_spec MREF_LIM (\<lambda>a. 0 < a \<and> a < half64) (mref_count mf) ?ops = Some (\<lambda>_. 0, [8192, 4096])"
    unfolding mf(3) by (simp add: MREF_LIM_def half64_def fun_eq_iff)
  from mref_refines_counts[OF mf(2) this, of 15 0 1] mf(1,4) show ?thesis by auto
qed

end
