(* ===== verification/Iovec.thy ===== *)
theory Iovec
  imports Prelude
begin

text \<open>
  The send buffer of a connection (\<open>src/clang/incl/iovec.h\<close>, \<open>lib/core/iovec.c\<close>): an array of pieces
  handed to \<open>writev\<close> and, beside it, the messages they belong to with the callbacks for success and
  failure.  Addresses and lengths are natural numbers; a callback is known by a number, and its calls
  are logged as \<open>(callback, param, addr, len)\<close>.  An access outside the arrays or a call of \<open>NULL\<close> is
  \<^const>\<open>None\<close>.
\<close>

subsection \<open>The code\<close>

definition IOV_MAX :: int where "IOV_MAX = 1024"

record iovec =
  iov_base :: nat
  iov_len :: nat

record wiov_orig =
  og_addr :: nat
  og_len :: nat
  og_param :: nat
  og_succ :: "nat option"
  og_fail :: "nat option"

record wiov =
  iov_max :: nat
  iov_cnt :: nat
  iov_idx :: nat
  wi_orig :: "wiov_orig list"
  wi_iov :: "iovec list"

type_synonym io_call = "nat \<times> nat \<times> nat \<times> nat"

definition io_zero :: iovec where "io_zero = \<lparr>iov_base = 0, iov_len = 0\<rparr>"

definition og_zero :: wiov_orig where
  "og_zero = \<lparr>og_addr = 0, og_len = 0, og_param = 0, og_succ = None, og_fail = None\<rparr>"

text \<open>The result is the return value and, when it is \<open>0\<close>, the buffer.\<close>

definition wiov_init :: "int \<Rightarrow> allocs \<Rightarrow> int \<times> wiov option \<times> allocs" where
  "wiov_init mx al =
     (let n = nat (if IOV_MAX < mx then IOV_MAX else mx); (a, al) = alloc_take al in
      if \<not> a then (- 1, None, al)
      else let (a, al) = alloc_take al in
        if \<not> a then (- 1, None, al)
        else (0, Some \<lparr>iov_max = n, iov_cnt = 0, iov_idx = 0, wi_orig = replicate n og_zero,
               wi_iov = replicate n io_zero\<rparr>, al))"

definition wiov_isempty :: "wiov \<Rightarrow> bool" where "wiov_isempty w \<longleftrightarrow> 0 = iov_cnt w"
definition wiov_isfull :: "wiov \<Rightarrow> bool" where "wiov_isfull w \<longleftrightarrow> iov_max w = iov_cnt w"
definition wiov_left_space :: "wiov \<Rightarrow> nat" where "wiov_left_space w = iov_max w - iov_cnt w"
definition wiov_item_num :: "wiov \<Rightarrow> nat" where "wiov_item_num w = iov_cnt w - iov_idx w"

text \<open>What \<open>writev\<close> is given: \<open>wiov_item_num\<close> pieces from \<open>wiov_item_begin\<close> on.\<close>

definition wiov_item_begin :: "wiov \<Rightarrow> iovec list" where "wiov_item_begin w = drop (iov_idx w) (wi_iov w)"

definition wiov_item_add :: "wiov \<Rightarrow> nat \<Rightarrow> nat \<Rightarrow> nat \<Rightarrow> nat option \<Rightarrow> nat option \<Rightarrow> wiov option" where
  "wiov_item_add w addr len param succ fail =
     (if iov_cnt w < length (wi_iov w) \<and> iov_cnt w < length (wi_orig w)
      then Some (w\<lparr>wi_iov := (wi_iov w)[iov_cnt w := \<lparr>iov_base = addr, iov_len = len\<rparr>],
             wi_orig := (wi_orig w)[iov_cnt w :=
               \<lparr>og_addr = addr, og_len = len, og_param = param, og_succ = succ, og_fail = fail\<rparr>],
             iov_cnt := iov_cnt w + 1\<rparr>)
      else None)"

definition wiov_item_reset :: "wiov \<Rightarrow> nat \<Rightarrow> wiov" where
  "wiov_item_reset w idx = w\<lparr>wi_iov := (wi_iov w)[idx := io_zero], wi_orig := (wi_orig w)[idx := og_zero]\<rparr>"

definition wiov_call :: "(wiov_orig \<Rightarrow> nat option) \<Rightarrow> wiov_orig \<Rightarrow> io_call option" where
  "wiov_call sel og = map_option (\<lambda>cb. (cb, og_param og, og_addr og, og_len og)) (sel og)"

function wiov_clean_loop :: "wiov \<Rightarrow> nat \<Rightarrow> io_call list \<Rightarrow> (wiov \<times> io_call list) option" where
  "wiov_clean_loop w idx calls =
     (if idx < iov_cnt w then do {
        og \<leftarrow> (if idx < length (wi_orig w) then Some (wi_orig w ! idx) else None);
        call \<leftarrow> wiov_call og_fail og;
        wiov_clean_loop (wiov_item_reset w idx) (idx + 1) (calls @ [call]) }
      else Some (w, calls))"
  by pat_completeness auto
termination by (relation "measure (\<lambda>(w, idx, _). iov_cnt w - idx)") (auto simp: wiov_item_reset_def)

definition wiov_clean :: "wiov \<Rightarrow> (wiov \<times> io_call list) option" where
  "wiov_clean w = do {
     (w, calls) \<leftarrow> wiov_clean_loop w (iov_idx w) [];
     Some (w\<lparr>iov_idx := 0, iov_cnt := 0\<rparr>, calls) }"

text \<open>The arrays are freed; what is left are the callbacks that ran.\<close>

definition wiov_destroy :: "wiov \<Rightarrow> io_call list option" where
  "wiov_destroy w = do { (_, calls) \<leftarrow> wiov_clean w; Some calls }"

text \<open>The loop of \<open>wiov_item_adjust\<close>: the place it stopped at, the buffer and the callbacks.\<close>

function wiov_adjust_loop :: "wiov \<Rightarrow> nat \<Rightarrow> nat \<Rightarrow> nat \<Rightarrow> io_call list \<Rightarrow> (nat \<times> wiov \<times> io_call list) option" where
  "wiov_adjust_loop w idx len n calls =
     (if idx < iov_cnt w then do {
        v \<leftarrow> (if idx < length (wi_iov w) then Some (wi_iov w ! idx) else None);
        og \<leftarrow> (if idx < length (wi_orig w) then Some (wi_orig w ! idx) else None);
        if len + iov_len v \<le> n then do {
          call \<leftarrow> wiov_call og_succ og;
          wiov_adjust_loop ((wiov_item_reset w idx)\<lparr>iov_idx := iov_idx w + 1\<rparr>) (idx + 1) (len + iov_len v) n
            (calls @ [call]) }
        else Some (idx, w\<lparr>wi_iov := (wi_iov w)[idx :=
            \<lparr>iov_base = iov_base v + (n - len), iov_len = len + iov_len v - n\<rparr>]\<rparr>, calls) }
      else Some (idx, w, calls))"
  by pat_completeness auto
termination by (relation "measure (\<lambda>(w, idx, _). iov_cnt w - idx)") (auto simp: wiov_item_reset_def)

declare wiov_clean_loop.simps [simp del] wiov_adjust_loop.simps [simp del]

definition wiov_item_adjust :: "wiov \<Rightarrow> nat \<Rightarrow> (int \<times> wiov \<times> io_call list) option" where
  "wiov_item_adjust w n = do {
     (idx, w, calls) \<leftarrow> wiov_adjust_loop w (iov_idx w) 0 n [];
     Some (0, if idx = iov_cnt w then w\<lparr>iov_idx := 0, iov_cnt := 0\<rparr> else w, calls) }"

subsection \<open>Messages and bytes\<close>

text \<open>The messages in the buffer, the places of the bytes still to be sent, and the order invariant:
  only the first message can have been sent in part.\<close>

definition wiov_items :: "wiov \<Rightarrow> wiov_orig list" where
  "wiov_items w = drop (iov_idx w) (take (iov_cnt w) (wi_orig w))"

definition iov_bytes :: "iovec \<Rightarrow> nat list" where "iov_bytes v = [iov_base v ..< iov_base v + iov_len v]"
definition og_bytes :: "wiov_orig \<Rightarrow> nat list" where "og_bytes og = [og_addr og ..< og_addr og + og_len og]"

definition wiov_pending :: "wiov \<Rightarrow> nat list" where
  "wiov_pending w = concat (map iov_bytes (take (wiov_item_num w) (wiov_item_begin w)))"

definition wiov_ok :: "wiov \<Rightarrow> bool" where
  "wiov_ok w \<longleftrightarrow> iov_idx w \<le> iov_cnt w \<and> iov_cnt w \<le> iov_max w \<and>
     length (wi_iov w) = iov_max w \<and> length (wi_orig w) = iov_max w \<and>
     (\<forall>i. iov_idx w \<le> i \<and> i < iov_cnt w \<longrightarrow> og_succ (wi_orig w ! i) \<noteq> None \<and> og_fail (wi_orig w ! i) \<noteq> None \<and>
        (if i = iov_idx w then \<exists>k. iov_bytes (wi_iov w ! i) = drop k (og_bytes (wi_orig w ! i))
         else iov_bytes (wi_iov w ! i) = og_bytes (wi_orig w ! i)))"

definition io_call_of :: "(wiov_orig \<Rightarrow> nat option) \<Rightarrow> wiov_orig \<Rightarrow> io_call" where
  "io_call_of sel og = (the (sel og), og_param og, og_addr og, og_len og)"

lemma wiov_call_Some: "sel og \<noteq> None \<Longrightarrow> wiov_call sel og = Some (io_call_of sel og)"
  by (auto simp: wiov_call_def io_call_of_def)

text \<open>The buffer without its first message.\<close>

abbreviation wiov_drop1 :: "wiov \<Rightarrow> wiov" where
  "wiov_drop1 w \<equiv> (wiov_item_reset w (iov_idx w))\<lparr>iov_idx := iov_idx w + 1\<rparr>"

lemma wiov_okD:
  assumes "wiov_ok w" and "iov_idx w < iov_cnt w"
  shows "iov_idx w < length (wi_iov w)" "iov_idx w < length (wi_orig w)"
    "og_succ (wi_orig w ! iov_idx w) \<noteq> None" "og_fail (wi_orig w ! iov_idx w) \<noteq> None"
    "\<exists>k. iov_bytes (wi_iov w ! iov_idx w) = drop k (og_bytes (wi_orig w ! iov_idx w))"
  using assms unfolding wiov_ok_def by simp_all

lemma wiov_ok_drop1: "wiov_ok w \<Longrightarrow> iov_idx w < iov_cnt w \<Longrightarrow> wiov_ok (wiov_drop1 w)"
  unfolding wiov_ok_def wiov_item_reset_def
  by (auto intro: exI[of _ 0])

lemma wiov_items_drop1:
  assumes "wiov_ok w" and "iov_idx w < iov_cnt w"
  shows "wiov_items w = wi_orig w ! iov_idx w # wiov_items (wiov_drop1 w)"
proof -
  let ?t = "take (iov_cnt w) (wi_orig w)"
  have l: "iov_idx w < length ?t" using assms by (simp add: wiov_ok_def)
  have "wiov_items w = ?t ! iov_idx w # drop (Suc (iov_idx w)) ?t"
    unfolding wiov_items_def by (rule Cons_nth_drop_Suc[OF l, symmetric])
  then show ?thesis using assms(2) by (simp add: wiov_items_def wiov_item_reset_def take_update_swap)
qed

lemma wiov_pending_drop1:
  assumes "wiov_ok w" and "iov_idx w < iov_cnt w"
  shows "wiov_pending w = iov_bytes (wi_iov w ! iov_idx w) @ wiov_pending (wiov_drop1 w)"
proof -
  have l: "iov_idx w < length (wi_iov w)" using assms by (simp add: wiov_ok_def)
  obtain k where k: "iov_cnt w - iov_idx w = Suc k" using assms(2) by (metis Suc_diff_Suc)
  have "k = iov_cnt w - Suc (iov_idx w)" using k by simp
  then show ?thesis
    using Cons_nth_drop_Suc[OF l, symmetric] k
    by (simp add: wiov_pending_def wiov_item_num_def wiov_item_begin_def wiov_item_reset_def)
qed

lemma wiov_none_left: "wiov_ok w \<Longrightarrow> \<not> iov_idx w < iov_cnt w \<Longrightarrow> wiov_items w = [] \<and> wiov_pending w = []"
  by (simp add: wiov_ok_def wiov_items_def wiov_pending_def wiov_item_num_def)

lemma length_iov_bytes [simp]: "length (iov_bytes v) = iov_len v"
  by (simp add: iov_bytes_def)

text \<open>The first message sent in part.\<close>

abbreviation wiov_cut :: "wiov \<Rightarrow> nat \<Rightarrow> wiov" where
  "wiov_cut w m \<equiv> w\<lparr>wi_iov := (wi_iov w)[iov_idx w :=
     \<lparr>iov_base = iov_base (wi_iov w ! iov_idx w) + m, iov_len = iov_len (wi_iov w ! iov_idx w) - m\<rparr>]\<rparr>"

lemma iov_bytes_cut: "m \<le> iov_len v \<Longrightarrow>
   iov_bytes \<lparr>iov_base = iov_base v + m, iov_len = iov_len v - m\<rparr> = drop m (iov_bytes v)"
  by (simp add: iov_bytes_def drop_upt)

lemma wiov_cut_ok:
  assumes ok: "wiov_ok w" and i: "iov_idx w < iov_cnt w" and m: "m < iov_len (wi_iov w ! iov_idx w)"
  shows "wiov_ok (wiov_cut w m)" "wiov_items (wiov_cut w m) = wiov_items w"
    "wiov_pending (wiov_cut w m) = drop m (wiov_pending w)"
proof -
  let ?w = "wiov_cut w m"
  note D = wiov_okD[OF ok i]
  have b: "iov_bytes (wi_iov ?w ! iov_idx w) = drop m (iov_bytes (wi_iov w ! iov_idx w))"
    using D(1) m iov_bytes_cut[of m "wi_iov w ! iov_idx w"] by simp
  obtain k where "iov_bytes (wi_iov w ! iov_idx w) = drop k (og_bytes (wi_orig w ! iov_idx w))" using D(5) by blast
  then have "iov_bytes (wi_iov ?w ! iov_idx w) = drop (m + k) (og_bytes (wi_orig w ! iov_idx w))"
    using b by simp
  then show ok': "wiov_ok ?w" using ok unfolding wiov_ok_def by auto
  show "wiov_items ?w = wiov_items w" by (simp add: wiov_items_def)
  have "wiov_pending (wiov_drop1 ?w) = wiov_pending (wiov_drop1 w)"
    by (simp add: wiov_pending_def wiov_item_num_def wiov_item_begin_def wiov_item_reset_def)
  then show "wiov_pending ?w = drop m (wiov_pending w)"
    using wiov_pending_drop1[OF ok i] wiov_pending_drop1[OF ok'] i b m by simp
qed

subsection \<open>The operations\<close>

text \<open>From \<open>w\<close>, \<open>k\<close> messages and \<open>m\<close> bytes of the pending ones are done.\<close>

definition io_after :: "wiov \<Rightarrow> nat \<Rightarrow> nat \<Rightarrow> wiov \<Rightarrow> bool" where
  "io_after w m k w' \<longleftrightarrow> wiov_ok w' \<and> iov_idx w' = iov_idx w + k \<and> iov_cnt w' = iov_cnt w \<and> iov_max w' = iov_max w \<and>
     wiov_items w' = drop k (wiov_items w) \<and> wiov_pending w' = drop m (wiov_pending w)"

lemma adjust_loop_ok:
  "wiov_ok w \<Longrightarrow> len \<le> n \<Longrightarrow> n - len \<le> length (wiov_pending w) \<Longrightarrow>
   \<exists>k w'. wiov_adjust_loop w (iov_idx w) len n calls =
       Some (iov_idx w', w', calls @ map (io_call_of og_succ) (take k (wiov_items w))) \<and>
     io_after w (n - len) k w' \<and> (iov_idx w' < iov_cnt w' \<longrightarrow> 0 < iov_len (wi_iov w' ! iov_idx w'))"
proof (induction "iov_cnt w - iov_idx w" arbitrary: w len calls)
  case 0
  then have "\<not> iov_idx w < iov_cnt w" by simp
  with 0 wiov_none_left[of w] show ?case
    by (intro exI[of _ 0] exI[of _ w]) (simp add: wiov_adjust_loop.simps[of w] io_after_def)
next
  case (Suc d)
  then have i: "iov_idx w < iov_cnt w" by simp
  note ok = \<open>wiov_ok w\<close> and D = wiov_okD[OF \<open>wiov_ok w\<close> i]
  let ?v = "wi_iov w ! iov_idx w" and ?og = "wi_orig w ! iov_idx w"
  note P = wiov_pending_drop1[OF ok i] and I = wiov_items_drop1[OF ok i]
  show ?case
  proof (cases "len + iov_len ?v \<le> n")
    case True
    let ?w = "wiov_drop1 w" and ?l = "len + iov_len ?v"
    have c: "iov_cnt ?w = iov_cnt w" "iov_max ?w = iov_max w" "iov_idx ?w = iov_idx w + 1"
      by (simp_all add: wiov_item_reset_def)
    have "n - ?l \<le> length (wiov_pending ?w)" using Suc.prems(3) P by simp
    moreover have "d = iov_cnt ?w - iov_idx ?w" using Suc.hyps(2) c by simp
    ultimately obtain k w' where k: "wiov_adjust_loop ?w (iov_idx ?w) ?l n (calls @ [io_call_of og_succ ?og]) =
          Some (iov_idx w', w', (calls @ [io_call_of og_succ ?og]) @ map (io_call_of og_succ) (take k (wiov_items ?w)))"
        "io_after ?w (n - ?l) k w'" "iov_idx w' < iov_cnt w' \<longrightarrow> 0 < iov_len (wi_iov w' ! iov_idx w')"
      using Suc.hyps(1)[of ?w ?l "calls @ [io_call_of og_succ ?og]"] wiov_ok_drop1[OF ok i] True by blast
    have "wiov_adjust_loop w (iov_idx w) len n calls =
        wiov_adjust_loop ?w (iov_idx ?w) ?l n (calls @ [io_call_of og_succ ?og])"
      using i D True by (simp add: wiov_adjust_loop.simps[of w] wiov_call_Some)
    moreover have "io_after w (n - len) (Suc k) w'"
      using k(2) P I c True Suc.prems(2) by (simp add: io_after_def)
    ultimately show ?thesis using k I by (intro exI[of _ "Suc k"] exI[of _ w']) simp
  next
    case False
    let ?m = "n - len"
    have m: "?m < iov_len ?v" "len + iov_len ?v - n = iov_len ?v - ?m" using False Suc.prems(2) by simp_all
    note C = wiov_cut_ok[OF ok i m(1)]
    have "wiov_adjust_loop w (iov_idx w) len n calls = Some (iov_idx w, wiov_cut w ?m, calls)"
      using i D False m(2) by (simp add: wiov_adjust_loop.simps[of w])
    moreover have "io_after w ?m 0 (wiov_cut w ?m)" using C by (simp add: io_after_def)
    ultimately show ?thesis using m D(1) False by (intro exI[of _ 0] exI[of _ "wiov_cut w ?m"]) simp
  qed
qed

text \<open>The reset when everything was sent.\<close>

lemma wiov_reset_ok:
  assumes "wiov_ok w" and "iov_idx w = iov_cnt w"
  shows "wiov_ok (w\<lparr>iov_idx := 0, iov_cnt := 0\<rparr>)" "wiov_items (w\<lparr>iov_idx := 0, iov_cnt := 0\<rparr>) = []"
    "wiov_pending (w\<lparr>iov_idx := 0, iov_cnt := 0\<rparr>) = []" "wiov_items w = []" "wiov_pending w = []"
  using assms wiov_none_left[of w] by (auto simp: wiov_ok_def wiov_items_def wiov_pending_def wiov_item_num_def)

lemma wiov_adjust_ok:
  assumes ok: "wiov_ok w" and n: "n \<le> length (wiov_pending w)"
  shows "\<exists>k w'. wiov_item_adjust w n = Some (0, w', map (io_call_of og_succ) (take k (wiov_items w))) \<and>
    wiov_ok w' \<and> iov_max w' = iov_max w \<and> wiov_items w' = drop k (wiov_items w) \<and>
    wiov_pending w' = drop n (wiov_pending w) \<and>
    (wiov_items w' \<noteq> [] \<longrightarrow> 0 < iov_len (hd (wiov_item_begin w'))) \<and> (wiov_isempty w' \<longleftrightarrow> wiov_items w' = [])"
proof -
  obtain k w' where k: "wiov_adjust_loop w (iov_idx w) 0 n [] =
        Some (iov_idx w', w', map (io_call_of og_succ) (take k (wiov_items w)))"
      "io_after w n k w'" "iov_idx w' < iov_cnt w' \<longrightarrow> 0 < iov_len (wi_iov w' ! iov_idx w')"
    using adjust_loop_ok[OF ok, of 0 n "[]"] n by auto
  have ok': "wiov_ok w'" using k(2) by (simp add: io_after_def)
  show ?thesis
  proof (cases "iov_idx w' = iov_cnt w'")
    case True
    note R = wiov_reset_ok[OF ok' True]
    have e: "drop k (wiov_items w) = []" "drop n (wiov_pending w) = []" "iov_max w' = iov_max w"
      using k(2) R(4,5) by (simp_all only: io_after_def)
    have run: "wiov_item_adjust w n = Some (0, w'\<lparr>iov_idx := 0, iov_cnt := 0\<rparr>,
        map (io_call_of og_succ) (take k (wiov_items w)))"
      using k(1) True by (simp add: wiov_item_adjust_def)
    show ?thesis unfolding run e(1,2)
      by (intro exI[of _ k] exI[of _ "w'\<lparr>iov_idx := 0, iov_cnt := 0\<rparr>"])
        (use R(1,2,3) e in \<open>simp add: wiov_isempty_def\<close>)
  next
    case False
    then have i: "iov_idx w' < iov_cnt w'" using ok' by (simp add: wiov_ok_def)
    have h: "hd (wiov_item_begin w') = wi_iov w' ! iov_idx w'"
      using wiov_okD(1)[OF ok' i] by (simp add: wiov_item_begin_def hd_drop_conv_nth)
    have run: "wiov_item_adjust w n = Some (0, w', map (io_call_of og_succ) (take k (wiov_items w)))"
      using k(1) False by (simp add: wiov_item_adjust_def)
    show ?thesis unfolding run
      by (intro exI[of _ k] exI[of _ w'])
        (use k i h ok' wiov_items_drop1[OF ok' i] in \<open>auto simp: io_after_def wiov_isempty_def\<close>)
  qed
qed

lemma wiov_add_ok:
  assumes ok: "wiov_ok w" and f: "\<not> wiov_isfull w" and cb: "succ \<noteq> None" "fail \<noteq> None"
  shows "\<exists>w'. wiov_item_add w addr len param succ fail = Some w' \<and> wiov_ok w' \<and> iov_max w' = iov_max w \<and>
    wiov_items w' = wiov_items w @ [\<lparr>og_addr = addr, og_len = len, og_param = param, og_succ = succ, og_fail = fail\<rparr>] \<and>
    wiov_pending w' = wiov_pending w @ [addr ..< addr + len]"
proof -
  let ?og = "\<lparr>og_addr = addr, og_len = len, og_param = param, og_succ = succ, og_fail = fail\<rparr>"
  let ?v = "\<lparr>iov_base = addr, iov_len = len\<rparr>" let ?c = "iov_cnt w"
  let ?w = "w\<lparr>wi_iov := (wi_iov w)[?c := ?v], wi_orig := (wi_orig w)[?c := ?og], iov_cnt := ?c + 1\<rparr>"
  have c: "?c < length (wi_iov w)" "?c < length (wi_orig w)" "iov_idx w \<le> ?c"
    using ok f by (auto simp: wiov_ok_def wiov_isfull_def)
  have run: "wiov_item_add w addr len param succ fail = Some ?w" using c by (simp add: wiov_item_add_def)
  have b: "iov_bytes ?v = og_bytes ?og" by (simp add: iov_bytes_def og_bytes_def)
  have "wiov_ok ?w" using ok c cb b unfolding wiov_ok_def
    by (auto simp: nth_list_update less_Suc_eq intro: exI[of _ 0])
  moreover have "wiov_items ?w = wiov_items w @ [?og]" using c by (simp add: wiov_items_def take_Suc_conv_app_nth)
  moreover have "wiov_pending ?w = wiov_pending w @ [addr ..< addr + len]"
  proof -
    have s: "Suc ?c - iov_idx w = Suc (?c - iov_idx w)" using c(3) by (rule Suc_diff_le)
    have n: "drop (iov_idx w) ((wi_iov w)[?c := ?v]) ! (?c - iov_idx w) = ?v" using c by simp
    show ?thesis using c s n
      by (simp add: wiov_pending_def wiov_item_num_def wiov_item_begin_def take_Suc_conv_app_nth drop_update_swap)
        (simp add: iov_bytes_def)
  qed
  ultimately show ?thesis using run by (intro exI[of _ ?w]) simp
qed

lemma clean_loop_ok:
  "\<forall>i. idx \<le> i \<and> i < iov_cnt w \<longrightarrow> og_fail (wi_orig w ! i) \<noteq> None \<Longrightarrow> iov_cnt w \<le> length (wi_orig w) \<Longrightarrow>
   \<exists>w'. wiov_clean_loop w idx calls =
       Some (w', calls @ map (io_call_of og_fail) (drop idx (take (iov_cnt w) (wi_orig w)))) \<and>
     length (wi_iov w') = length (wi_iov w) \<and> length (wi_orig w') = length (wi_orig w) \<and> iov_max w' = iov_max w"
proof (induction "iov_cnt w - idx" arbitrary: w idx calls)
  case 0
  then show ?case by (intro exI[of _ w]) (simp add: wiov_clean_loop.simps[of w])
next
  case (Suc d)
  let ?w = "wiov_item_reset w idx" and ?c = "io_call_of og_fail (wi_orig w ! idx)"
  have i: "idx < iov_cnt w" "idx < length (wi_orig w)" "og_fail (wi_orig w ! idx) \<noteq> None"
    using Suc.hyps(2) Suc.prems by auto
  have d: "d = iov_cnt ?w - (idx + 1)" using Suc.hyps(2) by (simp add: wiov_item_reset_def)
  have "drop idx (take (iov_cnt w) (wi_orig w)) =
      wi_orig w ! idx # drop (idx + 1) (take (iov_cnt ?w) (wi_orig ?w))"
    using i Cons_nth_drop_Suc[of idx "take (iov_cnt w) (wi_orig w)", symmetric]
    by (simp add: wiov_item_reset_def take_update_swap)
  moreover have "wiov_clean_loop w idx calls = wiov_clean_loop ?w (idx + 1) (calls @ [?c])"
    using i by (simp add: wiov_clean_loop.simps[of w] wiov_call_Some)
  ultimately show ?case using Suc.hyps(1)[OF d, of "calls @ [?c]"] Suc.prems
    by (simp add: wiov_item_reset_def)
qed

lemma wiov_clean_ok:
  assumes "wiov_ok w"
  shows "\<exists>w'. wiov_clean w = Some (w', map (io_call_of og_fail) (wiov_items w)) \<and> wiov_ok w' \<and> wiov_isempty w' \<and>
    iov_max w' = iov_max w \<and> wiov_items w' = []"
proof -
  have "\<forall>i. iov_idx w \<le> i \<and> i < iov_cnt w \<longrightarrow> og_fail (wi_orig w ! i) \<noteq> None" "iov_cnt w \<le> length (wi_orig w)"
    using assms by (auto simp: wiov_ok_def)
  from clean_loop_ok[OF this, of "[]"] show ?thesis using assms
    by (auto simp: wiov_clean_def wiov_isempty_def wiov_ok_def wiov_items_def)
qed

lemma init_wiov:
  assumes "wiov_init mx [] = (0, Some w, [])"
  shows "wiov_ok w" "wiov_items w = []" "wiov_pending w = []" "iov_max w = nat (min IOV_MAX mx)"
  using assms by (auto simp: wiov_init_def wiov_ok_def wiov_items_def wiov_pending_def wiov_item_num_def Let_def min_def)

end
