(* ===== verification/Iovec_Spec.thy ===== *)
theory Iovec_Spec
  imports Iovec
begin

text \<open>
  What the send buffer promises: the bytes on the wire are those of the messages, in order, whatever
  parts \<open>writev\<close> takes, and each message is reported once.
\<close>

text \<open>
  A sender adds messages while the buffer is not full, as \<open>rtmq_rsvr_wiov_add\<close> does, and passes to
  \<open>wiov_item_adjust\<close> how much \<open>writev\<close> took, at most what it was offered.  The result: the buffer, the
  bytes on the wire (their places in memory), the callbacks that ran and the messages taken in.
\<close>

datatype io_op = IoAdd nat nat nat nat | IoSent nat

fun io_run :: "wiov \<Rightarrow> io_op list \<Rightarrow> (wiov \<times> nat list \<times> io_call list \<times> wiov_orig list) option" where
  "io_run w [] = Some (w, [], [], [])"
| "io_run w (IoAdd addr len param cb # ops) =
     (if wiov_isfull w then io_run w ops
      else do {
        w \<leftarrow> wiov_item_add w addr len param (Some cb) (Some cb);
        (w, wire, calls, ogs) \<leftarrow> io_run w ops;
        Some (w, wire, calls,
          \<lparr>og_addr = addr, og_len = len, og_param = param, og_succ = Some cb, og_fail = Some cb\<rparr> # ogs) })"
| "io_run w (IoSent n # ops) =
     (let m = min n (length (wiov_pending w)) in do {
        (_, w', now) \<leftarrow> wiov_item_adjust w m;
        (w', wire, calls, ogs) \<leftarrow> io_run w' ops;
        Some (w', take m (wiov_pending w) @ wire, now @ calls, ogs) })"

text \<open>C25: for every sequence of additions and partial writes, the bytes on the wire followed by those
  still pending are the bytes of the messages in the order they were added; the success callbacks that
  ran followed by those of the messages in the buffer are those of all messages, each once, in order;
  and a cleanup at any time reports exactly the messages still in the buffer as failed.  No access leaves
  the arrays.\<close>

theorem wiov_stream_correct:
  assumes "wiov_ok w"
  shows "\<exists>w' wire calls ogs. io_run w ops = Some (w', wire, calls, ogs) \<and> wiov_ok w' \<and>
    wire @ wiov_pending w' = wiov_pending w @ concat (map og_bytes ogs) \<and>
    calls @ map (io_call_of og_succ) (wiov_items w') = map (io_call_of og_succ) (wiov_items w @ ogs) \<and>
    wiov_destroy w' = Some (map (io_call_of og_fail) (wiov_items w'))"
  using assms
proof (induction ops arbitrary: w)
  case Nil
  then show ?case using wiov_clean_ok[OF Nil] by (auto simp: wiov_destroy_def)
next
  case (Cons op ops)
  show ?case
  proof (cases op)
    case (IoAdd addr len param cb)
    let ?og = "\<lparr>og_addr = addr, og_len = len, og_param = param, og_succ = Some cb, og_fail = Some cb\<rparr>"
    show ?thesis
    proof (cases "wiov_isfull w")
      case True
      then show ?thesis using Cons.IH[OF Cons.prems] IoAdd by simp
    next
      case False
      obtain w1 where w1: "wiov_item_add w addr len param (Some cb) (Some cb) = Some w1" "wiov_ok w1"
          "wiov_items w1 = wiov_items w @ [?og]" "wiov_pending w1 = wiov_pending w @ [addr ..< addr + len]"
        using wiov_add_ok[OF Cons.prems False, of "Some cb" "Some cb" addr len param] by auto
      from Cons.IH[OF w1(2)] obtain w' wire calls ogs where "io_run w1 ops = Some (w', wire, calls, ogs)" "wiov_ok w'"
          "wire @ wiov_pending w' = wiov_pending w1 @ concat (map og_bytes ogs)"
          "calls @ map (io_call_of og_succ) (wiov_items w') = map (io_call_of og_succ) (wiov_items w1 @ ogs)"
          "wiov_destroy w' = Some (map (io_call_of og_fail) (wiov_items w'))" by blast
      moreover have "og_bytes ?og = [addr ..< addr + len]" by (simp add: og_bytes_def)
      ultimately show ?thesis using IoAdd False w1
        by (intro exI[of _ w'] exI[of _ wire] exI[of _ calls] exI[of _ "?og # ogs"]) simp
    qed
  next
    case (IoSent n)
    let ?m = "min n (length (wiov_pending w))"
    obtain k w1 where w1: "wiov_item_adjust w ?m = Some (0, w1, map (io_call_of og_succ) (take k (wiov_items w)))"
        "wiov_ok w1" "wiov_items w1 = drop k (wiov_items w)" "wiov_pending w1 = drop ?m (wiov_pending w)"
      using wiov_adjust_ok[OF Cons.prems, of ?m] by auto
    from Cons.IH[OF w1(2)] obtain w' wire calls ogs where R: "io_run w1 ops = Some (w', wire, calls, ogs)" "wiov_ok w'"
        "wire @ wiov_pending w' = wiov_pending w1 @ concat (map og_bytes ogs)"
        "calls @ map (io_call_of og_succ) (wiov_items w') = map (io_call_of og_succ) (wiov_items w1 @ ogs)"
        "wiov_destroy w' = Some (map (io_call_of og_fail) (wiov_items w'))" by blast
    let ?wire = "take ?m (wiov_pending w) @ wire"
    let ?calls = "map (io_call_of og_succ) (take k (wiov_items w)) @ calls"
    have "io_run w (IoSent n # ops) = Some (w', ?wire, ?calls, ogs)"
      using w1(1) R(1) by (simp add: Let_def)
    moreover have "?wire @ wiov_pending w' = wiov_pending w @ concat (map og_bytes ogs)"
      unfolding append_assoc R(3) w1(4) by (simp only: append_assoc[symmetric] append_take_drop_id)
    moreover have "?calls @ map (io_call_of og_succ) (wiov_items w') = map (io_call_of og_succ) (wiov_items w @ ogs)"
      unfolding append_assoc R(4) w1(3) map_append by (simp only: append_assoc[symmetric] map_append[symmetric] append_take_drop_id)
    ultimately show ?thesis unfolding IoSent using R(2,5) by blast
  qed
qed

theorem wiov_stream_correct_witness:
  "\<exists>w w' calls ogs. wiov_init 4 [] = (0, Some w, []) \<and>
     io_run w [IoAdd 100 5 0 7, IoSent 2, IoAdd 200 3 0 7, IoSent 4] =
       Some (w', [100, 101, 102, 103, 104, 200], calls, ogs) \<and> wiov_pending w' = [201, 202] \<and> length calls = 1"
proof -
  obtain w where w: "wiov_init 4 [] = (0, Some w, [])" by (simp add: wiov_init_def Let_def)
  let ?ops = "[IoAdd 100 5 0 7, IoSent 2, IoAdd 200 3 0 7, IoSent 4]"
  have eval: "map_option (\<lambda>(w', wire, calls, ogs). (wire, wiov_pending w', length calls))
      (io_run (the (fst (snd (wiov_init 4 [])))) ?ops) = Some ([100, 101, 102, 103, 104, 200], [201, 202], 1)"
    by code_simp
  from wiov_stream_correct[OF init_wiov(1)[OF w], of ?ops] eval w show ?thesis by auto
qed

end
