(* ===== verification/Quick_Sort.thy ===== *)
theory Quick_Sort
  imports Main "HOL-Library.Multiset"
begin

text \<open>
  \<open>src/clang/lib/core/quick_sort.c\<close>: in-place sorting of an array through a comparison and a swap of two
  places.  The array is whatever the callbacks work on (\<open>void *array\<close>); indices are mathematical integers, which
  stay between \<open>-1\<close> and \<open>len\<close>.
\<close>

subsection \<open>The code\<close>

text \<open>The two inner loops of \<open>_quick_sort_once\<close>: from the right while the pivot is at \<open>i\<close>, and from the left
  while it is at \<open>j\<close>.\<close>

function qs_right :: "('a \<Rightarrow> int \<Rightarrow> int \<Rightarrow> int) \<Rightarrow> ('a \<Rightarrow> int \<Rightarrow> int \<Rightarrow> 'a) \<Rightarrow> 'a \<Rightarrow> int \<Rightarrow> int \<Rightarrow> 'a \<times> int \<times> int" where
  "qs_right cmp swap a i j =
     (if i < j then
        if 0 < cmp a i j then (swap a i j, i + 1, j)
        else qs_right cmp swap a i (j - 1)
      else (a, i, j))"
  by pat_completeness auto
termination by (relation "measure (\<lambda>(_, _, _, i, j). nat (j - i))") auto

function qs_left :: "('a \<Rightarrow> int \<Rightarrow> int \<Rightarrow> int) \<Rightarrow> ('a \<Rightarrow> int \<Rightarrow> int \<Rightarrow> 'a) \<Rightarrow> 'a \<Rightarrow> int \<Rightarrow> int \<Rightarrow> 'a \<times> int \<times> int" where
  "qs_left cmp swap a i j =
     (if i < j then
        if 0 < cmp a i j then (swap a i j, i, j - 1)
        else qs_left cmp swap a (i + 1) j
      else (a, i, j))"
  by pat_completeness auto
termination by (relation "measure (\<lambda>(_, _, _, i, j). nat (j - i))") auto

declare qs_right.simps [simp del] qs_left.simps [simp del]

lemma qs_right_bounds:
  "i \<le> j \<Longrightarrow> qs_right cmp swap a i j = (a', i', j') \<Longrightarrow> i \<le> i' \<and> i' \<le> j' \<and> j' \<le> j \<and> (i < j \<longrightarrow> j' - i' < j - i)"
proof (induction cmp swap a i j rule: qs_right.induct)
  case (1 cmp swap a i j)
  show ?case
  proof (cases "i < j \<and> \<not> 0 < cmp a i j")
    case True
    then show ?thesis using "1.IH" "1.prems" by (simp add: qs_right.simps[of cmp swap a i j])
  next
    case False
    then show ?thesis using "1.prems" by (auto simp: qs_right.simps[of cmp swap a i j] split: if_splits)
  qed
qed

lemma qs_left_bounds:
  "i \<le> j \<Longrightarrow> qs_left cmp swap a i j = (a', i', j') \<Longrightarrow> i \<le> i' \<and> i' \<le> j' \<and> j' \<le> j \<and> (i < j \<longrightarrow> j' - i' < j - i)"
proof (induction cmp swap a i j rule: qs_left.induct)
  case (1 cmp swap a i j)
  show ?case
  proof (cases "i < j \<and> \<not> 0 < cmp a i j")
    case True
    then show ?thesis using "1.IH" "1.prems" by (simp add: qs_left.simps[of cmp swap a i j])
  next
    case False
    then show ?thesis using "1.prems" by (auto simp: qs_left.simps[of cmp swap a i j] split: if_splits)
  qed
qed

function quick_sort_once :: "('a \<Rightarrow> int \<Rightarrow> int \<Rightarrow> int) \<Rightarrow> ('a \<Rightarrow> int \<Rightarrow> int \<Rightarrow> 'a) \<Rightarrow> 'a \<Rightarrow> int \<Rightarrow> int \<Rightarrow> 'a \<times> int" where
  "quick_sort_once cmp swap a i j =
     (if i < j then
        let (a, i, j) = qs_right cmp swap a i j; (a, i, j) = qs_left cmp swap a i j
        in quick_sort_once cmp swap a i j
      else (a, i))"
  by pat_completeness auto
termination
proof (relation "measure (\<lambda>(_, _, _, i, j). nat (j - i))")
  fix cmp :: "'a \<Rightarrow> int \<Rightarrow> int \<Rightarrow> int" and swap a i j r a1 r1 i1 j1 l a2 l1 i2 j2
  assume "i < j" "r = qs_right cmp swap a i j" "(a1, r1) = r" "(i1, j1) = r1"
    "l = qs_left cmp swap a1 i1 j1" "(a2, l1) = l" "(i2, j2) = l1"
  then have r: "qs_right cmp swap a i j = (a1, i1, j1)" and l: "qs_left cmp swap a1 i1 j1 = (a2, i2, j2)" by simp_all
  have "i1 \<le> j1" "j1 - i1 < j - i" using qs_right_bounds[OF _ r] \<open>i < j\<close> by simp_all
  then have "j2 - i2 < j - i" using qs_left_bounds[OF _ l] by simp
  then show "((cmp, swap, a2, i2, j2), cmp, swap, a, i, j) \<in> measure (\<lambda>(_, _, _, i, j). nat (j - i))"
    using \<open>i < j\<close> by simp
qed simp

declare quick_sort_once.simps [simp del]

lemma quick_sort_once_bounds: "i \<le> j \<Longrightarrow> quick_sort_once cmp swap a i j = (a', m) \<Longrightarrow> i \<le> m \<and> m \<le> j"
proof (induction cmp swap a i j rule: quick_sort_once.induct)
  case (1 cmp swap a i j)
  show ?case
  proof (cases "i < j")
    case True
    obtain a1 i1 j1 where r: "qs_right cmp swap a i j = (a1, i1, j1)" by (metis prod_cases3)
    obtain a2 i2 j2 where l: "qs_left cmp swap a1 i1 j1 = (a2, i2, j2)" by (metis prod_cases3)
    note R = qs_right_bounds[OF "1.prems"(1) r]
    with qs_left_bounds[OF _ l] have L: "i1 \<le> i2" "i2 \<le> j2" "j2 \<le> j1" by simp_all
    have "quick_sort_once cmp swap a2 i2 j2 = (a', m)"
      using "1.prems"(2) True r l by (simp add: quick_sort_once.simps[of cmp swap a])
    then have "i2 \<le> m \<and> m \<le> j2" using "1.IH"[OF True] r l L by metis
    then show ?thesis using L R by linarith
  next
    case False
    then show ?thesis using "1.prems" by (simp add: quick_sort_once.simps)
  qed
qed

text \<open>\<open>_quick_sort\<close>\<close>

function p_quick_sort :: "('a \<Rightarrow> int \<Rightarrow> int \<Rightarrow> int) \<Rightarrow> ('a \<Rightarrow> int \<Rightarrow> int \<Rightarrow> 'a) \<Rightarrow> 'a \<Rightarrow> int \<Rightarrow> int \<Rightarrow> 'a" where
  "p_quick_sort cmp swap a low high =
     (if low < high then
        let (a, m) = quick_sort_once cmp swap a low high;
            a = p_quick_sort cmp swap a low (m - 1)
        in p_quick_sort cmp swap a (m + 1) high
      else a)"
  by pat_completeness auto
termination
proof (relation "measure (\<lambda>(_, _, _, low, high). nat (high - low))")
  fix cmp :: "'a \<Rightarrow> int \<Rightarrow> int \<Rightarrow> int" and swap a low high r a1 m
  assume A: "low < high" "r = quick_sort_once cmp swap a low high" "(a1, m) = r"
  then have "low \<le> m \<and> m \<le> high" using quick_sort_once_bounds[of low high cmp swap a a1 m] by simp
  then show "((cmp, swap, a1, low, m - 1), cmp, swap, a, low, high) \<in> measure (\<lambda>(_, _, _, low, high). nat (high - low))"
    "((cmp, swap, x, m + 1, high), cmp, swap, a, low, high) \<in> measure (\<lambda>(_, _, _, low, high). nat (high - low))" for x
    using A(1) by auto
qed simp

declare p_quick_sort.simps [simp del]

definition quick_sort :: "'a \<Rightarrow> int \<Rightarrow> ('a \<Rightarrow> int \<Rightarrow> int \<Rightarrow> int) \<Rightarrow> ('a \<Rightarrow> int \<Rightarrow> int \<Rightarrow> 'a) \<Rightarrow> int \<times> 'a" where
  "quick_sort array len cmp swap =
     (if len \<le> 0 then (0, array) else (0, p_quick_sort cmp swap array 0 (len - 1)))"

subsection \<open>Shuffling a range\<close>

definition exch :: "'e list \<Rightarrow> int \<Rightarrow> int \<Rightarrow> 'e list" where
  "exch a i j = a[nat i := a ! nat j, nat j := a ! nat i]"

inductive shuffled :: "int \<Rightarrow> int \<Rightarrow> 'e list \<Rightarrow> 'e list \<Rightarrow> bool" for lo hi where
  shuffled_refl: "shuffled lo hi a a"
| shuffled_exch: "shuffled lo hi a b \<Longrightarrow> lo \<le> i \<Longrightarrow> i \<le> hi \<Longrightarrow> lo \<le> j \<Longrightarrow> j \<le> hi \<Longrightarrow> shuffled lo hi a (exch b i j)"

lemma shuffled_trans: "shuffled lo hi b c \<Longrightarrow> shuffled lo hi a b \<Longrightarrow> shuffled lo hi a c"
  by (induction rule: shuffled.induct) (auto intro: shuffled_exch)

lemma shuffled_wider: "shuffled lo hi a b \<Longrightarrow> lo' \<le> lo \<Longrightarrow> hi \<le> hi' \<Longrightarrow> shuffled lo' hi' a b"
  by (induction rule: shuffled.induct) (auto intro: shuffled_refl shuffled_exch)

lemma exch_nth:
  assumes "0 \<le> i" "i < int (length a)" "0 \<le> j" "j < int (length a)" "0 \<le> k" "k < int (length a)"
  shows "exch a i j ! nat k = a ! nat (if k = i then j else if k = j then i else k)"
  using assms by (auto simp: exch_def nth_list_update)

lemma shuffled_range:
  "shuffled lo hi a b \<Longrightarrow> 0 \<le> lo \<Longrightarrow> hi < int (length a) \<Longrightarrow> length b = length a \<and> mset b = mset a \<and>
     (\<forall>k. 0 \<le> k \<and> k < int (length a) \<and> (k < lo \<or> hi < k) \<longrightarrow> b ! nat k = a ! nat k)"
proof (induction rule: shuffled.induct)
  case (shuffled_exch a b i j)
  then have ij: "0 \<le> i" "i < int (length b)" "0 \<le> j" "j < int (length b)" by simp_all
  have "mset (exch b i j) = mset b" using ij mset_swap[of "nat j" b "nat i"] by (simp add: exch_def nat_less_iff)
  moreover have "length (exch b i j) = length b" by (simp add: exch_def)
  moreover have "exch b i j ! nat k = b ! nat k" if "0 \<le> k" "k < int (length b)" "k < lo \<or> hi < k" for k
    using exch_nth[OF ij, of k] that shuffled_exch.hyps by auto
  ultimately show ?case using shuffled_exch.IH shuffled_exch.prems by simp
qed simp

lemma shuffled_all:
  "shuffled lo hi a b \<Longrightarrow> 0 \<le> lo \<Longrightarrow> hi < int (length a) \<Longrightarrow> \<forall>k. lo \<le> k \<and> k \<le> hi \<longrightarrow> P (a ! nat k) \<Longrightarrow>
   lo \<le> k \<Longrightarrow> k \<le> hi \<Longrightarrow> P (b ! nat k)"
proof (induction arbitrary: k rule: shuffled.induct)
  case (shuffled_exch a b i j)
  have "length b = length a" using shuffled_range[OF shuffled_exch.hyps(1)] shuffled_exch.prems by simp
  then have "exch b i j ! nat k = b ! nat (if k = i then j else if k = j then i else k)"
    using shuffled_exch.hyps shuffled_exch.prems by (intro exch_nth) simp_all
  moreover have "P (b ! nat l)" if "lo \<le> l" "l \<le> hi" for l
    using shuffled_exch.IH[OF shuffled_exch.prems(1-3) that] .
  ultimately show ?case using shuffled_exch.hyps shuffled_exch.prems by simp
qed simp

subsection \<open>Partition\<close>

text \<open>The callbacks work on a list: \<open>cmp\<close> compares the keys at two places, \<open>swap\<close> exchanges them.\<close>

definition sort_callbacks ::
    "('e list \<Rightarrow> int \<Rightarrow> int \<Rightarrow> int) \<Rightarrow> ('e list \<Rightarrow> int \<Rightarrow> int \<Rightarrow> 'e list) \<Rightarrow> ('e \<Rightarrow> 'k::linorder) \<Rightarrow> bool" where
  "sort_callbacks cmp swap key \<longleftrightarrow>
     (\<forall>a i j. 0 \<le> i \<and> i < int (length a) \<and> 0 \<le> j \<and> j < int (length a) \<longrightarrow>
        (0 < cmp a i j \<longleftrightarrow> key (a ! nat j) < key (a ! nat i)) \<and> swap a i j = exch a i j)"

text \<open>Before \<open>i\<close> nothing is above the pivot \<open>p\<close>, after \<open>j\<close> nothing below.\<close>

definition parted :: "('e \<Rightarrow> 'k::linorder) \<Rightarrow> int \<Rightarrow> int \<Rightarrow> 'e \<Rightarrow> 'e list \<Rightarrow> int \<Rightarrow> int \<Rightarrow> bool" where
  "parted key lo hi p a i j \<longleftrightarrow> lo \<le> i \<and> i \<le> j \<and> j \<le> hi \<and> 0 \<le> lo \<and> hi < int (length a) \<and>
     (\<forall>k. lo \<le> k \<and> k < i \<longrightarrow> key (a ! nat k) \<le> key p) \<and> (\<forall>k. j < k \<and> k \<le> hi \<longrightarrow> key p \<le> key (a ! nat k))"

lemma parted_exch:
  assumes pt: "parted key lo hi p a i j" and "i < j"
  shows "shuffled lo hi a (exch a i j)" "length (exch a i j) = length a"
    "exch a i j ! nat i = a ! nat j" "exch a i j ! nat j = a ! nat i"
    "\<And>k. 0 \<le> k \<Longrightarrow> k < int (length a) \<Longrightarrow> k \<noteq> i \<Longrightarrow> k \<noteq> j \<Longrightarrow> exch a i j ! nat k = a ! nat k"
proof -
  have ij: "0 \<le> i" "i < int (length a)" "0 \<le> j" "j < int (length a)" using pt assms(2) by (simp_all add: parted_def)
  show "shuffled lo hi a (exch a i j)" using pt assms(2)
    by (intro shuffled_exch shuffled_refl) (simp_all add: parted_def)
  show "length (exch a i j) = length a" by (simp add: exch_def)
  show "exch a i j ! nat i = a ! nat j" "exch a i j ! nat j = a ! nat i"
    "\<And>k. 0 \<le> k \<Longrightarrow> k < int (length a) \<Longrightarrow> k \<noteq> i \<Longrightarrow> k \<noteq> j \<Longrightarrow> exch a i j ! nat k = a ! nat k"
    using exch_nth[OF ij] ij assms(2) by auto
qed

lemma qs_right_parted:
  "sort_callbacks cmp swap key \<Longrightarrow> parted key lo hi p a i j \<Longrightarrow> a ! nat i = p \<Longrightarrow> qs_right cmp swap a i j = (a', i', j') \<Longrightarrow>
    parted key lo hi p a' i' j' \<and> a' ! nat j' = p \<and> shuffled lo hi a a'"
proof (induction cmp swap a i j rule: qs_right.induct)
  case (1 cmp swap a i j)
  note cb = "1.prems"(1)
  show ?case
  proof (cases "i < j")
    case True
    have c: "0 < cmp a i j \<longleftrightarrow> key (a ! nat j) < key p" "swap a i j = exch a i j"
      using cb "1.prems"(2,3) True by (auto simp: sort_callbacks_def parted_def)
    note X = parted_exch[OF "1.prems"(2) True]
    show ?thesis
    proof (cases "0 < cmp a i j")
      case t: True
      then have r: "a' = exch a i j" "i' = i + 1" "j' = j"
        using "1.prems"(4) True c(2) by (auto simp: qs_right.simps[of cmp swap a i j])
      have "parted key lo hi p (exch a i j) (i + 1) j"
        unfolding parted_def
      proof (intro conjI allI impI)
        show "key (exch a i j ! nat k) \<le> key p" if "lo \<le> k \<and> k < i + 1" for k
          using X(3,5) that t c(1) "1.prems"(2) True by (cases "k = i") (auto simp: parted_def)
        show "key p \<le> key (exch a i j ! nat k)" if "j < k \<and> k \<le> hi" for k
          using X(5)[of k] that "1.prems"(2) True by (auto simp: parted_def)
      qed (use "1.prems"(2) True X(2) in \<open>auto simp: parted_def\<close>)
      then show ?thesis using r X "1.prems"(3) by simp
    next
      case f: False
      have "parted key lo hi p a i (j - 1)" unfolding parted_def
      proof (intro conjI allI impI)
        show "key p \<le> key (a ! nat k)" if "j - 1 < k \<and> k \<le> hi" for k
          using that f c(1) "1.prems"(2) by (cases "k = j") (auto simp: parted_def)
      qed (use "1.prems"(2) True in \<open>auto simp: parted_def\<close>)
      with "1.IH"[OF True f] show ?thesis using "1.prems"(3,4) cb True f
        by (simp add: qs_right.simps[of cmp swap a i j])
    qed
  next
    case False
    then have "a' = a" "i' = i" "j' = j" using "1.prems"(4) by (auto simp: qs_right.simps[of cmp swap a i j])
    moreover have "i = j" using False "1.prems"(2) by (simp add: parted_def)
    ultimately show ?thesis using "1.prems"(2,3) shuffled_refl by simp
  qed
qed

lemma qs_left_parted:
  "sort_callbacks cmp swap key \<Longrightarrow> parted key lo hi p a i j \<Longrightarrow> a ! nat j = p \<Longrightarrow> qs_left cmp swap a i j = (a', i', j') \<Longrightarrow>
    parted key lo hi p a' i' j' \<and> a' ! nat i' = p \<and> shuffled lo hi a a'"
proof (induction cmp swap a i j rule: qs_left.induct)
  case (1 cmp swap a i j)
  note cb = "1.prems"(1)
  show ?case
  proof (cases "i < j")
    case True
    have c: "0 < cmp a i j \<longleftrightarrow> key p < key (a ! nat i)" "swap a i j = exch a i j"
      using cb "1.prems"(2,3) True by (auto simp: sort_callbacks_def parted_def)
    note X = parted_exch[OF "1.prems"(2) True]
    show ?thesis
    proof (cases "0 < cmp a i j")
      case t: True
      then have r: "a' = exch a i j" "i' = i" "j' = j - 1"
        using "1.prems"(4) True c(2) by (auto simp: qs_left.simps[of cmp swap a i j])
      have "parted key lo hi p (exch a i j) i (j - 1)"
        unfolding parted_def
      proof (intro conjI allI impI)
        show "key p \<le> key (exch a i j ! nat k)" if "j - 1 < k \<and> k \<le> hi" for k
          using X(4,5) that t c(1) "1.prems"(2) True by (cases "k = j") (auto simp: parted_def)
        show "key (exch a i j ! nat k) \<le> key p" if "lo \<le> k \<and> k < i" for k
          using X(5)[of k] that "1.prems"(2) True by (auto simp: parted_def)
      qed (use "1.prems"(2) True X(2) in \<open>auto simp: parted_def\<close>)
      then show ?thesis using r X "1.prems"(3) by simp
    next
      case f: False
      have "parted key lo hi p a (i + 1) j" unfolding parted_def
      proof (intro conjI allI impI)
        show "key (a ! nat k) \<le> key p" if "lo \<le> k \<and> k < i + 1" for k
          using that f c(1) "1.prems"(2) by (cases "k = i") (auto simp: parted_def)
      qed (use "1.prems"(2) True in \<open>auto simp: parted_def\<close>)
      with "1.IH"[OF True f] show ?thesis using "1.prems"(3,4) cb True f
        by (simp add: qs_left.simps[of cmp swap a i j])
    qed
  next
    case False
    then have "a' = a" "i' = i" "j' = j" using "1.prems"(4) by (auto simp: qs_left.simps[of cmp swap a i j])
    moreover have "i = j" using False "1.prems"(2) by (simp add: parted_def)
    ultimately show ?thesis using "1.prems"(2,3) shuffled_refl by simp
  qed
qed

lemma quick_sort_once_parted:
  "sort_callbacks cmp swap key \<Longrightarrow> parted key lo hi p a i j \<Longrightarrow> a ! nat i = p \<Longrightarrow>
   quick_sort_once cmp swap a i j = (a', m) \<Longrightarrow>
   parted key lo hi p a' m m \<and> a' ! nat m = p \<and> shuffled lo hi a a'"
proof (induction cmp swap a i j rule: quick_sort_once.induct)
  case (1 cmp swap a i j)
  note cb = "1.prems"(1)
  show ?case
  proof (cases "i < j")
    case True
    obtain a1 i1 j1 where r: "qs_right cmp swap a i j = (a1, i1, j1)" by (metis prod_cases3)
    obtain a2 i2 j2 where l: "qs_left cmp swap a1 i1 j1 = (a2, i2, j2)" by (metis prod_cases3)
    have R: "parted key lo hi p a1 i1 j1" "a1 ! nat j1 = p" "shuffled lo hi a a1"
      using qs_right_parted[OF cb "1.prems"(2,3) r] by simp_all
    have L: "parted key lo hi p a2 i2 j2" "a2 ! nat i2 = p" "shuffled lo hi a1 a2"
      using qs_left_parted[OF cb R(1,2) l] by simp_all
    have "quick_sort_once cmp swap a2 i2 j2 = (a', m)"
      using "1.prems"(4) True r l by (simp add: quick_sort_once.simps[of cmp swap a])
    with "1.IH"[OF True r[symmetric] refl refl l[symmetric] refl refl cb L(1,2)]
    show ?thesis using shuffled_trans[OF _ shuffled_trans[OF L(3) R(3)]] by blast
  next
    case False
    then have "i = j" "a' = a" "m = i" using "1.prems"(2,4) by (auto simp: quick_sort_once.simps parted_def)
    then show ?thesis using "1.prems"(2,3) shuffled_refl by simp
  qed
qed

subsection \<open>Sorting\<close>

definition ordered :: "('e \<Rightarrow> 'k::linorder) \<Rightarrow> int \<Rightarrow> int \<Rightarrow> 'e list \<Rightarrow> bool" where
  "ordered key lo hi a \<longleftrightarrow> (\<forall>k l. lo \<le> k \<and> k \<le> l \<and> l \<le> hi \<longrightarrow> key (a ! nat k) \<le> key (a ! nat l))"

text \<open>Two ordered ranges around a pivot.\<close>

lemma ordered_join:
  assumes pt: "parted key lo hi p b m m" "b ! nat m = p"
    and l: "ordered key lo (m - 1) c" "shuffled lo (m - 1) b c"
    and r: "ordered key (m + 1) hi d" "shuffled (m + 1) hi c d"
  shows "ordered key lo hi d"
proof -
  have P: "lo \<le> m" "m \<le> hi" "0 \<le> lo" "hi < int (length b)"
    "\<forall>k. lo \<le> k \<and> k \<le> m - 1 \<longrightarrow> key (b ! nat k) \<le> key p" "\<forall>k. m + 1 \<le> k \<and> k \<le> hi \<longrightarrow> key p \<le> key (b ! nat k)"
    using pt(1) by (auto simp: parted_def)
  have m1: "m - 1 < int (length b)" using P by simp
  have lc: "length c = length b" and C: "\<And>k. 0 \<le> k \<Longrightarrow> k < int (length b) \<Longrightarrow> m \<le> k \<Longrightarrow> c ! nat k = b ! nat k"
    using shuffled_range[OF l(2) P(3) m1] by auto
  have lo1: "0 \<le> m + 1" "hi < int (length c)" using P lc by simp_all
  have D: "\<And>k. 0 \<le> k \<Longrightarrow> k \<le> m \<Longrightarrow> d ! nat k = c ! nat k"
    using shuffled_range[OF r(2) lo1] lc P(2,4) by auto
  have small: "key (d ! nat k) \<le> key p" if "lo \<le> k" "k \<le> m" for k
  proof (cases "k = m")
    case True
    then show ?thesis using D[of m] C[of m] P pt(2) by simp
  next
    case False
    then show ?thesis using shuffled_all[OF l(2) P(3) m1 P(5), of k] D[of k] that P by simp
  qed
  have big: "key p \<le> key (d ! nat k)" if "m \<le> k" "k \<le> hi" for k
  proof (cases "k = m")
    case True
    then show ?thesis using D[of m] C[of m] P pt(2) by simp
  next
    case False
    have "\<forall>k. m + 1 \<le> k \<and> k \<le> hi \<longrightarrow> key p \<le> key (c ! nat k)" using P C by simp
    from shuffled_all[OF r(2) lo1 this, of k] show ?thesis using that False by simp
  qed
  show ?thesis unfolding ordered_def
  proof (intro allI impI, elim conjE)
    fix k l assume kl: "lo \<le> k" "k \<le> l" "l \<le> hi"
    consider "l < m" | "m < k" | "k \<le> m" "m \<le> l" by linarith
    then show "key (d ! nat k) \<le> key (d ! nat l)"
    proof cases
      case 1
      then show ?thesis using l(1) kl D[of k] D[of l] P by (simp add: ordered_def)
    next
      case 2
      then show ?thesis using r(1) kl by (simp add: ordered_def)
    next
      case 3
      then show ?thesis using small[of k] big[of l] kl by (meson order.trans)
    qed
  qed
qed

lemma p_quick_sort_ok:
  "sort_callbacks cmp swap key \<Longrightarrow> 0 \<le> lo \<Longrightarrow> hi < int (length a) \<Longrightarrow>
   ordered key lo hi (p_quick_sort cmp swap a lo hi) \<and> shuffled lo hi a (p_quick_sort cmp swap a lo hi)"
proof (induction cmp swap a lo hi rule: p_quick_sort.induct)
  case (1 cmp swap a lo hi)
  show ?case
  proof (cases "lo < hi")
    case True
    obtain b m where o: "quick_sort_once cmp swap a lo hi = (b, m)" by fastforce
    have "parted key lo hi (a ! nat lo) a lo hi" using "1.prems" True by (auto simp: parted_def)
    from quick_sort_once_parted[OF "1.prems"(1) this refl o]
    have B: "parted key lo hi (a ! nat lo) b m m" "b ! nat m = a ! nat lo" "shuffled lo hi a b" by simp_all
    then have m: "lo \<le> m" "m \<le> hi" "hi < int (length b)" by (auto simp: parted_def)
    let ?c = "p_quick_sort cmp swap b lo (m - 1)"
    have C: "ordered key lo (m - 1) ?c" "shuffled lo (m - 1) b ?c"
      using "1.IH"(1)[OF True o[symmetric] refl "1.prems"(1,2)] m by simp_all
    have "length ?c = length b" using shuffled_range[OF C(2) "1.prems"(2)] m by simp
    then have D: "ordered key (m + 1) hi (p_quick_sort cmp swap ?c (m + 1) hi)"
        "shuffled (m + 1) hi ?c (p_quick_sort cmp swap ?c (m + 1) hi)"
      using "1.IH"(2)[OF True o[symmetric] refl refl "1.prems"(1)] "1.prems"(2) m by simp_all
    have e: "p_quick_sort cmp swap a lo hi = p_quick_sort cmp swap ?c (m + 1) hi"
      using True o by (simp add: p_quick_sort.simps[of cmp swap a])
    have "shuffled lo hi b ?c" by (rule shuffled_wider[OF C(2)]) (use m in simp_all)
    moreover have "shuffled lo hi ?c (p_quick_sort cmp swap ?c (m + 1) hi)"
      by (rule shuffled_wider[OF D(2)]) (use m in simp_all)
    ultimately show ?thesis
      using ordered_join[OF B(1,2) C D] B(3) shuffled_trans unfolding e by blast
  next
    case False
    then have "p_quick_sort cmp swap a lo hi = a" by (simp add: p_quick_sort.simps)
    moreover have "ordered key lo hi a" unfolding ordered_def using False
      by (metis (no_types, lifting) dual_order.trans linorder_not_less order.refl order_antisym)
    ultimately show ?thesis by (simp add: shuffled_refl)
  qed
qed

text \<open>C26: with callbacks that compare keys and exchange elements, \<open>quick_sort\<close> returns \<open>0\<close> and has put
  the first \<open>len\<close> elements in ascending order of their keys: the same elements, the same sequence of keys as
  the library's \<open>sort_key\<close> gives.  The elements behind stay where they are.\<close>

theorem quick_sort_correct:
  assumes "sort_callbacks cmp swap key" and "len \<le> length a"
  shows "\<exists>b. quick_sort a (int len) cmp swap = (0, b) \<and> length b = length a \<and> drop len b = drop len a \<and>
    mset (take len b) = mset (take len a) \<and> map key (take len b) = map key (sort_key key (take len a))"
proof -
  obtain b where run: "quick_sort a (int len) cmp swap = (0, b)"
    and r: "ordered key 0 (int len - 1) b" "shuffled 0 (int len - 1) a b"
  proof (cases "len = 0")
    case True
    then show thesis by (intro that[of a]) (simp_all add: quick_sort_def ordered_def shuffled_refl)
  next
    case False
    then show thesis using p_quick_sort_ok[OF assms(1), of 0 "int len - 1" a] assms(2)
      by (intro that[of "p_quick_sort cmp swap a 0 (int len - 1)"]) (simp_all add: quick_sort_def)
  qed
  have s: "length b = length a" "mset b = mset a"
      "\<forall>k. 0 \<le> k \<and> k < int (length a) \<and> (k < 0 \<or> int len - 1 < k) \<longrightarrow> b ! nat k = a ! nat k"
    using shuffled_range[OF r(2)] assms(2) by (simp_all, blast)
  have d: "drop len b = drop len a"
  proof (rule nth_equalityI)
    show "drop len b ! i = drop len a ! i" if "i < length (drop len b)" for i
      using s(3)[rule_format, of "int (len + i)"] that s(1) by (simp add: nat_int_add)
  qed (simp add: s(1))
  have "mset (take len b) + mset (drop len b) = mset (take len a) + mset (drop len a)"
    using s(2) by (metis append_take_drop_id mset_append)
  then have m: "mset (take len b) = mset (take len a)" by (simp add: d)
  have "sorted (map key (take len b))"
  proof (unfold sorted_iff_nth_mono, intro allI impI)
    fix i j assume "i \<le> j" "j < length (map key (take len b))"
    then show "map key (take len b) ! i \<le> map key (take len b) ! j"
      using r(1)[unfolded ordered_def, rule_format, of "int i" "int j"] by simp
  qed
  then have "map key (take len b) = sort (map key (take len a))"
    using m by (metis mset_map properties_for_sort)
  moreover have "map key (sort_key key (take len a)) = sort (map key (take len a))"
    by (metis mset_map mset_sort properties_for_sort sorted_sort_key)
  ultimately show ?thesis using run s(1) d m by (intro exI[of _ b]) simp
qed

text \<open>The callbacks for an array of numbers.\<close>

definition num_cmp :: "int list \<Rightarrow> int \<Rightarrow> int \<Rightarrow> int" where "num_cmp a i j = a ! nat i - a ! nat j"

theorem quick_sort_correct_witness:
  "quick_sort [5, 2, 8, 2, 9, 1] 5 num_cmp exch = (0, [2, 2, 5, 8, 9, 1])"
proof -
  have "sort_callbacks num_cmp exch (\<lambda>x. x)" by (simp add: sort_callbacks_def num_cmp_def)
  from quick_sort_correct[OF this, of 5 "[5, 2, 8, 2, 9, 1]"]
  obtain b where b: "quick_sort [5, 2, 8, 2, 9, 1] 5 num_cmp exch = (0, b)" "drop 5 b = [1]"
      "take 5 b = sort_key (\<lambda>x. x) [5, 2, 8, 2, 9]" by auto
  have "sort_key (\<lambda>x. x) [5, 2, 8, 2, 9] = [2, 2, 5, 8, (9 :: int)]" by simp
  then show ?thesis using b append_take_drop_id[of 5 b] by simp
qed

end
