(* ===== verification/Vector.thy ===== *)
theory Vector
  imports Prelude "HOL-Library.Multiset"
begin

text \<open>
  The growing array of pointers of \<open>src/clang/lib/core/vector.c\<close>.  \<open>vec_arr\<close> is the memory behind the
  pointer \<open>arr\<close>, as the cells of a pointer's size that fit into the block, and \<^const>\<open>None\<close> when \<open>arr\<close>
  is \<open>NULL\<close>.  An access outside the block is \<^const>\<open>None\<close>.  \<open>cap\<close>, \<open>incr\<close> and \<open>len\<close> are not negative and an
  \<open>int\<close> does not overflow.
\<close>

subsection \<open>The code\<close>

record vec =
  vec_incr :: nat
  vec_cap :: nat
  vec_len :: nat
  vec_arr :: "addr list option"

definition vector_creat :: "nat \<Rightarrow> nat \<Rightarrow> allocs \<Rightarrow> vec option \<times> allocs" where
  "vector_creat cap incr al =
     (let (a, al) = alloc_take al in
      if \<not> a then (None, al)
      else let (a, al) = alloc_take al in
        if \<not> a then (None, al)
        else (Some \<lparr>vec_incr = incr, vec_cap = cap, vec_len = 0, vec_arr = Some (replicate cap NULL)\<rparr>, al))"

text \<open>What \<open>realloc\<close> does: it fails and keeps the block, resizes it in place, or moves it.\<close>

datatype realloc_out = ReFail | ReSame | ReMoved

text \<open>The cells of a block of \<open>n\<close> bytes that \<open>realloc\<close> makes of a block.\<close>

definition realloc_cells :: "addr list \<Rightarrow> nat \<Rightarrow> addr list" where
  "realloc_cells a n = take (n div 8) (a @ replicate (n div 8) NULL)"

definition vec_read :: "vec \<Rightarrow> nat \<Rightarrow> addr option" where
  "vec_read v idx = do { a \<leftarrow> vec_arr v; if idx < length a then Some (a ! idx) else None }"

definition vec_write :: "vec \<Rightarrow> nat \<Rightarrow> addr \<Rightarrow> vec option" where
  "vec_write v idx x =
     do { a \<leftarrow> vec_arr v; if idx < length a then Some (v\<lparr>vec_arr := Some (a[idx := x])\<rparr>) else None }"

definition vec_put :: "vec \<Rightarrow> addr \<Rightarrow> (int \<times> vec) option" where
  "vec_put v x = do { v \<leftarrow> vec_write v (vec_len v) x; Some (0, v\<lparr>vec_len := vec_len v + 1\<rparr>) }"

definition vector_append :: "vec \<Rightarrow> addr \<Rightarrow> realloc_out \<Rightarrow> (int \<times> vec) option" where
  "vector_append v x out =
     (if vec_len v = vec_cap v then do {
        a \<leftarrow> vec_arr v;
        let n = vec_cap v + vec_incr v;
        case out of
          ReSame \<Rightarrow> Some (- 1, v\<lparr>vec_arr := Some (realloc_cells a n)\<rparr>)
        | ReMoved \<Rightarrow> vec_put (v\<lparr>vec_arr := Some (realloc_cells a n), vec_cap := n\<rparr>) x
        | ReFail \<Rightarrow> vec_put (v\<lparr>vec_arr := None, vec_cap := n\<rparr>) x }
      else vec_put v x)"

definition vector_get :: "vec \<Rightarrow> int \<Rightarrow> addr option" where
  "vector_get v idx =
     (if int (vec_len v) \<le> idx then Some NULL
      else if idx < 0 then None
      else vec_read v (nat idx))"

text \<open>The loops that look for an element: the index of the first that satisfies the test.\<close>

function vec_scan :: "vec \<Rightarrow> (addr \<Rightarrow> bool) \<Rightarrow> nat \<Rightarrow> nat option option" where
  "vec_scan v tst idx =
     (if idx < vec_len v then do {
        x \<leftarrow> vec_read v idx;
        if tst x then Some (Some idx) else vec_scan v tst (idx + 1) }
      else Some None)"
  by pat_completeness auto
termination by (relation "measure (\<lambda>(v, _, idx). vec_len v - idx)") auto

declare vec_scan.simps [simp del]

definition vector_find :: "vec \<Rightarrow> (addr \<Rightarrow> bool) \<Rightarrow> addr option" where
  "vector_find v tst = do {
     i \<leftarrow> vec_scan v tst 0;
     case i of None \<Rightarrow> Some NULL | Some idx \<Rightarrow> vec_read v idx }"

definition vector_index :: "vec \<Rightarrow> addr \<Rightarrow> int option" where
  "vector_index v x = do {
     i \<leftarrow> vec_scan v (\<lambda>y. y = x) 0;
     case i of None \<Rightarrow> Some (- 1) | Some idx \<Rightarrow> Some (int idx) }"

text \<open>The element at \<open>idx\<close> makes room for the last one.\<close>

definition vec_take_out :: "vec \<Rightarrow> nat \<Rightarrow> (addr \<times> vec) option" where
  "vec_take_out v idx = do {
     x \<leftarrow> vec_read v idx;
     v \<leftarrow> (if idx \<noteq> vec_len v - 1 then do { l \<leftarrow> vec_read v (vec_len v - 1); vec_write v idx l } else Some v);
     v \<leftarrow> vec_write v (vec_len v - 1) NULL;
     Some (x, v\<lparr>vec_len := vec_len v - 1\<rparr>) }"

definition vector_find_and_del :: "vec \<Rightarrow> (addr \<Rightarrow> bool) \<Rightarrow> (addr \<times> vec) option" where
  "vector_find_and_del v tst = do {
     i \<leftarrow> vec_scan v tst 0;
     case i of None \<Rightarrow> Some (NULL, v) | Some idx \<Rightarrow> vec_take_out v idx }"

definition vector_del_by_idx :: "vec \<Rightarrow> int \<Rightarrow> (addr \<times> vec) option" where
  "vector_del_by_idx v idx =
     (if idx < 0 \<or> int (vec_len v) \<le> idx then Some (NULL, v) else vec_take_out v (nat idx))"

definition vector_delete :: "vec \<Rightarrow> addr \<Rightarrow> (int \<times> vec) option" where
  "vector_delete v x = do {
     idx \<leftarrow> vector_index v x;
     if - 1 = idx then Some (- 1, v)
     else do { (_, v) \<leftarrow> vector_del_by_idx v idx; Some (0, v) } }"

text \<open>The elements in the order they are released; the block and the vector are freed.\<close>

function vec_release :: "vec \<Rightarrow> nat \<Rightarrow> addr list \<Rightarrow> addr list option" where
  "vec_release v idx freed =
     (if idx < vec_len v then do { x \<leftarrow> vec_read v idx; vec_release v (idx + 1) (freed @ [x]) }
      else Some freed)"
  by pat_completeness auto
termination by (relation "measure (\<lambda>(v, idx, _). vec_len v - idx)") auto

declare vec_release.simps [simp del]

definition vector_destroy :: "vec \<Rightarrow> (int \<times> addr list) option" where
  "vector_destroy v = do { freed \<leftarrow> vec_release v 0 []; Some (0, freed) }"

subsection \<open>The elements\<close>

definition vec_ok :: "vec \<Rightarrow> bool" where
  "vec_ok v \<longleftrightarrow> (\<exists>a. vec_arr v = Some a \<and> length a = vec_cap v \<and> vec_len v \<le> vec_cap v)"

definition vec_items :: "vec \<Rightarrow> addr list" where
  "vec_items v = (case vec_arr v of None \<Rightarrow> [] | Some a \<Rightarrow> take (vec_len v) a)"

lemma vec_okE:
  assumes "vec_ok v"
  obtains a where "vec_arr v = Some a" "length a = vec_cap v" "vec_len v \<le> vec_cap v" "vec_items v = take (vec_len v) a"
  using assms by (auto simp: vec_ok_def vec_items_def)

lemma vec_items_length: "vec_ok v \<Longrightarrow> length (vec_items v) = vec_len v"
  by (auto elim: vec_okE)

lemma vec_read_ok: "vec_ok v \<Longrightarrow> i < vec_len v \<Longrightarrow> vec_read v i = Some (vec_items v ! i)"
  by (auto simp: vec_read_def elim!: vec_okE)

lemma vec_scan_ok:
  "vec_ok v \<Longrightarrow> vec_scan v tst idx =
     Some (if \<exists>i. idx \<le> i \<and> i < vec_len v \<and> tst (vec_items v ! i)
       then Some (LEAST i. idx \<le> i \<and> i < vec_len v \<and> tst (vec_items v ! i)) else None)"
proof (induction v tst idx rule: vec_scan.induct)
  case (1 v tst idx)
  show ?case
  proof (cases "idx < vec_len v \<and> \<not> tst (vec_items v ! idx)")
    case True
    then have e: "(idx \<le> i \<and> i < vec_len v \<and> tst (vec_items v ! i)) =
        (idx + 1 \<le> i \<and> i < vec_len v \<and> tst (vec_items v ! i))" for i
      by (cases "i = idx") auto
    show ?thesis using "1.IH"[of "vec_items v ! idx"] True "1.prems" vec_read_ok[OF "1.prems", of idx]
      unfolding e by (simp add: vec_scan.simps[of v tst idx])
  next
    case False
    then show ?thesis using vec_read_ok[OF "1.prems", of idx]
      by (auto simp: vec_scan.simps[of v tst idx] intro!: Least_equality[symmetric])
  qed
qed

text \<open>The first place that satisfies the test.\<close>

definition first_at :: "('a \<Rightarrow> bool) \<Rightarrow> 'a list \<Rightarrow> nat option \<Rightarrow> bool" where
  "first_at tst xs r = (case r of
      None \<Rightarrow> \<forall>x \<in> set xs. \<not> tst x
    | Some i \<Rightarrow> i < length xs \<and> tst (xs ! i) \<and> (\<forall>j < i. \<not> tst (xs ! j)))"

lemma scan_first:
  assumes "vec_ok v" obtains r where "vec_scan v tst 0 = Some r" "first_at tst (vec_items v) r"
proof (cases "\<exists>i. i < vec_len v \<and> tst (vec_items v ! i)")
  case True
  define i where "i = (LEAST i. i < vec_len v \<and> tst (vec_items v ! i))"
  have P: "i < vec_len v" "tst (vec_items v ! i)" using LeastI_ex[OF True] by (simp_all add: i_def)
  have "\<not> tst (vec_items v ! j)" if "j < i" for j
    using not_less_Least[of j "\<lambda>i. i < vec_len v \<and> tst (vec_items v ! i)"] that P(1) by (simp add: i_def)
  then have "first_at tst (vec_items v) (Some i)" using vec_items_length[OF assms] P by (simp add: first_at_def)
  moreover have "vec_scan v tst 0 = Some (Some i)" using vec_scan_ok[OF assms, of tst 0] True by (simp add: i_def)
  ultimately show thesis by (intro that)
next
  case False
  then have "first_at tst (vec_items v) None"
    using vec_items_length[OF assms] by (simp add: first_at_def all_set_conv_all_nth)
  moreover have "vec_scan v tst 0 = Some None" using vec_scan_ok[OF assms, of tst 0] False by simp
  ultimately show thesis by (intro that)
qed

lemma find_first: "first_at tst xs r \<Longrightarrow> find tst xs = map_option (\<lambda>i. xs ! i) r"
  by (cases r) (auto simp: first_at_def find_None_iff find_Some_iff)

definition swap_del :: "'a list \<Rightarrow> nat \<Rightarrow> 'a list" where
  "swap_del xs i = butlast (xs[i := last xs])"

lemma mset_swap_del: "i < length xs \<Longrightarrow> add_mset (xs ! i) (mset (swap_del xs i)) = mset xs"
proof (induction xs rule: rev_induct)
  case (snoc x xs)
  show ?case
  proof (cases "i < length xs")
    case True
    have "add_mset (xs ! i) (add_mset x (mset xs - {#xs ! i#})) = add_mset x (mset xs)"
      using nth_mem_mset[OF True] by (metis add_mset_commute insert_DiffM)
    then have "add_mset (xs ! i) (mset (xs[i := x])) = add_mset x (mset xs)"
      by (simp only: mset_update[OF True])
    then show ?thesis using True
      by (simp only: swap_del_def last_snoc list_update_append1 butlast_snoc nth_append if_True mset_append) simp
  next
    case False
    then show ?thesis using snoc.prems by (simp add: swap_del_def list_update_append nth_append not_less le_Suc_eq)
  qed
qed simp

lemma take_out_ok:
  assumes ok: "vec_ok v" and i: "i < vec_len v"
  shows "\<exists>v'. vec_take_out v i = Some (vec_items v ! i, v') \<and> vec_ok v' \<and> vec_cap v' = vec_cap v \<and>
    vec_items v' = swap_del (vec_items v) i"
proof -
  obtain a where a: "vec_arr v = Some a" "length a = vec_cap v" "vec_len v \<le> vec_cap v"
    "vec_items v = take (vec_len v) a" using ok by (rule vec_okE)
  let ?n = "vec_len v - 1" let ?b = "a[i := a ! ?n, ?n := NULL]"
  have n: "?n < length a" "i < length a" "?n < vec_len v" "i \<le> ?n" using i a by auto
  have l: "last (take (vec_len v) a) = a ! ?n" using n a(3) by (subst last_conv_nth) auto
  have run: "vec_take_out v i = Some (a ! i, v\<lparr>vec_arr := Some ?b, vec_len := ?n\<rparr>)"
  proof (cases "i = ?n")
    case True
    then have "a[i := a ! ?n, ?n := NULL] = a[?n := NULL]" by simp
    then show ?thesis using n a(1) True i by (simp add: vec_take_out_def vec_read_def vec_write_def)
  next
    case False
    then show ?thesis using n a(1) i by (simp add: vec_take_out_def vec_read_def vec_write_def)
  qed
  have "take ?n ?b = butlast ((take (vec_len v) a)[i := last (take (vec_len v) a)])"
    unfolding l using n a(2,3) i by (simp add: butlast_take take_update_swap[symmetric] butlast_conv_take min_def)
  then show ?thesis unfolding run using a n i
    by (intro exI[of _ "v\<lparr>vec_arr := Some ?b, vec_len := ?n\<rparr>"])
      (auto simp: vec_ok_def vec_items_def swap_del_def)
qed

lemma append_room:
  assumes "vec_ok v" and "vec_len v < vec_cap v"
  shows "\<exists>v'. vector_append v x out = Some (0, v') \<and> vec_ok v' \<and> vec_cap v' = vec_cap v \<and> vec_incr v' = vec_incr v \<and>
    vec_items v' = vec_items v @ [x]"
proof -
  obtain a where a: "vec_arr v = Some a" "length a = vec_cap v" "vec_items v = take (vec_len v) a"
    using assms(1) by (rule vec_okE)
  let ?v = "v\<lparr>vec_arr := Some (a[vec_len v := x]), vec_len := vec_len v + 1\<rparr>"
  have "vector_append v x out = Some (0, ?v)"
    using a assms(2) by (simp add: vector_append_def vec_put_def vec_write_def)
  then show ?thesis using a assms(2)
    by (intro exI[of _ ?v]) (auto simp: vec_ok_def vec_items_def take_Suc_conv_app_nth)
qed


lemma release_ok:
  "vec_ok v \<Longrightarrow> idx \<le> vec_len v \<Longrightarrow> vec_release v idx freed = Some (freed @ drop idx (vec_items v))"
proof (induction v idx freed rule: vec_release.induct)
  case (1 v idx freed)
  show ?case
  proof (cases "idx < vec_len v")
    case True
    then have "drop idx (vec_items v) = vec_items v ! idx # drop (idx + 1) (vec_items v)"
      using vec_items_length[OF "1.prems"(1)] by (simp add: Cons_nth_drop_Suc)
    then show ?thesis using "1.IH"[OF True] "1.prems" True vec_read_ok[OF "1.prems"(1) True]
      by (simp add: vec_release.simps[of v])
  next
    case False
    then show ?thesis using "1.prems" vec_items_length[OF "1.prems"(1)] by (simp add: vec_release.simps[of v])
  qed
qed

subsection \<open>What a vector promises\<close>

text \<open>C27: a vector that is not full behaves as a list of pointers: \<open>vector_append\<close> adds at the end,
  \<open>vector_get\<close> reads, \<open>vector_find\<close> and \<open>vector_index\<close> give the first hit or \<open>NULL\<close> and \<open>-1\<close>,
  the deletions take out exactly the first hit, which the last element replaces, and \<open>vector_destroy\<close>
  releases every element once.\<close>

theorem vector_correct:
  assumes ok: "vec_ok v"
  shows "(vec_len v < vec_cap v \<longrightarrow> (\<exists>v'. vector_append v x out = Some (0, v') \<and> vec_ok v' \<and>
       vec_cap v' = vec_cap v \<and> vec_items v' = vec_items v @ [x])) \<and>
    (0 \<le> i \<longrightarrow> vector_get v i = Some (if nat i < length (vec_items v) then vec_items v ! nat i else NULL)) \<and>
    vector_find v tst = Some (case find tst (vec_items v) of None \<Rightarrow> NULL | Some y \<Rightarrow> y) \<and>
    (\<exists>r. first_at tst (vec_items v) r \<and> (case r of
       None \<Rightarrow> vector_find_and_del v tst = Some (NULL, v)
     | Some k \<Rightarrow> \<exists>v'. vector_find_and_del v tst = Some (vec_items v ! k, v') \<and> vec_ok v' \<and>
         vec_cap v' = vec_cap v \<and> vec_items v' = swap_del (vec_items v) k \<and>
         add_mset (vec_items v ! k) (mset (vec_items v')) = mset (vec_items v))) \<and>
    (\<exists>r. first_at (\<lambda>y. y = x) (vec_items v) r \<and> (case r of
       None \<Rightarrow> vector_index v x = Some (- 1) \<and> vector_delete v x = Some (- 1, v)
     | Some k \<Rightarrow> vector_index v x = Some (int k) \<and> (\<exists>v'. vector_delete v x = Some (0, v') \<and> vec_ok v' \<and>
         add_mset x (mset (vec_items v')) = mset (vec_items v)))) \<and>
    vector_destroy v = Some (0, vec_items v)"
proof (intro conjI impI)
  note len = vec_items_length[OF ok]
  show "\<exists>v'. vector_append v x out = Some (0, v') \<and> vec_ok v' \<and> vec_cap v' = vec_cap v \<and>
      vec_items v' = vec_items v @ [x]" if "vec_len v < vec_cap v"
    using append_room[OF ok that, of x out] by blast
  show "vector_get v i = Some (if nat i < length (vec_items v) then vec_items v ! nat i else NULL)" if "0 \<le> i"
    using that vec_read_ok[OF ok, of "nat i"] len by (auto simp: vector_get_def)
  obtain r where r: "vec_scan v tst 0 = Some r" "first_at tst (vec_items v) r" by (rule scan_first[OF ok])
  show "vector_find v tst = Some (case find tst (vec_items v) of None \<Rightarrow> NULL | Some y \<Rightarrow> y)"
    using r find_first[OF r(2)] vec_read_ok[OF ok] len
    by (cases r) (simp_all add: vector_find_def first_at_def)
  show "\<exists>r. first_at tst (vec_items v) r \<and> (case r of
       None \<Rightarrow> vector_find_and_del v tst = Some (NULL, v)
     | Some k \<Rightarrow> \<exists>v'. vector_find_and_del v tst = Some (vec_items v ! k, v') \<and> vec_ok v' \<and>
         vec_cap v' = vec_cap v \<and> vec_items v' = swap_del (vec_items v) k \<and>
         add_mset (vec_items v ! k) (mset (vec_items v')) = mset (vec_items v))"
  proof (cases r)
    case (Some k)
    then have "k < vec_len v" "k < length (vec_items v)" using r(2) len by (simp_all add: first_at_def)
    then show ?thesis using r Some take_out_ok[OF ok, of k] mset_swap_del[of k "vec_items v"]
      by (intro exI[of _ r]) (auto simp: vector_find_and_del_def)
  qed (use r in \<open>intro exI[of _ r], simp add: vector_find_and_del_def\<close>)
  obtain q where q: "vec_scan v (\<lambda>y. y = x) 0 = Some q" "first_at (\<lambda>y. y = x) (vec_items v) q" by (rule scan_first[OF ok])
  show "\<exists>r. first_at (\<lambda>y. y = x) (vec_items v) r \<and> (case r of
       None \<Rightarrow> vector_index v x = Some (- 1) \<and> vector_delete v x = Some (- 1, v)
     | Some k \<Rightarrow> vector_index v x = Some (int k) \<and> (\<exists>v'. vector_delete v x = Some (0, v') \<and> vec_ok v' \<and>
         add_mset x (mset (vec_items v')) = mset (vec_items v)))"
  proof (cases q)
    case (Some k)
    then have k: "k < vec_len v" "k < length (vec_items v)" "vec_items v ! k = x" using q(2) len by (simp_all add: first_at_def)
    then show ?thesis using q Some take_out_ok[OF ok k(1)] mset_swap_del[OF k(2)]
      by (intro exI[of _ q]) (auto simp: vector_delete_def vector_index_def vector_del_by_idx_def)
  qed (use q in \<open>intro exI[of _ q], simp add: vector_delete_def vector_index_def\<close>)
  show "vector_destroy v = Some (0, vec_items v)" using release_ok[OF ok, of 0 "[]"] by (simp add: vector_destroy_def)
qed

theorem vector_correct_witness:
  "\<exists>v v' w. vector_creat 2 1 [] = (Some v, []) \<and> vector_append v (Loc 7) ReFail = Some (0, v') \<and>
     vec_items v' = [Loc 7] \<and> vector_delete v (Loc 9) = Some (- 1, w)"
proof -
  obtain v where v: "vector_creat 2 1 [] = (Some v, [])" and "vec_ok v" "vec_items v = []" "vec_len v < vec_cap v"
    by (simp add: vector_creat_def Let_def vec_ok_def vec_items_def)
  from vector_correct[OF this(2), of "Loc 7" ReFail 0 "\<lambda>_. True"] vector_correct[OF this(2), of "Loc 9" ReFail 0 "\<lambda>_. True"] this
  show ?thesis by (auto simp: first_at_def split: option.splits)
qed




end
