(* ===== verification/Rtmq_Mesg.thy ===== *)
theory Rtmq_Mesg
  imports Prelude
begin

unbundle bit_operations_syntax

text \<open>
  The messages of the message queue (\<open>src/clang/incl/rtmq/rtmq_mesg.h\<close>) and of the application
  (\<open>src/clang/incl/mesg.h\<close>): headers, byte order and the place of a header in memory.  The host is
  little-endian.
\<close>

type_synonym u8 = "8 word"

subsection \<open>Byte order\<close>

text \<open>\<open>ntohl\<close> of the C library on a little-endian host; \<open>htonl\<close> is the same function.\<close>

definition ntohl :: "u32 \<Rightarrow> u32" where
  "ntohl v = push_bit 24 (v AND 0xFF) OR push_bit 8 (v AND 0xFF00) OR
     drop_bit 8 (v AND 0xFF0000) OR drop_bit 24 (v AND 0xFF000000)"

definition ntoh64 :: "u64 \<Rightarrow> u64" where
  "ntoh64 v = push_bit 56 (v AND 0xFF) OR push_bit 40 (v AND 0xFF00) OR
     push_bit 24 (v AND 0xFF0000) OR push_bit 8 (v AND 0xFF000000) OR
     drop_bit 8 (v AND 0xFF00000000) OR drop_bit 24 (v AND 0xFF0000000000) OR
     drop_bit 40 (v AND 0xFF000000000000) OR drop_bit 56 (v AND 0xFF00000000000000)"

abbreviation htonl :: "u32 \<Rightarrow> u32" where "htonl \<equiv> ntohl"
abbreviation hton64 :: "u64 \<Rightarrow> u64" where "hton64 \<equiv> ntoh64"

text \<open>The bytes of a word in memory, and the word that bytes in memory make.\<close>

definition le_bytes :: "u32 \<Rightarrow> u8 list" where
  "le_bytes v = [ucast v, ucast (drop_bit 8 v), ucast (drop_bit 16 v), ucast (drop_bit 24 v)]"

fun le_word :: "u8 list \<Rightarrow> u32" where
  "le_word [a, b, c, d] = ucast a OR push_bit 8 (ucast b) OR push_bit 16 (ucast c) OR push_bit 24 (ucast d)"
| "le_word _ = 0"

text \<open>The place of a bit: a byte and a bit in it.\<close>

lemma byte_place4:
  assumes "n < 32" obtains m where "m < 8" "n = m \<or> n = 8 + m \<or> n = 16 + m \<or> n = 24 + (m :: nat)"
proof (rule that)
  have "b < 4 \<Longrightarrow> b = 0 \<or> b = 1 \<or> b = 2 \<or> b = 3" for b :: nat by linarith
  from this[of "n div 8"] have "n div 8 = 0 \<or> n div 8 = 1 \<or> n div 8 = 2 \<or> n div 8 = 3" using assms by simp
  then show "n = n mod 8 \<or> n = 8 + n mod 8 \<or> n = 16 + n mod 8 \<or> n = 24 + n mod 8"
    using div_mult_mod_eq[of n 8] by (elim disjE) simp_all
qed simp

lemma byte_place8:
  assumes "n < 64"
  obtains m where "m < 8" "n = m \<or> n = 8 + m \<or> n = 16 + m \<or> n = 24 + (m :: nat) \<or>
    n = 32 + m \<or> n = 40 + m \<or> n = 48 + m \<or> n = 56 + m"
proof (cases "n < 32")
  case True
  then show ?thesis using byte_place4[of n] that by metis
next
  case False
  then have "n - 32 < 32" "n = 32 + (n - 32)" using assms by simp_all
  then obtain m where "m < 8" "n - 32 = m \<or> n - 32 = 8 + m \<or> n - 32 = 16 + m \<or> n - 32 = 24 + m"
    using byte_place4[of "n - 32"] by metis
  then show ?thesis using that[of m] \<open>n = 32 + (n - 32)\<close> by linarith
qed

lemma byte_masks:
  "(0xFF :: 'a::len word) = mask 8" "(0xFF00 :: 'a word) = push_bit 8 (mask 8)"
  "(0xFF0000 :: 'a word) = push_bit 16 (mask 8)" "(0xFF000000 :: 'a word) = push_bit 24 (mask 8)"
  "(0xFF00000000 :: 'a word) = push_bit 32 (mask 8)" "(0xFF0000000000 :: 'a word) = push_bit 40 (mask 8)"
  "(0xFF000000000000 :: 'a word) = push_bit 48 (mask 8)" "(0xFF00000000000000 :: 'a word) = push_bit 56 (mask 8)"
  by (simp_all add: mask_numeral push_bit_of_Suc_0 push_bit_eq_mult)

lemma le_word_bytes [simp]: "le_word (le_bytes v) = v"
proof (rule bit_word_eqI)
  fix n assume "n < LENGTH(32)"
  then obtain m where "m < 8" "n = m \<or> n = 8 + m \<or> n = 16 + m \<or> n = 24 + m" using byte_place4[of n] by auto
  then show "bit (le_word (le_bytes v)) n = bit v n"
    by (elim disjE) (simp_all add: le_bytes_def bit_simps)
qed

lemma ntohl_bytes: "ntohl v = le_word (rev (le_bytes v))"
proof (rule bit_word_eqI)
  fix n assume "n < LENGTH(32)"
  then obtain m where "m < 8" "n = m \<or> n = 8 + m \<or> n = 16 + m \<or> n = 24 + m" using byte_place4[of n] by auto
  then show "bit (ntohl v) n = bit (le_word (rev (le_bytes v))) n"
    by (elim disjE) (simp_all add: ntohl_def byte_masks le_bytes_def bit_simps)
qed

lemma le_bytes_word4: "le_bytes (le_word [a, b, c, d]) = [a, b, c, d]"
  by (simp add: le_bytes_def) (intro conjI bit_word_eqI; auto simp: bit_simps dest: bit_imp_le_length)

lemma length_le_bytes [simp]: "length (le_bytes v) = 4"
  by (simp add: le_bytes_def)

lemma le_bytes_word: assumes "length bs = 4" shows "le_bytes (le_word bs) = bs"
proof -
  obtain a b c d where "bs = [a, b, c, d]" using assms by (auto simp: eval_nat_numeral length_Suc_conv)
  then show ?thesis by (simp only: le_bytes_word4)
qed

lemma ntohl_ntohl [simp]: "ntohl (ntohl v) = v"
  by (simp add: ntohl_bytes le_bytes_word)

lemma bit_ntoh64:
  assumes "m < 8"
  shows "bit (ntoh64 v) m = bit v (56 + m)" "bit (ntoh64 v) (8 + m) = bit v (48 + m)"
    "bit (ntoh64 v) (16 + m) = bit v (40 + m)" "bit (ntoh64 v) (24 + m) = bit v (32 + m)"
    "bit (ntoh64 v) (32 + m) = bit v (24 + m)" "bit (ntoh64 v) (40 + m) = bit v (16 + m)"
    "bit (ntoh64 v) (48 + m) = bit v (8 + m)" "bit (ntoh64 v) (56 + m) = bit v m"
  using assms by (simp_all add: ntoh64_def byte_masks bit_simps)

lemma ntoh64_ntoh64 [simp]: "ntoh64 (ntoh64 v) = v"
proof (rule bit_word_eqI)
  fix n assume "n < LENGTH(64)"
  then have "n < 64" by simp
  then obtain m where "m < 8" and n: "n = m \<or> n = 8 + m \<or> n = 16 + m \<or> n = 24 + m \<or>
      n = 32 + m \<or> n = 40 + m \<or> n = 48 + m \<or> n = 56 + m" by (rule byte_place8)
  from n show "bit (ntoh64 (ntoh64 v)) n = bit v n"
    by (elim disjE) (simp_all only: bit_ntoh64[OF \<open>m < 8\<close>])
qed

text \<open>In memory a converted word has its bytes in the opposite order: most significant first on the wire.\<close>

lemma le_bytes_ntohl: "le_bytes (ntohl v) = rev (le_bytes v)"
  by (simp add: ntohl_bytes le_bytes_word)

subsection \<open>Headers of the message queue\<close>

definition RTMQ_SYS_MESG :: u32 where "RTMQ_SYS_MESG = 0"
definition RTMQ_EXP_MESG :: u32 where "RTMQ_EXP_MESG = 1"
definition RTMQ_CHKSUM_VAL :: u32 where "RTMQ_CHKSUM_VAL = 0x1FE23DC4"

definition RTMQ_CMD_AUTH_REQ :: u32 where "RTMQ_CMD_AUTH_REQ = 1"
definition RTMQ_CMD_AUTH_ACK :: u32 where "RTMQ_CMD_AUTH_ACK = 2"
definition RTMQ_CMD_KPALIVE_REQ :: u32 where "RTMQ_CMD_KPALIVE_REQ = 3"
definition RTMQ_CMD_KPALIVE_ACK :: u32 where "RTMQ_CMD_KPALIVE_ACK = 4"
definition RTMQ_CMD_SUB_REQ :: u32 where "RTMQ_CMD_SUB_REQ = 5"

text \<open>\<open>rtmq_header_t\<close>, packed: five words, twenty bytes.\<close>

record rtmq_header =
  hd_type :: u32
  hd_nid :: u32
  hd_flag :: u32
  hd_length :: u32
  hd_chksum :: u32

definition RTMQ_HEAD_NTOH :: "rtmq_header \<Rightarrow> rtmq_header" where
  "RTMQ_HEAD_NTOH s = \<lparr>hd_type = ntohl (hd_type s), hd_nid = ntohl (hd_nid s), hd_flag = ntohl (hd_flag s),
     hd_length = ntohl (hd_length s), hd_chksum = ntohl (hd_chksum s)\<rparr>"

definition RTMQ_HEAD_HTON :: "rtmq_header \<Rightarrow> rtmq_header" where
  "RTMQ_HEAD_HTON s = \<lparr>hd_type = htonl (hd_type s), hd_nid = htonl (hd_nid s), hd_flag = htonl (hd_flag s),
     hd_length = htonl (hd_length s), hd_chksum = htonl (hd_chksum s)\<rparr>"

definition RTMQ_HEAD_ISVALID :: "rtmq_header \<Rightarrow> bool" where
  "RTMQ_HEAD_ISVALID head \<longleftrightarrow> RTMQ_CHKSUM_VAL = hd_chksum head"

lemma rtmq_head_conv [simp]:
  "RTMQ_HEAD_NTOH (RTMQ_HEAD_HTON h) = h" "RTMQ_HEAD_HTON (RTMQ_HEAD_NTOH h) = h"
  by (simp_all add: RTMQ_HEAD_NTOH_def RTMQ_HEAD_HTON_def)

text \<open>A header at a place in memory, read and written.\<close>

definition rtmq_head_bytes :: "rtmq_header \<Rightarrow> u8 list" where
  "rtmq_head_bytes h = le_bytes (hd_type h) @ le_bytes (hd_nid h) @ le_bytes (hd_flag h) @
     le_bytes (hd_length h) @ le_bytes (hd_chksum h)"

definition word_at :: "u8 list \<Rightarrow> nat \<Rightarrow> u32" where
  "word_at mem off = le_word (take 4 (drop off mem))"

definition rtmq_head_load :: "u8 list \<Rightarrow> nat \<Rightarrow> rtmq_header option" where
  "rtmq_head_load mem off =
     (if off + 20 \<le> length mem
      then Some \<lparr>hd_type = word_at mem off, hd_nid = word_at mem (off + 4), hd_flag = word_at mem (off + 8),
             hd_length = word_at mem (off + 12), hd_chksum = word_at mem (off + 16)\<rparr>
      else None)"

definition rtmq_head_store :: "u8 list \<Rightarrow> nat \<Rightarrow> rtmq_header \<Rightarrow> u8 list option" where
  "rtmq_head_store mem off h =
     (if off + 20 \<le> length mem then Some (take off mem @ rtmq_head_bytes h @ drop (off + 20) mem) else None)"

lemma length_head_bytes [simp]: "length (rtmq_head_bytes h) = 20"
  by (simp add: rtmq_head_bytes_def)

lemma word_at_append [simp]: "word_at (le_bytes v @ r) 0 = v"
  by (simp add: word_at_def)

lemma head_load_bytes: "rtmq_head_load (a @ rtmq_head_bytes h @ b) (length a) = Some h"
proof -
  have d: "drop (length a + k) (a @ xs) = drop k xs" for k and xs :: "u8 list" by simp
  show ?thesis
    by (simp add: rtmq_head_load_def word_at_def d) (simp add: rtmq_head_bytes_def)
qed

lemma head_load_take:
  assumes "off + 20 \<le> n" and "take n mem = take n mem'" and "n \<le> length mem" "n \<le> length mem'"
  shows "rtmq_head_load mem off = rtmq_head_load mem' off"
proof -
  have "take 4 (drop k mem) = take 4 (drop k mem')" if "k + 4 \<le> n" for k
  proof -
    have "take 4 (drop k mem) = take 4 (drop k (take n mem))" using that by (simp add: drop_take)
    also have "\<dots> = take 4 (drop k mem')" unfolding assms(2) using that by (simp add: drop_take)
    finally show ?thesis .
  qed
  then show ?thesis using assms by (simp add: rtmq_head_load_def word_at_def)
qed

lemma head_store_bytes: "length a = off \<Longrightarrow> length x = 20 \<Longrightarrow>
   rtmq_head_store (a @ x @ b) off h = Some (a @ rtmq_head_bytes h @ b)"
  by (simp add: rtmq_head_store_def)

text \<open>The bytes of a message on the wire: the header in network order and the payload.\<close>

definition rtmq_wire :: "rtmq_header \<times> u8 list \<Rightarrow> u8 list" where
  "rtmq_wire m = rtmq_head_bytes (RTMQ_HEAD_HTON (fst m)) @ snd m"

subsection \<open>Headers of the application\<close>

text \<open>\<open>mesg_header_t\<close>\<close>

record mesg_header =
  mh_type :: u32
  mh_length :: u32
  mh_sid :: u64
  mh_cid :: u64
  mh_nid :: u32
  mh_seq :: u64
  mh_dsid :: u64
  mh_dseq :: u64

definition MESG_HEAD_HTON :: "mesg_header \<Rightarrow> mesg_header" where
  "MESG_HEAD_HTON h = \<lparr>mh_type = htonl (mh_type h), mh_length = htonl (mh_length h), mh_sid = hton64 (mh_sid h),
     mh_cid = hton64 (mh_cid h), mh_nid = htonl (mh_nid h), mh_seq = hton64 (mh_seq h),
     mh_dsid = hton64 (mh_dsid h), mh_dseq = hton64 (mh_dseq h)\<rparr>"

definition MESG_HEAD_NTOH :: "mesg_header \<Rightarrow> mesg_header" where
  "MESG_HEAD_NTOH n = \<lparr>mh_type = ntohl (mh_type n), mh_length = ntohl (mh_length n), mh_sid = ntoh64 (mh_sid n),
     mh_cid = ntoh64 (mh_cid n), mh_nid = ntohl (mh_nid n), mh_seq = ntoh64 (mh_seq n),
     mh_dsid = ntoh64 (mh_dsid n), mh_dseq = ntoh64 (mh_dseq n)\<rparr>"

lemma mesg_head_conv [simp]:
  "MESG_HEAD_NTOH (MESG_HEAD_HTON h) = h" "MESG_HEAD_HTON (MESG_HEAD_NTOH h) = h"
  by (simp_all add: MESG_HEAD_NTOH_def MESG_HEAD_HTON_def)

end
