(* ===== verification/Rtmq.thy ===== *)
theory Rtmq
  imports Mref Ring_Queue Rtmq_Mesg
begin

text \<open>
  The receiving side of the message queue server (\<open>src/clang/lib/rtmq/server/rtmq_rsvr.c\<close>): the receive
  buffer of a connection, the framing of messages in it, the handlers of the messages, and the
  worker (\<open>rtmq_worker.c\<close>) that runs the registered callbacks.  \<open>cx_mem\<close> is the memory of the blocks
  that are allocated through \<open>mref\<close>; a block that is released is gone, and reading it is \<^const>\<open>None\<close>.
\<close>

subsection \<open>State\<close>

definition RTMQ_OK :: int where "RTMQ_OK = 0"
definition RTMQ_SCK_DISCONN :: int where "RTMQ_SCK_DISCONN = 4"
definition RTMQ_ERR :: int where "RTMQ_ERR = - (2 ^ 31)"
definition RTMQ_BUFF_SIZE :: nat where "RTMQ_BUFF_SIZE = 5 * 1024 * 1024"
definition RTMQ_WORKER_HDL_QNUM :: nat where "RTMQ_WORKER_HDL_QNUM = 2"
definition RTRD_NODE_TO_SVR_MAX_LEN :: nat where "RTRD_NODE_TO_SVR_MAX_LEN = 32"

text \<open>\<open>rtmq_snap_t\<close>: \<open>end\<close>, \<open>optr\<close> and \<open>iptr\<close> are offsets from \<open>base\<close>.\<close>

record rtmq_snap =
  sn_base :: u64
  sn_end :: nat
  sn_optr :: nat
  sn_iptr :: nat

definition rtmq_snap_setup :: "u64 \<Rightarrow> nat \<Rightarrow> rtmq_snap" where
  "rtmq_snap_setup addr sz = \<lparr>sn_base = addr, sn_end = sz, sn_optr = 0, sn_iptr = 0\<rparr>"

text \<open>\<open>rtmq_sck_t\<close>; \<open>sk_mesg_list\<close> holds the addresses of the messages to send.\<close>

record rtmq_sck =
  sk_nid :: u32
  sk_gid :: u32
  sk_auth_succ :: bool
  sk_recv :: rtmq_snap
  sk_mesg_list :: "u64 list"

record rtmq_rsvr =
  rv_id :: nat
  rv_recv_total :: u64
  rv_err_total :: u64
  rv_drop_total :: u64

text \<open>
  \<open>rtmq_cntx_t\<close>: the configured node, the receive queues and the items in their pools (\<open>rtmq_recv_item_t\<close>: a
  block and an offset), the map from nodes to receiving threads, the accounts, the registered callbacks
  (each known by a number); the commands written to the pipes
  of the workers as (worker, queue); and the environment: the coming results of \<open>rand()\<close>, the address
  \<open>calloc\<close> returns (\<open>0\<close> for \<open>NULL\<close>), which may depend on what is allocated, and the outcomes of other
  allocations.
\<close>

record rtmq_cntx =
  cx_nid :: u32
  cx_recvq :: "queue list"
  cx_items :: "addr \<rightharpoonup> u64 \<times> nat"
  cx_svr_map :: "int \<rightharpoonup> int list"
  cx_auth :: "u8 list \<rightharpoonup> u8 list"
  cx_reg :: "int \<rightharpoonup> nat"
  cx_cmds :: "(nat \<times> nat) list"
  cx_mem :: "u64 \<rightharpoonup> u8 list"
  cx_mref :: mref_cntx
  cx_rand :: "nat list"
  cx_calloc :: "mref_cntx \<Rightarrow> u64"
  cx_allocs :: allocs

subsection \<open>Blocks\<close>

text \<open>\<open>mref_alloc\<close> with \<open>mem_alloc\<close> (\<open>calloc(1, size)\<close>) and \<open>mem_dealloc\<close> (\<open>free\<close>).\<close>

definition rtmq_block_alloc :: "rtmq_cntx \<Rightarrow> nat \<Rightarrow> (u64 \<times> rtmq_cntx) option" where
  "rtmq_block_alloc ctx sz = do {
     (addr, mf) \<leftarrow> mref_alloc (cx_mref ctx) sz 0 (cx_calloc ctx (cx_mref ctx)) 0;
     Some (addr, if addr = 0 then ctx\<lparr>cx_mref := mf\<rparr>
       else ctx\<lparr>cx_mref := mf, cx_mem := (cx_mem ctx)(addr \<mapsto> replicate sz 0)\<rparr>) }"

definition rtmq_block_dec :: "rtmq_cntx \<Rightarrow> u64 \<Rightarrow> rtmq_cntx option" where
  "rtmq_block_dec ctx addr = do {
     (_, mf) \<leftarrow> mref_dec (cx_mref ctx) addr;
     let gone = map (snd \<circ> snd) (drop (length (mf_freed (cx_mref ctx))) (mf_freed mf));
     Some (ctx\<lparr>cx_mref := mf, cx_mem := cx_mem ctx |` (- set gone)\<rparr>) }"

definition mem_write :: "u8 list \<Rightarrow> nat \<Rightarrow> u8 list \<Rightarrow> u8 list option" where
  "mem_write mem off bs =
     (if off + length bs \<le> length mem then Some (take off mem @ bs @ drop (off + length bs) mem) else None)"

definition mem_read :: "u8 list \<Rightarrow> nat \<Rightarrow> nat \<Rightarrow> u8 list option" where
  "mem_read mem off n = (if off + n \<le> length mem then Some (take n (drop off mem)) else None)"

subsection \<open>The receive buffer\<close>

definition rtmq_rsvr_alloc_recv_buff :: "rtmq_cntx \<Rightarrow> rtmq_sck \<Rightarrow> (int \<times> rtmq_cntx \<times> rtmq_sck) option" where
  "rtmq_rsvr_alloc_recv_buff ctx sck = do {
     (addr, ctx) \<leftarrow> rtmq_block_alloc ctx RTMQ_BUFF_SIZE;
     if addr = 0 then Some (RTMQ_ERR, ctx, sck)
     else Some (RTMQ_OK, ctx, sck\<lparr>sk_recv := rtmq_snap_setup addr RTMQ_BUFF_SIZE\<rparr>) }"

definition rtmq_rsvr_switch_recv_buff :: "rtmq_cntx \<Rightarrow> rtmq_sck \<Rightarrow> (int \<times> rtmq_cntx \<times> rtmq_sck) option" where
  "rtmq_rsvr_switch_recv_buff ctx sck = do {
     let old = sk_recv sck;
     let len = sn_iptr old - sn_optr old;
     (ret, ctx, sck) \<leftarrow> rtmq_rsvr_alloc_recv_buff ctx sck;
     if ret \<noteq> RTMQ_OK then Some (RTMQ_ERR, ctx, sck)
     else do {
       let curr = sk_recv sck;
       src \<leftarrow> cx_mem ctx (sn_base old);
       bs \<leftarrow> mem_read src (sn_optr old) len;
       dst \<leftarrow> cx_mem ctx (sn_base curr);
       dst \<leftarrow> mem_write dst (sn_optr curr) bs;
       let ctx = ctx\<lparr>cx_mem := (cx_mem ctx)(sn_base curr \<mapsto> dst)\<rparr>;
       ctx \<leftarrow> rtmq_block_dec ctx (sn_base old);
       Some (RTMQ_OK, ctx, sck\<lparr>sk_recv := curr\<lparr>sn_iptr := sn_iptr curr + len\<rparr>\<rparr>) } }"

text \<open>
  The framing loop \<open>rtmq_rsvr_data_proc\<close>; \<open>hdl\<close> is what is done with a complete message at \<open>optr\<close>.  When no
  message is complete, the rest of a full buffer moves to a new one.  A wrong checksum fails an \<open>assert\<close>.
\<close>

type_synonym rtmq_hdl =
  "rtmq_cntx \<Rightarrow> rtmq_rsvr \<Rightarrow> rtmq_sck \<Rightarrow> (int \<times> rtmq_cntx \<times> rtmq_rsvr \<times> rtmq_sck) option"

definition rtmq_data_rest :: rtmq_hdl where
  "rtmq_data_rest ctx rsvr sck =
     (let curr = sk_recv sck in
      if sn_iptr curr = sn_end curr then
        if sn_optr curr < sn_end curr - sn_iptr curr then Some (RTMQ_ERR, ctx, rsvr, sck)
        else do {
          (ret, ctx, sck) \<leftarrow> rtmq_rsvr_switch_recv_buff ctx sck;
          Some (ret, ctx, rsvr, sck) }
      else Some (RTMQ_OK, ctx, rsvr, sck))"

partial_function (option) rtmq_data_loop :: "rtmq_hdl \<Rightarrow> rtmq_hdl" where
  "rtmq_data_loop hdl ctx rsvr sck = do {
     let curr = sk_recv sck;
     let len = (of_nat (sn_iptr curr - sn_optr curr) :: u32);
     if len < 20 then rtmq_data_rest ctx rsvr sck
     else do {
       mem \<leftarrow> cx_mem ctx (sn_base curr);
       head \<leftarrow> rtmq_head_load mem (sn_optr curr);
       if RTMQ_CHKSUM_VAL \<noteq> ntohl (hd_chksum head) then None
       else let one_mesg_len = 20 + ntohl (hd_length head) in
         if len < one_mesg_len then rtmq_data_rest ctx rsvr sck
         else do {
           let head = RTMQ_HEAD_NTOH head;
           mem \<leftarrow> rtmq_head_store mem (sn_optr curr) head;
           let ctx = ctx\<lparr>cx_mem := (cx_mem ctx)(sn_base curr \<mapsto> mem)\<rparr>;
           if \<not> RTMQ_HEAD_ISVALID head
           then Some (RTMQ_ERR, ctx, rsvr\<lparr>rv_err_total := rv_err_total rsvr + 1\<rparr>, sck)
           else do {
             (ret, ctx, rsvr, sck) \<leftarrow> hdl ctx rsvr sck;
             if ret \<noteq> 0 then Some (RTMQ_ERR, ctx, rsvr, sck)
             else rtmq_data_loop hdl ctx rsvr
               (sck\<lparr>sk_recv := (sk_recv sck)\<lparr>sn_optr := sn_optr (sk_recv sck) + unat one_mesg_len\<rparr>\<rparr>) } } } }"

text \<open>What \<open>read\<close> finds: bytes that have arrived, the end of the stream, nothing yet, an interrupt, an error.\<close>

datatype rtmq_read = RdData "u8 list" | RdEof | RdAgain | RdIntr | RdError

partial_function (option) rtmq_recv_loop ::
    "rtmq_hdl \<Rightarrow> rtmq_read list \<Rightarrow> rtmq_hdl" where
  "rtmq_recv_loop hdl rds ctx rsvr sck =
     (case rds of
        [] \<Rightarrow> Some (RTMQ_OK, ctx, rsvr, sck)
      | RdAgain # _ \<Rightarrow> Some (RTMQ_OK, ctx, rsvr, sck)
      | RdEof # _ \<Rightarrow> Some (RTMQ_SCK_DISCONN, ctx, rsvr, sck)
      | RdIntr # rds \<Rightarrow> rtmq_recv_loop hdl rds ctx rsvr sck
      | RdError # _ \<Rightarrow> Some (RTMQ_ERR, ctx, rsvr, sck)
      | RdData bs # rds \<Rightarrow>
          (let recv = sk_recv sck; left = sn_end recv - sn_iptr recv; n = min left (length bs) in
           if n = 0 then Some (RTMQ_SCK_DISCONN, ctx, rsvr, sck)
           else do {
             mem \<leftarrow> cx_mem ctx (sn_base recv);
             mem \<leftarrow> mem_write mem (sn_iptr recv) (take n bs);
             let ctx = ctx\<lparr>cx_mem := (cx_mem ctx)(sn_base recv \<mapsto> mem)\<rparr>;
             (ret, ctx, rsvr, sck) \<leftarrow> rtmq_data_loop hdl ctx rsvr (sck\<lparr>sk_recv := recv\<lparr>sn_iptr := sn_iptr recv + n\<rparr>\<rparr>);
             if ret \<noteq> RTMQ_OK then Some (RTMQ_ERR, ctx, rsvr, sck)
             else rtmq_recv_loop hdl (if n < length bs then RdData (drop n bs) # rds else rds) ctx rsvr sck }))"

subsection \<open>Which threads receive from a node\<close>

text \<open>The trees of \<open>avl_tree.c\<close> are finite maps here.  A new entry takes two allocations, of the entry and of its node.\<close>

definition rtmq_node_to_svr_map_add :: "rtmq_cntx \<Rightarrow> int \<Rightarrow> int \<Rightarrow> int \<times> rtmq_cntx" where
  "rtmq_node_to_svr_map_add ctx nid rsvr_id =
     (let (a, al) = (if cx_svr_map ctx nid = None then alloc_take (cx_allocs ctx) else (True, cx_allocs ctx));
          (b, al) = (if cx_svr_map ctx nid = None \<and> a then alloc_take al else (a, al));
          ctx = ctx\<lparr>cx_allocs := al\<rparr> in
      if \<not> a \<or> \<not> b then (RTMQ_ERR, ctx)
      else
        let ids = (case cx_svr_map ctx nid of None \<Rightarrow> [] | Some ids \<Rightarrow> ids);
            ctx = ctx\<lparr>cx_svr_map := (cx_svr_map ctx)(nid \<mapsto> ids)\<rparr> in
        if RTRD_NODE_TO_SVR_MAX_LEN \<le> length ids then (RTMQ_ERR, ctx)
        else (RTMQ_OK, ctx\<lparr>cx_svr_map := (cx_svr_map ctx)(nid \<mapsto> ids @ [rsvr_id])\<rparr>))"

text \<open>The first entry with the id makes room for the last one.\<close>

fun svr_ids_del :: "int list \<Rightarrow> int \<Rightarrow> int list" where
  "svr_ids_del [] i = []"
| "svr_ids_del (j # js) i =
     (if j = i then (if js = [] then [] else last js # butlast js) else j # svr_ids_del js i)"

definition rtmq_node_to_svr_map_del :: "rtmq_cntx \<Rightarrow> int \<Rightarrow> int \<Rightarrow> int \<times> rtmq_cntx" where
  "rtmq_node_to_svr_map_del ctx nid rsvr_id =
     (case cx_svr_map ctx nid of
        None \<Rightarrow> (RTMQ_ERR, ctx)
      | Some ids \<Rightarrow> (RTMQ_OK, ctx\<lparr>cx_svr_map := (cx_svr_map ctx)(nid :=
          (let ids' = svr_ids_del ids rsvr_id in if ids' = [] \<and> ids \<noteq> [] then None else Some ids'))\<rparr>))"

definition rtmq_rand :: "rtmq_cntx \<Rightarrow> nat \<times> rtmq_cntx" where
  "rtmq_rand ctx = (case cx_rand ctx of [] \<Rightarrow> (0, ctx) | r # rs \<Rightarrow> (r, ctx\<lparr>cx_rand := rs\<rparr>))"

text \<open>An entry without threads would be a division by zero.\<close>

definition rtmq_node_to_svr_map_rand :: "rtmq_cntx \<Rightarrow> int \<Rightarrow> (int \<times> rtmq_cntx) option" where
  "rtmq_node_to_svr_map_rand ctx nid =
     (case cx_svr_map ctx nid of
        None \<Rightarrow> Some (- 1, ctx)
      | Some ids \<Rightarrow> (let (r, ctx) = rtmq_rand ctx in
          if ids = [] then None else Some (ids ! (r mod length ids), ctx)))"

subsection \<open>Messages of the application\<close>

definition rtmq_rsvr_cmd_proc_req :: "rtmq_cntx \<Rightarrow> nat \<Rightarrow> rtmq_cntx" where
  "rtmq_rsvr_cmd_proc_req ctx rqid = ctx\<lparr>cx_cmds := cx_cmds ctx @ [(rqid div RTMQ_WORKER_HDL_QNUM, rqid)]\<rparr>"

definition rtmq_rsvr_cmd_proc_all_req :: "rtmq_cntx \<Rightarrow> rtmq_cntx" where
  "rtmq_rsvr_cmd_proc_all_req ctx = fold (\<lambda>idx ctx. rtmq_rsvr_cmd_proc_req ctx idx) [0..<length (cx_recvq ctx)] ctx"

text \<open>A message goes to a queue chosen at random, as a reference to its place in the buffer.\<close>

definition rtmq_rsvr_exp_mesg_proc ::
    "rtmq_cntx \<Rightarrow> rtmq_rsvr \<Rightarrow> rtmq_sck \<Rightarrow> u64 \<Rightarrow> nat \<Rightarrow> (int \<times> rtmq_cntx \<times> rtmq_rsvr) option" where
  "rtmq_rsvr_exp_mesg_proc ctx rsvr sck base off =
     (if \<not> sk_auth_succ sck then Some (RTMQ_ERR, ctx, rsvr)
      else do {
        mem \<leftarrow> cx_mem ctx base;
        head \<leftarrow> rtmq_head_load mem off;
        let rsvr = rsvr\<lparr>rv_recv_total := rv_recv_total rsvr + 1\<rparr>;
        let dropped = rsvr\<lparr>rv_drop_total := rv_drop_total rsvr + 1\<rparr>;
        if hd_nid head \<noteq> sk_nid sck then Some (RTMQ_ERR, ctx, dropped)
        else if cx_recvq ctx = [] then None
        else let (r, ctx) = rtmq_rand ctx; rqid = r mod length (cx_recvq ctx) in do {
          (item, rq) \<leftarrow> queue_malloc (cx_recvq ctx ! rqid) 16;
          let ctx = ctx\<lparr>cx_recvq := (cx_recvq ctx)[rqid := rq]\<rparr>;
          if item = NULL then Some (RTMQ_ERR, rtmq_rsvr_cmd_proc_all_req ctx, dropped)
          else do {
            (_, mf) \<leftarrow> mref_inc (cx_mref ctx) base;
            (_, rq) \<leftarrow> queue_push rq item;
            let ctx = ctx\<lparr>cx_mref := mf, cx_items := (cx_items ctx)(item \<mapsto> (base, off)),
              cx_recvq := (cx_recvq ctx)[rqid := rq]\<rparr>;
            Some (RTMQ_OK, rtmq_rsvr_cmd_proc_req ctx rqid, rsvr) } } })"

subsection \<open>System messages\<close>

text \<open>A message of ours is put together in a new block and linked to the list of the connection.\<close>

definition rtmq_answer ::
    "rtmq_cntx \<Rightarrow> rtmq_sck \<Rightarrow> rtmq_header \<Rightarrow> u8 list \<Rightarrow> (int \<times> rtmq_cntx \<times> rtmq_sck) option" where
  "rtmq_answer ctx sck head body = do {
     (addr, ctx) \<leftarrow> rtmq_block_alloc ctx (20 + length body);
     if addr = 0 then Some (RTMQ_ERR, ctx, sck)
     else do {
       let ctx = ctx\<lparr>cx_mem := (cx_mem ctx)(addr \<mapsto> rtmq_head_bytes head @ body)\<rparr>;
       let (a, al) = alloc_take (cx_allocs ctx);
       let ctx = ctx\<lparr>cx_allocs := al\<rparr>;
       if \<not> a then do { ctx \<leftarrow> rtmq_block_dec ctx addr; Some (RTMQ_ERR, ctx, sck) }
       else Some (RTMQ_OK, ctx, sck\<lparr>sk_mesg_list := sk_mesg_list sck @ [addr]\<rparr>) } }"

definition rtmq_rsvr_keepalive_req_hdl :: "rtmq_cntx \<Rightarrow> rtmq_sck \<Rightarrow> (int \<times> rtmq_cntx \<times> rtmq_sck) option" where
  "rtmq_rsvr_keepalive_req_hdl ctx sck =
     (if \<not> sk_auth_succ sck then Some (RTMQ_ERR, ctx, sck)
      else rtmq_answer ctx sck \<lparr>hd_type = RTMQ_CMD_KPALIVE_ACK, hd_nid = cx_nid ctx, hd_flag = RTMQ_SYS_MESG,
        hd_length = 0, hd_chksum = RTMQ_CHKSUM_VAL\<rparr> [])"

definition rtmq_rsvr_link_auth_rsp :: "rtmq_cntx \<Rightarrow> rtmq_sck \<Rightarrow> (int \<times> rtmq_cntx \<times> rtmq_sck) option" where
  "rtmq_rsvr_link_auth_rsp ctx sck =
     rtmq_answer ctx sck \<lparr>hd_type = RTMQ_CMD_AUTH_ACK, hd_nid = cx_nid ctx, hd_flag = RTMQ_SYS_MESG,
       hd_length = 4, hd_chksum = RTMQ_CHKSUM_VAL\<rparr> (le_bytes (htonl (if sk_auth_succ sck then 1 else 0)))"

text \<open>A string in memory ends at the first zero byte; running out of the block is an access outside of it.\<close>

definition mem_string :: "u8 list \<Rightarrow> nat \<Rightarrow> u8 list option" where
  "mem_string mem off = (let s = takeWhile (\<lambda>b. b \<noteq> 0) (drop off mem) in
     if off + length s < length mem then Some s else None)"

text \<open>\<open>rtmq_auth_check\<close> with \<open>rtmq_link_auth_check\<close>: a name is cut to 31 characters.\<close>

definition rtmq_auth_check :: "rtmq_cntx \<Rightarrow> u8 list \<Rightarrow> u8 list \<Rightarrow> bool" where
  "rtmq_auth_check ctx usr passwd = (case cx_auth ctx (take 31 usr) of None \<Rightarrow> False | Some p \<Rightarrow> p = passwd)"

text \<open>The request is read behind the header at \<open>off\<close>, whatever length the header says: a group, a name in 32
  bytes and a password in 16.\<close>

definition rtmq_rsvr_link_auth_req_hdl ::
    "rtmq_cntx \<Rightarrow> rtmq_rsvr \<Rightarrow> rtmq_sck \<Rightarrow> nat \<Rightarrow> (int \<times> rtmq_cntx \<times> rtmq_sck) option" where
  "rtmq_rsvr_link_auth_req_hdl ctx rsvr sck off = do {
     let base = sn_base (sk_recv sck);
     mem \<leftarrow> cx_mem ctx base;
     head \<leftarrow> rtmq_head_load mem off;
     _ \<leftarrow> mem_read mem (off + 20) 4;
     let gid = word_at mem (off + 20);
     if gid = 0 then Some (RTMQ_ERR, ctx, sck)
     else do {
       mem \<leftarrow> mem_write mem (off + 20) (le_bytes (ntohl gid));
       let ctx = ctx\<lparr>cx_mem := (cx_mem ctx)(base \<mapsto> mem)\<rparr>;
       usr \<leftarrow> mem_string mem (off + 24);
       passwd \<leftarrow> mem_string mem (off + 56);
       let sck = sck\<lparr>sk_gid := ntohl gid, sk_auth_succ := rtmq_auth_check ctx usr passwd\<rparr>;
       if sk_auth_succ sck then
         let sck = sck\<lparr>sk_nid := hd_nid head\<rparr>;
             (ret, ctx) = rtmq_node_to_svr_map_add ctx (sint (hd_nid head)) (int (rv_id rsvr)) in
         if ret \<noteq> RTMQ_OK then Some (RTMQ_ERR, ctx, sck)
         else rtmq_rsvr_link_auth_rsp ctx sck
       else rtmq_rsvr_link_auth_rsp ctx sck } }"

text \<open>The handler of subscriptions, \<open>rtmq_rsvr_sub_req_hdl\<close>, is the argument \<open>sub\<close>.\<close>

definition rtmq_rsvr_sys_mesg_proc :: "rtmq_hdl \<Rightarrow> rtmq_hdl" where
  "rtmq_rsvr_sys_mesg_proc sub ctx rsvr sck = do {
     mem \<leftarrow> cx_mem ctx (sn_base (sk_recv sck));
     head \<leftarrow> rtmq_head_load mem (sn_optr (sk_recv sck));
     if hd_type head = RTMQ_CMD_AUTH_REQ then do {
       (ret, ctx, sck) \<leftarrow> rtmq_rsvr_link_auth_req_hdl ctx rsvr sck (sn_optr (sk_recv sck));
       Some (ret, ctx, rsvr, sck) }
     else if hd_type head = RTMQ_CMD_SUB_REQ then sub ctx rsvr sck
     else if hd_type head = RTMQ_CMD_KPALIVE_REQ then do {
       (ret, ctx, sck) \<leftarrow> rtmq_rsvr_keepalive_req_hdl ctx sck;
       Some (ret, ctx, rsvr, sck) }
     else Some (RTMQ_ERR, ctx, rsvr, sck) }"

definition rtmq_rsvr_mesg_proc :: "rtmq_hdl \<Rightarrow> rtmq_hdl" where
  "rtmq_rsvr_mesg_proc sub ctx rsvr sck = do {
     mem \<leftarrow> cx_mem ctx (sn_base (sk_recv sck));
     head \<leftarrow> rtmq_head_load mem (sn_optr (sk_recv sck));
     if hd_flag head = RTMQ_SYS_MESG then rtmq_rsvr_sys_mesg_proc sub ctx rsvr sck
     else do {
       (_, ctx, rsvr) \<leftarrow> rtmq_rsvr_exp_mesg_proc ctx rsvr sck (sn_base (sk_recv sck)) (sn_optr (sk_recv sck));
       Some (0, ctx, rsvr, sck) } }"

definition rtmq_rsvr_data_proc :: "rtmq_hdl \<Rightarrow> rtmq_hdl" where
  "rtmq_rsvr_data_proc sub = rtmq_data_loop (rtmq_rsvr_mesg_proc sub)"

definition rtmq_rsvr_recv_proc :: "rtmq_hdl \<Rightarrow> rtmq_read list \<Rightarrow> rtmq_hdl" where
  "rtmq_rsvr_recv_proc sub = rtmq_recv_loop (rtmq_rsvr_mesg_proc sub)"

subsection \<open>The worker\<close>

definition RTRD_WORK_POP_NUM :: u32 where "RTRD_WORK_POP_NUM = 1024"

text \<open>The counters of \<open>rtmq_worker_t\<close> and the calls of registered callbacks: which one, type, node, data.\<close>

record rtmq_worker =
  wk_proc_total :: u64
  wk_drop_total :: u64
  wk_err_total :: u64
  wk_calls :: "(nat \<times> u32 \<times> u32 \<times> u8 list) list"

text \<open>One item that was taken from queue \<open>rqidx\<close>; \<open>ret\<close> gives the results of the callbacks.\<close>

definition rtmq_worker_item ::
    "(nat \<times> u32 \<times> u32 \<times> u8 list \<Rightarrow> int) \<Rightarrow> nat \<Rightarrow> addr \<Rightarrow> rtmq_cntx \<Rightarrow> rtmq_worker \<Rightarrow> (rtmq_cntx \<times> rtmq_worker) option" where
  "rtmq_worker_item ret rqidx item ctx worker = do {
     (base, off) \<leftarrow> cx_items ctx item;
     mem \<leftarrow> cx_mem ctx base;
     head \<leftarrow> rtmq_head_load mem off;
     worker \<leftarrow> (case (case cx_reg ctx (sint (hd_type head)) of None \<Rightarrow> cx_reg ctx 0 | Some r \<Rightarrow> Some r) of
         None \<Rightarrow> Some (worker\<lparr>wk_drop_total := wk_drop_total worker + 1\<rparr>)
       | Some r \<Rightarrow> do {
           body \<leftarrow> mem_read mem (off + 20) (unat (hd_length head));
           let call = (r, hd_type head, hd_nid head, body);
           let worker = worker\<lparr>wk_calls := wk_calls worker @ [call]\<rparr>;
           Some (if ret call \<noteq> 0 then worker\<lparr>wk_err_total := wk_err_total worker + 1\<rparr>
             else worker\<lparr>wk_proc_total := wk_proc_total worker + 1\<rparr>) });
     ctx \<leftarrow> rtmq_block_dec ctx base;
     rq \<leftarrow> queue_dealloc (cx_recvq ctx ! rqidx) item;
     Some (ctx\<lparr>cx_recvq := (cx_recvq ctx)[rqidx := rq]\<rparr>, worker) }"

fun rtmq_worker_items ::
    "(nat \<times> u32 \<times> u32 \<times> u8 list \<Rightarrow> int) \<Rightarrow> nat \<Rightarrow> addr list \<Rightarrow> rtmq_cntx \<Rightarrow> rtmq_worker \<Rightarrow> (rtmq_cntx \<times> rtmq_worker) option" where
  "rtmq_worker_items ret rqidx [] ctx worker = Some (ctx, worker)"
| "rtmq_worker_items ret rqidx (item # items) ctx worker = do {
     (ctx, worker) \<leftarrow> rtmq_worker_item ret rqidx item ctx worker;
     rtmq_worker_items ret rqidx items ctx worker }"

partial_function (option) rtmq_worker_cmd_proc_req_hdl ::
    "(nat \<times> u32 \<times> u32 \<times> u8 list \<Rightarrow> int) \<Rightarrow> nat \<Rightarrow> rtmq_cntx \<Rightarrow> rtmq_worker \<Rightarrow> (int \<times> rtmq_cntx \<times> rtmq_worker) option" where
  "rtmq_worker_cmd_proc_req_hdl ret rqidx ctx worker = do {
     rq \<leftarrow> (if rqidx < length (cx_recvq ctx) then Some (cx_recvq ctx ! rqidx) else None);
     let num = min (queue_used rq) RTRD_WORK_POP_NUM;
     if num = 0 then Some (RTMQ_OK, ctx, worker)
     else do {
       (num, items, ring) \<leftarrow> ring_mpop (qu_ring rq) num;
       let ctx = ctx\<lparr>cx_recvq := (cx_recvq ctx)[rqidx := rq\<lparr>qu_ring := ring\<rparr>]\<rparr>;
       if num = 0 then rtmq_worker_cmd_proc_req_hdl ret rqidx ctx worker
       else do {
         (ctx, worker) \<leftarrow> rtmq_worker_items ret rqidx items ctx worker;
         rtmq_worker_cmd_proc_req_hdl ret rqidx ctx worker } } }"

end
