(* ===== verification/Rtmq_Frame.thy ===== *)
theory Rtmq_Frame
  imports Rtmq
begin

text \<open>
  Framing.  What a handler of messages must keep is the contract \<open>frame_handler\<close>; then, whatever pieces the
  stream arrives in and wherever the buffer ends, the handler sees the messages of the peer, each once, in
  order and whole.
\<close>

subsection \<open>Messages in a stream\<close>

text \<open>A message a peer may send: a right checksum, a length that is that of its payload, and a size that fits
  into a buffer.\<close>

definition rtmq_good :: "rtmq_header \<times> u8 list \<Rightarrow> bool" where
  "rtmq_good m \<longleftrightarrow> hd_chksum (fst m) = RTMQ_CHKSUM_VAL \<and> length (snd m) = unat (hd_length (fst m)) \<and>
     20 + length (snd m) \<le> RTMQ_BUFF_SIZE"

definition rtmq_stream :: "(rtmq_header \<times> u8 list) list \<Rightarrow> u8 list" where
  "rtmq_stream ms = concat (map rtmq_wire ms)"

lemma rtmq_stream_simps [simp]:
  "rtmq_stream [] = []" "rtmq_stream (m # ms) = rtmq_wire m @ rtmq_stream ms"
  by (simp_all add: rtmq_stream_def)

lemma rtmq_stream_append: "rtmq_stream (ms @ ms') = rtmq_stream ms @ rtmq_stream ms'"
  by (simp add: rtmq_stream_def)

lemma length_wire [simp]: "length (rtmq_wire m) = 20 + length (snd m)"
  by (simp add: rtmq_wire_def)

text \<open>The unread bytes of the buffer.\<close>

definition rtmq_unread :: "rtmq_cntx \<Rightarrow> rtmq_sck \<Rightarrow> u8 list" where
  "rtmq_unread ctx sck = (case cx_mem ctx (sn_base (sk_recv sck)) of
      None \<Rightarrow> []
    | Some mem \<Rightarrow> take (sn_iptr (sk_recv sck) - sn_optr (sk_recv sck)) (drop (sn_optr (sk_recv sck)) mem))"

definition recv_ok :: "rtmq_cntx \<Rightarrow> rtmq_sck \<Rightarrow> bool" where
  "recv_ok ctx sck \<longleftrightarrow> (\<exists>mem. cx_mem ctx (sn_base (sk_recv sck)) = Some mem \<and> length mem = RTMQ_BUFF_SIZE) \<and>
     sn_end (sk_recv sck) = RTMQ_BUFF_SIZE \<and> sn_optr (sk_recv sck) \<le> sn_iptr (sk_recv sck) \<and>
     sn_iptr (sk_recv sck) \<le> RTMQ_BUFF_SIZE"

lemma recv_okE:
  assumes "recv_ok ctx sck"
  obtains mem where "cx_mem ctx (sn_base (sk_recv sck)) = Some mem" "length mem = RTMQ_BUFF_SIZE"
    "sn_end (sk_recv sck) = RTMQ_BUFF_SIZE" "sn_optr (sk_recv sck) \<le> sn_iptr (sk_recv sck)"
    "sn_iptr (sk_recv sck) \<le> RTMQ_BUFF_SIZE"
    "rtmq_unread ctx sck = take (sn_iptr (sk_recv sck) - sn_optr (sk_recv sck)) (drop (sn_optr (sk_recv sck)) mem)"
    "length (rtmq_unread ctx sck) = sn_iptr (sk_recv sck) - sn_optr (sk_recv sck)"
  using assms by (auto simp: recv_ok_def rtmq_unread_def)

text \<open>The message \<open>m\<close> stands in host order at \<open>off\<close>.\<close>

definition mesg_at :: "u8 list \<Rightarrow> nat \<Rightarrow> rtmq_header \<times> u8 list \<Rightarrow> bool" where
  "mesg_at mem off m \<longleftrightarrow> take (20 + length (snd m)) (drop off mem) = rtmq_head_bytes (fst m) @ snd m \<and>
     off + 20 + length (snd m) \<le> length mem"

lemma mesg_at_load:
  assumes "mesg_at mem off m"
  shows "rtmq_head_load mem off = Some (fst m)" "mem_read mem (off + 20) (length (snd m)) = Some (snd m)"
proof -
  let ?n = "20 + length (snd m)"
  have d: "take off mem @ take ?n (drop off mem) @ drop (off + ?n) mem = mem"
    by (metis append_take_drop_id drop_drop add.commute)
  have l: "length (take off mem) = off" using assms by (simp add: mesg_at_def)
  have mem: "mem = take off mem @ rtmq_head_bytes (fst m) @ snd m @ drop (off + ?n) mem"
    using assms d by (simp add: mesg_at_def)
  show "rtmq_head_load mem off = Some (fst m)"
    using head_load_bytes[of "take off mem" "fst m" "snd m @ drop (off + ?n) mem"]
    by (simp only: mem[symmetric] l)
  have "take (length (snd m)) (drop (off + 20) mem) = drop 20 (take ?n (drop off mem))"
    by (simp add: drop_take add.commute)
  also have "\<dots> = snd m" using assms by (simp add: mesg_at_def)
  finally show "mem_read mem (off + 20) (length (snd m)) = Some (snd m)"
    using assms by (simp add: mem_read_def mesg_at_def)
qed

lemma mesg_at_take:
  assumes "mesg_at mem off m" and "off + 20 + length (snd m) \<le> n" and "take n mem' = take n mem" and "length mem' = length mem"
  shows "mesg_at mem' off m"
proof -
  have "take k (drop off mem') = take k (drop off mem)" if "off + k \<le> n" for k
  proof -
    have "take (k + off) mem' = take (k + off) (take n mem')" "take (k + off) mem = take (k + off) (take n mem)"
      using that by (simp_all add: min_def)
    then show ?thesis by (simp only: take_drop assms(3))
  qed
  then show ?thesis using assms by (simp add: mesg_at_def)
qed

abbreviation rtmq_advance :: "rtmq_sck \<Rightarrow> nat \<Rightarrow> rtmq_sck" where
  "rtmq_advance sck n \<equiv> sck\<lparr>sk_recv := (sk_recv sck)\<lparr>sn_optr := sn_optr (sk_recv sck) + n\<rparr>\<rparr>"

abbreviation rtmq_poke :: "rtmq_cntx \<Rightarrow> rtmq_sck \<Rightarrow> u8 list \<Rightarrow> rtmq_cntx" where
  "rtmq_poke ctx sck mem \<equiv> ctx\<lparr>cx_mem := (cx_mem ctx)(sn_base (sk_recv sck) \<mapsto> mem)\<rparr>"

abbreviation rtmq_filled :: "rtmq_sck \<Rightarrow> nat \<Rightarrow> rtmq_sck" where
  "rtmq_filled sck i \<equiv> sck\<lparr>sk_recv := (sk_recv sck)\<lparr>sn_iptr := i\<rparr>\<rparr>"

text \<open>The bytes that a sequence of reads will bring.\<close>

fun rtmq_arrived :: "rtmq_read list \<Rightarrow> u8 list" where
  "rtmq_arrived (RdData bs # rds) = bs @ rtmq_arrived rds"
| "rtmq_arrived (RdIntr # rds) = rtmq_arrived rds"
| "rtmq_arrived _ = []"

text \<open>No read ends the connection.\<close>

fun rtmq_clean :: "rtmq_read list \<Rightarrow> bool" where
  "rtmq_clean (RdData bs # rds) = (bs \<noteq> [] \<and> rtmq_clean rds)"
| "rtmq_clean (RdIntr # rds) = rtmq_clean rds"
| "rtmq_clean (RdAgain # rds) = True"
| "rtmq_clean [] = True"
| "rtmq_clean _ = False"

fun rtmq_read_size :: "rtmq_read \<Rightarrow> nat" where
  "rtmq_read_size (RdData bs) = Suc (length bs)"
| "rtmq_read_size _ = 1"

subsection \<open>The next message in the unread bytes\<close>

lemma unread_split:
  assumes "recv_ok ctx sck" and "cx_mem ctx (sn_base (sk_recv sck)) = Some mem"
  shows "mem = take (sn_optr (sk_recv sck)) mem @ rtmq_unread ctx sck @ drop (sn_iptr (sk_recv sck)) mem"
    "length (take (sn_optr (sk_recv sck)) mem) = sn_optr (sk_recv sck)"
proof -
  let ?o = "sn_optr (sk_recv sck)" and ?i = "sn_iptr (sk_recv sck)"
  have b: "?o \<le> ?i" "?i \<le> length mem" using assms by (auto simp: recv_ok_def)
  have "drop ?o mem = take (?i - ?o) (drop ?o mem) @ drop (?i - ?o) (drop ?o mem)"
    by (rule append_take_drop_id[symmetric])
  moreover have "drop (?i - ?o) (drop ?o mem) = drop ?i mem" using b by (simp only: drop_drop) simp
  ultimately show "mem = take ?o mem @ rtmq_unread ctx sck @ drop ?i mem"
    using assms(2) by (metis append_take_drop_id option.simps(5) rtmq_unread_def)
  show "length (take ?o mem) = ?o" using b by simp
qed

lemma unread_head:
  assumes "recv_ok ctx sck" and "cx_mem ctx (sn_base (sk_recv sck)) = Some mem"
    and st: "rtmq_unread ctx sck @ later = rtmq_wire m @ r" and "20 \<le> length (rtmq_unread ctx sck)"
  shows "rtmq_head_load mem (sn_optr (sk_recv sck)) = Some (RTMQ_HEAD_HTON (fst m))"
proof -
  have "take 20 (rtmq_unread ctx sck @ later) = rtmq_head_bytes (RTMQ_HEAD_HTON (fst m))"
    unfolding st by (simp add: rtmq_wire_def)
  then have u: "rtmq_unread ctx sck = rtmq_head_bytes (RTMQ_HEAD_HTON (fst m)) @ drop 20 (rtmq_unread ctx sck)"
    using assms(4) by (metis append_take_drop_id diff_is_0_eq' take0 take_append append_Nil2)
  note S = unread_split[OF assms(1,2)]
  have "rtmq_head_load (take (sn_optr (sk_recv sck)) mem @ rtmq_head_bytes (RTMQ_HEAD_HTON (fst m)) @
      drop 20 (rtmq_unread ctx sck) @ drop (sn_iptr (sk_recv sck)) mem) (sn_optr (sk_recv sck)) =
      Some (RTMQ_HEAD_HTON (fst m))"
    using head_load_bytes[of "take (sn_optr (sk_recv sck)) mem"] S(2) by metis
  moreover have "take (sn_optr (sk_recv sck)) mem @ rtmq_head_bytes (RTMQ_HEAD_HTON (fst m)) @
      drop 20 (rtmq_unread ctx sck) @ drop (sn_iptr (sk_recv sck)) mem = mem"
    using S(1) u by (metis append.assoc)
  ultimately show ?thesis by simp
qed

lemma unread_store:
  assumes "recv_ok ctx sck" and mem: "cx_mem ctx (sn_base (sk_recv sck)) = Some mem"
    and st: "rtmq_unread ctx sck @ later = rtmq_wire m @ r"
    and len: "20 + length (snd m) \<le> length (rtmq_unread ctx sck)"
  obtains mem' where "rtmq_head_store mem (sn_optr (sk_recv sck)) (fst m) = Some mem'" "length mem' = length mem"
    "mesg_at mem' (sn_optr (sk_recv sck)) m"
    "take (sn_optr (sk_recv sck)) mem' = take (sn_optr (sk_recv sck)) mem"
    "drop (sn_optr (sk_recv sck) + 20) mem' = drop (sn_optr (sk_recv sck) + 20) mem"
    "drop (20 + length (snd m)) (rtmq_unread ctx sck) @ later = r"
proof -
  let ?o = "sn_optr (sk_recv sck)" and ?u = "drop (20 + length (snd m)) (rtmq_unread ctx sck)"
  let ?h = "rtmq_head_bytes (RTMQ_HEAD_HTON (fst m))" and ?d = "drop (sn_iptr (sk_recv sck)) mem"
  have "take (20 + length (snd m)) (rtmq_unread ctx sck @ later) = rtmq_wire m"
    unfolding st by simp
  then have u: "rtmq_unread ctx sck = rtmq_wire m @ ?u"
    using len by (metis append_take_drop_id diff_is_0_eq' take0 take_append append_Nil2)
  have r: "?u @ later = r" using st u by (metis append.assoc same_append_eq)
  note S = unread_split[OF assms(1) mem]
  have m: "mem = take ?o mem @ ?h @ snd m @ ?u @ ?d"
    using S(1) u by (metis append.assoc rtmq_wire_def)
  let ?mem = "take ?o mem @ rtmq_head_bytes (fst m) @ snd m @ ?u @ ?d"
  have sto: "rtmq_head_store mem ?o (fst m) = Some ?mem"
    by (subst m) (rule head_store_bytes, use S(2) in simp_all)
  have len: "length ?mem = length mem" by (subst (3) m) simp
  have d: "drop (?o + 20) (x @ y @ z) = z" if "length x = ?o" "length y = 20" for x y z :: "u8 list"
    using that by simp
  have "drop (?o + 20) mem = snd m @ ?u @ ?d" by (subst m) (rule d, use S(2) in simp_all)
  moreover have "drop (?o + 20) ?mem = snd m @ ?u @ ?d" by (rule d) (use S(2) in simp_all)
  moreover have "mesg_at ?mem ?o m" using S(2) by (simp add: mesg_at_def)
  moreover have "take ?o ?mem = take ?o mem" by (subst take_append) (simp add: S(2) del: length_take)
  ultimately show ?thesis using that[OF sto len _ _ _ r] by metis
qed

lemma unread_advance:
  assumes "recv_ok ctx sck" and "cx_mem ctx (sn_base (sk_recv sck)) = Some mem"
    and "cx_mem ctx' (sn_base (sk_recv sck)) = Some mem'" "length mem' = length mem" "sk_recv sck' = sk_recv sck"
    and "drop (sn_optr (sk_recv sck) + n) mem' = drop (sn_optr (sk_recv sck) + n) mem"
    and "sn_optr (sk_recv sck) + n \<le> sn_iptr (sk_recv sck)"
  shows "recv_ok ctx' (rtmq_advance sck' n)"
    "rtmq_unread ctx' (rtmq_advance sck' n) = drop n (rtmq_unread ctx sck)"
  using assms by (auto simp: recv_ok_def rtmq_unread_def drop_take add.commute)

text \<open>The lengths of the loop are exact.\<close>

lemma buff_word: "n \<le> RTMQ_BUFF_SIZE \<Longrightarrow> unat (of_nat n :: u32) = n"
  by (simp add: RTMQ_BUFF_SIZE_def unat_of_nat)

lemma mesg_len_word:
  assumes "rtmq_good m"
  shows "unat (20 + hd_length (fst m)) = 20 + length (snd m)"
proof -
  have "20 + hd_length (fst m) = of_nat (20 + length (snd m))"
    using assms by (simp add: rtmq_good_def)
  then show ?thesis using assms buff_word[of "20 + length (snd m)"] by (simp add: rtmq_good_def del: of_nat_add)
qed

subsection \<open>The contract of a handler\<close>

text \<open>
  \<open>inv\<close> is what the handler relies on, \<open>obs\<close> what it achieves, \<open>eff\<close> what a message adds to it.  \<open>hdl_ok\<close>: a
  complete message is dealt with inside its own bytes.  \<open>inv_write\<close>: bytes behind the messages that were dealt
  with do not matter.  \<open>switch_ok\<close>: neither does a change of the buffer.  \<open>fuel\<close>: there is memory enough for a
  number of messages to come; then nothing fails.
\<close>

locale frame_handler =
  fixes hdl :: rtmq_hdl
    and inv :: "rtmq_cntx \<Rightarrow> rtmq_rsvr \<Rightarrow> rtmq_sck \<Rightarrow> bool"
    and obs :: "rtmq_cntx \<Rightarrow> rtmq_rsvr \<Rightarrow> 'o"
    and eff :: "rtmq_header \<times> u8 list \<Rightarrow> 'o \<Rightarrow> 'o"
    and acc :: "rtmq_header \<times> u8 list \<Rightarrow> bool"
    and fuel :: "rtmq_cntx \<Rightarrow> rtmq_sck \<Rightarrow> nat \<Rightarrow> bool"
  assumes hdl_ok: "inv ctx rsvr sck \<Longrightarrow> recv_ok ctx sck \<Longrightarrow> rtmq_good m \<Longrightarrow> acc m \<Longrightarrow>
      cx_mem ctx (sn_base (sk_recv sck)) = Some mem \<Longrightarrow> mesg_at mem (sn_optr (sk_recv sck)) m \<Longrightarrow>
      sn_optr (sk_recv sck) + 20 + length (snd m) \<le> sn_iptr (sk_recv sck) \<Longrightarrow>
      \<exists>ret ctx' rsvr' sck' mem'. hdl ctx rsvr sck = Some (ret, ctx', rsvr', sck') \<and> sk_recv sck' = sk_recv sck \<and>
        cx_mem ctx' (sn_base (sk_recv sck)) = Some mem' \<and> length mem' = length mem \<and>
        drop (sn_optr (sk_recv sck) + 20 + length (snd m)) mem' = drop (sn_optr (sk_recv sck) + 20 + length (snd m)) mem \<and>
        (ret \<noteq> 0 \<longrightarrow> inv ctx' rsvr' sck') \<and> inv ctx' rsvr' (rtmq_advance sck' (20 + length (snd m))) \<and>
        obs ctx' rsvr' = eff m (obs ctx rsvr) \<and>
        (\<forall>n. fuel ctx sck (Suc n) \<longrightarrow> ret = 0 \<and> fuel ctx' (rtmq_advance sck' (20 + length (snd m))) n)"
    and inv_write: "inv ctx rsvr sck \<Longrightarrow> recv_ok ctx sck \<Longrightarrow> cx_mem ctx (sn_base (sk_recv sck)) = Some mem \<Longrightarrow>
      length mem' = length mem \<Longrightarrow> take (sn_optr (sk_recv sck)) mem' = take (sn_optr (sk_recv sck)) mem \<Longrightarrow>
      inv (rtmq_poke ctx sck mem') rsvr (rtmq_filled sck i) \<and> obs (rtmq_poke ctx sck mem') rsvr = obs ctx rsvr \<and>
      (\<forall>n. fuel ctx sck n \<longrightarrow> fuel (rtmq_poke ctx sck mem') (rtmq_filled sck i) n)"
    and switch_ok: "inv ctx rsvr sck \<Longrightarrow> recv_ok ctx sck \<Longrightarrow>
      \<exists>ret ctx' sck'. rtmq_rsvr_switch_recv_buff ctx sck = Some (ret, ctx', sck') \<and> inv ctx' rsvr sck' \<and>
        obs ctx' rsvr = obs ctx rsvr \<and> (ret = RTMQ_OK \<longrightarrow> recv_ok ctx' sck' \<and>
          rtmq_unread ctx' sck' = rtmq_unread ctx sck \<and> sn_iptr (sk_recv sck') = length (rtmq_unread ctx sck)) \<and>
        (\<forall>n. fuel ctx sck n \<longrightarrow> ret = RTMQ_OK \<and> fuel ctx' sck' n)"
begin

text \<open>The result of a run over \<open>ms\<close>: some first messages were dealt with, all complete ones if the connection
  stays; and it stays if \<open>g\<close> holds.\<close>

definition framed :: "(int \<times> rtmq_cntx \<times> rtmq_rsvr \<times> rtmq_sck) option \<Rightarrow> 'o \<Rightarrow> (rtmq_header \<times> u8 list) list \<Rightarrow> u8 list \<Rightarrow> bool \<Rightarrow> bool" where
  "framed r o0 ms later g \<longleftrightarrow> (\<exists>ret ctx rsvr sck k. r = Some (ret, ctx, rsvr, sck) \<and> inv ctx rsvr sck \<and>
     k \<le> length ms \<and> length (rtmq_stream (take k ms)) + length later \<le> length (rtmq_stream ms) \<and>
     obs ctx rsvr = fold eff (take k ms) o0 \<and> (ret = RTMQ_OK \<longrightarrow> recv_ok ctx sck \<and>
       rtmq_unread ctx sck @ later = rtmq_stream (drop k ms) \<and> sn_iptr (sk_recv sck) < RTMQ_BUFF_SIZE \<and>
       (k < length ms \<longrightarrow> length (rtmq_unread ctx sck) < length (rtmq_wire (ms ! k)))) \<and>
     (g \<longrightarrow> ret = RTMQ_OK \<and> fuel ctx sck (length ms - k)))"

lemma framedI:
  assumes "r = Some (ret, ctx, rsvr, sck)" "inv ctx rsvr sck" "k \<le> length ms"
    "length (rtmq_stream (take k ms)) + length later \<le> length (rtmq_stream ms)" "obs ctx rsvr = fold eff (take k ms) o0"
    and "ret = RTMQ_OK \<Longrightarrow> recv_ok ctx sck \<and> rtmq_unread ctx sck @ later = rtmq_stream (drop k ms) \<and>
      sn_iptr (sk_recv sck) < RTMQ_BUFF_SIZE \<and>
      (k < length ms \<longrightarrow> length (rtmq_unread ctx sck) < length (rtmq_wire (ms ! k)))"
    and "g \<Longrightarrow> ret = RTMQ_OK \<and> fuel ctx sck (length ms - k)"
  shows "framed r o0 ms later g"
  using assms unfolding framed_def by blast

lemma later_le: "u @ later = rtmq_stream ms \<Longrightarrow> length later \<le> length (rtmq_stream ms)"
  by (metis length_append le_add2)

lemma rest_ok:
  assumes "inv ctx rsvr sck" "recv_ok ctx sck" and st: "rtmq_unread ctx sck @ later = rtmq_stream ms"
    and sh: "ms \<noteq> [] \<Longrightarrow> length (rtmq_unread ctx sck) < length (rtmq_wire (hd ms))" and good: "\<forall>m \<in> set ms. rtmq_good m"
  shows "framed (rtmq_data_rest ctx rsvr sck) (obs ctx rsvr) ms later (fuel ctx sck (length ms))"
proof -
  have sh0: "0 < length ms \<longrightarrow> length (rtmq_unread ctx sck) < length (rtmq_wire (ms ! 0))"
    using sh by (simp add: hd_conv_nth)
  have small: "length (rtmq_unread ctx sck) < RTMQ_BUFF_SIZE"
  proof (cases ms)
    case Nil
    then show ?thesis using st by (simp add: RTMQ_BUFF_SIZE_def)
  next
    case (Cons m ms')
    then show ?thesis using sh good by (simp add: rtmq_good_def)
  qed
  show ?thesis
  proof (cases "sn_iptr (sk_recv sck) = sn_end (sk_recv sck)")
    case True
    obtain ret ctx' sck' where w: "rtmq_rsvr_switch_recv_buff ctx sck = Some (ret, ctx', sck')" "inv ctx' rsvr sck'"
        "obs ctx' rsvr = obs ctx rsvr" "ret = RTMQ_OK \<longrightarrow> recv_ok ctx' sck' \<and> rtmq_unread ctx' sck' = rtmq_unread ctx sck \<and>
          sn_iptr (sk_recv sck') = length (rtmq_unread ctx sck)"
        "\<forall>n. fuel ctx sck n \<longrightarrow> ret = RTMQ_OK \<and> fuel ctx' sck' n"
      using switch_ok[OF assms(1,2)] by blast
    have "rtmq_data_rest ctx rsvr sck = Some (ret, ctx', rsvr, sck')"
      using True w(1) by (simp add: rtmq_data_rest_def)
    then show ?thesis using w st sh0 small later_le[OF st] by (intro framedI[of _ ret ctx' rsvr sck' 0]) simp_all
  next
    case False
    then have "rtmq_data_rest ctx rsvr sck = Some (RTMQ_OK, ctx, rsvr, sck)" by (simp add: rtmq_data_rest_def)
    moreover have "sn_iptr (sk_recv sck) < RTMQ_BUFF_SIZE" using False assms(2) by (simp add: recv_ok_def)
    ultimately show ?thesis using assms st sh0 later_le[OF st] by (intro framedI[of _ RTMQ_OK ctx rsvr sck 0]) simp_all
  qed
qed

lemma framed_append:
  assumes "framed r (fold eff (take j ms) o0) (drop j ms) later g" and "j \<le> length ms"
  shows "framed r o0 ms later g"
proof -
  obtain ret ctx rsvr sck k where *: "r = Some (ret, ctx, rsvr, sck)" "inv ctx rsvr sck" "k \<le> length (drop j ms)"
      "length (rtmq_stream (take k (drop j ms))) + length later \<le> length (rtmq_stream (drop j ms))"
      "obs ctx rsvr = fold eff (take k (drop j ms)) (fold eff (take j ms) o0)" "ret = RTMQ_OK \<longrightarrow> recv_ok ctx sck \<and>
       rtmq_unread ctx sck @ later = rtmq_stream (drop k (drop j ms)) \<and> sn_iptr (sk_recv sck) < RTMQ_BUFF_SIZE \<and>
       (k < length (drop j ms) \<longrightarrow> length (rtmq_unread ctx sck) < length (rtmq_wire (drop j ms ! k)))"
      "g \<longrightarrow> ret = RTMQ_OK \<and> fuel ctx sck (length (drop j ms) - k)"
    using assms(1) unfolding framed_def by blast
  show ?thesis
  proof (rule framedI[OF *(1,2), of "j + k"])
    show "obs ctx rsvr = fold eff (take (j + k) ms) o0" using *(5) by (simp add: take_add)
    have "length (rtmq_stream ms) = length (rtmq_stream (take j ms)) + length (rtmq_stream (drop j ms))"
      by (metis append_take_drop_id length_append rtmq_stream_append)
    then show "length (rtmq_stream (take (j + k) ms)) + length later \<le> length (rtmq_stream ms)"
      using *(4) by (simp add: take_add rtmq_stream_append)
  qed (use *(3,6,7) assms(2) in \<open>auto simp: add.commute\<close>)
qed

lemma framed_weaken: "framed r o0 ms later g \<Longrightarrow> (g' \<Longrightarrow> g) \<Longrightarrow> framed r o0 ms later g'"
  unfolding framed_def by blast

lemma data_ok:
  "inv ctx rsvr sck \<Longrightarrow> recv_ok ctx sck \<Longrightarrow> rtmq_unread ctx sck @ later = rtmq_stream ms \<Longrightarrow>
   \<forall>m \<in> set ms. rtmq_good m \<and> acc m \<Longrightarrow> framed (rtmq_data_loop hdl ctx rsvr sck) (obs ctx rsvr) ms later
     (fuel ctx sck (length ms))"
proof (induction ms arbitrary: ctx rsvr sck)
  case Nil
  then have "rtmq_unread ctx sck = []" by simp
  then have "sn_iptr (sk_recv sck) - sn_optr (sk_recv sck) = 0"
    by (metis recv_okE[OF Nil.prems(2)] list.size(3))
  then have "rtmq_data_loop hdl ctx rsvr sck = rtmq_data_rest ctx rsvr sck"
    by (subst rtmq_data_loop.simps) simp
  then show ?case using rest_ok[OF Nil.prems(1-3)] by simp
next
  case (Cons m ms)
  let ?o = "sn_optr (sk_recv sck)" and ?n = "20 + length (snd m)" and ?u = "rtmq_unread ctx sck"
  obtain mem where mem: "cx_mem ctx (sn_base (sk_recv sck)) = Some mem" "length mem = RTMQ_BUFF_SIZE"
    and b: "sn_optr (sk_recv sck) \<le> sn_iptr (sk_recv sck)" "sn_iptr (sk_recv sck) \<le> RTMQ_BUFF_SIZE"
      "length ?u = sn_iptr (sk_recv sck) - sn_optr (sk_recv sck)"
    by (rule recv_okE[OF Cons.prems(2)]) blast
  have good: "rtmq_good m" "acc m" using Cons.prems(4) by simp_all
  have st: "?u @ later = rtmq_wire m @ rtmq_stream ms" using Cons.prems(3) by simp
  have len: "unat (of_nat (length ?u) :: u32) = length ?u" by (rule buff_word) (use b in simp)
  have chk: "ntohl (hd_chksum (RTMQ_HEAD_HTON (fst m))) = RTMQ_CHKSUM_VAL"
    "ntohl (hd_length (RTMQ_HEAD_HTON (fst m))) = hd_length (fst m)" "RTMQ_HEAD_ISVALID (fst m)"
    using good(1) by (simp_all add: rtmq_good_def RTMQ_HEAD_HTON_def RTMQ_HEAD_ISVALID_def)
  show ?case
  proof (cases "?n \<le> length ?u")
    case False
    have "rtmq_data_loop hdl ctx rsvr sck = rtmq_data_rest ctx rsvr sck"
    proof (cases "length ?u < 20")
      case True
      then have "(of_nat (length ?u) :: u32) < 20" using len by (simp add: word_less_nat_alt)
      then show ?thesis by (subst rtmq_data_loop.simps) (simp add: b(3))
    next
      case F: False
      then have "\<not> (of_nat (length ?u) :: u32) < 20" "of_nat (length ?u) < 20 + hd_length (fst m)"
        using len False mesg_len_word[OF good(1)] by (simp_all add: word_less_nat_alt)
      then show ?thesis using unread_head[OF Cons.prems(2) mem(1) st] F chk mem
        by (subst rtmq_data_loop.simps) (simp add: b(3)[symmetric])
    qed
    moreover have "framed (rtmq_data_rest ctx rsvr sck) (obs ctx rsvr) (m # ms) later (fuel ctx sck (length (m # ms)))"
      by (rule rest_ok[OF Cons.prems(1-3)]) (use False Cons.prems(4) in auto)
    ultimately show ?thesis by simp
  next
    case True
    have ns: "\<not> (of_nat (length ?u) :: u32) < 20" "\<not> of_nat (length ?u) < 20 + hd_length (fst m)"
      using len True mesg_len_word[OF good(1)] by (simp_all add: word_less_nat_alt)
    obtain mem' where S: "rtmq_head_store mem ?o (fst m) = Some mem'" "length mem' = length mem"
        "mesg_at mem' ?o m" "take ?o mem' = take ?o mem" "drop (?o + 20) mem' = drop (?o + 20) mem"
        "drop ?n ?u @ later = rtmq_stream ms"
      by (rule unread_store[OF Cons.prems(2) mem(1) st True])
    let ?ctx = "rtmq_poke ctx sck mem'"
    have poke: "inv ?ctx rsvr sck" "obs ?ctx rsvr = obs ctx rsvr" "fuel ctx sck n \<Longrightarrow> fuel ?ctx sck n" for n
      using inv_write[OF Cons.prems(1,2) mem(1) S(2,4), of "sn_iptr (sk_recv sck)"] by simp_all
    have r1: "recv_ok ?ctx sck" using Cons.prems(2) mem S(2) by (auto simp: recv_ok_def)
    have fit: "?o + 20 + length (snd m) \<le> sn_iptr (sk_recv sck)" using True b by simp
    have "cx_mem ?ctx (sn_base (sk_recv sck)) = Some mem'" by simp
    from hdl_ok[OF poke(1) r1 good this S(3) fit] obtain ret c1 v1 k1 m1 where
      H: "hdl ?ctx rsvr sck = Some (ret, c1, v1, k1)" "sk_recv k1 = sk_recv sck"
        "cx_mem c1 (sn_base (sk_recv sck)) = Some m1" "length m1 = length mem'"
        "drop (?o + 20 + length (snd m)) m1 = drop (?o + 20 + length (snd m)) mem'"
        "ret \<noteq> 0 \<longrightarrow> inv c1 v1 k1" "inv c1 v1 (rtmq_advance k1 ?n)" "obs c1 v1 = eff m (obs ctx rsvr)"
        "\<forall>n. fuel ?ctx sck (Suc n) \<longrightarrow> ret = 0 \<and> fuel c1 (rtmq_advance k1 ?n) n"
      unfolding poke(2) by blast
    have loop: "rtmq_data_loop hdl ctx rsvr sck = (if ret \<noteq> 0 then Some (RTMQ_ERR, c1, v1, k1)
        else rtmq_data_loop hdl c1 v1 (rtmq_advance k1 ?n))"
      using unread_head[OF Cons.prems(2) mem(1) st] True chk ns S(1) H(1) mem mesg_len_word[OF good(1)]
      by (subst rtmq_data_loop.simps) (simp add: b(3)[symmetric])
    show ?thesis
    proof (cases "ret = 0")
      case False
      then show ?thesis using loop H(6,8,9) poke(3) later_le[OF S(6)] by (intro framedI[of _ RTMQ_ERR c1 v1 k1 1]) (auto simp: RTMQ_ERR_def RTMQ_OK_def)
    next
      case ok: True
      have "drop (?o + ?n) m1 = drop (?o + ?n) mem"
      proof -
        have "drop (?o + ?n) mem' = drop (length (snd m)) (drop (?o + 20) mem')"
          "drop (?o + ?n) mem = drop (length (snd m)) (drop (?o + 20) mem)" by (simp_all add: ac_simps)
        then show ?thesis using H(5) S(5) by (simp add: add.assoc)
      qed
      note A = unread_advance[OF Cons.prems(2) mem(1) H(3) _ H(2) this]
      have "framed (rtmq_data_loop hdl c1 v1 (rtmq_advance k1 ?n)) (obs c1 v1) ms later
          (fuel c1 (rtmq_advance k1 ?n) (length ms))"
        using Cons.IH[OF H(7) A(1)] A(2) S(6) H(4) S(2) fit Cons.prems(4) by simp
      then have "framed (rtmq_data_loop hdl c1 v1 (rtmq_advance k1 ?n)) (eff m (obs ctx rsvr)) ms later
          (fuel ctx sck (length (m # ms)))"
        unfolding H(8) by (rule framed_weaken) (use H(9) poke(3) in auto)
      then show ?thesis using loop ok framed_append[of _ 1 "m # ms"] by simp
    qed
  qed
qed

lemma fill_ok:
  assumes "inv ctx rsvr sck" "recv_ok ctx sck" and n: "sn_iptr (sk_recv sck) + length bs \<le> RTMQ_BUFF_SIZE"
    and mem: "cx_mem ctx (sn_base (sk_recv sck)) = Some mem"
  obtains mem' where "mem_write mem (sn_iptr (sk_recv sck)) bs = Some mem'"
    "inv (rtmq_poke ctx sck mem') rsvr (rtmq_filled sck (sn_iptr (sk_recv sck) + length bs))"
    "obs (rtmq_poke ctx sck mem') rsvr = obs ctx rsvr"
    "\<forall>n. fuel ctx sck n \<longrightarrow> fuel (rtmq_poke ctx sck mem') (rtmq_filled sck (sn_iptr (sk_recv sck) + length bs)) n"
    "recv_ok (rtmq_poke ctx sck mem') (rtmq_filled sck (sn_iptr (sk_recv sck) + length bs))"
    "rtmq_unread (rtmq_poke ctx sck mem') (rtmq_filled sck (sn_iptr (sk_recv sck) + length bs)) =
      rtmq_unread ctx sck @ bs"
proof -
  let ?o = "sn_optr (sk_recv sck)" and ?i = "sn_iptr (sk_recv sck)"
  have b: "?o \<le> ?i" "?i \<le> length mem" "length mem = RTMQ_BUFF_SIZE" using assms(2) mem by (auto simp: recv_ok_def)
  let ?mem = "take ?i mem @ bs @ drop (?i + length bs) mem"
  have w: "mem_write mem ?i bs = Some ?mem" using b n by (simp add: mem_write_def)
  have l: "length ?mem = length mem" using b n by simp
  have t: "take ?o ?mem = take ?o mem" using b by (simp add: min_def)
  have "take (?i + length bs - ?o) (drop ?o ?mem) = take (?i - ?o) (drop ?o mem) @ bs"
    using b by (simp add: drop_take)
  then show thesis
    using that[OF w] inv_write[OF assms(1,2) mem l t] assms(2) l n mem
    by (auto simp: rtmq_unread_def recv_ok_def)
qed

lemma recv_ok_loop:
  "inv ctx rsvr sck \<Longrightarrow> recv_ok ctx sck \<Longrightarrow> sn_iptr (sk_recv sck) < RTMQ_BUFF_SIZE \<Longrightarrow>
   rtmq_unread ctx sck @ rtmq_arrived rds @ later = rtmq_stream ms \<Longrightarrow>
   ms \<noteq> [] \<longrightarrow> length (rtmq_unread ctx sck) < length (rtmq_wire (hd ms)) \<Longrightarrow>
   \<forall>m \<in> set ms. rtmq_good m \<and> acc m \<Longrightarrow> framed (rtmq_recv_loop hdl rds ctx rsvr sck) (obs ctx rsvr) ms later
     (fuel ctx sck (length ms) \<and> rtmq_clean rds)"
proof (induction "sum_list (map rtmq_read_size rds)" arbitrary: rds ctx rsvr sck ms rule: less_induct)
  case less
  have stop: "framed (Some (ret, ctx, rsvr, sck)) (obs ctx rsvr) ms later (fuel ctx sck (length ms) \<and> rtmq_clean rds)"
    if "ret = RTMQ_OK \<Longrightarrow> rtmq_arrived rds = []" "rtmq_clean rds \<Longrightarrow> ret = RTMQ_OK" for ret
    by (rule framedI[of _ ret ctx rsvr sck 0])
      (use less.prems that later_le[of "rtmq_unread ctx sck @ rtmq_arrived rds" later ms] in \<open>auto simp: hd_conv_nth\<close>)
  show ?case
  proof (cases rds)
    case Nil
    then show ?thesis using stop by (simp add: rtmq_recv_loop.simps[of _ "[]"])
  next
    case (Cons rd rds')
    show ?thesis
    proof (cases rd)
      case RdEof
      then show ?thesis using stop[of RTMQ_SCK_DISCONN] Cons
        by (simp add: rtmq_recv_loop.simps[of _ "_ # _"] RTMQ_SCK_DISCONN_def RTMQ_OK_def)
    next
      case RdAgain
      then show ?thesis using stop[of RTMQ_OK] Cons by (simp add: rtmq_recv_loop.simps[of _ "_ # _"])
    next
      case RdError
      then show ?thesis using stop[of RTMQ_ERR] Cons
        by (simp add: rtmq_recv_loop.simps[of _ "_ # _"] RTMQ_ERR_def RTMQ_OK_def)
    next
      case RdIntr
      then show ?thesis using less.hyps[of rds' ctx rsvr sck ms] less.prems Cons
        by (simp add: rtmq_recv_loop.simps[of _ "_ # _"])
    next
      case (RdData bs)
      let ?left = "sn_end (sk_recv sck) - sn_iptr (sk_recv sck)"
      let ?n = "min ?left (length bs)" and ?i = "sn_iptr (sk_recv sck)"
      let ?rds = "if ?n < length bs then RdData (drop ?n bs) # rds' else rds'"
      show ?thesis
      proof (cases "?n = 0")
        case True
        moreover have "bs = []" using True less.prems(2,3) by (auto simp: recv_ok_def min_def split: if_splits)
        ultimately show ?thesis using stop[of RTMQ_SCK_DISCONN] Cons RdData
          by (simp add: rtmq_recv_loop.simps[of _ "_ # _"] Let_def RTMQ_SCK_DISCONN_def RTMQ_OK_def)
      next
        case False
        obtain mem where mem: "cx_mem ctx (sn_base (sk_recv sck)) = Some mem" and e: "sn_end (sk_recv sck) = RTMQ_BUFF_SIZE"
          by (rule recv_okE[OF less.prems(2)]) blast
        have l: "length (take ?n bs) = ?n" by simp
        have "?i + length (take ?n bs) \<le> RTMQ_BUFF_SIZE" using less.prems(3) e by simp
        from fill_ok[OF less.prems(1,2) this mem] obtain mem' where
          F: "mem_write mem ?i (take ?n bs) = Some mem'"
            "inv (rtmq_poke ctx sck mem') rsvr (rtmq_filled sck (?i + ?n))"
            "obs (rtmq_poke ctx sck mem') rsvr = obs ctx rsvr"
            "\<forall>n. fuel ctx sck n \<longrightarrow> fuel (rtmq_poke ctx sck mem') (rtmq_filled sck (?i + ?n)) n"
            "recv_ok (rtmq_poke ctx sck mem') (rtmq_filled sck (?i + ?n))"
            "rtmq_unread (rtmq_poke ctx sck mem') (rtmq_filled sck (?i + ?n)) = rtmq_unread ctx sck @ take ?n bs"
          unfolding l by blast
        have arr: "take ?n bs @ rtmq_arrived ?rds = rtmq_arrived rds" using Cons RdData by simp
        have "rtmq_unread (rtmq_poke ctx sck mem') (rtmq_filled sck (?i + ?n)) @ rtmq_arrived ?rds @ later = rtmq_stream ms"
          unfolding F(6) less.prems(4)[symmetric] arr[symmetric] by simp
        from data_ok[OF F(2,5) this less.prems(6)] obtain ret c1 v1 k1 k where
          D: "rtmq_data_loop hdl (rtmq_poke ctx sck mem') rsvr (rtmq_filled sck (?i + ?n)) = Some (ret, c1, v1, k1)"
            "inv c1 v1 k1" "k \<le> length ms"
            "length (rtmq_stream (take k ms)) + length (rtmq_arrived ?rds @ later) \<le> length (rtmq_stream ms)"
            "obs c1 v1 = fold eff (take k ms) (obs ctx rsvr)"
            "ret = RTMQ_OK \<longrightarrow> recv_ok c1 k1 \<and> rtmq_unread c1 k1 @ rtmq_arrived ?rds @ later = rtmq_stream (drop k ms) \<and>
              sn_iptr (sk_recv k1) < RTMQ_BUFF_SIZE \<and>
              (k < length ms \<longrightarrow> length (rtmq_unread c1 k1) < length (rtmq_wire (ms ! k)))"
            "fuel (rtmq_poke ctx sck mem') (rtmq_filled sck (?i + ?n)) (length ms) \<longrightarrow>
              ret = RTMQ_OK \<and> fuel c1 k1 (length ms - k)"
          unfolding framed_def F(3) by blast
        have loop: "rtmq_recv_loop hdl rds ctx rsvr sck = (if ret \<noteq> RTMQ_OK then Some (RTMQ_ERR, c1, v1, k1)
            else rtmq_recv_loop hdl ?rds c1 v1 k1)"
          unfolding Cons RdData rtmq_recv_loop.simps[of hdl "RdData bs # rds'" ctx rsvr sck]
          using mem F(1) D(1) by (simp add: Let_def False)
        show ?thesis
        proof (cases "ret = RTMQ_OK")
          case False
          then show ?thesis unfolding loop using D(2-5,7) F(4)
            by (intro framedI[of _ RTMQ_ERR c1 v1 k1 k]) (auto simp: RTMQ_ERR_def RTMQ_OK_def)
        next
          case True
          have sz: "sum_list (map rtmq_read_size ?rds) < sum_list (map rtmq_read_size rds)"
            using Cons RdData False by auto
          have cl: "rtmq_clean rds \<Longrightarrow> rtmq_clean ?rds" using Cons RdData False by auto
          have "framed (rtmq_recv_loop hdl ?rds c1 v1 k1) (obs c1 v1) (drop k ms) later
              (fuel c1 k1 (length (drop k ms)) \<and> rtmq_clean ?rds)"
            by (rule less.hyps[OF sz D(2)])
              (use True D(6) less.prems(6) in \<open>auto simp: hd_drop_conv_nth dest: in_set_dropD\<close>)
          then have "framed (rtmq_recv_loop hdl ?rds c1 v1 k1) (obs c1 v1) (drop k ms) later
              (fuel ctx sck (length ms) \<and> rtmq_clean rds)"
            by (rule framed_weaken) (use D(7) F(4) cl in auto)
          then have "framed (rtmq_recv_loop hdl ?rds c1 v1 k1) (obs ctx rsvr) ms later (fuel ctx sck (length ms) \<and> rtmq_clean rds)"
            using framed_append[of _ k ms "obs ctx rsvr" later] D(3,5) by simp
          then show ?thesis using loop True by simp
        qed
      qed
    qed
  qed
qed

end

end
