(* ===== verification/Rtmq_Inv.thy ===== *)
theory Rtmq_Inv
  imports Rtmq_Frame Mref_Count
begin

text \<open>
  The state of a receiving thread and of the workers behind it: which blocks are live and who counts them,
  which items of the queues refer to which messages.  The operations on blocks keep it.
\<close>

subsection \<open>Blocks\<close>

text \<open>A block has memory as long as it is counted, and \<open>calloc\<close> returns \<open>NULL\<close> or a block that is not in use.\<close>

definition blocks_ok :: "rtmq_cntx \<Rightarrow> bool" where
  "blocks_ok ctx \<longleftrightarrow> mref_ok (cx_mref ctx) \<and>
     (\<forall>b. cx_mem ctx b = None \<longleftrightarrow> mref_count (cx_mref ctx) b = 0) \<and>
     (\<forall>mf. mref_ok mf \<and> cx_calloc ctx mf \<noteq> 0 \<longrightarrow> cx_calloc ctx mf < half64 \<and> mref_count mf (cx_calloc ctx mf) = 0)"

lemma block_alloc_cases:
  assumes "blocks_ok ctx" and "0 < sz"
  obtains (none) "rtmq_block_alloc ctx sz = Some (0, ctx)" "cx_calloc ctx (cx_mref ctx) = 0"
    | (new) a mf where "rtmq_block_alloc ctx sz = Some (a, ctx\<lparr>cx_mref := mf, cx_mem := (cx_mem ctx)(a \<mapsto> replicate sz 0)\<rparr>)"
      "a \<noteq> 0" "mref_count (cx_mref ctx) a = 0" "cx_mem ctx a = None" "mref_ok mf"
      "mref_count mf = (mref_count (cx_mref ctx))(a := 1)"
      "blocks_ok (ctx\<lparr>cx_mref := mf, cx_mem := (cx_mem ctx)(a \<mapsto> replicate sz 0)\<rparr>)"
proof (cases "cx_calloc ctx (cx_mref ctx) = 0")
  case True
  have "ctx\<lparr>cx_mref := cx_mref ctx\<rparr> = ctx" by simp
  then show ?thesis using True assms(2) none by (simp add: rtmq_block_alloc_def mref_alloc_def)
next
  case False
  let ?a = "cx_calloc ctx (cx_mref ctx)"
  have ok: "mref_ok (cx_mref ctx)" and a: "?a < half64" "mref_count (cx_mref ctx) ?a = 0" "0 < ?a"
    using assms(1) False by (simp_all add: blocks_ok_def word_gt_0)
  obtain mf where "mref_alloc (cx_mref ctx) sz 0 ?a 0 = Some (?a, mf)" "mref_ok mf"
      "mref_count mf = (mref_count (cx_mref ctx))(?a := 1)"
    using mref_alloc_new[OF ok a(2,3,1) assms(2)] by blast
  then show ?thesis using new[of ?a mf] False a assms(1) by (auto simp: rtmq_block_alloc_def blocks_ok_def)
qed

lemma block_dec_ok:
  assumes "blocks_ok ctx" and "0 < mref_count (cx_mref ctx) a"
  obtains mf where "rtmq_block_dec ctx a = Some (ctx\<lparr>cx_mref := mf,
      cx_mem := if mref_count (cx_mref ctx) a = 1 then (cx_mem ctx)(a := None) else cx_mem ctx\<rparr>)"
    "mref_ok mf" "mref_count mf = (mref_count (cx_mref ctx))(a := mref_count (cx_mref ctx) a - 1)"
    "blocks_ok (ctx\<lparr>cx_mref := mf,
      cx_mem := if mref_count (cx_mref ctx) a = 1 then (cx_mem ctx)(a := None) else cx_mem ctx\<rparr>)"
proof -
  let ?m = "cx_mref ctx"
  have ok: "mref_ok ?m" using assms(1) by (simp add: blocks_ok_def)
  obtain mf where mf: "mref_dec ?m a = Some (int (mref_count ?m a - 1), mf)" "mref_ok mf"
      "mref_count mf = (mref_count ?m)(a := mref_count ?m a - 1)"
      "map (snd \<circ> snd) (mf_freed mf) = map (snd \<circ> snd) (mf_freed ?m) @ (if mref_count ?m a = 1 then [a] else [])"
    using mref_dec_live[OF ok assms(2)] by blast
  have "map (snd \<circ> snd) (drop (length (mf_freed ?m)) (mf_freed mf)) =
      drop (length (map (snd \<circ> snd) (mf_freed ?m))) (map (snd \<circ> snd) (mf_freed mf))" by (simp add: drop_map)
  also have "\<dots> = (if mref_count ?m a = 1 then [a] else [])" unfolding mf(4) by simp
  finally have g: "map (snd \<circ> snd) (drop (length (mf_freed ?m)) (mf_freed mf)) = (if mref_count ?m a = 1 then [a] else [])" .
  from arg_cong[OF g, of set] have g': "(\<lambda>x. snd (snd x)) ` set (drop (length (mf_freed ?m)) (mf_freed mf)) =
      (if mref_count ?m a = 1 then {a} else {})" by (auto split: if_splits)
  have r: "f |` (- {a}) = f(a := None)" "f |` (- {}) = f" for f :: "u64 \<rightharpoonup> u8 list"
    by (auto simp: restrict_map_def fun_eq_iff)
  have "rtmq_block_dec ctx a = Some (ctx\<lparr>cx_mref := mf,
      cx_mem := if mref_count ?m a = 1 then (cx_mem ctx)(a := None) else cx_mem ctx\<rparr>)"
    using r[of "cx_mem ctx"] g' by (simp add: rtmq_block_dec_def Let_def mf(1))
  then show ?thesis using that mf(2,3) assms by (auto simp: blocks_ok_def)
qed

lemma blocks_ok_write:
  assumes "blocks_ok ctx" and "cx_mem ctx b = Some mem"
  shows "blocks_ok (ctx\<lparr>cx_mem := (cx_mem ctx)(b \<mapsto> mem')\<rparr>)"
proof -
  have "mref_count (cx_mref ctx) b \<noteq> 0" using assms unfolding blocks_ok_def by (metis option.distinct(1))
  then show ?thesis using assms(1) by (simp add: blocks_ok_def)
qed

lemma blocks_okD: "blocks_ok ctx \<Longrightarrow> mref_ok (cx_mref ctx)" "blocks_ok ctx \<Longrightarrow> (cx_mem ctx b = None) = (mref_count (cx_mref ctx) b = 0)"
  by (simp_all add: blocks_ok_def)

subsection \<open>Items\<close>

text \<open>Item \<open>p\<close> is the message \<open>m\<close>; in the buffer that is being filled it lies among those that were dealt with.\<close>

definition item_is :: "rtmq_cntx \<Rightarrow> rtmq_snap \<Rightarrow> addr \<Rightarrow> rtmq_header \<times> u8 list \<Rightarrow> bool" where
  "item_is ctx cur p m \<longleftrightarrow> (\<exists>base off mem. cx_items ctx p = Some (base, off) \<and> cx_mem ctx base = Some mem \<and>
     mesg_at mem off m \<and> length (snd m) = unat (hd_length (fst m)) \<and>
     (base = sn_base cur \<longrightarrow> off + 20 + length (snd m) \<le> sn_optr cur))"

definition rq_item :: "rtmq_cntx \<Rightarrow> addr \<Rightarrow> (rtmq_header \<times> u8 list) option" where
  "rq_item ctx p = do {
     (base, off) \<leftarrow> cx_items ctx p;
     mem \<leftarrow> cx_mem ctx base;
     head \<leftarrow> rtmq_head_load mem off;
     body \<leftarrow> mem_read mem (off + 20) (unat (hd_length head));
     Some (head, body) }"

lemma item_is_read: "item_is ctx cur p m \<Longrightarrow> rq_item ctx p = Some m"
  unfolding item_is_def rq_item_def using mesg_at_load by fastforce

text \<open>What keeps the items as they are: memory of other blocks stays, the current buffer keeps what was dealt with.\<close>

lemma item_is_keep:
  assumes "item_is ctx cur p m" and "cx_items ctx' p = cx_items ctx p"
    and "\<And>base off mem. cx_items ctx p = Some (base, off) \<Longrightarrow> cx_mem ctx base = Some mem \<Longrightarrow>
      \<exists>mem'. cx_mem ctx' base = Some mem' \<and> length mem' = length mem \<and>
        (if base = sn_base cur then take (sn_optr cur) mem' = take (sn_optr cur) mem else mem' = mem) \<and>
        (base = sn_base cur' \<longrightarrow> base = sn_base cur \<and> sn_optr cur \<le> sn_optr cur')"
  shows "item_is ctx' cur' p m"
proof -
  obtain base off mem where i: "cx_items ctx p = Some (base, off)" "cx_mem ctx base = Some mem" "mesg_at mem off m"
      "length (snd m) = unat (hd_length (fst m))" "base = sn_base cur \<longrightarrow> off + 20 + length (snd m) \<le> sn_optr cur"
    using assms(1) unfolding item_is_def by blast
  obtain mem' where m: "cx_mem ctx' base = Some mem'" "length mem' = length mem"
      "if base = sn_base cur then take (sn_optr cur) mem' = take (sn_optr cur) mem else mem' = mem"
      "base = sn_base cur' \<longrightarrow> base = sn_base cur \<and> sn_optr cur \<le> sn_optr cur'"
    using assms(3)[OF i(1,2)] by blast
  have "mesg_at mem' off m"
    using mesg_at_take[OF i(3)] i(3,5) m(2,3) by (cases "base = sn_base cur") (simp_all split: if_splits)
  then show ?thesis unfolding item_is_def using i m assms(2) by fastforce
qed

text \<open>The items of each queue: those a worker has taken but not yet finished, then those in the ring.\<close>

abbreviation rq_addrs :: "queue \<Rightarrow> addr list" where "rq_addrs q \<equiv> ring_items (qu_ring q)"

definition rq_pend :: "addr list list \<Rightarrow> rtmq_cntx \<Rightarrow> addr list list" where
  "rq_pend held ctx = map (\<lambda>i. held ! i @ rq_addrs (cx_recvq ctx ! i)) [0..<length (cx_recvq ctx)]"

definition queue_good :: "queue \<Rightarrow> addr list \<Rightarrow> addr list \<Rightarrow> bool" where
  "queue_good q held blocks \<longleftrightarrow> ring_ok (qu_ring q) \<and> 16 \<le> sl_size (qu_slot q) \<and>
     pool_ok (qu_slot q) (mset (held @ rq_addrs q)) blocks \<and> length blocks \<le> ring_cap (qu_ring q)"

definition rq_refs :: "rtmq_cntx \<Rightarrow> addr list list \<Rightarrow> u64 \<Rightarrow> nat" where
  "rq_refs ctx pend b = count (image_mset (\<lambda>p. fst (the (cx_items ctx p))) (mset (concat pend))) b"

text \<open>
  \<open>blks\<close>: the blocks of the pool of each queue; \<open>held\<close>: what the workers hold; \<open>ext\<close>: how often other
  connections count a block.
\<close>

definition rq_inv :: "addr list list \<Rightarrow> (u64 \<Rightarrow> nat) \<Rightarrow> u32 \<Rightarrow> (int \<rightharpoonup> nat) \<Rightarrow> addr list list \<Rightarrow> rtmq_cntx \<Rightarrow> rtmq_sck \<Rightarrow> bool" where
  "rq_inv blks ext N reg held ctx sck \<longleftrightarrow> blocks_ok ctx \<and> cx_recvq ctx \<noteq> [] \<and>
     length blks = length (cx_recvq ctx) \<and> length held = length (cx_recvq ctx) \<and> distinct (concat blks) \<and>
     (\<forall>i < length (cx_recvq ctx). queue_good (cx_recvq ctx ! i) (held ! i) (blks ! i)) \<and>
     (\<forall>p \<in> set (concat (rq_pend held ctx)). \<exists>m. item_is ctx (sk_recv sck) p m) \<and>
     (\<forall>b. mref_count (cx_mref ctx) b = ext b + rq_refs ctx (rq_pend held ctx) b + count_list (sk_mesg_list sck) b +
        (if b = sn_base (sk_recv sck) then 1 else 0)) \<and>
     sn_base (sk_recv sck) \<notin> set (sk_mesg_list sck) \<and> (\<forall>b. ext b + length (concat blks) + 1 < MREF_LIM) \<and>
     sk_auth_succ sck \<and> sk_nid sck = N \<and> cx_reg ctx = reg"

lemma rq_invD:
  assumes "rq_inv blks ext N reg held ctx sck"
  shows "blocks_ok ctx" "cx_recvq ctx \<noteq> []" "length blks = length (cx_recvq ctx)" "length held = length (cx_recvq ctx)"
    "distinct (concat blks)" "i < length (cx_recvq ctx) \<Longrightarrow> queue_good (cx_recvq ctx ! i) (held ! i) (blks ! i)"
    "p \<in> set (concat (rq_pend held ctx)) \<Longrightarrow> \<exists>m. item_is ctx (sk_recv sck) p m"
    "mref_count (cx_mref ctx) b = ext b + rq_refs ctx (rq_pend held ctx) b + count_list (sk_mesg_list sck) b +
        (if b = sn_base (sk_recv sck) then 1 else 0)"
    "sn_base (sk_recv sck) \<notin> set (sk_mesg_list sck)" "ext b + length (concat blks) + 1 < MREF_LIM"
    "sk_auth_succ sck" "sk_nid sck = N" "cx_reg ctx = reg"
  using assms unfolding rq_inv_def by blast+

lemma rq_pend_cong: "cx_recvq ctx' = cx_recvq ctx \<Longrightarrow> rq_pend held ctx' = rq_pend held ctx"
  by (simp add: rq_pend_def)

lemma rq_refs_pos:
  assumes "p \<in> set (concat pend)" and "cx_items ctx p = Some (b, off)" shows "0 < rq_refs ctx pend b"
proof -
  have "b \<in># image_mset (\<lambda>p. fst (the (cx_items ctx p))) (mset (concat pend))"
    using assms by (auto simp del: set_concat intro!: image_eqI[of b _ p])
  then show ?thesis unfolding rq_refs_def by simp
qed

text \<open>What is observed: the messages waiting at each queue, the random numbers to come, the counters.\<close>

type_synonym rtmq_view = "(rtmq_header \<times> u8 list) list list \<times> nat list \<times> u64 \<times> u64"

definition rtmq_obs :: "addr list list \<Rightarrow> rtmq_cntx \<Rightarrow> rtmq_rsvr \<Rightarrow> rtmq_view" where
  "rtmq_obs held ctx rsvr = (map (map (the \<circ> rq_item ctx)) (rq_pend held ctx), cx_rand ctx,
     rv_recv_total rsvr, rv_drop_total rsvr)"

lemma rq_inv_keep:
  assumes inv: "rq_inv blks ext N reg held ctx sck"
    and same: "cx_recvq ctx' = cx_recvq ctx" "cx_items ctx' = cx_items ctx" "cx_rand ctx' = cx_rand ctx" "blocks_ok ctx'"
      "cx_reg ctx' = cx_reg ctx"
    and sck': "sk_auth_succ sck'" "sk_nid sck' = N" "sn_base (sk_recv sck') \<notin> set (sk_mesg_list sck')"
    and cnt: "\<And>b. mref_count (cx_mref ctx') b = ext b + rq_refs ctx (rq_pend held ctx) b +
      count_list (sk_mesg_list sck') b + (if b = sn_base (sk_recv sck') then 1 else 0)"
    and mem: "\<And>b mem. cx_mem ctx b = Some mem \<Longrightarrow> 0 < rq_refs ctx (rq_pend held ctx) b \<Longrightarrow>
      \<exists>mem'. cx_mem ctx' b = Some mem' \<and> length mem' = length mem \<and>
        (if b = sn_base (sk_recv sck) then take (sn_optr (sk_recv sck)) mem' = take (sn_optr (sk_recv sck)) mem
         else mem' = mem) \<and>
        (b = sn_base (sk_recv sck') \<longrightarrow> b = sn_base (sk_recv sck) \<and> sn_optr (sk_recv sck) \<le> sn_optr (sk_recv sck'))"
  shows "rq_inv blks ext N reg held ctx' sck' \<and> rtmq_obs held ctx' rsvr = rtmq_obs held ctx rsvr"
proof -
  note I = rq_invD[OF inv]
  have P: "rq_pend held ctx' = rq_pend held ctx" by (rule rq_pend_cong[OF same(1)])
  have K: "item_is ctx' (sk_recv sck') p m"
    if "item_is ctx (sk_recv sck) p m" "p \<in> set (concat (rq_pend held ctx))" for p m
    by (rule item_is_keep[OF that(1)]) (use same(2) mem rq_refs_pos[OF that(2)] in auto)
  have "rq_item ctx' p = rq_item ctx p" if p: "p \<in> set (concat (rq_pend held ctx))" for p
    using I(7)[OF p] K[OF _ p] item_is_read by metis
  then have "\<forall>xs \<in> set (rq_pend held ctx). \<forall>p \<in> set xs. rq_item ctx' p = rq_item ctx p" by auto
  then have "rtmq_obs held ctx' rsvr = rtmq_obs held ctx rsvr" unfolding rtmq_obs_def P using same(3) by simp
  moreover have R: "rq_refs ctx' = rq_refs ctx" by (simp add: fun_eq_iff rq_refs_def same(2))
  moreover have "rq_inv blks ext N reg held ctx' sck'"
    unfolding rq_inv_def P R same(1) using I(2-6,10,13) same(4,5) sck' cnt I(7) K by metis
  ultimately show ?thesis by blast
qed

text \<open>
  What a message does: a keepalive request nothing that is observed, a message from another node is counted as dropped, any
  other goes to a random queue, or is dropped when as many messages as the queue has blocks wait there.
\<close>

definition rtmq_eff :: "u32 \<Rightarrow> nat list \<Rightarrow> rtmq_header \<times> u8 list \<Rightarrow> rtmq_view \<Rightarrow> rtmq_view" where
  "rtmq_eff N caps m = (\<lambda>(qs, rs, n, d).
     if hd_flag (fst m) = RTMQ_SYS_MESG then (qs, rs, n, d)
     else if hd_nid (fst m) \<noteq> N then (qs, rs, n + 1, d + 1)
     else let i = (case rs of [] \<Rightarrow> 0 | r # _ \<Rightarrow> r) mod length caps in
       if length (qs ! i) < caps ! i then (qs[i := qs ! i @ [m]], tl rs, n + 1, d)
       else (qs, tl rs, n + 1, d + 1))"

definition rtmq_plain :: "rtmq_header \<times> u8 list \<Rightarrow> bool" where
  "rtmq_plain m \<longleftrightarrow> hd_flag (fst m) = RTMQ_SYS_MESG \<longrightarrow> hd_type (fst m) = RTMQ_CMD_KPALIVE_REQ"

lemma rq_obs_write:
  assumes inv: "rq_inv blks ext N reg held ctx sck" and r: "recv_ok ctx sck"
    and mem: "cx_mem ctx (sn_base (sk_recv sck)) = Some mem" "length mem' = length mem"
      "take (sn_optr (sk_recv sck)) mem' = take (sn_optr (sk_recv sck)) mem"
  shows "rq_inv blks ext N reg held (rtmq_poke ctx sck mem') (rtmq_filled sck i) \<and>
    rtmq_obs held (rtmq_poke ctx sck mem') rsvr = rtmq_obs held ctx rsvr"
proof -
  note I = rq_invD[OF inv]
  have b: "blocks_ok (rtmq_poke ctx sck mem')" by (rule blocks_ok_write[OF I(1) mem(1)])
  show ?thesis
  proof (rule rq_inv_keep[OF inv])
    show "blocks_ok (rtmq_poke ctx sck mem')" by (rule b)
  qed (use I(8-12) mem in auto)
qed

subsection \<open>The queues\<close>

lemma distinct_concat_nth:
  "distinct (concat xs) \<Longrightarrow> i < length xs \<Longrightarrow> j < length xs \<Longrightarrow> x \<in> set (xs ! i) \<Longrightarrow> x \<in> set (xs ! j) \<Longrightarrow> i = j"
proof (induction xs arbitrary: i j)
  case (Cons y ys)
  have *: "x \<notin> set y" if "k < length ys" "x \<in> set (ys ! k)" for k
    using Cons.prems(1) that nth_mem by fastforce
  show ?case using Cons * by (cases i; cases j) auto
qed simp

lemma mset_concat_snoc:
  "i < length xs \<Longrightarrow> mset (concat (xs[i := xs ! i @ ys])) = mset (concat xs) + mset ys"
  by (induction xs arbitrary: i) (auto split: nat.splits)

lemma rq_pend_simps [simp]:
  "length (rq_pend held ctx) = length (cx_recvq ctx)"
  "i < length (cx_recvq ctx) \<Longrightarrow> rq_pend held ctx ! i = held ! i @ rq_addrs (cx_recvq ctx ! i)"
  by (simp_all add: rq_pend_def)

lemma rq_pend_upd:
  assumes "i < length (cx_recvq ctx)" and "cx_recvq ctx' = (cx_recvq ctx)[i := q]"
    and "rq_addrs q = rq_addrs (cx_recvq ctx ! i) @ xs"
  shows "rq_pend held ctx' = (rq_pend held ctx)[i := rq_pend held ctx ! i @ xs]"
  using assms by (intro nth_equalityI) (auto simp: nth_list_update)

lemma queue_good_blocks:
  assumes "queue_good q h blocks"
  shows "set (h @ rq_addrs q) \<subseteq> set blocks" "length (h @ rq_addrs q) \<le> length blocks"
proof -
  let ?r = "mset (ring_items (sl_ring (qu_slot q)))"
  have m: "?r + mset (h @ rq_addrs q) = mset blocks" using assms by (simp add: queue_good_def pool_ok_def)
  have "mset (h @ rq_addrs q) \<subseteq># mset blocks" by (subst m[symmetric]) (rule mset_subset_eq_add_right)
  then show "set (h @ rq_addrs q) \<subseteq> set blocks" "length (h @ rq_addrs q) \<le> length blocks"
    by (metis set_mset_mset set_mset_mono, metis size_mset size_mset_mono)
qed

lemma rq_fresh:
  assumes inv: "rq_inv blks ext N reg held ctx sck" and i: "i < length (cx_recvq ctx)"
    and p: "p \<in> set (blks ! i)" "p \<notin> set (held ! i @ rq_addrs (cx_recvq ctx ! i))"
  shows "p \<notin> set (concat (rq_pend held ctx))"
proof
  note I = rq_invD[OF inv]
  assume "p \<in> set (concat (rq_pend held ctx))"
  then obtain j where j: "j < length (cx_recvq ctx)" "p \<in> set (held ! j @ rq_addrs (cx_recvq ctx ! j))"
    by (auto simp: in_set_conv_nth[of _ "rq_pend held ctx"])
  then have "p \<in> set (blks ! j)" using queue_good_blocks(1)[OF I(6)[OF j(1)]] by blast
  then have "i = j" using distinct_concat_nth[OF I(5)] i j(1) p(1) I(3) by simp
  then show False using p(2) j(2) by simp
qed

lemma rq_pend_len:
  assumes "rq_inv blks ext N reg held ctx sck"
  shows "length (concat (rq_pend held ctx)) \<le> length (concat blks)"
proof -
  note I = rq_invD[OF assms]
  have "length (concat (rq_pend held ctx)) = (\<Sum>i = 0..<length (cx_recvq ctx). length (rq_pend held ctx ! i))"
    by (simp add: length_concat sum_list_sum_nth)
  also have "\<dots> \<le> (\<Sum>i = 0..<length (cx_recvq ctx). length (blks ! i))"
    using queue_good_blocks(2)[OF I(6)] by (intro sum_mono) simp
  also have "\<dots> = length (concat blks)" by (simp add: length_concat sum_list_sum_nth I(3))
  finally show ?thesis .
qed

lemma rq_refs_le:
  assumes "rq_inv blks ext N reg held ctx sck"
  shows "rq_refs ctx (rq_pend held ctx) b \<le> length (concat blks)"
proof -
  have "rq_refs ctx (rq_pend held ctx) b \<le> length (concat (rq_pend held ctx))"
    unfolding rq_refs_def by (metis count_le_size mset_map size_mset length_map)
  then show ?thesis using rq_pend_len[OF assms] by simp
qed

text \<open>
  Memory for \<open>n\<close> more messages: \<open>calloc\<close> succeeds as long as at most \<open>K\<close> blocks are live, and so many never are.
\<close>

definition rq_fuel :: "nat \<Rightarrow> addr list list \<Rightarrow> (u64 \<Rightarrow> nat) \<Rightarrow> rtmq_cntx \<Rightarrow> rtmq_sck \<Rightarrow> nat \<Rightarrow> bool" where
  "rq_fuel K blks ext ctx sck n \<longleftrightarrow> cx_allocs ctx = [] \<and>
     (\<forall>mf. mref_ok mf \<and> card {b. mref_count mf b \<noteq> 0} \<le> K \<longrightarrow> cx_calloc ctx mf \<noteq> 0) \<and>
     card {b. ext b \<noteq> 0} + length (concat blks) + length (sk_mesg_list sck) + 1 + n \<le> K"

lemma rq_live_card:
  assumes "rq_inv blks ext N reg held ctx sck"
  shows "card {b. mref_count (cx_mref ctx) b \<noteq> 0} \<le> card {b. ext b \<noteq> 0} + length (concat blks) + length (sk_mesg_list sck) + 1"
proof -
  note I = rq_invD[OF assms]
  let ?A = "{b. ext b \<noteq> 0}" and ?B = "{b. rq_refs ctx (rq_pend held ctx) b \<noteq> 0}"
  let ?R = "image_mset (\<lambda>p. fst (the (cx_items ctx p))) (mset (concat (rq_pend held ctx)))"
  have "?B = set_mset ?R" by (simp only: rq_refs_def count_eq_zero_iff) auto
  then have B: "card ?B \<le> length (concat blks)"
    using rq_pend_len[OF assms] by (metis (no_types, lifting) card_length le_trans length_map mset_map set_mset_mset)
  have "{b. mref_count (cx_mref ctx) b \<noteq> 0} \<subseteq> ?A \<union> ?B \<union> set (sk_mesg_list sck) \<union> {sn_base (sk_recv sck)}"
    using I(8) by (auto simp: count_list_0_iff split: if_splits)
  then have "card {b. mref_count (cx_mref ctx) b \<noteq> 0} \<le> card (?A \<union> ?B \<union> set (sk_mesg_list sck) \<union> {sn_base (sk_recv sck)})"
    by (rule card_mono[rotated]) simp
  also have "\<dots> \<le> card ?A + card ?B + card (set (sk_mesg_list sck)) + card {sn_base (sk_recv sck)}"
    by (meson add_le_mono card_Un_le le_refl le_trans)
  finally show ?thesis using B card_length[of "sk_mesg_list sck"] by simp
qed

lemma rq_fuel_calloc:
  assumes "rq_inv blks ext N reg held ctx sck" and "rq_fuel K blks ext ctx sck n"
  shows "cx_calloc ctx (cx_mref ctx) \<noteq> 0"
  using rq_live_card[OF assms(1)] assms(2) blocks_okD(1)[OF rq_invD(1)[OF assms(1)]] by (simp add: rq_fuel_def)

lemma mem_read_len: "mem_read mem off n = Some bs \<Longrightarrow> length bs = n"
  by (auto simp: mem_read_def split: if_splits)

lemma rq_obs_switch:
  assumes inv: "rq_inv blks ext N reg held ctx sck" and r: "recv_ok ctx sck"
  shows "\<exists>ret ctx' sck'. rtmq_rsvr_switch_recv_buff ctx sck = Some (ret, ctx', sck') \<and> rq_inv blks ext N reg held ctx' sck' \<and>
    rtmq_obs held ctx' rsvr = rtmq_obs held ctx rsvr \<and> (ret = RTMQ_OK \<longrightarrow> recv_ok ctx' sck' \<and>
      rtmq_unread ctx' sck' = rtmq_unread ctx sck \<and> sn_iptr (sk_recv sck') = length (rtmq_unread ctx sck)) \<and>
    (\<forall>n. rq_fuel K blks ext ctx sck n \<longrightarrow> ret = RTMQ_OK \<and> rq_fuel K blks ext ctx' sck' n)"
proof -
  note I = rq_invD[OF inv]
  let ?old = "sk_recv sck" let ?b = "sn_base ?old" let ?u = "rtmq_unread ctx sck"
  obtain mem where mem: "cx_mem ctx ?b = Some mem" "length mem = RTMQ_BUFF_SIZE" "sn_end ?old = RTMQ_BUFF_SIZE"
      "sn_optr ?old \<le> sn_iptr ?old" "sn_iptr ?old \<le> RTMQ_BUFF_SIZE"
      "?u = take (sn_iptr ?old - sn_optr ?old) (drop (sn_optr ?old) mem)" "length ?u = sn_iptr ?old - sn_optr ?old"
    by (rule recv_okE[OF r])
  have sz: "0 < RTMQ_BUFF_SIZE" by (simp add: RTMQ_BUFF_SIZE_def)
  from I(1) sz show ?thesis
  proof (cases rule: block_alloc_cases)
    case none
    moreover have "\<not> rq_fuel K blks ext ctx sck n" for n using rq_fuel_calloc[OF inv] none(2) by blast
    ultimately show ?thesis using inv
      by (simp add: rtmq_rsvr_switch_recv_buff_def rtmq_rsvr_alloc_recv_buff_def Let_def RTMQ_ERR_def RTMQ_OK_def)
  next
    case (new a mf)
    let ?z = "replicate RTMQ_BUFF_SIZE (0 :: u8)"
    let ?c1 = "ctx\<lparr>cx_mref := mf, cx_mem := (cx_mem ctx)(a \<mapsto> ?z)\<rparr>"
    let ?new = "?u @ drop (length ?u) ?z"
    let ?c2 = "ctx\<lparr>cx_mref := mf, cx_mem := (cx_mem ctx)(a \<mapsto> ?new)\<rparr>"
    have ab: "a \<noteq> ?b" using new(4) mem(1) by auto
    have "blocks_ok (?c1\<lparr>cx_mem := (cx_mem ?c1)(a \<mapsto> ?new)\<rparr>)" by (rule blocks_ok_write[OF new(7)]) simp
    then have ok2: "blocks_ok ?c2" by simp
    have cb: "mref_count (cx_mref ctx) ?b = Suc (ext ?b + rq_refs ctx (rq_pend held ctx) ?b)"
      using I(8)[of ?b] I(9) by (simp add: count_list_0_iff)
    have a0: "ext a = 0" "rq_refs ctx (rq_pend held ctx) a = 0" "a \<notin> set (sk_mesg_list sck)"
      using I(8)[of a] new(3) ab by (simp_all add: count_list_0_iff)
    have cb2: "0 < mref_count (cx_mref ?c2) ?b" using cb ab new(6) by simp
    obtain mf2 where D: "rtmq_block_dec ?c2 ?b = Some (?c2\<lparr>cx_mref := mf2, cx_mem :=
          if mref_count (cx_mref ?c2) ?b = 1 then (cx_mem ?c2)(?b := None) else cx_mem ?c2\<rparr>)"
        "mref_ok mf2" "mref_count mf2 = (mref_count (cx_mref ?c2))(?b := mref_count (cx_mref ?c2) ?b - 1)"
        "blocks_ok (?c2\<lparr>cx_mref := mf2, cx_mem :=
          if mref_count (cx_mref ?c2) ?b = 1 then (cx_mem ?c2)(?b := None) else cx_mem ?c2\<rparr>)"
      by (rule block_dec_ok[OF ok2 cb2])
    let ?c3 = "?c2\<lparr>cx_mref := mf2, cx_mem :=
          if mref_count (cx_mref ?c2) ?b = 1 then (cx_mem ?c2)(?b := None) else cx_mem ?c2\<rparr>"
    let ?s = "sck\<lparr>sk_recv := (rtmq_snap_setup a RTMQ_BUFF_SIZE)\<lparr>sn_iptr := length ?u\<rparr>\<rparr>"
    have u: "length ?u \<le> RTMQ_BUFF_SIZE" using mem by simp
    have run: "rtmq_rsvr_switch_recv_buff ctx sck = Some (RTMQ_OK, ?c3, ?s)"
      using new(1,2) ab mem u D(1)
      by (simp add: rtmq_rsvr_switch_recv_buff_def rtmq_rsvr_alloc_recv_buff_def Let_def rtmq_snap_setup_def
          mem_read_def mem_write_def)
    define M where "M = cx_mem ?c3"
    have c3: "?c3 = ctx\<lparr>cx_mref := mf2, cx_mem := M\<rparr>" by (simp add: M_def)
    have M: "M b = (if b = a then Some ?new else if b = ?b then
        (if rq_refs ctx (rq_pend held ctx) ?b = 0 \<and> ext ?b = 0 then None else Some mem) else cx_mem ctx b)" for b
      using cb ab new(6) mem(1) by (simp add: M_def)
    have cnt: "mref_count mf2 b = ext b + rq_refs ctx (rq_pend held ctx) b + count_list (sk_mesg_list sck) b +
        (if b = a then 1 else 0)" for b
      using cb ab new(6) I(8)[of b] I(9) a0 by (auto simp: D(3) count_list_0_iff)
    have K: "rq_inv blks ext N reg held ?c3 ?s \<and> rtmq_obs held ?c3 rsvr = rtmq_obs held ctx rsvr" unfolding c3
    proof (rule rq_inv_keep[OF inv])
      show "blocks_ok (ctx\<lparr>cx_mref := mf2, cx_mem := M\<rparr>)" using D(4) unfolding c3 .
    qed (use M cnt I(11,12) a0 mem in \<open>auto simp: rtmq_snap_setup_def\<close>)
    have "recv_ok ?c3 ?s \<and> rtmq_unread ?c3 ?s = ?u \<and> sn_iptr (sk_recv ?s) = length ?u"
      using u ab by (simp add: recv_ok_def rtmq_unread_def rtmq_snap_setup_def)
    moreover have "rq_fuel K blks ext ctx sck n \<Longrightarrow> rq_fuel K blks ext ?c3 ?s n" for n by (simp add: rq_fuel_def)
    ultimately show ?thesis using run K by blast
  qed
qed

lemma rq_inv_irrelevant [simp]:
  "rq_inv blks ext N reg held (ctx\<lparr>cx_rand := rs\<rparr>) sck = rq_inv blks ext N reg held ctx sck"
  "rq_inv blks ext N reg held (ctx\<lparr>cx_cmds := cs\<rparr>) sck = rq_inv blks ext N reg held ctx sck"
  "rq_inv blks ext N reg held (ctx\<lparr>cx_allocs := al\<rparr>) sck = rq_inv blks ext N reg held ctx sck"
  by (simp_all add: rq_inv_def blocks_ok_def rq_pend_def rq_refs_def item_is_def)

lemma rq_pend_irrelevant [simp]:
  "rq_pend held (ctx\<lparr>cx_rand := rs\<rparr>) = rq_pend held ctx" "rq_pend held (ctx\<lparr>cx_cmds := cs\<rparr>) = rq_pend held ctx"
  "rq_pend held (ctx\<lparr>cx_allocs := al\<rparr>) = rq_pend held ctx" "rq_item (ctx\<lparr>cx_rand := rs\<rparr>) = rq_item ctx"
  "rq_item (ctx\<lparr>cx_cmds := cs\<rparr>) = rq_item ctx" "rq_item (ctx\<lparr>cx_allocs := al\<rparr>) = rq_item ctx"
  by (simp_all add: rq_pend_def rq_item_def fun_eq_iff cong del: bind_weak_cong)

lemma cmd_all [simp]: "\<exists>cs. rtmq_rsvr_cmd_proc_all_req ctx = ctx\<lparr>cx_cmds := cs\<rparr>"
proof -
  have "\<exists>cs. fold (\<lambda>idx ctx. rtmq_rsvr_cmd_proc_req ctx idx) is ctx = ctx\<lparr>cx_cmds := cs\<rparr>" for "is"
  proof (induction "is" arbitrary: ctx)
    case Nil
    have "ctx = ctx\<lparr>cx_cmds := cx_cmds ctx\<rparr>" by simp
    then show ?case by (intro exI[of _ "cx_cmds ctx"]) simp
  next
    case (Cons i "is")
    obtain cs where "fold (\<lambda>idx ctx. rtmq_rsvr_cmd_proc_req ctx idx) is (rtmq_rsvr_cmd_proc_req ctx i) =
        (rtmq_rsvr_cmd_proc_req ctx i)\<lparr>cx_cmds := cs\<rparr>" using Cons by blast
    then show ?case by (auto simp: rtmq_rsvr_cmd_proc_req_def)
  qed
  then show ?thesis by (simp add: rtmq_rsvr_cmd_proc_all_req_def)
qed

end
