(* ===== verification/Rtmq_Hdl.thy ===== *)
theory Rtmq_Hdl
  imports Rtmq_Inv
begin

text \<open>
  The handlers of messages and the worker keep the invariant and do what \<open>rtmq_eff\<close> says.
\<close>

subsection \<open>A message of the application\<close>

lemma rq_pushed:
  assumes inv: "rq_inv blks ext N reg held ctx sck" and i: "i < length (cx_recvq ctx)"
    and p: "p \<in> set (blks ! i)" "p \<notin> set (held ! i @ rq_addrs (cx_recvq ctx ! i))"
    and q: "queue_good q (held ! i) (blks ! i)" "rq_addrs q = rq_addrs (cx_recvq ctx ! i) @ [p]"
    and mf: "mref_ok mf" "mref_count mf = (mref_count (cx_mref ctx))
      (sn_base (sk_recv sck) := mref_count (cx_mref ctx) (sn_base (sk_recv sck)) + 1)"
    and mem: "cx_mem ctx (sn_base (sk_recv sck)) = Some mem" and m: "mesg_at mem (sn_optr (sk_recv sck)) m" "rtmq_good m"
    and ctx': "ctx' = ctx\<lparr>cx_mref := mf, cx_items := (cx_items ctx)(p \<mapsto> (sn_base (sk_recv sck), sn_optr (sk_recv sck))),
      cx_recvq := (cx_recvq ctx)[i := q]\<rparr>"
  shows "rq_inv blks ext N reg held ctx' (rtmq_advance sck (20 + length (snd m)))"
    "map (map (the \<circ> rq_item ctx')) (rq_pend held ctx') = (map (map (the \<circ> rq_item ctx)) (rq_pend held ctx))
      [i := map (map (the \<circ> rq_item ctx)) (rq_pend held ctx) ! i @ [m]]"
proof -
  note I = rq_invD[OF inv]
  let ?b = "sn_base (sk_recv sck)" and ?k = "rtmq_advance sck (20 + length (snd m))"
  let ?P = "rq_pend held ctx" and ?P' = "rq_pend held ctx'"
  have P': "?P' = ?P[i := ?P ! i @ [p]]" by (rule rq_pend_upd[OF i _ q(2)]) (simp add: ctx')
  have fresh: "p \<notin> set (concat ?P)" by (rule rq_fresh[OF inv i p])
  have it: "cx_items ctx' x = cx_items ctx x" if "x \<in> set (concat ?P)" for x
    using that fresh by (auto simp: ctx')
  have ip: "item_is ctx' (sk_recv ?k) p m"
    unfolding item_is_def using mem m by (auto simp: ctx' rtmq_good_def)
  have keep: "item_is ctx' (sk_recv ?k) x y" if "x \<in> set (concat ?P)" "item_is ctx (sk_recv sck) x y" for x y
    by (rule item_is_keep[OF that(2) it[OF that(1)]]) (auto simp: ctx')
  have mset': "mset (concat ?P') = add_mset p (mset (concat ?P))"
    unfolding P' using mset_concat_snoc[of i ?P "[p]"] i by simp
  have old: "rq_item ctx' x = rq_item ctx x" if "x \<in> set (concat ?P)" for x
    using I(7)[OF that] keep[OF that] item_is_read by metis
  have refs: "rq_refs ctx' ?P' b = rq_refs ctx ?P b + (if b = ?b then 1 else 0)" for b
  proof -
    have "image_mset (\<lambda>p. fst (the (cx_items ctx' p))) (mset (concat ?P)) =
        image_mset (\<lambda>p. fst (the (cx_items ctx p))) (mset (concat ?P))"
      by (rule image_mset_cong) (use it in auto)
    moreover have "cx_items ctx' p = Some (?b, sn_optr (sk_recv sck))" by (simp add: ctx')
    ultimately show ?thesis unfolding rq_refs_def mset' by simp
  qed
  have set': "set (concat ?P') = insert p (set (concat ?P))"
    using mset' by (metis set_mset_mset set_mset_add_mset_insert)
  show "rq_inv blks ext N reg held ctx' ?k"
    unfolding rq_inv_def
  proof (intro conjI allI impI ballI)
    have "0 < mref_count (cx_mref ctx) ?b" using I(8)[of ?b] by simp
    then show "blocks_ok ctx'" using I(1) mf unfolding ctx' blocks_ok_def by auto
    show "queue_good (cx_recvq ctx' ! j) (held ! j) (blks ! j)" if "j < length (cx_recvq ctx')" for j
      using that I(6)[of j] q(1) by (cases "j = i") (simp_all add: ctx')
    show "\<exists>m. item_is ctx' (sk_recv ?k) x m" if "x \<in> set (concat ?P')" for x
      using that I(7)[of x] ip keep unfolding set' by blast
    show "mref_count (cx_mref ctx') b = ext b + rq_refs ctx' ?P' b + count_list (sk_mesg_list ?k) b +
        (if b = sn_base (sk_recv ?k) then 1 else 0)" for b
      using I(8)[of b] mf(2) unfolding refs by (auto simp: ctx')
  qed (use I in \<open>simp_all add: ctx'\<close>)
  have "\<forall>xs \<in> set ?P. \<forall>x \<in> set xs. rq_item ctx' x = rq_item ctx x" using old by auto
  then have eq: "map (map (the \<circ> rq_item ctx')) ?P = map (map (the \<circ> rq_item ctx)) ?P" by simp
  let ?f = "the \<circ> rq_item ctx'"
  have "?f p = m" using item_is_read[OF ip] by simp
  then have "map (map ?f) ?P' = (map (map ?f) ?P)[i := map ?f (?P ! i) @ [m]]"
    unfolding P' map_update by (simp only: map_append list.map)
  also have "map ?f (?P ! i) = map (map ?f) ?P ! i" using i by simp
  finally show "map (map (the \<circ> rq_item ctx')) ?P' = (map (map (the \<circ> rq_item ctx)) ?P)
      [i := map (map (the \<circ> rq_item ctx)) ?P ! i @ [m]]" unfolding eq .
qed

lemma queue_malloc_cases:
  assumes "queue_good q h blocks" "sz \<le> sl_size (qu_slot q)"
  obtains (full) "queue_malloc q sz = Some (NULL, q)" "length (h @ rq_addrs q) = length blocks"
  | (room) p sl rq where "queue_malloc q sz = Some (p, q\<lparr>qu_slot := sl\<rparr>)" "p \<noteq> NULL" "p \<in> set blocks"
      "p \<notin> set (h @ rq_addrs q)" "length (h @ rq_addrs q) < length blocks"
      "queue_push (q\<lparr>qu_slot := sl\<rparr>) p = Some (0, q\<lparr>qu_slot := sl, qu_ring := rq\<rparr>)"
      "queue_good (q\<lparr>qu_slot := sl, qu_ring := rq\<rparr>) h blocks" "ring_items rq = rq_addrs q @ [p]"
      "sl_size sl = sl_size (qu_slot q)"
proof -
  have G: "ring_ok (qu_ring q)" "16 \<le> sl_size (qu_slot q)" "pool_ok (qu_slot q) (mset (h @ rq_addrs q)) blocks"
      "length blocks \<le> ring_cap (qu_ring q)"
    using assms(1) by (simp_all add: queue_good_def)
  from slot_alloc_ok[OF G(3) assms(2)] show thesis
  proof (elim disjE exE conjE)
    assume "slot_alloc (qu_slot q) sz = Some (NULL, qu_slot q)" "mset (h @ rq_addrs q) = mset blocks"
    then show thesis using full by (simp add: queue_malloc_def) (metis mset_append mset_eq_length length_append)
  next
    fix p sl
    assume a: "slot_alloc (qu_slot q) sz = Some (p, sl)" "p \<in> set blocks" "p \<notin># mset (h @ rq_addrs q)"
      and sl: "pool_ok sl (add_mset p (mset (h @ rq_addrs q))) blocks" "sl_size sl = sl_size (qu_slot q)"
    have "size (add_mset p (mset (h @ rq_addrs q))) \<le> length blocks"
      using sl(1) by (metis pool_ok_def le_add2 size_mset size_union)
    then have l: "length (h @ rq_addrs q) < length blocks" by simp
    then have "length (rq_addrs q) < ring_cap (qu_ring q)" using G(4) by simp
    from ring_q.enq_room[OF G(1) this, of p] obtain rq where rq: "ring_push (qu_ring q) p = Some (0, rq)"
        "ring_ok rq" "ring_items rq = rq_addrs q @ [p]" "ring_cap rq = ring_cap (qu_ring q)" by blast
    have "p \<noteq> NULL" using a(2) G(3) by (auto simp: pool_ok_def)
    moreover have "queue_good (q\<lparr>qu_slot := sl, qu_ring := rq\<rparr>) h blocks"
      using sl rq G by (simp add: queue_good_def)
    ultimately show thesis using room[of p sl rq] a l rq(1,3) sl(2) by (simp add: queue_malloc_def queue_push_def)
  qed
qed

lemma rq_inv_advance:
  assumes "rq_inv blks ext N reg held ctx sck" shows "rq_inv blks ext N reg held ctx (rtmq_advance sck n)"
  using rq_inv_keep[OF assms, of ctx "rtmq_advance sck n"] rq_invD(1,8,9,11,12)[OF assms] by auto

lemma exp_ok:
  assumes inv: "rq_inv blks ext N reg held ctx sck" and mem: "cx_mem ctx (sn_base (sk_recv sck)) = Some mem"
    and m: "mesg_at mem (sn_optr (sk_recv sck)) m" "rtmq_good m" "hd_flag (fst m) \<noteq> RTMQ_SYS_MESG"
  shows "\<exists>ret ctx' rsvr'. rtmq_rsvr_exp_mesg_proc ctx rsvr sck (sn_base (sk_recv sck)) (sn_optr (sk_recv sck)) =
      Some (ret, ctx', rsvr') \<and> cx_mem ctx' = cx_mem ctx \<and>
      rq_inv blks ext N reg held ctx' (rtmq_advance sck (20 + length (snd m))) \<and>
      rtmq_obs held ctx' rsvr' = rtmq_eff N (map length blks) m (rtmq_obs held ctx rsvr) \<and>
      cx_allocs ctx' = cx_allocs ctx \<and> cx_calloc ctx' = cx_calloc ctx"
proof -
  note I = rq_invD[OF inv]
  let ?b = "sn_base (sk_recv sck)" and ?o = "sn_optr (sk_recv sck)" and ?n = "length (cx_recvq ctx)"
  let ?k = "rtmq_advance sck (20 + length (snd m))" and ?r1 = "rsvr\<lparr>rv_recv_total := rv_recv_total rsvr + 1\<rparr>"
  have adv: "rq_inv blks ext N reg held ctx ?k" by (rule rq_inv_advance[OF inv])
  note load = mesg_at_load(1)[OF m(1)]
  show ?thesis
  proof (cases "hd_nid (fst m) = N")
    case False
    then show ?thesis using adv I(11,12) mem load m(3)
      by (simp add: rtmq_rsvr_exp_mesg_proc_def rtmq_obs_def rtmq_eff_def)
  next
    case N: True
    define r where "r = (case cx_rand ctx of [] \<Rightarrow> 0 | r # _ \<Rightarrow> r)"
    define i where "i = r mod ?n"
    have rand: "rtmq_rand ctx = (r, ctx\<lparr>cx_rand := tl (cx_rand ctx)\<rparr>)"
      by (cases "cx_rand ctx") (auto simp: rtmq_rand_def r_def)
    have i: "i < ?n" using I(2) by (simp add: i_def)
    have ieff: "(case cx_rand ctx of [] \<Rightarrow> 0 | r # _ \<Rightarrow> r) mod length (map length blks) = i"
      by (simp add: i_def r_def I(3))
    let ?q = "cx_recvq ctx ! i"
    have caps: "map length blks ! i = length (blks ! i)" using i I(3) by simp
    have qs: "length (map (map (the \<circ> rq_item ctx)) (rq_pend held ctx) ! i) = length (held ! i @ rq_addrs ?q)"
      using i by simp
    from I(6)[OF i] have "16 \<le> sl_size (qu_slot ?q)" by (simp add: queue_good_def)
    with I(6)[OF i] show ?thesis
    proof (cases rule: queue_malloc_cases)
      case full
      obtain cs where cs: "rtmq_rsvr_cmd_proc_all_req (ctx\<lparr>cx_rand := tl (cx_rand ctx)\<rparr>) =
          ctx\<lparr>cx_rand := tl (cx_rand ctx), cx_cmds := cs\<rparr>" using cmd_all by blast
      have "ctx\<lparr>cx_rand := tl (cx_rand ctx), cx_recvq := (cx_recvq ctx)[i := ?q]\<rparr> = ctx\<lparr>cx_rand := tl (cx_rand ctx)\<rparr>" by simp
      then have run: "rtmq_rsvr_exp_mesg_proc ctx rsvr sck ?b ?o = Some (RTMQ_ERR, ctx\<lparr>cx_rand := tl (cx_rand ctx), cx_cmds := cs\<rparr>,
          ?r1\<lparr>rv_drop_total := rv_drop_total rsvr + 1\<rparr>)"
        using I(2,11,12) N mem load rand full(1) cs i_def[symmetric]
        by (simp add: rtmq_rsvr_exp_mesg_proc_def Let_def)
      have "rtmq_obs held (ctx\<lparr>cx_rand := tl (cx_rand ctx), cx_cmds := cs\<rparr>) (?r1\<lparr>rv_drop_total := rv_drop_total rsvr + 1\<rparr>) =
          rtmq_eff N (map length blks) m (rtmq_obs held ctx rsvr)"
        using N m(3) full(2) ieff qs caps by (simp add: rtmq_obs_def rtmq_eff_def)
      then show ?thesis using run adv by simp
    next
      case (room p sl rq)
      let ?q' = "?q\<lparr>qu_slot := sl, qu_ring := rq\<rparr>"
      have lim: "mref_count (cx_mref ctx) ?b < MREF_LIM"
        using I(8)[of ?b] I(9) I(10)[of ?b] rq_refs_le[OF inv, of ?b] by (simp add: count_list_0_iff)
      have "0 < mref_count (cx_mref ctx) ?b" using I(8)[of ?b] by simp
      from mref_inc_live[OF blocks_okD(1)[OF I(1)] this lim] obtain mf where
        mf: "mref_inc (cx_mref ctx) ?b = Some (int (mref_count (cx_mref ctx) ?b + 1), mf)" "mref_ok mf"
          "mref_count mf = (mref_count (cx_mref ctx))(?b := mref_count (cx_mref ctx) ?b + 1)" by blast
      define c1 where "c1 = ctx\<lparr>cx_mref := mf, cx_items := (cx_items ctx)(p \<mapsto> (?b, ?o)), cx_recvq := (cx_recvq ctx)[i := ?q']\<rparr>"
      have q': "rq_addrs ?q' = rq_addrs ?q @ [p]" using room(8) by simp
      note P = rq_pushed[OF inv i room(3,4,7) q' mf(2,3) mem m(1,2) c1_def]
      let ?c2 = "c1\<lparr>cx_rand := tl (cx_rand ctx), cx_cmds := cx_cmds ctx @ [(i div RTMQ_WORKER_HDL_QNUM, i)]\<rparr>"
      have run: "rtmq_rsvr_exp_mesg_proc ctx rsvr sck ?b ?o = Some (RTMQ_OK, ?c2, ?r1)"
        using I(2,11,12) N mem load rand room(1,2,6) mf(1) i i_def[symmetric]
        by (simp add: rtmq_rsvr_exp_mesg_proc_def Let_def rtmq_rsvr_cmd_proc_req_def c1_def)
      have "rtmq_obs held ?c2 ?r1 = rtmq_eff N (map length blks) m (rtmq_obs held ctx rsvr)"
        using N m(3) room(5) ieff qs caps P(2) by (simp add: rtmq_obs_def rtmq_eff_def)
      moreover have "rq_inv blks ext N reg held ?c2 ?k" using P(1) by simp
      moreover have "cx_mem ?c2 = cx_mem ctx" "cx_allocs ?c2 = cx_allocs ctx" "cx_calloc ?c2 = cx_calloc ctx"
        by (simp_all add: c1_def)
      ultimately show ?thesis using run by blast
    qed
  qed
qed

subsection \<open>An answer of the server\<close>

lemma answer_ok:
  assumes inv: "rq_inv blks ext N reg held ctx sck"
  shows "\<exists>ret ctx' sck'. rtmq_answer ctx sck head body = Some (ret, ctx', sck') \<and> sk_recv sck' = sk_recv sck \<and>
      cx_mem ctx' (sn_base (sk_recv sck)) = cx_mem ctx (sn_base (sk_recv sck)) \<and>
      rq_inv blks ext N reg held ctx' sck' \<and> rtmq_obs held ctx' rsvr = rtmq_obs held ctx rsvr \<and>
      (\<forall>n. rq_fuel K blks ext ctx sck (Suc n) \<longrightarrow> ret = RTMQ_OK \<and> rq_fuel K blks ext ctx' sck' n)"
proof -
  note I = rq_invD[OF inv]
  let ?b = "sn_base (sk_recv sck)"
  have sz: "0 < 20 + length body" by simp
  from I(1) sz show ?thesis
  proof (cases rule: block_alloc_cases)
    case none
    moreover have "\<not> rq_fuel K blks ext ctx sck n" for n using rq_fuel_calloc[OF inv] none(2) by blast
    ultimately show ?thesis using inv by (simp add: rtmq_answer_def)
  next
    case (new a mf)
    obtain al x where al: "alloc_take (cx_allocs ctx) = (x, al)" by (cases "alloc_take (cx_allocs ctx)")
    let ?m = "rtmq_head_bytes head @ body"
    let ?c1 = "ctx\<lparr>cx_mref := mf, cx_mem := (cx_mem ctx)(a \<mapsto> ?m)\<rparr>"
    have "mref_count (cx_mref ctx) ?b \<noteq> 0" using I(8)[of ?b] by simp
    then have ab: "a \<noteq> ?b" using new(3) by metis
    have a0: "ext a = 0" "rq_refs ctx (rq_pend held ctx) a = 0" "a \<notin> set (sk_mesg_list sck)"
      using I(8)[of a] new(3) ab by (simp_all add: count_list_0_iff)
    have "blocks_ok (ctx\<lparr>cx_mref := mf, cx_mem := (cx_mem ctx)(a \<mapsto> replicate (20 + length body) 0)\<rparr>
        \<lparr>cx_mem := (cx_mem (ctx\<lparr>cx_mref := mf, cx_mem := (cx_mem ctx)(a \<mapsto> replicate (20 + length body) 0)\<rparr>))(a \<mapsto> ?m)\<rparr>)"
      by (rule blocks_ok_write[OF new(7)]) simp
    then have ok1: "blocks_ok ?c1" by simp
    let ?s = "sck\<lparr>sk_mesg_list := sk_mesg_list sck @ [a]\<rparr>"
    have ret: "rtmq_answer ctx sck head body = (if \<not> x then
        (do { ctx \<leftarrow> rtmq_block_dec (?c1\<lparr>cx_allocs := al\<rparr>) a; Some (RTMQ_ERR, ctx, sck) })
        else Some (RTMQ_OK, ?c1\<lparr>cx_allocs := al\<rparr>, ?s))"
      using new(1,2) al by (simp add: rtmq_answer_def Let_def)
    show ?thesis
    proof (cases x)
      case True
      have cnt: "mref_count mf b = ext b + rq_refs ctx (rq_pend held ctx) b + count_list (sk_mesg_list sck @ [a]) b +
          (if b = ?b then 1 else 0)" for b
        using I(8)[of b] new(3,6) by (auto simp: count_list_append)
      have K: "rq_inv blks ext N reg held ?c1 ?s \<and> rtmq_obs held ?c1 rsvr = rtmq_obs held ctx rsvr"
      proof (rule rq_inv_keep[OF inv])
        show "blocks_ok ?c1" by (rule ok1)
      qed (use I(9,11,12) cnt ab a0 in auto)
      then have "rq_inv blks ext N reg held (?c1\<lparr>cx_allocs := al\<rparr>) ?s \<and>
          rtmq_obs held (?c1\<lparr>cx_allocs := al\<rparr>) rsvr = rtmq_obs held ctx rsvr" by (simp add: rtmq_obs_def)
      moreover have "rq_fuel K blks ext ctx sck (Suc n) \<Longrightarrow> rq_fuel K blks ext (?c1\<lparr>cx_allocs := al\<rparr>) ?s n" for n
        using al by (simp add: rq_fuel_def)
      ultimately show ?thesis using ret True ab by auto
    next
      case False
      have ok2: "blocks_ok (?c1\<lparr>cx_allocs := al\<rparr>)" using ok1 by (simp add: blocks_ok_def)
      have "0 < mref_count (cx_mref (?c1\<lparr>cx_allocs := al\<rparr>)) a" using new(6) by simp
      from block_dec_ok[OF ok2 this] obtain mf2 where
        D: "rtmq_block_dec (?c1\<lparr>cx_allocs := al\<rparr>) a = Some (?c1\<lparr>cx_allocs := al, cx_mref := mf2, cx_mem := (cx_mem ?c1)(a := None)\<rparr>)"
          "mref_count mf2 = (mref_count mf)(a := 0)"
          "blocks_ok (?c1\<lparr>cx_allocs := al, cx_mref := mf2, cx_mem := (cx_mem ?c1)(a := None)\<rparr>)"
        using new(6) by auto
      have m0: "(cx_mem ?c1)(a := None) = cx_mem ctx" using new(4) by auto
      let ?c2 = "ctx\<lparr>cx_mref := mf2\<rparr>"
      have c2: "?c1\<lparr>cx_allocs := al, cx_mref := mf2, cx_mem := (cx_mem ?c1)(a := None)\<rparr> = ?c2\<lparr>cx_allocs := al\<rparr>"
        unfolding m0 by simp
      have cnt: "mref_count mf2 b = ext b + rq_refs ctx (rq_pend held ctx) b + count_list (sk_mesg_list sck) b +
          (if b = ?b then 1 else 0)" for b
        using I(8)[of b] new(3,6) D(2) by auto
      have K: "rq_inv blks ext N reg held ?c2 sck \<and> rtmq_obs held ?c2 rsvr = rtmq_obs held ctx rsvr"
      proof (rule rq_inv_keep[OF inv])
        show "blocks_ok ?c2" using D(3) unfolding c2 by (simp add: blocks_ok_def)
      qed (use I(9,11,12) cnt in auto)
      then have "rq_inv blks ext N reg held (?c2\<lparr>cx_allocs := al\<rparr>) sck \<and>
          rtmq_obs held (?c2\<lparr>cx_allocs := al\<rparr>) rsvr = rtmq_obs held ctx rsvr" by (simp add: rtmq_obs_def)
      moreover have "\<not> rq_fuel K blks ext ctx sck n" for n using al False by (auto simp: rq_fuel_def)
      ultimately show ?thesis using ret False D(1) unfolding c2 by auto
    qed
  qed
qed

subsection \<open>The contract of the framing loop\<close>

lemma mesg_proc_ok:
  assumes inv: "rq_inv blks ext N reg held ctx sck" and mem: "cx_mem ctx (sn_base (sk_recv sck)) = Some mem"
    and m: "mesg_at mem (sn_optr (sk_recv sck)) m" "rtmq_good m" "rtmq_plain m"
  shows "\<exists>ret ctx' rsvr' sck'. rtmq_rsvr_mesg_proc sub ctx rsvr sck = Some (ret, ctx', rsvr', sck') \<and>
      sk_recv sck' = sk_recv sck \<and> cx_mem ctx' (sn_base (sk_recv sck)) = Some mem \<and>
      (ret \<noteq> 0 \<longrightarrow> rq_inv blks ext N reg held ctx' sck') \<and>
      rq_inv blks ext N reg held ctx' (rtmq_advance sck' (20 + length (snd m))) \<and>
      rtmq_obs held ctx' rsvr' = rtmq_eff N (map length blks) m (rtmq_obs held ctx rsvr) \<and>
      (\<forall>n. rq_fuel K blks ext ctx sck (Suc n) \<longrightarrow> ret = 0 \<and> rq_fuel K blks ext ctx' (rtmq_advance sck' (20 + length (snd m))) n)"
proof (cases "hd_flag (fst m) = RTMQ_SYS_MESG")
  case True
  have t: "hd_type (fst m) = RTMQ_CMD_KPALIVE_REQ" using True m(3) by (simp add: rtmq_plain_def)
  obtain ret ctx' sck' where A: "rtmq_answer ctx sck \<lparr>hd_type = RTMQ_CMD_KPALIVE_ACK, hd_nid = cx_nid ctx,
        hd_flag = RTMQ_SYS_MESG, hd_length = 0, hd_chksum = RTMQ_CHKSUM_VAL\<rparr> [] = Some (ret, ctx', sck')"
      "sk_recv sck' = sk_recv sck" "cx_mem ctx' (sn_base (sk_recv sck)) = cx_mem ctx (sn_base (sk_recv sck))"
      "rq_inv blks ext N reg held ctx' sck'" "rtmq_obs held ctx' rsvr = rtmq_obs held ctx rsvr"
      "\<forall>n. rq_fuel K blks ext ctx sck (Suc n) \<longrightarrow> ret = RTMQ_OK \<and> rq_fuel K blks ext ctx' sck' n"
    using answer_ok[OF inv] by blast
  have "rtmq_rsvr_mesg_proc sub ctx rsvr sck = Some (ret, ctx', rsvr, sck')"
    using True t mem mesg_at_load(1)[OF m(1)] A(1) rq_invD(11)[OF inv]
    by (simp add: rtmq_rsvr_mesg_proc_def rtmq_rsvr_sys_mesg_proc_def rtmq_rsvr_keepalive_req_hdl_def
        RTMQ_CMD_KPALIVE_REQ_def RTMQ_CMD_AUTH_REQ_def RTMQ_CMD_SUB_REQ_def)
  moreover have "rtmq_eff N (map length blks) m (rtmq_obs held ctx rsvr) = rtmq_obs held ctx rsvr"
    using True by (simp add: rtmq_eff_def rtmq_obs_def)
  ultimately show ?thesis using A(2-6) mem rq_inv_advance[OF A(4)] by (auto simp: rq_fuel_def RTMQ_OK_def)
next
  case False
  obtain ret ctx' rsvr' where "rtmq_rsvr_exp_mesg_proc ctx rsvr sck (sn_base (sk_recv sck)) (sn_optr (sk_recv sck)) =
        Some (ret, ctx', rsvr')" "cx_mem ctx' = cx_mem ctx"
      "rq_inv blks ext N reg held ctx' (rtmq_advance sck (20 + length (snd m)))"
      "rtmq_obs held ctx' rsvr' = rtmq_eff N (map length blks) m (rtmq_obs held ctx rsvr)"
      "cx_allocs ctx' = cx_allocs ctx" "cx_calloc ctx' = cx_calloc ctx"
    using exp_ok[OF inv mem m(1,2) False] by blast
  then show ?thesis using False mem mesg_at_load(1)[OF m(1)]
    by (auto simp: rtmq_rsvr_mesg_proc_def rq_fuel_def)
qed

interpretation rtmq_frame: frame_handler "rtmq_rsvr_mesg_proc sub" "\<lambda>ctx rsvr sck. rq_inv blks ext N reg held ctx sck"
  "rtmq_obs held" "rtmq_eff N (map length blks)" rtmq_plain "rq_fuel K blks ext" for sub blks ext N reg held K
proof
  fix ctx rsvr sck m mem
  assume "rq_inv blks ext N reg held ctx sck" "recv_ok ctx sck" "rtmq_good m" "rtmq_plain m"
    "cx_mem ctx (sn_base (sk_recv sck)) = Some mem" "mesg_at mem (sn_optr (sk_recv sck)) m"
  then show "\<exists>ret ctx' rsvr' sck' mem'. rtmq_rsvr_mesg_proc sub ctx rsvr sck = Some (ret, ctx', rsvr', sck') \<and>
      sk_recv sck' = sk_recv sck \<and> cx_mem ctx' (sn_base (sk_recv sck)) = Some mem' \<and> length mem' = length mem \<and>
      drop (sn_optr (sk_recv sck) + 20 + length (snd m)) mem' = drop (sn_optr (sk_recv sck) + 20 + length (snd m)) mem \<and>
      (ret \<noteq> 0 \<longrightarrow> rq_inv blks ext N reg held ctx' sck') \<and>
      rq_inv blks ext N reg held ctx' (rtmq_advance sck' (20 + length (snd m))) \<and>
      rtmq_obs held ctx' rsvr' = rtmq_eff N (map length blks) m (rtmq_obs held ctx rsvr) \<and>
      (\<forall>n. rq_fuel K blks ext ctx sck (Suc n) \<longrightarrow> ret = 0 \<and> rq_fuel K blks ext ctx' (rtmq_advance sck' (20 + length (snd m))) n)"
    using mesg_proc_ok[of blks ext N reg held ctx sck mem m sub rsvr K] by metis
next
  fix ctx rsvr sck mem mem' i
  assume a: "rq_inv blks ext N reg held ctx sck" "recv_ok ctx sck" "cx_mem ctx (sn_base (sk_recv sck)) = Some mem"
    "length mem' = length mem" "take (sn_optr (sk_recv sck)) mem' = take (sn_optr (sk_recv sck)) mem"
  have "\<forall>n. rq_fuel K blks ext ctx sck n \<longrightarrow> rq_fuel K blks ext (rtmq_poke ctx sck mem') (rtmq_filled sck i) n"
    by (simp add: rq_fuel_def)
  then show "rq_inv blks ext N reg held (rtmq_poke ctx sck mem') (rtmq_filled sck i) \<and>
      rtmq_obs held (rtmq_poke ctx sck mem') rsvr = rtmq_obs held ctx rsvr \<and>
      (\<forall>n. rq_fuel K blks ext ctx sck n \<longrightarrow> rq_fuel K blks ext (rtmq_poke ctx sck mem') (rtmq_filled sck i) n)"
    using rq_obs_write[OF a] by blast
qed (rule rq_obs_switch)

end
