(* ===== verification/Rtmq_Work.thy ===== *)
theory Rtmq_Work
  imports Rtmq_Hdl
begin

text \<open>The worker: it takes the items of its queue in batches, calls the callbacks and gives everything back.\<close>

text \<open>What one message does to a worker: the callback of its type, or that of type \<open>0\<close>, or none.\<close>

definition rtmq_work :: "(int \<rightharpoonup> nat) \<Rightarrow> (nat \<times> u32 \<times> u32 \<times> u8 list \<Rightarrow> int) \<Rightarrow> rtmq_header \<times> u8 list \<Rightarrow> rtmq_worker \<Rightarrow> rtmq_worker" where
  "rtmq_work reg ret m w =
     (case (case reg (sint (hd_type (fst m))) of None \<Rightarrow> reg 0 | Some r \<Rightarrow> Some r) of
        None \<Rightarrow> w\<lparr>wk_drop_total := wk_drop_total w + 1\<rparr>
      | Some r \<Rightarrow> let call = (r, hd_type (fst m), hd_nid (fst m), snd m); w = w\<lparr>wk_calls := wk_calls w @ [call]\<rparr> in
          if ret call \<noteq> 0 then w\<lparr>wk_err_total := wk_err_total w + 1\<rparr> else w\<lparr>wk_proc_total := wk_proc_total w + 1\<rparr>)"

lemma mset_concat_tl:
  "i < length xs \<Longrightarrow> xs ! i = y # ys \<Longrightarrow> mset (concat xs) = add_mset y (mset (concat (xs[i := ys])))"
  by (induction xs arbitrary: i) (auto split: nat.splits)

lemma rq_pend_held:
  assumes "length held = length (cx_recvq ctx)" "cx_recvq ctx' = (cx_recvq ctx)[i := q]" "i < length (cx_recvq ctx)"
  shows "rq_pend (held[i := hs]) ctx' = (rq_pend held ctx)[i := hs @ rq_addrs q]"
  using assms by (intro nth_equalityI) (auto simp: nth_list_update)

lemma rq_done:
  assumes inv: "rq_inv blks ext N reg held ctx sck" and i: "i < length (cx_recvq ctx)" and h: "held ! i = p # hs"
    and p: "cx_items ctx p = Some (base, off)"
    and q: "queue_good q hs (blks ! i)" "rq_addrs q = rq_addrs (cx_recvq ctx ! i)"
    and ctx1: "blocks_ok ctx1" "cx_items ctx1 = cx_items ctx" "cx_recvq ctx1 = cx_recvq ctx"
      "mref_count (cx_mref ctx1) = (mref_count (cx_mref ctx))(base := mref_count (cx_mref ctx) base - 1)"
      "cx_reg ctx1 = cx_reg ctx" "\<And>b. mref_count (cx_mref ctx1) b \<noteq> 0 \<Longrightarrow> cx_mem ctx1 b = cx_mem ctx b"
  shows "rq_inv blks ext N reg (held[i := hs]) (ctx1\<lparr>cx_recvq := (cx_recvq ctx)[i := q]\<rparr>) sck"
    "map (map (the \<circ> rq_item (ctx1\<lparr>cx_recvq := (cx_recvq ctx)[i := q]\<rparr>))) (rq_pend (held[i := hs]) (ctx1\<lparr>cx_recvq := (cx_recvq ctx)[i := q]\<rparr>)) =
     (map (map (the \<circ> rq_item ctx)) (rq_pend held ctx))[i := tl (map (map (the \<circ> rq_item ctx)) (rq_pend held ctx) ! i)]"
proof -
  note I = rq_invD[OF inv]
  let ?c = "ctx1\<lparr>cx_recvq := (cx_recvq ctx)[i := q]\<rparr>" and ?P = "rq_pend held ctx"
  let ?P' = "rq_pend (held[i := hs]) ?c"
  have P': "?P' = ?P[i := hs @ rq_addrs q]" by (rule rq_pend_held[OF I(4) _ i]) simp
  have hd: "?P ! i = p # hs @ rq_addrs q" using i h q(2) by simp
  have M: "mset (concat ?P) = add_mset p (mset (concat ?P'))"
    unfolding P' by (rule mset_concat_tl) (use i hd in simp_all)
  have sub: "set (concat ?P') \<subseteq> set (concat ?P)"
    using M by (metis set_mset_mset set_mset_add_mset_insert subset_insertI)
  have refs: "rq_refs ctx ?P b = rq_refs ctx ?P' b + (if b = base then 1 else 0)" for b
    unfolding rq_refs_def M using p by simp
  have refs': "rq_refs ?c = rq_refs ctx" using ctx1(2) by (simp add: rq_refs_def fun_eq_iff)
  have cnt: "mref_count (cx_mref ctx1) b = ext b + rq_refs ctx ?P' b + count_list (sk_mesg_list sck) b +
      (if b = sn_base (sk_recv sck) then 1 else 0)" for b
    using I(8)[of b] refs[of b] by (auto simp: ctx1(4))
  have keep: "item_is ?c (sk_recv sck) x m" if x: "x \<in> set (concat ?P')" "item_is ctx (sk_recv sck) x m" for x m
  proof (rule item_is_keep[OF x(2)])
    fix b off mem assume b: "cx_items ctx x = Some (b, off)" "cx_mem ctx b = Some mem"
    have "0 < rq_refs ctx ?P' b" by (rule rq_refs_pos[OF x(1) b(1)])
    then have "cx_mem ?c b = Some mem" using ctx1(6)[of b] cnt[of b] b(2) by simp
    then show "\<exists>mem'. cx_mem ?c b = Some mem' \<and> length mem' = length mem \<and>
        (if b = sn_base (sk_recv sck) then take (sn_optr (sk_recv sck)) mem' = take (sn_optr (sk_recv sck)) mem else mem' = mem) \<and>
        (b = sn_base (sk_recv sck) \<longrightarrow> b = sn_base (sk_recv sck) \<and> sn_optr (sk_recv sck) \<le> sn_optr (sk_recv sck))" by simp
  qed (simp add: ctx1(2))
  show "rq_inv blks ext N reg (held[i := hs]) ?c sck"
    unfolding rq_inv_def refs'
  proof (intro conjI allI impI ballI)
    show "blocks_ok ?c" using ctx1(1) by (simp add: blocks_ok_def)
    show "queue_good (cx_recvq ?c ! j) (held[i := hs] ! j) (blks ! j)" if "j < length (cx_recvq ?c)" for j
      using that I(4) I(6)[of j] q(1) by (cases "j = i") simp_all
    show "\<exists>m. item_is ?c (sk_recv sck) x m" if "x \<in> set (concat ?P')" for x
      using keep[OF that] I(7)[of x] that sub by blast
    show "mref_count (cx_mref ?c) b = ext b + rq_refs ctx ?P' b + count_list (sk_mesg_list sck) b +
        (if b = sn_base (sk_recv sck) then 1 else 0)" for b using cnt[of b] by simp
  qed (use I ctx1(5) in simp_all)
  have "rq_item ?c x = rq_item ctx x" if x: "x \<in> set (concat ?P')" for x
  proof -
    obtain m where m: "item_is ctx (sk_recv sck) x m" using I(7)[of x] x sub by blast
    show ?thesis using item_is_read[OF keep[OF x m]] item_is_read[OF m] by simp
  qed
  then have "\<forall>xs \<in> set ?P'. \<forall>x \<in> set xs. rq_item ?c x = rq_item ctx x" by auto
  then have eq: "map (map (the \<circ> rq_item ?c)) ?P' = map (map (the \<circ> rq_item ctx)) ?P'" by simp
  have i': "i < length ?P" using i by simp
  have tl: "tl (map (map (the \<circ> rq_item ctx)) ?P ! i) = map (the \<circ> rq_item ctx) (hs @ rq_addrs q)"
    unfolding nth_map[OF i'] hd by (simp only: list.map list.sel)
  show "map (map (the \<circ> rq_item ?c)) ?P' = (map (map (the \<circ> rq_item ctx)) ?P)[i := tl (map (map (the \<circ> rq_item ctx)) ?P ! i)]"
    unfolding eq unfolding P' map_update tl by (rule refl)
qed

lemma queue_dealloc_good:
  assumes "queue_good q (p # hs) blocks"
  obtains sl where "queue_dealloc q p = Some (q\<lparr>qu_slot := sl\<rparr>)" "queue_good (q\<lparr>qu_slot := sl\<rparr>) hs blocks"
proof -
  have P: "pool_ok (qu_slot q) (mset ((p # hs) @ rq_addrs q)) blocks" "16 \<le> sl_size (qu_slot q)" "ring_ok (qu_ring q)"
      "length blocks \<le> ring_cap (qu_ring q)"
    using assms by (simp_all add: queue_good_def)
  obtain sl where "slot_dealloc (qu_slot q) p = Some sl" "pool_ok sl (mset ((p # hs) @ rq_addrs q) - {#p#}) blocks"
      "sl_size sl = sl_size (qu_slot q)"
    using slot_dealloc_ok[OF P(1), of p] by auto
  then show thesis using that[of sl] P by (simp add: queue_dealloc_def queue_good_def)
qed

text \<open>What of the state only the receiving side changes.\<close>

definition rq_frame :: "rtmq_cntx \<Rightarrow> rtmq_cntx \<Rightarrow> rtmq_sck \<Rightarrow> bool" where
  "rq_frame ctx ctx' sck \<longleftrightarrow> cx_reg ctx' = cx_reg ctx \<and> cx_rand ctx' = cx_rand ctx \<and> cx_cmds ctx' = cx_cmds ctx \<and>
     cx_allocs ctx' = cx_allocs ctx \<and> cx_calloc ctx' = cx_calloc ctx \<and>
     length (cx_recvq ctx') = length (cx_recvq ctx) \<and>
     cx_mem ctx' (sn_base (sk_recv sck)) = cx_mem ctx (sn_base (sk_recv sck))"

text \<open>The messages that wait at each queue.\<close>

definition rq_mesgs :: "addr list list \<Rightarrow> rtmq_cntx \<Rightarrow> (rtmq_header \<times> u8 list) list list" where
  "rq_mesgs held ctx = map (map (the \<circ> rq_item ctx)) (rq_pend held ctx)"

lemma rq_mesgs_simps [simp]:
  "length (rq_mesgs held ctx) = length (cx_recvq ctx)"
  "i < length (cx_recvq ctx) \<Longrightarrow> length (rq_mesgs held ctx ! i) = length (held ! i) + length (rq_addrs (cx_recvq ctx ! i))"
  by (simp_all add: rq_mesgs_def)

lemma worker_item_ok:
  assumes inv: "rq_inv blks ext N reg held ctx sck" and i: "i < length (cx_recvq ctx)" and h: "held ! i = p # hs"
  shows "\<exists>ctx'. rtmq_worker_item ret i p ctx w = Some (ctx', rtmq_work (cx_reg ctx) ret (hd (rq_mesgs held ctx ! i)) w) \<and>
    rq_inv blks ext N reg (held[i := hs]) ctx' sck \<and> rq_frame ctx ctx' sck \<and>
    rq_mesgs (held[i := hs]) ctx' = (rq_mesgs held ctx)[i := tl (rq_mesgs held ctx ! i)]"
proof -
  note I = rq_invD[OF inv]
  have pin: "p \<in> set (concat (rq_pend held ctx))"
  proof -
    have "rq_pend held ctx ! i \<in> set (rq_pend held ctx)" using i by (intro nth_mem) simp
    moreover have "p \<in> set (rq_pend held ctx ! i)" using i h by simp
    ultimately show ?thesis unfolding set_concat by blast
  qed
  obtain m where m: "item_is ctx (sk_recv sck) p m" using I(7)[OF pin] by blast
  obtain base off mem where b: "cx_items ctx p = Some (base, off)" "cx_mem ctx base = Some mem" "mesg_at mem off m"
      "length (snd m) = unat (hd_length (fst m))" using m unfolding item_is_def by blast
  have hd: "hd (rq_mesgs held ctx ! i) = m" using i h item_is_read[OF m] by (simp add: rq_mesgs_def)
  have "0 < rq_refs ctx (rq_pend held ctx) base" by (rule rq_refs_pos[OF pin b(1)])
  then have c: "0 < mref_count (cx_mref ctx) base" using I(8)[of base] by simp
  let ?M = "if mref_count (cx_mref ctx) base = 1 then (cx_mem ctx)(base := None) else cx_mem ctx"
  obtain mf where D: "rtmq_block_dec ctx base = Some (ctx\<lparr>cx_mref := mf, cx_mem := ?M\<rparr>)"
      "mref_count mf = (mref_count (cx_mref ctx))(base := mref_count (cx_mref ctx) base - 1)"
      "blocks_ok (ctx\<lparr>cx_mref := mf, cx_mem := ?M\<rparr>)"
    by (rule block_dec_ok[OF I(1) c])
  let ?c1 = "ctx\<lparr>cx_mref := mf, cx_mem := ?M\<rparr>"
  have "queue_good (cx_recvq ctx ! i) (p # hs) (blks ! i)" using I(6)[OF i] h by simp
  then obtain sl where Q: "queue_dealloc (cx_recvq ctx ! i) p = Some ((cx_recvq ctx ! i)\<lparr>qu_slot := sl\<rparr>)"
      "queue_good ((cx_recvq ctx ! i)\<lparr>qu_slot := sl\<rparr>) hs (blks ! i)" by (rule queue_dealloc_good)
  have R: "rq_inv blks ext N reg (held[i := hs]) (?c1\<lparr>cx_recvq := (cx_recvq ctx)[i := (cx_recvq ctx ! i)\<lparr>qu_slot := sl\<rparr>]\<rparr>) sck"
    "rq_mesgs (held[i := hs]) (?c1\<lparr>cx_recvq := (cx_recvq ctx)[i := (cx_recvq ctx ! i)\<lparr>qu_slot := sl\<rparr>]\<rparr>) =
     (rq_mesgs held ctx)[i := tl (rq_mesgs held ctx ! i)]"
    unfolding rq_mesgs_def
    by (rule rq_done[OF inv i h b(1) Q(2) _ D(3)]; use D(2) in \<open>simp split: if_splits\<close>)+
  have run: "rtmq_worker_item ret i p ctx w = Some (?c1\<lparr>cx_recvq := (cx_recvq ctx)[i := (cx_recvq ctx ! i)\<lparr>qu_slot := sl\<rparr>]\<rparr>,
      rtmq_work (cx_reg ctx) ret m w)"
    using b mesg_at_load[OF b(3)] D(1) Q(1)
    by (simp add: rtmq_worker_item_def rtmq_work_def Let_def split: option.splits)
  have "\<not> (mref_count (cx_mref ctx) base = 1 \<and> base = sn_base (sk_recv sck))"
    using I(8)[of base] \<open>0 < rq_refs ctx (rq_pend held ctx) base\<close> by auto
  then have "rq_frame ctx (?c1\<lparr>cx_recvq := (cx_recvq ctx)[i := (cx_recvq ctx ! i)\<lparr>qu_slot := sl\<rparr>]\<rparr>) sck"
    by (auto simp: rq_frame_def)
  then show ?thesis using run R unfolding hd by blast
qed

lemma rq_frame_trans: "rq_frame a b sck \<Longrightarrow> rq_frame b c sck \<Longrightarrow> rq_frame a c sck"
  by (simp add: rq_frame_def)

lemma worker_items_ok:
  "rq_inv blks ext N reg held ctx sck \<Longrightarrow> i < length (cx_recvq ctx) \<Longrightarrow> held ! i = ps \<Longrightarrow>
   \<exists>ctx'. rtmq_worker_items ret i ps ctx w =
       Some (ctx', fold (rtmq_work (cx_reg ctx) ret) (take (length ps) (rq_mesgs held ctx ! i)) w) \<and>
     rq_inv blks ext N reg (held[i := []]) ctx' sck \<and> rq_frame ctx ctx' sck \<and>
     rq_mesgs (held[i := []]) ctx' = (rq_mesgs held ctx)[i := drop (length ps) (rq_mesgs held ctx ! i)]"
proof (induction ps arbitrary: held ctx w)
  case Nil
  have "held[i := []] = held" using Nil.prems(3) by (metis list_update_id)
  moreover have "(rq_mesgs held ctx)[i := rq_mesgs held ctx ! i] = rq_mesgs held ctx" by (rule list_update_id)
  ultimately show ?case using Nil.prems(1) by (simp add: rq_frame_def)
next
  case (Cons p ps)
  let ?w = "rtmq_work (cx_reg ctx) ret (hd (rq_mesgs held ctx ! i)) w"
  from worker_item_ok[OF Cons.prems, of ret w] obtain c1 where c1:
      "rtmq_worker_item ret i p ctx w = Some (c1, ?w)" "rq_inv blks ext N reg (held[i := ps]) c1 sck" "rq_frame ctx c1 sck"
      "rq_mesgs (held[i := ps]) c1 = (rq_mesgs held ctx)[i := tl (rq_mesgs held ctx ! i)]" by blast
  have i1: "i < length (cx_recvq c1)" "i < length held" "i < length (rq_mesgs held ctx)"
    using c1(3) Cons.prems(2) rq_invD(4)[OF Cons.prems(1)] by (simp_all add: rq_frame_def)
  have hp: "held[i := ps] ! i = ps" using i1 by simp
  from Cons.IH[OF c1(2) i1(1) hp, of ?w, unfolded c1(4)] obtain c2 where c2:
      "rtmq_worker_items ret i ps c1 ?w = Some (c2, fold (rtmq_work (cx_reg c1) ret)
        (take (length ps) (tl (rq_mesgs held ctx ! i))) ?w)"
      "rq_inv blks ext N reg (held[i := ps, i := []]) c2 sck" "rq_frame c1 c2 sck"
      "rq_mesgs (held[i := ps, i := []]) c2 =
       (rq_mesgs held ctx)[i := tl (rq_mesgs held ctx ! i), i := drop (length ps) (tl (rq_mesgs held ctx ! i))]"
    unfolding nth_list_update_eq[OF i1(3)] by blast
  have reg: "cx_reg c1 = cx_reg ctx" using c1(3) by (simp add: rq_frame_def)
  obtain x xs where x: "rq_mesgs held ctx ! i = x # xs"
    using Cons.prems(2,3) rq_mesgs_simps(2)[OF Cons.prems(2), of held] by (cases "rq_mesgs held ctx ! i") auto
  show ?case
    by (rule exI[of _ c2]) (use c1(1) c2 rq_frame_trans[OF c1(3) c2(3)] reg x in simp)
qed

lemma rq_popped:
  assumes inv: "rq_inv blks ext N reg held ctx sck" and i: "i < length (cx_recvq ctx)" "held ! i = []"
    and rq: "ring_ok rq" "xs @ ring_items rq = rq_addrs (cx_recvq ctx ! i)" "ring_cap rq = ring_cap (qu_ring (cx_recvq ctx ! i))"
    and c: "ctx' = ctx\<lparr>cx_recvq := (cx_recvq ctx)[i := (cx_recvq ctx ! i)\<lparr>qu_ring := rq\<rparr>]\<rparr>"
  shows "rq_inv blks ext N reg (held[i := xs]) ctx' sck" "rq_mesgs (held[i := xs]) ctx' = rq_mesgs held ctx"
    "rq_frame ctx ctx' sck"
proof -
  note I = rq_invD[OF inv]
  let ?q = "(cx_recvq ctx ! i)\<lparr>qu_ring := rq\<rparr>"
  have "rq_pend (held[i := xs]) ctx' = (rq_pend held ctx)[i := xs @ rq_addrs ?q]"
    by (rule rq_pend_held[OF I(4) _ i(1)]) (simp add: c)
  also have "\<dots> = (rq_pend held ctx)[i := rq_pend held ctx ! i]" using rq(2) i by simp
  finally have P: "rq_pend (held[i := xs]) ctx' = rq_pend held ctx" by (simp only: list_update_id)
  have refs: "rq_refs ctx' = rq_refs ctx" by (simp add: c rq_refs_def fun_eq_iff)
  have it: "item_is ctx' = item_is ctx" "rq_item ctx' = rq_item ctx"
    by (auto simp: c item_is_def rq_item_def fun_eq_iff cong del: bind_weak_cong)
  show "rq_mesgs (held[i := xs]) ctx' = rq_mesgs held ctx" unfolding rq_mesgs_def P it ..
  show "rq_frame ctx ctx' sck" by (simp add: c rq_frame_def)
  show "rq_inv blks ext N reg (held[i := xs]) ctx' sck"
    unfolding rq_inv_def P refs it
  proof (intro conjI allI impI ballI)
    have "queue_good ?q xs (blks ! i)" using I(6)[OF i(1)] i(2) rq(1,3) by (simp add: queue_good_def rq(2)[symmetric])
    then show "queue_good (cx_recvq ctx' ! j) (held[i := xs] ! j) (blks ! j)" if "j < length (cx_recvq ctx')" for j
      using that I(4) I(6)[of j] by (cases "j = i") (simp_all add: c)
    show "blocks_ok ctx'" using I(1) by (simp add: c blocks_ok_def)
    show "mref_count (cx_mref ctx') b = ext b + rq_refs ctx (rq_pend held ctx) b + count_list (sk_mesg_list sck) b +
        (if b = sn_base (sk_recv sck) then 1 else 0)" for b using I(8)[of b] by (simp add: c)
  qed (use I(2-5,7,9-13) in \<open>simp_all add: c\<close>)
qed

lemma worker_ok:
  "rq_inv blks ext N reg held ctx sck \<Longrightarrow> i < length (cx_recvq ctx) \<Longrightarrow> held ! i = [] \<Longrightarrow>
   \<exists>ctx'. rtmq_worker_cmd_proc_req_hdl ret i ctx w =
       Some (RTMQ_OK, ctx', fold (rtmq_work (cx_reg ctx) ret) (rq_mesgs held ctx ! i) w) \<and>
     rq_inv blks ext N reg held ctx' sck \<and> rq_frame ctx ctx' sck \<and>
     rq_mesgs held ctx' = (rq_mesgs held ctx)[i := []]"
proof (induction "length (rq_mesgs held ctx ! i)" arbitrary: ctx w rule: less_induct)
  case less
  note inv = less.prems(1) note i = less.prems(2) note I = rq_invD[OF inv]
  let ?q = "cx_recvq ctx ! i" and ?ms = "rq_mesgs held ctx ! i"
  define num where "num = min (queue_used ?q) RTRD_WORK_POP_NUM"
  have ok: "ring_ok (qu_ring ?q)" using I(6)[OF i] by (simp add: queue_good_def)
  have used: "unat (queue_used ?q) = length (rq_addrs ?q)" using used_ok[OF ok] by (simp add: queue_used_def)
  have len: "length ?ms = length (rq_addrs ?q)" using i less.prems(3) by simp
  have im: "i < length (rq_mesgs held ctx)" using i by simp
  have un: "unat num \<le> length (rq_addrs ?q)" unfolding num_def used[symmetric] by (simp add: min_def word_le_nat_alt)
  show ?case
  proof (cases "num = 0")
    case True
    then have "queue_used ?q = 0" by (auto simp: num_def min_def RTRD_WORK_POP_NUM_def split: if_splits)
    then have "?ms = []" using used len by simp
    then have u: "(rq_mesgs held ctx)[i := []] = rq_mesgs held ctx" "?ms = []" by (metis list_update_id, assumption)
    have "rtmq_worker_cmd_proc_req_hdl ret i ctx w = Some (RTMQ_OK, ctx, w)"
      using True i by (subst rtmq_worker_cmd_proc_req_hdl.simps) (simp add: num_def[symmetric])
    then show ?thesis unfolding u using inv by (simp add: rq_frame_def)
  next
    case False
    then have n0: "0 < unat num" by (simp add: unat_gt_0)
    obtain rq where rq: "ring_mpop (qu_ring ?q) num = Some (num, take (unat num) (rq_addrs ?q), rq)" "ring_ok rq"
        "ring_items rq = drop (unat num) (rq_addrs ?q)" "ring_cap rq = ring_cap (qu_ring ?q)"
      using mpop_ok[OF ok, of num] un by auto
    let ?xs = "take (unat num) (rq_addrs ?q)"
    define c1 where "c1 = ctx\<lparr>cx_recvq := (cx_recvq ctx)[i := ?q\<lparr>qu_ring := rq\<rparr>]\<rparr>"
    have xs: "?xs @ ring_items rq = rq_addrs ?q" by (simp add: rq(3))
    note P = rq_popped[OF inv i less.prems(3) rq(2) xs rq(4) c1_def]
    have i1: "i < length (cx_recvq c1)" "held[i := ?xs] ! i = ?xs" "length ?xs = unat num"
      using i I(4) un by (simp_all add: c1_def)
    from worker_items_ok[OF P(1) i1(1,2), of ret w, unfolded P(2)] obtain c2 where c2:
        "rtmq_worker_items ret i ?xs c1 w = Some (c2, fold (rtmq_work (cx_reg c1) ret) (take (length ?xs) ?ms) w)"
        "rq_inv blks ext N reg (held[i := ?xs, i := []]) c2 sck" "rq_frame c1 c2 sck"
        "rq_mesgs (held[i := ?xs, i := []]) c2 = (rq_mesgs held ctx)[i := drop (length ?xs) ?ms]" by blast
    have h: "held[i := ?xs, i := []] = held" using less.prems(3) by (simp only: list_update_overwrite) (metis list_update_id)
    note c2' = c2[unfolded h i1(3)]
    have F: "rq_frame ctx c2 sck" by (rule rq_frame_trans[OF P(3) c2(3)])
    have reg: "cx_reg c1 = cx_reg ctx" "cx_reg c2 = cx_reg ctx" and i2: "i < length (cx_recvq c2)"
      using F P(3) i by (simp_all add: rq_frame_def)
    have m2: "rq_mesgs held c2 ! i = drop (unat num) ?ms" unfolding c2'(4) by (rule nth_list_update_eq[OF im])
    have "length (rq_mesgs held c2 ! i) < length ?ms" unfolding m2 using n0 un len by simp
    from less.hyps[OF this c2'(2) i2 less.prems(3), of "fold (rtmq_work (cx_reg ctx) ret) (take (unat num) ?ms) w",
        unfolded m2 reg] obtain c3 where c3:
      "rtmq_worker_cmd_proc_req_hdl ret i c2 (fold (rtmq_work (cx_reg ctx) ret) (take (unat num) ?ms) w) =
        Some (RTMQ_OK, c3, fold (rtmq_work (cx_reg ctx) ret) (drop (unat num) ?ms)
          (fold (rtmq_work (cx_reg ctx) ret) (take (unat num) ?ms) w))"
      "rq_inv blks ext N reg held c3 sck" "rq_frame c2 c3 sck" "rq_mesgs held c3 = (rq_mesgs held c2)[i := []]" by blast
    have "rtmq_worker_cmd_proc_req_hdl ret i ctx w =
        rtmq_worker_cmd_proc_req_hdl ret i c2 (fold (rtmq_work (cx_reg ctx) ret) (take (unat num) ?ms) w)"
      using i rq(1) False c2'(1) reg
      by (subst rtmq_worker_cmd_proc_req_hdl.simps) (simp add: num_def[symmetric] c1_def[symmetric])
    moreover have "fold (rtmq_work (cx_reg ctx) ret) (drop (unat num) ?ms) (fold (rtmq_work (cx_reg ctx) ret) (take (unat num) ?ms) w) =
        fold (rtmq_work (cx_reg ctx) ret) ?ms w" by (simp only: fold_append[symmetric, THEN fun_cong, unfolded comp_def] append_take_drop_id)
    moreover have "rq_mesgs held c3 = (rq_mesgs held ctx)[i := []]" unfolding c3(4) c2'(4) by (rule list_update_overwrite)
    ultimately show ?thesis using c3(1,2) rq_frame_trans[OF F c3(3)] by (intro exI[of _ c3]) simp
  qed
qed

end
