(* ===== verification/Rtmq_Spec.thy ===== *)
theory Rtmq_Spec
  imports Rtmq_Work "HOL-Library.Sublist"
begin

text \<open>
  What the receiving side of the message queue promises: the reads of a connection and the wake-ups of the
  workers, interleaved in any order, act on the messages of the peer as an abstract system does.
\<close>

subsection \<open>The system\<close>














text \<open>A connection between two reads: what is unread is less than a message.\<close>

definition rtmq_waiting :: "rtmq_cntx \<Rightarrow> rtmq_sck \<Rightarrow> (rtmq_header \<times> u8 list) list \<Rightarrow> u8 list \<Rightarrow> bool" where
  "rtmq_waiting ctx sck ms later \<longleftrightarrow> recv_ok ctx sck \<and> sn_iptr (sk_recv sck) < RTMQ_BUFF_SIZE \<and>
     rtmq_unread ctx sck @ later = rtmq_stream ms \<and>
     (ms \<noteq> [] \<longrightarrow> length (rtmq_unread ctx sck) < length (rtmq_wire (hd ms)))"




subsection \<open>Accounts\<close>











subsection \<open>A concrete connection\<close>

text \<open>An allocator with a few addresses to give out.\<close>

definition demo_calloc :: "u64 list \<Rightarrow> mref_cntx \<Rightarrow> u64" where
  "demo_calloc as mf = (case find (\<lambda>a. mref_count mf a = 0) as of None \<Rightarrow> 0 | Some a \<Rightarrow> a)"

lemma demo_calloc_ok:
  assumes "\<forall>a \<in> set as. 0 < a \<and> a < half64"
  shows "demo_calloc as mf \<noteq> 0 \<Longrightarrow> demo_calloc as mf < half64 \<and> mref_count mf (demo_calloc as mf) = 0"
    "distinct as \<Longrightarrow> card {b. mref_count mf b \<noteq> 0} < length as \<Longrightarrow> demo_calloc as mf \<noteq> 0"
proof -
  show "demo_calloc as mf < half64 \<and> mref_count mf (demo_calloc as mf) = 0" if "demo_calloc as mf \<noteq> 0"
  proof (cases "find (\<lambda>a. mref_count mf a = 0) as")
    case (Some a)
    then show ?thesis using assms find_Some_iff[of "\<lambda>a. mref_count mf a = 0" as a] by (auto simp: demo_calloc_def)
  qed (use that in \<open>simp add: demo_calloc_def\<close>)
  assume d: "distinct as" and c: "card {b. mref_count mf b \<noteq> 0} < length as"
  have "\<not> set as \<subseteq> {b. mref_count mf b \<noteq> 0}"
  proof
    assume "set as \<subseteq> {b. mref_count mf b \<noteq> 0}"
    then have "card (set as) \<le> card {b. mref_count mf b \<noteq> 0}" by (intro card_mono) simp_all
    then show False using c d by (simp add: distinct_card)
  qed
  then obtain a where "find (\<lambda>a. mref_count mf a = 0) as = Some a"
    by (metis (mono_tags, lifting) find_None_iff mem_Collect_eq option.exhaust subsetI)
  moreover from this have "a \<in> set as" by (auto simp: find_Some_iff)
  ultimately show "demo_calloc as mf \<noteq> 0" using assms by (auto simp: demo_calloc_def)
qed

definition demo_mesg :: "rtmq_header \<times> u8 list" where
  "demo_mesg = (\<lparr>hd_type = 5, hd_nid = 7, hd_flag = RTMQ_EXP_MESG, hd_length = 3, hd_chksum = RTMQ_CHKSUM_VAL\<rparr>, [1, 2, 3])"



text \<open>A server with one queue of one block and a callback for messages of type \<open>5\<close>, an authenticated connection
  of node \<open>7\<close>, and room for what will come.\<close>

lemma rtmq_demo:
  obtains ctx sck where "rq_inv [slot_blocks 64 16 1] (\<lambda>_. 0) 7 [5 \<mapsto> 1] [[]] ctx sck"
    "rtmq_unread ctx sck = []" "rtmq_waiting ctx sck [demo_mesg] (rtmq_wire demo_mesg)"
    "rq_fuel 3 [slot_blocks 64 16 1] (\<lambda>_. 0) ctx sck 1"
    "\<forall>rsvr. rtmq_obs [[]] ctx rsvr = ([[]], [], rv_recv_total rsvr, rv_drop_total rsvr)"
proof -
  obtain mf0 where m0: "mref_ok mf0" "mref_count mf0 = (\<lambda>_. 0)" by (rule mref_init_ok)
  have "mref_count mf0 4096 = 0" "(0::u64) < 4096" "(4096::u64) < half64" by (simp_all add: m0 half64_def)
  from mref_alloc_new[OF m0(1) this, of 1 0 0] obtain mf where mf: "mref_ok mf" "mref_count mf = (\<lambda>_. 0)(4096 := 1)"
    unfolding m0(2) by auto
  obtain sl where sl: "sl_size sl = 16" "pool_ok sl {#} (slot_blocks 64 16 1)"
    using slot_creat_ok[of 1 16 64] by auto
  obtain rq k where rq: "ring_ok rq" "ring_items rq = []" "1 \<le> ring_cap rq"
    using ring_creat_ok[of 1] by auto
  let ?q = "\<lparr>qu_slot = sl, qu_ring = rq\<rparr>"
  let ?as = "[4096, 8192, 12288, 16384] :: u64 list"
  let ?z = "replicate RTMQ_BUFF_SIZE (0 :: u8)"
  let ?ctx = "\<lparr>cx_nid = 1, cx_recvq = [?q], cx_items = Map.empty, cx_svr_map = Map.empty, cx_auth = Map.empty,
    cx_reg = [5 \<mapsto> 1], cx_cmds = [], cx_mem = [4096 \<mapsto> ?z], cx_mref = mf, cx_rand = [],
    cx_calloc = demo_calloc ?as, cx_allocs = []\<rparr>"
  let ?sck = "\<lparr>sk_nid = 7, sk_gid = 1, sk_auth_succ = True, sk_recv = rtmq_snap_setup 4096 RTMQ_BUFF_SIZE, sk_mesg_list = []\<rparr>"
  have as: "\<forall>a \<in> set ?as. 0 < a \<and> a < half64" by (simp add: half64_def)
  have P: "rq_pend [[]] ?ctx = [[]]" by (simp add: rq_pend_def rq(2))
  have "queue_good ?q [] (slot_blocks 64 16 1)"
    using sl rq by (simp add: queue_good_def slot_blocks_def)
  moreover have "blocks_ok ?ctx"
    using mf demo_calloc_ok(1)[OF as] by (auto simp: blocks_ok_def)
  moreover have "length (slot_blocks 64 16 1) = 1" "distinct (slot_blocks 64 16 1)"
    by (simp_all add: slot_blocks_def)
  ultimately have "rq_inv [slot_blocks 64 16 1] (\<lambda>_. 0) 7 [5 \<mapsto> 1] [[]] ?ctx ?sck"
    unfolding rq_inv_def P by (simp add: mf rq_refs_def rtmq_snap_setup_def MREF_LIM_def)
  moreover have "rtmq_unread ?ctx ?sck = []" by (simp add: rtmq_unread_def rtmq_snap_setup_def)
  moreover from this have "rtmq_waiting ?ctx ?sck [demo_mesg] (rtmq_wire demo_mesg)"
    by (simp add: rtmq_waiting_def recv_ok_def rtmq_snap_setup_def) (simp add: RTMQ_BUFF_SIZE_def)
  moreover have "rq_fuel 3 [slot_blocks 64 16 1] (\<lambda>_. 0) ?ctx ?sck 1"
    using demo_calloc_ok(2)[OF as] by (auto simp: rq_fuel_def slot_blocks_def)
  moreover have "\<forall>rsvr. rtmq_obs [[]] ?ctx rsvr = ([[]], [], rv_recv_total rsvr, rv_drop_total rsvr)"
    by (simp add: rtmq_obs_def rq_pend_def rq(2))
  ultimately show thesis by (rule that)
qed

subsection \<open>Properties\<close>





text \<open>A header survives the wire.  What \<open>RTMQ_HEAD_HTON\<close> and a copy put into memory is read back by
  \<open>RTMQ_HEAD_NTOH\<close>, whatever stands around it; each field is on the wire with its most significant byte first; and the header
  of the application (\<open>MESG_HEAD_HTON\<close>, \<open>MESG_HEAD_NTOH\<close>) is converted back and forth without loss.\<close>

theorem rtmq_header_roundtrip:
  "map_option RTMQ_HEAD_NTOH (rtmq_head_load (before @ rtmq_wire (h, body) @ after) (length before)) = Some h \<and>
   mem_read (before @ rtmq_wire (h, body) @ after) (length before + 20) (length body) = Some body \<and>
   take 20 (rtmq_wire (h, body)) = concat (map (rev \<circ> le_bytes) [hd_type h, hd_nid h, hd_flag h, hd_length h, hd_chksum h]) \<and>
   MESG_HEAD_NTOH (MESG_HEAD_HTON g) = g \<and> MESG_HEAD_HTON (MESG_HEAD_NTOH g) = g"
proof -
  have "rtmq_head_load (before @ rtmq_wire (h, body) @ after) (length before) = Some (RTMQ_HEAD_HTON h)"
    using head_load_bytes[of before "RTMQ_HEAD_HTON h" "body @ after"] by (simp add: rtmq_wire_def)
  moreover have "mem_read (before @ rtmq_wire (h, body) @ after) (length before + 20) (length body) = Some body"
    by (simp add: mem_read_def rtmq_wire_def)
  moreover have "take 20 (rtmq_wire (h, body)) =
      concat (map (rev \<circ> le_bytes) [hd_type h, hd_nid h, hd_flag h, hd_length h, hd_chksum h])"
    by (simp add: rtmq_wire_def rtmq_head_bytes_def RTMQ_HEAD_HTON_def le_bytes_ntohl)
  ultimately show ?thesis by simp
qed

text \<open>C31: a peer can stop the server or lead it astray with one header.  If the checksum of a header is wrong the
  loop aborts the process (an \<open>assert\<close> stands before the check that would close the connection).  If the length is
  \<open>2 ^ 32 - 20\<close> or more, the sum with the size of the header wraps: the message counts as complete although its payload has not arrived,
  and the loop goes on inside this very header.\<close>

theorem rtmq_bad_header:
  assumes "recv_ok ctx sck" and "cx_mem ctx (sn_base (sk_recv sck)) = Some mem"
    and "rtmq_head_load mem (sn_optr (sk_recv sck)) = Some h" and "20 \<le> length (rtmq_unread ctx sck)"
  shows "(ntohl (hd_chksum h) \<noteq> RTMQ_CHKSUM_VAL \<longrightarrow> rtmq_data_loop hdl ctx rsvr sck = None) \<and>
    (ntohl (hd_chksum h) = RTMQ_CHKSUM_VAL \<and> 2 ^ 32 - 20 \<le> unat (ntohl (hd_length h)) \<longrightarrow>
      (\<exists>mem'. rtmq_head_store mem (sn_optr (sk_recv sck)) (RTMQ_HEAD_NTOH h) = Some mem' \<and>
       rtmq_data_loop hdl ctx rsvr sck = do {
         (ret, ctx, rsvr, sck) \<leftarrow> hdl (rtmq_poke ctx sck mem') rsvr sck;
         if ret \<noteq> 0 then Some (RTMQ_ERR, ctx, rsvr, sck)
         else rtmq_data_loop hdl ctx rsvr (rtmq_advance sck (unat (ntohl (hd_length h)) + 20 - 2 ^ 32)) }))"
proof -
  let ?u = "rtmq_unread ctx sck" and ?L = "ntohl (hd_length h)"
  obtain "length mem = RTMQ_BUFF_SIZE" "sn_optr (sk_recv sck) \<le> sn_iptr (sk_recv sck)" "sn_iptr (sk_recv sck) \<le> RTMQ_BUFF_SIZE"
      "length ?u = sn_iptr (sk_recv sck) - sn_optr (sk_recv sck)"
    using assms(2) by (auto intro: recv_okE[OF assms(1)])
  note b = this
  have len: "unat (of_nat (length ?u) :: u32) = length ?u" by (rule buff_word) (use b in simp)
  then have n20: "\<not> (of_nat (length ?u) :: u32) < 20" using assms(4) by (simp add: word_less_nat_alt)
  have wrap: "unat (20 + ?L) = unat ?L + 20 - 2 ^ 32" if "2 ^ 32 - 20 \<le> unat ?L"
  proof -
    have l: "unat ?L < 2 ^ 32" using unsigned_less[of ?L] by simp
    have "unat (20 + ?L) = (20 + unat ?L) mod 2 ^ 32" by (subst unat_word_ariths) simp
    also have "\<dots> = (20 + unat ?L - 2 ^ 32) mod 2 ^ 32" by (rule le_mod_geq) (use that in simp)
    also have "\<dots> = 20 + unat ?L - 2 ^ 32" by (rule mod_less) (use l in simp)
    finally show ?thesis by (simp only: add.commute)
  qed
  have nl: "\<not> (of_nat (length ?u) :: u32) < 20 + ?L" if "2 ^ 32 - 20 \<le> unat ?L"
  proof -
    have "unat ?L < 2 ^ 32" using unsigned_less[of ?L] by simp
    then show ?thesis using wrap[OF that] len assms(4) by (simp add: word_less_nat_alt)
  qed
  obtain mem' where sto: "rtmq_head_store mem (sn_optr (sk_recv sck)) (RTMQ_HEAD_NTOH h) = Some mem'"
  proof -
    have "sn_optr (sk_recv sck) + 20 \<le> length mem" using assms(4) b by linarith
    then show thesis using that by (simp add: rtmq_head_store_def)
  qed
  show ?thesis
  proof (intro conjI impI)
    assume "ntohl (hd_chksum h) \<noteq> RTMQ_CHKSUM_VAL"
    then show "rtmq_data_loop hdl ctx rsvr sck = None" using n20 assms(2,3)
      by (subst rtmq_data_loop.simps) (simp add: b(4)[symmetric])
  next
    assume c: "ntohl (hd_chksum h) = RTMQ_CHKSUM_VAL \<and> 2 ^ 32 - 20 \<le> unat ?L"
    then have "RTMQ_HEAD_ISVALID (RTMQ_HEAD_NTOH h)" by (simp add: RTMQ_HEAD_ISVALID_def RTMQ_HEAD_NTOH_def)
    then have loop: "rtmq_data_loop hdl ctx rsvr sck = do {
         (ret, ctx, rsvr, sck) \<leftarrow> hdl (rtmq_poke ctx sck mem') rsvr sck;
         if ret \<noteq> 0 then Some (RTMQ_ERR, ctx, rsvr, sck)
         else rtmq_data_loop hdl ctx rsvr (rtmq_advance sck (unat (20 + ?L))) }"
      using n20 nl c assms(2,3) sto by (subst rtmq_data_loop.simps) (simp add: b(4)[symmetric])
    then show "\<exists>mem'. rtmq_head_store mem (sn_optr (sk_recv sck)) (RTMQ_HEAD_NTOH h) = Some mem' \<and>
       rtmq_data_loop hdl ctx rsvr sck = do {
         (ret, ctx, rsvr, sck) \<leftarrow> hdl (rtmq_poke ctx sck mem') rsvr sck;
         if ret \<noteq> 0 then Some (RTMQ_ERR, ctx, rsvr, sck)
         else rtmq_data_loop hdl ctx rsvr (rtmq_advance sck (unat ?L + 20 - 2 ^ 32)) }"
      using sto loop[unfolded wrap[OF conjunct2[OF c]]] by blast
  qed
qed

theorem rtmq_bad_header_witness:
  "\<exists>ctx sck h. recv_ok ctx sck \<and> rtmq_unread ctx sck = rtmq_head_bytes h \<and>
     (\<forall>rsvr. rtmq_data_loop (\<lambda>c r s. Some (0, c, r, s)) ctx rsvr sck = None)"
proof -
  obtain ctx sck where "rtmq_unread ctx sck = []" by (rule rtmq_demo)
  let ?h = "\<lparr>hd_type = 0, hd_nid = 0, hd_flag = 0, hd_length = 0, hd_chksum = 0\<rparr>"
  let ?m = "rtmq_head_bytes ?h @ replicate (RTMQ_BUFF_SIZE - 20) 0"
  let ?c = "ctx\<lparr>cx_mem := [4096 \<mapsto> ?m]\<rparr>"
  let ?s = "sck\<lparr>sk_recv := \<lparr>sn_base = 4096, sn_end = RTMQ_BUFF_SIZE, sn_optr = 0, sn_iptr = 20\<rparr>\<rparr>"
  have l: "length ?m = RTMQ_BUFF_SIZE" by (simp add: RTMQ_BUFF_SIZE_def)
  have r: "recv_ok ?c ?s" by (simp add: recv_ok_def) (simp add: RTMQ_BUFF_SIZE_def)
  have u: "rtmq_unread ?c ?s = rtmq_head_bytes ?h" by (simp add: rtmq_unread_def)
  have m: "cx_mem ?c (sn_base (sk_recv ?s)) = Some ?m" by simp
  have h: "rtmq_head_load ?m (sn_optr (sk_recv ?s)) = Some ?h" using head_load_bytes[of "[]" ?h] by simp
  have "ntohl 0 \<noteq> RTMQ_CHKSUM_VAL" by (simp add: ntohl_def RTMQ_CHKSUM_VAL_def)
  then have "rtmq_data_loop (\<lambda>c r s. Some (0, c, r, s)) ?c rsvr ?s = None" for rsvr
    using rtmq_bad_header[OF r m h, where hdl = "\<lambda>c r s. Some (0, c, r, s)" and rsvr = rsvr] u by simp
  then show ?thesis using r u by blast
qed

end
