(* ===== verification/Avl_Tree.thy ===== *)
theory Avl_Tree
  imports Rb_Ops
begin

text \<open>
  The model of \<open>src/clang/lib/core/avl_tree.c\<close>: balanced trees with parent pointers on an explicit node
  heap, the maps of the message queue.  Reading or writing an address with no node is \<^const>\<open>None\<close>, so is a failed
  \<open>avl_assert\<close>.
\<close>

subsection \<open>Data (\<open>avl_tree.h\<close>)\<close>

definition AVL_RH :: int where "AVL_RH = - 1"
definition AVL_EH :: int where "AVL_EH = 0"
definition AVL_LH :: int where "AVL_LH = 1"

definition AVL_OK :: int where "AVL_OK = 0"
definition AVL_ERR :: int where "AVL_ERR = - (2 ^ 31)"
definition AVL_NODE_EXIST :: int where "AVL_NODE_EXIST = - (2 ^ 31) + 1"

record 'a avl_node =
  av_bf :: int
  av_parent :: addr
  av_lchild :: addr
  av_rchild :: addr
  av_data :: 'a

text \<open>\<open>av_mem\<close> is the node heap and \<open>av_brk\<close> the location that the allocator hands out next.\<close>

record 'a avl_tree =
  av_num :: u64
  av_root :: addr
  av_cmp :: "'a \<Rightarrow> 'a \<Rightarrow> int"
  av_mem :: "addr \<rightharpoonup> 'a avl_node"
  av_brk :: nat

definition av_upd :: "'a avl_tree \<Rightarrow> addr \<Rightarrow> ('a avl_node \<Rightarrow> 'a avl_node) \<Rightarrow> 'a avl_tree option" where
  "av_upd tree p f = (case av_mem tree p of
      None \<Rightarrow> None
    | Some n \<Rightarrow> Some (tree\<lparr>av_mem := (av_mem tree)(p \<mapsto> f n)\<rparr>))"

definition av_set_bf :: "'a avl_tree \<Rightarrow> addr \<Rightarrow> int \<Rightarrow> 'a avl_tree option" where
  "av_set_bf tree p b = av_upd tree p (\<lambda>n. n\<lparr>av_bf := b\<rparr>)"

definition avl_set_lchild :: "'a avl_tree \<Rightarrow> addr \<Rightarrow> addr \<Rightarrow> 'a avl_tree option" where
  "avl_set_lchild tree node c = do {
     tree \<leftarrow> av_upd tree node (\<lambda>n. n\<lparr>av_lchild := c\<rparr>);
     if c \<noteq> NULL then av_upd tree c (\<lambda>n. n\<lparr>av_parent := node\<rparr>) else Some tree }"

definition avl_set_rchild :: "'a avl_tree \<Rightarrow> addr \<Rightarrow> addr \<Rightarrow> 'a avl_tree option" where
  "avl_set_rchild tree node c = do {
     tree \<leftarrow> av_upd tree node (\<lambda>n. n\<lparr>av_rchild := c\<rparr>);
     if c \<noteq> NULL then av_upd tree c (\<lambda>n. n\<lparr>av_parent := node\<rparr>) else Some tree }"

definition avl_replace_child :: "'a avl_tree \<Rightarrow> addr \<Rightarrow> addr \<Rightarrow> addr \<Rightarrow> 'a avl_tree option" where
  "avl_replace_child tree pa old new =
     (if pa = NULL then
        (let tree = tree\<lparr>av_root := new\<rparr> in
         if new \<noteq> NULL then av_upd tree new (\<lambda>n. n\<lparr>av_parent := NULL\<rparr>) else Some tree)
      else do {
        pn \<leftarrow> av_mem tree pa;
        if av_lchild pn = old then avl_set_lchild tree pa new
        else if av_rchild pn = old then avl_set_rchild tree pa new
        else Some tree })"

definition avl_assert :: "'a avl_tree \<Rightarrow> addr \<Rightarrow> unit option" where
  "avl_assert tree p =
     (if p = NULL then Some ()
      else do {
        n \<leftarrow> av_mem tree p;
        if av_parent n = NULL then Some ()
        else do {
          pn \<leftarrow> av_mem tree (av_parent n);
          if av_lchild pn \<noteq> p \<and> av_rchild pn \<noteq> p then None
          else if av_parent n = av_lchild n \<or> av_parent n = av_rchild n then None
          else Some () } })"

definition avl_creat :: "('a \<Rightarrow> 'a \<Rightarrow> int) \<Rightarrow> allocs \<Rightarrow> 'a avl_tree option \<times> allocs" where
  "avl_creat cmp al =
     (let (a, al) = alloc_take al in
      if \<not> a then (None, al)
      else (Some \<lparr>av_num = 0, av_root = NULL, av_cmp = cmp, av_mem = Map.empty, av_brk = 0\<rparr>, al))"

subsection \<open>Rotations\<close>

definition avl_rr_balance :: "'a avl_tree \<Rightarrow> addr \<Rightarrow> (int \<times> 'a avl_tree) option" where
  "avl_rr_balance tree node = do {
     n \<leftarrow> av_mem tree node;
     let rch = av_rchild n;
     let pa = av_parent n;
     rn \<leftarrow> av_mem tree rch;
     tree \<leftarrow> avl_set_rchild tree node (av_lchild rn);
     tree \<leftarrow> av_set_bf tree node AVL_EH;
     tree \<leftarrow> avl_set_lchild tree rch node;
     tree \<leftarrow> av_set_bf tree rch AVL_EH;
     tree \<leftarrow> avl_replace_child tree pa node rch;
     Some (AVL_OK, tree) }"

text \<open>The balance factors after a double rotation, for that of the grandchild: of the node and of the child.\<close>

definition avl_rl_bf :: "int \<Rightarrow> (int \<times> int) option" where
  "avl_rl_bf b =
     (if b = AVL_LH then Some (AVL_EH, AVL_RH)
      else if b = AVL_EH then Some (AVL_EH, AVL_EH)
      else if b = AVL_RH then Some (AVL_LH, AVL_EH) else None)"

definition avl_lr_bf :: "int \<Rightarrow> (int \<times> int) option" where
  "avl_lr_bf b =
     (if b = AVL_LH then Some (AVL_RH, AVL_EH)
      else if b = AVL_EH then Some (AVL_EH, AVL_EH)
      else if b = AVL_RH then Some (AVL_EH, AVL_LH) else None)"

definition av_set_bfs :: "'a avl_tree \<Rightarrow> addr \<Rightarrow> addr \<Rightarrow> addr \<Rightarrow> (int \<times> int) option \<Rightarrow> 'a avl_tree option" where
  "av_set_bfs tree node child grand bs =
     (case bs of
        None \<Rightarrow> Some tree
      | Some (bn, bc) \<Rightarrow> do {
          tree \<leftarrow> av_set_bf tree node bn;
          tree \<leftarrow> av_set_bf tree child bc;
          av_set_bf tree grand AVL_EH })"

text \<open>The balance factors and the links inside the subtree; the link from above is set last.\<close>

definition avl_rl_links :: "'a avl_tree \<Rightarrow> addr \<Rightarrow> addr \<Rightarrow> addr \<Rightarrow> 'a avl_node \<Rightarrow> 'a avl_tree option" where
  "avl_rl_links tree node rch rlch rln = do {
     tree \<leftarrow> av_set_bfs tree node rch rlch (avl_rl_bf (av_bf rln));
     tree \<leftarrow> avl_set_lchild tree rch (av_rchild rln);
     tree \<leftarrow> avl_set_rchild tree rlch rch;
     tree \<leftarrow> avl_set_rchild tree node (av_lchild rln);
     avl_set_lchild tree rlch node }"

definition avl_rl_balance :: "'a avl_tree \<Rightarrow> addr \<Rightarrow> (int \<times> 'a avl_tree) option" where
  "avl_rl_balance tree node = do {
     n \<leftarrow> av_mem tree node;
     let rch = av_rchild n;
     let pa = av_parent n;
     rn \<leftarrow> av_mem tree rch;
     let rlch = av_lchild rn;
     rln \<leftarrow> av_mem tree rlch;
     tree \<leftarrow> avl_rl_links tree node rch rlch rln;
     tree \<leftarrow> avl_replace_child tree pa node rlch;
     Some (AVL_OK, tree) }"

definition avl_right_balance :: "'a avl_tree \<Rightarrow> addr \<Rightarrow> (int \<times> 'a avl_tree) option" where
  "avl_right_balance tree node = do {
     n \<leftarrow> av_mem tree node;
     rn \<leftarrow> av_mem tree (av_rchild n);
     if av_bf rn = AVL_RH then avl_rr_balance tree node
     else if av_bf rn = AVL_LH then avl_rl_balance tree node
     else Some (AVL_ERR, tree) }"

definition avl_ll_balance :: "'a avl_tree \<Rightarrow> addr \<Rightarrow> (int \<times> 'a avl_tree) option" where
  "avl_ll_balance tree node = do {
     n \<leftarrow> av_mem tree node;
     let lch = av_lchild n;
     let pa = av_parent n;
     ln \<leftarrow> av_mem tree lch;
     tree \<leftarrow> avl_set_lchild tree node (av_rchild ln);
     tree \<leftarrow> av_set_bf tree node AVL_EH;
     tree \<leftarrow> avl_set_rchild tree lch node;
     tree \<leftarrow> av_set_bf tree lch AVL_EH;
     tree \<leftarrow> avl_replace_child tree pa node lch;
     Some (AVL_OK, tree) }"

definition avl_lr_links :: "'a avl_tree \<Rightarrow> addr \<Rightarrow> addr \<Rightarrow> addr \<Rightarrow> 'a avl_node \<Rightarrow> 'a avl_tree option" where
  "avl_lr_links tree node lch lrch lrn = do {
     tree \<leftarrow> av_set_bfs tree node lch lrch (avl_lr_bf (av_bf lrn));
     tree \<leftarrow> avl_set_rchild tree lch (av_lchild lrn);
     tree \<leftarrow> avl_set_lchild tree lrch lch;
     tree \<leftarrow> avl_set_lchild tree node (av_rchild lrn);
     avl_set_rchild tree lrch node }"

definition avl_lr_balance :: "'a avl_tree \<Rightarrow> addr \<Rightarrow> (int \<times> 'a avl_tree) option" where
  "avl_lr_balance tree node = do {
     n \<leftarrow> av_mem tree node;
     let lch = av_lchild n;
     let pa = av_parent n;
     ln \<leftarrow> av_mem tree lch;
     let lrch = av_rchild ln;
     lrn \<leftarrow> av_mem tree lrch;
     tree \<leftarrow> avl_lr_links tree node lch lrch lrn;
     tree \<leftarrow> avl_replace_child tree pa node lrch;
     Some (AVL_OK, tree) }"

definition avl_left_balance :: "'a avl_tree \<Rightarrow> addr \<Rightarrow> (int \<times> 'a avl_tree) option" where
  "avl_left_balance tree node = do {
     n \<leftarrow> av_mem tree node;
     ln \<leftarrow> av_mem tree (av_lchild n);
     if av_bf ln = AVL_LH then avl_ll_balance tree node
     else if av_bf ln = AVL_RH then avl_lr_balance tree node
     else Some (AVL_ERR, tree) }"

subsection \<open>Insertion\<close>

text \<open>A new node below \<open>node\<close>, on its right or left side.  A result is the return value, \<open>*taller\<close> and the state.\<close>

definition avl_add_child :: "'a avl_tree \<Rightarrow> addr \<Rightarrow> bool \<Rightarrow> 'a \<Rightarrow> allocs \<Rightarrow> (int \<times> bool \<times> 'a avl_tree \<times> allocs) option" where
  "avl_add_child tree node right dat al =
     (let (a, al) = alloc_take al; add = Loc (av_brk tree) in
      if \<not> a then Some (AVL_ERR, False, tree, al)
      else do {
        let tree = tree\<lparr>av_brk := av_brk tree + 1, av_mem := (av_mem tree)
          (add \<mapsto> \<lparr>av_bf = AVL_EH, av_parent = node, av_lchild = NULL, av_rchild = NULL, av_data = dat\<rparr>)\<rparr>;
        tree \<leftarrow> av_upd tree node (\<lambda>n. if right then n\<lparr>av_rchild := add\<rparr> else n\<lparr>av_lchild := add\<rparr>);
        Some (AVL_OK, True, tree, al) })"

definition avl_right_taller :: "'a avl_tree \<Rightarrow> addr \<Rightarrow> bool \<Rightarrow> (int \<times> bool \<times> 'a avl_tree) option" where
  "avl_right_taller tree node taller =
     (if \<not> taller then Some (AVL_OK, taller, tree)
      else do {
        n \<leftarrow> av_mem tree node;
        if av_bf n = AVL_LH then do { tree \<leftarrow> av_set_bf tree node AVL_EH; Some (AVL_OK, False, tree) }
        else if av_bf n = AVL_EH then do { tree \<leftarrow> av_set_bf tree node AVL_RH; Some (AVL_OK, True, tree) }
        else if av_bf n = AVL_RH then do { (_, tree) \<leftarrow> avl_right_balance tree node; Some (AVL_OK, False, tree) }
        else Some (AVL_ERR, taller, tree) })"

definition avl_left_taller :: "'a avl_tree \<Rightarrow> addr \<Rightarrow> bool \<Rightarrow> (int \<times> bool \<times> 'a avl_tree) option" where
  "avl_left_taller tree node taller =
     (if \<not> taller then Some (AVL_OK, taller, tree)
      else do {
        n \<leftarrow> av_mem tree node;
        if av_bf n = AVL_RH then do { tree \<leftarrow> av_set_bf tree node AVL_EH; Some (AVL_OK, False, tree) }
        else if av_bf n = AVL_EH then do { tree \<leftarrow> av_set_bf tree node AVL_LH; Some (AVL_OK, True, tree) }
        else if av_bf n = AVL_LH then do { (_, tree) \<leftarrow> avl_left_balance tree node; Some (AVL_OK, False, tree) }
        else Some (AVL_ERR, taller, tree) })"

text \<open>\<open>_avl_insert\<close> with \<open>avl_insert_right\<close> and \<open>avl_insert_left\<close>.\<close>

partial_function (option) p_avl_insert ::
    "'a avl_tree \<Rightarrow> addr \<Rightarrow> 'a \<Rightarrow> allocs \<Rightarrow> (int \<times> bool \<times> 'a avl_tree \<times> allocs) option" where
  "p_avl_insert tree node dat al = do {
     n \<leftarrow> av_mem tree node;
     let c = av_cmp tree dat (av_data n);
     if c = 0 then Some (AVL_NODE_EXIST, False, tree, al)
     else do {
       (ret, taller, tree, al) \<leftarrow> (let next = (if c < 0 then av_lchild n else av_rchild n) in
         if next = NULL then avl_add_child tree node (\<not> c < 0) dat al else p_avl_insert tree next dat al);
       if ret \<noteq> AVL_OK then Some (ret, taller, tree, al)
       else do {
         (ret, taller, tree) \<leftarrow> (if c < 0 then avl_left_taller tree node taller else avl_right_taller tree node taller);
         Some (ret, taller, tree, al) } } }"

declare p_avl_insert.simps [code]

definition avl_insert :: "'a avl_tree \<Rightarrow> 'a \<Rightarrow> allocs \<Rightarrow> (int \<times> 'a avl_tree \<times> allocs) option" where
  "avl_insert tree dat al =
     (if av_root tree = NULL then
        (let (a, al) = alloc_take al; add = Loc (av_brk tree) in
         if \<not> a then Some (AVL_ERR, tree, al)
         else Some (AVL_OK, tree\<lparr>av_brk := av_brk tree + 1, av_num := 1, av_root := add, av_mem := (av_mem tree)
           (add \<mapsto> \<lparr>av_bf = AVL_EH, av_parent = NULL, av_lchild = NULL, av_rchild = NULL, av_data = dat\<rparr>)\<rparr>, al))
      else do {
        (ret, _, tree, al) \<leftarrow> p_avl_insert tree (av_root tree) dat al;
        Some (ret, if ret = AVL_OK then tree\<lparr>av_num := av_num tree + 1\<rparr> else tree, al) })"

subsection \<open>Lookup\<close>

partial_function (option) avl_query_loop :: "'a avl_tree \<Rightarrow> 'a \<Rightarrow> addr \<Rightarrow> 'a option option" where
  "avl_query_loop tree key node =
     (if node = NULL then Some None
      else do {
        n \<leftarrow> av_mem tree node;
        let ret = av_cmp tree key (av_data n);
        if ret = 0 then Some (Some (av_data n))
        else if ret < 0 then avl_query_loop tree key (av_lchild n)
        else avl_query_loop tree key (av_rchild n) })"

declare avl_query_loop.simps [code]

definition avl_query :: "'a avl_tree \<Rightarrow> 'a \<Rightarrow> 'a option option" where
  "avl_query tree key = avl_query_loop tree key (av_root tree)"

subsection \<open>Deletion\<close>

definition avl_dealloc :: "'a avl_tree \<Rightarrow> addr \<Rightarrow> 'a avl_tree option" where
  "avl_dealloc tree p = (if av_mem tree p = None then None else Some (tree\<lparr>av_mem := (av_mem tree)(p := None)\<rparr>))"

text \<open>The links and balance factors of the four rotations, in the order of the code.\<close>

definition avl_relink_rr ::
    "'a avl_tree \<Rightarrow> addr \<Rightarrow> addr \<Rightarrow> addr \<Rightarrow> 'a avl_node \<Rightarrow> int \<Rightarrow> int \<Rightarrow> 'a avl_tree option" where
  "avl_relink_rr tree pa node child cn bc bn = do {
     tree \<leftarrow> av_set_bf tree child bc;
     tree \<leftarrow> av_set_bf tree node bn;
     tree \<leftarrow> avl_set_rchild tree node (av_lchild cn);
     tree \<leftarrow> avl_set_lchild tree child node;
     avl_replace_child tree pa node child }"

definition avl_relink_rl ::
    "'a avl_tree \<Rightarrow> addr \<Rightarrow> addr \<Rightarrow> addr \<Rightarrow> 'a avl_node \<Rightarrow> 'a avl_tree option" where
  "avl_relink_rl tree node child grand gn = do {
     tree \<leftarrow> av_set_bfs tree node child grand (avl_rl_bf (av_bf gn));
     tree \<leftarrow> avl_set_rchild tree node (av_lchild gn);
     tree \<leftarrow> avl_set_lchild tree child (av_rchild gn);
     tree \<leftarrow> avl_set_lchild tree grand node;
     avl_set_rchild tree grand child }"

definition avl_relink_ll ::
    "'a avl_tree \<Rightarrow> addr \<Rightarrow> addr \<Rightarrow> addr \<Rightarrow> 'a avl_node \<Rightarrow> int \<Rightarrow> int \<Rightarrow> 'a avl_tree option" where
  "avl_relink_ll tree pa node child cn bc bn = do {
     tree \<leftarrow> av_set_bf tree child bc;
     tree \<leftarrow> av_set_bf tree node bn;
     tree \<leftarrow> avl_set_lchild tree node (av_rchild cn);
     tree \<leftarrow> avl_set_rchild tree child node;
     avl_replace_child tree pa node child }"

definition avl_relink_lr ::
    "'a avl_tree \<Rightarrow> addr \<Rightarrow> addr \<Rightarrow> addr \<Rightarrow> 'a avl_node \<Rightarrow> 'a avl_tree option" where
  "avl_relink_lr tree node child grand gn = do {
     tree \<leftarrow> av_set_bfs tree node child grand (avl_lr_bf (av_bf gn));
     tree \<leftarrow> avl_set_lchild tree node (av_rchild gn);
     tree \<leftarrow> avl_set_rchild tree child (av_lchild gn);
     tree \<leftarrow> avl_set_rchild tree grand node;
     avl_set_lchild tree grand child }"

definition avl_delete_left_balance :: "'a avl_tree \<Rightarrow> addr \<Rightarrow> bool \<Rightarrow> (bool \<times> 'a avl_tree) option" where
  "avl_delete_left_balance tree node lower = do {
     n \<leftarrow> av_mem tree node;
     if av_bf n = AVL_LH then do { tree \<leftarrow> av_set_bf tree node AVL_EH; Some (True, tree) }
     else if av_bf n = AVL_EH then do { tree \<leftarrow> av_set_bf tree node AVL_RH; Some (False, tree) }
     else if av_bf n = AVL_RH then do {
       let rch = av_rchild n;
       rn \<leftarrow> av_mem tree rch;
       if av_bf rn = AVL_EH \<or> av_bf rn = AVL_RH then do {
         let (lower, bc, bn) = (if av_bf rn = AVL_EH then (False, AVL_LH, AVL_RH) else (True, AVL_EH, AVL_EH));
         tree \<leftarrow> avl_relink_rr tree (av_parent n) node rch rn bc bn;
         _ \<leftarrow> avl_assert tree node;
         _ \<leftarrow> avl_assert tree rch;
         Some (lower, tree) }
       else if av_bf rn = AVL_LH then do {
         let rlch = av_lchild rn;
         rln \<leftarrow> av_mem tree rlch;
         tree \<leftarrow> avl_relink_rl tree node rch rlch rln;
         tree \<leftarrow> avl_replace_child tree (av_parent n) node rlch;
         _ \<leftarrow> avl_assert tree (av_parent n);
         _ \<leftarrow> avl_assert tree node;
         _ \<leftarrow> avl_assert tree rch;
         _ \<leftarrow> avl_assert tree rlch;
         Some (True, tree) }
       else Some (lower, tree) }
     else Some (lower, tree) }"

definition avl_delete_right_balance :: "'a avl_tree \<Rightarrow> addr \<Rightarrow> bool \<Rightarrow> (bool \<times> 'a avl_tree) option" where
  "avl_delete_right_balance tree node lower = do {
     n \<leftarrow> av_mem tree node;
     if av_bf n = AVL_LH then do {
       let lch = av_lchild n;
       ln \<leftarrow> av_mem tree lch;
       if av_bf ln = AVL_EH \<or> av_bf ln = AVL_LH then do {
         let (lower, bc, bn) = (if av_bf ln = AVL_EH then (False, AVL_RH, AVL_LH) else (True, AVL_EH, AVL_EH));
         tree \<leftarrow> avl_relink_ll tree (av_parent n) node lch ln bc bn;
         _ \<leftarrow> avl_assert tree (av_parent n);
         _ \<leftarrow> avl_assert tree node;
         _ \<leftarrow> avl_assert tree lch;
         Some (lower, tree) }
       else if av_bf ln = AVL_RH then do {
         let lrch = av_rchild ln;
         lrn \<leftarrow> av_mem tree lrch;
         tree \<leftarrow> avl_relink_lr tree node lch lrch lrn;
         tree \<leftarrow> avl_replace_child tree (av_parent n) node lrch;
         _ \<leftarrow> avl_assert tree (av_parent n);
         _ \<leftarrow> avl_assert tree node;
         _ \<leftarrow> avl_assert tree lch;
         _ \<leftarrow> avl_assert tree lrch;
         Some (True, tree) }
       else Some (lower, tree) }
     else if av_bf n = AVL_EH then do { tree \<leftarrow> av_set_bf tree node AVL_LH; Some (False, tree) }
     else if av_bf n = AVL_RH then do { tree \<leftarrow> av_set_bf tree node AVL_EH; Some (True, tree) }
     else Some (lower, tree) }"

text \<open>The node takes over the data of its predecessor, the rightmost node below \<open>prev\<close>, which goes.\<close>

partial_function (option) avl_replace_and_delete ::
    "'a avl_tree \<Rightarrow> addr \<Rightarrow> addr \<Rightarrow> bool \<Rightarrow> (bool \<times> 'a avl_tree) option" where
  "avl_replace_and_delete tree node prev lower = do {
     pn \<leftarrow> av_mem tree prev;
     if av_rchild pn = NULL then do {
       n \<leftarrow> av_mem tree node;
       tree \<leftarrow> av_upd tree node (\<lambda>n. n\<lparr>av_data := av_data pn\<rparr>);
       tree \<leftarrow> (if prev = av_lchild n then avl_set_lchild tree node (av_lchild pn)
         else avl_set_rchild tree (av_parent pn) (av_lchild pn));
       _ \<leftarrow> avl_assert tree node;
       _ \<leftarrow> avl_assert tree (av_parent pn);
       _ \<leftarrow> avl_assert tree (av_lchild pn);
       tree \<leftarrow> avl_dealloc tree prev;
       Some (True, tree) }
     else do {
       (lower, tree) \<leftarrow> avl_replace_and_delete tree node (av_rchild pn) lower;
       if lower then do {
         _ \<leftarrow> avl_assert tree node;
         _ \<leftarrow> avl_assert tree prev;
         avl_delete_right_balance tree prev lower }
       else Some (lower, tree) } }"

declare avl_replace_and_delete.simps [code]

text \<open>The node is found; \<open>n\<close> is what it holds.\<close>

definition avl_delete_found :: "'a avl_tree \<Rightarrow> addr \<Rightarrow> 'a avl_node \<Rightarrow> bool \<Rightarrow> (bool \<times> 'a avl_tree) option" where
  "avl_delete_found tree node n lower =
     (if av_rchild n = NULL then do {
        tree \<leftarrow> avl_replace_child tree (av_parent n) node (av_lchild n);
        _ \<leftarrow> avl_assert tree (av_parent n);
        _ \<leftarrow> avl_assert tree (av_lchild n);
        tree \<leftarrow> avl_dealloc tree node;
        Some (True, tree) }
      else if av_lchild n = NULL then do {
        tree \<leftarrow> avl_replace_child tree (av_parent n) node (av_rchild n);
        _ \<leftarrow> avl_assert tree (av_parent n);
        _ \<leftarrow> avl_assert tree (av_rchild n);
        tree \<leftarrow> avl_dealloc tree node;
        Some (True, tree) }
      else do {
        (lower, tree) \<leftarrow> avl_replace_and_delete tree node (av_lchild n) lower;
        if lower then do {
          _ \<leftarrow> avl_assert tree node;
          avl_delete_left_balance tree node lower }
        else Some (lower, tree) })"

text \<open>A result is \<open>*lower\<close>, \<open>*data\<close> and the tree; the return value is always \<open>AVL_OK\<close>.\<close>

partial_function (option) p_avl_delete ::
    "'a avl_tree \<Rightarrow> addr \<Rightarrow> 'a \<Rightarrow> bool \<Rightarrow> (bool \<times> 'a option \<times> 'a avl_tree) option" where
  "p_avl_delete tree node key lower = do {
     n \<leftarrow> av_mem tree node;
     let ret = av_cmp tree key (av_data n);
     if ret < 0 then
       (if av_lchild n = NULL then Some (lower, None, tree)
        else do {
          (lower, dat, tree) \<leftarrow> p_avl_delete tree (av_lchild n) key lower;
          _ \<leftarrow> avl_assert tree node;
          n \<leftarrow> av_mem tree node;
          _ \<leftarrow> avl_assert tree (av_lchild n);
          if lower then do { (lower, tree) \<leftarrow> avl_delete_left_balance tree node lower; Some (lower, dat, tree) }
          else Some (lower, dat, tree) })
     else if 0 < ret then
       (if av_rchild n = NULL then Some (lower, None, tree)
        else do {
          (lower, dat, tree) \<leftarrow> p_avl_delete tree (av_rchild n) key lower;
          _ \<leftarrow> avl_assert tree node;
          n \<leftarrow> av_mem tree node;
          _ \<leftarrow> avl_assert tree (av_rchild n);
          if lower then do { (lower, tree) \<leftarrow> avl_delete_right_balance tree node lower; Some (lower, dat, tree) }
          else Some (lower, dat, tree) })
     else do {
       (lower, tree) \<leftarrow> avl_delete_found (tree\<lparr>av_num := av_num tree - 1\<rparr>) node n lower;
       Some (lower, Some (av_data n), tree) } }"

declare p_avl_delete.simps [code]

definition avl_delete :: "'a avl_tree \<Rightarrow> 'a \<Rightarrow> (int \<times> 'a option \<times> 'a avl_tree) option" where
  "avl_delete tree key =
     (if av_root tree = NULL then Some (AVL_OK, None, tree)
      else do {
        (_, dat, tree) \<leftarrow> p_avl_delete tree (av_root tree) key False;
        Some (AVL_OK, dat, tree) })"

subsection \<open>Traversal, search and destruction\<close>

partial_function (option) p_avl_trav :: "'a avl_tree \<Rightarrow> ('a \<Rightarrow> 's \<Rightarrow> 's option) \<Rightarrow> addr \<Rightarrow> 's \<Rightarrow> 's option" where
  "p_avl_trav tree proc node args = do {
     n \<leftarrow> av_mem tree node;
     args \<leftarrow> (if av_lchild n \<noteq> NULL then p_avl_trav tree proc (av_lchild n) args else Some args);
     args \<leftarrow> proc (av_data n) args;
     (if av_rchild n \<noteq> NULL then p_avl_trav tree proc (av_rchild n) args else Some args) }"

declare p_avl_trav.simps [code]

definition avl_trav :: "'a avl_tree \<Rightarrow> ('a \<Rightarrow> 's \<Rightarrow> 's option) \<Rightarrow> 's \<Rightarrow> 's option" where
  "avl_trav tree proc args = (if av_root tree = NULL then Some args else p_avl_trav tree proc (av_root tree) args)"

partial_function (option) p_avl_find :: "'a avl_tree \<Rightarrow> ('a \<Rightarrow> bool) \<Rightarrow> addr \<Rightarrow> 'a option option" where
  "p_avl_find tree P node = do {
     n \<leftarrow> av_mem tree node;
     dat \<leftarrow> (if av_lchild n \<noteq> NULL then p_avl_find tree P (av_lchild n) else Some None);
     if dat \<noteq> None then Some dat
     else if P (av_data n) then Some (Some (av_data n))
     else if av_rchild n \<noteq> NULL then p_avl_find tree P (av_rchild n)
     else Some None }"

declare p_avl_find.simps [code]

definition avl_find :: "'a avl_tree \<Rightarrow> ('a \<Rightarrow> bool) \<Rightarrow> 'a option option" where
  "avl_find tree P = (if av_root tree = NULL then Some None else p_avl_find tree P (av_root tree))"

partial_function (option) p_avl_destroy ::
    "'a avl_tree \<Rightarrow> ('a \<Rightarrow> 's \<Rightarrow> 's option) \<Rightarrow> addr \<Rightarrow> 's \<Rightarrow> ('s \<times> 'a avl_tree) option" where
  "p_avl_destroy tree dealloc node args = do {
     n \<leftarrow> av_mem tree node;
     (args, tree) \<leftarrow> (if av_lchild n \<noteq> NULL then p_avl_destroy tree dealloc (av_lchild n) args else Some (args, tree));
     (args, tree) \<leftarrow> (if av_rchild n \<noteq> NULL then p_avl_destroy tree dealloc (av_rchild n) args else Some (args, tree));
     args \<leftarrow> dealloc (av_data n) args;
     tree \<leftarrow> avl_dealloc tree node;
     Some (args, tree) }"

declare p_avl_destroy.simps [code]

text \<open>The tree object goes as well; what is left is what the callback made of its argument.\<close>

definition avl_destroy :: "'a avl_tree \<Rightarrow> ('a \<Rightarrow> 's \<Rightarrow> 's option) \<Rightarrow> 's \<Rightarrow> ('s \<times> 'a avl_tree) option" where
  "avl_destroy tree dealloc args =
     (if av_root tree = NULL then Some (args, tree)
      else do {
        (args, tree) \<leftarrow> p_avl_destroy tree dealloc (av_root tree) args;
        Some (args, tree\<lparr>av_root := NULL\<rparr>) })"

end
