(* ===== verification/Avl_Zip.thy ===== *)
theory Avl_Zip
  imports Avl_Tree
begin

text \<open>
  The shape of a balanced tree on the node heap: addressed trees and contexts, as for the red-black trees, but
  without a sentinel.  The relinkings of the code become rewrites of the subtree in focus.
\<close>

subsection \<open>Addressed trees and contexts\<close>

datatype 'a atree = ALf | ANd "'a atree" addr int 'a "'a atree"

datatype 'a aframe = AL addr int 'a "'a atree" | AR "'a atree" addr int 'a

fun aptr :: "'a atree \<Rightarrow> addr" where
  "aptr ALf = NULL"
| "aptr (ANd l p b d r) = p"

fun aaddrs :: "'a atree \<Rightarrow> addr list" where
  "aaddrs ALf = []"
| "aaddrs (ANd l p b d r) = p # aaddrs l @ aaddrs r"

fun aitems :: "'a atree \<Rightarrow> 'a list" where
  "aitems ALf = []"
| "aitems (ANd l p b d r) = aitems l @ d # aitems r"

fun acaddrs :: "'a aframe list \<Rightarrow> addr list" where
  "acaddrs [] = []"
| "acaddrs (AL p b d r # k) = p # aaddrs r @ acaddrs k"
| "acaddrs (AR l p b d # k) = p # aaddrs l @ acaddrs k"

fun acptr :: "'a aframe list \<Rightarrow> addr" where
  "acptr [] = NULL"
| "acptr (AL p b d r # k) = p"
| "acptr (AR l p b d # k) = p"

fun aplug :: "'a aframe list \<Rightarrow> 'a atree \<Rightarrow> 'a atree" where
  "aplug [] t = t"
| "aplug (AL p b d r # k) t = aplug k (ANd t p b d r)"
| "aplug (AR l p b d # k) t = aplug k (ANd l p b d t)"

lemma length_aitems: "length (aitems t) = length (aaddrs t)"
  by (induction t) auto

subsection \<open>Trees on the heap\<close>

abbreviation mk_anode :: "int \<Rightarrow> addr \<Rightarrow> addr \<Rightarrow> addr \<Rightarrow> 'a \<Rightarrow> 'a avl_node" where
  "mk_anode b pa l r d \<equiv> \<lparr>av_bf = b, av_parent = pa, av_lchild = l, av_rchild = r, av_data = d\<rparr>"

fun atree_at :: "(addr \<rightharpoonup> 'a avl_node) \<Rightarrow> addr \<Rightarrow> 'a atree \<Rightarrow> bool" where
  "atree_at m pa ALf = True"
| "atree_at m pa (ANd l p b d r) =
     (m p = Some (mk_anode b pa (aptr l) (aptr r) d) \<and> atree_at m p l \<and> atree_at m p r)"

fun actx_at :: "(addr \<rightharpoonup> 'a avl_node) \<Rightarrow> addr \<Rightarrow> addr \<Rightarrow> 'a aframe list \<Rightarrow> bool" where
  "actx_at m rt x [] = (rt = x)"
| "actx_at m rt x (AL p b d r # k) =
     (m p = Some (mk_anode b (acptr k) x (aptr r) d) \<and> atree_at m p r \<and> actx_at m rt p k)"
| "actx_at m rt x (AR l p b d # k) =
     (m p = Some (mk_anode b (acptr k) (aptr l) x d) \<and> atree_at m p l \<and> actx_at m rt p k)"

lemma atree_at_upd [simp, heap_simps]:
  "p \<notin> set (aaddrs t) \<Longrightarrow> atree_at (m(p := v)) pa t = atree_at m pa t"
  by (induction t arbitrary: pa) auto

lemma actx_at_upd [simp, heap_simps]:
  "p \<notin> set (acaddrs k) \<Longrightarrow> actx_at (m(p := v)) rt x k = actx_at m rt x k"
  by (induction m rt x k rule: actx_at.induct) auto

lemma aptr_neq [simp, heap_simps]:
  "p \<noteq> NULL \<Longrightarrow> p \<notin> set (aaddrs t) \<Longrightarrow> aptr t \<noteq> p"
  "p \<noteq> NULL \<Longrightarrow> p \<notin> set (aaddrs t) \<Longrightarrow> p \<noteq> aptr t"
  by (cases t; auto)+

lemma acptr_neq [simp, heap_simps]:
  "p \<noteq> NULL \<Longrightarrow> p \<notin> set (acaddrs k) \<Longrightarrow> acptr k \<noteq> p"
  "p \<noteq> NULL \<Longrightarrow> p \<notin> set (acaddrs k) \<Longrightarrow> p \<noteq> acptr k"
  by (cases k rule: acptr.cases; auto)+

lemma acptr_in: "acptr k = NULL \<or> acptr k \<in> set (acaddrs k)"
  by (cases k rule: acptr.cases) auto

lemma aptr_in: "aptr t = NULL \<or> aptr t \<in> set (aaddrs t)"
  by (cases t) auto

lemma atree_at_plug:
  "atree_at m NULL (aplug k t) \<and> aptr (aplug k t) = rt \<longleftrightarrow> actx_at m rt (aptr t) k \<and> atree_at m (acptr k) t"
  by (induction k t rule: aplug.induct) auto

lemma set_aaddrs_plug: "set (aaddrs (aplug k t)) = set (aaddrs t) \<union> set (acaddrs k)"
  by (induction k t rule: aplug.induct) auto

lemma distinct_aaddrs_plug: "distinct (aaddrs (aplug k t)) = distinct (aaddrs t @ acaddrs k)"
  by (induction k t rule: aplug.induct) (auto simp: set_aaddrs_plug)

lemma aplug_append: "aplug (k1 @ k2) t = aplug k2 (aplug k1 t)"
  by (induction k1 t rule: aplug.induct) auto

definition av_at :: "'a avl_tree \<Rightarrow> 'a aframe list \<Rightarrow> 'a atree \<Rightarrow> bool" where
  "av_at T k t \<longleftrightarrow> actx_at (av_mem T) (av_root T) (aptr t) k \<and> atree_at (av_mem T) (acptr k) t \<and>
     distinct (NULL # aaddrs t @ acaddrs k)"

lemma av_at_plug: "av_at T [] (aplug k t) = av_at T k t"
  unfolding av_at_def
  using atree_at_plug[of "av_mem T" k t "av_root T"] by (auto simp: distinct_aaddrs_plug set_aaddrs_plug)

lemma av_at_append: "av_at T (k1 @ k2) t = av_at T k2 (aplug k1 t)"
  by (metis aplug_append av_at_plug)

lemma av_at_L: "av_at T k (ANd l p b d r) = av_at T (AL p b d r # k) l"
  using av_at_append[of T "[AL p b d r]" k l] by simp

lemma av_at_R: "av_at T k (ANd l p b d r) = av_at T (AR l p b d # k) r"
  using av_at_append[of T "[AR l p b d]" k r] by simp

lemmas av_at_fold = av_at_L[symmetric] av_at_R[symmetric]

lemma anode_at: "av_at T k (ANd l p b d r) \<Longrightarrow> av_mem T p = Some (mk_anode b (acptr k) (aptr l) (aptr r) d)"
  by (simp add: av_at_def)

lemma atree_at_dom: "atree_at m pa t \<Longrightarrow> x \<in> set (aaddrs t) \<Longrightarrow> x \<in> dom m"
  by (induction t arbitrary: pa) auto

lemma av_at_dom: "av_at T k t \<Longrightarrow> x \<in> set (aaddrs t) \<union> set (acaddrs k) \<Longrightarrow> x \<in> dom (av_mem T)"
proof -
  assume "av_at T k t" "x \<in> set (aaddrs t) \<union> set (acaddrs k)"
  then have "av_at T [] (aplug k t)" "x \<in> set (aaddrs (aplug k t))"
    by (simp_all only: av_at_plug set_aaddrs_plug)
  then have "atree_at (av_mem T) NULL (aplug k t)" "x \<in> set (aaddrs (aplug k t))"
    by (simp_all add: av_at_def)
  then show ?thesis by (rule atree_at_dom)
qed

text \<open>What no operation short of allocation, release and counting changes.\<close>

definition av_same :: "'a avl_tree \<Rightarrow> 'a avl_tree \<Rightarrow> bool" where
  "av_same T T' \<longleftrightarrow> av_cmp T' = av_cmp T \<and> av_num T' = av_num T \<and> av_brk T' = av_brk T \<and>
     dom (av_mem T') = dom (av_mem T)"

lemma av_same_refl [simp, intro]: "av_same T T"
  by (simp add: av_same_def)

lemma av_same_trans [trans]: "av_same T T' \<Longrightarrow> av_same T' T'' \<Longrightarrow> av_same T T''"
  by (simp add: av_same_def)

lemmas avl_prims = av_upd_def av_set_bf_def avl_set_lchild_def avl_set_rchild_def avl_replace_child_def
  av_set_bfs_def Let_def

subsection \<open>Single updates in focus\<close>

lemma av_set_bf_at:
  assumes "av_at T k (ANd l p b d r)"
  shows "\<exists>T'. av_set_bf T p c = Some T' \<and> av_at T' k (ANd l p c d r) \<and> av_same T T'"
  using assms by (clarsimp simp: av_at_def avl_prims av_same_def insert_absorb domIff)

lemma av_set_data_at:
  assumes "av_at T k (ANd l p b d r)"
  shows "\<exists>T'. av_upd T p (\<lambda>n. n\<lparr>av_data := d'\<rparr>) = Some T' \<and> av_at T' k (ANd l p b d' r) \<and> av_same T T'"
  using assms by (clarsimp simp: av_at_def avl_prims av_same_def insert_absorb domIff)

text \<open>A node with one subtree is bypassed.\<close>

lemma avl_replace_child_l:
  assumes "av_at T k (ANd l p b d ALf)"
  shows "\<exists>T'. avl_replace_child T (acptr k) p (aptr l) = Some T' \<and> av_at T' k l \<and> av_same T T'"
proof (cases k)
  case Nil
  with assms show ?thesis
    by (cases l) (clarsimp simp: av_at_def avl_prims av_same_def insert_absorb domIff)+
next
  case (Cons f k')
  with assms show ?thesis
    by (cases f; cases l) (clarsimp simp: av_at_def avl_prims av_same_def insert_absorb domIff)+
qed

lemma avl_replace_child_r:
  assumes "av_at T k (ANd ALf p b d r)"
  shows "\<exists>T'. avl_replace_child T (acptr k) p (aptr r) = Some T' \<and> av_at T' k r \<and> av_same T T'"
proof (cases k)
  case Nil
  with assms show ?thesis
    by (cases r) (clarsimp simp: av_at_def avl_prims av_same_def insert_absorb domIff)+
next
  case (Cons f k')
  with assms show ?thesis
    by (cases f; cases r) (clarsimp simp: av_at_def avl_prims av_same_def insert_absorb domIff)+
qed

lemma avl_dealloc_at:
  assumes "av_at T k t" and "p \<notin> set (aaddrs t) \<union> set (acaddrs k)" and "p \<in> dom (av_mem T)"
  shows "\<exists>T'. avl_dealloc T p = Some T' \<and> av_at T' k t \<and> av_cmp T' = av_cmp T \<and> av_num T' = av_num T \<and>
     av_brk T' = av_brk T \<and> dom (av_mem T') = dom (av_mem T) - {p}"
  using assms by (auto simp: avl_dealloc_def av_at_def)

subsection \<open>The consistency check\<close>

lemma atree_at_parent_of:
  "atree_at m pa t \<Longrightarrow> x \<in> set (aaddrs t) \<Longrightarrow> distinct (pa # aaddrs t) \<Longrightarrow> NULL \<notin> set (aaddrs t) \<Longrightarrow>
   \<exists>n. m x = Some n \<and> (av_parent n \<noteq> NULL \<longrightarrow> av_parent n \<noteq> av_lchild n \<and> av_parent n \<noteq> av_rchild n) \<and>
     (if x = aptr t then av_parent n = pa
      else \<exists>p. m (av_parent n) = Some p \<and> (av_lchild p = x \<or> av_rchild p = x))"
proof (induction t arbitrary: pa)
  case ALf
  then show ?case by simp
next
  case (ANd l p b d r)
  consider "x = p" | "x \<in> set (aaddrs l)" | "x \<in> set (aaddrs r)"
    using ANd.prems by auto
  then show ?case
  proof cases
    case 1
    then show ?thesis using ANd.prems by (cases l; cases r) auto
  next
    case 2
    then have "x \<noteq> p" using ANd.prems by auto
    then show ?thesis using ANd.IH(1)[of p] ANd.prems 2 by (cases "x = aptr l") auto
  next
    case 3
    then have "x \<noteq> p" using ANd.prems by auto
    then show ?thesis using ANd.IH(2)[of p] ANd.prems 3 by (cases "x = aptr r") auto
  qed
qed

lemma avl_assert_at:
  assumes "av_at T k t" and "x \<in> set (NULL # aaddrs t @ acaddrs k)"
  shows "avl_assert T x = Some ()"
proof (cases "x = NULL")
  case True
  then show ?thesis by (simp add: avl_assert_def)
next
  case False
  let ?t = "aplug k t"
  have at: "av_at T [] ?t" using assms by (simp add: av_at_plug)
  have "x \<in> set (aaddrs ?t)" using assms False by (auto simp: set_aaddrs_plug)
  then show ?thesis
    using at False atree_at_parent_of[of "av_mem T" NULL ?t x]
    by (auto simp: av_at_def avl_assert_def split: if_splits)
qed

subsection \<open>Running the link macros\<close>

text \<open>Setting the parent field of a child that may be \<open>NULL\<close>.\<close>

definition av_link :: "(addr \<rightharpoonup> 'a avl_node) \<Rightarrow> addr \<Rightarrow> addr \<Rightarrow> (addr \<rightharpoonup> 'a avl_node)" where
  "av_link m c pa = (if c = NULL then m else m(c := map_option (\<lambda>n. n\<lparr>av_parent := pa\<rparr>) (m c)))"

definition asub_at :: "(addr \<rightharpoonup> 'a avl_node) \<Rightarrow> 'a atree \<Rightarrow> bool" where
  "asub_at m t \<longleftrightarrow> (\<exists>pa. atree_at m pa t)"

definition alive :: "(addr \<rightharpoonup> 'a avl_node) \<Rightarrow> addr \<Rightarrow> bool" where
  "alive m p \<longleftrightarrow> p = NULL \<or> p \<in> dom m"

lemma asub_atI: "atree_at m pa t \<Longrightarrow> asub_at m t"
  by (auto simp: asub_at_def)

lemma alive_sub: "asub_at m t \<Longrightarrow> alive m (aptr t)"
  by (cases t) (auto simp: asub_at_def alive_def)

lemma alive_some: "m p = Some n \<Longrightarrow> alive m p"
  by (auto simp: alive_def)

lemma asub_at_upd [simp]: "p \<notin> set (aaddrs t) \<Longrightarrow> asub_at (m(p := v)) t = asub_at m t"
  by (simp add: asub_at_def)

lemma alive_upd [simp]: "alive m c \<Longrightarrow> alive (m(p \<mapsto> v)) c" "alive (av_link m q pa) c = alive m c"
  by (auto simp: alive_def av_link_def)

lemma av_link_other [simp]: "x \<noteq> c \<Longrightarrow> av_link m c pa x = m x"
  by (simp add: av_link_def)

lemma dom_av_link [simp]: "dom (av_link m c pa) = dom m"
  by (auto simp: av_link_def dom_def)

lemma av_link_at [simp]: "p \<noteq> NULL \<Longrightarrow> av_link m p pa p = map_option (\<lambda>n. n\<lparr>av_parent := pa\<rparr>) (m p)"
  by (simp add: av_link_def)

lemma av_link_keeps [simp]:
  "c \<notin> set (aaddrs t) \<Longrightarrow> atree_at (av_link m c pa') pa t = atree_at m pa t"
  "c \<notin> set (aaddrs t) \<Longrightarrow> asub_at (av_link m c pa') t = asub_at m t"
  "c \<notin> set (acaddrs k) \<Longrightarrow> actx_at (av_link m c pa') rt x k = actx_at m rt x k"
  by (simp_all add: av_link_def asub_at_def)

lemma av_link_tree [simp]:
  "NULL \<notin> set (aaddrs t) \<Longrightarrow> distinct (aaddrs t) \<Longrightarrow> asub_at m t \<Longrightarrow> atree_at (av_link m (aptr t) pa) pa t"
  by (cases t) (auto simp: asub_at_def av_link_def)

lemma aptr_disj [simp]:
  "set (aaddrs t) \<inter> A = {} \<Longrightarrow> NULL \<notin> A \<Longrightarrow> aptr t \<notin> A"
  "A \<inter> set (aaddrs t) = {} \<Longrightarrow> NULL \<notin> A \<Longrightarrow> aptr t \<notin> A"
  by (cases t; auto)+

lemma avl_set_lchild_run:
  "p \<noteq> c \<Longrightarrow> avl_set_lchild (T\<lparr>av_mem := M\<rparr>) p c = (case M p of None \<Rightarrow> None
     | Some n \<Rightarrow> if alive M c then Some (T\<lparr>av_mem := av_link (M(p \<mapsto> n\<lparr>av_lchild := c\<rparr>)) c p\<rparr>) else None)"
  by (auto simp: avl_set_lchild_def av_upd_def av_link_def alive_def split: option.splits)

lemma avl_set_rchild_run:
  "p \<noteq> c \<Longrightarrow> avl_set_rchild (T\<lparr>av_mem := M\<rparr>) p c = (case M p of None \<Rightarrow> None
     | Some n \<Rightarrow> if alive M c then Some (T\<lparr>av_mem := av_link (M(p \<mapsto> n\<lparr>av_rchild := c\<rparr>)) c p\<rparr>) else None)"
  by (auto simp: avl_set_rchild_def av_upd_def av_link_def alive_def split: option.splits)

lemma av_set_bf_run:
  "av_set_bf (T\<lparr>av_mem := M\<rparr>) p b = (case M p of None \<Rightarrow> None
     | Some n \<Rightarrow> Some (T\<lparr>av_mem := M(p \<mapsto> n\<lparr>av_bf := b\<rparr>)\<rparr>))"
  by (auto simp: av_set_bf_def av_upd_def split: option.splits)

lemmas avl_run = avl_set_lchild_run avl_set_rchild_run av_set_bf_run av_set_bfs_def

text \<open>The link from above, set when the subtree below is complete.\<close>

lemma avl_replace_child_new:
  assumes "actx_at (av_mem T) (av_root T) p k" and "atree_at (av_mem T) pa t"
    and "distinct (NULL # aaddrs t @ acaddrs k)" and "p \<in> set (aaddrs t)"
  shows "\<exists>T'. avl_replace_child T (acptr k) p (aptr t) = Some T' \<and> av_at T' k t \<and> av_same T T'"
proof -
  obtain l q b d r where t: "t = ANd l q b d r" using assms(4) by (cases t) auto
  show ?thesis
  proof (cases k)
    case Nil
    with assms t show ?thesis
      by (clarsimp simp: av_at_def avl_prims av_same_def insert_absorb domIff)
  next
    case (Cons f k')
    show ?thesis
    proof (cases f)
      case (AL q' b' d' r')
      with assms t Cons show ?thesis
        by (clarsimp simp: av_at_def avl_prims av_same_def insert_absorb domIff)
    next
      case (AR l' q' b' d')
      have "set (aaddrs l') \<inter> set (aaddrs t) = {}" "NULL \<notin> set (aaddrs l')" "p \<noteq> NULL"
        using assms(3,4) by (auto simp: Cons AR)
      then have "aptr l' \<noteq> p" using aptr_in[of l'] assms(4) by auto
      with assms(1-3) t Cons AR show ?thesis
        by (clarsimp simp: av_at_def avl_prims av_same_def insert_absorb domIff)
    qed
  qed
qed

subsection \<open>Rotations\<close>

lemma avl_rr_balance_at:
  assumes "av_at T k (ANd a p b1 d1 (ANd c q b2 d2 e))"
  shows "\<exists>T'. avl_rr_balance T p = Some (AVL_OK, T') \<and> av_at T' k (ANd (ANd a p AVL_EH d1 c) q AVL_EH d2 e) \<and>
     av_same T T'"
proof (cases k)
  case Nil
  with assms show ?thesis
    by (cases c) (clarsimp simp: av_at_def avl_rr_balance_def av_same_def avl_prims insert_absorb domIff)+
next
  case (Cons f k')
  with assms show ?thesis
    by (cases f; cases c) (clarsimp simp: av_at_def avl_rr_balance_def av_same_def avl_prims insert_absorb domIff)+
qed

lemma avl_ll_balance_at:
  assumes "av_at T k (ANd (ANd a q b2 d2 c) p b1 d1 e)"
  shows "\<exists>T'. avl_ll_balance T p = Some (AVL_OK, T') \<and> av_at T' k (ANd a q AVL_EH d2 (ANd c p AVL_EH d1 e)) \<and>
     av_same T T'"
proof (cases k)
  case Nil
  with assms show ?thesis
    by (cases c) (clarsimp simp: av_at_def avl_ll_balance_def av_same_def avl_prims insert_absorb domIff)+
next
  case (Cons f k')
  with assms show ?thesis
    by (cases f; cases c) (clarsimp simp: av_at_def avl_ll_balance_def av_same_def avl_prims insert_absorb domIff)+
qed

lemma avl_relink_rr_at:
  assumes "av_at T k (ANd a p b1 d1 (ANd c q b2 d2 e))" and "av_mem T q = Some qn"
  shows "\<exists>T'. avl_relink_rr T (acptr k) p q qn bc bn = Some T' \<and>
     av_at T' k (ANd (ANd a p bn d1 c) q bc d2 e) \<and> av_same T T'"
proof (cases k)
  case Nil
  with assms show ?thesis
    by (cases c) (clarsimp simp: av_at_def avl_relink_rr_def av_same_def avl_prims insert_absorb domIff)+
next
  case (Cons f k')
  with assms show ?thesis
    by (cases f; cases c) (clarsimp simp: av_at_def avl_relink_rr_def av_same_def avl_prims insert_absorb domIff)+
qed

lemma avl_relink_ll_at:
  assumes "av_at T k (ANd (ANd a q b2 d2 c) p b1 d1 e)" and "av_mem T q = Some qn"
  shows "\<exists>T'. avl_relink_ll T (acptr k) p q qn bc bn = Some T' \<and>
     av_at T' k (ANd a q bc d2 (ANd c p bn d1 e)) \<and> av_same T T'"
proof (cases k)
  case Nil
  with assms show ?thesis
    by (cases c) (clarsimp simp: av_at_def avl_relink_ll_def av_same_def avl_prims insert_absorb domIff)+
next
  case (Cons f k')
  with assms show ?thesis
    by (cases f; cases c) (clarsimp simp: av_at_def avl_relink_ll_def av_same_def avl_prims insert_absorb domIff)+
qed

subsection \<open>Double rotations\<close>

text \<open>What the heap says about the two shapes.\<close>

lemma rl_shape:
  assumes "av_at T k (ANd a p b1 d1 (ANd (ANd c g b3 d3 f) q b2 d2 e))"
  shows "p \<noteq> q" "p \<noteq> g" "q \<noteq> g" "p \<noteq> NULL" "q \<noteq> NULL" "g \<noteq> NULL" "aptr c \<noteq> p" "aptr f \<noteq> p"
    "aptr c \<noteq> q" "aptr f \<noteq> q" "aptr c \<noteq> g" "aptr f \<noteq> g"
    and "av_mem T p = Some (mk_anode b1 (acptr k) (aptr a) q d1)" "av_mem T q = Some (mk_anode b2 p g (aptr e) d2)"
    "av_mem T g = Some (mk_anode b3 q (aptr c) (aptr f) d3)" "atree_at (av_mem T) p a" "atree_at (av_mem T) q e"
    "asub_at (av_mem T) c" "asub_at (av_mem T) f" "actx_at (av_mem T) (av_root T) p k"
    and "p \<in> dom (av_mem T)" "q \<in> dom (av_mem T)" "g \<in> dom (av_mem T)"
    "alive (av_mem T) p" "alive (av_mem T) q" "alive (av_mem T) g" "alive (av_mem T) (aptr c)" "alive (av_mem T) (aptr f)"
    and "distinct (NULL # aaddrs (ANd a p b1 d1 (ANd (ANd c g b3 d3 f) q b2 d2 e)) @ acaddrs k)"
  using assms by (cases c; cases f; simp add: av_at_def alive_def asub_at_def domIff; blast)+

lemma lr_shape:
  assumes "av_at T k (ANd (ANd a q b2 d2 (ANd c g b3 d3 f)) p b1 d1 e)"
  shows "p \<noteq> q" "p \<noteq> g" "q \<noteq> g" "p \<noteq> NULL" "q \<noteq> NULL" "g \<noteq> NULL" "aptr c \<noteq> p" "aptr f \<noteq> p"
    "aptr c \<noteq> q" "aptr f \<noteq> q" "aptr c \<noteq> g" "aptr f \<noteq> g"
    and "av_mem T p = Some (mk_anode b1 (acptr k) q (aptr e) d1)" "av_mem T q = Some (mk_anode b2 p (aptr a) g d2)"
    "av_mem T g = Some (mk_anode b3 q (aptr c) (aptr f) d3)" "atree_at (av_mem T) q a" "atree_at (av_mem T) p e"
    "asub_at (av_mem T) c" "asub_at (av_mem T) f" "actx_at (av_mem T) (av_root T) p k"
    and "p \<in> dom (av_mem T)" "q \<in> dom (av_mem T)" "g \<in> dom (av_mem T)"
    "alive (av_mem T) p" "alive (av_mem T) q" "alive (av_mem T) g" "alive (av_mem T) (aptr c)" "alive (av_mem T) (aptr f)"
    and "distinct (NULL # aaddrs (ANd (ANd a q b2 d2 (ANd c g b3 d3 f)) p b1 d1 e) @ acaddrs k)"
  using assms by (cases c; cases f; simp add: av_at_def alive_def asub_at_def domIff; blast)+

lemma avl_rl_links_at:
  assumes "av_at T k (ANd a p b1 d1 (ANd (ANd c g b3 d3 f) q b2 d2 e))" and "avl_rl_bf b3 = Some (bn, bc)"
  shows "\<exists>T'. avl_rl_links T p q g (mk_anode b3 q (aptr c) (aptr f) d3) = Some T' \<and>
     actx_at (av_mem T') (av_root T') p k \<and>
     atree_at (av_mem T') q (ANd (ANd a p bn d1 c) g AVL_EH d3 (ANd f q bc d2 e)) \<and> av_same T T'"
proof -
  obtain M where M: "M = av_mem T" by simp
  have T: "T = T\<lparr>av_mem := M\<rparr>" by (simp add: M)
  note S = rl_shape[OF assms(1), folded M]
  note D = S(29)[simplified, simplified Int_Un_distrib Un_empty]
  show ?thesis
    unfolding av_same_def
    by (subst T) (simp add: avl_run avl_rl_links_def S(1-28) S(1-12)[THEN not_sym] S(21-23)[THEN insert_absorb]
        D assms(2) flip: M)
qed

lemma avl_lr_links_at:
  assumes "av_at T k (ANd (ANd a q b2 d2 (ANd c g b3 d3 f)) p b1 d1 e)" and "avl_lr_bf b3 = Some (bn, bc)"
  shows "\<exists>T'. avl_lr_links T p q g (mk_anode b3 q (aptr c) (aptr f) d3) = Some T' \<and>
     actx_at (av_mem T') (av_root T') p k \<and>
     atree_at (av_mem T') q (ANd (ANd a q bc d2 c) g AVL_EH d3 (ANd f p bn d1 e)) \<and> av_same T T'"
proof -
  obtain M where M: "M = av_mem T" by simp
  have T: "T = T\<lparr>av_mem := M\<rparr>" by (simp add: M)
  note S = lr_shape[OF assms(1), folded M]
  note D = S(29)[simplified, simplified Int_Un_distrib Un_empty]
  show ?thesis
    unfolding av_same_def
    by (subst T) (simp add: avl_run avl_lr_links_def S(1-28) S(1-12)[THEN not_sym] S(21-23)[THEN insert_absorb]
        D assms(2) flip: M)
qed

lemma avl_relink_rl_at:
  assumes "av_at T k (ANd a p b1 d1 (ANd (ANd c g b3 d3 f) q b2 d2 e))" and "avl_rl_bf b3 = Some (bn, bc)"
  shows "\<exists>T'. avl_relink_rl T p q g (mk_anode b3 q (aptr c) (aptr f) d3) = Some T' \<and>
     actx_at (av_mem T') (av_root T') p k \<and>
     atree_at (av_mem T') q (ANd (ANd a p bn d1 c) g AVL_EH d3 (ANd f q bc d2 e)) \<and> av_same T T'"
proof -
  obtain M where M: "M = av_mem T" by simp
  have T: "T = T\<lparr>av_mem := M\<rparr>" by (simp add: M)
  note S = rl_shape[OF assms(1), folded M]
  note D = S(29)[simplified, simplified Int_Un_distrib Un_empty]
  show ?thesis
    unfolding av_same_def
    by (subst T) (simp add: avl_run avl_relink_rl_def S(1-28) S(1-12)[THEN not_sym] S(21-23)[THEN insert_absorb]
        D assms(2) flip: M)
qed

lemma avl_relink_lr_at:
  assumes "av_at T k (ANd (ANd a q b2 d2 (ANd c g b3 d3 f)) p b1 d1 e)" and "avl_lr_bf b3 = Some (bn, bc)"
  shows "\<exists>T'. avl_relink_lr T p q g (mk_anode b3 q (aptr c) (aptr f) d3) = Some T' \<and>
     actx_at (av_mem T') (av_root T') p k \<and>
     atree_at (av_mem T') q (ANd (ANd a q bc d2 c) g AVL_EH d3 (ANd f p bn d1 e)) \<and> av_same T T'"
proof -
  obtain M where M: "M = av_mem T" by simp
  have T: "T = T\<lparr>av_mem := M\<rparr>" by (simp add: M)
  note S = lr_shape[OF assms(1), folded M]
  note D = S(29)[simplified, simplified Int_Un_distrib Un_empty]
  show ?thesis
    unfolding av_same_def
    by (subst T) (simp add: avl_run avl_relink_lr_def S(1-28) S(1-12)[THEN not_sym] S(21-23)[THEN insert_absorb]
        D assms(2) flip: M)
qed

text \<open>The whole double rotation, as insertion performs it and as deletion performs it.\<close>

lemma avl_rl_balance_at:
  assumes "av_at T k (ANd a p b1 d1 (ANd (ANd c g b3 d3 f) q b2 d2 e))" and "avl_rl_bf b3 = Some (bn, bc)"
  shows "\<exists>T'. avl_rl_balance T p = Some (AVL_OK, T') \<and> av_at T' k (ANd (ANd a p bn d1 c) g AVL_EH d3 (ANd f q bc d2 e)) \<and> av_same T T'"
proof -
  let ?t = "(ANd (ANd a p bn d1 c) g AVL_EH d3 (ANd f q bc d2 e))"
  obtain T1 where T1: "avl_rl_links T p q g (mk_anode b3 q (aptr c) (aptr f) d3) = Some T1"
      "actx_at (av_mem T1) (av_root T1) p k" "atree_at (av_mem T1) q ?t" "av_same T T1"
    using avl_rl_links_at[OF assms] by blast
  have "distinct (NULL # aaddrs ?t @ acaddrs k)" using rl_shape(29)[OF assms(1)] by auto
  from avl_replace_child_new[OF T1(2,3) this] obtain T' where
      "avl_replace_child T1 (acptr k) p g = Some T'" "av_at T' k ?t" "av_same T1 T'" by auto
  with T1(1,4) rl_shape(13-15)[OF assms(1)] show ?thesis
    by (auto simp: avl_rl_balance_def Let_def intro: av_same_trans)
qed

lemma avl_relink_rl_replace:
  assumes "av_at T k (ANd a p b1 d1 (ANd (ANd c g b3 d3 f) q b2 d2 e))" and "avl_rl_bf b3 = Some (bn, bc)"
  obtains T1 T' where "avl_relink_rl T p q g (mk_anode b3 q (aptr c) (aptr f) d3) = Some T1"
    "avl_replace_child T1 (acptr k) p g = Some T'" "av_at T' k (ANd (ANd a p bn d1 c) g AVL_EH d3 (ANd f q bc d2 e))" "av_same T T'"
proof -
  let ?t = "(ANd (ANd a p bn d1 c) g AVL_EH d3 (ANd f q bc d2 e))"
  obtain T1 where T1: "avl_relink_rl T p q g (mk_anode b3 q (aptr c) (aptr f) d3) = Some T1"
      "actx_at (av_mem T1) (av_root T1) p k" "atree_at (av_mem T1) q ?t" "av_same T T1"
    using avl_relink_rl_at[OF assms] by blast
  have "distinct (NULL # aaddrs ?t @ acaddrs k)" using rl_shape(29)[OF assms(1)] by auto
  from avl_replace_child_new[OF T1(2,3) this] show thesis
    using that T1(1,4) by (auto intro: av_same_trans)
qed

text \<open>The whole double rotation, as insertion performs it and as deletion performs it.\<close>

lemma avl_lr_balance_at:
  assumes "av_at T k (ANd (ANd a q b2 d2 (ANd c g b3 d3 f)) p b1 d1 e)" and "avl_lr_bf b3 = Some (bn, bc)"
  shows "\<exists>T'. avl_lr_balance T p = Some (AVL_OK, T') \<and> av_at T' k (ANd (ANd a q bc d2 c) g AVL_EH d3 (ANd f p bn d1 e)) \<and> av_same T T'"
proof -
  let ?t = "(ANd (ANd a q bc d2 c) g AVL_EH d3 (ANd f p bn d1 e))"
  obtain T1 where T1: "avl_lr_links T p q g (mk_anode b3 q (aptr c) (aptr f) d3) = Some T1"
      "actx_at (av_mem T1) (av_root T1) p k" "atree_at (av_mem T1) q ?t" "av_same T T1"
    using avl_lr_links_at[OF assms] by blast
  have "distinct (NULL # aaddrs ?t @ acaddrs k)" using lr_shape(29)[OF assms(1)] by auto
  from avl_replace_child_new[OF T1(2,3) this] obtain T' where
      "avl_replace_child T1 (acptr k) p g = Some T'" "av_at T' k ?t" "av_same T1 T'" by auto
  with T1(1,4) lr_shape(13-15)[OF assms(1)] show ?thesis
    by (auto simp: avl_lr_balance_def Let_def intro: av_same_trans)
qed

lemma avl_relink_lr_replace:
  assumes "av_at T k (ANd (ANd a q b2 d2 (ANd c g b3 d3 f)) p b1 d1 e)" and "avl_lr_bf b3 = Some (bn, bc)"
  obtains T1 T' where "avl_relink_lr T p q g (mk_anode b3 q (aptr c) (aptr f) d3) = Some T1"
    "avl_replace_child T1 (acptr k) p g = Some T'" "av_at T' k (ANd (ANd a q bc d2 c) g AVL_EH d3 (ANd f p bn d1 e))" "av_same T T'"
proof -
  let ?t = "(ANd (ANd a q bc d2 c) g AVL_EH d3 (ANd f p bn d1 e))"
  obtain T1 where T1: "avl_relink_lr T p q g (mk_anode b3 q (aptr c) (aptr f) d3) = Some T1"
      "actx_at (av_mem T1) (av_root T1) p k" "atree_at (av_mem T1) q ?t" "av_same T T1"
    using avl_relink_lr_at[OF assms] by blast
  have "distinct (NULL # aaddrs ?t @ acaddrs k)" using lr_shape(29)[OF assms(1)] by auto
  from avl_replace_child_new[OF T1(2,3) this] show thesis
    using that T1(1,4) by (auto intro: av_same_trans)
qed

end
