(* ===== verification/Avl_Insert.thy ===== *)
theory Avl_Insert
  imports Avl_Zip
begin

text \<open>
  The balance invariant, and insertion: the heap code rebalances the subtree in focus so that the invariant holds
  again, and \<open>*taller\<close> says whether the subtree has grown.
\<close>

subsection \<open>The balance invariant\<close>

fun aht :: "'a atree \<Rightarrow> nat" where
  "aht ALf = 0"
| "aht (ANd l p b d r) = Suc (max (aht l) (aht r))"

fun abf :: "'a atree \<Rightarrow> int" where
  "abf ALf = AVL_EH"
| "abf (ANd l p b d r) = b"

text \<open>Every balance factor is the difference of the heights, and one of the three of the header.\<close>

fun avl :: "'a atree \<Rightarrow> bool" where
  "avl ALf = True"
| "avl (ANd l p b d r) =
     (avl l \<and> avl r \<and> b = int (aht l) - int (aht r) \<and> b \<in> {AVL_RH, AVL_EH, AVL_LH})"

lemmas bf_defs = AVL_RH_def AVL_EH_def AVL_LH_def

lemma aht_0 [simp]: "(aht t = 0) = (t = ALf)"
  by (cases t) auto

lemma aht_pos: "0 < aht t \<Longrightarrow> \<exists>l p b d r. t = ANd l p b d r"
  by (cases t) auto

text \<open>A rebalancing step: the focus becomes a balanced tree of the same elements on the same nodes.\<close>

definition amoves :: "'a avl_tree \<Rightarrow> 'a aframe list \<Rightarrow> 'a atree \<Rightarrow> 'a avl_tree \<Rightarrow> 'a atree \<Rightarrow> bool" where
  "amoves T k t T' t' \<longleftrightarrow> av_at T' k t' \<and> avl t' \<and> aitems t' = aitems t \<and>
     set (aaddrs t') = set (aaddrs t) \<and> av_same T T'"

text \<open>The tree grew by one level if \<open>taller\<close>; then its root leans to one side, or it is a single node.\<close>

definition agrew :: "bool \<Rightarrow> 'a atree \<Rightarrow> 'a atree \<Rightarrow> bool" where
  "agrew taller t t' \<longleftrightarrow> aht t' = aht t + of_bool taller \<and> (taller \<longrightarrow> abf t' \<noteq> AVL_EH \<or> aht t' = 1)"

lemma avl_rl_bf_some: "b \<in> {AVL_RH, AVL_EH, AVL_LH} \<Longrightarrow> \<exists>bn bc. avl_rl_bf b = Some (bn, bc)"
  by (auto simp: avl_rl_bf_def)

lemma avl_lr_bf_some: "b \<in> {AVL_RH, AVL_EH, AVL_LH} \<Longrightarrow> \<exists>bn bc. avl_lr_bf b = Some (bn, bc)"
  by (auto simp: avl_lr_bf_def)

text \<open>A double rotation of a tree that leans too far yields a balanced one, one level lower.\<close>

lemma avl_rl_shape_ok:
  assumes "avl a" "avl (ANd (ANd c g b3 d3 f) q AVL_LH d2 e)" "aht (ANd (ANd c g b3 d3 f) q AVL_LH d2 e) = aht a + 2"
    and "avl_rl_bf b3 = Some (bn, bc)"
  shows "avl (ANd (ANd a p bn d1 c) g AVL_EH d3 (ANd f q bc d2 e))"
    and "aht (ANd (ANd a p bn d1 c) g AVL_EH d3 (ANd f q bc d2 e)) = aht a + 2"
  using assms by (auto simp: avl_rl_bf_def bf_defs max_def split: if_splits)

lemma avl_lr_shape_ok:
  assumes "avl e" "avl (ANd a q AVL_RH d2 (ANd c g b3 d3 f))" "aht (ANd a q AVL_RH d2 (ANd c g b3 d3 f)) = aht e + 2"
    and "avl_lr_bf b3 = Some (bn, bc)"
  shows "avl (ANd (ANd a q bc d2 c) g AVL_EH d3 (ANd f p bn d1 e))"
    and "aht (ANd (ANd a q bc d2 c) g AVL_EH d3 (ANd f p bn d1 e)) = aht e + 2"
  using assms by (auto simp: avl_lr_bf_def bf_defs max_def split: if_splits)

lemma avl_right_balance_ok:
  assumes "av_at T k (ANd l p b d r)" and "avl l" "avl r" and "aht r = aht l + 2" and "abf r \<noteq> AVL_EH"
  shows "\<exists>T' t'. avl_right_balance T p = Some (AVL_OK, T') \<and> amoves T k (ANd l p b d r) T' t' \<and> aht t' = aht l + 2"
proof -
  obtain c q b2 d2 e where r: "r = ANd c q b2 d2 e" using assms(4) by (cases r) auto
  have q: "av_mem T q = Some (mk_anode b2 p (aptr c) (aptr e) d2)" "av_mem T p = Some (mk_anode b (acptr k) (aptr l) q d)"
    using assms(1) by (simp_all add: r av_at_def)
  consider "b2 = AVL_RH" | "b2 = AVL_LH" using assms(3,5) r by auto
  then show ?thesis
  proof cases
    case 1
    obtain T' where "avl_rr_balance T p = Some (AVL_OK, T')"
        "av_at T' k (ANd (ANd l p AVL_EH d c) q AVL_EH d2 e)" "av_same T T'"
      using avl_rr_balance_at[OF assms(1)[unfolded r]] by blast
    then show ?thesis
      using q 1 assms(2-4) r
      by (auto simp: avl_right_balance_def amoves_def bf_defs
          intro!: exI[of _ "ANd (ANd l p AVL_EH d c) q AVL_EH d2 e"])
  next
    case 2
    have "0 < aht c" using assms(3) 2 r by (auto simp: bf_defs)
    then obtain c1 g b3 d3 f where c: "c = ANd c1 g b3 d3 f" using aht_pos by blast
    obtain bn bc where bf: "avl_rl_bf b3 = Some (bn, bc)" using avl_rl_bf_some[of b3] assms(3) r c by auto
    obtain T' where T': "avl_rl_balance T p = Some (AVL_OK, T')"
        "av_at T' k (ANd (ANd l p bn d c1) g AVL_EH d3 (ANd f q bc d2 e))" "av_same T T'"
      using avl_rl_balance_at[OF assms(1)[unfolded r c] bf] by blast
    have "avl (ANd (ANd l p bn d c1) g AVL_EH d3 (ANd f q bc d2 e))"
      "aht (ANd (ANd l p bn d c1) g AVL_EH d3 (ANd f q bc d2 e)) = aht l + 2"
      using avl_rl_shape_ok[OF assms(2) _ _ bf] assms(3,4) 2 r c by blast+
    then show ?thesis
      using q 2 T' r c
      by (auto simp: avl_right_balance_def amoves_def AVL_RH_def AVL_LH_def simp del: avl.simps aht.simps
          intro!: exI[of _ "ANd (ANd l p bn d c1) g AVL_EH d3 (ANd f q bc d2 e)"])
  qed
qed

lemma avl_left_balance_ok:
  assumes "av_at T k (ANd l p b d r)" and "avl l" "avl r" and "aht l = aht r + 2" and "abf l \<noteq> AVL_EH"
  shows "\<exists>T' t'. avl_left_balance T p = Some (AVL_OK, T') \<and> amoves T k (ANd l p b d r) T' t' \<and> aht t' = aht r + 2"
proof -
  obtain a q b2 d2 c where l: "l = ANd a q b2 d2 c" using assms(4) by (cases l) auto
  have q: "av_mem T q = Some (mk_anode b2 p (aptr a) (aptr c) d2)" "av_mem T p = Some (mk_anode b (acptr k) q (aptr r) d)"
    using assms(1) by (simp_all add: l av_at_def)
  consider "b2 = AVL_LH" | "b2 = AVL_RH" using assms(2,5) l by auto
  then show ?thesis
  proof cases
    case 1
    obtain T' where "avl_ll_balance T p = Some (AVL_OK, T')"
        "av_at T' k (ANd a q AVL_EH d2 (ANd c p AVL_EH d r))" "av_same T T'"
      using avl_ll_balance_at[OF assms(1)[unfolded l]] by blast
    then show ?thesis
      using q 1 assms(2-4) l
      by (auto simp: avl_left_balance_def amoves_def bf_defs
          intro!: exI[of _ "ANd a q AVL_EH d2 (ANd c p AVL_EH d r)"])
  next
    case 2
    have "0 < aht c" using assms(2) 2 l by (auto simp: bf_defs)
    then obtain c1 g b3 d3 f where c: "c = ANd c1 g b3 d3 f" using aht_pos by blast
    obtain bn bc where bf: "avl_lr_bf b3 = Some (bn, bc)" using avl_lr_bf_some[of b3] assms(2) l c by auto
    obtain T' where T': "avl_lr_balance T p = Some (AVL_OK, T')"
        "av_at T' k (ANd (ANd a q bc d2 c1) g AVL_EH d3 (ANd f p bn d r))" "av_same T T'"
      using avl_lr_balance_at[OF assms(1)[unfolded l c] bf] by blast
    have "avl (ANd (ANd a q bc d2 c1) g AVL_EH d3 (ANd f p bn d r))"
      "aht (ANd (ANd a q bc d2 c1) g AVL_EH d3 (ANd f p bn d r)) = aht r + 2"
      using avl_lr_shape_ok[OF assms(3) _ _ bf] assms(2,4) 2 l c by blast+
    then show ?thesis
      using q 2 T' l c
      by (auto simp: avl_left_balance_def amoves_def AVL_RH_def AVL_LH_def simp del: avl.simps aht.simps
          intro!: exI[of _ "ANd (ANd a q bc d2 c1) g AVL_EH d3 (ANd f p bn d r)"])
  qed
qed

subsection \<open>On the way back up\<close>

lemma avl_right_taller_ok:
  assumes "av_at T k (ANd l p b d r')" and "avl (ANd l p b d r)" and "avl r'" and "agrew taller r r'"
  shows "\<exists>T' t' taller'. avl_right_taller T p taller = Some (AVL_OK, taller', T') \<and>
     amoves T k (ANd l p b d r') T' t' \<and> agrew taller' (ANd l p b d r) t'"
proof (cases taller)
  case False
  have "amoves T k (ANd l p b d r') T (ANd l p b d r')" "agrew False (ANd l p b d r) (ANd l p b d r')"
    using assms False by (auto simp: amoves_def agrew_def)
  moreover have "avl_right_taller T p taller = Some (AVL_OK, False, T)"
    using False by (simp add: avl_right_taller_def)
  ultimately show ?thesis by blast
next
  case True
  have h: "aht r' = aht r + 1" "abf r' \<noteq> AVL_EH \<or> aht r' = 1" using assms(4) True by (auto simp: agrew_def)
  note n = anode_at[OF assms(1)]
  consider "b = AVL_LH" | "b = AVL_EH" | "b = AVL_RH" using assms(2) by auto
  then show ?thesis
  proof cases
    case 1
    obtain T' where T': "av_set_bf T p AVL_EH = Some T'" "av_at T' k (ANd l p AVL_EH d r')" "av_same T T'"
      using av_set_bf_at[OF assms(1)] by blast
    then have "amoves T k (ANd l p b d r') T' (ANd l p AVL_EH d r')" "agrew False (ANd l p b d r) (ANd l p AVL_EH d r')"
      using 1 h assms(2,3) by (auto simp: amoves_def agrew_def bf_defs)
    moreover have "avl_right_taller T p taller = Some (AVL_OK, False, T')"
      using 1 True n T'(1) by (simp add: avl_right_taller_def bf_defs)
    ultimately show ?thesis by blast
  next
    case 2
    obtain T' where T': "av_set_bf T p AVL_RH = Some T'" "av_at T' k (ANd l p AVL_RH d r')" "av_same T T'"
      using av_set_bf_at[OF assms(1)] by blast
    then have "amoves T k (ANd l p b d r') T' (ANd l p AVL_RH d r')" "agrew True (ANd l p b d r) (ANd l p AVL_RH d r')"
      using 2 h assms(2,3) by (auto simp: amoves_def agrew_def bf_defs)
    moreover have "avl_right_taller T p taller = Some (AVL_OK, True, T')"
      using 2 True n T'(1) by (simp add: avl_right_taller_def bf_defs)
    ultimately show ?thesis by blast
  next
    case 3
    have "aht r' = aht l + 2" "abf r' \<noteq> AVL_EH" using 3 h assms(2) by (auto simp: bf_defs)
    from avl_right_balance_ok[OF assms(1) _ assms(3) this] assms(2) obtain T' t' where
        "avl_right_balance T p = Some (AVL_OK, T')" "amoves T k (ANd l p b d r') T' t'" "aht t' = aht l + 2" by auto
    moreover from this have "agrew False (ANd l p b d r) t'" using 3 h assms(2) by (auto simp: agrew_def bf_defs)
    moreover have "avl_right_taller T p taller = Some (AVL_OK, False, T')"
      using 3 True n calculation(1) by (simp add: avl_right_taller_def bf_defs)
    ultimately show ?thesis by blast
  qed
qed

lemma avl_left_taller_ok:
  assumes "av_at T k (ANd l' p b d r)" and "avl (ANd l p b d r)" and "avl l'" and "agrew taller l l'"
  shows "\<exists>T' t' taller'. avl_left_taller T p taller = Some (AVL_OK, taller', T') \<and>
     amoves T k (ANd l' p b d r) T' t' \<and> agrew taller' (ANd l p b d r) t'"
proof (cases taller)
  case False
  have "amoves T k (ANd l' p b d r) T (ANd l' p b d r)" "agrew False (ANd l p b d r) (ANd l' p b d r)"
    using assms False by (auto simp: amoves_def agrew_def)
  moreover have "avl_left_taller T p taller = Some (AVL_OK, False, T)"
    using False by (simp add: avl_left_taller_def)
  ultimately show ?thesis by blast
next
  case True
  have h: "aht l' = aht l + 1" "abf l' \<noteq> AVL_EH \<or> aht l' = 1" using assms(4) True by (auto simp: agrew_def)
  note n = anode_at[OF assms(1)]
  consider "b = AVL_RH" | "b = AVL_EH" | "b = AVL_LH" using assms(2) by auto
  then show ?thesis
  proof cases
    case 1
    obtain T' where T': "av_set_bf T p AVL_EH = Some T'" "av_at T' k (ANd l' p AVL_EH d r)" "av_same T T'"
      using av_set_bf_at[OF assms(1)] by blast
    then have "amoves T k (ANd l' p b d r) T' (ANd l' p AVL_EH d r)" "agrew False (ANd l p b d r) (ANd l' p AVL_EH d r)"
      using 1 h assms(2,3) by (auto simp: amoves_def agrew_def bf_defs)
    moreover have "avl_left_taller T p taller = Some (AVL_OK, False, T')"
      using 1 True n T'(1) by (simp add: avl_left_taller_def bf_defs)
    ultimately show ?thesis by blast
  next
    case 2
    obtain T' where T': "av_set_bf T p AVL_LH = Some T'" "av_at T' k (ANd l' p AVL_LH d r)" "av_same T T'"
      using av_set_bf_at[OF assms(1)] by blast
    then have "amoves T k (ANd l' p b d r) T' (ANd l' p AVL_LH d r)" "agrew True (ANd l p b d r) (ANd l' p AVL_LH d r)"
      using 2 h assms(2,3) by (auto simp: amoves_def agrew_def bf_defs)
    moreover have "avl_left_taller T p taller = Some (AVL_OK, True, T')"
      using 2 True n T'(1) by (simp add: avl_left_taller_def bf_defs)
    ultimately show ?thesis by blast
  next
    case 3
    have "aht l' = aht r + 2" "abf l' \<noteq> AVL_EH" using 3 h assms(2) by (auto simp: bf_defs)
    from avl_left_balance_ok[OF assms(1,3) _ this] assms(2) obtain T' t' where
        "avl_left_balance T p = Some (AVL_OK, T')" "amoves T k (ANd l' p b d r) T' t'" "aht t' = aht r + 2" by auto
    moreover from this have "agrew False (ANd l p b d r) t'" using 3 h assms(2) by (auto simp: agrew_def bf_defs)
    moreover have "avl_left_taller T p taller = Some (AVL_OK, False, T')"
      using 3 True n calculation(1) by (simp add: avl_left_taller_def bf_defs)
    ultimately show ?thesis by blast
  qed
qed

subsection \<open>The new leaf\<close>

lemma avl_add_child_right:
  assumes "av_at T k (ANd l p b d ALf)" and "av_mem T (Loc (av_brk T)) = None" and "fst (alloc_take al)"
  shows "\<exists>T'. avl_add_child T p True q al = Some (AVL_OK, True, T', snd (alloc_take al)) \<and>
     av_at T' k (ANd l p b d (ANd ALf (Loc (av_brk T)) AVL_EH q ALf)) \<and> av_cmp T' = av_cmp T \<and>
     av_num T' = av_num T \<and> av_brk T' = Suc (av_brk T) \<and> dom (av_mem T') = insert (Loc (av_brk T)) (dom (av_mem T))"
proof -
  have "Loc (av_brk T) \<notin> set (aaddrs (ANd l p b d ALf)) \<union> set (acaddrs k)"
    using av_at_dom[OF assms(1)] assms(2) by blast
  then show ?thesis
    using assms by (auto simp: avl_add_child_def av_at_def avl_prims insert_absorb domIff split: prod.splits)
qed

lemma avl_add_child_left:
  assumes "av_at T k (ANd ALf p b d r)" and "av_mem T (Loc (av_brk T)) = None" and "fst (alloc_take al)"
  shows "\<exists>T'. avl_add_child T p False q al = Some (AVL_OK, True, T', snd (alloc_take al)) \<and>
     av_at T' k (ANd (ANd ALf (Loc (av_brk T)) AVL_EH q ALf) p b d r) \<and> av_cmp T' = av_cmp T \<and>
     av_num T' = av_num T \<and> av_brk T' = Suc (av_brk T) \<and> dom (av_mem T') = insert (Loc (av_brk T)) (dom (av_mem T))"
proof -
  have "Loc (av_brk T) \<notin> set (aaddrs (ANd ALf p b d r)) \<union> set (acaddrs k)"
    using av_at_dom[OF assms(1)] assms(2) by blast
  then show ?thesis
    using assms by (auto simp: avl_add_child_def av_at_def avl_prims insert_absorb domIff split: prod.splits)
qed

end
