(* ===== verification/Avl_Ops.thy ===== *)
theory Avl_Ops
  imports Avl_Insert
begin

text \<open>
  \<open>avl_insert\<close> and \<open>avl_query\<close> on whole trees, for every callback that keeps the contract \<open>cmp_callback\<close>.
\<close>

subsection \<open>The abstract contents\<close>

text \<open>
  \<open>avl_ok key valid T xs\<close>: \<open>T\<close> is a balanced tree with the valid elements \<open>xs\<close> in increasing key order;
  \<open>av_num\<close> counts them; the heap holds their nodes and nothing else, all below the next fresh location.
\<close>

definition avl_whole :: "'a avl_tree \<Rightarrow> 'a atree \<Rightarrow> 'a list \<Rightarrow> bool" where
  "avl_whole T t xs \<longleftrightarrow> av_at T [] t \<and> avl t \<and> aitems t = xs \<and> dom (av_mem T) = set (aaddrs t)"

definition avl_ok :: "('a \<Rightarrow> 'k::linorder) \<Rightarrow> ('a \<Rightarrow> bool) \<Rightarrow> 'a avl_tree \<Rightarrow> 'a list \<Rightarrow> bool" where
  "avl_ok key valid T xs \<longleftrightarrow>
     (\<exists>t. avl_whole T t xs) \<and> sorted_wrt (<) (map key xs) \<and> (\<forall>x \<in> set xs. valid x) \<and>
     av_num T = of_nat (length xs) \<and> (\<forall>n. Loc n \<in> dom (av_mem T) \<longrightarrow> n < av_brk T)"

lemma avl_okE:
  assumes "avl_ok key valid T xs"
  obtains t where "av_at T [] t" "avl t" "aitems t = xs" "dom (av_mem T) = set (aaddrs t)" "av_root T = aptr t"
    "av_mem T (Loc (av_brk T)) = None" "(av_root T = NULL) = (xs = [])"
proof -
  obtain t where t: "av_at T [] t" "avl t" "aitems t = xs" "dom (av_mem T) = set (aaddrs t)"
    using assms unfolding avl_ok_def avl_whole_def by blast
  have "av_root T = aptr t" "(aptr t = NULL) = (xs = [])" using t(1,3) by (cases t; auto simp: av_at_def)+
  moreover have "av_mem T (Loc (av_brk T)) = None" using assms unfolding avl_ok_def by blast
  ultimately show thesis using that t by simp
qed

lemma avl_creat_ok:
  "avl_creat cmp al = (Some T, al') \<Longrightarrow> avl_ok key valid T [] \<and> av_cmp T = cmp"
  by (auto simp: avl_creat_def avl_ok_def avl_whole_def av_at_def split: prod.splits if_splits intro!: exI[of _ ALf])

subsection \<open>The recursion of insertion\<close>

text \<open>A call on a subtree has inserted \<open>q\<close> there, and says whether the subtree has grown.\<close>

definition ins_ok ::
    "'a avl_tree \<Rightarrow> 'a aframe list \<Rightarrow> 'a atree \<Rightarrow> 'a \<Rightarrow> 'a list \<Rightarrow> 'a list \<Rightarrow> allocs \<Rightarrow>
     (int \<times> bool \<times> 'a avl_tree \<times> allocs) option \<Rightarrow> bool" where
  "ins_ok T k t q ys zs al res \<longleftrightarrow> (\<exists>T' t' taller. res = Some (AVL_OK, taller, T', al) \<and>
     av_at T' k t' \<and> avl t' \<and> agrew taller t t' \<and> aitems t = ys @ zs \<and> aitems t' = ys @ q # zs \<and>
     av_cmp T' = av_cmp T \<and> av_num T' = av_num T \<and> av_brk T' = Suc (av_brk T) \<and>
     dom (av_mem T') = insert (Loc (av_brk T)) (dom (av_mem T)) \<and>
     set (aaddrs t') = insert (Loc (av_brk T)) (set (aaddrs t)))"

lemma ins_ok_left:
  assumes "ins_ok T (AL p b d r # k) l q ys zs al child" and "avl (ANd l p b d r)"
  shows "ins_ok T k (ANd l p b d r) q ys (zs @ d # aitems r) al (do {
     (ret, taller, tree, al) \<leftarrow> child;
     if ret \<noteq> AVL_OK then Some (ret, taller, tree, al)
     else do { (ret, taller, tree) \<leftarrow> avl_left_taller tree p taller; Some (ret, taller, tree, al) } })"
proof -
  obtain T1 l1 taller where c: "child = Some (AVL_OK, taller, T1, al)" "av_at T1 k (ANd l1 p b d r)" "avl l1"
      "agrew taller l l1" "aitems l = ys @ zs" "aitems l1 = ys @ q # zs"
      "av_cmp T1 = av_cmp T" "av_num T1 = av_num T" "av_brk T1 = Suc (av_brk T)"
      "dom (av_mem T1) = insert (Loc (av_brk T)) (dom (av_mem T))"
      "set (aaddrs l1) = insert (Loc (av_brk T)) (set (aaddrs l))"
    using assms(1) by (auto simp: ins_ok_def av_at_fold)
  show ?thesis
    using avl_left_taller_ok[OF c(2) assms(2) c(3,4)] c(1,5-11)
    by (force simp: ins_ok_def amoves_def av_same_def)
qed

lemma ins_ok_right:
  assumes "ins_ok T (AR l p b d # k) r q ys zs al child" and "avl (ANd l p b d r)"
  shows "ins_ok T k (ANd l p b d r) q (aitems l @ d # ys) zs al (do {
     (ret, taller, tree, al) \<leftarrow> child;
     if ret \<noteq> AVL_OK then Some (ret, taller, tree, al)
     else do { (ret, taller, tree) \<leftarrow> avl_right_taller tree p taller; Some (ret, taller, tree, al) } })"
proof -
  obtain T1 r1 taller where c: "child = Some (AVL_OK, taller, T1, al)" "av_at T1 k (ANd l p b d r1)" "avl r1"
      "agrew taller r r1" "aitems r = ys @ zs" "aitems r1 = ys @ q # zs"
      "av_cmp T1 = av_cmp T" "av_num T1 = av_num T" "av_brk T1 = Suc (av_brk T)"
      "dom (av_mem T1) = insert (Loc (av_brk T)) (dom (av_mem T))"
      "set (aaddrs r1) = insert (Loc (av_brk T)) (set (aaddrs r))"
    using assms(1) by (auto simp: ins_ok_def av_at_fold)
  show ?thesis
    using avl_right_taller_ok[OF c(2) assms(2) c(3,4)] c(1,5-11)
    by (force simp: ins_ok_def amoves_def av_same_def)
qed

lemma ins_ok_leaf:
  assumes "av_mem T (Loc (av_brk T)) = None" and "fst (alloc_take al)"
  shows "av_at T k (ANd ALf p b d r) \<Longrightarrow>
      ins_ok T (AL p b d r # k) ALf q [] [] (snd (alloc_take al)) (avl_add_child T p False q al)"
    and "av_at T k (ANd l p b d ALf) \<Longrightarrow>
      ins_ok T (AR l p b d # k) ALf q [] [] (snd (alloc_take al)) (avl_add_child T p True q al)"
proof -
  let ?n = "ANd ALf (Loc (av_brk T)) AVL_EH q ALf"
  have n: "avl ?n" "agrew True ALf ?n" "aitems ?n = [q]" by (simp_all add: agrew_def bf_defs)
  show "ins_ok T (AL p b d r # k) ALf q [] [] (snd (alloc_take al)) (avl_add_child T p False q al)"
    if "av_at T k (ANd ALf p b d r)"
  proof -
    from avl_add_child_left[OF that assms, of q] obtain T' where T': "av_at T' k (ANd ?n p b d r)"
        "avl_add_child T p False q al = Some (AVL_OK, True, T', snd (alloc_take al))"
        "av_cmp T' = av_cmp T \<and> av_num T' = av_num T \<and> av_brk T' = Suc (av_brk T) \<and>
         dom (av_mem T') = insert (Loc (av_brk T)) (dom (av_mem T))" by blast
    show ?thesis
      unfolding ins_ok_def using T' n
      by (intro exI[of _ T'] exI[of _ ?n] exI[of _ True]) (simp add: av_at_L bf_defs)
  qed
  show "ins_ok T (AR l p b d # k) ALf q [] [] (snd (alloc_take al)) (avl_add_child T p True q al)"
    if "av_at T k (ANd l p b d ALf)"
  proof -
    from avl_add_child_right[OF that assms, of q] obtain T' where T': "av_at T' k (ANd l p b d ?n)"
        "avl_add_child T p True q al = Some (AVL_OK, True, T', snd (alloc_take al))"
        "av_cmp T' = av_cmp T \<and> av_num T' = av_num T \<and> av_brk T' = Suc (av_brk T) \<and>
         dom (av_mem T') = insert (Loc (av_brk T)) (dom (av_mem T))" by blast
    show ?thesis
      unfolding ins_ok_def using T' n
      by (intro exI[of _ T'] exI[of _ ?n] exI[of _ True]) (simp add: av_at_R bf_defs)
  qed
qed

context cmp_callback
begin

lemma p_avl_insert_step:
  assumes "av_at T k (ANd l p b d r)" and "av_cmp T = cmp" and "valid q" and "valid d"
  shows "p_avl_insert T p q al = (if key q = key d then Some (AVL_NODE_EXIST, False, T, al)
    else if key q < key d then do {
       (ret, taller, tree, al) \<leftarrow> (if l = ALf then avl_add_child T p False q al else p_avl_insert T (aptr l) q al);
       if ret \<noteq> AVL_OK then Some (ret, taller, tree, al)
       else do { (ret, taller, tree) \<leftarrow> avl_left_taller tree p taller; Some (ret, taller, tree, al) } }
    else do {
       (ret, taller, tree, al) \<leftarrow> (if r = ALf then avl_add_child T p True q al else p_avl_insert T (aptr r) q al);
       if ret \<noteq> AVL_OK then Some (ret, taller, tree, al)
       else do { (ret, taller, tree) \<leftarrow> avl_right_taller tree p taller; Some (ret, taller, tree, al) } })"
proof -
  have "(aptr l = NULL) = (l = ALf)" "(aptr r = NULL) = (r = ALf)"
    using assms(1) by (cases l; cases r; auto simp: av_at_def)+
  then show ?thesis
    using anode_at[OF assms(1)] cmp_zero[OF assms(3,4)] cmp_neg[OF assms(3,4)] assms(2)
    by (simp add: p_avl_insert.simps[of T p q al] Let_def cong: if_cong cong del: bind_weak_cong)
qed

lemma p_avl_insert_ok:
  assumes "av_at T k t" and "t \<noteq> ALf" and "av_cmp T = cmp" and "valid q" and "\<forall>x \<in> set (aitems t). valid x"
    and "sorted_wrt (<) (map key (aitems t))" and "\<forall>x \<in> set (aitems t). key x \<noteq> key q" and "avl t"
    and "av_mem T (Loc (av_brk T)) = None" and "fst (alloc_take al)"
  shows "\<exists>ys zs. ins_ok T k t q ys zs (snd (alloc_take al)) (p_avl_insert T (aptr t) q al) \<and>
     (\<forall>x \<in> set ys. key x < key q) \<and> (\<forall>x \<in> set zs. key q < key x)"
  using assms
proof (induction t arbitrary: k)
  case (ANd l p b d r)
  have v: "valid d" using ANd.prems(5) by simp
  note step = p_avl_insert_step[OF ANd.prems(1,3,4) v, of al]
  have ne: "key q \<noteq> key d" using ANd.prems(7) by auto
  have below: "\<forall>x \<in> set (aitems l). key x < key d" "\<forall>x \<in> set (aitems r). key d < key x"
    using ANd.prems(6) by (auto simp: sorted_wrt_append)
  have at: "av_at T (AL p b d r # k) l" "av_at T (AR l p b d # k) r" using ANd.prems(1) by (simp_all add: av_at_fold)
  note leaf = ins_ok_leaf[OF ANd.prems(9,10)]
  show ?case
  proof (cases "key q < key d")
    case True
    obtain ys zs where c: "ins_ok T (AL p b d r # k) l q ys zs (snd (alloc_take al))
        (if l = ALf then avl_add_child T p False q al else p_avl_insert T (aptr l) q al)"
        and o: "\<forall>x \<in> set ys. key x < key q" "\<forall>x \<in> set zs. key q < key x"
    proof (cases "l = ALf")
      case True
      then have "av_at T k (ANd ALf p b d r)" using ANd.prems(1) by simp
      from leaf(1)[OF this, of q] True that[of "[]" "[]"] show thesis by simp
    next
      case False
      then show thesis using that ANd.prems ANd.IH(1)[OF at(1)] by (auto simp: sorted_wrt_append)
    qed
    have "ins_ok T k (ANd l p b d r) q ys (zs @ d # aitems r) (snd (alloc_take al)) (p_avl_insert T p q al)"
      using ins_ok_left[OF c ANd.prems(8)] by (simp only: step ne True if_True if_False)
    then show ?thesis
      using o below(2) True ne by (intro exI[of _ ys] exI[of _ "zs @ d # aitems r"]) force
  next
    case False
    obtain ys zs where c: "ins_ok T (AR l p b d # k) r q ys zs (snd (alloc_take al))
        (if r = ALf then avl_add_child T p True q al else p_avl_insert T (aptr r) q al)"
        and o: "\<forall>x \<in> set ys. key x < key q" "\<forall>x \<in> set zs. key q < key x"
    proof (cases "r = ALf")
      case True
      then have "av_at T k (ANd l p b d ALf)" using ANd.prems(1) by simp
      from leaf(2)[OF this, of q] True that[of "[]" "[]"] show thesis by simp
    next
      case False
      then show thesis using that ANd.prems ANd.IH(2)[OF at(2)] by (auto simp: sorted_wrt_append)
    qed
    have "ins_ok T k (ANd l p b d r) q (aitems l @ d # ys) zs (snd (alloc_take al)) (p_avl_insert T p q al)"
      using ins_ok_right[OF c ANd.prems(8)] by (simp only: step ne False if_True if_False)
    then show ?thesis
      using o below(1) False ne by (intro exI[of _ "aitems l @ d # ys"] exI[of _ zs]) force
  qed
qed simp

lemma p_avl_insert_fail:
  assumes "av_at T k t" and "t \<noteq> ALf" and "av_cmp T = cmp" and "valid q" and "\<forall>x \<in> set (aitems t). valid x"
    and "sorted_wrt (<) (map key (aitems t))"
  shows "(\<exists>x \<in> set (aitems t). key x = key q) \<Longrightarrow> p_avl_insert T (aptr t) q al = Some (AVL_NODE_EXIST, False, T, al)"
    and "\<forall>x \<in> set (aitems t). key x \<noteq> key q \<Longrightarrow> \<not> fst (alloc_take al) \<Longrightarrow>
      p_avl_insert T (aptr t) q al = Some (AVL_ERR, False, T, snd (alloc_take al))"
  using assms
proof (induction t arbitrary: k)
  case (ANd l p b d r)
  {
    case 1
    have v: "valid d" using 1 by simp
    note step = p_avl_insert_step[OF 1(2,4,5) v, of al]
    have at: "av_at T (AL p b d r # k) l" "av_at T (AR l p b d # k) r" using 1(2) by (simp_all add: av_at_fold)
    have below: "\<forall>x \<in> set (aitems l). key x < key d" "\<forall>x \<in> set (aitems r). key d < key x"
      using 1(7) by (auto simp: sorted_wrt_append)
    consider "key q = key d" | "key q < key d" "\<exists>x \<in> set (aitems l). key x = key q"
      | "key d < key q" "\<exists>x \<in> set (aitems r). key x = key q"
      using 1(1) below by fastforce
    then show ?case
      using step ANd.IH(1)[OF _ at(1)] ANd.IH(3)[OF _ at(2)] 1(4-7)
      by cases (auto simp: sorted_wrt_append AVL_NODE_EXIST_def AVL_OK_def)
  next
    case 2
    have v: "valid d" using 2 by simp
    note step = p_avl_insert_step[OF 2(3,5,6) v, of al]
    have at: "av_at T (AL p b d r # k) l" "av_at T (AR l p b d # k) r" using 2(3) by (simp_all add: av_at_fold)
    have leaf: "avl_add_child T p right q al = Some (AVL_ERR, False, T, snd (alloc_take al))" for right
      using 2(2) by (cases "alloc_take al") (simp add: avl_add_child_def)
    show ?case
      using step leaf ANd.IH(2)[OF _ _ at(1)] ANd.IH(4)[OF _ _ at(2)] 2
      by (auto simp: sorted_wrt_append AVL_ERR_def AVL_OK_def)
  }
qed simp_all

subsection \<open>Insertion and lookup on whole trees\<close>

lemma avl_insert_exists:
  assumes "avl_ok key valid T xs" and "av_cmp T = cmp" and "valid q" and "\<exists>x \<in> set xs. key x = key q"
  shows "avl_insert T q al = Some (AVL_NODE_EXIST, T, al)"
proof -
  obtain t where t: "av_at T [] t" "aitems t = xs" "av_root T = aptr t" "(av_root T = NULL) = (xs = [])"
    using assms(1) by (rule avl_okE)
  have ne: "t \<noteq> ALf" "av_root T \<noteq> NULL" using t(2,4) assms(4) by auto
  have "p_avl_insert T (aptr t) q al = Some (AVL_NODE_EXIST, False, T, al)"
    using p_avl_insert_fail(1)[OF t(1) ne(1) assms(2,3)] t(2) assms(1,4) by (simp add: avl_ok_def)
  then show ?thesis using ne(2) t(3) by (simp add: avl_insert_def AVL_NODE_EXIST_def AVL_OK_def)
qed

lemma avl_insert_nomem:
  assumes "avl_ok key valid T xs" and "av_cmp T = cmp" and "valid q" and "\<forall>x \<in> set xs. key x \<noteq> key q"
    and "\<not> fst (alloc_take al)"
  shows "avl_insert T q al = Some (AVL_ERR, T, snd (alloc_take al))"
proof -
  obtain t where t: "av_at T [] t" "aitems t = xs" "av_root T = aptr t" "(av_root T = NULL) = (xs = [])"
    using assms(1) by (rule avl_okE)
  show ?thesis
  proof (cases "xs = []")
    case True
    then show ?thesis using t(4) assms(5) by (cases "alloc_take al") (simp add: avl_insert_def)
  next
    case False
    then have ne: "t \<noteq> ALf" "av_root T \<noteq> NULL" using t(2,4) by auto
    have "p_avl_insert T (aptr t) q al = Some (AVL_ERR, False, T, snd (alloc_take al))"
      using p_avl_insert_fail(2)[OF t(1) ne(1) assms(2,3) _ _ _ assms(5)] t(2) assms(1,4) by (simp add: avl_ok_def)
    then show ?thesis using ne(2) t(3) by (simp add: avl_insert_def AVL_ERR_def AVL_OK_def)
  qed
qed

lemma avl_insert_new:
  assumes "avl_ok key valid T xs" and "av_cmp T = cmp" and "valid q" and "\<forall>x \<in> set xs. key x \<noteq> key q"
    and "fst (alloc_take al)"
  shows "\<exists>T' ys zs. avl_insert T q al = Some (AVL_OK, T', snd (alloc_take al)) \<and> xs = ys @ zs \<and>
     avl_ok key valid T' (ys @ q # zs) \<and> av_cmp T' = cmp"
proof -
  obtain t where t: "av_at T [] t" "avl t" "aitems t = xs" "dom (av_mem T) = set (aaddrs t)" "av_root T = aptr t"
      "av_mem T (Loc (av_brk T)) = None" "(av_root T = NULL) = (xs = [])"
    using assms(1) by (rule avl_okE)
  have srt: "sorted_wrt (<) (map key xs)" "\<forall>x \<in> set xs. valid x" "av_num T = of_nat (length xs)"
      "\<forall>n. Loc n \<in> dom (av_mem T) \<longrightarrow> n < av_brk T"
    using assms(1) by (simp_all add: avl_ok_def)
  show ?thesis
  proof (cases "xs = []")
    case True
    let ?n = "ANd ALf (Loc (av_brk T)) AVL_EH q ALf"
    obtain al' where al: "alloc_take al = (True, al')" using assms(5) by (cases "alloc_take al") auto
    have "dom (av_mem T) = {}" using True t(3,4) length_aitems[of t] by simp
    then have m: "av_mem T = Map.empty" by simp
    let ?T = "T\<lparr>av_brk := av_brk T + 1, av_num := 1, av_root := Loc (av_brk T), av_mem := (av_mem T)
           (Loc (av_brk T) \<mapsto> mk_anode AVL_EH NULL NULL NULL q)\<rparr>"
    have "avl_whole ?T ?n [q]" by (simp add: avl_whole_def av_at_def m bf_defs)
    then have "avl_ok key valid ?T ([] @ q # [])" using assms(3) by (auto simp: avl_ok_def m)
    moreover have "avl_insert T q al = Some (AVL_OK, ?T, al')" using True t(7) al by (simp add: avl_insert_def Let_def)
    ultimately show ?thesis using True al assms(2) by fastforce
  next
    case False
    then have ne: "t \<noteq> ALf" "av_root T \<noteq> NULL" using t(3,7) by auto
    obtain ys zs where "ins_ok T [] t q ys zs (snd (alloc_take al)) (p_avl_insert T (aptr t) q al)"
        and o: "\<forall>x \<in> set ys. key x < key q" "\<forall>x \<in> set zs. key q < key x"
      using p_avl_insert_ok[OF t(1) ne(1) assms(2,3) _ _ _ t(2,6) assms(5)] t(3) srt assms(4) by auto
    then obtain T' t' taller where c: "p_avl_insert T (aptr t) q al = Some (AVL_OK, taller, T', snd (alloc_take al))"
        "av_at T' [] t'" "avl t'" "aitems t = ys @ zs" "aitems t' = ys @ q # zs"
        "av_cmp T' = av_cmp T" "av_num T' = av_num T" "av_brk T' = Suc (av_brk T)"
        "dom (av_mem T') = insert (Loc (av_brk T)) (dom (av_mem T))"
        "set (aaddrs t') = insert (Loc (av_brk T)) (set (aaddrs t))"
      unfolding ins_ok_def by blast
    let ?T = "T'\<lparr>av_num := av_num T' + 1\<rparr>"
    have "avl_whole ?T t' (ys @ q # zs)" using c t(4) by (simp add: avl_whole_def av_at_def)
    then have "avl_ok key valid ?T (ys @ q # zs)"
      using c t(3) srt o assms(3) unfolding avl_ok_def sorted_append_keys by (auto simp: less_Suc_eq)
    moreover have "avl_insert T q al = Some (AVL_OK, ?T, snd (alloc_take al))"
      using c(1) t(5) ne(2) by (simp add: avl_insert_def)
    moreover have "av_cmp ?T = cmp" "xs = ys @ zs" using c(4,6) t(3) assms(2) by simp_all
    ultimately show ?thesis by blast
  qed
qed

lemma avl_query_loop_at:
  assumes "av_at T k t" and "av_cmp T = cmp" and "valid q" and "\<forall>x \<in> set (aitems t). valid x"
    and "sorted_wrt (<) (map key (aitems t))"
  shows "avl_query_loop T q (aptr t) = Some (find (\<lambda>x. key x = key q) (aitems t))"
  using assms
proof (induction t arbitrary: k)
  case ALf
  show ?case by (simp add: avl_query_loop.simps[of T q NULL])
next
  case (ANd l p b d r)
  have v: "valid d" using ANd.prems(4) by simp
  have p: "p \<noteq> NULL" using ANd.prems(1) by (auto simp: av_at_def)
  have at: "av_at T (AL p b d r # k) l" "av_at T (AR l p b d # k) r" using ANd.prems(1) by (simp_all add: av_at_fold)
  have step: "avl_query_loop T q p = (if key q = key d then Some (Some d)
      else if key q < key d then avl_query_loop T q (aptr l) else avl_query_loop T q (aptr r))"
    using anode_at[OF ANd.prems(1)] cmp_zero[OF ANd.prems(3) v] cmp_neg[OF ANd.prems(3) v] ANd.prems(2) p
    by (simp add: avl_query_loop.simps[of T q p] Let_def)
  have below: "\<forall>x \<in> set (aitems l). key x < key d" "\<forall>x \<in> set (aitems r). key d < key x"
    using ANd.prems(5) by (auto simp: sorted_wrt_append)
  have skip: "find (\<lambda>x. key x = key q) (xs @ ys) = (if \<exists>x \<in> set xs. key x = key q
      then find (\<lambda>x. key x = key q) xs else find (\<lambda>x. key x = key q) ys)" for xs ys
    by (induction xs) auto
  have none: "\<not> (\<exists>x \<in> set xs. key x = key q) \<Longrightarrow> find (\<lambda>x. key x = key q) xs = None" for xs
    by (auto simp: find_None_iff)
  consider "key q = key d" | "key q < key d" | "key d < key q" by (rule linorder_cases) auto
  then show ?case
  proof cases
    case 1
    then have "\<not> (\<exists>x \<in> set (aitems l). key x = key q)" using below by auto
    with 1 have "find (\<lambda>x. key x = key q) (aitems l @ d # aitems r) = Some d" by (intro find_append_hit) auto
    then show ?thesis using step 1 by simp
  next
    case 2
    then have "\<not> (\<exists>x \<in> set (aitems r). key x = key q)" using below(2) by force
    then show ?thesis using step 2 ANd.IH(1)[OF at(1)] ANd.prems(2-5) none by (auto simp: skip sorted_wrt_append)
  next
    case 3
    then have "\<not> (\<exists>x \<in> set (aitems l). key x = key q)" using below(1) by force
    then show ?thesis using step 3 ANd.IH(2)[OF at(2)] ANd.prems(2-5) none by (auto simp: skip sorted_wrt_append)
  qed
qed

lemma avl_query_ok:
  assumes "avl_ok key valid T xs" and "av_cmp T = cmp" and "valid q"
  shows "avl_query T q = Some (find (\<lambda>x. key x = key q) xs)"
proof -
  obtain t where "av_at T [] t" "aitems t = xs" "av_root T = aptr t" using assms(1) by (rule avl_okE)
  with avl_query_loop_at[of T "[]" t q] assms show ?thesis by (simp add: avl_query_def avl_ok_def)
qed

end

end
