(* ===== verification/Avl_Delete.thy ===== *)
theory Avl_Delete
  imports Avl_Ops
begin

text \<open>
  Deletion: the subtree in focus loses a node, the code rebalances it on the way back up, and \<open>*lower\<close> says
  whether it has shrunk.  The checks of \<open>avl_assert\<close> all succeed.
\<close>

subsection \<open>Rebalancing\<close>

lemma avl_delete_left_balance_ok:
  assumes "av_at T k (ANd l' p b d r)" and "avl (ANd l p b d r)" and "avl l'" and "aht l = aht l' + 1"
  shows "\<exists>T' t' lower. avl_delete_left_balance T p low = Some (lower, T') \<and>
     amoves T k (ANd l' p b d r) T' t' \<and> aht t' + of_bool lower = aht (ANd l p b d r)"
proof -
  note n = anode_at[OF assms(1)]
  consider "b = AVL_LH" | "b = AVL_EH" | "b = AVL_RH" using assms(2) by auto
  then show ?thesis
  proof cases
    case 1
    obtain T' where T': "av_set_bf T p AVL_EH = Some T'" "av_at T' k (ANd l' p AVL_EH d r)" "av_same T T'"
      using av_set_bf_at[OF assms(1)] by blast
    then have "amoves T k (ANd l' p b d r) T' (ANd l' p AVL_EH d r)" "aht (ANd l' p AVL_EH d r) + of_bool True = aht (ANd l p b d r)"
      using 1 assms(2-4) by (auto simp: amoves_def bf_defs)
    moreover have "avl_delete_left_balance T p low = Some (True, T')"
      using 1 n T'(1) by (simp add: avl_delete_left_balance_def bf_defs)
    ultimately show ?thesis by blast
  next
    case 2
    obtain T' where T': "av_set_bf T p AVL_RH = Some T'" "av_at T' k (ANd l' p AVL_RH d r)" "av_same T T'"
      using av_set_bf_at[OF assms(1)] by blast
    then have "amoves T k (ANd l' p b d r) T' (ANd l' p AVL_RH d r)" "aht (ANd l' p AVL_RH d r) + of_bool False = aht (ANd l p b d r)"
      using 2 assms(2-4) by (auto simp: amoves_def bf_defs)
    moreover have "avl_delete_left_balance T p low = Some (False, T')"
      using 2 n T'(1) by (simp add: avl_delete_left_balance_def bf_defs)
    ultimately show ?thesis by blast
  next
    case 3
    have h: "aht r = aht l' + 2" "avl r" using 3 assms(2,4) by (auto simp: bf_defs)
    then obtain e q b2 d2 c where r: "r = ANd c q b2 d2 e" by (cases r) auto
    have q: "av_mem T q = Some (mk_anode b2 p (aptr c) (aptr e) d2)" using assms(1) by (simp add: r av_at_def)
    show ?thesis
    proof (cases "b2 = AVL_LH")
      case False
      define lower bc bn where "lower = (b2 \<noteq> AVL_EH)" and "bc = (if b2 = AVL_EH then AVL_LH else AVL_EH)"
        and "bn = (if b2 = AVL_EH then AVL_RH else AVL_EH)"
      let ?t = "ANd (ANd l' p bn d c) q bc d2 e"
      obtain T' where T': "avl_relink_rr T (acptr k) p q (mk_anode b2 p (aptr c) (aptr e) d2) bc bn = Some T'" "av_at T' k ?t" "av_same T T'"
        using avl_relink_rr_at[OF assms(1)[unfolded r] q] by blast
      have "avl_assert T' (acptr k) = Some ()" "avl_assert T' p = Some ()" "avl_assert T' q = Some ()"
        using acptr_in[of k] by (auto intro!: avl_assert_at[OF T'(2)])
      then have "avl_delete_left_balance T p low = Some (lower, T')"
        using n q T'(1) 3 False h(2) r
        by (auto simp: avl_delete_left_balance_def lower_def bc_def bn_def bf_defs)
      moreover have "avl ?t" "aht ?t + of_bool lower = aht (ANd l p b d r)"
        using False h 3 assms(2,3) r by (auto simp: lower_def bc_def bn_def bf_defs)
      moreover have "amoves T k (ANd l' p b d r) T' ?t"
        using T' calculation(2) r by (auto simp: amoves_def simp del: avl.simps)
      ultimately show ?thesis by blast
    next
      case True
      have "0 < aht c" using h(2) True r by (auto simp: bf_defs)
      then obtain c1 g b3 d3 f where c: "c = ANd c1 g b3 d3 f" using aht_pos by blast
      obtain bn bc where bf: "avl_rl_bf b3 = Some (bn, bc)" using avl_rl_bf_some[of b3] h(2) r c by auto
      let ?t = "ANd (ANd l' p bn d c1) g AVL_EH d3 (ANd f q bc d2 e)"
      obtain T1 T' where T': "avl_relink_rl T p q g (mk_anode b3 q (aptr c1) (aptr f) d3) = Some T1"
          "avl_replace_child T1 (acptr k) p g = Some T'" "av_at T' k ?t" "av_same T T'"
        using avl_relink_rl_replace[OF assms(1)[unfolded r c] bf] by blast
      have g: "av_mem T g = Some (mk_anode b3 q (aptr c1) (aptr f) d3)" using assms(1) by (simp add: r c av_at_def)
      have "avl_assert T' (acptr k) = Some ()" "avl_assert T' p = Some ()" "avl_assert T' q = Some ()"
          "avl_assert T' g = Some ()"
        using acptr_in[of k] by (auto intro!: avl_assert_at[OF T'(3)])
      then have "avl_delete_left_balance T p low = Some (True, T')"
        using n q g T'(1,2) 3 True r c by (simp add: avl_delete_left_balance_def bf_defs)
      moreover have "avl ?t" "aht ?t = aht l' + 2"
        using avl_rl_shape_ok[OF assms(3) _ _ bf] h True r c by blast+
      moreover have "aht l' + 2 + of_bool True = aht (ANd l p b d r)" using h(1) assms(4) by simp
      moreover have "amoves T k (ANd l' p b d r) T' ?t"
        using T'(3,4) calculation(2) r c by (auto simp: amoves_def simp del: avl.simps)
      ultimately show ?thesis by metis
    qed
  qed
qed

lemma avl_delete_right_balance_ok:
  assumes "av_at T k (ANd l p b d r')" and "avl (ANd l p b d r)" and "avl r'" and "aht r = aht r' + 1"
  shows "\<exists>T' t' lower. avl_delete_right_balance T p low = Some (lower, T') \<and>
     amoves T k (ANd l p b d r') T' t' \<and> aht t' + of_bool lower = aht (ANd l p b d r)"
proof -
  note n = anode_at[OF assms(1)]
  consider "b = AVL_RH" | "b = AVL_EH" | "b = AVL_LH" using assms(2) by auto
  then show ?thesis
  proof cases
    case 1
    obtain T' where T': "av_set_bf T p AVL_EH = Some T'" "av_at T' k (ANd l p AVL_EH d r')" "av_same T T'"
      using av_set_bf_at[OF assms(1)] by blast
    then have "amoves T k (ANd l p b d r') T' (ANd l p AVL_EH d r')" "aht (ANd l p AVL_EH d r') + of_bool True = aht (ANd l p b d r)"
      using 1 assms(2-4) by (auto simp: amoves_def bf_defs)
    moreover have "avl_delete_right_balance T p low = Some (True, T')"
      using 1 n T'(1) by (simp add: avl_delete_right_balance_def bf_defs)
    ultimately show ?thesis by blast
  next
    case 2
    obtain T' where T': "av_set_bf T p AVL_LH = Some T'" "av_at T' k (ANd l p AVL_LH d r')" "av_same T T'"
      using av_set_bf_at[OF assms(1)] by blast
    then have "amoves T k (ANd l p b d r') T' (ANd l p AVL_LH d r')" "aht (ANd l p AVL_LH d r') + of_bool False = aht (ANd l p b d r)"
      using 2 assms(2-4) by (auto simp: amoves_def bf_defs)
    moreover have "avl_delete_right_balance T p low = Some (False, T')"
      using 2 n T'(1) by (simp add: avl_delete_right_balance_def bf_defs)
    ultimately show ?thesis by blast
  next
    case 3
    have h: "aht l = aht r' + 2" "avl l" using 3 assms(2,4) by (auto simp: bf_defs)
    then obtain e q b2 d2 c where l: "l = ANd e q b2 d2 c" by (cases l) auto
    have q: "av_mem T q = Some (mk_anode b2 p (aptr e) (aptr c) d2)" using assms(1) by (simp add: l av_at_def)
    show ?thesis
    proof (cases "b2 = AVL_RH")
      case False
      define lower bc bn where "lower = (b2 \<noteq> AVL_EH)" and "bc = (if b2 = AVL_EH then AVL_RH else AVL_EH)"
        and "bn = (if b2 = AVL_EH then AVL_LH else AVL_EH)"
      let ?t = "ANd e q bc d2 (ANd c p bn d r')"
      obtain T' where T': "avl_relink_ll T (acptr k) p q (mk_anode b2 p (aptr e) (aptr c) d2) bc bn = Some T'" "av_at T' k ?t" "av_same T T'"
        using avl_relink_ll_at[OF assms(1)[unfolded l] q] by blast
      have "avl_assert T' (acptr k) = Some ()" "avl_assert T' p = Some ()" "avl_assert T' q = Some ()"
        using acptr_in[of k] by (auto intro!: avl_assert_at[OF T'(2)])
      then have "avl_delete_right_balance T p low = Some (lower, T')"
        using n q T'(1) 3 False h(2) l
        by (auto simp: avl_delete_right_balance_def lower_def bc_def bn_def bf_defs)
      moreover have "avl ?t" "aht ?t + of_bool lower = aht (ANd l p b d r)"
        using False h 3 assms(2,3) l by (auto simp: lower_def bc_def bn_def bf_defs)
      moreover have "amoves T k (ANd l p b d r') T' ?t"
        using T' calculation(2) l by (auto simp: amoves_def simp del: avl.simps)
      ultimately show ?thesis by blast
    next
      case True
      have "0 < aht c" using h(2) True l by (auto simp: bf_defs)
      then obtain c1 g b3 d3 f where c: "c = ANd c1 g b3 d3 f" using aht_pos by blast
      obtain bn bc where bf: "avl_lr_bf b3 = Some (bn, bc)" using avl_lr_bf_some[of b3] h(2) l c by auto
      let ?t = "ANd (ANd e q bc d2 c1) g AVL_EH d3 (ANd f p bn d r')"
      obtain T1 T' where T': "avl_relink_lr T p q g (mk_anode b3 q (aptr c1) (aptr f) d3) = Some T1"
          "avl_replace_child T1 (acptr k) p g = Some T'" "av_at T' k ?t" "av_same T T'"
        using avl_relink_lr_replace[OF assms(1)[unfolded l c] bf] by blast
      have g: "av_mem T g = Some (mk_anode b3 q (aptr c1) (aptr f) d3)" using assms(1) by (simp add: l c av_at_def)
      have "avl_assert T' (acptr k) = Some ()" "avl_assert T' p = Some ()" "avl_assert T' q = Some ()"
          "avl_assert T' g = Some ()"
        using acptr_in[of k] by (auto intro!: avl_assert_at[OF T'(3)])
      then have "avl_delete_right_balance T p low = Some (True, T')"
        using n q g T'(1,2) 3 True l c by (simp add: avl_delete_right_balance_def bf_defs)
      moreover have "avl ?t" "aht ?t = aht r' + 2"
        using avl_lr_shape_ok[OF assms(3) _ _ bf] h True l c by blast+
      moreover have "aht r' + 2 + of_bool True = aht (ANd l p b d r)" using h(1) assms(4) by simp
      moreover have "amoves T k (ANd l p b d r') T' ?t"
        using T'(3,4) calculation(2) l c by (auto simp: amoves_def simp del: avl.simps)
      ultimately show ?thesis by metis
    qed
  qed
qed

subsection \<open>Taking the predecessor\<close>

lemma avl_unlink_left:
  assumes "av_at T (AL p b d r # k) (ANd l q b' d' ALf)"
  shows "\<exists>T'. avl_set_lchild T p (aptr l) = Some T' \<and> av_at T' (AL p b d r # k) l \<and> av_same T T'"
  using assms by (cases l) (clarsimp simp: av_at_def avl_prims av_same_def insert_absorb domIff)+

lemma avl_unlink_right:
  assumes "av_at T (AR s p b d # k) (ANd l q b' d' ALf)"
  shows "\<exists>T'. avl_set_rchild T p (aptr l) = Some T' \<and> av_at T' (AR s p b d # k) l \<and> av_same T T'"
  using assms by (cases l) (clarsimp simp: av_at_def avl_prims av_same_def insert_absorb domIff)+

text \<open>The path from the left child of \<open>p\<close> down its right edge.\<close>

abbreviation right_edge :: "'a aframe list \<Rightarrow> bool" where
  "right_edge k \<equiv> \<forall>f \<in> set k. \<exists>l p b d. f = AR l p b d"

lemma aptr_aplug_in: "k \<noteq> [] \<Longrightarrow> aptr (aplug k t) \<in> set (acaddrs k)"
proof (induction k t rule: aplug.induct)
  case (2 p b d r k t)
  then show ?case by (cases "k = []") auto
next
  case (3 l p b d k t)
  then show ?case by (cases "k = []") auto
qed simp

lemma acaddrs_append: "acaddrs (k1 @ k2) = acaddrs k1 @ acaddrs k2"
  by (induction k1 rule: acaddrs.induct) auto

lemma acptr_append: "acptr (k1 @ k2) = (if k1 = [] then acptr k2 else acptr k1)"
  by (cases k1 rule: acptr.cases) auto

lemma av_at_split: "av_at T (k1 @ AL p b d r # k) t = av_at T k (ANd (aplug k1 t) p b d r)"
  by (simp add: av_at_append av_at_L)

text \<open>The focus loses a node, the rest of the tree stays; \<open>x\<close> is the address that is freed.\<close>

definition adel ::
    "'a avl_tree \<Rightarrow> 'a aframe list \<Rightarrow> 'a atree \<Rightarrow> 'a avl_tree \<Rightarrow> 'a atree \<Rightarrow> bool \<Rightarrow> addr \<Rightarrow> bool" where
  "adel T k t T' t' lower x \<longleftrightarrow> av_at T' k t' \<and> avl t' \<and> aht t' + of_bool lower = aht t \<and>
     av_cmp T' = av_cmp T \<and> av_brk T' = av_brk T \<and> dom (av_mem T') = dom (av_mem T) - {x} \<and>
     x \<in> set (aaddrs t) \<and> set (aaddrs t') = set (aaddrs t) - {x}"

lemma adel_moves:
  assumes "av_cmp T1 = av_cmp T" "av_brk T1 = av_brk T" "dom (av_mem T1) = dom (av_mem T) - {x}"
    and "x \<in> set (aaddrs t)" "set (aaddrs t1) = set (aaddrs t) - {x}"
    and "amoves T1 k t1 T' t'" "aht t' + of_bool lower = aht t"
  shows "adel T k t T' t' lower x"
  using assms by (simp add: adel_def amoves_def av_same_def)

lemma av_at_focus_neq: "av_at T k (ANd l p b d r) \<Longrightarrow> p \<notin> set (acaddrs k) \<and> p \<noteq> NULL \<and> acptr k \<noteq> p"
  using acptr_in[of k] by (auto simp: av_at_def)

lemma avl_replace_last:
  assumes "av_at T (k1 @ AL p b d r # k) (ANd l q b' d' ALf)" and "right_edge k1" and "avl (ANd l q b' d' ALf)"
  shows "\<exists>T' t'. avl_replace_and_delete T p q low = Some (True, T') \<and>
     adel T (k1 @ AL p b d' r # k) (ANd l q b' d' ALf) T' l True q \<and> av_num T' = av_num T"
proof -
  let ?t = "ANd l q b' d' ALf" and ?k = "k1 @ AL p b d' r # k"
  have at: "av_at T k (ANd (aplug k1 ?t) p b d r)" using assms(1) by (simp only: av_at_split)
  note n = anode_at[OF at] and pn = anode_at[OF assms(1)]
  obtain T1 where T1: "av_upd T p (\<lambda>n. n\<lparr>av_data := d'\<rparr>) = Some T1" "av_at T1 ?k ?t" "av_same T T1"
    using av_set_data_at[OF at, of d'] unfolding av_at_split by blast
  have q: "q \<notin> set (acaddrs ?k)" using av_at_focus_neq[OF T1(2)] by blast
  have "\<exists>T2. (if q = aptr (aplug k1 ?t) then avl_set_lchild T1 p (aptr l)
      else avl_set_rchild T1 (acptr ?k) (aptr l)) = Some T2 \<and> av_at T2 ?k l \<and> av_same T1 T2"
  proof (cases k1)
    case Nil
    then show ?thesis using avl_unlink_left[of T1 p b d' r k l q b' d'] T1(2) by simp
  next
    case (Cons f k2)
    obtain s p2 b2 d2 where f: "f = AR s p2 b2 d2" using assms(2) Cons by auto
    have "aptr (aplug k1 ?t) \<in> set (acaddrs k1)" using Cons by (intro aptr_aplug_in) simp
    then have "q \<noteq> aptr (aplug k1 ?t)" using q by (auto simp: acaddrs_append)
    then show ?thesis
      using avl_unlink_right[of T1 s p2 b2 d2 "k2 @ AL p b d' r # k" l q b' d'] T1(2) Cons f by simp
  qed
  then obtain T2 where T2: "(if q = aptr (aplug k1 ?t) then avl_set_lchild T1 p (aptr l)
      else avl_set_rchild T1 (acptr ?k) (aptr l)) = Some T2" "av_at T2 ?k l" "av_same T1 T2" by blast
  have as: "avl_assert T2 p = Some ()" "avl_assert T2 (acptr ?k) = Some ()" "avl_assert T2 (aptr l) = Some ()"
    using acptr_in[of ?k] aptr_in[of l] by (auto intro!: avl_assert_at[OF T2(2)] simp: acaddrs_append)
  have fr: "q \<notin> set (aaddrs l) \<union> set (acaddrs ?k)" using T1(2) q by (auto simp: av_at_def)
  have "q \<in> dom (av_mem T2)" using pn T1(3) T2(3) by (auto simp: av_same_def)
  from avl_dealloc_at[OF T2(2) fr this] obtain T3 where T3: "avl_dealloc T2 q = Some T3" "av_at T3 ?k l"
      "av_cmp T3 = av_cmp T2" "av_num T3 = av_num T2" "av_brk T3 = av_brk T2"
      "dom (av_mem T3) = dom (av_mem T2) - {q}" by blast
  have k: "acptr (k1 @ AL p b d r # k) = acptr ?k" by (simp add: acptr_append)
  have "avl_replace_and_delete T p q low = Some (True, T3)"
    using n pn[unfolded k] T1(1) T2(1) T3(1) as
    by (simp add: avl_replace_and_delete.simps[of T p q] split: if_splits)
  moreover have "adel T ?k ?t T3 l True q"
    using T1(3) T2(3) T3 assms(3) fr by (auto simp: adel_def av_same_def)
  ultimately show ?thesis using T1(3) T2(3) T3(4) by (auto simp: av_same_def)
qed

lemma avl_replace_and_delete_ok:
  assumes "av_at T (k1 @ AL p b d r # k) t" and "t \<noteq> ALf" and "right_edge k1" and "avl t"
  shows "\<exists>T' t' lower m x. avl_replace_and_delete T p (aptr t) low = Some (lower, T') \<and>
     adel T (k1 @ AL p b m r # k) t T' t' lower x \<and> aitems t = aitems t' @ [m] \<and> av_num T' = av_num T"
  using assms
proof (induction t arbitrary: k1)
  case (ANd l q b' d' r')
  show ?case
  proof (cases "r' = ALf")
    case True
    from avl_replace_last[OF ANd.prems(1)[unfolded True] ANd.prems(3) ANd.prems(4)[unfolded True]] True
    show ?thesis by fastforce
  next
    case False
    have "av_at T ((AR l q b' d' # k1) @ AL p b d r # k) r'" using ANd.prems(1) by (simp add: av_at_fold)
    from ANd.IH(2)[OF this False] ANd.prems(3,4) obtain T1 r1 low1 m x where
        R: "avl_replace_and_delete T p (aptr r') low = Some (low1, T1)"
          "adel T ((AR l q b' d' # k1) @ AL p b m r # k) r' T1 r1 low1 x" "aitems r' = aitems r1 @ [m]"
          "av_num T1 = av_num T" by auto
    let ?k = "k1 @ AL p b m r # k" and ?t = "ANd l q b' d' r'" and ?t1 = "ANd l q b' d' r1"
    have at: "av_at T1 ?k ?t1" using R(2) by (simp add: adel_def av_at_fold)
    have nn: "aptr r' \<noteq> NULL" using False ANd.prems(1) by (cases r') (auto simp: av_at_def)
    have run: "avl_replace_and_delete T p q low = (if low1 then avl_delete_right_balance T1 q low1 else Some (low1, T1))"
    proof -
      have "avl_assert T1 p = Some ()" "avl_assert T1 q = Some ()"
        by (auto intro!: avl_assert_at[OF at] simp: acaddrs_append)
      then show ?thesis
        using anode_at[OF ANd.prems(1)] nn R(1) by (simp add: avl_replace_and_delete.simps[of T p q])
    qed
    have x: "x \<notin> set (aaddrs l)" "x \<noteq> q"
      using R(2) ANd.prems(1) by (auto simp: adel_def av_at_def)
    have D: "av_cmp T1 = av_cmp T" "av_brk T1 = av_brk T" "dom (av_mem T1) = dom (av_mem T) - {x}"
        "x \<in> set (aaddrs ?t)" "set (aaddrs ?t1) = set (aaddrs ?t) - {x}" "avl r1" "aht r1 + of_bool low1 = aht r'"
      using R(2) x by (auto simp: adel_def)
    show ?thesis
    proof (cases low1)
      case True
      from avl_delete_right_balance_ok[OF at ANd.prems(4) D(6), where low = low1] D(7) True obtain T' t' lower where
        B: "avl_delete_right_balance T1 q low1 = Some (lower, T')" "amoves T1 ?k ?t1 T' t'"
          "aht t' + of_bool lower = aht ?t" by auto
      have "adel T ?k ?t T' t' lower x" by (rule adel_moves[OF D(1-5) B(2,3)])
      moreover have "aitems ?t = aitems t' @ [m]" "av_num T' = av_num T"
        using B(2) R(3,4) by (simp_all add: amoves_def av_same_def)
      ultimately show ?thesis using run B(1) True by auto
    next
      case L: False
      have "adel T ?k ?t T1 ?t1 False x" using at D L ANd.prems(4) by (auto simp: adel_def)
      then show ?thesis using run R(3,4) L by fastforce
    qed
  qed
qed simp

subsection \<open>Deleting the node in focus\<close>

lemma av_at_num [simp]: "av_at (T\<lparr>av_num := n\<rparr>) k t = av_at T k t"
  by (simp add: av_at_def)

lemma adel_num: "adel (T\<lparr>av_num := n\<rparr>) k t T' t' lower x = adel T k t T' t' lower x"
  by (simp add: adel_def)

text \<open>The three cases of \<open>_avl_delete\<close> once the node is found; \<open>T\<close> is the tree with the count already lowered.\<close>

lemma avl_bypass:
  assumes "av_at T k t" and "t = ANd u p b d ALf \<or> t = ANd ALf p b d u" and "avl t"
  shows "\<exists>T1 T'. avl_replace_child T (acptr k) p (aptr u) = Some T1 \<and> avl_assert T1 (acptr k) = Some () \<and>
     avl_assert T1 (aptr u) = Some () \<and> avl_dealloc T1 p = Some T' \<and> adel T k t T' u True p \<and> av_num T' = av_num T"
proof -
  obtain T1 where T1: "avl_replace_child T (acptr k) p (aptr u) = Some T1" "av_at T1 k u" "av_same T T1"
    using avl_replace_child_l avl_replace_child_r assms(1,2) by metis
  have as: "avl_assert T1 (acptr k) = Some ()" "avl_assert T1 (aptr u) = Some ()"
    using acptr_in[of k] aptr_in[of u] by (auto intro!: avl_assert_at[OF T1(2)])
  have fr: "p \<notin> set (aaddrs u) \<union> set (acaddrs k)" using assms(1,2) by (auto simp: av_at_def)
  have "p \<in> dom (av_mem T1)" using av_at_dom[OF assms(1), of p] assms(2) T1(3) by (auto simp: av_same_def)
  from avl_dealloc_at[OF T1(2) fr this] obtain T' where T': "avl_dealloc T1 p = Some T'" "av_at T' k u"
      "av_cmp T' = av_cmp T1" "av_num T' = av_num T1" "av_brk T' = av_brk T1"
      "dom (av_mem T') = dom (av_mem T1) - {p}" by blast
  have "adel T k t T' u True p" using T' T1(3) assms(2,3) fr by (auto simp: adel_def av_same_def)
  then show ?thesis using T1 as T' by (auto simp: av_same_def)
qed

lemma avl_delete_found_ok:
  assumes at: "av_at T k (ANd l p b d r)" and ok: "avl (ANd l p b d r)"
  shows "\<exists>T' t' lower x. avl_delete_found T p (mk_anode b (acptr k) (aptr l) (aptr r) d) low = Some (lower, T') \<and>
     adel T k (ANd l p b d r) T' t' lower x \<and> aitems t' = aitems l @ aitems r \<and> av_num T' = av_num T"
proof -
  have nn: "(aptr l = NULL) = (l = ALf)" "(aptr r = NULL) = (r = ALf)"
    using at by (cases l; cases r; auto simp: av_at_def)+
  consider "r = ALf" | "r \<noteq> ALf" "l = ALf" | "r \<noteq> ALf" "l \<noteq> ALf" by blast
  then show ?thesis
  proof cases
    case 1
    then show ?thesis
      using avl_bypass[OF at _ ok, of l] by (fastforce simp: avl_delete_found_def)
  next
    case 2
    then show ?thesis
      using avl_bypass[OF at _ ok, of r] nn by (fastforce simp: avl_delete_found_def)
  next
    case 3
    have "av_at T ([] @ AL p b d r # k) l" using at by (simp add: av_at_fold)
    from avl_replace_and_delete_ok[OF this 3(2), where low = low] ok obtain T1 l1 low1 m x where
        R: "avl_replace_and_delete T p (aptr l) low = Some (low1, T1)" "adel T (AL p b m r # k) l T1 l1 low1 x"
          "aitems l = aitems l1 @ [m]" "av_num T1 = av_num T" by auto
    let ?t1 = "ANd l1 p b m r"
    have at1: "av_at T1 k ?t1" using R(2) by (simp add: adel_def av_at_fold)
    have "avl_assert T1 p = Some ()" by (rule avl_assert_at[OF at1]) simp
    then have run: "avl_delete_found T p (mk_anode b (acptr k) (aptr l) (aptr r) d) low =
        (if low1 then avl_delete_left_balance T1 p low1 else Some (low1, T1))"
      using nn 3 R(1) by (simp add: avl_delete_found_def)
    have "x \<notin> set (aaddrs r)" "x \<noteq> p" using R(2) at by (auto simp: adel_def av_at_def)
    then have D: "av_cmp T1 = av_cmp T" "av_brk T1 = av_brk T" "dom (av_mem T1) = dom (av_mem T) - {x}"
        "x \<in> set (aaddrs (ANd l p b d r))" "set (aaddrs ?t1) = set (aaddrs (ANd l p b d r)) - {x}"
        "avl l1" "aht l1 + of_bool low1 = aht l"
      using R(2) by (auto simp: adel_def)
    have okm: "avl (ANd l p b m r)" using ok by auto
    show ?thesis
    proof (cases low1)
      case True
      from avl_delete_left_balance_ok[OF at1 okm D(6), where low = low1] D(7) True obtain T' t' lower where
        B: "avl_delete_left_balance T1 p low1 = Some (lower, T')" "amoves T1 k ?t1 T' t'"
          "aht t' + of_bool lower = aht (ANd l p b d r)" by auto
      have "adel T k (ANd l p b d r) T' t' lower x" by (rule adel_moves[OF D(1-5) B(2,3)])
      moreover have "aitems t' = aitems l @ aitems r" "av_num T' = av_num T"
        using B(2) R(3,4) by (simp_all add: amoves_def av_same_def)
      ultimately show ?thesis using run B(1) True by auto
    next
      case False
      have "adel T k (ANd l p b d r) T1 ?t1 False x" using at1 D False ok by (auto simp: adel_def)
      then show ?thesis using run R(3,4) False by fastforce
    qed
  qed
qed

subsection \<open>The recursion of deletion\<close>

text \<open>A call on a subtree has removed the element \<open>d\<close> there.\<close>

definition del_ok ::
    "'a avl_tree \<Rightarrow> 'a aframe list \<Rightarrow> 'a atree \<Rightarrow> 'a \<Rightarrow> 'a list \<Rightarrow> 'a list \<Rightarrow> (bool \<times> 'a option \<times> 'a avl_tree) option \<Rightarrow> bool" where
  "del_ok T k t d ys zs res \<longleftrightarrow> (\<exists>T' t' lower x. res = Some (lower, Some d, T') \<and> adel T k t T' t' lower x \<and>
     aitems t = ys @ d # zs \<and> aitems t' = ys @ zs \<and> av_num T' = av_num T - 1)"

lemma del_ok_left:
  assumes "del_ok T (AL p b d r # k) l y ys zs child" and "avl (ANd l p b d r)" and "av_at T k (ANd l p b d r)"
  shows "del_ok T k (ANd l p b d r) y ys (zs @ d # aitems r) (do {
     (lower, dat, tree) \<leftarrow> child;
     _ \<leftarrow> avl_assert tree p;
     n \<leftarrow> av_mem tree p;
     _ \<leftarrow> avl_assert tree (av_lchild n);
     if lower then do { (lower, tree) \<leftarrow> avl_delete_left_balance tree p lower; Some (lower, dat, tree) }
     else Some (lower, dat, tree) })"
proof -
  obtain T1 l1 low1 x where R: "child = Some (low1, Some y, T1)" "adel T (AL p b d r # k) l T1 l1 low1 x"
      "aitems l = ys @ y # zs" "aitems l1 = ys @ zs" "av_num T1 = av_num T - 1"
    using assms(1) unfolding del_ok_def by blast
  let ?t = "ANd l p b d r" and ?t1 = "ANd l1 p b d r"
  have at1: "av_at T1 k ?t1" using R(2) by (simp add: adel_def av_at_fold)
  have "avl_assert T1 p = Some ()" "avl_assert T1 (aptr l1) = Some ()"
    using aptr_in[of l1] by (auto intro!: avl_assert_at[OF at1])
  note run = R(1) this anode_at[OF at1]
  have "x \<notin> set (aaddrs r)" "x \<noteq> p" using R(2) assms(3) by (auto simp: adel_def av_at_def)
  then have D: "av_cmp T1 = av_cmp T" "av_brk T1 = av_brk T" "dom (av_mem T1) = dom (av_mem T) - {x}"
      "x \<in> set (aaddrs ?t)" "set (aaddrs ?t1) = set (aaddrs ?t) - {x}" "avl l1" "aht l1 + of_bool low1 = aht l"
    using R(2) by (auto simp: adel_def)
  show ?thesis
  proof (cases low1)
    case True
    from avl_delete_left_balance_ok[OF at1 assms(2) D(6), where low = low1] D(7) True obtain T' t' lower where
      B: "avl_delete_left_balance T1 p low1 = Some (lower, T')" "amoves T1 k ?t1 T' t'"
        "aht t' + of_bool lower = aht ?t" by auto
    have "adel T k ?t T' t' lower x" by (rule adel_moves[OF D(1-5) B(2,3)])
    then show ?thesis
      unfolding del_ok_def using run B(1,2) R(3-5) True
      by (intro exI[of _ T'] exI[of _ t'] exI[of _ lower] exI[of _ x]) (simp add: amoves_def av_same_def)
  next
    case False
    have "adel T k ?t T1 ?t1 False x" using at1 D False assms(2) by (auto simp: adel_def)
    then show ?thesis
      unfolding del_ok_def using run R(3-5) False
      by (intro exI[of _ T1] exI[of _ ?t1] exI[of _ False] exI[of _ x]) simp
  qed
qed

lemma del_ok_right:
  assumes "del_ok T (AR l p b d # k) r y ys zs child" and "avl (ANd l p b d r)" and "av_at T k (ANd l p b d r)"
  shows "del_ok T k (ANd l p b d r) y (aitems l @ d # ys) zs (do {
     (lower, dat, tree) \<leftarrow> child;
     _ \<leftarrow> avl_assert tree p;
     n \<leftarrow> av_mem tree p;
     _ \<leftarrow> avl_assert tree (av_rchild n);
     if lower then do { (lower, tree) \<leftarrow> avl_delete_right_balance tree p lower; Some (lower, dat, tree) }
     else Some (lower, dat, tree) })"
proof -
  obtain T1 r1 low1 x where R: "child = Some (low1, Some y, T1)" "adel T (AR l p b d # k) r T1 r1 low1 x"
      "aitems r = ys @ y # zs" "aitems r1 = ys @ zs" "av_num T1 = av_num T - 1"
    using assms(1) unfolding del_ok_def by blast
  let ?t = "ANd l p b d r" and ?t1 = "ANd l p b d r1"
  have at1: "av_at T1 k ?t1" using R(2) by (simp add: adel_def av_at_fold)
  have "avl_assert T1 p = Some ()" "avl_assert T1 (aptr r1) = Some ()"
    using aptr_in[of r1] by (auto intro!: avl_assert_at[OF at1])
  note run = R(1) this anode_at[OF at1]
  have "x \<notin> set (aaddrs l)" "x \<noteq> p" using R(2) assms(3) by (auto simp: adel_def av_at_def)
  then have D: "av_cmp T1 = av_cmp T" "av_brk T1 = av_brk T" "dom (av_mem T1) = dom (av_mem T) - {x}"
      "x \<in> set (aaddrs ?t)" "set (aaddrs ?t1) = set (aaddrs ?t) - {x}" "avl r1" "aht r1 + of_bool low1 = aht r"
    using R(2) by (auto simp: adel_def)
  show ?thesis
  proof (cases low1)
    case True
    from avl_delete_right_balance_ok[OF at1 assms(2) D(6), where low = low1] D(7) True obtain T' t' lower where
      B: "avl_delete_right_balance T1 p low1 = Some (lower, T')" "amoves T1 k ?t1 T' t'"
        "aht t' + of_bool lower = aht ?t" by auto
    have "adel T k ?t T' t' lower x" by (rule adel_moves[OF D(1-5) B(2,3)])
    then show ?thesis
      unfolding del_ok_def using run B(1,2) R(3-5) True
      by (intro exI[of _ T'] exI[of _ t'] exI[of _ lower] exI[of _ x]) (simp add: amoves_def av_same_def)
  next
    case False
    have "adel T k ?t T1 ?t1 False x" using at1 D False assms(2) by (auto simp: adel_def)
    then show ?thesis
      unfolding del_ok_def using run R(3-5) False
      by (intro exI[of _ T1] exI[of _ ?t1] exI[of _ False] exI[of _ x]) simp
  qed
qed

context cmp_callback
begin

lemma p_avl_delete_step:
  assumes "av_at T k (ANd l p b d r)" and "av_cmp T = cmp" and "valid q" and "valid d"
  shows "p_avl_delete T p q low = (if key q < key d then
       (if l = ALf then Some (low, None, T)
        else do {
          (lower, dat, tree) \<leftarrow> p_avl_delete T (aptr l) q low;
          _ \<leftarrow> avl_assert tree p;
          n \<leftarrow> av_mem tree p;
          _ \<leftarrow> avl_assert tree (av_lchild n);
          if lower then do { (lower, tree) \<leftarrow> avl_delete_left_balance tree p lower; Some (lower, dat, tree) }
          else Some (lower, dat, tree) })
     else if key d < key q then
       (if r = ALf then Some (low, None, T)
        else do {
          (lower, dat, tree) \<leftarrow> p_avl_delete T (aptr r) q low;
          _ \<leftarrow> avl_assert tree p;
          n \<leftarrow> av_mem tree p;
          _ \<leftarrow> avl_assert tree (av_rchild n);
          if lower then do { (lower, tree) \<leftarrow> avl_delete_right_balance tree p lower; Some (lower, dat, tree) }
          else Some (lower, dat, tree) })
     else do {
       (lower, tree) \<leftarrow> avl_delete_found (T\<lparr>av_num := av_num T - 1\<rparr>) p (mk_anode b (acptr k) (aptr l) (aptr r) d) low;
       Some (lower, Some d, tree) })"
proof -
  have nn: "(aptr l = NULL) = (l = ALf)" "(aptr r = NULL) = (r = ALf)"
    using assms(1) by (cases l; cases r; auto simp: av_at_def)+
  note c = anode_at[OF assms(1)] cmp_zero[OF assms(3,4)] cmp_neg[OF assms(3,4)] assms(2)
  consider "key q < key d" | "key d < key q" | "key q = key d" by (rule linorder_cases) auto
  then show ?thesis
  proof cases
    case 1
    then show ?thesis using c nn by (simp add: p_avl_delete.simps[of T p q low] Let_def)
  next
    case 2
    then have "0 < cmp q d" "\<not> cmp q d < 0" using c(2,3) by (auto simp: order.order_iff_strict)
    then show ?thesis using c nn 2 by (auto simp: p_avl_delete.simps[of T p q low] Let_def)
  next
    case 3
    then have "cmp q d = 0" using c(2) by simp
    then show ?thesis
      using c(1,4) 3 by (simp add: p_avl_delete.simps[of T p q low] Let_def cong del: bind_weak_cong)
  qed
qed

lemma p_avl_delete_miss:
  assumes "av_at T k t" and "t \<noteq> ALf" and "av_cmp T = cmp" and "valid q" and "\<forall>x \<in> set (aitems t). valid x"
    and "\<forall>x \<in> set (aitems t). key x \<noteq> key q"
  shows "p_avl_delete T (aptr t) q False = Some (False, None, T)"
  using assms
proof (induction t arbitrary: k)
  case (ANd l p b d r)
  have v: "valid d" using ANd.prems(5) by simp
  have at: "av_at T (AL p b d r # k) l" "av_at T (AR l p b d # k) r" using ANd.prems(1) by (simp_all add: av_at_fold)
  have "avl_assert T p = Some ()" "avl_assert T (aptr l) = Some ()" "avl_assert T (aptr r) = Some ()"
    using aptr_in[of l] aptr_in[of r] by (auto intro!: avl_assert_at[OF ANd.prems(1)])
  then show ?case
    using p_avl_delete_step[OF ANd.prems(1,3,4) v, of False] ANd.prems(3-6) ANd.IH(1)[OF at(1)] ANd.IH(2)[OF at(2)]
      anode_at[OF ANd.prems(1)]
    by auto
qed simp

lemma p_avl_delete_hit:
  assumes "av_at T k t" and "av_cmp T = cmp" and "valid q" and "\<forall>x \<in> set (aitems t). valid x"
    and "sorted_wrt (<) (map key (aitems t))" and "y \<in> set (aitems t)" and "key y = key q" and "avl t"
  shows "\<exists>ys zs. del_ok T k t y ys zs (p_avl_delete T (aptr t) q low)"
  using assms
proof (induction t arbitrary: k)
  case (ANd l p b d r)
  have v: "valid d" using ANd.prems(4) by simp
  have at: "av_at T (AL p b d r # k) l" "av_at T (AR l p b d # k) r" using ANd.prems(1) by (simp_all add: av_at_fold)
  have below: "\<forall>x \<in> set (aitems l). key x < key d" "\<forall>x \<in> set (aitems r). key d < key x"
    using ANd.prems(5) by (auto simp: sorted_wrt_append)
  note step = p_avl_delete_step[OF ANd.prems(1-3) v, of low]
  consider "key q < key d" "y \<in> set (aitems l)" | "key d < key q" "y \<in> set (aitems r)" | "y = d" "key q = key d"
    using ANd.prems(6,7) below by fastforce
  then show ?case
  proof cases
    case 1
    then obtain ys zs where "del_ok T (AL p b d r # k) l y ys zs (p_avl_delete T (aptr l) q low)"
      using ANd.IH(1)[OF at(1) ANd.prems(2,3)] ANd.prems(4-8) by (auto simp: sorted_wrt_append)
    from del_ok_left[OF this ANd.prems(8,1)] step 1 have
      "del_ok T k (ANd l p b d r) y ys (zs @ d # aitems r) (p_avl_delete T p q low)" by auto
    then show ?thesis by auto
  next
    case 2
    then obtain ys zs where "del_ok T (AR l p b d # k) r y ys zs (p_avl_delete T (aptr r) q low)"
      using ANd.IH(2)[OF at(2) ANd.prems(2,3)] ANd.prems(4-8) by (auto simp: sorted_wrt_append)
    from del_ok_right[OF this ANd.prems(8,1)] step 2 have
      "del_ok T k (ANd l p b d r) y (aitems l @ d # ys) zs (p_avl_delete T p q low)" by auto
    then show ?thesis by auto
  next
    case 3
    have "av_at (T\<lparr>av_num := av_num T - 1\<rparr>) k (ANd l p b d r)" using ANd.prems(1) by simp
    from avl_delete_found_ok[OF this ANd.prems(8), where low = low] obtain T' t' lower x where
      D: "avl_delete_found (T\<lparr>av_num := av_num T - 1\<rparr>) p (mk_anode b (acptr k) (aptr l) (aptr r) d) low = Some (lower, T')"
        "adel T k (ANd l p b d r) T' t' lower x" "aitems t' = aitems l @ aitems r" "av_num T' = av_num T - 1"
      by (auto simp: adel_num)
    then have "del_ok T k (ANd l p b d r) y (aitems l) (aitems r) (p_avl_delete T p q low)"
      unfolding del_ok_def using step 3
      by (intro exI[of _ T'] exI[of _ t'] exI[of _ lower] exI[of _ x]) simp
    then show ?thesis by auto
  qed
qed simp

lemma avl_delete_miss:
  assumes "avl_ok key valid T xs" and "av_cmp T = cmp" and "valid q" and "find (\<lambda>x. key x = key q) xs = None"
  shows "avl_delete T q = Some (AVL_OK, None, T)"
proof -
  obtain t where t: "av_at T [] t" "aitems t = xs" "av_root T = aptr t" "(av_root T = NULL) = (xs = [])"
    using assms(1) by (rule avl_okE)
  have "\<forall>x \<in> set xs. key x \<noteq> key q" using assms(4) by (auto simp: find_None_iff)
  moreover have "aptr t \<noteq> NULL \<Longrightarrow> t \<noteq> ALf" by auto
  ultimately show ?thesis
    using p_avl_delete_miss[OF t(1) _ assms(2,3)] t(2,3) assms(1) by (simp add: avl_delete_def avl_ok_def)
qed

lemma avl_delete_hit:
  assumes "avl_ok key valid T xs" and "av_cmp T = cmp" and "valid q" and "find (\<lambda>x. key x = key q) xs = Some y"
  shows "\<exists>T' ys zs. avl_delete T q = Some (AVL_OK, Some y, T') \<and> xs = ys @ y # zs \<and>
     avl_ok key valid T' (ys @ zs) \<and> av_cmp T' = cmp"
proof -
  obtain t where t: "av_at T [] t" "avl t" "aitems t = xs" "dom (av_mem T) = set (aaddrs t)" "av_root T = aptr t"
      "(av_root T = NULL) = (xs = [])"
    using assms(1) by (rule avl_okE)
  have y: "y \<in> set xs" "key y = key q" using assms(4) by (auto simp: find_Some_iff)
  have srt: "sorted_wrt (<) (map key xs)" "\<forall>x \<in> set xs. valid x" "av_num T = of_nat (length xs)"
      "\<forall>n. Loc n \<in> dom (av_mem T) \<longrightarrow> n < av_brk T"
    using assms(1) by (simp_all add: avl_ok_def)
  obtain T' t' lower x ys zs where D: "p_avl_delete T (aptr t) q False = Some (lower, Some y, T')"
      "adel T [] t T' t' lower x" "xs = ys @ y # zs" "aitems t' = ys @ zs" "av_num T' = av_num T - 1"
    using p_avl_delete_hit[OF t(1) assms(2,3) _ _ _ y(2) t(2), of False] t(3) srt y(1) unfolding del_ok_def by blast
  have "avl_whole T' t' (ys @ zs)" using D(2,4) t(4) by (simp add: avl_whole_def adel_def)
  then have "avl_ok key valid T' (ys @ zs)"
    using D srt unfolding avl_ok_def by (auto simp: adel_def sorted_wrt_append)
  moreover have "avl_delete T q = Some (AVL_OK, Some y, T')"
    using D(1) t(5,6) y(1) by (auto simp: avl_delete_def)
  ultimately show ?thesis using D(2,3) assms(2) by (auto simp: adel_def)
qed

end

end
