(* ===== verification/Avl_Spec.thy ===== *)
theory Avl_Spec
  imports Avl_Delete Chat_Data
begin

text \<open>
  What the balanced trees promise: they implement a finite map, on every branch and for every callback that keeps
  the contract, and every tree that can be reached is well formed.  The witnesses run the code on small trees.
\<close>

subsection \<open>Traversal, search and destruction\<close>

fun apost :: "'a atree \<Rightarrow> 'a list" where
  "apost ALf = []"
| "apost (ANd l p b d r) = apost l @ apost r @ [d]"

lemma mset_apost: "mset (apost t) = mset (aitems t)"
  by (induction t) auto


lemma p_avl_trav_at:
  "av_at T k t \<Longrightarrow> t \<noteq> ALf \<Longrightarrow> p_avl_trav T proc (aptr t) args = trav_list proc (aitems t) args"
proof (induction t arbitrary: k args)
  case (ANd l p b d r)
  have at: "av_at T (AL p b d r # k) l" "av_at T (AR l p b d # k) r" using ANd.prems(1) by (simp_all add: av_at_fold)
  have nn: "(aptr l = NULL) = (l = ALf)" "(aptr r = NULL) = (r = ALf)"
    using ANd.prems(1) by (cases l; cases r; auto simp: av_at_def)+
  have l: "(if l \<noteq> ALf then p_avl_trav T proc (aptr l) a else Some a) = trav_list proc (aitems l) a"
    and r: "(if r \<noteq> ALf then p_avl_trav T proc (aptr r) a else Some a) = trav_list proc (aitems r) a" for a
    using ANd.IH(1)[OF at(1)] ANd.IH(2)[OF at(2)] by auto
  have "p_avl_trav T proc p args = do {
      a \<leftarrow> (if l \<noteq> ALf then p_avl_trav T proc (aptr l) args else Some args);
      a \<leftarrow> proc d a;
      if r \<noteq> ALf then p_avl_trav T proc (aptr r) a else Some a }"
    using anode_at[OF ANd.prems(1)]
    by (simp add: p_avl_trav.simps[of T proc p] nn cong: if_cong cong del: bind_weak_cong split del: if_split)
  moreover have "trav_list proc (d # xs) = (\<lambda>a. Option.bind (proc d a) (trav_list proc xs))" for xs by (rule ext) simp
  ultimately show ?case by (simp only: l r aptr.simps aitems.simps trav_list_append)
qed simp

lemma p_avl_find_at:
  "av_at T k t \<Longrightarrow> t \<noteq> ALf \<Longrightarrow> p_avl_find T P (aptr t) = Some (find P (aitems t))"
proof (induction t arbitrary: k)
  case (ANd l p b d r)
  have at: "av_at T (AL p b d r # k) l" "av_at T (AR l p b d # k) r" using ANd.prems(1) by (simp_all add: av_at_fold)
  have nn: "(aptr l = NULL) = (l = ALf)" "(aptr r = NULL) = (r = ALf)"
    using ANd.prems(1) by (cases l; cases r; auto simp: av_at_def)+
  have find_app: "find P (xs @ ys) = (case find P xs of None \<Rightarrow> find P ys | Some x \<Rightarrow> Some x)" for xs ys
    by (induction xs) auto
  have l: "(if l \<noteq> ALf then p_avl_find T P (aptr l) else Some None) = Some (find P (aitems l))"
    and r: "(if r \<noteq> ALf then p_avl_find T P (aptr r) else Some None) = Some (find P (aitems r))"
    using ANd.IH(1)[OF at(1)] ANd.IH(2)[OF at(2)] by auto
  have "p_avl_find T P p = do {
      x \<leftarrow> (if l \<noteq> ALf then p_avl_find T P (aptr l) else Some None);
      if x \<noteq> None then Some x else if P d then Some (Some d)
      else if r \<noteq> ALf then p_avl_find T P (aptr r) else Some None }"
    using anode_at[OF ANd.prems(1)]
    by (simp add: p_avl_find.simps[of T P p] nn cong: if_cong cong del: bind_weak_cong split del: if_split)
  then show ?case by (simp only: l r) (simp add: find_app split: option.splits)
qed simp

lemma p_avl_destroy_at:
  "atree_at (av_mem T) pa t \<Longrightarrow> t \<noteq> ALf \<Longrightarrow> distinct (NULL # aaddrs t) \<Longrightarrow>
   p_avl_destroy T de (aptr t) args = do {
     args \<leftarrow> trav_list de (apost t) args;
     Some (args, T\<lparr>av_mem := av_mem T |` (- set (aaddrs t))\<rparr>) }"
proof (induction t arbitrary: T pa args)
  case (ANd l p b d r)
  have nn: "(aptr l = NULL) = (l = ALf)" "(aptr r = NULL) = (r = ALf)"
    using ANd.prems(3) by (cases l; cases r; auto)+
  let ?m = "\<lambda>m t. m |` (- set (aaddrs t))"
  have u: "m |` UNIV = m" for m :: "addr \<rightharpoonup> 'a avl_node" by (auto simp: restrict_map_def)
  have keep: "atree_at (m |` (- A)) pa' u = atree_at m pa' u" if "set (aaddrs u) \<inter> A = {}" for m A pa' and u :: "'a atree"
    using that by (induction u arbitrary: pa') auto
  have l: "(if l \<noteq> ALf then p_avl_destroy T de (aptr l) a else Some (a, T)) = do {
      a \<leftarrow> trav_list de (apost l) a; Some (a, T\<lparr>av_mem := ?m (av_mem T) l\<rparr>) }" for a
    using ANd.IH(1)[of T p a] ANd.prems by (cases "l = ALf") (auto simp: u)
  let ?T = "T\<lparr>av_mem := ?m (av_mem T) l\<rparr>"
  have r: "(if r \<noteq> ALf then p_avl_destroy ?T de (aptr r) a else Some (a, ?T)) = do {
      a \<leftarrow> trav_list de (apost r) a; Some (a, T\<lparr>av_mem := ?m (?m (av_mem T) l) r\<rparr>) }" for a
  proof -
    have "set (aaddrs r) \<inter> set (aaddrs l) = {}" "atree_at (av_mem T) p r" "distinct (NULL # aaddrs r)"
      using ANd.prems by auto
    then show ?thesis
      using ANd.IH(2)[of ?T p a] keep[of r "set (aaddrs l)"] 
      by (cases "r = ALf") (simp_all add: u cong del: bind_weak_cong)
  qed
  have p: "av_mem T p = Some (mk_anode b pa (aptr l) (aptr r) d)" "p \<notin> set (aaddrs l)" "p \<notin> set (aaddrs r)"
    using ANd.prems by simp_all
  have m: "(av_mem T |` (- set (aaddrs l)) |` (- set (aaddrs r)))(p := None) = ?m (av_mem T) (ANd l p b d r)"
    by (auto simp: restrict_map_def)
  have "p_avl_destroy T de p args = do {
      (a, T) \<leftarrow> (if l \<noteq> ALf then p_avl_destroy T de (aptr l) args else Some (args, T));
      (a, T) \<leftarrow> (if r \<noteq> ALf then p_avl_destroy T de (aptr r) a else Some (a, T));
      a \<leftarrow> de d a;
      T \<leftarrow> avl_dealloc T p;
      Some (a, T) }"
    using p(1)
    by (simp add: p_avl_destroy.simps[of T de p] nn cong: if_cong cong del: bind_weak_cong split del: if_split)
  moreover have "avl_dealloc (T\<lparr>av_mem := ?m (?m (av_mem T) l) r\<rparr>) p =
      Some (T\<lparr>av_mem := ?m (av_mem T) (ANd l p b d r)\<rparr>)"
    using p m by (simp add: avl_dealloc_def)
  ultimately show ?case
    by (simp add: l r trav_list_append split: Option.bind_split)
qed simp

subsection \<open>Whole trees\<close>

lemma avl_trav_ok: "avl_ok key valid T xs \<Longrightarrow> avl_trav T proc args = trav_list proc xs args"
  by (erule avl_okE) (auto simp: avl_trav_def intro!: p_avl_trav_at[of T "[]"])

lemma avl_find_ok: "avl_ok key valid T xs \<Longrightarrow> avl_find T P = Some (find P xs)"
  by (erule avl_okE) (auto simp: avl_find_def intro!: p_avl_find_at[of T "[]"])

lemma avl_destroy_ok:
  assumes "avl_ok key valid T xs"
  shows "\<exists>ds. mset ds = mset xs \<and> avl_destroy T de args = do {
     args \<leftarrow> trav_list de ds args;
     Some (args, T\<lparr>av_root := NULL, av_mem := Map.empty\<rparr>) }"
proof -
  obtain t where t: "av_at T [] t" "aitems t = xs" "dom (av_mem T) = set (aaddrs t)" "av_root T = aptr t"
      "(av_root T = NULL) = (xs = [])"
    using assms by (rule avl_okE)
  have "av_mem T |` (- set (aaddrs t)) = Map.empty"
    unfolding t(3)[symmetric] by (auto simp: restrict_map_def domIff intro!: ext)
  moreover have "p_avl_destroy T de (aptr t) args = do {
      args \<leftarrow> trav_list de (apost t) args; Some (args, T\<lparr>av_mem := av_mem T |` (- set (aaddrs t))\<rparr>) }" if "t \<noteq> ALf"
    using p_avl_destroy_at[of T NULL t de args] t(1) that by (simp add: av_at_def)
  moreover have e: "(aitems t = []) = (t = ALf)" by (cases t) auto
  moreover have "av_mem T = Map.empty" if "t = ALf" using t(3) that by simp
  ultimately show ?thesis
    using t(2,4,5) mset_apost[of t] e
    by (intro exI[of _ "apost t"]) (cases "t = ALf"; auto simp: avl_destroy_def split: Option.bind_split)
qed

subsection \<open>Well-formed heaps\<close>

definition av_child_ok :: "(addr \<rightharpoonup> 'a avl_node) \<Rightarrow> addr \<Rightarrow> addr \<Rightarrow> bool" where
  "av_child_ok m p c \<longleftrightarrow> c = NULL \<or> (case m c of None \<Rightarrow> False | Some cn \<Rightarrow> av_parent cn = p)"

definition av_parent_ok :: "(addr \<rightharpoonup> 'a avl_node) \<Rightarrow> addr \<Rightarrow> addr \<Rightarrow> bool" where
  "av_parent_ok m p pa \<longleftrightarrow> (case m pa of None \<Rightarrow> False | Some pn \<Rightarrow> av_lchild pn = p \<or> av_rchild pn = p)"

text \<open>Every node has a balance factor of the header, live children that point back, and a parent that points to it;
  the root is a live node without a parent, or there is none.\<close>

definition avl_typed :: "'a avl_tree \<Rightarrow> bool" where
  "avl_typed T \<longleftrightarrow> (av_root T = NULL \<or> av_root T \<in> dom (av_mem T)) \<and>
     (\<forall>p n. av_mem T p = Some n \<longrightarrow> p \<noteq> NULL \<and> av_bf n \<in> {AVL_RH, AVL_EH, AVL_LH} \<and>
        av_child_ok (av_mem T) p (av_lchild n) \<and> av_child_ok (av_mem T) p (av_rchild n) \<and>
        (if p = av_root T then av_parent n = NULL else av_parent_ok (av_mem T) p (av_parent n)))"

lemma atree_at_typed:
  "atree_at m pa t \<Longrightarrow> avl t \<Longrightarrow> x \<in> set (aaddrs t) \<Longrightarrow> \<exists>n. m x = Some n \<and>
     av_bf n \<in> {AVL_RH, AVL_EH, AVL_LH} \<and> av_child_ok m x (av_lchild n) \<and> av_child_ok m x (av_rchild n)"
proof (induction t arbitrary: pa)
  case (ANd l p b d r)
  have "av_child_ok m p (aptr l)" "av_child_ok m p (aptr r)"
    using ANd.prems(1) by (cases l; cases r; auto simp: av_child_ok_def)+
  then show ?case using ANd by auto
qed simp

lemma avl_ok_typed:
  assumes "avl_ok key valid T xs" shows "avl_typed T"
proof -
  obtain t where t: "av_at T [] t" "avl t" "dom (av_mem T) = set (aaddrs t)" "av_root T = aptr t"
    using assms by (rule avl_okE)
  have at: "atree_at (av_mem T) NULL t" "distinct (NULL # aaddrs t)" using t(1) by (simp_all add: av_at_def)
  have "av_root T = NULL \<or> av_root T \<in> dom (av_mem T)" using t(3,4) aptr_in[of t] by auto
  moreover have "p \<noteq> NULL \<and> av_bf n \<in> {AVL_RH, AVL_EH, AVL_LH} \<and> av_child_ok (av_mem T) p (av_lchild n) \<and>
      av_child_ok (av_mem T) p (av_rchild n) \<and>
      (if p = av_root T then av_parent n = NULL else av_parent_ok (av_mem T) p (av_parent n))"
    if n: "av_mem T p = Some n" for p n
  proof -
    have p: "p \<in> set (aaddrs t)" using n t(3) by auto
    then have "p \<noteq> NULL" using at(2) by auto
    moreover have "if p = av_root T then av_parent n = NULL else av_parent_ok (av_mem T) p (av_parent n)"
      using atree_at_parent_of[OF at(1) p] at(2) n t(4) by (auto simp: av_parent_ok_def)
    ultimately show ?thesis using atree_at_typed[OF at(1) t(2) p] n by auto
  qed
  ultimately show ?thesis unfolding avl_typed_def by blast
qed

text \<open>The trees that the interface can make.\<close>

inductive avl_reach :: "('a \<Rightarrow> 'a \<Rightarrow> int) \<Rightarrow> ('a \<Rightarrow> bool) \<Rightarrow> 'a avl_tree \<Rightarrow> bool" for cmp valid where
  avl_reach_creat: "avl_creat cmp al = (Some T, al') \<Longrightarrow> avl_reach cmp valid T"
| avl_reach_insert: "avl_reach cmp valid T \<Longrightarrow> valid q \<Longrightarrow> avl_insert T q al = Some (ret, T', al') \<Longrightarrow> avl_reach cmp valid T'"
| avl_reach_delete: "avl_reach cmp valid T \<Longrightarrow> valid q \<Longrightarrow> avl_delete T q = Some (ret, y, T') \<Longrightarrow> avl_reach cmp valid T'"

context cmp_callback
begin

text \<open>Insertion and deletion, each on all of its branches.\<close>

lemma avl_insert_cases:
  assumes "avl_ok key valid T xs" and "av_cmp T = cmp" and "valid q"
  obtains (exists) "find (\<lambda>x. key x = key q) xs \<noteq> None" "avl_insert T q al = Some (AVL_NODE_EXIST, T, al)"
  | (nomem) "find (\<lambda>x. key x = key q) xs = None" "\<not> fst (alloc_take al)"
      "avl_insert T q al = Some (AVL_ERR, T, snd (alloc_take al))"
  | (new) T' ys zs where "find (\<lambda>x. key x = key q) xs = None" "fst (alloc_take al)" "xs = ys @ zs"
      "avl_insert T q al = Some (AVL_OK, T', snd (alloc_take al))"
      "avl_ok key valid T' (ys @ q # zs)" "av_cmp T' = cmp"
proof -
  consider "\<exists>x \<in> set xs. key x = key q" | "\<forall>x \<in> set xs. key x \<noteq> key q" "fst (alloc_take al)"
    | "\<forall>x \<in> set xs. key x \<noteq> key q" "\<not> fst (alloc_take al)" by blast
  then show thesis
  proof cases
    case 1
    from avl_insert_exists[OF assms 1] exists 1 show thesis by (auto simp: find_None_iff)
  next
    case 2
    have "find (\<lambda>x. key x = key q) xs = None" using 2(1) by (auto simp: find_None_iff)
    with avl_insert_new[OF assms 2] new 2(2) show thesis by blast
  next
    case 3
    from avl_insert_nomem[OF assms 3] nomem 3 show thesis by (auto simp: find_None_iff)
  qed
qed

lemma avl_delete_cases:
  assumes "avl_ok key valid T xs" and "av_cmp T = cmp" and "valid q"
  obtains T' xs' where "avl_delete T q = Some (AVL_OK, find (\<lambda>x. key x = key q) xs, T')"
    "avl_ok key valid T' xs'" "av_cmp T' = cmp"
    "(\<lambda>k. find (\<lambda>x. key x = k) xs') = (\<lambda>k. find (\<lambda>x. key x = k) xs)(key q := None)"
proof (cases "find (\<lambda>x. key x = key q) xs")
  case None
  then have "(\<lambda>k. find (\<lambda>x. key x = k) xs) = (\<lambda>k. find (\<lambda>x. key x = k) xs)(key q := None)" by auto
  then show thesis using that[of T xs] avl_delete_miss[OF assms None] assms(1,2) None by simp
next
  case (Some y)
  obtain T' ys zs where D: "avl_delete T q = Some (AVL_OK, Some y, T')" "xs = ys @ y # zs"
      "avl_ok key valid T' (ys @ zs)" "av_cmp T' = cmp" using avl_delete_hit[OF assms Some] by blast
  have srt: "sorted_wrt (<) (map key xs)" and y: "key y = key q" using assms(1) Some by (auto simp: avl_ok_def find_Some_iff)
  have "(\<lambda>k. find (\<lambda>x. key x = k) (ys @ zs)) = (\<lambda>k. find (\<lambda>x. key x = k) xs)(key y := None)"
  proof (rule find_key_delete)
    have "distinct (map key xs)" using srt by (simp add: strict_sorted_iff)
    then show "inj_on key (set xs)" by (simp add: distinct_map)
    show "set xs = insert y (set (ys @ zs))" using D(2) by auto
    show "y \<notin> set (ys @ zs)" using \<open>distinct (map key xs)\<close> D(2) by auto
  qed
  then show thesis using that[OF _ D(3,4)] D(1) Some y by simp
qed

lemma avl_map_insert:
  assumes "avl_ok key valid T (ys @ q # zs)"
  shows "(\<lambda>k. find (\<lambda>x. key x = k) (ys @ q # zs)) = (\<lambda>k. find (\<lambda>x. key x = k) (ys @ zs))(key q \<mapsto> q)"
proof (rule find_key_insert)
  have "sorted_wrt (<) (map key (ys @ q # zs))" using assms by (simp add: avl_ok_def)
  then have "distinct (map key (ys @ q # zs))" by (simp only: strict_sorted_iff)
  then show "inj_on key (set (ys @ q # zs))" by (simp only: distinct_map)
qed auto

lemma avl_reach_ok: "avl_reach cmp valid T \<Longrightarrow> (\<exists>xs. avl_ok key valid T xs) \<and> av_cmp T = cmp"
proof (induction rule: avl_reach.induct)
  case (avl_reach_creat al T al')
  then show ?case using avl_creat_ok by blast
next
  case (avl_reach_insert T q al ret T' al')
  then obtain xs where xs: "avl_ok key valid T xs" "av_cmp T = cmp" by blast
  from avl_insert_cases[OF xs avl_reach_insert.hyps(2), of al] avl_reach_insert.hyps(3) xs
  show ?case by cases auto
next
  case (avl_reach_delete T q ret y T')
  then obtain xs where xs: "avl_ok key valid T xs" "av_cmp T = cmp" by blast
  from avl_delete_cases[OF xs avl_reach_delete.hyps(2)] avl_reach_delete.hyps(3) show ?case by auto
qed

end

subsection \<open>Trees to run the code on\<close>

fun avl_build :: "'a avl_tree \<Rightarrow> 'a list \<Rightarrow> 'a avl_tree option" where
  "avl_build T [] = Some T"
| "avl_build T (x # xs) = do { (_, T, _) \<leftarrow> avl_insert T x []; avl_build T xs }"

definition sid_avl :: "u64 list \<Rightarrow> chat_sid2cid_item avl_tree option" where
  "sid_avl sids = do {
     T \<leftarrow> fst (avl_creat chat_sid2cid_cmp_cb []);
     avl_build T (map (\<lambda>s. \<lparr>sc_sid = s, sc_cid = 7\<rparr>) sids) }"

definition avl_items :: "'a avl_tree \<Rightarrow> 'a list option" where
  "avl_items T = avl_trav T (\<lambda>x s. Some (s @ [x])) []"

lemma trav_collect: "trav_list (\<lambda>x s. Some (s @ [x])) xs s = Some (s @ xs)"
  by (induction xs arbitrary: s) auto

lemma avl_build_ok:
  assumes "cmp_callback cmp key valid"
  shows "avl_ok key valid T ys \<Longrightarrow> av_cmp T = cmp \<Longrightarrow> avl_reach cmp valid T \<Longrightarrow> \<forall>x \<in> set xs. valid x \<Longrightarrow>
    \<exists>T' ys'. avl_build T xs = Some T' \<and> avl_ok key valid T' ys' \<and> av_cmp T' = cmp \<and> avl_reach cmp valid T'"
proof (induction xs arbitrary: T ys)
  case (Cons x xs)
  have v: "valid x" "\<forall>x \<in> set xs. valid x" using Cons.prems(4) by auto
  have "\<exists>ret T' al ys'. avl_insert T x [] = Some (ret, T', al) \<and> avl_ok key valid T' ys' \<and> av_cmp T' = cmp"
    using cmp_callback.avl_insert_cases[OF assms Cons.prems(1,2) v(1), of "[]"] Cons.prems(1,2) by metis
  then obtain ret T' al ys' where i: "avl_insert T x [] = Some (ret, T', al)" "avl_ok key valid T' ys'" "av_cmp T' = cmp"
    by blast
  from Cons.IH[OF i(2,3) avl_reach_insert[OF Cons.prems(3) v(1) i(1)] v(2)] i(1) show ?case by simp
qed auto

lemma sid_avl_demo:
  obtains T where "sid_avl [30, 10, 20, 5, 40] = Some T" "av_cmp T = chat_sid2cid_cmp_cb"
    "avl_reach chat_sid2cid_cmp_cb (\<lambda>i. sc_sid i < half64) T"
    "avl_ok sc_sid (\<lambda>i. sc_sid i < half64) T (map (\<lambda>s. \<lparr>sc_sid = s, sc_cid = 7\<rparr>) [5, 10, 20, 30, 40])"
proof -
  let ?v = "\<lambda>i. sc_sid i < half64" and ?i = "\<lambda>s. \<lparr>sc_sid = s, sc_cid = 7\<rparr>"
  obtain T0 where T0: "avl_creat chat_sid2cid_cmp_cb [] = (Some T0, [])" by (simp add: avl_creat_def)
  have run: "Option.bind (sid_avl [30, 10, 20, 5, 40]) avl_items = Some (map ?i [5, 10, 20, 30, 40])"
    by code_simp
  obtain T ys where T: "avl_build T0 (map ?i [30, 10, 20, 5, 40]) = Some T" "avl_ok sc_sid ?v T ys"
      "av_cmp T = chat_sid2cid_cmp_cb" "avl_reach chat_sid2cid_cmp_cb ?v T"
    using avl_build_ok[OF sid2cid_tab.cmp_callback_axioms, of T0 "[]" "map ?i [30, 10, 20, 5, 40]"]
      avl_creat_ok[OF T0, of sc_sid ?v] avl_reach_creat[OF T0, of ?v]
    by (auto simp: half64_def)
  then have S: "sid_avl [30, 10, 20, 5, 40] = Some T" using T0 by (simp add: sid_avl_def)
  have "avl_items T = Some ys" unfolding avl_items_def avl_trav_ok[OF T(2)] trav_collect by simp
  with run S have "ys = map ?i [5, 10, 20, 30, 40]" by simp
  with T S that show thesis by blast
qed

subsection \<open>Properties\<close>

text \<open>C32: every tree that creation, insertions and deletions can make is well formed: each node has one of the
  three balance factors, its children are live nodes that point back to it, its parent points to it, and only the
  root has none.  On such a tree every operation returns: no dangling pointer is followed and no check of
  \<open>avl_assert\<close> fails, whatever the allocator does.\<close>

theorem avl_well_formed:
  assumes "cmp_callback cmp key valid" and "avl_reach cmp valid T" and "valid q"
  shows "avl_typed T \<and> avl_insert T q al \<noteq> None \<and> avl_delete T q \<noteq> None \<and> avl_query T q \<noteq> None"
proof -
  obtain xs where xs: "avl_ok key valid T xs" "av_cmp T = cmp"
    using cmp_callback.avl_reach_ok[OF assms(1,2)] by blast
  have "avl_insert T q al \<noteq> None" "avl_delete T q \<noteq> None"
    using cmp_callback.avl_insert_cases[OF assms(1) xs assms(3), of al]
      cmp_callback.avl_delete_cases[OF assms(1) xs assms(3)] by (metis option.distinct(1))+
  then show ?thesis
    using cmp_callback.avl_query_ok[OF assms(1) xs assms(3)] avl_ok_typed[OF xs(1)] by simp
qed

theorem avl_well_formed_witness:
  "\<exists>T. sid_avl [30, 10, 20, 5, 40] = Some T \<and> avl_typed T \<and> avl_delete T \<lparr>sc_sid = 10, sc_cid = 0\<rparr> \<noteq> None"
proof -
  obtain T where T: "sid_avl [30, 10, 20, 5, 40] = Some T"
      "avl_reach chat_sid2cid_cmp_cb (\<lambda>i. sc_sid i < half64) T" by (rule sid_avl_demo)
  have "sc_sid \<lparr>sc_sid = 10, sc_cid = 0\<rparr> < half64" by (simp add: half64_def)
  from avl_well_formed[OF sid2cid_tab.cmp_callback_axioms T(2) this] T(1) show ?thesis by auto
qed

text \<open>C33: a balanced tree implements a finite map from keys to elements, on every branch.  \<open>avl_query\<close> looks a key
  up.  \<open>avl_insert\<close> refuses a key that is present and reports a failed allocation, both without a change, and
  otherwise adds the element.  \<open>avl_delete\<close> yields what the map has for the key and removes it.  \<open>avl_trav\<close> visits the
  elements in key order, \<open>avl_find\<close> returns the first match, and \<open>avl_destroy\<close> hands every element over once and
  frees every node.\<close>

theorem avl_refines_map:
  assumes "cmp_callback cmp key valid" and "avl_ok key valid T xs" and "av_cmp T = cmp" and "valid q"
  defines "m \<equiv> \<lambda>k. find (\<lambda>x. key x = k) xs"
  shows "avl_query T q = Some (m (key q)) \<and>
    (if m (key q) \<noteq> None then avl_insert T q al = Some (AVL_NODE_EXIST, T, al)
     else if \<not> fst (alloc_take al) then avl_insert T q al = Some (AVL_ERR, T, snd (alloc_take al))
     else \<exists>T' xs'. avl_insert T q al = Some (AVL_OK, T', snd (alloc_take al)) \<and> avl_ok key valid T' xs' \<and>
       av_cmp T' = cmp \<and> (\<lambda>k. find (\<lambda>x. key x = k) xs') = m(key q \<mapsto> q)) \<and>
    (\<exists>T' xs'. avl_delete T q = Some (AVL_OK, m (key q), T') \<and> avl_ok key valid T' xs' \<and> av_cmp T' = cmp \<and>
       (\<lambda>k. find (\<lambda>x. key x = k) xs') = m(key q := None)) \<and>
    sorted_wrt (<) (map key xs) \<and> avl_trav T proc args = trav_list proc xs args \<and> avl_find T P = Some (find P xs) \<and>
    (\<exists>ds. mset ds = mset xs \<and> avl_destroy T de args = do {
       args \<leftarrow> trav_list de ds args; Some (args, T\<lparr>av_root := NULL, av_mem := Map.empty\<rparr>) })"
proof (intro conjI)
  show "avl_query T q = Some (m (key q))" unfolding m_def by (rule cmp_callback.avl_query_ok[OF assms(1-4)])
  show "if m (key q) \<noteq> None then avl_insert T q al = Some (AVL_NODE_EXIST, T, al)
     else if \<not> fst (alloc_take al) then avl_insert T q al = Some (AVL_ERR, T, snd (alloc_take al))
     else \<exists>T' xs'. avl_insert T q al = Some (AVL_OK, T', snd (alloc_take al)) \<and> avl_ok key valid T' xs' \<and>
       av_cmp T' = cmp \<and> (\<lambda>k. find (\<lambda>x. key x = k) xs') = m(key q \<mapsto> q)"
    unfolding m_def
  proof (rule cmp_callback.avl_insert_cases[OF assms(1-4), of al])
    fix T' ys zs
    assume N: "find (\<lambda>x. key x = key q) xs = None" "fst (alloc_take al)" "xs = ys @ zs"
      "avl_insert T q al = Some (AVL_OK, T', snd (alloc_take al))" "avl_ok key valid T' (ys @ q # zs)" "av_cmp T' = cmp"
    then show "if find (\<lambda>x. key x = key q) xs \<noteq> None then avl_insert T q al = Some (AVL_NODE_EXIST, T, al)
     else if \<not> fst (alloc_take al) then avl_insert T q al = Some (AVL_ERR, T, snd (alloc_take al))
     else \<exists>T' xs'. avl_insert T q al = Some (AVL_OK, T', snd (alloc_take al)) \<and> avl_ok key valid T' xs' \<and>
       av_cmp T' = cmp \<and> (\<lambda>k. find (\<lambda>x. key x = k) xs') = (\<lambda>k. find (\<lambda>x. key x = k) xs)(key q \<mapsto> q)"
      using cmp_callback.avl_map_insert[OF assms(1) N(5)] by auto
  qed auto
  obtain T' xs' where "avl_delete T q = Some (AVL_OK, m (key q), T')" "avl_ok key valid T' xs'" "av_cmp T' = cmp"
      "(\<lambda>k. find (\<lambda>x. key x = k) xs') = m(key q := None)"
    unfolding m_def by (rule cmp_callback.avl_delete_cases[OF assms(1-4)])
  then show "\<exists>T' xs'. avl_delete T q = Some (AVL_OK, m (key q), T') \<and> avl_ok key valid T' xs' \<and> av_cmp T' = cmp \<and>
       (\<lambda>k. find (\<lambda>x. key x = k) xs') = m(key q := None)" by blast
  show "sorted_wrt (<) (map key xs)" using assms(2) by (simp add: avl_ok_def)
qed (rule avl_trav_ok[OF assms(2)] avl_find_ok[OF assms(2)] avl_destroy_ok[OF assms(2)])+

theorem avl_refines_map_witness:
  "\<exists>T T' xs. sid_avl [30, 10, 20, 5, 40] = Some T \<and>
     avl_query T \<lparr>sc_sid = 20, sc_cid = 0\<rparr> = Some (Some \<lparr>sc_sid = 20, sc_cid = 7\<rparr>) \<and>
     avl_delete T \<lparr>sc_sid = 20, sc_cid = 0\<rparr> = Some (AVL_OK, Some \<lparr>sc_sid = 20, sc_cid = 7\<rparr>, T') \<and>
     avl_ok sc_sid (\<lambda>i. sc_sid i < half64) T' xs \<and>
     avl_trav T (\<lambda>i s. Some (s @ [sc_sid i])) [] = Some [5, 10, 20, 30, 40]"
proof -
  let ?v = "\<lambda>i. sc_sid i < half64"
  obtain T where T: "sid_avl [30, 10, 20, 5, 40] = Some T" "av_cmp T = chat_sid2cid_cmp_cb"
      "avl_ok sc_sid ?v T (map (\<lambda>s. \<lparr>sc_sid = s, sc_cid = 7\<rparr>) [5, 10, 20, 30, 40])" by (rule sid_avl_demo)
  have v: "?v \<lparr>sc_sid = 20, sc_cid = 0\<rparr>" by (simp add: half64_def)
  from avl_refines_map[OF sid2cid_tab.cmp_callback_axioms T(3,2) v, of "[]" "\<lambda>i s. Some (s @ [sc_sid i])" "[]"
      "\<lambda>_. True" "\<lambda>_. Some"] T(1)
  show ?thesis by auto
qed

end
