(* ===== verification/Rtmq_Sub.thy ===== *)
theory Rtmq_Sub
  imports Avl_Spec Vector Ring_Queue
begin

text \<open>
  Who subscribed to what: the table of \<open>src/clang/lib/rtmq/server/rtmq_comm.c\<close>, a hash table of the message types,
  for each type a balanced tree of the groups, for each group a growing array of the nodes; and \<open>rtmq_publish\<close> of
  \<open>rtmq_recv.c\<close>.  The trees, arrays and nodes are objects at addresses, since the entries hold pointers to them.
\<close>

subsection \<open>Data (\<open>rtmq_sub.h\<close>)\<close>

record rtmq_sub_node =
  nd_sid :: u64
  nd_nid :: int

record rtmq_sub_group =
  sg_gid :: u32
  sg_nodes :: addr

record rtmq_sub_list =
  sl_type :: u32
  sl_groups :: addr

text \<open>The subscriptions of the server, the objects they refer to, and the outcomes of \<open>calloc\<close>, \<open>realloc\<close> and
  \<open>Random()\<close> to come.\<close>

record rtmq_subs =
  ss_sub :: "rtmq_sub_list hash_tab"
  ss_groups :: "addr \<rightharpoonup> rtmq_sub_group avl_tree"
  ss_vecs :: "addr \<rightharpoonup> vec"
  ss_nodes :: "addr \<rightharpoonup> rtmq_sub_node"
  ss_brk :: nat
  ss_allocs :: allocs
  ss_reallocs :: "realloc_out list"
  ss_rand :: "nat list"

subsection \<open>Callbacks\<close>




definition sub_key :: "u32 \<Rightarrow> rtmq_sub_list" where
  "sub_key type = \<lparr>sl_type = type, sl_groups = NULL\<rparr>"

definition group_key' :: "u32 \<Rightarrow> rtmq_sub_group" where
  "group_key' gid = \<lparr>sg_gid = gid, sg_nodes = NULL\<rparr>"

subsection \<open>Objects\<close>




text \<open>\<open>free\<close> of each pointer in the list.\<close>

fun sub_nodes_free :: "addr list \<Rightarrow> rtmq_subs \<Rightarrow> rtmq_subs option" where
  "sub_nodes_free [] s = Some s"
| "sub_nodes_free (p # ps) s =
     (if ss_nodes s p = None then None else sub_nodes_free ps (s\<lparr>ss_nodes := (ss_nodes s)(p := None)\<rparr>))"

definition sub_vec_destroy :: "rtmq_subs \<Rightarrow> addr \<Rightarrow> rtmq_subs option" where
  "sub_vec_destroy s p = do {
     v \<leftarrow> ss_vecs s p;
     (_, freed) \<leftarrow> vector_destroy v;
     s \<leftarrow> sub_nodes_free freed s;
     Some (s\<lparr>ss_vecs := (ss_vecs s)(p := None)\<rparr>) }"

definition rtmq_sub_group_trav_dealloc_cb :: "rtmq_sub_group \<Rightarrow> rtmq_subs \<Rightarrow> rtmq_subs option" where
  "rtmq_sub_group_trav_dealloc_cb grp s = sub_vec_destroy s (sg_nodes grp)"

definition rtmq_sub_list_dealloc :: "rtmq_subs \<Rightarrow> rtmq_sub_list \<Rightarrow> rtmq_subs option" where
  "rtmq_sub_list_dealloc s l = do {
     T \<leftarrow> ss_groups s (sl_groups l);
     s \<leftarrow> avl_trav T rtmq_sub_group_trav_dealloc_cb s;
     (s, _) \<leftarrow> avl_destroy T (\<lambda>_ s. Some s) s;
     Some (s\<lparr>ss_groups := (ss_groups s)(sl_groups l := None)\<rparr>) }"


definition rtmq_sub_group_dealloc :: "rtmq_subs \<Rightarrow> rtmq_sub_group \<Rightarrow> rtmq_subs option" where
  "rtmq_sub_group_dealloc s grp = sub_vec_destroy s (sg_nodes grp)"


text \<open>The test of a scan; a dangling pointer ends the scan, and its use afterwards is an invalid access.\<close>

definition rtmq_sub_group_find_sid_cb :: "rtmq_subs \<Rightarrow> u64 \<Rightarrow> addr \<Rightarrow> bool" where
  "rtmq_sub_group_find_sid_cb s sid p = (case ss_nodes s p of None \<Rightarrow> True | Some n \<Rightarrow> nd_sid n = sid)"

subsection \<open>Subscribing\<close>



definition sub_unlock :: "rtmq_subs \<Rightarrow> u32 \<Rightarrow> rtmq_subs option" where
  "sub_unlock s type = do { tab \<leftarrow> hash_tab_unlock (ss_sub s) (sub_key type) WRLOCK; Some (s\<lparr>ss_sub := tab\<rparr>) }"



subsection \<open>Unsubscribing\<close>

text \<open>Common to \<open>rtmq_sub_del\<close> and \<open>rtmq_rsvr_sck_sub_item_free\<close>: the node leaves the group, the empty group the
  list and the empty list the table.  \<open>False\<close> is returned when there is no such node.\<close>

definition sub_remove :: "rtmq_subs \<Rightarrow> rtmq_sub_list \<Rightarrow> rtmq_sub_group \<Rightarrow> u64 \<Rightarrow> u32 \<Rightarrow> (bool \<times> rtmq_subs) option" where
  "sub_remove s l g sid type = do {
     v \<leftarrow> ss_vecs s (sg_nodes g);
     (p, v) \<leftarrow> vector_find_and_del v (rtmq_sub_group_find_sid_cb s sid);
     if p = NULL then Some (False, s)
     else do {
       s \<leftarrow> sub_nodes_free [p] (s\<lparr>ss_vecs := (ss_vecs s)(sg_nodes g \<mapsto> v)\<rparr>);
       if vec_len v \<noteq> 0 then Some (True, s)
       else do {
         T \<leftarrow> ss_groups s (sl_groups l);
         (_, d, T) \<leftarrow> avl_delete T (group_key' (sg_gid g));
         d \<leftarrow> d;
         s \<leftarrow> rtmq_sub_group_dealloc (s\<lparr>ss_groups := (ss_groups s)(sl_groups l \<mapsto> T)\<rparr>) d;
         if av_num T \<noteq> 0 then Some (True, s)
         else do {
           (_, tab) \<leftarrow> hash_tab_delete (ss_sub s) (sub_key type) NONLOCK;
           s \<leftarrow> rtmq_sub_list_dealloc (s\<lparr>ss_sub := tab\<rparr>) l;
           Some (True, s) } } } }"


text \<open>The callback that frees the subscriptions of a closed connection; \<open>False\<close> is an entry that is not freed.\<close>

definition rtmq_rsvr_sck_sub_item_free :: "rtmq_subs \<Rightarrow> u32 \<Rightarrow> u64 \<Rightarrow> u32 \<Rightarrow> (bool \<times> rtmq_subs) option" where
  "rtmq_rsvr_sck_sub_item_free s gid sid type = do {
     (l, tab) \<leftarrow> hash_tab_query (ss_sub s) (sub_key type) WRLOCK;
     let s = s\<lparr>ss_sub := tab\<rparr>;
     case l of
       None \<Rightarrow> Some (False, s)
     | Some l \<Rightarrow> do {
         T \<leftarrow> ss_groups s (sl_groups l);
         g \<leftarrow> avl_query T (group_key' gid);
         case g of
           None \<Rightarrow> do { s \<leftarrow> sub_unlock s type; Some (False, s) }
         | Some g \<Rightarrow> do {
             (freed, s) \<leftarrow> sub_remove s l g sid type;
             s \<leftarrow> sub_unlock s type;
             Some (freed, s) } } }"

subsection \<open>Publishing (\<open>rtmq_recv.c\<close>)\<close>




subsection \<open>The subscriptions of a connection (\<open>rtmq_rsvr.c\<close>)\<close>

text \<open>\<open>sck->sub_list\<close>: a tree of the types that the connection subscribed to.\<close>

definition rtmq_sub_list_cmp_cb :: "u32 \<Rightarrow> u32 \<Rightarrow> int" where
  "rtmq_sub_list_cmp_cb req1 req2 = uint (req1 - req2)"

definition rtmq_rsvr_sck_add_sub :: "u32 avl_tree \<Rightarrow> u32 \<Rightarrow> allocs \<Rightarrow> (int \<times> u32 avl_tree \<times> allocs) option" where
  "rtmq_rsvr_sck_add_sub subs type al = do {
     req \<leftarrow> avl_query subs type;
     if req \<noteq> None then Some (0, subs, al)
     else let (a, al) = alloc_take al in
       if \<not> a then Some (- 1, subs, al)
       else do {
         (ret, subs, al) \<leftarrow> avl_insert subs type al;
         Some (if ret \<noteq> AVL_OK then - 1 else 0, subs, al) } }"

text \<open>Closing a connection: every entry of its list is taken out of the table, in the order of \<open>_avl_destroy\<close>.\<close>

definition rtmq_rsvr_sck_sub_free :: "rtmq_subs \<Rightarrow> u32 \<Rightarrow> u64 \<Rightarrow> u32 avl_tree \<Rightarrow> rtmq_subs option" where
  "rtmq_rsvr_sck_sub_free s gid sid subs = do {
     (s, _) \<leftarrow> avl_destroy subs (\<lambda>type s. map_option snd (rtmq_rsvr_sck_sub_item_free s gid sid type)) s;
     Some s }"

subsection \<open>What the comparisons break\<close>






end
