(* ===== verification/Slist.thy ===== *)
theory Slist
  imports Rb_Trav
begin

text \<open>
  The singly linked list of \<open>src/clang/lib/core/list.c\<close>: nodes on an explicit heap, with a pointer to the last
  node and a count.  Its callers keep non-null pointers in it, so that \<^const>\<open>None\<close> as the result of an operation
  that returns data is the null pointer.  Reading, writing or freeing an address with no node is undefined.
\<close>

subsection \<open>Data (\<open>list.h\<close>)\<close>

record 'a list_node =
  ln_data :: 'a
  ln_next :: addr

text \<open>\<open>num\<close> is an \<open>int\<close>; \<open>ls_mem\<close> is the node heap and \<open>ls_brk\<close> the location that the allocator hands out
  next.\<close>

record 'a slist =
  ls_num :: u32
  ls_head :: addr
  ls_tail :: addr
  ls_mem :: "addr \<rightharpoonup> 'a list_node"
  ls_brk :: nat

definition ls_upd :: "'a slist \<Rightarrow> addr \<Rightarrow> ('a list_node \<Rightarrow> 'a list_node) \<Rightarrow> 'a slist option" where
  "ls_upd list p f = (case ls_mem list p of
      None \<Rightarrow> None
    | Some n \<Rightarrow> Some (list\<lparr>ls_mem := (ls_mem list)(p \<mapsto> f n)\<rparr>))"

definition ls_free :: "'a slist \<Rightarrow> addr \<Rightarrow> 'a slist option" where
  "ls_free list p = (if ls_mem list p = None then None else Some (list\<lparr>ls_mem := (ls_mem list)(p := None)\<rparr>))"

text \<open>The allocation of a node and \<open>node->data = data\<close>.\<close>

definition ls_node :: "'a slist \<Rightarrow> 'a \<Rightarrow> allocs \<Rightarrow> addr \<times> 'a slist \<times> allocs" where
  "ls_node list d al =
     (let (a, al) = alloc_take al in
      if \<not> a then (NULL, list, al)
      else (Loc (ls_brk list), list\<lparr>ls_mem := (ls_mem list)(Loc (ls_brk list) \<mapsto> \<lparr>ln_data = d, ln_next = NULL\<rparr>),
        ls_brk := ls_brk list + 1\<rparr>, al))"

subsection \<open>Operations\<close>

definition list_creat :: "allocs \<Rightarrow> 'a slist option \<times> allocs" where
  "list_creat al =
     (let (a, al) = alloc_take al in
      if \<not> a then (None, al)
      else (Some \<lparr>ls_num = 0, ls_head = NULL, ls_tail = NULL, ls_mem = Map.empty, ls_brk = 0\<rparr>, al))"

partial_function (option) ls_count :: "'a slist \<Rightarrow> addr \<Rightarrow> u32 \<Rightarrow> u32 option" where
  "ls_count list cur num =
     (if cur = NULL then Some num else do { n \<leftarrow> ls_mem list cur; ls_count list (ln_next n) (num + 1) })"

definition list_assert :: "'a slist \<Rightarrow> unit option" where
  "list_assert list = do {
     num \<leftarrow> ls_count list (ls_head list) 0;
     if num \<noteq> ls_num list then None else Some () }"

partial_function (option) ls_destroy_loop ::
    "('a \<Rightarrow> 's \<Rightarrow> 's option) \<Rightarrow> addr \<Rightarrow> 'a slist \<Rightarrow> 's \<Rightarrow> ('s \<times> 'a slist) option" where
  "ls_destroy_loop dealloc cur list pool =
     (if cur = NULL then Some (pool, list)
      else do {
        n \<leftarrow> ls_mem list cur;
        pool \<leftarrow> dealloc (ln_data n) pool;
        list \<leftarrow> ls_free list cur;
        ls_destroy_loop dealloc (ln_next n) list pool })"

text \<open>The nodes that are still there after \<open>list_destroy\<close> are leaked.\<close>

definition list_destroy :: "'a slist \<Rightarrow> ('a \<Rightarrow> 's \<Rightarrow> 's option) \<Rightarrow> 's \<Rightarrow> ('s \<times> 'a slist) option" where
  "list_destroy list dealloc pool = ls_destroy_loop dealloc (ls_head list) list pool"

definition list_lpush :: "'a slist \<Rightarrow> 'a \<Rightarrow> allocs \<Rightarrow> (int \<times> 'a slist \<times> allocs) option" where
  "list_lpush list d al =
     (let (node, list, al) = ls_node list d al in
      if node = NULL then Some (- 1, list, al)
      else if ls_head list = NULL then do {
        let list = list\<lparr>ls_head := node, ls_tail := node\<rparr>;
        list \<leftarrow> ls_upd list node (\<lambda>n. n\<lparr>ln_next := NULL\<rparr>);
        Some (0, list\<lparr>ls_num := 1\<rparr>, al) }
      else do {
        list \<leftarrow> ls_upd list node (\<lambda>n. n\<lparr>ln_next := ls_head list\<rparr>);
        Some (0, list\<lparr>ls_head := node, ls_num := ls_num list + 1\<rparr>, al) })"

definition list_rpush :: "'a slist \<Rightarrow> 'a \<Rightarrow> allocs \<Rightarrow> (int \<times> 'a slist \<times> allocs) option" where
  "list_rpush list d al =
     (let (node, list, al) = ls_node list d al in
      if node = NULL then Some (- 1, list, al)
      else if ls_tail list = NULL then do {
        let list = list\<lparr>ls_head := node, ls_tail := node\<rparr>;
        list \<leftarrow> ls_upd list node (\<lambda>n. n\<lparr>ln_next := NULL\<rparr>);
        Some (0, list\<lparr>ls_num := 1\<rparr>, al) }
      else do {
        list \<leftarrow> ls_upd list (ls_tail list) (\<lambda>n. n\<lparr>ln_next := node\<rparr>);
        let list = list\<lparr>ls_tail := node\<rparr>;
        list \<leftarrow> ls_upd list node (\<lambda>n. n\<lparr>ln_next := NULL\<rparr>);
        Some (0, list\<lparr>ls_num := ls_num list + 1\<rparr>, al) })"

definition list_insert :: "'a slist \<Rightarrow> addr \<Rightarrow> 'a \<Rightarrow> allocs \<Rightarrow> (int \<times> 'a slist \<times> allocs) option" where
  "list_insert list prev d al =
     (if prev = NULL then list_lpush list d al
      else if ls_tail list = prev then list_rpush list d al
      else let (node, list, al) = ls_node list d al in
        if node = NULL then Some (- 1, list, al)
        else do {
          pn \<leftarrow> ls_mem list prev;
          list \<leftarrow> ls_upd list node (\<lambda>n. n\<lparr>ln_next := ln_next pn\<rparr>);
          list \<leftarrow> ls_upd list prev (\<lambda>n. n\<lparr>ln_next := node\<rparr>);
          Some (0, list\<lparr>ls_num := ls_num list + 1\<rparr>, al) })"

definition list_lpop :: "'a slist \<Rightarrow> ('a option \<times> 'a slist) option" where
  "list_lpop list =
     (if ls_head list = NULL then Some (None, list)
      else if ls_head list = ls_tail list then do {
        let head = ls_head list;
        let list = list\<lparr>ls_tail := NULL, ls_head := NULL, ls_num := 0\<rparr>;
        hn \<leftarrow> ls_mem list head;
        list \<leftarrow> ls_free list head;
        Some (Some (ln_data hn), list) }
      else do {
        let head = ls_head list;
        hn \<leftarrow> ls_mem list head;
        let list = list\<lparr>ls_head := ln_next hn, ls_num := ls_num list - 1\<rparr>;
        list \<leftarrow> ls_free list head;
        Some (Some (ln_data hn), list) })"

text \<open>The node before the last one.\<close>

partial_function (option) ls_before_tail :: "'a slist \<Rightarrow> addr \<Rightarrow> addr option" where
  "ls_before_tail list prev = do {
     n \<leftarrow> ls_mem list prev;
     if ln_next n \<noteq> ls_tail list then ls_before_tail list (ln_next n) else Some prev }"

definition list_rpop :: "'a slist \<Rightarrow> ('a option \<times> 'a slist) option" where
  "list_rpop list =
     (if ls_head list = NULL then Some (None, list)
      else if ls_head list = ls_tail list then do {
        let tail = ls_tail list;
        let list = list\<lparr>ls_tail := NULL, ls_head := NULL, ls_num := 0\<rparr>;
        tn \<leftarrow> ls_mem list tail;
        list \<leftarrow> ls_free list tail;
        Some (Some (ln_data tn), list) }
      else do {
        let tail = ls_tail list;
        prev \<leftarrow> ls_before_tail list (ls_head list);
        list \<leftarrow> ls_upd list prev (\<lambda>n. n\<lparr>ln_next := NULL\<rparr>);
        let list = list\<lparr>ls_tail := prev, ls_num := ls_num list - 1\<rparr>;
        tn \<leftarrow> ls_mem list tail;
        list \<leftarrow> ls_free list tail;
        Some (Some (ln_data tn), list) })"

partial_function (option) ls_remove_loop :: "'a slist \<Rightarrow> 'a \<Rightarrow> addr \<Rightarrow> addr \<Rightarrow> (int \<times> 'a slist) option" where
  "ls_remove_loop list d prev cur =
     (if cur = NULL then Some (- 1, list)
      else do {
        n \<leftarrow> ls_mem list cur;
        if ln_data n = d then
          if ls_head list = cur then
            if ls_head list = ls_tail list then do {
              list \<leftarrow> ls_free (list\<lparr>ls_head := NULL, ls_tail := NULL, ls_num := 0\<rparr>) cur;
              Some (0, list) }
            else do {
              list \<leftarrow> ls_free (list\<lparr>ls_head := ln_next n, ls_num := ls_num list - 1\<rparr>) cur;
              Some (0, list) }
          else if cur = ls_tail list then do {
            list \<leftarrow> ls_upd list prev (\<lambda>p. p\<lparr>ln_next := ln_next n\<rparr>);
            list \<leftarrow> ls_free (list\<lparr>ls_tail := prev, ls_num := ls_num list - 1\<rparr>) cur;
            Some (0, list) }
          else do {
            list \<leftarrow> ls_upd list prev (\<lambda>p. p\<lparr>ln_next := ln_next n\<rparr>);
            list \<leftarrow> ls_free (list\<lparr>ls_num := ls_num list - 1\<rparr>) cur;
            Some (0, list) }
        else ls_remove_loop list d cur (ln_next n) })"

definition list_remove :: "'a slist \<Rightarrow> 'a \<Rightarrow> (int \<times> 'a slist) option" where
  "list_remove list d = ls_remove_loop list d (ls_head list) (ls_head list)"

fun ls_skip :: "'a slist \<Rightarrow> nat \<Rightarrow> addr \<Rightarrow> addr option" where
  "ls_skip list 0 node = Some node"
| "ls_skip list (Suc i) node = do { n \<leftarrow> ls_mem list node; ls_skip list i (ln_next n) }"

text \<open>A negative index reads the head, which is a null pointer in an empty list.\<close>

definition list_fetch :: "'a slist \<Rightarrow> int \<Rightarrow> 'a option option" where
  "list_fetch list idx =
     (if sint (ls_num list) \<le> idx then Some None
      else do { node \<leftarrow> ls_skip list (nat idx) (ls_head list); n \<leftarrow> ls_mem list node; Some (Some (ln_data n)) })"

partial_function (option) ls_sort_loop ::
    "'a slist \<Rightarrow> 'a \<Rightarrow> ('a \<Rightarrow> 'a \<Rightarrow> int) \<Rightarrow> addr \<Rightarrow> addr \<Rightarrow> allocs \<Rightarrow> (int \<times> 'a slist \<times> allocs) option" where
  "ls_sort_loop list d cmp prev cur al =
     (if cur = NULL then list_insert list prev d al
      else do {
        n \<leftarrow> ls_mem list cur;
        if 0 \<le> cmp d (ln_data n) then list_insert list prev d al
        else ls_sort_loop list d cmp cur (ln_next n) al })"

definition list_sort :: "'a slist \<Rightarrow> 'a \<Rightarrow> ('a \<Rightarrow> 'a \<Rightarrow> int) \<Rightarrow> allocs \<Rightarrow> (int \<times> 'a slist \<times> allocs) option" where
  "list_sort list d cmp al =
     (if ls_head list = NULL then list_lpush list d al
      else ls_sort_loop list d cmp NULL (ls_head list) al)"

partial_function (option) ls_trav_loop ::
    "'a slist \<Rightarrow> ('a \<Rightarrow> 's \<Rightarrow> (int \<times> 's) option) \<Rightarrow> addr \<Rightarrow> 's \<Rightarrow> (int \<times> 's) option" where
  "ls_trav_loop list proc node args =
     (if node = NULL then Some (0, args)
      else do {
        n \<leftarrow> ls_mem list node;
        (ret, args) \<leftarrow> proc (ln_data n) args;
        if ret \<noteq> 0 then Some (- 1, args) else ls_trav_loop list proc (ln_next n) args })"

definition list_trav :: "'a slist \<Rightarrow> ('a \<Rightarrow> 's \<Rightarrow> (int \<times> 's) option) \<Rightarrow> 's \<Rightarrow> (int \<times> 's) option" where
  "list_trav list proc args = ls_trav_loop list proc (ls_head list) args"

partial_function (option) ls_find_loop :: "'a slist \<Rightarrow> ('a \<Rightarrow> bool) \<Rightarrow> addr \<Rightarrow> 'a option option" where
  "ls_find_loop list cb node =
     (if node = NULL then Some None
      else do {
        n \<leftarrow> ls_mem list node;
        if cb (ln_data n) then Some (Some (ln_data n)) else ls_find_loop list cb (ln_next n) })"

definition list_find :: "'a slist \<Rightarrow> ('a \<Rightarrow> bool) \<Rightarrow> 'a option option" where
  "list_find list cb = ls_find_loop list cb (ls_head list)"

text \<open>\<open>tail\<close> is not touched, also when the last node goes.\<close>

definition ls_unlink :: "'a slist \<Rightarrow> addr \<Rightarrow> addr \<Rightarrow> ('a option \<times> 'a slist) option" where
  "ls_unlink list prev node = do {
     n \<leftarrow> ls_mem list node;
     let list = list\<lparr>ls_num := ls_num list - 1\<rparr>;
     list \<leftarrow> (if ls_num list = 0 then Some (list\<lparr>ls_head := NULL\<rparr>)
       else do {
         list \<leftarrow> (if prev \<noteq> NULL then ls_upd list prev (\<lambda>p. p\<lparr>ln_next := ln_next n\<rparr>) else Some list);
         Some (if node = ls_head list then list\<lparr>ls_head := ln_next n\<rparr> else list) });
     list \<leftarrow> ls_free list node;
     Some (Some (ln_data n), list) }"

partial_function (option) ls_find_del_loop ::
    "'a slist \<Rightarrow> ('a \<Rightarrow> bool) \<Rightarrow> addr \<Rightarrow> addr \<Rightarrow> ('a option \<times> 'a slist) option" where
  "ls_find_del_loop list cb prev node =
     (if node = NULL then Some (None, list)
      else do {
        n \<leftarrow> ls_mem list node;
        if cb (ln_data n) then ls_unlink list prev node else ls_find_del_loop list cb node (ln_next n) })"

definition list_find_and_del :: "'a slist \<Rightarrow> ('a \<Rightarrow> bool) \<Rightarrow> ('a option \<times> 'a slist) option" where
  "list_find_and_del list cb = ls_find_del_loop list cb NULL (ls_head list)"

declare ls_count.simps [code] ls_destroy_loop.simps [code] ls_before_tail.simps [code] ls_remove_loop.simps [code]
  ls_sort_loop.simps [code] ls_trav_loop.simps [code] ls_find_loop.simps [code] ls_find_del_loop.simps [code]

end
