(* ===== verification/List_Iface.thy ===== *)
theory List_Iface
  imports Rb_Trav
begin

text \<open>
  What the linked lists of the library have in common: sequences of operations, the results of each, and the
  contract under which they act as on an Isabelle list.  The count of elements is an \<open>int\<close>.
\<close>

definition LIST_MAX :: nat where "LIST_MAX = 2 ^ 31 - 1"

text \<open>Operations return a code or an element.\<close>

datatype 'a list_res = Ret int | Elem "'a option"

fun run_ops :: "('op \<Rightarrow> 'l \<Rightarrow> allocs \<Rightarrow> ('r \<times> 'l \<times> allocs) option) \<Rightarrow> 'op list \<Rightarrow> 'l \<Rightarrow> allocs \<Rightarrow>
    ('r list \<times> 'l \<times> allocs) option" where
  "run_ops step [] L al = Some ([], L, al)"
| "run_ops step (op # ops) L al = do {
     (r, L, al) \<leftarrow> step op L al;
     (rs, L, al) \<leftarrow> run_ops step ops L al;
     Some (r # rs, L, al) }"

fun spec_ops :: "('op \<Rightarrow> 'a list \<Rightarrow> allocs \<Rightarrow> 'r \<times> 'a list \<times> allocs) \<Rightarrow> 'op list \<Rightarrow> 'a list \<Rightarrow> allocs \<Rightarrow>
    'r list \<times> 'a list \<times> allocs" where
  "spec_ops spec [] xs al = ([], xs, al)"
| "spec_ops spec (op # ops) xs al =
     (let (r, xs, al) = spec op xs al; (rs, xs, al) = spec_ops spec ops xs al in (r # rs, xs, al))"

locale list_refinement =
  fixes step :: "'op \<Rightarrow> 'l \<Rightarrow> allocs \<Rightarrow> ('r \<times> 'l \<times> allocs) option"
    and spec :: "'op \<Rightarrow> 'a list \<Rightarrow> allocs \<Rightarrow> 'r \<times> 'a list \<times> allocs"
    and rep :: "'l \<Rightarrow> 'a list \<Rightarrow> bool"
  assumes sim: "rep L xs \<Longrightarrow> length xs < LIST_MAX \<Longrightarrow>
      \<exists>L'. step op L al = Some (fst (spec op xs al), L', snd (snd (spec op xs al))) \<and>
        rep L' (fst (snd (spec op xs al)))"
    and grow: "length (fst (snd (spec op xs al))) \<le> Suc (length xs)"
begin

lemma run_sim:
  "rep L xs \<Longrightarrow> length xs + length ops \<le> LIST_MAX \<Longrightarrow>
   \<exists>L'. run_ops step ops L al = Some (fst (spec_ops spec ops xs al), L', snd (snd (spec_ops spec ops xs al))) \<and>
     rep L' (fst (snd (spec_ops spec ops xs al)))"
proof (induction ops arbitrary: L xs al)
  case (Cons op ops)
  obtain r xs1 al1 where s: "spec op xs al = (r, xs1, al1)" by (cases "spec op xs al")
  have "length xs < LIST_MAX" using Cons.prems(2) by simp
  from sim[OF Cons.prems(1) this, of op al] obtain L1 where
    L1: "step op L al = Some (r, L1, al1)" "rep L1 xs1" unfolding s by auto
  have "length xs1 + length ops \<le> LIST_MAX" using grow[of op xs al] Cons.prems(2) unfolding s by simp
  from Cons.IH[OF L1(2) this, of al1] show ?case using L1(1) s
    by (auto split: prod.split)
qed simp

end

lemma spec_ops_length:
  assumes "\<And>op xs al. length (fst (snd (spec op xs al))) \<le> Suc (length xs)"
  shows "length (fst (snd (spec_ops spec ops xs al))) \<le> length xs + length ops"
proof (induction ops arbitrary: xs al)
  case (Cons op ops)
  obtain r xs1 al1 where s: "spec op xs al = (r, xs1, al1)" by (cases "spec op xs al")
  obtain rs xs2 al2 where t: "spec_ops spec ops xs1 al1 = (rs, xs2, al2)" by (cases "spec_ops spec ops xs1 al1")
  show ?case using Cons.IH[of xs1 al1] assms[of op xs al] s t by simp
qed simp

text \<open>A traversal that its callback can stop.\<close>

fun trav_stop :: "('a \<Rightarrow> 's \<Rightarrow> (int \<times> 's) option) \<Rightarrow> 'a list \<Rightarrow> 's \<Rightarrow> (int \<times> 's) option" where
  "trav_stop proc [] s = Some (0, s)"
| "trav_stop proc (x # xs) s = do { (ret, s) \<leftarrow> proc x s; if ret \<noteq> 0 then Some (- 1, s) else trav_stop proc xs s }"

text \<open>The count of a list that is not too long.\<close>

lemma count_zero: "n < 2 ^ 32 \<Longrightarrow> ((of_nat n :: u32) = 0) = (n = 0)"
  by (auto simp: word_of_nat_eq_0_iff dest: nat_dvd_not_less)

lemma count_sint: "n \<le> LIST_MAX \<Longrightarrow> sint (of_nat n :: u32) = int n"
  by (simp add: LIST_MAX_def signed_of_nat signed_take_bit_int_eq_self)

lemma restrict_map_all [simp]: "m |` UNIV = m"
  by (rule ext) (simp add: restrict_map_def)

end
