(* ===== verification/Slist_Spec.thy ===== *)
theory Slist_Spec
  imports Slist List_Iface
begin

text \<open>
  The operations of \<open>list.c\<close> on a chain of nodes, and what they do to the list that it holds.
\<close>

subsection \<open>Chains\<close>

text \<open>Nodes are given by address and data; \<open>nx_of\<close> is where a chain starts that goes on at \<open>q\<close>.\<close>

fun nx_of :: "(addr \<times> 'a) list \<Rightarrow> addr \<Rightarrow> addr" where
  "nx_of [] q = q"
| "nx_of ((a, x) # nds) q = a"

definition last_of :: "(addr \<times> 'a) list \<Rightarrow> addr \<Rightarrow> addr" where
  "last_of nds p = (if nds = [] then p else fst (last nds))"

fun lseg :: "(addr \<rightharpoonup> 'a list_node) \<Rightarrow> (addr \<times> 'a) list \<Rightarrow> addr \<Rightarrow> bool" where
  "lseg m [] q = True"
| "lseg m ((a, x) # nds) q = (m a = Some \<lparr>ln_data = x, ln_next = nx_of nds q\<rparr> \<and> lseg m nds q)"

lemma nx_of_append [simp]: "nx_of (us @ vs) q = nx_of us (nx_of vs q)"
  by (cases us) auto

lemma last_of_simps [simp]:
  "last_of [] p = p" "last_of (us @ vs) p = last_of vs (last_of us p)" "last_of ((a, x) # us) p = last_of us a"
  by (auto simp: last_of_def)

lemma dom_single [simp]: "dom m = {a} \<Longrightarrow> m(a := None) = Map.empty"
  by (rule ext) (auto simp: dom_def)

lemma lseg_append [simp]: "lseg m (us @ vs) q = (lseg m us (nx_of vs q) \<and> lseg m vs q)"
  by (induction m us q rule: lseg.induct) auto

text \<open>The addresses of a chain.\<close>

definition addrs_of :: "(addr \<times> 'a) list \<Rightarrow> addr set" where
  "addrs_of nds = fst ` set nds"

lemma fst_set [simp]: "fst ` set nds = addrs_of nds"
  by (simp add: addrs_of_def)

lemma addrs_of_simps [simp]:
  "addrs_of [] = {}" "addrs_of (n # nds) = insert (fst n) (addrs_of nds)" "addrs_of (us @ vs) = addrs_of us \<union> addrs_of vs"
  by (auto simp: addrs_of_def simp del: fst_set)

lemma lseg_frame [simp]: "a \<notin> addrs_of nds \<Longrightarrow> lseg (m(a := v)) nds q = lseg m nds q"
  by (induction m nds q rule: lseg.induct) auto

lemma nx_of_in: "nx_of nds NULL = (if nds = [] then NULL else fst (hd nds))"
  by (cases nds) auto

text \<open>Every node of the heap is on the chain: nothing leaks.\<close>

definition slist_at :: "'a slist \<Rightarrow> (addr \<times> 'a) list \<Rightarrow> bool" where
  "slist_at L nds \<longleftrightarrow> lseg (ls_mem L) nds NULL \<and> ls_head L = nx_of nds NULL \<and> ls_tail L = last_of nds NULL \<and>
     ls_num L = of_nat (length nds) \<and> distinct (map fst nds) \<and> dom (ls_mem L) = addrs_of nds \<and>
     (\<forall>a \<in> addrs_of nds. \<exists>i < ls_brk L. a = Loc i)"

definition slist_ok :: "'a slist \<Rightarrow> 'a list \<Rightarrow> bool" where
  "slist_ok L xs \<longleftrightarrow> (\<exists>nds. slist_at L nds \<and> map snd nds = xs)"

lemma slist_okI: "slist_at L nds \<Longrightarrow> slist_ok L (map snd nds)"
  by (auto simp: slist_ok_def)

lemma slist_nonnull: "slist_at L nds \<Longrightarrow> NULL \<notin> addrs_of nds"
  by (auto simp: slist_at_def)

lemma slist_head: "slist_at L nds \<Longrightarrow> (ls_head L = NULL) = (nds = [])"
  using slist_nonnull[of L nds] by (cases nds) (auto simp: slist_at_def)

lemma last_of_mem: "nds \<noteq> [] \<Longrightarrow> last_of nds p \<in> addrs_of nds"
  by (auto simp: last_of_def addrs_of_def simp del: fst_set)

lemma slist_tail: "slist_at L nds \<Longrightarrow> (ls_tail L = NULL) = (nds = [])"
  using slist_nonnull[of L nds] last_of_mem[of nds NULL] by (auto simp: slist_at_def)

lemma slist_fresh: "slist_at L nds \<Longrightarrow> Loc (ls_brk L) \<notin> addrs_of nds"
  by (auto simp: slist_at_def)

text \<open>The node at a place of the chain.\<close>

lemma slist_node:
  "slist_at L (us @ (a, x) # vs) \<Longrightarrow> ls_mem L a = Some \<lparr>ln_data = x, ln_next = nx_of vs NULL\<rparr>"
  by (simp add: slist_at_def)

lemma slist_at_empty: "slist_at \<lparr>ls_num = 0, ls_head = NULL, ls_tail = NULL, ls_mem = Map.empty, ls_brk = k\<rparr> []"
  by (simp add: slist_at_def)

subsection \<open>Insertion\<close>

lemma ls_node_ok:
  "ls_node L d al = (if fst (alloc_take al) then (Loc (ls_brk L), L\<lparr>ls_mem := (ls_mem L)(Loc (ls_brk L) \<mapsto> \<lparr>ln_data = d, ln_next = NULL\<rparr>),
     ls_brk := ls_brk L + 1\<rparr>, snd (alloc_take al)) else (NULL, L, snd (alloc_take al)))"
  by (simp add: ls_node_def split: prod.splits)

lemma lpush_at:
  assumes "slist_at L nds"
  shows "if fst (alloc_take al) then
     \<exists>L'. list_lpush L d al = Some (0, L', snd (alloc_take al)) \<and> slist_at L' ((Loc (ls_brk L), d) # nds)
   else list_lpush L d al = Some (- 1, L, snd (alloc_take al))"
  using assms slist_head[OF assms] slist_fresh[OF assms]
  by (cases nds) (auto simp: list_lpush_def ls_node_ok ls_upd_def slist_at_def less_Suc_eq)

lemma lseg_last_upd:
  "distinct (map fst (us @ [(a, x)])) \<Longrightarrow> lseg m (us @ [(a, x)]) q \<Longrightarrow>
   lseg (m(a \<mapsto> \<lparr>ln_data = x, ln_next = r\<rparr>)) (us @ [(a, x)]) r"
  by simp

lemma rpush_at:
  assumes at: "slist_at L nds"
  shows "if fst (alloc_take al) then
     \<exists>L'. list_rpush L d al = Some (0, L', snd (alloc_take al)) \<and> slist_at L' (nds @ [(Loc (ls_brk L), d)])
   else list_rpush L d al = Some (- 1, L, snd (alloc_take al))"
proof (cases nds rule: rev_cases)
  case Nil
  then show ?thesis using at by (auto simp: list_rpush_def ls_node_ok ls_upd_def slist_at_def)
next
  case (snoc us n)
  obtain a x where n: "n = (a, x)" by (cases n)
  show ?thesis using at slist_tail[OF at] slist_fresh[OF at] unfolding snoc n
    by (auto simp: list_rpush_def ls_node_ok ls_upd_def slist_at_def less_Suc_eq)
qed

lemma insert_at:
  fixes us vs :: "(addr \<times> 'a) list" and L :: "'a slist"
  assumes at: "slist_at L (us @ vs)"
  shows "if fst (alloc_take al) then
     \<exists>L'. list_insert L (last_of us NULL) d al = Some (0, L', snd (alloc_take al)) \<and>
       slist_at L' (us @ (Loc (ls_brk L), d) # vs)
   else list_insert L (last_of us NULL) d al = Some (- 1, L, snd (alloc_take al))"
proof (cases us rule: rev_cases)
  case Nil
  then show ?thesis using lpush_at[of L vs al d] at by (simp add: list_insert_def)
next
  case (snoc ws n)
  obtain a x where n: "n = (a, x)" by (cases n)
  have a: "a \<noteq> NULL" using slist_nonnull[OF at] snoc n by auto
  show ?thesis
  proof (cases "vs = []")
    case True
    then have "ls_tail L = a" using at snoc n by (simp add: slist_at_def)
    have "if fst (alloc_take al) then \<exists>L'. list_rpush L d al = Some (0, L', snd (alloc_take al)) \<and>
        slist_at L' (us @ (Loc (ls_brk L), d) # vs) else list_rpush L d al = Some (- 1, L, snd (alloc_take al))"
      using rpush_at[OF at, of al d] unfolding True append_Nil2 .
    then show ?thesis using \<open>ls_tail L = a\<close> a snoc n by (auto simp: list_insert_def split: if_splits)
  next
    case False
    then obtain b y zs where vs: "vs = (b, y) # zs" by (metis prod.exhaust neq_Nil_conv)
    have "ls_tail L = last_of zs b" using at snoc n vs by (simp add: slist_at_def last_of_def)
    moreover have "last_of zs b \<in> insert b (addrs_of zs)" using last_of_mem[of zs b] by (cases "zs = []") auto
    moreover have "a \<notin> insert b (addrs_of zs)" using at snoc n vs by (auto simp: slist_at_def)
    ultimately have t: "ls_tail L \<noteq> a" by auto
    show ?thesis using at slist_fresh[OF at] a t unfolding snoc n vs
      by (auto simp: list_insert_def ls_node_ok ls_upd_def slist_at_def less_Suc_eq last_of_def)
  qed
qed

subsection \<open>Removal\<close>

lemma lpop_at:
  assumes "slist_at L ((a, x) # nds)"
  shows "\<exists>L'. list_lpop L = Some (Some x, L') \<and> slist_at L' nds"
proof -
  have t: "nds \<noteq> [] \<Longrightarrow> ls_tail L \<noteq> a" using assms last_of_mem[of nds a] by (auto simp: slist_at_def)
  have "(ls_tail L = a) = (nds = [])" using t assms by (cases "nds = []") (auto simp: slist_at_def)
  then show ?thesis using assms slist_nonnull[OF assms]
    by (auto simp: list_lpop_def ls_free_def slist_at_def last_of_def)
qed

lemma before_tail:
  "slist_at L (us @ vs @ [(a, x), (b, y)]) \<Longrightarrow> ls_before_tail L (nx_of vs a) = Some a"
proof (induction vs arbitrary: us)
  case Nil
  then show ?case by (subst ls_before_tail.simps) (simp add: slist_at_def)
next
  case (Cons v vs)
  obtain c z where v: "v = (c, z)" by (cases v)
  have "ls_before_tail L (nx_of vs a) = Some a" using Cons.IH[of "us @ [v]"] Cons.prems by simp
  moreover have "nx_of vs a \<noteq> b" using Cons.prems by (cases vs) (auto simp: slist_at_def)
  ultimately show ?case using Cons.prems v by (subst ls_before_tail.simps) (simp add: slist_at_def)
qed

lemma rpop_at:
  assumes at: "slist_at L (nds @ [(b, y)])"
  shows "\<exists>L'. list_rpop L = Some (Some y, L') \<and> slist_at L' nds"
proof (cases nds rule: rev_cases)
  case Nil
  then show ?thesis using at slist_nonnull[OF at] by (auto simp: list_rpop_def ls_free_def slist_at_def)
next
  case (snoc us n)
  obtain a x where n: "n = (a, x)" by (cases n)
  have "ls_before_tail L (nx_of us a) = Some a" using before_tail[of L "[]" us a x b y] at snoc n by simp
  moreover have "ls_head L = nx_of us a" using at snoc n by (simp add: slist_at_def)
  moreover have "nx_of us a \<noteq> b" "nx_of us a \<noteq> NULL"
    using at slist_nonnull[OF at] snoc n by (cases us; auto simp: slist_at_def)+
  ultimately show ?thesis using at snoc n
    by (auto simp: list_rpop_def ls_upd_def ls_free_def slist_at_def)
qed

lemma remove_loop:
  "slist_at L (us @ vs) \<Longrightarrow> (us = [] \<Longrightarrow> prev = ls_head L) \<Longrightarrow> (us \<noteq> [] \<Longrightarrow> prev = last_of us NULL) \<Longrightarrow>
   \<forall>u \<in> set us. snd u \<noteq> d \<Longrightarrow>
   (if d \<in> snd ` set vs then
      \<exists>L' nds. ls_remove_loop L d prev (nx_of vs NULL) = Some (0, L') \<and> slist_at L' nds \<and>
        map snd nds = map snd us @ remove1 d (map snd vs)
    else ls_remove_loop L d prev (nx_of vs NULL) = Some (- 1, L))"
proof (induction vs arbitrary: us prev)
  case Nil
  then show ?case by (subst ls_remove_loop.simps) simp
next
  case (Cons v vs)
  obtain c z where v: "v = (c, z)" by (cases v)
  have c: "c \<noteq> NULL" "ls_mem L c = Some \<lparr>ln_data = z, ln_next = nx_of vs NULL\<rparr>"
    using Cons.prems(1) slist_nonnull[OF Cons.prems(1)] v by (auto simp: slist_at_def)
  show ?case
  proof (cases "z = d")
    case False
    have "if d \<in> snd ` set vs then
      \<exists>L' nds. ls_remove_loop L d c (nx_of vs NULL) = Some (0, L') \<and> slist_at L' nds \<and>
        map snd nds = map snd (us @ [v]) @ remove1 d (map snd vs)
      else ls_remove_loop L d c (nx_of vs NULL) = Some (- 1, L)"
      by (rule Cons.IH) (use Cons.prems False v in auto)
    moreover have "ls_remove_loop L d prev c = ls_remove_loop L d c (nx_of vs NULL)"
      using False c by (subst ls_remove_loop.simps) simp
    ultimately show ?thesis using False v by (cases "d \<in> snd ` set vs") auto
  next
    case True
    have "\<exists>L'. ls_remove_loop L d prev c = Some (0, L') \<and> slist_at L' (us @ vs)"
    proof (cases us rule: rev_cases)
      case Nil
      have t: "(ls_tail L = c) = (vs = [])"
        using Cons.prems(1) last_of_mem[of vs c] Nil v by (cases "vs = []") (auto simp: slist_at_def)
      show ?thesis using Cons.prems(1) Nil v c t True
        by (subst ls_remove_loop.simps) (auto simp: ls_free_def slist_at_def last_of_def)
    next
      case (snoc ws n)
      obtain a x where n: "n = (a, x)" by (cases n)
      have p: "prev = a" using Cons.prems(3) snoc n by simp
      have h: "ls_head L \<noteq> c" using Cons.prems(1) snoc n v by (cases ws) (auto simp: slist_at_def)
      have t: "(ls_tail L = c) = (vs = [])"
        using Cons.prems(1) last_of_mem[of vs c] snoc n v by (cases "vs = []") (auto simp: slist_at_def)
      show ?thesis using Cons.prems(1) snoc n v c h t p True
        by (subst ls_remove_loop.simps) (auto simp: ls_upd_def ls_free_def slist_at_def last_of_def)
    qed
    then show ?thesis using True v by (auto intro!: exI[of _ "us @ vs"])
  qed
qed

lemma remove_ok:
  assumes "slist_ok L xs"
  shows "if d \<in> set xs then \<exists>L'. list_remove L d = Some (0, L') \<and> slist_ok L' (remove1 d xs)
    else list_remove L d = Some (- 1, L)"
proof -
  obtain nds where n: "slist_at L nds" "map snd nds = xs" using assms by (auto simp: slist_ok_def)
  have h: "ls_head L = nx_of nds NULL" using n(1) by (simp add: slist_at_def)
  have m: "(d \<in> snd ` set nds) = (d \<in> set xs)" using n(2) by force
  note R = remove_loop[of L "[]" nds "ls_head L" d, unfolded m]
  show ?thesis
  proof (cases "d \<in> set xs")
    case True
    then obtain L' nds' where "list_remove L d = Some (0, L')" "slist_at L' nds'" "map snd nds' = remove1 d xs"
      using R n h by (auto simp: list_remove_def)
    then show ?thesis using True by (auto simp: slist_ok_def)
  next
    case False
    then show ?thesis using R n h by (simp add: list_remove_def)
  qed
qed

lemma lpop_ok:
  assumes "slist_ok L xs"
  shows "\<exists>L'. list_lpop L = Some (if xs = [] then None else Some (hd xs), L') \<and> slist_ok L' (tl xs)"
proof -
  obtain nds where n: "slist_at L nds" "map snd nds = xs" using assms by (auto simp: slist_ok_def)
  show ?thesis
  proof (cases nds)
    case Nil
    then show ?thesis using n slist_head[OF n(1)] by (auto simp: list_lpop_def slist_ok_def)
  next
    case (Cons v vs)
    then show ?thesis using lpop_at[of L "fst v" "snd v" vs] n by (auto simp: slist_ok_def)
  qed
qed

lemma rpop_ok:
  assumes "slist_ok L xs"
  shows "\<exists>L'. list_rpop L = Some (if xs = [] then None else Some (last xs), L') \<and> slist_ok L' (butlast xs)"
proof -
  obtain nds where n: "slist_at L nds" "map snd nds = xs" using assms by (auto simp: slist_ok_def)
  show ?thesis
  proof (cases nds rule: rev_cases)
    case Nil
    then show ?thesis using n slist_head[OF n(1)] by (auto simp: list_rpop_def slist_ok_def)
  next
    case (snoc us v)
    then show ?thesis using rpop_at[of L us "fst v" "snd v"] n by (auto simp: slist_ok_def)
  qed
qed

lemma find_del_loop:
  "slist_at L (us @ vs) \<Longrightarrow> \<forall>u \<in> set us. \<not> P (snd u) \<Longrightarrow> length (us @ vs) < 2 ^ 32 \<Longrightarrow>
   (case dropWhile (\<lambda>v. \<not> P (snd v)) vs of
      [] \<Rightarrow> ls_find_del_loop L P (last_of us NULL) (nx_of vs NULL) = Some (None, L)
    | (a, x) # ws \<Rightarrow> \<exists>L'. ls_find_del_loop L P (last_of us NULL) (nx_of vs NULL) = Some (Some x, L') \<and>
        ls_tail L' = ls_tail L \<and> ls_brk L' = ls_brk L \<and> ls_mem L' a = None \<and>
        slist_at (L'\<lparr>ls_tail := last_of (us @ takeWhile (\<lambda>v. \<not> P (snd v)) vs @ ws) NULL\<rparr>)
          (us @ takeWhile (\<lambda>v. \<not> P (snd v)) vs @ ws))"
proof (induction vs arbitrary: us)
  case Nil
  then show ?case by (subst ls_find_del_loop.simps) simp
next
  case (Cons v vs)
  obtain c z where v: "v = (c, z)" by (cases v)
  have c: "c \<noteq> NULL" "ls_mem L c = Some \<lparr>ln_data = z, ln_next = nx_of vs NULL\<rparr>"
    using Cons.prems(1) slist_nonnull[OF Cons.prems(1)] v by (auto simp: slist_at_def)
  show ?case
  proof (cases "P z")
    case False
    have "ls_find_del_loop L P (last_of us NULL) c = ls_find_del_loop L P c (nx_of vs NULL)"
      using False c by (subst ls_find_del_loop.simps) simp
    then show ?thesis using Cons.IH[of "us @ [v]"] Cons.prems v False
      by (cases "dropWhile (\<lambda>v. \<not> P (snd v)) vs") (auto simp del: dropWhile_eq_Nil_conv)
  next
    case True
    have "\<exists>L'. ls_unlink L (last_of us NULL) c = Some (Some z, L') \<and> ls_tail L' = ls_tail L \<and> ls_brk L' = ls_brk L \<and>
        ls_mem L' c = None \<and> slist_at (L'\<lparr>ls_tail := last_of (us @ vs) NULL\<rparr>) (us @ vs)"
    proof (cases us rule: rev_cases)
      case Nil
      have z: "((of_nat (length vs) :: u32) = 0) = (vs = [])" using Cons.prems(3) Nil
        by (simp add: count_zero)
      show ?thesis using Cons.prems(1) Nil v c z by (auto simp: ls_unlink_def ls_upd_def ls_free_def slist_at_def)
    next
      case (snoc ws n)
      obtain a x where n: "n = (a, x)" by (cases n)
      have z: "(of_nat (length (ws @ n # vs)) :: u32) \<noteq> 0"
        using Cons.prems(3) snoc count_zero[of "length (ws @ n # vs)"] by simp
      have h: "ls_head L \<noteq> c" using Cons.prems(1) snoc n v by (cases ws) (auto simp: slist_at_def)
      show ?thesis using Cons.prems(1) snoc n v c h z slist_nonnull[OF Cons.prems(1)]
        by (auto simp: ls_unlink_def ls_upd_def ls_free_def slist_at_def)
    qed
    moreover have "ls_find_del_loop L P (last_of us NULL) c = ls_unlink L (last_of us NULL) c"
      using True c by (subst ls_find_del_loop.simps) simp
    ultimately show ?thesis using True v by simp
  qed
qed

subsection \<open>Reading\<close>

lemma skip_add: "ls_skip L (i + j) p = Option.bind (ls_skip L i p) (ls_skip L j)"
  by (induction i arbitrary: p) (simp_all cong del: bind_weak_cong)

lemma skip_at: "slist_at L (us @ vs) \<Longrightarrow> ls_skip L (length us) (nx_of (us @ vs) NULL) = Some (nx_of vs NULL)"
proof (induction us arbitrary: vs rule: rev_induct)
  case (snoc u us)
  have "ls_skip L (length us) (nx_of (us @ u # vs) NULL) = Some (fst u)" using snoc.IH[of "u # vs"] snoc.prems
    by (cases u) simp
  moreover have "ls_mem L (fst u) = Some \<lparr>ln_data = snd u, ln_next = nx_of vs NULL\<rparr>"
    using snoc.prems by (cases u) (simp add: slist_at_def)
  ultimately show ?case using skip_add[of L "length us" 1] by (simp del: nx_of_append)
qed simp

lemma fetch_ok:
  assumes "slist_ok L xs" "length xs \<le> LIST_MAX"
  shows "list_fetch L (int i) = Some (if i < length xs then Some (xs ! i) else None)"
proof -
  obtain nds where n: "slist_at L nds" "map snd nds = xs" using assms by (auto simp: slist_ok_def)
  have l: "sint (ls_num L) = int (length xs)"
    using n assms(2) count_sint[of "length xs"] by (auto simp: slist_at_def)
  show ?thesis
  proof (cases "i < length xs")
    case True
    then have i: "i < length nds" using n(2) by auto
    define us where "us = take i nds"
    define vs where "vs = drop (Suc i) nds"
    obtain a x where ax: "nds ! i = (a, x)" by (cases "nds ! i")
    have d: "nds = us @ (a, x) # vs" "length us = i" using i ax id_take_nth_drop[OF i] by (simp_all add: us_def vs_def)
    have h: "ls_head L = nx_of nds NULL" using n(1) by (simp add: slist_at_def)
    have "ls_skip L i (ls_head L) = Some a" using skip_at[of L us "(a, x) # vs"] n(1) d h by simp
    moreover have "xs ! i = x" using n(2) ax i by auto
    ultimately show ?thesis using True l slist_node[of L us a x vs] n(1) d by (simp add: list_fetch_def)
  qed (simp add: list_fetch_def l)
qed

lemma trav_loop:
  "slist_at L (us @ vs) \<Longrightarrow> ls_trav_loop L proc (nx_of vs NULL) args = trav_stop proc (map snd vs) args"
proof (induction vs arbitrary: us args)
  case Nil
  then show ?case by (subst ls_trav_loop.simps) simp
next
  case (Cons v vs)
  obtain c z where v: "v = (c, z)" by (cases v)
  have c: "c \<noteq> NULL" "ls_mem L c = Some \<lparr>ln_data = z, ln_next = nx_of vs NULL\<rparr>"
    using Cons.prems slist_nonnull[OF Cons.prems] v by (auto simp: slist_at_def)
  have "ls_trav_loop L proc (nx_of vs NULL) a = trav_stop proc (map snd vs) a" for a
    using Cons.IH[of "us @ [v]"] Cons.prems by simp
  then show ?case using c v by (subst ls_trav_loop.simps) (simp split: Option.bind_split)
qed

lemma find_loop:
  "slist_at L (us @ vs) \<Longrightarrow> ls_find_loop L P (nx_of vs NULL) = Some (find P (map snd vs))"
proof (induction vs arbitrary: us)
  case Nil
  then show ?case by (subst ls_find_loop.simps) simp
next
  case (Cons v vs)
  obtain c z where v: "v = (c, z)" by (cases v)
  have c: "c \<noteq> NULL" "ls_mem L c = Some \<lparr>ln_data = z, ln_next = nx_of vs NULL\<rparr>"
    using Cons.prems slist_nonnull[OF Cons.prems] v by (auto simp: slist_at_def)
  have "ls_find_loop L P (nx_of vs NULL) = Some (find P (map snd vs))"
    using Cons.IH[of "us @ [v]"] Cons.prems by simp
  then show ?case using c v by (subst ls_find_loop.simps) simp
qed

lemma count_loop: "slist_at L (us @ vs) \<Longrightarrow> ls_count L (nx_of vs NULL) k = Some (k + of_nat (length vs))"
proof (induction vs arbitrary: us k)
  case Nil
  then show ?case by (subst ls_count.simps) simp
next
  case (Cons v vs)
  obtain c z where v: "v = (c, z)" by (cases v)
  have c: "c \<noteq> NULL" "ls_mem L c = Some \<lparr>ln_data = z, ln_next = nx_of vs NULL\<rparr>"
    using Cons.prems slist_nonnull[OF Cons.prems] v by (auto simp: slist_at_def)
  have "ls_count L (nx_of vs NULL) (k + 1) = Some (k + 1 + of_nat (length vs))"
    using Cons.IH[of "us @ [v]"] Cons.prems by simp
  then show ?case using c v by (subst ls_count.simps) simp
qed

lemma sort_loop:
  "slist_at L (us @ vs) \<Longrightarrow> \<forall>u \<in> set us. cmp d (snd u) < 0 \<Longrightarrow>
   ls_sort_loop L d cmp (last_of us NULL) (nx_of vs NULL) al =
     list_insert L (last_of (us @ takeWhile (\<lambda>v. cmp d (snd v) < 0) vs) NULL) d al"
proof (induction vs arbitrary: us)
  case Nil
  then show ?case by (subst ls_sort_loop.simps) simp
next
  case (Cons v vs)
  obtain c z where v: "v = (c, z)" by (cases v)
  have c: "c \<noteq> NULL" "ls_mem L c = Some \<lparr>ln_data = z, ln_next = nx_of vs NULL\<rparr>"
    using Cons.prems slist_nonnull[OF Cons.prems(1)] v by (auto simp: slist_at_def)
  show ?case using Cons.IH[of "us @ [v]"] Cons.prems c v by (subst ls_sort_loop.simps) auto
qed

lemma destroy_loop:
  "lseg (ls_mem L) nds NULL \<Longrightarrow> distinct (map fst nds) \<Longrightarrow> NULL \<notin> addrs_of nds \<Longrightarrow>
   ls_destroy_loop de (nx_of nds NULL) L s =
     map_option (\<lambda>s. (s, L\<lparr>ls_mem := ls_mem L |` (- addrs_of nds)\<rparr>)) (trav_list de (map snd nds) s)"
proof (induction nds arbitrary: L s)
  case Nil
  then show ?case by (subst ls_destroy_loop.simps) simp
next
  case (Cons v vs)
  obtain c z where v: "v = (c, z)" by (cases v)
  let ?L = "L\<lparr>ls_mem := (ls_mem L)(c := None)\<rparr>"
  have r: "ls_mem ?L |` (- addrs_of vs) = ls_mem L |` (- addrs_of (v # vs))"
    by (rule ext) (simp add: restrict_map_def v)
  have p: "lseg (ls_mem ?L) vs NULL" "distinct (map fst vs)" "NULL \<notin> addrs_of vs" using Cons.prems v by simp_all
  have "ls_destroy_loop de (nx_of vs NULL) ?L t =
      map_option (\<lambda>s. (s, L\<lparr>ls_mem := ls_mem L |` (- addrs_of (v # vs))\<rparr>)) (trav_list de (map snd vs) t)" for t
    unfolding Cons.IH[OF p] r by simp
  moreover have "c \<noteq> NULL" using Cons.prems(3) v by auto
  ultimately show ?case using Cons.prems v
    by (subst ls_destroy_loop.simps) (simp add: ls_free_def map_option_bind split: Option.bind_split)
qed

lemma sort_ok:
  assumes "slist_ok L xs"
  shows "if fst (alloc_take al) then
     \<exists>L'. list_sort L d cmp al = Some (0, L', snd (alloc_take al)) \<and>
       slist_ok L' (takeWhile (\<lambda>x. cmp d x < 0) xs @ d # dropWhile (\<lambda>x. cmp d x < 0) xs)
   else list_sort L d cmp al = Some (- 1, L, snd (alloc_take al))"
proof -
  obtain nds where n: "slist_at L nds" "map snd nds = xs" using assms by (auto simp: slist_ok_def)
  let ?us = "takeWhile (\<lambda>v. cmp d (snd v) < 0) nds" and ?vs = "dropWhile (\<lambda>v. cmp d (snd v) < 0) nds"
  have m: "map snd ?us = takeWhile (\<lambda>x. cmp d x < 0) xs" "map snd ?vs = dropWhile (\<lambda>x. cmp d x < 0) xs"
    using n(2) by (auto simp: takeWhile_map dropWhile_map comp_def)
  have h: "ls_head L = nx_of nds NULL" using n(1) by (simp add: slist_at_def)
  have s: "list_sort L d cmp al = list_insert L (last_of ?us NULL) d al"
  proof (cases "nds = []")
    case True
    then show ?thesis using slist_head[OF n(1)] by (simp add: list_sort_def list_insert_def)
  next
    case False
    then show ?thesis using sort_loop[of L "[]" nds cmp d al] n(1) slist_head[OF n(1)] h
      by (simp add: list_sort_def)
  qed
  have "slist_at L (?us @ ?vs)" using n(1) by simp
  note I = insert_at[OF this, of al d]
  show ?thesis unfolding s
  proof (cases "fst (alloc_take al)")
    case True
    then obtain L' where "list_insert L (last_of ?us NULL) d al = Some (0, L', snd (alloc_take al))"
      "slist_at L' (?us @ (Loc (ls_brk L), d) # ?vs)" using I by auto
    then show "if fst (alloc_take al) then
       \<exists>L'. list_insert L (last_of ?us NULL) d al = Some (0, L', snd (alloc_take al)) \<and>
         slist_ok L' (takeWhile (\<lambda>x. cmp d x < 0) xs @ d # dropWhile (\<lambda>x. cmp d x < 0) xs)
     else list_insert L (last_of ?us NULL) d al = Some (- 1, L, snd (alloc_take al))"
      using True m slist_okI[of L' "?us @ (Loc (ls_brk L), d) # ?vs"] by auto
  qed (use I in simp)
qed

subsection \<open>Sequences of operations\<close>

datatype 'a list_op = LPush 'a | RPush 'a | LPop | RPop | Remove 'a | Sort "'a \<Rightarrow> 'a \<Rightarrow> int" 'a | Fetch nat | FindBy "'a \<Rightarrow> bool"

fun list_step :: "'a list_op \<Rightarrow> 'a slist \<Rightarrow> allocs \<Rightarrow> ('a list_res \<times> 'a slist \<times> allocs) option" where
  "list_step (LPush d) L al = do { (ret, L, al) \<leftarrow> list_lpush L d al; Some (Ret ret, L, al) }"
| "list_step (RPush d) L al = do { (ret, L, al) \<leftarrow> list_rpush L d al; Some (Ret ret, L, al) }"
| "list_step LPop L al = do { (x, L) \<leftarrow> list_lpop L; Some (Elem x, L, al) }"
| "list_step RPop L al = do { (x, L) \<leftarrow> list_rpop L; Some (Elem x, L, al) }"
| "list_step (Remove d) L al = do { (ret, L) \<leftarrow> list_remove L d; Some (Ret ret, L, al) }"
| "list_step (Sort cmp d) L al = do { (ret, L, al) \<leftarrow> list_sort L d cmp al; Some (Ret ret, L, al) }"
| "list_step (Fetch i) L al = do { x \<leftarrow> list_fetch L (int i); Some (Elem x, L, al) }"
| "list_step (FindBy P) L al = do { x \<leftarrow> list_find L P; Some (Elem x, L, al) }"

text \<open>On lists; a push that gets no memory changes nothing.\<close>

definition push_spec :: "('a list \<Rightarrow> 'a list) \<Rightarrow> 'a list \<Rightarrow> allocs \<Rightarrow> 'a list_res \<times> 'a list \<times> allocs" where
  "push_spec f xs al = (let (a, al) = alloc_take al in if a then (Ret 0, f xs, al) else (Ret (- 1), xs, al))"

fun list_spec :: "'a list_op \<Rightarrow> 'a list \<Rightarrow> allocs \<Rightarrow> 'a list_res \<times> 'a list \<times> allocs" where
  "list_spec (LPush d) xs al = push_spec (\<lambda>xs. d # xs) xs al"
| "list_spec (RPush d) xs al = push_spec (\<lambda>xs. xs @ [d]) xs al"
| "list_spec LPop xs al = (Elem (if xs = [] then None else Some (hd xs)), tl xs, al)"
| "list_spec RPop xs al = (Elem (if xs = [] then None else Some (last xs)), butlast xs, al)"
| "list_spec (Remove d) xs al = (Ret (if d \<in> set xs then 0 else - 1), remove1 d xs, al)"
| "list_spec (Sort cmp d) xs al =
     push_spec (\<lambda>xs. takeWhile (\<lambda>x. cmp d x < 0) xs @ d # dropWhile (\<lambda>x. cmp d x < 0) xs) xs al"
| "list_spec (Fetch i) xs al = (Elem (if i < length xs then Some (xs ! i) else None), xs, al)"
| "list_spec (FindBy P) xs al = (Elem (find P xs), xs, al)"

lemma push_sim:
  assumes "if fst (alloc_take al) then \<exists>L'. op = Some (0, L', snd (alloc_take al)) \<and> rep L' (f xs)
     else op = Some (- 1, L, snd (alloc_take al))" "rep L xs"
  shows "\<exists>L'. Option.bind op (\<lambda>(ret, L, al). Some (Ret ret, L, al)) =
     Some (fst (push_spec f xs al), L', snd (snd (push_spec f xs al))) \<and> rep L' (fst (snd (push_spec f xs al)))"
  using assms by (auto simp: push_spec_def split: if_splits prod.splits)

lemma slist_ok_push:
  assumes "slist_ok L xs"
  shows "if fst (alloc_take al) then \<exists>L'. list_lpush L d al = Some (0, L', snd (alloc_take al)) \<and> slist_ok L' (d # xs)
     else list_lpush L d al = Some (- 1, L, snd (alloc_take al))"
    "if fst (alloc_take al) then \<exists>L'. list_rpush L d al = Some (0, L', snd (alloc_take al)) \<and> slist_ok L' (xs @ [d])
     else list_rpush L d al = Some (- 1, L, snd (alloc_take al))"
proof -
  obtain nds where n: "slist_at L nds" "map snd nds = xs" using assms by (auto simp: slist_ok_def)
  show "if fst (alloc_take al) then \<exists>L'. list_lpush L d al = Some (0, L', snd (alloc_take al)) \<and> slist_ok L' (d # xs)
     else list_lpush L d al = Some (- 1, L, snd (alloc_take al))"
    using lpush_at[OF n(1), of al d] slist_okI[of _ "(Loc (ls_brk L), d) # nds"] n(2) by (auto split: if_splits)
  show "if fst (alloc_take al) then \<exists>L'. list_rpush L d al = Some (0, L', snd (alloc_take al)) \<and> slist_ok L' (xs @ [d])
     else list_rpush L d al = Some (- 1, L, snd (alloc_take al))"
    using rpush_at[OF n(1), of al d] slist_okI[of _ "nds @ [(Loc (ls_brk L), d)]"] n(2) by (auto split: if_splits)
qed

interpretation slist: list_refinement list_step list_spec slist_ok
proof
  fix L :: "'a slist" and xs op al
  assume ok: "slist_ok L xs" and l: "length xs < LIST_MAX"
  obtain nds where n: "slist_at L nds" "map snd nds = xs" using ok by (auto simp: slist_ok_def)
  have h: "ls_head L = nx_of nds NULL" using n(1) by (simp add: slist_at_def)
  show "\<exists>L'. list_step op L al = Some (fst (list_spec op xs al), L', snd (snd (list_spec op xs al))) \<and>
      slist_ok L' (fst (snd (list_spec op xs al)))"
  proof (cases op)
    case (Remove d)
    then show ?thesis using remove_ok[OF ok, of d] ok by (auto split: if_splits simp: remove1_idem)
  next
    case (Fetch i)
    then show ?thesis using fetch_ok[OF ok] l ok by simp
  next
    case (FindBy P)
    then show ?thesis using find_loop[of L "[]" nds P] n h ok by (simp add: list_find_def)
  next
    case (LPush d)
    then show ?thesis using push_sim[where f = "\<lambda>xs. d # xs", OF slist_ok_push(1)[OF ok] ok] by simp
  next
    case (RPush d)
    then show ?thesis using push_sim[where f = "\<lambda>xs. xs @ [d]", OF slist_ok_push(2)[OF ok] ok] by simp
  next
    case (Sort cmp d)
    then show ?thesis using push_sim[where rep = slist_ok and
        f = "\<lambda>xs. takeWhile (\<lambda>x. cmp d x < 0) xs @ d # dropWhile (\<lambda>x. cmp d x < 0) xs", OF sort_ok[OF ok, where cmp = cmp and d = d] ok] by simp
  qed (use lpop_ok[OF ok] rpop_ok[OF ok] in auto)
next
  show "length (fst (snd (list_spec op xs al))) \<le> Suc (length xs)" for op and xs :: "'a list" and al
  proof (cases op)
    case (Sort cmp d)
    have "length (takeWhile (\<lambda>x. cmp d x < 0) xs) + length (dropWhile (\<lambda>x. cmp d x < 0) xs) = length xs"
      by (metis length_append takeWhile_dropWhile_id)
    then show ?thesis using Sort by (simp add: push_spec_def split: prod.split)
  qed (auto simp: push_spec_def length_remove1 split: prod.split)
qed

lemma slist_empty: "fst (list_creat al) = Some L \<Longrightarrow> slist_ok L []"
  by (auto simp: list_creat_def slist_ok_def slist_at_def split: prod.splits if_splits)

subsection \<open>Properties\<close>

lemma slist_reads:
  assumes "slist_ok L xs"
  shows "list_assert L = Some ()" "list_trav L proc args = trav_stop proc xs args"
    "list_destroy L de s = map_option (\<lambda>s. (s, L\<lparr>ls_mem := Map.empty\<rparr>)) (trav_list de xs s)"
proof -
  obtain nds where n: "slist_at L nds" "map snd nds = xs" using assms by (auto simp: slist_ok_def)
  have h: "ls_head L = nx_of nds NULL" using n(1) by (simp add: slist_at_def)
  show "list_assert L = Some ()" using count_loop[of L "[]" nds 0] n h by (simp add: list_assert_def slist_at_def)
  show "list_trav L proc args = trav_stop proc xs args" using trav_loop[of L "[]" nds] n h by (simp add: list_trav_def)
  have "ls_mem L |` (- addrs_of nds) = Map.empty"
    using n(1) by (auto simp: slist_at_def restrict_map_def fun_eq_iff)
  then show "list_destroy L de s = map_option (\<lambda>s. (s, L\<lparr>ls_mem := Map.empty\<rparr>)) (trav_list de xs s)"
    using destroy_loop[of L nds de s] slist_nonnull[OF n(1)] n h by (simp add: list_destroy_def slist_at_def)
qed

lemma slist_find_del:
  assumes "slist_ok L xs" "length xs < 2 ^ 32"
  shows "case dropWhile (\<lambda>x. \<not> P x) xs of
      [] \<Rightarrow> list_find_and_del L P = Some (None, L)
    | x # ys \<Rightarrow> \<exists>L'. list_find_and_del L P = Some (Some x, L') \<and>
        (if ys = [] then \<forall>d. list_rpush L' d [] = None else slist_ok L' (takeWhile (\<lambda>x. \<not> P x) xs @ ys))"
proof -
  obtain nds where n: "slist_at L nds" "map snd nds = xs" using assms by (auto simp: slist_ok_def)
  have h: "ls_head L = nx_of nds NULL" using n(1) by (simp add: slist_at_def)
  let ?us = "takeWhile (\<lambda>v. \<not> P (snd v)) nds" and ?vs = "dropWhile (\<lambda>v. \<not> P (snd v)) nds"
  have m: "map snd ?us = takeWhile (\<lambda>x. \<not> P x) xs" "map snd ?vs = dropWhile (\<lambda>x. \<not> P x) xs"
    using n(2) by (auto simp: takeWhile_map dropWhile_map comp_def)
  have "length nds < 2 ^ 32" using n(2) assms(2) by auto
  note F = find_del_loop[of L "[]" nds P, simplified append_Nil, OF n(1) _ this]
  show ?thesis
  proof (cases ?vs)
    case Nil
    then have "dropWhile (\<lambda>x. \<not> P x) xs = []" by (metis m(2) list.map(1))
    then show ?thesis using F[unfolded Nil] h by (simp add: list_find_and_del_def del: dropWhile_eq_Nil_conv)
  next
    case (Cons v ws)
    obtain a x where v: "v = (a, x)" by (cases v)
    from F[unfolded Cons v] obtain L' where L': "list_find_and_del L P = Some (Some x, L')" "ls_tail L' = ls_tail L"
      "ls_brk L' = ls_brk L" "ls_mem L' a = None" "slist_at (L'\<lparr>ls_tail := last_of (?us @ ws) NULL\<rparr>) (?us @ ws)"
      using h by (auto simp: list_find_and_del_def)
    have nds: "nds = ?us @ (a, x) # ws" using Cons v takeWhile_dropWhile_id[of "\<lambda>v. \<not> P (snd v)" nds] by simp
    have t: "ls_tail L = last_of ws a" using n(1) by (subst (asm) nds) (simp add: slist_at_def)
    have xs: "dropWhile (\<lambda>x. \<not> P x) xs = x # map snd ws" by (metis m(2) Cons v list.map(2) snd_conv)
    have "\<forall>d. list_rpush L' d [] = None" if "ws = []"
    proof
      fix d
      obtain i where i: "a = Loc i" "i < ls_brk L" using n(1) by (subst (asm) nds) (auto simp: slist_at_def)
      show "list_rpush L' d [] = None" using that t L'(2-4) i by (simp add: list_rpush_def ls_node_ok ls_upd_def)
    qed
    moreover have "slist_ok L' (takeWhile (\<lambda>x. \<not> P x) xs @ map snd ws)" if "ws \<noteq> []"
    proof -
      have "last_of (?us @ ws) NULL = ls_tail L'" using that t L'(2) by (simp add: last_of_def)
      then have "slist_at L' (?us @ ws)" using L'(5) by (metis slist.surjective slist.update_convs(3))
      then show ?thesis using slist_okI m(1) by fastforce
    qed
    ultimately show ?thesis using L'(1) xs by auto
  qed
qed

text \<open>C39: a linked list that \<open>list_creat\<close> makes acts as a list under every sequence of pushes and pops at both
  ends, removals, insertions in order, reads by index and searches: each operation returns what it returns on the
  list, failed allocations included, and at the end \<open>list_assert\<close> holds, a traversal visits the elements in order
  until its callback stops it, \<open>list_destroy\<close> hands over each element once and leaves no node.  Searching with
  deletion takes out the first match, but when that is the last element the tail is left pointing to the freed
  node, and the next push to the end writes to it.\<close>

theorem list_refines:
  assumes "fst (list_creat al0) = Some L" "length ops \<le> LIST_MAX" "spec_ops list_spec ops [] al = (rs, xs, al')"
  shows "\<exists>L'. run_ops list_step ops L al = Some (rs, L', al') \<and> list_assert L' = Some () \<and>
     (\<forall>proc (args :: 's). list_trav L' proc args = trav_stop proc xs args) \<and>
     (\<forall>de (s :: 's). list_destroy L' de s = map_option (\<lambda>s. (s, L'\<lparr>ls_mem := Map.empty\<rparr>)) (trav_list de xs s)) \<and>
     (\<forall>P. case dropWhile (\<lambda>x. \<not> P x) xs of
        [] \<Rightarrow> list_find_and_del L' P = Some (None, L')
      | x # ys \<Rightarrow> \<exists>L2. list_find_and_del L' P = Some (Some x, L2) \<and>
          (if ys = [] then \<forall>d. list_rpush L2 d [] = None else slist_ok L2 (takeWhile (\<lambda>x. \<not> P x) xs @ ys)))"
proof -
  from slist.run_sim[OF slist_empty[OF assms(1)], of ops al] assms(2,3) obtain L' where
    L': "run_ops list_step ops L al = Some (rs, L', al')" "slist_ok L' xs" by auto
  have "length xs \<le> LIST_MAX" using spec_ops_length[of list_spec ops "[]" al] slist.grow assms(2,3) by fastforce
  then have "length xs < 2 ^ 32" by (simp add: LIST_MAX_def)
  then show ?thesis using L' slist_reads[OF L'(2)] slist_find_del[OF L'(2)] by blast
qed

theorem list_refines_witness:
  "\<exists>L L'. fst (list_creat [True]) = Some L \<and>
     run_ops list_step [RPush (1 :: int), LPush 2, RPush 3, Sort (\<lambda>a b. a - b) 2, LPop] L [True, True, False] =
       Some ([Ret 0, Ret 0, Ret (- 1), Ret 0, Elem (Some 2)], L', []) \<and>
     list_trav L' (\<lambda>x s. Some (0, s @ [x])) [] = Some (0, [2, 1]) \<and>
     (\<exists>L2. list_find_and_del L' (\<lambda>x. x = 1) = Some (Some 1, L2) \<and> list_rpush L2 7 [] = None)"
proof -
  obtain L :: "int slist" where L: "fst (list_creat [True]) = Some L" by (simp add: list_creat_def)
  let ?ops = "[RPush (1 :: int), LPush 2, RPush 3, Sort (\<lambda>a b. a - b) 2, LPop]"
  have s: "spec_ops list_spec ?ops [] [True, True, False] = ([Ret 0, Ret 0, Ret (- 1), Ret 0, Elem (Some 2)], [2, 1], [])"
    by (simp add: push_spec_def)
  have b: "length ?ops \<le> LIST_MAX" by (simp add: LIST_MAX_def)
  from list_refines[where 's = "int list", OF L b s] obtain L' where
    r: "run_ops list_step ?ops L [True, True, False] = Some ([Ret 0, Ret 0, Ret (- 1), Ret 0, Elem (Some 2)], L', [])"
    and t: "\<And>proc (args :: int list). list_trav L' proc args = trav_stop proc [2, 1] args"
    and f: "\<And>P. case dropWhile (\<lambda>x. \<not> P x) [2, 1] of
        [] \<Rightarrow> list_find_and_del L' P = Some (None, L')
      | x # ys \<Rightarrow> \<exists>L2. list_find_and_del L' P = Some (Some x, L2) \<and>
          (if ys = [] then \<forall>d. list_rpush L2 d [] = None else slist_ok L2 (takeWhile (\<lambda>x. \<not> P x) [2, 1] @ ys))" by blast
  have "\<exists>L2. list_find_and_del L' (\<lambda>x. x = 1) = Some (Some 1, L2) \<and> list_rpush L2 7 [] = None"
    using f[of "\<lambda>x. x = 1"] by auto
  then show ?thesis using L r t by (intro exI[of _ L] exI[of _ L']) simp
qed

end
