(* ===== verification/Clist.thy ===== *)
theory Clist
  imports List_Iface
begin

text \<open>
  The circular doubly linked list of \<open>src/clang/lib/core/list2.c\<close>, which holds the connections of a receiving
  thread and the messages that wait on a connection: nodes on an explicit heap.  The data are non-null
  pointers.
\<close>

subsection \<open>Data (\<open>list2.h\<close>)\<close>

record 'a list2_node =
  l2_data :: 'a
  l2_prev :: addr
  l2_next :: addr

record 'a list2 =
  l2_num :: u32
  l2_head :: addr
  l2_mem :: "addr \<rightharpoonup> 'a list2_node"
  l2_brk :: nat

definition l2_upd :: "'a list2 \<Rightarrow> addr \<Rightarrow> ('a list2_node \<Rightarrow> 'a list2_node) \<Rightarrow> 'a list2 option" where
  "l2_upd list p f = (case l2_mem list p of
      None \<Rightarrow> None
    | Some n \<Rightarrow> Some (list\<lparr>l2_mem := (l2_mem list)(p \<mapsto> f n)\<rparr>))"

definition l2_set_prev :: "'a list2 \<Rightarrow> addr \<Rightarrow> addr \<Rightarrow> 'a list2 option" where
  "l2_set_prev list p q = l2_upd list p (\<lambda>n. n\<lparr>l2_prev := q\<rparr>)"

definition l2_set_next :: "'a list2 \<Rightarrow> addr \<Rightarrow> addr \<Rightarrow> 'a list2 option" where
  "l2_set_next list p q = l2_upd list p (\<lambda>n. n\<lparr>l2_next := q\<rparr>)"

definition l2_free :: "'a list2 \<Rightarrow> addr \<Rightarrow> 'a list2 option" where
  "l2_free list p = (if l2_mem list p = None then None else Some (list\<lparr>l2_mem := (l2_mem list)(p := None)\<rparr>))"

definition l2_node :: "'a list2 \<Rightarrow> 'a \<Rightarrow> allocs \<Rightarrow> addr \<times> 'a list2 \<times> allocs" where
  "l2_node list d al =
     (let (a, al) = alloc_take al in
      if \<not> a then (NULL, list, al)
      else (Loc (l2_brk list), list\<lparr>l2_mem := (l2_mem list)(Loc (l2_brk list) \<mapsto>
          \<lparr>l2_data = d, l2_prev = NULL, l2_next = NULL\<rparr>), l2_brk := l2_brk list + 1\<rparr>, al))"

subsection \<open>Operations\<close>

definition list2_creat :: "allocs \<Rightarrow> 'a list2 option \<times> allocs" where
  "list2_creat al =
     (let (a, al) = alloc_take al in
      if \<not> a then (None, al) else (Some \<lparr>l2_num = 0, l2_head = NULL, l2_mem = Map.empty, l2_brk = 0\<rparr>, al))"

text \<open>A null link aborts.\<close>

partial_function (option) l2_count :: "'a list2 \<Rightarrow> addr \<Rightarrow> u32 \<Rightarrow> u32 option" where
  "l2_count list cur num = do {
     n \<leftarrow> l2_mem list cur;
     m \<leftarrow> l2_mem list (l2_next n);
     if l2_prev m = NULL \<or> l2_next m = NULL then None
     else if l2_next n \<noteq> l2_head list then l2_count list (l2_next n) (num + 1) else Some (num + 1) }"

definition list2_assert :: "'a list2 \<Rightarrow> unit option" where
  "list2_assert list =
     (if l2_head list = NULL then if l2_num list \<noteq> 0 then None else Some ()
      else do {
        num \<leftarrow> l2_count list (l2_head list) 0;
        if num \<noteq> l2_num list then None else Some () })"

definition list2_lpush :: "'a list2 \<Rightarrow> 'a \<Rightarrow> allocs \<Rightarrow> (int \<times> 'a list2 \<times> allocs) option" where
  "list2_lpush list d al =
     (let (node, list, al) = l2_node list d al in
      if node = NULL then Some (- 1, list, al)
      else if l2_head list = NULL then do {
        let list = list\<lparr>l2_head := node\<rparr>;
        list \<leftarrow> l2_set_prev list node node;
        list \<leftarrow> l2_set_next list node node;
        Some (0, list\<lparr>l2_num := 1\<rparr>, al) }
      else do {
        hn \<leftarrow> l2_mem list (l2_head list);
        let tail = l2_prev hn;
        list \<leftarrow> l2_set_next list node (l2_head list);
        list \<leftarrow> l2_set_prev list (l2_head list) node;
        list \<leftarrow> l2_set_prev list node tail;
        list \<leftarrow> l2_set_next list tail node;
        Some (0, list\<lparr>l2_head := node, l2_num := l2_num list + 1\<rparr>, al) })"

definition list2_lpop :: "'a list2 \<Rightarrow> ('a option \<times> 'a list2) option" where
  "list2_lpop list =
     (if l2_head list = NULL then Some (None, list)
      else do {
        hn \<leftarrow> l2_mem list (l2_head list);
        let tail = l2_prev hn;
        if l2_head list = tail then do {
          let list = list\<lparr>l2_head := NULL, l2_num := 0\<rparr>;
          tn \<leftarrow> l2_mem list tail;
          list \<leftarrow> l2_free list tail;
          Some (Some (l2_data tn), list) }
        else do {
          let cur = l2_head list;
          let list = list\<lparr>l2_head := l2_next hn\<rparr>;
          list \<leftarrow> l2_set_next list tail (l2_head list);
          list \<leftarrow> l2_set_prev list (l2_head list) tail;
          let list = list\<lparr>l2_num := l2_num list - 1\<rparr>;
          cn \<leftarrow> l2_mem list cur;
          list \<leftarrow> l2_free list cur;
          Some (Some (l2_data cn), list) } })"

definition list2_delete :: "'a list2 \<Rightarrow> addr \<Rightarrow> ('a \<times> 'a list2) option" where
  "list2_delete list node = do {
     n \<leftarrow> l2_mem list node;
     if node = l2_prev n then do {
       list \<leftarrow> l2_free (list\<lparr>l2_num := 0, l2_head := NULL\<rparr>) node;
       Some (l2_data n, list) }
     else do {
       let list = (if node = l2_head list then list\<lparr>l2_head := l2_next n\<rparr> else list);
       list \<leftarrow> l2_set_next list (l2_prev n) (l2_next n);
       m \<leftarrow> l2_mem list node;
       list \<leftarrow> l2_set_prev list (l2_next m) (l2_prev m);
       list \<leftarrow> l2_free (list\<lparr>l2_num := l2_num list - 1\<rparr>) node;
       Some (l2_data n, list) } }"

definition list2_rpush :: "'a list2 \<Rightarrow> 'a \<Rightarrow> allocs \<Rightarrow> (int \<times> 'a list2 \<times> allocs) option" where
  "list2_rpush list d al =
     (let (node, list, al) = l2_node list d al in
      if node = NULL then Some (- 1, list, al)
      else if l2_head list = NULL then do {
        let list = list\<lparr>l2_head := node\<rparr>;
        list \<leftarrow> l2_set_prev list node node;
        list \<leftarrow> l2_set_next list node node;
        Some (0, list\<lparr>l2_num := 1\<rparr>, al) }
      else do {
        hn \<leftarrow> l2_mem list (l2_head list);
        let tail = l2_prev hn;
        list \<leftarrow> l2_set_next list tail node;
        list \<leftarrow> l2_set_prev list node tail;
        list \<leftarrow> l2_set_next list node (l2_head list);
        list \<leftarrow> l2_set_prev list (l2_head list) node;
        Some (0, list\<lparr>l2_num := l2_num list + 1\<rparr>, al) })"

definition list2_rpop :: "'a list2 \<Rightarrow> ('a option \<times> 'a list2) option" where
  "list2_rpop list =
     (if l2_head list = NULL then Some (None, list)
      else do {
        hn \<leftarrow> l2_mem list (l2_head list);
        if l2_head list = l2_prev hn then do {
          let tail = l2_head list;
          let list = list\<lparr>l2_head := NULL, l2_num := 0\<rparr>;
          tn \<leftarrow> l2_mem list tail;
          list \<leftarrow> l2_free list tail;
          Some (Some (l2_data tn), list) }
        else do {
          let tail = l2_prev hn;
          tn \<leftarrow> l2_mem list tail;
          let prev = l2_prev tn;
          list \<leftarrow> l2_set_next list prev (l2_head list);
          list \<leftarrow> l2_set_prev list (l2_head list) prev;
          let list = list\<lparr>l2_num := l2_num list - 1\<rparr>;
          tn \<leftarrow> l2_mem list tail;
          list \<leftarrow> l2_free list tail;
          Some (Some (l2_data tn), list) } })"

text \<open>The results of the callback are not looked at.\<close>

partial_function (option) l2_trav_loop :: "'a list2 \<Rightarrow> addr \<Rightarrow> ('a \<Rightarrow> 's \<Rightarrow> 's option) \<Rightarrow> addr \<Rightarrow> 's \<Rightarrow> 's option" where
  "l2_trav_loop list tail cb node args =
     (if node = NULL then Some args
      else do {
        n \<leftarrow> l2_mem list node;
        args \<leftarrow> cb (l2_data n) args;
        if node = tail then Some args else l2_trav_loop list tail cb (l2_next n) args })"

definition list2_trav :: "'a list2 \<Rightarrow> ('a \<Rightarrow> 's \<Rightarrow> 's option) \<Rightarrow> 's \<Rightarrow> 's option" where
  "list2_trav list cb args =
     (if l2_head list = NULL then Some args
      else do { hn \<leftarrow> l2_mem list (l2_head list); l2_trav_loop list (l2_prev hn) cb (l2_head list) args })"

partial_function (option) l2_find_loop :: "'a list2 \<Rightarrow> addr \<Rightarrow> ('a \<Rightarrow> bool) \<Rightarrow> addr \<Rightarrow> 'a option option" where
  "l2_find_loop list tail cb node = do {
     n \<leftarrow> l2_mem list node;
     if cb (l2_data n) then Some (Some (l2_data n))
     else if node = tail then Some None else l2_find_loop list tail cb (l2_next n) }"

definition list2_find :: "'a list2 \<Rightarrow> ('a \<Rightarrow> bool) \<Rightarrow> 'a option option" where
  "list2_find list cb =
     (if l2_head list = NULL then Some None
      else do { hn \<leftarrow> l2_mem list (l2_head list); l2_find_loop list (l2_prev hn) cb (l2_head list) })"

definition l2_unlink :: "'a list2 \<Rightarrow> addr \<Rightarrow> ('a option \<times> 'a list2) option" where
  "l2_unlink list node = do {
     n \<leftarrow> l2_mem list node;
     let list = list\<lparr>l2_num := l2_num list - 1\<rparr>;
     list \<leftarrow> (if l2_num list = 0 then Some (list\<lparr>l2_head := NULL\<rparr>)
       else do {
         list \<leftarrow> l2_set_next list (l2_prev n) (l2_next n);
         m \<leftarrow> l2_mem list node;
         list \<leftarrow> l2_set_prev list (l2_next m) (l2_prev m);
         m \<leftarrow> l2_mem list node;
         Some (if node = l2_head list then list\<lparr>l2_head := l2_next m\<rparr> else list) });
     list \<leftarrow> l2_free list node;
     Some (Some (l2_data n), list) }"

partial_function (option) l2_find_del_loop ::
    "'a list2 \<Rightarrow> addr \<Rightarrow> ('a \<Rightarrow> bool) \<Rightarrow> addr \<Rightarrow> ('a option \<times> 'a list2) option" where
  "l2_find_del_loop list tail cb node = do {
     n \<leftarrow> l2_mem list node;
     if cb (l2_data n) then l2_unlink list node
     else if node = tail then Some (None, list) else l2_find_del_loop list tail cb (l2_next n) }"

definition list2_find_and_del :: "'a list2 \<Rightarrow> ('a \<Rightarrow> bool) \<Rightarrow> ('a option \<times> 'a list2) option" where
  "list2_find_and_del list cb =
     (if l2_head list = NULL then Some (None, list)
      else do { hn \<leftarrow> l2_mem list (l2_head list); l2_find_del_loop list (l2_prev hn) cb (l2_head list) })"

definition list2_roll :: "'a list2 \<Rightarrow> ('a option \<times> 'a list2) option" where
  "list2_roll list =
     (if l2_head list = NULL then Some (None, list)
      else do {
        hn \<leftarrow> l2_mem list (l2_head list);
        Some (Some (l2_data hn), list\<lparr>l2_head := l2_next hn\<rparr>) })"

partial_function (option) l2_destroy_loop ::
    "('a \<Rightarrow> 's \<Rightarrow> 's option) \<Rightarrow> addr \<Rightarrow> addr \<Rightarrow> 'a list2 \<Rightarrow> 's \<Rightarrow> ('s \<times> 'a list2) option" where
  "l2_destroy_loop dealloc tail cur list pool =
     (if cur = NULL then Some (pool, list)
      else do {
        n \<leftarrow> l2_mem list cur;
        pool \<leftarrow> dealloc (l2_data n) pool;
        list \<leftarrow> l2_free list cur;
        if cur = tail then Some (pool, list) else l2_destroy_loop dealloc tail (l2_next n) list pool })"

text \<open>What is still there afterwards is leaked.\<close>

definition list2_destroy :: "'a list2 \<Rightarrow> ('a \<Rightarrow> 's \<Rightarrow> 's option) \<Rightarrow> 's \<Rightarrow> ('s \<times> 'a list2) option" where
  "list2_destroy list dealloc pool =
     (if l2_head list = NULL then Some (pool, list)
      else do { hn \<leftarrow> l2_mem list (l2_head list); l2_destroy_loop dealloc (l2_prev hn) (l2_head list) list pool })"

declare l2_count.simps [code] l2_trav_loop.simps [code] l2_find_loop.simps [code] l2_find_del_loop.simps [code]
  l2_destroy_loop.simps [code]

end
