(* ===== verification/Clist_Spec.thy ===== *)
theory Clist_Spec
  imports Clist Slist_Spec
begin

text \<open>
  The operations of \<open>list2.c\<close> on a ring of nodes, and what they do to the list that it holds.
\<close>

subsection \<open>Segments of a ring\<close>

text \<open>Nodes by address and data, with the address before the first and the one after the last.\<close>

fun dseg :: "(addr \<rightharpoonup> 'a list2_node) \<Rightarrow> addr \<Rightarrow> (addr \<times> 'a) list \<Rightarrow> addr \<Rightarrow> bool" where
  "dseg m p [] q = True"
| "dseg m p ((a, x) # nds) q =
     (m a = Some \<lparr>l2_data = x, l2_prev = p, l2_next = nx_of nds q\<rparr> \<and> dseg m a nds q)"

lemma dseg_append [simp]: "dseg m p (us @ vs) q = (dseg m p us (nx_of vs q) \<and> dseg m (last_of us p) vs q)"
  by (induction m p us q rule: dseg.induct) auto

lemma dseg_frame [simp]: "a \<notin> addrs_of nds \<Longrightarrow> dseg (m(a := v)) p nds q = dseg m p nds q"
  by (induction m p nds q rule: dseg.induct) auto

definition clist_at :: "'a list2 \<Rightarrow> (addr \<times> 'a) list \<Rightarrow> bool" where
  "clist_at L nds \<longleftrightarrow> dseg (l2_mem L) (last_of nds NULL) nds (nx_of nds NULL) \<and> l2_head L = nx_of nds NULL \<and>
     l2_num L = of_nat (length nds) \<and> distinct (map fst nds) \<and> dom (l2_mem L) = addrs_of nds \<and>
     (\<forall>a \<in> addrs_of nds. \<exists>i < l2_brk L. a = Loc i)"

definition clist_ok :: "'a list2 \<Rightarrow> 'a list \<Rightarrow> bool" where
  "clist_ok L xs \<longleftrightarrow> (\<exists>nds. clist_at L nds \<and> map snd nds = xs)"

lemma clist_okI: "clist_at L nds \<Longrightarrow> clist_ok L (map snd nds)"
  by (auto simp: clist_ok_def)

lemma clist_nonnull: "clist_at L nds \<Longrightarrow> NULL \<notin> addrs_of nds"
  by (auto simp: clist_at_def)

lemma clist_head: "clist_at L nds \<Longrightarrow> (l2_head L = NULL) = (nds = [])"
  using clist_nonnull[of L nds] by (cases nds) (auto simp: clist_at_def)

lemma clist_fresh: "clist_at L nds \<Longrightarrow> Loc (l2_brk L) \<notin> addrs_of nds"
  by (auto simp: clist_at_def)

lemmas l2_upds = l2_set_prev_def l2_set_next_def l2_upd_def l2_free_def

lemma l2_node_ok:
  "l2_node L d al = (if fst (alloc_take al) then (Loc (l2_brk L), L\<lparr>l2_mem := (l2_mem L)(Loc (l2_brk L) \<mapsto>
       \<lparr>l2_data = d, l2_prev = NULL, l2_next = NULL\<rparr>), l2_brk := l2_brk L + 1\<rparr>, snd (alloc_take al))
     else (NULL, L, snd (alloc_take al)))"
  by (simp add: l2_node_def split: prod.splits)

lemma nx_of_nonnull [simp]: "NULL \<notin> addrs_of nds \<Longrightarrow> q \<noteq> NULL \<Longrightarrow> nx_of nds q \<noteq> NULL"
  by (cases nds) auto

text \<open>A ring is empty, a single node, or has a first and a last node.\<close>

lemma ring_cases:
  obtains (Empty) "nds = []" | (Single) a x where "nds = [(a, x)]" | (More) a x us b y where "nds = (a, x) # us @ [(b, y)]"
  by (metis append_butlast_last_id neq_Nil_conv prod.exhaust)

subsection \<open>Both ends\<close>

lemma l2_push_at:
  assumes at: "clist_at L nds"
  shows "if fst (alloc_take al) then
     \<exists>L'. list2_lpush L d al = Some (0, L', snd (alloc_take al)) \<and> clist_at L' ((Loc (l2_brk L), d) # nds)
   else list2_lpush L d al = Some (- 1, L, snd (alloc_take al))" (is ?L)
    "if fst (alloc_take al) then
     \<exists>L'. list2_rpush L d al = Some (0, L', snd (alloc_take al)) \<and> clist_at L' (nds @ [(Loc (l2_brk L), d)])
   else list2_rpush L d al = Some (- 1, L, snd (alloc_take al))" (is ?R)
proof -
  have "?L \<and> ?R"
  proof (cases nds rule: ring_cases)
    case Empty
    then show ?thesis using at clist_fresh[OF at]
      by (auto simp: list2_lpush_def list2_rpush_def l2_node_ok l2_upds clist_at_def less_Suc_eq)
  next
    case (Single a x)
    then show ?thesis using at clist_fresh[OF at] clist_nonnull[OF at]
      by (auto simp: list2_lpush_def list2_rpush_def l2_node_ok l2_upds clist_at_def less_Suc_eq)
  next
    case (More a x us b y)
    then show ?thesis using at clist_fresh[OF at] clist_nonnull[OF at]
      by (auto simp: list2_lpush_def list2_rpush_def l2_node_ok l2_upds clist_at_def less_Suc_eq)
  qed
  then show ?L ?R by blast+
qed

text \<open>Taking out any node of the ring; the next one is the head when it was the head.\<close>

lemma ring_split:
  obtains (One) "us = []" "vs = []" | (First2) b y where "us = []" "vs = [(b, y)]"
  | (First) b y ws c z where "us = []" "vs = (b, y) # ws @ [(c, z)]"
  | (Last2) b y where "us = [(b, y)]" "vs = []"
  | (Last) b y ws c z where "us = (b, y) # ws @ [(c, z)]" "vs = []"
  | (Mid) us' b y c z vs' where "us = us' @ [(b, y)]" "vs = (c, z) # vs'"
proof (cases "us = [] \<or> vs = []")
  case True
  then show ?thesis using ring_cases[of us thesis] ring_cases[of vs thesis] that by metis
next
  case False
  then show ?thesis using that(6) by (metis append_butlast_last_id neq_Nil_conv prod.exhaust)
qed

lemma l2_delete_at:
  assumes at: "clist_at L (us @ (a, x) # vs)"
  shows "\<exists>L'. list2_delete L a = Some (x, L') \<and> clist_at L' (us @ vs)"
proof (cases us vs rule: ring_split)
  case One
  then show ?thesis using at by (simp add: list2_delete_def l2_upds clist_at_def Let_def; blast?)
next
  case (First2 b y)
  then show ?thesis using at by (simp add: list2_delete_def l2_upds clist_at_def Let_def; blast?)
next
  case (First b y ws c z)
  then show ?thesis using at by (simp add: list2_delete_def l2_upds clist_at_def Let_def; blast?)
next
  case (Last2 b y)
  then show ?thesis using at by (simp add: list2_delete_def l2_upds clist_at_def Let_def; blast?)
next
  case (Last b y ws c z)
  then show ?thesis using at by (simp add: list2_delete_def l2_upds clist_at_def Let_def; blast?)
next
  case (Mid us' b y c z vs')
  have h: "nx_of us' b \<noteq> a" using at Mid by (cases us') (auto simp: clist_at_def)
  show ?thesis using at h unfolding Mid by (simp add: list2_delete_def l2_upds clist_at_def Let_def; blast?)
qed

lemma l2_unlink_at:
  assumes at: "clist_at L (us @ (a, x) # vs)" and l: "length (us @ (a, x) # vs) < 2 ^ 32"
  shows "\<exists>L'. l2_unlink L a = Some (Some x, L') \<and> clist_at L' (us @ vs)"
proof -
  have n: "l2_num L - 1 = of_nat (length (us @ vs))" using at by (simp add: clist_at_def)
  have z: "(l2_num L - 1 = 0) = (us @ vs = [])" unfolding n using count_zero[of "length (us @ vs)"] l by simp
  show ?thesis
  proof (cases us vs rule: ring_split)
    case One
    then show ?thesis using at z by (simp add: l2_unlink_def l2_upds clist_at_def Let_def; blast?)
  next
    case (First2 b y)
    then show ?thesis using at by (simp add: l2_unlink_def l2_upds clist_at_def Let_def; blast?)
  next
    case (First b y ws c z)
    then show ?thesis using at z by (simp add: l2_unlink_def l2_upds clist_at_def Let_def; blast?)
  next
    case (Last2 b y)
    then show ?thesis using at by (simp add: l2_unlink_def l2_upds clist_at_def Let_def; blast?)
  next
    case (Last b y ws c z)
    then show ?thesis using at z by (simp add: l2_unlink_def l2_upds clist_at_def Let_def; blast?)
  next
    case (Mid us' b y c z vs')
    have h: "nx_of us' b \<noteq> a" using at Mid by (cases us') (auto simp: clist_at_def)
    show ?thesis using at h z unfolding Mid by (simp add: l2_unlink_def l2_upds clist_at_def Let_def; blast?)
  qed
qed

lemma l2_lpop_at:
  assumes at: "clist_at L ((a, x) # nds)"
  shows "\<exists>L'. list2_lpop L = Some (Some x, L') \<and> clist_at L' nds"
  using at clist_nonnull[OF at]
  by (cases nds rule: ring_cases; simp add: list2_lpop_def l2_upds clist_at_def Let_def; blast?)

lemma l2_rpop_at:
  assumes at: "clist_at L (nds @ [(a, x)])"
  shows "\<exists>L'. list2_rpop L = Some (Some x, L') \<and> clist_at L' nds"
proof (cases nds rule: ring_cases)
  case (More b y us c z)
  have ne: "a \<noteq> b" "a \<noteq> c" "c \<noteq> b" "c \<noteq> a" "b \<noteq> NULL"
    using at clist_nonnull[OF at] More by (auto simp: clist_at_def)
  show ?thesis using at More ne
    by (simp add: list2_rpop_def l2_upds clist_at_def Let_def ne) (simp add: ne ne[THEN not_sym] insert_commute insert_Diff_if)
next
  case Empty
  then show ?thesis using at by (auto simp: list2_rpop_def l2_upds clist_at_def Let_def)
next
  case (Single b y)
  have ne: "a \<noteq> b" "b \<noteq> NULL" using at clist_nonnull[OF at] Single by (auto simp: clist_at_def)
  show ?thesis using at Single ne
    by (simp add: list2_rpop_def l2_upds clist_at_def Let_def ne ne[THEN not_sym]) (simp add: insert_commute insert_Diff_if ne[THEN not_sym])?
qed

lemma l2_roll_at:
  assumes at: "clist_at L ((a, x) # nds)"
  shows "\<exists>L'. list2_roll L = Some (Some x, L') \<and> clist_at L' (nds @ [(a, x)])"
  using at clist_nonnull[OF at]
  by (cases nds rule: ring_cases; simp add: list2_roll_def clist_at_def; blast?)

subsection \<open>Walks\<close>

lemma clist_node:
  assumes "clist_at L (us @ (a, x) # vs)"
  shows "\<exists>p. l2_mem L a = Some \<lparr>l2_data = x, l2_prev = p, l2_next = nx_of vs (nx_of (us @ (a, x) # vs) NULL)\<rparr>"
    "(a = last_of (us @ (a, x) # vs) NULL) = (vs = [])" "a \<noteq> NULL"
proof -
  show "\<exists>p. l2_mem L a = Some \<lparr>l2_data = x, l2_prev = p, l2_next = nx_of vs (nx_of (us @ (a, x) # vs) NULL)\<rparr>"
    using assms by (auto simp: clist_at_def)
  have "a \<notin> addrs_of vs" using assms by (auto simp: clist_at_def)
  then show "(a = last_of (us @ (a, x) # vs) NULL) = (vs = [])" using last_of_mem[of vs a] by (cases "vs = []") auto
  show "a \<noteq> NULL" using clist_nonnull[OF assms] by auto
qed

lemma clist_tail: "clist_at L nds \<Longrightarrow> nds \<noteq> [] \<Longrightarrow>
   \<exists>hn. l2_mem L (l2_head L) = Some hn \<and> l2_prev hn = last_of nds NULL"
  by (cases nds) (auto simp: clist_at_def)

lemma l2_trav_loop:
  "clist_at L (us @ vs) \<Longrightarrow> vs \<noteq> [] \<Longrightarrow>
   l2_trav_loop L (last_of (us @ vs) NULL) cb (nx_of vs NULL) args = trav_list cb (map snd vs) args"
proof (induction vs arbitrary: us args)
  case (Cons v vs)
  obtain c z where v: "v = (c, z)" by (cases v)
  from clist_node[of L us c z vs] Cons.prems v obtain p where c:
    "l2_mem L c = Some \<lparr>l2_data = z, l2_prev = p, l2_next = nx_of vs (nx_of (us @ (c, z) # vs) NULL)\<rparr>"
    "(c = last_of (us @ (c, z) # vs) NULL) = (vs = [])" "c \<noteq> NULL" by auto
  show ?case
  proof (cases "vs = []")
    case True
    then show ?thesis using c v by (subst l2_trav_loop.simps) (simp split: Option.bind_split)
  next
    case False
    have n: "nx_of vs (nx_of us c) = nx_of vs NULL" using False by (cases vs) auto
    have "l2_trav_loop L (last_of (us @ (c, z) # vs) NULL) cb (nx_of vs NULL) a = trav_list cb (map snd vs) a" for a
      using Cons.IH[of "us @ [v]"] Cons.prems False v by simp
    then show ?thesis using c v False n by (subst l2_trav_loop.simps) (simp split: Option.bind_split)
  qed
qed simp

lemma l2_find_loop:
  "clist_at L (us @ vs) \<Longrightarrow> vs \<noteq> [] \<Longrightarrow>
   l2_find_loop L (last_of (us @ vs) NULL) P (nx_of vs NULL) = Some (find P (map snd vs))"
proof (induction vs arbitrary: us)
  case (Cons v vs)
  obtain c z where v: "v = (c, z)" by (cases v)
  from clist_node[of L us c z vs] Cons.prems v obtain p where c:
    "l2_mem L c = Some \<lparr>l2_data = z, l2_prev = p, l2_next = nx_of vs (nx_of (us @ (c, z) # vs) NULL)\<rparr>"
    "(c = last_of (us @ (c, z) # vs) NULL) = (vs = [])" by auto
  show ?case
  proof (cases "vs = []")
    case True
    then show ?thesis using c v by (subst l2_find_loop.simps) simp
  next
    case False
    have n: "nx_of vs (nx_of us c) = nx_of vs NULL" using False by (cases vs) auto
    have "l2_find_loop L (last_of (us @ (c, z) # vs) NULL) P (nx_of vs NULL) = Some (find P (map snd vs))"
      using Cons.IH[of "us @ [v]"] Cons.prems False v by simp
    then show ?thesis using c v False n by (subst l2_find_loop.simps) simp
  qed
qed simp

lemma l2_find_del_loop:
  "clist_at L (us @ vs) \<Longrightarrow> vs \<noteq> [] \<Longrightarrow> length (us @ vs) < 2 ^ 32 \<Longrightarrow>
   \<exists>L'. l2_find_del_loop L (last_of (us @ vs) NULL) P (nx_of vs NULL) = Some (find P (map snd vs), L') \<and>
     clist_ok L' (map snd us @ takeWhile (\<lambda>x. \<not> P x) (map snd vs) @ tl (dropWhile (\<lambda>x. \<not> P x) (map snd vs)))"
proof (induction vs arbitrary: us)
  case (Cons v vs)
  obtain c z where v: "v = (c, z)" by (cases v)
  from clist_node[of L us c z vs] Cons.prems v obtain p where c:
    "l2_mem L c = Some \<lparr>l2_data = z, l2_prev = p, l2_next = nx_of vs (nx_of (us @ (c, z) # vs) NULL)\<rparr>"
    "(c = last_of (us @ (c, z) # vs) NULL) = (vs = [])" by auto
  show ?case
  proof (cases "P z")
    case True
    from l2_unlink_at[of L us c z vs] Cons.prems v obtain L' where
      "l2_unlink L c = Some (Some z, L')" "clist_at L' (us @ vs)" by auto
    then show ?thesis using True c v clist_okI[of L' "us @ vs"] by (subst l2_find_del_loop.simps) simp
  next
    case False
    show ?thesis
    proof (cases "vs = []")
      case True
      then show ?thesis using c v False clist_okI[OF Cons.prems(1)] by (subst l2_find_del_loop.simps) simp
    next
      case ne: False
      have n: "nx_of vs (nx_of us c) = nx_of vs NULL" using ne by (cases vs) auto
      have "\<exists>L'. l2_find_del_loop L (last_of (us @ (c, z) # vs) NULL) P (nx_of vs NULL) = Some (find P (map snd vs), L') \<and>
        clist_ok L' (map snd us @ z # takeWhile (\<lambda>x. \<not> P x) (map snd vs) @ tl (dropWhile (\<lambda>x. \<not> P x) (map snd vs)))"
        using Cons.IH[of "us @ [v]"] Cons.prems ne v by simp
      then show ?thesis using c v False ne n by (subst l2_find_del_loop.simps) simp
    qed
  qed
qed simp

lemma l2_count_loop:
  "clist_at L (us @ vs) \<Longrightarrow> vs \<noteq> [] \<Longrightarrow> l2_count L (nx_of vs NULL) k = Some (k + of_nat (length vs))"
proof (induction vs arbitrary: us k)
  case (Cons v vs)
  obtain c z where v: "v = (c, z)" by (cases v)
  let ?h = "nx_of (us @ (c, z) # vs) NULL"
  have at: "clist_at L (us @ (c, z) # vs)" using Cons.prems v by simp
  from clist_node(1)[OF at] obtain p where c:
    "l2_mem L c = Some \<lparr>l2_data = z, l2_prev = p, l2_next = nx_of vs ?h\<rparr>" by blast
  have h: "l2_head L = ?h" using at by (simp add: clist_at_def)
  show ?case
  proof (cases vs)
    case Nil
    obtain hn where hn: "l2_mem L ?h = Some hn" using clist_tail[OF at] h by auto
    have "l2_prev hn \<noteq> NULL \<and> l2_next hn \<noteq> NULL"
      using at hn clist_nonnull[OF at] Nil
      by (cases us rule: ring_cases) (auto simp: clist_at_def)
    then show ?thesis using Nil c v h hn by (subst l2_count.simps) simp
  next
    case (Cons w ws)
    obtain b y where w: "w = (b, y)" by (cases w)
    from clist_node(1)[of L "us @ [(c, z)]" b y ws] at Cons w obtain p' where b:
      "l2_mem L b = Some \<lparr>l2_data = y, l2_prev = p', l2_next = nx_of ws ?h\<rparr>" by auto
    have p': "p' = c" using at b Cons w by (simp add: clist_at_def)
    have c0: "c \<noteq> NULL" using clist_nonnull[OF at] by auto
    have nn: "nx_of ws ?h \<noteq> NULL" using clist_nonnull[OF at] Cons w by (cases us; cases ws) auto
    have bh: "b \<noteq> ?h" using at Cons w by (cases us) (auto simp: clist_at_def)
    have "l2_count L (nx_of vs NULL) (k + 1) = Some (k + 1 + of_nat (length vs))"
      by (rule Cons.IH[of "us @ [v]"]) (use at v Cons in simp_all)
    then show ?thesis using Cons v w c b p' c0 nn bh h by (subst l2_count.simps) simp
  qed
qed simp

lemma l2_destroy_loop:
  "dseg (l2_mem L) p nds q \<Longrightarrow> distinct (map fst nds) \<Longrightarrow> NULL \<notin> addrs_of nds \<Longrightarrow> nds \<noteq> [] \<Longrightarrow>
   l2_destroy_loop de (last_of nds NULL) (nx_of nds NULL) L s =
     map_option (\<lambda>s. (s, L\<lparr>l2_mem := l2_mem L |` (- addrs_of nds)\<rparr>)) (trav_list de (map snd nds) s)"
proof (induction nds arbitrary: L s p)
  case (Cons v vs)
  obtain c z where v: "v = (c, z)" by (cases v)
  let ?L = "L\<lparr>l2_mem := (l2_mem L)(c := None)\<rparr>"
  have r: "l2_mem ?L |` (- addrs_of vs) = l2_mem L |` (- addrs_of (v # vs))"
    by (rule ext) (simp add: restrict_map_def v)
  have c: "c \<noteq> NULL" using Cons.prems(3) v by auto
  show ?case
  proof (cases "vs = []")
    case True
    then show ?thesis using Cons.prems v c r
      by (subst l2_destroy_loop.simps) (simp add: l2_free_def split: Option.bind_split)
  next
    case False
    have p: "dseg (l2_mem ?L) c vs q" "distinct (map fst vs)" "NULL \<notin> addrs_of vs" using Cons.prems v by simp_all
    have n: "nx_of vs r = nx_of vs NULL" "last_of vs r = last_of vs NULL" for r
      using False by (cases vs; auto simp: last_of_def)+
    have t: "last_of vs NULL \<noteq> c" using Cons.prems(2) v last_of_mem[OF False, of NULL] by auto
    have "l2_destroy_loop de (last_of vs NULL) (nx_of vs NULL) ?L t =
        map_option (\<lambda>s. (s, L\<lparr>l2_mem := l2_mem L |` (- addrs_of (v # vs))\<rparr>)) (trav_list de (map snd vs) t)" for t
      unfolding Cons.IH[OF p False] r by simp
    then show ?thesis using Cons.prems v c t n[of q] n[of c] not_sym[OF t]
      by (subst l2_destroy_loop.simps) (simp add: l2_free_def map_option_bind split: Option.bind_split)
  qed
qed simp

subsection \<open>The list that a ring holds\<close>

text \<open>The contract of the operations that the receiving threads use.\<close>

datatype 'a list2_op = CLPush 'a | CRPush 'a | CLPop | CRPop | Roll | Delete nat | CFindBy "'a \<Rightarrow> bool" | FindDel "'a \<Rightarrow> bool"

text \<open>\<open>Delete i\<close> is \<open>list2_delete\<close> of the node at the \<open>i\<close>th place, which the callers reach over \<open>next\<close>.\<close>

fun l2_skip :: "'a list2 \<Rightarrow> nat \<Rightarrow> addr \<Rightarrow> addr option" where
  "l2_skip list 0 node = Some node"
| "l2_skip list (Suc i) node = do { n \<leftarrow> l2_mem list node; l2_skip list i (l2_next n) }"

fun list2_step :: "'a list2_op \<Rightarrow> 'a list2 \<Rightarrow> allocs \<Rightarrow> ('a list_res \<times> 'a list2 \<times> allocs) option" where
  "list2_step (CLPush d) L al = do { (ret, L, al) \<leftarrow> list2_lpush L d al; Some (Ret ret, L, al) }"
| "list2_step (CRPush d) L al = do { (ret, L, al) \<leftarrow> list2_rpush L d al; Some (Ret ret, L, al) }"
| "list2_step CLPop L al = do { (x, L) \<leftarrow> list2_lpop L; Some (Elem x, L, al) }"
| "list2_step CRPop L al = do { (x, L) \<leftarrow> list2_rpop L; Some (Elem x, L, al) }"
| "list2_step Roll L al = do { (x, L) \<leftarrow> list2_roll L; Some (Elem x, L, al) }"
| "list2_step (Delete i) L al =
     (if l2_head L = NULL then Some (Elem None, L, al)
      else do { p \<leftarrow> l2_skip L i (l2_head L); (x, L) \<leftarrow> list2_delete L p; Some (Elem (Some x), L, al) })"
| "list2_step (CFindBy P) L al = do { x \<leftarrow> list2_find L P; Some (Elem x, L, al) }"
| "list2_step (FindDel P) L al = do { (x, L) \<leftarrow> list2_find_and_del L P; Some (Elem x, L, al) }"

text \<open>Going over \<open>next\<close> more often than there are nodes starts again at the first.\<close>

fun list2_spec :: "'a list2_op \<Rightarrow> 'a list \<Rightarrow> allocs \<Rightarrow> 'a list_res \<times> 'a list \<times> allocs" where
  "list2_spec (CLPush d) xs al = push_spec (\<lambda>xs. d # xs) xs al"
| "list2_spec (CRPush d) xs al = push_spec (\<lambda>xs. xs @ [d]) xs al"
| "list2_spec CLPop xs al = (Elem (if xs = [] then None else Some (hd xs)), tl xs, al)"
| "list2_spec CRPop xs al = (Elem (if xs = [] then None else Some (last xs)), butlast xs, al)"
| "list2_spec Roll xs al = (Elem (if xs = [] then None else Some (hd xs)), rotate1 xs, al)"
| "list2_spec (Delete i) xs al =
     (if xs = [] then (Elem None, [], al)
      else let j = i mod length xs in (Elem (Some (xs ! j)), take j xs @ drop (Suc j) xs, al))"
| "list2_spec (CFindBy P) xs al = (Elem (find P xs), xs, al)"
| "list2_spec (FindDel P) xs al =
     (Elem (find P xs), takeWhile (\<lambda>x. \<not> P x) xs @ tl (dropWhile (\<lambda>x. \<not> P x) xs), al)"

lemma clist_ok_push:
  assumes "clist_ok L xs"
  shows "if fst (alloc_take al) then \<exists>L'. list2_lpush L d al = Some (0, L', snd (alloc_take al)) \<and> clist_ok L' (d # xs)
     else list2_lpush L d al = Some (- 1, L, snd (alloc_take al))"
    "if fst (alloc_take al) then \<exists>L'. list2_rpush L d al = Some (0, L', snd (alloc_take al)) \<and> clist_ok L' (xs @ [d])
     else list2_rpush L d al = Some (- 1, L, snd (alloc_take al))"
proof -
  obtain nds where n: "clist_at L nds" "map snd nds = xs" using assms by (auto simp: clist_ok_def)
  show "if fst (alloc_take al) then \<exists>L'. list2_lpush L d al = Some (0, L', snd (alloc_take al)) \<and> clist_ok L' (d # xs)
     else list2_lpush L d al = Some (- 1, L, snd (alloc_take al))"
    using l2_push_at(1)[OF n(1), of al d] clist_okI[of _ "(Loc (l2_brk L), d) # nds"] n(2) by (auto split: if_splits)
  show "if fst (alloc_take al) then \<exists>L'. list2_rpush L d al = Some (0, L', snd (alloc_take al)) \<and> clist_ok L' (xs @ [d])
     else list2_rpush L d al = Some (- 1, L, snd (alloc_take al))"
    using l2_push_at(2)[OF n(1), of al d] clist_okI[of _ "nds @ [(Loc (l2_brk L), d)]"] n(2) by (auto split: if_splits)
qed

lemma l2_skip_at:
  assumes at: "clist_at L nds" and ne: "nds \<noteq> []"
  shows "l2_skip L i (l2_head L) = Some (fst (nds ! (i mod length nds)))"
proof -
  have nxt: "\<exists>n. l2_mem L (fst (nds ! j)) = Some n \<and> l2_next n = fst (nds ! (Suc j mod length nds))"
    if j: "j < length nds" for j
  proof -
    obtain a x where ax: "nds ! j = (a, x)" by (cases "nds ! j")
    have d: "nds = take j nds @ (a, x) # drop (Suc j) nds" using id_take_nth_drop[OF j] ax by simp
    have "clist_at L (take j nds @ (a, x) # drop (Suc j) nds)" using at d by simp
    from clist_node(1)[OF this] obtain p where
      p: "l2_mem L a = Some \<lparr>l2_data = x, l2_prev = p, l2_next = nx_of (drop (Suc j) nds) (nx_of nds NULL)\<rparr>"
      using d by auto
    have "nx_of (drop (Suc j) nds) (nx_of nds NULL) = fst (nds ! (Suc j mod length nds))"
    proof (cases "Suc j < length nds")
      case True
      then show ?thesis by (cases "nds ! Suc j") (simp add: Cons_nth_drop_Suc[symmetric])
    next
      case False
      then have "Suc j = length nds" using j by simp
      then show ?thesis using ne by (cases nds) auto
    qed
    then show ?thesis using p ax by simp
  qed
  have add: "l2_skip L (i + j) p = Option.bind (l2_skip L i p) (l2_skip L j)" for i j p
    by (induction i arbitrary: p) (simp_all cong del: bind_weak_cong)
  have s: "l2_skip L (Suc i) p = Option.bind (l2_skip L i p) (\<lambda>q. Option.bind (l2_mem L q) (\<lambda>n. Some (l2_next n)))" for i p
  proof -
    have "l2_skip L 1 = (\<lambda>q. Option.bind (l2_mem L q) (\<lambda>n. Some (l2_next n)))" by (rule ext) (simp cong del: bind_weak_cong)
    then show ?thesis using add[of i 1 p] by (simp only: add_Suc_right One_nat_def add_0_right)
  qed
  show ?thesis
  proof (induction i)
    case 0
    then show ?case using at ne by (cases nds) (auto simp: clist_at_def)
  next
    case (Suc i)
    have "i mod length nds < length nds" using ne by simp
    from nxt[OF this] obtain n where "l2_mem L (fst (nds ! (i mod length nds))) = Some n"
      "l2_next n = fst (nds ! (Suc (i mod length nds) mod length nds))" by blast
    then show ?case unfolding s using Suc by (simp add: mod_Suc_eq)
  qed
qed

lemma clist_delete:
  assumes ok: "clist_ok L xs" and ne: "xs \<noteq> []"
  shows "\<exists>p L'. l2_skip L i (l2_head L) = Some p \<and> list2_delete L p = Some (xs ! (i mod length xs), L') \<and>
     clist_ok L' (take (i mod length xs) xs @ drop (Suc (i mod length xs)) xs)"
proof -
  obtain nds where n: "clist_at L nds" "map snd nds = xs" using ok by (auto simp: clist_ok_def)
  let ?j = "i mod length nds"
  have l: "length xs = length nds" "nds \<noteq> []" using n(2) ne by auto
  then have j: "?j < length nds" by simp
  obtain a x where ax: "nds ! ?j = (a, x)" by (cases "nds ! ?j")
  have "nds = take ?j nds @ (a, x) # drop (Suc ?j) nds" using id_take_nth_drop[OF j] ax by simp
  then have "clist_at L (take ?j nds @ (a, x) # drop (Suc ?j) nds)" using n(1) by simp
  from l2_delete_at[OF this] obtain L' where L': "list2_delete L a = Some (x, L')"
    "clist_at L' (take ?j nds @ drop (Suc ?j) nds)" by blast
  have "xs ! ?j = x" using n(2) ax j by auto
  moreover have "clist_ok L' (take ?j xs @ drop (Suc ?j) xs)"
    using clist_okI[OF L'(2)] n(2) by (auto simp: take_map drop_map)
  ultimately show ?thesis using L'(1) l2_skip_at[OF n(1) l(2), of i] ax l(1) by auto
qed

interpretation clist: list_refinement list2_step list2_spec clist_ok
proof
  fix L :: "'a list2" and xs op al
  assume ok: "clist_ok L xs" and l: "length xs < LIST_MAX"
  obtain nds where n: "clist_at L nds" "map snd nds = xs" using ok by (auto simp: clist_ok_def)
  have h: "l2_head L = nx_of nds NULL" using n(1) by (simp add: clist_at_def)
  have e: "(l2_head L = NULL) = (xs = [])" using clist_head[OF n(1)] n(2) by auto
  have len: "length nds < 2 ^ 32" using n(2) l by (auto simp: LIST_MAX_def)
  show "\<exists>L'. list2_step op L al = Some (fst (list2_spec op xs al), L', snd (snd (list2_spec op xs al))) \<and>
      clist_ok L' (fst (snd (list2_spec op xs al)))"
  proof (cases op)
    case (CLPush d)
    then show ?thesis using push_sim[where f = "\<lambda>xs. d # xs", OF clist_ok_push(1)[OF ok] ok] by simp
  next
    case (CRPush d)
    then show ?thesis using push_sim[where f = "\<lambda>xs. xs @ [d]", OF clist_ok_push(2)[OF ok] ok] by simp
  next
    case CLPop
    show ?thesis
    proof (cases nds)
      case (Cons v vs)
      then show ?thesis using l2_lpop_at[of L "fst v" "snd v" vs] n CLPop clist_okI by fastforce
    qed (use n CLPop e ok in \<open>auto simp: list2_lpop_def\<close>)
  next
    case CRPop
    show ?thesis
    proof (cases nds rule: rev_cases)
      case (snoc us v)
      then show ?thesis using l2_rpop_at[of L us "fst v" "snd v"] n CRPop clist_okI by fastforce
    qed (use n CRPop e ok in \<open>auto simp: list2_rpop_def\<close>)
  next
    case Roll
    show ?thesis
    proof (cases nds)
      case (Cons v vs)
      then show ?thesis using l2_roll_at[of L "fst v" "snd v" vs] n Roll clist_okI by fastforce
    qed (use n Roll e ok in \<open>auto simp: list2_roll_def\<close>)
  next
    case (Delete i)
    then show ?thesis using clist_delete[OF ok, of i] e ok by (cases "xs = []") (auto simp: Let_def)
  next
    case (CFindBy P)
    show ?thesis
    proof (cases "nds = []")
      case False
      then show ?thesis using l2_find_loop[of L "[]" nds P] clist_tail[OF n(1)] n h e ok CFindBy
        by (auto simp: list2_find_def)
    qed (use n CFindBy e ok in \<open>auto simp: list2_find_def\<close>)
  next
    case (FindDel P)
    show ?thesis
    proof (cases "nds = []")
      case False
      then show ?thesis using l2_find_del_loop[of L "[]" nds P] clist_tail[OF n(1)] n h e FindDel len
        by (auto simp: list2_find_and_del_def)
    qed (use n FindDel e ok in \<open>auto simp: list2_find_and_del_def\<close>)
  qed
next
  show "length (fst (snd (list2_spec op xs al))) \<le> Suc (length xs)" for op and xs :: "'a list" and al
  proof (cases op)
    case (FindDel P)
    have "length (takeWhile (\<lambda>x. \<not> P x) xs) + length (dropWhile (\<lambda>x. \<not> P x) xs) = length xs"
      by (metis length_append takeWhile_dropWhile_id)
    then show ?thesis using FindDel by simp
  next
    case (Delete i)
    have "i mod length xs < length xs" if "xs \<noteq> []" using that by simp
    then show ?thesis using Delete by (cases "xs = []") (simp_all add: Let_def min_def del: mod_less_divisor)
  qed (auto simp: push_spec_def Let_def split: prod.split)
qed

lemma clist_empty: "fst (list2_creat al) = Some L \<Longrightarrow> clist_ok L []"
  by (auto simp: list2_creat_def clist_ok_def clist_at_def split: prod.splits if_splits)

lemma clist_reads:
  assumes "clist_ok L xs"
  shows "list2_assert L = Some ()" "list2_trav L cb args = trav_list cb xs args"
    "list2_destroy L de s = map_option (\<lambda>s. (s, L\<lparr>l2_mem := Map.empty\<rparr>)) (trav_list de xs s)"
proof -
  obtain nds where n: "clist_at L nds" "map snd nds = xs" using assms by (auto simp: clist_ok_def)
  have h: "l2_head L = nx_of nds NULL" using n(1) by (simp add: clist_at_def)
  note e = clist_head[OF n(1)] and t = clist_tail[OF n(1)]
  show "list2_assert L = Some ()" using l2_count_loop[of L "[]" nds 0] n h e
    by (cases "nds = []") (auto simp: list2_assert_def clist_at_def)
  show "list2_trav L cb args = trav_list cb xs args" using l2_trav_loop[of L "[]" nds cb args] n h e t
    by (cases "nds = []") (auto simp: list2_trav_def)
  have "l2_mem L |` (- addrs_of nds) = Map.empty"
    using n(1) by (auto simp: clist_at_def restrict_map_def fun_eq_iff)
  moreover have "dseg (l2_mem L) (last_of nds NULL) nds (nx_of nds NULL)" "distinct (map fst nds)"
    using n(1) by (simp_all add: clist_at_def)
  moreover have "L\<lparr>l2_mem := Map.empty\<rparr> = L" if "nds = []" using that n(1) by (simp add: clist_at_def)
  ultimately show "list2_destroy L de s = map_option (\<lambda>s. (s, L\<lparr>l2_mem := Map.empty\<rparr>)) (trav_list de xs s)"
    using l2_destroy_loop[of L _ nds _ de s] clist_nonnull[OF n(1)] n h e t
    by (cases "nds = []") (auto simp: list2_destroy_def)
qed

text \<open>C40: the circular list acts as a list under every sequence of pushes and pops at both ends, rotations,
  deletions of a node, searches and searches with deletion, failed allocations included; at the end its links and
  its count are right (\<open>list2_assert\<close>), \<open>list2_trav\<close> visits the elements in order and \<open>list2_destroy\<close> hands over
  each of them once and leaves no node.\<close>

theorem list2_refines:
  assumes "fst (list2_creat al0) = Some L" "length ops \<le> LIST_MAX" "spec_ops list2_spec ops [] al = (rs, xs, al')"
  shows "\<exists>L'. run_ops list2_step ops L al = Some (rs, L', al') \<and> list2_assert L' = Some () \<and>
     (\<forall>cb (args :: 's). list2_trav L' cb args = trav_list cb xs args) \<and>
     (\<forall>de (s :: 's). list2_destroy L' de s = map_option (\<lambda>s. (s, L'\<lparr>l2_mem := Map.empty\<rparr>)) (trav_list de xs s))"
proof -
  from clist.run_sim[OF clist_empty[OF assms(1)], of ops al] assms(2,3) obtain L' where
    L': "run_ops list2_step ops L al = Some (rs, L', al')" "clist_ok L' xs" by auto
  then show ?thesis using clist_reads[OF L'(2)] by blast
qed

theorem list2_refines_witness:
  "\<exists>L L'. fst (list2_creat [True]) = Some L \<and>
     run_ops list2_step [CRPush (1 :: int), CLPush 2, CRPush 3, Roll, Delete 4, FindDel (\<lambda>x. x = 2), CRPop] L [True, True, True] =
       Some ([Ret 0, Ret 0, Ret 0, Elem (Some 2), Elem (Some 3), Elem (Some 2), Elem (Some 1)], L', []) \<and>
     list2_destroy L' (\<lambda>x s. Some (s @ [x])) [] = Some ([], L'\<lparr>l2_mem := Map.empty\<rparr>)"
proof -
  obtain L :: "int list2" where L: "fst (list2_creat [True]) = Some L" by (simp add: list2_creat_def)
  let ?ops = "[CRPush (1 :: int), CLPush 2, CRPush 3, Roll, Delete 4, FindDel (\<lambda>x. x = 2), CRPop]"
  have s: "spec_ops list2_spec ?ops [] [True, True, True] =
      ([Ret 0, Ret 0, Ret 0, Elem (Some 2), Elem (Some 3), Elem (Some 2), Elem (Some 1)], [], [])"
    by (simp add: push_spec_def Let_def)
  have b: "length ?ops \<le> LIST_MAX" by (simp add: LIST_MAX_def)
  from list2_refines[where 's = "int list", OF L b s] show ?thesis using L by auto
qed

end
