(* ===== verification/Rtmq_Out.thy ===== *)
theory Rtmq_Out
  imports Rtmq_Frame Iovec
begin

text \<open>
  Messages on their way to a socket, as the server and the proxy of the message queue send them: a message in
  memory is put into network order in place and added to the send buffer, \<open>writev\<close> takes some of the bytes, and the
  blocks of the messages that are done are given back.
\<close>

subsection \<open>Definitions\<close>

text \<open>The length of a message in an \<open>int\<close> that becomes a \<open>size_t\<close>.\<close>

definition int_size :: "u64 \<Rightarrow> u64" where
  "int_size n = scast (ucast n :: u32)"

text \<open>Body of the loops of \<open>rtmq_rsvr_wiov_add\<close> and \<open>rtmq_proxy_tsvr_wiov_add\<close> for the message at \<open>a\<close>.  \<open>conv\<close> is
  what the variable \<open>len\<close> does to a length.  The callbacks, one for success and failure, release the block.\<close>

definition rtmq_out_add ::
    "(u64 \<Rightarrow> u64) \<Rightarrow> nat \<Rightarrow> (u64 \<rightharpoonup> u8 list) \<Rightarrow> wiov \<Rightarrow> u64 \<Rightarrow> ((u64 \<rightharpoonup> u8 list) \<times> wiov) option" where
  "rtmq_out_add conv param mem w a = do {
     bs \<leftarrow> mem a;
     head \<leftarrow> rtmq_head_load bs 0;
     if RTMQ_CHKSUM_VAL \<noteq> hd_chksum head then None
     else do {
       let len = conv (20 + ucast (hd_length head));
       bs \<leftarrow> rtmq_head_store bs 0 (RTMQ_HEAD_HTON head);
       w \<leftarrow> wiov_item_add w (unat a) (unat len) param (Some 0) (Some 0);
       Some (mem(a \<mapsto> bs), w) } }"

text \<open>What \<open>writev\<close> reads: the pieces of the buffer, each in the block of its message.\<close>

definition io_read :: "(u64 \<rightharpoonup> u8 list) \<Rightarrow> iovec \<times> wiov_orig \<Rightarrow> u8 list option" where
  "io_read mem = (\<lambda>(v, og). do {
     bs \<leftarrow> mem (of_nat (og_addr og));
     mem_read bs (iov_base v - og_addr og) (iov_len v) })"

fun io_reads :: "(u64 \<rightharpoonup> u8 list) \<Rightarrow> (iovec \<times> wiov_orig) list \<Rightarrow> u8 list option" where
  "io_reads mem [] = Some []"
| "io_reads mem (p # ps) = do { bs \<leftarrow> io_read mem p; bss \<leftarrow> io_reads mem ps; Some (bs @ bss) }"

definition wiov_bytes :: "(u64 \<rightharpoonup> u8 list) \<Rightarrow> wiov \<Rightarrow> u8 list option" where
  "wiov_bytes mem w = io_reads mem (zip (take (wiov_item_num w) (wiov_item_begin w)) (drop (iov_idx w) (wi_orig w)))"

text \<open>The outcome of \<open>writev\<close>: how many bytes it takes, at most those that there are, or an error.\<close>

datatype writev_out = WvDone nat | WvErr

text \<open>The blocks that callbacks are called for.\<close>

definition io_blocks :: "io_call list \<Rightarrow> u64 list" where
  "io_blocks calls = map (\<lambda>(cb, param, addr, len). of_nat addr) calls"

subsection \<open>The buffer holds messages\<close>

definition out_blks :: "wiov \<Rightarrow> u64 list" where
  "out_blks w = map (\<lambda>og. of_nat (og_addr og)) (wiov_items w)"

definition og_is :: "(u64 \<rightharpoonup> u8 list) \<Rightarrow> wiov_orig \<Rightarrow> rtmq_header \<times> u8 list \<Rightarrow> bool" where
  "og_is mem og m \<longleftrightarrow> mem (of_nat (og_addr og)) = Some (rtmq_wire m) \<and> og_len og = 20 + length (snd m) \<and>
     og_succ og = Some 0 \<and> og_fail og = Some 0"

definition out_ok :: "(u64 \<rightharpoonup> u8 list) \<Rightarrow> wiov \<Rightarrow> (rtmq_header \<times> u8 list) list \<Rightarrow> bool" where
  "out_ok mem w ms \<longleftrightarrow> wiov_ok w \<and> list_all2 (og_is mem) (wiov_items w) ms \<and>
     (wiov_items w \<noteq> [] \<longrightarrow> 0 < iov_len (hd (wiov_item_begin w))) \<and> (wiov_isempty w \<longleftrightarrow> wiov_items w = [])"

lemma out_okD:
  assumes "out_ok mem w ms"
  shows "wiov_ok w" "list_all2 (og_is mem) (wiov_items w) ms" "length (wiov_items w) = length ms"
    "length (out_blks w) = length ms" "wiov_isempty w \<longleftrightarrow> ms = []"
  using assms by (auto simp: out_ok_def out_blks_def dest: list_all2_lengthD)

lemma out_ok_frame:
  assumes "out_ok mem w ms" and "\<And>a. a \<in> set (out_blks w) \<Longrightarrow> mem' a = mem a"
  shows "out_ok mem' w ms"
proof -
  have "list_all2 (og_is mem') (wiov_items w) ms"
    using out_okD(2)[OF assms(1)] assms(2)
    by (auto simp: list_all2_conv_all_nth og_is_def out_blks_def)
  then show ?thesis using assms(1) by (simp add: out_ok_def)
qed

text \<open>Pieces that are whole messages.\<close>

lemma upt_suffix:
  assumes e: "[b..<b + l] = drop k [a..<a + n]" and l: "0 < l"
  shows "b = a + k" "l = n - k" "k < n"
proof -
  have len: "l = n - k" using arg_cong[OF e, of length] by simp
  then show "l = n - k" "k < n" using l by simp_all
  then have "hd [b..<b + l] = b" "hd (drop k [a..<a + n]) = a + k" using l by (simp_all add: hd_drop_conv_nth)
  then show "b = a + k" using e by simp
qed

lemma og_bytes_eq: "iov_bytes v = og_bytes og \<Longrightarrow> 0 < og_len og \<Longrightarrow> iov_base v = og_addr og \<and> iov_len v = og_len og"
proof -
  assume e: "iov_bytes v = og_bytes og" and l: "0 < og_len og"
  have len: "iov_len v = og_len og" using arg_cong[OF e, of length] by (simp add: iov_bytes_def og_bytes_def)
  then show ?thesis using upt_suffix[of "iov_base v" "iov_len v" 0 "og_addr og" "og_len og"] e l
    by (simp add: iov_bytes_def og_bytes_def)
qed

lemma io_reads_whole:
  "list_all2 (\<lambda>v og. iov_bytes v = og_bytes og) vs ogs \<Longrightarrow> list_all2 (og_is mem) ogs ms \<Longrightarrow>
   io_reads mem (zip vs ogs) = Some (rtmq_stream ms)"
proof (induction vs ogs arbitrary: ms rule: list_all2_induct)
  case (Cons v vs og ogs)
  then obtain m ms' where ms: "ms = m # ms'" "og_is mem og m" "list_all2 (og_is mem) ogs ms'"
    by (auto simp: list_all2_Cons1)
  have "iov_base v = og_addr og \<and> iov_len v = og_len og"
    by (rule og_bytes_eq[OF Cons.hyps(1)]) (use ms(2) in \<open>simp add: og_is_def\<close>)
  then have "io_read mem (v, og) = Some (rtmq_wire m)"
    using ms(2) by (simp add: io_read_def og_is_def mem_read_def)
  then show ?case using Cons.IH[OF ms(3)] ms(1) by simp
qed simp

text \<open>The window of the buffer.\<close>

lemma zip_take_same: "length xs \<le> n \<Longrightarrow> zip xs (take n ys) = zip xs ys"
  by (rule nth_equalityI) auto

lemma wiov_window:
  assumes "wiov_ok w"
  shows "zip (take (wiov_item_num w) (wiov_item_begin w)) (drop (iov_idx w) (wi_orig w)) =
      zip (take (wiov_item_num w) (wiov_item_begin w)) (wiov_items w)"
    "length (take (wiov_item_num w) (wiov_item_begin w)) = length (wiov_items w)"
    "i < length (wiov_items w) \<Longrightarrow> take (wiov_item_num w) (wiov_item_begin w) ! i = wi_iov w ! (iov_idx w + i) \<and>
       wiov_items w ! i = wi_orig w ! (iov_idx w + i) \<and> iov_idx w + i < iov_cnt w"
  using assms
  by (auto simp: wiov_ok_def wiov_items_def wiov_item_num_def wiov_item_begin_def drop_take zip_take_same)

lemma out_tot:
  assumes "list_all2 (og_is mem) ogs ms"
  shows "length (concat (map og_bytes ogs)) = length (rtmq_stream ms)"
  using assms by (induction rule: list_all2_induct) (auto simp: og_is_def og_bytes_def)

lemma out_bytes:
  assumes ok: "out_ok mem w ms"
  shows "wiov_bytes mem w = Some (drop (length (rtmq_stream ms) - length (wiov_pending w)) (rtmq_stream ms))"
    "length (wiov_pending w) \<le> length (rtmq_stream ms)"
proof -
  let ?V = "take (wiov_item_num w) (wiov_item_begin w)"
  note O = out_okD[OF ok] and W = wiov_window[OF out_okD(1)[OF ok]]
  have "wiov_bytes mem w = Some (drop (length (rtmq_stream ms) - length (wiov_pending w)) (rtmq_stream ms)) \<and>
    length (wiov_pending w) \<le> length (rtmq_stream ms)"
  proof (cases ms)
    case Nil
    then have "wiov_items w = []" using O(3) by simp
    moreover have "length ?V = 0" using W(2) calculation by (simp only: list.size)
    then have "?V = []" by (simp only: length_0_conv)
    then have "wiov_bytes mem w = Some []" "wiov_pending w = []"
      unfolding wiov_bytes_def wiov_pending_def by (simp_all only: zip_Nil zip.simps io_reads.simps list.map concat.simps)
    then show ?thesis using Nil by simp
  next
    case (Cons m ms')
    then obtain og ogs where og: "wiov_items w = og # ogs" using O(3) by (cases "wiov_items w") auto
    then obtain v vs where V: "?V = v # vs" using W(2) by (cases ?V) auto
    have im: "og_is mem og m" "list_all2 (og_is mem) ogs ms'" using O(2) og Cons by simp_all
    have v: "v = wi_iov w ! iov_idx w" "og = wi_orig w ! iov_idx w" "iov_idx w < iov_cnt w"
      using W(3)[of 0] og V by simp_all
    have vl: "0 < iov_len v"
    proof -
      have "wiov_item_begin w \<noteq> []" using V by auto
      moreover have "0 < wiov_item_num w" using V by (cases "wiov_item_num w") auto
      ultimately have "hd (wiov_item_begin w) = v" using V by (metis hd_take list.sel(1))
      then show ?thesis using ok og by (simp add: out_ok_def)
    qed
    obtain k where "iov_bytes v = drop k (og_bytes og)" using wiov_okD(5)[OF O(1) v(3)] v(1,2) by blast
    note k = upt_suffix[OF this[unfolded iov_bytes_def og_bytes_def] vl]
    have l: "og_len og = length (rtmq_wire m)" using im(1) by (simp add: og_is_def)
    have r1: "io_read mem (v, og) = Some (drop k (rtmq_wire m))"
      using im(1) k l by (simp add: io_read_def og_is_def mem_read_def)
    have "list_all2 (\<lambda>v og. iov_bytes v = og_bytes og) vs ogs"
    proof (rule list_all2_all_nthI)
      show len: "length vs = length ogs" using W(2) V og by simp
      fix i assume i: "i < length vs"
      have "?V ! Suc i = wi_iov w ! (iov_idx w + Suc i) \<and> wiov_items w ! Suc i = wi_orig w ! (iov_idx w + Suc i) \<and>
          iov_idx w + Suc i < iov_cnt w" by (rule W(3)) (use i len og in simp)
      then have "vs ! i = wi_iov w ! (iov_idx w + Suc i)" "ogs ! i = wi_orig w ! (iov_idx w + Suc i)"
        "iov_idx w + Suc i < iov_cnt w" using V og by simp_all
      then show "iov_bytes (vs ! i) = og_bytes (ogs ! i)" using O(1) unfolding wiov_ok_def by auto
    qed
    note r2 = io_reads_whole[OF this im(2)] and e2 = this
    have b: "wiov_bytes mem w = Some (drop k (rtmq_wire m) @ rtmq_stream ms')"
      using r1 r2 V og W(1) by (simp add: wiov_bytes_def)
    have "map iov_bytes vs = map og_bytes ogs" using e2 by (induction rule: list_all2_induct) auto
    then have p: "length (wiov_pending w) = length (rtmq_wire m) - k + length (rtmq_stream ms')"
      using V out_tot[OF im(2)] k(2) l by (simp add: wiov_pending_def)
    show ?thesis using b p k(3) l Cons by simp
  qed
  then show "wiov_bytes mem w = Some (drop (length (rtmq_stream ms) - length (wiov_pending w)) (rtmq_stream ms))"
    "length (wiov_pending w) \<le> length (rtmq_stream ms)" by blast+
qed

text \<open>What is still to be sent.\<close>

definition out_bytes_of :: "(u64 \<rightharpoonup> u8 list) \<Rightarrow> wiov \<Rightarrow> u8 list" where
  "out_bytes_of mem w = the (wiov_bytes mem w)"

lemma out_bytes_some: "out_ok mem w ms \<Longrightarrow> wiov_bytes mem w = Some (out_bytes_of mem w)"
  using out_bytes(1) by (simp add: out_bytes_of_def)

lemma out_bytes_length: "out_ok mem w ms \<Longrightarrow> length (out_bytes_of mem w) = length (wiov_pending w)"
  using out_bytes[of mem w ms] by (simp add: out_bytes_of_def)

subsection \<open>The operations\<close>

lemma out_add_ok:
  assumes ok: "out_ok mem w ms" and f: "\<not> wiov_isfull w"
    and m: "mem a = Some (rtmq_head_bytes h @ body)" "hd_chksum h = RTMQ_CHKSUM_VAL" "length body = unat (hd_length h)"
    and conv: "conv (20 + ucast (hd_length h)) = 20 + ucast (hd_length h)" and a: "a \<notin> set (out_blks w)"
  shows "\<exists>w'. rtmq_out_add conv param mem w a = Some (mem(a \<mapsto> rtmq_wire (h, body)), w') \<and>
     out_ok (mem(a \<mapsto> rtmq_wire (h, body))) w' (ms @ [(h, body)]) \<and> out_blks w' = out_blks w @ [a] \<and>
     iov_max w' = iov_max w \<and>
     out_bytes_of (mem(a \<mapsto> rtmq_wire (h, body))) w' = out_bytes_of mem w @ rtmq_wire (h, body)"
proof -
  let ?mem = "mem(a \<mapsto> rtmq_wire (h, body))"
  let ?len = "20 + length body"
  let ?og = "\<lparr>og_addr = unat a, og_len = ?len, og_param = param, og_succ = Some 0, og_fail = Some 0\<rparr>"
  note O = out_okD[OF ok]
  have ld: "rtmq_head_load (rtmq_head_bytes h @ body) 0 = Some h" using head_load_bytes[of "[]" h body] by simp
  have st: "rtmq_head_store (rtmq_head_bytes h @ body) 0 (RTMQ_HEAD_HTON h) = Some (rtmq_wire (h, body))"
    using head_store_bytes[of "[]" 0 "rtmq_head_bytes h" body "RTMQ_HEAD_HTON h"] by (simp add: rtmq_wire_def)
  have len: "unat (20 + ucast (hd_length h) :: u64) = ?len"
  proof -
    have "unat (hd_length h) < 2 ^ 32" using unsigned_less[of "hd_length h", where ?'a = nat] by simp
    then show ?thesis using m(3) by (simp add: unat_word_ariths unsigned_ucast_eq take_bit_nat_eq_self)
  qed
  obtain w' where w': "wiov_item_add w (unat a) ?len param (Some 0) (Some 0) = Some w'" "wiov_ok w'"
      "iov_max w' = iov_max w" "wiov_items w' = wiov_items w @ [?og]"
      "wiov_pending w' = wiov_pending w @ [unat a ..< unat a + ?len]"
    using wiov_add_ok[OF O(1) f, of "Some 0" "Some 0" "unat a" ?len param] by auto
  have run: "rtmq_out_add conv param mem w a = Some (?mem, w')"
    using m ld st conv len w'(1) by (simp add: rtmq_out_add_def)
  have blks: "out_blks w' = out_blks w @ [a]" using w'(4) by (simp add: out_blks_def)
  have og: "og_is ?mem ?og (h, body)" by (simp add: og_is_def)
  have "list_all2 (og_is ?mem) (wiov_items w) ms"
    by (rule out_okD(2)[OF out_ok_frame[OF ok]]) (use a in auto)
  then have l2: "list_all2 (og_is ?mem) (wiov_items w') (ms @ [(h, body)])"
    using w'(4) og by (simp add: list_all2_appendI)
  have add: "w' = w\<lparr>wi_iov := (wi_iov w)[iov_cnt w := \<lparr>iov_base = unat a, iov_len = ?len\<rparr>],
      wi_orig := (wi_orig w)[iov_cnt w := ?og], iov_cnt := iov_cnt w + 1\<rparr>"
    using w'(1) by (auto simp: wiov_item_add_def split: if_splits)
  have c: "iov_idx w \<le> iov_cnt w" "iov_cnt w < length (wi_iov w)"
    using O(1) f by (auto simp: wiov_ok_def wiov_isfull_def)
  have hd: "0 < iov_len (hd (wiov_item_begin w'))"
  proof (cases "wiov_items w = []")
    case True
    then have "iov_cnt w = 0" using ok by (simp add: out_ok_def wiov_isempty_def)
    then show ?thesis using c by (simp add: add wiov_item_begin_def hd_conv_nth)
  next
    case False
    then have "iov_idx w < iov_cnt w" using c O(1) by (auto simp: wiov_items_def wiov_ok_def)
    moreover have "0 < iov_len (hd (wiov_item_begin w))" using ok False by (simp add: out_ok_def)
    ultimately show ?thesis using c by (simp add: add wiov_item_begin_def hd_drop_conv_nth)
  qed
  have ok': "out_ok ?mem w' (ms @ [(h, body)])"
    using w'(2,4) l2 hd by (simp add: out_ok_def wiov_isempty_def add)
  have "out_bytes_of ?mem w' = out_bytes_of mem w @ rtmq_wire (h, body)"
    using out_bytes[OF ok] out_bytes[OF ok'] w'(5) by (simp add: out_bytes_of_def rtmq_stream_append)
  then show ?thesis using run ok' blks w'(3) by blast
qed

lemma out_sent_ok:
  assumes ok: "out_ok mem w ms" and n: "n \<le> length (out_bytes_of mem w)"
  shows "\<exists>k w' calls. wiov_item_adjust w n = Some (0, w', calls) \<and> io_blocks calls = take k (out_blks w) \<and>
     out_ok mem w' (drop k ms) \<and> out_blks w' = drop k (out_blks w) \<and> iov_max w' = iov_max w \<and>
     out_bytes_of mem w' = drop n (out_bytes_of mem w)"
proof -
  note O = out_okD[OF ok]
  have n': "n \<le> length (wiov_pending w)" using n out_bytes_length[OF ok] by simp
  from wiov_adjust_ok[OF O(1) n'] obtain k w' where w':
    "wiov_item_adjust w n = Some (0, w', map (io_call_of og_succ) (take k (wiov_items w)))" "wiov_ok w'"
    "iov_max w' = iov_max w" "wiov_items w' = drop k (wiov_items w)" "wiov_pending w' = drop n (wiov_pending w)"
    "wiov_items w' \<noteq> [] \<longrightarrow> 0 < iov_len (hd (wiov_item_begin w'))" "wiov_isempty w' \<longleftrightarrow> wiov_items w' = []" by blast
  have ok': "out_ok mem w' (drop k ms)" using O(2) w' by (simp add: out_ok_def list_all2_dropI)
  have blk: "out_blks w' = drop k (out_blks w)" by (simp add: out_blks_def w'(4) drop_map)
  have calls: "io_blocks (map (io_call_of og_succ) (take k (wiov_items w))) = take k (out_blks w)"
    by (simp add: io_blocks_def io_call_of_def out_blks_def take_map)
  have s: "rtmq_stream ms = rtmq_stream (take k ms) @ rtmq_stream (drop k ms)"
    by (metis append_take_drop_id rtmq_stream_append)
  let ?P = "length (wiov_pending w)" let ?T = "length (rtmq_stream (take k ms))" let ?D = "length (rtmq_stream (drop k ms))"
  have p': "length (wiov_pending w') = ?P - n" using w'(5) by simp
  have le: "?P - n \<le> ?D" using out_bytes(2)[OF ok'] p' by simp
  have "out_bytes_of mem w' = drop (?D - (?P - n)) (rtmq_stream (drop k ms))"
    using out_bytes(1)[OF ok'] p' by (simp add: out_bytes_of_def)
  also have "\<dots> = drop (?T + (?D - (?P - n))) (rtmq_stream ms)" unfolding s by simp
  also have "?T + (?D - (?P - n)) = n + (length (rtmq_stream ms) - ?P)"
    using le out_bytes(2)[OF ok] n' unfolding s length_append by simp
  also have "drop \<dots> (rtmq_stream ms) = drop n (out_bytes_of mem w)"
    using out_bytes(1)[OF ok] by (simp add: out_bytes_of_def)
  finally show ?thesis using w'(1,3) calls ok' blk by blast
qed

lemma out_clean_ok:
  assumes ok: "out_ok mem w ms"
  shows "\<exists>w' calls. wiov_clean w = Some (w', calls) \<and> wiov_destroy w = Some calls \<and> io_blocks calls = out_blks w \<and>
     out_ok mem' w' [] \<and> out_blks w' = [] \<and> iov_max w' = iov_max w"
proof -
  from wiov_clean_ok[OF out_okD(1)[OF ok]] obtain w' where w':
    "wiov_clean w = Some (w', map (io_call_of og_fail) (wiov_items w))" "wiov_ok w'" "wiov_isempty w'"
    "iov_max w' = iov_max w" "wiov_items w' = []" by blast
  then show ?thesis
    by (intro exI[of _ w'] exI[of _ "map (io_call_of og_fail) (wiov_items w)"])
      (auto simp: wiov_destroy_def out_ok_def out_blks_def io_blocks_def io_call_of_def)
qed

end
