(* ===== verification/Rtmq_Server.thy ===== *)
theory Rtmq_Server
  imports Rtmq_Out Rtmq_Sub
begin

text \<open>
  The sending side of the message queue server: \<open>rtmq_async_send\<close> (\<open>src/clang/lib/rtmq/server/rtmq_recv.c\<close>) puts
  a message into a distribution queue, the distributor (\<open>rtmq_dist.c\<close>) hands it to a receiving thread that has a
  connection to the node, that thread (\<open>rtmq_rsvr.c\<close>) to one of its connections, and writes it when the socket is
  ready; the connections of a thread from their creation to their end, and the events of a thread.
\<close>

subsection \<open>State\<close>

definition RTMQ_ERR_RECV_CMD :: int where "RTMQ_ERR_RECV_CMD = - (2 ^ 31) + 6"
definition RTMQ_ERR_UNKNOWN_CMD :: int where "RTMQ_ERR_UNKNOWN_CMD = - (2 ^ 31) + 9"
definition RTMQ_CMD_ADD_SCK :: int where "RTMQ_CMD_ADD_SCK = 9"
definition RTMQ_CMD_DIST_REQ :: int where "RTMQ_CMD_DIST_REQ = 10"
definition RTMQ_CONNQ_LEN :: u32 where "RTMQ_CONNQ_LEN = 8192"
definition RTRD_POP_MAX_NUM :: u32 where "RTRD_POP_MAX_NUM = 1024"
definition RTRD_DISP_POP_NUM :: u32 where "RTRD_DISP_POP_NUM = 1024"

text \<open>The rest of \<open>rtmq_sck_t\<close>: descriptor, session, times, the subscriptions (\<open>None\<close> is \<open>NULL\<close>), the send buffer; and
  the bytes that \<open>writev\<close> has taken.\<close>

record rtmq_conn =
  cn_fd :: int
  cn_sid :: u64
  cn_ctm :: int
  cn_rdtm :: int
  cn_wrtm :: int
  cn_sck :: rtmq_sck
  cn_subs :: "u32 avl_tree option"
  cn_send :: wiov
  cn_out :: "u8 list"

text \<open>A receiving thread with its time and its list of connections; a connection that was freed but is still in the
  list is \<^const>\<open>None\<close>.\<close>

record rtmq_thread =
  th_rsvr :: rtmq_rsvr
  th_ctm :: int
  th_conns :: "rtmq_conn option list"
  th_connections :: u32

text \<open>The server: context, subscriptions, queues, the connections that were accepted (descriptor and session), the
  counter of sessions, the capacity of the send queues; and the commands written to the pipes: how many to the
  distributor, and to which receiving threads.\<close>

record rtmq_server =
  sv_ctx :: rtmq_cntx
  sv_subs :: rtmq_subs
  sv_distq :: "ring list"
  sv_sendq :: "ring list"
  sv_connq :: "queue list"
  sv_items :: "addr \<rightharpoonup> int \<times> u64"
  sv_sid :: u64
  sv_send_max :: int
  sv_dist_cmds :: nat
  sv_recv_cmds :: "(nat \<times> int) list"

text \<open>Rings hold addresses of blocks.\<close>

definition blk_addr :: "u64 \<Rightarrow> addr" where "blk_addr a = Loc (unat a)"

fun addr_blk :: "addr \<Rightarrow> u64" where
  "addr_blk NULL = 0"
| "addr_blk (Loc n) = of_nat n"

definition srv_alloc :: "rtmq_server \<Rightarrow> bool \<times> rtmq_server" where
  "srv_alloc sv = (let (a, al) = alloc_take (cx_allocs (sv_ctx sv)) in (a, sv\<lparr>sv_ctx := (sv_ctx sv)\<lparr>cx_allocs := al\<rparr>\<rparr>))"

definition srv_rand :: "rtmq_server \<Rightarrow> nat \<times> rtmq_server" where
  "srv_rand sv = (let (r, ctx) = rtmq_rand (sv_ctx sv) in (r, sv\<lparr>sv_ctx := ctx\<rparr>))"

definition srv_dec :: "rtmq_server \<Rightarrow> u64 \<Rightarrow> rtmq_server option" where
  "srv_dec sv a = do { ctx \<leftarrow> rtmq_block_dec (sv_ctx sv) a; Some (sv\<lparr>sv_ctx := ctx\<rparr>) }"

fun srv_decs :: "rtmq_server \<Rightarrow> u64 list \<Rightarrow> rtmq_server option" where
  "srv_decs sv [] = Some sv"
| "srv_decs sv (a # as) = do { sv \<leftarrow> srv_dec sv a; srv_decs sv as }"

definition srv_check :: "rtmq_server \<Rightarrow> u64 \<Rightarrow> rtmq_server option" where
  "srv_check sv a = do {
     (_, mf) \<leftarrow> mref_check (cx_mref (sv_ctx sv)) a;
     Some (sv\<lparr>sv_ctx := (sv_ctx sv)\<lparr>cx_mref := mf\<rparr>\<rparr>) }"

subsection \<open>Sending (\<open>rtmq_recv.c\<close>)\<close>

definition rtmq_cmd_send_dist_req :: "rtmq_server \<Rightarrow> rtmq_server" where
  "rtmq_cmd_send_dist_req sv = sv\<lparr>sv_dist_cmds := sv_dist_cmds sv + 1\<rparr>"

definition rtmq_async_send :: "rtmq_server \<Rightarrow> int \<Rightarrow> int \<Rightarrow> u8 list \<Rightarrow> (int \<times> rtmq_server) option" where
  "rtmq_async_send sv type dest body =
     (if sv_distq sv = [] then None
      else let (r, sv) = srv_rand sv; idx = r mod length (sv_distq sv) in do {
        (a, ctx) \<leftarrow> rtmq_block_alloc (sv_ctx sv) (20 + length body);
        let sv = sv\<lparr>sv_ctx := ctx\<rparr>;
        if a = 0 then Some (RTMQ_ERR, sv)
        else do {
          let head = \<lparr>hd_type = of_int type, hd_nid = of_int dest, hd_flag = RTMQ_EXP_MESG,
            hd_length = of_nat (length body), hd_chksum = RTMQ_CHKSUM_VAL\<rparr>;
          let sv = sv\<lparr>sv_ctx := ctx\<lparr>cx_mem := (cx_mem ctx)(a \<mapsto> rtmq_head_bytes head @ body)\<rparr>\<rparr>;
          (ret, rq) \<leftarrow> ring_push (sv_distq sv ! idx) (blk_addr a);
          let sv = sv\<lparr>sv_distq := (sv_distq sv)[idx := rq]\<rparr>;
          if ret \<noteq> 0 then do { sv \<leftarrow> srv_dec sv a; Some (RTMQ_ERR, sv) }
          else Some (RTMQ_OK, rtmq_cmd_send_dist_req sv) } })"

subsection \<open>Distribution (\<open>rtmq_dist.c\<close>)\<close>

definition rtmq_dsvr_cmd_dist_req :: "rtmq_server \<Rightarrow> nat \<Rightarrow> rtmq_server" where
  "rtmq_dsvr_cmd_dist_req sv idx = sv\<lparr>sv_recv_cmds := sv_recv_cmds sv @ [(idx, RTMQ_CMD_DIST_REQ)]\<rparr>"

text \<open>Body of the inner loop of \<open>rtmq_dsvr_dist_data_hdl\<close>.\<close>

definition rtmq_dsvr_dist_one :: "addr \<Rightarrow> rtmq_server \<Rightarrow> rtmq_server option" where
  "rtmq_dsvr_dist_one p sv = do {
     let a = addr_blk p;
     mem \<leftarrow> cx_mem (sv_ctx sv) a;
     head \<leftarrow> rtmq_head_load mem 0;
     (idx, ctx) \<leftarrow> rtmq_node_to_svr_map_rand (sv_ctx sv) (sint (hd_nid head));
     let sv = sv\<lparr>sv_ctx := ctx\<rparr>;
     if idx < 0 then srv_dec sv a
     else do {
       sq \<leftarrow> (if nat idx < length (sv_sendq sv) then Some (sv_sendq sv ! nat idx) else None);
       (ret, sq) \<leftarrow> ring_push sq p;
       let sv = sv\<lparr>sv_sendq := (sv_sendq sv)[nat idx := sq]\<rparr>;
       if ret \<noteq> 0 then srv_dec sv a
       else Some (rtmq_dsvr_cmd_dist_req sv (nat idx)) } }"

fun rtmq_dsvr_dist_items :: "addr list \<Rightarrow> rtmq_server \<Rightarrow> rtmq_server option" where
  "rtmq_dsvr_dist_items [] sv = Some sv"
| "rtmq_dsvr_dist_items (p # ps) sv = do { sv \<leftarrow> rtmq_dsvr_dist_one p sv; rtmq_dsvr_dist_items ps sv }"

definition rtmq_dsvr_dist_queue :: "nat \<Rightarrow> rtmq_server \<Rightarrow> rtmq_server option" where
  "rtmq_dsvr_dist_queue d sv = do {
     let num = min (ring_used (sv_distq sv ! d)) RTRD_DISP_POP_NUM;
     if num = 0 then Some sv
     else do {
       (num, data, rq) \<leftarrow> ring_mpop (sv_distq sv ! d) num;
       let sv = sv\<lparr>sv_distq := (sv_distq sv)[d := rq]\<rparr>;
       if num = 0 then Some sv
       else rtmq_dsvr_dist_items data sv } }"

fun rtmq_dsvr_dist_queues :: "nat list \<Rightarrow> rtmq_server \<Rightarrow> rtmq_server option" where
  "rtmq_dsvr_dist_queues [] sv = Some sv"
| "rtmq_dsvr_dist_queues (d # ds) sv = do { sv \<leftarrow> rtmq_dsvr_dist_queue d sv; rtmq_dsvr_dist_queues ds sv }"

definition rtmq_dsvr_dist_data_hdl :: "rtmq_server \<Rightarrow> (int \<times> rtmq_server) option" where
  "rtmq_dsvr_dist_data_hdl sv = do {
     sv \<leftarrow> rtmq_dsvr_dist_queues [0..<length (sv_distq sv)] sv;
     Some (RTMQ_OK, sv) }"

text \<open>A command is its type, or \<^const>\<open>None\<close> when it cannot be read.\<close>

definition rtmq_dsvr_cmd_recv_and_proc :: "int option \<Rightarrow> rtmq_server \<Rightarrow> (int \<times> rtmq_server) option" where
  "rtmq_dsvr_cmd_recv_and_proc cmd sv =
     (case cmd of
        None \<Rightarrow> Some (RTMQ_ERR, sv)
      | Some type \<Rightarrow> if type = RTMQ_CMD_DIST_REQ then rtmq_dsvr_dist_data_hdl sv else Some (RTMQ_ERR, sv))"

subsection \<open>Accepting (\<open>rtmq_lsn.c\<close>)\<close>

definition rtmq_add_sck_notify :: "rtmq_server \<Rightarrow> nat \<Rightarrow> rtmq_server" where
  "rtmq_add_sck_notify sv idx = sv\<lparr>sv_recv_cmds := sv_recv_cmds sv @ [(idx, RTMQ_CMD_ADD_SCK)]\<rparr>"

text \<open>What \<open>rtmq_lsn_accept\<close> does with the descriptor that \<open>accept\<close> returned; a negative one is an error.\<close>

definition rtmq_lsn_accept :: "rtmq_server \<Rightarrow> int \<Rightarrow> (int \<times> rtmq_server) option" where
  "rtmq_lsn_accept sv fd =
     (if fd < 0 then Some (RTMQ_ERR, sv)
      else if sv_connq sv = [] then None
      else let idx = unat (sv_sid sv) mod length (sv_connq sv) in do {
        (p, q) \<leftarrow> queue_malloc (sv_connq sv ! idx) 64;
        let sv = sv\<lparr>sv_connq := (sv_connq sv)[idx := q]\<rparr>;
        if p = NULL then Some (RTMQ_ERR, rtmq_add_sck_notify sv idx)
        else do {
          (_, q) \<leftarrow> queue_push q p;
          Some (RTMQ_OK, rtmq_add_sck_notify (sv\<lparr>sv_sid := sv_sid sv + 1,
            sv_items := (sv_items sv)(p \<mapsto> (fd, sv_sid sv + 1)), sv_connq := (sv_connq sv)[idx := q]\<rparr>) idx) } })"

subsection \<open>Connections (\<open>rtmq_rsvr.c\<close>)\<close>

definition conn_at :: "rtmq_thread \<Rightarrow> nat \<Rightarrow> rtmq_conn option" where
  "conn_at th i = (if i < length (th_conns th) then th_conns th ! i else None)"

definition conn_set :: "rtmq_thread \<Rightarrow> nat \<Rightarrow> rtmq_conn \<Rightarrow> rtmq_thread" where
  "conn_set th i c = th\<lparr>th_conns := (th_conns th)[i := Some c]\<rparr>"

definition rtmq_rsvr_sck_free :: "rtmq_server \<Rightarrow> rtmq_conn \<Rightarrow> rtmq_server option" where
  "rtmq_rsvr_sck_free sv c = do {
     sv \<leftarrow> srv_dec sv (sn_base (sk_recv (cn_sck c)));
     subs \<leftarrow> (case cn_subs c of
         None \<Rightarrow> Some (sv_subs sv)
       | Some T \<Rightarrow> rtmq_rsvr_sck_sub_free (sv_subs sv) (sk_gid (cn_sck c)) (cn_sid c) T);
     sv \<leftarrow> srv_decs (sv\<lparr>sv_subs := subs\<rparr>) (sk_mesg_list (cn_sck c));
     calls \<leftarrow> wiov_destroy (cn_send c);
     srv_decs sv (io_blocks calls) }"

text \<open>The connection at place \<open>i\<close> of the list.\<close>

definition rtmq_rsvr_del_conn_hdl :: "rtmq_server \<Rightarrow> rtmq_thread \<Rightarrow> nat \<Rightarrow> (rtmq_server \<times> rtmq_thread) option" where
  "rtmq_rsvr_del_conn_hdl sv th i = do {
     c \<leftarrow> conn_at th i;
     let th = th\<lparr>th_conns := take i (th_conns th) @ drop (i + 1) (th_conns th)\<rparr>;
     let (_, ctx) = rtmq_node_to_svr_map_del (sv_ctx sv) (sint (sk_nid (cn_sck c))) (int (rv_id (th_rsvr th)));
     sv \<leftarrow> rtmq_rsvr_sck_free (sv\<lparr>sv_ctx := ctx\<rparr>) c;
     Some (sv, th\<lparr>th_connections := th_connections th - 1\<rparr>) }"

text \<open>The first connection goes as long as there is one.\<close>

fun rtmq_rsvr_del_conns :: "nat \<Rightarrow> rtmq_server \<Rightarrow> rtmq_thread \<Rightarrow> (rtmq_server \<times> rtmq_thread) option" where
  "rtmq_rsvr_del_conns 0 sv th = Some (sv, th)"
| "rtmq_rsvr_del_conns (Suc n) sv th = do {
     (sv, th) \<leftarrow> rtmq_rsvr_del_conn_hdl sv th 0;
     rtmq_rsvr_del_conns n sv th }"

definition rtmq_rsvr_del_all_conn_hdl :: "rtmq_server \<Rightarrow> rtmq_thread \<Rightarrow> (rtmq_server \<times> rtmq_thread) option" where
  "rtmq_rsvr_del_all_conn_hdl sv th = do {
     (sv, th) \<leftarrow> rtmq_rsvr_del_conns (length (th_conns th)) sv th;
     Some (sv, th\<lparr>th_connections := 0\<rparr>) }"

text \<open>A connection as \<open>calloc\<close> leaves it; and its creation, which frees what it has when something fails.\<close>

definition wiov_zero :: wiov where
  "wiov_zero = \<lparr>iov_max = 0, iov_cnt = 0, iov_idx = 0, wi_orig = [], wi_iov = []\<rparr>"

definition conn_new :: "int \<Rightarrow> int \<Rightarrow> u64 \<Rightarrow> rtmq_conn" where
  "conn_new now fd sid = \<lparr>cn_fd = fd, cn_sid = sid, cn_ctm = now, cn_rdtm = now, cn_wrtm = now,
     cn_sck = \<lparr>sk_nid = - 1, sk_gid = 0, sk_auth_succ = False,
       sk_recv = \<lparr>sn_base = 0, sn_end = 0, sn_optr = 0, sn_iptr = 0\<rparr>, sk_mesg_list = []\<rparr>,
     cn_subs = None, cn_send = wiov_zero, cn_out = []\<rparr>"

definition rtmq_rsvr_sck_creat :: "int \<Rightarrow> rtmq_server \<Rightarrow> int \<times> u64 \<Rightarrow> (rtmq_conn option \<times> rtmq_server) option" where
  "rtmq_rsvr_sck_creat now sv item =
     (let (a, sv) = srv_alloc sv in
      if \<not> a then Some (None, sv)
      else
        let c = conn_new now (fst item) (snd item);
            (T, al) = avl_creat rtmq_sub_list_cmp_cb (cx_allocs (sv_ctx sv));
            sv = sv\<lparr>sv_ctx := (sv_ctx sv)\<lparr>cx_allocs := al\<rparr>\<rparr>;
            fail = (\<lambda>c sv. do { sv \<leftarrow> rtmq_rsvr_sck_free sv c; Some (None, sv) }) in
        if T = None then fail c sv
        else let c = c\<lparr>cn_subs := T\<rparr>; (a, sv) = srv_alloc sv in
          if \<not> a then fail c sv
          else do {
            (ret, ctx, sck) \<leftarrow> rtmq_rsvr_alloc_recv_buff (sv_ctx sv) (cn_sck c);
            let sv = sv\<lparr>sv_ctx := ctx\<rparr>;
            let c = c\<lparr>cn_sck := sck\<rparr>;
            if ret \<noteq> RTMQ_OK then fail c sv else Some (Some c, sv) })"

definition srv_item_dealloc :: "rtmq_server \<Rightarrow> nat \<Rightarrow> addr \<Rightarrow> rtmq_server option" where
  "srv_item_dealloc sv t p = do {
     q \<leftarrow> queue_dealloc (sv_connq sv ! t) p;
     Some (sv\<lparr>sv_connq := (sv_connq sv)[t := q]\<rparr>) }"

text \<open>Body of the inner loop of \<open>rtmq_rsvr_add_conn_hdl\<close>.  When the send buffer cannot be made the connection is
  freed, but it stays in the list.\<close>

definition rtmq_rsvr_add_conn :: "int \<Rightarrow> rtmq_server \<Rightarrow> rtmq_thread \<Rightarrow> addr \<Rightarrow> (rtmq_server \<times> rtmq_thread) option" where
  "rtmq_rsvr_add_conn now sv th p = do {
     let t = rv_id (th_rsvr th);
     item \<leftarrow> sv_items sv p;
     (c, sv) \<leftarrow> rtmq_rsvr_sck_creat now sv item;
     case c of
       None \<Rightarrow> do { sv \<leftarrow> srv_item_dealloc sv t p; Some (sv, th) }
     | Some c \<Rightarrow> (let (a, sv) = srv_alloc sv in
         if \<not> a then do { sv \<leftarrow> rtmq_rsvr_sck_free sv c; sv \<leftarrow> srv_item_dealloc sv t p; Some (sv, th) }
         else
           let (ret, w, al) = wiov_init (2 * sv_send_max sv) (cx_allocs (sv_ctx sv));
               sv = sv\<lparr>sv_ctx := (sv_ctx sv)\<lparr>cx_allocs := al\<rparr>\<rparr> in
           if ret \<noteq> 0 then do {
             sv \<leftarrow> rtmq_rsvr_sck_free sv c;
             sv \<leftarrow> srv_item_dealloc sv t p;
             Some (sv, th\<lparr>th_conns := th_conns th @ [None]\<rparr>) }
           else do {
             w \<leftarrow> w;
             sv \<leftarrow> srv_item_dealloc sv t p;
             Some (sv, th\<lparr>th_conns := th_conns th @ [Some (c\<lparr>cn_send := w\<rparr>)],
               th_connections := th_connections th + 1\<rparr>) }) }"

fun rtmq_rsvr_add_conns ::
    "int \<Rightarrow> addr list \<Rightarrow> rtmq_server \<Rightarrow> rtmq_thread \<Rightarrow> (rtmq_server \<times> rtmq_thread) option" where
  "rtmq_rsvr_add_conns now [] sv th = Some (sv, th)"
| "rtmq_rsvr_add_conns now (p # ps) sv th = do {
     (sv, th) \<leftarrow> rtmq_rsvr_add_conn now sv th p;
     rtmq_rsvr_add_conns now ps sv th }"

partial_function (option) rtmq_rsvr_add_conn_hdl ::
    "int \<Rightarrow> rtmq_server \<Rightarrow> rtmq_thread \<Rightarrow> (int \<times> rtmq_server \<times> rtmq_thread) option" where
  "rtmq_rsvr_add_conn_hdl now sv th = do {
     let t = rv_id (th_rsvr th);
     q \<leftarrow> (if t < length (sv_connq sv) then Some (sv_connq sv ! t) else None);
     let num = min (queue_used q) RTMQ_CONNQ_LEN;
     if num = 0 then Some (RTMQ_OK, sv, th)
     else do {
       (num, items, rq) \<leftarrow> ring_mpop (qu_ring q) num;
       let sv = sv\<lparr>sv_connq := (sv_connq sv)[t := q\<lparr>qu_ring := rq\<rparr>]\<rparr>;
       if num = 0 then rtmq_rsvr_add_conn_hdl now sv th
       else do {
         (sv, th) \<leftarrow> rtmq_rsvr_add_conns now items sv th;
         rtmq_rsvr_add_conn_hdl now sv th } } }"

subsection \<open>Giving messages to connections\<close>

text \<open>\<open>rtmq_rsvr_get_conn_list_by_nodeid\<close> over the list of connections; \<open>cl\<close> collects their places, and each takes an
  allocation, whose failure is ignored.\<close>

fun rtmq_rsvr_get_conn_list_by_nodeid ::
    "u32 \<Rightarrow> rtmq_conn option list \<Rightarrow> nat \<Rightarrow> nat list \<Rightarrow> allocs \<Rightarrow> (nat list \<times> allocs) option" where
  "rtmq_rsvr_get_conn_list_by_nodeid nid [] i cl al = Some (cl, al)"
| "rtmq_rsvr_get_conn_list_by_nodeid nid (c # cs) i cl al = do {
     c \<leftarrow> c;
     if sk_nid (cn_sck c) \<noteq> nid then rtmq_rsvr_get_conn_list_by_nodeid nid cs (i + 1) cl al
     else let (a, al) = alloc_take al in
       rtmq_rsvr_get_conn_list_by_nodeid nid cs (i + 1) (if a then cl @ [i] else cl) al }"

definition conn_push :: "rtmq_conn \<Rightarrow> u64 \<Rightarrow> rtmq_conn" where
  "conn_push c a = c\<lparr>cn_sck := (cn_sck c)\<lparr>sk_mesg_list := sk_mesg_list (cn_sck c) @ [a]\<rparr>\<rparr>"

text \<open>Body of the inner loop of \<open>rtmq_rsvr_dist_data\<close>.\<close>

definition rtmq_rsvr_dist_one :: "addr \<Rightarrow> rtmq_server \<Rightarrow> rtmq_thread \<Rightarrow> (rtmq_server \<times> rtmq_thread) option" where
  "rtmq_rsvr_dist_one p sv th = do {
     let a = addr_blk p;
     let lose = (\<lambda>sv. do { sv \<leftarrow> srv_dec sv a; Some (sv, th) });
     sv \<leftarrow> srv_check sv a;
     mem \<leftarrow> cx_mem (sv_ctx sv) a;
     head \<leftarrow> rtmq_head_load mem 0;
     let (ok, sv) = srv_alloc sv;
     if \<not> ok then lose sv
     else do {
       (cl, al) \<leftarrow> rtmq_rsvr_get_conn_list_by_nodeid (hd_nid head) (th_conns th) 0 [] (cx_allocs (sv_ctx sv));
       let sv = sv\<lparr>sv_ctx := (sv_ctx sv)\<lparr>cx_allocs := al\<rparr>\<rparr>;
       if cl = [] then lose sv
       else let (r, sv) = srv_rand sv; i = cl ! (r mod length cl) in do {
         c \<leftarrow> conn_at th i;
         let (ok, sv) = srv_alloc sv;
         if \<not> ok then lose sv
         else Some (sv, conn_set th i (conn_push c a)) } } }"

fun rtmq_rsvr_dist_items ::
    "addr list \<Rightarrow> rtmq_server \<Rightarrow> rtmq_thread \<Rightarrow> (rtmq_server \<times> rtmq_thread) option" where
  "rtmq_rsvr_dist_items [] sv th = Some (sv, th)"
| "rtmq_rsvr_dist_items (p # ps) sv th = do {
     (sv, th) \<leftarrow> rtmq_rsvr_dist_one p sv th;
     rtmq_rsvr_dist_items ps sv th }"

partial_function (option) rtmq_rsvr_dist_data ::
    "rtmq_server \<Rightarrow> rtmq_thread \<Rightarrow> (int \<times> rtmq_server \<times> rtmq_thread) option" where
  "rtmq_rsvr_dist_data sv th = do {
     let t = rv_id (th_rsvr th);
     sq \<leftarrow> (if t < length (sv_sendq sv) then Some (sv_sendq sv ! t) else None);
     let num = min (ring_used sq) RTRD_POP_MAX_NUM;
     if num = 0 then Some (RTMQ_OK, sv, th)
     else do {
       (num, data, sq) \<leftarrow> ring_mpop sq num;
       let sv = sv\<lparr>sv_sendq := (sv_sendq sv)[t := sq]\<rparr>;
       if num = 0 then rtmq_rsvr_dist_data sv th
       else do {
         (sv, th) \<leftarrow> rtmq_rsvr_dist_items data sv th;
         rtmq_rsvr_dist_data sv th } } }"

declare rtmq_rsvr_add_conn_hdl.simps [code] rtmq_rsvr_dist_data.simps [code]

subsection \<open>Writing\<close>

text \<open>The loop of \<open>rtmq_rsvr_wiov_add\<close>, with the memory, the list of messages and the buffer.\<close>

fun rtmq_rsvr_wiov_loop ::
    "rtmq_server \<Rightarrow> u64 list \<Rightarrow> wiov \<Rightarrow> (rtmq_server \<times> u64 list \<times> wiov) option" where
  "rtmq_rsvr_wiov_loop sv [] w = Some (sv, [], w)"
| "rtmq_rsvr_wiov_loop sv (a # as) w =
     (if wiov_isfull w then Some (sv, a # as, w)
      else do {
        sv \<leftarrow> srv_check sv a;
        (mem, w) \<leftarrow> rtmq_out_add int_size 0 (cx_mem (sv_ctx sv)) w a;
        rtmq_rsvr_wiov_loop (sv\<lparr>sv_ctx := (sv_ctx sv)\<lparr>cx_mem := mem\<rparr>\<rparr>) as w })"

definition rtmq_rsvr_wiov_add :: "rtmq_server \<Rightarrow> rtmq_conn \<Rightarrow> (rtmq_server \<times> rtmq_conn) option" where
  "rtmq_rsvr_wiov_add sv c = do {
     (sv, ms, w) \<leftarrow> rtmq_rsvr_wiov_loop sv (sk_mesg_list (cn_sck c)) (cn_send c);
     Some (sv, c\<lparr>cn_sck := (cn_sck c)\<lparr>sk_mesg_list := ms\<rparr>, cn_send := w\<rparr>) }"

text \<open>What \<open>rtmq_rsvr_trav_send\<close> does for a connection whose socket is writable: \<open>False\<close> if \<open>writev\<close> fails.\<close>

definition rtmq_rsvr_conn_send ::
    "rtmq_server \<Rightarrow> rtmq_conn \<Rightarrow> writev_out \<Rightarrow> (bool \<times> rtmq_server \<times> rtmq_conn) option" where
  "rtmq_rsvr_conn_send sv c out = do {
     (sv, c) \<leftarrow> (if \<not> wiov_isfull (cn_send c) then rtmq_rsvr_wiov_add sv c else Some (sv, c));
     if wiov_isempty (cn_send c) then Some (True, sv, c)
     else do {
       bs \<leftarrow> wiov_bytes (cx_mem (sv_ctx sv)) (cn_send c);
       case out of
         WvErr \<Rightarrow> Some (False, sv, c)
       | WvDone k \<Rightarrow> (let n = min k (length bs) in do {
           (_, w, calls) \<leftarrow> wiov_item_adjust (cn_send c) n;
           sv \<leftarrow> srv_decs sv (io_blocks calls);
           Some (True, sv, c\<lparr>cn_send := w, cn_out := cn_out c @ take n bs\<rparr>) }) } }"

text \<open>The sockets that are writable, and what \<open>writev\<close> does on them, are given by \<open>wr\<close>; \<open>n\<close> connections from
  place \<open>i\<close> on are left.\<close>

fun rtmq_rsvr_send_loop ::
    "(int \<Rightarrow> writev_out option) \<Rightarrow> nat \<Rightarrow> nat \<Rightarrow> rtmq_server \<Rightarrow> rtmq_thread \<Rightarrow>
     (int \<times> rtmq_server \<times> rtmq_thread) option" where
  "rtmq_rsvr_send_loop wr 0 i sv th = Some (RTMQ_OK, sv, th)"
| "rtmq_rsvr_send_loop wr (Suc n) i sv th = do {
     c \<leftarrow> conn_at th i;
     case wr (cn_fd c) of
       None \<Rightarrow> rtmq_rsvr_send_loop wr n (i + 1) sv th
     | Some out \<Rightarrow> do {
         (ok, sv, c) \<leftarrow> rtmq_rsvr_conn_send sv (c\<lparr>cn_wrtm := th_ctm th\<rparr>) out;
         let th = conn_set th i c;
         if \<not> ok then do { (sv, th) \<leftarrow> rtmq_rsvr_del_conn_hdl sv th i; Some (RTMQ_ERR, sv, th) }
         else rtmq_rsvr_send_loop wr n (i + 1) sv th } }"

definition rtmq_rsvr_trav_send ::
    "int \<Rightarrow> (int \<Rightarrow> writev_out option) \<Rightarrow> rtmq_server \<Rightarrow> rtmq_thread \<Rightarrow> (int \<times> rtmq_server \<times> rtmq_thread) option" where
  "rtmq_rsvr_trav_send now wr sv th =
     rtmq_rsvr_send_loop wr (length (th_conns th)) 0 sv (th\<lparr>th_ctm := now\<rparr>)"

subsection \<open>Reading\<close>

text \<open>\<open>rd\<close> gives what the reads on the readable sockets bring; \<open>sub\<close> is the handler of subscriptions.\<close>

fun rtmq_rsvr_read_loop ::
    "rtmq_hdl \<Rightarrow> (int \<Rightarrow> rtmq_read list option) \<Rightarrow> nat \<Rightarrow> nat \<Rightarrow> rtmq_server \<Rightarrow> rtmq_thread \<Rightarrow>
     (int \<times> rtmq_server \<times> rtmq_thread) option" where
  "rtmq_rsvr_read_loop sub rd 0 i sv th = Some (RTMQ_OK, sv, th)"
| "rtmq_rsvr_read_loop sub rd (Suc n) i sv th = do {
     c \<leftarrow> conn_at th i;
     case rd (cn_fd c) of
       None \<Rightarrow> rtmq_rsvr_read_loop sub rd n (i + 1) sv th
     | Some rds \<Rightarrow> do {
         (ret, ctx, rsvr, sck) \<leftarrow> rtmq_rsvr_recv_proc sub rds (sv_ctx sv) (th_rsvr th) (cn_sck c);
         let sv = sv\<lparr>sv_ctx := ctx\<rparr>;
         let th = conn_set (th\<lparr>th_rsvr := rsvr\<rparr>) i (c\<lparr>cn_rdtm := th_ctm th, cn_sck := sck\<rparr>);
         if ret \<noteq> 0 then do {
           (sv, th) \<leftarrow> rtmq_rsvr_del_conn_hdl sv th i;
           rtmq_rsvr_read_loop sub rd n i sv th }
         else rtmq_rsvr_read_loop sub rd n (i + 1) sv th } }"

definition rtmq_rsvr_trav_recv ::
    "rtmq_hdl \<Rightarrow> int \<Rightarrow> (int \<Rightarrow> rtmq_read list option) \<Rightarrow> rtmq_server \<Rightarrow> rtmq_thread \<Rightarrow>
     (int \<times> rtmq_server \<times> rtmq_thread) option" where
  "rtmq_rsvr_trav_recv sub now rd sv th =
     rtmq_rsvr_read_loop sub rd (length (th_conns th)) 0 sv (th\<lparr>th_ctm := now\<rparr>)"

subsection \<open>Events of a thread\<close>

text \<open>\<open>rtmq_rsvr_set_rdset\<close> closes connections on which nothing was read or written for long; the other
  descriptors are in the result, behind that of the pipe.\<close>

fun rtmq_rsvr_rdset_loop ::
    "nat \<Rightarrow> nat \<Rightarrow> int list \<Rightarrow> rtmq_server \<Rightarrow> rtmq_thread \<Rightarrow> (int list \<times> rtmq_server \<times> rtmq_thread) option" where
  "rtmq_rsvr_rdset_loop 0 i fds sv th = Some (fds, sv, th)"
| "rtmq_rsvr_rdset_loop (Suc n) i fds sv th = do {
     c \<leftarrow> conn_at th i;
     if th_ctm th - cn_rdtm c > 30 \<and> th_ctm th - cn_wrtm c > 30 then do {
       (sv, th) \<leftarrow> rtmq_rsvr_del_conn_hdl sv th i;
       rtmq_rsvr_rdset_loop n i fds sv th }
     else rtmq_rsvr_rdset_loop n (i + 1) (fds @ [cn_fd c]) sv th }"

definition rtmq_rsvr_set_rdset ::
    "int \<Rightarrow> rtmq_server \<Rightarrow> rtmq_thread \<Rightarrow> (int list \<times> rtmq_server \<times> rtmq_thread) option" where
  "rtmq_rsvr_set_rdset cmd_fd sv th = rtmq_rsvr_rdset_loop (length (th_conns th)) 0 [cmd_fd] sv th"

fun rtmq_rsvr_set_wrset :: "rtmq_conn option list \<Rightarrow> int list option" where
  "rtmq_rsvr_set_wrset [] = Some []"
| "rtmq_rsvr_set_wrset (c # cs) = do {
     c \<leftarrow> c;
     fds \<leftarrow> rtmq_rsvr_set_wrset cs;
     Some (if sk_mesg_list (cn_sck c) = [] \<and> wiov_isempty (cn_send c) then fds else cn_fd c # fds) }"

definition rtmq_rsvr_recv_cmd ::
    "int \<Rightarrow> int option \<Rightarrow> rtmq_server \<Rightarrow> rtmq_thread \<Rightarrow> (int \<times> rtmq_server \<times> rtmq_thread) option" where
  "rtmq_rsvr_recv_cmd now cmd sv th =
     (case cmd of
        None \<Rightarrow> Some (RTMQ_ERR_RECV_CMD, sv, th)
      | Some type \<Rightarrow>
          if type = RTMQ_CMD_ADD_SCK then rtmq_rsvr_add_conn_hdl now sv th
          else if type = RTMQ_CMD_DIST_REQ then rtmq_rsvr_dist_data sv th
          else Some (RTMQ_ERR_UNKNOWN_CMD, sv, th))"

text \<open>\<open>cmd\<close> is \<^const>\<open>None\<close> when nothing is in the pipe.\<close>

definition rtmq_rsvr_event_core_hdl ::
    "rtmq_hdl \<Rightarrow> int \<Rightarrow> int option option \<Rightarrow> (int \<Rightarrow> rtmq_read list option) \<Rightarrow> (int \<Rightarrow> writev_out option) \<Rightarrow>
     rtmq_server \<Rightarrow> rtmq_thread \<Rightarrow> (int \<times> rtmq_server \<times> rtmq_thread) option" where
  "rtmq_rsvr_event_core_hdl sub now cmd rd wr sv th = do {
     (_, sv, th) \<leftarrow> (case cmd of None \<Rightarrow> Some (RTMQ_OK, sv, th) | Some cmd \<Rightarrow> rtmq_rsvr_recv_cmd now cmd sv th);
     (_, sv, th) \<leftarrow> rtmq_rsvr_trav_recv sub now rd sv th;
     (_, sv, th) \<leftarrow> rtmq_rsvr_trav_send now wr sv th;
     Some (RTMQ_OK, sv, th) }"

text \<open>When nothing happens for a second.  The buffer of a connection that is closed is released here and once more
  by \<open>rtmq_rsvr_sck_free\<close>.\<close>

fun rtmq_rsvr_timeout_loop ::
    "nat \<Rightarrow> nat \<Rightarrow> rtmq_server \<Rightarrow> rtmq_thread \<Rightarrow> (rtmq_server \<times> rtmq_thread) option" where
  "rtmq_rsvr_timeout_loop 0 i sv th = Some (sv, th)"
| "rtmq_rsvr_timeout_loop (Suc n) i sv th = do {
     c \<leftarrow> conn_at th i;
     if th_ctm th - cn_rdtm c \<ge> 60 then do {
       sv \<leftarrow> srv_dec sv (sn_base (sk_recv (cn_sck c)));
       (sv, th) \<leftarrow> rtmq_rsvr_del_conn_hdl sv th i;
       rtmq_rsvr_timeout_loop n i sv th }
     else rtmq_rsvr_timeout_loop n (i + 1) sv th }"

definition rtmq_rsvr_event_timeout_hdl ::
    "int \<Rightarrow> rtmq_server \<Rightarrow> rtmq_thread \<Rightarrow> (int \<times> rtmq_server \<times> rtmq_thread) option" where
  "rtmq_rsvr_event_timeout_hdl now sv th = do {
     let th = th\<lparr>th_ctm := now\<rparr>;
     if th_conns th = [] then Some (RTMQ_OK, sv, th)
     else do {
       (sv, th) \<leftarrow> rtmq_rsvr_timeout_loop (length (th_conns th)) 0 sv th;
       Some (RTMQ_OK, sv\<lparr>sv_ctx := rtmq_rsvr_cmd_proc_all_req (sv_ctx sv)\<rparr>, th) } }"

end
