(* ===== verification/Rtmq_Own.thy ===== *)
theory Rtmq_Own
  imports Rtmq_Server Rtmq_Inv
begin

text \<open>
  Who owns the blocks of the messages that are on their way out.  A message lies in a block that is counted once,
  by the queue, the list or the send buffer that holds it; \<open>M\<close> are these blocks, \<open>B\<close> the receive buffers of the
  connections, \<open>ext\<close> the references of others.  The operations on blocks, on a connection and its end keep the account.
\<close>

subsection \<open>The account\<close>

definition own_ok :: "(u64 \<Rightarrow> nat) \<Rightarrow> rtmq_cntx \<Rightarrow> u64 multiset \<Rightarrow> u64 multiset \<Rightarrow> bool" where
  "own_ok ext ctx M B \<longleftrightarrow> blocks_ok ctx \<and> (\<forall>b. mref_count (cx_mref ctx) b = ext b + count M b + count B b) \<and>
     (\<forall>a. a \<in># M \<longrightarrow> ext a = 0 \<and> count M a = 1 \<and> count B a = 0)"

lemma own_okD:
  assumes "own_ok ext ctx M B"
  shows "blocks_ok ctx" "mref_count (cx_mref ctx) b = ext b + count M b + count B b"
    "a \<in># M \<Longrightarrow> ext a = 0 \<and> count M a = 1 \<and> count B a = 0" "a \<in># M \<Longrightarrow> mref_count (cx_mref ctx) a = 1"
  using assms unfolding own_ok_def by auto

lemma own_apart:
  assumes "own_ok ext ctx (M + N) B" "a \<in># M" shows "a \<notin># N"
proof -
  have "count M a + count N a = 1" using own_okD(3)[OF assms(1), of a] assms(2) by (simp add: union_iff)
  moreover have "0 < count M a" using assms(2) by (simp only: count_greater_zero_iff)
  ultimately have "count N a = 0" by linarith
  then show ?thesis by (simp add: count_eq_zero_iff)
qed

text \<open>Contexts that agree except for the memory and the counters.\<close>

definition ctx_same :: "rtmq_cntx \<Rightarrow> rtmq_cntx \<Rightarrow> bool" where
  "ctx_same ctx ctx' \<longleftrightarrow> ctx' = ctx\<lparr>cx_mref := cx_mref ctx', cx_mem := cx_mem ctx'\<rparr>"

lemma ctx_same_refl [simp]: "ctx_same ctx ctx"
  by (simp add: ctx_same_def)

lemma ctx_same_upd [simp]: "ctx_same ctx (ctx\<lparr>cx_mref := mf, cx_mem := mem\<rparr>)" "ctx_same ctx (ctx\<lparr>cx_mem := mem\<rparr>)"
  "ctx_same ctx (ctx\<lparr>cx_mref := mf\<rparr>)"
  by (simp_all add: ctx_same_def)

lemma ctx_sameD:
  assumes "ctx_same ctx ctx'"
  shows "cx_allocs ctx' = cx_allocs ctx" "cx_rand ctx' = cx_rand ctx" "cx_svr_map ctx' = cx_svr_map ctx"
    "cx_calloc ctx' = cx_calloc ctx"
proof -
  obtain mf mem where "ctx' = ctx\<lparr>cx_mref := mf, cx_mem := mem\<rparr>" using assms by (simp add: ctx_same_def)
  then show "cx_allocs ctx' = cx_allocs ctx" "cx_rand ctx' = cx_rand ctx" "cx_svr_map ctx' = cx_svr_map ctx"
    "cx_calloc ctx' = cx_calloc ctx" by simp_all
qed

lemma ctx_same_trans: assumes "ctx_same c1 c2" "ctx_same c2 c3" shows "ctx_same c1 c3"
proof -
  obtain m1 m2 where "c2 = c1\<lparr>cx_mref := m1, cx_mem := m2\<rparr>" using assms(1) by (simp add: ctx_same_def)
  moreover obtain m3 m4 where "c3 = c2\<lparr>cx_mref := m3, cx_mem := m4\<rparr>" using assms(2) by (simp add: ctx_same_def)
  ultimately show ?thesis by simp
qed

lemma own_dec:
  assumes "own_ok ext ctx (add_mset a M) B"
  obtains ctx' where "rtmq_block_dec ctx a = Some ctx'" "own_ok ext ctx' M B" "ctx_same ctx ctx'"
    "\<And>b. b \<noteq> a \<Longrightarrow> cx_mem ctx' b = cx_mem ctx b"
proof -
  note O = own_okD[OF assms]
  have a: "mref_count (cx_mref ctx) a = 1" "count M a = 0" "ext a = 0" "count B a = 0"
    using O(3,4)[of a] by simp_all
  have pos: "0 < mref_count (cx_mref ctx) a" using a(1) by simp
  from block_dec_ok[OF O(1) pos] a(1) obtain mf where mf:
    "rtmq_block_dec ctx a = Some (ctx\<lparr>cx_mref := mf, cx_mem := (cx_mem ctx)(a := None)\<rparr>)"
    "mref_count mf = (mref_count (cx_mref ctx))(a := 0)"
    "blocks_ok (ctx\<lparr>cx_mref := mf, cx_mem := (cx_mem ctx)(a := None)\<rparr>)" by auto
  show thesis
  proof (rule that[OF mf(1)])
    have M: "b \<in># M \<Longrightarrow> b \<noteq> a \<and> ext b = 0 \<and> count M b = 1 \<and> count B b = 0" for b
      using a(2) O(3)[of b] by (cases "b = a") (auto simp: count_eq_zero_iff)
    have "mref_count mf b = ext b + count M b + count B b" for b using O(2)[of b] a by (auto simp: mf(2))
    then show "own_ok ext (ctx\<lparr>cx_mref := mf, cx_mem := (cx_mem ctx)(a := None)\<rparr>) M B"
      unfolding own_ok_def using mf(3) M by simp
  qed auto
qed

text \<open>A receive buffer may be counted by others, too.\<close>

lemma own_dec_base:
  assumes "own_ok ext ctx M (add_mset a B)"
  obtains ctx' where "rtmq_block_dec ctx a = Some ctx'" "own_ok ext ctx' M B" "ctx_same ctx ctx'"
    "\<And>b. b \<noteq> a \<Longrightarrow> cx_mem ctx' b = cx_mem ctx b" "a \<notin># M"
proof -
  note O = own_okD[OF assms]
  have a: "0 < mref_count (cx_mref ctx) a" using O(2)[of a] by simp
  have na: "a \<notin># M" using O(3)[of a] by auto
  from block_dec_ok[OF O(1) a] obtain mf where mf: "rtmq_block_dec ctx a = Some (ctx\<lparr>cx_mref := mf,
      cx_mem := if mref_count (cx_mref ctx) a = 1 then (cx_mem ctx)(a := None) else cx_mem ctx\<rparr>)"
    "mref_count mf = (mref_count (cx_mref ctx))(a := mref_count (cx_mref ctx) a - 1)"
    "blocks_ok (ctx\<lparr>cx_mref := mf,
      cx_mem := if mref_count (cx_mref ctx) a = 1 then (cx_mem ctx)(a := None) else cx_mem ctx\<rparr>)" by auto
  show thesis
  proof (rule that[OF mf(1)])
    have M: "b \<in># M \<Longrightarrow> ext b = 0 \<and> count M b = 1 \<and> count B b = 0" for b
      using na O(3)[of b] by (cases "b = a") auto
    have "mref_count mf b = ext b + count M b + count B b" for b using O(2)[of b] by (auto simp: mf(2))
    then show "own_ok ext (ctx\<lparr>cx_mref := mf,
        cx_mem := if mref_count (cx_mref ctx) a = 1 then (cx_mem ctx)(a := None) else cx_mem ctx\<rparr>) M B"
      unfolding own_ok_def using mf(3) M by simp
  qed (auto simp: na)
qed

lemma own_alloc:
  assumes "own_ok ext ctx M B" "0 < sz"
  obtains (none) "rtmq_block_alloc ctx sz = Some (0, ctx)" "cx_calloc ctx (cx_mref ctx) = 0"
    | (new) a ctx' where "rtmq_block_alloc ctx sz = Some (a, ctx')" "a \<noteq> 0" "a \<notin># M" "a \<notin># B"
      "own_ok ext ctx' (add_mset a M) B" "ctx_same ctx ctx'" "\<And>b. b \<noteq> a \<Longrightarrow> cx_mem ctx' b = cx_mem ctx b"
      "cx_mem ctx' a = Some (replicate sz 0)"
proof (cases rule: block_alloc_cases[OF own_okD(1)[OF assms(1)] assms(2)])
  case (2 a mf)
  note O = own_okD[OF assms(1)]
  have z: "ext a = 0" "count M a = 0" "count B a = 0" using O(2)[of a] 2(3) by simp_all
  have "own_ok ext (ctx\<lparr>cx_mref := mf, cx_mem := (cx_mem ctx)(a \<mapsto> replicate sz 0)\<rparr>) (add_mset a M) B"
    unfolding own_ok_def using 2(7) O(2,3) z by (auto simp: 2(6) count_eq_zero_iff)
  then show ?thesis using new[OF 2(1,2)] z by (auto simp: count_eq_zero_iff)
qed (use none in blast)

lemma own_write:
  assumes "own_ok ext ctx M B" "a \<in># M"
  shows "own_ok ext (ctx\<lparr>cx_mem := (cx_mem ctx)(a \<mapsto> bs)\<rparr>) M B" "cx_mem ctx a \<noteq> None"
proof -
  note O = own_okD[OF assms(1)]
  have c: "mref_count (cx_mref ctx) a = 1" by (rule O(4)[OF assms(2)])
  then show m: "cx_mem ctx a \<noteq> None" using blocks_okD(2)[OF O(1), of a] by simp
  then obtain old where "cx_mem ctx a = Some old" by blast
  from blocks_ok_write[OF O(1) this, of bs] show "own_ok ext (ctx\<lparr>cx_mem := (cx_mem ctx)(a \<mapsto> bs)\<rparr>) M B"
    using assms(1) by (simp add: own_ok_def)
qed

lemma own_half: "own_ok ext ctx M B \<Longrightarrow> a \<in># M \<Longrightarrow> a < half64"
  using mref_live[OF blocks_okD(1)[OF own_okD(1)], of ext ctx M B a] own_okD(4)[of ext ctx M B a] by auto

text \<open>Other parts of the context do not matter.\<close>

lemma own_ctx:
  assumes "own_ok ext ctx M B" "cx_mref ctx' = cx_mref ctx" "cx_mem ctx' = cx_mem ctx" "cx_calloc ctx' = cx_calloc ctx"
  shows "own_ok ext ctx' M B"
  using assms by (simp add: own_ok_def blocks_ok_def)

lemma own_ctx_simps [simp]:
  "own_ok ext (ctx\<lparr>cx_allocs := al\<rparr>) M B = own_ok ext ctx M B"
  "own_ok ext (ctx\<lparr>cx_rand := rs\<rparr>) M B = own_ok ext ctx M B"
  "own_ok ext (ctx\<lparr>cx_svr_map := m\<rparr>) M B = own_ok ext ctx M B"
  by (simp_all add: own_ok_def blocks_ok_def)

subsection \<open>The same on the server\<close>

lemma srv_dec_ok:
  assumes "own_ok ext (sv_ctx sv) (add_mset a M) B"
  obtains ctx' where "srv_dec sv a = Some (sv\<lparr>sv_ctx := ctx'\<rparr>)" "own_ok ext ctx' M B" "ctx_same (sv_ctx sv) ctx'"
    "\<And>b. b \<noteq> a \<Longrightarrow> cx_mem ctx' b = cx_mem (sv_ctx sv) b"
proof -
  obtain ctx' where "rtmq_block_dec (sv_ctx sv) a = Some ctx'" "own_ok ext ctx' M B" "ctx_same (sv_ctx sv) ctx'"
    "\<And>b. b \<noteq> a \<Longrightarrow> cx_mem ctx' b = cx_mem (sv_ctx sv) b" using own_dec[OF assms] by blast
  then show thesis using that[of ctx'] by (simp add: srv_dec_def)
qed

lemma srv_decs_ok:
  "own_ok ext (sv_ctx sv) (mset as + M) B \<Longrightarrow>
   \<exists>ctx'. srv_decs sv as = Some (sv\<lparr>sv_ctx := ctx'\<rparr>) \<and> own_ok ext ctx' M B \<and> ctx_same (sv_ctx sv) ctx' \<and>
     (\<forall>b. b \<notin> set as \<longrightarrow> cx_mem ctx' b = cx_mem (sv_ctx sv) b)"
proof (induction "as" arbitrary: sv)
  case Nil
  have "sv\<lparr>sv_ctx := sv_ctx sv\<rparr> = sv" by simp
  then show ?case using Nil by (intro exI[of _ "sv_ctx sv"]) simp
next
  case (Cons a as)
  have "own_ok ext (sv_ctx sv) (add_mset a (mset as + M)) B" using Cons.prems by simp
  from srv_dec_ok[OF this] obtain c1 where c1: "srv_dec sv a = Some (sv\<lparr>sv_ctx := c1\<rparr>)" "own_ok ext c1 (mset as + M) B"
    "ctx_same (sv_ctx sv) c1" "\<And>b. b \<noteq> a \<Longrightarrow> cx_mem c1 b = cx_mem (sv_ctx sv) b" by blast
  from Cons.IH[of "sv\<lparr>sv_ctx := c1\<rparr>"] c1(2) obtain c2 where
    c2: "srv_decs (sv\<lparr>sv_ctx := c1\<rparr>) as = Some (sv\<lparr>sv_ctx := c2\<rparr>)" "own_ok ext c2 M B" "ctx_same c1 c2"
      "\<forall>b. b \<notin> set as \<longrightarrow> cx_mem c2 b = cx_mem c1 b" by auto
  then show ?case using c1 ctx_same_trans[OF c1(3) c2(3)] by auto
qed

lemma srv_check_ok:
  assumes "own_ok ext (sv_ctx sv) M B" "a \<in># M" shows "srv_check sv a = Some sv"
proof -
  have "mref_check (cx_mref (sv_ctx sv)) a = Some (int (mref_count (cx_mref (sv_ctx sv)) a), cx_mref (sv_ctx sv))"
    by (rule mref_check_ok[OF blocks_okD(1)[OF own_okD(1)[OF assms(1)]] own_half[OF assms]])
  then show ?thesis by (simp add: srv_check_def)
qed

end
