(* ===== verification/Rtmq_Route.thy ===== *)
theory Rtmq_Route
  imports Rtmq_Own
begin

text \<open>
  The abstract system behind the sending side, in which queues hold messages and a connection is the list of the
  messages it was given; and the operations on one connection, which keep what a connection has taken.
\<close>

subsection \<open>The abstract system\<close>

type_synonym rtmq_mesg = "rtmq_header \<times> u8 list"

text \<open>A message carries the number of the distribution queue it came through.  A connection to a node was given messages
  and has written some bytes of their stream.\<close>

record srv_link =
  lk_nid :: u32
  lk_given :: "(nat \<times> rtmq_mesg) list"
  lk_sent :: nat

text \<open>What was accepted at each distribution queue, what waits there and at each thread, the connections of each thread, the
  threads of each node, the messages that were dropped and the connections that were closed.\<close>

record srv_abs =
  ab_acc :: "rtmq_mesg list list"
  ab_dist :: "rtmq_mesg list list"
  ab_send :: "(nat \<times> rtmq_mesg) list list"
  ab_links :: "srv_link list list"
  ab_map :: "int \<rightharpoonup> int list"
  ab_lost :: "(nat \<times> rtmq_mesg) list"
  ab_closed :: "srv_link list"

definition svr_map_del :: "(int \<rightharpoonup> int list) \<Rightarrow> int \<Rightarrow> int \<Rightarrow> (int \<rightharpoonup> int list)" where
  "svr_map_del m nid i = (case m nid of
      None \<Rightarrow> m
    | Some ids \<Rightarrow> m(nid := (let ids' = svr_ids_del ids i in if ids' = [] \<and> ids \<noteq> [] then None else Some ids')))"

definition lk_stream :: "srv_link \<Rightarrow> u8 list" where
  "lk_stream lk = rtmq_stream (map snd (lk_given lk))"

definition lk_give :: "nat \<times> rtmq_mesg \<Rightarrow> srv_link \<Rightarrow> srv_link" where
  "lk_give x lk = lk\<lparr>lk_given := lk_given lk @ [x]\<rparr>"

definition lk_write :: "nat \<Rightarrow> srv_link \<Rightarrow> srv_link" where
  "lk_write n lk = lk\<lparr>lk_sent := lk_sent lk + n\<rparr>"

text \<open>The steps inside.  \<open>dcaps\<close> and \<open>scaps\<close> are the capacities of the queues; \<open>nomem\<close> says that allocations may fail.  A message
  is dropped only for a reason: no thread is known for its node, the queue of a thread of the node is full, no
  connection of the thread leads to the node, or there is no memory.\<close>

inductive srv_step :: "bool \<Rightarrow> nat list \<Rightarrow> nat list \<Rightarrow> srv_abs \<Rightarrow> srv_abs \<Rightarrow> bool"
  for nomem :: bool and dcaps scaps :: "nat list" where
  move: "d < length (ab_dist ab) \<Longrightarrow> ab_dist ab ! d = m # ms \<Longrightarrow> ab_map ab (sint (hd_nid (fst m))) = Some ids \<Longrightarrow>
     int t \<in> set ids \<Longrightarrow> t < length (ab_send ab) \<Longrightarrow> length (ab_send ab ! t) < scaps ! t \<Longrightarrow>
     srv_step nomem dcaps scaps ab (ab\<lparr>ab_dist := (ab_dist ab)[d := ms],
       ab_send := (ab_send ab)[t := ab_send ab ! t @ [(d, m)]]\<rparr>)"
| lose: "d < length (ab_dist ab) \<Longrightarrow> ab_dist ab ! d = m # ms \<Longrightarrow>
     (case ab_map ab (sint (hd_nid (fst m))) of None \<Rightarrow> True
      | Some ids \<Rightarrow> \<exists>t < length (ab_send ab). int t \<in> set ids \<and> length (ab_send ab ! t) = scaps ! t) \<Longrightarrow>
     srv_step nomem dcaps scaps ab (ab\<lparr>ab_dist := (ab_dist ab)[d := ms], ab_lost := ab_lost ab @ [(d, m)]\<rparr>)"
| give: "t < length (ab_send ab) \<Longrightarrow> ab_send ab ! t = x # xs \<Longrightarrow> i < length (ab_links ab ! t) \<Longrightarrow>
     lk_nid (ab_links ab ! t ! i) = hd_nid (fst (snd x)) \<Longrightarrow>
     srv_step nomem dcaps scaps ab (ab\<lparr>ab_send := (ab_send ab)[t := xs],
       ab_links := (ab_links ab)[t := (ab_links ab ! t)[i := lk_give x (ab_links ab ! t ! i)]]\<rparr>)"
| miss: "t < length (ab_send ab) \<Longrightarrow> ab_send ab ! t = x # xs \<Longrightarrow>
     nomem \<or> (\<forall>lk \<in> set (ab_links ab ! t). lk_nid lk \<noteq> hd_nid (fst (snd x))) \<Longrightarrow>
     srv_step nomem dcaps scaps ab (ab\<lparr>ab_send := (ab_send ab)[t := xs], ab_lost := ab_lost ab @ [x]\<rparr>)"
| send: "t < length (ab_links ab) \<Longrightarrow> i < length (ab_links ab ! t) \<Longrightarrow>
     lk_sent (ab_links ab ! t ! i) + n \<le> length (lk_stream (ab_links ab ! t ! i)) \<Longrightarrow>
     srv_step nomem dcaps scaps ab
       (ab\<lparr>ab_links := (ab_links ab)[t := (ab_links ab ! t)[i := lk_write n (ab_links ab ! t ! i)]]\<rparr>)"
| close: "t < length (ab_links ab) \<Longrightarrow> i < length (ab_links ab ! t) \<Longrightarrow>
     srv_step nomem dcaps scaps ab
       (ab\<lparr>ab_links := (ab_links ab)[t := take i (ab_links ab ! t) @ drop (i + 1) (ab_links ab ! t)],
         ab_map := svr_map_del (ab_map ab) (sint (lk_nid (ab_links ab ! t ! i))) (int t),
         ab_closed := ab_closed ab @ [ab_links ab ! t ! i]\<rparr>)"

subsection \<open>Messages in blocks\<close>

text \<open>The message of a block that waits, in host order; its size fits into an \<open>int\<close>.\<close>

definition blk_mesg :: "(u64 \<rightharpoonup> u8 list) \<Rightarrow> u64 \<Rightarrow> rtmq_mesg \<Rightarrow> bool" where
  "blk_mesg mem a m \<longleftrightarrow> mem a = Some (rtmq_head_bytes (fst m) @ snd m) \<and> hd_chksum (fst m) = RTMQ_CHKSUM_VAL \<and>
     length (snd m) = unat (hd_length (fst m)) \<and> 20 + length (snd m) < 2 ^ 31"

lemma blk_mesg_load: "blk_mesg mem a m \<Longrightarrow> \<exists>bs. mem a = Some bs \<and> rtmq_head_load bs 0 = Some (fst m)"
  using head_load_bytes[of "[]" "fst m" "snd m"] by (simp add: blk_mesg_def)

lemma blks_frame:
  "list_all2 (blk_mesg mem) as ms \<Longrightarrow> (\<And>a. a \<in> set as \<Longrightarrow> mem' a = mem a) \<Longrightarrow> list_all2 (blk_mesg mem') as ms"
  by (induction "as" ms rule: list_all2_induct) (auto simp: blk_mesg_def)

lemma int_size_small:
  assumes "20 + unat (n :: u32) < 2 ^ 31" shows "int_size (20 + ucast n) = 20 + ucast n"
proof -
  have u: "unat (20 + ucast n :: u64) = 20 + unat n" using assms
    by (simp add: unat_word_ariths unsigned_ucast_eq take_bit_nat_eq_self)
  have b: "unat (ucast (20 + ucast n :: u64) :: u32) = 20 + unat n"
    using assms u by (simp add: unsigned_ucast_eq take_bit_nat_eq_self)
  then have "sint (ucast (20 + ucast n :: u64) :: u32) = int (20 + unat n)"
    using sint_small assms by (metis)
  then have "int_size (20 + ucast n) = of_nat (20 + unat n)"
    unfolding int_size_def scast_eq by (simp only: of_int_of_nat_eq)
  also have "\<dots> = 20 + ucast n" using u by (metis of_nat_unat ucast_id)
  finally show ?thesis .
qed

subsection \<open>A connection\<close>

definition conn_blks :: "rtmq_conn \<Rightarrow> u64 list" where
  "conn_blks c = sk_mesg_list (cn_sck c) @ out_blks (cn_send c)"

definition conn_base :: "rtmq_conn \<Rightarrow> u64" where "conn_base c = sn_base (sk_recv (cn_sck c))"

text \<open>The bytes that were written, those in the send buffer and the messages of the list are the stream of the
  messages the connection was given.  The connection has no subscriptions.\<close>

definition conn_rel :: "(u64 \<rightharpoonup> u8 list) \<Rightarrow> rtmq_conn \<Rightarrow> srv_link \<Rightarrow> bool" where
  "conn_rel mem c lk \<longleftrightarrow> (\<exists>ms1 ms2. out_ok mem (cn_send c) ms1 \<and>
       list_all2 (blk_mesg mem) (sk_mesg_list (cn_sck c)) ms2 \<and>
       cn_out c @ out_bytes_of mem (cn_send c) @ rtmq_stream ms2 = lk_stream lk) \<and>
     lk_sent lk = length (cn_out c) \<and> lk_nid lk = sk_nid (cn_sck c) \<and>
     (\<forall>T. cn_subs c = Some T \<longrightarrow> av_root T = NULL)"

lemma conn_rel_frame:
  assumes "conn_rel mem c lk" "\<And>a. a \<in> set (conn_blks c) \<Longrightarrow> mem' a = mem a" shows "conn_rel mem' c lk"
proof -
  obtain ms1 ms2 where m: "out_ok mem (cn_send c) ms1" "list_all2 (blk_mesg mem) (sk_mesg_list (cn_sck c)) ms2"
      "cn_out c @ out_bytes_of mem (cn_send c) @ rtmq_stream ms2 = lk_stream lk"
    using assms(1) unfolding conn_rel_def by blast
  have "out_ok mem' (cn_send c) ms1" by (rule out_ok_frame[OF m(1)]) (simp add: assms(2) conn_blks_def)
  moreover have "out_bytes_of mem' (cn_send c) = out_bytes_of mem (cn_send c)"
    using out_bytes(1)[OF m(1)] out_bytes(1)[OF calculation] by (simp add: out_bytes_of_def)
  moreover have "list_all2 (blk_mesg mem') (sk_mesg_list (cn_sck c)) ms2"
    by (rule blks_frame[OF m(2)]) (simp add: assms(2) conn_blks_def)
  ultimately show ?thesis using assms(1) m(3) unfolding conn_rel_def by metis
qed

lemma wiov_loop_ok:
  "own_ok ext (sv_ctx sv) (mset (as @ out_blks w) + M) B \<Longrightarrow> out_ok (cx_mem (sv_ctx sv)) w ms1 \<Longrightarrow>
   list_all2 (blk_mesg (cx_mem (sv_ctx sv))) as ms2 \<Longrightarrow>
   \<exists>ctx' as' w' k. rtmq_rsvr_wiov_loop sv as w = Some (sv\<lparr>sv_ctx := ctx'\<rparr>, as', w') \<and> ctx_same (sv_ctx sv) ctx' \<and>
     own_ok ext ctx' (mset (as' @ out_blks w') + M) B \<and> mset (as' @ out_blks w') = mset (as @ out_blks w) \<and>
     out_ok (cx_mem ctx') w' (ms1 @ take k ms2) \<and> list_all2 (blk_mesg (cx_mem ctx')) as' (drop k ms2) \<and>
     out_bytes_of (cx_mem ctx') w' = out_bytes_of (cx_mem (sv_ctx sv)) w @ rtmq_stream (take k ms2) \<and>
     (\<forall>b. b \<notin> set as \<longrightarrow> cx_mem ctx' b = cx_mem (sv_ctx sv) b)"
proof (induction "as" arbitrary: sv w ms1 ms2)
  case Nil
  then show ?case by (intro exI[of _ "sv_ctx sv"] exI[of _ "[]"] exI[of _ w] exI[of _ 0]) simp
next
  case (Cons a as)
  obtain m ms where ms: "ms2 = m # ms" "blk_mesg (cx_mem (sv_ctx sv)) a m" "list_all2 (blk_mesg (cx_mem (sv_ctx sv))) as ms"
    using Cons.prems(3) by (auto simp: list_all2_Cons1)
  show ?case
  proof (cases "wiov_isfull w")
    case True
    then show ?thesis using Cons.prems
      by (intro exI[of _ "sv_ctx sv"] exI[of _ "a # as"] exI[of _ w] exI[of _ 0]) simp
  next
    case False
    let ?mem = "cx_mem (sv_ctx sv)" and ?mem' = "(cx_mem (sv_ctx sv))(a \<mapsto> rtmq_wire m)"
    have own: "own_ok ext (sv_ctx sv) ({#a#} + (mset (as @ out_blks w) + M)) B" using Cons.prems(1) by simp
    have na: "a \<notin> set as" "a \<notin> set (out_blks w)" using own_apart[OF own, of a] by simp_all
    have m: "?mem a = Some (rtmq_head_bytes (fst m) @ snd m)" "hd_chksum (fst m) = RTMQ_CHKSUM_VAL"
        "length (snd m) = unat (hd_length (fst m))" "20 + unat (hd_length (fst m)) < 2 ^ 31"
      using ms(2) by (simp_all add: blk_mesg_def)
    have chk: "srv_check sv a = Some sv" by (rule srv_check_ok[OF own]) simp
    obtain w1 where w1: "rtmq_out_add int_size 0 ?mem w a = Some (?mem', w1)" "out_ok ?mem' w1 (ms1 @ [m])"
        "out_blks w1 = out_blks w @ [a]" "out_bytes_of ?mem' w1 = out_bytes_of ?mem w @ rtmq_wire m"
      using out_add_ok[where conv = int_size and param = 0, OF Cons.prems(2) False m(1-3) int_size_small[OF m(4)] na(2)] by auto
    let ?sv = "sv\<lparr>sv_ctx := (sv_ctx sv)\<lparr>cx_mem := ?mem'\<rparr>\<rparr>"
    have own1: "own_ok ext (sv_ctx ?sv) (mset (as @ out_blks w1) + M) B"
      using own_write(1)[OF own, of a "rtmq_wire m"] by (simp add: w1(3))
    have as1: "list_all2 (blk_mesg (cx_mem (sv_ctx ?sv))) as ms" by (rule blks_frame[OF ms(3)]) (use na in auto)
    have ok1: "out_ok (cx_mem (sv_ctx ?sv)) w1 (ms1 @ [m])" using w1(2) by simp
    from Cons.IH[OF own1 ok1 as1] obtain ctx' as' w' k where R:
      "rtmq_rsvr_wiov_loop ?sv as w1 = Some (?sv\<lparr>sv_ctx := ctx'\<rparr>, as', w')" "ctx_same (sv_ctx ?sv) ctx'"
      "own_ok ext ctx' (mset (as' @ out_blks w') + M) B" "mset (as' @ out_blks w') = mset (as @ out_blks w1)"
      "out_ok (cx_mem ctx') w' ((ms1 @ [m]) @ take k ms)" "list_all2 (blk_mesg (cx_mem ctx')) as' (drop k ms)"
      "out_bytes_of (cx_mem ctx') w' = out_bytes_of (cx_mem (sv_ctx ?sv)) w1 @ rtmq_stream (take k ms)"
      "\<forall>b. b \<notin> set as \<longrightarrow> cx_mem ctx' b = cx_mem (sv_ctx ?sv) b" by blast
    have same: "ctx_same (sv_ctx sv) ctx'" by (rule ctx_same_trans[OF _ R(2)]) simp
    have run: "rtmq_rsvr_wiov_loop sv (a # as) w = Some (sv\<lparr>sv_ctx := ctx'\<rparr>, as', w')"
      using False chk w1(1) R(1) by simp
    show ?thesis using run same R(3-8) w1(3,4) ms(1)
      by (intro exI[of _ ctx'] exI[of _ as'] exI[of _ w'] exI[of _ "Suc k"]) auto
  qed
qed

lemma conn_send_ok:
  assumes own: "own_ok ext (sv_ctx sv) (mset (conn_blks c) + M) B" and rel: "conn_rel (cx_mem (sv_ctx sv)) c lk"
  shows "\<exists>ok ctx' c' n. rtmq_rsvr_conn_send sv c out = Some (ok, sv\<lparr>sv_ctx := ctx'\<rparr>, c') \<and> ctx_same (sv_ctx sv) ctx' \<and>
     own_ok ext ctx' (mset (conn_blks c') + M) B \<and> (\<forall>b. b \<in># M \<longrightarrow> cx_mem ctx' b = cx_mem (sv_ctx sv) b) \<and>
     conn_rel (cx_mem ctx') c' (lk_write n lk) \<and> lk_sent lk + n \<le> length (lk_stream lk) \<and>
     conn_base c' = conn_base c \<and> cn_fd c' = cn_fd c"
proof -
  let ?mem = "cx_mem (sv_ctx sv)"
  obtain ms1 ms2 where m: "out_ok ?mem (cn_send c) ms1" "list_all2 (blk_mesg ?mem) (sk_mesg_list (cn_sck c)) ms2"
      "cn_out c @ out_bytes_of ?mem (cn_send c) @ rtmq_stream ms2 = lk_stream lk"
    using rel unfolding conn_rel_def by blast
  have lk: "lk_sent lk = length (cn_out c)" "lk_nid lk = sk_nid (cn_sck c)" "\<forall>T. cn_subs c = Some T \<longrightarrow> av_root T = NULL"
    using rel unfolding conn_rel_def by blast+
  obtain ctx1 c1 ms1' ms2' where A:
    "(if \<not> wiov_isfull (cn_send c) then rtmq_rsvr_wiov_add sv c else Some (sv, c)) = Some (sv\<lparr>sv_ctx := ctx1\<rparr>, c1)"
    "ctx_same (sv_ctx sv) ctx1" "own_ok ext ctx1 (mset (conn_blks c1) + M) B" "\<forall>b. b \<in># M \<longrightarrow> cx_mem ctx1 b = ?mem b"
    "out_ok (cx_mem ctx1) (cn_send c1) ms1'" "list_all2 (blk_mesg (cx_mem ctx1)) (sk_mesg_list (cn_sck c1)) ms2'"
    "out_bytes_of (cx_mem ctx1) (cn_send c1) @ rtmq_stream ms2' = out_bytes_of ?mem (cn_send c) @ rtmq_stream ms2"
    "cn_out c1 = cn_out c" "sk_nid (cn_sck c1) = sk_nid (cn_sck c)" "cn_subs c1 = cn_subs c" "conn_base c1 = conn_base c"
    "cn_fd c1 = cn_fd c"
  proof (cases "wiov_isfull (cn_send c)")
    case True
    then show thesis using that[of "sv_ctx sv" c ms1 ms2] own m by simp
  next
    case False
    have own': "own_ok ext (sv_ctx sv) (mset (sk_mesg_list (cn_sck c) @ out_blks (cn_send c)) + M) B"
      using own by (simp add: conn_blks_def)
    from wiov_loop_ok[OF own' m(1,2)] obtain ctx' as' w' k where R:
      "rtmq_rsvr_wiov_loop sv (sk_mesg_list (cn_sck c)) (cn_send c) = Some (sv\<lparr>sv_ctx := ctx'\<rparr>, as', w')"
      "ctx_same (sv_ctx sv) ctx'" "own_ok ext ctx' (mset (as' @ out_blks w') + M) B"
      "out_ok (cx_mem ctx') w' (ms1 @ take k ms2)" "list_all2 (blk_mesg (cx_mem ctx')) as' (drop k ms2)"
      "out_bytes_of (cx_mem ctx') w' = out_bytes_of ?mem (cn_send c) @ rtmq_stream (take k ms2)"
      "\<forall>b. b \<notin> set (sk_mesg_list (cn_sck c)) \<longrightarrow> cx_mem ctx' b = ?mem b" by blast
    have fr: "\<forall>b. b \<in># M \<longrightarrow> cx_mem ctx' b = ?mem b"
    proof (intro allI impI)
      fix b assume "b \<in># M"
      then have "b \<notin># mset (sk_mesg_list (cn_sck c) @ out_blks (cn_send c))" using own_apart[OF own'] by blast
      then show "cx_mem ctx' b = ?mem b" using R(7) by simp
    qed
    have st: "rtmq_stream (take k ms2) @ rtmq_stream (drop k ms2) = rtmq_stream ms2"
      by (metis append_take_drop_id rtmq_stream_append)
    show thesis
      by (rule that[of ctx' "c\<lparr>cn_sck := (cn_sck c)\<lparr>sk_mesg_list := as'\<rparr>, cn_send := w'\<rparr>" "ms1 @ take k ms2" "drop k ms2"])
        (use False R fr st in \<open>simp_all add: rtmq_rsvr_wiov_add_def conn_blks_def conn_base_def\<close>)
  qed
  have rel1: "conn_rel (cx_mem ctx1) c1 lk"
    unfolding conn_rel_def using A(5-10) m(3) lk by (metis append.assoc)
  have w0: "lk_write 0 lk = lk" by (simp add: lk_write_def)
  have b1: "wiov_bytes (cx_mem ctx1) (cn_send c1) = Some (out_bytes_of (cx_mem ctx1) (cn_send c1))"
    by (rule out_bytes_some[OF A(5)])
  have le: "lk_sent lk \<le> length (lk_stream lk)" unfolding m(3)[symmetric] lk(1) by simp
  consider "wiov_isempty (cn_send c1)" | "\<not> wiov_isempty (cn_send c1)" "out = WvErr"
    | k where "\<not> wiov_isempty (cn_send c1)" "out = WvDone k" by (cases out) auto
  then show ?thesis
  proof cases
    case 1
    then show ?thesis using A rel1 w0 le
      by (intro exI[of _ True] exI[of _ ctx1] exI[of _ c1] exI[of _ 0]) (simp add: rtmq_rsvr_conn_send_def del: if_not_P if_P)
  next
    case 2
    then show ?thesis using A rel1 w0 le b1
      by (intro exI[of _ False] exI[of _ ctx1] exI[of _ c1] exI[of _ 0]) (simp add: rtmq_rsvr_conn_send_def)
  next
    case (3 k)
    let ?bs = "out_bytes_of (cx_mem ctx1) (cn_send c1)" let ?n = "min k (length ?bs)"
    have "?n \<le> length ?bs" by simp
    from out_sent_ok[OF A(5) this] obtain j w2 calls where W:
      "wiov_item_adjust (cn_send c1) ?n = Some (0, w2, calls)" "io_blocks calls = take j (out_blks (cn_send c1))"
      "out_ok (cx_mem ctx1) w2 (drop j ms1')" "out_blks w2 = drop j (out_blks (cn_send c1))"
      "out_bytes_of (cx_mem ctx1) w2 = drop ?n ?bs" by blast
    let ?M = "mset (sk_mesg_list (cn_sck c1) @ out_blks w2) + M"
    have "mset (take j (out_blks (cn_send c1))) + mset (drop j (out_blks (cn_send c1))) = mset (out_blks (cn_send c1))"
      by (metis append_take_drop_id mset_append)
    then have eqM: "mset (conn_blks c1) + M = mset (io_blocks calls) + ?M"
      by (simp add: conn_blks_def W(2,4) ac_simps)
    have own2: "own_ok ext (sv_ctx (sv\<lparr>sv_ctx := ctx1\<rparr>)) (mset (io_blocks calls) + ?M) B"
      using A(3) unfolding eqM by simp
    from srv_decs_ok[OF own2] obtain ctx2 where D:
      "srv_decs (sv\<lparr>sv_ctx := ctx1\<rparr>) (io_blocks calls) = Some (sv\<lparr>sv_ctx := ctx2\<rparr>)" "own_ok ext ctx2 ?M B"
      "ctx_same ctx1 ctx2" "\<forall>b. b \<notin> set (io_blocks calls) \<longrightarrow> cx_mem ctx2 b = cx_mem ctx1 b" by auto
    have fr: "cx_mem ctx2 b = cx_mem ctx1 b" if "b \<in># ?M" for b
    proof -
      have "own_ok ext (sv_ctx (sv\<lparr>sv_ctx := ctx1\<rparr>)) (?M + mset (io_blocks calls)) B" using own2 by (simp only: add.commute)
      from own_apart[OF this that] D(4) show ?thesis by simp
    qed
    let ?c = "c1\<lparr>cn_send := w2, cn_out := cn_out c1 @ take ?n ?bs\<rparr>"
    have ok2: "out_ok (cx_mem ctx2) w2 (drop j ms1')" by (rule out_ok_frame[OF W(3)]) (rule fr, simp)
    have eq2: "out_bytes_of (cx_mem ctx2) w2 = drop ?n ?bs"
      using out_bytes(1)[OF ok2] out_bytes(1)[OF W(3)] W(5) by (simp add: out_bytes_of_def)
    have l2: "list_all2 (blk_mesg (cx_mem ctx2)) (sk_mesg_list (cn_sck c1)) ms2'"
      by (rule blks_frame[OF A(6)]) (rule fr, simp)
    have "cn_out ?c @ out_bytes_of (cx_mem ctx2) (cn_send ?c) @ rtmq_stream ms2' =
        cn_out c1 @ (take ?n ?bs @ drop ?n ?bs) @ rtmq_stream ms2'" by (simp add: eq2)
    also have "\<dots> = cn_out c @ ?bs @ rtmq_stream ms2'" by (simp only: append_take_drop_id A(8))
    finally have st: "cn_out ?c @ out_bytes_of (cx_mem ctx2) (cn_send ?c) @ rtmq_stream ms2' = lk_stream lk"
      by (simp only: A(7) m(3))
    have "conn_rel (cx_mem ctx2) ?c (lk_write ?n lk)"
      unfolding conn_rel_def using ok2 l2 st lk A(8-10) by (auto simp: lk_write_def lk_stream_def)
    moreover have "lk_sent lk + ?n \<le> length (lk_stream lk)" unfolding st[symmetric] lk(1) using A(8) by simp
    moreover have "ctx_same (sv_ctx sv) ctx2" by (rule ctx_same_trans[OF A(2) D(3)])
    moreover have "own_ok ext ctx2 (mset (conn_blks ?c) + M) B" using D(2) by (simp add: conn_blks_def)
    moreover have "\<forall>b. b \<in># M \<longrightarrow> cx_mem ctx2 b = ?mem b" using fr A(4) by simp
    moreover have "conn_base ?c = conn_base c" "cn_fd ?c = cn_fd c" using A(11,12) by (simp_all add: conn_base_def)
    moreover have "rtmq_rsvr_conn_send sv c out = Some (True, sv\<lparr>sv_ctx := ctx2\<rparr>, ?c)"
      using 3 A(1) b1 W(1) D(1) by (simp add: rtmq_rsvr_conn_send_def Let_def)
    ultimately show ?thesis by blast
  qed
qed

subsection \<open>The end of a connection\<close>

lemma sck_free_ok:
  assumes own: "own_ok ext (sv_ctx sv) (mset (conn_blks c) + M) (add_mset (conn_base c) B)"
    and rel: "conn_rel (cx_mem (sv_ctx sv)) c lk"
  shows "\<exists>ctx'. rtmq_rsvr_sck_free sv c = Some (sv\<lparr>sv_ctx := ctx'\<rparr>) \<and> ctx_same (sv_ctx sv) ctx' \<and> own_ok ext ctx' M B \<and>
     (\<forall>b. b \<in># M \<longrightarrow> cx_mem ctx' b = cx_mem (sv_ctx sv) b)"
proof -
  obtain ms1 where m: "out_ok (cx_mem (sv_ctx sv)) (cn_send c) ms1" "\<forall>T. cn_subs c = Some T \<longrightarrow> av_root T = NULL"
    using rel unfolding conn_rel_def by blast
  from own_dec_base[OF own] obtain c1 where c1: "rtmq_block_dec (sv_ctx sv) (conn_base c) = Some c1"
    "own_ok ext c1 (mset (conn_blks c) + M) B" "ctx_same (sv_ctx sv) c1"
    "\<And>b. b \<noteq> conn_base c \<Longrightarrow> cx_mem c1 b = cx_mem (sv_ctx sv) b" "conn_base c \<notin># mset (conn_blks c) + M" by blast
  have e1: "srv_dec sv (conn_base c) = Some (sv\<lparr>sv_ctx := c1\<rparr>)" using c1(1) by (simp add: srv_dec_def)
  let ?M = "mset (out_blks (cn_send c)) + M"
  have o1: "own_ok ext (sv_ctx (sv\<lparr>sv_ctx := c1\<rparr>)) (mset (sk_mesg_list (cn_sck c)) + ?M) B"
    using c1(2) by (simp add: conn_blks_def add.assoc)
  from srv_decs_ok[OF o1] obtain c2 where c2:
    "srv_decs (sv\<lparr>sv_ctx := c1\<rparr>) (sk_mesg_list (cn_sck c)) = Some (sv\<lparr>sv_ctx := c2\<rparr>)" "own_ok ext c2 ?M B"
    "ctx_same c1 c2" "\<forall>b. b \<notin> set (sk_mesg_list (cn_sck c)) \<longrightarrow> cx_mem c2 b = cx_mem c1 b" by auto
  obtain calls where w: "wiov_destroy (cn_send c) = Some calls" "io_blocks calls = out_blks (cn_send c)"
    using out_clean_ok[OF m(1)] by blast
  have o2: "own_ok ext (sv_ctx (sv\<lparr>sv_ctx := c2\<rparr>)) (mset (io_blocks calls) + M) B" using c2(2) w(2) by simp
  from srv_decs_ok[OF o2] obtain c3 where c3:
    "srv_decs (sv\<lparr>sv_ctx := c2\<rparr>) (io_blocks calls) = Some (sv\<lparr>sv_ctx := c3\<rparr>)" "own_ok ext c3 M B"
    "ctx_same c2 c3" "\<forall>b. b \<notin> set (io_blocks calls) \<longrightarrow> cx_mem c3 b = cx_mem c2 b" by auto
  have subs: "(case cn_subs c of None \<Rightarrow> Some s
      | Some T \<Rightarrow> rtmq_rsvr_sck_sub_free s (sk_gid (cn_sck c)) (cn_sid c) T) = Some s" for s
    using m(2) by (auto simp: rtmq_rsvr_sck_sub_free_def avl_destroy_def split: option.splits)
  have "sv\<lparr>sv_ctx := c1, sv_subs := sv_subs sv\<rparr> = sv\<lparr>sv_ctx := c1\<rparr>" by simp
  then have run: "rtmq_rsvr_sck_free sv c = Some (sv\<lparr>sv_ctx := c3\<rparr>)"
    using e1 c2(1) w(1) c3(1) by (simp add: rtmq_rsvr_sck_free_def conn_base_def subs)
  have "cx_mem c3 b = cx_mem (sv_ctx sv) b" if b: "b \<in># M" for b
  proof -
    have "b \<notin># mset (sk_mesg_list (cn_sck c)) + mset (out_blks (cn_send c))"
      using own_apart[of ext c1 M "mset (sk_mesg_list (cn_sck c)) + mset (out_blks (cn_send c))" B b] o1 b
      by (simp add: ac_simps)
    moreover have "b \<noteq> conn_base c" using b c1(5) by auto
    ultimately show ?thesis using c3(4) c2(4) c1(4)[of b] w(2) by simp
  qed
  then show ?thesis using run ctx_same_trans[OF ctx_same_trans[OF c1(3) c2(3)] c3(3)] c3(2) by blast
qed

lemma svr_map_del_ctx: "snd (rtmq_node_to_svr_map_del ctx nid i) = ctx\<lparr>cx_svr_map := svr_map_del (cx_svr_map ctx) nid i\<rparr>"
  by (auto simp: rtmq_node_to_svr_map_del_def svr_map_del_def split: option.splits)

lemma del_conn_ok:
  assumes own: "own_ok ext (sv_ctx sv) (mset (conn_blks c) + M) (add_mset (conn_base c) B)"
    and rel: "conn_rel (cx_mem (sv_ctx sv)) c lk" and th: "th_conns th = xs @ Some c # ys"
  shows "\<exists>ctx'. rtmq_rsvr_del_conn_hdl sv th (length xs) = Some (sv\<lparr>sv_ctx := ctx'\<rparr>,
       th\<lparr>th_conns := xs @ ys, th_connections := th_connections th - 1\<rparr>) \<and> own_ok ext ctx' M B \<and>
     cx_svr_map ctx' = svr_map_del (cx_svr_map (sv_ctx sv)) (sint (lk_nid lk)) (int (rv_id (th_rsvr th))) \<and>
     cx_allocs ctx' = cx_allocs (sv_ctx sv) \<and> (\<forall>b. b \<in># M \<longrightarrow> cx_mem ctx' b = cx_mem (sv_ctx sv) b)"
proof -
  let ?nid = "sint (sk_nid (cn_sck c))" let ?id = "int (rv_id (th_rsvr th))"
  let ?ctx = "(sv_ctx sv)\<lparr>cx_svr_map := svr_map_del (cx_svr_map (sv_ctx sv)) ?nid ?id\<rparr>"
  have nid: "lk_nid lk = sk_nid (cn_sck c)" using rel by (simp add: conn_rel_def)
  have "own_ok ext (sv_ctx (sv\<lparr>sv_ctx := ?ctx\<rparr>)) (mset (conn_blks c) + M) (add_mset (conn_base c) B)"
    "conn_rel (cx_mem (sv_ctx (sv\<lparr>sv_ctx := ?ctx\<rparr>))) c lk" using own rel by simp_all
  from sck_free_ok[OF this] obtain ctx' where F: "rtmq_rsvr_sck_free (sv\<lparr>sv_ctx := ?ctx\<rparr>) c = Some (sv\<lparr>sv_ctx := ctx'\<rparr>)"
    "ctx_same ?ctx ctx'" "own_ok ext ctx' M B" "\<forall>b. b \<in># M \<longrightarrow> cx_mem ctx' b = cx_mem (sv_ctx sv) b" by auto
  have "rtmq_rsvr_del_conn_hdl sv th (length xs) = Some (sv\<lparr>sv_ctx := ctx'\<rparr>,
       th\<lparr>th_conns := xs @ ys, th_connections := th_connections th - 1\<rparr>)"
    using F(1) th svr_map_del_ctx[of "sv_ctx sv" ?nid ?id]
    by (simp add: rtmq_rsvr_del_conn_hdl_def conn_at_def nth_append case_prod_beta Let_def)
  then show ?thesis using F ctx_sameD[OF F(2)] nid by auto
qed

end
