(* ===== verification/Rtmq_Send.thy ===== *)
theory Rtmq_Send
  imports Rtmq_Route
begin

text \<open>
  The sending side as a whole: every operation, from \<open>rtmq_async_send\<close> to the writing of a socket, takes steps of
  the abstract system.
\<close>

subsection \<open>Places\<close>

definition q_blks :: "u64 list \<Rightarrow> ring \<Rightarrow> u64 list" where
  "q_blks hand q = hand @ map addr_blk (ring_items q)"

definition q_rel :: "(u64 \<rightharpoonup> u8 list) \<Rightarrow> u64 list \<Rightarrow> ring \<Rightarrow> nat \<Rightarrow> rtmq_mesg list \<Rightarrow> bool" where
  "q_rel mem hand q cap ms \<longleftrightarrow> ring_ok q \<and> ring_cap q = cap \<and> list_all2 (blk_mesg mem) (q_blks hand q) ms"

definition th_list :: "rtmq_thread \<Rightarrow> rtmq_conn list" where "th_list th = map the (th_conns th)"
definition th_blks :: "rtmq_thread \<Rightarrow> u64 list" where "th_blks th = concat (map conn_blks (th_list th))"
definition th_bases :: "rtmq_thread \<Rightarrow> u64 list" where "th_bases th = map conn_base (th_list th)"

definition th_rel :: "(u64 \<rightharpoonup> u8 list) \<Rightarrow> nat \<Rightarrow> rtmq_thread \<Rightarrow> srv_link list \<Rightarrow> bool" where
  "th_rel mem t th lks \<longleftrightarrow> rv_id (th_rsvr th) = t \<and> None \<notin> set (th_conns th) \<and>
     list_all2 (conn_rel mem) (th_list th) lks"

text \<open>Where blocks are: in a distribution queue, a send queue, a thread.  \<open>hq\<close> and \<open>hs\<close> are the blocks that were taken
  from a queue and not yet handed on.\<close>

datatype place = PD nat | PS nat | PC nat

fun pl_blks :: "(nat \<Rightarrow> u64 list) \<Rightarrow> (nat \<Rightarrow> u64 list) \<Rightarrow> rtmq_server \<Rightarrow> rtmq_thread list \<Rightarrow> place \<Rightarrow> u64 list" where
  "pl_blks hq hs sv ths (PD d) = q_blks (hq d) (sv_distq sv ! d)"
| "pl_blks hq hs sv ths (PS t) = q_blks (hs t) (sv_sendq sv ! t)"
| "pl_blks hq hs sv ths (PC t) = th_blks (ths ! t)"

fun pl_rel :: "nat list \<Rightarrow> nat list \<Rightarrow> (u64 \<rightharpoonup> u8 list) \<Rightarrow> (nat \<Rightarrow> u64 list) \<Rightarrow> (nat \<Rightarrow> u64 list) \<Rightarrow> rtmq_server \<Rightarrow>
    rtmq_thread list \<Rightarrow> srv_abs \<Rightarrow> place \<Rightarrow> bool" where
  "pl_rel dcaps scaps mem hq hs sv ths ab (PD d) = q_rel mem (hq d) (sv_distq sv ! d) (dcaps ! d) (ab_dist ab ! d)"
| "pl_rel dcaps scaps mem hq hs sv ths ab (PS t) =
     q_rel mem (hs t) (sv_sendq sv ! t) (scaps ! t) (map snd (ab_send ab ! t))"
| "pl_rel dcaps scaps mem hq hs sv ths ab (PC t) = th_rel mem t (ths ! t) (ab_links ab ! t)"

definition places :: "nat \<Rightarrow> nat \<Rightarrow> place set" where
  "places n k = PD ` {..<n} \<union> PS ` {..<k} \<union> PC ` {..<k}"

lemma places_simps [simp]: "PD d \<in> places n k \<longleftrightarrow> d < n" "PS t \<in> places n k \<longleftrightarrow> t < k" "PC t \<in> places n k \<longleftrightarrow> t < k"
  "finite (places n k)"
  by (auto simp: places_def)

definition map_ok :: "nat \<Rightarrow> (int \<rightharpoonup> int list) \<Rightarrow> bool" where
  "map_ok k m \<longleftrightarrow> (\<forall>nid ids. m nid = Some ids \<longrightarrow> ids \<noteq> [] \<and> (\<forall>i \<in> set ids. 0 \<le> i \<and> nat i < k))"

definition shape_ok :: "bool \<Rightarrow> nat list \<Rightarrow> nat list \<Rightarrow> rtmq_server \<Rightarrow> rtmq_thread list \<Rightarrow> srv_abs \<Rightarrow> bool" where
  "shape_ok nomem dcaps scaps sv ths ab \<longleftrightarrow>
     length (sv_distq sv) = length dcaps \<and> length (ab_dist ab) = length dcaps \<and> length (ab_acc ab) = length dcaps \<and>
     length (sv_sendq sv) = length scaps \<and> length (ab_send ab) = length scaps \<and> length ths = length scaps \<and>
     length (ab_links ab) = length scaps \<and> cx_svr_map (sv_ctx sv) = ab_map ab \<and> map_ok (length scaps) (ab_map ab) \<and>
     (False \<in> set (cx_allocs (sv_ctx sv)) \<longrightarrow> nomem)"

definition th_all_bases :: "rtmq_thread list \<Rightarrow> u64 multiset" where
  "th_all_bases ths = mset (concat (map th_bases ths))"

definition srv_rel :: "(u64 \<Rightarrow> nat) \<Rightarrow> bool \<Rightarrow> nat list \<Rightarrow> nat list \<Rightarrow> (nat \<Rightarrow> u64 list) \<Rightarrow> (nat \<Rightarrow> u64 list) \<Rightarrow>
    rtmq_server \<Rightarrow> rtmq_thread list \<Rightarrow> srv_abs \<Rightarrow> bool" where
  "srv_rel ext nomem dcaps scaps hq hs sv ths ab \<longleftrightarrow> shape_ok nomem dcaps scaps sv ths ab \<and>
     own_ok ext (sv_ctx sv) (\<Sum>p \<in> places (length dcaps) (length scaps). mset (pl_blks hq hs sv ths p)) (th_all_bases ths) \<and>
     (\<forall>p \<in> places (length dcaps) (length scaps). pl_rel dcaps scaps (cx_mem (sv_ctx sv)) hq hs sv ths ab p)"

lemma th_rel_frame:
  assumes "th_rel mem t th lks" "\<And>a. a \<in> set (th_blks th) \<Longrightarrow> mem' a = mem a" shows "th_rel mem' t th lks"
proof -
  have "list_all2 (conn_rel mem') (th_list th) lks"
  proof (rule list_all2_all_nthI)
    show "length (th_list th) = length lks" using assms(1) by (auto simp: th_rel_def dest: list_all2_lengthD)
    fix i assume i: "i < length (th_list th)"
    then have "conn_rel mem (th_list th ! i) (lks ! i)" using assms(1) by (auto simp: th_rel_def dest: list_all2_nthD)
    then show "conn_rel mem' (th_list th ! i) (lks ! i)"
      by (rule conn_rel_frame) (rule assms(2), use nth_mem[OF i] in \<open>auto simp: th_blks_def\<close>)
  qed
  then show ?thesis using assms(1) by (simp add: th_rel_def)
qed

lemma pl_rel_frame:
  assumes "pl_rel dcaps scaps mem hq hs sv ths ab p" "\<And>a. a \<in> set (pl_blks hq hs sv ths p) \<Longrightarrow> mem' a = mem a"
  shows "pl_rel dcaps scaps mem' hq hs sv ths ab p"
  using assms by (cases p) (auto simp: q_rel_def intro: blks_frame th_rel_frame)

text \<open>A change of some places \<open>P\<close>; the memory of the others stays.\<close>

definition rest_blks :: "nat \<Rightarrow> nat \<Rightarrow> place set \<Rightarrow> (place \<Rightarrow> u64 list) \<Rightarrow> u64 multiset" where
  "rest_blks n k P f = (\<Sum>p \<in> places n k - P. mset (f p))"

lemma srv_rel_split:
  assumes "srv_rel ext nomem dcaps scaps hq hs sv ths ab" "P \<subseteq> places (length dcaps) (length scaps)"
  shows "own_ok ext (sv_ctx sv) ((\<Sum>p \<in> P. mset (pl_blks hq hs sv ths p)) +
     rest_blks (length dcaps) (length scaps) P (pl_blks hq hs sv ths)) (th_all_bases ths)"
proof -
  let ?A = "places (length dcaps) (length scaps)"
  have "(\<Sum>p \<in> ?A. mset (pl_blks hq hs sv ths p)) =
      (\<Sum>p \<in> ?A - P. mset (pl_blks hq hs sv ths p)) + (\<Sum>p \<in> P. mset (pl_blks hq hs sv ths p))"
    by (rule sum.subset_diff[OF assms(2)]) simp
  then show ?thesis using assms(1) by (simp add: srv_rel_def rest_blks_def add.commute)
qed

lemma srv_rel_change:
  assumes R: "srv_rel ext nomem dcaps scaps hq hs sv ths ab" and P: "P \<subseteq> places (length dcaps) (length scaps)"
    and shape: "shape_ok nomem dcaps scaps sv' ths' ab'"
    and own: "own_ok ext (sv_ctx sv') ((\<Sum>p \<in> P. mset (pl_blks hq' hs' sv' ths' p)) +
      rest_blks (length dcaps) (length scaps) P (pl_blks hq hs sv ths)) (th_all_bases ths')"
    and mem: "\<And>b. b \<in># rest_blks (length dcaps) (length scaps) P (pl_blks hq hs sv ths) \<Longrightarrow>
      cx_mem (sv_ctx sv') b = cx_mem (sv_ctx sv) b"
    and out: "\<And>p. p \<notin> P \<Longrightarrow> p \<in> places (length dcaps) (length scaps) \<Longrightarrow>
      pl_blks hq' hs' sv' ths' p = pl_blks hq hs sv ths p \<and>
      (\<forall>mem. pl_rel dcaps scaps mem hq' hs' sv' ths' ab' p = pl_rel dcaps scaps mem hq hs sv ths ab p)"
    and rel: "\<And>p. p \<in> P \<Longrightarrow> pl_rel dcaps scaps (cx_mem (sv_ctx sv')) hq' hs' sv' ths' ab' p"
  shows "srv_rel ext nomem dcaps scaps hq' hs' sv' ths' ab'"
proof -
  let ?A = "places (length dcaps) (length scaps)"
  have "(\<Sum>p \<in> ?A. mset (pl_blks hq' hs' sv' ths' p)) =
      (\<Sum>p \<in> ?A - P. mset (pl_blks hq' hs' sv' ths' p)) + (\<Sum>p \<in> P. mset (pl_blks hq' hs' sv' ths' p))"
    by (rule sum.subset_diff[OF P]) simp
  also have "(\<Sum>p \<in> ?A - P. mset (pl_blks hq' hs' sv' ths' p)) = rest_blks (length dcaps) (length scaps) P (pl_blks hq hs sv ths)"
    unfolding rest_blks_def by (rule sum.cong) (use out in auto)
  finally have eq: "(\<Sum>p \<in> ?A. mset (pl_blks hq' hs' sv' ths' p)) =
      (\<Sum>p \<in> P. mset (pl_blks hq' hs' sv' ths' p)) + rest_blks (length dcaps) (length scaps) P (pl_blks hq hs sv ths)"
    by (simp only: add.commute)
  have "pl_rel dcaps scaps (cx_mem (sv_ctx sv')) hq' hs' sv' ths' ab' p" if p: "p \<in> ?A" for p
  proof (cases "p \<in> P")
    case False
    have "pl_rel dcaps scaps (cx_mem (sv_ctx sv)) hq hs sv ths ab p" using R p by (simp add: srv_rel_def)
    then have "pl_rel dcaps scaps (cx_mem (sv_ctx sv')) hq hs sv ths ab p"
    proof (rule pl_rel_frame)
      fix a assume "a \<in> set (pl_blks hq hs sv ths p)"
      then have "a \<in># rest_blks (length dcaps) (length scaps) P (pl_blks hq hs sv ths)"
        using p False by (auto simp: rest_blks_def set_mset_sum)
      then show "cx_mem (sv_ctx sv') a = cx_mem (sv_ctx sv) a" by (rule mem)
    qed
    then show ?thesis using out[OF False p] by simp
  qed (rule rel)
  then show ?thesis using shape own unfolding srv_rel_def eq by blast
qed

lemma srv_relD:
  assumes "srv_rel ext nomem dcaps scaps hq hs sv ths ab"
  shows "shape_ok nomem dcaps scaps sv ths ab"
    "own_ok ext (sv_ctx sv) (\<Sum>p \<in> places (length dcaps) (length scaps). mset (pl_blks hq hs sv ths p)) (th_all_bases ths)"
    "p \<in> places (length dcaps) (length scaps) \<Longrightarrow> pl_rel dcaps scaps (cx_mem (sv_ctx sv)) hq hs sv ths ab p"
  using assms by (simp_all add: srv_rel_def)

text \<open>A change of the context only.\<close>

lemma pl_cong:
  assumes "sv_distq sv' = sv_distq sv" "sv_sendq sv' = sv_sendq sv"
  shows "pl_blks hq hs sv' ths = pl_blks hq hs sv ths"
    "pl_rel dcaps scaps mem hq hs sv' ths ab = pl_rel dcaps scaps mem hq hs sv ths ab"
proof -
  have "pl_blks hq hs sv' ths p = pl_blks hq hs sv ths p" for p using assms by (cases p) simp_all
  moreover have "pl_rel dcaps scaps mem hq hs sv' ths ab p = pl_rel dcaps scaps mem hq hs sv ths ab p" for p
    using assms by (cases p) simp_all
  ultimately show "pl_blks hq hs sv' ths = pl_blks hq hs sv ths"
    "pl_rel dcaps scaps mem hq hs sv' ths ab = pl_rel dcaps scaps mem hq hs sv ths ab" by blast+
qed

lemma srv_rel_ctx:
  assumes R: "srv_rel ext nomem dcaps scaps hq hs sv ths ab"
    and own: "own_ok ext (sv_ctx sv') (\<Sum>p \<in> places (length dcaps) (length scaps). mset (pl_blks hq hs sv ths p)) (th_all_bases ths)"
    and mem: "\<And>b. b \<in># (\<Sum>p \<in> places (length dcaps) (length scaps). mset (pl_blks hq hs sv ths p)) \<Longrightarrow>
      cx_mem (sv_ctx sv') b = cx_mem (sv_ctx sv) b"
    and same: "cx_svr_map (sv_ctx sv') = cx_svr_map (sv_ctx sv)" "set (cx_allocs (sv_ctx sv')) \<subseteq> set (cx_allocs (sv_ctx sv))"
      "sv_distq sv' = sv_distq sv" "sv_sendq sv' = sv_sendq sv"
  shows "srv_rel ext nomem dcaps scaps hq hs sv' ths ab"
proof (rule srv_rel_change[OF R, of "{}"])
  show "shape_ok nomem dcaps scaps sv' ths ab" using srv_relD(1)[OF R] same by (auto simp: shape_ok_def)
qed (use own mem pl_cong[OF same(3,4)] in \<open>auto simp: rest_blks_def\<close>)

lemma srv_rand_eq:
  obtains r rs where "srv_rand sv = (r, sv\<lparr>sv_ctx := (sv_ctx sv)\<lparr>cx_rand := rs\<rparr>\<rparr>)"
proof (cases "cx_rand (sv_ctx sv)")
  case Nil
  have "(sv_ctx sv)\<lparr>cx_rand := []\<rparr> = sv_ctx sv" using Nil by simp
  then show ?thesis using that[of 0 "[]"] Nil by (simp add: srv_rand_def rtmq_rand_def)
qed (use that in \<open>simp add: srv_rand_def rtmq_rand_def\<close>)

lemma srv_alloc_eq:
  obtains b al where "srv_alloc sv = (b, sv\<lparr>sv_ctx := (sv_ctx sv)\<lparr>cx_allocs := al\<rparr>\<rparr>)"
    "set al \<subseteq> set (cx_allocs (sv_ctx sv))" "\<not> b \<Longrightarrow> False \<in> set (cx_allocs (sv_ctx sv))"
proof (cases "cx_allocs (sv_ctx sv)")
  case (Cons b al)
  then show ?thesis using that[of b al] by (auto simp: srv_alloc_def)
qed (use that[of True "[]"] in \<open>simp add: srv_alloc_def\<close>)

lemma addr_blk_of [simp]: "addr_blk (blk_addr a) = a"
  by (simp add: blk_addr_def)

subsection \<open>Accepting a message\<close>

text \<open>The message that \<open>rtmq_async_send\<close> makes.\<close>

definition srv_mesg :: "int \<Rightarrow> int \<Rightarrow> u8 list \<Rightarrow> rtmq_mesg" where
  "srv_mesg type dest body = (\<lparr>hd_type = of_int type, hd_nid = of_int dest, hd_flag = RTMQ_EXP_MESG,
     hd_length = of_nat (length body), hd_chksum = RTMQ_CHKSUM_VAL\<rparr>, body)"

lemma srv_mesg_blk:
  assumes "20 + length body < 2 ^ 31" "mem a = Some (rtmq_head_bytes (fst (srv_mesg type dest body)) @ body)"
  shows "blk_mesg mem a (srv_mesg type dest body)"
proof -
  have "unat (of_nat (length body) :: u32) = length body" by (rule unat_small) (use assms(1) in simp)
  then show ?thesis using assms by (simp add: blk_mesg_def srv_mesg_def)
qed

abbreviation no_hand :: "nat \<Rightarrow> u64 list" where "no_hand \<equiv> \<lambda>_. []"

lemma async_send_ok:
  assumes R: "srv_rel ext nomem dcaps scaps no_hand no_hand sv ths ab" and d: "dcaps \<noteq> []"
    and len: "20 + length body < 2 ^ 31"
  shows "\<exists>ret sv' ab'. rtmq_async_send sv type dest body = Some (ret, sv') \<and>
     srv_rel ext nomem dcaps scaps no_hand no_hand sv' ths ab' \<and>
     (if ret = RTMQ_OK then \<exists>d < length dcaps. length (ab_dist ab ! d) < dcaps ! d \<and>
        ab' = ab\<lparr>ab_acc := (ab_acc ab)[d := ab_acc ab ! d @ [srv_mesg type dest body]],
          ab_dist := (ab_dist ab)[d := ab_dist ab ! d @ [srv_mesg type dest body]]\<rparr>
      else ab' = ab)"
proof -
  let ?A = "places (length dcaps) (length scaps)"
  let ?M = "\<Sum>p \<in> ?A. mset (pl_blks no_hand no_hand sv ths p)"
  let ?m = "srv_mesg type dest body"
  note S = srv_relD(1)[OF R, unfolded shape_ok_def]
  obtain r rs where rnd: "srv_rand sv = (r, sv\<lparr>sv_ctx := (sv_ctx sv)\<lparr>cx_rand := rs\<rparr>\<rparr>)" by (rule srv_rand_eq)
  let ?sv = "sv\<lparr>sv_ctx := (sv_ctx sv)\<lparr>cx_rand := rs\<rparr>\<rparr>"
  define idx where "idx = r mod length (sv_distq sv)"
  have ne: "sv_distq sv \<noteq> []" and idx: "idx < length dcaps" using S d by (auto simp: idx_def)
  have own: "own_ok ext (sv_ctx ?sv) ?M (th_all_bases ths)" using srv_relD(2)[OF R] by simp
  have sz: "0 < 20 + length body" by simp
  have R1: "srv_rel ext nomem dcaps scaps no_hand no_hand ?sv ths ab" by (rule srv_rel_ctx[OF R own]) simp_all
  show ?thesis
  proof (cases rule: own_alloc[OF own sz])
    case 1
    have "rtmq_async_send sv type dest body = Some (RTMQ_ERR, ?sv)"
      using ne rnd 1 by (simp add: rtmq_async_send_def Let_def)
    then show ?thesis using R1 by (intro exI[of _ RTMQ_ERR] exI[of _ ?sv] exI[of _ ab]) (simp add: RTMQ_ERR_def RTMQ_OK_def)
  next
    case (2 a c1)
    let ?bs = "rtmq_head_bytes (fst ?m) @ body"
    let ?c2 = "c1\<lparr>cx_mem := (cx_mem c1)(a \<mapsto> ?bs)\<rparr>"
    have own2: "own_ok ext ?c2 (add_mset a ?M) (th_all_bases ths)" by (rule own_write(1)[OF 2(5)]) simp
    have m2: "cx_mem ?c2 b = cx_mem (sv_ctx sv) b" if "b \<in># ?M" for b using that 2(3,7) by auto
    note C = ctx_sameD[OF 2(6)]
    have Q: "q_rel (cx_mem (sv_ctx sv)) [] (sv_distq sv ! idx) (dcaps ! idx) (ab_dist ab ! idx)"
      using srv_relD(3)[OF R, of "PD idx"] idx by simp
    have rk: "ring_ok (sv_distq sv ! idx)" "ring_cap (sv_distq sv ! idx) = dcaps ! idx"
        "length (ring_items (sv_distq sv ! idx)) = length (ab_dist ab ! idx)"
      using Q by (auto simp: q_rel_def q_blks_def dest: list_all2_lengthD)
    show ?thesis
    proof (cases "length (ring_items (sv_distq sv ! idx)) < ring_cap (sv_distq sv ! idx)")
      case True
      then obtain q' where q': "ring_push (sv_distq sv ! idx) (blk_addr a) = Some (0, q')" "ring_ok q'"
          "ring_items q' = ring_items (sv_distq sv ! idx) @ [blk_addr a]" "ring_cap q' = ring_cap (sv_distq sv ! idx)"
        using push_ok[OF rk(1), of "blk_addr a"] by auto
      let ?sv2 = "?sv\<lparr>sv_ctx := ?c2, sv_distq := (sv_distq sv)[idx := q'], sv_dist_cmds := sv_dist_cmds sv + 1\<rparr>"
      let ?ab = "ab\<lparr>ab_acc := (ab_acc ab)[idx := ab_acc ab ! idx @ [?m]], ab_dist := (ab_dist ab)[idx := ab_dist ab ! idx @ [?m]]\<rparr>"
      have run: "rtmq_async_send sv type dest body = Some (RTMQ_OK, ?sv2)"
        using ne rnd 2(1,2) q'(1)
        by (simp add: rtmq_async_send_def Let_def idx_def[symmetric] srv_mesg_def rtmq_cmd_send_dist_req_def)
      have "srv_rel ext nomem dcaps scaps no_hand no_hand ?sv2 ths ?ab"
      proof (rule srv_rel_change[OF R, of "{PD idx}"])
        show "{PD idx} \<subseteq> ?A" using idx by simp
        show "shape_ok nomem dcaps scaps ?sv2 ths ?ab" using S C by (simp add: shape_ok_def)
        have P1: "{PD idx} \<subseteq> ?A" using idx by simp
        show "own_ok ext (sv_ctx ?sv2) ((\<Sum>p \<in> {PD idx}. mset (pl_blks no_hand no_hand ?sv2 ths p)) +
            rest_blks (length dcaps) (length scaps) {PD idx} (pl_blks no_hand no_hand sv ths)) (th_all_bases ths)"
          using own2 S idx unfolding rest_blks_def sum.subset_diff[OF P1 places_simps(4), of "\<lambda>p. mset (pl_blks no_hand no_hand sv ths p)"]
          by (simp add: q_blks_def q'(3) add.commute)
        show "cx_mem (sv_ctx ?sv2) b = cx_mem (sv_ctx sv) b"
          if "b \<in># rest_blks (length dcaps) (length scaps) {PD idx} (pl_blks no_hand no_hand sv ths)" for b
        proof -
          have "b \<in># ?M" using that by (auto simp: rest_blks_def set_mset_sum)
          then show ?thesis using m2 by simp
        qed
        show "pl_blks no_hand no_hand ?sv2 ths p = pl_blks no_hand no_hand sv ths p \<and>
            (\<forall>mem. pl_rel dcaps scaps mem no_hand no_hand ?sv2 ths ?ab p = pl_rel dcaps scaps mem no_hand no_hand sv ths ab p)"
          if "p \<notin> {PD idx}" for p using that by (cases p) auto
        have l: "list_all2 (blk_mesg (cx_mem ?c2)) (q_blks [] (sv_distq sv ! idx)) (ab_dist ab ! idx)"
        proof (rule blks_frame)
          show "list_all2 (blk_mesg (cx_mem (sv_ctx sv))) (q_blks [] (sv_distq sv ! idx)) (ab_dist ab ! idx)"
            using Q by (simp add: q_rel_def)
          fix b assume "b \<in> set (q_blks [] (sv_distq sv ! idx))"
          then have "b \<in># ?M" using idx by (auto simp: set_mset_sum intro!: bexI[of _ "PD idx"])
          then show "cx_mem ?c2 b = cx_mem (sv_ctx sv) b" by (rule m2)
        qed
        have bm: "blk_mesg (cx_mem ?c2) a ?m" by (rule srv_mesg_blk[OF len]) simp
        show "pl_rel dcaps scaps (cx_mem (sv_ctx ?sv2)) no_hand no_hand ?sv2 ths ?ab p" if "p \<in> {PD idx}" for p
          using that S idx l bm q'(2-4) rk(2) by (simp add: q_rel_def q_blks_def list_all2_appendI)
      qed
      moreover have "length (ab_dist ab ! idx) < dcaps ! idx" using True rk by simp
      ultimately show ?thesis using run idx by (intro exI[of _ RTMQ_OK] exI[of _ ?sv2] exI[of _ ?ab]) auto
    next
      case False
      then have full: "ring_push (sv_distq sv ! idx) (blk_addr a) = Some (- 1, sv_distq sv ! idx)"
        using push_ok[OF rk(1), of "blk_addr a"] by simp
      let ?sv2 = "?sv\<lparr>sv_ctx := ?c2\<rparr>"
      have "own_ok ext (sv_ctx ?sv2) (add_mset a ?M) (th_all_bases ths)" using own2 by simp
      from srv_dec_ok[OF this] obtain c3 where c3: "srv_dec ?sv2 a = Some (?sv\<lparr>sv_ctx := c3\<rparr>)"
        "own_ok ext c3 ?M (th_all_bases ths)" "ctx_same ?c2 c3" "\<And>b. b \<noteq> a \<Longrightarrow> cx_mem c3 b = cx_mem ?c2 b" by auto
      have sq: "sv\<lparr>sv_ctx := c, sv_distq := (sv_distq sv)[idx := sv_distq sv ! idx]\<rparr> = sv\<lparr>sv_ctx := c\<rparr>" for c by simp
      have run: "rtmq_async_send sv type dest body = Some (RTMQ_ERR, sv\<lparr>sv_ctx := c3\<rparr>)"
        using ne rnd 2(1,2) full c3(1)
        by (simp add: rtmq_async_send_def Let_def idx_def[symmetric] srv_mesg_def sq)
      have m3: "cx_mem c3 b = cx_mem (sv_ctx sv) b" if "b \<in># ?M" for b
      proof -
        have "b \<noteq> a" using that 2(3) by metis
        then show ?thesis using c3(4)[of b] m2[OF that] by simp
      qed
      have "srv_rel ext nomem dcaps scaps no_hand no_hand (sv\<lparr>sv_ctx := c3\<rparr>) ths ab"
        by (rule srv_rel_ctx[OF R]) (use c3(2) C ctx_sameD[OF c3(3)] m3 in auto)
      then show ?thesis using run by (intro exI[of _ RTMQ_ERR] exI[of _ "sv\<lparr>sv_ctx := c3\<rparr>"] exI[of _ ab]) (simp add: RTMQ_ERR_def RTMQ_OK_def)
    qed
  qed
qed

subsection \<open>Distribution\<close>

text \<open>What the places own, with some of them apart.\<close>

lemma rest_in: "b \<in># rest_blks n k P f \<Longrightarrow> b \<in># (\<Sum>p \<in> places n k. mset (f p))"
  by (auto simp: rest_blks_def set_mset_sum)

lemma srv_split1:
  assumes "srv_rel ext nomem dcaps scaps hq hs sv ths ab" "x \<in> places (length dcaps) (length scaps)"
  shows "own_ok ext (sv_ctx sv) (mset (pl_blks hq hs sv ths x) +
     rest_blks (length dcaps) (length scaps) {x} (pl_blks hq hs sv ths)) (th_all_bases ths)"
  using srv_rel_split[OF assms(1), of "{x}"] assms(2) by simp

lemma srv_split2:
  assumes "srv_rel ext nomem dcaps scaps hq hs sv ths ab" "x \<in> places (length dcaps) (length scaps)"
    "y \<in> places (length dcaps) (length scaps)" "x \<noteq> y"
  shows "own_ok ext (sv_ctx sv) (mset (pl_blks hq hs sv ths x) + mset (pl_blks hq hs sv ths y) +
     rest_blks (length dcaps) (length scaps) {x, y} (pl_blks hq hs sv ths)) (th_all_bases ths)"
  using srv_rel_split[OF assms(1), of "{x, y}"] assms(2-4) by simp

text \<open>The counters of commands do not matter.\<close>

lemma srv_rel_cmds [simp]:
  "srv_rel ext nomem dcaps scaps hq hs (sv\<lparr>sv_recv_cmds := cs\<rparr>) ths ab = srv_rel ext nomem dcaps scaps hq hs sv ths ab"
proof -
  have "pl_blks hq hs (sv\<lparr>sv_recv_cmds := cs\<rparr>) ths = pl_blks hq hs sv ths"
    "\<And>mem. pl_rel dcaps scaps mem hq hs (sv\<lparr>sv_recv_cmds := cs\<rparr>) ths ab = pl_rel dcaps scaps mem hq hs sv ths ab"
    by (rule pl_cong; simp)+
  then show ?thesis by (simp add: srv_rel_def shape_ok_def)
qed

text \<open>A message that was taken from a distribution queue is dropped.\<close>

lemma lose_ok:
  assumes R: "srv_rel ext nomem dcaps scaps hq hs sv ths ab" and d: "d < length dcaps"
    and h: "hq d = a # as" "ab_dist ab ! d = m # ms"
  shows "\<exists>sv'. srv_dec sv a = Some sv' \<and> srv_rel ext nomem dcaps scaps (hq(d := as)) hs sv' ths
     (ab\<lparr>ab_dist := (ab_dist ab)[d := ms], ab_lost := ab_lost ab @ [(d, m)]\<rparr>)"
proof -
  let ?R = "rest_blks (length dcaps) (length scaps) {PD d} (pl_blks hq hs sv ths)"
  let ?ab = "ab\<lparr>ab_dist := (ab_dist ab)[d := ms], ab_lost := ab_lost ab @ [(d, m)]\<rparr>"
  note S = srv_relD(1)[OF R, unfolded shape_ok_def]
  have pd: "PD d \<in> places (length dcaps) (length scaps)" using d by simp
  have "own_ok ext (sv_ctx sv) (add_mset a (mset (q_blks as (sv_distq sv ! d)) + ?R)) (th_all_bases ths)"
    using srv_split1[OF R pd] by (simp add: q_blks_def h(1))
  from srv_dec_ok[OF this] obtain ctx' where c: "srv_dec sv a = Some (sv\<lparr>sv_ctx := ctx'\<rparr>)"
    "own_ok ext ctx' (mset (q_blks as (sv_distq sv ! d)) + ?R) (th_all_bases ths)" "ctx_same (sv_ctx sv) ctx'"
    "\<And>b. b \<noteq> a \<Longrightarrow> cx_mem ctx' b = cx_mem (sv_ctx sv) b" by blast
  have own1: "own_ok ext (sv_ctx sv) ({#a#} + (mset (q_blks as (sv_distq sv ! d)) + ?R)) (th_all_bases ths)"
    using srv_split1[OF R pd] by (simp add: q_blks_def h(1))
  have na: "a \<notin># mset (q_blks as (sv_distq sv ! d)) + ?R" by (rule own_apart[OF own1]) simp
  then have fr: "cx_mem ctx' b = cx_mem (sv_ctx sv) b" if "b \<in># mset (q_blks as (sv_distq sv ! d)) + ?R" for b
    using c(4)[of b] that by metis
  have Q: "q_rel (cx_mem (sv_ctx sv)) (a # as) (sv_distq sv ! d) (dcaps ! d) (m # ms)"
    using srv_relD(3)[OF R pd] h by simp
  have Q': "q_rel (cx_mem ctx') as (sv_distq sv ! d) (dcaps ! d) ms"
  proof -
    have "list_all2 (blk_mesg (cx_mem (sv_ctx sv))) (q_blks as (sv_distq sv ! d)) ms" using Q by (simp add: q_rel_def q_blks_def)
    then have "list_all2 (blk_mesg (cx_mem ctx')) (q_blks as (sv_distq sv ! d)) ms" by (rule blks_frame) (rule fr, simp)
    then show ?thesis using Q by (simp add: q_rel_def)
  qed
  have "srv_rel ext nomem dcaps scaps (hq(d := as)) hs (sv\<lparr>sv_ctx := ctx'\<rparr>) ths ?ab"
  proof (rule srv_rel_change[OF R, of "{PD d}"])
    show "shape_ok nomem dcaps scaps (sv\<lparr>sv_ctx := ctx'\<rparr>) ths ?ab" using S ctx_sameD[OF c(3)] by (simp add: shape_ok_def)
    show "pl_blks (hq(d := as)) hs (sv\<lparr>sv_ctx := ctx'\<rparr>) ths p = pl_blks hq hs sv ths p \<and>
        (\<forall>mem. pl_rel dcaps scaps mem (hq(d := as)) hs (sv\<lparr>sv_ctx := ctx'\<rparr>) ths ?ab p =
          pl_rel dcaps scaps mem hq hs sv ths ab p)" if "p \<notin> {PD d}" for p using that by (cases p) auto
    show "pl_rel dcaps scaps (cx_mem (sv_ctx (sv\<lparr>sv_ctx := ctx'\<rparr>))) (hq(d := as)) hs (sv\<lparr>sv_ctx := ctx'\<rparr>) ths ?ab p"
      if "p \<in> {PD d}" for p using that Q' S d by simp
  qed (use c(2) fr pd in simp_all)
  then show ?thesis using c(1) by blast
qed

lemma rtmq_map_rand:
  assumes "map_ok k (cx_svr_map ctx)"
  shows "case cx_svr_map ctx nid of None \<Rightarrow> rtmq_node_to_svr_map_rand ctx nid = Some (- 1, ctx)
    | Some ids \<Rightarrow> \<exists>t rs. rtmq_node_to_svr_map_rand ctx nid = Some (int t, ctx\<lparr>cx_rand := rs\<rparr>) \<and> int t \<in> set ids \<and> t < k"
proof (cases "cx_svr_map ctx nid")
  case (Some ids)
  have ids: "ids \<noteq> []" "\<And>i. i \<in> set ids \<Longrightarrow> 0 \<le> i \<and> nat i < k" using assms Some by (auto simp: map_ok_def)
  obtain r rs where r: "rtmq_rand ctx = (r, ctx\<lparr>cx_rand := rs\<rparr>)"
  proof (cases "cx_rand ctx")
    case Nil
    have "ctx\<lparr>cx_rand := []\<rparr> = ctx" using Nil by simp
    then show ?thesis using that[of 0 "[]"] Nil by (simp add: rtmq_rand_def)
  qed (use that in \<open>simp add: rtmq_rand_def\<close>)
  have m: "ids ! (r mod length ids) \<in> set ids" using ids(1) by simp
  then have "int (nat (ids ! (r mod length ids))) = ids ! (r mod length ids)" "nat (ids ! (r mod length ids)) < k"
    using ids(2)[OF m] by simp_all
  then show ?thesis using Some r ids(1) m
    by (auto simp: rtmq_node_to_svr_map_rand_def intro!: exI[of _ "nat (ids ! (r mod length ids))"])
qed (simp add: rtmq_node_to_svr_map_rand_def)

lemma q_rel_push:
  assumes "q_rel mem hand q cap ms" "blk_mesg mem (addr_blk p) m" "ring_ok q'" "ring_items q' = ring_items q @ [p]"
    "ring_cap q' = ring_cap q"
  shows "q_rel mem hand q' cap (ms @ [m])"
proof -
  have "q_blks hand q' = q_blks hand q @ [addr_blk p]" by (simp add: q_blks_def assms(4))
  then show ?thesis using assms by (simp add: q_rel_def list_all2_appendI)
qed

lemma move_ok:
  assumes R: "srv_rel ext nomem dcaps scaps hq hs sv ths ab" and d: "d < length dcaps" and t: "t < length scaps"
    and h: "hq d = addr_blk p # as" "ab_dist ab ! d = m # ms"
    and q: "ring_push (sv_sendq sv ! t) p = Some (0, q)" "ring_ok q" "ring_items q = ring_items (sv_sendq sv ! t) @ [p]"
      "ring_cap q = ring_cap (sv_sendq sv ! t)"
  shows "srv_rel ext nomem dcaps scaps (hq(d := as)) hs (sv\<lparr>sv_sendq := (sv_sendq sv)[t := q]\<rparr>) ths
     (ab\<lparr>ab_dist := (ab_dist ab)[d := ms], ab_send := (ab_send ab)[t := ab_send ab ! t @ [(d, m)]]\<rparr>)"
    (is "srv_rel _ _ _ _ ?hq _ ?sv _ ?ab")
proof (rule srv_rel_change[OF R, of "{PD d, PS t}"])
  note S = srv_relD(1)[OF R, unfolded shape_ok_def]
  have pl: "PD d \<in> places (length dcaps) (length scaps)" "PS t \<in> places (length dcaps) (length scaps)" using d t by simp_all
  show "{PD d, PS t} \<subseteq> places (length dcaps) (length scaps)" using pl by simp
  show "shape_ok nomem dcaps scaps ?sv ths ?ab" using S by (simp add: shape_ok_def)
  show "own_ok ext (sv_ctx ?sv) ((\<Sum>p \<in> {PD d, PS t}. mset (pl_blks ?hq hs ?sv ths p)) +
      rest_blks (length dcaps) (length scaps) {PD d, PS t} (pl_blks hq hs sv ths)) (th_all_bases ths)"
    using srv_split2[OF R pl] S t by (simp add: q_blks_def h(1) q(3))
  show "pl_blks ?hq hs ?sv ths p = pl_blks hq hs sv ths p \<and>
      (\<forall>mem. pl_rel dcaps scaps mem ?hq hs ?sv ths ?ab p = pl_rel dcaps scaps mem hq hs sv ths ab p)"
    if "p \<notin> {PD d, PS t}" for p using that by (cases p) auto
  have QD: "q_rel (cx_mem (sv_ctx sv)) (addr_blk p # as) (sv_distq sv ! d) (dcaps ! d) (m # ms)"
    using srv_relD(3)[OF R pl(1)] h by simp
  then have bm: "blk_mesg (cx_mem (sv_ctx sv)) (addr_blk p) m" "q_rel (cx_mem (sv_ctx sv)) as (sv_distq sv ! d) (dcaps ! d) ms"
    by (simp_all add: q_rel_def q_blks_def)
  have "q_rel (cx_mem (sv_ctx sv)) (hs t) q (scaps ! t) (map snd (ab_send ab ! t) @ [m])"
    by (rule q_rel_push[OF _ bm(1) q(2-4)]) (use srv_relD(3)[OF R pl(2)] in simp)
  then show "pl_rel dcaps scaps (cx_mem (sv_ctx ?sv)) ?hq hs ?sv ths ?ab x" if "x \<in> {PD d, PS t}" for x
    using that bm(2) S d t by auto
qed simp

lemma dist_one_ok:
  assumes R: "srv_rel ext nomem dcaps scaps hq no_hand sv ths ab" and d: "d < length dcaps"
    and h: "hq d = addr_blk p # as"
  shows "\<exists>sv' ab'. rtmq_dsvr_dist_one p sv = Some sv' \<and> srv_rel ext nomem dcaps scaps (hq(d := as)) no_hand sv' ths ab' \<and>
     srv_step nomem dcaps scaps ab ab'"
proof -
  note S = srv_relD(1)[OF R, unfolded shape_ok_def]
  have pd: "PD d \<in> places (length dcaps) (length scaps)" using d by simp
  obtain m ms where m: "ab_dist ab ! d = m # ms" "blk_mesg (cx_mem (sv_ctx sv)) (addr_blk p) m"
    using srv_relD(3)[OF R pd] h by (auto simp: q_rel_def q_blks_def list_all2_Cons1)
  let ?nid = "sint (hd_nid (fst m))"
  obtain bs where bs: "cx_mem (sv_ctx sv) (addr_blk p) = Some bs" "rtmq_head_load bs 0 = Some (fst m)"
    using blk_mesg_load[OF m(2)] by blast
  have mo: "map_ok (length scaps) (cx_svr_map (sv_ctx sv))" using S by simp
  have dl: "d < length (ab_dist ab)" using S d by simp
  have sv0: "sv\<lparr>sv_ctx := sv_ctx sv\<rparr> = sv" by simp
  let ?lost = "ab\<lparr>ab_dist := (ab_dist ab)[d := ms], ab_lost := ab_lost ab @ [(d, m)]\<rparr>"
  show ?thesis
  proof (cases "cx_svr_map (sv_ctx sv) ?nid")
    case None
    obtain sv' where sv': "srv_dec sv (addr_blk p) = Some sv'" "srv_rel ext nomem dcaps scaps (hq(d := as)) no_hand sv' ths ?lost"
      using lose_ok[OF R d h m(1)] by blast
    have "rtmq_dsvr_dist_one p sv = Some sv'"
      using bs None rtmq_map_rand[OF mo, of ?nid] sv'(1) by (simp add: rtmq_dsvr_dist_one_def sv0)
    moreover have "srv_step nomem dcaps scaps ab ?lost"
      by (rule srv_step.lose[OF dl m(1)]) (use None S in simp)
    ultimately show ?thesis using sv'(2) by blast
  next
    case (Some ids)
    obtain t rs where t: "rtmq_node_to_svr_map_rand (sv_ctx sv) ?nid = Some (int t, (sv_ctx sv)\<lparr>cx_rand := rs\<rparr>)"
      "int t \<in> set ids" "t < length scaps" using rtmq_map_rand[OF mo, of ?nid] Some by auto
    let ?sv = "sv\<lparr>sv_ctx := (sv_ctx sv)\<lparr>cx_rand := rs\<rparr>\<rparr>"
    have R1: "srv_rel ext nomem dcaps scaps hq no_hand ?sv ths ab"
      by (rule srv_rel_ctx[OF R]) (use srv_relD(2)[OF R] in simp_all)
    have ps: "PS t \<in> places (length dcaps) (length scaps)" using t(3) by simp
    have rk: "ring_ok (sv_sendq sv ! t)" "ring_cap (sv_sendq sv ! t) = scaps ! t"
      "length (ring_items (sv_sendq sv ! t)) = length (ab_send ab ! t)"
      using srv_relD(3)[OF R ps] by (auto simp: q_rel_def q_blks_def dest: list_all2_lengthD)
    have tl: "t < length (sv_sendq sv)" using S t(3) by simp
    show ?thesis
    proof (cases "length (ring_items (sv_sendq sv ! t)) < ring_cap (sv_sendq sv ! t)")
      case True
      then obtain q where q: "ring_push (sv_sendq sv ! t) p = Some (0, q)" "ring_ok q"
          "ring_items q = ring_items (sv_sendq sv ! t) @ [p]" "ring_cap q = ring_cap (sv_sendq sv ! t)"
        using push_ok[OF rk(1), of p] by auto
      let ?ab = "ab\<lparr>ab_dist := (ab_dist ab)[d := ms], ab_send := (ab_send ab)[t := ab_send ab ! t @ [(d, m)]]\<rparr>"
      have "srv_rel ext nomem dcaps scaps (hq(d := as)) no_hand (?sv\<lparr>sv_sendq := (sv_sendq ?sv)[t := q]\<rparr>) ths ?ab"
        by (rule move_ok[OF R1 d t(3) h m(1)]) (use q in simp_all)
      moreover have "srv_step nomem dcaps scaps ab ?ab"
        by (rule srv_step.move[OF dl m(1) _ t(2)]) (use Some S t(3) True rk in simp_all)
      moreover have "rtmq_dsvr_dist_one p sv = Some (rtmq_dsvr_cmd_dist_req (?sv\<lparr>sv_sendq := (sv_sendq ?sv)[t := q]\<rparr>) t)"
        using bs t(1) tl q(1) by (simp add: rtmq_dsvr_dist_one_def)
      ultimately show ?thesis by (fastforce simp: rtmq_dsvr_cmd_dist_req_def)
    next
      case False
      then have q: "ring_push (sv_sendq sv ! t) p = Some (- 1, sv_sendq sv ! t)" using push_ok[OF rk(1), of p] by simp
      have full: "length (ab_send ab ! t) = scaps ! t"
        using False rk ring_q.fits[OF rk(1)] by simp
      have sq: "sv\<lparr>sv_ctx := c, sv_sendq := (sv_sendq sv)[t := sv_sendq sv ! t]\<rparr> = sv\<lparr>sv_ctx := c\<rparr>" for c by simp
      obtain sv' where sv': "srv_dec ?sv (addr_blk p) = Some sv'" "srv_rel ext nomem dcaps scaps (hq(d := as)) no_hand sv' ths ?lost"
        using lose_ok[OF R1 d h m(1)] by blast
      have "rtmq_dsvr_dist_one p sv = Some sv'"
        using bs t(1) tl q sv'(1) by (simp add: rtmq_dsvr_dist_one_def sq)
      moreover have "srv_step nomem dcaps scaps ab ?lost"
        by (rule srv_step.lose[OF dl m(1)]) (use Some S t full in auto)
      ultimately show ?thesis using sv'(2) by blast
    qed
  qed
qed

text \<open>A batch from a ring.\<close>

lemma ring_batch:
  assumes ok: "ring_ok rq" and num: "num = min (ring_used rq) lim" and lim: "lim \<noteq> 0"
  shows "if num = 0 then ring_items rq = []
    else \<exists>rq' xs. ring_mpop rq num = Some (num, xs, rq') \<and> ring_ok rq' \<and> ring_items rq = xs @ ring_items rq' \<and> xs \<noteq> [] \<and>
      ring_cap rq' = ring_cap rq"
proof -
  have used: "unat (ring_used rq) = length (ring_items rq)" by (rule used_ok[OF ok])
  show ?thesis
  proof (cases "num = 0")
    case True
    then have "ring_used rq = 0" using num lim by (auto simp: min_def split: if_splits)
    then show ?thesis using True used by simp
  next
    case False
    then have n: "0 < unat num" by (simp add: unat_gt_0)
    have le: "unat num \<le> length (ring_items rq)" unfolding num used[symmetric] by (simp add: min_def word_le_nat_alt)
    obtain rq' where q: "ring_mpop rq num = Some (num, take (unat num) (ring_items rq), rq')" "ring_ok rq'"
        "ring_items rq' = drop (unat num) (ring_items rq)" "ring_cap rq' = ring_cap rq"
      using mpop_ok[OF ok, of num] le by auto
    have "take (unat num) (ring_items rq) \<noteq> []" using n le by auto
    moreover have "ring_items rq = take (unat num) (ring_items rq) @ ring_items rq'" by (simp add: q(3))
    ultimately show ?thesis using False q(1,2,4) by (metis (no_types))
  qed
qed

lemma q_pop:
  assumes "ring_ok q" "ring_ok q'" "ring_items q = xs @ ring_items q'" "ring_cap q' = ring_cap q"
  shows "q_blks (map addr_blk xs) q' = q_blks [] q" "q_rel mem (map addr_blk xs) q' cap ms = q_rel mem [] q cap ms"
proof -
  show e: "q_blks (map addr_blk xs) q' = q_blks [] q" by (simp add: q_blks_def assms(3))
  show "q_rel mem (map addr_blk xs) q' cap ms = q_rel mem [] q cap ms" unfolding q_rel_def e using assms by simp
qed

lemma dist_items_ok:
  "srv_rel ext nomem dcaps scaps hq no_hand sv ths ab \<Longrightarrow> d < length dcaps \<Longrightarrow> hq d = map addr_blk ps \<Longrightarrow>
   \<exists>sv' ab'. rtmq_dsvr_dist_items ps sv = Some sv' \<and> srv_rel ext nomem dcaps scaps (hq(d := [])) no_hand sv' ths ab' \<and>
     (srv_step nomem dcaps scaps)\<^sup>*\<^sup>* ab ab'"
proof (induction ps arbitrary: hq sv ab)
  case Nil
  then have "hq(d := []) = hq" by auto
  then show ?case using Nil by auto
next
  case (Cons p ps)
  have h: "hq d = addr_blk p # map addr_blk ps" using Cons.prems(3) by simp
  from dist_one_ok[OF Cons.prems(1,2) h] obtain sv1 ab1 where 1: "rtmq_dsvr_dist_one p sv = Some sv1"
    "srv_rel ext nomem dcaps scaps (hq(d := map addr_blk ps)) no_hand sv1 ths ab1" "srv_step nomem dcaps scaps ab ab1" by blast
  have "(hq(d := map addr_blk ps)) d = map addr_blk ps" by simp
  from Cons.IH[OF 1(2) Cons.prems(2) this, unfolded fun_upd_upd] obtain sv2 ab2 where
    2: "rtmq_dsvr_dist_items ps sv1 = Some sv2"
      "srv_rel ext nomem dcaps scaps (hq(d := [])) no_hand sv2 ths ab2" "(srv_step nomem dcaps scaps)\<^sup>*\<^sup>* ab1 ab2" by blast
  have "(srv_step nomem dcaps scaps)\<^sup>*\<^sup>* ab ab2" using 1(3) 2(3) by (rule converse_rtranclp_into_rtranclp)
  moreover have "rtmq_dsvr_dist_items (p # ps) sv = Some sv2" using 1(1) 2(1) by simp
  ultimately show ?case using 2(2) by blast
qed

lemma dist_queue_ok:
  assumes R: "srv_rel ext nomem dcaps scaps no_hand no_hand sv ths ab" and d: "d < length dcaps"
  shows "\<exists>sv' ab'. rtmq_dsvr_dist_queue d sv = Some sv' \<and> srv_rel ext nomem dcaps scaps no_hand no_hand sv' ths ab' \<and>
     (srv_step nomem dcaps scaps)\<^sup>*\<^sup>* ab ab'"
proof -
  note S = srv_relD(1)[OF R, unfolded shape_ok_def]
  define num where "num = min (ring_used (sv_distq sv ! d)) RTRD_DISP_POP_NUM"
  have ok: "ring_ok (sv_distq sv ! d)" using srv_relD(3)[OF R, of "PD d"] d by (simp add: q_rel_def)
  have lim: "RTRD_DISP_POP_NUM \<noteq> 0" by (simp add: RTRD_DISP_POP_NUM_def)
  note B = ring_batch[OF ok num_def lim]
  show ?thesis
  proof (cases "num = 0")
    case True
    then have "rtmq_dsvr_dist_queue d sv = Some sv" by (simp add: rtmq_dsvr_dist_queue_def num_def[symmetric])
    then show ?thesis using R by blast
  next
    case False
    then obtain q xs where q: "ring_mpop (sv_distq sv ! d) num = Some (num, xs, q)" "ring_ok q"
        "ring_items (sv_distq sv ! d) = xs @ ring_items q" "ring_cap q = ring_cap (sv_distq sv ! d)" using B by auto
    let ?sv = "sv\<lparr>sv_distq := (sv_distq sv)[d := q]\<rparr>"
    note Q = q_pop[OF ok q(2-4)]
    have R1: "srv_rel ext nomem dcaps scaps (no_hand(d := map addr_blk xs)) no_hand ?sv ths ab"
    proof (rule srv_rel_change[OF R, of "{}"])
      show "shape_ok nomem dcaps scaps ?sv ths ab" using S by (simp add: shape_ok_def)
      show "own_ok ext (sv_ctx ?sv) ((\<Sum>p \<in> {}. mset (pl_blks (no_hand(d := map addr_blk xs)) no_hand ?sv ths p)) +
          rest_blks (length dcaps) (length scaps) {} (pl_blks no_hand no_hand sv ths)) (th_all_bases ths)"
        using srv_relD(2)[OF R] by (simp add: rest_blks_def)
      show "pl_blks (no_hand(d := map addr_blk xs)) no_hand ?sv ths p = pl_blks no_hand no_hand sv ths p \<and>
          (\<forall>mem. pl_rel dcaps scaps mem (no_hand(d := map addr_blk xs)) no_hand ?sv ths ab p =
            pl_rel dcaps scaps mem no_hand no_hand sv ths ab p)" for p
        using Q S d by (cases p) (auto simp: nth_list_update)
    qed simp_all
    have "(no_hand(d := map addr_blk xs)) d = map addr_blk xs" by simp
    from dist_items_ok[OF R1 d this] obtain sv' ab' where D: "rtmq_dsvr_dist_items xs ?sv = Some sv'"
      "srv_rel ext nomem dcaps scaps (no_hand(d := map addr_blk xs, d := [])) no_hand sv' ths ab'"
      "(srv_step nomem dcaps scaps)\<^sup>*\<^sup>* ab ab'" by blast
    have "no_hand(d := map addr_blk xs, d := []) = no_hand" by auto
    moreover have "rtmq_dsvr_dist_queue d sv = Some sv'"
      using False q(1) D(1) by (simp add: rtmq_dsvr_dist_queue_def num_def[symmetric])
    ultimately show ?thesis using D by (auto simp del: fun_upd_upd)
  qed
qed

lemma dist_queues_ok:
  "srv_rel ext nomem dcaps scaps no_hand no_hand sv ths ab \<Longrightarrow> \<forall>d \<in> set ds. d < length dcaps \<Longrightarrow>
   \<exists>sv' ab'. rtmq_dsvr_dist_queues ds sv = Some sv' \<and> srv_rel ext nomem dcaps scaps no_hand no_hand sv' ths ab' \<and>
     (srv_step nomem dcaps scaps)\<^sup>*\<^sup>* ab ab'"
proof (induction ds arbitrary: sv ab)
  case (Cons d ds)
  have d: "d < length dcaps" using Cons.prems(2) by simp
  from dist_queue_ok[OF Cons.prems(1) d] obtain sv1 ab1 where 1: "rtmq_dsvr_dist_queue d sv = Some sv1"
    "srv_rel ext nomem dcaps scaps no_hand no_hand sv1 ths ab1" "(srv_step nomem dcaps scaps)\<^sup>*\<^sup>* ab ab1" by blast
  from Cons.IH[OF 1(2)] Cons.prems(2) obtain sv2 ab2 where 2: "rtmq_dsvr_dist_queues ds sv1 = Some sv2"
    "srv_rel ext nomem dcaps scaps no_hand no_hand sv2 ths ab2" "(srv_step nomem dcaps scaps)\<^sup>*\<^sup>* ab1 ab2" by auto
  have "(srv_step nomem dcaps scaps)\<^sup>*\<^sup>* ab ab2" using 1(3) 2(3) by (rule rtranclp_trans)
  then show ?case using 1(1) 2(1,2) by auto
qed auto

lemma dist_ok:
  assumes R: "srv_rel ext nomem dcaps scaps no_hand no_hand sv ths ab"
  shows "\<exists>sv' ab'. rtmq_dsvr_dist_data_hdl sv = Some (RTMQ_OK, sv') \<and>
     srv_rel ext nomem dcaps scaps no_hand no_hand sv' ths ab' \<and> (srv_step nomem dcaps scaps)\<^sup>*\<^sup>* ab ab'"
proof -
  have "length (sv_distq sv) = length dcaps" using srv_relD(1)[OF R] by (simp add: shape_ok_def)
  then have "\<forall>d \<in> set [0..<length (sv_distq sv)]. d < length dcaps" by simp
  from dist_queues_ok[OF R this] show ?thesis by (auto simp: rtmq_dsvr_dist_data_hdl_def)
qed

end
