(* ===== verification/Rtmq_Give.thy ===== *)
theory Rtmq_Give
  imports Rtmq_Send
begin

text \<open>
  The receiving thread hands the messages of its queue to connections and writes what the sockets take.
\<close>

subsection \<open>One thread\<close>

lemma srv_upd_ctx: "sv\<lparr>sv_ctx := sv_ctx sv\<rparr> = sv" by simp

lemma th_relD:
  assumes "th_rel mem t th lks"
  shows "rv_id (th_rsvr th) = t" "None \<notin> set (th_conns th)" "length (th_conns th) = length lks"
    "i < length lks \<Longrightarrow> th_conns th ! i = Some (th_list th ! i)" "i < length lks \<Longrightarrow> conn_rel mem (th_list th ! i) (lks ! i)"
proof -
  show "rv_id (th_rsvr th) = t" "None \<notin> set (th_conns th)" using assms by (simp_all add: th_rel_def)
  show l: "length (th_conns th) = length lks" using assms by (auto simp: th_rel_def th_list_def dest: list_all2_lengthD)
  assume i: "i < length lks"
  have "th_conns th ! i \<noteq> None" using i l assms by (metis nth_mem th_rel_def)
  then show "th_conns th ! i = Some (th_list th ! i)" using i l by (simp add: th_list_def)
  show "conn_rel mem (th_list th ! i) (lks ! i)" using assms i l by (auto simp: th_rel_def th_list_def dest: list_all2_nthD)
qed

text \<open>A connection apart from the others of its thread.\<close>

lemma th_split:
  assumes i: "i < length (th_conns th)" and c: "th_conns th ! i = Some c"
  shows "mset (th_blks th) = mset (conn_blks c) +
       mset (concat (map conn_blks (take i (th_list th) @ drop (Suc i) (th_list th))))"
    "mset (th_bases th) = add_mset (conn_base c) (mset (map conn_base (take i (th_list th) @ drop (Suc i) (th_list th))))"
    "th_conns th = take i (th_conns th) @ Some c # drop (Suc i) (th_conns th)"
    "th_list th = take i (th_list th) @ c # drop (Suc i) (th_list th)"
proof -
  show s: "th_conns th = take i (th_conns th) @ Some c # drop (Suc i) (th_conns th)"
    using id_take_nth_drop[OF i] c by simp
  have "th_list th ! i = c" "i < length (th_list th)" using i c by (simp_all add: th_list_def)
  then show l: "th_list th = take i (th_list th) @ c # drop (Suc i) (th_list th)" using id_take_nth_drop[of i "th_list th"] by simp
  show "mset (th_blks th) = mset (conn_blks c) +
       mset (concat (map conn_blks (take i (th_list th) @ drop (Suc i) (th_list th))))"
    unfolding th_blks_def by (subst l) simp
  show "mset (th_bases th) = add_mset (conn_base c) (mset (map conn_base (take i (th_list th) @ drop (Suc i) (th_list th))))"
    unfolding th_bases_def by (subst l) simp
qed

lemma th_list_set: "th_list (conn_set th i c) = (th_list th)[i := c]"
  by (simp add: th_list_def conn_set_def map_update)

lemma th_blks_set:
  assumes "i < length (th_conns th)"
  shows "mset (th_blks (conn_set th i c)) = mset (conn_blks c) +
       mset (concat (map conn_blks (take i (th_list th) @ drop (Suc i) (th_list th))))"
    "th_bases (conn_set th i c) = (th_bases th)[i := conn_base c]"
proof -
  have "i < length (th_list th)" using assms by (simp add: th_list_def)
  then show "mset (th_blks (conn_set th i c)) = mset (conn_blks c) +
       mset (concat (map conn_blks (take i (th_list th) @ drop (Suc i) (th_list th))))"
    unfolding th_blks_def th_list_set by (simp add: upd_conv_take_nth_drop)
  show "th_bases (conn_set th i c) = (th_bases th)[i := conn_base c]" by (simp add: th_bases_def th_list_set map_update)
qed

text \<open>A change of one connection, the others stay where and what they are.\<close>

lemma th_rel_set:
  assumes R: "th_rel mem t th lks" and i: "i < length lks" and c: "conn_rel mem' c lk"
    and mem: "\<And>b. b \<in> set (concat (map conn_blks (take i (th_list th) @ drop (Suc i) (th_list th)))) \<Longrightarrow> mem' b = mem b"
  shows "th_rel mem' t (conn_set th i c) (lks[i := lk])"
proof -
  note D = th_relD[OF R]
  have "list_all2 (conn_rel mem') ((th_list th)[i := c]) (lks[i := lk])"
  proof (rule list_all2_all_nthI)
    show "length ((th_list th)[i := c]) = length (lks[i := lk])" using D(3) by (simp add: th_list_def)
    fix j assume "j < length ((th_list th)[i := c])"
    then have j: "j < length lks" using D(3) by (simp add: th_list_def)
    show "conn_rel mem' ((th_list th)[i := c] ! j) (lks[i := lk] ! j)"
    proof (cases "j = i")
      case True
      then show ?thesis using c j D(3) by (simp add: th_list_def)
    next
      case False
      have "th_list th ! j \<in> set (take i (th_list th) @ drop (Suc i) (th_list th))"
      proof (cases "j < i")
        case True
        then have "take i (th_list th) ! j = th_list th ! j" "j < length (take i (th_list th))"
          using j D(3) by (simp_all add: th_list_def)
        then show ?thesis by (metis Un_iff nth_mem set_append)
      next
        case f: False
        then have "drop (Suc i) (th_list th) ! (j - Suc i) = th_list th ! j" "j - Suc i < length (drop (Suc i) (th_list th))"
          using j D(3) False by (simp_all add: th_list_def)
        then show ?thesis by (metis Un_iff nth_mem set_append)
      qed
      then have "conn_rel mem' (th_list th ! j) (lks ! j)"
        by (intro conn_rel_frame[OF D(5)[OF j]] mem) auto
      then show ?thesis using False by simp
    qed
  qed
  moreover have "None \<notin> set ((th_conns th)[i := Some c])" using D(2) set_update_subset_insert by fastforce
  ultimately show ?thesis using D(1) by (simp add: th_rel_def th_list_set) (simp add: conn_set_def)
qed

subsection \<open>Routing\<close>

lemma conn_list_ok:
  "None \<notin> set cs \<Longrightarrow> \<exists>cl' al'. rtmq_rsvr_get_conn_list_by_nodeid nid cs i cl al = Some (cl @ cl', al') \<and> set al' \<subseteq> set al \<and>
     (\<forall>j \<in> set cl'. i \<le> j \<and> j - i < length cs \<and> sk_nid (cn_sck (the (cs ! (j - i)))) = nid) \<and>
     (cl' = [] \<and> False \<notin> set al \<longrightarrow> (\<forall>c \<in> set cs. sk_nid (cn_sck (the c)) \<noteq> nid))"
proof (induction cs arbitrary: i cl al)
  case (Cons c cs)
  obtain c' where c: "c = Some c'" using Cons.prems by (cases c) auto
  have n: "None \<notin> set cs" using Cons.prems by simp
  have sh: "(c # cs) ! (j - i) = cs ! (j - (i + 1)) \<and> (i + 1 \<le> j \<and> j - (i + 1) < length cs \<longrightarrow> i \<le> j \<and> j - i < length (c # cs))"
    if "i + 1 \<le> j" for j
  proof -
    have "j - i = Suc (j - (i + 1))" using that by simp
    then show ?thesis by auto
  qed
  show ?case
  proof (cases "sk_nid (cn_sck c') = nid")
    case False
    from Cons.IH[OF n, of "i + 1" cl al] obtain cl' al' where
      R: "rtmq_rsvr_get_conn_list_by_nodeid nid cs (i + 1) cl al = Some (cl @ cl', al')" "set al' \<subseteq> set al"
        "\<forall>j \<in> set cl'. i + 1 \<le> j \<and> j - (i + 1) < length cs \<and> sk_nid (cn_sck (the (cs ! (j - (i + 1))))) = nid"
        "cl' = [] \<and> False \<notin> set al \<longrightarrow> (\<forall>c \<in> set cs. sk_nid (cn_sck (the c)) \<noteq> nid)" by blast
    have "\<forall>j \<in> set cl'. i \<le> j \<and> j - i < length (c # cs) \<and> sk_nid (cn_sck (the ((c # cs) ! (j - i)))) = nid"
      using R(3) sh by (metis)
    then show ?thesis using R(1,2,4) False c by auto
  next
    case True
    obtain a al1 where a: "alloc_take al = (a, al1)" by fastforce
    have al: "set al1 \<subseteq> set al" "\<not> a \<longrightarrow> False \<in> set al" using a by (cases al; auto)+
    let ?cl = "if a then cl @ [i] else cl"
    from Cons.IH[OF n, of "i + 1" ?cl al1] obtain cl' al' where
      R: "rtmq_rsvr_get_conn_list_by_nodeid nid cs (i + 1) ?cl al1 = Some (?cl @ cl', al')" "set al' \<subseteq> set al1"
        "\<forall>j \<in> set cl'. i + 1 \<le> j \<and> j - (i + 1) < length cs \<and> sk_nid (cn_sck (the (cs ! (j - (i + 1))))) = nid" by blast
    have j: "\<forall>j \<in> set cl'. i \<le> j \<and> j - i < length (c # cs) \<and> sk_nid (cn_sck (the ((c # cs) ! (j - i)))) = nid"
      using R(3) sh by (metis)
    show ?thesis using R(1,2) True c a al j
      by (intro exI[of _ "if a then i # cl' else cl'"] exI[of _ al']) auto
  qed
qed simp

lemma conn_push_rel:
  assumes "conn_rel mem c lk" "blk_mesg mem a (snd x)"
  shows "conn_rel mem (conn_push c a) (lk_give x lk)" "mset (conn_blks (conn_push c a)) = add_mset a (mset (conn_blks c))"
    "conn_base (conn_push c a) = conn_base c"
proof -
  obtain ms1 ms2 where m: "out_ok mem (cn_send c) ms1" "list_all2 (blk_mesg mem) (sk_mesg_list (cn_sck c)) ms2"
      "cn_out c @ out_bytes_of mem (cn_send c) @ rtmq_stream ms2 = lk_stream lk"
    using assms(1) unfolding conn_rel_def by blast
  have "list_all2 (blk_mesg mem) (sk_mesg_list (cn_sck (conn_push c a))) (ms2 @ [snd x])"
    using m(2) assms(2) by (simp add: conn_push_def list_all2_appendI)
  moreover have "cn_out (conn_push c a) @ out_bytes_of mem (cn_send (conn_push c a)) @ rtmq_stream (ms2 @ [snd x]) =
      lk_stream (lk_give x lk)"
    using arg_cong[OF m(3), of "\<lambda>x. x @ rtmq_wire (snd x')" for x']
    by (simp add: conn_push_def lk_stream_def lk_give_def rtmq_stream_append)
  moreover have "out_ok mem (cn_send (conn_push c a)) ms1" using m(1) by (simp add: conn_push_def)
  ultimately have "\<exists>ms1 ms2. out_ok mem (cn_send (conn_push c a)) ms1 \<and>
      list_all2 (blk_mesg mem) (sk_mesg_list (cn_sck (conn_push c a))) ms2 \<and>
      cn_out (conn_push c a) @ out_bytes_of mem (cn_send (conn_push c a)) @ rtmq_stream ms2 = lk_stream (lk_give x lk)" by blast
  moreover have "lk_sent lk = length (cn_out c)" "lk_nid lk = sk_nid (cn_sck c)" "\<forall>T. cn_subs c = Some T \<longrightarrow> av_root T = NULL"
    using assms(1) unfolding conn_rel_def by blast+
  ultimately show "conn_rel mem (conn_push c a) (lk_give x lk)" unfolding conn_rel_def
    by (simp add: conn_push_def lk_give_def)
  show "mset (conn_blks (conn_push c a)) = add_mset a (mset (conn_blks c))" "conn_base (conn_push c a) = conn_base c"
    by (simp_all add: conn_blks_def conn_push_def conn_base_def)
qed

definition rest_bases :: "rtmq_thread list \<Rightarrow> nat \<Rightarrow> u64 multiset" where
  "rest_bases ths t = mset (concat (map th_bases (take t ths @ drop (Suc t) ths)))"

lemma th_all_bases_split:
  assumes "t < length ths"
  shows "th_all_bases ths = mset (th_bases (ths ! t)) + rest_bases ths t"
    "th_all_bases (ths[t := th]) = mset (th_bases th) + rest_bases ths t"
proof -
  show "th_all_bases ths = mset (th_bases (ths ! t)) + rest_bases ths t"
    using arg_cong[OF id_take_nth_drop[OF assms], of "\<lambda>x. mset (concat (map th_bases x))"]
    unfolding th_all_bases_def rest_bases_def by simp
  show "th_all_bases (ths[t := th]) = mset (th_bases th) + rest_bases ths t"
    unfolding th_all_bases_def rest_bases_def using assms by (simp add: upd_conv_take_nth_drop)
qed

text \<open>A message from the queue of thread \<open>t\<close> goes to its connection \<open>i\<close>, or is dropped.\<close>

lemma give_ok:
  assumes R: "srv_rel ext nomem dcaps scaps hq hs sv ths ab" and t: "t < length scaps"
    and h: "hs t = a # as" "ab_send ab ! t = x # xs" and i: "i < length (ab_links ab ! t)"
  shows "srv_rel ext nomem dcaps scaps hq (hs(t := as)) sv
     (ths[t := conn_set (ths ! t) i (conn_push (th_list (ths ! t) ! i) a)])
     (ab\<lparr>ab_send := (ab_send ab)[t := xs],
       ab_links := (ab_links ab)[t := (ab_links ab ! t)[i := lk_give x (ab_links ab ! t ! i)]]\<rparr>)"
    (is "srv_rel _ _ _ _ _ ?hs _ ?ths ?ab")
proof (rule srv_rel_change[OF R, of "{PS t, PC t}"])
  let ?th = "ths ! t" let ?c = "th_list (ths ! t) ! i"
  note S = srv_relD(1)[OF R, unfolded shape_ok_def]
  have pl: "PS t \<in> places (length dcaps) (length scaps)" "PC t \<in> places (length dcaps) (length scaps)" using t by simp_all
  have T: "th_rel (cx_mem (sv_ctx sv)) t ?th (ab_links ab ! t)" using srv_relD(3)[OF R pl(2)] by simp
  note D = th_relD[OF T]
  have ic: "i < length (th_conns ?th)" using i D(3) by simp
  have Q: "q_rel (cx_mem (sv_ctx sv)) (a # as) (sv_sendq sv ! t) (scaps ! t) (snd x # map snd xs)"
    using srv_relD(3)[OF R pl(1)] h by simp
  then have bm: "blk_mesg (cx_mem (sv_ctx sv)) a (snd x)" "q_rel (cx_mem (sv_ctx sv)) as (sv_sendq sv ! t) (scaps ! t) (map snd xs)"
    by (simp_all add: q_rel_def q_blks_def)
  note C = conn_push_rel[where x = x, OF D(5)[OF i] bm(1)]
  have tl: "t < length ths" using S t by simp
  show "{PS t, PC t} \<subseteq> places (length dcaps) (length scaps)" using pl by simp
  show "shape_ok nomem dcaps scaps sv ?ths ?ab" using S by (simp add: shape_ok_def)
  have bases: "th_all_bases ?ths = th_all_bases ths"
  proof -
    have "th_bases ?th ! i = conn_base ?c" using ic by (simp add: th_bases_def th_list_def)
    then have "(th_bases ?th)[i := conn_base ?c] = th_bases ?th" by (metis list_update_id)
    then show ?thesis using th_all_bases_split[OF tl] th_blks_set(2)[OF ic, of "conn_push ?c a"] C(3) by simp
  qed
  show "own_ok ext (sv_ctx sv) ((\<Sum>p \<in> {PS t, PC t}. mset (pl_blks hq ?hs sv ?ths p)) +
      rest_blks (length dcaps) (length scaps) {PS t, PC t} (pl_blks hq hs sv ths)) (th_all_bases ?ths)"
    using srv_split2[OF R pl] tl th_split(1)[OF ic D(4)[OF i]] th_blks_set(1)[OF ic, of "conn_push ?c a"] C(2)
    unfolding bases by (simp add: q_blks_def h(1) ac_simps)
  show "pl_blks hq ?hs sv ?ths p = pl_blks hq hs sv ths p \<and>
      (\<forall>mem. pl_rel dcaps scaps mem hq ?hs sv ?ths ?ab p = pl_rel dcaps scaps mem hq hs sv ths ab p)"
    if "p \<notin> {PS t, PC t}" for p using that by (cases p) auto
  have "th_rel (cx_mem (sv_ctx sv)) t (conn_set ?th i (conn_push ?c a)) ((ab_links ab ! t)[i := lk_give x (ab_links ab ! t ! i)])"
    by (rule th_rel_set[OF T i C(1)]) simp
  then show "pl_rel dcaps scaps (cx_mem (sv_ctx sv)) hq ?hs sv ?ths ?ab p" if "p \<in> {PS t, PC t}" for p
    using that bm(2) S t by auto
qed simp

lemma miss_ok:
  assumes R: "srv_rel ext nomem dcaps scaps hq hs sv ths ab" and t: "t < length scaps"
    and h: "hs t = a # as" "ab_send ab ! t = x # xs"
  shows "\<exists>sv'. srv_dec sv a = Some sv' \<and> srv_rel ext nomem dcaps scaps hq (hs(t := as)) sv' ths
     (ab\<lparr>ab_send := (ab_send ab)[t := xs], ab_lost := ab_lost ab @ [x]\<rparr>)"
proof -
  let ?R = "rest_blks (length dcaps) (length scaps) {PS t} (pl_blks hq hs sv ths)"
  let ?ab = "ab\<lparr>ab_send := (ab_send ab)[t := xs], ab_lost := ab_lost ab @ [x]\<rparr>"
  note S = srv_relD(1)[OF R, unfolded shape_ok_def]
  have pd: "PS t \<in> places (length dcaps) (length scaps)" using t by simp
  have own: "own_ok ext (sv_ctx sv) (add_mset a (mset (q_blks as (sv_sendq sv ! t)) + ?R)) (th_all_bases ths)"
    using srv_split1[OF R pd] by (simp add: q_blks_def h(1))
  from srv_dec_ok[OF own] obtain ctx' where c: "srv_dec sv a = Some (sv\<lparr>sv_ctx := ctx'\<rparr>)"
    "own_ok ext ctx' (mset (q_blks as (sv_sendq sv ! t)) + ?R) (th_all_bases ths)" "ctx_same (sv_ctx sv) ctx'"
    "\<And>b. b \<noteq> a \<Longrightarrow> cx_mem ctx' b = cx_mem (sv_ctx sv) b" by blast
  have "own_ok ext (sv_ctx sv) ({#a#} + (mset (q_blks as (sv_sendq sv ! t)) + ?R)) (th_all_bases ths)" using own by simp
  from own_apart[OF this] have na: "a \<notin># mset (q_blks as (sv_sendq sv ! t)) + ?R" by (simp only: set_mset_single insertI1 simp_thms)
  then have fr: "cx_mem ctx' b = cx_mem (sv_ctx sv) b" if "b \<in># mset (q_blks as (sv_sendq sv ! t)) + ?R" for b
    using c(4)[of b] that by metis
  have Q: "q_rel (cx_mem (sv_ctx sv)) (a # as) (sv_sendq sv ! t) (scaps ! t) (snd x # map snd xs)"
    using srv_relD(3)[OF R pd] h by simp
  have Q': "q_rel (cx_mem ctx') as (sv_sendq sv ! t) (scaps ! t) (map snd xs)"
  proof -
    have "list_all2 (blk_mesg (cx_mem (sv_ctx sv))) (q_blks as (sv_sendq sv ! t)) (map snd xs)" using Q by (simp add: q_rel_def q_blks_def)
    then have "list_all2 (blk_mesg (cx_mem ctx')) (q_blks as (sv_sendq sv ! t)) (map snd xs)" by (rule blks_frame) (rule fr, simp)
    then show ?thesis using Q by (simp add: q_rel_def)
  qed
  have "srv_rel ext nomem dcaps scaps hq (hs(t := as)) (sv\<lparr>sv_ctx := ctx'\<rparr>) ths ?ab"
  proof (rule srv_rel_change[OF R, of "{PS t}"])
    show "shape_ok nomem dcaps scaps (sv\<lparr>sv_ctx := ctx'\<rparr>) ths ?ab" using S ctx_sameD[OF c(3)] by (simp add: shape_ok_def)
    show "pl_blks hq (hs(t := as)) (sv\<lparr>sv_ctx := ctx'\<rparr>) ths p = pl_blks hq hs sv ths p \<and>
        (\<forall>mem. pl_rel dcaps scaps mem hq (hs(t := as)) (sv\<lparr>sv_ctx := ctx'\<rparr>) ths ?ab p =
          pl_rel dcaps scaps mem hq hs sv ths ab p)" if "p \<notin> {PS t}" for p using that by (cases p) auto
    show "pl_rel dcaps scaps (cx_mem (sv_ctx (sv\<lparr>sv_ctx := ctx'\<rparr>))) hq (hs(t := as)) (sv\<lparr>sv_ctx := ctx'\<rparr>) ths ?ab p"
      if "p \<in> {PS t}" for p using that Q' S t by simp
  qed (use c(2) fr pd in simp_all)
  then show ?thesis using c(1) by blast
qed

lemma srv_rel_allocs:
  assumes "srv_rel ext nomem dcaps scaps hq hs sv ths ab" "set al \<subseteq> set (cx_allocs (sv_ctx sv))"
  shows "srv_rel ext nomem dcaps scaps hq hs (sv\<lparr>sv_ctx := (sv_ctx sv)\<lparr>cx_allocs := al\<rparr>\<rparr>) ths ab"
  by (rule srv_rel_ctx[OF assms(1)]) (use srv_relD(2)[OF assms(1)] assms(2) in simp_all)

lemma srv_rel_rand:
  assumes "srv_rel ext nomem dcaps scaps hq hs sv ths ab"
  shows "srv_rel ext nomem dcaps scaps hq hs (sv\<lparr>sv_ctx := (sv_ctx sv)\<lparr>cx_rand := rs\<rparr>\<rparr>) ths ab"
  by (rule srv_rel_ctx[OF assms(1)]) (use srv_relD(2)[OF assms(1)] in simp_all)

lemma route_one_ok:
  assumes R: "srv_rel ext nomem dcaps scaps no_hand hs sv ths ab" and t: "t < length scaps"
    and h: "hs t = addr_blk p # as"
  shows "\<exists>sv' th' ab'. rtmq_rsvr_dist_one p sv (ths ! t) = Some (sv', th') \<and>
     srv_rel ext nomem dcaps scaps no_hand (hs(t := as)) sv' (ths[t := th']) ab' \<and> srv_step nomem dcaps scaps ab ab'"
proof -
  let ?a = "addr_blk p" let ?th = "ths ! t"
  note S = srv_relD(1)[OF R, unfolded shape_ok_def]
  have pl: "PS t \<in> places (length dcaps) (length scaps)" "PC t \<in> places (length dcaps) (length scaps)" using t by simp_all
  obtain x xs where x: "ab_send ab ! t = x # xs" "blk_mesg (cx_mem (sv_ctx sv)) ?a (snd x)"
    using srv_relD(3)[OF R pl(1)] h by (auto simp: q_rel_def q_blks_def list_all2_Cons1)
  have T: "th_rel (cx_mem (sv_ctx sv)) t ?th (ab_links ab ! t)" using srv_relD(3)[OF R pl(2)] by simp
  note D = th_relD[OF T]
  have tl: "t < length (ab_send ab)" "ths[t := ?th] = ths" using S t by simp_all
  obtain bs where bs: "cx_mem (sv_ctx sv) ?a = Some bs" "rtmq_head_load bs 0 = Some (fst (snd x))"
    using blk_mesg_load[OF x(2)] by blast
  have chk: "srv_check sv ?a = Some sv"
    by (rule srv_check_ok[OF srv_split1[OF R pl(1)]]) (simp add: q_blks_def h)
  let ?lost = "ab\<lparr>ab_send := (ab_send ab)[t := xs], ab_lost := ab_lost ab @ [x]\<rparr>"
  have drop: "\<exists>sv'. srv_dec sv1 ?a = Some sv' \<and> srv_rel ext nomem dcaps scaps no_hand (hs(t := as)) sv' (ths[t := ?th]) ?lost"
    if "srv_rel ext nomem dcaps scaps no_hand hs sv1 ths ab" for sv1
    unfolding tl(2) by (rule miss_ok[OF that t h x(1)])
  have oom: "srv_step nomem dcaps scaps ab ?lost" if "False \<in> set (cx_allocs (sv_ctx sv))"
    by (rule srv_step.miss[OF tl(1) x(1)]) (use S that in simp)
  obtain b1 al1 where A1: "srv_alloc sv = (b1, sv\<lparr>sv_ctx := (sv_ctx sv)\<lparr>cx_allocs := al1\<rparr>\<rparr>)"
    "set al1 \<subseteq> set (cx_allocs (sv_ctx sv))" "\<not> b1 \<Longrightarrow> False \<in> set (cx_allocs (sv_ctx sv))" using srv_alloc_eq[of sv] by blast
  let ?sv1 = "sv\<lparr>sv_ctx := (sv_ctx sv)\<lparr>cx_allocs := al1\<rparr>\<rparr>"
  have R1: "srv_rel ext nomem dcaps scaps no_hand hs ?sv1 ths ab" by (rule srv_rel_allocs[OF R A1(2)])
  show ?thesis
  proof (cases b1)
    case False
    obtain sv' where "srv_dec ?sv1 ?a = Some sv'" "srv_rel ext nomem dcaps scaps no_hand (hs(t := as)) sv' (ths[t := ?th]) ?lost"
      using drop[OF R1] by blast
    moreover from this have "rtmq_rsvr_dist_one p sv ?th = Some (sv', ?th)"
      using chk bs A1(1) False by (simp add: rtmq_rsvr_dist_one_def)
    ultimately show ?thesis using oom A1(3) False by blast
  next
    case True
    from conn_list_ok[OF D(2), of "hd_nid (fst (snd x))" 0 "[]" al1] obtain cl al2 where
      cl: "rtmq_rsvr_get_conn_list_by_nodeid (hd_nid (fst (snd x))) (th_conns ?th) 0 [] al1 = Some (cl, al2)"
        "set al2 \<subseteq> set al1"
        "\<forall>j \<in> set cl. j < length (th_conns ?th) \<and> sk_nid (cn_sck (the (th_conns ?th ! j))) = hd_nid (fst (snd x))"
        "cl = [] \<and> False \<notin> set al1 \<longrightarrow> (\<forall>c \<in> set (th_conns ?th). sk_nid (cn_sck (the c)) \<noteq> hd_nid (fst (snd x)))" by auto
    let ?sv2 = "sv\<lparr>sv_ctx := (sv_ctx sv)\<lparr>cx_allocs := al2\<rparr>\<rparr>"
    have al2: "set al2 \<subseteq> set (cx_allocs (sv_ctx sv))" using cl(2) A1(2) by blast
    have R2: "srv_rel ext nomem dcaps scaps no_hand hs ?sv2 ths ab" by (rule srv_rel_allocs[OF R al2])
    show ?thesis
    proof (cases "cl = []")
      case True
      obtain sv' where sv': "srv_dec ?sv2 ?a = Some sv'" "srv_rel ext nomem dcaps scaps no_hand (hs(t := as)) sv' (ths[t := ?th]) ?lost"
        using drop[OF R2] by blast
      have "rtmq_rsvr_dist_one p sv ?th = Some (sv', ?th)"
        using chk bs A1(1) \<open>b1\<close> cl(1) True sv'(1) by (simp add: rtmq_rsvr_dist_one_def)
      moreover have "srv_step nomem dcaps scaps ab ?lost"
      proof (cases "False \<in> set al1")
        case True
        then show ?thesis using oom A1(2) by blast
      next
        case False
        have "lk_nid lk \<noteq> hd_nid (fst (snd x))" if lk: "lk \<in> set (ab_links ab ! t)" for lk
        proof -
          obtain j where j: "j < length (ab_links ab ! t)" "lk = ab_links ab ! t ! j" using lk by (auto simp: in_set_conv_nth)
          have "lk_nid lk = sk_nid (cn_sck (th_list ?th ! j))" using D(5)[OF j(1)] j(2) by (simp add: conn_rel_def)
          moreover have "Some (th_list ?th ! j) \<in> set (th_conns ?th)" using D(3,4) j(1) by (metis nth_mem)
          ultimately show ?thesis using cl(4) True False by (metis option.sel)
        qed
        then show ?thesis by (intro srv_step.miss[OF tl(1) x(1)]) blast
      qed
      ultimately show ?thesis using sv'(2) by blast
    next
      case ne: False
      obtain r rs where rnd: "srv_rand ?sv2 = (r, ?sv2\<lparr>sv_ctx := (sv_ctx ?sv2)\<lparr>cx_rand := rs\<rparr>\<rparr>)" by (rule srv_rand_eq[of ?sv2])
      let ?sv3 = "?sv2\<lparr>sv_ctx := (sv_ctx ?sv2)\<lparr>cx_rand := rs\<rparr>\<rparr>"
      have R3: "srv_rel ext nomem dcaps scaps no_hand hs ?sv3 ths ab" by (rule srv_rel_rand[OF R2])
      define i where "i = cl ! (r mod length cl)"
      have ci: "i \<in> set cl" using ne by (simp add: i_def)
      have i: "i < length (ab_links ab ! t)" using cl(3) ci D(3) by simp
      have at: "conn_at ?th i = Some (th_list ?th ! i)" using D(3) D(4)[OF i] i by (simp add: conn_at_def)
      have nid: "lk_nid (ab_links ab ! t ! i) = hd_nid (fst (snd x))"
        using D(5)[OF i] D(4)[OF i] cl(3) ci by (auto simp: conn_rel_def)
      obtain b4 al4 where A4: "srv_alloc ?sv3 = (b4, ?sv3\<lparr>sv_ctx := (sv_ctx ?sv3)\<lparr>cx_allocs := al4\<rparr>\<rparr>)"
        "set al4 \<subseteq> set (cx_allocs (sv_ctx ?sv3))" "\<not> b4 \<Longrightarrow> False \<in> set (cx_allocs (sv_ctx ?sv3))" using srv_alloc_eq[of ?sv3] by blast
      let ?sv4 = "?sv3\<lparr>sv_ctx := (sv_ctx ?sv3)\<lparr>cx_allocs := al4\<rparr>\<rparr>"
      have R4: "srv_rel ext nomem dcaps scaps no_hand hs ?sv4 ths ab" by (rule srv_rel_allocs[OF R3 A4(2)])
      have run: "rtmq_rsvr_dist_one p sv ?th = (if b4 then Some (?sv4, conn_set ?th i (conn_push (th_list ?th ! i) ?a))
          else do { sv' \<leftarrow> srv_dec ?sv4 ?a; Some (sv', ?th) })"
        using chk bs A1(1) \<open>b1\<close> cl(1) ne rnd at A4(1)
        by (simp add: rtmq_rsvr_dist_one_def i_def[symmetric] Let_def)
      show ?thesis
      proof (cases b4)
        case True
        have "srv_step nomem dcaps scaps ab (ab\<lparr>ab_send := (ab_send ab)[t := xs],
            ab_links := (ab_links ab)[t := (ab_links ab ! t)[i := lk_give x (ab_links ab ! t ! i)]]\<rparr>)"
          by (rule srv_step.give[OF tl(1) x(1) i nid])
        then show ?thesis using run True give_ok[OF R4 t h x(1) i] by auto
      next
        case False
        obtain sv' where "srv_dec ?sv4 ?a = Some sv'" "srv_rel ext nomem dcaps scaps no_hand (hs(t := as)) sv' (ths[t := ?th]) ?lost"
          using drop[OF R4] by blast
        moreover from this have "rtmq_rsvr_dist_one p sv ?th = Some (sv', ?th)" using run False by simp
        moreover have "srv_step nomem dcaps scaps ab ?lost" using oom A4(3) False al2 by auto
        ultimately show ?thesis by blast
      qed
    qed
  qed
qed

lemma route_items_ok:
  "srv_rel ext nomem dcaps scaps no_hand hs sv ths ab \<Longrightarrow> t < length scaps \<Longrightarrow> hs t = map addr_blk ps \<Longrightarrow>
   \<exists>sv' th' ab'. rtmq_rsvr_dist_items ps sv (ths ! t) = Some (sv', th') \<and>
     srv_rel ext nomem dcaps scaps no_hand (hs(t := [])) sv' (ths[t := th']) ab' \<and>
     (srv_step nomem dcaps scaps)\<^sup>*\<^sup>* ab ab'"
proof (induction ps arbitrary: hs sv ths ab)
  case Nil
  then have "hs(t := []) = hs" by auto
  moreover have "ths[t := ths ! t] = ths" by simp
  ultimately show ?case using Nil by (intro exI[of _ sv] exI[of _ "ths ! t"] exI[of _ ab]) simp
next
  case (Cons p ps)
  have h: "hs t = addr_blk p # map addr_blk ps" using Cons.prems(3) by simp
  from route_one_ok[OF Cons.prems(1,2) h] obtain sv1 th1 ab1 where
    1: "rtmq_rsvr_dist_one p sv (ths ! t) = Some (sv1, th1)"
      "srv_rel ext nomem dcaps scaps no_hand (hs(t := map addr_blk ps)) sv1 (ths[t := th1]) ab1"
      "srv_step nomem dcaps scaps ab ab1" by blast
  have tl: "t < length ths" using srv_relD(1)[OF Cons.prems(1)] Cons.prems(2) by (simp add: shape_ok_def)
  have "(hs(t := map addr_blk ps)) t = map addr_blk ps" by simp
  from Cons.IH[OF 1(2) Cons.prems(2) this, unfolded fun_upd_upd list_update_overwrite nth_list_update_eq[OF tl]]
  obtain sv2 th2 ab2 where
    2: "rtmq_rsvr_dist_items ps sv1 th1 = Some (sv2, th2)"
      "srv_rel ext nomem dcaps scaps no_hand (hs(t := [])) sv2 (ths[t := th2]) ab2"
      "(srv_step nomem dcaps scaps)\<^sup>*\<^sup>* ab1 ab2" by blast
  have "(srv_step nomem dcaps scaps)\<^sup>*\<^sup>* ab ab2" using 1(3) 2(3) by (rule converse_rtranclp_into_rtranclp)
  moreover have "rtmq_rsvr_dist_items (p # ps) sv (ths ! t) = Some (sv2, th2)" using 1(1) 2(1) by simp
  ultimately show ?case using 2(2) by blast
qed

text \<open>What the queue of the thread holds after a batch was dealt with is what was behind the batch.\<close>

lemma srv_dec_sendq: "srv_dec sv a = Some sv' \<Longrightarrow> sv_sendq sv' = sv_sendq sv"
  by (auto simp: srv_dec_def split: Option.bind_splits)

lemma route_one_sendq:
  assumes "rtmq_rsvr_dist_one p sv th = Some (sv', th')"
  shows "sv_sendq sv' = sv_sendq sv" "rv_id (th_rsvr th') = rv_id (th_rsvr th)"
proof -
  have "sv_sendq sv' = sv_sendq sv \<and> rv_id (th_rsvr th') = rv_id (th_rsvr th)"
    using assms
    by (auto simp: rtmq_rsvr_dist_one_def srv_check_def srv_alloc_def srv_rand_def conn_set_def Let_def
        dest!: srv_dec_sendq split: Option.bind_splits prod.splits if_splits)
  then show "sv_sendq sv' = sv_sendq sv" "rv_id (th_rsvr th') = rv_id (th_rsvr th)" by blast+
qed

lemma route_items_sendq: "rtmq_rsvr_dist_items ps sv th = Some (sv', th') \<Longrightarrow> sv_sendq sv' = sv_sendq sv"
proof (induction ps arbitrary: sv th)
  case (Cons p ps)
  then obtain sv1 th1 where "rtmq_rsvr_dist_one p sv th = Some (sv1, th1)" "rtmq_rsvr_dist_items ps sv1 th1 = Some (sv', th')"
    by (auto split: Option.bind_splits)
  then show ?case using Cons.IH route_one_sendq(1) by metis
qed simp

lemma route_ok:
  "srv_rel ext nomem dcaps scaps no_hand no_hand sv ths ab \<Longrightarrow> t < length scaps \<Longrightarrow>
   \<exists>sv' th' ab'. rtmq_rsvr_dist_data sv (ths ! t) = Some (RTMQ_OK, sv', th') \<and>
     srv_rel ext nomem dcaps scaps no_hand no_hand sv' (ths[t := th']) ab' \<and> (srv_step nomem dcaps scaps)\<^sup>*\<^sup>* ab ab'"
proof (induction "length (ring_items (sv_sendq sv ! t))" arbitrary: sv ths ab rule: less_induct)
  case less
  note R = less.prems(1) and t = less.prems(2)
  note S = srv_relD(1)[OF R, unfolded shape_ok_def]
  define num where "num = min (ring_used (sv_sendq sv ! t)) RTRD_POP_MAX_NUM"
  have ok: "ring_ok (sv_sendq sv ! t)" using srv_relD(3)[OF R, of "PS t"] t by (simp add: q_rel_def)
  have lim: "RTRD_POP_MAX_NUM \<noteq> 0" by (simp add: RTRD_POP_MAX_NUM_def)
  have id: "rv_id (th_rsvr (ths ! t)) = t" using srv_relD(3)[OF R, of "PC t"] t by (simp add: th_rel_def)
  have tl: "t < length (sv_sendq sv)" "t < length ths" using S t by simp_all
  note B = ring_batch[OF ok num_def lim]
  show ?case
  proof (cases "num = 0")
    case True
    have "rtmq_rsvr_dist_data sv (ths ! t) = Some (RTMQ_OK, sv, ths ! t)"
      using True tl by (subst rtmq_rsvr_dist_data.simps) (simp add: id num_def[symmetric])
    moreover have "ths[t := ths ! t] = ths" by simp
    ultimately show ?thesis using R by (intro exI[of _ sv] exI[of _ "ths ! t"] exI[of _ ab]) simp
  next
    case False
    then obtain q xs where q: "ring_mpop (sv_sendq sv ! t) num = Some (num, xs, q)" "ring_ok q"
        "ring_items (sv_sendq sv ! t) = xs @ ring_items q" "xs \<noteq> []" "ring_cap q = ring_cap (sv_sendq sv ! t)" using B by auto
    let ?sv = "sv\<lparr>sv_sendq := (sv_sendq sv)[t := q]\<rparr>"
    note Q = q_pop[OF ok q(2,3,5)]
    have R1: "srv_rel ext nomem dcaps scaps no_hand (no_hand(t := map addr_blk xs)) ?sv ths ab"
    proof (rule srv_rel_change[OF R, of "{}"])
      show "shape_ok nomem dcaps scaps ?sv ths ab" using S by (simp add: shape_ok_def)
      show "own_ok ext (sv_ctx ?sv) ((\<Sum>p \<in> {}. mset (pl_blks no_hand (no_hand(t := map addr_blk xs)) ?sv ths p)) +
          rest_blks (length dcaps) (length scaps) {} (pl_blks no_hand no_hand sv ths)) (th_all_bases ths)"
        using srv_relD(2)[OF R] by (simp add: rest_blks_def)
      show "pl_blks no_hand (no_hand(t := map addr_blk xs)) ?sv ths p = pl_blks no_hand no_hand sv ths p \<and>
          (\<forall>mem. pl_rel dcaps scaps mem no_hand (no_hand(t := map addr_blk xs)) ?sv ths ab p =
            pl_rel dcaps scaps mem no_hand no_hand sv ths ab p)" for p
        using Q S t by (cases p) (auto simp: nth_list_update)
    qed simp_all
    have "(no_hand(t := map addr_blk xs)) t = map addr_blk xs" by simp
    from route_items_ok[OF R1 t this] obtain sv1 th1 ab1 where D: "rtmq_rsvr_dist_items xs ?sv (ths ! t) = Some (sv1, th1)"
      "srv_rel ext nomem dcaps scaps no_hand (no_hand(t := map addr_blk xs, t := [])) sv1 (ths[t := th1]) ab1"
      "(srv_step nomem dcaps scaps)\<^sup>*\<^sup>* ab ab1" by blast
    have nh: "no_hand(t := map addr_blk xs, t := []) = no_hand" by auto
    note D2 = D(2)[unfolded nh]
    have "sv_sendq sv1 = (sv_sendq sv)[t := q]" using route_items_sendq[OF D(1)] by simp
    then have "length (ring_items (sv_sendq sv1 ! t)) < length (ring_items (sv_sendq sv ! t))" using tl q(3,4) by simp
    from less.hyps[OF this D2 t, unfolded list_update_overwrite nth_list_update_eq[OF tl(2)]] obtain sv2 th2 ab2 where
      E: "rtmq_rsvr_dist_data sv1 th1 = Some (RTMQ_OK, sv2, th2)"
        "srv_rel ext nomem dcaps scaps no_hand no_hand sv2 (ths[t := th2]) ab2" "(srv_step nomem dcaps scaps)\<^sup>*\<^sup>* ab1 ab2" by blast
    have "rtmq_rsvr_dist_data sv (ths ! t) = Some (RTMQ_OK, sv2, th2)"
      using False tl q(1) D(1) E(1) by (subst rtmq_rsvr_dist_data.simps) (simp add: id num_def[symmetric])
    moreover have "(srv_step nomem dcaps scaps)\<^sup>*\<^sup>* ab ab2" using D(3) E(3) by (rule rtranclp_trans)
    ultimately show ?thesis using E(2) by blast
  qed
qed

end
