(* ===== verification/Rtmq_Write.thy ===== *)
theory Rtmq_Write
  imports Rtmq_Give
begin

text \<open>Writing to the sockets of a thread, and the end of a connection.\<close>

lemma conn_at_rel:
  assumes "th_rel mem t th lks" "i < length lks" shows "conn_at th i = Some (th_list th ! i)"
  using th_relD(3,4)[OF assms(1)] assms(2) by (simp add: conn_at_def)

lemma conn_wrtm [simp]:
  "conn_blks (c\<lparr>cn_wrtm := w\<rparr>) = conn_blks c" "conn_base (c\<lparr>cn_wrtm := w\<rparr>) = conn_base c"
  "conn_rel mem (c\<lparr>cn_wrtm := w\<rparr>) lk = conn_rel mem c lk"
  by (simp_all add: conn_blks_def conn_base_def conn_rel_def)

lemma write_one_ok:
  assumes R: "srv_rel ext nomem dcaps scaps no_hand no_hand sv ths ab" and t: "t < length scaps"
    and i: "i < length (ab_links ab ! t)"
  shows "\<exists>ok sv' c' ab'. rtmq_rsvr_conn_send sv ((th_list (ths ! t) ! i)\<lparr>cn_wrtm := w\<rparr>) out = Some (ok, sv', c') \<and>
     srv_rel ext nomem dcaps scaps no_hand no_hand sv' (ths[t := conn_set (ths ! t) i c']) ab' \<and>
     length (ab_links ab' ! t) = length (ab_links ab ! t) \<and> srv_step nomem dcaps scaps ab ab'"
proof -
  let ?th = "ths ! t" let ?c = "(th_list (ths ! t) ! i)\<lparr>cn_wrtm := w\<rparr>" let ?lk = "ab_links ab ! t ! i"
  let ?R = "rest_blks (length dcaps) (length scaps) {PC t} (pl_blks no_hand no_hand sv ths)"
  let ?N = "mset (concat (map conn_blks (take i (th_list ?th) @ drop (Suc i) (th_list ?th))))"
  note S = srv_relD(1)[OF R, unfolded shape_ok_def]
  have pc: "PC t \<in> places (length dcaps) (length scaps)" using t by simp
  have T: "th_rel (cx_mem (sv_ctx sv)) t ?th (ab_links ab ! t)" using srv_relD(3)[OF R pc] by simp
  note D = th_relD[OF T]
  have ic: "i < length (th_conns ?th)" using i D(3) by simp
  have tl: "t < length ths" "t < length (ab_links ab)" using S t by simp_all
  have own: "own_ok ext (sv_ctx sv) (mset (conn_blks ?c) + (?N + ?R)) (th_all_bases ths)"
    using srv_split1[OF R pc] th_split(1)[OF ic D(4)[OF i]] by (simp add: ac_simps)
  have rel: "conn_rel (cx_mem (sv_ctx sv)) ?c ?lk" using D(5)[OF i] by simp
  from conn_send_ok[OF own rel, of out] obtain ok ctx' c' n where C:
    "rtmq_rsvr_conn_send sv ?c out = Some (ok, sv\<lparr>sv_ctx := ctx'\<rparr>, c')" "ctx_same (sv_ctx sv) ctx'"
    "own_ok ext ctx' (mset (conn_blks c') + (?N + ?R)) (th_all_bases ths)"
    "\<forall>b. b \<in># ?N + ?R \<longrightarrow> cx_mem ctx' b = cx_mem (sv_ctx sv) b" "conn_rel (cx_mem ctx') c' (lk_write n ?lk)"
    "lk_sent ?lk + n \<le> length (lk_stream ?lk)" "conn_base c' = conn_base ?c" by blast
  let ?ab = "ab\<lparr>ab_links := (ab_links ab)[t := (ab_links ab ! t)[i := lk_write n ?lk]]\<rparr>"
  let ?ths = "ths[t := conn_set ?th i c']"
  have bases: "th_all_bases ?ths = th_all_bases ths"
  proof -
    have "th_bases ?th ! i = conn_base c'" using ic C(7) by (simp add: th_bases_def th_list_def)
    then have "(th_bases ?th)[i := conn_base c'] = th_bases ?th" by (metis list_update_id)
    then show ?thesis using th_all_bases_split[OF tl(1)] th_blks_set(2)[OF ic, of c'] by simp
  qed
  have "srv_rel ext nomem dcaps scaps no_hand no_hand (sv\<lparr>sv_ctx := ctx'\<rparr>) ?ths ?ab"
  proof (rule srv_rel_change[OF R, of "{PC t}"])
    show "shape_ok nomem dcaps scaps (sv\<lparr>sv_ctx := ctx'\<rparr>) ?ths ?ab" using S ctx_sameD[OF C(2)] by (simp add: shape_ok_def)
    show "own_ok ext (sv_ctx (sv\<lparr>sv_ctx := ctx'\<rparr>)) ((\<Sum>p \<in> {PC t}. mset (pl_blks no_hand no_hand (sv\<lparr>sv_ctx := ctx'\<rparr>) ?ths p)) + ?R)
        (th_all_bases ?ths)"
      unfolding bases using C(3) tl th_blks_set(1)[OF ic, of c'] by (simp add: ac_simps)
    show "pl_blks no_hand no_hand (sv\<lparr>sv_ctx := ctx'\<rparr>) ?ths p = pl_blks no_hand no_hand sv ths p \<and>
        (\<forall>mem. pl_rel dcaps scaps mem no_hand no_hand (sv\<lparr>sv_ctx := ctx'\<rparr>) ?ths ?ab p =
          pl_rel dcaps scaps mem no_hand no_hand sv ths ab p)" if "p \<notin> {PC t}" for p using that by (cases p) auto
    have "th_rel (cx_mem ctx') t (conn_set ?th i c') ((ab_links ab ! t)[i := lk_write n ?lk])"
      by (rule th_rel_set[OF T i C(5)]) (use C(4) in auto)
    then show "pl_rel dcaps scaps (cx_mem (sv_ctx (sv\<lparr>sv_ctx := ctx'\<rparr>))) no_hand no_hand (sv\<lparr>sv_ctx := ctx'\<rparr>) ?ths ?ab p"
      if "p \<in> {PC t}" for p using that tl by simp
  qed (use C(4) pc in simp_all)
  moreover have "srv_step nomem dcaps scaps ab ?ab" by (rule srv_step.send[OF tl(2) i C(6)])
  moreover have "length (ab_links ?ab ! t) = length (ab_links ab ! t)" using tl by simp
  ultimately show ?thesis using C(1) by blast
qed

lemma svr_ids_del_sub: "set (svr_ids_del ids i) \<subseteq> set ids"
proof (induction ids)
  case (Cons j js)
  have "set (butlast js) \<subseteq> set js" by (meson in_set_butlastD subsetI)
  then show ?case using Cons by auto
qed simp

lemma map_ok_del: "map_ok k m \<Longrightarrow> map_ok k (svr_map_del m nid i)"
proof -
  assume m: "map_ok k m"
  show ?thesis
  proof (cases "m nid")
    case (Some ids)
    have ids: "ids \<noteq> []" "\<forall>i \<in> set ids. 0 \<le> i \<and> nat i < k" using m Some by (auto simp: map_ok_def)
    then have "\<forall>j \<in> set (svr_ids_del ids i). 0 \<le> j \<and> nat j < k" using svr_ids_del_sub by blast
    then show ?thesis using m Some ids(1) by (auto simp: map_ok_def svr_map_del_def Let_def split: if_splits)
  qed (use m in \<open>simp add: svr_map_del_def\<close>)
qed

lemma close_ok:
  assumes R: "srv_rel ext nomem dcaps scaps no_hand no_hand sv ths ab" and t: "t < length scaps"
    and i: "i < length (ab_links ab ! t)"
  shows "\<exists>sv' th' ab'. rtmq_rsvr_del_conn_hdl sv (ths ! t) i = Some (sv', th') \<and>
     srv_rel ext nomem dcaps scaps no_hand no_hand sv' (ths[t := th']) ab' \<and>
     length (ab_links ab' ! t) = length (ab_links ab ! t) - 1 \<and> srv_step nomem dcaps scaps ab ab'"
proof -
  let ?th = "ths ! t" let ?c = "th_list (ths ! t) ! i" let ?lk = "ab_links ab ! t ! i"
  let ?R = "rest_blks (length dcaps) (length scaps) {PC t} (pl_blks no_hand no_hand sv ths)"
  let ?L = "take i (th_list ?th) @ drop (Suc i) (th_list ?th)"
  let ?N = "mset (concat (map conn_blks ?L))"
  note S = srv_relD(1)[OF R, unfolded shape_ok_def]
  have pc: "PC t \<in> places (length dcaps) (length scaps)" using t by simp
  have T: "th_rel (cx_mem (sv_ctx sv)) t ?th (ab_links ab ! t)" using srv_relD(3)[OF R pc] by simp
  note D = th_relD[OF T]
  have ic: "i < length (th_conns ?th)" using i D(3) by simp
  have tl: "t < length ths" "t < length (ab_links ab)" using S t by simp_all
  note P = th_split[OF ic D(4)[OF i]]
  have own: "own_ok ext (sv_ctx sv) (mset (conn_blks ?c) + (?N + ?R))
      (add_mset (conn_base ?c) (mset (map conn_base ?L) + rest_bases ths t))"
    using srv_split1[OF R pc] P(1,2) th_all_bases_split(1)[OF tl(1)] by (simp add: ac_simps)
  from del_conn_ok[OF own D(5)[OF i] P(3)] D(1) ic obtain ctx' where C:
    "rtmq_rsvr_del_conn_hdl sv ?th i = Some (sv\<lparr>sv_ctx := ctx'\<rparr>,
       ?th\<lparr>th_conns := take i (th_conns ?th) @ drop (Suc i) (th_conns ?th), th_connections := th_connections ?th - 1\<rparr>)"
    "own_ok ext ctx' (?N + ?R) (mset (map conn_base ?L) + rest_bases ths t)"
    "cx_svr_map ctx' = svr_map_del (cx_svr_map (sv_ctx sv)) (sint (lk_nid ?lk)) (int t)"
    "cx_allocs ctx' = cx_allocs (sv_ctx sv)" "\<forall>b. b \<in># ?N + ?R \<longrightarrow> cx_mem ctx' b = cx_mem (sv_ctx sv) b"
    by (auto simp: min_def)
  let ?th' = "?th\<lparr>th_conns := take i (th_conns ?th) @ drop (Suc i) (th_conns ?th), th_connections := th_connections ?th - 1\<rparr>"
  let ?lks = "take i (ab_links ab ! t) @ drop (i + 1) (ab_links ab ! t)"
  let ?ab = "ab\<lparr>ab_links := (ab_links ab)[t := ?lks], ab_map := svr_map_del (ab_map ab) (sint (lk_nid ?lk)) (int t),
      ab_closed := ab_closed ab @ [?lk]\<rparr>"
  have L: "th_list ?th' = ?L" by (simp add: th_list_def take_map drop_map)
  have blks: "th_blks ?th' = concat (map conn_blks ?L)" "th_bases ?th' = map conn_base ?L"
    unfolding th_blks_def th_bases_def L by (rule refl)+
  have "srv_rel ext nomem dcaps scaps no_hand no_hand (sv\<lparr>sv_ctx := ctx'\<rparr>) (ths[t := ?th']) ?ab"
  proof (rule srv_rel_change[OF R, of "{PC t}"])
    show "shape_ok nomem dcaps scaps (sv\<lparr>sv_ctx := ctx'\<rparr>) (ths[t := ?th']) ?ab"
      using S C(3,4) map_ok_del by (simp add: shape_ok_def)
    show "own_ok ext (sv_ctx (sv\<lparr>sv_ctx := ctx'\<rparr>))
        ((\<Sum>p \<in> {PC t}. mset (pl_blks no_hand no_hand (sv\<lparr>sv_ctx := ctx'\<rparr>) (ths[t := ?th']) p)) + ?R) (th_all_bases (ths[t := ?th']))"
      unfolding th_all_bases_split(2)[OF tl(1)] using C(2) tl by (simp add: blks del: map_append concat_append)
    show "pl_blks no_hand no_hand (sv\<lparr>sv_ctx := ctx'\<rparr>) (ths[t := ?th']) p = pl_blks no_hand no_hand sv ths p \<and>
        (\<forall>mem. pl_rel dcaps scaps mem no_hand no_hand (sv\<lparr>sv_ctx := ctx'\<rparr>) (ths[t := ?th']) ?ab p =
          pl_rel dcaps scaps mem no_hand no_hand sv ths ab p)" if "p \<notin> {PC t}" for p using that by (cases p) auto
    have "th_rel (cx_mem (sv_ctx sv)) t ?th' ?lks"
    proof -
      have "list_all2 (conn_rel (cx_mem (sv_ctx sv))) ?L ?lks"
        using T by (auto simp: th_rel_def intro!: list_all2_appendI list_all2_takeI list_all2_dropI)
      moreover have "None \<notin> set (th_conns ?th')" using D(2) by (auto dest: in_set_takeD in_set_dropD)
      ultimately show ?thesis using D(1) unfolding th_rel_def L by simp
    qed
    then have "th_rel (cx_mem ctx') t ?th' ?lks" by (rule th_rel_frame) (use C(5) blks in auto)
    then show "pl_rel dcaps scaps (cx_mem (sv_ctx (sv\<lparr>sv_ctx := ctx'\<rparr>))) no_hand no_hand (sv\<lparr>sv_ctx := ctx'\<rparr>) (ths[t := ?th']) ?ab p"
      if "p \<in> {PC t}" for p using that tl by simp
  qed (use C(5) pc in simp_all)
  moreover have "srv_step nomem dcaps scaps ab ?ab" by (rule srv_step.close[OF tl(2) i])
  moreover have "length (ab_links ?ab ! t) = length (ab_links ab ! t) - 1" using tl i by simp
  ultimately show ?thesis using C(1) by blast
qed

lemma send_loop_ok:
  "srv_rel ext nomem dcaps scaps no_hand no_hand sv ths ab \<Longrightarrow> t < length scaps \<Longrightarrow> i + n = length (ab_links ab ! t) \<Longrightarrow>
   \<exists>ret sv' th' ab'. rtmq_rsvr_send_loop wr n i sv (ths ! t) = Some (ret, sv', th') \<and>
     srv_rel ext nomem dcaps scaps no_hand no_hand sv' (ths[t := th']) ab' \<and> (srv_step nomem dcaps scaps)\<^sup>*\<^sup>* ab ab'"
proof (induction n arbitrary: i sv ths ab)
  case 0
  have "ths[t := ths ! t] = ths" by simp
  then show ?case using 0 by (intro exI[of _ RTMQ_OK] exI[of _ sv] exI[of _ "ths ! t"] exI[of _ ab]) simp
next
  case (Suc n)
  note R = Suc.prems(1) and t = Suc.prems(2)
  have i: "i < length (ab_links ab ! t)" using Suc.prems(3) by simp
  have tl: "t < length ths" using srv_relD(1)[OF R] t by (simp add: shape_ok_def)
  have T: "th_rel (cx_mem (sv_ctx sv)) t (ths ! t) (ab_links ab ! t)" using srv_relD(3)[OF R, of "PC t"] t by simp
  note at = conn_at_rel[OF T i]
  show ?case
  proof (cases "wr (cn_fd (th_list (ths ! t) ! i))")
    case None
    have "Suc i + n = length (ab_links ab ! t)" using Suc.prems(3) by simp
    from Suc.IH[OF R t this] show ?thesis using at None by simp
  next
    case (Some out)
    from write_one_ok[OF R t i, of "th_ctm (ths ! t)" out] obtain ok sv1 c1 ab1 where
      1: "rtmq_rsvr_conn_send sv ((th_list (ths ! t) ! i)\<lparr>cn_wrtm := th_ctm (ths ! t)\<rparr>) out = Some (ok, sv1, c1)"
        "srv_rel ext nomem dcaps scaps no_hand no_hand sv1 (ths[t := conn_set (ths ! t) i c1]) ab1"
        "length (ab_links ab1 ! t) = length (ab_links ab ! t)" "srv_step nomem dcaps scaps ab ab1" by blast
    show ?thesis
    proof (cases ok)
      case True
      have "Suc i + n = length (ab_links ab1 ! t)" using Suc.prems(3) 1(3) by simp
      from Suc.IH[OF 1(2) t this, unfolded list_update_overwrite nth_list_update_eq[OF tl]] obtain ret sv2 th2 ab2 where
        2: "rtmq_rsvr_send_loop wr n (Suc i) sv1 (conn_set (ths ! t) i c1) = Some (ret, sv2, th2)"
          "srv_rel ext nomem dcaps scaps no_hand no_hand sv2 (ths[t := th2]) ab2" "(srv_step nomem dcaps scaps)\<^sup>*\<^sup>* ab1 ab2" by blast
      have "(srv_step nomem dcaps scaps)\<^sup>*\<^sup>* ab ab2" using 1(4) 2(3) by (rule converse_rtranclp_into_rtranclp)
      then show ?thesis using at Some 1(1) True 2(1,2) by auto
    next
      case False
      have i1: "i < length (ab_links ab1 ! t)" using i 1(3) by simp
      from close_ok[OF 1(2) t i1, unfolded list_update_overwrite nth_list_update_eq[OF tl]] obtain sv2 th2 ab2 where
        2: "rtmq_rsvr_del_conn_hdl sv1 (conn_set (ths ! t) i c1) i = Some (sv2, th2)"
          "srv_rel ext nomem dcaps scaps no_hand no_hand sv2 (ths[t := th2]) ab2" "srv_step nomem dcaps scaps ab1 ab2" by blast
      have "(srv_step nomem dcaps scaps)\<^sup>*\<^sup>* ab ab2" using 1(4) 2(3) by (meson r_into_rtranclp rtranclp_trans)
      then show ?thesis using at Some 1(1) False 2(1,2) by auto
    qed
  qed
qed

lemma rdset_loop_ok:
  "srv_rel ext nomem dcaps scaps no_hand no_hand sv ths ab \<Longrightarrow> t < length scaps \<Longrightarrow> i + n = length (ab_links ab ! t) \<Longrightarrow>
   \<exists>fds' sv' th' ab'. rtmq_rsvr_rdset_loop n i fds sv (ths ! t) = Some (fds', sv', th') \<and>
     srv_rel ext nomem dcaps scaps no_hand no_hand sv' (ths[t := th']) ab' \<and> (srv_step nomem dcaps scaps)\<^sup>*\<^sup>* ab ab'"
proof (induction n arbitrary: i fds sv ths ab)
  case 0
  have "ths[t := ths ! t] = ths" by simp
  then show ?case using 0 by (intro exI[of _ fds] exI[of _ sv] exI[of _ "ths ! t"] exI[of _ ab]) simp
next
  case (Suc n)
  note R = Suc.prems(1) and t = Suc.prems(2)
  let ?c = "th_list (ths ! t) ! i"
  have i: "i < length (ab_links ab ! t)" using Suc.prems(3) by simp
  have tl: "t < length ths" using srv_relD(1)[OF R] t by (simp add: shape_ok_def)
  have T: "th_rel (cx_mem (sv_ctx sv)) t (ths ! t) (ab_links ab ! t)" using srv_relD(3)[OF R, of "PC t"] t by simp
  note at = conn_at_rel[OF T i]
  show ?case
  proof (cases "th_ctm (ths ! t) - cn_rdtm ?c > 30 \<and> th_ctm (ths ! t) - cn_wrtm ?c > 30")
    case False
    have "Suc i + n = length (ab_links ab ! t)" using Suc.prems(3) by simp
    note IH = Suc.IH[OF R t this, of "fds @ [cn_fd ?c]"]
    have "rtmq_rsvr_rdset_loop (Suc n) i fds sv (ths ! t) = rtmq_rsvr_rdset_loop n (Suc i) (fds @ [cn_fd ?c]) sv (ths ! t)"
      using at False by auto
    then show ?thesis using IH by simp
  next
    case True
    from close_ok[OF R t i] obtain sv1 th1 ab1 where
      1: "rtmq_rsvr_del_conn_hdl sv (ths ! t) i = Some (sv1, th1)" "srv_rel ext nomem dcaps scaps no_hand no_hand sv1 (ths[t := th1]) ab1"
        "length (ab_links ab1 ! t) = length (ab_links ab ! t) - 1" "srv_step nomem dcaps scaps ab ab1" by blast
    have "i + n = length (ab_links ab1 ! t)" using Suc.prems(3) 1(3) by simp
    from Suc.IH[OF 1(2) t this, of fds, unfolded list_update_overwrite nth_list_update_eq[OF tl]] obtain fds' sv2 th2 ab2 where
      2: "rtmq_rsvr_rdset_loop n i fds sv1 th1 = Some (fds', sv2, th2)"
        "srv_rel ext nomem dcaps scaps no_hand no_hand sv2 (ths[t := th2]) ab2" "(srv_step nomem dcaps scaps)\<^sup>*\<^sup>* ab1 ab2" by blast
    have "(srv_step nomem dcaps scaps)\<^sup>*\<^sup>* ab ab2" using 1(4) 2(3) by (rule converse_rtranclp_into_rtranclp)
    then show ?thesis using at True 1(1) 2(1,2) by auto
  qed
qed

text \<open>The time of a thread does not matter.\<close>

lemma srv_rel_ctm:
  assumes R: "srv_rel ext nomem dcaps scaps hq hs sv ths ab" and t: "t < length scaps"
  shows "srv_rel ext nomem dcaps scaps hq hs sv (ths[t := (ths ! t)\<lparr>th_ctm := now\<rparr>]) ab"
proof (rule srv_rel_change[OF R, of "{}"])
  let ?ths = "ths[t := (ths ! t)\<lparr>th_ctm := now\<rparr>]"
  note S = srv_relD(1)[OF R, unfolded shape_ok_def]
  have tl: "t < length ths" using S t by simp
  have e: "th_list ((ths ! t)\<lparr>th_ctm := now\<rparr>) = th_list (ths ! t)" by (simp add: th_list_def)
  show "shape_ok nomem dcaps scaps sv ?ths ab" using S by (simp add: shape_ok_def)
  have "th_all_bases ?ths = th_all_bases ths"
    unfolding th_all_bases_split[OF tl] by (simp add: th_bases_def e)
  then show "own_ok ext (sv_ctx sv) ((\<Sum>p \<in> {}. mset (pl_blks hq hs sv ?ths p)) +
      rest_blks (length dcaps) (length scaps) {} (pl_blks hq hs sv ths)) (th_all_bases ?ths)"
    using srv_relD(2)[OF R] by (simp add: rest_blks_def)
  show "pl_blks hq hs sv ?ths p = pl_blks hq hs sv ths p \<and>
      (\<forall>mem. pl_rel dcaps scaps mem hq hs sv ?ths ab p = pl_rel dcaps scaps mem hq hs sv ths ab p)" for p
    using tl by (cases p) (auto simp: nth_list_update th_blks_def th_rel_def e)
qed simp_all

lemma trav_send_ok:
  assumes R: "srv_rel ext nomem dcaps scaps no_hand no_hand sv ths ab" and t: "t < length scaps"
  shows "\<exists>ret sv' th' ab'. rtmq_rsvr_trav_send now wr sv (ths ! t) = Some (ret, sv', th') \<and>
     srv_rel ext nomem dcaps scaps no_hand no_hand sv' (ths[t := th']) ab' \<and> (srv_step nomem dcaps scaps)\<^sup>*\<^sup>* ab ab'"
proof -
  let ?ths = "ths[t := (ths ! t)\<lparr>th_ctm := now\<rparr>]"
  have tl: "t < length ths" using srv_relD(1)[OF R] t by (simp add: shape_ok_def)
  have n: "0 + length (th_conns (ths ! t)) = length (ab_links ab ! t)"
    using srv_relD(3)[OF R, of "PC t"] t th_relD(3) by simp
  from send_loop_ok[OF srv_rel_ctm[OF R t, of now] t n, of wr] show ?thesis
    using tl by (simp add: rtmq_rsvr_trav_send_def)
qed

lemma set_rdset_ok:
  assumes R: "srv_rel ext nomem dcaps scaps no_hand no_hand sv ths ab" and t: "t < length scaps"
  shows "\<exists>fds sv' th' ab'. rtmq_rsvr_set_rdset cmd_fd sv (ths ! t) = Some (fds, sv', th') \<and>
     srv_rel ext nomem dcaps scaps no_hand no_hand sv' (ths[t := th']) ab' \<and> (srv_step nomem dcaps scaps)\<^sup>*\<^sup>* ab ab'"
proof -
  have n: "0 + length (th_conns (ths ! t)) = length (ab_links ab ! t)"
    using srv_relD(3)[OF R, of "PC t"] t th_relD(3) by simp
  from rdset_loop_ok[OF R t n, of "[cmd_fd]"] show ?thesis by (simp add: rtmq_rsvr_set_rdset_def)
qed

end
