(* ===== verification/Rtmq_Run.thy ===== *)
theory Rtmq_Run
  imports Rtmq_Write "HOL-Library.Sublist"
begin

text \<open>
  The abstract system keeps its messages; runs of the sending side are paths of the abstract system.
\<close>

subsection \<open>The abstract system keeps its messages\<close>

definition given_toks :: "srv_link list list \<Rightarrow> (nat \<times> rtmq_mesg) multiset" where
  "given_toks lkss = mset (concat (map (\<lambda>lks. concat (map lk_given lks)) lkss))"

text \<open>Everything that left a distribution queue.\<close>

definition out_toks :: "srv_abs \<Rightarrow> (nat \<times> rtmq_mesg) multiset" where
  "out_toks ab = mset (concat (ab_send ab)) + given_toks (ab_links ab) + mset (concat (map lk_given (ab_closed ab))) +
     mset (ab_lost ab)"

definition toks_of :: "nat \<Rightarrow> (nat \<times> rtmq_mesg) list \<Rightarrow> rtmq_mesg list" where
  "toks_of d xs = map snd (filter (\<lambda>x. fst x = d) xs)"

text \<open>No message is lost or doubled; a connection is given only messages to its node; in the order in which a queue
  accepted them; and it writes no more than there is.\<close>

definition abs_ok :: "srv_abs \<Rightarrow> bool" where
  "abs_ok ab \<longleftrightarrow> length (ab_acc ab) = length (ab_dist ab) \<and> length (ab_links ab) = length (ab_send ab) \<and>
     (\<forall>d < length (ab_dist ab). mset (ab_acc ab ! d) = mset (ab_dist ab ! d) +
       image_mset snd (filter_mset (\<lambda>x. fst x = d) (out_toks ab))) \<and>
     (\<forall>t < length (ab_send ab). \<forall>lk \<in> set (ab_links ab ! t).
        (\<forall>x \<in> set (lk_given lk). hd_nid (fst (snd x)) = lk_nid lk) \<and> lk_sent lk \<le> length (lk_stream lk) \<and>
        (\<forall>d < length (ab_dist ab).
          subseq (toks_of d (lk_given lk @ ab_send ab ! t) @ ab_dist ab ! d) (ab_acc ab ! d)))"

lemma mset_concat_upd:
  "i < length xs \<Longrightarrow> mset (concat (xs[i := ys])) + mset (xs ! i) = mset (concat xs) + mset ys"
proof (induction xs arbitrary: i)
  case (Cons x xs)
  then show ?case by (cases i) (auto simp: ac_simps)
qed simp

lemma mset_concat_add: "i < length xs \<Longrightarrow> mset ys = mset (xs ! i) + N \<Longrightarrow> mset (concat (xs[i := ys])) = mset (concat xs) + N"
  using mset_concat_upd[of i xs ys] by (simp add: ac_simps)

lemma mset_concat_sub: "i < length xs \<Longrightarrow> mset (xs ! i) = mset ys + N \<Longrightarrow> mset (concat (xs[i := ys])) + N = mset (concat xs)"
  using mset_concat_upd[of i xs ys] by (simp add: ac_simps)

lemma given_upd:
  assumes "t < length lkss"
  shows "mset (concat (map lk_given lks)) = mset (concat (map lk_given (lkss ! t))) + N \<Longrightarrow>
      given_toks (lkss[t := lks]) = given_toks lkss + N"
    "mset (concat (map lk_given (lkss ! t))) = mset (concat (map lk_given lks)) + N \<Longrightarrow>
      given_toks (lkss[t := lks]) + N = given_toks lkss"
  using assms unfolding given_toks_def map_update
  by (auto intro: mset_concat_add mset_concat_sub)

lemma toks_of_simps [simp]:
  "toks_of d (xs @ ys) = toks_of d xs @ toks_of d ys" "toks_of d [] = []"
  "toks_of d (x # xs) = (if fst x = d then snd x # toks_of d xs else toks_of d xs)"
  by (simp_all add: toks_of_def)

lemma out_toks_step:
  assumes "srv_step nomem dcaps scaps ab ab'" "length (ab_links ab) = length (ab_send ab)"
  shows "(\<exists>d m ms. d < length (ab_dist ab) \<and> ab_dist ab ! d = m # ms \<and>
        ab_dist ab' = (ab_dist ab)[d := ms] \<and> out_toks ab' = add_mset (d, m) (out_toks ab)) \<or>
     (ab_dist ab' = ab_dist ab \<and> out_toks ab' = out_toks ab)"
  using assms
proof (induction rule: srv_step.induct)
  case (move d ab m ms ids t)
  have "mset (concat ((ab_send ab)[t := ab_send ab ! t @ [(d, m)]])) = mset (concat (ab_send ab)) + {#(d, m)#}"
    by (rule mset_concat_add) (use move in simp_all)
  then show ?case using move by (intro disjI1) (auto simp: out_toks_def)
next
  case (lose d ab m ms)
  then show ?case by (intro disjI1) (auto simp: out_toks_def)
next
  case (give t ab x xs i)
  have s: "mset (concat ((ab_send ab)[t := xs])) + {#x#} = mset (concat (ab_send ab))"
    by (rule mset_concat_sub) (use give in simp_all)
  have "mset (concat ((map lk_given (ab_links ab ! t))[i := lk_given (ab_links ab ! t ! i) @ [x]])) =
      mset (concat (map lk_given (ab_links ab ! t))) + {#x#}"
    by (rule mset_concat_add) (use give in simp_all)
  then have "given_toks ((ab_links ab)[t := (ab_links ab ! t)[i := lk_give x (ab_links ab ! t ! i)]]) = given_toks (ab_links ab) + {#x#}"
    by (intro given_upd(1)) (use give in \<open>simp_all add: map_update lk_give_def\<close>)
  then show ?case using s[symmetric] by (intro disjI2) (simp add: out_toks_def)
next
  case (miss t ab x xs)
  have "mset (concat ((ab_send ab)[t := xs])) + {#x#} = mset (concat (ab_send ab))"
    by (rule mset_concat_sub) (use miss in simp_all)
  then show ?case by (intro disjI2) (simp add: out_toks_def flip: \<open>_ = mset (concat (ab_send ab))\<close>)
next
  case (send t ab i n)
  have "map lk_given ((ab_links ab ! t)[i := lk_write n (ab_links ab ! t ! i)]) = map lk_given (ab_links ab ! t)"
    using send by (simp add: map_update lk_write_def) (metis list_update_id nth_map)
  then have "given_toks ((ab_links ab)[t := (ab_links ab ! t)[i := lk_write n (ab_links ab ! t ! i)]]) = given_toks (ab_links ab) + {#}"
    by (intro given_upd(1)) (use send in simp_all)
  then show ?case by (intro disjI2) (simp add: out_toks_def)
next
  case (close t ab i)
  let ?lks = "take i (ab_links ab ! t) @ drop (i + 1) (ab_links ab ! t)"
  have "ab_links ab ! t = take i (ab_links ab ! t) @ ab_links ab ! t ! i # drop (Suc i) (ab_links ab ! t)"
    by (rule id_take_nth_drop) (use close in simp)
  from arg_cong[OF this, of "\<lambda>x. mset (concat (map lk_given x))"]
  have "mset (concat (map lk_given (ab_links ab ! t))) = mset (concat (map lk_given ?lks)) + mset (lk_given (ab_links ab ! t ! i))"
    by (simp add: ac_simps)
  then have "given_toks ((ab_links ab)[t := ?lks]) + mset (lk_given (ab_links ab ! t ! i)) = given_toks (ab_links ab)"
    by (intro given_upd(2)) (use close in simp_all)
  then show ?case by (intro disjI2) (simp add: out_toks_def ac_simps flip: \<open>_ = given_toks (ab_links ab)\<close>)
qed

lemma subseq_drop1: assumes "subseq (xs @ y # ys) zs" shows "subseq (xs @ ys) zs"
proof -
  have "subseq (xs @ ys) (xs @ y # ys)" by (rule list_emb_append_mono) (auto intro: list_emb_Cons)
  then show ?thesis using assms by (rule subseq_order.trans)
qed

lemma srv_step_acc: "srv_step nomem dcaps scaps ab ab' \<Longrightarrow> ab_acc ab' = ab_acc ab"
  by (induction rule: srv_step.induct) simp_all

lemma abs_ok_step:
  assumes step: "srv_step nomem dcaps scaps ab ab'" and ok: "abs_ok ab"
  shows "abs_ok ab'"
proof -
  note A = ok[unfolded abs_ok_def] and acc = srv_step_acc[OF step]
  have links: "length (ab_links ab) = length (ab_send ab)" using A by simp
  have len: "length (ab_acc ab') = length (ab_dist ab')" "length (ab_links ab') = length (ab_send ab')"
    using step A by (auto elim!: srv_step.cases)
  have cons: "mset (ab_acc ab' ! d) = mset (ab_dist ab' ! d) + image_mset snd (filter_mset (\<lambda>x. fst x = d) (out_toks ab'))"
    if d: "d < length (ab_dist ab')" for d
    using out_toks_step[OF step links]
  proof (elim disjE exE conjE)
    fix d0 m ms assume h: "ab_dist ab ! d0 = m # ms" "ab_dist ab' = (ab_dist ab)[d0 := ms]"
      "out_toks ab' = add_mset (d0, m) (out_toks ab)"
    have "mset (ab_acc ab ! d) = mset (ab_dist ab ! d) + image_mset snd (filter_mset (\<lambda>x. fst x = d) (out_toks ab))"
      using A d h(2) by simp
    then show ?thesis using h d acc by (cases "d = d0") simp_all
  next
    assume "ab_dist ab' = ab_dist ab" "out_toks ab' = out_toks ab"
    then show ?thesis using A d acc by simp
  qed
  define P where "P ab t lk \<longleftrightarrow> (\<forall>x \<in> set (lk_given lk). hd_nid (fst (snd x)) = lk_nid lk) \<and> lk_sent lk \<le> length (lk_stream lk) \<and>
      (\<forall>d < length (ab_dist ab). subseq (toks_of d (lk_given lk @ ab_send ab ! t) @ ab_dist ab ! d) (ab_acc ab ! d))"
    for ab :: srv_abs and t lk
  have old: "P ab t lk" if "t < length (ab_send ab)" "lk \<in> set (ab_links ab ! t)" for t lk
    using A that unfolding P_def by blast
  have "P ab' t lk" if t: "t < length (ab_send ab')" and lk: "lk \<in> set (ab_links ab' ! t)" for t lk
    using step
  proof cases
    case (move d m ms ids t0)
    have p: "P ab t lk" using old t lk move by simp
    have "subseq (toks_of e (lk_given lk @ ab_send ab' ! t) @ ab_dist ab' ! e) (ab_acc ab ! e)" if e: "e < length (ab_dist ab)" for e
    proof -
      have s: "subseq (toks_of e (lk_given lk @ ab_send ab ! t) @ ab_dist ab ! e) (ab_acc ab ! e)" using p e by (simp add: P_def)
      show ?thesis
      proof (cases "e = d")
        case True
        then have "subseq ((toks_of e (lk_given lk @ ab_send ab ! t)) @ m # ms) (ab_acc ab ! e)" using s move by simp
        from this subseq_drop1[OF this] show ?thesis using move t True by (cases "t = t0") auto
      qed (use s move t in \<open>cases "t = t0"; simp\<close>)
    qed
    then show ?thesis using p move unfolding P_def by simp
  next
    case (lose d m ms)
    have p: "P ab t lk" using old t lk lose by simp
    have "subseq (toks_of e (lk_given lk @ ab_send ab ! t) @ ab_dist ab' ! e) (ab_acc ab ! e)" if e: "e < length (ab_dist ab)" for e
    proof -
      have s: "subseq (toks_of e (lk_given lk @ ab_send ab ! t) @ ab_dist ab ! e) (ab_acc ab ! e)" using p e by (simp add: P_def)
      then show ?thesis using lose subseq_drop1[of "toks_of e (lk_given lk @ ab_send ab ! t)" m ms] by (cases "e = d") auto
    qed
    then show ?thesis using p lose unfolding P_def by simp
  next
    case (give t0 x xs i)
    show ?thesis
    proof (cases "t = t0")
      case False
      then show ?thesis using old[of t lk] t lk give unfolding P_def by simp
    next
      case True
      have t0: "t0 < length (ab_send ab)" "t0 < length (ab_links ab)" using give links by simp_all
      have lk': "lk \<in> set ((ab_links ab ! t0)[i := lk_give x (ab_links ab ! t0 ! i)])" using lk True give t0 by simp
      then consider "lk = lk_give x (ab_links ab ! t0 ! i)" | "lk \<in> set (ab_links ab ! t0)"
        using set_update_subset_insert by fastforce
      then show ?thesis
      proof cases
        case 1
        have p: "P ab t0 (ab_links ab ! t0 ! i)" by (rule old) (use t0 give in simp_all)
        then show ?thesis using 1 give t0 True unfolding P_def
          by (auto simp: lk_give_def lk_stream_def rtmq_stream_append)
      next
        case 2
        have p: "P ab t0 lk" by (rule old) (use t0 2 in simp_all)
        have "subseq (toks_of e (lk_given lk @ xs) @ ab_dist ab ! e) (ab_acc ab ! e)" if e: "e < length (ab_dist ab)" for e
        proof -
          have s: "subseq (toks_of e (lk_given lk @ x # xs) @ ab_dist ab ! e) (ab_acc ab ! e)"
            using p e give unfolding P_def by simp
          then show ?thesis
            using subseq_drop1[of "toks_of e (lk_given lk)" "snd x" "toks_of e xs @ ab_dist ab ! e"] by (cases "fst x = e") auto
        qed
        then show ?thesis using p give t0 True unfolding P_def by simp
      qed
    qed
  next
    case (miss t0 x xs)
    have p: "P ab t lk" using old t lk miss by simp
    have "subseq (toks_of e (lk_given lk @ ab_send ab' ! t) @ ab_dist ab ! e) (ab_acc ab ! e)" if e: "e < length (ab_dist ab)" for e
    proof -
      have s: "subseq (toks_of e (lk_given lk @ ab_send ab ! t) @ ab_dist ab ! e) (ab_acc ab ! e)" using p e by (simp add: P_def)
      then show ?thesis
        using miss subseq_drop1[of "toks_of e (lk_given lk)" "snd x" "toks_of e xs @ ab_dist ab ! e"]
        by (cases "t = t0"; cases "fst x = e") auto
    qed
    then show ?thesis using p miss unfolding P_def by simp
  next
    case (send t0 i n)
    show ?thesis
    proof (cases "lk \<in> set (ab_links ab ! t)")
      case True
      then show ?thesis using old[of t lk] t send unfolding P_def by simp
    next
      case False
      have t0: "t0 < length (ab_links ab)" "t = t0" using send False lk by (auto simp: nth_list_update split: if_splits)
      have "lk \<in> set ((ab_links ab ! t0)[i := lk_write n (ab_links ab ! t0 ! i)])" using lk t0 send by simp
      then have l: "lk = lk_write n (ab_links ab ! t0 ! i)" using False t0 set_update_subset_insert by fastforce
      have "P ab t0 (ab_links ab ! t0 ! i)" by (rule old) (use t0 send links in simp_all)
      then show ?thesis using l t0 send unfolding P_def by (auto simp: lk_write_def lk_stream_def)
    qed
  next
    case (close t0 i)
    have "lk \<in> set (ab_links ab ! t)" using lk close by (auto simp: nth_list_update split: if_splits dest: in_set_takeD in_set_dropD)
    then show ?thesis using old[of t lk] t close unfolding P_def by simp
  qed
  then show ?thesis using len cons unfolding abs_ok_def P_def by blast
qed

text \<open>A message that a queue has room for.\<close>

definition srv_accept :: "nat \<Rightarrow> rtmq_mesg \<Rightarrow> srv_abs \<Rightarrow> srv_abs" where
  "srv_accept d m ab = ab\<lparr>ab_acc := (ab_acc ab)[d := ab_acc ab ! d @ [m]], ab_dist := (ab_dist ab)[d := ab_dist ab ! d @ [m]]\<rparr>"

lemma abs_ok_accept:
  assumes ok: "abs_ok ab" and d: "d < length (ab_dist ab)"
  shows "abs_ok (srv_accept d m ab)"
proof -
  have "subseq (toks_of e (lk_given lk @ ab_send ab ! t) @ ab_dist (srv_accept d m ab) ! e) (ab_acc (srv_accept d m ab) ! e)"
    if "t < length (ab_send ab)" "lk \<in> set (ab_links ab ! t)" "e < length (ab_dist ab)" for t lk e
  proof -
    have s: "subseq (toks_of e (lk_given lk @ ab_send ab ! t) @ ab_dist ab ! e) (ab_acc ab ! e)"
      using ok that unfolding abs_ok_def by blast
    have "subseq ((toks_of e (lk_given lk @ ab_send ab ! t) @ ab_dist ab ! e) @ [m]) (ab_acc ab ! e @ [m])"
      by (rule list_emb_append_mono[OF s]) simp
    then show ?thesis using s ok d that unfolding abs_ok_def srv_accept_def by (cases "e = d") simp_all
  qed
  moreover have "out_toks (srv_accept d m ab) = out_toks ab" by (simp add: out_toks_def srv_accept_def)
  moreover have "mset (ab_acc (srv_accept d m ab) ! e) = mset (ab_dist (srv_accept d m ab) ! e) +
      image_mset snd (filter_mset (\<lambda>x. fst x = e) (out_toks ab))" if "e < length (ab_dist ab)" for e
    using ok d that unfolding abs_ok_def srv_accept_def by (cases "e = d") simp_all
  ultimately show ?thesis using ok unfolding abs_ok_def by (simp add: srv_accept_def)
qed

text \<open>A path of the abstract system, with the messages that are accepted on it.\<close>

inductive srv_path :: "bool \<Rightarrow> nat list \<Rightarrow> nat list \<Rightarrow> srv_abs \<Rightarrow> rtmq_mesg list \<Rightarrow> srv_abs \<Rightarrow> bool"
  for nomem :: bool and dcaps scaps :: "nat list" where
  stay: "srv_path nomem dcaps scaps ab [] ab"
| step: "srv_step nomem dcaps scaps ab ab' \<Longrightarrow> srv_path nomem dcaps scaps ab' ms ab'' \<Longrightarrow> srv_path nomem dcaps scaps ab ms ab''"
| accept: "d < length (ab_dist ab) \<Longrightarrow> length (ab_dist ab ! d) < dcaps ! d \<Longrightarrow>
     srv_path nomem dcaps scaps (srv_accept d m ab) ms ab'' \<Longrightarrow> srv_path nomem dcaps scaps ab (m # ms) ab''"

lemma srv_path_steps:
  "(srv_step nomem dcaps scaps)\<^sup>*\<^sup>* ab ab' \<Longrightarrow> srv_path nomem dcaps scaps ab' ms ab'' \<Longrightarrow> srv_path nomem dcaps scaps ab ms ab''"
  by (induction rule: converse_rtranclp_induct) (auto intro: srv_path.step)

lemma srv_path_ok:
  "srv_path nomem dcaps scaps ab ms ab' \<Longrightarrow> abs_ok ab \<Longrightarrow> abs_ok ab' \<and> length (ab_acc ab') = length (ab_acc ab) \<and>
     mset (concat (ab_acc ab')) = mset (concat (ab_acc ab)) + mset ms \<and>
     (\<forall>d < length (ab_acc ab). \<exists>xs. ab_acc ab' ! d = ab_acc ab ! d @ xs \<and> subseq xs ms)"
proof (induction rule: srv_path.induct)
  case (step ab ab' ms ab'')
  then show ?case using abs_ok_step[OF step(1)] srv_step_acc[OF step(1)] by simp
next
  case (accept d ab m ms ab'')
  have d: "d < length (ab_acc ab)" using accept by (simp add: abs_ok_def)
  have I: "abs_ok ab''" "length (ab_acc ab'') = length (ab_acc ab)"
    "mset (concat (ab_acc ab'')) = mset (concat (ab_acc (srv_accept d m ab))) + mset ms"
    "\<And>e. e < length (ab_acc ab) \<Longrightarrow> \<exists>xs. ab_acc ab'' ! e = ab_acc (srv_accept d m ab) ! e @ xs \<and> subseq xs ms"
    using accept.IH abs_ok_accept[OF accept.prems accept.hyps(1), of m] by (simp_all add: srv_accept_def)
  have "mset (concat (ab_acc (srv_accept d m ab))) = mset (concat (ab_acc ab)) + {#m#}"
    unfolding srv_accept_def using d by (simp add: mset_concat_add)
  moreover have "\<exists>xs. ab_acc ab'' ! e = ab_acc ab ! e @ xs \<and> subseq xs (m # ms)" if e: "e < length (ab_acc ab)" for e
  proof -
    from I(4)[OF e] obtain xs where xs: "ab_acc ab'' ! e = ab_acc (srv_accept d m ab) ! e @ xs" "subseq xs ms" by blast
    show ?thesis
      using xs d by (cases "e = d") (auto simp: srv_accept_def intro: exI[of _ "m # xs"] exI[of _ xs] list_emb_Cons)
  qed
  ultimately show ?case using I by simp
qed simp

subsection \<open>Runs of the sending side\<close>

text \<open>A message is handed to \<open>rtmq_async_send\<close>; the distributor is told that there is something; a thread is told; the
  sockets of a thread are writable; a thread looks for idle connections.\<close>

datatype srv_event =
    SvSend int int "u8 list"
  | SvDist
  | SvRoute nat int
  | SvWrite nat int "int \<Rightarrow> writev_out option"
  | SvIdle nat int

text \<open>The messages for which \<open>rtmq_async_send\<close> answers \<open>RTMQ_OK\<close>, and the state.\<close>

fun srv_event_run :: "srv_event \<Rightarrow> rtmq_server \<Rightarrow> rtmq_thread list \<Rightarrow>
    (rtmq_mesg list \<times> rtmq_server \<times> rtmq_thread list) option" where
  "srv_event_run (SvSend type dest body) sv ths = do {
     (ret, sv) \<leftarrow> rtmq_async_send sv type dest body;
     Some (if ret = RTMQ_OK then [srv_mesg type dest body] else [], sv, ths) }"
| "srv_event_run SvDist sv ths = do {
     (ret, sv) \<leftarrow> rtmq_dsvr_cmd_recv_and_proc (Some RTMQ_CMD_DIST_REQ) sv;
     Some ([], sv, ths) }"
| "srv_event_run (SvRoute t now) sv ths = do {
     (ret, sv, th) \<leftarrow> rtmq_rsvr_recv_cmd now (Some RTMQ_CMD_DIST_REQ) sv (ths ! t);
     Some ([], sv, ths[t := th]) }"
| "srv_event_run (SvWrite t now wr) sv ths = do {
     (ret, sv, th) \<leftarrow> rtmq_rsvr_trav_send now wr sv (ths ! t);
     Some ([], sv, ths[t := th]) }"
| "srv_event_run (SvIdle t cmd_fd) sv ths = do {
     (fds, sv, th) \<leftarrow> rtmq_rsvr_set_rdset cmd_fd sv (ths ! t);
     Some ([], sv, ths[t := th]) }"

fun srv_run :: "srv_event list \<Rightarrow> rtmq_server \<Rightarrow> rtmq_thread list \<Rightarrow>
    (rtmq_mesg list \<times> rtmq_server \<times> rtmq_thread list) option" where
  "srv_run [] sv ths = Some ([], sv, ths)"
| "srv_run (e # es) sv ths = do {
     (ms, sv, ths) \<leftarrow> srv_event_run e sv ths;
     (ms', sv, ths) \<leftarrow> srv_run es sv ths;
     Some (ms @ ms', sv, ths) }"

fun srv_event_ok :: "nat \<Rightarrow> srv_event \<Rightarrow> bool" where
  "srv_event_ok k (SvSend type dest body) \<longleftrightarrow> 20 + length body < 2 ^ 31"
| "srv_event_ok k SvDist \<longleftrightarrow> True"
| "srv_event_ok k (SvRoute t now) \<longleftrightarrow> t < k"
| "srv_event_ok k (SvWrite t now wr) \<longleftrightarrow> t < k"
| "srv_event_ok k (SvIdle t cmd_fd) \<longleftrightarrow> t < k"

lemma srv_event_refines:
  assumes R: "srv_rel ext nomem dcaps scaps no_hand no_hand sv ths ab" and d: "dcaps \<noteq> []"
    and ok: "srv_event_ok (length scaps) e"
  shows "\<exists>ms sv' ths' ab'. srv_event_run e sv ths = Some (ms, sv', ths') \<and>
     srv_rel ext nomem dcaps scaps no_hand no_hand sv' ths' ab' \<and>
     (\<forall>ms' ab''. srv_path nomem dcaps scaps ab' ms' ab'' \<longrightarrow> srv_path nomem dcaps scaps ab (ms @ ms') ab'')"
proof (cases e)
  case (SvSend type dest body)
  with ok have len: "20 + length body < 2 ^ 31" by simp
  have l: "length (ab_dist ab) = length dcaps" using srv_relD(1)[OF R] by (simp add: shape_ok_def)
  from async_send_ok[OF R d len, of type dest] obtain ret sv' ab' where S:
    "rtmq_async_send sv type dest body = Some (ret, sv')" "srv_rel ext nomem dcaps scaps no_hand no_hand sv' ths ab'"
    "if ret = RTMQ_OK then \<exists>d < length dcaps. length (ab_dist ab ! d) < dcaps ! d \<and>
        ab' = srv_accept d (srv_mesg type dest body) ab else ab' = ab" unfolding srv_accept_def by blast
  show ?thesis
  proof (cases "ret = RTMQ_OK")
    case True
    then obtain d where "d < length dcaps" "length (ab_dist ab ! d) < dcaps ! d" "ab' = srv_accept d (srv_mesg type dest body) ab"
      using S(3) by auto
    then have "srv_path nomem dcaps scaps ab' ms' ab'' \<Longrightarrow> srv_path nomem dcaps scaps ab (srv_mesg type dest body # ms') ab''"
      for ms' ab'' using srv_path.accept[of d ab dcaps nomem scaps "srv_mesg type dest body" ms' ab''] l by simp
    then show ?thesis using S(1,2) SvSend True by auto
  qed (use S SvSend in auto)
next
  case SvDist
  then show ?thesis using dist_ok[OF R] by (fastforce simp: rtmq_dsvr_cmd_recv_and_proc_def intro: srv_path_steps)
next
  case (SvRoute t now)
  with ok have t: "t < length scaps" by simp
  have "rtmq_rsvr_recv_cmd now (Some RTMQ_CMD_DIST_REQ) sv (ths ! t) = rtmq_rsvr_dist_data sv (ths ! t)"
    by (simp add: rtmq_rsvr_recv_cmd_def RTMQ_CMD_DIST_REQ_def RTMQ_CMD_ADD_SCK_def)
  then show ?thesis using route_ok[OF R t] SvRoute by (fastforce intro: srv_path_steps)
next
  case (SvWrite t now wr)
  with ok have t: "t < length scaps" by simp
  from trav_send_ok[OF R t, of now wr] show ?thesis using SvWrite by (fastforce intro: srv_path_steps)
next
  case (SvIdle t cmd_fd)
  with ok have t: "t < length scaps" by simp
  from set_rdset_ok[OF R t, of cmd_fd] show ?thesis using SvIdle by (fastforce intro: srv_path_steps)
qed

lemma srv_run_refines:
  assumes "srv_rel ext nomem dcaps scaps no_hand no_hand sv ths ab" "dcaps \<noteq> []" "\<forall>e \<in> set es. srv_event_ok (length scaps) e"
  shows "\<exists>ms sv' ths' ab'. srv_run es sv ths = Some (ms, sv', ths') \<and>
     srv_rel ext nomem dcaps scaps no_hand no_hand sv' ths' ab' \<and> srv_path nomem dcaps scaps ab ms ab'"
  using assms
proof (induction es arbitrary: sv ths ab)
  case (Cons e es)
  from srv_event_refines[OF Cons.prems(1,2), of e] Cons.prems(3) obtain ms sv1 ths1 ab1 where E:
    "srv_event_run e sv ths = Some (ms, sv1, ths1)" "srv_rel ext nomem dcaps scaps no_hand no_hand sv1 ths1 ab1"
    "\<And>ms' ab''. srv_path nomem dcaps scaps ab1 ms' ab'' \<Longrightarrow> srv_path nomem dcaps scaps ab (ms @ ms') ab''" by auto
  from Cons.IH[OF E(2) Cons.prems(2)] Cons.prems(3) obtain ms' sv' ths' ab' where
    "srv_run es sv1 ths1 = Some (ms', sv', ths')" "srv_rel ext nomem dcaps scaps no_hand no_hand sv' ths' ab'"
    "srv_path nomem dcaps scaps ab1 ms' ab'" by auto
  then show ?case using E(1,3) by auto
qed (auto intro: srv_path.stay)

end
