(* ===== verification/Rtmq_Accept.thy ===== *)
theory Rtmq_Accept
  imports Rtmq_Write Rtmq_Work
begin

text \<open>
  A connection from its acceptance by the listener to its place in the list of a receiving thread.
\<close>

subsection \<open>A new connection\<close>

definition lk_new :: srv_link where "lk_new = \<lparr>lk_nid = - 1, lk_given = [], lk_sent = 0\<rparr>"

text \<open>The connection that \<open>rtmq_rsvr_sck_creat\<close> makes, once it has its buffers.\<close>

definition conn_ready :: "int \<Rightarrow> int \<times> u64 \<Rightarrow> u64 \<Rightarrow> wiov \<Rightarrow> rtmq_conn \<Rightarrow> bool" where
  "conn_ready now item a w c \<longleftrightarrow> cn_fd c = fst item \<and> cn_sid c = snd item \<and> cn_rdtm c = now \<and> cn_wrtm c = now \<and>
     sk_nid (cn_sck c) = - 1 \<and> \<not> sk_auth_succ (cn_sck c) \<and> sk_recv (cn_sck c) = rtmq_snap_setup a RTMQ_BUFF_SIZE \<and>
     sk_mesg_list (cn_sck c) = [] \<and> (\<exists>T. cn_subs c = Some T \<and> av_root T = NULL) \<and> cn_send c = w \<and> cn_out c = []"

lemma alloc_good:
  assumes "False \<notin> set al" shows "alloc_take al = (True, tl al)" "False \<notin> set (tl al)" "set (tl al) \<subseteq> set al"
  using assms by (cases al; auto)+

lemma wiov_init_new:
  assumes "False \<notin> set al"
  obtains w where "wiov_init mx al = (0, Some w, tl (tl al))" "\<And>mem. out_ok mem w []" "out_blks w = []"
    "\<And>mem. out_bytes_of mem w = []"
proof -
  define n where "n = nat (if IOV_MAX < mx then IOV_MAX else mx)"
  let ?w = "\<lparr>iov_max = n, iov_cnt = 0, iov_idx = 0, wi_orig = replicate n og_zero, wi_iov = replicate n io_zero\<rparr>"
  note A = alloc_good[OF assms]
  have i: "wiov_init mx al = (0, Some ?w, tl (tl al))"
    unfolding wiov_init_def n_def[symmetric] using A(1) alloc_good(1)[OF A(2)] by simp
  have e: "wiov_items ?w = []" "wiov_pending ?w = []" "wiov_isempty ?w" "wiov_ok ?w"
    by (simp_all add: wiov_items_def wiov_pending_def wiov_item_num_def wiov_isempty_def wiov_ok_def)
  have o: "out_ok mem ?w []" for mem using e by (simp add: out_ok_def)
  show thesis by (rule that[OF i o]) (use e out_bytes_length[OF o] in \<open>auto simp: out_blks_def\<close>)
qed

lemma conn_ready_rel:
  assumes "conn_ready now item a w c" "out_ok mem w []" "out_bytes_of mem w = []" "out_blks w = []"
  shows "conn_rel mem c lk_new" "conn_blks c = []" "conn_base c = a"
proof -
  show "conn_blks c = []" "conn_base c = a" using assms by (simp_all add: conn_ready_def conn_blks_def conn_base_def rtmq_snap_setup_def)
  show "conn_rel mem c lk_new" unfolding conn_rel_def
    using assms by (intro conjI exI[of _ "[]"]) (auto simp: conn_ready_def lk_new_def lk_stream_def)
qed

text \<open>A block becomes a receive buffer.\<close>

lemma own_base:
  assumes "own_ok ext ctx (add_mset a M) B" shows "own_ok ext ctx M (add_mset a B)"
proof -
  note O = own_okD[OF assms]
  have a: "a \<notin># M" using O(3)[of a] by (simp add: count_eq_zero_iff)
  show ?thesis unfolding own_ok_def
  proof (intro conjI allI impI)
    show "blocks_ok ctx" by (rule O(1))
    show "mref_count (cx_mref ctx) b = ext b + count M b + count (add_mset a B) b" for b using O(2)[of b] by simp
    fix b assume b: "b \<in># M"
    then have n: "b \<noteq> a" "b \<in># add_mset a M" using a by auto
    show "ext b = 0" "count M b = 1" "count (add_mset a B) b = 0" using O(3)[OF n(2)] n(1) by auto
  qed
qed

subsection \<open>Adding it\<close>

definition th_add :: "rtmq_thread \<Rightarrow> rtmq_conn \<Rightarrow> rtmq_thread" where
  "th_add th c = th\<lparr>th_conns := th_conns th @ [Some c], th_connections := th_connections th + 1\<rparr>"

lemma add_rel:
  assumes R: "srv_rel ext nomem dcaps scaps no_hand no_hand sv ths ab" and t: "t < length scaps"
    and own: "own_ok ext ctx' (\<Sum>p \<in> places (length dcaps) (length scaps). mset (pl_blks no_hand no_hand sv ths p))
      (add_mset a (th_all_bases ths))"
    and mem: "\<And>b. b \<noteq> a \<Longrightarrow> cx_mem ctx' b = cx_mem (sv_ctx sv) b"
    and same: "cx_svr_map ctx' = cx_svr_map (sv_ctx sv)" "set (cx_allocs ctx') \<subseteq> set (cx_allocs (sv_ctx sv))"
    and sv': "sv_ctx sv' = ctx'" "sv_distq sv' = sv_distq sv" "sv_sendq sv' = sv_sendq sv"
    and c: "\<And>mem. conn_rel mem c lk_new" "conn_blks c = []" "conn_base c = a"
  shows "srv_rel ext nomem dcaps scaps no_hand no_hand sv' (ths[t := th_add (ths ! t) c])
     (ab\<lparr>ab_links := (ab_links ab)[t := ab_links ab ! t @ [lk_new]]\<rparr>)" (is "srv_rel _ _ _ _ _ _ _ ?ths ?ab")
proof -
  note S = srv_relD(1)[OF R, unfolded shape_ok_def]
  have pc: "PC t \<in> places (length dcaps) (length scaps)" and tl: "t < length ths" using t S by simp_all
  have l: "th_list (th_add (ths ! t) c) = th_list (ths ! t) @ [c]" by (simp add: th_list_def th_add_def)
  have b: "th_blks (th_add (ths ! t) c) = th_blks (ths ! t)" "th_bases (th_add (ths ! t) c) = th_bases (ths ! t) @ [a]"
    using c by (simp_all add: th_blks_def th_bases_def l)
  have B: "th_all_bases ?ths = add_mset a (th_all_bases ths)" using th_all_bases_split[OF tl] b by simp
  have na: "a \<notin># (\<Sum>p \<in> places (length dcaps) (length scaps). mset (pl_blks no_hand no_hand sv ths p))"
    using own_okD(3)[OF own, of a] by auto
  show ?thesis
  proof (rule srv_rel_change[OF R, of "{PC t}"])
    show "shape_ok nomem dcaps scaps sv' ?ths ?ab" using S same sv' by (auto simp: shape_ok_def)
    show "own_ok ext (sv_ctx sv') ((\<Sum>p \<in> {PC t}. mset (pl_blks no_hand no_hand sv' ?ths p)) +
        rest_blks (length dcaps) (length scaps) {PC t} (pl_blks no_hand no_hand sv ths)) (th_all_bases ?ths)"
      unfolding B using own tl sv' b pc by (simp add: rest_blks_def sum.remove[of _ "PC t"])
    show "pl_blks no_hand no_hand sv' ?ths p = pl_blks no_hand no_hand sv ths p \<and>
        (\<forall>mem. pl_rel dcaps scaps mem no_hand no_hand sv' ?ths ?ab p = pl_rel dcaps scaps mem no_hand no_hand sv ths ab p)"
      if "p \<notin> {PC t}" for p using that sv' by (cases p) auto
    show "cx_mem (sv_ctx sv') b = cx_mem (sv_ctx sv) b"
      if "b \<in># rest_blks (length dcaps) (length scaps) {PC t} (pl_blks no_hand no_hand sv ths)" for b
      using rest_in[OF that] na mem sv' by metis
    have T: "th_rel (cx_mem (sv_ctx sv)) t (ths ! t) (ab_links ab ! t)" using srv_relD(3)[OF R pc] by simp
    have "th_rel (cx_mem ctx') t (ths ! t) (ab_links ab ! t)"
    proof (rule th_rel_frame[OF T])
      fix x assume "x \<in> set (th_blks (ths ! t))"
      then have "x \<in># (\<Sum>p \<in> places (length dcaps) (length scaps). mset (pl_blks no_hand no_hand sv ths p))"
        using sum.remove[OF places_simps(4) pc, of "\<lambda>p. mset (pl_blks no_hand no_hand sv ths p)"] by simp
      then show "cx_mem ctx' x = cx_mem (sv_ctx sv) x" using na mem by metis
    qed
    then have "th_rel (cx_mem ctx') t (th_add (ths ! t) c) (ab_links ab ! t @ [lk_new])"
      unfolding th_rel_def l using c(1) by (auto simp: th_add_def intro!: list_all2_appendI)
    then show "pl_rel dcaps scaps (cx_mem (sv_ctx sv')) no_hand no_hand sv' ?ths ?ab p" if "p \<in> {PC t}" for p
      using that tl S t sv' by simp
  qed (use pc in simp)
qed

text \<open>The handler takes what waits in the queue of the thread; here it is one connection.\<close>

lemma add_conn_one:
  assumes R: "srv_rel ext nomem dcaps scaps no_hand no_hand sv ths ab" and t: "t < length scaps"
    and al: "False \<notin> set (cx_allocs (sv_ctx sv))" and null: "mref_count (cx_mref (sv_ctx sv)) 0 = 0"
    and item: "sv_items sv p = Some item" and q: "queue_dealloc (sv_connq sv ! t) p = Some q"
  shows "if cx_calloc (sv_ctx sv) (cx_mref (sv_ctx sv)) = 0 then rtmq_rsvr_add_conn now sv (ths ! t) p = None
    else \<exists>ctx' c a w. rtmq_rsvr_add_conn now sv (ths ! t) p =
        Some (sv\<lparr>sv_ctx := ctx', sv_connq := (sv_connq sv)[t := q]\<rparr>, th_add (ths ! t) c) \<and> conn_ready now item a w c \<and>
      srv_rel ext nomem dcaps scaps no_hand no_hand (sv\<lparr>sv_ctx := ctx', sv_connq := (sv_connq sv)[t := q]\<rparr>)
        (ths[t := th_add (ths ! t) c]) (ab\<lparr>ab_links := (ab_links ab)[t := ab_links ab ! t @ [lk_new]]\<rparr>)"
proof -
  let ?ctx = "sv_ctx sv" let ?al = "cx_allocs ?ctx"
  note S = srv_relD(1)[OF R, unfolded shape_ok_def] and own = srv_relD(2)[OF R]
  have id: "rv_id (th_rsvr (ths ! t)) = t" using srv_relD(3)[OF R, of "PC t"] t by (simp add: th_rel_def)
  have f: "False \<notin> set ?al" "False \<notin> set (tl ?al)" "False \<notin> set (tl (tl ?al))" "False \<notin> set (tl (tl (tl ?al)))"
      "False \<notin> set (tl (tl (tl (tl ?al))))" using al alloc_good(2) by blast+
  let ?al3 = "tl (tl (tl ?al))"
  let ?ctx3 = "?ctx\<lparr>cx_allocs := ?al3\<rparr>"
  obtain T where T: "avl_creat rtmq_sub_list_cmp_cb (tl ?al) = (Some T, tl (tl ?al))" "av_root T = NULL"
    using alloc_good(1)[OF f(2)] by (simp add: avl_creat_def)
  note A = alloc_good(1)[OF f(1)] alloc_good(1)[OF f(3)]
  let ?c = "(conn_new now (fst item) (snd item))\<lparr>cn_subs := Some T\<rparr>"
  have creat: "rtmq_rsvr_sck_creat now sv item = do {
      (ret, ctx, sck) \<leftarrow> rtmq_rsvr_alloc_recv_buff ?ctx3 (cn_sck ?c);
      if ret \<noteq> RTMQ_OK then do { sv \<leftarrow> rtmq_rsvr_sck_free (sv\<lparr>sv_ctx := ctx\<rparr>) (?c\<lparr>cn_sck := sck\<rparr>); Some (None, sv) }
      else Some (Some (?c\<lparr>cn_sck := sck\<rparr>), sv\<lparr>sv_ctx := ctx\<rparr>) }"
    by (cases "rtmq_rsvr_alloc_recv_buff ?ctx3 (cn_sck ?c)") (auto simp: rtmq_rsvr_sck_creat_def srv_alloc_def A T(1) Let_def)
  have o3: "own_ok ext ?ctx3 (\<Sum>p \<in> places (length dcaps) (length scaps). mset (pl_blks no_hand no_hand sv ths p)) (th_all_bases ths)"
    using own by simp
  have sz: "0 < RTMQ_BUFF_SIZE" by (simp add: RTMQ_BUFF_SIZE_def)
  from o3 sz show ?thesis
  proof (cases rule: own_alloc)
    case none
    have "srv_dec (sv\<lparr>sv_ctx := ?ctx3\<rparr>) 0 = None"
      using mref_dec_dead[OF blocks_okD(1)[OF own_okD(1)[OF own]] null] by (simp add: srv_dec_def rtmq_block_dec_def half64_def)
    then have "rtmq_rsvr_sck_creat now sv item = None"
      using none(1) unfolding creat by (simp add: rtmq_rsvr_alloc_recv_buff_def rtmq_rsvr_sck_free_def conn_new_def RTMQ_OK_def RTMQ_ERR_def)
    then show ?thesis using none(2) item by (simp add: rtmq_rsvr_add_conn_def)
  next
    case (new a ctx')
    have calloc: "cx_calloc ?ctx (cx_mref ?ctx) \<noteq> 0"
      using new(1,2) sz by (auto simp: rtmq_block_alloc_def mref_alloc_def split: if_splits)
    note C = ctx_sameD[OF new(6)]
    let ?al5 = "tl (tl ?al3)" 
    obtain w where w: "wiov_init (2 * sv_send_max sv) (tl ?al3) = (0, Some w, tl ?al5)" "\<And>mem. out_ok mem w []" "out_blks w = []"
      "\<And>mem. out_bytes_of mem w = []" by (rule wiov_init_new[OF f(5)]) blast
    let ?c' = "?c\<lparr>cn_sck := (cn_sck ?c)\<lparr>sk_recv := rtmq_snap_setup a RTMQ_BUFF_SIZE\<rparr>, cn_send := w\<rparr>"
    let ?ctx' = "ctx'\<lparr>cx_allocs := tl ?al5\<rparr>"
    have cr: "conn_ready now item a w ?c'" using T by (simp add: conn_ready_def conn_new_def)
    have "rtmq_rsvr_sck_creat now sv item = Some (Some (?c\<lparr>cn_sck := (cn_sck ?c)\<lparr>sk_recv := rtmq_snap_setup a RTMQ_BUFF_SIZE\<rparr>\<rparr>),
        sv\<lparr>sv_ctx := ctx'\<rparr>)" using new(1,2) unfolding creat by (simp add: rtmq_rsvr_alloc_recv_buff_def RTMQ_OK_def)
    then have run: "rtmq_rsvr_add_conn now sv (ths ! t) p = Some (sv\<lparr>sv_ctx := ?ctx', sv_connq := (sv_connq sv)[t := q]\<rparr>, th_add (ths ! t) ?c')"
      using item id q w(1) C(1) alloc_good(1)[OF f(4)]
      by (simp add: rtmq_rsvr_add_conn_def srv_alloc_def srv_item_dealloc_def th_add_def Let_def)
    have "srv_rel ext nomem dcaps scaps no_hand no_hand (sv\<lparr>sv_ctx := ?ctx', sv_connq := (sv_connq sv)[t := q]\<rparr>)
        (ths[t := th_add (ths ! t) ?c']) (ab\<lparr>ab_links := (ab_links ab)[t := ab_links ab ! t @ [lk_new]]\<rparr>)"
    proof (rule add_rel[OF R t])
      show "own_ok ext ?ctx' (\<Sum>p \<in> places (length dcaps) (length scaps). mset (pl_blks no_hand no_hand sv ths p))
          (add_mset a (th_all_bases ths))" using own_base[OF new(5)] by simp
      show "set (cx_allocs ?ctx') \<subseteq> set ?al" using alloc_good(3) f by simp (metis (no_types, opaque_lifting) alloc_good(2,3) subset_trans)
    qed (use new(7) C conn_ready_rel[OF cr w(2,4,3)] in simp_all)
    then show ?thesis using calloc run cr by auto
  qed
qed

lemma queue_dealloc_size: "queue_dealloc q p = Some q' \<Longrightarrow> sl_size (qu_slot q') = sl_size (qu_slot q)"
  by (auto simp: queue_dealloc_def slot_dealloc_def split: Option.bind_splits if_splits)

lemma add_conn_hdl_empty:
  assumes "t < length (sv_connq sv)" "rv_id (th_rsvr th) = t" "queue_good (sv_connq sv ! t) [] blocks" "rq_addrs (sv_connq sv ! t) = []"
  shows "rtmq_rsvr_add_conn_hdl now sv th = Some (RTMQ_OK, sv, th)"
proof -
  have rok: "ring_ok (qu_ring (sv_connq sv ! t))" using assms(3) by (simp add: queue_good_def)
  have "queue_used (sv_connq sv ! t) = 0" using used_ok[OF rok] assms(4) by (simp add: queue_used_def unat_eq_zero)
  then show ?thesis using assms(1,2) by (subst rtmq_rsvr_add_conn_hdl.simps) simp
qed

text \<open>From the listener to the list of the thread, when nothing else waits there.\<close>

lemma accept_add:
  assumes R: "srv_rel ext nomem dcaps scaps no_hand no_hand sv ths ab" and len: "length (sv_connq sv) = length scaps" "scaps \<noteq> []"
    and t: "t = unat (sv_sid sv) mod length scaps"
    and q: "queue_good (sv_connq sv ! t) [] blocks" "rq_addrs (sv_connq sv ! t) = []" "64 \<le> sl_size (qu_slot (sv_connq sv ! t))"
      "blocks \<noteq> []"
    and fd: "0 \<le> fd" and al: "False \<notin> set (cx_allocs (sv_ctx sv))" and null: "mref_count (cx_mref (sv_ctx sv)) 0 = 0"
  shows "\<exists>sv1. rtmq_lsn_accept sv fd = Some (RTMQ_OK, sv1) \<and> sv_recv_cmds sv1 = sv_recv_cmds sv @ [(t, RTMQ_CMD_ADD_SCK)] \<and>
     (if cx_calloc (sv_ctx sv) (cx_mref (sv_ctx sv)) = 0 then rtmq_rsvr_recv_cmd now (Some RTMQ_CMD_ADD_SCK) sv1 (ths ! t) = None
      else \<exists>sv2 c a w. rtmq_rsvr_recv_cmd now (Some RTMQ_CMD_ADD_SCK) sv1 (ths ! t) = Some (RTMQ_OK, sv2, th_add (ths ! t) c) \<and>
        conn_ready now (fd, sv_sid sv + 1) a w c \<and>
        srv_rel ext nomem dcaps scaps no_hand no_hand sv2 (ths[t := th_add (ths ! t) c])
          (ab\<lparr>ab_links := (ab_links ab)[t := ab_links ab ! t @ [lk_new]]\<rparr>) \<and>
        sv_sid sv2 = sv_sid sv + 1 \<and> length (sv_connq sv2) = length scaps \<and>
        queue_good (sv_connq sv2 ! t) [] blocks \<and> rq_addrs (sv_connq sv2 ! t) = [] \<and> 64 \<le> sl_size (qu_slot (sv_connq sv2 ! t)))"
proof -
  let ?q = "sv_connq sv ! t"
  have tl: "t < length scaps" "t < length (sv_connq sv)" using len t by simp_all
  from q(1,3) obtain p sl rq where p: "queue_malloc ?q 64 = Some (p, ?q\<lparr>qu_slot := sl\<rparr>)" "p \<noteq> NULL"
      "queue_push (?q\<lparr>qu_slot := sl\<rparr>) p = Some (0, ?q\<lparr>qu_slot := sl, qu_ring := rq\<rparr>)"
      "queue_good (?q\<lparr>qu_slot := sl, qu_ring := rq\<rparr>) [] blocks" "ring_items rq = [p]" "sl_size sl = sl_size (qu_slot ?q)"
  proof (cases rule: queue_malloc_cases)
    case full
    then show ?thesis using q(2,4) by simp
  next
    case (room p sl rq)
    show ?thesis by (rule that[OF room(1,2,6,7) _ room(9)]) (use room(8) q(2) in simp)
  qed
  let ?q1 = "?q\<lparr>qu_slot := sl, qu_ring := rq\<rparr>"
  define sv1 where "sv1 = sv\<lparr>sv_sid := sv_sid sv + 1, sv_items := (sv_items sv)(p \<mapsto> (fd, sv_sid sv + 1)),
      sv_connq := (sv_connq sv)[t := ?q1], sv_recv_cmds := sv_recv_cmds sv @ [(t, RTMQ_CMD_ADD_SCK)]\<rparr>"
  have ne: "sv_connq sv \<noteq> []" using tl by auto
  have acc: "rtmq_lsn_accept sv fd = Some (RTMQ_OK, sv1)"
    using fd ne p(1-3) tl unfolding rtmq_lsn_accept_def sv1_def
    by (simp add: len(1) t[symmetric] rtmq_add_sck_notify_def)
  have R1: "srv_rel ext nomem dcaps scaps no_hand no_hand sv1 ths ab"
    by (rule srv_rel_ctx[OF R]) (use srv_relD(2)[OF R] in \<open>simp_all add: sv1_def\<close>)
  define num where "num = min (queue_used ?q1) RTMQ_CONNQ_LEN"
  have rok: "ring_ok rq" using p(4) by (simp add: queue_good_def)
  have lim: "RTMQ_CONNQ_LEN \<noteq> 0" by (simp add: RTMQ_CONNQ_LEN_def)
  have num': "num = min (ring_used rq) RTMQ_CONNQ_LEN" by (simp add: num_def queue_used_def)
  from ring_batch[OF rok num' lim] p(5) obtain rq' xs where b: "num \<noteq> 0" "ring_mpop rq num = Some (num, xs, rq')" "ring_ok rq'"
      "[p] = xs @ ring_items rq'" "xs \<noteq> []" "ring_cap rq' = ring_cap rq" by (auto split: if_splits)
  have xs: "xs = [p]" "ring_items rq' = []" using b(4,5) by (cases xs; auto)+
  let ?q2 = "?q\<lparr>qu_slot := sl, qu_ring := rq'\<rparr>"
  define sv2 where "sv2 = sv1\<lparr>sv_connq := (sv_connq sv)[t := ?q2]\<rparr>"
  have R2: "srv_rel ext nomem dcaps scaps no_hand no_hand sv2 ths ab"
    by (rule srv_rel_ctx[OF R1]) (use srv_relD(2)[OF R1] in \<open>simp_all add: sv2_def\<close>)
  have "queue_good ?q2 [p] blocks" using p(4,5) b(3,6) xs(2) by (simp add: queue_good_def)
  then obtain sl' where d: "queue_dealloc ?q2 p = Some (?q2\<lparr>qu_slot := sl'\<rparr>)" "queue_good (?q2\<lparr>qu_slot := sl'\<rparr>) [] blocks"
    by (rule queue_dealloc_good)
  have q2: "sv_connq sv2 ! t = ?q2" "sv_items sv2 p = Some (fd, sv_sid sv + 1)" "sv_ctx sv2 = sv_ctx sv"
    using tl by (simp_all add: sv2_def sv1_def)
  have id: "rv_id (th_rsvr (ths ! t)) = t" using srv_relD(3)[OF R, of "PC t"] tl by (simp add: th_rel_def)
  have hdl: "rtmq_rsvr_recv_cmd now (Some RTMQ_CMD_ADD_SCK) sv1 (ths ! t) = do {
      (sv, th) \<leftarrow> rtmq_rsvr_add_conn now sv2 (ths ! t) p; rtmq_rsvr_add_conn_hdl now sv th }"
  proof -
    have "rtmq_rsvr_add_conn_hdl now sv1 (ths ! t) = do {
        (sv, th) \<leftarrow> rtmq_rsvr_add_conns now [p] sv2 (ths ! t); rtmq_rsvr_add_conn_hdl now sv th }"
      using b(1,2) xs(1) tl
      by (subst rtmq_rsvr_add_conn_hdl.simps) (simp add: id sv1_def sv2_def num_def[symmetric] del: rtmq_rsvr_add_conns.simps)
    then show ?thesis by (cases "rtmq_rsvr_add_conn now sv2 (ths ! t) p") (auto simp: rtmq_rsvr_recv_cmd_def)
  qed
  have add: "if cx_calloc (sv_ctx sv) (cx_mref (sv_ctx sv)) = 0 then rtmq_rsvr_add_conn now sv2 (ths ! t) p = None
    else \<exists>ctx' c a w. rtmq_rsvr_add_conn now sv2 (ths ! t) p = Some (sv2\<lparr>sv_ctx := ctx',
          sv_connq := (sv_connq sv2)[t := ?q2\<lparr>qu_slot := sl'\<rparr>]\<rparr>, th_add (ths ! t) c) \<and> conn_ready now (fd, sv_sid sv + 1) a w c \<and>
      srv_rel ext nomem dcaps scaps no_hand no_hand (sv2\<lparr>sv_ctx := ctx', sv_connq := (sv_connq sv2)[t := ?q2\<lparr>qu_slot := sl'\<rparr>]\<rparr>)
        (ths[t := th_add (ths ! t) c]) (ab\<lparr>ab_links := (ab_links ab)[t := ab_links ab ! t @ [lk_new]]\<rparr>)"
    using add_conn_one[OF R2 tl(1), of p "(fd, sv_sid sv + 1)" "?q2\<lparr>qu_slot := sl'\<rparr>" now] al null d(1) unfolding q2 by simp
  show ?thesis
  proof (cases "cx_calloc (sv_ctx sv) (cx_mref (sv_ctx sv)) = 0")
    case True
    then show ?thesis using acc add hdl by (simp add: sv1_def)
  next
    case False
    then obtain ctx' c a w where A: "rtmq_rsvr_add_conn now sv2 (ths ! t) p = Some (sv2\<lparr>sv_ctx := ctx',
          sv_connq := (sv_connq sv2)[t := ?q2\<lparr>qu_slot := sl'\<rparr>]\<rparr>, th_add (ths ! t) c)" "conn_ready now (fd, sv_sid sv + 1) a w c"
      "srv_rel ext nomem dcaps scaps no_hand no_hand (sv2\<lparr>sv_ctx := ctx', sv_connq := (sv_connq sv2)[t := ?q2\<lparr>qu_slot := sl'\<rparr>]\<rparr>)
        (ths[t := th_add (ths ! t) c]) (ab\<lparr>ab_links := (ab_links ab)[t := ab_links ab ! t @ [lk_new]]\<rparr>)" using add by auto
    let ?sv3 = "sv2\<lparr>sv_ctx := ctx', sv_connq := (sv_connq sv2)[t := ?q2\<lparr>qu_slot := sl'\<rparr>]\<rparr>"
    have q3: "sv_connq ?sv3 ! t = ?q2\<lparr>qu_slot := sl'\<rparr>" "t < length (sv_connq ?sv3)" "sv_sid ?sv3 = sv_sid sv + 1"
      "length (sv_connq ?sv3) = length scaps" using tl len by (simp_all add: sv2_def sv1_def)
    have "rtmq_rsvr_add_conn_hdl now ?sv3 (th_add (ths ! t) c) = Some (RTMQ_OK, ?sv3, th_add (ths ! t) c)"
      by (rule add_conn_hdl_empty[OF q3(2)]) (use d(2) q3(1) xs(2) id in \<open>simp_all add: th_add_def\<close>)
    then have "rtmq_rsvr_recv_cmd now (Some RTMQ_CMD_ADD_SCK) sv1 (ths ! t) = Some (RTMQ_OK, ?sv3, th_add (ths ! t) c)"
      using hdl A(1) by simp
    moreover have "64 \<le> sl_size sl'" using queue_dealloc_size[OF d(1)] p(6) q(3) by simp
    ultimately show ?thesis using False acc A(2,3) d(2) xs(2) q3
      by (intro exI[of _ sv1]) (auto simp: sv1_def)
  qed
qed

end
