(* ===== verification/Rtmq_Send_Spec.thy ===== *)
theory Rtmq_Send_Spec
  imports Rtmq_Run Rtmq_Accept Rtmq_Spec
begin

text \<open>
  What the sending side of the message queue server promises, how a connection gets there, and what happens when an
  idle one is closed.
\<close>

subsection \<open>A fresh system\<close>

text \<open>Nothing was accepted yet.\<close>

definition abs_fresh :: "srv_abs \<Rightarrow> bool" where
  "abs_fresh ab \<longleftrightarrow> set (ab_acc ab) \<subseteq> {[]} \<and> set (ab_dist ab) \<subseteq> {[]} \<and> set (ab_send ab) \<subseteq> {[]} \<and>
     (\<forall>lks \<in> set (ab_links ab). \<forall>lk \<in> set lks. lk_given lk = [] \<and> lk_sent lk = 0) \<and> ab_lost ab = [] \<and> ab_closed ab = []"

lemma set_nil_nth: "set xs \<subseteq> {[]} \<Longrightarrow> i < length xs \<Longrightarrow> xs ! i = []"
  using nth_mem by blast

lemma concat_nil: "\<forall>x \<in> set xs. f x = [] \<Longrightarrow> concat (map f xs) = []"
  by (induction xs) simp_all

lemma abs_fresh_ok:
  assumes f: "abs_fresh ab" and l: "length (ab_acc ab) = length (ab_dist ab)" "length (ab_links ab) = length (ab_send ab)"
  shows "abs_ok ab" "mset (concat (ab_acc ab)) = {#}" "d < length (ab_acc ab) \<Longrightarrow> ab_acc ab ! d = []"
proof -
  have z: "concat (ab_send ab) = []" "concat (ab_acc ab) = []" using f by (auto simp: abs_fresh_def)
  have "concat (map lk_given lks) = []" if "lks \<in> set (ab_links ab)" for lks
    by (rule concat_nil) (use f that in \<open>auto simp: abs_fresh_def\<close>)
  then have "given_toks (ab_links ab) = {#}" unfolding given_toks_def by (simp add: concat_nil)
  then have o: "out_toks ab = {#}" using f z by (simp add: out_toks_def abs_fresh_def)
  have n: "ab_acc ab ! d = []" "ab_dist ab ! d = []" if "d < length (ab_acc ab)" for d
    using f l that by (auto simp: abs_fresh_def intro!: set_nil_nth)
  have s: "ab_send ab ! t = []" if "t < length (ab_send ab)" for t
    using f that by (auto simp: abs_fresh_def intro!: set_nil_nth)
  have k: "lk_given lk = []" "lk_sent lk = 0" if "t < length (ab_send ab)" "lk \<in> set (ab_links ab ! t)" for t lk
    using f l that by (auto simp: abs_fresh_def)
  show "abs_ok ab" unfolding abs_ok_def using l o n s k by simp
  show "mset (concat (ab_acc ab)) = {#}" using z by simp
  show "d < length (ab_acc ab) \<Longrightarrow> ab_acc ab ! d = []" by (rule n)
qed

subsection \<open>A server with one queue, one thread and one connection\<close>

lemma send_demo:
  obtains sv th ab c cap where "srv_rel (\<lambda>_. 0) False [cap] [cap] no_hand no_hand sv [th] ab" "abs_fresh ab"
    "th_conns th = [Some c]" "conn_base c = 4096" "cn_rdtm c = 0" "th_all_bases [th] = {#4096#}"
    "sv_sid sv = 0" "length (sv_connq sv) = 1"
    "queue_good (sv_connq sv ! 0) [] [Loc 64]" "rq_addrs (sv_connq sv ! 0) = []" "64 \<le> sl_size (qu_slot (sv_connq sv ! 0))"
    "False \<notin> set (cx_allocs (sv_ctx sv))" "mref_count (cx_mref (sv_ctx sv)) 0 = 0" "cx_calloc (sv_ctx sv) (cx_mref (sv_ctx sv)) \<noteq> 0"
proof -
  obtain mf0 where m0: "mref_ok mf0" "mref_count mf0 = (\<lambda>_. 0)" by (rule mref_init_ok)
  have "mref_count mf0 4096 = 0" "(0::u64) < 4096" "(4096::u64) < half64" by (simp_all add: m0 half64_def)
  from mref_alloc_new[OF m0(1) this, of 1 0 0] obtain mf where mf: "mref_ok mf" "mref_count mf = (\<lambda>_. 0)(4096 := 1)"
    unfolding m0(2) by auto
  obtain rq k where rq: "ring_ok rq" "ring_items rq = []" "1 \<le> ring_cap rq"
    using ring_creat_ok[of 1] by auto
  obtain sl where sl: "sl_size sl = 64" "pool_ok sl {#} (slot_blocks 64 64 1)"
    using slot_creat_ok[of 1 64 64] by auto
  let ?q = "\<lparr>qu_slot = sl, qu_ring = rq\<rparr>"
  have q: "queue_good ?q [] [Loc 64]" using sl rq by (simp add: queue_good_def slot_blocks_def)
  let ?as = "[4096, 8192, 12288, 16384] :: u64 list"
  let ?ctx = "\<lparr>cx_nid = 1, cx_recvq = [], cx_items = Map.empty, cx_svr_map = [7 \<mapsto> [0]], cx_auth = Map.empty,
    cx_reg = Map.empty, cx_cmds = [], cx_mem = [4096 \<mapsto> replicate RTMQ_BUFF_SIZE (0 :: u8)], cx_mref = mf, cx_rand = [],
    cx_calloc = demo_calloc ?as, cx_allocs = []\<rparr>"
  have as: "\<forall>a \<in> set ?as. 0 < a \<and> a < half64" by (simp add: half64_def)
  have bl: "blocks_ok ?ctx" using mf demo_calloc_ok(1)[OF as] by (auto simp: blocks_ok_def)
  obtain w where w: "wiov_init 4 [] = (0, Some w, [])" "wiov_items w = []" "wiov_pending w = []" "wiov_ok w" "wiov_isempty w"
    by (simp add: wiov_init_def Let_def wiov_ok_def wiov_items_def wiov_pending_def wiov_item_num_def wiov_isempty_def)
  let ?c = "(conn_new 0 3 1)\<lparr>cn_sck := \<lparr>sk_nid = 7, sk_gid = 1, sk_auth_succ = True,
    sk_recv = rtmq_snap_setup 4096 RTMQ_BUFF_SIZE, sk_mesg_list = []\<rparr>, cn_send := w\<rparr>"
  let ?th = "\<lparr>th_rsvr = \<lparr>rv_id = 0, rv_recv_total = 0, rv_err_total = 0, rv_drop_total = 0\<rparr>, th_ctm = 0,
    th_conns = [Some ?c], th_connections = 1\<rparr>"
  define sv where "sv = \<lparr>sv_ctx = ?ctx, sv_subs = undefined, sv_distq = [rq], sv_sendq = [rq], sv_connq = [?q], sv_items = Map.empty,
    sv_sid = 0, sv_send_max = 2, sv_dist_cmds = 0, sv_recv_cmds = []\<rparr>"
  let ?lk = "\<lparr>lk_nid = 7, lk_given = [], lk_sent = 0\<rparr>"
  let ?ab = "\<lparr>ab_acc = [[]], ab_dist = [[]], ab_send = [[]], ab_links = [[?lk]],
    ab_map = [7 \<mapsto> [0]], ab_lost = [], ab_closed = []\<rparr>"
  have base: "conn_base ?c = 4096" by (simp add: conn_base_def rtmq_snap_setup_def)
  have blks: "conn_blks ?c = []" using w by (simp add: conn_blks_def out_blks_def)
  have th: "th_list ?th = [?c]" "th_blks ?th = []" "th_bases ?th = [4096]"
    using blks base by (simp_all add: th_list_def th_blks_def th_bases_def)
  have out: "out_ok (cx_mem ?ctx) w []" using w by (simp add: out_ok_def)
  have "out_bytes_of (cx_mem ?ctx) w = []" using out_bytes_length[OF out] w by simp
  then have conn: "conn_rel (cx_mem ?ctx) ?c ?lk"
    using out unfolding conn_rel_def by (intro conjI exI[of _ "[]"]) (simp_all add: conn_new_def lk_stream_def)
  have pl: "p \<in> places 1 1 \<longleftrightarrow> p = PD 0 \<or> p = PS 0 \<or> p = PC 0" for p by (cases p) (auto simp: places_def)
  have nob: "pl_blks no_hand no_hand sv [?th] p = []" if "p \<in> places 1 1" for p
    using that rq th unfolding pl by (auto simp: sv_def q_blks_def)
  have "shape_ok False [ring_cap rq] [ring_cap rq] sv [?th] ?ab" by (simp add: shape_ok_def map_ok_def sv_def)
  moreover have "own_ok (\<lambda>_. 0) ?ctx {#} {#4096#}" using bl mf by (simp add: own_ok_def)
  moreover have "(\<Sum>p \<in> places 1 1. mset (pl_blks no_hand no_hand sv [?th] p)) = {#}"
    by (rule sum.neutral) (simp add: nob)
  moreover have "pl_rel [ring_cap rq] [ring_cap rq] (cx_mem ?ctx) no_hand no_hand sv [?th] ?ab p" if "p \<in> places 1 1" for p
    using that rq th conn unfolding pl by (auto simp: sv_def q_rel_def q_blks_def th_rel_def)
  ultimately have "srv_rel (\<lambda>_. 0) False [ring_cap rq] [ring_cap rq] no_hand no_hand sv [?th] ?ab"
    unfolding srv_rel_def using th(3) by (simp add: th_all_bases_def sv_def)
  moreover have "cx_calloc ?ctx mf \<noteq> 0" using demo_calloc_ok(2)[OF as, of mf] mf(2) by (simp add: card_insert_if)
  ultimately show thesis by (intro that[where c = ?c and th = ?th and sv = sv and ab = ?ab and cap = "ring_cap rq"]) (use base th q rq sl mf(2) in \<open>simp_all add: abs_fresh_def conn_new_def th_all_bases_def sv_def\<close>)
qed

subsection \<open>Properties\<close>

lemma subseq_front: "subseq xs (xs @ ys)"
  using list_emb_append_mono[OF subseq_order.refl list_emb_Nil, of xs ys] by simp



text \<open>C36: no message is doubled, lost in silence, sent to the wrong node or overtaken.  From a fresh state, in any run, the messages
  for which \<open>rtmq_async_send\<close> answered \<open>RTMQ_OK\<close> are, queue by queue, those that still wait, those that a connection was given and those that
  were dropped, each once; a connection was given only messages to its own node, those from one distribution queue in the order in which they
  were accepted; and the bytes that \<open>writev\<close> took from a connection are a prefix of the encoding of these messages, one after the
  other, in network order.\<close>

theorem rtmq_send_delivers:
  assumes R: "srv_rel ext nomem dcaps scaps no_hand no_hand sv ths ab" and f: "abs_fresh ab" and d: "dcaps \<noteq> []"
    and es: "\<forall>e \<in> set es. srv_event_ok (length scaps) e"
  shows "\<exists>ms sv' ths' ab'. srv_run es sv ths = Some (ms, sv', ths') \<and>
     srv_rel ext nomem dcaps scaps no_hand no_hand sv' ths' ab' \<and>
     mset (concat (ab_acc ab')) = mset ms \<and>
     (\<forall>d < length dcaps. subseq (ab_acc ab' ! d) ms \<and> mset (ab_acc ab' ! d) =
        mset (ab_dist ab' ! d) + image_mset snd (filter_mset (\<lambda>x. fst x = d) (out_toks ab'))) \<and>
     (\<forall>t < length scaps. list_all2 (\<lambda>c lk. \<exists>c'. c = Some c' \<and> sk_nid (cn_sck c') = lk_nid lk \<and>
          cn_out c' = take (length (cn_out c')) (rtmq_stream (map snd (lk_given lk))) \<and>
          (\<forall>x \<in> set (lk_given lk). hd_nid (fst (snd x)) = lk_nid lk) \<and>
          (\<forall>d < length dcaps. subseq (toks_of d (lk_given lk)) (ab_acc ab' ! d)))
        (th_conns (ths' ! t)) (ab_links ab' ! t))"
proof -
  have S: "length (ab_acc ab) = length dcaps" "length (ab_dist ab) = length dcaps" "length (ab_links ab) = length (ab_send ab)"
    using srv_relD(1)[OF R] by (simp_all add: shape_ok_def)
  note F = abs_fresh_ok[OF f, unfolded S, OF refl refl]
  from srv_run_refines[OF R d es] obtain ms sv' ths' ab' where run: "srv_run es sv ths = Some (ms, sv', ths')"
    "srv_rel ext nomem dcaps scaps no_hand no_hand sv' ths' ab'" "srv_path nomem dcaps scaps ab ms ab'" by blast
  note P = srv_path_ok[OF run(3) F(1)]
  have S': "length (ab_acc ab') = length dcaps" "length (ab_dist ab') = length dcaps" "length (ab_send ab') = length scaps"
    using srv_relD(1)[OF run(2)] by (simp_all add: shape_ok_def)
  have ok: "abs_ok ab'" using P by blast
  have acc: "subseq (ab_acc ab' ! d) ms" if "d < length dcaps" for d
    using P F(3)[OF that] that S by (metis append_Nil)
  have links: "list_all2 (\<lambda>c lk. \<exists>c'. c = Some c' \<and> sk_nid (cn_sck c') = lk_nid lk \<and>
          cn_out c' = take (length (cn_out c')) (rtmq_stream (map snd (lk_given lk))) \<and>
          (\<forall>x \<in> set (lk_given lk). hd_nid (fst (snd x)) = lk_nid lk) \<and>
          (\<forall>d < length dcaps. subseq (toks_of d (lk_given lk)) (ab_acc ab' ! d)))
        (th_conns (ths' ! t)) (ab_links ab' ! t)" if t: "t < length scaps" for t
  proof (rule list_all2_all_nthI)
    have T: "th_rel (cx_mem (sv_ctx sv')) t (ths' ! t) (ab_links ab' ! t)"
      using srv_relD(3)[OF run(2), of "PC t"] t by simp
    show "length (th_conns (ths' ! t)) = length (ab_links ab' ! t)" by (rule th_relD(3)[OF T])
    fix i assume "i < length (th_conns (ths' ! t))"
    then have i: "i < length (ab_links ab' ! t)" using th_relD(3)[OF T] by simp
    let ?c = "th_list (ths' ! t) ! i" let ?lk = "ab_links ab' ! t ! i"
    have "conn_rel (cx_mem (sv_ctx sv')) ?c ?lk" by (rule th_relD(5)[OF T i])
    then obtain rest where "cn_out ?c @ rest = lk_stream ?lk" "lk_nid ?lk = sk_nid (cn_sck ?c)"
      unfolding conn_rel_def by blast
    then have "cn_out ?c = take (length (cn_out ?c)) (rtmq_stream (map snd (lk_given ?lk)))" "sk_nid (cn_sck ?c) = lk_nid ?lk"
      unfolding lk_stream_def by (metis append_eq_conv_conj, simp)
    moreover have "(\<forall>x \<in> set (lk_given ?lk). hd_nid (fst (snd x)) = lk_nid ?lk)"
      "\<forall>d < length dcaps. subseq (toks_of d (lk_given ?lk @ ab_send ab' ! t) @ ab_dist ab' ! d) (ab_acc ab' ! d)"
      using ok t S' nth_mem[OF i] unfolding abs_ok_def by simp_all
    moreover from this(2) have "\<forall>d < length dcaps. subseq (toks_of d (lk_given ?lk)) (ab_acc ab' ! d)"
      unfolding toks_of_simps append.assoc using subseq_front subseq_order.trans by blast
    ultimately show "\<exists>c'. th_conns (ths' ! t) ! i = Some c' \<and> sk_nid (cn_sck c') = lk_nid ?lk \<and>
        cn_out c' = take (length (cn_out c')) (rtmq_stream (map snd (lk_given ?lk))) \<and>
        (\<forall>x \<in> set (lk_given ?lk). hd_nid (fst (snd x)) = lk_nid ?lk) \<and>
        (\<forall>d < length dcaps. subseq (toks_of d (lk_given ?lk)) (ab_acc ab' ! d))"
      using th_relD(4)[OF T i] by blast
  qed
  have "mset (concat (ab_acc ab')) = mset ms" using P F(2) by simp
  moreover have "\<forall>d < length dcaps. mset (ab_acc ab' ! d) =
      mset (ab_dist ab' ! d) + image_mset snd (filter_mset (\<lambda>x. fst x = d) (out_toks ab'))"
    using ok S' unfolding abs_ok_def by simp
  ultimately show ?thesis using run(1,2) acc links by blast
qed

theorem rtmq_send_delivers_witness:
  "\<exists>cap sv th ab ms sv' ths' ab'. srv_run [SvSend 5 7 [1, 2, 3], SvDist, SvRoute 0 0, SvWrite 0 0 (\<lambda>_. Some (WvDone 10))] sv [th] =
       Some (ms, sv', ths') \<and> srv_rel (\<lambda>_. 0) False [cap] [cap] no_hand no_hand sv' ths' ab' \<and>
     abs_fresh ab \<and> mset (concat (ab_acc ab')) = mset ms"
proof -
  obtain sv th ab c cap where D: "srv_rel (\<lambda>_. 0) False [cap] [cap] no_hand no_hand sv [th] ab" "abs_fresh ab" by (rule send_demo)
  have "\<forall>e \<in> set [SvSend 5 7 [1, 2, 3], SvDist, SvRoute 0 0, SvWrite 0 0 (\<lambda>_. Some (WvDone 10))]. srv_event_ok (length [cap]) e"
    by simp
  from rtmq_send_delivers[OF D _ this] D(2) show ?thesis by blast
qed

text \<open>C37: an accepted connection reaches its thread.  When the queue of the thread is empty and memory is there, \<open>rtmq_lsn_accept\<close> and
  the command that it sends append to the list of the thread one connection with that descriptor and the next session number, not yet
  authenticated, with an empty buffer, times set to now and nothing to send; all that holds of the sending side holds still, and the item is
  back in its pool.  But when \<open>calloc\<close> has no memory for the receive buffer, the server ends, because \<open>rtmq_rsvr_sck_free\<close> releases the
  block \<open>NULL\<close>.\<close>

theorem rtmq_accept_adds:
  assumes R: "srv_rel ext nomem dcaps scaps no_hand no_hand sv ths ab" and len: "length (sv_connq sv) = length scaps" "scaps \<noteq> []"
    and t: "t = unat (sv_sid sv) mod length scaps"
    and q: "queue_good (sv_connq sv ! t) [] blocks" "rq_addrs (sv_connq sv ! t) = []" "64 \<le> sl_size (qu_slot (sv_connq sv ! t))"
      "blocks \<noteq> []"
    and fd: "0 \<le> fd" and al: "False \<notin> set (cx_allocs (sv_ctx sv))" and null: "mref_count (cx_mref (sv_ctx sv)) 0 = 0"
  shows "\<exists>sv1. rtmq_lsn_accept sv fd = Some (RTMQ_OK, sv1) \<and> sv_recv_cmds sv1 = sv_recv_cmds sv @ [(t, RTMQ_CMD_ADD_SCK)] \<and>
     (if cx_calloc (sv_ctx sv) (cx_mref (sv_ctx sv)) = 0 then rtmq_rsvr_recv_cmd now (Some RTMQ_CMD_ADD_SCK) sv1 (ths ! t) = None
      else \<exists>sv2 c a w. rtmq_rsvr_recv_cmd now (Some RTMQ_CMD_ADD_SCK) sv1 (ths ! t) = Some (RTMQ_OK, sv2, th_add (ths ! t) c) \<and>
        conn_ready now (fd, sv_sid sv + 1) a w c \<and>
        srv_rel ext nomem dcaps scaps no_hand no_hand sv2 (ths[t := th_add (ths ! t) c])
          (ab\<lparr>ab_links := (ab_links ab)[t := ab_links ab ! t @ [lk_new]]\<rparr>) \<and>
        sv_sid sv2 = sv_sid sv + 1 \<and> length (sv_connq sv2) = length scaps \<and>
        queue_good (sv_connq sv2 ! t) [] blocks \<and> rq_addrs (sv_connq sv2 ! t) = [] \<and> 64 \<le> sl_size (qu_slot (sv_connq sv2 ! t)))"
  by (rule accept_add[OF assms])

theorem rtmq_accept_adds_witness:
  "\<exists>sv th sv1 sv2 c a w. rtmq_lsn_accept sv 5 = Some (RTMQ_OK, sv1) \<and>
     rtmq_rsvr_recv_cmd 9 (Some RTMQ_CMD_ADD_SCK) sv1 th = Some (RTMQ_OK, sv2, th_add th c) \<and> conn_ready 9 (5, 1) a w c"
proof -
  obtain sv th ab c cap where D: "srv_rel (\<lambda>_. 0) False [cap] [cap] no_hand no_hand sv [th] ab"
    "sv_sid sv = 0" "length (sv_connq sv) = 1"
    "queue_good (sv_connq sv ! 0) [] [Loc 64]" "rq_addrs (sv_connq sv ! 0) = []" "64 \<le> sl_size (qu_slot (sv_connq sv ! 0))"
    "False \<notin> set (cx_allocs (sv_ctx sv))" "mref_count (cx_mref (sv_ctx sv)) 0 = 0" "cx_calloc (sv_ctx sv) (cx_mref (sv_ctx sv)) \<noteq> 0"
    by (rule send_demo)
  have "length (sv_connq sv) = length [cap]" "[cap] \<noteq> []" "0 = unat (sv_sid sv) mod length [cap]" "[Loc 64] \<noteq> []" "(0::int) \<le> 5"
    using D by simp_all
  from rtmq_accept_adds[OF D(1) this(1-3) D(4-6) this(4,5) D(7,8), of 9] D(2,9) obtain sv1 sv2 c' a w where
    "rtmq_lsn_accept sv 5 = Some (RTMQ_OK, sv1)" "conn_ready 9 (5, 1) a w c'"
    "rtmq_rsvr_recv_cmd 9 (Some RTMQ_CMD_ADD_SCK) sv1 th = Some (RTMQ_OK, sv2, th_add th c')" by auto
  then show ?thesis by blast
qed

text \<open>The receive buffer of a connection that is closed for idleness is released twice.\<close>

lemma own_more:
  assumes own: "own_ok ext ctx M (add_mset a B)" and n: "ext a = Suc n"
  shows "own_ok (ext(a := n)) ctx M (add_mset a (add_mset a B))"
  unfolding own_ok_def
proof (intro conjI allI impI)
  note O = own_okD[OF own]
  show "blocks_ok ctx" by (rule O(1))
  show "mref_count (cx_mref ctx) b = (ext(a := n)) b + count M b + count (add_mset a (add_mset a B)) b" for b
    using O(2)[of b] n by (cases "b = a") simp_all
  fix b assume b: "b \<in># M"
  then have "b \<noteq> a" using O(3)[of a] by auto
  then show "(ext(a := n)) b = 0" "count M b = 1" "count (add_mset a (add_mset a B)) b = 0" using O(3)[OF b] by auto
qed

lemma srv_dec_dead:
  assumes "own_ok ext (sv_ctx sv) M B" "mref_count (cx_mref (sv_ctx sv)) a = 0" "a < half64"
  shows "srv_dec sv a = None"
  using mref_dec_dead[OF blocks_okD(1)[OF own_okD(1)[OF assms(1)]] assms(2,3)] by (simp add: srv_dec_def rtmq_block_dec_def)

lemma proc_all_mref:
  "cx_mref (rtmq_rsvr_cmd_proc_all_req ctx) = cx_mref ctx" "cx_mem (rtmq_rsvr_cmd_proc_all_req ctx) = cx_mem ctx"
proof -
  have "cx_mref (fold (\<lambda>idx ctx. rtmq_rsvr_cmd_proc_req ctx idx) is ctx) = cx_mref ctx \<and>
      cx_mem (fold (\<lambda>idx ctx. rtmq_rsvr_cmd_proc_req ctx idx) is ctx) = cx_mem ctx" for "is"
    by (induction "is" arbitrary: ctx) (simp_all add: rtmq_rsvr_cmd_proc_req_def)
  then show "cx_mref (rtmq_rsvr_cmd_proc_all_req ctx) = cx_mref ctx" "cx_mem (rtmq_rsvr_cmd_proc_all_req ctx) = cx_mem ctx"
    by (simp_all add: rtmq_rsvr_cmd_proc_all_req_def)
qed

text \<open>C38: a connection that is closed for idleness is released twice.  \<open>rtmq_rsvr_event_timeout_hdl\<close> gives back the receive
  buffer before \<open>rtmq_rsvr_del_conn_hdl\<close> does so again: when no message of the buffer waits for a worker, the second release fails the
  \<open>assert\<close> of \<open>mref_dec\<close> and the server ends; when messages wait, one of their references is taken away, and with exactly one the memory is gone
  although a worker will still read it.\<close>

theorem rtmq_timeout_broken:
  assumes R: "srv_rel ext nomem dcaps scaps no_hand no_hand sv ths ab" and t: "t < length scaps"
    and c: "th_conns (ths ! t) = [Some c]" "now - cn_rdtm c \<ge> 60" and one: "count (th_all_bases ths) (conn_base c) = 1"
  shows "case ext (conn_base c) of
      0 \<Rightarrow> rtmq_rsvr_event_timeout_hdl now sv (ths ! t) = None
    | Suc n \<Rightarrow> \<exists>sv' th'. rtmq_rsvr_event_timeout_hdl now sv (ths ! t) = Some (RTMQ_OK, sv', th') \<and> th_conns th' = [] \<and>
        mref_count (cx_mref (sv_ctx sv')) (conn_base c) = n \<and> (n = 0 \<longleftrightarrow> cx_mem (sv_ctx sv') (conn_base c) = None)"
proof -
  let ?a = "conn_base c" and ?th = "(ths ! t)\<lparr>th_ctm := now\<rparr>"
  have l: "length ths = length scaps" using srv_relD(1)[OF R] by (simp add: shape_ok_def)
  have T: "th_rel (cx_mem (sv_ctx sv)) t (ths ! t) (ab_links ab ! t)" using srv_relD(3)[OF R, of "PC t"] t by simp
  have tl: "th_list (ths ! t) = [c]" using c(1) by (simp add: th_list_def)
  then obtain lk where rel: "conn_rel (cx_mem (sv_ctx sv)) c lk"
    using T unfolding th_rel_def by (auto simp: list_all2_Cons1)
  let ?M = "rest_blks (length dcaps) (length scaps) {PC t} (pl_blks no_hand no_hand sv ths)" and ?B = "rest_bases ths t"
  have B: "th_all_bases ths = add_mset ?a ?B" using th_all_bases_split(1)[of t ths] t l tl by (simp add: th_bases_def)
  have own: "own_ok ext (sv_ctx sv) (mset (conn_blks c) + ?M) (add_mset ?a ?B)"
    using srv_split1[OF R, of "PC t"] t B tl by (simp add: th_blks_def)
  have nb: "count ?B ?a = 0" using one B by simp
  have na: "?a \<notin># mset (conn_blks c) + ?M"
  proof
    assume "?a \<in># mset (conn_blks c) + ?M"
    from own_okD(3)[OF own this] show False by simp
  qed
  then have nm: "count (mset (conn_blks c) + ?M) ?a = 0" by (rule iffD2[OF count_eq_zero_iff])
  have cnt: "mref_count (cx_mref (sv_ctx sv)) ?a = ext ?a + 1" using own_okD(2)[OF own, of ?a] nb nm by simp
  have half: "?a < half64" using mref_live[OF blocks_okD(1)[OF own_okD(1)[OF own]], of ?a] cnt by auto
  obtain ctx1 where D: "rtmq_block_dec (sv_ctx sv) ?a = Some ctx1"
    using own_dec_base[OF own] by blast
  have hdl: "rtmq_rsvr_event_timeout_hdl now sv (ths ! t) = do {
      (sv', th') \<leftarrow> rtmq_rsvr_del_conn_hdl (sv\<lparr>sv_ctx := ctx1\<rparr>) ?th 0;
      Some (RTMQ_OK, sv'\<lparr>sv_ctx := rtmq_rsvr_cmd_proc_all_req (sv_ctx sv')\<rparr>, th') }"
    using c D unfolding rtmq_rsvr_event_timeout_hdl_def
    by (cases "rtmq_rsvr_del_conn_hdl (sv\<lparr>sv_ctx := ctx1\<rparr>) ?th 0") (auto simp: conn_at_def srv_dec_def conn_base_def)
  show ?thesis
  proof (cases "ext ?a")
    case 0
    have "own_ok ext ctx1 (mset (conn_blks c) + ?M) ?B" using own_dec_base[OF own] D by (metis option.inject)
    moreover from this have "mref_count (cx_mref ctx1) ?a = 0"
      using own_okD(2)[of ext ctx1 "mset (conn_blks c) + ?M" ?B ?a] 0 nb nm by simp
    ultimately have "srv_dec (sv\<lparr>sv_ctx := ctx1\<lparr>cx_svr_map := m\<rparr>\<rparr>) ?a = None" for m
      using half srv_dec_dead[of ext "sv\<lparr>sv_ctx := ctx1\<lparr>cx_svr_map := m\<rparr>\<rparr>" "mset (conn_blks c) + ?M" ?B ?a] by simp
    then have "rtmq_rsvr_del_conn_hdl (sv\<lparr>sv_ctx := ctx1\<rparr>) ?th 0 = None"
      using c svr_map_del_ctx[of ctx1 "sint (sk_nid (cn_sck c))" "int (rv_id (th_rsvr (ths ! t)))"]
      by (simp add: rtmq_rsvr_del_conn_hdl_def rtmq_rsvr_sck_free_def conn_at_def conn_base_def case_prod_beta Let_def)
    then show ?thesis using 0 hdl by simp
  next
    case (Suc n)
    let ?ext = "ext(?a := n)"
    have "own_ok ?ext (sv_ctx sv) (mset (conn_blks c) + ?M) (add_mset ?a (add_mset ?a ?B))"
      by (rule own_more[OF own Suc])
    from own_dec_base[OF this] D have own1: "own_ok ?ext ctx1 (mset (conn_blks c) + ?M) (add_mset ?a ?B)"
      "\<And>b. b \<noteq> ?a \<Longrightarrow> cx_mem ctx1 b = cx_mem (sv_ctx sv) b" by (metis option.inject)+
    have "conn_rel (cx_mem ctx1) c lk" using own1(2) na by (intro conn_rel_frame[OF rel]) (metis set_mset_mset union_iff)
    from del_conn_ok[of ?ext "sv\<lparr>sv_ctx := ctx1\<rparr>" c ?M ?B lk ?th "[]" "[]"] this own1(1) c obtain ctx' where
      E: "rtmq_rsvr_del_conn_hdl (sv\<lparr>sv_ctx := ctx1\<rparr>) ?th 0 = Some (sv\<lparr>sv_ctx := ctx'\<rparr>,
        ?th\<lparr>th_conns := [], th_connections := th_connections ?th - 1\<rparr>)" "own_ok ?ext ctx' ?M ?B" by auto
    have "mref_count (cx_mref ctx') ?a = n" using own_okD(2)[OF E(2), of ?a] nb nm by simp
    moreover have "cx_mem ctx' ?a = None \<longleftrightarrow> n = 0" using blocks_okD(2)[OF own_okD(1)[OF E(2)]] calculation by simp
    ultimately show ?thesis using Suc hdl E(1) by (simp add: proc_all_mref)
  qed
qed

theorem rtmq_timeout_broken_witness:
  "\<exists>cap sv th ab c. srv_rel (\<lambda>_. 0) False [cap] [cap] no_hand no_hand sv [th] ab \<and> th_conns th = [Some c] \<and>
     rtmq_rsvr_event_timeout_hdl 60 sv th = None"
proof -
  obtain sv th ab c cap where D: "srv_rel (\<lambda>_. 0) False [cap] [cap] no_hand no_hand sv [th] ab" "th_conns th = [Some c]"
    "conn_base c = 4096" "cn_rdtm c = 0" "th_all_bases [th] = {#4096#}" by (rule send_demo)
  then show ?thesis using rtmq_timeout_broken[OF D(1), of 0 c 60] by auto
qed

end
