(* ===== verification/Spec2Isabelle.thy ===== *)
theory Spec2Isabelle
  imports Rb_Spec Chat_Spec Ring_Spec Timer_Spec Mref_Spec Iovec_Spec Quick_Sort Vector Rtmq_Spec Avl_Spec Rtmq_Sub Slist_Spec Clist_Spec Rtmq_Send_Spec
begin

text \<open>
  Verification of the C core of beehive-im, an instant messaging system.

  \<^bold>\<open>The program.\<close>  A listening daemon (\<open>src/clang/exec/listend\<close>) keeps the connections of the users and,
  in the chat module (\<open>src/clang/lib/chat\<close>), who is in which room.  It talks to the other services over a
  message queue (\<open>src/clang/lib/rtmq\<close>): a server receives framed messages on many connections, puts
  references to them into lock-free queues, and worker threads pass them to registered callbacks; messages that are
  sent go through a distribution queue and the queue of a receiving thread to a connection of their node.  Both rest
  on a library of containers (\<open>src/clang/lib/core\<close>): red-black and AVL trees, hash tables of such trees
  with a lock per slot, linked lists, rings, block pools, growing arrays, reference counts, a timer queue and send
  buffers.

  \<^bold>\<open>How the code is modelled.\<close>  One definition per function, in the order of the source.  Nodes and blocks live at
  addresses of an explicit heap; \<open>None\<close> is undefined behaviour (an invalid access, a failed \<open>assert\<close>), a call that
  never returns, or a lock that is never granted; return codes are values.  Machine integers are words.
  Allocation, the clock, \<open>rand\<close> and the network are arguments: lists of the outcomes to come, or functions.
  Loops that need an argument to end are \<open>partial_function\<close>s; that they end is part of the theorems.

  \<^bold>\<open>The theories.\<close>
  \<^item> \<open>Prelude\<close>: addresses, heaps, allocation outcomes and general lemmas.
  \<^item> \<open>Rb_Tree\<close> (\<open>core/rb_tree.c\<close>: nodes with parent pointers and a sentinel), \<open>Rb_Zip\<close> (trees with a
    focus), \<open>Rb_Insert\<close>, \<open>Rb_Delete\<close>, \<open>Rb_Ops\<close>, \<open>Rb_Trav\<close>, \<open>Rb_Destroy\<close>, \<open>Rb_Spec\<close>: every
    operation on the heap refines the operation on an ordered, coloured, balanced tree; what a comparison must
    promise is the locale \<open>cmp_callback\<close>.
  \<^item> \<open>Hash_Tab\<close> (\<open>core/hash_tab.c\<close>), \<open>Hash_Quiet\<close>, \<open>Hash_Spec\<close>: slots, locks and callbacks; a table
    is a finite map, and locks are held as the caller asked.  \<open>hash_callbacks\<close> is the contract of its users.
  \<^item> \<open>Chat_Data\<close>, \<open>Chat\<close>, \<open>Chat_Session\<close>, \<open>Chat_Sub\<close>, \<open>Chat_Clean\<close>, \<open>Chat_Api\<close>
    (\<open>chat/chat.c\<close>, \<open>chat/chat_tab.c\<close>), \<open>Chat_Inv\<close>, \<open>Chat_Reach\<close>, \<open>Chat_Spec\<close>: rooms, groups,
    sessions and subscriptions over nested hash tables, a step relation of all operations, its reachable states.
  \<^item> \<open>Ring\<close> (\<open>core/ring.c\<close>), \<open>Ring_Conc\<close>, \<open>Ring_Queue\<close> (\<open>core/slot.c\<close>, \<open>core/queue.c\<close>),
    \<open>Ring_Spec\<close>: the ring as one thread runs it and as an interleaving of threads; pools of blocks; queues.
  \<^item> \<open>Timer\<close>, \<open>Timer_Heap\<close>, \<open>Timer_Spec\<close> (\<open>core/timer.c\<close>): the heap of tasks and a round of its thread.
  \<^item> \<open>Mref\<close>, \<open>Mref_Count\<close>, \<open>Mref_Spec\<close> (\<open>core/mref.c\<close>): reference counts in a hash table refine a
    map of counters.
  \<^item> \<open>Iovec\<close>, \<open>Iovec_Spec\<close> (\<open>core/iovec.c\<close>), \<open>Quick_Sort\<close> (\<open>core/quick_sort.c\<close>), \<open>Vector\<close>
    (\<open>core/vector.c\<close>).
  \<^item> \<open>Avl_Tree\<close> (\<open>core/avl_tree.c\<close>: nodes with parent pointers and balance factors), \<open>Avl_Zip\<close> (trees with a
    focus), \<open>Avl_Insert\<close>, \<open>Avl_Ops\<close>, \<open>Avl_Delete\<close>, \<open>Avl_Spec\<close>: a finite map, well formed and balanced.
  \<^item> \<open>List_Iface\<close> (the locale \<open>list_refinement\<close>), \<open>Slist\<close>, \<open>Slist_Spec\<close> (\<open>core/list.c\<close>), \<open>Clist\<close>,
    \<open>Clist_Spec\<close> (\<open>core/list2.c\<close>): a chain with a head and a tail and a ring of nodes linked both ways, each a list
    under any sequence of operations.
  \<^item> \<open>Rtmq_Mesg\<close> (\<open>incl/rtmq/rtmq_mesg.h\<close>, \<open>incl/mesg.h\<close>): headers, byte order, memory.
    \<open>Rtmq\<close> (\<open>rtmq/server/rtmq_rsvr.c\<close>, \<open>rtmq_comm.c\<close>, \<open>rtmq_worker.c\<close>): the receiving side, that is a connection that
    is read and the worker.  \<open>Rtmq_Frame\<close>: the framing loop for any handler of messages, the locale
    \<open>frame_handler\<close>.  \<open>Rtmq_Inv\<close>, \<open>Rtmq_Hdl\<close>, \<open>Rtmq_Work\<close>: who refers to which block, the handlers of the server, the
    worker.  \<open>Rtmq_Spec\<close>: both together refine a system of queues of messages.
  \<^item> \<open>Rtmq_Sub\<close> (\<open>rtmq_comm.c\<close>, \<open>rtmq_recv.c\<close>, \<open>rtmq_rsvr.c\<close>): the table of subscriptions and publishing.
  \<^item> \<open>Rtmq_Out\<close>: messages in a send buffer.  \<open>Rtmq_Server\<close> (\<open>rtmq_recv.c\<close>, \<open>rtmq_dist.c\<close>, \<open>rtmq_lsn.c\<close>,
    \<open>rtmq_rsvr.c\<close>): the sending side, the connections of a thread and its events.  \<open>Rtmq_Own\<close>: every block that is on
    its way out has one owner.  \<open>Rtmq_Route\<close>: the abstract system and the operations on one connection.
    \<open>Rtmq_Send\<close>, \<open>Rtmq_Give\<close>, \<open>Rtmq_Write\<close>: distribution, the choice of a connection, writing and closing are steps
    of it.  \<open>Rtmq_Run\<close>: it keeps its messages, and runs of events are its paths.  \<open>Rtmq_Accept\<close>: new connections.
    \<open>Rtmq_Send_Spec\<close>: the properties.

  \<^bold>\<open>Interfaces.\<close>  What a component relies on in another is a locale, interpreted where it is provided:
  \<open>cmp_callback\<close> and \<open>hash_callbacks\<close> (keys of trees and tables), \<open>bounded_queue\<close> in \<open>Ring_Queue\<close> (a ring as a
  queue of bounded length), \<open>ref_counts\<close> in \<open>Mref_Count\<close> (blocks that are counted), \<open>frame_handler\<close> (what is done
  with a message) and \<open>list_refinement\<close> (operations that keep a list).

  \<^bold>\<open>What the lemmas show.\<close>  Each component has a well-formedness invariant that every operation keeps
  (\<open>rbt_ok\<close> and its relatives, \<open>ring_ok\<close>, \<open>pool_ok\<close>, \<open>mref_ok\<close>), a function that reads off the
  abstract value (a tree, a map, a list, a map of counters, a byte stream, a system of queues), and lemmas that give the result of every
  operation on every branch, failed allocations included.  The theories named \<open>*_Spec\<close> hold the
  properties, each with a concrete instance of its hypotheses where it has any.

  \<^bold>\<open>Bounds.\<close>  Sizes are those of the code: a ring has a power of two of entries and 32-bit counters that
  wrap, a counter of references stays below \<open>2 ^ 31\<close>, a traversal uses a stack of \<open>RBT_MAX_DEPTH\<close>
  entries, which a balanced tree of fewer than \<open>2 ^ 64\<close> elements never exceeds, a receive buffer has 5 MB.

  \<^bold>\<open>Not modelled.\<close>  Logging; the loops over \<open>select\<close> themselves (one round of a receiving thread is
  \<open>rtmq_rsvr_event_core_hdl\<close>), sockets and pipes, whose results are arguments; the start of the services; the proxy
  of the message queue, which repeats framing and sending on the side of the client; threads, except for the ring,
  whose concurrent operations are a step relation, and the locks of the hash tables; configuration and its XML
  parser; the containers on shared memory, B-trees and tries, which the services do not use; generated
  protobuf code; the websocket front end on a third-party library; the Go services.
\<close>

end
